(* ===== verification/Prelude.thy ===== *)
theory Prelude
  imports Main "HOL-Library.Word" "HOL-Library.Monad_Syntax"
begin

text \<open>
  Shared vocabulary of the development: the C integer types as ranges of \<open>int\<close> with the
  narrowing conversions written out, the truncating division of C, the error codes of
  \<open>libavutil/error.h\<close> and \<open>errno.h\<close>, checked access to byte arrays (an access outside the
  array is \<open>None\<close>, the model of C's undefined behaviour), and the small arithmetic lemmas
  the components share.
\<close>

named_theorems c_simps
  \<open>equations that evaluate C arithmetic on values known to be in range\<close>

section \<open>Integer types\<close>

type_synonym byte = "8 word"
type_synonym u16 = "16 word"
type_synonym u32 = "32 word"
type_synonym u64 = "64 word"

abbreviation INT_MAX :: int where "INT_MAX \<equiv> 2147483647"
abbreviation INT_MIN :: int where "INT_MIN \<equiv> -2147483648"
abbreviation INT64_MAX :: int where "INT64_MAX \<equiv> 9223372036854775807"
abbreviation INT64_MIN :: int where "INT64_MIN \<equiv> -9223372036854775808"
abbreviation AV_NOPTS_VALUE :: int where "AV_NOPTS_VALUE \<equiv> -9223372036854775808"

definition in_i32 :: "int \<Rightarrow> bool" where
  "in_i32 x \<longleftrightarrow> INT_MIN \<le> x \<and> x \<le> INT_MAX"

definition in_i64 :: "int \<Rightarrow> bool" where
  "in_i64 x \<longleftrightarrow> INT64_MIN \<le> x \<and> x \<le> INT64_MAX"

text \<open>Conversion to a 32- or 64-bit two's complement integer.\<close>

definition i32 :: "int \<Rightarrow> int" where
  "i32 x = (x + 2147483648) mod 4294967296 - 2147483648"

definition i64 :: "int \<Rightarrow> int" where
  "i64 x = (x + 9223372036854775808) mod 18446744073709551616 - 9223372036854775808"

definition u64i :: "int \<Rightarrow> int" where
  "u64i x = x mod 18446744073709551616"

lemma i32_id [c_simps]: "in_i32 x \<Longrightarrow> i32 x = x"
  by (simp add: i32_def in_i32_def)

lemma i64_id [c_simps]: "in_i64 x \<Longrightarrow> i64 x = x"
  by (simp add: i64_def in_i64_def)

lemma in_i64_i64: "in_i64 (i64 x)"
  using pos_mod_bound [of 18446744073709551616 "x + 9223372036854775808"]
    pos_mod_sign [of 18446744073709551616 "x + 9223372036854775808"]
  unfolding in_i64_def i64_def by linarith

lemma u64i_id [c_simps]: "0 \<le> x \<Longrightarrow> x < 18446744073709551616 \<Longrightarrow> u64i x = x"
  by (simp add: u64i_def)

text \<open>Division and remainder of C, which round towards zero.\<close>

definition c_div :: "int \<Rightarrow> int \<Rightarrow> int" where
  "c_div a b = sgn a * sgn b * (\<bar>a\<bar> div \<bar>b\<bar>)"

definition c_mod :: "int \<Rightarrow> int \<Rightarrow> int" where
  "c_mod a b = a - c_div a b * b"

lemma c_div_nonneg [c_simps]: "0 \<le> a \<Longrightarrow> 0 < b \<Longrightarrow> c_div a b = a div b"
  by (cases "a = 0") (simp_all add: c_div_def)

lemma c_mod_nonneg [c_simps]: "0 \<le> a \<Longrightarrow> 0 < b \<Longrightarrow> c_mod a b = a mod b"
  by (simp add: c_mod_def c_div_nonneg minus_div_mult_eq_mod)

lemma c_div_neg [c_simps]: "a < 0 \<Longrightarrow> 0 < b \<Longrightarrow> c_div a b = - ((- a) div b)"
  by (simp add: c_div_def)

lemma c_mod_neg [c_simps]: "a < 0 \<Longrightarrow> 0 < b \<Longrightarrow> c_mod a b = - ((- a) mod b)"
  by (simp add: c_mod_def c_div_neg minus_div_mult_eq_mod [symmetric])

section \<open>Error codes\<close>

definition MKTAG :: "int \<Rightarrow> int \<Rightarrow> int \<Rightarrow> int \<Rightarrow> int" where
  "MKTAG a b c d = a + b * 256 + c * 65536 + d * 16777216"

definition AVERROR_EOF :: int where
  "AVERROR_EOF = - MKTAG 69 79 70 32"

definition AVERROR_INVALIDDATA :: int where
  "AVERROR_INVALIDDATA = - MKTAG 73 78 68 65"

text \<open>\<open>AVERROR(e)\<close> of the positive \<open>errno\<close> values of Linux and Android.\<close>

abbreviation AVERROR_EIO :: int where "AVERROR_EIO \<equiv> -5"
abbreviation AVERROR_EAGAIN :: int where "AVERROR_EAGAIN \<equiv> -11"
abbreviation AVERROR_ENOMEM :: int where "AVERROR_ENOMEM \<equiv> -12"
abbreviation AVERROR_EINVAL :: int where "AVERROR_EINVAL \<equiv> -22"
abbreviation AVERROR_EFBIG :: int where "AVERROR_EFBIG \<equiv> -27"
abbreviation AVERROR_ENOSPC :: int where "AVERROR_ENOSPC \<equiv> -28"
abbreviation AVERROR_ERANGE :: int where "AVERROR_ERANGE \<equiv> -34"
abbreviation AVERROR_ENOSYS :: int where "AVERROR_ENOSYS \<equiv> -38"
abbreviation AVERROR_ETIMEDOUT :: int where "AVERROR_ETIMEDOUT \<equiv> -110"

lemma AVERROR_EOF_value: "AVERROR_EOF = -541478725"
  by (simp add: AVERROR_EOF_def MKTAG_def)

lemma AVERROR_INVALIDDATA_value: "AVERROR_INVALIDDATA = -1094995529"
  by (simp add: AVERROR_INVALIDDATA_def MKTAG_def)

lemmas averror_values = AVERROR_EOF_value AVERROR_INVALIDDATA_value

section \<open>Arrays with checked access\<close>

text \<open>
  Reading or writing outside an array is undefined behaviour in C. The models below read
  with \<open>peek\<close> and write with \<open>poke\<close>; both are \<open>None\<close> outside the array, so that a
  theorem that a routine returns \<open>Some\<close> is a theorem that it never leaves its buffers.
\<close>

definition peek :: "'a list \<Rightarrow> int \<Rightarrow> 'a option" where
  "peek xs i = (if 0 \<le> i \<and> i < int (length xs) then Some (xs ! nat i) else None)"

definition poke :: "'a list \<Rightarrow> int \<Rightarrow> 'a \<Rightarrow> 'a list option" where
  "poke xs i v = (if 0 \<le> i \<and> i < int (length xs) then Some (xs[nat i := v]) else None)"

lemma peek_in [simp]: "0 \<le> i \<Longrightarrow> i < int (length xs) \<Longrightarrow> peek xs i = Some (xs ! nat i)"
  by (simp add: peek_def)

lemma poke_in [simp]: "0 \<le> i \<Longrightarrow> i < int (length xs) \<Longrightarrow> poke xs i v = Some (xs[nat i := v])"
  by (simp add: poke_def)

lemma poke_length: "poke xs i v = Some ys \<Longrightarrow> length ys = length xs"
  by (auto simp: poke_def split: if_splits)

lemma poke_SomeD: "poke xs i v = Some ys \<Longrightarrow> 0 \<le> i \<and> i < int (length xs) \<and> ys = xs[nat i := v]"
  by (auto simp: poke_def split: if_splits)

text \<open>The slice of \<open>n\<close> elements from offset \<open>i\<close>, and overwriting a slice (\<open>memcpy\<close>).\<close>

definition slice :: "nat \<Rightarrow> nat \<Rightarrow> 'a list \<Rightarrow> 'a list" where
  "slice i n xs = take n (drop i xs)"

definition splice :: "nat \<Rightarrow> 'a list \<Rightarrow> 'a list \<Rightarrow> 'a list" where
  "splice i ys xs = take i xs @ ys @ drop (i + length ys) xs"

lemma length_slice [simp]: "i + n \<le> length xs \<Longrightarrow> length (slice i n xs) = n"
  by (simp add: slice_def)

lemma length_splice [simp]: "i + length ys \<le> length xs \<Longrightarrow> length (splice i ys xs) = length xs"
  by (simp add: splice_def)

lemma slice_0 [simp]: "slice i 0 xs = []"
  by (simp add: slice_def)

lemma nth_slice: "j < n \<Longrightarrow> i + n \<le> length xs \<Longrightarrow> slice i n xs ! j = xs ! (i + j)"
  by (simp add: slice_def)

lemma nth_splice:
  "i + length ys \<le> length xs \<Longrightarrow> j < length xs \<Longrightarrow>
   splice i ys xs ! j = (if i \<le> j \<and> j < i + length ys then ys ! (j - i) else xs ! j)"
  by (auto simp: splice_def nth_append)

lemma slice_concat:
  assumes "i \<le> j" "j \<le> k"
  shows "slice i (j - i) xs @ slice j (k - j) xs = slice i (k - i) xs"
proof -
  have "take (j - i) (drop i xs) @ take (k - j) (drop (j - i) (drop i xs)) = take (j - i + (k - j)) (drop i xs)"
    by (rule take_add [symmetric])
  with assms show ?thesis by (simp add: slice_def)
qed

text \<open>Loading and storing \<open>n\<close> consecutive elements; \<open>None\<close> outside the array.\<close>

definition load :: "'a list \<Rightarrow> int \<Rightarrow> nat \<Rightarrow> 'a list option" where
  "load xs i n = (if 0 \<le> i \<and> i + int n \<le> int (length xs) then Some (slice (nat i) n xs) else None)"

definition store :: "'a list \<Rightarrow> int \<Rightarrow> 'a list \<Rightarrow> 'a list option" where
  "store xs i ys =
     (if 0 \<le> i \<and> i + int (length ys) \<le> int (length xs) then Some (splice (nat i) ys xs) else None)"

lemma load_in [simp]: "0 \<le> i \<Longrightarrow> i + int n \<le> int (length xs) \<Longrightarrow> load xs i n = Some (slice (nat i) n xs)"
  by (simp add: load_def)

lemma store_in [simp]:
  "0 \<le> i \<Longrightarrow> i + int (length ys) \<le> int (length xs) \<Longrightarrow> store xs i ys = Some (splice (nat i) ys xs)"
  by (simp add: store_def)

lemma slice_splice_same:
  "i + length ys \<le> length xs \<Longrightarrow> slice i (length ys) (splice i ys xs) = ys"
  by (simp add: slice_def splice_def)

lemma slice_splice_other:
  assumes "i + length ys \<le> length xs" "j + n \<le> i \<or> i + length ys \<le> j" "j + n \<le> length xs"
  shows "slice j n (splice i ys xs) = slice j n xs"
proof (rule nth_equalityI)
  show "length (slice j n (splice i ys xs)) = length (slice j n xs)"
    using assms by simp
  fix k
  assume "k < length (slice j n (splice i ys xs))"
  with assms have k: "k < n" by simp
  with assms show "slice j n (splice i ys xs) ! k = slice j n xs ! k"
    by (auto simp: nth_slice nth_splice)
qed

section \<open>Flags\<close>

text \<open>The bit test \<open>flags & f\<close>, \<open>flags | f\<close> and \<open>flags & ~f\<close> for a power of two \<open>f\<close>.\<close>

definition has_flag :: "int \<Rightarrow> int \<Rightarrow> bool" where
  "has_flag flags f \<longleftrightarrow> (flags div f) mod 2 = 1"

definition set_flag :: "int \<Rightarrow> int \<Rightarrow> int" where
  "set_flag flags f = (if has_flag flags f then flags else flags + f)"

definition clear_flag :: "int \<Rightarrow> int \<Rightarrow> int" where
  "clear_flag flags f = (if has_flag flags f then flags - f else flags)"

section \<open>Counting loops\<close>

text \<open>
  \<open>for_upto n body s\<close> is the C loop \<open>for (i = 0; i < n; i++) body\<close> over a state \<open>s\<close>, with
  \<open>None\<close> for undefined behaviour in the body.
\<close>

primrec foldM :: "('i \<Rightarrow> 's \<Rightarrow> 's option) \<Rightarrow> 'i list \<Rightarrow> 's \<Rightarrow> 's option" where
  "foldM body [] s = Some s"
| "foldM body (i # is) s = (case body i s of None \<Rightarrow> None | Some t \<Rightarrow> foldM body is t)"

lemma foldM_append: "foldM body (xs @ ys) s = (case foldM body xs s of None \<Rightarrow> None | Some t \<Rightarrow> foldM body ys t)"
  by (induction xs arbitrary: s) (auto split: option.splits)

definition for_upto :: "nat \<Rightarrow> (nat \<Rightarrow> 's \<Rightarrow> 's option) \<Rightarrow> 's \<Rightarrow> 's option" where
  "for_upto n body s = foldM body [0..<n] s"

lemma for_upto_0 [simp]: "for_upto 0 body s = Some s"
  by (simp add: for_upto_def)

lemma for_upto_Suc:
  "for_upto (Suc n) body s = (case for_upto n body s of None \<Rightarrow> None | Some t \<Rightarrow> body n t)"
  by (auto simp: for_upto_def foldM_append split: option.splits)

lemma for_upto_rule:
  assumes "P 0 s" and "\<And>i t. i < n \<Longrightarrow> P i t \<Longrightarrow> \<exists>u. body i t = Some u \<and> P (Suc i) u"
  shows "\<exists>t. for_upto n body s = Some t \<and> P n t"
  using assms(2)
proof (induction n)
  case 0
  with assms(1) show ?case by simp
next
  case (Suc n)
  then obtain t where "for_upto n body s = Some t" "P n t" by (metis less_SucI)
  with Suc.prems [of n t] show ?case by (auto simp: for_upto_Suc)
qed

end
