(* ===== verification/JavaIO.thy ===== *)
theory JavaIO
  imports Prelude
begin

text \<open>
  The I/O callbacks of \<open>ffmpeg/jni/ffmpeg_thumbnail_jni.c\<close>: FFmpeg reads the media only
  through \<open>java_read_packet\<close> and \<open>java_seek\<close>, which forward to a Java
  \<open>RandomAccessSource\<close> and enforce a byte budget and a deadline. The state of the C struct
  \<open>JavaAvioContext\<close> is the record \<open>java_avio\<close>; what one call learns from outside (the
  clock, the Java methods, the allocator of Java arrays) is the record \<open>jni_env\<close>.
\<close>

definition AVIO_BUFFER_SIZE :: int where
  "AVIO_BUFFER_SIZE = 64 * 1024"

definition MAX_NATIVE_IO_BYTES :: int where
  "MAX_NATIVE_IO_BYTES = 256 * 1024 * 1024"

definition EXTRACTION_DEADLINE_US :: int where
  "EXTRACTION_DEADLINE_US = 90 * 1000 * 1000"

definition AVSEEK_SIZE :: int where "AVSEEK_SIZE = 65536"
definition AVSEEK_FORCE :: int where "AVSEEK_FORCE = 131072"
definition SEEK_SET :: int where "SEEK_SET = 0"
definition SEEK_CUR :: int where "SEEK_CUR = 1"
definition SEEK_END :: int where "SEEK_END = 2"

lemmas io_consts = MAX_NATIVE_IO_BYTES_def AVSEEK_SIZE_def AVSEEK_FORCE_def
  SEEK_SET_def SEEK_CUR_def SEEK_END_def

section \<open>State\<close>

text \<open>
  The Java byte array \<open>scratch\<close> is its contents, \<open>None\<close> for \<open>NULL\<close>. The JNI environment,
  the source object and the method identifiers never change during a run; they are the
  functions of \<open>jni_env\<close>.
\<close>

record java_avio =
  scratch :: "byte list option"
  scratch_capacity :: int
  position :: int
  total_size :: int
  total_read :: int
  deadline_us :: int
  failed :: bool

text \<open>
  \<open>new_byte_array n\<close> is the result of \<open>NewByteArray\<close> and whether an exception is pending;
  \<open>read_at pos array off len\<close> is the return value of \<open>readAt\<close>, whether it threw, and the
  array after the call; \<open>get_size\<close> is the result of \<open>getSize\<close> and whether it threw.
\<close>

record jni_env =
  now :: int
  new_byte_array :: "int \<Rightarrow> byte list option \<times> bool"
  read_at :: "int \<Rightarrow> byte list \<Rightarrow> int \<Rightarrow> int \<Rightarrow> int \<times> bool \<times> byte list"
  get_size :: "int \<times> bool"

section \<open>Operations\<close>

definition deadline_expired :: "int \<Rightarrow> java_avio \<Rightarrow> bool" where
  "deadline_expired clock c \<longleftrightarrow> deadline_us c > 0 \<and> clock \<ge> deadline_us c"

definition ensure_scratch :: "jni_env \<Rightarrow> java_avio \<Rightarrow> int \<Rightarrow> int \<times> java_avio" where
  "ensure_scratch env c requested =
     (if requested \<le> scratch_capacity c \<and> scratch c \<noteq> None then (0, c)
      else
        let c1 = (if scratch c \<noteq> None then c\<lparr>scratch := None, scratch_capacity := 0\<rparr> else c);
            (arr, exc) = new_byte_array env requested;
            c2 = c1\<lparr>scratch := arr\<rparr>
        in if arr = None \<or> exc then (AVERROR_ENOMEM, c2\<lparr>failed := True\<rparr>)
           else (0, c2\<lparr>scratch_capacity := requested\<rparr>))"

text \<open>
  \<open>GetByteArrayRegion(array, 0, n)\<close> copies \<open>n\<close> bytes, or throws when the array is shorter.
\<close>

definition get_byte_array_region :: "byte list \<Rightarrow> int \<Rightarrow> byte list option" where
  "get_byte_array_region arr n =
     (if 0 \<le> n \<and> n \<le> int (length arr) then Some (take (nat n) arr) else None)"

text \<open>
  The number of bytes one call asks Java for: the buffer size, cut to what is left of the
  stream and of the budget; \<open>Inl\<close> is an early return with its code and the new \<open>failed\<close> flag.
\<close>

definition read_request :: "java_avio \<Rightarrow> int \<Rightarrow> (int \<times> bool) + int" where
  "read_request c buffer_size =
     (let remaining = total_size c - position c in
      if total_size c \<ge> 0 \<and> remaining \<le> 0 then Inl (AVERROR_EOF, failed c)
      else
        let r1 = (if total_size c \<ge> 0 \<and> remaining < buffer_size then i32 remaining
                  else buffer_size);
            budget = MAX_NATIVE_IO_BYTES - total_read c;
            r2 = (if budget < r1 then i32 budget else r1)
        in if r2 \<le> 0 then Inl (AVERROR_EFBIG, True) else Inr r2)"

text \<open>
  The part of \<open>java_read_packet\<close> after the scratch array is ready: the call into Java and the
  copy into FFmpeg's buffer. The result is the return code, the bytes stored in the buffer
  and the new context.
\<close>

definition java_fetch :: "jni_env \<Rightarrow> java_avio \<Rightarrow> int \<Rightarrow> int \<times> byte list \<times> java_avio" where
  "java_fetch env c requested =
     (case scratch c of
        None \<Rightarrow> (AVERROR_EIO, [], c\<lparr>failed := True\<rparr>)
      | Some arr \<Rightarrow>
          let (n, exc, arr') = read_at env (position c) arr 0 requested;
              c1 = c\<lparr>scratch := Some arr'\<rparr>
          in if exc then (AVERROR_EIO, [], c1\<lparr>failed := True\<rparr>)
             else if n < 0 then (AVERROR_EOF, [], c1)
             else if n = 0 \<or> n > requested then (AVERROR_EIO, [], c1\<lparr>failed := True\<rparr>)
             else
               (case get_byte_array_region arr' n of
                  None \<Rightarrow> (AVERROR_EIO, [], c1\<lparr>failed := True\<rparr>)
                | Some bs \<Rightarrow>
                    (n, bs, c1\<lparr>position := i64 (position c1 + n),
                               total_read := i64 (total_read c1 + n)\<rparr>)))"

fun java_read_packet ::
  "jni_env \<Rightarrow> java_avio option \<Rightarrow> int \<Rightarrow> int \<times> byte list \<times> java_avio option" where
  "java_read_packet env None buffer_size = (AVERROR_EIO, [], None)"
| "java_read_packet env (Some c) buffer_size =
     (if failed c then (AVERROR_EIO, [], Some c)
      else if deadline_expired (now env) c then
        (AVERROR_ETIMEDOUT, [], Some (c\<lparr>failed := True\<rparr>))
      else if buffer_size \<le> 0 then (0, [], Some c)
      else if total_size c \<ge> 0 \<and> position c \<ge> total_size c then (AVERROR_EOF, [], Some c)
      else if total_read c \<ge> MAX_NATIVE_IO_BYTES then
        (AVERROR_EFBIG, [], Some (c\<lparr>failed := True\<rparr>))
      else
        (case read_request c buffer_size of
           Inl (e, f) \<Rightarrow> (e, [], Some (c\<lparr>failed := f\<rparr>))
         | Inr requested \<Rightarrow>
             (case ensure_scratch env c requested of
                (result, c1) \<Rightarrow>
                  if result < 0 then (result, [], Some c1)
                  else (case java_fetch env c1 requested of
                          (n, bs, c2) \<Rightarrow> (n, bs, Some c2)))))"

definition checked_add :: "int \<Rightarrow> int \<Rightarrow> int option" where
  "checked_add left right =
     (if (right > 0 \<and> left > INT64_MAX - right) \<or> (right < 0 \<and> left < INT64_MIN - right)
      then None else Some (left + right))"

text \<open>\<open>whence &= ~AVSEEK_FORCE\<close>: the bit \<open>0x20000\<close> is cleared.\<close>

definition clear_force :: "int \<Rightarrow> int" where
  "clear_force whence = (if (whence div AVSEEK_FORCE) mod 2 = 1 then whence - AVSEEK_FORCE else whence)"

definition seek_base :: "java_avio \<Rightarrow> int \<Rightarrow> int + int" where
  "seek_base c whence =
     (if whence = SEEK_SET then Inr 0
      else if whence = SEEK_CUR then Inr (position c)
      else if whence = SEEK_END then
        (if total_size c < 0 then Inl AVERROR_ENOSYS else Inr (total_size c))
      else Inl AVERROR_EINVAL)"

fun java_seek :: "jni_env \<Rightarrow> java_avio option \<Rightarrow> int \<Rightarrow> int \<Rightarrow> int \<times> java_avio option" where
  "java_seek env None offset whence = (AVERROR_EIO, None)"
| "java_seek env (Some c) offset whence =
     (if failed c then (AVERROR_EIO, Some c)
      else if deadline_expired (now env) c then
        (AVERROR_ETIMEDOUT, Some (c\<lparr>failed := True\<rparr>))
      else if whence = AVSEEK_SIZE then
        (if total_size c \<ge> 0 then (total_size c, Some c)
         else let (size, exc) = get_size env in
           if exc then (AVERROR_ENOSYS, Some c)
           else if size \<ge> 0 then (size, Some (c\<lparr>total_size := size\<rparr>))
           else (AVERROR_ENOSYS, Some c))
      else
        (case seek_base c (clear_force whence) of
           Inl e \<Rightarrow> (e, Some c)
         | Inr base \<Rightarrow>
             (case checked_add base offset of
                None \<Rightarrow> (AVERROR_EINVAL, Some c)
              | Some next \<Rightarrow>
                  if next < 0 then (AVERROR_EINVAL, Some c)
                  else (next, Some (c\<lparr>position := next\<rparr>)))))"

fun ffmpeg_interrupt :: "int \<Rightarrow> java_avio option \<Rightarrow> bool" where
  "ffmpeg_interrupt clock None = True"
| "ffmpeg_interrupt clock (Some c) = (failed c \<or> deadline_expired clock c)"


section \<open>Basic facts about one call\<close>

text \<open>The fields of the stream state that only a successful transfer or a seek changes.\<close>

definition same_stream :: "java_avio \<Rightarrow> java_avio \<Rightarrow> bool" where
  "same_stream c d \<longleftrightarrow> position d = position c \<and> total_size d = total_size c \<and>
     total_read d = total_read c \<and> deadline_us d = deadline_us c"

lemma same_stream_simps [simp]:
  "same_stream c c"
  "same_stream c (d\<lparr>failed := b\<rparr>) = same_stream c d"
  "same_stream c (d\<lparr>scratch := a\<rparr>) = same_stream c d"
  "same_stream c (d\<lparr>scratch_capacity := k\<rparr>) = same_stream c d"
  by (simp_all add: same_stream_def)

lemma same_stream_trans [trans]: "same_stream c d \<Longrightarrow> same_stream d e \<Longrightarrow> same_stream c e"
  by (simp add: same_stream_def)

lemma ensure_scratch_frame:
  assumes "ensure_scratch env c n = (r, c1)"
  shows "same_stream c c1" "r = 0 \<or> r = AVERROR_ENOMEM"
    "r = 0 \<Longrightarrow> failed c1 = failed c" "r \<noteq> 0 \<Longrightarrow> failed c1" "r = 0 \<Longrightarrow> scratch c1 \<noteq> None"
  using assms by (auto simp: ensure_scratch_def Let_def split: if_splits prod.splits)

lemma java_fetch_frame:
  "java_fetch env c q = (k, bs, d) \<Longrightarrow> k \<le> 0 \<Longrightarrow> bs = [] \<and> same_stream c d"
  by (auto simp: java_fetch_def get_byte_array_region_def Let_def
      split: if_splits option.splits prod.splits)

lemma read_request_Inr:
  assumes "read_request c n = Inr requested" "0 \<le> total_read c" "total_read c < MAX_NATIVE_IO_BYTES"
    and "n \<le> INT_MAX"
  shows "0 < requested" "requested \<le> n" "requested \<le> MAX_NATIVE_IO_BYTES - total_read c"
    "total_size c \<ge> 0 \<Longrightarrow> requested \<le> total_size c - position c"
  using assms
  by (auto simp: read_request_def Let_def i32_id in_i32_def io_consts split: if_splits)

lemma read_request_exists:
  assumes "0 < n" "0 \<le> total_read c" "total_read c < MAX_NATIVE_IO_BYTES" "n \<le> INT_MAX"
    and "total_size c \<ge> 0 \<Longrightarrow> position c < total_size c"
  shows "\<exists>q. read_request c n = Inr q"
  using assms
  by (auto simp: read_request_def Let_def i32_id in_i32_def io_consts)

text \<open>The guards a call passes before it asks Java for bytes.\<close>

definition read_ready :: "jni_env \<Rightarrow> java_avio \<Rightarrow> int \<Rightarrow> bool" where
  "read_ready env c n \<longleftrightarrow> \<not> failed c \<and> \<not> deadline_expired (now env) c \<and> 0 < n \<and>
     (total_size c \<ge> 0 \<longrightarrow> position c < total_size c) \<and> total_read c < MAX_NATIVE_IO_BYTES"

lemma not_ready_frame:
  assumes "java_read_packet env (Some c) n = (r, bs, c')" "\<not> read_ready env c n"
  shows "r \<le> 0 \<and> bs = [] \<and> (\<exists>d. c' = Some d \<and> same_stream c d \<and> (failed c \<longrightarrow> d = c))"
  using assms by (auto simp: read_ready_def averror_values split: if_splits)

lemma ready_read:
  assumes "read_ready env c n" "read_request c n = Inr q" "ensure_scratch env c q = (e, c1)"
  shows "java_read_packet env (Some c) n =
    (if e < 0 then (e, [], Some c1)
     else case java_fetch env c1 q of (k, bs, c2) \<Rightarrow> (k, bs, Some c2))"
  using assms by (auto simp: read_ready_def)

lemma ready_no_request:
  assumes "read_ready env c n" "read_request c n = Inl (e, f)"
  shows "java_read_packet env (Some c) n = (e, [], Some (c\<lparr>failed := f\<rparr>))" "e < 0"
  using assms
  by (auto simp: read_ready_def read_request_def Let_def averror_values split: if_splits)

text \<open>What a successful read did.\<close>

lemma read_successE:
  assumes read: "java_read_packet env (Some c) n = (r, bs, Some c')" and r: "0 < r"
  obtains q c1 arr arr' where "read_ready env c n" "read_request c n = Inr q"
    "ensure_scratch env c q = (0, c1)" "scratch c1 = Some arr" "same_stream c c1"
    "read_at env (position c) arr 0 q = (r, False, arr')"
    "r \<le> q" "r \<le> int (length arr')" "bs = take (nat r) arr'"
    "c' = c1\<lparr>scratch := Some arr', position := i64 (position c + r),
             total_read := i64 (total_read c + r)\<rparr>"
proof -
  from read r have ready: "read_ready env c n"
    using not_ready_frame by fastforce
  with read r obtain q where q: "read_request c n = Inr q"
    using ready_no_request by (cases "read_request c n") fastforce+
  obtain e c1 where es: "ensure_scratch env c q = (e, c1)"
    by fastforce
  note fr = ensure_scratch_frame [OF es]
  from read r ready_read [OF ready q es] fr(2) have e: "e = 0"
    by (auto split: if_splits)
  then obtain arr where arr: "scratch c1 = Some arr"
    using fr(5) by auto
  from read ready_read [OF ready q es] e
  have fetch: "java_fetch env c1 q = (r, bs, c')"
    by (auto split: prod.splits)
  obtain k exc arr' where ra: "read_at env (position c) arr 0 q = (k, exc, arr')"
    by (metis prod_cases3)
  from fr(1) have pos: "position c1 = position c" "total_read c1 = total_read c"
    by (simp_all add: same_stream_def)
  show thesis
    by (rule that [of q c1 arr arr'])
      (use fetch arr ra pos r ready q es e fr(1) in
        \<open>auto simp: java_fetch_def get_byte_array_region_def averror_values Let_def
           split: if_splits option.splits\<close>)
qed

lemma read_failure_frame:
  assumes read: "java_read_packet env (Some c) n = (r, bs, c')" and r: "r \<le> 0"
  shows "bs = [] \<and> (\<exists>d. c' = Some d \<and> same_stream c d \<and> (failed c \<longrightarrow> d = c))"
proof (cases "read_ready env c n")
  case False
  then show ?thesis using not_ready_frame [OF read] by blast
next
  case ready: True
  then have nf: "\<not> failed c" by (simp add: read_ready_def)
  show ?thesis
  proof (cases "read_request c n")
    case (Inl p)
    then show ?thesis
      using ready_no_request [OF ready, of "fst p" "snd p"] read nf by auto
  next
    case (Inr q)
    obtain e c1 where es: "ensure_scratch env c q = (e, c1)"
      by fastforce
    show ?thesis
      using ready_read [OF ready Inr es] read r nf ensure_scratch_frame(1) [OF es]
      by (auto dest!: java_fetch_frame intro: same_stream_trans split: if_splits prod.splits)
  qed
qed

section \<open>Invariant and runs\<close>

text \<open>
  What the Java side promises, as named hypotheses: a new array has the requested length, a
  call does not change the length of the array it fills, and a source never claims bytes past
  the largest file offset.
\<close>

definition env_ok :: "jni_env \<Rightarrow> bool" where
  "env_ok env \<longleftrightarrow>
     (\<forall>n a. fst (new_byte_array env n) = Some a \<longrightarrow> int (length a) = n) \<and>
     (\<forall>p a q. length (snd (snd (read_at env p a 0 q))) = length a) \<and>
     (\<forall>p a q. 0 < fst (read_at env p a 0 q) \<longrightarrow> p + fst (read_at env p a 0 q) \<le> INT64_MAX) \<and>
     fst (get_size env) \<le> INT64_MAX"

definition avio_ok :: "java_avio \<Rightarrow> bool" where
  "avio_ok c \<longleftrightarrow> 0 \<le> position c \<and> position c \<le> INT64_MAX \<and>
     - 1 \<le> total_size c \<and> total_size c \<le> INT64_MAX \<and>
     0 \<le> total_read c \<and> total_read c \<le> MAX_NATIVE_IO_BYTES \<and> 0 \<le> scratch_capacity c \<and>
     (case scratch c of None \<Rightarrow> scratch_capacity c = 0
                      | Some a \<Rightarrow> scratch_capacity c \<le> int (length a))"

text \<open>The context that \<open>nativeExtractFrame\<close> sets up after \<open>memset\<close>.\<close>

definition initial_avio :: "int \<Rightarrow> int \<Rightarrow> java_avio" where
  "initial_avio clock src_size =
     \<lparr>scratch = None, scratch_capacity = 0, position = 0,
      total_size = (if src_size \<ge> 0 then src_size else - 1), total_read = 0,
      deadline_us = clock + EXTRACTION_DEADLINE_US, failed = False\<rparr>"

lemma avio_ok_initial: "in_i64 src_size \<Longrightarrow> avio_ok (initial_avio clock src_size)"
  by (simp add: avio_ok_def initial_avio_def in_i64_def io_consts)

lemma avio_ok_failed [simp]: "avio_ok (c\<lparr>failed := b\<rparr>) = avio_ok c"
  by (simp add: avio_ok_def cong: option.case_cong)

lemma avio_ok_scratch:
  assumes "avio_ok c" "env_ok env" "ensure_scratch env c q = (e, c1)" "0 < q"
  shows "avio_ok c1 \<and> (e = 0 \<longrightarrow> (\<exists>a. scratch c1 = Some a \<and> q \<le> int (length a)))"
proof -
  obtain arr exc where new: "new_byte_array env q = (arr, exc)"
    by fastforce
  with assms(2) have len: "arr = Some a \<Longrightarrow> int (length a) = q" for a
    by (auto simp: env_ok_def)
  show ?thesis
    using assms(1,3,4) new len
    by (cases "scratch c"; cases arr)
      (auto simp: avio_ok_def ensure_scratch_def Let_def split: if_splits)
qed

lemma avio_ok_fetch:
  assumes "avio_ok c" "env_ok env" "java_fetch env c q = (k, bs, d)"
    and "q \<le> MAX_NATIVE_IO_BYTES - total_read c"
  shows "avio_ok d"
proof (cases "scratch c")
  case None
  with assms show ?thesis by (auto simp: java_fetch_def avio_ok_def)
next
  case (Some arr)
  obtain n exc arr' where ra: "read_at env (position c) arr 0 q = (n, exc, arr')"
    by (metis prod_cases3)
  from assms(2) have len: "length arr' = length arr"
    using ra unfolding env_ok_def by (metis snd_conv)
  from assms(2) have fit: "0 < n \<Longrightarrow> position c + n \<le> INT64_MAX"
    using ra unfolding env_ok_def by (metis fst_conv)
  have wrap: "i64 (position c + n) = position c + n" "i64 (total_read c + n) = total_read c + n"
    if "0 < n" "n \<le> q"
    using assms(1,4) fit that by (auto simp: avio_ok_def in_i64_def io_consts intro!: i64_id)
  show ?thesis
    using assms Some ra len fit wrap
    by (auto simp: java_fetch_def avio_ok_def Let_def split: if_splits option.splits)
qed

lemma avio_ok_read:
  assumes ok: "avio_ok c" and env: "env_ok env" and n: "n \<le> INT_MAX"
    and read: "java_read_packet env (Some c) n = (r, bs, Some d)"
  shows "avio_ok d"
proof (cases "read_ready env c n")
  case False
  with read ok show ?thesis
    by (auto simp: read_ready_def split: if_splits)
next
  case ready: True
  show ?thesis
  proof (cases "read_request c n")
    case (Inl p)
    with ready_no_request [OF ready, of "fst p" "snd p"] read ok
    show ?thesis by auto
  next
    case (Inr q)
    obtain e c1 where es: "ensure_scratch env c q = (e, c1)" by fastforce
    from ready ok have tr: "0 \<le> total_read c" "total_read c < MAX_NATIVE_IO_BYTES"
      by (auto simp: avio_ok_def read_ready_def)
    note q = read_request_Inr [OF Inr tr n]
    have c1: "avio_ok c1" "total_read c1 = total_read c"
      using avio_ok_scratch [OF ok env es q(1)] ensure_scratch_frame(1) [OF es]
      by (auto simp: same_stream_def)
    show ?thesis
      using ready_read [OF ready Inr es] read c1 q(3) avio_ok_fetch [OF c1(1) env]
      by (auto split: if_splits prod.splits)
  qed
qed

lemma checked_add_correct:
  assumes "in_i64 a" "in_i64 b"
  shows "checked_add a b = (if in_i64 (a + b) then Some (a + b) else None)"
  using assms by (auto simp: checked_add_def in_i64_def)

lemma avio_ok_seek:
  assumes "avio_ok c" "env_ok env" "in_i64 offset"
    and "java_seek env (Some c) offset whence = (r, Some d)"
  shows "avio_ok d"
  using assms
  by (auto simp: avio_ok_def env_ok_def seek_base_def checked_add_def in_i64_def Let_def
      split: if_splits sum.splits option.splits prod.splits)

text \<open>A run is any interleaving of the two callbacks; it returns the bytes each call stored.\<close>

datatype io_event = Read jni_env int | Seek jni_env int int

primrec event_env :: "io_event \<Rightarrow> jni_env" where
  "event_env (Read env n) = env"
| "event_env (Seek env offset whence) = env"

primrec event_ok :: "io_event \<Rightarrow> bool" where
  "event_ok (Read env n) \<longleftrightarrow> env_ok env \<and> n \<le> INT_MAX"
| "event_ok (Seek env offset whence) \<longleftrightarrow> env_ok env \<and> in_i64 offset"

fun io_step :: "java_avio \<Rightarrow> io_event \<Rightarrow> (int \<times> byte list) \<times> java_avio" where
  "io_step c (Read env n) =
     (case java_read_packet env (Some c) n of (r, bs, c') \<Rightarrow> ((r, bs), the c'))"
| "io_step c (Seek env offset whence) =
     (case java_seek env (Some c) offset whence of (r, c') \<Rightarrow> ((r, []), the c'))"

fun io_run :: "java_avio \<Rightarrow> io_event list \<Rightarrow> (int \<times> byte list) list \<times> java_avio" where
  "io_run c [] = ([], c)"
| "io_run c (e # es) =
     (case io_step c e of (out, c1) \<Rightarrow> case io_run c1 es of (outs, c2) \<Rightarrow> (out # outs, c2))"

text \<open>A call on a context returns a context.\<close>

lemma read_returns_context: "\<exists>r bs d. java_read_packet env (Some c) n = (r, bs, Some d)"
proof (cases "read_ready env c n")
  case False
  then show ?thesis using not_ready_frame by (metis prod_cases3)
next
  case ready: True
  show ?thesis
  proof (cases "read_request c n")
    case (Inl p)
    then show ?thesis
      using ready_no_request [OF ready, of "fst p" "snd p"] by simp
  next
    case (Inr q)
    then show ?thesis
      using ready_read [OF ready Inr, of "fst (ensure_scratch env c q)" "snd (ensure_scratch env c q)"]
      by (auto split: prod.splits)
  qed
qed

lemma seek_returns_context: "\<exists>r d. java_seek env (Some c) offset whence = (r, Some d)"
  by (auto simp: Let_def split: sum.splits option.splits prod.splits)

lemma io_step_ok: "avio_ok c \<Longrightarrow> event_ok e \<Longrightarrow> avio_ok (snd (io_step c e))"
proof (cases e)
  case (Read env n)
  assume "avio_ok c" "event_ok e"
  with Read read_returns_context [of env c n] show ?thesis
    by (auto dest: avio_ok_read simp del: java_read_packet.simps)
next
  case (Seek env offset whence)
  assume "avio_ok c" "event_ok e"
  with Seek seek_returns_context [of env c offset whence] show ?thesis
    by (auto dest: avio_ok_seek simp del: java_seek.simps)
qed

declare java_read_packet.simps(2) [simp del] java_seek.simps(2) [simp del]

lemma io_run_ok: "avio_ok c \<Longrightarrow> \<forall>e \<in> set es. event_ok e \<Longrightarrow> avio_ok (snd (io_run c es))"
proof (induction es arbitrary: c)
  case Nil
  then show ?case by simp
next
  case (Cons e es)
  then have "avio_ok (snd (io_step c e))" by (simp add: io_step_ok)
  with Cons.IH [of "snd (io_step c e)"] Cons.prems show ?case by (auto split: prod.splits)
qed

text \<open>The bytes a successful read stores, and how the counters move.\<close>

lemma read_success_counts:
  assumes ok: "avio_ok c" and env: "env_ok env" and n: "n \<le> INT_MAX"
    and read: "java_read_packet env (Some c) n = (r, bs, Some d)" and r: "0 < r"
  shows "int (length bs) = r" "r \<le> n" "total_read d = total_read c + r" "position d = position c + r"
proof -
  from read r obtain q c1 arr arr' where q: "read_ready env c n" "read_request c n = Inr q"
    and ra: "read_at env (position c) arr 0 q = (r, False, arr')"
    and rest: "r \<le> q" "r \<le> int (length arr')" "bs = take (nat r) arr'"
      "d = c1\<lparr>scratch := Some arr', position := i64 (position c + r),
              total_read := i64 (total_read c + r)\<rparr>"
    by (rule read_successE)
  from ok q(1) have "0 \<le> total_read c" "total_read c < MAX_NATIVE_IO_BYTES"
    by (auto simp: avio_ok_def read_ready_def)
  note rq = read_request_Inr [OF q(2) this n]
  from env ra r have fit: "position c + r \<le> INT64_MAX"
    unfolding env_ok_def by (metis fst_conv)
  show "int (length bs) = r" "r \<le> n"
    using rest rq r by auto
  show "total_read d = total_read c + r" "position d = position c + r"
    using rest rq r fit ok by (auto simp: avio_ok_def in_i64_def io_consts intro!: i64_id)
qed

lemma seek_frame:
  "java_seek env (Some c) offset whence = (r, Some d) \<Longrightarrow> total_read d = total_read c \<and>
     deadline_us d = deadline_us c \<and> (failed c \<longrightarrow> d = c \<and> r = AVERROR_EIO)"
  by (auto simp: java_seek.simps(2) Let_def split: if_splits sum.splits option.splits prod.splits)

lemma io_step_total_read:
  assumes "avio_ok c" "event_ok e" "io_step c e = ((r, bs), d)"
  shows "total_read d = total_read c + int (length bs)"
proof (cases e)
  case (Seek env offset whence)
  with assms(3) seek_returns_context [of env c offset whence] show ?thesis
    by (auto dest: seek_frame)
next
  case (Read env n)
  with assms(3) read_returns_context [of env c n]
  have read: "java_read_packet env (Some c) n = (r, bs, Some d)" by auto
  show ?thesis
  proof (cases "0 < r")
    case True
    with read_success_counts [OF assms(1) _ _ read] assms(2) Read show ?thesis by auto
  next
    case False
    with read_failure_frame [OF read] show ?thesis by (auto simp: same_stream_def)
  qed
qed

lemma io_run_total_read:
  "avio_ok c \<Longrightarrow> \<forall>e \<in> set es. event_ok e \<Longrightarrow>
   total_read (snd (io_run c es)) = total_read c + int (length (concat (map snd (fst (io_run c es)))))"
proof (induction es arbitrary: c)
  case Nil
  then show ?case by simp
next
  case (Cons e es)
  obtain r bs d where st: "io_step c e = ((r, bs), d)" by (metis prod.exhaust)
  with Cons.prems have "avio_ok d" using io_step_ok [of c e] by simp
  moreover have "total_read d = total_read c + int (length bs)"
    using io_step_total_read [OF Cons.prems(1) _ st] Cons.prems(2) by simp
  ultimately show ?case using Cons.IH [of d] Cons.prems st by (auto split: prod.splits)
qed

section \<open>A source that is a file\<close>

text \<open>
  \<open>reads_file file env\<close>: \<open>readAt\<close> behaves like a reader of the byte list \<open>file\<close>. It stores
  at least one byte below the end and answers \<open>-1\<close> at the end, as
  \<open>RandomAccessSource.readAt\<close> promises; it may store fewer bytes than asked for.
\<close>

definition reads_file :: "byte list \<Rightarrow> jni_env \<Rightarrow> bool" where
  "reads_file file env \<longleftrightarrow>
     (\<forall>p a q. 0 \<le> p \<longrightarrow> 0 < q \<longrightarrow> q \<le> int (length a) \<longrightarrow>
       (case read_at env p a 0 q of (k, exc, a') \<Rightarrow> \<not> exc \<and> length a' = length a \<and>
          (if int (length file) \<le> p then k < 0
           else 0 < k \<and> k \<le> q \<and> p + k \<le> int (length file) \<and>
                take (nat k) a' = slice (nat p) (nat k) file)))"

lemma read_file_slice:
  assumes ok: "avio_ok c" and env: "env_ok env" "reads_file file env" and n: "n \<le> INT_MAX"
    and read: "java_read_packet env (Some c) n = (r, bs, Some d)" and r: "0 < r"
  shows "bs = slice (nat (position c)) (nat r) file \<and> position c + r \<le> int (length file)"
proof -
  from read r obtain q c1 arr arr' where q: "read_ready env c n" "read_request c n = Inr q"
    and es: "ensure_scratch env c q = (0, c1)" and arr: "scratch c1 = Some arr"
    and ra: "read_at env (position c) arr 0 q = (r, False, arr')"
    and bs: "bs = take (nat r) arr'"
    by (rule read_successE)
  from ok q(1) have tr: "0 \<le> total_read c" "total_read c < MAX_NATIVE_IO_BYTES"
    by (auto simp: avio_ok_def read_ready_def)
  note rq = read_request_Inr [OF q(2) tr n]
  have "q \<le> int (length arr)"
    using avio_ok_scratch [OF ok env(1) es rq(1)] arr by auto
  with env(2) ra rq(1) ok r bs show ?thesis
    unfolding reads_file_def avio_ok_def by (fastforce split: if_splits)
qed

lemma read_file_progress:
  assumes ok: "avio_ok c" and env: "env_ok env" "reads_file file env"
    and alloc: "\<forall>q. 0 < q \<longrightarrow> (\<exists>a. new_byte_array env q = (Some a, False))"
    and n: "0 < n" "n \<le> INT_MAX" and live: "\<not> failed c" "\<not> deadline_expired (now env) c"
    and budget: "total_read c < MAX_NATIVE_IO_BYTES"
    and known: "total_size c = - 1 \<or> total_size c = int (length file)"
    and below: "position c < int (length file)"
  shows "\<exists>r bs d. java_read_packet env (Some c) n = (r, bs, Some d) \<and> 0 < r \<and> r \<le> n"
proof -
  from ok have tr: "0 \<le> total_read c" and pos: "0 \<le> position c" by (auto simp: avio_ok_def)
  have ready: "read_ready env c n"
    using n live budget known below by (auto simp: read_ready_def)
  obtain q where q: "read_request c n = Inr q"
    using read_request_exists [OF n(1) tr budget n(2)] known below by auto
  note rq = read_request_Inr [OF q tr budget n(2)]
  obtain e c1 where es: "ensure_scratch env c q = (e, c1)" by fastforce
  have e: "e = 0"
    using es alloc rq(1) by (fastforce simp: ensure_scratch_def Let_def split: if_splits)
  with avio_ok_scratch [OF ok env(1) es rq(1)]
  obtain arr where arr: "scratch c1 = Some arr" "q \<le> int (length arr)" by auto
  obtain k exc arr' where ra: "read_at env (position c) arr 0 q = (k, exc, arr')"
    by (metis prod_cases3)
  with env(2) pos rq(1) arr(2) below
  have "\<not> exc \<and> 0 < k \<and> k \<le> q \<and> length arr' = length arr"
    unfolding reads_file_def by fastforce
  then show ?thesis
    using ready_read [OF ready q es] e arr ra rq ensure_scratch_frame(1) [OF es]
    by (auto simp: java_fetch_def get_byte_array_region_def same_stream_def Let_def)
qed

fun read_seq :: "java_avio \<Rightarrow> (jni_env \<times> int) list \<Rightarrow> byte list \<times> java_avio" where
  "read_seq c [] = ([], c)"
| "read_seq c ((env, n) # rs) =
     (case java_read_packet env (Some c) n of (r, bs, c1) \<Rightarrow>
        case read_seq (the c1) rs of (out, c2) \<Rightarrow> (bs @ out, c2))"

lemma read_seq_file:
  "avio_ok c \<Longrightarrow> \<forall>(env, n) \<in> set rs. env_ok env \<and> reads_file file env \<and> n \<le> INT_MAX \<Longrightarrow>
   read_seq c rs = (out, d) \<Longrightarrow>
   position c \<le> position d \<and>
   out = slice (nat (position c)) (nat (position d) - nat (position c)) file"
proof (induction rs arbitrary: c out)
  case Nil
  then show ?case by simp
next
  case (Cons p rs)
  obtain env n where p: "p = (env, n)" by fastforce
  obtain r bs c1 where read: "java_read_packet env (Some c) n = (r, bs, Some c1)"
    using read_returns_context by metis
  obtain out1 where rest: "read_seq c1 rs = (out1, d)" "out = bs @ out1"
    using Cons.prems(3) p read by (auto split: prod.splits)
  have env: "env_ok env" "reads_file file env" "n \<le> INT_MAX" using Cons.prems(2) p by auto
  have ok1: "avio_ok c1" by (rule avio_ok_read [OF Cons.prems(1) env(1,3) read])
  have IH: "position c1 \<le> position d"
      "out1 = slice (nat (position c1)) (nat (position d) - nat (position c1)) file"
    using Cons.IH [OF ok1 _ rest(1)] Cons.prems(2) by auto
  have head: "position c \<le> position c1 \<and>
      bs = slice (nat (position c)) (nat (position c1) - nat (position c)) file"
  proof (cases "0 < r")
    case True
    with read_success_counts [OF Cons.prems(1) env(1,3) read]
      read_file_slice [OF Cons.prems(1) env read] Cons.prems(1)
    show ?thesis by (auto simp: avio_ok_def nat_add_distrib)
  next
    case False
    with read_failure_frame [OF read] show ?thesis by (auto simp: same_stream_def)
  qed
  then show ?case
    using IH rest(2) slice_concat [of "nat (position c)" "nat (position c1)" "nat (position d)" "file"]
    by (auto simp: nat_mono)
qed

section \<open>Failure and deadline\<close>

lemma io_step_failed: "failed c \<Longrightarrow> io_step c e = ((AVERROR_EIO, []), c)"
  by (cases e) (simp_all add: java_read_packet.simps(2) java_seek.simps(2))

lemma io_run_failed: "failed c \<Longrightarrow> io_run c es = (replicate (length es) (AVERROR_EIO, []), c)"
  by (induction es) (simp_all add: io_step_failed)

lemma io_step_expired:
  "deadline_expired (now (event_env e)) c \<Longrightarrow> \<not> failed c \<Longrightarrow>
   io_step c e = ((AVERROR_ETIMEDOUT, []), c\<lparr>failed := True\<rparr>)"
  by (cases e) (simp_all add: java_read_packet.simps(2) java_seek.simps(2))

section \<open>Properties\<close>

text \<open>
  Property C5: every interleaving of reads and seeks, from a context that satisfies the
  invariant, ends in one: the position and the known size stay within \<open>int64_t\<close>, the bytes
  transferred stay within the budget, and the scratch array is as long as its recorded
  capacity (so no signed overflow and no out-of-range Java array access happens).
\<close>

theorem io_run_preserves_avio_ok:
  assumes "in_i64 src_size" "\<forall>e \<in> set es. event_ok e"
  shows "avio_ok (snd (io_run (initial_avio clock src_size) es))"
  using io_run_ok [OF avio_ok_initial [OF assms(1)] assms(2)] .

text \<open>An environment whose source is the given file, whose allocator works, at a given time.\<close>

definition file_env :: "int \<Rightarrow> byte list \<Rightarrow> jni_env" where
  "file_env clock bytes =
     \<lparr>now = clock, new_byte_array = (\<lambda>n. if 0 \<le> n then (Some (replicate (nat n) 0), False) else (None, True)),
      read_at = (\<lambda>p a i q.
        if int (length bytes) \<le> p \<or> p < 0 \<or> q \<le> 0 \<or> INT64_MAX < int (length bytes) then (- 1, False, a)
        else let k = min (nat q) (min (length bytes - nat p) (length a))
             in (int k, False, slice (nat p) k bytes @ drop k a)),
      get_size = (min INT64_MAX (int (length bytes)), False)\<rparr>"

lemma file_env_ok: "env_ok (file_env clock bytes)"
  unfolding env_ok_def
proof (intro conjI allI impI)
  fix n a
  assume "fst (new_byte_array (file_env clock bytes) n) = Some a"
  then show "int (length a) = n" by (auto simp: file_env_def split: if_splits)
next
  fix p a q
  show "length (snd (snd (read_at (file_env clock bytes) p a 0 q))) = length a"
    by (auto simp: file_env_def Let_def slice_def)
next
  fix p a q
  assume "0 < fst (read_at (file_env clock bytes) p a 0 q)"
  then show "p + fst (read_at (file_env clock bytes) p a 0 q) \<le> INT64_MAX"
    by (auto simp: file_env_def Let_def split: if_splits)
next
  show "fst (get_size (file_env clock bytes)) \<le> INT64_MAX" by (simp add: file_env_def)
qed

lemma file_env_reads: "int (length bytes) \<le> INT64_MAX \<Longrightarrow> reads_file bytes (file_env clock bytes)"
  unfolding reads_file_def
proof (intro allI impI)
  fix p q :: int and a :: "byte list"
  assume bytes: "int (length bytes) \<le> INT64_MAX" and p: "0 \<le> p" "0 < q" "q \<le> int (length a)"
  show "case read_at (file_env clock bytes) p a 0 q of (k, exc, a') \<Rightarrow> \<not> exc \<and> length a' = length a \<and>
      (if int (length bytes) \<le> p then k < 0
       else 0 < k \<and> k \<le> q \<and> p + k \<le> int (length bytes) \<and> take (nat k) a' = slice (nat p) (nat k) bytes)"
  proof (cases "int (length bytes) \<le> p")
    case True
    then show ?thesis by (simp add: file_env_def)
  next
    case False
    define k where "k = min (nat q) (min (length bytes - nat p) (length a))"
    have k: "0 < k" "int k \<le> q" "nat p + k \<le> length bytes" "k \<le> length a" unfolding k_def using False p by linarith+
    then have "p + int k \<le> int (length bytes)" using p(1) by linarith
    moreover have "read_at (file_env clock bytes) p a 0 q = (int k, False, slice (nat p) k bytes @ drop k a)"
      unfolding k_def using False p bytes by (simp add: file_env_def Let_def)
    ultimately show ?thesis using False k by simp
  qed
qed

text \<open>Witness data: a five-byte source read two bytes at a time.\<close>

definition demo_file :: "byte list" where "demo_file = [10, 20, 30, 40, 50]"
definition demo_env :: jni_env where "demo_env = file_env 1000 demo_file"
definition demo_ctx :: java_avio where "demo_ctx = initial_avio 0 5"

lemmas demo_defs = demo_file_def demo_env_def demo_ctx_def

lemma demo_ok: "avio_ok demo_ctx" "env_ok demo_env" "reads_file demo_file demo_env"
  using avio_ok_initial [of 5 0] file_env_ok [of 1000 demo_file] file_env_reads [of demo_file 1000]
  by (simp_all add: demo_defs in_i64_def)

theorem io_run_preserves_avio_ok_witness:
  "avio_ok (snd (io_run (initial_avio 0 5) [Read demo_env 2, Seek demo_env 1 SEEK_CUR, Read demo_env 2]))"
  by (rule io_run_preserves_avio_ok) (simp_all add: in_i64_def demo_ok)

text \<open>
  Property C1: over any run the bytes handed to FFmpeg are counted exactly by \<open>total_read\<close>,
  and together never exceed the budget \<open>MAX_NATIVE_IO_BYTES\<close> of 256 MiB.
\<close>

theorem io_run_byte_budget:
  assumes "in_i64 src_size" "\<forall>e \<in> set es. event_ok e"
    and "io_run (initial_avio clock src_size) es = (outs, d)"
  shows "int (length (concat (map snd outs))) = total_read d \<and> total_read d \<le> MAX_NATIVE_IO_BYTES"
proof -
  note ok = avio_ok_initial [OF assms(1), of clock]
  have "avio_ok d" using io_run_ok [OF ok assms(2)] assms(3) by simp
  moreover have "total_read d = int (length (concat (map snd outs)))"
    using io_run_total_read [OF ok assms(2)] assms(3) by (simp add: initial_avio_def)
  ultimately show ?thesis by (simp add: avio_ok_def)
qed

theorem io_run_byte_budget_witness:
  "int (length (concat (map snd (fst (io_run demo_ctx [Read demo_env 2, Read demo_env 9])))))
     = total_read (snd (io_run demo_ctx [Read demo_env 2, Read demo_env 9]))"
  using io_run_byte_budget [of 5 "[Read demo_env 2, Read demo_env 9]" 0
      "fst (io_run demo_ctx [Read demo_env 2, Read demo_env 9])"
      "snd (io_run demo_ctx [Read demo_env 2, Read demo_env 9])"] demo_ok
  by (simp add: demo_ctx_def in_i64_def)

text \<open>
  A call never writes outside FFmpeg's buffer: it stores exactly as many bytes as
  it returns, at most \<open>buffer_size\<close>, and none when it returns zero or an error, whatever
  the Java method returns.
\<close>

theorem java_read_packet_stores_what_it_returns:
  assumes "avio_ok c" "n \<le> INT_MAX" "java_read_packet env (Some c) n = (r, bs, d)"
  shows "(0 < r \<longrightarrow> r \<le> n \<and> int (length bs) = r) \<and> (r \<le> 0 \<longrightarrow> bs = [])"
proof (intro conjI impI)
  assume r: "0 < r"
  obtain d' where d: "d = Some d'" using read_returns_context [of env c n] assms(3) by auto
  obtain q c1 arr arr' where q: "read_ready env c n" "read_request c n = Inr q"
    and rest: "r \<le> q" "r \<le> int (length arr')" "bs = take (nat r) arr'"
    using read_successE [OF assms(3) [unfolded d] r] by metis
  from assms(1) q(1) have "0 \<le> total_read c" "total_read c < MAX_NATIVE_IO_BYTES"
    by (auto simp: avio_ok_def read_ready_def)
  from read_request_Inr [OF q(2) this assms(2)] rest r
  show "r \<le> n" "int (length bs) = r" by auto
next
  assume "r \<le> 0"
  with read_failure_frame [OF assms(3)] show "bs = []" by blast
qed

theorem java_read_packet_stores_what_it_returns_witness:
  "java_read_packet demo_env (Some demo_ctx) 2 =
     (2, [10, 20], snd (snd (java_read_packet demo_env (Some demo_ctx) 2)))
   \<and> int (length ([10, 20] :: byte list)) = 2"
proof -
  have *: "java_read_packet demo_env (Some demo_ctx) 2 =
     (2, [10, 20], snd (snd (java_read_packet demo_env (Some demo_ctx) 2)))"
    by (simp add: java_read_packet.simps(2) demo_defs file_env_def initial_avio_def
        deadline_expired_def read_request_def ensure_scratch_def java_fetch_def slice_def
        get_byte_array_region_def io_consts EXTRACTION_DEADLINE_US_def Let_def i32_def i64_def)
  from java_read_packet_stores_what_it_returns [OF demo_ok(1) _ *] * show ?thesis by simp
qed

text \<open>
  Property C2: when the source is a file, any sequence of reads from position \<open>p\<close> hands
  FFmpeg exactly the bytes of the file from \<open>p\<close> up to the final position, in order, with
  none lost, repeated or invented, however the calls are cut and whichever of them fail.
\<close>

theorem java_read_packet_delivers_file:
  assumes "avio_ok c" "\<forall>(env, n) \<in> set rs. env_ok env \<and> reads_file bytes env \<and> n \<le> INT_MAX"
    and "read_seq c rs = (out, d)"
  shows "position c \<le> position d \<and>
    out = slice (nat (position c)) (nat (position d) - nat (position c)) bytes"
  by (rule read_seq_file [OF assms])

theorem java_read_packet_delivers_file_witness:
  "fst (read_seq demo_ctx [(demo_env, 2), (demo_env, 2), (demo_env, 2)]) =
     slice 0 (nat (position (snd (read_seq demo_ctx [(demo_env, 2), (demo_env, 2), (demo_env, 2)])))) demo_file"
  using java_read_packet_delivers_file [OF demo_ok(1), of "[(demo_env, 2), (demo_env, 2), (demo_env, 2)]" demo_file
      "fst (read_seq demo_ctx [(demo_env, 2), (demo_env, 2), (demo_env, 2)])"
      "snd (read_seq demo_ctx [(demo_env, 2), (demo_env, 2), (demo_env, 2)])"] demo_ok
  by (simp add: demo_ctx_def initial_avio_def)

text \<open>
  Property C6: while the stream has bytes left, the budget is not used up, the deadline has
  not passed and Java can allocate the scratch array, a read makes progress: it returns
  between 1 and \<open>buffer_size\<close> bytes.
\<close>

theorem java_read_packet_progress:
  assumes "avio_ok c" "env_ok env" "reads_file bytes env"
    and "\<forall>q. 0 < q \<longrightarrow> (\<exists>a. new_byte_array env q = (Some a, False))"
    and "0 < n" "n \<le> INT_MAX" "\<not> failed c" "\<not> deadline_expired (now env) c"
    and "total_read c < MAX_NATIVE_IO_BYTES"
    and "total_size c = - 1 \<or> total_size c = int (length bytes)"
    and "position c < int (length bytes)"
  shows "\<exists>r bs d. java_read_packet env (Some c) n = (r, bs, Some d) \<and> 0 < r \<and> r \<le> n"
  by (rule read_file_progress [OF assms])

theorem java_read_packet_progress_witness:
  "\<exists>r bs d. java_read_packet demo_env (Some demo_ctx) 3 = (r, bs, Some d) \<and> 0 < r \<and> r \<le> 3"
  by (rule java_read_packet_progress [OF demo_ok])
    (simp_all add: demo_defs file_env_def initial_avio_def deadline_expired_def io_consts
      EXTRACTION_DEADLINE_US_def)

text \<open>
  Failure is permanent. Once \<open>failed\<close> is set every later read and seek returns
  \<open>AVERROR(EIO)\<close>, stores nothing and leaves the context as it is, and the interrupt
  callback tells FFmpeg to stop at any time.
\<close>

theorem failed_context_is_final:
  assumes "failed c"
  shows "io_run c es = (replicate (length es) (AVERROR_EIO, []), c) \<and> ffmpeg_interrupt clock (Some c)"
  using io_run_failed [OF assms] assms by simp

theorem failed_context_is_final_witness:
  "io_run (demo_ctx\<lparr>failed := True\<rparr>) [Read demo_env 2, Seek demo_env 0 SEEK_SET] =
     ([(AVERROR_EIO, []), (AVERROR_EIO, [])], demo_ctx\<lparr>failed := True\<rparr>)"
  using failed_context_is_final [of "demo_ctx\<lparr>failed := True\<rparr>" "[Read demo_env 2, Seek demo_env 0 SEEK_SET]" 0]
  by (simp add: numeral_2_eq_2)

text \<open>
  The deadline ends the extraction. After it has passed, the first call answers
  \<open>AVERROR(ETIMEDOUT)\<close>, all later ones \<open>AVERROR(EIO)\<close>; no byte is transferred, the position
  does not move, and the interrupt callback is raised.
\<close>

theorem deadline_stops_io:
  assumes "\<not> failed c" "deadline_expired (now (event_env e)) c" "clock \<ge> now (event_env e)"
  shows "io_run c (e # es) =
      ((AVERROR_ETIMEDOUT, []) # replicate (length es) (AVERROR_EIO, []), c\<lparr>failed := True\<rparr>)
    \<and> ffmpeg_interrupt clock (Some c)"
  using io_step_expired [OF assms(2,1)] io_run_failed [of "c\<lparr>failed := True\<rparr>" es] assms(2,3)
  by (auto simp: deadline_expired_def)

theorem deadline_stops_io_witness:
  "io_run demo_ctx [Read (demo_env\<lparr>now := 90000000\<rparr>) 2, Read demo_env 2] =
     ([(AVERROR_ETIMEDOUT, []), (AVERROR_EIO, [])], demo_ctx\<lparr>failed := True\<rparr>)"
  using deadline_stops_io [of demo_ctx "Read (demo_env\<lparr>now := 90000000\<rparr>) 2" 90000000 "[Read demo_env 2]"]
  by (simp add: deadline_expired_def demo_ctx_def initial_avio_def EXTRACTION_DEADLINE_US_def)

text \<open>
  \<open>java_seek\<close> computes the exact target: the new position is origin plus offset
  over the integers whenever that lies in the range of a non-negative \<open>int64_t\<close>, and is
  refused with \<open>AVERROR(EINVAL)\<close>, the position unchanged, in all other cases, so the addition
  never overflows.
\<close>

theorem java_seek_target:
  assumes "avio_ok c" "\<not> failed c" "\<not> deadline_expired (now env) c" "in_i64 offset"
    and "whence \<noteq> AVSEEK_SIZE" "seek_base c (clear_force whence) = Inr base"
  shows "java_seek env (Some c) offset whence =
    (if 0 \<le> base + offset \<and> base + offset \<le> INT64_MAX
     then (base + offset, Some (c\<lparr>position := base + offset\<rparr>)) else (AVERROR_EINVAL, Some c))"
proof -
  have "0 \<le> base" "in_i64 base"
    using assms(1,6) by (auto simp: seek_base_def avio_ok_def in_i64_def split: if_splits)
  with assms show ?thesis
    using checked_add_correct [of base offset]
    by (auto simp: java_seek.simps(2) in_i64_def split: if_splits)
qed

theorem java_seek_target_witness:
  "java_seek demo_env (Some demo_ctx) (- 2) (SEEK_END + AVSEEK_FORCE) = (3, Some (demo_ctx\<lparr>position := 3\<rparr>))"
  using java_seek_target [OF demo_ok(1), of demo_env "- 2" "SEEK_END + AVSEEK_FORCE" 5]
  by (simp add: in_i64_def io_consts clear_force_def seek_base_def deadline_expired_def demo_defs
      initial_avio_def file_env_def EXTRACTION_DEADLINE_US_def)

end
