(* ===== verification/Binary64.thy ===== *)
theory Binary64
  imports Prelude "HOL-Library.Log_Nat" Complex_Main
begin

text \<open>
  The C type \<open>double\<close>: IEEE 754 binary64 with rounding to nearest, ties to even. A finite
  double is the rational number it denotes and every operation is the exact operation
  followed by \<open>b64\<close>. The exponent is not bounded above: the program computes on image sizes
  and time stamps, far below the overflow threshold. Infinities and NaN, which the program
  tests for in its input, are constructors of \<open>f64\<close>. The interface \<open>rounding\<close> holds what
  the clients need of a rounding function; \<open>b64\<close> is its interpretation.
\<close>

datatype f64 = Fin rat | PInf | NInf | NaN

section \<open>Rounding\<close>

text \<open>The position of the leading bit of a positive rational.\<close>

definition ilog2 :: "rat \<Rightarrow> int" where
  "ilog2 x = (case quotient_of x of (n, d) \<Rightarrow>
     let k = int (floorlog 2 (nat n)) - int (floorlog 2 (nat d))
     in if 2 powi k \<le> x then k else k - 1)"

text \<open>Nearest integer, ties to even.\<close>

definition rne :: "rat \<Rightarrow> int" where
  "rne q = (let f = \<lfloor>q\<rfloor>; r = q - of_int f
            in if r < 1 / 2 then f else if 1 / 2 < r then f + 1 else if even f then f else f + 1)"

definition b64 :: "rat \<Rightarrow> rat" where
  "b64 x = (if x = 0 then 0
            else let u = 2 powi (max (ilog2 \<bar>x\<bar> - 52) (- 1074)) in u * of_int (rne (x / u)))"

text \<open>\<open>lround\<close> and \<open>llround\<close>: nearest integer, ties away from zero.\<close>

definition llround :: "rat \<Rightarrow> int" where
  "llround q = (if q < 0 then - \<lfloor>- q + 1 / 2\<rfloor> else \<lfloor>q + 1 / 2\<rfloor>)"

lemma llround_int [simp]: "llround (of_int n) = n"
proof -
  have "\<lfloor>(of_int n :: rat) + 1 / 2\<rfloor> = n" for n by linarith
  from this [of n] this [of "- n"] show ?thesis by (auto simp: llround_def)
qed

lemma floor_half_near: "\<bar>of_int \<lfloor>q + 1 / 2\<rfloor> - q\<bar> \<le> (1 / 2 :: rat)"
proof -
  have "of_int \<lfloor>q + 1 / 2\<rfloor> \<le> q + 1 / 2" "q + 1 / 2 < of_int \<lfloor>q + 1 / 2\<rfloor> + 1"
    by (rule of_int_floor_le, rule floor_correct [THEN conjunct2, unfolded of_int_add of_int_1])
  then show ?thesis by linarith
qed

lemma llround_near: "\<bar>of_int (llround q) - q\<bar> \<le> 1 / 2"
proof (cases "q < 0")
  case True
  with floor_half_near [of "- q"] show ?thesis
    unfolding llround_def if_P [OF True] of_int_minus by linarith
next
  case False
  with floor_half_near [of q] show ?thesis unfolding llround_def if_not_P [OF False] by simp
qed

lemma llround_mono_int: "q \<le> of_int n \<Longrightarrow> llround q \<le> n"
  unfolding llround_def by (cases "q < 0") (simp_all, linarith+)

lemma llround_ge_int: "of_int n \<le> q \<Longrightarrow> n \<le> llround q"
  unfolding llround_def by (cases "q < 0") (simp_all, linarith+)

lemma llround_unique: "\<bar>of_int n - q\<bar> < 1 / 2 \<Longrightarrow> llround q = n"
  using llround_near [of q] by linarith

lemma rne_near: "\<bar>of_int (rne q) - q\<bar> \<le> 1 / 2"
  using floor_correct [of q] by (simp add: rne_def Let_def abs_le_iff)

lemma rne_int [simp]: "rne (of_int n) = n"
  by (simp add: rne_def)

lemma floorlog_bounds:
  assumes "0 < n"
  shows "2 powi (int (floorlog 2 n) - 1) \<le> (of_nat n :: rat) \<and> of_nat n < (2 :: rat) powi int (floorlog 2 n)"
proof -
  have b: "2 ^ (floorlog 2 n - 1) \<le> n \<and> n < 2 ^ floorlog 2 n"
    by (rule floorlog_bounds [of n 2]) (use assms in auto)
  have pos: "1 \<le> floorlog 2 n" using assms by (simp add: floorlog_def)
  from b have "(2 :: rat) ^ (floorlog 2 n - 1) \<le> of_nat n" "of_nat n < (2 :: rat) ^ floorlog 2 n"
    by (metis of_nat_le_iff of_nat_numeral of_nat_power, metis of_nat_less_iff of_nat_numeral of_nat_power)
  with pos show ?thesis by (simp add: power_int_def nat_diff_distrib)
qed

lemma ilog2_bounds:
  assumes "0 < x"
  shows "2 powi ilog2 x \<le> x \<and> x < 2 powi (ilog2 x + 1)"
proof -
  obtain n d where q: "quotient_of x = (n, d)" by fastforce
  have d: "0 < d" and x: "x = of_int n / of_int d"
    using q quotient_of_denom_pos quotient_of_div by blast+
  with assms have n: "0 < n" by (simp add: zero_less_divide_iff)
  define a where "a = int (floorlog 2 (nat n))"
  define b where "b = int (floorlog 2 (nat d))"
  have na: "2 powi (a - 1) \<le> (of_int n :: rat)" "of_int n < (2 :: rat) powi a"
    using floorlog_bounds [of "nat n"] n by (simp_all add: a_def)
  have db: "2 powi (b - 1) \<le> (of_int d :: rat)" "of_int d < (2 :: rat) powi b"
    using floorlog_bounds [of "nat d"] d by (simp_all add: b_def)
  have p: "0 < (2 :: rat) powi k" for k by simp
  have lo: "2 powi (a - b - 1) < x"
  proof -
    have "2 powi (a - b - 1) = 2 powi (a - 1) / (2 :: rat) powi b"
      by (simp add: power_int_diff [symmetric] algebra_simps)
    also have "\<dots> < of_int n / of_int d"
      by (rule frac_less2) (use na db d p in auto)
    finally show ?thesis by (simp add: x)
  qed
  have hi: "x < 2 powi (a - b + 1)"
  proof -
    have "of_int n / of_int d < 2 powi a / (2 :: rat) powi (b - 1)"
      by (rule frac_less) (use na db d n p in auto)
    also have "\<dots> = 2 powi (a - b + 1)"
      by (simp add: power_int_diff [symmetric] algebra_simps)
    finally show ?thesis by (simp add: x)
  qed
  show ?thesis
    using lo hi by (auto simp: ilog2_def q a_def b_def Let_def)
qed


lemma ulp_pos [simp]: "0 < (2 :: rat) powi k"
  by simp

lemma powi_less_cancel: "(2 :: rat) powi a < 2 powi b \<Longrightarrow> a < b"
  using power_int_increasing [of b a "2 :: rat"] by (meson leD leI one_le_numeral)

lemma b64_error:
  assumes "2 powi (- 1022) \<le> \<bar>x\<bar>"
  shows "\<bar>b64 x - x\<bar> \<le> \<bar>x\<bar> / 2 ^ 53"
proof -
  have x: "0 < \<bar>x\<bar>" by (rule less_le_trans [OF _ assms]) simp
  note lg = ilog2_bounds [OF x]
  have "(2 :: rat) powi (- 1022) < 2 powi (ilog2 \<bar>x\<bar> + 1)" using assms lg by linarith
  then have e: "- 1022 \<le> ilog2 \<bar>x\<bar>"
    using powi_less_cancel by fastforce
  define k where "k = ilog2 \<bar>x\<bar> - 52"
  define u where "u = (2 :: rat) powi k"
  have u: "0 < u" by (simp add: u_def)
  have half: "u / 2 = 2 powi ilog2 \<bar>x\<bar> / 2 ^ 53"
    by (simp add: u_def k_def power_int_diff)
  have k: "max (ilog2 \<bar>x\<bar> - 52) (- 1074) = k" using e by (simp add: k_def)
  have "b64 x = u * of_int (rne (x / u))"
    using x unfolding b64_def k u_def Let_def by simp
  then have "b64 x - x = u * (of_int (rne (x / u)) - x / u)"
    using u by (simp add: algebra_simps)
  then have "\<bar>b64 x - x\<bar> = u * \<bar>of_int (rne (x / u)) - x / u\<bar>"
    using u by (simp add: abs_mult)
  also have "\<dots> \<le> u * (1 / 2)"
    by (rule mult_left_mono [OF rne_near]) (use u in simp)
  also have "\<dots> \<le> \<bar>x\<bar> / 2 ^ 53"
    using half lg by (simp add: divide_right_mono)
  finally show ?thesis .
qed

lemma floor_rat_numeral [simp]: "\<lfloor>numeral a / numeral b :: rat\<rfloor> = numeral a div numeral b"
  using floor_divide_of_int_eq [of "numeral a" "numeral b", where 'a = rat] by simp

text \<open>Evaluation: the binade of a positive value fixes how it is rounded.\<close>

lemma ilog2_unique:
  assumes "2 powi e \<le> x" "x < 2 powi (e + 1)"
  shows "ilog2 x = e"
proof -
  have "0 < x" by (rule less_le_trans [OF _ assms(1)]) simp
  note lg = ilog2_bounds [OF this]
  have "e < ilog2 x + 1" by (rule powi_less_cancel) (rule le_less_trans [OF assms(1) conjunct2 [OF lg]])
  moreover have "ilog2 x < e + 1" by (rule powi_less_cancel) (rule le_less_trans [OF conjunct1 [OF lg] assms(2)])
  ultimately show ?thesis by simp
qed

lemma b64_eval:
  assumes "2 powi e \<le> x" "x < 2 powi (e + 1)" "- 1022 \<le> e"
  shows "b64 x = 2 powi (e - 52) * of_int (rne (x / 2 powi (e - 52)))"
proof -
  have x: "0 < x" by (rule less_le_trans [OF _ assms(1)]) simp
  then have "ilog2 \<bar>x\<bar> = e" using ilog2_unique [OF assms(1,2)] by simp
  moreover have "max (e - 52) (- 1074) = e - 52" using assms(3) by simp
  ultimately show ?thesis using x by (simp only: b64_def Let_def) simp
qed

lemmas b64_compute = power_int_def rne_def llround_def Let_def power_one_over

lemma b64_int:
  assumes "\<bar>n\<bar> < 2 ^ 53"
  shows "b64 (of_int n) = of_int n"
proof (cases "n = 0")
  case True
  then show ?thesis by (simp add: b64_def)
next
  case False
  let ?x = "of_int n :: rat"
  have x: "0 < \<bar>?x\<bar>" using False by simp
  note lg = ilog2_bounds [OF x]
  have lt: "\<bar>?x\<bar> < 2 powi 53" using assms by (simp add: power_int_def flip: of_int_abs)
  have ge: "1 \<le> \<bar>?x\<bar>" using False by (simp flip: of_int_abs)
  have "(2 :: rat) powi ilog2 \<bar>?x\<bar> < 2 powi 53" using lg lt by linarith
  then have hi: "ilog2 \<bar>?x\<bar> < 53" using powi_less_cancel by fastforce
  have "(2 :: rat) powi 0 < 2 powi (ilog2 \<bar>?x\<bar> + 1)" using lg ge by simp
  then have lo: "0 \<le> ilog2 \<bar>?x\<bar>" using powi_less_cancel by fastforce
  define k where "k = 52 - ilog2 \<bar>?x\<bar>"
  have k: "0 \<le> k" "k \<le> 52" using hi lo by (simp_all add: k_def)
  define u where "u = (2 :: rat) powi (- k)"
  have u: "0 < u" by (simp add: u_def)
  have "(2 :: rat) powi k = 2 ^ nat k" using k(1) by (simp only: power_int_def if_True)
  then have u_inv: "u = 1 / 2 ^ nat k"
    by (simp only: u_def power_int_minus divide_inverse mult_1_left)
  have div: "?x / u = of_int (n * 2 ^ nat k)"
    by (simp only: u_inv of_int_mult of_int_power of_int_numeral divide_divide_eq_right div_by_1 mult_1_right)
  have "u * of_int (rne (?x / u)) = u * (?x / u)"
    unfolding div rne_int ..
  also have "\<dots> = ?x" using u by simp
  finally have "u * of_int (rne (?x / u)) = ?x" .
  moreover have "max (ilog2 \<bar>?x\<bar> - 52) (- 1074) = - k"
    using k by (simp add: k_def)
  ultimately show ?thesis
    using False unfolding b64_def u_def Let_def by simp
qed

section \<open>The interface of a rounding function\<close>

locale rounding =
  fixes rnd :: "rat \<Rightarrow> rat"
  assumes rel_error: "2 powi (- 1022) \<le> \<bar>x\<bar> \<Longrightarrow> \<bar>rnd x - x\<bar> \<le> \<bar>x\<bar> / 2 ^ 53"
    and exact_int: "\<bar>n\<bar> < 2 ^ 53 \<Longrightarrow> rnd (of_int n) = of_int n"
begin

lemma rnd_0 [simp]: "rnd 0 = 0"
  using exact_int [of 0] by simp

lemma tiny: "1 / 2 ^ 200 \<le> (x :: rat) \<Longrightarrow> 2 powi (- 1022) \<le> \<bar>x\<bar>"
proof -
  assume "1 / 2 ^ 200 \<le> x"
  moreover have "(2 :: rat) powi (- 1022) \<le> 2 powi (- 200)"
    by (rule power_int_increasing) auto
  moreover have "(2 :: rat) powi (- 200) = 1 / 2 ^ 200"
    by (simp add: power_int_def inverse_eq_divide power_one_over)
  ultimately show ?thesis by linarith
qed

text \<open>One rounding of a positive value moves it by at most one part in \<open>2 ^ 53\<close>.\<close>

lemma near:
  assumes "1 / 2 ^ 200 \<le> x"
  shows "x * (1 - 1 / 2 ^ 53) \<le> rnd x" "rnd x \<le> x * (1 + 1 / 2 ^ 53)"
proof -
  have "0 < x" using assms by (rule less_le_trans [rotated]) simp
  then have "\<bar>rnd x - x\<bar> \<le> x / 2 ^ 53" using rel_error [OF tiny [OF assms]] by simp
  then have "\<bar>rnd x - x\<bar> \<le> x * (1 / 2 ^ 53)" by simp
  then show "x * (1 - 1 / 2 ^ 53) \<le> rnd x" "rnd x \<le> x * (1 + 1 / 2 ^ 53)"
    unfolding right_diff_distrib distrib_left mult_1_right abs_le_iff by simp_all
qed

text \<open>
  Scaling an integer by a rounded quotient: the product of two roundings stays within
  \<open>2 ^ -20\<close> of the exact value, for values below \<open>2 ^ 31\<close>.
\<close>

lemma scaled_error:
  assumes w: "0 \<le> w" "w \<le> l" and l: "0 < l" "l < 2 ^ 31" and m: "0 < m" "m < 2 ^ 31"
  shows "\<bar>rnd (of_int w * rnd (of_int m / of_int l)) - of_int w * of_int m / of_int l\<bar> < 1 / 2 ^ 20"
proof (cases "w = 0")
  case True
  then show ?thesis by simp
next
  case False
  define q where "q = (of_int m :: rat) / of_int l"
  define d where "d = (1 / 2 ^ 53 :: rat)"
  define s where "s = rnd q"
  define x where "x = of_int w * q"
  define p where "p = rnd (of_int w * s)"
  have w1: "1 \<le> (of_int w :: rat)" using False w by simp
  have l31: "(of_int l :: rat) < 2 ^ 31" using l(2) by (metis of_int_less_iff of_int_numeral of_int_power)
  have m31: "(of_int m :: rat) < 2 ^ 31" using m(2) by (metis of_int_less_iff of_int_numeral of_int_power)
  have q_lo: "1 / 2 ^ 31 \<le> q"
    unfolding q_def by (rule frac_le) (use l31 m l in \<open>auto simp: less_imp_le\<close>)
  have s: "q * (1 - d) \<le> s" "s \<le> q * (1 + d)"
    unfolding s_def d_def by (rule near; use q_lo in \<open>simp add: field_simps\<close>)+
  have x: "x < 2 ^ 31"
  proof -
    have "of_int w * (of_int m :: rat) \<le> of_int l * of_int m"
      by (rule mult_right_mono) (use w m in simp_all)
    then have "x \<le> of_int m" using l by (simp add: x_def q_def field_simps)
    with m31 show ?thesis by simp
  qed
  have x0: "0 < x" using w1 q_lo by (simp add: x_def)
  have ws: "x * (1 - d) \<le> of_int w * s" "of_int w * s \<le> x * (1 + d)"
    using s w1 by (simp_all add: x_def mult.assoc mult_left_mono)
  have ws_lo: "1 / 2 ^ 200 \<le> of_int w * s"
  proof -
    have "1 / 2 ^ 200 \<le> 1 / 2 ^ 31 * (1 - d)" by (simp add: d_def field_simps)
    also have "\<dots> \<le> q * (1 - d)" using q_lo by (rule mult_right_mono) (simp add: d_def)
    also have "\<dots> \<le> s" by (rule s)
    also have "\<dots> \<le> of_int w * s"
    proof -
      have "0 \<le> q" using q_lo by (rule order_trans [rotated]) simp
      then have "0 \<le> q * (1 - d)" by (simp add: d_def)
      also note s(1)
      finally have "0 \<le> s" .
      from mult_right_mono [OF w1 this] show ?thesis by simp
    qed
    finally show ?thesis .
  qed
  have p: "of_int w * s * (1 - d) \<le> p" "p \<le> of_int w * s * (1 + d)"
    unfolding p_def d_def by (rule near [OF ws_lo])+
  define e where "e = x * (2 * d + d * d)"
  have "p \<le> x * (1 + d) * (1 + d)"
    by (rule order_trans [OF p(2) mult_right_mono [OF ws(2)]]) (simp add: d_def)
  also have "\<dots> = x + e" by (simp add: e_def algebra_simps)
  finally have hi: "p \<le> x + e" .
  have "x - e \<le> x * (1 - d) * (1 - d)"
    using x0 by (simp add: e_def algebra_simps d_def)
  also have "\<dots> \<le> p"
    by (rule order_trans [OF mult_right_mono [OF ws(1)] p(1)]) (simp add: d_def)
  finally have lo: "x - e \<le> p" .
  have "e < 2 ^ 31 * (2 * d + d * d)"
    unfolding e_def by (rule mult_strict_right_mono [OF x]) (simp add: d_def)
  also have "\<dots> < 1 / 2 ^ 20" by (simp add: d_def)
  finally have "e < 1 / 2 ^ 20" .
  with lo hi have "\<bar>p - x\<bar> < 1 / 2 ^ 20" unfolding abs_less_iff by simp
  then show ?thesis by (simp add: p_def s_def q_def x_def)
qed

end

interpretation dbl: rounding b64
proof unfold_locales
  fix x :: rat
  assume "2 powi (- 1022) \<le> \<bar>x\<bar>"
  then show "\<bar>b64 x - x\<bar> \<le> \<bar>x\<bar> / 2 ^ 53" by (rule b64_error)
next
  fix n :: int
  assume "\<bar>n\<bar> < 2 ^ 53"
  then show "b64 (of_int n) = of_int n" by (rule b64_int)
qed

end
