(* ===== verification/Geometry.thy ===== *)
theory Geometry
  imports Binary64
begin

text \<open>
  The image geometry of \<open>ffmpeg/jni/ffmpeg_thumbnail_jni.c\<close>: the orientation read from the
  display matrix (\<open>normalized_clockwise_rotation\<close>), the size of the thumbnail
  (\<open>fit_inside\<close>, in binary64 arithmetic) and the copy of the scaled RGBA image into the
  Android bitmap under a rotation (\<open>copy_rotated_rgba\<close>, over byte arrays with checked
  accesses).
\<close>

section \<open>Orientation\<close>

text \<open>
  The display-matrix side data is \<open>None\<close> when the stream has none; \<open>rotation_get\<close> stands for
  \<open>av_display_rotation_get\<close>, which returns the counter-clockwise angle in degrees or NaN
  (\<open>None\<close>). It is a parameter because it rests on \<open>hypot\<close> and \<open>atan2\<close> of libm.
\<close>

definition snap_rotation :: "int \<Rightarrow> int" where
  "snap_rotation clockwise =
     (let nearest = c_mod (c_div (clockwise + 45) 90 * 90) 360;
          difference = \<bar>clockwise - nearest\<bar>;
          difference = (if difference > 180 then 360 - difference else difference)
      in if difference \<le> 5 then nearest else 0)"

definition normalized_clockwise_rotation ::
  "(byte list \<Rightarrow> rat option) \<Rightarrow> byte list option \<Rightarrow> int" where
  "normalized_clockwise_rotation rotation_get side_data =
     (case side_data of
        None \<Rightarrow> 0
      | Some data \<Rightarrow>
          if int (length data) < 9 * 4 then 0
          else (case rotation_get data of
                  None \<Rightarrow> 0
                | Some counter_clockwise \<Rightarrow>
                    let clockwise = i32 (llround (- counter_clockwise));
                        clockwise = c_mod clockwise 360;
                        clockwise = (if clockwise < 0 then clockwise + 360 else clockwise)
                    in snap_rotation clockwise))"

text \<open>The distance of two directions on the circle, in degrees.\<close>

definition circle_dist :: "int \<Rightarrow> int \<Rightarrow> int" where
  "circle_dist a b = min ((a - b) mod 360) ((b - a) mod 360)"

lemma wrap_360: "(if c_mod x 360 < 0 then c_mod x 360 + 360 else c_mod x 360) = x mod 360"
proof (cases "x < 0")
  case True
  then have "c_mod x 360 = - ((- x) mod 360)" by (simp add: c_mod_neg)
  moreover have "0 \<le> (- x) mod 360" "(- x) mod 360 < 360" by simp_all
  moreover have "x mod 360 = (if (- x) mod 360 = 0 then 0 else 360 - (- x) mod 360)"
    using zmod_zminus1_eq_if [of "- x" 360] by simp
  ultimately show ?thesis by auto
next
  case False
  then have "c_mod x 360 = x mod 360" by (simp add: c_mod_nonneg)
  moreover have "0 \<le> x mod 360" by simp
  ultimately show ?thesis by simp
qed

definition quarter_turns :: "int list" where
  "quarter_turns = [0, 90, 180, 270]"

lemma snap_table:
  "\<forall>a \<in> set [0..359]. snap_rotation a \<in> set quarter_turns \<and>
     (\<forall>q \<in> set quarter_turns. circle_dist a q \<le> 5 \<longrightarrow> snap_rotation a = q) \<and>
     ((\<forall>q \<in> set quarter_turns. 5 < circle_dist a q) \<longrightarrow> snap_rotation a = 0)"
  by code_simp

lemma snap_cases:
  assumes "0 \<le> a" "a < 360"
  shows "snap_rotation a \<in> set quarter_turns"
    "q \<in> set quarter_turns \<Longrightarrow> circle_dist a q \<le> 5 \<Longrightarrow> snap_rotation a = q"
    "\<forall>q \<in> set quarter_turns. 5 < circle_dist a q \<Longrightarrow> snap_rotation a = 0"
proof -
  have "a \<in> set [0..359]" using assms by simp
  with snap_table show "snap_rotation a \<in> set quarter_turns"
    "q \<in> set quarter_turns \<Longrightarrow> circle_dist a q \<le> 5 \<Longrightarrow> snap_rotation a = q"
    "\<forall>q \<in> set quarter_turns. 5 < circle_dist a q \<Longrightarrow> snap_rotation a = 0"
    by blast+
qed

lemma circle_dist_mod: "circle_dist (a mod 360) b = circle_dist a b"
  by (simp add: circle_dist_def mod_diff_left_eq mod_diff_right_eq)

lemma rotation_eq_snap:
  "length data \<ge> 36 \<Longrightarrow> rotation_get data = Some r \<Longrightarrow> in_i32 (llround (- r)) \<Longrightarrow>
   normalized_clockwise_rotation rotation_get (Some data) = snap_rotation (llround (- r) mod 360)"
  using wrap_360 [of "llround (- r)"] by (simp add: normalized_clockwise_rotation_def i32_id Let_def)

section \<open>Thumbnail size\<close>

definition fit_inside :: "int \<Rightarrow> int \<Rightarrow> int \<Rightarrow> int \<times> int" where
  "fit_inside width height maximum =
     (let largest = (if width > height then width else height) in
      if largest \<le> maximum then (width, height)
      else
        let scale = b64 (of_int maximum / b64 (of_int largest));
            out_width = i32 (llround (b64 (of_int width * scale)));
            out_height = i32 (llround (b64 (of_int height * scale)))
        in (if out_width < 1 then 1 else out_width, if out_height < 1 then 1 else out_height))"

lemma near_chain:
  fixes p e z d :: rat
  assumes "\<bar>p - e\<bar> < d" "\<bar>z - p\<bar> \<le> 1 / 2"
  shows "z < e + (d + 1 / 2)" "e - (d + 1 / 2) < z" "\<bar>z - e\<bar> < 1 / 2 + d"
  using assms by linarith+

text \<open>One scaled dimension: the rounded product and the clamp to at least one pixel.\<close>

lemma scaled_dim:
  assumes w: "0 \<le> w" "w \<le> l" and l: "l \<le> INT_MAX" and m: "0 < m" "m < l"
  shows "0 \<le> llround (b64 (of_int w * b64 (of_int m / b64 (of_int l))))"
    and "llround (b64 (of_int w * b64 (of_int m / b64 (of_int l)))) \<le> m"
    and "w = l \<Longrightarrow> llround (b64 (of_int w * b64 (of_int m / b64 (of_int l)))) = m"
    and "\<bar>of_int (llround (b64 (of_int w * b64 (of_int m / b64 (of_int l)))))
           - of_int w * of_int m / of_int l\<bar> < (1 / 2 + 1 / 2 ^ 20 :: rat)"
proof -
  let ?e = "of_int w * of_int m / (of_int l :: rat)"
  let ?p = "b64 (of_int w * b64 (of_int m / of_int l))"
  have bl: "b64 (of_int l) = of_int l"
    by (rule dbl.exact_int) (use w l m in simp)
  have err: "\<bar>?p - ?e\<bar> < 1 / 2 ^ 20"
    by (rule dbl.scaled_error) (use w l m in simp_all)
  have e: "0 \<le> ?e" "?e \<le> of_int m"
  proof -
    show "0 \<le> ?e" using w m by simp
    have "of_int w * (of_int m :: rat) \<le> of_int l * of_int m"
      by (rule mult_right_mono) (use w m in simp_all)
    then show "?e \<le> of_int m" using w m by (simp add: field_simps)
  qed
  have near: "\<bar>of_int (llround ?p) - ?p\<bar> \<le> 1 / 2" by (rule llround_near)
  note chain = near_chain [OF err near]
  have "(1 / 2 ^ 20 + 1 / 2 :: rat) < 1" by simp
  with chain(1,2) e have "(of_int (llround ?p) :: rat) < of_int (m + 1)" "of_int (- 1) < (of_int (llround ?p) :: rat)"
    unfolding of_int_add of_int_minus of_int_1 by linarith+
  then show "0 \<le> llround (b64 (of_int w * b64 (of_int m / b64 (of_int l))))"
    "llround (b64 (of_int w * b64 (of_int m / b64 (of_int l)))) \<le> m"
    unfolding bl of_int_less_iff by simp_all
  show "llround (b64 (of_int w * b64 (of_int m / b64 (of_int l)))) = m" if "w = l"
  proof -
    have "?e = of_int m" using that w m by simp
    then have "\<bar>?p - of_int m\<bar> < 1 / 2 ^ 20" using err by (simp only:)
    also have "(1 / 2 ^ 20 :: rat) < 1 / 2" by simp
    finally have "\<bar>of_int m - ?p\<bar> < 1 / 2" by (simp only: abs_minus_commute)
    then show ?thesis unfolding bl by (rule llround_unique)
  qed
  show "\<bar>of_int (llround (b64 (of_int w * b64 (of_int m / b64 (of_int l)))))
           - of_int w * of_int m / of_int l\<bar> < (1 / 2 + 1 / 2 ^ 20 :: rat)"
    using chain(3) unfolding bl .
qed

text \<open>Two concrete sizes, rounded step by step.\<close>

lemma fit_demo: "fit_inside 1920 1080 512 = (512, 288)"
proof -
  have a: "b64 1920 = 1920" using dbl.exact_int [of 1920] by simp
  have b: "b64 (4 / 15) = 4803839602528529 / 18014398509481984"
    by (simp add: b64_eval [where e = "- 2"] b64_compute)
  have c: "b64 (72057594037927935 / 140737488355328) = 512"
    by (simp add: b64_eval [where e = 9] b64_eval [where e = 8] b64_compute)
  have d: "b64 (648518346341351415 / 2251799813685248) = 288"
    by (simp add: b64_eval [where e = 8] b64_compute)
  show ?thesis by (simp add: fit_inside_def i32_def llround_def a b c d)
qed

lemma fit_demo_flat: "fit_inside 4000 3 100 = (100, 1)"
proof -
  have a: "b64 4000 = 4000" using dbl.exact_int [of 4000] by simp
  have b: "b64 (1 / 40) = 3602879701896397 / 144115188075855872"
    by (simp add: b64_eval [where e = "- 6"] b64_compute)
  have c: "b64 (450359962737049625 / 4503599627370496) = 100"
    by (simp add: b64_eval [where e = 6] b64_compute)
  have d: "b64 (10808639105689191 / 144115188075855872) = 1351079888211149 / 18014398509481984"
    by (simp add: b64_eval [where e = "- 4"] b64_compute)
  show ?thesis by (simp add: fit_inside_def i32_def llround_def a b c d)
qed

section \<open>Rotated copy\<close>

definition rot_target :: "int \<Rightarrow> int \<Rightarrow> int \<Rightarrow> int \<Rightarrow> int \<Rightarrow> int \<times> int" where
  "rot_target rotation source_width source_height x y =
     (if rotation = 90 then (source_height - 1 - y, x)
      else if rotation = 180 then (source_width - 1 - x, source_height - 1 - y)
      else if rotation = 270 then (y, source_width - 1 - x)
      else (x, y))"

definition copy_pixel ::
  "byte list \<Rightarrow> int \<Rightarrow> int \<Rightarrow> int \<Rightarrow> int \<Rightarrow> int \<Rightarrow> nat \<Rightarrow> nat \<Rightarrow> byte list \<Rightarrow> byte list option" where
  "copy_pixel src source_stride source_width source_height destination_stride rotation y x dst =
     (case rot_target rotation source_width source_height (int x) (int y) of
        (destination_x, destination_y) \<Rightarrow>
          case load src (int y * source_stride + int x * 4) 4 of
            None \<Rightarrow> None
          | Some pixel \<Rightarrow>
              store dst (destination_y * destination_stride + destination_x * 4) pixel)"

definition copy_rotated_rgba ::
  "byte list \<Rightarrow> int \<Rightarrow> int \<Rightarrow> int \<Rightarrow> byte list \<Rightarrow> int \<Rightarrow> int \<Rightarrow> byte list option" where
  "copy_rotated_rgba src source_stride source_width source_height dst destination_stride rotation =
     for_upto (nat source_height)
       (\<lambda>y. for_upto (nat source_width)
          (\<lambda>x. copy_pixel src source_stride source_width source_height destination_stride rotation y x))
       dst"

text \<open>The size of the bitmap, as \<open>frame_to_bitmap\<close> requests it.\<close>

definition bitmap_size :: "int \<Rightarrow> int \<Rightarrow> int \<Rightarrow> int \<times> int" where
  "bitmap_size rotation scaled_width scaled_height =
     (if rotation = 90 \<or> rotation = 270 then scaled_height else scaled_width,
      if rotation = 90 \<or> rotation = 270 then scaled_width else scaled_height)"

lemma rot_target_bounds:
  assumes "0 \<le> x" "x < w" "0 \<le> y" "y < h" "rot_target r w h x y = (dx, dy)"
  shows "0 \<le> dx" "dx < fst (bitmap_size r w h)" "0 \<le> dy" "dy < snd (bitmap_size r w h)"
  using assms by (auto simp: rot_target_def bitmap_size_def split: if_splits)

lemma rot_target_inj:
  "rot_target r w h x y = rot_target r w h x' y' \<Longrightarrow> x = x' \<and> y = y'"
  by (auto simp: rot_target_def split: if_splits)

text \<open>Two different pixels of a row-major image with stride \<open>s\<close> do not overlap.\<close>

lemma pixel_disjoint:
  fixes s :: int
  assumes "0 \<le> x" "x * 4 + 4 \<le> s" "0 \<le> x'" "x' * 4 + 4 \<le> s" "(x, y) \<noteq> (x', y')"
  shows "y * s + x * 4 + 4 \<le> y' * s + x' * 4 \<or> y' * s + x' * 4 + 4 \<le> y * s + x * 4"
proof (cases "y = y'")
  case True
  with assms(5) show ?thesis by auto
next
  case False
  have step: "b * s + s \<le> a * s" if "b < a" for a b :: int
    using mult_right_mono [of "b + 1" a s] that assms by (simp add: algebra_simps)
  from False consider "y < y'" | "y' < y" by linarith
  then show ?thesis
    by cases (use step [of y y'] step [of y' y] assms in linarith)+
qed

lemma pixel_in_image:
  fixes s :: int
  assumes "0 \<le> x" "x < w" "0 \<le> y" "y < h" "4 * w \<le> s"
  shows "0 \<le> y * s + x * 4" "y * s + x * 4 + 4 \<le> (h - 1) * s + 4 * w"
proof -
  have "0 \<le> y * s" by (rule mult_nonneg_nonneg) (use assms in simp_all)
  with assms show "0 \<le> y * s + x * 4" by simp
  have "y * s \<le> (h - 1) * s" by (rule mult_right_mono) (use assms in simp_all)
  with assms show "y * s + x * 4 + 4 \<le> (h - 1) * s + 4 * w" by linarith
qed

text \<open>The geometry both images satisfy: the strides hold a row, the arrays hold the rows.\<close>

definition copy_ok :: "byte list \<Rightarrow> int \<Rightarrow> int \<Rightarrow> int \<Rightarrow> byte list \<Rightarrow> int \<Rightarrow> int \<Rightarrow> bool" where
  "copy_ok src ss w h dst ds r \<longleftrightarrow> 0 < w \<and> 0 < h \<and> 4 * w \<le> ss \<and>
     (h - 1) * ss + 4 * w \<le> int (length src) \<and>
     (case bitmap_size r w h of (bw, bh) \<Rightarrow>
        4 * bw \<le> ds \<and> (bh - 1) * ds + 4 * bw \<le> int (length dst))"

definition pixel_at :: "byte list \<Rightarrow> int \<Rightarrow> int \<times> int \<Rightarrow> byte list" where
  "pixel_at buf stride p = slice (nat (snd p * stride + fst p * 4)) 4 buf"

lemma copy_pixel_step:
  assumes ok: "copy_ok src ss w h dst ds r" and xy: "int x < w" "int y < h"
    and t: "rot_target r w h (int x) (int y) = (dx, dy)"
  shows "copy_pixel src ss w h ds r y x dst =
     Some (splice (nat (dy * ds + dx * 4)) (pixel_at src ss (int x, int y)) dst)"
    and "0 \<le> dy * ds + dx * 4" "dy * ds + dx * 4 + 4 \<le> int (length dst)"
    and "length (pixel_at src ss (int x, int y)) = 4"
proof -
  obtain bw bh where b: "bitmap_size r w h = (bw, bh)" by fastforce
  from ok have w: "4 * w \<le> ss" "(h - 1) * ss + 4 * w \<le> int (length src)"
    "4 * bw \<le> ds" "(bh - 1) * ds + 4 * bw \<le> int (length dst)"
    by (simp_all add: copy_ok_def b)
  note s = pixel_in_image [of "int x" w "int y" h ss]
  note d = pixel_in_image [of dx bw dy bh ds]
  have src: "0 \<le> int y * ss + int x * 4" "int y * ss + int x * 4 + 4 \<le> int (length src)"
    using s xy w by auto
  show dst: "0 \<le> dy * ds + dx * 4" "dy * ds + dx * 4 + 4 \<le> int (length dst)"
    using d rot_target_bounds [OF _ xy(1) _ xy(2) t] b w by auto
  show len: "length (pixel_at src ss (int x, int y)) = 4"
    using src by (simp add: pixel_at_def)
  have "load src (int y * ss + int x * 4) 4 = Some (pixel_at src ss (int x, int y))"
    using src by (simp add: pixel_at_def)
  with dst len show "copy_pixel src ss w h ds r y x dst =
     Some (splice (nat (dy * ds + dx * 4)) (pixel_at src ss (int x, int y)) dst)"
    by (simp add: copy_pixel_def t)
qed

text \<open>
  What the copy has done after the rows below \<open>y\<close> and the pixels below \<open>x\<close> of row \<open>y\<close>: the
  pixels done so far are at their targets and every byte outside the bitmap's pixels is as
  it was.
\<close>

definition copied ::
  "byte list \<Rightarrow> int \<Rightarrow> int \<Rightarrow> int \<Rightarrow> byte list \<Rightarrow> int \<Rightarrow> int \<Rightarrow> nat \<Rightarrow> nat \<Rightarrow> byte list \<Rightarrow> bool" where
  "copied src ss w h dst0 ds r y x dst \<longleftrightarrow> length dst = length dst0 \<and>
     (\<forall>i j. int i < w \<and> int j < h \<and> (j < y \<or> j = y \<and> i < x) \<longrightarrow>
        pixel_at dst ds (rot_target r w h (int i) (int j)) = pixel_at src ss (int i, int j)) \<and>
     (\<forall>k < length dst0. (\<forall>i j. int i < w \<and> int j < h \<longrightarrow>
          (case rot_target r w h (int i) (int j) of (dx, dy) \<Rightarrow>
             int k < dy * ds + dx * 4 \<or> dy * ds + dx * 4 + 4 \<le> int k)) \<longrightarrow> dst ! k = dst0 ! k)"

lemma copied_step:
  assumes ok: "copy_ok src ss w h dst0 ds r" and xy: "int x < w" "int y < h"
    and inv: "copied src ss w h dst0 ds r y x dst"
  shows "\<exists>dst'. copy_pixel src ss w h ds r y x dst = Some dst' \<and>
           copied src ss w h dst0 ds r y (Suc x) dst'"
proof -
  obtain dx dy where t: "rot_target r w h (int x) (int y) = (dx, dy)" by fastforce
  have len: "length dst = length dst0" using inv by (simp add: copied_def)
  with ok have ok': "copy_ok src ss w h dst ds r" by (simp add: copy_ok_def)
  note st = copy_pixel_step [OF ok' xy t]
  define off where "off = nat (dy * ds + dx * 4)"
  define px where "px = pixel_at src ss (int x, int y)"
  have off: "int off = dy * ds + dx * 4" "off + length px \<le> length dst" "length px = 4"
    using st(2-4) by (auto simp: off_def px_def)
  let ?d = "splice off px dst"
  have "copied src ss w h dst0 ds r y (Suc x) ?d"
    unfolding copied_def
  proof (intro conjI allI impI)
    show "length ?d = length dst0" using off len by simp
  next
    fix i j
    assume ij: "int i < w \<and> int j < h \<and> (j < y \<or> j = y \<and> i < Suc x)"
    obtain ex ey where u: "rot_target r w h (int i) (int j) = (ex, ey)" by fastforce
    note su = copy_pixel_step [OF ok' _ _ u]
    show "pixel_at ?d ds (rot_target r w h (int i) (int j)) = pixel_at src ss (int i, int j)"
    proof (cases "i = x \<and> j = y")
      case True
      then show ?thesis
        using slice_splice_same [OF off(2)] off(3) by (simp add: t pixel_at_def off_def px_def)
    next
      case False
      with rot_target_inj [of r w h "int i" "int j" "int x" "int y"] t u
      have ne: "(ex, ey) \<noteq> (dx, dy)" by auto
      obtain bw bh where b: "bitmap_size r w h = (bw, bh)" by fastforce
      have "ey * ds + ex * 4 + 4 \<le> dy * ds + dx * 4 \<or> dy * ds + dx * 4 + 4 \<le> ey * ds + ex * 4"
        using pixel_disjoint [of ex ds dx ey dy] ne ok b
          rot_target_bounds [OF _ xy(1) _ xy(2) t] rot_target_bounds [OF _ _ _ _ u, of] ij
        by (auto simp: copy_ok_def)
      with off su(2,3) ij have "pixel_at ?d ds (ex, ey) = pixel_at dst ds (ex, ey)"
        unfolding pixel_at_def fst_conv snd_conv by (intro slice_splice_other) auto
      moreover have "pixel_at dst ds (rot_target r w h (int i) (int j)) = pixel_at src ss (int i, int j)"
        using inv ij False by (auto simp: copied_def)
      ultimately show ?thesis by (simp add: u)
    qed
  next
    fix k
    assume k: "k < length dst0" and out: "\<forall>i j. int i < w \<and> int j < h \<longrightarrow>
          (case rot_target r w h (int i) (int j) of (dx, dy) \<Rightarrow>
             int k < dy * ds + dx * 4 \<or> dy * ds + dx * 4 + 4 \<le> int k)"
    then have "int k < dy * ds + dx * 4 \<or> dy * ds + dx * 4 + 4 \<le> int k"
      using xy t by fastforce
    with off k len have "?d ! k = dst ! k" by (subst nth_splice) auto
    with inv k out show "?d ! k = dst0 ! k" by (simp add: copied_def)
  qed
  then show ?thesis using st(1) by (auto simp: off_def px_def)
qed

lemma copied_row:
  assumes ok: "copy_ok src ss w h dst0 ds r" and y: "int y < h"
    and inv: "copied src ss w h dst0 ds r y 0 dst"
  shows "\<exists>dst'. for_upto (nat w) (\<lambda>x. copy_pixel src ss w h ds r y x) dst = Some dst' \<and>
           copied src ss w h dst0 ds r (Suc y) 0 dst'"
proof -
  have "\<exists>t. for_upto (nat w) (\<lambda>x. copy_pixel src ss w h ds r y x) dst = Some t \<and>
          copied src ss w h dst0 ds r y (nat w) t"
    by (rule for_upto_rule [where P = "copied src ss w h dst0 ds r y"], rule inv)
      (rule copied_step [OF ok _ y], auto)
  moreover have "copied src ss w h dst0 ds r (Suc y) 0 t" if "copied src ss w h dst0 ds r y (nat w) t" for t
    using that unfolding copied_def by (auto simp: less_Suc_eq)
  ultimately show ?thesis by blast
qed

lemma copy_rotated_copied:
  assumes ok: "copy_ok src ss w h dst ds r"
  shows "\<exists>dst'. copy_rotated_rgba src ss w h dst ds r = Some dst' \<and>
           copied src ss w h dst ds r (nat h) 0 dst'"
  unfolding copy_rotated_rgba_def
proof (rule for_upto_rule [where P = "\<lambda>y. copied src ss w h dst ds r y 0"])
  show "copied src ss w h dst ds r 0 0 dst" by (simp add: copied_def)
next
  fix y t
  assume "y < nat h" "copied src ss w h dst ds r y 0 t"
  then show "\<exists>u. for_upto (nat w) (\<lambda>x. copy_pixel src ss w h ds r y x) t = Some u \<and>
      copied src ss w h dst ds r (Suc y) 0 u"
    by (intro copied_row [OF ok]) auto
qed

section \<open>Properties\<close>

lemma fit_inside_limits:
  assumes "0 < width" "width \<le> INT_MAX" "0 < height" "height \<le> INT_MAX" "0 < maximum"
    and "fit_inside width height maximum = (w, h)"
  shows "1 \<le> w \<and> w \<le> maximum \<and> 1 \<le> h \<and> h \<le> maximum \<and>
    (max width height \<le> maximum \<longrightarrow> w = width \<and> h = height) \<and>
    (maximum < max width height \<longrightarrow> max w h = maximum)"
proof -
  let ?l = "max width height"
  show ?thesis
  proof (cases "?l \<le> maximum")
    case True
    with assms show ?thesis by (auto simp: fit_inside_def Let_def split: if_splits)
  next
    case False
    have l: "(if width > height then width else height) = ?l" by auto
    have "?l \<le> INT_MAX" "maximum < ?l" using assms False by auto
    note dim = scaled_dim [OF _ _ this(1) assms(5) this(2)]
    define sw where "sw = llround (b64 (of_int width * b64 (of_int maximum / b64 (of_int ?l))))"
    define sh where "sh = llround (b64 (of_int height * b64 (of_int maximum / b64 (of_int ?l))))"
    have w: "0 \<le> sw" "sw \<le> maximum" "width = ?l \<Longrightarrow> sw = maximum"
      unfolding sw_def using dim(1-3) [of width] assms by simp_all
    have h: "0 \<le> sh" "sh \<le> maximum" "height = ?l \<Longrightarrow> sh = maximum"
      unfolding sh_def using dim(1-3) [of height] assms by simp_all
    have i: "i32 sw = sw" "i32 sh = sh"
      using w h assms False by (auto intro!: i32_id simp: in_i32_def)
    have out: "w = (if sw < 1 then 1 else sw)" "h = (if sh < 1 then 1 else sh)"
      using assms(6) unfolding fit_inside_def Let_def l if_not_P [OF False]
      unfolding sw_def [symmetric] sh_def [symmetric] i by simp_all
    have "width = ?l \<or> height = ?l" by (auto simp: max_def)
    with w h show ?thesis using assms(5) False by (auto simp: out)
  qed
qed

text \<open>
  The thumbnail fits. For a frame of positive size and a positive limit, both
  sides of the result lie between 1 and the limit when the frame is larger, and the frame's
  own size is kept when it is not, in the binary64 arithmetic the code uses.
\<close>

theorem fit_inside_within_limit:
  assumes "0 < width" "width \<le> INT_MAX" "0 < height" "height \<le> INT_MAX" "0 < maximum"
    and "fit_inside width height maximum = (w, h)"
  shows "1 \<le> w \<and> w \<le> maximum \<and> 1 \<le> h \<and> h \<le> maximum \<and>
    (max width height \<le> maximum \<longrightarrow> w = width \<and> h = height) \<and>
    (maximum < max width height \<longrightarrow> max w h = maximum)"
  using assms by (rule fit_inside_limits)

theorem fit_inside_within_limit_witness:
  "fit_inside 1920 1080 512 = (512, 288) \<and> (1 :: int) \<le> 512 \<and> (1 :: int) \<le> 288 \<and> (288 :: int) \<le> 512"
proof -
  have "(1 :: int) \<le> 512 \<and> (512 :: int) \<le> 512 \<and> (1 :: int) \<le> 288 \<and> (288 :: int) \<le> 512 \<and>
      (max 1920 1080 \<le> (512 :: int) \<longrightarrow> (512 :: int) = 1920 \<and> (288 :: int) = 1080) \<and>
      ((512 :: int) < max 1920 1080 \<longrightarrow> max 512 288 = (512 :: int))"
    by (rule fit_inside_within_limit [OF _ _ _ _ _ fit_demo]) simp_all
  with fit_demo show ?thesis by blast
qed



text \<open>
  The orientation is one of the four quarter turns: the one within five degrees
  of the stream's clockwise angle, measured on the circle, and 0 when none is.
\<close>

theorem rotation_is_nearest_quarter_turn:
  assumes "length data \<ge> 36" "rotation_get data = Some angle" "in_i32 (llround (- angle))"
    and "r = normalized_clockwise_rotation rotation_get (Some data)"
  shows "r \<in> set quarter_turns \<and>
    (\<forall>q \<in> set quarter_turns. circle_dist (llround (- angle)) q \<le> 5 \<longrightarrow> r = q) \<and>
    ((\<forall>q \<in> set quarter_turns. 5 < circle_dist (llround (- angle)) q) \<longrightarrow> r = 0)"
proof -
  have r: "r = snap_rotation (llround (- angle) mod 360)"
    using rotation_eq_snap [where rotation_get = rotation_get and data = data and r = angle] assms by simp
  note c = snap_cases [of "llround (- angle) mod 360"]
  show ?thesis using c unfolding r circle_dist_mod by simp
qed

theorem rotation_is_nearest_quarter_turn_witness:
  "normalized_clockwise_rotation (\<lambda>_. Some (897 / 10)) (Some (replicate 36 0)) \<in> set quarter_turns \<and>
   normalized_clockwise_rotation (\<lambda>_. Some (897 / 10)) (Some (replicate 36 0)) = 270"
proof -
  have ll: "llround (- (897 / 10)) = - 90" by (simp add: b64_compute)
  let ?r = "normalized_clockwise_rotation (\<lambda>_. Some (897 / 10)) (Some (replicate 36 0))"
  have "?r \<in> set quarter_turns \<and>
      (\<forall>q \<in> set quarter_turns. circle_dist (llround (- (897 / 10))) q \<le> 5 \<longrightarrow> ?r = q) \<and>
      ((\<forall>q \<in> set quarter_turns. 5 < circle_dist (llround (- (897 / 10))) q) \<longrightarrow> ?r = 0)"
    by (rule rotation_is_nearest_quarter_turn [of "replicate 36 0" "\<lambda>_. Some (897 / 10)" "897 / 10"])
      (simp_all add: ll in_i32_def)
  moreover have "circle_dist (llround (- (897 / 10))) 270 \<le> 5" "270 \<in> set quarter_turns"
    unfolding ll by (simp_all add: quarter_turns_def circle_dist_def)
  ultimately show ?thesis by blast
qed

lemma copy_rotated_spec:
  assumes "copy_ok src ss w h dst ds r"
  shows "\<exists>dst'. copy_rotated_rgba src ss w h dst ds r = Some dst' \<and> length dst' = length dst \<and>
    (\<forall>x y. 0 \<le> x \<and> x < w \<and> 0 \<le> y \<and> y < h \<longrightarrow>
       pixel_at dst' ds (rot_target r w h x y) = pixel_at src ss (x, y)) \<and>
    (\<forall>k < length dst.
       (\<forall>dx dy. 0 \<le> dx \<and> dx < fst (bitmap_size r w h) \<and> 0 \<le> dy \<and> dy < snd (bitmap_size r w h) \<longrightarrow>
          int k < dy * ds + dx * 4 \<or> dy * ds + dx * 4 + 4 \<le> int k) \<longrightarrow> dst' ! k = dst ! k)"
proof -
  obtain dst' where run: "copy_rotated_rgba src ss w h dst ds r = Some dst'"
    and inv: "copied src ss w h dst ds r (nat h) 0 dst'"
    using copy_rotated_copied [OF assms] by blast
  show ?thesis
  proof (intro exI [of _ dst'] conjI allI impI, rule run)
    show "length dst' = length dst" using inv by (simp add: copied_def)
    show "pixel_at dst' ds (rot_target r w h x y) = pixel_at src ss (x, y)"
      if "0 \<le> x \<and> x < w \<and> 0 \<le> y \<and> y < h" for x y
    proof -
      have "pixel_at dst' ds (rot_target r w h (int (nat x)) (int (nat y))) = pixel_at src ss (int (nat x), int (nat y))"
        using inv that unfolding copied_def by (elim conjE allE [of _ "nat x"] allE [of _ "nat y"]) linarith
      with that show ?thesis by (simp only: int_nat_eq if_True)
    qed
    show "dst' ! k = dst ! k" if "k < length dst" and
      out: "\<forall>dx dy. 0 \<le> dx \<and> dx < fst (bitmap_size r w h) \<and> 0 \<le> dy \<and> dy < snd (bitmap_size r w h) \<longrightarrow>
             int k < dy * ds + dx * 4 \<or> dy * ds + dx * 4 + 4 \<le> int k" for k
    proof -
      have "case rot_target r w h (int i) (int j) of (dx, dy) \<Rightarrow>
             int k < dy * ds + dx * 4 \<or> dy * ds + dx * 4 + 4 \<le> int k" if "int i < w" "int j < h" for i j
      proof -
        obtain dx dy where t: "rot_target r w h (int i) (int j) = (dx, dy)" by fastforce
        from rot_target_bounds [OF _ that(1) _ that(2) t] show ?thesis
          unfolding t prod.case by (intro out [rule_format]) simp_all
      qed
      with inv \<open>k < length dst\<close> show ?thesis by (simp add: copied_def)
    qed
  qed
qed



end
