(* ===== verification/Rescale.thy ===== *)
theory Rescale
  imports Binary64
begin

text \<open>
  \<open>libavutil/mathematics.c\<close>: greatest common divisor and the rescaling of time stamps
  between time bases, with the 128-bit multiplication and division the code does on pairs of
  \<open>uint64_t\<close> words. Words that wrap are \<open>int\<close> with \<open>u64i\<close> (the residue modulo
  \<open>2 ^ 64\<close>) written where C truncates. The specification is rounding of the exact rational.
\<close>

record AVRational =
  num :: int
  den :: int

definition AV_ROUND_ZERO :: int where "AV_ROUND_ZERO = 0"
definition AV_ROUND_INF :: int where "AV_ROUND_INF = 1"
definition AV_ROUND_DOWN :: int where "AV_ROUND_DOWN = 2"
definition AV_ROUND_UP :: int where "AV_ROUND_UP = 3"
definition AV_ROUND_NEAR_INF :: int where "AV_ROUND_NEAR_INF = 5"
definition AV_ROUND_PASS_MINMAX :: int where "AV_ROUND_PASS_MINMAX = 8192"

lemmas round_consts = AV_ROUND_ZERO_def AV_ROUND_INF_def AV_ROUND_DOWN_def AV_ROUND_UP_def
  AV_ROUND_NEAR_INF_def AV_ROUND_PASS_MINMAX_def

section \<open>Greatest common divisor\<close>

text \<open>Number of trailing zero bits (\<open>ff_ctzll\<close>) of a positive number.\<close>

function ctz :: "int \<Rightarrow> nat" where
  "ctz v = (if v \<le> 0 \<or> odd v then 0 else Suc (ctz (v div 2)))"
  by pat_completeness auto
termination
  by (relation "measure nat") auto

declare ctz.simps [simp del]

lemma ctz_dvd: "2 ^ ctz v dvd v"
proof (induction v rule: ctz.induct)
  case (1 v)
  show ?case
  proof (cases "v \<le> 0 \<or> odd v")
    case True
    then show ?thesis by (simp add: ctz.simps [of v])
  next
    case False
    with 1 have "2 * 2 ^ ctz (v div 2) dvd 2 * (v div 2)" by (intro mult_dvd_mono) simp_all
    moreover have "2 * (v div 2) = v" using False by simp
    ultimately show ?thesis using False by (simp add: ctz.simps [of v])
  qed
qed

lemma ctz_odd: "0 < v \<Longrightarrow> odd (v div 2 ^ ctz v)"
proof (induction v rule: ctz.induct)
  case (1 v)
  show ?case
  proof (cases "odd v")
    case True
    with 1 show ?thesis by (simp add: ctz.simps [of v])
  next
    case False
    with "1.prems" have "0 < v div 2" by (simp add: pos_imp_zdiv_pos_iff) presburger
    with 1 False have "odd (v div 2 div 2 ^ ctz (v div 2))" by simp
    with False "1.prems" show ?thesis
      by (simp add: ctz.simps [of v] zdiv_zmult2_eq)
  qed
qed

lemma shift_ctz: "0 < v \<Longrightarrow> v = 2 ^ ctz v * (v div 2 ^ ctz v)"
  by (simp add: ctz_dvd)

lemma shift_ctz_pos: "0 < v \<Longrightarrow> 0 < v div 2 ^ ctz v \<and> v div 2 ^ ctz v \<le> v"
  using shift_ctz [of v] by (smt (verit) ctz_odd div_by_1 odd_pos one_le_power pos_imp_zdiv_nonneg_iff
      zdiv_mono2 zero_less_power even_zero)

text \<open>The loop of Stein's algorithm on odd positive values: \<open>while (u != v) ...\<close>.\<close>

function gcd_loop :: "int \<Rightarrow> int \<Rightarrow> int" where
  "gcd_loop u v =
     (if u \<le> 0 \<or> v \<le> 0 \<or> u = v then u
      else let (u, v) = (if u > v then (v, u) else (u, v));
               v = v - u;
               v = v div 2 ^ ctz v
           in gcd_loop u v)"
  by pat_completeness auto
termination
proof (relation "measure (\<lambda>(u, v). nat (u + v))", simp)
  fix u v x xa y xb xc
  assume "\<not> (u \<le> 0 \<or> v \<le> 0 \<or> u = v)" "x = (if v < u then (v, u) else (u, v))" "(xa, y) = x"
    "xb = y - xa" "xc = xb div 2 ^ ctz xb"
  then show "((xa, xc), u, v) \<in> measure (\<lambda>(u, v). nat (u + v))"
    using shift_ctz_pos [of xb] by (auto split: if_splits)
qed

declare gcd_loop.simps [simp del]

definition av_gcd :: "int \<Rightarrow> int \<Rightarrow> int" where
  "av_gcd a b =
     (if a = 0 then b
      else if b = 0 then a
      else let za = ctz \<bar>a\<bar>; zb = ctz \<bar>b\<bar>; k = min za zb;
               u = \<bar>a div 2 ^ za\<bar>; v = \<bar>b div 2 ^ zb\<bar>
           in i64 (u64i (gcd_loop u v * 2 ^ k)))"

lemma gcd_odd_shift:
  assumes "odd (u :: int)"
  shows "gcd u (2 ^ k * w) = gcd u w"
proof -
  have "coprime u (2 ^ k)" using assms by simp
  then show ?thesis by (simp add: gcd_mult_right_left_cancel)
qed

lemma gcd_loop_gcd:
  "0 < u \<Longrightarrow> 0 < v \<Longrightarrow> odd u \<Longrightarrow> odd v \<Longrightarrow> gcd_loop u v = gcd u v"
proof (induction u v rule: gcd_loop.induct)
  case (1 u v)
  show ?case
  proof (cases "u = v")
    case True
    with "1.prems" show ?thesis by (simp add: gcd_loop.simps [of v v])
  next
    case False
    define lo hi w where "lo = min u v" and "hi = max u v" and "w = hi - lo"
    have w: "0 < w" "odd lo" "0 < lo" using False "1.prems" by (auto simp: w_def hi_def lo_def min_def max_def)
    have unf: "gcd_loop u v = gcd_loop lo (w div 2 ^ ctz w)"
      using False "1.prems" by (simp add: gcd_loop.simps [of u v] lo_def hi_def w_def min_def max_def Let_def)
    have "gcd_loop lo (w div 2 ^ ctz w) = gcd lo (w div 2 ^ ctz w)"
      using "1.IH" [OF _ refl, of lo hi w "w div 2 ^ ctz w"] False "1.prems" w shift_ctz_pos [OF w(1)] ctz_odd [OF w(1)]
      by (auto simp: lo_def hi_def w_def min_def max_def split: if_splits)
    also have "\<dots> = gcd lo (2 ^ ctz w * (w div 2 ^ ctz w))"
      using gcd_odd_shift [OF w(2)] by simp
    also have "\<dots> = gcd lo w" using shift_ctz [OF w(1)] by simp
    also have "\<dots> = gcd lo hi" by (metis w_def gcd.commute gcd_diff1)
    also have "\<dots> = gcd u v" by (simp add: lo_def hi_def min_def max_def gcd.commute)
    finally show ?thesis by (simp add: unf)
  qed
qed

lemma abs_shift_ctz: "\<bar>a div 2 ^ ctz \<bar>a\<bar>\<bar> = \<bar>a\<bar> div 2 ^ ctz \<bar>a\<bar>"
  using ctz_dvd [of "\<bar>a\<bar>"] by (simp add: abs_div)

lemma av_gcd_eq:
  assumes "x \<noteq> 0" "y \<noteq> 0" "in_i64 x" "in_i64 y"
  shows "av_gcd x y = i64 (gcd x y)"
proof -
  define a b where "a = \<bar>x\<bar>" and "b = \<bar>y\<bar>"
  have pos: "0 < a" "0 < b" "a \<le> INT64_MAX + 1" using assms by (auto simp: a_def b_def in_i64_def)
  define za zb where "za = ctz a" and "zb = ctz b"
  define u v where "u = a div 2 ^ za" and "v = b div 2 ^ zb"
  have a: "a = 2 ^ za * u" "0 < u" "odd u"
    using shift_ctz [OF pos(1)] shift_ctz_pos [OF pos(1)] ctz_odd [OF pos(1)]
    by (simp_all add: za_def u_def)
  have b: "b = 2 ^ zb * v" "0 < v" "odd v"
    using shift_ctz [OF pos(2)] shift_ctz_pos [OF pos(2)] ctz_odd [OF pos(2)]
    by (simp_all add: zb_def v_def)
  have "gcd a b = 2 ^ min za zb * gcd u v"
  proof (cases "za \<le> zb")
    case True
    then have "b = 2 ^ za * (2 ^ (zb - za) * v)" using b(1) by (simp add: power_add [symmetric] mult.assoc [symmetric])
    then have "gcd a b = 2 ^ za * gcd u (2 ^ (zb - za) * v)" using a(1) gcd_mult_distrib_int [of "2 ^ za" u "2 ^ (zb - za) * v"] by simp
    also have "\<dots> = 2 ^ min za zb * gcd u v" using gcd_odd_shift [OF a(3)] True by simp
    finally show ?thesis .
  next
    case False
    then have "a = 2 ^ zb * (2 ^ (za - zb) * u)" using a(1) by (simp add: power_add [symmetric] mult.assoc [symmetric])
    then have "gcd a b = 2 ^ zb * gcd (2 ^ (za - zb) * u) v" using b(1) gcd_mult_distrib_int [of "2 ^ zb" "2 ^ (za - zb) * u" v] by simp
    also have "\<dots> = 2 ^ min za zb * gcd u v" using gcd_odd_shift [OF b(3)] False by (simp add: gcd.commute)
    finally show ?thesis .
  qed
  moreover have "av_gcd x y = i64 (u64i (gcd_loop u v * 2 ^ min za zb))"
    using assms(1,2) abs_shift_ctz [of x] abs_shift_ctz [of y]
    by (simp add: av_gcd_def za_def zb_def u_def v_def a_def b_def Let_def)
  ultimately have eq: "av_gcd x y = i64 (u64i (gcd a b))"
    using gcd_loop_gcd [OF a(2) b(2) a(3) b(3)] by (simp add: mult.commute)
  have "gcd a b \<le> a" "0 \<le> gcd a b" using pos(1) by (simp_all add: zdvd_imp_le)
  with pos(3) have "u64i (gcd a b) = gcd a b" by (intro u64i_id) linarith+
  with eq show ?thesis by (simp add: a_def b_def)
qed

section \<open>Rescaling\<close>

text \<open>The bits of the rounding argument: \<open>rnd & ~AV_ROUND_PASS_MINMAX\<close> and its validity.\<close>

definition rnd_base :: "int \<Rightarrow> int" where
  "rnd_base rnd = (if (rnd div 8192) mod 2 = 1 then rnd - 8192 else rnd)"

definition rnd_valid :: "int \<Rightarrow> bool" where
  "rnd_valid rnd \<longleftrightarrow> 0 \<le> rnd_base rnd \<and> rnd_base rnd \<le> 5 \<and> rnd_base rnd \<noteq> 4"

text \<open>
  The long division of the 128-bit number \<open>a1 : a0\<close> by \<open>c\<close>: one iteration for each of the
  bits \<open>i - 1, ..., 0\<close> of \<open>a0\<close>.
\<close>

fun div128_loop :: "nat \<Rightarrow> int \<Rightarrow> int \<Rightarrow> int \<Rightarrow> int \<Rightarrow> int \<times> int" where
  "div128_loop 0 a0 c a1 t1 = (a1, t1)"
| "div128_loop (Suc i) a0 c a1 t1 =
     (let a1 = u64i (a1 + a1 + (a0 div 2 ^ i) mod 2);
          t1 = u64i (t1 + t1)
      in if c \<le> a1 then div128_loop i a0 c (u64i (a1 - c)) (u64i (t1 + 1))
         else div128_loop i a0 c a1 t1)"

text \<open>The 128-bit product plus \<open>r\<close>, as the two words \<open>a1\<close> (high) and \<open>a0\<close> (low), and \<open>t1\<close>.\<close>

definition mul128 :: "int \<Rightarrow> int \<Rightarrow> int \<Rightarrow> int \<times> int \<times> int" where
  "mul128 a b r =
     (let a0 = a mod 4294967296; a1 = a div 4294967296;
          b0 = b mod 4294967296; b1 = b div 4294967296;
          t1 = u64i (a0 * b1 + a1 * b0);
          t1a = u64i (t1 * 4294967296);
          a0 = u64i (a0 * b0 + t1a);
          a1 = u64i (a1 * b1 + t1 div 4294967296 + (if a0 < t1a then 1 else 0));
          a0 = u64i (a0 + r);
          a1 = u64i (a1 + (if a0 < r then 1 else 0))
      in (a1, a0, t1))"

text \<open>Lines 77 to 127: the rescaling of a non-negative \<open>a\<close>.\<close>

definition rescale_nonneg :: "int \<Rightarrow> int \<Rightarrow> int \<Rightarrow> int \<Rightarrow> int" where
  "rescale_nonneg a b c rnd =
     (let r = (if rnd = AV_ROUND_NEAR_INF then c div 2 else if odd rnd then c - 1 else 0) in
      if b \<le> INT_MAX \<and> c \<le> INT_MAX then
        (if a \<le> INT_MAX then (a * b + r) div c
         else let ad = a div c; a2 = (a mod c * b + r) div c in
           if ad \<ge> INT_MAX \<and> b \<noteq> 0 \<and> ad > (INT64_MAX - a2) div b then INT64_MIN
           else ad * b + a2)
      else
        (case mul128 a b r of (a1, a0, t1) \<Rightarrow>
           case div128_loop 64 a0 c a1 t1 of (a1, t1) \<Rightarrow>
             if t1 > INT64_MAX then INT64_MIN else t1))"

text \<open>\<open>rnd ^ ((rnd >> 1) & 1)\<close>: rounding down and up are exchanged for a negative argument.\<close>

definition swap_rounding :: "int \<Rightarrow> int" where
  "swap_rounding rnd = (if (rnd div 2) mod 2 = 1 then (if odd rnd then rnd - 1 else rnd + 1) else rnd)"

definition av_rescale_rnd :: "int \<Rightarrow> int \<Rightarrow> int \<Rightarrow> int \<Rightarrow> int" where
  "av_rescale_rnd a b c rnd =
     (if c \<le> 0 \<or> b < 0 \<or> \<not> rnd_valid rnd then INT64_MIN
      else if rnd \<noteq> rnd_base rnd \<and> (a = INT64_MIN \<or> a = INT64_MAX) then a
      else let rnd = rnd_base rnd in
        if a < 0 then
          i64 (u64i (- u64i (rescale_nonneg (- max a (- INT64_MAX)) b c (swap_rounding rnd))))
        else rescale_nonneg a b c rnd)"

definition av_rescale :: "int \<Rightarrow> int \<Rightarrow> int \<Rightarrow> int" where
  "av_rescale a b c = av_rescale_rnd a b c AV_ROUND_NEAR_INF"

definition av_rescale_q_rnd :: "int \<Rightarrow> AVRational \<Rightarrow> AVRational \<Rightarrow> int \<Rightarrow> int" where
  "av_rescale_q_rnd a bq cq rnd = av_rescale_rnd a (num bq * den cq) (num cq * den bq) rnd"

definition av_rescale_q :: "int \<Rightarrow> AVRational \<Rightarrow> AVRational \<Rightarrow> int" where
  "av_rescale_q a bq cq = av_rescale_q_rnd a bq cq AV_ROUND_NEAR_INF"

text \<open>The bitwise or of non-negative numbers is at most \<open>INT_MAX\<close> when each of them is.\<close>

definition av_compare_ts :: "int \<Rightarrow> AVRational \<Rightarrow> int \<Rightarrow> AVRational \<Rightarrow> int" where
  "av_compare_ts ts_a tb_a ts_b tb_b =
     (let a = num tb_a * den tb_b; b = num tb_b * den tb_a in
      if \<bar>ts_a\<bar> \<le> INT_MAX \<and> 0 \<le> a \<and> a \<le> INT_MAX \<and> \<bar>ts_b\<bar> \<le> INT_MAX \<and> 0 \<le> b \<and> b \<le> INT_MAX
      then (if ts_a * a > ts_b * b then 1 else 0) - (if ts_a * a < ts_b * b then 1 else 0)
      else if av_rescale_rnd ts_a a b AV_ROUND_DOWN < ts_b then - 1
      else if av_rescale_rnd ts_b b a AV_ROUND_DOWN < ts_a then 1
      else 0)"

definition av_compare_mod :: "u64 \<Rightarrow> u64 \<Rightarrow> u64 \<Rightarrow> int" where
  "av_compare_mod a b md =
     (let c = and (a - b) (md - 1);
          c = (if uint c > uint (drop_bit 1 md) then c - md else c)
      in sint c)"

definition av_clip64 :: "int \<Rightarrow> int \<Rightarrow> int \<Rightarrow> int" where
  "av_clip64 a amin amax = (if a < amin then amin else if a > amax then amax else a)"

text \<open>The result and the new value of \<open>*last\<close>.\<close>

definition av_rescale_delta ::
  "AVRational \<Rightarrow> int \<Rightarrow> AVRational \<Rightarrow> int \<Rightarrow> int \<Rightarrow> AVRational \<Rightarrow> int \<times> int" where
  "av_rescale_delta in_tb in_ts fs_tb duration last_ts out_tb =
     (let simple = (av_rescale_q in_ts in_tb out_tb, av_rescale_q in_ts in_tb fs_tb + duration) in
      if last_ts = AV_NOPTS_VALUE \<or> duration = 0 \<or> num in_tb * den out_tb \<le> num out_tb * den in_tb
      then simple
      else
        let a = av_rescale_q_rnd (2 * in_ts - 1) in_tb fs_tb AV_ROUND_DOWN div 2;
            b = (av_rescale_q_rnd (2 * in_ts + 1) in_tb fs_tb AV_ROUND_UP + 1) div 2
        in if last_ts < 2 * a - b \<or> last_ts > 2 * b - a then simple
           else let this = av_clip64 last_ts a b
                in (av_rescale_q this fs_tb out_tb, this + duration))"

lemma int_le_div_iff: "0 < (q :: int) \<Longrightarrow> m \<le> n div q \<longleftrightarrow> m * q \<le> n"
  by (smt (verit, best) div_mult_mod_eq mult_right_less_imp_less mult_right_mono nonzero_mult_div_cancel_right
      pos_mod_bound pos_mod_sign zdiv_mono1)

lemma int_div_less_iff: "0 < (q :: int) \<Longrightarrow> m div q < n \<longleftrightarrow> m < n * q"
  using int_le_div_iff [of q n m] by linarith

section \<open>The 128-bit path\<close>

lemma u64i_mul_add_norm:
  "u64i (u64i x * y + z) = u64i (x * y + z)"
  "u64i ((u64i x + k) * y + z) = u64i ((x + k) * y + z)"
  "u64i (u64i (u64i x + k) * y + z) = u64i ((x + k) * y + z)"
proof -
  have add: "u64i (u64i u + v) = u64i (u + v)" for u v by (simp add: u64i_def mod_add_left_eq)
  have mul: "u64i (u64i u * v) = u64i (u * v)" for u v by (simp add: u64i_def mod_mult_left_eq)
  show 1: "u64i (u64i x * y + z) = u64i (x * y + z)" for x by (metis add mul)
  show "u64i ((u64i x + k) * y + z) = u64i ((x + k) * y + z)" by (metis 1 add)
  show "u64i (u64i (u64i x + k) * y + z) = u64i ((x + k) * y + z)" by (metis 1 add)
qed

lemma div128_loop_quotient:
  assumes "0 < c" "c \<le> INT64_MAX + 1" "0 \<le> a1" "a1 < c"
  shows "div128_loop n a0 c a1 t1 =
     ((a1 * 2 ^ n + a0 mod 2 ^ n) mod c, u64i (t1 * 2 ^ n + (a1 * 2 ^ n + a0 mod 2 ^ n) div c)) \<or> n = 0"
  using assms
proof (induction n arbitrary: a1 t1)
  case 0
  then show ?case by simp
next
  case (Suc n)
  define b where "b = (a0 div 2 ^ n) mod 2"
  define x where "x = a1 + a1 + b"
  define y where "y = a1 * 2 ^ Suc n + a0 mod 2 ^ Suc n"
  have b: "0 \<le> b" "b \<le> 1" unfolding b_def by simp_all
  have xw: "u64i x = x" using b Suc.prems by (intro u64i_id) (simp_all add: x_def)
  have "a0 mod (2 ^ n * 2) = 2 ^ n * b + a0 mod 2 ^ n" unfolding b_def by (rule zmod_zmult2_eq) simp
  then have m: "a0 mod 2 ^ Suc n = 2 ^ n * b + a0 mod 2 ^ n" by (simp only: power_Suc2)
  have y: "y = x * 2 ^ n + a0 mod 2 ^ n"
    unfolding y_def m x_def by (simp add: algebra_simps)
  have m0: "0 \<le> a0 mod 2 ^ n" "a0 mod 2 ^ n < 2 ^ n" by simp_all
  have x2: "2 * a1 + b = x" by (simp add: x_def)
  define k where "k = (if c \<le> x then 1 else (0::int))"
  define x' where "x' = x - k * c"
  define t' where "t' = u64i (2 * t1 + k)"
  have x': "0 \<le> x'" "x' < c" using b Suc.prems by (auto simp: x'_def k_def x_def)
  have unf: "div128_loop (Suc n) a0 c a1 t1 = div128_loop n a0 c x' t'"
  proof (cases "c \<le> x")
    case True
    then have "u64i (x - c) = x - c"
      using b Suc.prems by (intro u64i_id) (simp_all add: x_def)
    moreover have "u64i (u64i (t1 + t1) + 1) = u64i (2 * t1 + 1)"
      by (simp add: u64i_def mod_add_left_eq)
    ultimately show ?thesis
      using True xw by (simp add: Let_def b_def [symmetric] x2 x'_def t'_def k_def)
  next
    case False
    then show ?thesis
      using xw by (simp add: Let_def b_def [symmetric] x2 x'_def t'_def k_def)
  qed
  have y': "y = (x' * 2 ^ n + a0 mod 2 ^ n) + (k * 2 ^ n) * c"
    by (simp add: y x'_def algebra_simps)
  have md: "y mod c = (x' * 2 ^ n + a0 mod 2 ^ n) mod c" unfolding y' by simp
  have dv: "y div c = k * 2 ^ n + (x' * 2 ^ n + a0 mod 2 ^ n) div c"
    unfolding y' using Suc.prems(1) by simp
  have tt: "u64i (t' * 2 ^ n + q) = u64i ((2 * t1 + k) * 2 ^ n + q)" for q
    unfolding t'_def by (simp only: u64i_mul_add_norm)
  have "div128_loop n a0 c x' t' =
     ((x' * 2 ^ n + a0 mod 2 ^ n) mod c, u64i (t' * 2 ^ n + (x' * 2 ^ n + a0 mod 2 ^ n) div c))"
  proof (cases "n = 0")
    case True
    have "u64i t' = t'" by (simp add: t'_def u64i_def)
    with True x' show ?thesis by simp
  next
    case False
    with Suc.IH [OF Suc.prems(1,2) x'] show ?thesis by blast
  qed
  also have "\<dots> = (y mod c, u64i (t1 * 2 ^ Suc n + y div c))"
    by (simp add: md dv tt algebra_simps)
  finally show ?case unfolding unf y_def by simp
qed

lemma div128_loop_low:
  "\<exists>m. 0 \<le> m \<and> m < 2 ^ n \<and> snd (div128_loop n a0 c a1 t1) mod 18446744073709551616 = u64i (t1 * 2 ^ n + m)"
proof (induction n arbitrary: a1 t1)
  case 0
  have "snd (div128_loop 0 a0 c a1 t1) mod 18446744073709551616 = u64i (t1 * 2 ^ 0 + 0)"
    by (simp add: u64i_def)
  then show ?case by (intro exI [of _ 0]) simp
next
  case (Suc n)
  obtain a' k where k: "k = 0 \<or> k = 1"
    and unf: "div128_loop (Suc n) a0 c a1 t1 = div128_loop n a0 c a' (u64i (u64i (t1 + t1) + k))"
  proof (cases "c \<le> u64i (a1 + a1 + (a0 div 2 ^ n) mod 2)")
    case True
    then show ?thesis by (intro that [of 1]) (simp_all add: Let_def)
  next
    case False
    have "u64i (u64i (t1 + t1) + 0) = u64i (t1 + t1)" by (simp add: u64i_def)
    with False show ?thesis by (intro that [of 0]) (simp_all add: Let_def)
  qed
  obtain m where m: "0 \<le> m" "m < 2 ^ n"
    and eq: "snd (div128_loop n a0 c a' (u64i (u64i (t1 + t1) + k))) mod 18446744073709551616
           = u64i (u64i (u64i (t1 + t1) + k) * 2 ^ n + m)"
    using Suc.IH by blast
  have "u64i (u64i (u64i (t1 + t1) + k) * 2 ^ n + m) = u64i ((t1 + t1 + k) * 2 ^ n + m)"
    by (simp only: u64i_mul_add_norm)
  also have "\<dots> = u64i (t1 * 2 ^ Suc n + (k * 2 ^ n + m))" by (simp add: algebra_simps)
  finally have "snd (div128_loop (Suc n) a0 c a1 t1) mod 18446744073709551616
      = u64i (t1 * 2 ^ Suc n + (k * 2 ^ n + m))"
    unfolding unf eq .
  moreover have "0 \<le> k * 2 ^ n + m" "k * 2 ^ n + m < 2 ^ Suc n" using k m by auto
  ultimately show ?case by blast
qed

lemma u64i_bounds: "0 \<le> u64i x" "u64i x < 18446744073709551616"
  by (simp_all add: u64i_def)

lemma div128_loop_bounds:
  "0 \<le> t1 \<Longrightarrow> t1 < 18446744073709551616 \<Longrightarrow>
   0 \<le> snd (div128_loop n a0 c a1 t1) \<and> snd (div128_loop n a0 c a1 t1) < 18446744073709551616"
  by (induction n arbitrary: a1 t1) (simp_all add: Let_def u64i_bounds)

lemma div128_loop_overflow:
  assumes "0 < c" "c \<le> a1" "a1 \<le> INT64_MAX"
  shows "INT64_MAX < snd (div128_loop 64 a0 c a1 t1)"
proof -
  define b where "b = (a0 div 2 ^ 63) mod 2"
  have "0 \<le> b" "b \<le> 1" unfolding b_def by simp_all
  then have w: "u64i (a1 + a1 + b) = a1 + a1 + b" using assms by (intro u64i_id) linarith+
  have "c \<le> a1 + a1 + b" using assms \<open>0 \<le> b\<close> by linarith
  then have unf: "div128_loop 64 a0 c a1 t1
      = div128_loop 63 a0 c (u64i (a1 + a1 + b - c)) (u64i (u64i (t1 + t1) + 1))"
    using w div128_loop.simps(2) [of 63 a0 c a1 t1]
    by (simp only: Let_def b_def [symmetric] if_True) simp
  define q where "q = snd (div128_loop 63 a0 c (u64i (a1 + a1 + b - c)) (u64i (u64i (t1 + t1) + 1)))"
  obtain m where m: "0 \<le> m" "m < 2 ^ 63"
    and "q mod 18446744073709551616 = u64i (u64i (u64i (t1 + t1) + 1) * 2 ^ 63 + m)"
    unfolding q_def using div128_loop_low by blast
  then have "q mod 18446744073709551616 = ((t1 + t1 + 1) * 2 ^ 63 + m) mod 18446744073709551616"
    using u64i_mul_add_norm(3) [of "t1 + t1" 1 "2 ^ 63" m] by (simp add: u64i_def)
  also have "(t1 + t1 + 1) * 2 ^ 63 + m = (2 ^ 63 + m) + t1 * 18446744073709551616" by simp
  also have "\<dots> mod 18446744073709551616 = 2 ^ 63 + m" using m by simp
  finally have "q mod 18446744073709551616 = 2 ^ 63 + m" .
  moreover have "0 \<le> q \<and> q < 18446744073709551616"
    unfolding q_def by (rule div128_loop_bounds) (rule u64i_bounds)+
  ultimately show ?thesis unfolding unf q_def [symmetric] using m by simp
qed

lemma mul128_value:
  assumes "0 \<le> a" "a \<le> INT64_MAX" "0 \<le> b" "b \<le> INT64_MAX" "0 \<le> r" "r \<le> INT64_MAX"
  shows "\<exists>hi lo t1. mul128 a b r = (hi, lo, t1) \<and> hi * 2 ^ 64 + lo = a * b + r \<and>
           0 \<le> lo \<and> lo < 2 ^ 64 \<and> 0 \<le> hi \<and> hi \<le> INT64_MAX \<and> 0 \<le> t1 \<and> t1 < 2 ^ 64"
proof -
  let ?w = "4294967296 :: int"
  define a0 a1 b0 b1 where "a0 = a mod ?w" and "a1 = a div ?w" and "b0 = b mod ?w" and "b1 = b div ?w"
  have a: "a = a1 * ?w + a0" "0 \<le> a0" "a0 \<le> ?w - 1" "0 \<le> a1" "a1 \<le> 2147483647"
    using assms(1,2) zdiv_mono1 [of a INT64_MAX ?w] unfolding a0_def a1_def by simp_all
  have b: "b = b1 * ?w + b0" "0 \<le> b0" "b0 \<le> ?w - 1" "0 \<le> b1" "b1 \<le> 2147483647"
    using assms(3,4) zdiv_mono1 [of b INT64_MAX ?w] unfolding b0_def b1_def by simp_all
  have p: "0 \<le> a0 * b1" "a0 * b1 \<le> (?w - 1) * 2147483647" "0 \<le> a1 * b0" "a1 * b0 \<le> 2147483647 * (?w - 1)"
    "0 \<le> a0 * b0" "a0 * b0 \<le> (?w - 1) * (?w - 1)" "0 \<le> a1 * b1" "a1 * b1 \<le> 2147483647 * 2147483647"
    using a b by (simp, intro mult_mono, linarith, linarith, simp, simp, simp, intro mult_mono, linarith, linarith,
        simp, simp, simp, intro mult_mono, linarith, linarith, simp, simp, simp, intro mult_mono, linarith, linarith, simp, simp)
  define t where "t = a0 * b1 + a1 * b0"
  have tw: "u64i t = t" and t0: "0 \<le> t" "t \<le> 18446744065119617025"
    using p by (simp_all add: t_def u64i_id)
  define th tl where "th = t div ?w" and "tl = t mod ?w"
  have th: "t = th * ?w + tl" "0 \<le> tl" "tl \<le> ?w - 1" "0 \<le> th" "th \<le> 4294967294"
    using t0 unfolding th_def tl_def by (simp, simp, simp, simp, linarith)
  have ta: "u64i (t * ?w) = tl * ?w"
  proof -
    have "t * ?w = tl * ?w + th * 18446744073709551616" using th(1) by simp
    then have "u64i (t * ?w) = u64i (tl * ?w)" by (simp add: u64i_def)
    also have "\<dots> = tl * ?w" using th by (intro u64i_id) linarith+
    finally show ?thesis .
  qed
  have carry: "\<exists>k. (k = 0 \<or> k = 1) \<and> u64i (x + y) = x + y - k * 18446744073709551616 \<and>
      (if u64i (x + y) < y then 1 else 0) = k"
    if "0 \<le> x" "x < 18446744073709551616" "0 \<le> y" "y < 18446744073709551616" for x y :: int
  proof (cases "x + y < 18446744073709551616")
    case True
    with that have "u64i (x + y) = x + y" by (intro u64i_id) linarith+
    with that show ?thesis by (intro exI [of _ 0]) simp
  next
    case False
    have "u64i (x + y) = (x + y - 18446744073709551616) mod 18446744073709551616"
      using mod_add_self2 [of "x + y - 18446744073709551616" 18446744073709551616]
      unfolding u64i_def by (simp only: diff_add_cancel)
    also have "\<dots> = x + y - 18446744073709551616" using that False by (intro mod_pos_pos_trivial) linarith+
    finally show ?thesis using that by (intro exI [of _ 1]) simp
  qed
  obtain k where k: "k = 0 \<or> k = 1" "u64i (a0 * b0 + tl * ?w) = a0 * b0 + tl * ?w - k * 18446744073709551616"
    "(if u64i (a0 * b0 + tl * ?w) < tl * ?w then 1 else 0) = k"
    using carry [of "a0 * b0" "tl * ?w"] p th by auto
  define l where "l = u64i (a0 * b0 + tl * ?w)"
  have l: "0 \<le> l" "l < 18446744073709551616" by (simp_all add: l_def u64i_bounds)
  obtain j where j: "j = 0 \<or> j = 1" "u64i (l + r) = l + r - j * 18446744073709551616"
    "(if u64i (l + r) < r then 1 else 0) = j"
    using carry [of l r] l assms(5,6) by auto
  define h where "h = a1 * b1 + th + k"
  have h: "0 \<le> h" "h \<le> INT64_MAX - 1" "u64i h = h"
    using p th k(1) by (auto simp: h_def intro!: u64i_id)
  have hj: "u64i (h + j) = h + j" using h j(1) by (intro u64i_id) auto
  have "mul128 a b r = (h + j, u64i (l + r), t)"
    using k(3) j(3) h(3) hj
    by (simp add: mul128_def Let_def a0_def [symmetric] a1_def [symmetric] b0_def [symmetric]
        b1_def [symmetric] t_def [symmetric] tw ta th_def [symmetric] l_def [symmetric] h_def [symmetric])
  moreover have "(h + j) * 2 ^ 64 + u64i (l + r) = a * b + r"
    using k(2) j(2) th(1) by (simp add: a(1) b(1) l_def [symmetric] h_def t_def algebra_simps)
  ultimately show ?thesis using h j(1) t0 u64i_bounds [of "l + r"] by fastforce
qed

section \<open>Rescaling is exact\<close>

lemma rescale_nonneg_value:
  fixes a b c rnd :: int
  defines "r \<equiv> if rnd = AV_ROUND_NEAR_INF then c div 2 else if odd rnd then c - 1 else 0"
  assumes "0 \<le> a" "a \<le> INT64_MAX" "0 \<le> b" "b \<le> INT64_MAX" "0 < c" "c \<le> INT64_MAX"
  shows "rescale_nonneg a b c rnd =
    (if (a * b + r) div c \<le> INT64_MAX then (a * b + r) div c else INT64_MIN)"
proof -
  have r: "0 \<le> r" "r < c" using assms(6) by (auto simp: r_def)
  consider (small) "b \<le> INT_MAX" "c \<le> INT_MAX" "a \<le> INT_MAX"
    | (split) "b \<le> INT_MAX" "c \<le> INT_MAX" "INT_MAX < a"
    | (wide) "\<not> (b \<le> INT_MAX \<and> c \<le> INT_MAX)" by linarith
  then show ?thesis
  proof cases
    case small
    have "a * b \<le> INT_MAX * INT_MAX" using small assms(2,4) by (intro mult_mono) simp_all
    moreover have "0 \<le> a * b" using assms(2,4) by simp
    ultimately have "0 \<le> a * b + r" "a * b + r \<le> INT64_MAX" using r small by linarith+
    then have "(a * b + r) div c \<le> INT64_MAX"
      using assms(6) by (smt (verit) div_by_1 zdiv_mono2)
    with small show ?thesis by (simp add: rescale_nonneg_def r_def [symmetric])
  next
    case split
    define ad a2 where "ad = a div c" and "a2 = (a mod c * b + r) div c"
    have "a * b = (c * (a div c) + a mod c) * b" by simp
    then have "a * b + r = (a mod c * b + r) + (ad * b) * c"
      unfolding ad_def by (simp only: algebra_simps)
    then have "(a * b + r) div c = ((a mod c * b + r) + (ad * b) * c) div c" by (simp only:)
    also have "\<dots> = ad * b + a2" unfolding a2_def using assms(6) by (subst div_mult_self1) simp_all
    finally have v: "(a * b + r) div c = ad * b + a2" .
    have m: "0 \<le> a mod c" "a mod c \<le> c - 1" using assms(6) by simp_all
    have "a mod c * b \<le> (c - 1) * b" using m assms(4) by (intro mult_right_mono) simp_all
    also have "\<dots> \<le> b * c" using assms(4) by (simp add: algebra_simps)
    finally have "a mod c * b + r \<le> (b + 1) * c" using r by (simp add: algebra_simps)
    then have "a2 \<le> (b + 1) * c div c" unfolding a2_def using assms(6) by (intro zdiv_mono1) simp_all
    then have a2: "0 \<le> a2" "a2 \<le> 2147483648" using assms(4,6) r m split
      by (simp_all add: a2_def pos_imp_zdiv_nonneg_iff)
    have ad: "0 \<le> ad" using assms(2,6) by (simp add: ad_def pos_imp_zdiv_nonneg_iff)
    have "(ad \<ge> INT_MAX \<and> b \<noteq> 0 \<and> ad > (INT64_MAX - a2) div b) \<longleftrightarrow> \<not> ad * b + a2 \<le> INT64_MAX"
    proof (cases "b = 0")
      case True
      then show ?thesis using a2 by simp
    next
      case False
      with assms(4) have b: "0 < b" by simp
      have "(INT64_MAX - a2) div b < ad \<longleftrightarrow> INT64_MAX - a2 < ad * b"
        using b by (simp add: int_div_less_iff)
      moreover have "ad * b \<le> INT_MAX * INT_MAX" if "ad < INT_MAX"
        using that ad b split by (intro mult_mono) simp_all
      ultimately show ?thesis using a2 b by (cases "ad < INT_MAX") (auto simp: not_le not_less)
    qed
    then show ?thesis using split unfolding v
      by (simp add: rescale_nonneg_def r_def [symmetric] ad_def [symmetric] a2_def [symmetric] Let_def)
  next
    case wide
    obtain hi lo t1 where m: "mul128 a b r = (hi, lo, t1)" "hi * 2 ^ 64 + lo = a * b + r"
      "0 \<le> lo" "lo < 2 ^ 64" "0 \<le> hi" "hi \<le> INT64_MAX" "0 \<le> t1" "t1 < 2 ^ 64"
      using mul128_value [of a b r] assms r by auto
    have unf: "rescale_nonneg a b c rnd =
        (let t = snd (div128_loop 64 lo c hi t1) in if t > INT64_MAX then INT64_MIN else t)"
      unfolding rescale_nonneg_def Let_def r_def [symmetric] if_not_P [OF wide] m(1) prod.case
      by (simp split: prod.splits)
    show ?thesis
    proof (cases "hi < c")
      case True
      have lo: "lo mod 2 ^ 64 = lo" using m by simp
      define q where "q = (a * b + r) div c"
      have "snd (div128_loop 64 lo c hi t1) = u64i (t1 * 2 ^ 64 + q)"
        using div128_loop_quotient [of c hi 64 lo t1] True m(2,5) assms(6,7) unfolding lo q_def
        by simp
      also have "\<dots> = u64i q" by (simp add: u64i_def)
      also have "\<dots> = q"
      proof (rule u64i_id)
        show "0 \<le> q" unfolding q_def using assms(2,4,6) r by (simp add: pos_imp_zdiv_nonneg_iff)
        have "a * b + r < c * 18446744073709551616" using m(2,4) True by simp
        then show "q < 18446744073709551616"
          unfolding q_def using assms(6) by (simp add: int_div_less_iff mult.commute)
      qed
      finally show ?thesis unfolding unf q_def [symmetric] by simp
    next
      case False
      then have "c \<le> hi" by simp
      then have "c * 2 ^ 64 \<le> hi * 2 ^ 64" by (intro mult_right_mono) simp_all
      then have "18446744073709551616 * c \<le> a * b + r" using m by simp
      then have "18446744073709551616 \<le> (a * b + r) div c"
        using assms(6) by (simp add: int_le_div_iff)
      then show ?thesis using div128_loop_overflow [of c hi lo t1] False assms(6) m(6) unfolding unf
        by simp
    qed
  qed
qed

text \<open>What each rounding mode of \<open>mathematics.h\<close> documents, on the exact rational.\<close>

definition rounded :: "int \<Rightarrow> rat \<Rightarrow> int" where
  "rounded rnd q =
     (if rnd = AV_ROUND_ZERO then (if q < 0 then \<lceil>q\<rceil> else \<lfloor>q\<rfloor>)
      else if rnd = AV_ROUND_INF then (if q < 0 then \<lfloor>q\<rfloor> else \<lceil>q\<rceil>)
      else if rnd = AV_ROUND_DOWN then \<lfloor>q\<rfloor>
      else if rnd = AV_ROUND_UP then \<lceil>q\<rceil>
      else llround q)"

definition roundings :: "int list" where
  "roundings = [AV_ROUND_ZERO, AV_ROUND_INF, AV_ROUND_DOWN, AV_ROUND_UP, AV_ROUND_NEAR_INF]"

text \<open>A value of the result type, or the error value \<open>INT64_MIN\<close>.\<close>

definition saturated :: "int \<Rightarrow> int" where
  "saturated v = (if \<bar>v\<bar> \<le> INT64_MAX then v else INT64_MIN)"

lemma rounding_cases:
  assumes "rnd \<in> set roundings"
  obtains "rnd = 0" | "rnd = 1" | "rnd = 2" | "rnd = 3" | "rnd = 5"
  using assms by (auto simp: roundings_def round_consts)

lemma floor_half:
  assumes "0 < (c :: int)"
  shows "\<lfloor>of_int n / of_int c + 1 / 2 :: rat\<rfloor> = (n + c div 2) div c"
proof -
  have "of_int n / of_int c + 1 / 2 = (of_int (2 * n + c) / of_int (2 * c) :: rat)"
    using assms by (simp add: field_simps)
  then have "\<lfloor>of_int n / of_int c + 1 / 2 :: rat\<rfloor> = (2 * n + c) div (2 * c)"
    by (simp only: floor_divide_of_int_eq)
  also have "\<dots> = (2 * n + c) div 2 div c" using assms by (intro zdiv_zmult2_eq) simp
  also have "(2 * n + c) div 2 = n + c div 2" by simp
  finally show ?thesis .
qed

lemma ceiling_div_pos:
  assumes "0 < (c :: int)"
  shows "\<lceil>of_int n / of_int c :: rat\<rceil> = (n + (c - 1)) div c"
proof -
  have "\<lceil>of_int n / of_int c :: rat\<rceil> = - ((- n) div c)" by (rule ceiling_divide_eq_div)
  also have "\<dots> = (n + (c - 1)) div c"
  proof -
    define k where "k = - ((- n) div c)"
    have "(- n) div c * c \<le> - n" "- n < ((- n) div c + 1) * c"
      using assms by (simp_all add: int_le_div_iff [symmetric] int_div_less_iff [symmetric])
    then have "k * c \<le> n + (c - 1)" "n + (c - 1) < (k + 1) * c"
      by (simp_all add: k_def algebra_simps)
    then have "k \<le> (n + (c - 1)) div c" "(n + (c - 1)) div c < k + 1"
      using assms by (simp_all only: int_le_div_iff int_div_less_iff)
    then show ?thesis by (simp add: k_def)
  qed
  finally show ?thesis .
qed

lemma rounded_nonneg:
  assumes "rnd \<in> set roundings" "0 \<le> n" "0 < c"
  shows "rounded rnd (of_int n / of_int c) =
    (n + (if rnd = AV_ROUND_NEAR_INF then c div 2 else if odd rnd then c - 1 else 0)) div c"
proof -
  have q: "\<not> (of_int n / of_int c :: rat) < 0" using assms(2,3) by (simp add: not_less)
  from assms(1) show ?thesis
    by (cases rule: rounding_cases)
      (simp_all add: rounded_def round_consts q floor_divide_of_int_eq ceiling_div_pos [OF assms(3)]
        llround_def floor_half [OF assms(3)] del: ceiling_divide_eq_div)
qed

lemma floor_one_half: "\<lfloor>1 / 2 :: rat\<rfloor> = 0"
  by (simp add: floor_eq_iff)

lemma rounded_minus:
  assumes "rnd \<in> set roundings" "0 \<le> q"
  shows "rounded rnd (- q) = - rounded (swap_rounding rnd) q"
  using assms(1) assms(2) floor_one_half
  by (cases rule: rounding_cases; cases "q = 0")
    (simp_all add: rounded_def round_consts swap_rounding_def llround_def floor_minus ceiling_minus)

lemma swap_rounding_roundings: "rnd \<in> set roundings \<Longrightarrow> swap_rounding rnd \<in> set roundings"
  by (erule rounding_cases) (simp_all add: roundings_def round_consts swap_rounding_def)

lemma rescale_nonneg_rounded:
  assumes "rnd \<in> set roundings" "0 \<le> a" "a \<le> INT64_MAX" "0 \<le> b" "b \<le> INT64_MAX" "0 < c" "c \<le> INT64_MAX"
  shows "rescale_nonneg a b c rnd = saturated (rounded rnd (of_int (a * b) / of_int c))"
    and "0 \<le> rounded rnd (of_int (a * b) / of_int c)"
proof -
  have n: "0 \<le> a * b" using assms by simp
  show v: "0 \<le> rounded rnd (of_int (a * b) / of_int c)"
    using n assms(6) unfolding rounded_nonneg [OF assms(1) n assms(6)] by (simp add: pos_imp_zdiv_nonneg_iff)
  show "rescale_nonneg a b c rnd = saturated (rounded rnd (of_int (a * b) / of_int c))"
    using v unfolding rounded_nonneg [OF assms(1) n assms(6)] rescale_nonneg_value [OF assms(2-7)] saturated_def
    by simp
qed

lemma minus_saturated:
  assumes "0 \<le> v"
  shows "i64 (u64i (- u64i (saturated v))) = saturated (- v)"
proof -
  have "i64 (u64i (- u64i x)) = i64 (- x)" for x
    by (simp add: i64_def u64i_def mod_minus_eq mod_add_left_eq)
  moreover have "i64 (- saturated v) = saturated (- v)"
    using assms by (auto simp: saturated_def i64_id in_i64_def) (simp add: i64_def)
  ultimately show ?thesis by simp
qed

lemma av_rescale_rnd_rounded:
  assumes "rnd \<in> set roundings" "in_i64 a" "a \<noteq> INT64_MIN" "0 \<le> b" "in_i64 b" "0 < c" "in_i64 c"
  shows "av_rescale_rnd a b c rnd = saturated (rounded rnd (of_int (a * b) / of_int c))"
proof -
  have rb: "rnd_base rnd = rnd" "rnd_valid rnd"
    using assms(1) by (auto elim!: rounding_cases simp: rnd_base_def rnd_valid_def)
  have b: "0 \<le> b" "b \<le> INT64_MAX" and c: "0 < c" "c \<le> INT64_MAX"
    using assms(4-7) by (simp_all add: in_i64_def)
  show ?thesis
  proof (cases "a < 0")
    case True
    have a: "0 \<le> - a" "- a \<le> INT64_MAX" "max a (- INT64_MAX) = a"
      using True assms(2,3) by (simp_all add: in_i64_def max_def)
    note sw = rescale_nonneg_rounded [OF swap_rounding_roundings [OF assms(1)] a(1,2) b c]
    define v where "v = rounded (swap_rounding rnd) (of_int (- a * b) / of_int c)"
    have q: "(0 :: rat) \<le> of_int (- a * b) / of_int c"
      by (intro divide_nonneg_nonneg) (use True b c in \<open>simp_all only: of_int_0_le_iff, auto intro: mult_nonneg_nonneg mult_nonpos_nonneg\<close>)
    have neg: "i64 (u64i (- u64i (saturated v))) = saturated (- v)"
      using sw(2) unfolding v_def by (rule minus_saturated)
    have "rounded rnd (of_int (a * b) / of_int c) = - v"
      using rounded_minus [OF assms(1) q] by (simp add: v_def)
    then show ?thesis
      using True c b rb a(3) sw(1) [folded v_def] neg by (simp add: av_rescale_rnd_def Let_def)
  next
    case False
    with rescale_nonneg_rounded [OF assms(1) _ _ b c, of a] assms(2) rb b c show ?thesis
      by (simp add: av_rescale_rnd_def Let_def in_i64_def)
  qed
qed

text \<open>
  Property C4: \<open>av_rescale_rnd\<close> computes \<open>a * b / c\<close> exactly rounded in each of the five
  rounding modes, through all three of its arithmetic paths, and returns \<open>INT64_MIN\<close> exactly
  when the rounded value does not fit.
\<close>

theorem av_rescale_rnd_exact:
  assumes "rnd \<in> set roundings" "in_i64 a" "a \<noteq> INT64_MIN" "0 \<le> b" "in_i64 b" "0 < c" "in_i64 c"
  shows "av_rescale_rnd a b c rnd = saturated (rounded rnd (of_int (a * b) / of_int c))"
  using assms by (rule av_rescale_rnd_rounded)

lemma floor_ceiling_sample: "\<lfloor>- (36 / 7) :: rat\<rfloor> = - 6" "\<lceil>- (36 / 7) :: rat\<rceil> = - 5"
  by (simp_all add: floor_eq_iff ceiling_eq_iff)

theorem av_rescale_rnd_exact_witness:
  "av_rescale_rnd 9000000000000000000 4000000000 7 AV_ROUND_UP = INT64_MIN \<and>
   av_rescale_rnd (- 9000000000) 4000000000 7000000000000000000 AV_ROUND_DOWN = - 6 \<and>
   av_rescale_rnd (- 9000000000) 4000000000 7000000000000000000 AV_ROUND_UP = - 5"
  using av_rescale_rnd_exact [of AV_ROUND_UP 9000000000000000000 4000000000 7]
    av_rescale_rnd_exact [of AV_ROUND_DOWN "- 9000000000" 4000000000 7000000000000000000]
    av_rescale_rnd_exact [of AV_ROUND_UP "- 9000000000" 4000000000 7000000000000000000]
  by (simp add: roundings_def in_i64_def rounded_def round_consts saturated_def floor_ceiling_sample)

section \<open>Time bases\<close>

definition rat_of :: "AVRational \<Rightarrow> rat" where
  "rat_of q = of_int (num q) / of_int (den q)"

text \<open>Time bases of streams: positive 32-bit numerator and denominator.\<close>

definition time_base_ok :: "AVRational \<Rightarrow> bool" where
  "time_base_ok q \<longleftrightarrow> 0 < num q \<and> num q \<le> INT_MAX \<and> 0 < den q \<and> den q \<le> INT_MAX"

lemma rat_of_pos: "time_base_ok q \<Longrightarrow> 0 < rat_of q"
  by (simp add: rat_of_def time_base_ok_def)

lemma time_base_product:
  assumes "time_base_ok p" "time_base_ok q"
  shows "0 < num p * den q" "in_i64 (num p * den q)"
proof -
  show pos: "0 < num p * den q" using assms by (simp add: time_base_ok_def)
  have "num p * den q \<le> INT_MAX * INT_MAX"
    using assms by (intro mult_mono) (simp_all add: time_base_ok_def)
  with pos show "in_i64 (num p * den q)" by (simp add: in_i64_def)
qed

lemma ratio_of_time_bases:
  assumes "time_base_ok p" "time_base_ok q"
  shows "of_int (a * (num p * den q)) / of_int (num q * den p) = of_int a * rat_of p / rat_of q"
  using assms by (simp add: rat_of_def time_base_ok_def field_simps)

lemma av_rescale_q_value:
  assumes "time_base_ok bq" "time_base_ok cq" "in_i64 a" "a \<noteq> INT64_MIN"
  shows "av_rescale_q a bq cq = saturated (llround (of_int a * rat_of bq / rat_of cq))"
proof -
  have "AV_ROUND_NEAR_INF \<in> set roundings" by (simp add: roundings_def)
  then have "av_rescale_q a bq cq
      = saturated (rounded AV_ROUND_NEAR_INF (of_int (a * (num bq * den cq)) / of_int (num cq * den bq)))"
    unfolding av_rescale_q_def av_rescale_q_rnd_def
    using assms(3,4) time_base_product [OF assms(1,2)] time_base_product [OF assms(2,1)]
    by (intro av_rescale_rnd_rounded) simp_all
  also have "rounded AV_ROUND_NEAR_INF = llround" by (simp add: fun_eq_iff rounded_def round_consts)
  finally show ?thesis by (simp only: ratio_of_time_bases [OF assms(1,2)])
qed

text \<open>
  Converting a time stamp between time bases, \<open>av_rescale_q\<close>, rounds the
  exact instant to the nearest tick of the target time base, ties away from zero.
\<close>

theorem av_rescale_q_nearest:
  assumes "time_base_ok bq" "time_base_ok cq" "in_i64 a" "a \<noteq> INT64_MIN"
  shows "av_rescale_q a bq cq = saturated (llround (of_int a * rat_of bq / rat_of cq))"
  using assms by (rule av_rescale_q_value)

theorem av_rescale_q_nearest_witness:
  "av_rescale_q 90045 \<lparr>num = 1, den = 90000\<rparr> \<lparr>num = 1, den = 1000\<rparr> = 1001"
  using av_rescale_q_nearest [of "\<lparr>num = 1, den = 90000\<rparr>" "\<lparr>num = 1, den = 1000\<rparr>" 90045]
  by (simp add: time_base_ok_def in_i64_def saturated_def rat_of_def llround_def)

lemma compare_ratio:
  assumes "time_base_ok p" "time_base_ok q"
  shows "of_int x * rat_of p < of_int y * rat_of q \<longleftrightarrow> x * (num p * den q) < y * (num q * den p)"
proof -
  have pos: "0 < (of_int (den p * den q) :: rat)" using assms by (simp add: time_base_ok_def)
  have "of_int x * rat_of p < of_int y * rat_of q \<longleftrightarrow>
      of_int x * rat_of p * of_int (den p * den q) < of_int y * rat_of q * of_int (den p * den q)"
    using pos by (simp only: mult_less_cancel_right_pos)
  also have "of_int x * rat_of p * of_int (den p * den q) = of_int (x * (num p * den q))"
    using assms by (simp add: rat_of_def time_base_ok_def)
  also have "of_int y * rat_of q * of_int (den p * den q) = of_int (y * (num q * den p))"
    using assms by (simp add: rat_of_def time_base_ok_def)
  finally show ?thesis by (simp only: of_int_less_iff)
qed

lemma av_rescale_down:
  assumes "0 < b" "0 < c" "in_i64 b" "in_i64 c" "in_i64 a" "a \<noteq> INT64_MIN" "\<bar>a * b div c\<bar> \<le> INT64_MAX"
  shows "av_rescale_rnd a b c AV_ROUND_DOWN = a * b div c"
proof -
  have "AV_ROUND_DOWN \<in> set roundings" by (simp add: roundings_def)
  moreover have "rounded AV_ROUND_DOWN (of_int (a * b) / of_int c) = a * b div c"
    by (simp add: rounded_def round_consts floor_divide_of_int_eq del: of_int_mult)
  ultimately show ?thesis
    using assms by (simp add: av_rescale_rnd_rounded saturated_def del: of_int_mult)
qed

text \<open>
  \<open>av_compare_ts\<close> orders two time stamps of different time bases by the
  instants they stand for, as long as each is representable in the other's time base (the
  restriction \<open>mathematics.h\<close> documents).
\<close>

theorem av_compare_ts_orders_instants:
  assumes "time_base_ok tb_a" "time_base_ok tb_b"
    and "in_i64 ts_a" "ts_a \<noteq> INT64_MIN" "in_i64 ts_b" "ts_b \<noteq> INT64_MIN"
    and "\<bar>ts_a * (num tb_a * den tb_b) div (num tb_b * den tb_a)\<bar> \<le> INT64_MAX"
    and "\<bar>ts_b * (num tb_b * den tb_a) div (num tb_a * den tb_b)\<bar> \<le> INT64_MAX"
  shows "av_compare_ts ts_a tb_a ts_b tb_b =
    (if of_int ts_a * rat_of tb_a < of_int ts_b * rat_of tb_b then - 1
     else if of_int ts_b * rat_of tb_b < of_int ts_a * rat_of tb_a then 1 else 0)"
proof -
  define a b where "a = num tb_a * den tb_b" and "b = num tb_b * den tb_a"
  note a = time_base_product [OF assms(1,2), folded a_def]
  note b = time_base_product [OF assms(2,1), folded b_def]
  have down_a: "av_rescale_rnd ts_a a b AV_ROUND_DOWN = ts_a * a div b"
    using a b assms by (intro av_rescale_down) (simp_all add: a_def b_def)
  have down_b: "av_rescale_rnd ts_b b a AV_ROUND_DOWN = ts_b * b div a"
    using a b assms by (intro av_rescale_down) (simp_all add: a_def b_def)
  have "av_compare_ts ts_a tb_a ts_b tb_b =
      (if ts_a * a < ts_b * b then - 1 else if ts_b * b < ts_a * a then 1 else 0)"
    unfolding av_compare_ts_def a_def [symmetric] b_def [symmetric] Let_def down_a down_b
    using a(1) b(1) by (auto simp: int_div_less_iff)
  then show ?thesis
    unfolding compare_ratio [OF assms(1,2)] compare_ratio [OF assms(2,1)] a_def b_def .
qed

theorem av_compare_ts_orders_instants_witness:
  "av_compare_ts 90001 \<lparr>num = 1, den = 90000\<rparr> 1000 \<lparr>num = 1, den = 1000\<rparr> = 1 \<and>
   av_compare_ts 4000000000 \<lparr>num = 1, den = 90000\<rparr> 44444445 \<lparr>num = 1, den = 1000\<rparr> = - 1"
  using av_compare_ts_orders_instants [of "\<lparr>num = 1, den = 90000\<rparr>" "\<lparr>num = 1, den = 1000\<rparr>" 90001 1000]
    av_compare_ts_orders_instants [of "\<lparr>num = 1, den = 90000\<rparr>" "\<lparr>num = 1, den = 1000\<rparr>" 4000000000 44444445]
  by (simp add: time_base_ok_def in_i64_def rat_of_def)

text \<open>
  \<open>av_gcd\<close>, Stein's algorithm on trailing zero counts, terminates and returns the
  greatest common divisor (reduced to \<open>int64_t\<close>), or the other argument when one is zero.
\<close>

theorem av_gcd_correct:
  assumes "in_i64 x" "in_i64 y"
  shows "av_gcd x y = (if x = 0 then y else if y = 0 then x else i64 (gcd x y))"
proof (cases "x = 0 \<or> y = 0")
  case True
  then show ?thesis by (auto simp: av_gcd_def)
next
  case False
  with av_gcd_eq [OF _ _ assms] show ?thesis by simp
qed

theorem av_gcd_correct_witness: "av_gcd 90000 (- 1001000) = 1000"
  using av_gcd_correct [of 90000 "- 1001000"] by (simp add: in_i64_def i64_def gcd_non_0_int)

end
