(* ===== verification/Rational.thy ===== *)
theory Rational
  imports Rescale Binary64
begin

text \<open>
  \<open>libavutil/rational.c\<close> and the inline functions of \<open>rational.h\<close>: fractions whose numerator and
  denominator are C integers, and \<open>av_add_stable\<close> of \<open>mathematics.c\<close> on top of them. The
  specification of \<open>av_reduce\<close> is the best approximation among the fractions that fit.
\<close>

section \<open>The functions\<close>

definition av_make_q :: "int \<Rightarrow> int \<Rightarrow> AVRational" where
  "av_make_q n d = \<lparr>num = n, den = d\<rparr>"

text \<open>\<open>(int)((tmp ^ a.den ^ b.den) >> 63) | 1\<close> is the product of the signs.\<close>

definition av_cmp_q :: "AVRational \<Rightarrow> AVRational \<Rightarrow> int" where
  "av_cmp_q a b =
     (let tmp = num a * den b - num b * den a in
      if tmp \<noteq> 0 then (if (tmp < 0) \<noteq> ((den a < 0) \<noteq> (den b < 0)) then - 1 else 1)
      else if den b \<noteq> 0 \<and> den a \<noteq> 0 then 0
      else if num a \<noteq> 0 \<and> num b \<noteq> 0 then (if num a < 0 then - 1 else 0) - (if num b < 0 then - 1 else 0)
      else INT_MIN)"

text \<open>
  The loop of \<open>av_reduce\<close>; the results are the last convergent \<open>a1\<close> and the last \<open>den\<close>. The products
  with \<open>x\<close>, which is an \<open>uint64_t\<close>, wrap; \<open>den\<close> is never negative.
\<close>

function fraction_loop :: "int \<Rightarrow> AVRational \<Rightarrow> AVRational \<Rightarrow> int \<Rightarrow> int \<Rightarrow> AVRational \<times> int" where
  "fraction_loop maxi a0 a1 n d =
     (if d \<le> 0 then (a1, d)
      else
        let x = n div d; next_den = n - d * x;
            a2n = i64 (x * num a1 + num a0); a2d = i64 (x * den a1 + den a0)
        in if a2n > maxi \<or> a2d > maxi then
             let x = (if num a1 \<noteq> 0 then u64i (c_div (maxi - num a0) (num a1)) else x);
                 x = (if den a1 \<noteq> 0 then min x (u64i (c_div (maxi - den a0) (den a1))) else x)
             in (if u64i (d * (2 * x * den a1 + den a0)) > u64i (n * den a1)
                 then \<lparr>num = i32 (x * num a1 + num a0), den = i32 (x * den a1 + den a0)\<rparr> else a1, d)
           else fraction_loop maxi a1 \<lparr>num = i32 a2n, den = i32 a2d\<rparr> d next_den)"
  by pat_completeness auto
termination
  by (relation "measure (\<lambda>(maxi, a0, a1, n, d). nat d)") (auto simp: minus_mult_div_eq_mod)

declare fraction_loop.simps [simp del]

text \<open>The fraction, and whether it is exact.\<close>

definition av_reduce :: "int \<Rightarrow> int \<Rightarrow> int \<Rightarrow> AVRational \<times> bool" where
  "av_reduce n d maxi =
     (let sign = ((n < 0) \<noteq> (d < 0)); g = av_gcd \<bar>n\<bar> \<bar>d\<bar>;
          n = (if g \<noteq> 0 then c_div \<bar>n\<bar> g else n); d = (if g \<noteq> 0 then c_div \<bar>d\<bar> g else d);
          (a1, d) = (if n \<le> maxi \<and> d \<le> maxi then (\<lparr>num = i32 n, den = i32 d\<rparr>, 0) else (\<lparr>num = 1, den = 0\<rparr>, d));
          (a1, d) = fraction_loop maxi \<lparr>num = 0, den = 1\<rparr> a1 n d
      in (\<lparr>num = (if sign then - num a1 else num a1), den = den a1\<rparr>, d = 0))"

definition av_mul_q :: "AVRational \<Rightarrow> AVRational \<Rightarrow> AVRational" where
  "av_mul_q b c = fst (av_reduce (num b * num c) (den b * den c) INT_MAX)"

definition av_div_q :: "AVRational \<Rightarrow> AVRational \<Rightarrow> AVRational" where
  "av_div_q b c = av_mul_q b \<lparr>num = den c, den = num c\<rparr>"

definition av_add_q :: "AVRational \<Rightarrow> AVRational \<Rightarrow> AVRational" where
  "av_add_q b c = fst (av_reduce (num b * den c + num c * den b) (den b * den c) INT_MAX)"

definition av_sub_q :: "AVRational \<Rightarrow> AVRational \<Rightarrow> AVRational" where
  "av_sub_q b c = av_add_q b \<lparr>num = - num c, den = den c\<rparr>"

definition av_inv_q :: "AVRational \<Rightarrow> AVRational" where
  "av_inv_q q = \<lparr>num = den q, den = num q\<rparr>"

text \<open>A \<open>double\<close>; the exponent of \<open>frexp\<close> is one more than the binary logarithm.\<close>

datatype double = NaN | Infinity bool | Finite rat

definition frexp_exponent :: "rat \<Rightarrow> int" where
  "frexp_exponent d = (if d = 0 then 0 else ilog2 \<bar>d\<bar> + 1)"

fun av_d2q :: "double \<Rightarrow> int \<Rightarrow> AVRational" where
  "av_d2q NaN maxi = \<lparr>num = 0, den = 0\<rparr>"
| "av_d2q (Infinity negative) maxi = \<lparr>num = (if negative then - 1 else 1), den = 0\<rparr>"
| "av_d2q (Finite d) maxi =
     (if \<bar>d\<bar> > of_int (INT_MAX + 3) then \<lparr>num = (if d < 0 then - 1 else 1), den = 0\<rparr>
      else
        let exponent = max (frexp_exponent d - 1) 0; dn = 2 ^ nat (62 - exponent)
        in fst (av_reduce \<lfloor>b64 (b64 (d * of_int dn) + 1 / 2)\<rfloor> dn maxi))"

definition av_nearer_q :: "AVRational \<Rightarrow> AVRational \<Rightarrow> AVRational \<Rightarrow> int" where
  "av_nearer_q q q1 q2 =
     (let a = num q1 * den q2 + num q2 * den q1; b = 2 * den q1 * den q2;
          x_up = av_rescale_rnd a (den q) b AV_ROUND_UP; x_down = av_rescale_rnd a (den q) b AV_ROUND_DOWN
      in ((if x_up > num q then 1 else 0) - (if x_down < num q then 1 else 0)) * av_cmp_q q2 q1)"

text \<open>The list ends with an entry of denominator zero; \<open>None\<close> when it does not.\<close>

fun nearest_from :: "AVRational \<Rightarrow> AVRational list \<Rightarrow> nat \<Rightarrow> nat \<Rightarrow> AVRational list \<Rightarrow> nat option" where
  "nearest_from q q_list nearest i [] = None"
| "nearest_from q q_list nearest i (r # rs) =
     (if den r = 0 then Some nearest
      else nearest_from q q_list (if av_nearer_q q r (q_list ! nearest) > 0 then i else nearest) (i + 1) rs)"

definition av_find_nearest_q_idx :: "AVRational \<Rightarrow> AVRational list \<Rightarrow> nat option" where
  "av_find_nearest_q_idx q q_list = nearest_from q q_list 0 0 q_list"

text \<open>\<open>av_log2\<close> of \<open>intmath.h\<close>: \<open>31 - clz(x | 1)\<close>.\<close>

function av_log2 :: "int \<Rightarrow> nat" where
  "av_log2 v = (if v \<le> 1 then 0 else Suc (av_log2 (v div 2)))"
  by pat_completeness auto
termination
  by (relation "measure nat") auto

declare av_log2.simps [simp del]

definition scaled_quotient :: "int \<Rightarrow> int \<Rightarrow> int \<Rightarrow> int" where
  "scaled_quotient n d shift =
     (if shift \<ge> 0 then av_rescale n (2 ^ nat shift) d else av_rescale n 1 (d * 2 ^ nat (- shift)))"

text \<open>
  The case of a numerator and a denominator above zero. The exponent and the mantissa do not
  overlap, so that their bitwise or is a sum.
\<close>

definition q2intfloat_finite :: "bool \<Rightarrow> int \<Rightarrow> int \<Rightarrow> int" where
  "q2intfloat_finite sign n d =
     (let shift = 23 + int (av_log2 d) - int (av_log2 n);
          m = scaled_quotient n d shift;
          shift = shift - (if m \<ge> 2 ^ 24 then 1 else 0);
          shift = shift + (if m < 2 ^ 23 then 1 else 0);
          m = scaled_quotient n d shift
      in (if sign then 2 ^ 31 else 0) + (150 - shift) * 2 ^ 23 + (m - 2 ^ 23))"

text \<open>The infinities test the sign of a numerator that is no longer negative.\<close>

definition av_q2intfloat :: "AVRational \<Rightarrow> int" where
  "av_q2intfloat q =
     (let q = (if den q < 0 then \<lparr>num = - num q, den = - den q\<rparr> else q);
          sign = (num q < 0); n = (if sign then - num q else num q); d = den q
      in if n = 0 \<and> d = 0 then 0xFFC00000
         else if n = 0 then 0
         else if d = 0 then 0x7F800000 + (if has_flag n 0x80000000 then 0x80000000 else 0)
         else q2intfloat_finite sign n d)"

definition av_gcd_q :: "AVRational \<Rightarrow> AVRational \<Rightarrow> int \<Rightarrow> AVRational \<Rightarrow> AVRational" where
  "av_gcd_q a b max_den def =
     (let g = av_gcd (den a) (den b); lcm = c_div (den a) g * den b in
      if lcm < max_den then av_make_q (av_gcd (num a) (num b)) lcm else def)"

text \<open>\<open>av_sat_add64\<close>, with \<open>__builtin_add_overflow\<close>.\<close>

definition av_sat_add64 :: "int \<Rightarrow> int \<Rightarrow> int" where
  "av_sat_add64 a b =
     (if in_i64 (a + b) then a + b else if i64 (a + b) < 0 then INT64_MAX else INT64_MIN)"

definition av_add_stable :: "AVRational \<Rightarrow> int \<Rightarrow> AVRational \<Rightarrow> int \<Rightarrow> int" where
  "av_add_stable ts_tb ts inc_tb inc =
     (let inc_tb = (if inc \<noteq> 1 then av_mul_q inc_tb \<lparr>num = i32 inc, den = 1\<rparr> else inc_tb);
          m = num inc_tb * den ts_tb; d = den inc_tb * num ts_tb
      in if c_mod m d = 0 \<and> ts \<le> INT64_MAX - c_div m d then ts + c_div m d
         else if m < d then ts
         else
           let old = av_rescale_q ts ts_tb inc_tb; old_ts = av_rescale_q old inc_tb ts_tb
           in if old = INT64_MAX \<or> old = AV_NOPTS_VALUE \<or> old_ts = AV_NOPTS_VALUE then ts
              else av_sat_add64 (av_rescale_q (old + 1) inc_tb ts_tb) (ts - old_ts))"

section \<open>Best approximation\<close>

text \<open>
  The state of the loop: two neighbouring convergents of \<open>N / D\<close>, which does not fit, and the
  remainders of Euclid's algorithm.
\<close>

definition reduce_inv :: "int \<Rightarrow> int \<Rightarrow> int \<Rightarrow> AVRational \<Rightarrow> AVRational \<Rightarrow> int \<Rightarrow> int \<Rightarrow> bool" where
  "reduce_inv maxi N D a0 a1 n d \<longleftrightarrow>
     0 \<le> num a0 \<and> num a0 \<le> maxi \<and> 0 \<le> den a0 \<and> den a0 \<le> maxi \<and>
     0 \<le> num a1 \<and> num a1 \<le> maxi \<and> 0 \<le> den a1 \<and> den a1 \<le> maxi \<and>
     \<bar>num a1 * den a0 - den a1 * num a0\<bar> = 1 \<and> 0 < n \<and> 0 \<le> d \<and>
     N = n * num a1 + d * num a0 \<and> D = n * den a1 + d * den a0"

text \<open>How far \<open>p / q\<close> is from \<open>N / D\<close>, in units of \<open>1 / (D * q)\<close>.\<close>

definition distance :: "int \<Rightarrow> int \<Rightarrow> int \<Rightarrow> int \<Rightarrow> int" where
  "distance N D p q = \<bar>N * q - D * p\<bar>"

definition best :: "int \<Rightarrow> int \<Rightarrow> int \<Rightarrow> AVRational \<Rightarrow> bool" where
  "best maxi N D r \<longleftrightarrow> 0 \<le> num r \<and> num r \<le> maxi \<and> 0 < den r \<and> den r \<le> maxi \<and> coprime (num r) (den r) \<and>
     (\<forall>p q. 0 \<le> p \<longrightarrow> p \<le> maxi \<longrightarrow> 0 < q \<longrightarrow> q \<le> maxi \<longrightarrow>
        distance N D (num r) (den r) * q \<le> distance N D p q * den r)"

text \<open>
  Two neighbours, one on each side of \<open>N / D\<close>, whose sum does not fit: every fraction that fits is
  at least as far away as one of them.
\<close>

lemma neighbours_best:
  fixes an ad sn sd N D e r dl p q maxi :: int
  assumes "an * sd - ad * sn = dl" "\<bar>dl\<bar> = 1" "N * ad - D * an = - dl * e" "N * sd - D * sn = dl * r"
    and "0 \<le> e" "0 \<le> r" "0 \<le> an" "0 \<le> ad" "0 \<le> sn" "0 \<le> sd" "an + sn > maxi \<or> ad + sd > maxi"
    and "0 \<le> p" "p \<le> maxi" "0 < q" "q \<le> maxi"
  shows "(0 < sd \<and> distance N D sn sd * q \<le> distance N D p q * sd) \<or>
    (0 < ad \<and> distance N D an ad * q \<le> distance N D p q * ad)"
proof -
  define i where "i = dl * (p * sd - q * sn)"
  define j where "j = dl * (an * q - ad * p)"
  have sq: "dl * dl = 1" using assms(2) by (cases "dl \<ge> 0") auto
  have p: "i * an + j * sn = p"
  proof -
    have "i * an + j * sn = dl * (an * sd - ad * sn) * p" by (simp add: i_def j_def algebra_simps)
    then show ?thesis using assms(1) sq by simp
  qed
  have q: "i * ad + j * sd = q"
  proof -
    have "i * ad + j * sd = dl * (an * sd - ad * sn) * q" by (simp add: i_def j_def algebra_simps)
    then show ?thesis using assms(1) sq by simp
  qed
  have "N * q - D * p = i * (N * ad - D * an) + j * (N * sd - D * sn)"
    unfolding p [symmetric] q [symmetric] by (simp add: algebra_simps)
  then have f: "N * q - D * p = dl * (j * r - i * e)" using assms(3,4) by (simp add: algebra_simps)
  have abs: "\<bar>dl * x\<bar> = \<bar>x\<bar>" for x using assms(2) by (simp add: abs_mult)
  have dist: "distance N D p q = \<bar>j * r - i * e\<bar>" "distance N D sn sd = r" "distance N D an ad = e"
    using abs [of "j * r - i * e"] abs [of r] abs [of e] assms(3-6) f by (simp_all add: distance_def)
  consider "1 \<le> i" "1 \<le> j" | "i \<le> 0" "1 \<le> j" | "1 \<le> i" "j \<le> 0" | "i \<le> 0" "j \<le> 0" by linarith
  then show ?thesis
  proof cases
    case 1
    have "an + sn \<le> i * an + j * sn" "ad + sd \<le> i * ad + j * sd"
      using 1 assms(7-10) mult_right_mono [of 1 i an] mult_right_mono [of 1 j sn]
        mult_right_mono [of 1 i ad] mult_right_mono [of 1 j sd] by auto
    with p q assms(11,13,15) show ?thesis by linarith
  next
    case 2
    have "i * ad \<le> 0" using 2 assms(8) by (simp add: mult_nonpos_nonneg)
    then have qs: "q \<le> j * sd" using q by linarith
    then have "0 < sd" using assms(10,14) by (cases "sd = 0") auto
    have "0 \<le> - i * e" using 2 assms(5) by (simp add: mult_nonpos_nonneg)
    then have "j * r \<le> distance N D p q" using dist(1) by simp
    then have "j * r * sd \<le> distance N D p q * sd" using assms(10) by (rule mult_right_mono)
    moreover have "r * q \<le> r * (j * sd)" using qs assms(6) by (rule mult_left_mono)
    ultimately have "distance N D sn sd * q \<le> distance N D p q * sd" unfolding dist(2) by (simp add: ac_simps)
    with \<open>0 < sd\<close> show ?thesis by simp
  next
    case 3
    have "j * sd \<le> 0" using 3 assms(10) by (simp add: mult_nonpos_nonneg)
    then have qs: "q \<le> i * ad" using q by linarith
    then have "0 < ad" using assms(8,14) by (cases "ad = 0") auto
    have "j * r \<le> 0" using 3 assms(6) by (simp add: mult_nonpos_nonneg)
    then have "i * e \<le> distance N D p q" using dist(1) by simp
    then have "i * e * ad \<le> distance N D p q * ad" using assms(8) by (rule mult_right_mono)
    moreover have "e * q \<le> e * (i * ad)" using qs assms(5) by (rule mult_left_mono)
    ultimately have "distance N D an ad * q \<le> distance N D p q * ad" unfolding dist(3) by (simp add: ac_simps)
    with \<open>0 < ad\<close> show ?thesis by simp
  next
    case 4
    have "i * ad \<le> 0" "j * sd \<le> 0" using 4 assms(8,10) by (simp_all add: mult_nonpos_nonneg)
    with q assms(14) show ?thesis by linarith
  qed
qed

lemma closer_trans:
  fixes da db dp a b q :: int
  assumes "da * b \<le> db * a" "db * q \<le> dp * b" "0 < b" "0 \<le> a" "0 \<le> q"
  shows "da * q \<le> dp * a"
proof -
  have "da * b * q \<le> db * a * q" using assms(1,5) by (rule mult_right_mono)
  also have "db * a * q = db * q * a" by simp
  also have "\<dots> \<le> dp * b * a" using assms(2,4) by (rule mult_right_mono)
  finally have "b * (da * q) \<le> b * (dp * a)" by (simp add: ac_simps)
  then show ?thesis using assms(3) by simp
qed

text \<open>The semiconvergent \<open>x * a1 + a0\<close> with the largest \<open>x\<close> that fits, and the choice between it and \<open>a1\<close>.\<close>

lemma last_step_best:
  assumes inv: "reduce_inv maxi N D a0 a1 n d" and d: "0 < d" and maxi: "1 \<le> maxi"
    and x: "0 \<le> x" "d * x \<le> n" "x * num a1 + num a0 \<le> maxi" "x * den a1 + den a0 \<le> maxi"
      "(x + 1) * num a1 + num a0 > maxi \<or> (x + 1) * den a1 + den a0 > maxi"
  shows "best maxi N D (if d * (2 * x * den a1 + den a0) > n * den a1
    then \<lparr>num = x * num a1 + num a0, den = x * den a1 + den a0\<rparr> else a1)"
proof -
  define an ad bn bd where a: "an = num a1" "ad = den a1" "bn = num a0" "bd = den a0"
  define sn sd where s: "sn = x * an + bn" "sd = x * ad + bd"
  define dl where "dl = an * bd - ad * bn"
  have i: "0 \<le> bn" "0 \<le> bd" "0 \<le> an" "an \<le> maxi" "0 \<le> ad" "ad \<le> maxi" "\<bar>dl\<bar> = 1"
    "N = n * an + d * bn" "D = n * ad + d * bd"
    using inv by (simp_all add: reduce_inv_def a dl_def)
  have det: "an * sd - ad * sn = dl" by (simp add: s dl_def algebra_simps)
  have fa: "N * ad - D * an = - dl * d" by (simp add: i(8,9) dl_def algebra_simps)
  have fs: "N * sd - D * sn = dl * (n - d * x)" by (simp add: i(8,9) s dl_def algebra_simps)
  have r: "0 \<le> n - d * x" using x(2) by simp
  have sp: "0 \<le> sn" "0 \<le> sd" using x(1) i by (simp_all add: s)
  have big: "an + sn > maxi \<or> ad + sd > maxi" using x(5) by (simp add: s a algebra_simps)
  have abs: "\<bar>dl * y\<bar> = \<bar>y\<bar>" for y using i(7) by (simp add: abs_mult)
  have dist: "distance N D an ad = d" "distance N D sn sd = n - d * x"
    using abs [of d] abs [of "n - d * x"] fa fs r d by (simp_all add: distance_def)
  have cond: "d * (2 * x * ad + bd) > n * ad \<longleftrightarrow> (n - d * x) * ad < d * sd"
    by (simp add: s algebra_simps)
  note nb = neighbours_best [OF det i(7) fa fs less_imp_le [OF d] r i(3,5) sp big]
  have cop: "coprime sn sd" "coprime an ad"
  proof -
    have "c dvd 1" if "c dvd sn" "c dvd sd" for c
    proof -
      have "c dvd dl" using that unfolding det [symmetric] by simp
      then show ?thesis using i(7) by (metis abs_dvd_iff dvd_abs_iff)
    qed
    then show "coprime sn sd" by (rule coprimeI) simp
    have "c dvd 1" if "c dvd an" "c dvd ad" for c
    proof -
      have "c dvd dl" using that unfolding det [symmetric] by simp
      then show ?thesis using i(7) by (metis abs_dvd_iff dvd_abs_iff)
    qed
    then show "coprime an ad" by (rule coprimeI) simp
  qed
  show ?thesis
  proof (cases "d * (2 * x * ad + bd) > n * ad")
    case True
    then have better: "(n - d * x) * ad < d * sd" using cond by simp
    have "0 \<le> (n - d * x) * ad" using r i(5) by simp
    with better have "0 < d * sd" by linarith
    then have sd: "0 < sd" using d by (simp add: zero_less_mult_iff)
    have "(n - d * x) * q \<le> distance N D p q * sd" if "0 \<le> p" "p \<le> maxi" "0 < q" "q \<le> maxi" for p q
    proof -
      from nb [OF that] consider "(n - d * x) * q \<le> distance N D p q * sd" | "0 < ad" "d * q \<le> distance N D p q * ad"
        unfolding dist by blast
      then show ?thesis
      proof cases
        case 2
        then show ?thesis using better sp(2) that by (intro closer_trans [of "n - d * x" ad d sd q "distance N D p q"]) auto
      qed
    qed
    with True sp sd x(3,4) cop(1) dist(2) show ?thesis by (simp add: best_def a [symmetric] s [symmetric])
  next
    case False
    then have better: "d * sd \<le> (n - d * x) * ad" using cond by simp
    have ad: "0 < ad"
    proof (rule ccontr)
      assume "\<not> 0 < ad"
      then have "ad = 0" using i(5) by simp
      then have "bd \<noteq> 0" using i(7) by (auto simp: dl_def)
      then have "0 < d * (2 * x * ad + bd)" using i(2) d \<open>ad = 0\<close> by simp
      with False \<open>ad = 0\<close> show False by simp
    qed
    have "d * q \<le> distance N D p q * ad" if "0 \<le> p" "p \<le> maxi" "0 < q" "q \<le> maxi" for p q
    proof -
      from nb [OF that] consider "0 < sd" "(n - d * x) * q \<le> distance N D p q * sd" | "d * q \<le> distance N D p q * ad"
        unfolding dist by blast
      then show ?thesis
      proof cases
        case 1
        then show ?thesis using better i(5) that by (intro closer_trans [of d sd "n - d * x" ad q "distance N D p q"]) auto
      qed
    qed
    with False i(3-6) ad cop(2) dist(1) show ?thesis by (simp add: best_def a [symmetric])
  qed
qed

lemma div_fits:
  assumes "0 < (a :: int)" "b \<le> m"
  shows "(m - b) div a * a + b \<le> m" "((m - b) div a + 1) * a + b > m" "x * a + b > m \<Longrightarrow> (m - b) div a < x"
proof -
  have eq: "(m - b) div a * a + (m - b) mod a = m - b" by (rule div_mult_mod_eq)
  have mod: "0 \<le> (m - b) mod a" "(m - b) mod a < a" using assms(1) by simp_all
  from eq mod show "(m - b) div a * a + b \<le> m" by linarith
  from eq mod show "((m - b) div a + 1) * a + b > m" unfolding distrib_right by linarith
  show "(m - b) div a < x" if "x * a + b > m"
  proof (rule ccontr)
    assume "\<not> (m - b) div a < x"
    then have "x * a \<le> (m - b) div a * a" using assms(1) by (intro mult_right_mono) auto
    with eq mod that show False by linarith
  qed
qed

text \<open>The largest \<open>x\<close> that fits.\<close>

definition last_x :: "int \<Rightarrow> AVRational \<Rightarrow> AVRational \<Rightarrow> int \<Rightarrow> int" where
  "last_x maxi a0 a1 x =
     (let x = (if num a1 \<noteq> 0 then (maxi - num a0) div num a1 else x)
      in if den a1 \<noteq> 0 then min x ((maxi - den a0) div den a1) else x)"

lemma last_x_fits:
  assumes "reduce_inv maxi N D a0 a1 n d" "0 \<le> x" "x * num a1 + num a0 > maxi \<or> x * den a1 + den a0 > maxi"
  shows "0 \<le> last_x maxi a0 a1 x" "last_x maxi a0 a1 x < x" "last_x maxi a0 a1 x * num a1 + num a0 \<le> maxi"
    "last_x maxi a0 a1 x * den a1 + den a0 \<le> maxi"
    "(last_x maxi a0 a1 x + 1) * num a1 + num a0 > maxi \<or> (last_x maxi a0 a1 x + 1) * den a1 + den a0 > maxi"
proof -
  let ?l = "last_x maxi a0 a1 x"
  define an ad bn bd where a: "an = num a1" "ad = den a1" "bn = num a0" "bd = den a0"
  have i: "0 \<le> bn" "bn \<le> maxi" "0 \<le> bd" "bd \<le> maxi" "0 \<le> an" "0 \<le> ad" "\<bar>an * bd - ad * bn\<bar> = 1"
    using assms(1) by (simp_all add: reduce_inv_def a)
  have over: "x * an + bn > maxi \<or> x * ad + bd > maxi" using assms(3) by (simp add: a)
  have l: "?l = (let y = (if an \<noteq> 0 then (maxi - bn) div an else x) in if ad \<noteq> 0 then min y ((maxi - bd) div ad) else y)"
    by (simp add: last_x_def a Let_def)
  have X: "0 < an \<Longrightarrow> (maxi - bn) div an * an + bn \<le> maxi" "0 < an \<Longrightarrow> ((maxi - bn) div an + 1) * an + bn > maxi"
    "0 < an \<Longrightarrow> x * an + bn > maxi \<Longrightarrow> (maxi - bn) div an < x" "0 < an \<Longrightarrow> 0 \<le> (maxi - bn) div an"
    using div_fits(1,2) [of an bn maxi] div_fits(3) [of an bn maxi x] i by (auto simp: pos_imp_zdiv_nonneg_iff)
  have Y: "0 < ad \<Longrightarrow> (maxi - bd) div ad * ad + bd \<le> maxi" "0 < ad \<Longrightarrow> ((maxi - bd) div ad + 1) * ad + bd > maxi"
    "0 < ad \<Longrightarrow> x * ad + bd > maxi \<Longrightarrow> (maxi - bd) div ad < x" "0 < ad \<Longrightarrow> 0 \<le> (maxi - bd) div ad"
    using div_fits(1,2) [of ad bd maxi] div_fits(3) [of ad bd maxi x] i by (auto simp: pos_imp_zdiv_nonneg_iff)
  have le: "z * an + bn \<le> y * an + bn" "z * ad + bd \<le> y * ad + bd" if "z \<le> y" for y z
    using that i(5,6) by (simp_all add: mult_right_mono)
  consider "an = 0" "0 < ad" | "ad = 0" "0 < an" | "0 < an" "0 < ad" using i(5-7) by force
  then have "0 \<le> ?l \<and> ?l < x \<and> ?l * an + bn \<le> maxi \<and> ?l * ad + bd \<le> maxi \<and>
    ((?l + 1) * an + bn > maxi \<or> (?l + 1) * ad + bd > maxi)"
  proof cases
    case 1
    with over i have "x * ad + bd > maxi" by simp
    with 1 Y l i show ?thesis by (simp add: Let_def min_def)
  next
    case 2
    with over i have "x * an + bn > maxi" by simp
    with 2 X l i show ?thesis by (simp add: Let_def)
  next
    case 3
    let ?X = "(maxi - bn) div an" and ?Y = "(maxi - bd) div ad"
    have "?l = min ?X ?Y" using 3 l by (simp add: Let_def)
    moreover have "?X < x \<or> ?Y < x" using X(3) Y(3) 3 over by auto
    moreover have "?X * ad + bd \<le> maxi" if "?X \<le> ?Y" using le(2) [OF that] Y(1) 3 by linarith
    moreover have "?Y * an + bn \<le> maxi" if "?Y \<le> ?X" using le(1) [OF that] X(1) 3 by linarith
    ultimately show ?thesis using X(1,2,4) Y(1,2,4) 3 by (auto simp: min_def)
  qed
  then show "0 \<le> ?l" "?l < x" "?l * num a1 + num a0 \<le> maxi" "?l * den a1 + den a0 \<le> maxi"
    "(?l + 1) * num a1 + num a0 > maxi \<or> (?l + 1) * den a1 + den a0 > maxi"
    by (auto simp: a)
qed

lemma div_le_self: "0 \<le> (m :: int) \<Longrightarrow> 0 < a \<Longrightarrow> m div a \<le> m"
  using div_fits(1) [of a 0 m] mult_left_mono [of 1 a "m div a"] by (simp add: pos_imp_zdiv_nonneg_iff)

lemma below_product:
  assumes "0 < (d :: int)" "d * y \<le> N" "0 \<le> y"
  shows "y \<le> N"
proof -
  have "1 * y \<le> d * y" using assms(1,3) by (intro mult_right_mono) auto
  with assms(2) show ?thesis by simp
qed

lemma fraction_loop_best:
  assumes "reduce_inv maxi N D a0 a1 n d" "1 \<le> maxi" "maxi \<le> INT_MAX" "N \<le> INT64_MAX" "D \<le> INT64_MAX"
    and "coprime N D" "\<not> (N \<le> maxi \<and> D \<le> maxi)"
  shows "\<exists>q e. fraction_loop maxi a0 a1 n d = (q, e) \<and> 0 < e \<and> best maxi N D q"
  using assms(1)
proof (induction "nat d" arbitrary: a0 a1 n d rule: less_induct)
  case less
  note inv = less.prems
  have i: "0 \<le> num a0" "num a0 \<le> maxi" "0 \<le> den a0" "den a0 \<le> maxi" "0 \<le> num a1" "num a1 \<le> maxi" "0 \<le> den a1"
    "den a1 \<le> maxi" "\<bar>num a1 * den a0 - den a1 * num a0\<bar> = 1" "0 < n" "0 \<le> d"
    "N = n * num a1 + d * num a0" "D = n * den a1 + d * den a0"
    using inv by (simp_all add: reduce_inv_def)
  show ?case
  proof (cases "d = 0")
    case True
    then have "n dvd N" "n dvd D" using i(12,13) by simp_all
    then have "n dvd 1" using assms(6) coprime_common_divisor by blast
    then have "n = 1" using i(10) by simp
    with True i have "N \<le> maxi \<and> D \<le> maxi" by simp
    with assms(7) show ?thesis by simp
  next
    case False
    then have d: "0 < d" using i(11) by simp
    define x where "x = n div d"
    have m: "d * x + n mod d = n" "0 \<le> n mod d" "n mod d < d" using d by (simp_all add: x_def)
    have "0 \<le> x" using d i(10) by (simp add: x_def pos_imp_zdiv_nonneg_iff)
    moreover have "d * x \<le> n" "n - d * x < d" "0 \<le> n - d * x" using m by linarith+
    ultimately have x: "0 \<le> x" "d * x \<le> n" "n - d * x < d" "0 \<le> n - d * x" by blast+
    define a2n a2d where a2: "a2n = x * num a1 + num a0" "a2d = x * den a1 + den a0"
    have nn: "0 \<le> a2n" "0 \<le> a2d" using x(1) i by (simp_all add: a2)
    have "d * x * num a1 \<le> n * num a1" "d * x * den a1 \<le> n * den a1" using x(2) i by (simp_all add: mult_right_mono)
    then have prod: "d * a2n \<le> N" "d * a2d \<le> D" by (simp_all add: a2 i(12,13) algebra_simps)
    then have "a2n \<le> N" "a2d \<le> D" using below_product d nn by blast+
    then have i64: "i64 a2n = a2n" "i64 a2d = a2d" using nn assms(4,5) by (simp_all add: i64_id in_i64_def)
    show ?thesis
    proof (cases "a2n > maxi \<or> a2d > maxi")
      case True
      let ?l = "last_x maxi a0 a1 x"
      note l = last_x_fits [OF inv x(1) True [unfolded a2]]
      have u: "u64i (c_div (maxi - num a0) (num a1)) = (maxi - num a0) div num a1" if "num a1 \<noteq> 0"
      proof -
        have "(maxi - num a0) div num a1 \<le> maxi - num a0" using i(2) that i(5) by (intro div_le_self) auto
        then show ?thesis using that i assms(3) by (simp add: c_div_nonneg u64i_id pos_imp_zdiv_nonneg_iff)
      qed
      have v: "u64i (c_div (maxi - den a0) (den a1)) = (maxi - den a0) div den a1" if "den a1 \<noteq> 0"
      proof -
        have "(maxi - den a0) div den a1 \<le> maxi - den a0" using i(4) that i(7) by (intro div_le_self) auto
        then show ?thesis using that i assms(3) by (simp add: c_div_nonneg u64i_id pos_imp_zdiv_nonneg_iff)
      qed
      have lx: "(if den a1 \<noteq> 0 then min (if num a1 \<noteq> 0 then u64i (c_div (maxi - num a0) (num a1)) else x)
            (u64i (c_div (maxi - den a0) (den a1)))
          else if num a1 \<noteq> 0 then u64i (c_div (maxi - num a0) (num a1)) else x) = ?l"
        using u v by (simp add: last_x_def Let_def)
      have "d * ?l \<le> n" using l(2) x(2) d by (meson less_imp_le mult_left_mono order_trans)
      then have cmp: "d * ?l * den a1 \<le> n * den a1" using i(7) by (rule mult_right_mono)
      have "0 \<le> d * ?l * den a1" "0 \<le> d * den a0" "0 \<le> n * den a1" using d l(1) i by simp_all
      then have big: "u64i (d * (2 * ?l * den a1 + den a0)) = d * (2 * ?l * den a1 + den a0)" "u64i (n * den a1) = n * den a1"
        using cmp i(13) assms(5) by (auto intro!: u64i_id simp: algebra_simps)
      have "0 \<le> ?l * num a1 + num a0" "0 \<le> ?l * den a1 + den a0"
        using l(1) i by (intro add_nonneg_nonneg mult_nonneg_nonneg; simp)+
      then have "in_i32 (?l * num a1 + num a0)" "in_i32 (?l * den a1 + den a0)"
        unfolding in_i32_def using l(3,4) assms(3) by linarith+
      then have small: "i32 (?l * num a1 + num a0) = ?l * num a1 + num a0" "i32 (?l * den a1 + den a0) = ?l * den a1 + den a0"
        by (simp_all only: i32_id)
      have "fraction_loop maxi a0 a1 n d = (if d * (2 * ?l * den a1 + den a0) > n * den a1
        then \<lparr>num = ?l * num a1 + num a0, den = ?l * den a1 + den a0\<rparr> else a1, d)"
        unfolding fraction_loop.simps [of maxi a0 a1 n d] Let_def x_def [symmetric] a2 [symmetric] i64 lx big small
        using d True by simp
      with last_step_best [OF inv d assms(2) l(1) \<open>d * ?l \<le> n\<close> l(3,4,5)] d show ?thesis by simp
    next
      case no: False
      let ?a2 = "\<lparr>num = a2n, den = a2d\<rparr>"
      have "reduce_inv maxi N D a1 ?a2 d (n - d * x)"
        using i nn no d x(4) unfolding reduce_inv_def by (simp add: a2 algebra_simps abs_minus_commute)
      from less.hyps [OF _ this] x(3,4) d obtain q e where
        "fraction_loop maxi a1 ?a2 d (n - d * x) = (q, e)" "0 < e" "best maxi N D q" by auto
      moreover have "fraction_loop maxi a0 a1 n d = fraction_loop maxi a1 ?a2 d (n - d * x)"
        using False d no i64 nn assms(3)
        unfolding fraction_loop.simps [of maxi a0 a1 n d] x_def a2 Let_def by (auto simp: i32_id in_i32_def)
      ultimately show ?thesis by simp
    qed
  qed
qed

text \<open>The value a fraction stands for, and the fractions with fields up to \<open>maxi\<close>.\<close>

definition fits :: "int \<Rightarrow> AVRational \<Rightarrow> bool" where
  "fits maxi q \<longleftrightarrow> \<bar>num q\<bar> \<le> maxi \<and> 0 < den q \<and> den q \<le> maxi"

definition nearest_fraction :: "int \<Rightarrow> rat \<Rightarrow> AVRational \<Rightarrow> bool" where
  "nearest_fraction maxi v q \<longleftrightarrow> fits maxi q \<and> coprime (num q) (den q) \<and>
     (\<forall>r. fits maxi r \<longrightarrow> \<bar>v - rat_of q\<bar> \<le> \<bar>v - rat_of r\<bar>)"

lemma rat_distance:
  assumes "0 < D" "0 < q"
  shows "\<bar>of_int N / of_int D - of_int p / of_int q\<bar> = (of_int (distance N D p q) / of_int (D * q) :: rat)"
proof -
  have "of_int N / of_int D - of_int p / of_int q = (of_int (N * q - D * p) / of_int (D * q) :: rat)"
    using assms by (simp add: field_simps)
  then show ?thesis using assms by (simp add: distance_def abs_mult)
qed

lemma rat_closer:
  assumes "0 < D" "0 < q" "0 < b" "distance N D p q * b \<le> distance N D a b * q"
  shows "\<bar>of_int N / of_int D - of_int p / of_int q\<bar> \<le> \<bar>(of_int N :: rat) / of_int D - of_int a / of_int b\<bar>"
proof -
  have "(of_int (distance N D p q * b) :: rat) \<le> of_int (distance N D a b * q)" using assms(4) by (simp only: of_int_le_iff)
  then show ?thesis using assms(1-3) unfolding rat_distance [OF assms(1,2)] rat_distance [OF assms(1,3)]
    by (simp add: divide_simps mult_ac)
qed

text \<open>For a non-negative value the non-negative fractions are enough.\<close>

lemma best_nearest:
  assumes "best maxi N D q" "0 \<le> N" "0 < D" "1 \<le> maxi"
  shows "nearest_fraction maxi (of_int N / of_int D) q"
proof -
  let ?v = "of_int N / of_int D :: rat"
  have q: "0 \<le> num q" "num q \<le> maxi" "0 < den q" "den q \<le> maxi" "coprime (num q) (den q)"
    using assms(1) by (simp_all add: best_def)
  have pos: "\<bar>?v - rat_of q\<bar> \<le> \<bar>?v - of_int p / of_int b\<bar>" if "0 \<le> p" "p \<le> maxi" "0 < b" "b \<le> maxi" for p b
  proof -
    have "distance N D (num q) (den q) * b \<le> distance N D p b * den q" using assms(1) that by (simp add: best_def)
    from rat_closer [OF assms(3) q(3) that(3) this] show ?thesis by (simp add: rat_of_def)
  qed
  have "\<bar>?v - rat_of q\<bar> \<le> \<bar>?v - rat_of r\<bar>" if "fits maxi r" for r
  proof (cases "0 \<le> num r")
    case True
    with pos [of "num r" "den r"] that show ?thesis by (simp add: fits_def rat_of_def)
  next
    case False
    then have "rat_of r \<le> 0" using that by (simp add: rat_of_def fits_def divide_le_0_iff)
    moreover have "0 \<le> ?v" using assms(2,3) by simp
    moreover have "\<bar>?v - rat_of q\<bar> \<le> \<bar>?v - of_int 0 / of_int 1\<bar>" using assms(4) by (intro pos) auto
    ultimately show ?thesis by simp
  qed
  with q show ?thesis by (auto simp: nearest_fraction_def fits_def)
qed

lemma nearest_minus:
  assumes "nearest_fraction maxi v q"
  shows "nearest_fraction maxi (- v) \<lparr>num = - num q, den = den q\<rparr>"
proof -
  have m: "rat_of \<lparr>num = - num r, den = den r\<rparr> = - rat_of r" for r by (simp add: rat_of_def)
  have "\<bar>- v - rat_of \<lparr>num = - num q, den = den q\<rparr>\<bar> \<le> \<bar>- v - rat_of r\<bar>" if "fits maxi r" for r
  proof -
    have "fits maxi \<lparr>num = - num r, den = den r\<rparr>" using that by (simp add: fits_def)
    with assms have "\<bar>v - rat_of q\<bar> \<le> \<bar>v - rat_of \<lparr>num = - num r, den = den r\<rparr>\<bar>" unfolding nearest_fraction_def by blast
    then show ?thesis unfolding m by (simp add: abs_minus_commute)
  qed
  with assms show ?thesis by (simp add: nearest_fraction_def fits_def)
qed

lemma exact_nearest:
  assumes "fits maxi q" "coprime (num q) (den q)" "v = rat_of q"
  shows "nearest_fraction maxi v q"
  using assms by (simp add: nearest_fraction_def)

text \<open>For non-negative arguments: both the exact case and the loop.\<close>

lemma reduce_nonneg:
  assumes "0 \<le> N" "0 < D" "coprime N D" "N \<le> INT64_MAX" "D \<le> INT64_MAX" "1 \<le> maxi" "maxi \<le> INT_MAX"
  shows "\<exists>q e. (case (if N \<le> maxi \<and> D \<le> maxi then (\<lparr>num = i32 N, den = i32 D\<rparr>, 0) else (\<lparr>num = 1, den = 0\<rparr>, D)) of
      (a1, d) \<Rightarrow> fraction_loop maxi \<lparr>num = 0, den = 1\<rparr> a1 N d) = (q, e) \<and>
    nearest_fraction maxi (of_int N / of_int D) q \<and> 0 \<le> num q \<and> (e = 0 \<longleftrightarrow> N \<le> maxi \<and> D \<le> maxi)"
proof (cases "N \<le> maxi \<and> D \<le> maxi")
  case True
  then have "i32 N = N" "i32 D = D" using assms by (auto intro!: i32_id simp: in_i32_def)
  with True assms show ?thesis
    by (auto simp: fraction_loop.simps [of maxi _ _ N 0] rat_of_def fits_def intro!: exact_nearest)
next
  case False
  have "N \<noteq> 0" using False assms by auto
  then have "reduce_inv maxi N D \<lparr>num = 0, den = 1\<rparr> \<lparr>num = 1, den = 0\<rparr> N D"
    using assms by (simp add: reduce_inv_def)
  from fraction_loop_best [OF this assms(6,7,4,5,3) False] obtain q e where
    "fraction_loop maxi \<lparr>num = 0, den = 1\<rparr> \<lparr>num = 1, den = 0\<rparr> N D = (q, e)" "0 < e" "best maxi N D q" by blast
  with False best_nearest [OF this(3) assms(1,2,6)] show ?thesis by (auto simp: best_def)
qed

lemma av_gcd_abs:
  assumes "\<bar>x\<bar> \<le> INT64_MAX" "\<bar>y\<bar> \<le> INT64_MAX" "y \<noteq> 0"
  shows "av_gcd \<bar>x\<bar> \<bar>y\<bar> = gcd x y"
proof (cases "x = 0")
  case True
  then show ?thesis by (simp add: av_gcd_def)
next
  case False
  have "gcd x y \<le> \<bar>x\<bar>" "0 \<le> gcd x y" using False by (simp_all add: zdvd_imp_le)
  then have "in_i64 (gcd x y)" using assms(1) unfolding in_i64_def by linarith
  with False assms show ?thesis by (simp add: av_gcd_eq in_i64_def i64_id)
qed

lemma av_reduce_nearest:
  assumes "d \<noteq> 0" "\<bar>n\<bar> \<le> INT64_MAX" "\<bar>d\<bar> \<le> INT64_MAX" "1 \<le> maxi" "maxi \<le> INT_MAX"
  shows "nearest_fraction maxi (of_int n / of_int d) (fst (av_reduce n d maxi)) \<and>
    (snd (av_reduce n d maxi) \<longleftrightarrow> rat_of (fst (av_reduce n d maxi)) = of_int n / of_int d)"
proof -
  let ?g = "gcd n d"
  define N D where "N = \<bar>n\<bar> div ?g" and "D = \<bar>d\<bar> div ?g"
  have g: "0 < ?g" using assms(1) by simp
  have nd: "\<bar>n\<bar> = N * ?g" "\<bar>d\<bar> = D * ?g" by (simp_all add: N_def D_def)
  have N: "0 \<le> N" "0 < D" using g nd assms(1) by (simp add: N_def pos_imp_zdiv_nonneg_iff, metis nd(2) g zero_less_abs_iff zero_less_mult_pos2)
  have cop: "coprime N D" using div_gcd_coprime [of "\<bar>n\<bar>" "\<bar>d\<bar>"] assms(1) by (simp add: N_def D_def)
  have le: "N \<le> INT64_MAX" "D \<le> INT64_MAX"
    using below_product [OF g, of N INT64_MAX] below_product [OF g, of D INT64_MAX] N nd assms(2,3) by (simp_all add: mult.commute)
  have gcd: "av_gcd \<bar>n\<bar> \<bar>d\<bar> = ?g" "c_div \<bar>n\<bar> ?g = N" "c_div \<bar>d\<bar> ?g = D"
    using av_gcd_abs assms(1-3) g by (simp_all add: N_def D_def c_div_nonneg)
  obtain q e where q: "(case (if N \<le> maxi \<and> D \<le> maxi then (\<lparr>num = i32 N, den = i32 D\<rparr>, 0) else (\<lparr>num = 1, den = 0\<rparr>, D)) of
      (a1, d) \<Rightarrow> fraction_loop maxi \<lparr>num = 0, den = 1\<rparr> a1 N d) = (q, e)"
    "nearest_fraction maxi (of_int N / of_int D) q" "0 \<le> num q" "e = 0 \<longleftrightarrow> N \<le> maxi \<and> D \<le> maxi"
    using reduce_nonneg [OF N cop le assms(4,5)] by blast
  let ?neg = "(n < 0) \<noteq> (d < 0)"
  have red: "av_reduce n d maxi = (\<lparr>num = (if ?neg then - num q else num q), den = den q\<rparr>, e = 0)"
    using gcd g q(1) unfolding av_reduce_def Let_def by (auto split: prod.splits if_splits)
  have val: "of_int n / of_int d = (if ?neg then - (of_int N / of_int D) else of_int N / of_int D :: rat)"
  proof -
    have "(of_int \<bar>n\<bar> :: rat) / of_int \<bar>d\<bar> = of_int N / of_int D" using g unfolding nd by simp
    then show ?thesis by (cases "n < 0"; cases "d < 0") auto
  qed
  have eta: "\<lparr>num = num q, den = den q\<rparr> = q" by (cases q) simp
  have near: "nearest_fraction maxi (of_int n / of_int d) (fst (av_reduce n d maxi))"
    using nearest_minus [OF q(2)] q(2) unfolding red val by (cases ?neg) (auto simp: eta)
  have exact: "e = 0 \<longleftrightarrow> rat_of q = of_int N / of_int D"
  proof
    assume "e = 0"
    then have "fits maxi \<lparr>num = N, den = D\<rparr>" using q(4) N by (simp add: fits_def)
    with q(2) have "\<bar>of_int N / of_int D - rat_of q\<bar> \<le> \<bar>of_int N / of_int D - rat_of \<lparr>num = N, den = D\<rparr>\<bar>"
      unfolding nearest_fraction_def by blast
    then show "rat_of q = of_int N / of_int D" by (simp add: rat_of_def)
  next
    assume eq: "rat_of q = of_int N / of_int D"
    have f: "\<bar>num q\<bar> \<le> maxi" "0 < den q" "den q \<le> maxi" using q(2) by (simp_all add: nearest_fraction_def fits_def)
    have "(of_int (num q * D) :: rat) = of_int (N * den q)" using eq f(2) N(2) by (simp add: rat_of_def field_simps)
    then have cross: "num q * D = N * den q" by (simp only: of_int_eq_iff)
    have "D dvd den q" using cross cop by (metis coprime_commute coprime_dvd_mult_right_iff dvd_triv_right)
    then have "D \<le> maxi" using f(2,3) zdvd_imp_le by fastforce
    moreover have "N \<le> maxi"
    proof (cases "num q = 0")
      case True
      with cross f(2) assms(4) show ?thesis by simp
    next
      case False
      have "N dvd num q" using cross cop by (metis coprime_dvd_mult_left_iff dvd_triv_left)
      with False q(3) f(1) show ?thesis using zdvd_imp_le [of N "num q"] by simp
    qed
    ultimately show "e = 0" using q(4) by simp
  qed
  have "rat_of (fst (av_reduce n d maxi)) = of_int n / of_int d \<longleftrightarrow> rat_of q = of_int N / of_int D"
    unfolding red val by (auto simp: rat_of_def)
  with near exact red show ?thesis by simp
qed

section \<open>Arithmetic\<close>

definition fraction_ok :: "AVRational \<Rightarrow> bool" where
  "fraction_ok q \<longleftrightarrow> \<bar>num q\<bar> \<le> INT_MAX \<and> 0 < den q \<and> den q \<le> INT_MAX"

lemma product_bound:
  assumes "\<bar>x\<bar> \<le> INT_MAX" "\<bar>y\<bar> \<le> INT_MAX"
  shows "\<bar>x * y\<bar> \<le> INT_MAX * INT_MAX"
  unfolding abs_mult using assms by (intro mult_mono) auto

lemma cross_bounds:
  assumes "fraction_ok p" "fraction_ok q"
  shows "\<bar>num p * den q\<bar> \<le> INT_MAX * INT_MAX" "\<bar>num q * den p\<bar> \<le> INT_MAX * INT_MAX"
    "\<bar>den p * den q\<bar> \<le> INT_MAX * INT_MAX"
  by (rule product_bound; use assms in \<open>simp add: fraction_ok_def\<close>)+

lemma abs_rat_of:
  assumes "fraction_ok q"
  shows "\<bar>rat_of q\<bar> \<le> of_int INT_MAX"
proof -
  have "\<bar>num q\<bar> \<le> INT_MAX * den q"
    using assms mult_left_mono [of 1 "den q" INT_MAX] by (simp add: fraction_ok_def)
  then have "(of_int \<bar>num q\<bar> :: rat) \<le> of_int (INT_MAX * den q)" by (simp only: of_int_le_iff)
  with assms show ?thesis by (simp add: rat_of_def fraction_ok_def divide_simps)
qed

lemma reduce_arith:
  assumes "d \<noteq> 0" "\<bar>n\<bar> \<le> INT64_MAX" "\<bar>d\<bar> \<le> INT_MAX * INT_MAX"
  shows "nearest_fraction INT_MAX (of_int n / of_int d) (fst (av_reduce n d INT_MAX))"
  using av_reduce_nearest [OF assms(1,2), of INT_MAX] assms(3) by simp

lemma av_mul_q_nearest:
  assumes "\<bar>num p\<bar> \<le> INT_MAX" "\<bar>den p\<bar> \<le> INT_MAX" "\<bar>num q\<bar> \<le> INT_MAX" "\<bar>den q\<bar> \<le> INT_MAX" "den p \<noteq> 0" "den q \<noteq> 0"
  shows "nearest_fraction INT_MAX (rat_of p * rat_of q) (av_mul_q p q)"
  using reduce_arith [of "den p * den q" "num p * num q"] product_bound [OF assms(1,3)] product_bound [OF assms(2,4)] assms(5,6)
  by (simp add: av_mul_q_def rat_of_def)

lemma av_add_q_nearest:
  assumes "fraction_ok p" "fraction_ok q"
  shows "nearest_fraction INT_MAX (rat_of p + rat_of q) (av_add_q p q)"
proof -
  note b = cross_bounds [OF assms]
  then have "\<bar>num p * den q + num q * den p\<bar> \<le> INT64_MAX" by linarith
  moreover have "den p * den q \<noteq> 0" using assms by (simp add: fraction_ok_def)
  ultimately have "nearest_fraction INT_MAX (of_int (num p * den q + num q * den p) / of_int (den p * den q))
      (fst (av_reduce (num p * den q + num q * den p) (den p * den q) INT_MAX))"
    using b(3) by (intro reduce_arith)
  moreover have "rat_of p + rat_of q = of_int (num p * den q + num q * den p) / of_int (den p * den q)"
    using assms by (simp add: rat_of_def fraction_ok_def field_simps)
  ultimately show ?thesis by (simp only: av_add_q_def)
qed

lemma arithmetic_nearest:
  assumes "fraction_ok p" "fraction_ok q"
  shows "nearest_fraction INT_MAX (rat_of p * rat_of q) (av_mul_q p q)"
    "nearest_fraction INT_MAX (rat_of p + rat_of q) (av_add_q p q)"
    "nearest_fraction INT_MAX (rat_of p - rat_of q) (av_sub_q p q)"
    "num q \<noteq> 0 \<Longrightarrow> nearest_fraction INT_MAX (rat_of p / rat_of q) (av_div_q p q)"
proof -
  show "nearest_fraction INT_MAX (rat_of p * rat_of q) (av_mul_q p q)"
    using assms by (intro av_mul_q_nearest) (auto simp: fraction_ok_def)
  show "nearest_fraction INT_MAX (rat_of p + rat_of q) (av_add_q p q)" using assms by (rule av_add_q_nearest)
  have "fraction_ok \<lparr>num = - num q, den = den q\<rparr>" using assms(2) by (simp add: fraction_ok_def)
  from av_add_q_nearest [OF assms(1) this] show "nearest_fraction INT_MAX (rat_of p - rat_of q) (av_sub_q p q)"
    by (simp add: av_sub_q_def rat_of_def)
  show "nearest_fraction INT_MAX (rat_of p / rat_of q) (av_div_q p q)" if "num q \<noteq> 0"
    using av_mul_q_nearest [of p "\<lparr>num = den q, den = num q\<rparr>"] assms that
    by (simp add: av_div_q_def fraction_ok_def rat_of_def)
qed

section \<open>Comparing\<close>

lemma av_cmp_q_sign:
  assumes "0 < den a" "0 < den b"
  shows "av_cmp_q a b = (if rat_of a < rat_of b then - 1 else if rat_of b < rat_of a then 1 else 0)"
proof -
  have "rat_of a < rat_of b \<longleftrightarrow> (of_int (num a * den b) :: rat) < of_int (num b * den a)"
    "rat_of b < rat_of a \<longleftrightarrow> (of_int (num b * den a) :: rat) < of_int (num a * den b)"
    using assms by (simp_all add: rat_of_def field_simps)
  then have "rat_of a < rat_of b \<longleftrightarrow> num a * den b < num b * den a" "rat_of b < rat_of a \<longleftrightarrow> num b * den a < num a * den b"
    by (simp_all only: of_int_less_iff)
  with assms show ?thesis by (auto simp: av_cmp_q_def Let_def)
qed

text \<open>\<open>q\<close> is compared with the middle of \<open>q1\<close> and \<open>q2\<close>, by rounding it up and down to multiples of \<open>1 / den q\<close>.\<close>

lemma av_nearer_q_correct:
  assumes "fraction_ok q" "fraction_ok q1" "fraction_ok q2"
  shows "av_nearer_q q q1 q2 = (if \<bar>rat_of q - rat_of q1\<bar> < \<bar>rat_of q - rat_of q2\<bar> then 1
    else if \<bar>rat_of q - rat_of q2\<bar> < \<bar>rat_of q - rat_of q1\<bar> then - 1 else 0)"
proof -
  define a b where "a = num q1 * den q2 + num q2 * den q1" and "b = 2 * den q1 * den q2"
  let ?m = "of_int (a * den q) / of_int b :: rat"
  have pos: "0 < den q" "0 < den q1" "0 < den q2" using assms by (simp_all add: fraction_ok_def)
  note p1 = cross_bounds [OF assms(2,3)]
  have pp: "0 < den q1 * den q2" using pos by simp
  have b2: "b = 2 * (den q1 * den q2)" by (simp add: b_def)
  have ab: "in_i64 a" "a \<noteq> INT64_MIN" "0 < b" "in_i64 b"
    unfolding in_i64_def a_def b2 using p1 pp by linarith+
  have dq: "0 \<le> den q" "in_i64 (den q)" using assms(1) by (simp_all add: fraction_ok_def in_i64_def)
  have m: "?m = (rat_of q1 + rat_of q2) / 2 * of_int (den q)"
    using pos by (simp add: a_def b_def rat_of_def field_simps)
  have bound: "\<bar>?m\<bar> \<le> of_int (INT_MAX * INT_MAX)"
  proof -
    have "\<bar>(rat_of q1 + rat_of q2) / 2\<bar> \<le> of_int INT_MAX"
      using abs_rat_of [OF assms(2)] abs_rat_of [OF assms(3)] by (simp add: abs_le_iff)
    then have "\<bar>(rat_of q1 + rat_of q2) / 2\<bar> * \<bar>of_int (den q)\<bar> \<le> of_int INT_MAX * (of_int INT_MAX :: rat)"
      using assms(1) by (intro mult_mono) (simp_all add: fraction_ok_def)
    then show ?thesis unfolding m abs_mult by simp
  qed
  have "\<bar>\<lceil>?m\<rceil>\<bar> \<le> INT64_MAX" "\<bar>\<lfloor>?m\<rfloor>\<bar> \<le> INT64_MAX" using bound by linarith+
  then have up: "av_rescale_rnd a (den q) b AV_ROUND_UP = \<lceil>?m\<rceil>" and down: "av_rescale_rnd a (den q) b AV_ROUND_DOWN = \<lfloor>?m\<rfloor>"
    using av_rescale_rnd_rounded [OF _ ab(1,2) dq ab(3,4), of AV_ROUND_UP] av_rescale_rnd_rounded [OF _ ab(1,2) dq ab(3,4), of AV_ROUND_DOWN]
    by (simp_all add: roundings_def rounded_def round_consts saturated_def)
  have q: "of_int (num q) = rat_of q * of_int (den q)" using pos by (simp add: rat_of_def)
  have gt: "\<lceil>?m\<rceil> > num q \<longleftrightarrow> rat_of q < (rat_of q1 + rat_of q2) / 2" "\<lfloor>?m\<rfloor> < num q \<longleftrightarrow> (rat_of q1 + rat_of q2) / 2 < rat_of q"
    unfolding less_ceiling_iff floor_less_iff m q using pos by simp_all
  show ?thesis
    unfolding av_nearer_q_def Let_def a_def [symmetric] b_def [symmetric] up down gt av_cmp_q_sign [OF pos(3,2)]
    by (auto simp: abs_if field_simps)
qed

definition farther :: "AVRational \<Rightarrow> AVRational \<Rightarrow> rat" where
  "farther q r = \<bar>rat_of q - rat_of r\<bar>"

lemma nearest_from_correct:
  assumes "fraction_ok q" "\<forall>r\<in>set (done @ rest). fraction_ok r" "done \<noteq> []" "den stop = 0"
    and "b < length done" "\<forall>k<length done. farther q (done ! b) \<le> farther q (done ! k)" "\<forall>k<b. farther q (done ! b) < farther q (done ! k)"
  shows "\<exists>i. nearest_from q (done @ rest @ stop # after) b (length done) (rest @ stop # after) = Some i \<and>
    i < length (done @ rest) \<and> (\<forall>k<length (done @ rest). farther q ((done @ rest) ! i) \<le> farther q ((done @ rest) ! k)) \<and>
    (\<forall>k<i. farther q ((done @ rest) ! i) < farther q ((done @ rest) ! k))"
  using assms(2,3,5-7)
proof (induction rest arbitrary: "done" b)
  case Nil
  with assms(4) show ?case by simp
next
  case (Cons r rs)
  have ok: "fraction_ok r" "fraction_ok (done ! b)" using Cons.prems(1,3) by (simp_all)
  let ?b = "if av_nearer_q q r (done ! b) > 0 then length done else b"
  have cmp: "av_nearer_q q r (done ! b) > 0 \<longleftrightarrow> farther q r < farther q (done ! b)"
    using av_nearer_q_correct [OF assms(1) ok] by (simp add: farther_def)
  have "\<forall>k<length (done @ [r]). farther q ((done @ [r]) ! ?b) \<le> farther q ((done @ [r]) ! k)"
    "\<forall>k<?b. farther q ((done @ [r]) ! ?b) < farther q ((done @ [r]) ! k)"
    using cmp Cons.prems(3-5) by (auto simp: nth_append less_Suc_eq)
  moreover have "?b < length (done @ [r])" using Cons.prems(3) by simp
  moreover have "\<forall>x\<in>set ((done @ [r]) @ rs). fraction_ok x" using Cons.prems(1) by simp
  moreover have "den r \<noteq> 0" using ok(1) by (simp add: fraction_ok_def)
  ultimately show ?case using Cons.IH [of "done @ [r]" ?b] Cons.prems(3) by (auto simp: nth_append)
qed

section \<open>The bits of a float\<close>

lemma av_log2_bounds:
  assumes "0 < v"
  shows "2 ^ av_log2 v \<le> v \<and> v < 2 ^ Suc (av_log2 v)"
  using assms
proof (induction v rule: av_log2.induct)
  case (1 v)
  show ?case
  proof (cases "v \<le> 1")
    case True
    with "1.prems" show ?thesis by (simp add: av_log2.simps [of v])
  next
    case False
    then have "0 < v div 2" by simp
    with "1.IH" False have ih: "2 ^ av_log2 (v div 2) \<le> v div 2" "v div 2 < 2 * 2 ^ av_log2 (v div 2)" by simp_all
    have "2 * 2 ^ av_log2 (v div 2) \<le> v" "v < 2 * (2 * 2 ^ av_log2 (v div 2))" using ih by linarith+
    with False show ?thesis by (simp add: av_log2.simps [of v])
  qed
qed

lemma av_log2_int:
  assumes "0 < v" "v \<le> INT_MAX"
  shows "av_log2 v \<le> 30"
proof (rule ccontr)
  assume "\<not> av_log2 v \<le> 30"
  then have "(2 :: int) ^ 31 \<le> 2 ^ av_log2 v" by (intro power_increasing) auto
  with av_log2_bounds [OF assms(1)] assms(2) show False by simp
qed

lemma llround_between:
  assumes "of_int a \<le> x" "x < of_int b + 1 / 2" "0 \<le> a"
  shows "a \<le> llround x" "llround x \<le> b"
proof -
  have "0 \<le> x" using assms(1,3) by (meson of_int_0_le_iff order_trans)
  then have "llround x = \<lfloor>x + 1 / 2\<rfloor>" by (simp add: llround_def)
  then show "a \<le> llround x" "llround x \<le> b" using assms(1,2) by linarith+
qed

lemma scaled_quotient_value:
  assumes "0 < n" "n \<le> INT_MAX" "0 < d" "d \<le> INT_MAX" "- 31 \<le> shift" "shift \<le> 62"
    and "of_int n / of_int d * 2 powi shift < (2 ^ 60 :: rat)"
  shows "scaled_quotient n d shift = llround (of_int n / of_int d * 2 powi shift)"
proof -
  let ?w = "of_int n / of_int d * 2 powi shift :: rat"
  have w: "0 \<le> ?w" using assms(1,3) by simp
  have "rat_of_int (2 ^ 60) = 2 ^ 60" by simp
  with assms(7) have "?w < of_int (2 ^ 60) + 1 / 2" by linarith
  then have "0 \<le> llround ?w" "llround ?w \<le> 2 ^ 60" using llround_between [of 0 ?w "2 ^ 60"] w by simp_all
  then have sat: "saturated (llround ?w) = llround ?w" by (simp add: saturated_def)
  have n: "in_i64 n" "n \<noteq> INT64_MIN" using assms(1,2) by (simp_all add: in_i64_def)
  have near: "AV_ROUND_NEAR_INF \<in> set roundings" "rounded AV_ROUND_NEAR_INF = llround"
    by (simp_all add: roundings_def fun_eq_iff rounded_def round_consts)
  show ?thesis
  proof (cases "0 \<le> shift")
    case True
    have "(2 :: int) ^ nat shift \<le> 2 ^ 62" using assms(6) True by (intro power_increasing) auto
    then have b: "0 \<le> (2 :: int) ^ nat shift" "in_i64 (2 ^ nat shift)" by (simp_all add: in_i64_def order_trans [of INT64_MIN 0])
    have "of_int (n * 2 ^ nat shift) / of_int d = ?w" using True by (simp add: power_int_def)
    moreover have "av_rescale_rnd n (2 ^ nat shift) d AV_ROUND_NEAR_INF =
        saturated (llround (of_int (n * 2 ^ nat shift) / of_int d))"
      using av_rescale_rnd_rounded [OF near(1) n b, of d] assms(3,4) near(2) by (simp add: in_i64_def)
    ultimately show ?thesis using True sat by (simp only: scaled_quotient_def av_rescale_def if_True)
  next
    case False
    have "(2 :: int) ^ nat (- shift) \<le> 2 ^ 31" using assms(5) by (intro power_increasing) auto
    then have "d * 2 ^ nat (- shift) \<le> INT_MAX * 2 ^ 31" using assms(3,4) by (intro mult_mono) auto
    moreover have pos: "0 < d * 2 ^ nat (- shift)" using assms(3) by simp
    ultimately have c: "in_i64 (d * 2 ^ nat (- shift))" unfolding in_i64_def by simp
    have "of_int (n * 1) / of_int (d * 2 ^ nat (- shift)) = ?w"
      using False by (simp add: power_int_def field_simps)
    then show ?thesis
      using False av_rescale_rnd_rounded [OF near(1) n, of 1 "d * 2 ^ nat (- shift)"] pos c sat near(2)
      by (simp add: scaled_quotient_def av_rescale_def in_i64_def)
  qed
qed

lemma q2intfloat_shift:
  assumes "0 < n" "0 < d"
  shows "2 ^ 22 < rat_of_int n / of_int d * 2 powi (23 + int (av_log2 d) - int (av_log2 n))"
    "rat_of_int n / of_int d * 2 powi (23 + int (av_log2 d) - int (av_log2 n)) < 2 ^ 24"
proof -
  let ?a = "2 ^ av_log2 n :: rat" and ?b = "2 ^ av_log2 d :: rat"
  have pos: "0 < ?a" "0 < ?b" by simp_all
  have of_int: "2 ^ k \<le> rat_of_int v \<and> rat_of_int v < 2 * 2 ^ k" if "2 ^ k \<le> v \<and> v < 2 ^ Suc k" for k v
  proof -
    have "rat_of_int (2 ^ k) \<le> of_int v" "rat_of_int v < of_int (2 ^ Suc k)"
      using that by (simp_all only: of_int_le_iff of_int_less_iff)
    then show ?thesis by simp
  qed
  have n: "?a \<le> of_int n" "of_int n < 2 * ?a" and d: "?b \<le> of_int d" "of_int d < 2 * ?b"
    using of_int [OF av_log2_bounds [OF assms(1)]] of_int [OF av_log2_bounds [OF assms(2)]] by simp_all
  have e: "2 powi (23 + int (av_log2 d) - int (av_log2 n)) = 2 ^ 23 * ?b / ?a"
    by (simp add: power_int_diff power_int_add)
  have dn: "0 < rat_of_int d" using assms(2) by simp
  have "2 ^ 22 * (?a * of_int d) < 2 ^ 22 * (?a * (2 * ?b))" using d(2) pos by simp
  also have "\<dots> \<le> of_int n * (2 ^ 23 * ?b)" using n(1) pos by simp
  finally have l: "2 ^ 22 * (?a * of_int d) < of_int n * (2 ^ 23 * ?b)" .
  have "of_int n * (2 ^ 23 * ?b) < 2 * ?a * (2 ^ 23 * ?b)" using n(2) pos by simp
  also have "\<dots> \<le> 2 ^ 24 * (?a * of_int d)" using d(1) pos by simp
  finally have u: "of_int n * (2 ^ 23 * ?b) < 2 ^ 24 * (?a * of_int d)" .
  have eq: "rat_of_int n / of_int d * (2 ^ 23 * ?b / ?a) = of_int n * (2 ^ 23 * ?b) / (?a * of_int d)" by simp
  show "2 ^ 22 < rat_of_int n / of_int d * 2 powi (23 + int (av_log2 d) - int (av_log2 n))"
    unfolding e eq using l pos dn by (simp add: pos_less_divide_eq mult_pos_pos)
  show "rat_of_int n / of_int d * 2 powi (23 + int (av_log2 d) - int (av_log2 n)) < 2 ^ 24"
    unfolding e eq using u pos dn by (simp add: pos_divide_less_eq mult_pos_pos)
qed

text \<open>
  One of the two shifts puts the rounded quotient into the range of a mantissa. When it is the
  first that gives \<open>2^24\<close>, the quotient is just below that, and half of it rounds to \<open>2^23\<close>.
\<close>

definition q2intfloat_shift_final :: "int \<Rightarrow> int \<Rightarrow> int" where
  "q2intfloat_shift_final n d =
     (let shift = 23 + int (av_log2 d) - int (av_log2 n); m = scaled_quotient n d shift;
          shift = shift - (if m \<ge> 2 ^ 24 then 1 else 0)
      in shift + (if m < 2 ^ 23 then 1 else 0))"

lemma q2intfloat_mantissa:
  assumes "0 < n" "n \<le> INT_MAX" "0 < d" "d \<le> INT_MAX"
  defines "s \<equiv> q2intfloat_shift_final n d"
  shows "scaled_quotient n d s = llround (of_int n / of_int d * 2 powi s)"
    "2 ^ 23 \<le> scaled_quotient n d s" "scaled_quotient n d s < 2 ^ 24" "- 9 \<le> s" "s \<le> 54"
proof -
  define s0 where "s0 = 23 + int (av_log2 d) - int (av_log2 n)"
  have log: "av_log2 d \<le> 30" "av_log2 n \<le> 30" using av_log2_int assms(1-4) by simp_all
  then have s0: "- 7 \<le> s0" "s0 \<le> 53" unfolding s0_def by linarith+
  define w where "w t = rat_of_int n / of_int d * 2 powi t" for t
  have w0: "2 ^ 22 < w s0" "w s0 < 2 ^ 24" using q2intfloat_shift [OF assms(1,3)] by (simp_all add: w_def s0_def)
  have wm: "w (t - 1) = w t / 2" and wp: "w (t + 1) = 2 * w t" for t
    by (simp_all add: w_def power_int_diff power_int_add)
  have sq: "scaled_quotient n d t = llround (w t)" if "- 31 \<le> t" "t \<le> 62" "w t < 2 ^ 60" for t
    using scaled_quotient_value [OF assms(1-4) that(1,2)] that(3) by (simp add: w_def)
  have m0: "scaled_quotient n d s0 = llround (w s0)" using s0 w0 by (intro sq) auto
  have r: "llround x = \<lfloor>x + 1 / 2\<rfloor>" if "0 \<le> x" for x using that by (simp add: llround_def)
  have s: "s = s0 - (if llround (w s0) \<ge> 2 ^ 24 then 1 else 0) + (if llround (w s0) < 2 ^ 23 then 1 else 0)"
    unfolding s_def q2intfloat_shift_final_def Let_def s0_def [symmetric] m0 ..
  have cases: "2 ^ 23 \<le> \<lfloor>w s + 1 / 2\<rfloor> \<and> \<lfloor>w s + 1 / 2\<rfloor> < 2 ^ 24 \<and> 0 \<le> w s \<and> w s < 2 ^ 60"
  proof (cases "2 ^ 24 \<le> llround (w s0)")
    case True
    then have "s = s0 - 1" using s by simp
    then have "w s = w s0 / 2" using wm by simp
    moreover have "2 ^ 24 - 1 / 2 \<le> w s0" using True w0 r [of "w s0"] by (simp add: le_floor_iff)
    ultimately have "2 ^ 23 - 1 / 2 \<le> w s" "w s < 2 ^ 23" using w0 by simp_all
    then show ?thesis by (simp add: le_floor_iff floor_less_iff)
  next
    case f1: False
    show ?thesis
    proof (cases "llround (w s0) < 2 ^ 23")
      case True
      then have "s = s0 + 1" using s by simp
      then have "w s = 2 * w s0" using wp by simp
      moreover have "w s0 < 2 ^ 23 - 1 / 2" using True w0 r [of "w s0"] by (simp add: floor_less_iff)
      ultimately have "2 ^ 23 < w s" "w s < 2 ^ 24 - 1" using w0 by simp_all
      then show ?thesis by (simp add: le_floor_iff floor_less_iff)
    next
      case False
      then have "s = s0" using s f1 by simp
      then show ?thesis using f1 False w0 r [of "w s0"] by simp
    qed
  qed
  show b: "- 9 \<le> s" "s \<le> 54" using s s0 by (auto split: if_splits)
  have "scaled_quotient n d s = llround (w s)" using b cases by (intro sq) auto
  moreover have "llround (w s) = \<lfloor>w s + 1 / 2\<rfloor>" using cases r by blast
  ultimately show "scaled_quotient n d s = llround (of_int n / of_int d * 2 powi s)"
    "2 ^ 23 \<le> scaled_quotient n d s" "scaled_quotient n d s < 2 ^ 24" using cases by (simp_all add: w_def)
qed

text \<open>
  What the bits of a normal IEEE 754 single stand for: the sign, 23 bits of mantissa below the
  leading one and the biased exponent.
\<close>

definition float_value :: "int \<Rightarrow> rat" where
  "float_value u = (if u \<ge> 2 ^ 31 then - 1 else 1) * of_int (2 ^ 23 + u mod 2 ^ 23) * 2 powi (u div 2 ^ 23 mod 256 - 150)"

definition float_exponent :: "int \<Rightarrow> int" where
  "float_exponent u = u div 2 ^ 23 mod 256"

lemma float_bits:
  assumes "0 \<le> k" "k < 2 ^ 23" "0 \<le> e" "e < 256"
  shows "float_value ((if s then 2 ^ 31 else 0) + e * 2 ^ 23 + k) =
      (if s then - 1 else 1) * of_int (2 ^ 23 + k) * 2 powi (e - 150)"
    "float_exponent ((if s then 2 ^ 31 else 0) + e * 2 ^ 23 + k) = e"
proof -
  let ?u = "(if s then 2 ^ 31 else 0) + e * 2 ^ 23 + k"
  have u: "?u = (if s then 256 + e else e) * 2 ^ 23 + k" by simp
  have "?u mod 2 ^ 23 = k" "?u div 2 ^ 23 = (if s then 256 + e else e)"
    unfolding u using assms(1,2) by simp_all
  moreover have "(if s then 256 + e else e) mod 256 = e" using assms(3,4) by simp
  moreover have "?u \<ge> 2 ^ 31 \<longleftrightarrow> s"
  proof (cases s)
    case False
    have "e * 2 ^ 23 \<le> 255 * 2 ^ 23" using assms(4) by (intro mult_right_mono) auto
    then show ?thesis using False assms(2) by simp
  qed (use assms in simp)
  ultimately show "float_value ?u = (if s then - 1 else 1) * of_int (2 ^ 23 + k) * 2 powi (e - 150)"
    "float_exponent ?u = e" by (simp_all only: float_value_def float_exponent_def)
qed

lemma llround_error: "\<bar>of_int (llround x) - x\<bar> \<le> 1 / 2" for x :: rat
proof (cases "x < 0")
  case True
  then have "llround x = - \<lfloor>1 / 2 - x\<rfloor>" by (simp add: llround_def)
  then show ?thesis unfolding abs_le_iff by (simp only: of_int_minus) linarith
next
  case False
  then have "llround x = \<lfloor>x + 1 / 2\<rfloor>" by (simp add: llround_def)
  then show ?thesis unfolding abs_le_iff by linarith
qed

lemma q2intfloat_finite_parts:
  "q2intfloat_finite sign n d =
    (if sign then 2 ^ 31 else 0) + (150 - q2intfloat_shift_final n d) * 2 ^ 23 +
      (scaled_quotient n d (q2intfloat_shift_final n d) - 2 ^ 23)"
  unfolding q2intfloat_finite_def q2intfloat_shift_final_def Let_def by (rule refl)

lemma av_q2intfloat_parts:
  assumes "num q \<noteq> 0" "den q \<noteq> 0"
  shows "av_q2intfloat q = q2intfloat_finite ((num q < 0) \<noteq> (den q < 0)) \<bar>num q\<bar> \<bar>den q\<bar>"
proof (cases "den q < 0")
  case True
  with assms show ?thesis
    by (cases "num q < 0") (simp_all add: av_q2intfloat_def Let_def)
next
  case False
  with assms show ?thesis by (cases "num q < 0") (simp_all add: av_q2intfloat_def Let_def)
qed

text \<open>What the result is made of: a sign, a mantissa that is a nearest integer, and a scale.\<close>

lemma q2intfloat_result:
  assumes "num q \<noteq> 0" "den q \<noteq> 0" "\<bar>num q\<bar> \<le> INT_MAX" "\<bar>den q\<bar> \<le> INT_MAX"
  obtains sg s X m where "sg = 1 \<or> sg = - 1" "rat_of_int (num q) / of_int (den q) = sg * X * 2 powi (- s)" "0 < X" "m = llround X"
    "2 ^ 23 \<le> m" "m < 2 ^ 24" "float_value (av_q2intfloat q) = sg * of_int m * 2 powi (- s)"
    "float_exponent (av_q2intfloat q) = 150 - s" "av_q2intfloat q mod 2 ^ 23 = m - 2 ^ 23" "- 9 \<le> s" "s \<le> 54"
proof -
  let ?n = "\<bar>num q\<bar>" and ?d = "\<bar>den q\<bar>"
  define s where "s = q2intfloat_shift_final ?n ?d"
  define m where "m = scaled_quotient ?n ?d s"
  define neg where "neg = ((num q < 0) \<noteq> (den q < 0))"
  define sg :: rat where "sg = (if neg then - 1 else 1)"
  define X where "X = rat_of_int ?n / of_int ?d * 2 powi s"
  have pos: "0 < ?n" "0 < ?d" using assms(1,2) by simp_all
  have m: "m = llround X" "2 ^ 23 \<le> m" "m < 2 ^ 24" "- 9 \<le> s" "s \<le> 54"
    unfolding X_def m_def s_def using q2intfloat_mantissa [OF pos(1) assms(3) pos(2) assms(4)] by blast+
  have bits: "av_q2intfloat q = (if neg then 2 ^ 31 else 0) + (150 - s) * 2 ^ 23 + (m - 2 ^ 23)"
    unfolding m_def s_def neg_def av_q2intfloat_parts [OF assms(1,2)] by (rule q2intfloat_finite_parts)
  have "av_q2intfloat q = m - 2 ^ 23 + (if neg then 256 + (150 - s) else 150 - s) * 2 ^ 23"
    unfolding bits by (simp add: algebra_simps)
  then have "av_q2intfloat q mod 2 ^ 23 = (m - 2 ^ 23) mod 2 ^ 23" by (simp only: mod_mult_self1)
  then have rest: "av_q2intfloat q mod 2 ^ 23 = m - 2 ^ 23"
    using mod_pos_pos_trivial [of "m - 2 ^ 23" "2 ^ 23"] m(2,3) by simp
  have parts: "float_value (av_q2intfloat q) = sg * of_int m * 2 powi (- s)" "float_exponent (av_q2intfloat q) = 150 - s"
    unfolding bits sg_def using float_bits [of "m - 2 ^ 23" "150 - s" neg] m by simp_all
  have x: "rat_of_int (num q) / of_int (den q) = sg * X * 2 powi (- s)"
    using assms(1,2) by (simp add: X_def sg_def neg_def abs_if power_int_minus)
  have "0 < X" unfolding X_def using pos by simp
  then show thesis using that [of sg X s m] x m parts rest by (simp add: sg_def)
qed

lemma q2intfloat_accurate:
  assumes "num q \<noteq> 0" "den q \<noteq> 0" "\<bar>num q\<bar> \<le> INT_MAX" "\<bar>den q\<bar> \<le> INT_MAX"
  shows "\<bar>float_value (av_q2intfloat q) - of_int (num q) / of_int (den q)\<bar> \<le> 2 powi (float_exponent (av_q2intfloat q) - 150) / 2"
    "1 \<le> float_exponent (av_q2intfloat q)" "float_exponent (av_q2intfloat q) \<le> 254"
proof -
  obtain sg s X m where r: "sg = 1 \<or> sg = - 1" "rat_of_int (num q) / of_int (den q) = sg * X * 2 powi (- s)" "m = llround X"
    "float_value (av_q2intfloat q) = sg * of_int m * 2 powi (- s)" "float_exponent (av_q2intfloat q) = 150 - s" "- 9 \<le> s" "s \<le> 54"
    by (rule q2intfloat_result [OF assms]) blast
  have "float_value (av_q2intfloat q) - of_int (num q) / of_int (den q) = sg * (of_int m - X) * 2 powi (- s)"
    unfolding r(2,4) by (simp add: algebra_simps)
  then have "\<bar>float_value (av_q2intfloat q) - of_int (num q) / of_int (den q)\<bar> = \<bar>of_int m - X\<bar> * 2 powi (- s)"
    using r(1) by (auto simp: abs_mult)
  also have "\<dots> \<le> 1 / 2 * 2 powi (- s)"
    using llround_error [of X] r(3) by (intro mult_right_mono) simp_all
  finally show "\<bar>float_value (av_q2intfloat q) - of_int (num q) / of_int (den q)\<bar> \<le> 2 powi (float_exponent (av_q2intfloat q) - 150) / 2"
    unfolding r(5) by simp
  show "1 \<le> float_exponent (av_q2intfloat q)" "float_exponent (av_q2intfloat q) \<le> 254" using r by simp_all
qed

lemma llround_nearest: "\<bar>of_int (llround X) - X\<bar> \<le> \<bar>of_int z - X\<bar>" for X :: rat
proof (cases "z = llround X")
  case False
  then have "1 \<le> \<bar>rat_of_int z - of_int (llround X)\<bar>" by (simp add: of_int_diff [symmetric] del: of_int_diff)
  then show ?thesis using llround_error [of X] by linarith
qed simp

text \<open>
  From \<open>2 ^ 23\<close> on, the numbers with a mantissa of 24 bits are integers; those of the exponents below
  are not nearer than \<open>2 ^ 23\<close>.
\<close>

lemma mantissa_nearest:
  fixes X :: rat
  assumes "2 ^ 23 \<le> X" "k < 2 ^ 24" "0 \<le> k"
  shows "\<bar>of_int (llround X) - X\<bar> \<le> \<bar>of_int k * 2 powi t - X\<bar>" "\<bar>of_int (llround X) - X\<bar> \<le> \<bar>- (of_int k * 2 powi t) - X\<bar>"
proof -
  show "\<bar>of_int (llround X) - X\<bar> \<le> \<bar>of_int k * 2 powi t - X\<bar>"
  proof (cases "t < 0")
    case True
    then have "(2 :: rat) powi t \<le> 2 powi (- 1)" by (intro power_int_increasing) simp_all
    moreover have "rat_of_int k \<le> of_int (2 ^ 24)" using assms(2) unfolding of_int_le_iff by simp
    ultimately have "rat_of_int k * 2 powi t \<le> of_int (2 ^ 24) * 2 powi (- 1)" using assms(3) by (intro mult_mono) simp_all
    then have "rat_of_int k * 2 powi t \<le> of_int (2 ^ 23)" by (simp add: power_int_minus)
    moreover have "rat_of_int (2 ^ 23) \<le> X" using assms(1) by simp
    ultimately show ?thesis using llround_nearest [of X "2 ^ 23"] by linarith
  next
    case False
    then have "rat_of_int k * 2 powi t = of_int (k * 2 ^ nat t)" by (simp add: power_int_def)
    then show ?thesis using llround_nearest [of X "k * 2 ^ nat t"] by (simp only:)
  qed
  have "0 \<le> rat_of_int k * 2 powi t" using assms(3) by simp
  then show "\<bar>of_int (llround X) - X\<bar> \<le> \<bar>- (of_int k * 2 powi t) - X\<bar>"
    using llround_nearest [of X 0] assms(1) by simp
qed

lemma q2intfloat_nearest:
  assumes "num q \<noteq> 0" "den q \<noteq> 0" "\<bar>num q\<bar> \<le> INT_MAX" "\<bar>den q\<bar> \<le> INT_MAX"
    and "av_q2intfloat q mod 2 ^ 23 \<noteq> 0 \<or> \<bar>float_value (av_q2intfloat q)\<bar> \<le> \<bar>of_int (num q) / of_int (den q)\<bar>"
  shows "\<bar>float_value (av_q2intfloat q) - of_int (num q) / of_int (den q)\<bar> \<le> \<bar>float_value b - of_int (num q) / of_int (den q)\<bar>"
proof -
  obtain sg s X m where r: "sg = 1 \<or> sg = - 1" "rat_of_int (num q) / of_int (den q) = sg * X * 2 powi (- s)" "0 < X" "m = llround X"
    "2 ^ 23 \<le> m" "float_value (av_q2intfloat q) = sg * of_int m * 2 powi (- s)" "av_q2intfloat q mod 2 ^ 23 = m - 2 ^ 23"
    by (rule q2intfloat_result [OF assms(1-4)]) blast
  define P :: rat where "P = 2 powi (- s)"
  define k where "k = 2 ^ 23 + b mod 2 ^ 23"
  define t where "t = b div 2 ^ 23 mod 256 - 150 + s"
  have P: "0 < P" by (simp add: P_def)
  have k: "k < 2 ^ 24" "0 \<le> k" unfolding k_def using pos_mod_bound [of "2 ^ 23" b] pos_mod_sign [of "2 ^ 23" b] by simp_all
  have "m \<noteq> 2 ^ 23 \<or> of_int m \<le> X"
    using assms(5) r(1,3,5) P unfolding r(2,6,7) P_def [symmetric] by (auto simp: abs_mult)
  then have X: "2 ^ 23 \<le> X"
  proof
    assume "m \<noteq> 2 ^ 23"
    with r(5) have "rat_of_int (2 ^ 23 + 1) \<le> of_int m" unfolding of_int_le_iff by simp
    moreover have "rat_of_int (2 ^ 23 + 1) = 2 ^ 23 + 1" by simp
    ultimately show ?thesis using llround_error [of X] unfolding r(4) by linarith
  next
    assume "of_int m \<le> X"
    moreover have "rat_of_int (2 ^ 23) \<le> of_int m" using r(5) unfolding of_int_le_iff .
    ultimately show ?thesis by simp
  qed
  have "float_value b = (if b \<ge> 2 ^ 31 then - 1 else 1) * (of_int k * 2 powi t) * P"
    unfolding float_value_def k_def t_def P_def by (simp add: power_int_add [symmetric])
  then have "float_value b - sg * X * P = sg * (of_int k * 2 powi t - X) * P \<or>
      float_value b - sg * X * P = sg * (- (of_int k * 2 powi t) - X) * P"
    using r(1) by (auto simp: algebra_simps)
  then have y: "\<bar>float_value b - sg * X * P\<bar> = \<bar>of_int k * 2 powi t - X\<bar> * P \<or> \<bar>float_value b - sg * X * P\<bar> = \<bar>- (of_int k * 2 powi t) - X\<bar> * P"
    using r(1) P by (auto simp: abs_mult)
  have "\<bar>sg * of_int m * P - sg * X * P\<bar> = \<bar>of_int m - X\<bar> * P"
  proof -
    have "sg * of_int m * P - sg * X * P = sg * (of_int m - X) * P" by (simp add: algebra_simps)
    then show ?thesis using r(1) P by (auto simp: abs_mult)
  qed
  then show ?thesis unfolding r(2,6) P_def [symmetric] r(4)
    using y mantissa_nearest [OF X k, of t] P by (auto intro: mult_right_mono)
qed

text \<open>A negative infinity loses its sign.\<close>

lemma av_q2intfloat_infinity:
  "av_q2intfloat \<lparr>num = 1, den = 0\<rparr> = 0x7F800000" "av_q2intfloat \<lparr>num = - 1, den = 0\<rparr> = 0x7F800000"
  by (simp_all add: av_q2intfloat_def has_flag_def)

text \<open>
  A fraction just below a power of two is rounded up to it although a number of the finer scale below
  is nearer: \<open>0x3F7FFFFF\<close> in this case.
\<close>

lemma scaled_quotient_demo: "scaled_quotient (2 ^ 24 + 1) (2 ^ 24 + 2) 23 = 2 ^ 23"
proof -
  have "\<lfloor>(140737496743936 :: rat) / 16777218 + 1 / 2\<rfloor> = 8388608" by (intro floor_unique) simp_all
  then show ?thesis
    using scaled_quotient_value [of "2 ^ 24 + 1" "2 ^ 24 + 2" 23] by (simp add: llround_def)
qed

lemma scaled_quotient_third: "scaled_quotient 1 3 24 = 5592405" "scaled_quotient 1 3 25 = 11184811"
proof -
  have "\<lfloor>(16777216 :: rat) / 3 + 1 / 2\<rfloor> = 5592405" "\<lfloor>(33554432 :: rat) / 3 + 1 / 2\<rfloor> = 11184811" by (intro floor_unique; simp)+
  then show "scaled_quotient 1 3 24 = 5592405" "scaled_quotient 1 3 25 = 11184811"
    using scaled_quotient_value [of 1 3 24] scaled_quotient_value [of 1 3 25] by (simp_all add: llround_def)
qed

lemma av_q2intfloat_third: "av_q2intfloat \<lparr>num = 1, den = - 3\<rparr> = 0xBEAAAAAB"
proof -
  have "av_log2 1 = 0" "av_log2 3 = 1" by (simp_all add: av_log2.simps)
  then show ?thesis using scaled_quotient_third by (simp add: av_q2intfloat_def q2intfloat_finite_def)
qed

lemma av_q2intfloat_not_nearest:
  "av_q2intfloat \<lparr>num = 2 ^ 24 + 1, den = 2 ^ 24 + 2\<rparr> = 0x3F800000"
  "\<bar>float_value 0x3F7FFFFF - of_int (2 ^ 24 + 1) / of_int (2 ^ 24 + 2)\<bar> < \<bar>float_value 0x3F800000 - of_int (2 ^ 24 + 1) / of_int (2 ^ 24 + 2)\<bar>"
proof -
  have "av_log2 (2 ^ 24 + 1) = 24" "av_log2 (2 ^ 24 + 2) = 24" by (simp_all add: av_log2.simps)
  then show "av_q2intfloat \<lparr>num = 2 ^ 24 + 1, den = 2 ^ 24 + 2\<rparr> = 0x3F800000"
    using scaled_quotient_demo by (simp add: av_q2intfloat_def q2intfloat_finite_def)
qed (simp add: float_value_def power_int_minus)

text \<open>The default is also taken when the common denominator is exactly \<open>max_den\<close>.\<close>

lemma av_gcd_q_at_limit: "av_gcd_q \<lparr>num = 1, den = 3\<rparr> \<lparr>num = 1, den = 2\<rparr> 6 def = def"
proof -
  have "av_gcd 3 2 = 1" by (simp add: av_gcd_eq in_i64_def i64_id)
  then show ?thesis by (simp add: av_gcd_q_def c_div_def)
qed

section \<open>Properties\<close>

text \<open>
  Property C8: \<open>av_reduce\<close> is the best approximation. Whatever the fraction and the bound, the
  result is in lowest terms and within the bound, no fraction within the bound is nearer to \<open>n / d\<close>,
  and the flag it returns says whether the result is exact.
\<close>

theorem av_reduce_best:
  assumes "d \<noteq> 0" "\<bar>n\<bar> \<le> INT64_MAX" "\<bar>d\<bar> \<le> INT64_MAX" "1 \<le> maxi" "maxi \<le> INT_MAX"
  shows "\<exists>q exact. av_reduce n d maxi = (q, exact) \<and> \<bar>num q\<bar> \<le> maxi \<and> 0 < den q \<and> den q \<le> maxi \<and>
    coprime (num q) (den q) \<and> (exact \<longleftrightarrow> rat_of q = of_int n / of_int d) \<and>
    (\<forall>r. \<bar>num r\<bar> \<le> maxi \<longrightarrow> 0 < den r \<longrightarrow> den r \<le> maxi \<longrightarrow>
       \<bar>of_int n / of_int d - rat_of q\<bar> \<le> \<bar>of_int n / of_int d - rat_of r\<bar>)"
proof (cases "av_reduce n d maxi")
  case (Pair q exact)
  with av_reduce_nearest [OF assms] have "nearest_fraction maxi (of_int n / of_int d) q"
    "exact \<longleftrightarrow> rat_of q = of_int n / of_int d" by simp_all
  with Pair show ?thesis unfolding nearest_fraction_def fits_def by blast
qed

theorem av_reduce_best_witness:
  "\<exists>q exact. av_reduce 314159265 100000000 100 = (q, exact) \<and> \<bar>num q\<bar> \<le> 100 \<and> 0 < den q \<and> den q \<le> 100 \<and>
    coprime (num q) (den q) \<and> (exact \<longleftrightarrow> rat_of q = of_int 314159265 / of_int 100000000) \<and>
    (\<forall>r. \<bar>num r\<bar> \<le> 100 \<longrightarrow> 0 < den r \<longrightarrow> den r \<le> 100 \<longrightarrow>
       \<bar>of_int 314159265 / of_int 100000000 - rat_of q\<bar> \<le> \<bar>of_int 314159265 / of_int 100000000 - rat_of r\<bar>)"
  by (rule av_reduce_best) simp_all

text \<open>
  Property C9: sums, differences, products and quotients of fractions are rounded correctly: the
  result is the exact value when that is a fraction of \<open>int\<close>s, and otherwise no fraction of \<open>int\<close>s
  is nearer to it. No intermediate result overflows.
\<close>

theorem rational_arithmetic_nearest:
  assumes "fraction_ok p" "fraction_ok q"
  shows "nearest_fraction INT_MAX (rat_of p * rat_of q) (av_mul_q p q) \<and>
    nearest_fraction INT_MAX (rat_of p + rat_of q) (av_add_q p q) \<and>
    nearest_fraction INT_MAX (rat_of p - rat_of q) (av_sub_q p q) \<and>
    (num q \<noteq> 0 \<longrightarrow> nearest_fraction INT_MAX (rat_of p / rat_of q) (av_div_q p q))"
  using arithmetic_nearest [OF assms] by blast

theorem rational_arithmetic_nearest_witness:
  "nearest_fraction INT_MAX (1001 / 30000 * (2147483647 / 3)) (av_mul_q \<lparr>num = 1001, den = 30000\<rparr> \<lparr>num = 2147483647, den = 3\<rparr>)"
  using rational_arithmetic_nearest [of "\<lparr>num = 1001, den = 30000\<rparr>" "\<lparr>num = 2147483647, den = 3\<rparr>"]
  by (simp add: fraction_ok_def rat_of_def)

text \<open>
  \<open>av_find_nearest_q_idx\<close> returns the index of the first of the fractions that are
  nearest to \<open>q\<close>, for every list that ends with a denominator of zero.
\<close>

theorem find_nearest_is_nearest:
  assumes "fraction_ok q" "list \<noteq> []" "\<forall>r\<in>set list. fraction_ok r" "den stop = 0"
  shows "\<exists>i. av_find_nearest_q_idx q (list @ stop # after) = Some i \<and> i < length list \<and>
    (\<forall>k<length list. \<bar>rat_of q - rat_of (list ! i)\<bar> \<le> \<bar>rat_of q - rat_of (list ! k)\<bar>) \<and>
    (\<forall>k<i. \<bar>rat_of q - rat_of (list ! i)\<bar> < \<bar>rat_of q - rat_of (list ! k)\<bar>)"
proof -
  obtain r rs where list: "list = r # rs" using assms(2) by (cases list) auto
  with assms(3) have r: "fraction_ok r" "den r \<noteq> 0" by (auto simp: fraction_ok_def)
  have "av_nearer_q q r r = 0" using av_nearer_q_correct [OF assms(1) r(1) r(1)] by simp
  with r list show ?thesis
    using nearest_from_correct [of q "[r]" rs stop 0 after] assms by (simp add: av_find_nearest_q_idx_def farther_def)
qed

theorem find_nearest_is_nearest_witness:
  "\<exists>i. av_find_nearest_q_idx \<lparr>num = 7, den = 16\<rparr> ([\<lparr>num = 1, den = 4\<rparr>, \<lparr>num = 1, den = 2\<rparr>] @ \<lparr>num = 0, den = 0\<rparr> # []) = Some i \<and> i < 2"
  using find_nearest_is_nearest [of "\<lparr>num = 7, den = 16\<rparr>" "[\<lparr>num = 1, den = 4\<rparr>, \<lparr>num = 1, den = 2\<rparr>]" "\<lparr>num = 0, den = 0\<rparr>" "[]"]
  by (auto simp: fraction_ok_def)

text \<open>
  Property C10: the bits \<open>av_q2intfloat\<close> returns are those of a normal single precision number that is
  at most half a unit in its last place away from the fraction. No normal number is nearer, except
  when the result is a power of two above the fraction's absolute value, where numbers below it have
  a finer last place that the function does not use. Its assertions hold.
\<close>

theorem q2intfloat_rounded:
  assumes "num q \<noteq> 0" "den q \<noteq> 0" "\<bar>num q\<bar> \<le> INT_MAX" "\<bar>den q\<bar> \<le> INT_MAX"
    and "u = av_q2intfloat q" "x = of_int (num q) / of_int (den q)"
  shows "\<bar>float_value u - x\<bar> \<le> 2 powi (float_exponent u - 150) / 2 \<and> 1 \<le> float_exponent u \<and> float_exponent u \<le> 254 \<and>
    (u mod 2 ^ 23 \<noteq> 0 \<or> \<bar>float_value u\<bar> \<le> \<bar>x\<bar> \<longrightarrow>
      (\<forall>b. 1 \<le> float_exponent b \<longrightarrow> float_exponent b \<le> 254 \<longrightarrow> \<bar>float_value u - x\<bar> \<le> \<bar>float_value b - x\<bar>))"
  unfolding assms(5,6) using q2intfloat_accurate [OF assms(1-4)] q2intfloat_nearest [OF assms(1-4)] by blast

theorem q2intfloat_rounded_witness:
  "av_q2intfloat \<lparr>num = 1, den = - 3\<rparr> = 0xBEAAAAAB \<and>
    \<bar>float_value 0xBEAAAAAB - of_int 1 / of_int (- 3)\<bar> \<le> 2 powi (float_exponent 0xBEAAAAAB - 150) / 2 \<and>
    \<bar>float_value 0xBEAAAAAB - of_int 1 / of_int (- 3)\<bar> \<le> \<bar>float_value 0xBEAAAAAA - of_int 1 / of_int (- 3)\<bar>"
proof -
  let ?q = "\<lparr>num = 1, den = - 3\<rparr>"
  have n: "1 \<le> float_exponent 0xBEAAAAAA \<and> float_exponent 0xBEAAAAAA \<le> 254" by (simp add: float_exponent_def)
  have "(0xBEAAAAAB :: int) mod 2 ^ 23 \<noteq> 0" by simp
  then show ?thesis
    using q2intfloat_rounded [of ?q, OF _ _ _ _ av_q2intfloat_third [symmetric] refl] n av_q2intfloat_third by simp
qed

end
