(* ===== verification/Target.thy ===== *)
theory Target
  imports Rescale
begin

text \<open>
  \<open>target_timestamp_for_stream\<close> of \<open>ffmpeg/jni/ffmpeg_thumbnail_jni.c\<close>: the time stamp of
  the frame the thumbnail is taken from, a fraction of the stream's duration computed in
  \<open>double\<close>. A signed overflow, undefined in C, is \<open>None\<close>.
\<close>

text \<open>The fields the function reads of \<open>AVFormatContext\<close> and \<open>AVStream\<close>.\<close>

record av_format =
  fmt_duration :: int
  fmt_start_time :: int

record av_stream =
  st_duration :: int
  st_start_time :: int
  st_time_base :: AVRational

definition AV_TIME_BASE_Q :: AVRational where
  "AV_TIME_BASE_Q = \<lparr>num = 1, den = 1000000\<rparr>"

definition add_i64 :: "int \<Rightarrow> int \<Rightarrow> int option" where
  "add_i64 a b = (if in_i64 (a + b) then Some (a + b) else None)"

text \<open>
  Lines 256 to 263: a fraction that is not finite becomes one third, and it is cut to the range
  from 0.02 to 0.98; the C constants are the doubles nearest to these numbers.
\<close>

definition clamp_fraction :: "f64 \<Rightarrow> rat" where
  "clamp_fraction target_fraction =
     (let target_fraction = (case target_fraction of Fin x \<Rightarrow> x | _ \<Rightarrow> b64 (b64 1 / b64 3)) in
      if target_fraction < b64 (2 / 100) then b64 (2 / 100)
      else if target_fraction > b64 (98 / 100) then b64 (98 / 100)
      else target_fraction)"

text \<open>\<open>llround(duration * fraction)\<close>: the duration is converted to \<open>double\<close> first.\<close>

definition scaled_duration :: "int \<Rightarrow> rat \<Rightarrow> int" where
  "scaled_duration duration fraction = i64 (llround (b64 (b64 (of_int duration) * fraction)))"

definition target_timestamp_for_stream :: "av_format \<Rightarrow> av_stream \<Rightarrow> f64 \<Rightarrow> int option" where
  "target_timestamp_for_stream format stream target_fraction =
     (let target_fraction = clamp_fraction target_fraction in
      if st_duration stream \<noteq> AV_NOPTS_VALUE \<and> st_duration stream > 0 then
        let start = (if st_start_time stream = AV_NOPTS_VALUE then 0 else st_start_time stream)
        in add_i64 start (scaled_duration (st_duration stream) target_fraction)
      else if fmt_duration format \<noteq> AV_NOPTS_VALUE \<and> fmt_duration format > 0 then
        let start_us = (if fmt_start_time format = AV_NOPTS_VALUE then 0 else fmt_start_time format)
        in case add_i64 start_us (scaled_duration (fmt_duration format) target_fraction) of
             None \<Rightarrow> None
           | Some target_us \<Rightarrow> Some (av_rescale_q target_us AV_TIME_BASE_Q (st_time_base stream))
      else Some AV_NOPTS_VALUE)"

section \<open>The scaled duration\<close>

lemma clamp_values:
  "b64 (2 / 100) = 5764607523034235 / 288230376151711744"
  "b64 (98 / 100) = 8827055269646172 / 9007199254740992"
  "b64 (1 / 3) = 6004799503160661 / 18014398509481984"
  by (simp_all add: b64_eval [where e = "- 6"] b64_eval [where e = "- 1"] b64_eval [where e = "- 2"] b64_compute)

lemma clamp_fraction_bounds:
  "5764607523034235 / 288230376151711744 \<le> clamp_fraction f"
  "clamp_fraction f \<le> 8827055269646172 / 9007199254740992"
proof -
  have c: "l \<le> (if x < l then l else if x > h then h else x)" "(if x < l then l else if x > h then h else x) \<le> h"
    if "l \<le> h" for x l h :: rat using that by (auto simp: not_less)
  have "(5764607523034235 / 288230376151711744 :: rat) \<le> 8827055269646172 / 9007199254740992" by simp
  note c [OF this]
  then show "5764607523034235 / 288230376151711744 \<le> clamp_fraction f"
    "clamp_fraction f \<le> 8827055269646172 / 9007199254740992"
    unfolding clamp_fraction_def Let_def clamp_values by blast+
qed

lemma clamp_fraction_range: "1 / 2 ^ 6 \<le> clamp_fraction f" "clamp_fraction f \<le> 1 - 1 / 2 ^ 6"
proof -
  have "(1 / 2 ^ 6 :: rat) \<le> 5764607523034235 / 288230376151711744" by simp
  also note clamp_fraction_bounds(1)
  finally show "1 / 2 ^ 6 \<le> clamp_fraction f" .
  note clamp_fraction_bounds(2)
  also have "8827055269646172 / 9007199254740992 \<le> (1 - 1 / 2 ^ 6 :: rat)" by simp
  finally show "clamp_fraction f \<le> 1 - 1 / 2 ^ 6" .
qed

text \<open>Two roundings of a positive product.\<close>

lemma rounded_product:
  assumes d: "1 \<le> (d :: rat)" and f: "1 / 2 ^ 6 \<le> f" "f \<le> 1"
  shows "d * f - d / 2 ^ 51 \<le> b64 (b64 d * f)" "b64 (b64 d * f) \<le> d * f + d / 2 ^ 51"
proof -
  define e :: rat where "e = 1 / 2 ^ 53"
  have e: "0 < e" "e < 1 / 2" by (simp_all add: e_def)
  have d0: "0 \<le> d" and f0: "0 \<le> f"
    using d f(1) by (simp, intro order_trans [OF _ f(1)]) simp
  have "1 / 2 ^ 200 \<le> (1 :: rat)" by simp
  then have small: "1 / 2 ^ 200 \<le> d" using d by (rule order_trans)
  have s: "d * (1 - e) \<le> b64 d" "b64 d \<le> d * (1 + e)"
    using dbl.near [OF small] by (simp_all only: e_def)
  define p where "p = b64 d * f"
  have p: "d * (1 - e) * f \<le> p" "p \<le> d * (1 + e) * f"
    unfolding p_def by (intro mult_right_mono s f0)+
  have "1 / 2 ^ 200 \<le> 1 * (1 - 1 / 2) * (1 / 2 ^ 6 :: rat)" by simp
  also have "\<dots> \<le> d * (1 - e) * f" using d f e d0 by (intro mult_mono) simp_all
  also note p(1)
  finally have "1 / 2 ^ 200 \<le> p" .
  from dbl.near [OF this, folded e_def]
  have q: "p * (1 - e) \<le> b64 p" "b64 p \<le> p * (1 + e)" .
  define g where "g = d * f"
  have g: "0 \<le> g" "g \<le> d" using d0 f0 f(2) by (simp_all add: g_def mult_left_le)
  have bound: "g * (2 * e + e * e) \<le> d / 2 ^ 51"
  proof -
    have "g * (2 * e + e * e) \<le> d * (2 * e + e * e)" using g e by (intro mult_right_mono) simp_all
    also have "\<dots> \<le> d * (1 / 2 ^ 51)" using d0 by (intro mult_left_mono) (simp_all add: e_def)
    finally show ?thesis by simp
  qed
  have "g - g * (2 * e + e * e) \<le> d * (1 - e) * f * (1 - e)"
  proof -
    have "d * (1 - e) * f * (1 - e) = g - g * (2 * e + e * e) + 2 * (g * (e * e))"
      by (simp add: g_def algebra_simps)
    moreover have "0 \<le> g * (e * e)" using g(1) by simp
    ultimately show ?thesis by linarith
  qed
  also have "\<dots> \<le> p * (1 - e)" using p(1) e by (intro mult_right_mono) simp_all
  also note q(1)
  finally show "d * f - d / 2 ^ 51 \<le> b64 (b64 d * f)"
    using bound unfolding g_def p_def by linarith
  have "p * (1 + e) \<le> d * (1 + e) * f * (1 + e)" using p(2) e by (intro mult_right_mono) simp_all
  also have "\<dots> = g + g * (2 * e + e * e)" by (simp add: g_def algebra_simps)
  finally show "b64 (b64 d * f) \<le> d * f + d / 2 ^ 51"
    using q(2) bound unfolding g_def p_def by linarith
qed

lemma scaled_duration_spec:
  assumes "0 < d" "d \<le> INT64_MAX"
  shows "0 \<le> scaled_duration d (clamp_fraction f)" (is "0 \<le> ?s")
    and "scaled_duration d (clamp_fraction f) \<le> d"
    and "\<bar>of_int (scaled_duration d (clamp_fraction f)) - of_int d * clamp_fraction f\<bar>
          \<le> 1 / 2 + of_int d / 2 ^ 51"
proof -
  define x :: rat where "x = of_int d"
  define g where "g = clamp_fraction f"
  define p where "p = b64 (b64 x * g)"
  have x: "1 \<le> x" using assms(1) by (simp add: x_def)
  have g: "1 / 2 ^ 6 \<le> g" "g \<le> 1 - 1 / 2 ^ 6" unfolding g_def by (rule clamp_fraction_range)+
  have "1 - 1 / 2 ^ 6 \<le> (1 :: rat)" by simp
  with g(2) have "g \<le> 1" by (rule order_trans)
  note p = rounded_product [OF x g(1) this, folded p_def]
  have lo: "x * (1 / 2 ^ 6) \<le> x * g" using x g(1) by (intro mult_left_mono) simp_all
  have hi: "x * g \<le> x * (1 - 1 / 2 ^ 6)" using x g(2) by (intro mult_left_mono) simp_all
  have "x / 2 ^ 51 \<le> x * (1 / 2 ^ 6)" using x by simp
  then have p0: "of_int 0 \<le> p" using lo p(1) by simp
  have "x * (1 - 1 / 2 ^ 6) + x / 2 ^ 51 \<le> x" using x by (simp add: right_diff_distrib)
  then have p1: "p \<le> of_int d" using hi p(2) unfolding x_def [symmetric] by linarith
  have l: "0 \<le> llround p" "llround p \<le> d"
    using llround_ge_int [OF p0] llround_mono_int [OF p1] by simp_all
  then have s: "scaled_duration d (clamp_fraction f) = llround p"
    using assms(2) by (simp add: scaled_duration_def i64_id in_i64_def p_def x_def g_def)
  show "0 \<le> ?s" "?s \<le> d" using l by (simp_all only: s)
  have "\<bar>of_int (llround p) - p\<bar> \<le> 1 / 2" by (rule llround_near)
  with p show "\<bar>of_int (scaled_duration d (clamp_fraction f)) - of_int d * clamp_fraction f\<bar>
      \<le> 1 / 2 + of_int d / 2 ^ 51"
    unfolding s unfolding x_def [symmetric] g_def [symmetric] by linarith
qed

text \<open>
  For a stream with a duration whose end is representable, the target exists, lies
  between the start and the end of the stream, and is within half a tick, plus the rounding
  error of \<open>double\<close>, of the requested (clamped) fraction of the duration.
\<close>

theorem target_timestamp_inside_stream:
  assumes "0 < st_duration st" "st_duration st \<le> INT64_MAX"
    and "start = (if st_start_time st = AV_NOPTS_VALUE then 0 else st_start_time st)"
    and "in_i64 start" "start + st_duration st \<le> INT64_MAX"
  shows "\<exists>t. target_timestamp_for_stream fmt st fraction = Some t \<and> start \<le> t \<and> t \<le> start + st_duration st \<and>
        \<bar>of_int (t - start) - of_int (st_duration st) * clamp_fraction fraction\<bar>
          \<le> 1 / 2 + of_int (st_duration st) / 2 ^ 51"
proof -
  note s = scaled_duration_spec [OF assms(1,2), of fraction]
  have "in_i64 (start + scaled_duration (st_duration st) (clamp_fraction fraction))"
    using s(1,2) assms(4,5) unfolding in_i64_def by linarith
  then have "target_timestamp_for_stream fmt st fraction
      = Some (start + scaled_duration (st_duration st) (clamp_fraction fraction))"
    using assms(1,3) unfolding target_timestamp_for_stream_def Let_def
    by (simp add: add_i64_def)
  with s show ?thesis by (simp)
qed

theorem target_timestamp_inside_stream_witness:
  "\<exists>t. target_timestamp_for_stream \<lparr>fmt_duration = 0, fmt_start_time = 0\<rparr>
         \<lparr>st_duration = 9000, st_start_time = 100, st_time_base = \<lparr>num = 1, den = 1000\<rparr>\<rparr> NaN = Some t \<and>
       100 \<le> t \<and> t \<le> 9100"
  using target_timestamp_inside_stream [where fraction = NaN and start = 100 and
      st = "\<lparr>st_duration = 9000, st_start_time = 100, st_time_base = \<lparr>num = 1, den = 1000\<rparr>\<rparr>" and
      fmt = "\<lparr>fmt_duration = 0, fmt_start_time = 0\<rparr>"]
  by (auto simp: in_i64_def)

text \<open>
  When only the container has a duration, the target is the same fraction of that
  duration, taken in microseconds and converted to the nearest tick of the stream's time base;
  with no duration at all there is no target (\<open>AV_NOPTS_VALUE\<close>).
\<close>

theorem target_timestamp_from_container:
  assumes "st_duration st = AV_NOPTS_VALUE \<or> st_duration st \<le> 0"
  shows "(fmt_duration fmt \<le> 0 \<longrightarrow> target_timestamp_for_stream fmt st fraction = Some AV_NOPTS_VALUE) \<and>
    (0 < fmt_duration fmt \<and> fmt_duration fmt \<le> INT64_MAX \<and> 0 \<le> fmt_start_time fmt \<and>
     fmt_start_time fmt + fmt_duration fmt \<le> INT64_MAX \<and> time_base_ok (st_time_base st) \<longrightarrow>
     (\<exists>target_us. fmt_start_time fmt \<le> target_us \<and> target_us \<le> fmt_start_time fmt + fmt_duration fmt \<and>
        \<bar>of_int (target_us - fmt_start_time fmt) - of_int (fmt_duration fmt) * clamp_fraction fraction\<bar>
          \<le> 1 / 2 + of_int (fmt_duration fmt) / 2 ^ 51 \<and>
        target_timestamp_for_stream fmt st fraction =
          Some (saturated (llround (of_int target_us * (1 / 1000000) / rat_of (st_time_base st))))))"
proof (intro conjI impI)
  assume "fmt_duration fmt \<le> 0"
  with assms show "target_timestamp_for_stream fmt st fraction = Some AV_NOPTS_VALUE"
    by (auto simp: target_timestamp_for_stream_def Let_def)
next
  assume a: "0 < fmt_duration fmt \<and> fmt_duration fmt \<le> INT64_MAX \<and> 0 \<le> fmt_start_time fmt \<and>
     fmt_start_time fmt + fmt_duration fmt \<le> INT64_MAX \<and> time_base_ok (st_time_base st)"
  define r where "r = scaled_duration (fmt_duration fmt) (clamp_fraction fraction)"
  have r: "0 \<le> r" "r \<le> fmt_duration fmt"
    "\<bar>of_int r - of_int (fmt_duration fmt) * clamp_fraction fraction\<bar> \<le> 1 / 2 + of_int (fmt_duration fmt) / 2 ^ 51"
    unfolding r_def using scaled_duration_spec [of "fmt_duration fmt" fraction] a by blast+
  define t where "t = fmt_start_time fmt + r"
  have t: "0 \<le> t" "t \<le> INT64_MAX" using r a unfolding t_def by linarith+
  have "target_timestamp_for_stream fmt st fraction = Some (av_rescale_q t AV_TIME_BASE_Q (st_time_base st))"
    using assms a t unfolding target_timestamp_for_stream_def Let_def r_def [symmetric]
    by (auto simp: add_i64_def in_i64_def t_def)
  also have "av_rescale_q t AV_TIME_BASE_Q (st_time_base st)
      = saturated (llround (of_int t * rat_of AV_TIME_BASE_Q / rat_of (st_time_base st)))"
    using t a by (intro av_rescale_q_value) (simp_all add: time_base_ok_def AV_TIME_BASE_Q_def in_i64_def)
  also have "rat_of AV_TIME_BASE_Q = 1 / 1000000" by (simp add: rat_of_def AV_TIME_BASE_Q_def)
  finally have "target_timestamp_for_stream fmt st fraction =
      Some (saturated (llround (of_int t * (1 / 1000000) / rat_of (st_time_base st))))" .
  moreover have "fmt_start_time fmt \<le> t" "t \<le> fmt_start_time fmt + fmt_duration fmt" "t - fmt_start_time fmt = r"
    using r by (simp_all add: t_def)
  ultimately show "\<exists>target_us. fmt_start_time fmt \<le> target_us \<and> target_us \<le> fmt_start_time fmt + fmt_duration fmt \<and>
        \<bar>of_int (target_us - fmt_start_time fmt) - of_int (fmt_duration fmt) * clamp_fraction fraction\<bar>
          \<le> 1 / 2 + of_int (fmt_duration fmt) / 2 ^ 51 \<and>
        target_timestamp_for_stream fmt st fraction =
          Some (saturated (llround (of_int target_us * (1 / 1000000) / rat_of (st_time_base st))))"
    using r(3) by metis
qed

theorem target_timestamp_from_container_witness:
  "target_timestamp_for_stream \<lparr>fmt_duration = 0, fmt_start_time = 0\<rparr>
     \<lparr>st_duration = 0, st_start_time = 100, st_time_base = \<lparr>num = 1, den = 1000\<rparr>\<rparr> NaN = Some AV_NOPTS_VALUE \<and>
   (\<exists>target_us. 5 \<le> target_us \<and> target_us \<le> 5 + 9000000 \<and>
      target_timestamp_for_stream \<lparr>fmt_duration = 9000000, fmt_start_time = 5\<rparr>
        \<lparr>st_duration = 0, st_start_time = 100, st_time_base = \<lparr>num = 1, den = 1000\<rparr>\<rparr> NaN =
        Some (saturated (llround (of_int target_us * (1 / 1000000) / rat_of \<lparr>num = 1, den = 1000\<rparr>))))"
  using target_timestamp_from_container [of "\<lparr>st_duration = 0, st_start_time = 100, st_time_base = \<lparr>num = 1, den = 1000\<rparr>\<rparr>"
      "\<lparr>fmt_duration = 0, fmt_start_time = 0\<rparr>" NaN]
    target_timestamp_from_container [of "\<lparr>st_duration = 0, st_start_time = 100, st_time_base = \<lparr>num = 1, den = 1000\<rparr>\<rparr>"
      "\<lparr>fmt_duration = 9000000, fmt_start_time = 5\<rparr>" NaN]
  by (simp add: time_base_ok_def del: of_int_diff) blast

end
