(* ===== verification/Decode.thy ===== *)
theory Decode
  imports JavaIO
begin

text \<open>
  The decode loop of \<open>ffmpeg/jni/ffmpeg_thumbnail_jni.c\<close>: \<open>is_usable_frame\<close>,
  \<open>consider_decoded_frame\<close> and \<open>decode_thumbnail_frame\<close>. The demuxer, the decoder, the
  allocator and the clock are a parameter, the record \<open>codec_ops\<close> of their calls on a world
  \<open>'w\<close>; the I/O context they reach through the callbacks of \<open>JavaIO\<close> is read from the
  world. The loop reads packets of other streams without counting them, so it is bounded only
  by the deadline: its model takes fuel, and \<open>decode_returns_by_deadline\<close> gives enough of it.
\<close>

section \<open>Frames and the calls into FFmpeg\<close>

text \<open>The fields of \<open>AVFrame\<close> the code reads; \<open>fr_data\<close> stands for the picture.\<close>

record av_frame =
  fr_width :: int
  fr_height :: int
  fr_format :: int
  fr_flags :: int
  best_effort_timestamp :: int
  fr_data :: "byte list"

definition AV_FRAME_FLAG_CORRUPT :: int where
  "AV_FRAME_FLAG_CORRUPT = 1"

text \<open>A frame after \<open>av_frame_alloc\<close> or \<open>av_frame_unref\<close> (\<open>get_frame_defaults\<close>).\<close>

definition blank_frame :: av_frame where
  "blank_frame = \<lparr>fr_width = 0, fr_height = 0, fr_format = - 1, fr_flags = 0,
     best_effort_timestamp = AV_NOPTS_VALUE, fr_data = []\<rparr>"

text \<open>
  \<open>read_frame\<close> gives the return code and the packet's stream index; \<open>send_packet True\<close> sends
  the packet, \<open>send_packet False\<close> is \<open>avcodec_send_packet(decoder, NULL)\<close>; \<open>receive_frame\<close>
  gives the return code and the frame; \<open>frame_ref\<close> is the return code of \<open>av_frame_ref\<close>.
\<close>

record 'w codec_ops =
  packet_alloc :: "'w \<Rightarrow> bool \<times> 'w"
  frame_alloc :: "'w \<Rightarrow> bool \<times> 'w"
  read_frame :: "'w \<Rightarrow> int \<times> int \<times> 'w"
  send_packet :: "bool \<Rightarrow> 'w \<Rightarrow> int \<times> 'w"
  receive_frame :: "'w \<Rightarrow> int \<times> av_frame \<times> 'w"
  frame_ref :: "av_frame \<Rightarrow> 'w \<Rightarrow> int \<times> 'w"
  gettime :: "'w \<Rightarrow> int \<times> 'w"
  io_context :: "'w \<Rightarrow> java_avio option"

datatype resource =
  Packet | Decoded_Frame | Candidate_Frame | Avio_Buffer | Avio_Context | Format_Context | Format_Options
  | Decoder_Context | Rgba_Image | Scaler | Pixel_Lock

text \<open>
  The locals of \<open>decode_thumbnail_frame\<close>. \<open>live\<close> (the resources held), \<open>received\<close> (the
  frames the decoder has returned, in order) and \<open>cut_off\<close> (whether a test for an interruption has
  ended the work) are history the code does not read.
\<close>

record 'w decode_state =
  world :: 'w
  candidate :: av_frame
  decoded :: av_frame
  selected :: bool
  video_packets :: int
  decoded_frames :: int
  read_result :: int
  live :: "resource list"
  received :: "av_frame list"
  cut_off :: bool

definition MAX_VIDEO_PACKETS :: int where "MAX_VIDEO_PACKETS = 12000"
definition MAX_DECODED_FRAMES :: int where "MAX_DECODED_FRAMES = 1200"

section \<open>Operations\<close>

definition is_usable_frame :: "av_frame \<Rightarrow> bool" where
  "is_usable_frame frame \<longleftrightarrow> fr_width frame > 0 \<and> fr_height frame > 0 \<and> fr_format frame \<ge> 0 \<and>
     fr_flags frame mod 2 = 0"

definition at_target :: "int \<Rightarrow> av_frame \<Rightarrow> bool" where
  "at_target target frame \<longleftrightarrow> target = AV_NOPTS_VALUE \<or> best_effort_timestamp frame = AV_NOPTS_VALUE \<or>
     best_effort_timestamp frame \<ge> target"

definition consider_decoded_frame ::
  "'w codec_ops \<Rightarrow> int \<Rightarrow> 'w decode_state \<Rightarrow> int \<times> 'w decode_state" where
  "consider_decoded_frame ops target_timestamp s =
     (if \<not> is_usable_frame (decoded s) then (0, s)
      else
        case frame_ref ops (decoded s) (world s) of (ref_result, w) \<Rightarrow>
          if ref_result < 0 then (ref_result, s\<lparr>world := w, candidate := blank_frame\<rparr>)
          else (0, s\<lparr>world := w, candidate := decoded s,
                     selected := selected s \<or> at_target target_timestamp (decoded s)\<rparr>))"

definition interrupted :: "'w codec_ops \<Rightarrow> 'w \<Rightarrow> bool \<times> 'w" where
  "interrupted ops w = (case gettime ops w of (t, w) \<Rightarrow> (ffmpeg_interrupt t (io_context ops w), w))"

text \<open>
  One round of either \<open>for (;;)\<close> loop up to its exit tests: \<open>Inl None\<close> leaves the loop,
  \<open>Inl (Some e)\<close> is the early return of the function with \<open>e\<close>. \<open>count\<close> says whether the
  round counts its frame.
\<close>

definition receive_one ::
  "bool \<Rightarrow> 'w codec_ops \<Rightarrow> int \<Rightarrow> 'w decode_state \<Rightarrow> int option option \<times> 'w decode_state" where
  "receive_one count ops target_timestamp s =
     (case receive_frame ops (world s) of (receive_result, frame, w) \<Rightarrow>
        if receive_result < 0 then (Some None, s\<lparr>world := w\<rparr>)
        else
          case consider_decoded_frame ops target_timestamp
                 (s\<lparr>world := w, decoded := frame, received := received s @ [frame],
                    decoded_frames := decoded_frames s + (if count then 1 else 0)\<rparr>)
          of (consider_result, s) \<Rightarrow>
            (if consider_result < 0 then Some (Some consider_result) else None,
             s\<lparr>decoded := blank_frame\<rparr>))"

lemma decoded_frames_consider:
  "decoded_frames (snd (consider_decoded_frame ops t s)) = decoded_frames s"
  by (simp add: consider_decoded_frame_def split: prod.split)

text \<open>The state handed to \<open>consider_decoded_frame\<close> in one round.\<close>

definition with_frame :: "bool \<Rightarrow> av_frame \<Rightarrow> 'w \<Rightarrow> 'w decode_state \<Rightarrow> 'w decode_state" where
  "with_frame count frame w s = s\<lparr>world := w, decoded := frame, received := received s @ [frame],
     decoded_frames := decoded_frames s + (if count then 1 else 0)\<rparr>"

lemma receive_one_cases:
  assumes "receive_one count ops t s = (r, s')"
  obtains (stop) e frame w where "receive_frame ops (world s) = (e, frame, w)" "e < 0" "r = Some None"
      "s' = s\<lparr>world := w\<rparr>"
    | (frame) e frame w c u where "receive_frame ops (world s) = (e, frame, w)" "0 \<le> e"
      "consider_decoded_frame ops t (with_frame count frame w s) = (c, u)"
      "r = (if c < 0 then Some (Some c) else None)" "s' = u\<lparr>decoded := blank_frame\<rparr>"
proof -
  obtain e frame w where recv: "receive_frame ops (world s) = (e, frame, w)" by (metis prod_cases3)
  obtain c u where cons: "consider_decoded_frame ops t (with_frame count frame w s) = (c, u)"
    by (metis surj_pair)
  show ?thesis
  proof (cases "e < 0")
    case True
    with assms recv show ?thesis by (intro stop) (auto simp: receive_one_def)
  next
    case False
    with assms recv cons show ?thesis by (intro frame) (auto simp: receive_one_def with_frame_def)
  qed
qed

lemma receive_one_counts:
  assumes "receive_one count ops t s = (r, s')"
  shows "decoded_frames s' = decoded_frames s + (if count \<and> r \<noteq> Some None then 1 else 0)"
  using assms
proof (cases rule: receive_one_cases)
  case (frame e frame w c u)
  have "decoded_frames u = decoded_frames (with_frame count frame w s)"
    using decoded_frames_consider [of ops t "with_frame count frame w s"] frame(3) by simp
  with frame(4,5) show ?thesis by (simp add: with_frame_def)
qed simp

function receive_loop ::
  "'w codec_ops \<Rightarrow> int \<Rightarrow> 'w decode_state \<Rightarrow> int option \<times> 'w decode_state" where
  "receive_loop ops target_timestamp s =
     (case receive_one True ops target_timestamp s of
        (Some stop, s) \<Rightarrow> (stop, s)
      | (None, s) \<Rightarrow>
          if selected s \<or> decoded_frames s \<ge> MAX_DECODED_FRAMES then (None, s)
          else receive_loop ops target_timestamp s)"
  by pat_completeness auto
termination
  by (relation "measure (\<lambda>(ops, t, s). nat (MAX_DECODED_FRAMES - decoded_frames s))")
    (auto dest!: receive_one_counts [OF sym] simp: MAX_DECODED_FRAMES_def)

declare receive_loop.simps [simp del]

text \<open>The main loop: \<open>None\<close> when the fuel does not suffice.\<close>

fun decode_loop ::
  "nat \<Rightarrow> 'w codec_ops \<Rightarrow> int \<Rightarrow> int \<Rightarrow> 'w decode_state \<Rightarrow> (int option \<times> 'w decode_state) option" where
  "decode_loop 0 ops video_stream_index target_timestamp s = None"
| "decode_loop (Suc n) ops video_stream_index target_timestamp s =
     (if selected s \<or> video_packets s \<ge> MAX_VIDEO_PACKETS \<or> decoded_frames s \<ge> MAX_DECODED_FRAMES
      then Some (None, s)
      else case interrupted ops (world s) of (stop, w) \<Rightarrow>
        if stop then Some (None, s\<lparr>world := w, cut_off := True\<rparr>)
        else case read_frame ops w of (result, stream_index, w) \<Rightarrow>
          if result < 0 then Some (None, s\<lparr>world := w, read_result := result\<rparr>)
          else if stream_index \<noteq> video_stream_index then
            decode_loop n ops video_stream_index target_timestamp (s\<lparr>world := w, read_result := result\<rparr>)
          else case send_packet ops True w of (send_result, w) \<Rightarrow>
            let s = s\<lparr>world := w, read_result := result, video_packets := video_packets s + 1\<rparr> in
            if send_result < 0 \<and> send_result \<noteq> AVERROR_EAGAIN
            then decode_loop n ops video_stream_index target_timestamp s
            else case receive_loop ops target_timestamp s of
                (Some e, s) \<Rightarrow> Some (Some e, s)
              | (None, s) \<Rightarrow> decode_loop n ops video_stream_index target_timestamp s)"

text \<open>The loop that drains the decoder at the end of the input.\<close>

fun drain_loop ::
  "nat \<Rightarrow> 'w codec_ops \<Rightarrow> int \<Rightarrow> 'w decode_state \<Rightarrow> (int option \<times> 'w decode_state) option" where
  "drain_loop 0 ops target_timestamp s = None"
| "drain_loop (Suc n) ops target_timestamp s =
     (case receive_one False ops target_timestamp s of
        (Some stop, s) \<Rightarrow> Some (stop, s)
      | (None, s) \<Rightarrow> if selected s then Some (None, s) else drain_loop n ops target_timestamp s)"

definition hold :: "bool \<Rightarrow> resource \<Rightarrow> 'w decode_state \<Rightarrow> 'w decode_state" where
  "hold ok r s = (if ok then s\<lparr>live := r # live s\<rparr> else s)"

definition free_locals :: "'w decode_state \<Rightarrow> 'w decode_state" where
  "free_locals s = s\<lparr>live := remove1 Decoded_Frame (remove1 Packet (live s)), decoded := blank_frame\<rparr>"

text \<open>Lines 373 to 395: drain unless a frame is selected or the work is interrupted.\<close>

definition drain_decoder ::
  "nat \<Rightarrow> 'w codec_ops \<Rightarrow> int \<Rightarrow> 'w decode_state \<Rightarrow> (int option \<times> 'w decode_state) option" where
  "drain_decoder fuel ops target_timestamp s =
     (if selected s then Some (None, s)
      else case interrupted ops (world s) of (stop, w) \<Rightarrow>
        if stop then Some (None, s\<lparr>world := w, cut_off := True\<rparr>)
        else drain_loop fuel ops target_timestamp (s\<lparr>world := snd (send_packet ops False w)\<rparr>))"

text \<open>Lines 400 to 406: the result when the loops ended normally.\<close>

definition decode_result :: "'w codec_ops \<Rightarrow> 'w decode_state \<Rightarrow> int \<times> 'w decode_state" where
  "decode_result ops s =
     (if fr_width (candidate s) > 0 \<and> fr_height (candidate s) > 0 then (0, s)
      else case interrupted ops (world s) of (stop, w) \<Rightarrow>
        (if stop then AVERROR_ETIMEDOUT
         else if read_result s < 0 then read_result s else AVERROR_INVALIDDATA, s\<lparr>world := w\<rparr>))"

definition decode_thumbnail_frame ::
  "nat \<Rightarrow> 'w codec_ops \<Rightarrow> int \<Rightarrow> int \<Rightarrow> 'w decode_state \<Rightarrow> (int \<times> 'w decode_state) option" where
  "decode_thumbnail_frame fuel ops video_stream_index target_timestamp s =
     (case packet_alloc ops (world s) of (packet, w) \<Rightarrow>
      case frame_alloc ops w of (frame, w) \<Rightarrow>
        let s = hold frame Decoded_Frame (hold packet Packet (s\<lparr>world := w\<rparr>)) in
        if \<not> packet \<or> \<not> frame then Some (AVERROR_ENOMEM, free_locals s)
        else
          let s = s\<lparr>selected := False, video_packets := 0, decoded_frames := 0, read_result := 0,
                    decoded := blank_frame, cut_off := False\<rparr>
          in case decode_loop fuel ops video_stream_index target_timestamp s of
               None \<Rightarrow> None
             | Some (Some e, s) \<Rightarrow> Some (e, free_locals s)
             | Some (None, s) \<Rightarrow>
                 (case drain_decoder fuel ops target_timestamp s of
                    None \<Rightarrow> None
                  | Some (Some e, s) \<Rightarrow> Some (e, free_locals s)
                  | Some (None, s) \<Rightarrow> Some (decode_result ops (free_locals s))))"

section \<open>What the loops keep\<close>

text \<open>
  The candidate is the last usable frame received, and every usable frame before it was earlier
  than the target; the loop is marked as finished exactly when the candidate is at the target.
\<close>

definition chosen :: "int \<Rightarrow> 'w decode_state \<Rightarrow> bool" where
  "chosen target s \<longleftrightarrow>
     (let us = filter is_usable_frame (received s) in
      candidate s = (if us = [] then blank_frame else last us) \<and>
      (selected s \<longleftrightarrow> us \<noteq> [] \<and> at_target target (last us)) \<and>
      (\<forall>f \<in> set (butlast us). \<not> at_target target f))"

text \<open>The outcome of a loop: the early return \<open>Some e\<close> happens only for an error.\<close>

definition good :: "int \<Rightarrow> resource list \<Rightarrow> int option \<Rightarrow> 'w decode_state \<Rightarrow> bool" where
  "good target res stop s \<longleftrightarrow> live s = res \<and> video_packets s \<le> MAX_VIDEO_PACKETS \<and>
     decoded_frames s \<le> MAX_DECODED_FRAMES \<and> decoded_frames s \<le> int (length (received s)) \<and>
     (case stop of None \<Rightarrow> chosen target s | Some e \<Rightarrow> e < 0)"

lemma chosen_unselected:
  "chosen t s \<Longrightarrow> \<not> selected s \<Longrightarrow> \<forall>f \<in> set (filter is_usable_frame (received s)). \<not> at_target t f"
proof -
  assume a: "chosen t s" "\<not> selected s"
  define us where "us = filter is_usable_frame (received s)"
  have "us = [] \<or> us = butlast us @ [last us]" by (metis append_butlast_last_id)
  with a show ?thesis unfolding chosen_def Let_def us_def [symmetric]
    by (metis Un_iff empty_iff empty_set list.set_intros(1) set_ConsD set_append)
qed

lemma chosen_world [simp]:
  "chosen t (s\<lparr>world := w\<rparr>) = chosen t s"
  "chosen t (s\<lparr>decoded := f\<rparr>) = chosen t s"
  "chosen t (s\<lparr>read_result := r\<rparr>) = chosen t s"
  "chosen t (s\<lparr>video_packets := v\<rparr>) = chosen t s"
  "chosen t (s\<lparr>cut_off := c\<rparr>) = chosen t s"
  by (simp_all add: chosen_def)

lemma good_world [simp]:
  "good t res stop (s\<lparr>world := w\<rparr>) = good t res stop s"
  "good t res stop (s\<lparr>decoded := f\<rparr>) = good t res stop s"
  "good t res stop (s\<lparr>read_result := r\<rparr>) = good t res stop s"
  "good t res stop (s\<lparr>cut_off := c\<rparr>) = good t res stop s"
  by (simp_all add: good_def split: option.split)

lemma consider_chosen:
  assumes c: "chosen t s" "\<not> selected s"
    and cons: "consider_decoded_frame ops t (with_frame count frame w s) = (c, u)"
  shows "(if c < 0 then candidate u = blank_frame else chosen t u) \<and> live u = live s \<and>
    video_packets u = video_packets s \<and> received u = received s @ [frame]"
proof -
  define us where "us = filter is_usable_frame (received s)"
  have us: "\<forall>f \<in> set us. \<not> at_target t f" unfolding us_def by (rule chosen_unselected [OF c])
  show ?thesis
  proof (cases "is_usable_frame frame")
    case False
    with cons have "c = 0" "u = with_frame count frame w s"
      by (simp_all add: consider_decoded_frame_def with_frame_def)
    with c False show ?thesis by (simp add: chosen_def with_frame_def Let_def)
  next
    case True
    obtain r w' where r: "frame_ref ops frame w = (r, w')" by (metis surj_pair)
    show ?thesis
    proof (cases "r < 0")
      case fail: True
      with cons True r have "c = r" "u = (with_frame count frame w s)\<lparr>world := w', candidate := blank_frame\<rparr>"
        by (simp_all add: consider_decoded_frame_def with_frame_def)
      with fail show ?thesis by (simp add: with_frame_def)
    next
      case ok: False
      with cons True r have cu: "c = 0"
        "u = (with_frame count frame w s)\<lparr>world := w', candidate := frame, selected := selected s \<or> at_target t frame\<rparr>"
        by (simp_all add: consider_decoded_frame_def with_frame_def)
      have "filter is_usable_frame (received u) = us @ [frame]" using True cu by (simp add: us_def with_frame_def)
      with cu c(2) us show ?thesis by (simp add: chosen_def with_frame_def Let_def)
    qed
  qed
qed

lemma receive_one_good:
  assumes "receive_one count ops t s = (r, s')" "good t res None s" "\<not> selected s"
    and "count \<longrightarrow> decoded_frames s < MAX_DECODED_FRAMES"
  shows "case r of Some stop \<Rightarrow> good t res stop s' | None \<Rightarrow> good t res None s'"
  using assms(1)
proof (cases rule: receive_one_cases)
  case (stop e frame w)
  with assms(2) show ?thesis by simp
next
  case (frame e frame w c u)
  have "chosen t s" using assms(2) by (simp add: good_def)
  note cons = consider_chosen [OF this assms(3) frame(3)]
  have n: "decoded_frames u = decoded_frames s + (if count then 1 else 0)"
    using decoded_frames_consider [of ops t "with_frame count frame w s"] frame(3) by (simp add: with_frame_def)
  show ?thesis
    using cons n assms(2,4) frame(4,5) by (auto simp: good_def split: if_splits)
qed

lemma receive_loop_good:
  assumes "receive_loop ops t s = (stop, s')" "good t res None s" "\<not> selected s"
    "decoded_frames s < MAX_DECODED_FRAMES"
  shows "good t res stop s'"
  using assms
proof (induction ops t s arbitrary: stop s' rule: receive_loop.induct)
  case (1 ops t s)
  obtain r u where one: "receive_one True ops t s = (r, u)" by (metis surj_pair)
  note g = receive_one_good [OF one "1.prems"(2,3), simplified, OF "1.prems"(4)]
  show ?case
  proof (cases r)
    case (Some e)
    with one g "1.prems"(1) show ?thesis by (simp add: receive_loop.simps [of ops t s])
  next
    case None
    show ?thesis
    proof (cases "selected u \<or> decoded_frames u \<ge> MAX_DECODED_FRAMES")
      case True
      with one None g "1.prems"(1) show ?thesis by (simp add: receive_loop.simps [of ops t s])
    next
      case False
      then have "receive_loop ops t u = (stop, s')"
        using "1.prems"(1) one None by (simp add: receive_loop.simps [of ops t s])
      with "1.IH" [OF one [symmetric] None False] g None False show ?thesis by simp
    qed
  qed
qed

lemma decode_loop_good:
  assumes "decode_loop n ops idx t s = Some (stop, s')" "good t res None s"
  shows "good t res stop s'"
  using assms
proof (induction n arbitrary: s)
  case 0
  then show ?case by simp
next
  case (Suc n)
  show ?case
  proof (cases "selected s \<or> video_packets s \<ge> MAX_VIDEO_PACKETS \<or> decoded_frames s \<ge> MAX_DECODED_FRAMES")
    case True
    with Suc.prems show ?thesis by auto
  next
    case False
    obtain st w where i: "interrupted ops (world s) = (st, w)" by (metis surj_pair)
    obtain e k w1 where rd: "read_frame ops w = (e, k, w1)" by (metis prod_cases3)
    obtain se w2 where sd: "send_packet ops True w1 = (se, w2)" by (metis surj_pair)
    define u where "u = s\<lparr>world := w2, read_result := e, video_packets := video_packets s + 1\<rparr>"
    have u: "good t res None u" "\<not> selected u" "decoded_frames u < MAX_DECODED_FRAMES"
      using Suc.prems(2) False by (simp_all add: good_def u_def)
    obtain r v where loop: "receive_loop ops t u = (r, v)" by (metis surj_pair)
    note v = receive_loop_good [OF loop u]
    have eq: "decode_loop (Suc n) ops idx t s =
      (if st then Some (None, s\<lparr>world := w, cut_off := True\<rparr>)
       else if e < 0 then Some (None, s\<lparr>world := w1, read_result := e\<rparr>)
       else if k \<noteq> idx then decode_loop n ops idx t (s\<lparr>world := w1, read_result := e\<rparr>)
       else if se < 0 \<and> se \<noteq> AVERROR_EAGAIN then decode_loop n ops idx t u
       else case r of Some x \<Rightarrow> Some (Some x, v) | None \<Rightarrow> decode_loop n ops idx t v)"
      using False by (simp add: i rd sd loop [unfolded u_def] u_def Let_def split: option.split)
    show ?thesis
    proof (cases "st \<or> e < 0")
      case True
      with Suc.prems(1) [unfolded eq] Suc.prems(2) show ?thesis by (cases st) auto
    next
      case go: False
      consider "k \<noteq> idx" | "k = idx" "se < 0 \<and> se \<noteq> AVERROR_EAGAIN" | "k = idx" "\<not> (se < 0 \<and> se \<noteq> AVERROR_EAGAIN)"
        by blast
      then show ?thesis
      proof cases
        case 1
        then have "decode_loop n ops idx t (s\<lparr>world := w1, read_result := e\<rparr>) = Some (stop, s')"
          using go Suc.prems(1) [unfolded eq] by simp
        then show ?thesis by (rule Suc.IH) (use Suc.prems(2) in simp)
      next
        case 2
        then have "decode_loop n ops idx t u = Some (stop, s')" using go Suc.prems(1) [unfolded eq] by auto
        then show ?thesis by (rule Suc.IH) (rule u(1))
      next
        case 3
        then have "(case r of Some x \<Rightarrow> Some (Some x, v) | None \<Rightarrow> decode_loop n ops idx t v) = Some (stop, s')"
          using go Suc.prems(1) [unfolded eq] by auto
        with v show ?thesis by (cases r) (auto intro: Suc.IH)
      qed
    qed
  qed
qed

lemma drain_loop_good:
  assumes "drain_loop n ops t s = Some (stop, s')" "good t res None s" "\<not> selected s"
  shows "good t res stop s'"
  using assms
proof (induction n arbitrary: s)
  case 0
  then show ?case by simp
next
  case (Suc n)
  obtain r u where one: "receive_one False ops t s = (r, u)" by (metis surj_pair)
  have g: "case r of Some stop \<Rightarrow> good t res stop u | None \<Rightarrow> good t res None u"
    by (rule receive_one_good [OF one Suc.prems(2,3)]) simp
  show ?case
  proof (cases r)
    case (Some e)
    with one g Suc.prems(1) show ?thesis by simp
  next
    case None
    with one g Suc.prems(1) show ?thesis by (cases "selected u") (auto intro: Suc.IH)
  qed
qed

lemma drain_decoder_good:
  assumes "drain_decoder n ops t s = Some (stop, s')" "good t res None s"
  shows "good t res stop s'"
proof (cases "selected s")
  case True
  with assms show ?thesis by (simp add: drain_decoder_def)
next
  case False
  obtain st w where i: "interrupted ops (world s) = (st, w)" by (metis surj_pair)
  with assms False show ?thesis
    by (cases st) (auto simp: drain_decoder_def intro: drain_loop_good)
qed

section \<open>Why the loops end\<close>

text \<open>
  \<open>receives\<close>: the decoder has delivered frames from one state of the world to another. It is
  exhausted when it has been told of the end of the input, has delivered its frames since, and has
  reported that there are no more.
\<close>

inductive receives :: "'w codec_ops \<Rightarrow> 'w \<Rightarrow> 'w \<Rightarrow> bool" for ops w0 where
  start: "receives ops w0 w0"
| step: "receives ops w0 w \<Longrightarrow> receive_frame ops w = (e, frame, w1) \<Longrightarrow> 0 \<le> e \<Longrightarrow>
    w2 = w1 \<or> w2 = snd (frame_ref ops frame w1) \<Longrightarrow> receives ops w0 w2"

definition exhausted :: "'w codec_ops \<Rightarrow> 'w \<Rightarrow> bool" where
  "exhausted ops w' \<longleftrightarrow> (\<exists>w0 w e frame. receives ops (snd (send_packet ops False w0)) w \<and> receive_frame ops w = (e, frame, w') \<and> e < 0)"

definition input_over :: "'w decode_state \<Rightarrow> bool" where
  "input_over s \<longleftrightarrow> video_packets s \<ge> MAX_VIDEO_PACKETS \<or> decoded_frames s \<ge> MAX_DECODED_FRAMES \<or> read_result s < 0"

lemma decode_loop_exit:
  "decode_loop n ops idx t s = Some (None, s') \<Longrightarrow> selected s' \<or> cut_off s' \<or> input_over s'"
proof (induction n arbitrary: s)
  case (Suc n)
  then show ?case by (auto simp: input_over_def Let_def split: if_splits prod.splits option.splits)
qed simp

lemma receive_one_receives:
  assumes "receive_one False ops t s = (r, s')" "receives ops w0 (world s)"
  shows "cut_off s' = cut_off s \<and> input_over s' = input_over s \<and>
    (case r of None \<Rightarrow> receives ops w0 (world s')
     | Some None \<Rightarrow> \<exists>w e frame. receives ops w0 w \<and> receive_frame ops w = (e, frame, world s') \<and> e < 0
     | Some (Some e) \<Rightarrow> True)"
  using assms(1)
proof (cases rule: receive_one_cases)
  case (stop e frame w)
  then show ?thesis using assms(2) by (auto simp: input_over_def)
next
  case (frame e frame w c u)
  have u: "cut_off u = cut_off s" "input_over u = input_over s" "world u = w \<or> world u = snd (frame_ref ops frame w)"
    using frame(3) by (auto simp: consider_decoded_frame_def with_frame_def input_over_def split: if_splits prod.splits)
  have "receives ops w0 (world u)" by (rule receives.step [OF assms(2) frame(1,2) u(3)])
  with u(1,2) frame(4,5) show ?thesis by (simp add: input_over_def)
qed

lemma drain_loop_exit:
  assumes "drain_loop n ops t s = Some (None, s')" "receives ops w0 (world s)"
  shows "cut_off s' = cut_off s \<and> input_over s' = input_over s \<and>
    (selected s' \<or> (\<exists>w e frame. receives ops w0 w \<and> receive_frame ops w = (e, frame, world s') \<and> e < 0))"
  using assms
proof (induction n arbitrary: s)
  case (Suc n)
  obtain r u where one: "receive_one False ops t s = (r, u)" by (metis surj_pair)
  note u = receive_one_receives [OF one Suc.prems(2)]
  show ?case
  proof (cases r)
    case (Some stop)
    with Suc.prems(1) one u show ?thesis by auto
  next
    case None
    show ?thesis
    proof (cases "selected u")
      case True
      with Suc.prems(1) one u None show ?thesis by auto
    next
      case False
      with Suc.prems(1) one None have "drain_loop n ops t u = Some (None, s')" by simp
      from Suc.IH [OF this] u None show ?thesis by simp
    qed
  qed
qed simp

text \<open>The normal end: a frame is selected, the work was cut off, or all there was has been seen.\<close>

definition ended :: "'w codec_ops \<Rightarrow> 'w decode_state \<Rightarrow> bool" where
  "ended ops s \<longleftrightarrow> selected s \<or> cut_off s \<or> input_over s \<and> exhausted ops (world s)"

lemma drain_decoder_exit:
  assumes "drain_decoder n ops t s = Some (None, s')" "selected s \<or> cut_off s \<or> input_over s"
  shows "ended ops s'"
proof (cases "selected s")
  case True
  with assms show ?thesis by (simp add: drain_decoder_def ended_def)
next
  case False
  obtain st w where i: "interrupted ops (world s) = (st, w)" by (metis surj_pair)
  show ?thesis
  proof (cases st)
    case True
    with assms(1) False i show ?thesis by (auto simp: drain_decoder_def ended_def)
  next
    case go: False
    let ?u = "s\<lparr>world := snd (send_packet ops False w)\<rparr>"
    have d: "drain_loop n ops t ?u = Some (None, s')" using assms(1) False go i by (simp add: drain_decoder_def)
    have "receives ops (snd (send_packet ops False w)) (world ?u)" by (simp add: receives.start)
    note x = drain_loop_exit [OF d this]
    have "selected s' \<or> exhausted ops (world s')" using x unfolding exhausted_def by blast
    moreover have "cut_off s' = cut_off s" "input_over s' = input_over s" using x by (simp_all add: input_over_def)
    ultimately have "cut_off s' = cut_off s \<and> input_over s' = input_over s \<and> (selected s' \<or> exhausted ops (world s'))" by blast
    with assms(2) False show ?thesis by (auto simp: ended_def)
  qed
qed

section \<open>The whole function\<close>

definition fresh :: "'w decode_state \<Rightarrow> bool" where
  "fresh s \<longleftrightarrow> candidate s = blank_frame \<and> received s = [] \<and>
     Packet \<notin> set (live s) \<and> Decoded_Frame \<notin> set (live s)"

lemma free_hold:
  "Packet \<notin> set (live s) \<Longrightarrow> Decoded_Frame \<notin> set (live s) \<Longrightarrow>
   live (free_locals (hold b Decoded_Frame (hold a Packet (s\<lparr>world := w\<rparr>)))) = live s"
  by (simp add: free_locals_def hold_def remove1_idem)

lemma candidate_free [simp]:
  "candidate (free_locals s) = candidate s" "received (free_locals s) = received s"
  "video_packets (free_locals s) = video_packets s" "decoded_frames (free_locals s) = decoded_frames s"
  "world (free_locals s) = world s" "read_result (free_locals s) = read_result s"
  "cut_off (free_locals s) = cut_off s" "input_over (free_locals s) = input_over s"
  by (simp_all add: free_locals_def input_over_def)

text \<open>
  The three ways the function ends: no memory, an error of \<open>av_frame_ref\<close> during a loop, or
  the normal end, in a state \<open>u\<close> that satisfies what the loops keep.
\<close>

lemma decode_thumbnail_frame_cases:
  assumes "decode_thumbnail_frame n ops idx t s = Some (r, s')" "fresh s"
  obtains (nomem) "r = AVERROR_ENOMEM" "candidate s' = blank_frame" "received s' = []" "live s' = live s"
    | (error) u where "r < 0" "good t (Decoded_Frame # Packet # live s) (Some r) u" "s' = free_locals u"
    | (normal) u where "good t (Decoded_Frame # Packet # live s) None u" "ended ops u" "(r, s') = decode_result ops (free_locals u)"
proof -
  obtain p w1 where p: "packet_alloc ops (world s) = (p, w1)" by (metis surj_pair)
  obtain f w2 where f: "frame_alloc ops w1 = (f, w2)" by (metis surj_pair)
  show ?thesis
  proof (cases "p \<and> f")
    case False
    then have s': "r = AVERROR_ENOMEM" "s' = free_locals (hold f Decoded_Frame (hold p Packet (s\<lparr>world := w2\<rparr>)))"
      using assms(1) by (auto simp: decode_thumbnail_frame_def p f Let_def)
    show ?thesis
    proof (rule nomem)
      show "live s' = live s" unfolding s'(2) by (rule free_hold) (use assms(2) in \<open>simp_all add: fresh_def\<close>)
    qed (use s' assms(2) in \<open>simp_all add: fresh_def hold_def\<close>)
  next
    case True
    define v where "v = (hold True Decoded_Frame (hold True Packet (s\<lparr>world := w2\<rparr>)))
      \<lparr>selected := False, video_packets := 0, decoded_frames := 0, read_result := 0, decoded := blank_frame, cut_off := False\<rparr>"
    let ?L = "Decoded_Frame # Packet # live s"
    have v: "good t ?L None v"
      using assms(2) by (simp add: v_def good_def chosen_def fresh_def hold_def MAX_VIDEO_PACKETS_def MAX_DECODED_FRAMES_def)
    have unf: "decode_thumbnail_frame n ops idx t s =
      (case decode_loop n ops idx t v of
         None \<Rightarrow> None
       | Some (Some e, s) \<Rightarrow> Some (e, free_locals s)
       | Some (None, s) \<Rightarrow>
           (case drain_decoder n ops t s of
              None \<Rightarrow> None
            | Some (Some e, s) \<Rightarrow> Some (e, free_locals s)
            | Some (None, s) \<Rightarrow> Some (decode_result ops (free_locals s))))"
      using True by (simp add: decode_thumbnail_frame_def p f Let_def v_def)
    from assms(1) obtain o1 u where l: "decode_loop n ops idx t v = Some (o1, u)"
      unfolding unf by (cases "decode_loop n ops idx t v") auto
    note u = decode_loop_good [OF l v]
    show ?thesis
    proof (cases o1)
      case (Some e)
      with assms(1) l u show ?thesis unfolding unf by (intro error [of u]) (auto simp: good_def)
    next
      case None
      with assms(1) l obtain o2 x where d: "drain_decoder n ops t u = Some (o2, x)"
        unfolding unf by (cases "drain_decoder n ops t u") auto
      note x = drain_decoder_good [OF d u [unfolded None]]
      show ?thesis
      proof (cases o2)
        case (Some e)
        with assms(1) l None d x show ?thesis unfolding unf by (intro error [of x]) (auto simp: good_def)
      next
        case none2: None
        have "ended ops x" using drain_decoder_exit [OF d [unfolded none2] decode_loop_exit [OF l [unfolded None]]] .
        with assms(1) l None d x none2 show ?thesis unfolding unf by (intro normal [of x]) auto
      qed
    qed
  qed
qed

lemma decode_result_fields:
  assumes "decode_result ops s = (r, s')"
  shows "candidate s' = candidate s" "received s' = received s" "live s' = live s"
    "video_packets s' = video_packets s" "decoded_frames s' = decoded_frames s"
    "r = 0 \<longleftrightarrow> fr_width (candidate s) > 0 \<and> fr_height (candidate s) > 0" "r \<le> 0"
  using assms by (auto simp: decode_result_def averror_values split: prod.splits if_splits)

text \<open>
  Property C11: frame selection. When the function succeeds, the thumbnail frame is the last usable
  frame that the decoder returned, and every usable frame before it was earlier than the target.
  Either it is at the target; or the work was cut off by an interruption; or the input was over (a
  limit was reached or no packet could be read) and the decoder, told so, has delivered all its
  frames. So it is the first usable frame at or after the target, or the last usable one when there
  is none. When no usable frame came at all, the function fails.
\<close>

theorem decode_selects_first_at_target:
  assumes "decode_thumbnail_frame fuel ops idx target s = Some (r, s')" "fresh s"
    and "us = filter is_usable_frame (received s')"
  shows "r \<le> 0 \<and> (us = [] \<longrightarrow> r < 0) \<and>
    (r = 0 \<longrightarrow> us \<noteq> [] \<and> candidate s' = last us \<and> (\<forall>f \<in> set (butlast us). \<not> at_target target f) \<and>
       (at_target target (last us) \<or> cut_off s' \<or> input_over s' \<and> exhausted ops (world s')))"
  using assms(1,2)
proof (cases rule: decode_thumbnail_frame_cases)
  case nomem
  then show ?thesis by simp
next
  case (error u)
  then show ?thesis by simp
next
  case (normal u)
  note res = decode_result_fields [OF normal(3) [symmetric]]
  have c: "chosen target u" using normal(1) by (simp add: good_def)
  have us: "us = filter is_usable_frame (received u)" using res(2) assms(3) by simp
  have cand: "candidate s' = (if us = [] then blank_frame else last us)"
    using c res(1) by (simp add: chosen_def Let_def us)
  have "r = 0 \<Longrightarrow> s' = free_locals u"
    using normal(3) by (auto simp: decode_result_def averror_values split: prod.splits if_splits)
  then have why: "r = 0 \<Longrightarrow> selected u \<or> cut_off s' \<or> input_over s' \<and> exhausted ops (world s')"
    using normal(2) by (auto simp: ended_def)
  show ?thesis
    using res(1,6,7) cand c why unfolding chosen_def Let_def us [symmetric]
    by (auto simp: blank_frame_def)
qed

text \<open>
  The work is bounded. However the demuxer and the decoder answer, one extraction
  sends at most 12000 packets and takes at most 1200 frames before the final drain.
\<close>

theorem decode_work_is_bounded:
  assumes "decode_thumbnail_frame fuel ops idx target s = Some (r, s')" "fresh s" "r \<noteq> AVERROR_ENOMEM"
  shows "video_packets s' \<le> 12000 \<and> decoded_frames s' \<le> 1200"
  using assms(1,2)
proof (cases rule: decode_thumbnail_frame_cases)
  case nomem
  with assms(3) show ?thesis by simp
next
  case (error u)
  then show ?thesis by (simp add: good_def MAX_VIDEO_PACKETS_def MAX_DECODED_FRAMES_def)
next
  case (normal u)
  with decode_result_fields [OF normal(3) [symmetric]] show ?thesis
    by (simp add: good_def MAX_VIDEO_PACKETS_def MAX_DECODED_FRAMES_def)
qed

lemma decode_thumbnail_frame_live:
  assumes "decode_thumbnail_frame fuel ops idx target s = Some (r, s')" "fresh s"
  shows "live s' = live s"
  using assms
proof (cases rule: decode_thumbnail_frame_cases)
  case nomem
  then show ?thesis by simp
next
  case (error u)
  then show ?thesis by (simp add: good_def free_locals_def)
next
  case (normal u)
  with decode_result_fields(3) [OF normal(3) [symmetric]] show ?thesis
    by (simp add: good_def free_locals_def)
qed

text \<open>
  No leak. On every path, errors included, the packet and the frame the function
  allocated are freed and nothing else is.
\<close>

theorem decode_releases_its_locals:
  assumes "decode_thumbnail_frame fuel ops idx target s = Some (r, s')" "fresh s"
  shows "live s' = live s"
  using assms by (rule decode_thumbnail_frame_live)

section \<open>The deadline\<close>

text \<open>
  The clock of the world does not run backwards and the deadline of the I/O context stays at \<open>d\<close>. A
  call may wait for data, but is ended by the interrupt callback: it returns at most \<open>\<delta>\<close> microseconds
  after the deadline or, when it began later, after its start.
\<close>

definition takes :: "('w \<Rightarrow> int) \<Rightarrow> int \<Rightarrow> int \<Rightarrow> 'w \<Rightarrow> 'w \<Rightarrow> bool" where
  "takes clock d \<delta> w w' \<longleftrightarrow> clock w \<le> clock w' \<and> clock w' \<le> max (clock w) d + \<delta>"

definition timely :: "'w codec_ops \<Rightarrow> ('w \<Rightarrow> int) \<Rightarrow> int \<Rightarrow> int \<Rightarrow> bool" where
  "timely ops clock d \<delta> \<longleftrightarrow> 0 < d \<and> 0 \<le> \<delta> \<and>
     (\<forall>w. clock w \<le> fst (gettime ops w) \<and> takes clock d \<delta> w (snd (gettime ops w)) \<and>
          takes clock d \<delta> w (snd (snd (read_frame ops w))) \<and> takes clock d \<delta> w (snd (snd (receive_frame ops w))) \<and>
          takes clock d \<delta> w (snd (packet_alloc ops w)) \<and> takes clock d \<delta> w (snd (frame_alloc ops w)) \<and>
          (\<forall>b. takes clock d \<delta> w (snd (send_packet ops b w))) \<and> (\<forall>f. takes clock d \<delta> w (snd (frame_ref ops f w))) \<and>
          (\<forall>c. io_context ops w = Some c \<longrightarrow> deadline_us c = d))"

text \<open>
  A packet that is read is one of the \<open>packets_left\<close> of a finite file, or, in a stream without end, it
  takes time; no other call brings packets back.
\<close>

definition supplied :: "'w codec_ops \<Rightarrow> ('w \<Rightarrow> int) \<Rightarrow> ('w \<Rightarrow> nat) \<Rightarrow> bool" where
  "supplied ops clock packets_left \<longleftrightarrow>
     (\<forall>w. packets_left (snd (gettime ops w)) \<le> packets_left w \<and>
          (case read_frame ops w of (e, k, w') \<Rightarrow> packets_left w' \<le> packets_left w \<and>
             (0 \<le> e \<longrightarrow> packets_left w' < packets_left w \<or> clock w < clock w')) \<and>
          packets_left (snd (snd (receive_frame ops w))) \<le> packets_left w \<and>
          packets_left (snd (packet_alloc ops w)) \<le> packets_left w \<and> packets_left (snd (frame_alloc ops w)) \<le> packets_left w \<and>
          (\<forall>b. packets_left (snd (send_packet ops b w)) \<le> packets_left w) \<and>
          (\<forall>f. packets_left (snd (frame_ref ops f w)) \<le> packets_left w))"

text \<open>The decoder, once sent \<open>NULL\<close>, reports its end after at most \<open>m\<close> frames.\<close>

fun drained :: "nat \<Rightarrow> 'w codec_ops \<Rightarrow> 'w \<Rightarrow> bool" where
  "drained 0 ops w \<longleftrightarrow> fst (receive_frame ops w) < 0"
| "drained (Suc n) ops w \<longleftrightarrow>
     (case receive_frame ops w of (r, f, w) \<Rightarrow>
        r < 0 \<or> (drained n ops w \<and> drained n ops (snd (frame_ref ops f w))))"

lemma timelyD:
  assumes "timely ops clock d \<delta>"
  shows "gettime ops w = (x, w') \<Longrightarrow> clock w \<le> x \<and> takes clock d \<delta> w w'" "read_frame ops w = (e, k, w') \<Longrightarrow> takes clock d \<delta> w w'"
    "receive_frame ops w = (e, f, w') \<Longrightarrow> takes clock d \<delta> w w'" "packet_alloc ops w = (b, w') \<Longrightarrow> takes clock d \<delta> w w'"
    "frame_alloc ops w = (b, w') \<Longrightarrow> takes clock d \<delta> w w'" "send_packet ops b w = (e, w') \<Longrightarrow> takes clock d \<delta> w w'"
    "frame_ref ops f w = (e, w') \<Longrightarrow> takes clock d \<delta> w w'" "io_context ops w = Some c \<Longrightarrow> deadline_us c = d" "0 < d"
  using assms unfolding timely_def by (metis fst_conv snd_conv)+

lemma suppliedD:
  assumes "supplied ops clock left"
  shows "gettime ops w = (x, w') \<Longrightarrow> left w' \<le> left w" "read_frame ops w = (e, k, w') \<Longrightarrow> left w' \<le> left w"
    "read_frame ops w = (e, k, w') \<Longrightarrow> 0 \<le> e \<Longrightarrow> left w' < left w \<or> clock w < clock w'"
    "receive_frame ops w = (e, f, w') \<Longrightarrow> left w' \<le> left w" "packet_alloc ops w = (b, w') \<Longrightarrow> left w' \<le> left w"
    "frame_alloc ops w = (b, w') \<Longrightarrow> left w' \<le> left w" "send_packet ops b w = (e, w') \<Longrightarrow> left w' \<le> left w"
    "frame_ref ops f w = (e, w') \<Longrightarrow> left w' \<le> left w"
  using spec [OF assms [unfolded supplied_def], of w] by (auto split: prod.splits) (metis snd_conv)+

lemma timely_step: "timely ops clock d \<delta> \<Longrightarrow> 0 \<le> \<delta>"
  by (simp add: timely_def)

text \<open>One frame: two calls.\<close>

lemma receive_one_clock:
  assumes "timely ops clock d \<delta>" "supplied ops clock left" "receive_one count ops t s = (r, s')"
  shows "takes clock d (2 * \<delta>) (world s) (world s') \<and> left (world s') \<le> left (world s)"
  using assms(3)
proof (cases rule: receive_one_cases)
  case (stop e frame w)
  then show ?thesis using timelyD(3) [OF assms(1) stop(1)] suppliedD(4) [OF assms(2) stop(1)] timely_step [OF assms(1)]
    by (simp add: takes_def)
next
  case (frame e frame w c u)
  obtain q v where q: "frame_ref ops frame w = (q, v)" by (metis surj_pair)
  have "world u = w \<or> world u = v"
    using frame(3) q by (auto simp: consider_decoded_frame_def with_frame_def split: if_splits prod.splits)
  moreover have "takes clock d \<delta> (world s) w" "left w \<le> left (world s)" "takes clock d \<delta> w v" "left v \<le> left w"
    using timelyD(3) [OF assms(1) frame(1)] suppliedD(4) [OF assms(2) frame(1)] timelyD(7) [OF assms(1) q] suppliedD(8) [OF assms(2) q] by simp_all
  ultimately show ?thesis using frame(5) timely_step [OF assms(1)] by (auto simp: takes_def)
qed

text \<open>The frames of one packet: those that are left of 1200.\<close>

lemma receive_loop_clock:
  assumes "timely ops clock d \<delta>" "supplied ops clock left" "receive_loop ops t s = (r, s')" "decoded_frames s < MAX_DECODED_FRAMES"
  shows "takes clock d (2 * \<delta> * (MAX_DECODED_FRAMES - decoded_frames s)) (world s) (world s') \<and> left (world s') \<le> left (world s) \<and>
    decoded_frames s \<le> decoded_frames s'"
  using assms
proof (induction ops t s arbitrary: r s' rule: receive_loop.induct)
  case (1 ops t s)
  obtain q u where one: "receive_one True ops t s = (q, u)" by (metis surj_pair)
  note c = receive_one_clock [OF "1.prems"(1,2) one] and n = receive_one_counts [OF one] and \<delta> = timely_step [OF "1.prems"(1)]
  show ?case
  proof (cases "q = None \<and> \<not> (selected u \<or> decoded_frames u \<ge> MAX_DECODED_FRAMES)")
    case True
    then have loop: "receive_loop ops t u = (r, s')"
      using "1.prems"(3) one by (simp add: receive_loop.simps [of ops t s])
    have u: "decoded_frames u = decoded_frames s + 1" "decoded_frames u < MAX_DECODED_FRAMES" using n True by simp_all
    have "takes clock d (2 * \<delta> * (MAX_DECODED_FRAMES - decoded_frames u)) (world u) (world s') \<and> left (world s') \<le> left (world u) \<and>
        decoded_frames u \<le> decoded_frames s'"
      using "1.IH" [OF one [symmetric] _ _ "1.prems"(1,2) loop u(2)] True by blast
    moreover have "2 * \<delta> * (MAX_DECODED_FRAMES - decoded_frames s) = 2 * \<delta> + 2 * \<delta> * (MAX_DECODED_FRAMES - decoded_frames u)"
      using u(1) by (simp add: algebra_simps)
    ultimately show ?thesis using c \<delta> unfolding takes_def u(1) by linarith
  next
    case False
    with "1.prems"(3) one have "s' = u" by (auto simp: receive_loop.simps [of ops t s] split: option.splits if_splits)
    moreover have "2 * \<delta> * 1 \<le> 2 * \<delta> * (MAX_DECODED_FRAMES - decoded_frames s)"
      using \<delta> "1.prems"(4) by (intro mult_left_mono) simp_all
    ultimately show ?thesis using c n by (auto simp: takes_def split: if_splits)
  qed
qed

lemma interrupted_at_deadline:
  assumes "timely ops clock d \<delta>" "d \<le> clock w"
  shows "fst (interrupted ops w)"
proof -
  obtain x w' where g: "gettime ops w = (x, w')" by (metis surj_pair)
  have "clock w \<le> x" using timelyD(1) [OF assms(1) g] by simp
  then show ?thesis using assms(2) g timelyD(8) [OF assms(1), of w'] timelyD(9) [OF assms(1)]
    by (cases "io_context ops w'") (auto simp: interrupted_def deadline_expired_def)
qed

lemma interrupted_clock:
  assumes "timely ops clock d \<delta>" "supplied ops clock left" "interrupted ops w = (b, w')"
  shows "takes clock d \<delta> w w' \<and> left w' \<le> left w"
  using assms(3) timelyD(1) [OF assms(1)] suppliedD(1) [OF assms(2)] by (auto simp: interrupted_def split: prod.splits)

text \<open>
  A round starts before the deadline, and takes 2403 calls at most: three, and two for each frame.
\<close>

lemma decode_loop_returns:
  assumes "timely ops clock d \<delta>" "supplied ops clock left"
    and "left (world s) + nat (d - clock (world s)) < n" "0 \<le> decoded_frames s"
  shows "\<exists>r s'. decode_loop n ops idx t s = Some (r, s') \<and> clock (world s') \<le> max (clock (world s)) (d + 2403 * \<delta>) + \<delta>"
  using assms(3,4)
proof (induction n arbitrary: s)
  case 0
  then show ?case by simp
next
  case (Suc n)
  note \<delta> = timely_step [OF assms(1)]
  obtain st w where i: "interrupted ops (world s) = (st, w)" by (metis surj_pair)
  obtain e k w1 where rd: "read_frame ops w = (e, k, w1)" by (metis prod_cases3)
  obtain se w2 where sd: "send_packet ops True w1 = (se, w2)" by (metis surj_pair)
  have c: "takes clock d \<delta> (world s) w" "takes clock d \<delta> w w1" "takes clock d \<delta> w1 w2" "left w \<le> left (world s)" "left w1 \<le> left w" "left w2 \<le> left w1"
    using interrupted_clock [OF assms(1,2) i] timelyD(2) [OF assms(1) rd] timelyD(6) [OF assms(1) sd]
      suppliedD(2) [OF assms(2) rd] suppliedD(7) [OF assms(2) sd] by simp_all
  show ?case
  proof (cases "selected s \<or> video_packets s \<ge> MAX_VIDEO_PACKETS \<or> decoded_frames s \<ge> MAX_DECODED_FRAMES")
    case True
    then show ?thesis using \<delta> by (intro exI [of _ None] exI [of _ s]) auto
  next
    case more: False
    show ?thesis
    proof (cases st)
      case True
      then show ?thesis using more i c(1) \<delta>
        by (intro exI [of _ None] exI [of _ "s\<lparr>world := w, cut_off := True\<rparr>"]) (auto simp: takes_def)
    next
      case go: False
      have lt: "clock (world s) < d" using interrupted_at_deadline [OF assms(1), of "world s"] i go by force
      show ?thesis
      proof (cases "e < 0")
        case True
        then show ?thesis using more i rd go c lt \<delta>
          by (intro exI [of _ None] exI [of _ "s\<lparr>world := w1, read_result := e\<rparr>"]) (auto simp: takes_def)
      next
        case ok: False
        have less: "left w1 + nat (d - clock w1) < left (world s) + nat (d - clock (world s))"
          using suppliedD(3) [OF assms(2) rd] ok c lt by (auto simp: takes_def)
        have step: "\<exists>r s'. decode_loop n ops idx t u = Some (r, s') \<and> clock (world s') \<le> max (clock (world s)) (d + 2403 * \<delta>) + \<delta>"
          if u: "clock w1 \<le> clock (world u)" "left (world u) \<le> left w1" "clock (world u) \<le> d + 2403 * \<delta>" "0 \<le> decoded_frames u" for u
        proof -
          have "left (world u) + nat (d - clock (world u)) < n" using less Suc.prems(1) u(1,2) by linarith
          from Suc.IH [OF this u(4)] u(3) show ?thesis by fastforce
        qed
        have near: "clock w1 \<le> d + 2 * \<delta>" "clock w2 \<le> d + 3 * \<delta>" using c(1-3) lt \<delta> unfolding takes_def by linarith+
        define u where "u = s\<lparr>world := w2, read_result := e, video_packets := video_packets s + 1\<rparr>"
        obtain r v where loop: "receive_loop ops t u = (r, v)" by (metis surj_pair)
        have uf: "decoded_frames u = decoded_frames s" "world u = w2" by (simp_all add: u_def)
        have "2 * \<delta> * (MAX_DECODED_FRAMES - decoded_frames s) \<le> 2 * \<delta> * 1200"
          using \<delta> Suc.prems(2) by (intro mult_left_mono) (simp_all add: MAX_DECODED_FRAMES_def)
        then have v: "clock w1 \<le> clock (world v)" "left (world v) \<le> left w1" "clock (world v) \<le> d + 2403 * \<delta>" "0 \<le> decoded_frames v"
          using receive_loop_clock [OF assms(1,2) loop] more uf c(3,6) near(2) Suc.prems(2) \<delta> by (auto simp: takes_def)
        have w1: "\<exists>r s'. decode_loop n ops idx t (s\<lparr>world := w1, read_result := e\<rparr>) = Some (r, s') \<and>
            clock (world s') \<le> max (clock (world s)) (d + 2403 * \<delta>) + \<delta>" by (rule step) (use near \<delta> Suc.prems(2) in simp_all)
        have wu: "\<exists>r s'. decode_loop n ops idx t u = Some (r, s') \<and> clock (world s') \<le> max (clock (world s)) (d + 2403 * \<delta>) + \<delta>"
          by (rule step) (use near \<delta> Suc.prems(2) c(3,6) in \<open>simp_all add: uf takes_def\<close>)
        have "decode_loop (Suc n) ops idx t s =
            (if k \<noteq> idx then decode_loop n ops idx t (s\<lparr>world := w1, read_result := e\<rparr>)
             else if se < 0 \<and> se \<noteq> AVERROR_EAGAIN then decode_loop n ops idx t u
             else case r of Some x \<Rightarrow> Some (Some x, v) | None \<Rightarrow> decode_loop n ops idx t v)"
          using more go ok by (simp add: i rd sd loop [unfolded u_def] u_def Let_def split: option.split)
        then show ?thesis using w1 wu step [OF v] v(3) \<delta>
          by (cases r) (auto split: if_splits intro: order_trans)
      qed
    qed
  qed
qed

lemma drain_loop_returns:
  assumes "timely ops clock d \<delta>" "supplied ops clock left" "drained m ops (world s)" "m < n"
  shows "\<exists>r s'. drain_loop n ops t s = Some (r, s') \<and> clock (world s') \<le> max (clock (world s)) d + 2 * \<delta> * (int m + 1)"
  using assms(3,4)
proof (induction m arbitrary: s n)
  case 0
  obtain k where n: "n = Suc k" using 0(2) by (cases n) auto
  obtain r u where one: "receive_one False ops t s = (r, u)" by (metis surj_pair)
  from one have "r \<noteq> None" by (cases rule: receive_one_cases) (use 0 in auto)
  with one n receive_one_clock [OF assms(1,2) one] show ?case by (auto simp: takes_def)
next
  case (Suc m)
  obtain k where n: "n = Suc k" "m < k" using Suc.prems(2) by (cases n) auto
  obtain r u where one: "receive_one False ops t s = (r, u)" by (metis surj_pair)
  note c = receive_one_clock [OF assms(1,2) one] and \<delta> = timely_step [OF assms(1)]
  have more: "2 * \<delta> * (int (Suc m) + 1) = 2 * \<delta> + 2 * \<delta> * (int m + 1)" by (simp add: algebra_simps)
  have pos: "0 \<le> 2 * \<delta> * (int m + 1)" using \<delta> by simp
  show ?case
  proof (cases "r = None \<and> \<not> selected u")
    case False
    have "clock (world u) \<le> max (clock (world s)) d + 2 * \<delta> * (int (Suc m) + 1)" using c pos unfolding more takes_def by linarith
    then show ?thesis using False one n by (cases r) auto
  next
    case True
    have "drained m ops (world u)" using one
    proof (cases rule: receive_one_cases)
      case (stop e frame w)
      then show ?thesis using True by simp
    next
      case (frame e frame w c v)
      then have "drained m ops w" "drained m ops (snd (frame_ref ops frame w))" using Suc.prems by auto
      moreover have "world v = w \<or> world v = snd (frame_ref ops frame w)"
        using frame(3) by (auto simp: consider_decoded_frame_def with_frame_def split: if_splits prod.splits)
      ultimately show ?thesis using frame(5) by auto
    qed
    from Suc.IH [OF this n(2)] obtain q s' where "drain_loop k ops t u = Some (q, s')" "clock (world s') \<le> max (clock (world u)) d + 2 * \<delta> * (int m + 1)"
      by blast
    moreover have "max (clock (world u)) d + 2 * \<delta> * (int m + 1) \<le> max (clock (world s)) d + 2 * \<delta> * (int (Suc m) + 1)"
      using c \<delta> unfolding more takes_def by linarith
    ultimately show ?thesis using one n(1) True by auto
  qed
qed

lemma drain_decoder_returns:
  assumes "timely ops clock d \<delta>" "supplied ops clock left" "\<And>w. drained m ops (snd (send_packet ops False w))" "m < n"
  shows "\<exists>r s'. drain_decoder n ops t s = Some (r, s') \<and> clock (world s') \<le> max (clock (world s)) d + (2 * int m + 4) * \<delta>"
proof -
  note \<delta> = timely_step [OF assms(1)]
  have pos: "0 \<le> int m * \<delta>" using \<delta> by simp
  obtain st w where i: "interrupted ops (world s) = (st, w)" by (metis surj_pair)
  note iw = interrupted_clock [OF assms(1,2) i]
  obtain e w1 where sd: "send_packet ops False w = (e, w1)" by (metis surj_pair)
  note sw = timelyD(6) [OF assms(1) sd]
  have "drained m ops (world (s\<lparr>world := w1\<rparr>))" using assms(3) [of w] sd by simp
  from drain_loop_returns [OF assms(1,2) this assms(4)] obtain r s' where
    "drain_loop n ops t (s\<lparr>world := w1\<rparr>) = Some (r, s')" "clock (world s') \<le> max (clock w1) d + 2 * \<delta> * (int m + 1)" by fastforce
  moreover have "2 * \<delta> * (int m + 1) = 2 * (int m * \<delta>) + 2 * \<delta>" "(2 * int m + 4) * \<delta> = 2 * (int m * \<delta>) + 4 * \<delta>" by (simp_all add: algebra_simps)
  then have end_: "clock w \<le> max (clock (world s)) d + (2 * int m + 4) * \<delta>" "clock (world s) \<le> max (clock (world s)) d + (2 * int m + 4) * \<delta>"
    "max (clock w1) d + 2 * \<delta> * (int m + 1) \<le> max (clock (world s)) d + (2 * int m + 4) * \<delta>" using iw sw \<delta> pos unfolding takes_def by linarith+
  ultimately show ?thesis using i sd by (cases "selected s"; cases st) (auto simp: drain_decoder_def intro: order_trans)
qed

text \<open>
  Property C12: the function returns, and soon after the deadline \<open>d\<close>. When the decoder can be drained
  within \<open>m\<close> frames, at most \<open>2409 + 2 m\<close> calls, of at most \<open>\<delta>\<close> each, run past the deadline (those of
  the round that began before it, and of draining), whatever streams the packets belong to. Fuel for
  the packets left, the microseconds and the \<open>m\<close> frames is enough.
\<close>

theorem decode_returns_by_deadline:
  assumes "timely ops clock d \<delta>" "supplied ops clock packets_left" "\<And>w. drained m ops (snd (send_packet ops False w))"
    and "packets_left (world s) + nat (d - clock (world s)) < fuel" "m < fuel"
  shows "\<exists>r s'. decode_thumbnail_frame fuel ops idx target s = Some (r, s') \<and>
    clock (world s') \<le> max (clock (world s)) d + (2409 + 2 * int m) * \<delta>"
proof -
  note \<delta> = timely_step [OF assms(1)]
  have pos: "0 \<le> int m * \<delta>" using \<delta> by simp
  obtain p w1 where p: "packet_alloc ops (world s) = (p, w1)" by (metis surj_pair)
  obtain f w2 where f: "frame_alloc ops w1 = (f, w2)" by (metis surj_pair)
  have c: "clock (world s) \<le> clock w2" "clock w2 \<le> max (clock (world s)) d + 2 * \<delta>" "packets_left w2 \<le> packets_left (world s)"
    using timelyD(4) [OF assms(1) p] timelyD(5) [OF assms(1) f] suppliedD(5) [OF assms(2) p] suppliedD(6) [OF assms(2) f]
    \<delta> unfolding takes_def by linarith+
  show ?thesis
  proof (cases "p \<and> f")
    case False
    have "(2409 + 2 * int m) * \<delta> = 2409 * \<delta> + 2 * (int m * \<delta>)" by (simp add: algebra_simps)
    then have "clock w2 \<le> max (clock (world s)) d + (2409 + 2 * int m) * \<delta>" using c(2) \<delta> pos by linarith
    then show ?thesis using False by (auto simp: decode_thumbnail_frame_def p f Let_def hold_def)
  next
    case True
    define v where "v = (hold True Decoded_Frame (hold True Packet (s\<lparr>world := w2\<rparr>)))
      \<lparr>selected := False, video_packets := 0, decoded_frames := 0, read_result := 0, decoded := blank_frame, cut_off := False\<rparr>"
    have v: "world v = w2" "decoded_frames v = 0" by (simp_all add: v_def hold_def)
    have "packets_left (world v) + nat (d - clock (world v)) < fuel" using v(1) c assms(4) by simp
    from decode_loop_returns [OF assms(1,2) this] v obtain r1 u where
      l: "decode_loop fuel ops idx target v = Some (r1, u)" "clock (world u) \<le> max (clock w2) (d + 2403 * \<delta>) + \<delta>" by fastforce
    obtain r2 x where dr: "drain_decoder fuel ops target u = Some (r2, x)" "clock (world x) \<le> max (clock (world u)) d + (2 * int m + 4) * \<delta>"
      using drain_decoder_returns [OF assms(1-3,5)] by blast
    obtain st w3 where i: "interrupted ops (world x) = (st, w3)" by (metis surj_pair)
    have late: "clock w3 \<le> max (clock (world x)) d + \<delta>" using interrupted_clock [OF assms(1,2) i] by (simp add: takes_def)
    have res: "clock (world (snd (decode_result ops (free_locals x)))) \<le> max (clock (world x)) d + \<delta>"
      using late i \<delta> by (auto simp: decode_result_def)
    have eq: "decode_thumbnail_frame fuel ops idx target s =
      (case r1 of Some e \<Rightarrow> Some (e, free_locals u) | None \<Rightarrow>
         (case r2 of Some e \<Rightarrow> Some (e, free_locals x) | None \<Rightarrow> Some (decode_result ops (free_locals x))))"
      using True l(1) dr(1) by (cases r1; cases r2) (auto simp: decode_thumbnail_frame_def p f Let_def v_def [symmetric])
    have four: "(2 * int m + 4) * \<delta> = 2 * (int m * \<delta>) + 4 * \<delta>"
      and bound: "(2409 + 2 * int m) * \<delta> = 2 * (int m * \<delta>) + 2409 * \<delta>" by (simp_all add: algebra_simps)
    have "clock (world u) \<le> max (clock (world s)) d + 2404 * \<delta>" using l(2) c(2) \<delta> by simp
    then have end_: "clock (world u) \<le> max (clock (world s)) d + (2409 + 2 * int m) * \<delta>"
      "clock (world x) \<le> max (clock (world s)) d + (2409 + 2 * int m) * \<delta>"
      "clock (world (snd (decode_result ops (free_locals x)))) \<le> max (clock (world s)) d + (2409 + 2 * int m) * \<delta>"
      using dr(2) res \<delta> pos unfolding four bound by linarith+
    show ?thesis using end_ unfolding eq by (cases r1; cases r2; cases "decode_result ops (free_locals x)") auto
  qed
qed

section \<open>A concrete decoder\<close>

text \<open>
  A stream of one frame per packet: the world is the clock and whether a frame is pending, a
  frame has ten times the clock as its time stamp, and the context's deadline is 50.
\<close>

definition demo_frame :: "int \<Rightarrow> av_frame" where
  "demo_frame t = \<lparr>fr_width = 4, fr_height = 2, fr_format = 0, fr_flags = 0,
     best_effort_timestamp = 10 * t, fr_data = []\<rparr>"

definition demo_ops :: "(int \<times> bool) codec_ops" where
  "demo_ops = \<lparr>packet_alloc = (\<lambda>w. (True, w)), frame_alloc = (\<lambda>w. (True, w)),
     read_frame = (\<lambda>(t, p). (0, 0, (t + 1, p))),
     send_packet = (\<lambda>b (t, p). (0, (t, b))),
     receive_frame = (\<lambda>(t, p). if p then (0, demo_frame t, (t, False)) else (AVERROR_EAGAIN, blank_frame, (t, p))),
     frame_ref = (\<lambda>f w. (0, w)),
     gettime = (\<lambda>(t, p). (t, (t, p))),
     io_context = (\<lambda>w. Some \<lparr>scratch = None, scratch_capacity = 0, position = 0, total_size = 0,
                             total_read = 0, deadline_us = 50, failed = False\<rparr>)\<rparr>"

definition demo_state :: "(int \<times> bool) decode_state" where
  "demo_state = \<lparr>world = (1, False), candidate = blank_frame, decoded = blank_frame, selected = False,
     video_packets = 0, decoded_frames = 0, read_result = 0, live = [Candidate_Frame], received = [], cut_off = False\<rparr>"

lemma demo_fresh: "fresh demo_state"
  by (simp add: fresh_def demo_state_def)

lemmas demo_defs = decode_thumbnail_frame_def demo_ops_def demo_state_def demo_frame_def blank_frame_def
  hold_def free_locals_def drain_decoder_def decode_result_def interrupted_def deadline_expired_def
  receive_one_def consider_decoded_frame_def is_usable_frame_def at_target_def Let_def
  MAX_VIDEO_PACKETS_def MAX_DECODED_FRAMES_def

lemma demo_run:
  "\<exists>s'. decode_thumbnail_frame 5 demo_ops 0 25 demo_state = Some (0, s') \<and>
     received s' = [demo_frame 2, demo_frame 3] \<and> candidate s' = demo_frame 3 \<and> video_packets s' = 2 \<and>
     decoded_frames s' = 2 \<and> live s' = [Candidate_Frame]"
  by (simp add: demo_defs eval_nat_numeral receive_loop.simps)

theorem decode_selects_first_at_target_witness:
  "\<exists>s'. decode_thumbnail_frame 5 demo_ops 0 25 demo_state = Some (0, s') \<and>
     candidate s' = last (filter is_usable_frame (received s')) \<and>
     (\<forall>f \<in> set (butlast (filter is_usable_frame (received s'))). \<not> at_target 25 f) \<and>
     (at_target 25 (candidate s') \<or> cut_off s' \<or> input_over s' \<and> exhausted demo_ops (world s'))"
proof -
  obtain s' where s': "decode_thumbnail_frame 5 demo_ops 0 25 demo_state = Some (0, s')" using demo_run by blast
  from decode_selects_first_at_target [OF s' demo_fresh refl] s' show ?thesis by auto
qed

theorem decode_work_is_bounded_witness:
  "\<exists>s'. decode_thumbnail_frame 5 demo_ops 0 25 demo_state = Some (0, s') \<and>
     video_packets s' = 2 \<and> video_packets s' \<le> 12000 \<and> decoded_frames s' \<le> 1200"
  using demo_run decode_work_is_bounded [OF _ demo_fresh] by fastforce

theorem decode_releases_its_locals_witness:
  "\<exists>s'. decode_thumbnail_frame 5 demo_ops 0 25 demo_state = Some (0, s') \<and> live s' = live demo_state"
  using demo_run decode_releases_its_locals [OF _ demo_fresh] by blast

lemma demo_timely: "timely demo_ops fst 50 1" "supplied demo_ops fst (\<lambda>w. 0)"
  by (auto simp: timely_def takes_def supplied_def demo_ops_def)

theorem decode_returns_by_deadline_witness:
  "\<exists>r s'. decode_thumbnail_frame 60 demo_ops 7 25 demo_state = Some (r, s') \<and> fst (world s') \<le> 50 + 2409"
proof -
  have "\<exists>r s'. decode_thumbnail_frame 60 demo_ops 7 25 demo_state = Some (r, s') \<and>
      fst (world s') \<le> max (fst (world demo_state)) 50 + (2409 + 2 * int 0) * 1"
  proof (rule decode_returns_by_deadline [OF demo_timely])
    show "drained 0 demo_ops (snd (send_packet demo_ops False w))" for w
      by (cases w) (simp add: demo_ops_def)
  qed (simp_all add: demo_state_def)
  then show ?thesis by (simp add: demo_state_def)
qed

end
