(* ===== verification/Strings.thy ===== *)
theory Strings
  imports Prelude "HOL-Library.Sublist"
begin

text \<open>
  The string routines of \<open>libavutil/avstring.c\<close> and the backslash escaping of
  \<open>libavutil/bprint.c\<close>. A C string is the list of its characters up to the terminating NUL;
  reading one character past a suffix is the test for the empty list. The tokeniser
  \<open>av_get_token\<close> and the escaping are inverse to each other.
\<close>

section \<open>Characters\<close>

definition av_toupper :: "char \<Rightarrow> char" where
  "av_toupper c = (let n = of_char c :: nat in if 97 \<le> n \<and> n \<le> 122 then char_of (n - 32) else c)"

definition av_tolower :: "char \<Rightarrow> char" where
  "av_tolower c = (let n = of_char c :: nat in if 65 \<le> n \<and> n \<le> 90 then char_of (n + 32) else c)"

definition WHITESPACES :: string where
  "WHITESPACES = [CHR '' '', CHR 0x0A, CHR 0x09, CHR 0x0D]"

abbreviation is_ws :: "char \<Rightarrow> bool" where "is_ws c \<equiv> c \<in> set WHITESPACES"
abbreviation backslash :: char where "backslash \<equiv> CHR 0x5C"
abbreviation quote :: char where "quote \<equiv> CHR 0x27"

lemma not_ws [simp]: "\<not> is_ws backslash" "\<not> is_ws quote"
  by (simp_all add: WHITESPACES_def)

section \<open>Prefixes and comparison\<close>

text \<open>\<open>av_strstart\<close>: the rest of the string after the prefix (\<open>*ptr\<close>), \<open>None\<close> for the result 0.\<close>

fun av_strstart :: "string \<Rightarrow> string \<Rightarrow> string option" where
  "av_strstart str [] = Some str"
| "av_strstart [] (p # pfx) = None"
| "av_strstart (c # str) (p # pfx) = (if p = c then av_strstart str pfx else None)"

fun av_stristart :: "string \<Rightarrow> string \<Rightarrow> string option" where
  "av_stristart str [] = Some str"
| "av_stristart [] (p # pfx) = None"
| "av_stristart (c # str) (p # pfx) = (if av_toupper p = av_toupper c then av_stristart str pfx else None)"

fun av_stristr :: "string \<Rightarrow> string \<Rightarrow> string option" where
  "av_stristr s1 s2 =
     (if s2 = [] then Some s1
      else if av_stristart s1 s2 \<noteq> None then Some s1
      else case s1 of [] \<Rightarrow> None | c # cs \<Rightarrow> av_stristr cs s2)"

declare av_stristr.simps [simp del]

text \<open>The difference of the first characters that differ, 0 for the end of the string.\<close>

fun av_strcasecmp :: "string \<Rightarrow> string \<Rightarrow> int" where
  "av_strcasecmp [] [] = 0"
| "av_strcasecmp (c # a) [] = of_char (av_tolower c)"
| "av_strcasecmp [] (d # b) = - of_char (av_tolower d)"
| "av_strcasecmp (c # a) (d # b) =
     (if av_tolower c = av_tolower d then av_strcasecmp a b
      else of_char (av_tolower c) - of_char (av_tolower d))"

definition av_strncasecmp :: "string \<Rightarrow> string \<Rightarrow> nat \<Rightarrow> int" where
  "av_strncasecmp a b n = av_strcasecmp (take n a) (take n b)"

lemma av_strstart_iff: "av_strstart str pfx = Some r \<longleftrightarrow> str = pfx @ r"
  by (induction str pfx rule: av_strstart.induct) auto

lemma av_stristart_iff:
  "av_stristart str pfx = Some r \<longleftrightarrow> (\<exists>p. str = p @ r \<and> List.map av_toupper p = List.map av_toupper pfx)"
  by (induction str pfx rule: av_stristart.induct) (auto simp: Cons_eq_append_conv)

section \<open>Bounded copies\<close>

text \<open>
  \<open>av_strlcpy(dst, src, size)\<close> stores the result string (with its NUL) in a buffer of \<open>size\<close>
  bytes; the result is the string stored, \<open>None\<close> when nothing is written, and the length.
\<close>

definition av_strlcpy :: "string \<Rightarrow> nat \<Rightarrow> string option \<times> nat" where
  "av_strlcpy src sz = (if sz = 0 then None else Some (take (sz - 1) src), length src)"

definition av_strlcat :: "string \<Rightarrow> string \<Rightarrow> nat \<Rightarrow> string \<times> nat" where
  "av_strlcat dst src sz =
     (let len = length dst in
      if sz \<le> len + 1 then (dst, len + length src)
      else case av_strlcpy src (sz - len) of
             (None, n) \<Rightarrow> (dst, len + n)
           | (Some s, n) \<Rightarrow> (dst @ s, len + n))"

section \<open>Tokens\<close>

text \<open>
  The loop of \<open>av_get_token\<close>: the output so far, the offset \<open>end\<close> behind which trailing white
  space is removed, and the input left.
\<close>

function token_loop :: "string \<Rightarrow> string \<Rightarrow> string \<Rightarrow> nat \<Rightarrow> string \<times> nat \<times> string" where
  "token_loop term p out e =
     (if p = [] \<or> hd p \<in> set term then (out, e, p)
      else
        let c = hd p; p = tl p in
        if c = backslash \<and> p \<noteq> [] then token_loop term (tl p) (out @ [hd p]) (length out + 1)
        else if c = quote then
          let quoted = takeWhile (\<lambda>c. c \<noteq> quote) p; rest = dropWhile (\<lambda>c. c \<noteq> quote) p; out = out @ quoted in
          if rest \<noteq> [] then token_loop term (tl rest) out (length out)
          else token_loop term [] out e
        else token_loop term p (out @ [c]) e)"
  by pat_completeness auto
termination
proof (relation "measure (\<lambda>(term, p, out, e). length p)", goal_cases)
  case (3 trm p out e c p1 quoted rest out1)
  have "length rest \<le> length p1" unfolding \<open>rest = _\<close> by (rule length_dropWhile_le)
  moreover have "p1 = tl p" "p \<noteq> []" using 3 by blast+
  ultimately have "length (tl rest) < length p" by (cases p; cases rest) auto
  then show ?case by simp
qed auto

declare token_loop.simps [simp del]

definition rtrim :: "string \<Rightarrow> string" where
  "rtrim s = rev (dropWhile is_ws (rev s))"

definition av_get_token :: "string \<Rightarrow> string \<Rightarrow> string \<times> string" where
  "av_get_token buf term =
     (case token_loop term (dropWhile is_ws buf) [] 0 of
        (out, e, p) \<Rightarrow> (take e out @ rtrim (drop e out), p))"

section \<open>Escaping\<close>

definition AV_ESCAPE_FLAG_WHITESPACE :: int where "AV_ESCAPE_FLAG_WHITESPACE = 1"
definition AV_ESCAPE_FLAG_STRICT :: int where "AV_ESCAPE_FLAG_STRICT = 2"

text \<open>\<open>av_bprint_escape\<close> in the mode \<open>AV_ESCAPE_MODE_BACKSLASH\<close>; \<open>first\<close> says \<open>src == src0\<close>.\<close>

fun escape_from :: "string \<Rightarrow> int \<Rightarrow> bool \<Rightarrow> string \<Rightarrow> string" where
  "escape_from special_chars flags first [] = []"
| "escape_from special_chars flags first (c # src) =
     (let is_first_last = first \<or> src = [];
          is_strictly_special = c \<in> set special_chars;
          is_special = is_strictly_special \<or> c = quote \<or> c = backslash \<or>
                       (is_ws c \<and> has_flag flags AV_ESCAPE_FLAG_WHITESPACE)
      in (if is_strictly_special \<or>
             (\<not> has_flag flags AV_ESCAPE_FLAG_STRICT \<and> (is_special \<or> (is_ws c \<and> is_first_last)))
          then [backslash, c] else [c]) @ escape_from special_chars flags False src)"

definition av_bprint_escape :: "string \<Rightarrow> string \<Rightarrow> int \<Rightarrow> string" where
  "av_bprint_escape src special_chars flags = escape_from special_chars flags True src"

section \<open>Tokenising undoes escaping\<close>

text \<open>The mark after a token: behind it only characters that are not trimmed.\<close>

definition mark_ok :: "string \<Rightarrow> nat \<Rightarrow> bool" where
  "mark_ok out e \<longleftrightarrow> e \<le> length out \<and> (e = length out \<or> \<not> is_ws (last out))"

lemma mark_ok_trim: "mark_ok out e \<Longrightarrow> take e out @ rtrim (drop e out) = out"
proof -
  assume m: "mark_ok out e"
  show ?thesis
  proof (cases "e = length out")
    case True
    then show ?thesis by (simp add: rtrim_def)
  next
    case False
    with m have e: "e < length out" and l: "\<not> is_ws (last out)" by (auto simp: mark_ok_def)
    then have "drop e out \<noteq> []" "last (drop e out) = last out" by (simp_all add: last_drop)
    then have "rev (drop e out) \<noteq> []" "hd (rev (drop e out)) = last out" by (simp_all add: hd_rev)
    with l have "dropWhile is_ws (rev (drop e out)) = rev (drop e out)"
      by (cases "rev (drop e out)") auto
    then show ?thesis by (simp add: rtrim_def)
  qed
qed

lemma token_loop_escape:
  assumes "set term \<subseteq> set special" "backslash \<notin> set special" "p = [] \<or> hd p \<in> set term"
    and "mark_ok out e \<or> (src \<noteq> [] \<and> e \<le> length out)"
  shows "\<exists>e'. token_loop term (escape_from special 0 first src @ p) out e = (out @ src, e', p) \<and>
    mark_ok (out @ src) e'"
  using assms(4)
proof (induction src arbitrary: first out e)
  case Nil
  then show ?case using assms(3) by (auto simp: token_loop.simps [of "term" p])
next
  case (Cons c src)
  define q where "q = escape_from special 0 False src @ p"
  have flags: "\<not> has_flag 0 AV_ESCAPE_FLAG_WHITESPACE" "\<not> has_flag 0 AV_ESCAPE_FLAG_STRICT"
    by (simp_all add: has_flag_def)
  have e: "e \<le> length out" using Cons.prems by (auto simp: mark_ok_def)
  show ?case
  proof (cases "c \<in> set special \<or> c = quote \<or> c = backslash \<or> (is_ws c \<and> (first \<or> src = []))")
    case True
    then have "escape_from special 0 first (c # src) @ p = backslash # c # q"
      using flags by (auto simp: q_def Let_def)
    moreover have "token_loop term (backslash # c # q) out e = token_loop term q (out @ [c]) (length out + 1)"
      using assms(1,2) by (subst token_loop.simps) auto
    moreover have "mark_ok (out @ [c]) (length out + 1)" by (simp add: mark_ok_def)
    ultimately show ?thesis
      using Cons.IH [of "out @ [c]" "length out + 1" False] by (simp add: q_def)
  next
    case False
    then have "escape_from special 0 first (c # src) @ p = c # q"
      using flags by (auto simp: q_def Let_def)
    moreover have "token_loop term (c # q) out e = token_loop term q (out @ [c]) e"
      using assms(1) False by (subst token_loop.simps) auto
    moreover have "mark_ok (out @ [c]) e \<or> (src \<noteq> [] \<and> e \<le> length (out @ [c]))"
      using False e by (auto simp: mark_ok_def)
    ultimately show ?thesis
      using Cons.IH [of "out @ [c]" e False] by (simp add: q_def)
  qed
qed

lemma escape_not_ws:
  "escape_from special 0 True src @ p = dropWhile is_ws (escape_from special 0 True src @ p)"
  if "src \<noteq> [] \<or> p = [] \<or> \<not> is_ws (hd p)"
proof (cases src)
  case Nil
  with that show ?thesis by (cases p) auto
next
  case (Cons c s)
  then show ?thesis by (auto simp: Let_def has_flag_def)
qed

lemma token_escape_inverse:
  assumes "set term \<subseteq> set special" "backslash \<notin> set special" "p = [] \<or> hd p \<in> set term" "src \<noteq> []"
  shows "av_get_token (av_bprint_escape src special 0 @ p) term = (src, p)"
proof -
  have "\<exists>e. token_loop term (escape_from special 0 True src @ p) [] 0 = ([] @ src, e, p) \<and> mark_ok ([] @ src) e"
    by (rule token_loop_escape [OF assms(1-3)]) (use assms(4) in simp)
  then obtain e where t: "token_loop term (escape_from special 0 True src @ p) [] 0 = (src, e, p)" and m: "mark_ok src e"
    by auto
  have "dropWhile is_ws (escape_from special 0 True src @ p) = escape_from special 0 True src @ p"
    using escape_not_ws assms(4) by metis
  with t show ?thesis by (simp add: av_get_token_def av_bprint_escape_def mark_ok_trim [OF m])
qed

text \<open>
  For every string, escaping it and reading it back as a token ending at one of
  the escaped special characters gives the string and leaves exactly the rest of the input,
  white space, quotes and backslashes included.
\<close>

theorem get_token_undoes_escape:
  assumes "set term \<subseteq> set special" "backslash \<notin> set special" "p = [] \<or> hd p \<in> set term" "src \<noteq> []"
  shows "av_get_token (av_bprint_escape src special 0 @ p) term = (src, p)"
  using assms by (rule token_escape_inverse)

theorem get_token_undoes_escape_witness:
  "av_bprint_escape '' a:b '' '':='' 0 = [backslash, CHR '' '', CHR ''a'', backslash, CHR '':'', CHR ''b'', backslash, CHR '' ''] \<and>
   av_get_token (av_bprint_escape '' a:b '' '':='' 0 @ '':x'') '':'' = ('' a:b '', '':x'')"
  using get_token_undoes_escape [of "'':''" "'':=''" "'':x''" "'' a:b ''"]
  by (simp add: av_bprint_escape_def has_flag_def AV_ESCAPE_FLAG_WHITESPACE_def AV_ESCAPE_FLAG_STRICT_def WHITESPACES_def)

end
