(* ===== verification/Dict.thy ===== *)
theory Dict
  imports Strings "HOL-Library.Multiset"
begin

text \<open>
  \<open>libavutil/dict.c\<close>: the option dictionary the extractor hands to the demuxer. A dictionary
  is the array of its entries in order, \<open>None\<close> for the \<open>NULL\<close> pointer; an entry found by
  \<open>av_dict_get\<close> is its index. Every allocation may fail, as \<open>alloc\<close> says.
\<close>

type_synonym entry = "string \<times> string"
type_synonym dict = "entry list option"

datatype alloc_site = Strdup_Value | Strdup_Key | New_Dict | Grow_Value | Grow_Elems | Token | Print | Print_Grow

definition AV_DICT_MATCH_CASE :: int where "AV_DICT_MATCH_CASE = 1"
definition AV_DICT_IGNORE_SUFFIX :: int where "AV_DICT_IGNORE_SUFFIX = 2"
definition AV_DICT_DONT_STRDUP_KEY :: int where "AV_DICT_DONT_STRDUP_KEY = 4"
definition AV_DICT_DONT_STRDUP_VAL :: int where "AV_DICT_DONT_STRDUP_VAL = 8"
definition AV_DICT_DONT_OVERWRITE :: int where "AV_DICT_DONT_OVERWRITE = 16"
definition AV_DICT_APPEND :: int where "AV_DICT_APPEND = 32"
definition AV_DICT_MULTIKEY :: int where "AV_DICT_MULTIKEY = 64"
definition AV_DICT_DEDUP :: int where "AV_DICT_DEDUP = 128"

lemmas dict_flags = AV_DICT_MATCH_CASE_def AV_DICT_IGNORE_SUFFIX_def AV_DICT_DONT_STRDUP_KEY_def
  AV_DICT_DONT_STRDUP_VAL_def AV_DICT_DONT_OVERWRITE_def AV_DICT_APPEND_def AV_DICT_MULTIKEY_def
  AV_DICT_DEDUP_def

section \<open>Lookup\<close>

definition entries :: "dict \<Rightarrow> entry list" where
  "entries m = (case m of None \<Rightarrow> [] | Some es \<Rightarrow> es)"

definition av_dict_count :: "dict \<Rightarrow> int" where
  "av_dict_count m = int (length (entries m))"

text \<open>The next index after \<open>prev\<close>.\<close>

definition av_dict_iterate :: "dict \<Rightarrow> nat option \<Rightarrow> nat option" where
  "av_dict_iterate m prev =
     (let i = (case prev of None \<Rightarrow> 0 | Some p \<Rightarrow> p + 1) in
      if i \<ge> length (entries m) then None else Some i)"

text \<open>The comparison of a key \<open>s\<close> of the dictionary with the key looked up.\<close>

fun key_matches :: "(char \<Rightarrow> char) \<Rightarrow> bool \<Rightarrow> string \<Rightarrow> string \<Rightarrow> bool" where
  "key_matches fold_case ignore_suffix s [] \<longleftrightarrow> s = [] \<or> ignore_suffix"
| "key_matches fold_case ignore_suffix [] (k # key) \<longleftrightarrow> False"
| "key_matches fold_case ignore_suffix (c # s) (k # key) \<longleftrightarrow>
     fold_case c = fold_case k \<and> key_matches fold_case ignore_suffix s key"

definition matches :: "int \<Rightarrow> string \<Rightarrow> string \<Rightarrow> bool" where
  "matches flags s key =
     key_matches (if has_flag flags AV_DICT_MATCH_CASE then (\<lambda>c. c) else av_toupper)
       (has_flag flags AV_DICT_IGNORE_SUFFIX) s key"

function get_from :: "dict \<Rightarrow> string \<Rightarrow> nat option \<Rightarrow> int \<Rightarrow> nat option" where
  "get_from m key prev flags =
     (case av_dict_iterate m prev of
        None \<Rightarrow> None
      | Some i \<Rightarrow> if matches flags (fst (entries m ! i)) key then Some i else get_from m key (Some i) flags)"
  by pat_completeness auto
termination
  by (relation "measure (\<lambda>(m, key, prev, flags). length (entries m) - (case prev of None \<Rightarrow> 0 | Some p \<Rightarrow> p + 1))")
    (auto simp: av_dict_iterate_def Let_def split: if_splits option.splits)

declare get_from.simps [simp del]

definition av_dict_get :: "dict \<Rightarrow> string option \<Rightarrow> nat option \<Rightarrow> int \<Rightarrow> nat option" where
  "av_dict_get m key prev flags = (case key of None \<Rightarrow> None | Some k \<Rightarrow> get_from m k prev flags)"

section \<open>Update\<close>

text \<open>Lines 111 to 119: an entry after \<open>prev\<close> with this key and the same value.\<close>

function duplicate_from :: "dict \<Rightarrow> string \<Rightarrow> string option \<Rightarrow> nat option \<Rightarrow> int \<Rightarrow> bool" where
  "duplicate_from m key value prev flags =
     (case get_from m key prev flags of
        None \<Rightarrow> False
      | Some i \<Rightarrow> value = Some (snd (entries m ! i)) \<or> duplicate_from m key value (Some i) flags)"
  by pat_completeness auto

lemma get_from_after:
  "get_from m key prev flags = Some i \<Longrightarrow>
   (case prev of None \<Rightarrow> 0 | Some p \<Rightarrow> p + 1) \<le> i \<and> i < length (entries m) \<and> matches flags (fst (entries m ! i)) key"
proof (induction m key prev flags rule: get_from.induct)
  case (1 m key prev flags)
  show ?case
  proof (cases "av_dict_iterate m prev")
    case None
    with "1.prems" show ?thesis by (simp add: get_from.simps [of m key prev])
  next
    case (Some j)
    then have j: "j = (case prev of None \<Rightarrow> 0 | Some p \<Rightarrow> p + 1)" "j < length (entries m)"
      by (auto simp: av_dict_iterate_def Let_def split: if_splits)
    show ?thesis
    proof (cases "matches flags (fst (entries m ! j)) key")
      case True
      with "1.prems" Some have "i = j" by (simp add: get_from.simps [of m key prev])
      with j True show ?thesis by simp
    next
      case False
      with "1.prems" Some have "get_from m key (Some j) flags = Some i"
        by (simp add: get_from.simps [of m key prev])
      with "1.IH" [OF Some False] j show ?thesis by (auto split: option.splits)
    qed
  qed
qed

termination duplicate_from
proof (relation "measure (\<lambda>(m, key, value, prev, flags). length (entries m) - (case prev of None \<Rightarrow> 0 | Some p \<Rightarrow> p + 1))", simp)
  fix m key val prev flags i
  assume "get_from m key prev flags = Some i"
  from get_from_after [OF this] show "((m, key, val, Some i, flags), m, key, val, prev, flags)
      \<in> measure (\<lambda>(m, key, value, prev, flags). length (entries m) - (case prev of None \<Rightarrow> 0 | Some p \<Rightarrow> p + 1))"
    by (auto split: option.splits)
qed

declare duplicate_from.simps [simp del]

text \<open>\<open>*tag = m->elems[--m->count]\<close>: the last entry takes the place of the one removed.\<close>

definition remove_swap :: "nat \<Rightarrow> entry list \<Rightarrow> entry list" where
  "remove_swap i es = butlast (es[i := last es])"

text \<open>The label \<open>end\<close>: an empty dictionary is freed.\<close>

definition normalised :: "entry list \<Rightarrow> dict" where
  "normalised es = (if es = [] then None else Some es)"

definition av_dict_set ::
  "(alloc_site \<Rightarrow> bool) \<Rightarrow> dict \<Rightarrow> string option \<Rightarrow> string option \<Rightarrow> int \<Rightarrow> int \<times> dict" where
  "av_dict_set alloc m key value flags =
     (case key of
        None \<Rightarrow> (AVERROR_EINVAL, normalised (entries m))
      | Some k \<Rightarrow>
          if (\<not> has_flag flags AV_DICT_DONT_STRDUP_KEY \<and> \<not> alloc Strdup_Key) \<or>
             (value \<noteq> None \<and> \<not> has_flag flags AV_DICT_DONT_STRDUP_VAL \<and> \<not> alloc Strdup_Value)
          then (AVERROR_ENOMEM, normalised (entries m))
          else if has_flag flags AV_DICT_MULTIKEY \<and> has_flag flags AV_DICT_DEDUP \<and>
                  duplicate_from m k value None flags
          then (0, m)
          else
            let tag = (if has_flag flags AV_DICT_MULTIKEY then None else av_dict_get m key None flags) in
            if m = None \<and> \<not> alloc New_Dict then (AVERROR_ENOMEM, None)
            else
              case tag of
                Some i \<Rightarrow>
                  if has_flag flags AV_DICT_DONT_OVERWRITE then (0, m)
                  else
                    (case value of
                       None \<Rightarrow> (0, normalised (remove_swap i (entries m)))
                     | Some v \<Rightarrow>
                         if has_flag flags AV_DICT_APPEND then
                           (if \<not> alloc Grow_Value then (AVERROR_ENOMEM, normalised (entries m))
                            else (0, Some (remove_swap i (entries m) @ [(k, snd (entries m ! i) @ v)])))
                         else (0, Some (remove_swap i (entries m) @ [(k, v)])))
              | None \<Rightarrow>
                  (case value of
                     None \<Rightarrow> (0, normalised (entries m))
                   | Some v \<Rightarrow>
                       if \<not> alloc Grow_Elems then (AVERROR_ENOMEM, normalised (entries m))
                       else (0, Some (entries m @ [(k, v)]))))"

text \<open>\<open>strdup\<close> of the decimal digits of an \<open>int64_t\<close>.\<close>

fun digits :: "nat \<Rightarrow> string" where
  "digits n = (if n < 10 then [char_of (48 + n)] else digits (n div 10) @ [char_of (48 + n mod 10)])"

declare digits.simps [simp del]

definition print_int :: "int \<Rightarrow> string" where
  "print_int i = (if i < 0 then CHR ''-'' # digits (nat (- i)) else digits (nat i))"

definition av_dict_set_int :: "(alloc_site \<Rightarrow> bool) \<Rightarrow> dict \<Rightarrow> string option \<Rightarrow> int \<Rightarrow> int \<Rightarrow> int \<times> dict" where
  "av_dict_set_int alloc m key value flags =
     av_dict_set alloc m key (Some (print_int value)) (clear_flag flags AV_DICT_DONT_STRDUP_VAL)"

definition av_dict_free :: "dict \<Rightarrow> dict" where
  "av_dict_free m = None"

text \<open>\<open>av_dict_copy\<close>, from entry \<open>i\<close> of the source on.\<close>

fun copy_entries :: "(alloc_site \<Rightarrow> bool) \<Rightarrow> dict \<Rightarrow> entry list \<Rightarrow> int \<Rightarrow> int \<times> dict" where
  "copy_entries alloc dst [] flags = (0, dst)"
| "copy_entries alloc dst ((k, v) # es) flags =
     (case av_dict_set alloc dst (Some k) (Some v) flags of
        (ret, dst) \<Rightarrow> if ret < 0 then (ret, dst) else copy_entries alloc dst es flags)"

definition av_dict_copy :: "(alloc_site \<Rightarrow> bool) \<Rightarrow> dict \<Rightarrow> dict \<Rightarrow> int \<Rightarrow> int \<times> dict" where
  "av_dict_copy alloc dst src flags = copy_entries alloc dst (entries src) flags"

section \<open>Text form\<close>

definition parse_key_value_pair ::
  "(alloc_site \<Rightarrow> bool) \<Rightarrow> dict \<Rightarrow> string \<Rightarrow> string \<Rightarrow> string \<Rightarrow> int \<Rightarrow> int \<times> dict \<times> string" where
  "parse_key_value_pair alloc m buf key_val_sep pairs_sep flags =
     (if \<not> alloc Token then (AVERROR_EINVAL, m, buf)
      else case av_get_token buf key_val_sep of (key, buf) \<Rightarrow>
        let (val, buf) = (if key \<noteq> [] \<and> buf \<noteq> [] \<and> hd buf \<in> set key_val_sep
                          then (case av_get_token (tl buf) pairs_sep of (v, b) \<Rightarrow> (Some v, b))
                          else (None, buf))
        in if key \<noteq> [] \<and> val \<noteq> None \<and> val \<noteq> Some []
           then (case av_dict_set alloc m (Some key) val flags of (ret, m) \<Rightarrow> (ret, m, buf))
           else (AVERROR_EINVAL, m, buf))"

text \<open>The loop of \<open>av_dict_parse_string\<close>; a round that consumes nothing fails with \<open>EINVAL\<close>.\<close>

fun parse_loop ::
  "nat \<Rightarrow> (alloc_site \<Rightarrow> bool) \<Rightarrow> dict \<Rightarrow> string \<Rightarrow> string \<Rightarrow> string \<Rightarrow> int \<Rightarrow> (int \<times> dict) option" where
  "parse_loop 0 alloc m str key_val_sep pairs_sep flags = None"
| "parse_loop (Suc n) alloc m str key_val_sep pairs_sep flags =
     (if str = [] then Some (0, m)
      else case parse_key_value_pair alloc m str key_val_sep pairs_sep flags of (ret, m, str) \<Rightarrow>
        if ret < 0 then Some (ret, m)
        else parse_loop n alloc m (tl str) key_val_sep pairs_sep flags)"

definition av_dict_parse_string ::
  "(alloc_site \<Rightarrow> bool) \<Rightarrow> dict \<Rightarrow> string option \<Rightarrow> string \<Rightarrow> string \<Rightarrow> int \<Rightarrow> (int \<times> dict) option" where
  "av_dict_parse_string alloc m str key_val_sep pairs_sep flags =
     (case str of
        None \<Rightarrow> Some (0, m)
      | Some s \<Rightarrow> parse_loop (length s + 1) alloc m s key_val_sep pairs_sep
                   (clear_flag (clear_flag flags AV_DICT_DONT_STRDUP_KEY) AV_DICT_DONT_STRDUP_VAL))"

fun print_entries :: "entry list \<Rightarrow> char \<Rightarrow> char \<Rightarrow> bool \<Rightarrow> string" where
  "print_entries [] key_val_sep pairs_sep first = []"
| "print_entries ((k, v) # es) key_val_sep pairs_sep first =
     (if first then [] else [pairs_sep]) @
     av_bprint_escape k [pairs_sep, key_val_sep] 0 @ [key_val_sep] @
     av_bprint_escape v [pairs_sep, key_val_sep] 0 @ print_entries es key_val_sep pairs_sep False"

text \<open>
  The result. A text that fits the internal buffer of \<open>AVBPrint\<close> (1024 bytes less its header of 20, on
  64 bits) is copied at the end, which may fail; for a longer one the buffer grows, and when that
  fails the text is cut off, without an error.
\<close>

definition bprint_finalized :: "(alloc_site \<Rightarrow> bool) \<Rightarrow> string \<Rightarrow> int + string" where
  "bprint_finalized alloc text =
     (if length text \<ge> 1004 \<and> alloc Print_Grow then Inr text
      else if alloc Print then Inr (take 1003 text) else Inl AVERROR_ENOMEM)"

text \<open>\<open>Inl\<close> the error; the separators are characters, \<open>CHR 0\<close> for \<open>'\0'\<close>.\<close>

definition av_dict_get_string :: "(alloc_site \<Rightarrow> bool) \<Rightarrow> dict \<Rightarrow> char \<Rightarrow> char \<Rightarrow> int + string" where
  "av_dict_get_string alloc m key_val_sep pairs_sep =
     (if pairs_sep = CHR 0x00 \<or> key_val_sep = CHR 0x00 \<or> pairs_sep = key_val_sep \<or>
         pairs_sep = backslash \<or> key_val_sep = backslash
      then Inl AVERROR_EINVAL
      else if av_dict_count m = 0 then (if alloc Print then Inr [] else Inl AVERROR_ENOMEM)
      else bprint_finalized alloc (print_entries (entries m) key_val_sep pairs_sep True))"

lemma bprint_all: "bprint_finalized (\<lambda>s. True) text = Inr text"
  by (simp add: bprint_finalized_def)

section \<open>Lookup as a map\<close>

text \<open>
  Without \<open>AV_DICT_IGNORE_SUFFIX\<close> two keys match when they are equal up to case (exactly equal
  with \<open>AV_DICT_MATCH_CASE\<close>): when their canonical forms are the same.
\<close>

definition canon :: "int \<Rightarrow> string \<Rightarrow> string" where
  "canon flags = List.map (if has_flag flags AV_DICT_MATCH_CASE then (\<lambda>c. c) else av_toupper)"

definition lookup :: "dict \<Rightarrow> string \<Rightarrow> int \<Rightarrow> string option" where
  "lookup m key flags = map_option (\<lambda>i. snd (entries m ! i)) (av_dict_get m (Some key) None flags)"

definition keys_distinct :: "int \<Rightarrow> dict \<Rightarrow> bool" where
  "keys_distinct flags m \<longleftrightarrow> distinct (List.map (\<lambda>e. canon flags (fst e)) (entries m))"

lemma key_matches_iff: "key_matches f False s k \<longleftrightarrow> List.map f s = List.map f k"
  by (induction f "False" s k rule: key_matches.induct) auto

lemma matches_iff:
  "\<not> has_flag flags AV_DICT_IGNORE_SUFFIX \<Longrightarrow> matches flags s k \<longleftrightarrow> canon flags s = canon flags k"
  by (simp add: matches_def canon_def key_matches_iff)

lemma get_from_complete:
  "get_from m key prev flags = None \<Longrightarrow> (case prev of None \<Rightarrow> 0 | Some p \<Rightarrow> p + 1) \<le> j \<Longrightarrow>
   j < length (entries m) \<Longrightarrow> \<not> matches flags (fst (entries m ! j)) key"
proof (induction m key prev flags rule: get_from.induct)
  case (1 m key prev flags)
  define i where "i = (case prev of None \<Rightarrow> 0 | Some p \<Rightarrow> p + 1)"
  have it: "av_dict_iterate m prev = Some i" using "1.prems" by (simp add: av_dict_iterate_def Let_def i_def)
  have no: "\<not> matches flags (fst (entries m ! i)) key" and rest: "get_from m key (Some i) flags = None"
    using "1.prems"(1) it by (auto simp: get_from.simps [of m key prev] split: if_splits)
  show ?case
  proof (cases "j = i")
    case True
    with no show ?thesis by simp
  next
    case False
    with "1.IH" [OF it no rest] "1.prems"(2,3) show ?thesis by (simp add: i_def [symmetric])
  qed
qed

lemma lookup_iff:
  assumes "\<not> has_flag flags AV_DICT_IGNORE_SUFFIX" "keys_distinct flags m"
  shows "lookup m k flags = Some v \<longleftrightarrow> (\<exists>k'. (k', v) \<in> set (entries m) \<and> canon flags k' = canon flags k)"
proof (cases "get_from m k None flags")
  case None
  have "canon flags k' \<noteq> canon flags k" if "(k', v) \<in> set (entries m)" for k'
    using that get_from_complete [OF None] matches_iff [OF assms(1)] by (fastforce simp: in_set_conv_nth)
  with None show ?thesis by (auto simp: lookup_def av_dict_get_def)
next
  case (Some i)
  then have i: "i < length (entries m)" "canon flags (fst (entries m ! i)) = canon flags k"
    using get_from_after [OF Some] matches_iff [OF assms(1)] by auto
  have uniq: "j = i" if "j < length (entries m)" "canon flags (fst (entries m ! j)) = canon flags k" for j
  proof -
    have "\<forall>i < length (entries m). \<forall>j < length (entries m). i \<noteq> j \<longrightarrow>
        canon flags (fst (entries m ! i)) \<noteq> canon flags (fst (entries m ! j))"
      using assms(2) by (simp add: keys_distinct_def distinct_conv_nth)
    with i that show ?thesis by metis
  qed
  have "lookup m k flags = Some (snd (entries m ! i))" using Some by (simp add: lookup_def av_dict_get_def)
  then have "lookup m k flags = Some v \<longleftrightarrow> snd (entries m ! i) = v" by simp
  also have "\<dots> \<longleftrightarrow> (\<exists>k'. (k', v) \<in> set (entries m) \<and> canon flags k' = canon flags k)"
  proof
    assume "snd (entries m ! i) = v"
    then have "(fst (entries m ! i), v) = entries m ! i" by (metis prod.collapse)
    with i show "\<exists>k'. (k', v) \<in> set (entries m) \<and> canon flags k' = canon flags k" by (metis nth_mem)
  next
    assume "\<exists>k'. (k', v) \<in> set (entries m) \<and> canon flags k' = canon flags k"
    then obtain k' j where "j < length (entries m)" "entries m ! j = (k', v)" "canon flags k' = canon flags k"
      by (metis in_set_conv_nth)
    with uniq [of j] show "snd (entries m ! i) = v" by simp
  qed
  finally show ?thesis .
qed

lemma entries_normalised [simp]: "entries (normalised es) = es"
  by (simp add: entries_def normalised_def)

lemma entries_Some [simp]: "entries (Some es) = es" "entries None = []"
  by (simp_all add: entries_def)

lemma mset_remove_swap: "i < length es \<Longrightarrow> mset (remove_swap i es) = mset es - {#es ! i#}"
proof (cases es rule: rev_cases)
  case (snoc xs x)
  moreover assume "i < length es"
  ultimately show ?thesis
    by (cases "i = length xs") (simp_all add: remove_swap_def list_update_append nth_append mset_update)
qed simp

text \<open>Putting a pair in the place of entry \<open>i\<close>, or after all entries when the key is new.\<close>

definition set_result :: "dict \<Rightarrow> nat option \<Rightarrow> entry list \<Rightarrow> entry list" where
  "set_result m tag new = (case tag of None \<Rightarrow> entries m | Some i \<Rightarrow> remove_swap i (entries m)) @ new"

lemma option_eqI: "(\<And>w. a = Some w \<longleftrightarrow> b = Some w) \<Longrightarrow> a = b"
  by (cases a; cases b) auto

lemma set_result_spec:
  assumes f: "\<not> has_flag flags AV_DICT_IGNORE_SUFFIX" and d: "keys_distinct flags m"
    and tag: "tag = av_dict_get m (Some k) None flags"
    and new: "new = [] \<or> new = [(k, v)]"
    and m': "entries m' = set_result m tag new"
  shows "keys_distinct flags m'"
    and "\<And>k'. lookup m' k' flags = (if canon flags k' = canon flags k then (if new = [] then None else Some v) else lookup m k' flags)"
proof -
  define old where "old = (case tag of None \<Rightarrow> entries m | Some i \<Rightarrow> remove_swap i (entries m))"
  have old: "mset old = mset (entries m) - (case tag of None \<Rightarrow> {#} | Some i \<Rightarrow> {#entries m ! i#})"
    and i: "\<And>i. tag = Some i \<Longrightarrow> i < length (entries m) \<and> canon flags (fst (entries m ! i)) = canon flags k"
    using get_from_after [of m k None flags] matches_iff [OF f] tag
    by (auto simp: old_def av_dict_get_def mset_remove_swap split: option.splits)
  let ?c = "\<lambda>e. canon flags (fst e)"
  have dm: "distinct (List.map ?c (entries m))" using d by (simp add: keys_distinct_def)
  have "distinct (List.map ?c old) \<and> (\<forall>e. e \<in> set old \<longleftrightarrow> e \<in> set (entries m) \<and> ?c e \<noteq> canon flags k)"
  proof (cases tag)
    case None
    then have "\<forall>j < length (entries m). \<not> matches flags (fst (entries m ! j)) k"
      using get_from_complete [of m k None flags] tag by (simp add: av_dict_get_def)
    with None dm show ?thesis using matches_iff [OF f] by (auto simp: old_def in_set_conv_nth)
  next
    case (Some j)
    with old have "mset old = mset (entries m) - {#entries m ! j#}" by simp
    then have ms: "mset (entries m) = add_mset (entries m ! j) (mset old)" using i [OF Some] by simp
    have perm: "set (entries m) = insert (entries m ! j) (set old)"
      by (metis ms set_mset_add_mset_insert set_mset_mset)
    have "mset (List.map ?c (entries m)) = mset (List.map ?c (entries m ! j # old))" by (simp add: ms)
    with dm have dd: "distinct (List.map ?c (entries m ! j # old))" by (metis mset_eq_imp_distinct_iff)
    then have "?c (entries m ! j) \<notin> ?c ` set old" by simp
    with perm i [OF Some] have "\<forall>e. e \<in> set old \<longleftrightarrow> e \<in> set (entries m) \<and> ?c e \<noteq> canon flags k"
      by (metis image_eqI insert_iff)
    with dd show ?thesis by simp
  qed
  then have "distinct (List.map ?c old)"
    and in_old: "e \<in> set old \<longleftrightarrow> e \<in> set (entries m) \<and> ?c e \<noteq> canon flags k" for e by blast+
  then show d': "keys_distinct flags m'"
    using new in_old by (auto simp: keys_distinct_def m' set_result_def old_def [symmetric])
  fix k'
  have "lookup m' k' flags = Some w \<longleftrightarrow>
      (if canon flags k' = canon flags k then new \<noteq> [] \<and> w = v else lookup m k' flags = Some w)" for w
    unfolding lookup_iff [OF f d'] lookup_iff [OF f d]
    using new by (auto simp: m' set_result_def old_def [symmetric] in_old)
  then show "lookup m' k' flags = (if canon flags k' = canon flags k then (if new = [] then None else Some v) else lookup m k' flags)"
    by (intro option_eqI) (auto split: if_splits)
qed

section \<open>Properties\<close>

text \<open>
  What a call without \<open>AV_DICT_MULTIKEY\<close> does: on success the entry of the key, if any, is
  taken out and the new pair, if there is one, put at the end; nothing else happens, and
  on failure the entries are the old ones.
\<close>

lemma av_dict_set_cases:
  assumes "av_dict_set alloc m (Some k) value flags = (ret, m')" "\<not> has_flag flags AV_DICT_MULTIKEY"
  obtains (failed) "ret < 0" "entries m' = entries m"
    | (kept) "ret = 0" "m' = m" "lookup m k flags \<noteq> None" "has_flag flags AV_DICT_DONT_OVERWRITE"
    | (stored) "ret = 0" "\<not> (has_flag flags AV_DICT_DONT_OVERWRITE \<and> lookup m k flags \<noteq> None)"
        "entries m' = set_result m (av_dict_get m (Some k) None flags)
           (case value of None \<Rightarrow> []
            | Some v \<Rightarrow> [(k, (if has_flag flags AV_DICT_APPEND then (case lookup m k flags of None \<Rightarrow> [] | Some w \<Rightarrow> w) else []) @ v)])"
proof -
  have none: "m = None \<Longrightarrow> entries m = []" by (simp add: entries_def)
  show ?thesis
  proof (cases "av_dict_get m (Some k) None flags")
    case None
    with assms none show ?thesis
      by (auto simp: av_dict_set_def Let_def set_result_def lookup_def split: if_splits option.splits intro: failed stored)
  next
    case (Some i)
    then show ?thesis
    proof (cases "value")
      case none: None
      with Some assms none show ?thesis
        by (auto simp: av_dict_set_def Let_def set_result_def lookup_def split: if_splits option.splits
            intro: failed kept stored)
    next
      case val: (Some v)
      with Some assms none show ?thesis
        by (cases "has_flag flags AV_DICT_APPEND"; cases "has_flag flags AV_DICT_DONT_OVERWRITE")
          (auto simp: av_dict_set_def Let_def set_result_def lookup_def split: if_splits
            intro: failed kept stored)
    qed
  qed
qed

text \<open>
  Property C15: the dictionary is a map. A successful \<open>av_dict_set\<close> that overwrites binds the
  key to the value (removes it for \<open>NULL\<close>, appends with \<open>AV_DICT_APPEND\<close>), leaves every
  other key's value as it was whatever the order of the entries becomes, and keeps the keys
  distinct; a failing call, at any allocation, changes nothing.
\<close>

theorem av_dict_set_updates_map:
  assumes "av_dict_set alloc m (Some k) v flags = (ret, m')" "keys_distinct flags m"
    and "\<not> has_flag flags AV_DICT_MULTIKEY" "\<not> has_flag flags AV_DICT_IGNORE_SUFFIX"
    and "\<not> has_flag flags AV_DICT_DONT_OVERWRITE"
  shows "keys_distinct flags m' \<and>
    (ret < 0 \<longrightarrow> entries m' = entries m) \<and>
    (0 \<le> ret \<longrightarrow> lookup m' k flags =
       (case v of None \<Rightarrow> None
        | Some w \<Rightarrow> Some ((if has_flag flags AV_DICT_APPEND
                        then (case lookup m k flags of None \<Rightarrow> [] | Some u \<Rightarrow> u) else []) @ w))) \<and>
    (\<forall>k'. canon flags k' \<noteq> canon flags k \<longrightarrow> lookup m' k' flags = lookup m k' flags)"
  using assms(1,3)
proof (cases rule: av_dict_set_cases)
  case failed
  have "lookup m' k' flags = lookup m k' flags" for k'
  proof -
    have "keys_distinct flags m'" using failed assms(2) by (simp add: keys_distinct_def)
    then show ?thesis
      using lookup_iff [OF assms(4)] failed assms(2) by (intro option_eqI) simp
  qed
  with failed assms(2) show ?thesis by (simp add: keys_distinct_def)
next
  case kept
  with assms show ?thesis by simp
next
  case stored
  define new where "new = (case v of None \<Rightarrow> []
    | Some w \<Rightarrow> [(k, (if has_flag flags AV_DICT_APPEND then (case lookup m k flags of None \<Rightarrow> [] | Some u \<Rightarrow> u) else []) @ w)])"
  define val where "val = (if has_flag flags AV_DICT_APPEND then (case lookup m k flags of None \<Rightarrow> [] | Some u \<Rightarrow> u) else [])
      @ (case v of None \<Rightarrow> [] | Some w \<Rightarrow> w)"
  have n: "new = [] \<or> new = [(k, val)]" by (simp add: new_def val_def split: option.split)
  note spec = set_result_spec [OF assms(4,2) refl n stored(3) [folded new_def]]
  from spec(1) spec(2) [of k] spec(2) stored(1) show ?thesis
    by (simp add: new_def val_def split: option.split)
qed

lemma toupper_samples:
  "av_toupper CHR ''a'' = CHR ''A''" "av_toupper CHR ''b'' = CHR ''B''"
  "av_toupper CHR ''A'' = CHR ''A''" "av_toupper CHR ''B'' = CHR ''B''"
  by code_simp+

theorem av_dict_set_updates_map_witness:
  "lookup (Some [(''a'', ''1''), (''B'', ''2'')]) ''b'' 0 = Some ''2'' \<and>
   av_dict_set (\<lambda>s. True) (Some [(''a'', ''1''), (''B'', ''2'')]) (Some ''A'') (Some ''3'') 0
     = (0, Some [(''B'', ''2''), (''A'', ''3'')]) \<and>
   lookup (Some [(''B'', ''2''), (''A'', ''3'')]) ''a'' 0 = Some ''3''"
proof -
  let ?m = "Some [(''a'', ''1''), (''B'', ''2'')]"
  have flags: "\<not> has_flag 0 f" for f by (simp add: has_flag_def)
  have set: "av_dict_set (\<lambda>s. True) ?m (Some ''A'') (Some ''3'') 0 = (0, Some [(''B'', ''2''), (''A'', ''3'')])"
    and "lookup ?m ''b'' 0 = Some ''2''"
    by (simp_all add: av_dict_set_def flags Let_def av_dict_get_def get_from.simps av_dict_iterate_def matches_def
        toupper_samples remove_swap_def entries_def lookup_def)
  moreover have "keys_distinct 0 ?m" by (simp add: keys_distinct_def canon_def flags toupper_samples)
  note av_dict_set_updates_map [OF set this flags flags flags]
  then have "lookup (Some [(''B'', ''2''), (''A'', ''3'')]) ''A'' 0 = Some ''3''" by (simp add: flags)
  then have "lookup (Some [(''B'', ''2''), (''A'', ''3'')]) ''a'' 0 = Some ''3''"
    by (simp add: lookup_def av_dict_get_def get_from.simps av_dict_iterate_def matches_def flags toupper_samples)
  ultimately show ?thesis by blast
qed

section \<open>The text form\<close>

lemma clear_flag_0 [simp]: "clear_flag 0 f = 0"
  by (simp add: clear_flag_def has_flag_def)

lemma flags_0 [simp]: "\<not> has_flag 0 f"
  by (simp add: has_flag_def)

text \<open>Appending a new key to a dictionary, with allocations that succeed.\<close>

lemma set_new_key:
  assumes "\<forall>e \<in> set es. canon 0 (fst e) \<noteq> canon 0 k" "m = normalised es"
  shows "av_dict_set (\<lambda>s. True) m (Some k) (Some v) 0 = (0, normalised (es @ [(k, v)]))"
proof -
  have "get_from m k None 0 = None"
  proof (cases "get_from m k None 0")
    case (Some i)
    from get_from_after [OF this] assms matches_iff [of 0] show ?thesis by auto
  qed
  then show ?thesis using assms(2) by (simp add: av_dict_set_def Let_def av_dict_get_def normalised_def)
qed

lemma escape_nonempty: "s \<noteq> [] \<Longrightarrow> av_bprint_escape s special 0 \<noteq> []"
  by (cases s) (auto simp: av_bprint_escape_def Let_def)

lemma parse_one_pair:
  assumes sep: "pairs \<noteq> kvs" "pairs \<noteq> backslash" "kvs \<noteq> backslash"
    and kv: "k \<noteq> []" "v \<noteq> []" and rest: "rest = [] \<or> hd rest = pairs"
    and fresh: "\<forall>e \<in> set es. canon 0 (fst e) \<noteq> canon 0 k"
  shows "parse_key_value_pair (\<lambda>s. True) (normalised es)
      (av_bprint_escape k [pairs, kvs] 0 @ [kvs] @ av_bprint_escape v [pairs, kvs] 0 @ rest) [kvs] [pairs] 0
    = (0, normalised (es @ [(k, v)]), rest)"
proof -
  have key: "av_get_token (av_bprint_escape k [pairs, kvs] 0 @ ([kvs] @ av_bprint_escape v [pairs, kvs] 0 @ rest)) [kvs]
      = (k, [kvs] @ av_bprint_escape v [pairs, kvs] 0 @ rest)"
    by (rule token_escape_inverse) (use sep kv in auto)
  have val: "av_get_token (av_bprint_escape v [pairs, kvs] 0 @ rest) [pairs] = (v, rest)"
    by (rule token_escape_inverse) (use sep kv rest in auto)
  show ?thesis
    using key val kv set_new_key [OF fresh refl] by (simp add: parse_key_value_pair_def Let_def)
qed

lemma parse_printed:
  assumes sep: "pairs \<noteq> kvs" "pairs \<noteq> backslash" "kvs \<noteq> backslash"
    and "\<forall>(k, v) \<in> set fs. k \<noteq> [] \<and> v \<noteq> []"
    and "distinct (List.map (\<lambda>e. canon 0 (fst e)) (es @ fs))"
    and "length (print_entries fs kvs pairs True) < n"
  shows "parse_loop n (\<lambda>s. True) (normalised es) (print_entries fs kvs pairs True) [kvs] [pairs] 0
    = Some (0, normalised (es @ fs))"
  using assms(4-6)
proof (induction fs arbitrary: es n)
  case Nil
  then show ?case by (cases n) simp_all
next
  case (Cons f fs)
  obtain k v where f: "f = (k, v)" by (metis surj_pair)
  obtain n' where n: "n = Suc n'" using Cons.prems(3) by (cases n) auto
  define rest where "rest = print_entries fs kvs pairs False"
  have kv: "k \<noteq> []" "v \<noteq> []" using Cons.prems(1) f by auto
  have rest: "rest = [] \<or> hd rest = pairs" "tl rest = print_entries fs kvs pairs True"
    unfolding rest_def by (cases fs; force)+
  have fresh: "\<forall>e \<in> set es. canon 0 (fst e) \<noteq> canon 0 k" using Cons.prems(2) f by force
  let ?s = "av_bprint_escape k [pairs, kvs] 0 @ [kvs] @ av_bprint_escape v [pairs, kvs] 0 @ rest"
  have str: "print_entries (f # fs) kvs pairs True = ?s" by (simp add: f rest_def)
  have "length (print_entries fs kvs pairs True) < n'"
    using Cons.prems(3) rest(2) unfolding str n by (auto simp flip: rest(2))
  note ih = Cons.IH [of "es @ [(k, v)]" n', OF _ _ this]
  have "parse_loop n' (\<lambda>s. True) (normalised (es @ [(k, v)])) (tl rest) [kvs] [pairs] 0
      = Some (0, normalised (es @ f # fs))"
    using ih Cons.prems(1,2) f rest(2) by simp
  then show ?case
    unfolding str n parse_loop.simps parse_one_pair [OF sep kv rest(1) fresh] using kv by simp
qed

text \<open>
  Property C16: printing a dictionary with \<open>av_dict_get_string\<close> and parsing the text with
  \<open>av_dict_parse_string\<close> gives the dictionary back, entry for entry and in order, for all
  keys and values that are not empty and every pair of separators the printer accepts.
\<close>

theorem dict_string_roundtrip:
  assumes "av_dict_get_string (\<lambda>s. True) m kvs pairs = Inr str"
    and "\<forall>(k, v) \<in> set (entries m). k \<noteq> [] \<and> v \<noteq> []" "keys_distinct 0 m"
  shows "av_dict_parse_string (\<lambda>s. True) None (Some str) [kvs] [pairs] 0 = Some (0, normalised (entries m))"
proof -
  have sep: "pairs \<noteq> kvs" "pairs \<noteq> backslash" "kvs \<noteq> backslash"
    using assms(1) by (auto simp: av_dict_get_string_def split: if_splits)
  have str: "str = print_entries (entries m) kvs pairs True"
    using assms(1) by (auto simp: av_dict_get_string_def av_dict_count_def bprint_all split: if_splits)
  have "parse_loop (length str + 1) (\<lambda>s. True) (normalised []) str [kvs] [pairs] 0 = Some (0, normalised ([] @ entries m))"
    unfolding str by (rule parse_printed [OF sep assms(2)]) (use assms(3) in \<open>simp_all add: keys_distinct_def\<close>)
  then show ?thesis by (simp add: av_dict_parse_string_def normalised_def)
qed

theorem dict_string_roundtrip_witness:
  "av_dict_get_string (\<lambda>s. True) (Some [(''a'', ''1:2''), (''b'', '' x'')]) CHR ''='' CHR '':''
     = Inr ([CHR ''a'', CHR ''='', CHR ''1'', backslash, CHR '':'', CHR ''2'', CHR '':'', CHR ''b'', CHR ''='',
             backslash, CHR '' '', CHR ''x'']) \<and>
   av_dict_parse_string (\<lambda>s. True) None
     (Some [CHR ''a'', CHR ''='', CHR ''1'', backslash, CHR '':'', CHR ''2'', CHR '':'', CHR ''b'', CHR ''='',
            backslash, CHR '' '', CHR ''x'']) ''='' '':'' 0 = Some (0, Some [(''a'', ''1:2''), (''b'', '' x'')])"
proof -
  have p: "av_dict_get_string (\<lambda>s. True) (Some [(''a'', ''1:2''), (''b'', '' x'')]) CHR ''='' CHR '':''
     = Inr ([CHR ''a'', CHR ''='', CHR ''1'', backslash, CHR '':'', CHR ''2'', CHR '':'', CHR ''b'', CHR ''='',
             backslash, CHR '' '', CHR ''x''])"
    by (simp add: av_dict_get_string_def av_dict_count_def bprint_all av_bprint_escape_def WHITESPACES_def)
  with dict_string_roundtrip [OF p] show ?thesis
    by (simp add: keys_distinct_def canon_def toupper_samples normalised_def)
qed

section \<open>Parsing terminates\<close>

lemma token_loop_consumes:
  "token_loop term p out e = (out', e', p') \<Longrightarrow>
   length p' \<le> length p \<and> (length out' \<noteq> length out \<longrightarrow> length p' < length p) \<and> length out \<le> length out'"
proof (induction "term" p out e arbitrary: out' e' p' rule: token_loop.induct)
  case (1 trm p out e)
  show ?case
  proof (cases "p = [] \<or> hd p \<in> set trm")
    case True
    with "1.prems" show ?thesis by (simp add: token_loop.simps [of trm p])
  next
    case False
    then obtain c q where p: "p = c # q" by (cases p) auto
    note h = "1.prems" [unfolded p token_loop.simps [of trm "c # q"]]
    consider (esc) "c = backslash" "q \<noteq> []" | (quo) "c = quote" | (plain) "\<not> (c = backslash \<and> q \<noteq> [])" "c \<noteq> quote"
      by blast
    then show ?thesis
    proof cases
      case esc
      then have "token_loop trm (tl q) (out @ [hd q]) (length out + 1) = (out', e', p')"
        using h False p by simp
      from "1.IH"(1) [OF False refl refl _ , of] this esc p show ?thesis by (cases q) fastforce+
    next
      case quo
      define r where "r = dropWhile (\<lambda>c. c \<noteq> quote) q"
      have r: "length r \<le> length q" by (simp add: r_def length_dropWhile_le)
      show ?thesis
      proof (cases "r = []")
        case True
        then have "(out', e', p') = (out @ takeWhile (\<lambda>c. c \<noteq> quote) q, e, [])"
          using h False p quo by (simp add: r_def [symmetric] token_loop.simps [of trm "[]"] Let_def)
        then show ?thesis using p by simp
      next
        case ne: False
        define o1 where "o1 = out @ takeWhile (\<lambda>c. c \<noteq> quote) q"
        have "token_loop trm (tl r) o1 (length o1) = (out', e', p')"
          using h False p quo ne by (simp add: r_def [symmetric] o1_def Let_def)
        with "1.IH"(2) [OF False refl refl _ _ refl refl refl] False p quo ne r show ?thesis
          by (fastforce simp: r_def o1_def)
      qed
    next
      case plain
      then have "token_loop trm q (out @ [c]) e = (out', e', p')"
        using h False p by (auto simp: Let_def)
      with "1.IH"(4) [OF False refl refl] plain p show ?thesis by fastforce
    qed
  qed
qed

lemma rtrim_Nil [simp]: "rtrim [] = []"
  by (simp add: rtrim_def)

lemma av_get_token_consumes:
  assumes "av_get_token buf term = (tok, rest)"
  shows "length rest \<le> length buf" "tok \<noteq> [] \<Longrightarrow> length rest < length buf"
proof -
  obtain out e where t: "token_loop term (dropWhile is_ws buf) [] 0 = (out, e, rest)"
    and tok: "tok = take e out @ rtrim (drop e out)"
    using assms by (auto simp: av_get_token_def split: prod.splits)
  have "length (dropWhile is_ws buf) \<le> length buf" by (rule length_dropWhile_le)
  with token_loop_consumes [OF t] show "length rest \<le> length buf" "tok \<noteq> [] \<Longrightarrow> length rest < length buf"
    by (auto simp: tok)
qed

lemma parse_pair_consumes:
  assumes "parse_key_value_pair alloc m buf kvs pairs flags = (ret, m', rest)" "0 \<le> ret"
  shows "length rest < length buf"
proof -
  obtain key b1 where k: "av_get_token buf kvs = (key, b1)" by (metis surj_pair)
  obtain val b2 where v: "av_get_token (tl b1) pairs = (val, b2)" by (metis surj_pair)
  have "length b2 \<le> length b1" using av_get_token_consumes(1) [OF v] by simp
  with av_get_token_consumes [OF k] assms k v show ?thesis
    by (auto simp: parse_key_value_pair_def split: if_splits prod.splits)
qed

text \<open>
  \<open>av_dict_parse_string\<close> terminates on every input, whatever the separators and
  whichever allocation fails: each round either fails or consumes a character.
\<close>

theorem av_dict_parse_string_terminates:
  "\<exists>ret m'. av_dict_parse_string alloc m str kvs pairs flags = Some (ret, m')"
proof -
  have "\<exists>ret m'. parse_loop n alloc m s kvs pairs flags = Some (ret, m')" if "length s < n" for n s flags m
    using that
  proof (induction n arbitrary: s m)
    case 0
    then show ?case by simp
  next
    case (Suc n)
    obtain ret m' rest where p: "parse_key_value_pair alloc m s kvs pairs flags = (ret, m', rest)"
      by (metis prod_cases3)
    show ?case
    proof (cases "s = [] \<or> ret < 0")
      case True
      with p show ?thesis by auto
    next
      case False
      with parse_pair_consumes [OF p] Suc.prems have "length (tl rest) < n" by simp
      from Suc.IH [OF this] p False show ?thesis by auto
    qed
  qed
  then show ?thesis by (cases str) (simp_all add: av_dict_parse_string_def del: parse_loop.simps)
qed

end
