(* ===== verification/Extract.thy ===== *)
theory Extract
  imports Decode Geometry Target Dict
begin

text \<open>
  The whole extraction of \<open>ffmpeg/jni/ffmpeg_thumbnail_jni.c\<close>: \<open>create_android_bitmap\<close>,
  \<open>frame_to_bitmap\<close> and \<open>nativeExtractFrame\<close>, composed of the components below it. JNI, the
  Android bitmap calls, the demuxer and the scaler are the operations of \<open>extract_ops\<close>. The
  resources held are tracked in \<open>live\<close>; a result is \<open>Undefined\<close> when the code runs into
  undefined behaviour, and \<open>Out_Of_Fuel\<close> when the decode loop's fuel does not suffice.
\<close>

datatype 'a outcome = Out_Of_Fuel | Undefined | Returns 'a

text \<open>The bitmap object: its size, the row stride of its pixels and the pixels.\<close>

record jbitmap =
  bm_width :: int
  bm_height :: int
  bm_stride :: int
  bm_pixels :: "byte list"

text \<open>
  \<open>jni_lookup\<close> is \<open>FindClass\<close>, \<open>GetObjectClass\<close>, \<open>GetMethodID\<close> and their like: whether the
  result is not \<open>NULL\<close>. \<open>alloc\<close> is an allocation of the named resource. \<open>open_input\<close> gives the
  return code and whether \<open>*ps\<close> is still not \<open>NULL\<close>; \<open>best_stream\<close> the stream index and
  whether a decoder was found; \<open>image_alloc\<close> the return code, the line size and the image;
  \<open>scale\<close> the number of rows and the image; \<open>create_bitmap\<close> whether the bitmap is not \<open>NULL\<close>
  and whether an exception is pending; \<open>bitmap_info\<close> the return code, format and stride.
\<close>

record 'w extract_ops = "'w codec_ops" +
  install_io :: "java_avio \<Rightarrow> 'w \<Rightarrow> 'w"
  delete_scratch :: "'w \<Rightarrow> 'w"
  jni_lookup :: "string \<Rightarrow> 'w \<Rightarrow> bool \<times> 'w"
  alloc :: "resource \<Rightarrow> 'w \<Rightarrow> bool \<times> 'w"
  dict_alloc :: "alloc_site \<Rightarrow> bool"
  open_input :: "dict \<Rightarrow> 'w \<Rightarrow> (int \<times> bool \<times> dict) \<times> 'w"
  find_stream_info :: "'w \<Rightarrow> int \<times> 'w"
  best_stream :: "'w \<Rightarrow> (int \<times> bool) \<times> 'w"
  params_to_context :: "int \<Rightarrow> 'w \<Rightarrow> int \<times> 'w"
  codec_open :: "'w \<Rightarrow> int \<times> 'w"
  format_of :: "'w \<Rightarrow> av_format"
  stream_of :: "int \<Rightarrow> 'w \<Rightarrow> av_stream"
  display_matrix :: "int \<Rightarrow> 'w \<Rightarrow> byte list option"
  rotation_get :: "byte list \<Rightarrow> rat option"
  seek_file :: "int \<Rightarrow> int \<Rightarrow> int \<Rightarrow> int \<Rightarrow> 'w \<Rightarrow> int \<times> 'w"
  seek_frame :: "int \<Rightarrow> int \<Rightarrow> 'w \<Rightarrow> int \<times> 'w"
  flush_decoder :: "'w \<Rightarrow> 'w"
  rewind_input :: "'w \<Rightarrow> 'w"
  image_alloc :: "int \<Rightarrow> int \<Rightarrow> 'w \<Rightarrow> (int \<times> int \<times> byte list) \<times> 'w"
  scaler_alloc :: "av_frame \<Rightarrow> int \<Rightarrow> int \<Rightarrow> 'w \<Rightarrow> bool \<times> 'w"
  scale :: "av_frame \<Rightarrow> int \<Rightarrow> int \<Rightarrow> int \<Rightarrow> byte list \<Rightarrow> 'w \<Rightarrow> (int \<times> byte list) \<times> 'w"
  create_bitmap :: "int \<Rightarrow> int \<Rightarrow> 'w \<Rightarrow> (bool \<times> bool) \<times> 'w"
  bitmap_info :: "int \<Rightarrow> int \<Rightarrow> 'w \<Rightarrow> (int \<times> int \<times> int) \<times> 'w"
  lock_pixels :: "int \<Rightarrow> int \<Rightarrow> 'w \<Rightarrow> (int \<times> byte list option) \<times> 'w"

abbreviation codec :: "('w, 'a) extract_ops_scheme \<Rightarrow> 'w codec_ops" where
  "codec ops \<equiv> codec_ops.truncate ops"

definition call :: "('w \<Rightarrow> 'r \<times> 'w) \<Rightarrow> 'w decode_state \<Rightarrow> 'r \<times> 'w decode_state" where
  "call f s = (case f (world s) of (r, w) \<Rightarrow> (r, s\<lparr>world := w\<rparr>))"

definition release :: "resource \<Rightarrow> 'w decode_state \<Rightarrow> 'w decode_state" where
  "release r s = s\<lparr>live := remove1 r (live s)\<rparr>"

section \<open>The bitmap\<close>

definition create_android_bitmap ::
  "'w extract_ops \<Rightarrow> int \<Rightarrow> int \<Rightarrow> 'w decode_state \<Rightarrow> bool \<times> 'w decode_state" where
  "create_android_bitmap ops width height s =
     (case call (jni_lookup ops ''android/graphics/Bitmap'') s of (bitmap_class, s) \<Rightarrow>
      case call (jni_lookup ops ''android/graphics/Bitmap$Config'') s of (config_class, s) \<Rightarrow>
      if \<not> bitmap_class \<or> \<not> config_class then (False, s)
      else
        case call (jni_lookup ops ''ARGB_8888'') s of (argb_field, s) \<Rightarrow>
        case call (jni_lookup ops ''createBitmap'') s of (create_method, s) \<Rightarrow>
        if \<not> argb_field \<or> \<not> create_method then (False, s)
        else
          case call (create_bitmap ops width height) s of ((bitmap, exc), s) \<Rightarrow>
            if exc then (False, s) else (bitmap, s))"

text \<open>Lines 560 to 581: the pixels are locked, written and unlocked.\<close>

definition fill_bitmap ::
  "'w extract_ops \<Rightarrow> byte list \<Rightarrow> int \<Rightarrow> int \<Rightarrow> int \<Rightarrow> int \<Rightarrow> int \<Rightarrow> int \<Rightarrow> 'w decode_state \<Rightarrow>
   (jbitmap option \<times> 'w decode_state) outcome" where
  "fill_bitmap ops rgba linesize scaled_width scaled_height bitmap_width bitmap_height rotation s =
     (case call (bitmap_info ops bitmap_width bitmap_height) s of ((info, format, stride), s) \<Rightarrow>
      if info \<noteq> 0 \<or> format \<noteq> 1 then Returns (None, release Rgba_Image s)
      else
        case call (lock_pixels ops bitmap_width bitmap_height) s of ((locked, pixels), s) \<Rightarrow>
        let s = hold (locked = 0) Pixel_Lock s in
        if locked \<noteq> 0 \<or> pixels = None then Returns (None, release Rgba_Image s)
        else
          case copy_rotated_rgba rgba linesize scaled_width scaled_height (the pixels) (i32 stride) rotation of
            None \<Rightarrow> Undefined
          | Some out \<Rightarrow>
              Returns (Some \<lparr>bm_width = bitmap_width, bm_height = bitmap_height, bm_stride = i32 stride, bm_pixels = out\<rparr>,
                       release Rgba_Image (release Pixel_Lock s)))"

definition frame_to_bitmap ::
  "'w extract_ops \<Rightarrow> av_frame \<Rightarrow> int \<Rightarrow> int \<Rightarrow> 'w decode_state \<Rightarrow> (jbitmap option \<times> 'w decode_state) outcome" where
  "frame_to_bitmap ops frame maximum_dimension rotation s =
     (case fit_inside (fr_width frame) (fr_height frame) maximum_dimension of (scaled_width, scaled_height) \<Rightarrow>
      case call (image_alloc ops scaled_width scaled_height) s of ((allocated, linesize, rgba), s) \<Rightarrow>
      if allocated < 0 then Returns (None, s)
      else
        let s = hold True Rgba_Image s in
        case call (scaler_alloc ops frame scaled_width scaled_height) s of (scaler, s) \<Rightarrow>
        if \<not> scaler then Returns (None, release Rgba_Image s)
        else
          case call (scale ops frame scaled_width scaled_height linesize rgba) (hold True Scaler s)
          of ((scaled_rows, rgba), s) \<Rightarrow>
          let s = release Scaler s in
          if scaled_rows \<le> 0 then Returns (None, release Rgba_Image s)
          else
            case bitmap_size rotation scaled_width scaled_height of (bitmap_width, bitmap_height) \<Rightarrow>
            case create_android_bitmap ops bitmap_width bitmap_height s of (bitmap, s) \<Rightarrow>
            if \<not> bitmap then Returns (None, release Rgba_Image s)
            else fill_bitmap ops rgba linesize scaled_width scaled_height bitmap_width bitmap_height rotation s)"

section \<open>Extraction\<close>

text \<open>The end of every path that has the Java array to drop: lines 757 to 760.\<close>

definition drop_scratch :: "'w extract_ops \<Rightarrow> 'w decode_state \<Rightarrow> 'w decode_state" where
  "drop_scratch ops s =
     (if (case io_context ops (world s) of None \<Rightarrow> False | Some c \<Rightarrow> scratch c \<noteq> None)
      then s\<lparr>world := delete_scratch ops (world s)\<rparr> else s)"

definition close_down :: "'w extract_ops \<Rightarrow> 'w decode_state \<Rightarrow> 'w decode_state" where
  "close_down ops s = drop_scratch ops (release Avio_Context (release Format_Context s))"

text \<open>Lines 712 to 733: seek to the target, or start over without one.\<close>

definition seek_to_target ::
  "'w extract_ops \<Rightarrow> int \<Rightarrow> int \<Rightarrow> 'w decode_state \<Rightarrow> int \<times> 'w decode_state" where
  "seek_to_target ops idx target s =
     (if target = AV_NOPTS_VALUE then (target, s)
      else
        case call (seek_file ops idx INT64_MIN target target) s of (result, s) \<Rightarrow>
        case (if result < 0 then call (seek_frame ops idx target) s else (result, s)) of (result, s) \<Rightarrow>
        if result \<ge> 0 then (target, s\<lparr>world := flush_decoder ops (world s)\<rparr>)
        else (AV_NOPTS_VALUE, s\<lparr>world := flush_decoder ops (rewind_input ops (world s))\<rparr>))"

text \<open>Lines 735 to 753: decode a frame and turn it into a bitmap.\<close>

definition render ::
  "nat \<Rightarrow> 'w extract_ops \<Rightarrow> int \<Rightarrow> int \<Rightarrow> int \<Rightarrow> 'w decode_state \<Rightarrow> (jbitmap option \<times> 'w decode_state) outcome" where
  "render fuel ops idx target maximum_dimension s =
     (case call (frame_alloc ops) s of (frame, s) \<Rightarrow>
      if \<not> frame then Returns (None, s)
      else
        case decode_thumbnail_frame fuel (codec ops) idx target
               ((hold True Candidate_Frame s)\<lparr>candidate := blank_frame\<rparr>) of
          None \<Rightarrow> Out_Of_Fuel
        | Some (result, s) \<Rightarrow>
            (case (if result \<ge> 0 \<and> fr_width (candidate s) > 0 \<and> fr_height (candidate s) > 0 then
                     frame_to_bitmap ops (candidate s) maximum_dimension
                       (normalized_clockwise_rotation (rotation_get ops) (display_matrix ops idx (world s))) s
                   else Returns (None, s)) of
               Out_Of_Fuel \<Rightarrow> Out_Of_Fuel
             | Undefined \<Rightarrow> Undefined
             | Returns (bitmap, s) \<Rightarrow> Returns (bitmap, release Candidate_Frame s)))"

text \<open>Lines 694 to 760, with the decoder allocated.\<close>

definition with_decoder ::
  "nat \<Rightarrow> 'w extract_ops \<Rightarrow> int \<Rightarrow> f64 \<Rightarrow> int \<Rightarrow> 'w decode_state \<Rightarrow> (jbitmap option \<times> 'w decode_state) outcome" where
  "with_decoder fuel ops idx target_fraction maximum_dimension s =
     (case call (params_to_context ops idx) s of (result, s) \<Rightarrow>
      case (if result \<ge> 0 then call (codec_open ops) s else (result, s)) of (result, s) \<Rightarrow>
      if result < 0 then Returns (None, close_down ops (release Decoder_Context s))
      else
        case target_timestamp_for_stream (format_of ops (world s)) (stream_of ops idx (world s)) target_fraction of
          None \<Rightarrow> Undefined
        | Some target \<Rightarrow>
            (case seek_to_target ops idx target s of (target, s) \<Rightarrow>
             case render fuel ops idx target maximum_dimension s of
               Out_Of_Fuel \<Rightarrow> Out_Of_Fuel
             | Undefined \<Rightarrow> Undefined
             | Returns (bitmap, s) \<Rightarrow> Returns (bitmap, close_down ops (release Decoder_Context s))))"

text \<open>Lines 664 to 692, with the input open.\<close>

definition with_format ::
  "nat \<Rightarrow> 'w extract_ops \<Rightarrow> f64 \<Rightarrow> int \<Rightarrow> 'w decode_state \<Rightarrow> (jbitmap option \<times> 'w decode_state) outcome" where
  "with_format fuel ops target_fraction maximum_dimension s =
     (case call (find_stream_info ops) s of (_, s) \<Rightarrow>
      case call (best_stream ops) s of ((idx, found), s) \<Rightarrow>
      if idx < 0 \<or> \<not> found then Returns (None, close_down ops s)
      else
        case call (alloc ops Decoder_Context) s of (decoder, s) \<Rightarrow>
        if \<not> decoder then Returns (None, close_down ops s)
        else with_decoder fuel ops idx target_fraction maximum_dimension (hold True Decoder_Context s))"

text \<open>The options of line 646 to 648.\<close>

definition format_options :: "(alloc_site \<Rightarrow> bool) \<Rightarrow> dict" where
  "format_options a =
     snd (av_dict_set a (snd (av_dict_set a None (Some ''probesize'') (Some ''8388608'') 0))
            (Some ''analyzeduration'') (Some ''5000000'') 0)"

text \<open>Lines 636 to 662, with the I/O context allocated.\<close>

definition with_avio ::
  "nat \<Rightarrow> 'w extract_ops \<Rightarrow> f64 \<Rightarrow> int \<Rightarrow> 'w decode_state \<Rightarrow> (jbitmap option \<times> 'w decode_state) outcome" where
  "with_avio fuel ops target_fraction maximum_dimension s =
     (case call (alloc ops Format_Context) s of (format, s) \<Rightarrow>
      if \<not> format then Returns (None, release Avio_Context s)
      else
        let options = format_options (dict_alloc ops);
            s = hold (options \<noteq> None) Format_Options (hold True Format_Context s)
        in case call (open_input ops options) s of ((result, still_there, options'), s) \<Rightarrow>
           let s = release Format_Options s;
               s = (if still_there then s else release Format_Context s)
           in if result < 0 then
                Returns (None, drop_scratch ops (release Avio_Context (if still_there then release Format_Context s else s)))
              else with_format fuel ops target_fraction maximum_dimension s)"

definition nativeExtractFrame ::
  "nat \<Rightarrow> 'w extract_ops \<Rightarrow> bool \<Rightarrow> int \<Rightarrow> f64 \<Rightarrow> int \<Rightarrow> 'w decode_state \<Rightarrow> (jbitmap option \<times> 'w decode_state) outcome" where
  "nativeExtractFrame fuel ops src src_size target_fraction maximum_dimension s =
     (if \<not> src \<or> maximum_dimension \<le> 0 then Returns (None, s)
      else
        case call (gettime ops) s of (t, s) \<Rightarrow>
        let s = s\<lparr>world := install_io ops (initial_avio t src_size) (world s)\<rparr> in
        case call (jni_lookup ops ''class'') s of (source_class, s) \<Rightarrow>
        if \<not> source_class then Returns (None, s)
        else
          case call (jni_lookup ops ''readAt'') s of (read_at_method, s) \<Rightarrow>
          case call (jni_lookup ops ''getSize'') s of (get_size_method, s) \<Rightarrow>
          if \<not> read_at_method \<or> \<not> get_size_method then Returns (None, s)
          else
            case call (alloc ops Avio_Buffer) s of (avio_buffer, s) \<Rightarrow>
            if \<not> avio_buffer then Returns (None, s)
            else
              let s = hold True Avio_Buffer s in
              case call (alloc ops Avio_Context) s of (avio, s) \<Rightarrow>
              if \<not> avio then Returns (None, release Avio_Buffer s)
              else with_avio fuel ops target_fraction maximum_dimension (hold True Avio_Context s))"

section \<open>Resources\<close>

lemma call_live [simp]: "live (snd (call f s)) = live s"
  by (simp add: call_def split: prod.split)

lemma call_liveD: "call f s = (r, t) \<Longrightarrow> live t = live s"
  by (metis call_live snd_conv)

lemma live_simps [simp]:
  "live (release r s) = remove1 r (live s)"
  "live (hold b r s) = (if b then r # live s else live s)"
  "live (drop_scratch ops s) = live s"
  "live (close_down ops s) = remove1 Avio_Context (remove1 Format_Context (live s))"
  by (simp_all add: release_def hold_def drop_scratch_def close_down_def)

text \<open>
  What the NDK and FFmpeg document: a successful lock gives the address of the pixels, and
  \<open>avformat_open_input\<close> frees the context only when it fails.
\<close>

definition lock_gives_pixels :: "'w extract_ops \<Rightarrow> bool" where
  "lock_gives_pixels ops \<longleftrightarrow>
     (\<forall>w h x. fst (fst (lock_pixels ops w h x)) = 0 \<longrightarrow> snd (fst (lock_pixels ops w h x)) \<noteq> None)"

definition open_keeps_context :: "'w extract_ops \<Rightarrow> bool" where
  "open_keeps_context ops \<longleftrightarrow>
     (\<forall>d x. 0 \<le> fst (fst (open_input ops d x)) \<longrightarrow> fst (snd (fst (open_input ops d x))))"

lemma create_android_bitmap_live: "create_android_bitmap ops w h s = (b, t) \<Longrightarrow> live t = live s"
  by (auto simp: create_android_bitmap_def split: prod.splits if_splits dest!: call_liveD)

lemma fill_bitmap_live:
  assumes "fill_bitmap ops rgba ls sw sh bw bh rot s = Returns (b, t)" "lock_gives_pixels ops"
    and "live s = Rgba_Image # L"
  shows "live t = L"
proof -
  obtain info fm st u where i: "call (bitmap_info ops bw bh) s = ((info, fm, st), u)" by (metis prod_cases3 surj_pair)
  obtain l px v where k: "call (lock_pixels ops bw bh) u = ((l, px), v)" by (metis prod_cases3 surj_pair)
  have v: "live u = Rgba_Image # L" "live v = Rgba_Image # L" using call_liveD [OF i] call_liveD [OF k] assms(3) by simp_all
  have px: "l = 0 \<Longrightarrow> px \<noteq> None"
    using k assms(2) [unfolded lock_gives_pixels_def, rule_format, of bw bh "world u"]
    by (auto simp: call_def split: prod.splits)
  show ?thesis
    using assms(1) i k v px by (auto simp: fill_bitmap_def Let_def split: if_splits option.splits)
qed

lemma frame_to_bitmap_live:
  assumes "frame_to_bitmap ops frame mx rot s = Returns (b, t)" "lock_gives_pixels ops"
  shows "live t = live s"
proof -
  obtain sw sh where f: "fit_inside (fr_width frame) (fr_height frame) mx = (sw, sh)" by (metis surj_pair)
  obtain a ls d u where i: "call (image_alloc ops sw sh) s = ((a, ls, d), u)" by (metis prod_cases3 surj_pair)
  obtain c v where sc: "call (scaler_alloc ops frame sw sh) (hold True Rgba_Image u) = (c, v)" by (metis surj_pair)
  obtain rows d' w where sl: "call (scale ops frame sw sh ls d) (hold True Scaler v) = ((rows, d'), w)"
    by (metis prod_cases3 surj_pair)
  obtain bw bh where bs: "bitmap_size rot sw sh = (bw, bh)" by (metis surj_pair)
  obtain ok x where cb: "create_android_bitmap ops bw bh (release Scaler w) = (ok, x)" by (metis surj_pair)
  have l: "live u = live s" "live v = Rgba_Image # live s" "live w = Scaler # Rgba_Image # live s"
    "live x = Rgba_Image # live s"
    using call_liveD [OF i] call_liveD [OF sc] call_liveD [OF sl] create_android_bitmap_live [OF cb] by simp_all
  show ?thesis
    using assms(1) i sc sl bs cb l fill_bitmap_live [OF _ assms(2) l(4)]
    by (auto simp: frame_to_bitmap_def f Let_def split: if_splits)
qed

lemma seek_to_target_live: "seek_to_target ops idx target s = (t, u) \<Longrightarrow> live u = live s"
  by (auto simp: seek_to_target_def split: prod.splits if_splits dest!: call_liveD)

definition no_locals :: "resource list \<Rightarrow> bool" where
  "no_locals L \<longleftrightarrow> Packet \<notin> set L \<and> Decoded_Frame \<notin> set L"

lemma render_live:
  assumes "render fuel ops idx target mx s = Returns (b, t)" "lock_gives_pixels ops"
    and "no_locals (live s)" "received s = []"
  shows "live t = live s"
proof -
  obtain fr u where f: "call (frame_alloc ops) s = (fr, u)" by (metis surj_pair)
  have u: "live u = live s" "received u = received s"
    using call_liveD [OF f] f by (auto simp: call_def split: prod.splits)
  show ?thesis
  proof (cases fr)
    case False
    with assms(1) f u show ?thesis by (simp add: render_def)
  next
    case True
    let ?v = "(hold True Candidate_Frame u)\<lparr>candidate := blank_frame\<rparr>"
    have fresh: "fresh ?v" using assms(3,4) u by (simp add: fresh_def hold_def no_locals_def)
    obtain r w where d: "decode_thumbnail_frame fuel (codec ops) idx target ?v = Some (r, w)"
      using assms(1) f True by (auto simp: render_def split: option.splits)
    have w: "live w = Candidate_Frame # live s"
      using decode_thumbnail_frame_live [OF d fresh] u by simp
    show ?thesis
    proof (cases "r \<ge> 0 \<and> fr_width (candidate w) > 0 \<and> fr_height (candidate w) > 0")
      case bm: True
      define res where "res = frame_to_bitmap ops (candidate w) mx
          (normalized_clockwise_rotation (rotation_get ops) (display_matrix ops idx (world w))) w"
      have "(case res of Out_Of_Fuel \<Rightarrow> Out_Of_Fuel | Undefined \<Rightarrow> Undefined
          | Returns (bitmap, s) \<Rightarrow> Returns (bitmap, release Candidate_Frame s)) = Returns (b, t)"
        using assms(1) f True d bm by (simp add: render_def res_def)
      then obtain x where x: "res = Returns (b, x)" "t = release Candidate_Frame x"
        by (cases res) auto
      from frame_to_bitmap_live [OF x(1) [unfolded res_def] assms(2)] x(2) w show ?thesis by simp
    next
      case False
      with assms(1) f True d w show ?thesis by (auto simp: render_def)
    qed
  qed
qed

lemma with_decoder_live:
  assumes "with_decoder fuel ops idx tf mx s = Returns (b, t)" "lock_gives_pixels ops"
    and "live s = Decoder_Context # Format_Context # Avio_Context # L" "no_locals L" "received s = []"
  shows "live t = L"
proof -
  obtain r u where p: "call (params_to_context ops idx) s = (r, u)" by (metis surj_pair)
  obtain r2 v where c: "(if r \<ge> 0 then call (codec_open ops) u else (r, u)) = (r2, v)" by (metis surj_pair)
  have v: "live v = live s" "received v = received s"
    using call_liveD [OF p] c p by (auto simp: call_def split: prod.splits if_splits)
  show ?thesis
  proof (cases "r2 < 0")
    case True
    with assms(1,3) p c v show ?thesis by (auto simp: with_decoder_def)
  next
    case False
    obtain tg where tg: "target_timestamp_for_stream (format_of ops (world v)) (stream_of ops idx (world v)) tf = Some tg"
      using assms(1) p c False by (auto simp: with_decoder_def split: option.splits)
    obtain t2 w where sk: "seek_to_target ops idx tg v = (t2, w)" by (metis surj_pair)
    have w: "live w = live s" "received w = []"
      using seek_to_target_live [OF sk] v sk assms(5)
      by (auto simp: seek_to_target_def call_def split: prod.splits if_splits)
    obtain x where x: "render fuel ops idx t2 mx w = Returns (b, x)" "t = close_down ops (release Decoder_Context x)"
      using assms(1) p c False tg sk by (cases "render fuel ops idx t2 mx w") (auto simp: with_decoder_def)
    have "no_locals (live w)" using w assms(3,4) by (simp add: no_locals_def)
    from render_live [OF x(1) assms(2) this w(2)] x(2) w assms(3) show ?thesis by simp
  qed
qed

lemma with_format_live:
  assumes "with_format fuel ops tf mx s = Returns (b, t)" "lock_gives_pixels ops"
    and "live s = Format_Context # Avio_Context # L" "no_locals L" "received s = []"
  shows "live t = L"
proof -
  obtain r u where p: "call (find_stream_info ops) s = (r, u)" by (metis surj_pair)
  obtain idx found v where c: "call (best_stream ops) u = ((idx, found), v)" by (metis prod_cases3 surj_pair)
  obtain dec w where d: "call (alloc ops Decoder_Context) v = (dec, w)" by (metis surj_pair)
  have l: "live v = live s" "live w = live s" "received w = []"
    using call_liveD [OF p] call_liveD [OF c] call_liveD [OF d] p c d assms(5)
    by (auto simp: call_def split: prod.splits)
  show ?thesis
  proof (cases "idx < 0 \<or> \<not> found \<or> \<not> dec")
    case True
    with assms(1,3) p c d l show ?thesis by (auto simp: with_format_def split: if_splits)
  next
    case False
    then have "with_decoder fuel ops idx tf mx (hold True Decoder_Context w) = Returns (b, t)"
      using assms(1) p c d by (simp add: with_format_def)
    then show ?thesis
      by (rule with_decoder_live [OF _ assms(2) _ assms(4)]) (use l assms(3) in \<open>simp_all add: hold_def\<close>)
  qed
qed

lemma with_avio_live:
  assumes "with_avio fuel ops tf mx s = Returns (b, t)" "lock_gives_pixels ops"
    and "live s = Avio_Context # L" "no_locals L" "received s = []" "open_keeps_context ops"
    and "Format_Options \<notin> set L" "Format_Context \<notin> set L"
  shows "live t = L"
proof -
  obtain f u where f: "call (alloc ops Format_Context) s = (f, u)" by (metis surj_pair)
  define o1 where "o1 = format_options (dict_alloc ops)"
  obtain r st o2 v where oi: "call (open_input ops o1) (hold (o1 \<noteq> None) Format_Options (hold True Format_Context u)) = ((r, st, o2), v)"
    by (metis prod_cases3 surj_pair)
  define w where "w = (if st then release Format_Options v else release Format_Context (release Format_Options v))"
  have u: "live u = Avio_Context # L" "received u = []"
    using call_liveD [OF f] f assms(3,5) by (auto simp: call_def split: prod.splits)
  have v: "live (release Format_Options v) = Format_Context # Avio_Context # L" "received v = []"
    using call_liveD [OF oi] oi u assms(7) by (auto simp: call_def hold_def remove1_idem split: prod.splits)
  show ?thesis
  proof (cases "f \<and> \<not> r < 0")
    case False
    with assms(1,7,8) f oi u v show ?thesis
      by (auto simp: with_avio_def Let_def o1_def split: if_splits)
  next
    case True
    have run: "with_format fuel ops tf mx w = Returns (b, t)"
      using assms(1) f oi True unfolding with_avio_def Let_def o1_def w_def by simp
    have st: st
      using oi True assms(6) [unfolded open_keeps_context_def, rule_format,
          of o1 "world (hold (o1 \<noteq> None) Format_Options (hold True Format_Context u))"]
      by (auto simp: call_def split: prod.splits)
    then have w: "live w = Format_Context # Avio_Context # L" "received w = []"
      using v by (simp_all add: w_def) (simp add: release_def)
    show ?thesis by (rule with_format_live [OF run assms(2) w(1) assms(4) w(2)])
  qed
qed

text \<open>
  Property C14: what an extraction leaves allocated. On every path through the function, errors
  included, every resource is released except one: the I/O buffer. It stays allocated exactly
  when an I/O context was created for it, because \<open>avio_context_free\<close> does not free the buffer
  of the context and nothing else does.
\<close>

theorem extract_leaks_only_io_buffer:
  assumes "nativeExtractFrame fuel ops src src_size tf mx s = Returns (b, t)"
    and "live s = []" "received s = []" "lock_gives_pixels ops" "open_keeps_context ops"
  shows "(live t = [] \<or> live t = [Avio_Buffer]) \<and> (b \<noteq> None \<longrightarrow> live t = [Avio_Buffer])"
proof (cases "src \<and> 0 < mx")
  case False
  with assms show ?thesis by (auto simp: nativeExtractFrame_def)
next
  case True
  obtain c0 s0 where g: "call (gettime ops) s = (c0, s0)" by (metis surj_pair)
  define s1 where "s1 = s0\<lparr>world := install_io ops (initial_avio c0 src_size) (world s0)\<rparr>"
  obtain k2 s2 where l2: "call (jni_lookup ops ''class'') s1 = (k2, s2)" by (metis surj_pair)
  obtain k3 s3 where l3: "call (jni_lookup ops ''readAt'') s2 = (k3, s3)" by (metis surj_pair)
  obtain k4 s4 where l4: "call (jni_lookup ops ''getSize'') s3 = (k4, s4)" by (metis surj_pair)
  obtain k5 s5 where l5: "call (alloc ops Avio_Buffer) s4 = (k5, s5)" by (metis surj_pair)
  obtain k6 s6 where l6: "call (alloc ops Avio_Context) (hold True Avio_Buffer s5) = (k6, s6)" by (metis surj_pair)
  have live: "live s2 = []" "live s3 = []" "live s4 = []" "live s5 = []" "live s6 = [Avio_Buffer]" "received s6 = []"
    using assms(2,3) g l2 l3 l4 l5 l6 by (auto simp: s1_def call_def hold_def split: prod.splits)
  have unf: "nativeExtractFrame fuel ops src src_size tf mx s =
    (if \<not> k2 then Returns (None, s2) else if \<not> k3 \<or> \<not> k4 then Returns (None, s4)
     else if \<not> k5 then Returns (None, s5) else if \<not> k6 then Returns (None, release Avio_Buffer s6)
     else with_avio fuel ops tf mx (hold True Avio_Context s6))"
    using True g l2 l3 l4 l5 l6 by (simp add: nativeExtractFrame_def s1_def Let_def)
  show ?thesis
  proof (cases "k2 \<and> k3 \<and> k4 \<and> k5 \<and> k6")
    case False
    with assms(1) live show ?thesis unfolding unf by (auto split: if_splits)
  next
    case True
    then have "with_avio fuel ops tf mx (hold True Avio_Context s6) = Returns (b, t)"
      using assms(1) unfolding unf by simp
    then have "live t = [Avio_Buffer]"
      by (rule with_avio_live [OF _ assms(4) _ _ _ assms(5)]) (use live in \<open>simp_all add: hold_def no_locals_def\<close>)
    then show ?thesis by simp
  qed
qed

section \<open>The picture\<close>

text \<open>
  The documented contracts of the buffers: \<open>av_image_alloc\<close> gives rows of at least four bytes
  per pixel, the scaler writes inside the image, and the bitmap's rows hold its pixels and its
  buffer holds the rows.
\<close>

definition buffers_ok :: "'w extract_ops \<Rightarrow> bool" where
  "buffers_ok ops \<longleftrightarrow>
     (\<forall>w h x. case fst (image_alloc ops w h x) of (r, ls, d) \<Rightarrow>
        0 \<le> r \<longrightarrow> 4 * w \<le> ls \<and> h * ls \<le> int (length d)) \<and>
     (\<forall>f w h ls d x. length (snd (fst (scale ops f w h ls d x))) = length d) \<and>
     (\<forall>w h x y. case fst (bitmap_info ops w h x) of (r, fm, st) \<Rightarrow>
        r = 0 \<longrightarrow> 4 * w \<le> st \<and> st \<le> INT_MAX \<and>
        (case fst (lock_pixels ops w h y) of (l, px) \<Rightarrow> l = 0 \<longrightarrow> (\<forall>p. px = Some p \<longrightarrow> h * st \<le> int (length p))))"

text \<open>The bitmap shows the scaled image, turned by \<open>rot\<close>.\<close>

definition shows_image :: "jbitmap \<Rightarrow> byte list \<Rightarrow> int \<Rightarrow> int \<Rightarrow> int \<Rightarrow> int \<Rightarrow> bool" where
  "shows_image bm rgba ls sw sh rot \<longleftrightarrow>
     (bm_width bm, bm_height bm) = bitmap_size rot sw sh \<and>
     (\<forall>x y. 0 \<le> x \<and> x < sw \<and> 0 \<le> y \<and> y < sh \<longrightarrow>
        pixel_at (bm_pixels bm) (bm_stride bm) (rot_target rot sw sh x y) = pixel_at rgba ls (x, y))"

lemma last_row:
  fixes s :: int
  assumes "0 < h" "4 * w \<le> s" "h * s \<le> n"
  shows "(h - 1) * s + 4 * w \<le> n"
  using assms by (simp add: algebra_simps)

lemma fill_bitmap_picture:
  assumes "buffers_ok ops" "0 < sw" "0 < sh" "4 * sw \<le> ls" "sh * ls \<le> int (length rgba)"
    and "bitmap_size rot sw sh = (bw, bh)"
  shows "case fill_bitmap ops rgba ls sw sh bw bh rot s of
      Out_Of_Fuel \<Rightarrow> False | Undefined \<Rightarrow> False
    | Returns (b, t) \<Rightarrow> (\<forall>bm. b = Some bm \<longrightarrow> shows_image bm rgba ls sw sh rot)"
proof -
  obtain r fm st x where i: "bitmap_info ops bw bh (world s) = ((r, fm, st), x)" by (metis prod_cases3 surj_pair)
  obtain l px y where k: "lock_pixels ops bw bh x = ((l, px), y)" by (metis prod_cases3 surj_pair)
  have st: "r = 0 \<Longrightarrow> 4 * bw \<le> st \<and> st \<le> INT_MAX"
    and px: "r = 0 \<Longrightarrow> l = 0 \<Longrightarrow> px = Some p \<Longrightarrow> bh * st \<le> int (length p)" for p
    using assms(1) [unfolded buffers_ok_def, THEN conjunct2, THEN conjunct2, rule_format, where w = bw and h = bh and x = "world s" and y = x] i k
    by auto
  show ?thesis
  proof (cases "r = 0 \<and> fm = 1 \<and> l = 0 \<and> px \<noteq> None")
    case False
    then show ?thesis using i k by (auto simp: fill_bitmap_def call_def Let_def)
  next
    case True
    then obtain p where p: "px = Some p" by auto
    have b: "0 < bw" "0 < bh" using assms(2,3,6) by (auto simp: bitmap_size_def split: if_splits)
    have s: "i32 st = st" using st True b by (intro i32_id) (auto simp: in_i32_def)
    have "copy_ok rgba ls sw sh p st rot"
      unfolding copy_ok_def assms(6) prod.case
      using assms(2-5) st px [OF _ _ p] True b last_row [OF assms(3-5)] last_row [OF b(2)] by simp
    from copy_rotated_spec [OF this] obtain out where out: "copy_rotated_rgba rgba ls sw sh p st rot = Some out"
      "\<forall>x y. 0 \<le> x \<and> x < sw \<and> 0 \<le> y \<and> y < sh \<longrightarrow>
         pixel_at out st (rot_target rot sw sh x y) = pixel_at rgba ls (x, y)" by blast
    show ?thesis
      using True i k p out(1) out(2)
      by (simp add: fill_bitmap_def call_def Let_def s shows_image_def assms(6))
  qed
qed

text \<open>
  Property C13: the thumbnail. For any decoded frame and limit, under the documented buffer
  contracts, rendering never runs into undefined behaviour, and the bitmap it returns is at
  least one pixel and at most the limit on each side and shows the scaler's image, fitted
  inside the limit, turned by the rotation.
\<close>

theorem frame_to_bitmap_correct:
  assumes "0 < fr_width frame" "fr_width frame \<le> INT_MAX" "0 < fr_height frame" "fr_height frame \<le> INT_MAX"
    and "0 < mx" "buffers_ok ops" "frame_to_bitmap ops frame mx rot s = result"
  shows "result \<noteq> Undefined \<and> result \<noteq> Out_Of_Fuel \<and>
    (\<forall>bm t. result = Returns (Some bm, t) \<longrightarrow>
       1 \<le> bm_width bm \<and> bm_width bm \<le> mx \<and> 1 \<le> bm_height bm \<and> bm_height bm \<le> mx \<and>
       (\<exists>sw sh ls d x rgba. fit_inside (fr_width frame) (fr_height frame) mx = (sw, sh) \<and>
          rgba = snd (fst (scale ops frame sw sh ls d x)) \<and> shows_image bm rgba ls sw sh rot))"
proof -
  obtain sw sh where f: "fit_inside (fr_width frame) (fr_height frame) mx = (sw, sh)" by (metis surj_pair)
  have lim: "1 \<le> sw \<and> sw \<le> mx \<and> 1 \<le> sh \<and> sh \<le> mx"
    using fit_inside_limits [OF assms(1-5) f] by auto
  obtain a ls d u where i: "call (image_alloc ops sw sh) s = ((a, ls, d), u)" by (metis prod_cases3 surj_pair)
  obtain c v where sc: "call (scaler_alloc ops frame sw sh) (hold True Rgba_Image u) = (c, v)" by (metis surj_pair)
  obtain rows rgba w where sl: "call (scale ops frame sw sh ls d) (hold True Scaler v) = ((rows, rgba), w)"
    by (metis prod_cases3 surj_pair)
  obtain bw bh where bs: "bitmap_size rot sw sh = (bw, bh)" by (metis surj_pair)
  obtain ok x where cb: "create_android_bitmap ops bw bh (release Scaler w) = (ok, x)" by (metis surj_pair)
  let ?fill = "fill_bitmap ops rgba ls sw sh bw bh rot x"
  have unf: "result = (if a < 0 then Returns (None, u) else if \<not> c then Returns (None, release Rgba_Image v)
      else if rows \<le> 0 then Returns (None, release Rgba_Image (release Scaler w))
      else if \<not> ok then Returns (None, release Rgba_Image x) else ?fill)"
    unfolding assms(7) [symmetric] frame_to_bitmap_def f prod.case i Let_def sc sl bs cb by simp
  show ?thesis
  proof (cases "\<not> a < 0 \<and> c \<and> \<not> rows \<le> 0 \<and> ok")
    case False
    then show ?thesis unfolding unf by auto
  next
    case True
    then have res: "result = ?fill" unfolding unf by simp
    have d: "4 * sw \<le> ls" "sh * ls \<le> int (length d)"
      using assms(6) [unfolded buffers_ok_def, THEN conjunct1, rule_format, where w = sw and h = sh and x = "world s"] i True
      by (auto simp: call_def split: prod.splits)
    have rgba: "rgba = snd (fst (scale ops frame sw sh ls d (world (hold True Scaler v))))"
      using sl by (auto simp: call_def split: prod.splits)
    then have "length rgba = length d"
      using assms(6) by (simp add: buffers_ok_def)
    then have pic: "case ?fill of Out_Of_Fuel \<Rightarrow> False | Undefined \<Rightarrow> False
        | Returns (b, t) \<Rightarrow> (\<forall>bm. b = Some bm \<longrightarrow> shows_image bm rgba ls sw sh rot)"
      using d lim by (intro fill_bitmap_picture [OF assms(6) _ _ _ _ bs]) auto
    have "1 \<le> bm_width bm \<and> bm_width bm \<le> mx \<and> 1 \<le> bm_height bm \<and> bm_height bm \<le> mx"
      if "shows_image bm rgba ls sw sh rot" for bm
      using that lim by (auto simp: shows_image_def bitmap_size_def split: if_splits)
    then show ?thesis using pic f rgba unfolding res by (cases ?fill) (auto, metis)
  qed
qed

section \<open>A concrete environment\<close>

text \<open>
  The decoder of \<open>Decode\<close>, a scaler that paints every byte 7, a stream without duration and
  rotation, and a bitmap whose rows are padded by four bytes.
\<close>

definition demo_extract :: "(int \<times> bool) extract_ops" where
  "demo_extract = \<lparr>packet_alloc = (\<lambda>w. (True, w)), frame_alloc = (\<lambda>w. (True, w)),
     read_frame = read_frame demo_ops, send_packet = send_packet demo_ops,
     receive_frame = receive_frame demo_ops, frame_ref = frame_ref demo_ops,
     gettime = gettime demo_ops, io_context = io_context demo_ops,
     install_io = (\<lambda>c w. w), delete_scratch = (\<lambda>w. w),
     jni_lookup = (\<lambda>n w. (True, w)), alloc = (\<lambda>r w. (True, w)), dict_alloc = (\<lambda>s. True),
     open_input = (\<lambda>d w. ((0, True, None), w)), find_stream_info = (\<lambda>w. (0, w)),
     best_stream = (\<lambda>w. ((0, True), w)), params_to_context = (\<lambda>i w. (0, w)), codec_open = (\<lambda>w. (0, w)),
     format_of = (\<lambda>w. \<lparr>fmt_duration = 0, fmt_start_time = 0\<rparr>),
     stream_of = (\<lambda>i w. \<lparr>st_duration = 0, st_start_time = 0, st_time_base = \<lparr>num = 1, den = 1000\<rparr>\<rparr>),
     display_matrix = (\<lambda>i w. None), rotation_get = (\<lambda>m. None),
     seek_file = (\<lambda>i a b c w. (0, w)), seek_frame = (\<lambda>i t w. (0, w)),
     flush_decoder = (\<lambda>w. w), rewind_input = (\<lambda>w. w),
     image_alloc = (\<lambda>w h x. ((0, 4 * w, replicate (nat (4 * w * h)) 0), x)),
     scaler_alloc = (\<lambda>f w h x. (True, x)),
     scale = (\<lambda>f w h ls d x. ((h, replicate (length d) 7), x)),
     create_bitmap = (\<lambda>w h x. ((True, False), x)),
     bitmap_info = (\<lambda>w h x. ((if 4 * w + 4 \<le> INT_MAX then 0 else - 1, 1, 4 * w + 4), x)),
     lock_pixels = (\<lambda>w h x. ((0, Some (replicate (nat ((4 * w + 4) * h)) 0)), x))\<rparr>"

lemma demo_contracts: "lock_gives_pixels demo_extract" "open_keeps_context demo_extract"
  by (simp_all add: lock_gives_pixels_def open_keeps_context_def demo_extract_def)

lemma demo_buffers: "buffers_ok demo_extract"
  by (auto simp: buffers_ok_def demo_extract_def algebra_simps)

lemma demo_codec: "codec demo_extract = demo_ops"
  by (simp add: demo_extract_def codec_ops.truncate_def demo_ops_def)

definition demo_image :: "int \<Rightarrow> int \<Rightarrow> byte list" where
  "demo_image w h = concat (replicate (nat h) (replicate (nat (4 * w)) 7 @ replicate 4 0))"

lemma demo_fill:
  "fill_bitmap demo_extract (replicate 32 7) 16 4 2 4 2 0 s
    = Returns (Some \<lparr>bm_width = 4, bm_height = 2, bm_stride = 20, bm_pixels = demo_image 4 2\<rparr>,
               release Rgba_Image (release Pixel_Lock (hold True Pixel_Lock s)))"
proof -
  have "copy_rotated_rgba (replicate 32 7) 16 4 2 (replicate 40 0) 20 0 = Some (demo_image 4 2)" by code_simp
  then show ?thesis
    by (cases s) (simp add: fill_bitmap_def demo_extract_def call_def hold_def i32_def Let_def)
qed

lemma demo_frame_bitmap:
  "frame_to_bitmap demo_extract (demo_frame k) 10 0 s
    = fill_bitmap demo_extract (replicate 32 7) 16 4 2 4 2 0 (hold True Rgba_Image s)"
  by (cases s) (simp add: frame_to_bitmap_def demo_frame_def fit_inside_def bitmap_size_def call_def hold_def
      release_def create_android_bitmap_def Let_def demo_extract_def)

theorem frame_to_bitmap_correct_witness:
  "\<exists>t. frame_to_bitmap demo_extract (demo_frame 3) 10 0 demo_state
      = Returns (Some \<lparr>bm_width = 4, bm_height = 2, bm_stride = 20, bm_pixels = demo_image 4 2\<rparr>, t) \<and>
     frame_to_bitmap demo_extract (demo_frame 3) 10 0 demo_state \<noteq> Undefined \<and>
     (\<exists>sw sh ls rgba. shows_image \<lparr>bm_width = 4, bm_height = 2, bm_stride = 20, bm_pixels = demo_image 4 2\<rparr> rgba ls sw sh 0)"
proof -
  have "0 < fr_width (demo_frame 3)" "fr_width (demo_frame 3) \<le> INT_MAX"
    "0 < fr_height (demo_frame 3)" "fr_height (demo_frame 3) \<le> INT_MAX" by (simp_all add: demo_frame_def)
  note frame_to_bitmap_correct [OF this, of 10, OF _ demo_buffers refl, of 0 demo_state]
  then show ?thesis unfolding demo_frame_bitmap demo_fill by auto
qed

lemma demo_render:
  "\<exists>b t. render 60 demo_extract 0 AV_NOPTS_VALUE 10 (demo_state\<lparr>live := L\<rparr>) = Returns (Some b, t)"
proof -
  have "\<exists>w. decode_thumbnail_frame 60 demo_ops 0 AV_NOPTS_VALUE (demo_state\<lparr>live := Candidate_Frame # L\<rparr>) = Some (0, w)
      \<and> candidate w = demo_frame 2"
    by (simp add: demo_defs eval_nat_numeral receive_loop.simps)
  then obtain w where w: "decode_thumbnail_frame 60 demo_ops 0 AV_NOPTS_VALUE
      (demo_state\<lparr>live := Candidate_Frame # L\<rparr>) = Some (0, w)" "candidate w = demo_frame 2" by blast
  have c: "call (frame_alloc demo_extract) (demo_state\<lparr>live := L\<rparr>) = (True, demo_state\<lparr>live := L\<rparr>)"
    by (simp add: call_def demo_extract_def demo_state_def)
  have h: "(hold True Candidate_Frame (demo_state\<lparr>live := L\<rparr>))\<lparr>candidate := blank_frame\<rparr> = demo_state\<lparr>live := Candidate_Frame # L\<rparr>"
    by (simp add: hold_def demo_state_def)
  have "normalized_clockwise_rotation (rotation_get demo_extract) (display_matrix demo_extract 0 (world w)) = 0"
    by (simp add: demo_extract_def normalized_clockwise_rotation_def)
  then show ?thesis
    unfolding render_def c prod.case h demo_codec w(1)
    by (simp add: w(2) demo_frame_bitmap demo_fill) (simp add: demo_frame_def)
qed

lemma demo_call:
  "call (gettime demo_extract) (demo_state\<lparr>live := L\<rparr>) = (1, demo_state\<lparr>live := L\<rparr>)"
  "install_io demo_extract c x = x"
  "call (jni_lookup demo_extract n) (demo_state\<lparr>live := L\<rparr>) = (True, demo_state\<lparr>live := L\<rparr>)"
  "call (alloc demo_extract r) (demo_state\<lparr>live := L\<rparr>) = (True, demo_state\<lparr>live := L\<rparr>)"
  "call (open_input demo_extract d) (demo_state\<lparr>live := L\<rparr>) = ((0, True, None), demo_state\<lparr>live := L\<rparr>)"
  "call (find_stream_info demo_extract) (demo_state\<lparr>live := L\<rparr>) = (0, demo_state\<lparr>live := L\<rparr>)"
  "call (best_stream demo_extract) (demo_state\<lparr>live := L\<rparr>) = ((0, True), demo_state\<lparr>live := L\<rparr>)"
  "call (params_to_context demo_extract i) (demo_state\<lparr>live := L\<rparr>) = (0, demo_state\<lparr>live := L\<rparr>)"
  "call (codec_open demo_extract) (demo_state\<lparr>live := L\<rparr>) = (0, demo_state\<lparr>live := L\<rparr>)"
  "hold b r (demo_state\<lparr>live := L\<rparr>) = demo_state\<lparr>live := (if b then r # L else L)\<rparr>"
  "release r (demo_state\<lparr>live := L\<rparr>) = demo_state\<lparr>live := remove1 r L\<rparr>"
  "(demo_state\<lparr>live := L\<rparr>)\<lparr>world := world (demo_state\<lparr>live := L\<rparr>)\<rparr> = demo_state\<lparr>live := L\<rparr>"
  by (simp_all add: call_def demo_extract_def demo_state_def demo_ops_def hold_def release_def)

lemma demo_target:
  "target_timestamp_for_stream (format_of demo_extract x) (stream_of demo_extract i x) f = Some AV_NOPTS_VALUE"
  by (simp add: demo_extract_def target_timestamp_for_stream_def Let_def)

lemma demo_extract_run:
  "\<exists>b t. nativeExtractFrame 60 demo_extract True 100 NaN 10 (demo_state\<lparr>live := []\<rparr>) = Returns (Some b, t)"
proof -
  define L where "L = [Decoder_Context, Format_Context, Avio_Context, Avio_Buffer]"
  obtain b t where r: "render 60 demo_extract 0 AV_NOPTS_VALUE 10 (demo_state\<lparr>live := L\<rparr>) = Returns (Some b, t)"
    using demo_render by blast
  have "with_decoder 60 demo_extract 0 NaN 10 (demo_state\<lparr>live := L\<rparr>) = Returns (Some b, close_down demo_extract (release Decoder_Context t))"
    by (simp add: with_decoder_def demo_call demo_target seek_to_target_def r)
  then have "with_format 60 demo_extract NaN 10 (demo_state\<lparr>live := tl L\<rparr>) = Returns (Some b, close_down demo_extract (release Decoder_Context t))"
    by (simp add: with_format_def demo_call L_def)
  then have "with_avio 60 demo_extract NaN 10 (demo_state\<lparr>live := [Avio_Context, Avio_Buffer]\<rparr>)
      = Returns (Some b, close_down demo_extract (release Decoder_Context t))"
    by (simp add: with_avio_def demo_call L_def Let_def del: One_nat_def)
  then show ?thesis
    by (simp add: nativeExtractFrame_def demo_call Let_def)
qed

theorem extract_leaks_only_io_buffer_witness:
  "\<exists>b t. nativeExtractFrame 60 demo_extract True 100 NaN 10 (demo_state\<lparr>live := []\<rparr>) = Returns (Some b, t) \<and>
     live t = [Avio_Buffer]"
proof -
  obtain b t where r: "nativeExtractFrame 60 demo_extract True 100 NaN 10 (demo_state\<lparr>live := []\<rparr>) = Returns (Some b, t)"
    using demo_extract_run by blast
  have "received (demo_state\<lparr>live := []\<rparr>) = []" by (simp add: demo_state_def)
  from extract_leaks_only_io_buffer [OF r _ this demo_contracts] r show ?thesis by auto
qed

end
