(* ===== verification/Avio.thy ===== *)
theory Avio
  imports JavaIO
begin

text \<open>
  The buffered reader of \<open>libavformat/aviobuf.c\<close> through which the demuxer reads the media:
  the read side of \<open>AVIOContext\<close>, without checksums, as \<open>avio_alloc_context\<close> creates it. The
  callbacks are the interface \<open>packet_source\<close>; the callbacks of \<open>JavaIO\<close> interpret it, so that
  the bytes the demuxer gets are the bytes of the Java source at the position it asked for.
  Pointers into the buffer are offsets from \<open>s->buffer\<close>; an access outside it is \<open>None\<close>, and so
  is a loop whose fuel does not suffice.
\<close>

section \<open>State\<close>

definition IO_BUFFER_SIZE :: int where "IO_BUFFER_SIZE = 32768"
definition SHORT_SEEK_THRESHOLD :: int where "SHORT_SEEK_THRESHOLD = 32768"

text \<open>The callbacks, \<open>None\<close> for \<open>NULL\<close>, and the allocator with the contents of a new buffer.\<close>

record 'p source =
  read_cb :: "('p \<Rightarrow> int \<Rightarrow> int \<times> byte list \<times> 'p) option"
  seek_cb :: "('p \<Rightarrow> int \<Rightarrow> int \<Rightarrow> int \<times> 'p) option"
  buf_alloc :: "int \<Rightarrow> byte list option"

record 'p avio =
  opaque :: 'p
  abuf :: "byte list"
  buf_ptr :: int
  buf_end :: int
  apos :: int
  eof_reached :: bool
  aerror :: int
  orig_buffer_size :: int
  direct :: bool
  max_packet_size :: int
  seekable :: bool
  short_seek_threshold :: int
  bytes_read :: int
  seek_count :: int

abbreviation buffer_size :: "'p avio \<Rightarrow> int" where
  "buffer_size s \<equiv> int (length (abuf s))"

definition ffio_init_context :: "'p source \<Rightarrow> byte list \<Rightarrow> 'p \<Rightarrow> 'p avio" where
  "ffio_init_context src buffer p =
     \<lparr>opaque = p, abuf = buffer, buf_ptr = 0,
      buf_end = (if read_cb src = None then int (length buffer) else 0),
      apos = (if read_cb src = None then int (length buffer) else 0),
      eof_reached = False, aerror = 0, orig_buffer_size = int (length buffer), direct = False,
      max_packet_size = 0, seekable = (seek_cb src \<noteq> None),
      short_seek_threshold = SHORT_SEEK_THRESHOLD, bytes_read = 0, seek_count = 0\<rparr>"

section \<open>Filling the buffer\<close>

definition read_packet_wrapper :: "'p source \<Rightarrow> 'p avio \<Rightarrow> int \<Rightarrow> int \<times> byte list \<times> 'p avio" where
  "read_packet_wrapper src s n =
     (case read_cb src of
        None \<Rightarrow> (AVERROR_EINVAL, [], s)
      | Some f \<Rightarrow> (case f (opaque s) n of (r, bs, p) \<Rightarrow> (r, bs, s\<lparr>opaque := p\<rparr>)))"

definition set_buf_size :: "'p source \<Rightarrow> 'p avio \<Rightarrow> int \<Rightarrow> int \<times> 'p avio" where
  "set_buf_size src s n =
     (case buf_alloc src n of
        None \<Rightarrow> (AVERROR_ENOMEM, s)
      | Some b \<Rightarrow> (0, s\<lparr>abuf := b, orig_buffer_size := n, buf_ptr := 0, buf_end := 0\<rparr>))"

text \<open>Lines 517 to 549: where the data goes and how much is read, shrinking a large buffer.\<close>

definition fill_target :: "'p source \<Rightarrow> 'p avio \<Rightarrow> 'p avio \<times> int \<times> int" where
  "fill_target src s =
     (let max_buffer_size = (if max_packet_size s \<noteq> 0 then max_packet_size s else IO_BUFFER_SIZE);
          dst = (if buf_end s + max_buffer_size \<le> buffer_size s then buf_end s else 0);
          len = buffer_size s - dst
      in if read_cb src \<noteq> None \<and> orig_buffer_size s \<noteq> 0 \<and> buffer_size s > orig_buffer_size s \<and>
            len \<ge> orig_buffer_size s
         then (if dst = 0 \<and> buf_ptr s \<noteq> dst
               then (snd (set_buf_size src s (orig_buffer_size s)), 0, orig_buffer_size s)
               else (s, dst, orig_buffer_size s))
         else (s, dst, len))"

definition fill_buffer :: "'p source \<Rightarrow> 'p avio \<Rightarrow> 'p avio option" where
  "fill_buffer src s =
     (let eof = (eof_reached s \<or> (read_cb src = None \<and> buf_ptr s \<ge> buf_end s)) in
      if eof then Some (s\<lparr>eof_reached := True\<rparr>)
      else case fill_target src s of (s, dst, len) \<Rightarrow>
        case read_packet_wrapper src s len of (len, bs, s) \<Rightarrow>
          if len = AVERROR_EOF then Some (s\<lparr>eof_reached := True\<rparr>)
          else if len < 0 then Some (s\<lparr>eof_reached := True, aerror := len\<rparr>)
          else case store (abuf s) dst bs of
              None \<Rightarrow> None
            | Some b \<Rightarrow> Some (s\<lparr>abuf := b, apos := apos s + len, buf_ptr := dst, buf_end := dst + len,
                              bytes_read := bytes_read s + len\<rparr>))"

definition avio_feof :: "'p source \<Rightarrow> 'p avio \<Rightarrow> (bool \<times> 'p avio) option" where
  "avio_feof src s =
     (if eof_reached s then
        (case fill_buffer src (s\<lparr>eof_reached := False\<rparr>) of
           None \<Rightarrow> None | Some s \<Rightarrow> Some (eof_reached s, s))
      else Some (False, s))"

section \<open>Reading\<close>

definition avio_r8 :: "'p source \<Rightarrow> 'p avio \<Rightarrow> (int \<times> 'p avio) option" where
  "avio_r8 src s =
     (case (if buf_ptr s \<ge> buf_end s then fill_buffer src s else Some s) of
        None \<Rightarrow> None
      | Some s \<Rightarrow>
          if buf_ptr s < buf_end s then
            (case peek (abuf s) (buf_ptr s) of
               None \<Rightarrow> None | Some b \<Rightarrow> Some (uint b, s\<lparr>buf_ptr := buf_ptr s + 1\<rparr>))
          else Some (0, s))"

text \<open>The loop of \<open>avio_read\<close>: the bytes still wanted and the bytes stored so far.\<close>

fun read_loop :: "nat \<Rightarrow> 'p source \<Rightarrow> 'p avio \<Rightarrow> int \<Rightarrow> byte list \<Rightarrow> ('p avio \<times> int \<times> byte list) option" where
  "read_loop 0 src s n out = None"
| "read_loop (Suc fuel) src s n out =
     (if n \<le> 0 then Some (s, n, out)
      else
        let len = min (buf_end s - buf_ptr s) n in
        if len = 0 then
          if (direct s \<or> n > buffer_size s) \<and> read_cb src \<noteq> None then
            (case read_packet_wrapper src s n of (len, bs, s) \<Rightarrow>
               if len = AVERROR_EOF then Some (s\<lparr>eof_reached := True\<rparr>, n, out)
               else if len < 0 then Some (s\<lparr>eof_reached := True, aerror := len\<rparr>, n, out)
               else read_loop fuel src (s\<lparr>apos := apos s + len, bytes_read := bytes_read s + len,
                                          buf_ptr := 0, buf_end := 0\<rparr>) (n - len) (out @ bs))
          else
            (case fill_buffer src s of
               None \<Rightarrow> None
             | Some s \<Rightarrow> if buf_end s - buf_ptr s = 0 then Some (s, n, out) else read_loop fuel src s n out)
        else
          (case load (abuf s) (buf_ptr s) (nat len) of
             None \<Rightarrow> None
           | Some bs \<Rightarrow> read_loop fuel src (s\<lparr>buf_ptr := buf_ptr s + len\<rparr>) (n - len) (out @ bs)))"

text \<open>The return value, the bytes stored in the caller's buffer and the new context.\<close>

definition avio_read :: "nat \<Rightarrow> 'p source \<Rightarrow> 'p avio \<Rightarrow> int \<Rightarrow> (int \<times> byte list \<times> 'p avio) option" where
  "avio_read fuel src s n =
     (case read_loop fuel src s n [] of
        None \<Rightarrow> None
      | Some (s, left, out) \<Rightarrow>
          if n = left then
            (if aerror s \<noteq> 0 then Some (aerror s, out, s)
             else case avio_feof src s of
                    None \<Rightarrow> None
                  | Some (eof, s) \<Rightarrow> Some (if eof then AVERROR_EOF else n - left, out, s))
          else Some (n - left, out, s))"

definition ffio_read_size :: "nat \<Rightarrow> 'p source \<Rightarrow> 'p avio \<Rightarrow> int \<Rightarrow> (int \<times> byte list \<times> 'p avio) option" where
  "ffio_read_size fuel src s n =
     (case avio_read fuel src s n of
        None \<Rightarrow> None
      | Some (ret, out, s) \<Rightarrow>
          Some (if ret = n then ret else if ret < 0 \<and> ret \<noteq> AVERROR_EOF then ret else AVERROR_INVALIDDATA, out, s))"

definition avio_read_partial :: "'p source \<Rightarrow> 'p avio \<Rightarrow> int \<Rightarrow> (int \<times> byte list \<times> 'p avio) option" where
  "avio_read_partial src s n =
     (if n < 0 then Some (AVERROR_EINVAL, [], s)
      else
        case (if buf_end s - buf_ptr s = 0 then fill_buffer src s else Some s) of
          None \<Rightarrow> None
        | Some s \<Rightarrow>
            let len = buf_end s - buf_ptr s; len = (if len > n then n else len) in
            case load (abuf s) (buf_ptr s) (nat len) of
              None \<Rightarrow> None
            | Some bs \<Rightarrow>
                let s = s\<lparr>buf_ptr := buf_ptr s + len\<rparr> in
                if len = 0 then
                  (if aerror s \<noteq> 0 then Some (aerror s, bs, s)
                   else case avio_feof src s of
                          None \<Rightarrow> None
                        | Some (eof, s) \<Rightarrow> Some (if eof then AVERROR_EOF else len, bs, s))
                else Some (len, bs, s))"

text \<open>The little- and big-endian readers.\<close>

definition bind_r :: "(int \<times> 'p avio) option \<Rightarrow> (int \<Rightarrow> 'p avio \<Rightarrow> (int \<times> 'p avio) option) \<Rightarrow> (int \<times> 'p avio) option" where
  "bind_r m f = (case m of None \<Rightarrow> None | Some (v, s) \<Rightarrow> f v s)"

definition avio_rl16 :: "'p source \<Rightarrow> 'p avio \<Rightarrow> (int \<times> 'p avio) option" where
  "avio_rl16 src s = bind_r (avio_r8 src s) (\<lambda>a s. bind_r (avio_r8 src s) (\<lambda>b s. Some (a + b * 256, s)))"

definition avio_rl24 :: "'p source \<Rightarrow> 'p avio \<Rightarrow> (int \<times> 'p avio) option" where
  "avio_rl24 src s = bind_r (avio_rl16 src s) (\<lambda>a s. bind_r (avio_r8 src s) (\<lambda>b s. Some (a + b * 65536, s)))"

definition avio_rl32 :: "'p source \<Rightarrow> 'p avio \<Rightarrow> (int \<times> 'p avio) option" where
  "avio_rl32 src s = bind_r (avio_rl16 src s) (\<lambda>a s. bind_r (avio_rl16 src s) (\<lambda>b s. Some (a + b * 65536, s)))"

definition avio_rl64 :: "'p source \<Rightarrow> 'p avio \<Rightarrow> (int \<times> 'p avio) option" where
  "avio_rl64 src s = bind_r (avio_rl32 src s) (\<lambda>a s. bind_r (avio_rl32 src s) (\<lambda>b s. Some (a + b * 4294967296, s)))"

definition avio_rb16 :: "'p source \<Rightarrow> 'p avio \<Rightarrow> (int \<times> 'p avio) option" where
  "avio_rb16 src s = bind_r (avio_r8 src s) (\<lambda>a s. bind_r (avio_r8 src s) (\<lambda>b s. Some (a * 256 + b, s)))"

definition avio_rb24 :: "'p source \<Rightarrow> 'p avio \<Rightarrow> (int \<times> 'p avio) option" where
  "avio_rb24 src s = bind_r (avio_rb16 src s) (\<lambda>a s. bind_r (avio_r8 src s) (\<lambda>b s. Some (a * 256 + b, s)))"

definition avio_rb32 :: "'p source \<Rightarrow> 'p avio \<Rightarrow> (int \<times> 'p avio) option" where
  "avio_rb32 src s = bind_r (avio_rb16 src s) (\<lambda>a s. bind_r (avio_rb16 src s) (\<lambda>b s. Some (a * 65536 + b, s)))"

section \<open>Seeking\<close>

fun skip_loop :: "nat \<Rightarrow> 'p source \<Rightarrow> 'p avio \<Rightarrow> int \<Rightarrow> 'p avio option" where
  "skip_loop 0 src s offset = None"
| "skip_loop (Suc fuel) src s offset =
     (if apos s < offset \<and> \<not> eof_reached s
      then (case fill_buffer src s of None \<Rightarrow> None | Some s \<Rightarrow> skip_loop fuel src s offset)
      else Some s)"

definition call_seek :: "'p source \<Rightarrow> 'p avio \<Rightarrow> int \<Rightarrow> int \<Rightarrow> int \<times> 'p avio" where
  "call_seek src s offset whence =
     (case the (seek_cb src) (opaque s) offset whence of (r, p) \<Rightarrow> (r, s\<lparr>opaque := p\<rparr>))"

text \<open>
  Lines 269 to 318, for an absolute offset. The recursion of line 301 is the step from
  \<open>Suc fuel\<close> to \<open>fuel\<close>; the loop of line 285 has its own fuel.
\<close>

fun seek_to :: "nat \<Rightarrow> nat \<Rightarrow> 'p source \<Rightarrow> 'p avio \<Rightarrow> int \<Rightarrow> (int \<times> 'p avio) option" where
  "seek_to 0 skip_fuel src s offset = None"
| "seek_to (Suc fuel) skip_fuel src s offset =
     (let buffered = buf_end s; pos = apos s - buffered; offset1 = offset - pos in
      if (\<not> direct s \<or> seek_cb src = None) \<and> offset1 \<ge> 0 \<and> offset1 \<le> buffered then
        Some (offset, s\<lparr>buf_ptr := offset1, eof_reached := False\<rparr>)
      else if (\<not> seekable s \<or> offset1 \<le> buffered + short_seek_threshold s) \<and> offset1 \<ge> 0 \<and>
              (\<not> direct s \<or> seek_cb src = None) then
        (case skip_loop skip_fuel src s offset of
           None \<Rightarrow> None
         | Some s \<Rightarrow>
             if eof_reached s then Some (AVERROR_EOF, s)
             else Some (offset, s\<lparr>buf_ptr := buf_end s - (apos s - offset), eof_reached := False\<rparr>))
      else if offset1 < 0 \<and> - offset1 < buffered div 2 \<and> seek_cb src \<noteq> None \<and> offset > 0 then
        let pos = pos - min (buffered div 2) pos in
        (case call_seek src s pos SEEK_SET of (res, s) \<Rightarrow>
           if res < 0 then Some (res, s)
           else case fill_buffer src (s\<lparr>buf_end := 0, buf_ptr := 0, apos := pos, eof_reached := False\<rparr>) of
               None \<Rightarrow> None
             | Some s \<Rightarrow> seek_to fuel skip_fuel src s offset)
      else if seek_cb src = None then Some (-32, s)
      else
        (case call_seek src s offset SEEK_SET of (res, s) \<Rightarrow>
           if res < 0 then Some (res, s)
           else Some (offset, s\<lparr>seek_count := seek_count s + 1, buf_end := 0, buf_ptr := 0, apos := offset,
                              eof_reached := False\<rparr>)))"

definition avio_tell :: "'p avio \<Rightarrow> int" where
  "avio_tell s = apos s - buf_end s + buf_ptr s"

definition avio_seek :: "nat \<Rightarrow> nat \<Rightarrow> 'p source \<Rightarrow> 'p avio \<Rightarrow> int \<Rightarrow> int \<Rightarrow> (int \<times> 'p avio) option" where
  "avio_seek fuel skip_fuel src s offset whence =
     (let whence = clear_force whence in
      if (whence div AVSEEK_SIZE) mod 2 = 1 then
        (if seek_cb src = None then Some (AVERROR_ENOSYS, s) else Some (call_seek src s offset AVSEEK_SIZE))
      else if whence \<noteq> SEEK_CUR \<and> whence \<noteq> SEEK_SET then Some (AVERROR_EINVAL, s)
      else if whence = SEEK_CUR \<and> offset = 0 then Some (avio_tell s, s)
      else if whence = SEEK_CUR \<and> offset > INT64_MAX - avio_tell s then Some (AVERROR_EINVAL, s)
      else
        let offset = (if whence = SEEK_CUR then offset + avio_tell s else offset) in
        if offset < 0 then Some (AVERROR_EINVAL, s)
        else seek_to fuel skip_fuel src s offset)"

definition avio_skip :: "nat \<Rightarrow> nat \<Rightarrow> 'p source \<Rightarrow> 'p avio \<Rightarrow> int \<Rightarrow> (int \<times> 'p avio) option" where
  "avio_skip fuel skip_fuel src s offset = avio_seek fuel skip_fuel src s offset SEEK_CUR"

definition avio_size :: "'p source \<Rightarrow> 'p avio \<Rightarrow> int \<times> 'p avio" where
  "avio_size src s =
     (if seek_cb src = None then (AVERROR_ENOSYS, s)
      else case call_seek src s 0 AVSEEK_SIZE of (sz, s) \<Rightarrow>
        if sz < 0 then
          (case call_seek src s (- 1) SEEK_END of (sz, s) \<Rightarrow>
             if sz < 0 then (sz, s)
             else case call_seek src s (apos s) SEEK_SET of (_, s) \<Rightarrow> (sz + 1, s))
        else (sz, s))"

section \<open>Operations of a client\<close>

text \<open>
  What a demuxer does with the context, with fuel that is enough: a read takes at most two
  rounds for each byte, a seek at most one filled buffer for each byte it skips. The result is
  the return value, the bytes delivered and the new context.
\<close>

datatype avio_op = Op_Read int | Op_Partial int | Op_R8 | Op_Seek int int | Op_Feof | Op_Size

fun avio_apply :: "'p source \<Rightarrow> 'p avio \<Rightarrow> avio_op \<Rightarrow> (int \<times> byte list \<times> 'p avio) option" where
  "avio_apply src s (Op_Read n) = avio_read (2 * nat n + 2) src s n"
| "avio_apply src s (Op_Partial n) = avio_read_partial src s n"
| "avio_apply src s Op_R8 =
     (case avio_r8 src s of None \<Rightarrow> None
      | Some (v, t) \<Rightarrow> Some (v, if avio_tell t = avio_tell s then [] else [of_int v], t))"
| "avio_apply src s (Op_Seek offset whence) =
     map_option (\<lambda>(r, t). (r, [], t)) (avio_seek 2 (nat (\<bar>offset\<bar> + \<bar>avio_tell s\<bar>) + 1) src s offset whence)"
| "avio_apply src s Op_Feof = map_option (\<lambda>(b, t). (if b then 1 else 0, [], t)) (avio_feof src s)"
| "avio_apply src s Op_Size = (case avio_size src s of (r, t) \<Rightarrow> Some (r, [], t))"

fun op_ok :: "avio_op \<Rightarrow> bool" where
  "op_ok (Op_Read n) \<longleftrightarrow> 0 \<le> n \<and> n \<le> INT_MAX"
| "op_ok (Op_Partial n) \<longleftrightarrow> n \<le> INT_MAX"
| "op_ok _ \<longleftrightarrow> True"

inductive avio_reach :: "'p source \<Rightarrow> 'p avio \<Rightarrow> 'p avio \<Rightarrow> bool" for src s where
  start: "avio_reach src s s"
| step: "avio_reach src s t \<Longrightarrow> op_ok oper \<Longrightarrow> avio_apply src t oper = Some (r, bs, u) \<Longrightarrow> avio_reach src s u"

section \<open>The interface of the callbacks\<close>

text \<open>
  A source of packets over the bytes \<open>contents\<close>: a read delivers the next bytes or fails and leaves
  the position, a seek moves to the target or fails and leaves the position.
\<close>

definition read_law :: "byte list \<Rightarrow> int \<Rightarrow> int \<Rightarrow> int \<Rightarrow> byte list \<Rightarrow> int \<Rightarrow> bool" where
  "read_law contents p n r bs p' \<longleftrightarrow>
     (if r < 0 then bs = [] \<and> p' = p
      else 0 < r \<and> r \<le> n \<and> p + r \<le> int (length contents) \<and> bs = slice (nat p) (nat r) contents \<and> p' = p + r)"

locale packet_source =
  fixes src :: "'p source" and good :: "'p \<Rightarrow> bool" and spos :: "'p \<Rightarrow> int" and contents :: "byte list"
  assumes has_read: "\<exists>f. read_cb src = Some f"
    and has_seek: "\<exists>f. seek_cb src = Some f"
    and read: "\<lbrakk>read_cb src = Some f; good p; 0 < n; n \<le> INT_MAX; f p n = (r, bs, p')\<rbrakk>
      \<Longrightarrow> good p' \<and> read_law contents (spos p) n r bs (spos p')"
    and seek_set: "\<lbrakk>seek_cb src = Some g; good p; 0 \<le> off; g p off SEEK_SET = (r, p')\<rbrakk>
      \<Longrightarrow> good p' \<and> (if r < 0 then spos p' = spos p else spos p' = off)"
    and seek_size: "\<lbrakk>seek_cb src = Some g; good p; g p off AVSEEK_SIZE = (r, p')\<rbrakk>
      \<Longrightarrow> good p' \<and> spos p' = spos p \<and> (r < 0 \<longrightarrow> (\<forall>o2. fst (g p' o2 SEEK_END) < 0 \<and>
            good (snd (g p' o2 SEEK_END)) \<and> spos (snd (g p' o2 SEEK_END)) = spos p))"
    and pos_nonneg: "good p \<Longrightarrow> 0 \<le> spos p"
    and new_buffer: "buf_alloc src n = Some b \<Longrightarrow> int (length b) = n"
begin

text \<open>
  The invariant of a read context: the offsets are ordered inside the buffer, the source stands
  behind the buffered bytes, and these are the bytes of the contents before that position.
\<close>

definition wf :: "'p avio \<Rightarrow> bool" where
  "wf s \<longleftrightarrow> good (opaque s) \<and> spos (opaque s) = apos s \<and> 0 \<le> buf_ptr s \<and> buf_ptr s \<le> buf_end s \<and>
     buf_end s \<le> buffer_size s \<and> buf_end s \<le> apos s \<and> 0 < buffer_size s \<and> buffer_size s \<le> INT_MAX \<and>
     0 < orig_buffer_size s \<and> orig_buffer_size s \<le> INT_MAX \<and> 0 \<le> max_packet_size s \<and> 0 \<le> short_seek_threshold s \<and>
     slice 0 (nat (buf_end s)) (abuf s) = slice (nat (apos s - buf_end s)) (nat (buf_end s)) contents \<and>
     (0 < buf_end s \<longrightarrow> apos s \<le> int (length contents))"

lemma wf_bounds:
  assumes "wf s"
  shows "0 \<le> buf_ptr s" "buf_ptr s \<le> buf_end s" "buf_end s \<le> buffer_size s" "buf_end s \<le> apos s"
    "0 \<le> apos s" "0 < buffer_size s" "buffer_size s \<le> INT_MAX"
  using assms by (auto simp: wf_def)

lemma wf_flags [simp]:
  "wf (s\<lparr>eof_reached := b\<rparr>) = wf s" "wf (s\<lparr>aerror := e\<rparr>) = wf s" "wf (s\<lparr>bytes_read := k\<rparr>) = wf s"
  "wf (s\<lparr>seek_count := k\<rparr>) = wf s"
  by (simp_all add: wf_def)

lemma wf_move: "wf s \<Longrightarrow> 0 \<le> i \<Longrightarrow> i \<le> buf_end s \<Longrightarrow> wf (s\<lparr>buf_ptr := i\<rparr>)"
  by (simp add: wf_def)

lemma wf_drop: "wf s \<Longrightarrow> wf (s\<lparr>buf_ptr := 0, buf_end := 0\<rparr>)"
  using pos_nonneg [of "opaque s"] by (auto simp: wf_def)

text \<open>The buffered bytes at an offset are the contents there.\<close>

lemma buffered_slice:
  assumes "wf s" "0 \<le> i" "i + int k \<le> buf_end s"
  shows "slice (nat i) k (abuf s) = slice (nat (apos s - buf_end s + i)) k contents"
    and "0 < k \<Longrightarrow> apos s - buf_end s + i + int k \<le> int (length contents)"
proof -
  have b: "slice 0 (nat (buf_end s)) (abuf s) = slice (nat (apos s - buf_end s)) (nat (buf_end s)) contents"
    using assms(1) by (simp add: wf_def)
  have le: "nat i + k \<le> nat (buf_end s)" using assms by linarith
  have mn: "min k (nat (buf_end s) - nat i) = k" using le by simp
  have sub: "slice (nat i) k xs = take k (drop (nat i) (slice 0 (nat (buf_end s)) xs))" for xs :: "byte list"
    by (simp add: slice_def drop_take mn)
  have sub2: "slice (j + nat i) k xs = take k (drop (nat i) (slice j (nat (buf_end s)) xs))" for xs :: "byte list" and j
    by (simp add: slice_def drop_take mn add.commute)
  have "nat (apos s - buf_end s + i) = nat (apos s - buf_end s) + nat i"
    using assms wf_bounds [OF assms(1)] by (intro nat_add_distrib) auto
  then show "slice (nat i) k (abuf s) = slice (nat (apos s - buf_end s + i)) k contents"
    using sub [of "abuf s"] sub2 [of "nat (apos s - buf_end s)" contents] b by simp
  show "apos s - buf_end s + i + int k \<le> int (length contents)" if "0 < k"
    using assms that by (auto simp: wf_def)
qed

lemma wrapper:
  assumes "wf s" "0 < n" "n \<le> INT_MAX" "read_packet_wrapper src s n = (r, bs, t)"
  shows "\<exists>p. t = s\<lparr>opaque := p\<rparr> \<and> good p \<and> read_law contents (apos s) n r bs (spos p)"
proof -
  obtain f where f: "read_cb src = Some f" using has_read by blast
  obtain r' bs' p where p: "f (opaque s) n = (r', bs', p)" by (metis prod_cases3)
  with assms f have t: "t = s\<lparr>opaque := p\<rparr>" "r' = r" "bs' = bs" by (simp_all add: read_packet_wrapper_def)
  from assms(1) have "good (opaque s)" "spos (opaque s) = apos s" by (simp_all add: wf_def)
  with read [OF f _ assms(2,3) p] t show ?thesis by auto
qed

lemma store_slice:
  assumes "store b dst bs = Some b'"
  shows "length b' = length b" "slice 0 (nat dst + length bs) b' = slice 0 (nat dst) b @ bs"
  using assms by (auto simp: store_def slice_def splice_def split: if_splits)

text \<open>Where data is put by \<open>fill_buffer\<close>: behind the buffered bytes, or at the start.\<close>

lemma fill_target_ok:
  assumes "wf s" "fill_target src s = (t, dst, len)"
  shows "wf t" "0 < len" "dst = 0 \<or> dst = buf_end t" "dst + len \<le> buffer_size t" "0 \<le> dst"
    "opaque t = opaque s" "apos t = apos s" "eof_reached t = eof_reached s" "aerror t = aerror s"
    "buf_ptr t = buf_end t \<or> t = s" "direct t = direct s" "seekable t = seekable s"
proof -
  define m where "m = (if max_packet_size s \<noteq> 0 then max_packet_size s else IO_BUFFER_SIZE)"
  define d where "d = (if buf_end s + m \<le> buffer_size s then buf_end s else 0)"
  have m: "0 < m" using assms(1) by (auto simp: m_def IO_BUFFER_SIZE_def wf_def)
  have d: "0 \<le> d" "0 < buffer_size s - d" "d = 0 \<or> d = buf_end s"
    using m wf_bounds [OF assms(1)] by (auto simp: d_def)
  consider (same) "t = s" "dst = d" "len = buffer_size s - d"
    | (cut) "t = s" "dst = d" "len = orig_buffer_size s" "orig_buffer_size s \<le> buffer_size s - d"
    | (new) "t = snd (set_buf_size src s (orig_buffer_size s))" "dst = 0" "len = orig_buffer_size s"
        "orig_buffer_size s \<le> buffer_size s" "d = 0"
  proof -
    let ?A = "read_cb src \<noteq> None \<and> orig_buffer_size s \<noteq> 0 \<and> buffer_size s > orig_buffer_size s \<and>
      buffer_size s - d \<ge> orig_buffer_size s"
    have eq: "(t, dst, len) = (if ?A then (if d = 0 \<and> buf_ptr s \<noteq> d
               then (snd (set_buf_size src s (orig_buffer_size s)), 0, orig_buffer_size s)
               else (s, d, orig_buffer_size s)) else (s, d, buffer_size s - d))"
      using assms(2) unfolding fill_target_def Let_def m_def [symmetric] d_def [symmetric] by (rule sym)
    show thesis
    proof (cases ?A)
      case A: True
      show thesis
      proof (cases "d = 0 \<and> buf_ptr s \<noteq> d")
        case True
        with A eq show thesis by (intro new) auto
      next
        case False
        with A eq show thesis by (intro cut) auto
      qed
    next
      case False
      with eq show thesis by (intro same) auto
    qed
  qed
  then have "wf t \<and> 0 < len \<and> (dst = 0 \<or> dst = buf_end t) \<and> dst + len \<le> buffer_size t \<and> 0 \<le> dst \<and>
      opaque t = opaque s \<and> apos t = apos s \<and> eof_reached t = eof_reached s \<and> aerror t = aerror s \<and>
      (buf_ptr t = buf_end t \<or> t = s) \<and> direct t = direct s \<and> seekable t = seekable s"
  proof cases
    case same
    with d assms(1) show ?thesis by auto
  next
    case cut
    with d assms(1) show ?thesis by (auto simp: wf_def)
  next
    case new
    show ?thesis
    proof (cases "buf_alloc src (orig_buffer_size s)")
      case None
      with new assms(1) show ?thesis by (auto simp: set_buf_size_def wf_def)
    next
      case (Some b)
      with new new_buffer [OF Some] assms(1) pos_nonneg [of "opaque s"] show ?thesis
        by (auto simp: set_buf_size_def wf_def)
    qed
  qed
  then show "wf t" "0 < len" "dst = 0 \<or> dst = buf_end t" "dst + len \<le> buffer_size t" "0 \<le> dst"
    "opaque t = opaque s" "apos t = apos s" "eof_reached t = eof_reached s" "aerror t = aerror s"
    "buf_ptr t = buf_end t \<or> t = s" "direct t = direct s" "seekable t = seekable s" by blast+
qed

text \<open>
  What filling does: it stays in the buffer and keeps the invariant, and either new bytes follow the
  old position, or the position is kept and the end is marked.
\<close>

lemma fill_buffer_ok:
  assumes "wf s"
  shows "\<exists>t. fill_buffer src s = Some t \<and> wf t \<and> seekable t = seekable s \<and> direct t = direct s \<and>
    (if eof_reached t then apos t = apos s \<and> (buf_ptr t = buf_end t \<or> buf_ptr t = buf_ptr s \<and> buf_end t = buf_end s)
     else apos s < apos t \<and> avio_tell t = apos s \<and> buf_ptr t < buf_end t \<and> aerror t = aerror s)"
proof -
  obtain f where f: "read_cb src = Some f" using has_read by blast
  show ?thesis
  proof (cases "eof_reached s")
    case True
    with assms f show ?thesis by (simp add: fill_buffer_def)
  next
    case False
    obtain u dst len where u: "fill_target src s = (u, dst, len)" by (metis prod_cases3)
    note tg = fill_target_ok [OF assms u]
    have "len \<le> INT_MAX" using tg(1,4,5) by (auto simp: wf_def)
    obtain r bs v where w: "read_packet_wrapper src u len = (r, bs, v)" by (metis prod_cases3)
    from wrapper [OF tg(1,2) \<open>len \<le> INT_MAX\<close> w] obtain p
      where v: "v = u\<lparr>opaque := p\<rparr>" "good p" and law: "read_law contents (apos u) len r bs (spos p)" by blast
    have unf: "fill_buffer src s = (if r = AVERROR_EOF then Some (v\<lparr>eof_reached := True\<rparr>)
        else if r < 0 then Some (v\<lparr>eof_reached := True, aerror := r\<rparr>)
        else case store (abuf v) dst bs of None \<Rightarrow> None
          | Some b \<Rightarrow> Some (v\<lparr>abuf := b, apos := apos v + r, buf_ptr := dst, buf_end := dst + r,
                              bytes_read := bytes_read v + r\<rparr>))"
      using False f u w by (simp add: fill_buffer_def)
    show ?thesis
    proof (cases "r < 0")
      case True
      then have "spos p = apos u" using law by (simp add: read_law_def)
      then have "wf v" using v tg(1) by (auto simp: wf_def)
      with True tg v show ?thesis unfolding unf by auto
    next
      case ok: False
      then have r: "0 < r" "r \<le> len" "apos u + r \<le> int (length contents)" "bs = slice (nat (apos u)) (nat r) contents"
        "spos p = apos u + r" using law by (auto simp: read_law_def)
      have lb: "int (length bs) = r"
        using r wf_bounds(5) [OF tg(1)] by (simp add: nat_add_distrib [symmetric])
      have "dst + int (length bs) \<le> int (length (abuf v))" using tg(4) r(2) lb v(1) by simp
      then obtain b where b: "store (abuf v) dst bs = Some b" using tg(5) by (simp add: store_def)
      note sl = store_slice [OF b]
      define t where "t = v\<lparr>abuf := b, apos := apos v + r, buf_ptr := dst, buf_end := dst + r,
                              bytes_read := bytes_read v + r\<rparr>"
      have res: "fill_buffer src s = Some t" using ok b by (simp add: unf t_def averror_values)
      have nat_r: "nat (dst + r) = nat dst + length bs" using lb tg(5) r(1) by linarith
      have old: "slice 0 (nat dst) (abuf u) = slice (nat (apos u - dst)) (nat dst) contents" "dst \<le> apos u"
        using tg(1,3) wf_bounds(5) [OF tg(1)] by (auto simp: wf_def)
      have "slice 0 (nat (dst + r)) b = slice (nat (apos u - dst)) (nat dst) contents @ bs"
        using sl(2) old(1) v(1) unfolding nat_r by simp
      also have "\<dots> = slice (nat (apos u - dst)) (nat (dst + r)) contents"
      proof -
        have e: "nat (apos u) - nat (apos u - dst) = nat dst"
          "nat (apos u + r) - nat (apos u) = nat r"
          "nat (apos u + r) - nat (apos u - dst) = nat (dst + r)"
          using tg(5) r(1) old(2) by linarith+
        have "nat (apos u - dst) \<le> nat (apos u)" "nat (apos u) \<le> nat (apos u + r)"
          using tg(5) r(1) by linarith+
        from slice_concat [OF this, of contents] show ?thesis unfolding e r(4) .
      qed
      finally have sl: "slice 0 (nat (dst + r)) b = slice (nat (apos u + r - (dst + r))) (nat (dst + r)) contents"
        by simp
      have "wf t"
        unfolding t_def using tg(1,4,5) r v sl old(2) sl store_slice(1) [OF b] by (auto simp: wf_def)
      moreover have "eof_reached t = False" "apos t = apos s + r" "avio_tell t = apos s" "buf_ptr t < buf_end t"
        "aerror t = aerror s" "seekable t = seekable s" "direct t = direct s"
        using v(1) tg False r(1) by (simp_all add: t_def avio_tell_def)
      ultimately show ?thesis using res r(1) by auto
    qed
  qed
qed

lemma read_loop_ok:
  assumes "wf s" "0 \<le> n" "n \<le> INT_MAX" "2 * nat n + (if buf_ptr s = buf_end s then 1 else 0) < fuel"
  shows "\<exists>t left bs. read_loop fuel src s n out = Some (t, left, out @ bs) \<and> wf t \<and> 0 \<le> left \<and>
    int (length bs) = n - left \<and> bs = slice (nat (avio_tell s)) (length bs) contents \<and>
    avio_tell t = avio_tell s + int (length bs) \<and> (0 < left \<longrightarrow> buf_ptr t = buf_end t)"
  using assms
proof (induction fuel arbitrary: s n out)
  case 0
  then show ?case by simp
next
  case (Suc fuel)
  note b = wf_bounds [OF Suc.prems(1)]
  have tell0: "0 \<le> avio_tell s" using b by (simp add: avio_tell_def)
  show ?case
  proof (cases "n = 0")
    case True
    with Suc.prems(1) show ?thesis by auto
  next
    case False
    with Suc.prems(2) have n: "0 < n" by simp
    define len where "len = min (buf_end s - buf_ptr s) n"
    have app: "\<exists>t left bs. read_loop fuel src u k (out @ xs) = Some (t, left, out @ bs) \<and> wf t \<and> 0 \<le> left \<and>
        int (length bs) = n - left \<and> bs = slice (nat (avio_tell s)) (length bs) contents \<and>
        avio_tell t = avio_tell s + int (length bs) \<and> (0 < left \<longrightarrow> buf_ptr t = buf_end t)"
      if u: "wf u" and k: "k = n - int (length xs)" "0 \<le> k"
        and f: "2 * nat k + (if buf_ptr u = buf_end u then 1 else 0) < fuel"
        and tl: "avio_tell u = avio_tell s + int (length xs)"
        and xs: "xs = slice (nat (avio_tell s)) (length xs) contents" for u k xs
    proof -
      have "k \<le> INT_MAX" using k Suc.prems(3) by simp
      from Suc.IH [OF u k(2) this f, of "out @ xs"] obtain t left bs where
        r: "read_loop fuel src u k (out @ xs) = Some (t, left, (out @ xs) @ bs)" "wf t" "0 \<le> left"
          "int (length bs) = k - left" "bs = slice (nat (avio_tell u)) (length bs) contents"
          "avio_tell t = avio_tell u + int (length bs)" "0 < left \<longrightarrow> buf_ptr t = buf_end t" by blast
      have "nat (avio_tell u) = nat (avio_tell s) + length xs" using tl tell0 by simp
      then have b: "bs = slice (nat (avio_tell s) + length xs) (length bs) contents" using r(5) by metis
      have "slice (nat (avio_tell s)) (length xs) contents @ slice (nat (avio_tell s) + length xs) (length bs) contents
          = slice (nat (avio_tell s)) (length xs + length bs) contents"
        using slice_concat [of "nat (avio_tell s)" "nat (avio_tell s) + length xs" "nat (avio_tell s) + length xs + length bs" contents]
        by simp
      then have "xs @ bs = slice (nat (avio_tell s)) (length (xs @ bs)) contents"
        unfolding length_append xs [symmetric] b [symmetric] .
      moreover define ys where "ys = xs @ bs"
      ultimately have ys: "ys = slice (nat (avio_tell s)) (length ys) contents" by (simp only:)
      have ly: "int (length ys) = int (length xs) + int (length bs)" by (simp add: ys_def)
      have "read_loop fuel src u k (out @ xs) = Some (t, left, out @ ys)" using r(1) by (simp add: ys_def)
      moreover have "int (length ys) = n - left" "avio_tell t = avio_tell s + int (length ys)"
        using ly r(4,6) k tl by simp_all
      ultimately show ?thesis using r(2,3,7) ys by blast
    qed
    show ?thesis
    proof (cases "len = 0")
      case True
      then have e: "buf_ptr s = buf_end s" using b n by (auto simp: len_def min_def split: if_splits)
      then have f: "2 * nat n < fuel" using Suc.prems(4) by simp
      have tl: "avio_tell s = apos s" using e by (simp add: avio_tell_def)
      show ?thesis
      proof (cases "direct s \<or> n > buffer_size s")
        case dir: True
        obtain r xs u where w: "read_packet_wrapper src s n = (r, xs, u)" by (metis prod_cases3)
        from wrapper [OF Suc.prems(1) n Suc.prems(3) w] obtain p
          where u: "u = s\<lparr>opaque := p\<rparr>" "good p" and law: "read_law contents (apos s) n r xs (spos p)" by blast
        define v where "v = u\<lparr>apos := apos u + r, bytes_read := bytes_read u + r, buf_ptr := 0, buf_end := 0\<rparr>"
        have unf: "read_loop (Suc fuel) src s n out =
          (if r = AVERROR_EOF then Some (u\<lparr>eof_reached := True\<rparr>, n, out)
           else if r < 0 then Some (u\<lparr>eof_reached := True, aerror := r\<rparr>, n, out)
           else read_loop fuel src v (n - r) (out @ xs))"
          using n True dir w has_read by (auto simp: len_def [symmetric] Let_def v_def)
        show ?thesis
        proof (cases "r < 0")
          case neg: True
          then have "spos p = apos s" using law by (simp add: read_law_def)
          then have "wf u" using u Suc.prems(1) by (auto simp: wf_def)
          with neg e u tl n show ?thesis unfolding unf
            by (cases "r = AVERROR_EOF") (auto simp: avio_tell_def)
        next
          case False
          then have r: "0 < r" "r \<le> n" "apos s + r \<le> int (length contents)" "xs = slice (nat (apos s)) (nat r) contents"
            "spos p = apos s + r" using law by (auto simp: read_law_def)
          have lx: "int (length xs) = r" using r b(5) by (simp add: nat_add_distrib [symmetric])
          have "wf v" using u r Suc.prems(1) b(5) by (auto simp: v_def wf_def)
          moreover have "avio_tell v = avio_tell s + int (length xs)" using lx tl u by (simp add: v_def avio_tell_def)
          moreover have "xs = slice (nat (avio_tell s)) (length xs) contents" using r(4) lx tl by (metis nat_int)
          moreover have "n - r = n - int (length xs)" "0 \<le> n - r" using lx r(2) by simp_all
          moreover have "2 * nat (n - r) + (if buf_ptr v = buf_end v then 1 else 0) < fuel" using f r(1,2) by auto
          ultimately have "\<exists>t left bs. read_loop fuel src v (n - r) (out @ xs) = Some (t, left, out @ bs) \<and> wf t \<and>
              0 \<le> left \<and> int (length bs) = n - left \<and> bs = slice (nat (avio_tell s)) (length bs) contents \<and>
              avio_tell t = avio_tell s + int (length bs) \<and> (0 < left \<longrightarrow> buf_ptr t = buf_end t)"
            by (intro app) assumption+
          then show ?thesis using False unfolding unf by (simp add: averror_values)
        qed
      next
        case nodir: False
        from fill_buffer_ok [OF Suc.prems(1)] obtain u where u: "fill_buffer src s = Some u" "wf u"
          and res: "if eof_reached u then apos u = apos s \<and> (buf_ptr u = buf_end u \<or> buf_ptr u = buf_ptr s \<and> buf_end u = buf_end s)
            else apos s < apos u \<and> avio_tell u = apos s \<and> buf_ptr u < buf_end u \<and> aerror u = aerror s" by blast
        have unf: "read_loop (Suc fuel) src s n out =
          (if buf_end u - buf_ptr u = 0 then Some (u, n, out) else read_loop fuel src u n out)"
          using n True nodir u(1) by (auto simp: len_def [symmetric] Let_def)
        have tu: "avio_tell u = avio_tell s" using res e tl by (auto simp: avio_tell_def split: if_splits)
        show ?thesis
        proof (cases "buf_end u - buf_ptr u = 0")
          case True
          with u tu n show ?thesis unfolding unf by auto
        next
          case False
          with app [of u n "[]"] u tu n f show ?thesis unfolding unf by simp
        qed
      qed
    next
      case False
      then have len: "0 < len" "len \<le> n" "buf_ptr s + len \<le> buf_end s" using b n by (auto simp: len_def)
      define xs where "xs = slice (nat (buf_ptr s)) (nat len) (abuf s)"
      have ld: "load (abuf s) (buf_ptr s) (nat len) = Some xs"
        using len b by (simp add: load_def xs_def)
      have bs: "xs = slice (nat (avio_tell s)) (nat len) contents"
        "avio_tell s + len \<le> int (length contents)"
        using buffered_slice [OF Suc.prems(1) b(1), of "nat len"] len by (simp_all add: xs_def avio_tell_def)
      have lx: "length xs = nat len" using bs tell0 len by simp
      have "wf (s\<lparr>buf_ptr := buf_ptr s + len\<rparr>)" using Suc.prems(1) len b by (intro wf_move) auto
      moreover have "read_loop (Suc fuel) src s n out = read_loop fuel src (s\<lparr>buf_ptr := buf_ptr s + len\<rparr>) (n - len) (out @ xs)"
        using n False ld by (simp add: len_def [symmetric] Let_def)
      moreover have "2 * nat (n - len) + 1 < fuel"
        using Suc.prems(4) len b by (auto split: if_splits)
      ultimately show ?thesis
        using app [of "s\<lparr>buf_ptr := buf_ptr s + len\<rparr>" "n - len" xs] len lx bs by (simp add: avio_tell_def)
    qed
  qed
qed

lemma avio_feof_ok:
  assumes "wf s"
  shows "\<exists>b t. avio_feof src s = Some (b, t) \<and> wf t \<and> (buf_ptr s = buf_end s \<longrightarrow> avio_tell t = avio_tell s)"
proof (cases "eof_reached s")
  case True
  have "wf (s\<lparr>eof_reached := False\<rparr>)" using assms by simp
  from fill_buffer_ok [OF this] show ?thesis using True
    by (auto simp: avio_feof_def avio_tell_def split: if_splits)
next
  case False
  then have "avio_feof src s = Some (False, s)" by (simp add: avio_feof_def)
  with assms show ?thesis by blast
qed

text \<open>A read delivers the bytes at the position, and fails only when it delivers none.\<close>

lemma avio_read_ok:
  assumes "wf s" "0 \<le> n" "n \<le> INT_MAX" "2 * nat n + 1 < fuel"
  shows "\<exists>r bs t. avio_read fuel src s n = Some (r, bs, t) \<and> wf t \<and> int (length bs) \<le> n \<and>
    bs = slice (nat (avio_tell s)) (length bs) contents \<and>
    (0 < n \<longrightarrow> avio_tell t = avio_tell s + int (length bs)) \<and> (bs \<noteq> [] \<longrightarrow> r = int (length bs))"
proof -
  have "2 * nat n + (if buf_ptr s = buf_end s then 1 else 0) < fuel" using assms(4) by simp
  from read_loop_ok [OF assms(1-3) this, of "[]"] obtain t left bs where
    l: "read_loop fuel src s n [] = Some (t, left, bs)" "wf t" "0 \<le> left" "int (length bs) = n - left"
      "bs = slice (nat (avio_tell s)) (length bs) contents" "avio_tell t = avio_tell s + int (length bs)"
      "0 < left \<longrightarrow> buf_ptr t = buf_end t" by auto
  show ?thesis
  proof (cases "n = left")
    case True
    obtain b u where u: "avio_feof src t = Some (b, u)" "wf u" "buf_ptr t = buf_end t \<longrightarrow> avio_tell u = avio_tell t"
      using avio_feof_ok [OF l(2)] by blast
    have "bs = []" using l(4) True by simp
    with l u True show ?thesis by (cases "aerror t = 0") (auto simp: avio_read_def)
  next
    case False
    with l show ?thesis by (auto simp: avio_read_def)
  qed
qed

lemma avio_r8_ok:
  assumes "wf s"
  shows "\<exists>v t. avio_r8 src s = Some (v, t) \<and> wf t \<and>
    (avio_tell t = avio_tell s \<and> v = 0 \<or>
     avio_tell t = avio_tell s + 1 \<and> avio_tell s < int (length contents) \<and>
       v = uint (contents ! nat (avio_tell s)))"
proof -
  obtain u where u: "(if buf_ptr s \<ge> buf_end s then fill_buffer src s else Some s) = Some u" "wf u"
    "avio_tell u = avio_tell s"
  proof (cases "buf_ptr s \<ge> buf_end s")
    case True
    with wf_bounds [OF assms] have e: "buf_ptr s = buf_end s" by simp
    from fill_buffer_ok [OF assms] obtain t where "fill_buffer src s = Some t" "wf t" "avio_tell t = avio_tell s"
      using e by (auto simp: avio_tell_def split: if_splits)
    with True that show ?thesis by simp
  next
    case False
    with assms that show ?thesis by simp
  qed
  note b = wf_bounds [OF u(2)]
  show ?thesis
  proof (cases "buf_ptr u < buf_end u")
    case True
    note sl = buffered_slice [OF u(2) b(1), of 1]
    have lt: "avio_tell s < int (length contents)" using sl(2) True u(3) by (simp add: avio_tell_def)
    have "slice (nat (buf_ptr u)) 1 (abuf u) ! 0 = slice (nat (avio_tell s)) 1 contents ! 0"
      using sl(1) True u(3) by (simp add: avio_tell_def)
    moreover have "0 \<le> avio_tell s" using b u(3) by (simp add: avio_tell_def)
    ultimately have "abuf u ! nat (buf_ptr u) = contents ! nat (avio_tell s)"
      using True b lt by (simp add: nth_slice)
    moreover have "wf (u\<lparr>buf_ptr := buf_ptr u + 1\<rparr>)" using u(2) b True by (intro wf_move) auto
    moreover have "avio_r8 src s = Some (uint (abuf u ! nat (buf_ptr u)), u\<lparr>buf_ptr := buf_ptr u + 1\<rparr>)"
      using u(1) True b by (simp add: avio_r8_def)
    ultimately show ?thesis using u(3) lt by (simp add: avio_tell_def)
  next
    case False
    with u show ?thesis by (simp add: avio_r8_def)
  qed
qed

lemma avio_read_partial_ok:
  assumes "wf s"
  shows "\<exists>r bs t. avio_read_partial src s n = Some (r, bs, t) \<and> wf t \<and> int (length bs) \<le> max n 0 \<and>
    bs = slice (nat (avio_tell s)) (length bs) contents \<and>
    (0 < n \<longrightarrow> avio_tell t = avio_tell s + int (length bs)) \<and> (bs \<noteq> [] \<longrightarrow> r = int (length bs))"
proof (cases "n < 0")
  case True
  with assms show ?thesis by (simp add: avio_read_partial_def)
next
  case False
  obtain u where u: "(if buf_end s - buf_ptr s = 0 then fill_buffer src s else Some s) = Some u" "wf u"
    "avio_tell u = avio_tell s"
  proof (cases "buf_end s - buf_ptr s = 0")
    case True
    from fill_buffer_ok [OF assms] obtain t where "fill_buffer src s = Some t" "wf t" "avio_tell t = avio_tell s"
      using True by (auto simp: avio_tell_def split: if_splits)
    with True that show ?thesis by simp
  next
    case False
    with assms that show ?thesis by simp
  qed
  note b = wf_bounds [OF u(2)]
  define len where "len = (if buf_end u - buf_ptr u > n then n else buf_end u - buf_ptr u)"
  have len: "0 \<le> len" "len \<le> n" "buf_ptr u + len \<le> buf_end u" using b False by (auto simp: len_def)
  define xs where "xs = slice (nat (buf_ptr u)) (nat len) (abuf u)"
  define v where "v = u\<lparr>buf_ptr := buf_ptr u + len\<rparr>"
  have ld: "load (abuf u) (buf_ptr u) (nat len) = Some xs" using len b by (simp add: load_def xs_def)
  have lx: "int (length xs) = len" using len b by (simp add: xs_def)
  have xs: "xs = slice (nat (avio_tell s)) (nat len) contents"
    using buffered_slice(1) [OF u(2) b(1), of "nat len"] len u(3) by (simp add: xs_def avio_tell_def)
  then have xs': "xs = slice (nat (avio_tell s)) (length xs) contents" using lx by (metis nat_int)
  have v: "wf v" "avio_tell v = avio_tell s + len" using u len b by (auto simp: v_def avio_tell_def intro: wf_move)
  have unf: "avio_read_partial src s n = (if len = 0 then
      (if aerror v \<noteq> 0 then Some (aerror v, xs, v)
       else case avio_feof src v of None \<Rightarrow> None | Some (eof, t) \<Rightarrow> Some (if eof then AVERROR_EOF else len, xs, t))
      else Some (len, xs, v))"
    unfolding avio_read_partial_def if_not_P [OF False] u(1) option.case Let_def len_def [symmetric] ld v_def [symmetric] ..
  show ?thesis
  proof (cases "len = 0")
    case True
    obtain e t where t: "avio_feof src v = Some (e, t)" "wf t" "buf_ptr v = buf_end v \<longrightarrow> avio_tell t = avio_tell v"
      using avio_feof_ok [OF v(1)] by blast
    have "0 < n \<longrightarrow> buf_ptr v = buf_end v" using True b by (auto simp: v_def len_def split: if_splits)
    with True t v xs' lx len show ?thesis unfolding unf by (cases "aerror v = 0") auto
  next
    case False
    with v xs' lx len show ?thesis unfolding unf by auto
  qed
qed

lemma skip_loop_ok:
  assumes "wf s" "nat (off - apos s) < fuel" "apos s < off \<or> (off \<le> apos s \<and> apos s - off \<le> buf_end s)"
  shows "\<exists>t. skip_loop fuel src s off = Some t \<and> wf t \<and>
    (eof_reached t \<or> off \<le> apos t \<and> apos t - off \<le> buf_end t)"
  using assms
proof (induction fuel arbitrary: s)
  case 0
  then show ?case by simp
next
  case (Suc fuel)
  show ?case
  proof (cases "apos s < off \<and> \<not> eof_reached s")
    case True
    from fill_buffer_ok [OF Suc.prems(1)] obtain u where u: "fill_buffer src s = Some u" "wf u"
      and res: "if eof_reached u then apos u = apos s \<and> (buf_ptr u = buf_end u \<or> buf_ptr u = buf_ptr s \<and> buf_end u = buf_end s)
        else apos s < apos u \<and> avio_tell u = apos s \<and> buf_ptr u < buf_end u \<and> aerror u = aerror s" by blast
    show ?thesis
    proof (cases "eof_reached u")
      case eof: True
      then have "skip_loop fuel src u off = Some u \<or> fuel = 0" by (cases fuel) auto
      with True u eof Suc.prems(2) show ?thesis by auto
    next
      case False
      with res have a: "apos s < apos u" "apos u - buf_end u + buf_ptr u = apos s" by (simp_all add: avio_tell_def)
      have "nat (off - apos u) < fuel" using Suc.prems(2) True a by linarith
      moreover have "apos u < off \<or> (off \<le> apos u \<and> apos u - off \<le> buf_end u)"
        using a True wf_bounds [OF u(2)] by linarith
      ultimately have "\<exists>t. skip_loop fuel src u off = Some t \<and> wf t \<and>
          (eof_reached t \<or> off \<le> apos t \<and> apos t - off \<le> buf_end t)" by (rule Suc.IH [OF u(2)])
      with True u(1) show ?thesis by simp
    qed
  next
    case False
    with Suc.prems show ?thesis by auto
  qed
qed

lemma call_seek_set:
  assumes "wf s" "0 \<le> off" "call_seek src s off SEEK_SET = (r, t)"
  shows "\<exists>p. t = s\<lparr>opaque := p\<rparr> \<and> good p \<and> (if r < 0 then wf t else spos p = off)"
proof -
  obtain g where g: "seek_cb src = Some g" using has_seek by blast
  obtain r' p where p: "g (opaque s) off SEEK_SET = (r', p)" by (metis surj_pair)
  with assms g have t: "t = s\<lparr>opaque := p\<rparr>" "r' = r" by (simp_all add: call_seek_def)
  have "good (opaque s)" "spos (opaque s) = apos s" using assms(1) by (simp_all add: wf_def)
  with seek_set [OF g _ assms(2) p] t assms(1) show ?thesis by (auto simp: wf_def)
qed

text \<open>The state after a seek of the source: an empty buffer at the new position.\<close>

lemma wf_restart:
  assumes "wf s" "good p" "spos p = off"
  shows "wf (s\<lparr>opaque := p, seek_count := k, buf_end := 0, buf_ptr := 0, apos := off, eof_reached := b\<rparr>)"
    and "wf (s\<lparr>opaque := p, buf_end := 0, buf_ptr := 0, apos := off, eof_reached := b\<rparr>)"
  using assms pos_nonneg [OF assms(2)] by (auto simp: wf_def)

lemma seek_to_forward:
  assumes "wf s" "apos s - buf_end s \<le> off" "nat off < sf"
  shows "\<exists>r t. seek_to (Suc f) sf src s off = Some (r, t) \<and> wf t \<and> (r = off \<and> avio_tell t = off \<or> r < 0)"
proof -
  note b = wf_bounds [OF assms(1)]
  obtain g where g: "seek_cb src = Some g" using has_seek by blast
  consider (inside) "\<not> direct s" "off - (apos s - buf_end s) \<le> buf_end s"
    | (skip) "\<not> direct s" "apos s < off" "\<not> seekable s \<or> off - (apos s - buf_end s) \<le> buf_end s + short_seek_threshold s"
    | (seek) "direct s \<or> (apos s < off \<and> \<not> (\<not> seekable s \<or> off - (apos s - buf_end s) \<le> buf_end s + short_seek_threshold s))"
    by linarith
  then show ?thesis
  proof cases
    case inside
    then have "seek_to (Suc f) sf src s off = Some (off, s\<lparr>buf_ptr := off - (apos s - buf_end s), eof_reached := False\<rparr>)"
      using assms(2) by (simp add: Let_def)
    moreover have "wf (s\<lparr>buf_ptr := off - (apos s - buf_end s), eof_reached := False\<rparr>)"
      using wf_move [OF assms(1)] assms(2) inside by simp
    ultimately show ?thesis by (simp add: avio_tell_def)
  next
    case skip
    have "nat (off - apos s) < sf" using assms(3) b(5) by linarith
    from skip_loop_ok [OF assms(1) this] skip(2) obtain t where
      t: "skip_loop sf src s off = Some t" "wf t" "eof_reached t \<or> off \<le> apos t \<and> apos t - off \<le> buf_end t" by blast
    have unf: "seek_to (Suc f) sf src s off = (if eof_reached t then Some (AVERROR_EOF, t)
        else Some (off, t\<lparr>buf_ptr := buf_end t - (apos t - off), eof_reached := False\<rparr>))"
      using skip assms(2) t(1) by (simp add: Let_def)
    show ?thesis
    proof (cases "eof_reached t")
      case True
      with t show ?thesis unfolding unf by (simp add: averror_values)
    next
      case False
      with t wf_move [OF t(2), of "buf_end t - (apos t - off)"] show ?thesis
        unfolding unf by (simp add: avio_tell_def)
    qed
  next
    case seek
    obtain r t where c: "call_seek src s off SEEK_SET = (r, t)" by (metis surj_pair)
    have off: "0 \<le> off" using assms(2) b by linarith
    from call_seek_set [OF assms(1) off c] obtain p where
      p: "t = s\<lparr>opaque := p\<rparr>" "good p" "if r < 0 then wf t else spos p = off" by blast
    have unf: "seek_to (Suc f) sf src s off = (if r < 0 then Some (r, t)
      else Some (off, t\<lparr>seek_count := seek_count t + 1, buf_end := 0, buf_ptr := 0, apos := off, eof_reached := False\<rparr>))"
      using seek assms(2) c g by (auto simp: Let_def)
    show ?thesis
    proof (cases "r < 0")
      case True
      with p show ?thesis unfolding unf by simp
    next
      case False
      with p wf_restart(1) [OF assms(1) p(2), where off = off and b = False and k = "seek_count t + 1"] show ?thesis
        unfolding unf by (simp add: avio_tell_def)
    qed
  qed
qed

lemma seek_to_ok:
  assumes "wf s" "0 \<le> off" "nat off < sf"
  shows "\<exists>r t. seek_to (Suc (Suc f)) sf src s off = Some (r, t) \<and> wf t \<and> (r = off \<and> avio_tell t = off \<or> r < 0)"
proof (cases "apos s - buf_end s \<le> off")
  case True
  from seek_to_forward [OF assms(1) this assms(3)] show ?thesis .
next
  case before: False
  note b = wf_bounds [OF assms(1)]
  obtain g where g: "seek_cb src = Some g" using has_seek by blast
  define pos where "pos = apos s - buf_end s"
  show ?thesis
  proof (cases "- (off - pos) < buf_end s div 2 \<and> off > 0")
    case True
    define np where "np = pos - min (buf_end s div 2) pos"
    have np: "0 \<le> np" "np \<le> off" using True before b by (auto simp: np_def pos_def min_def)
    obtain r t where c: "call_seek src s np SEEK_SET = (r, t)" by (metis surj_pair)
    from call_seek_set [OF assms(1) np(1) c] obtain p where
      p: "t = s\<lparr>opaque := p\<rparr>" "good p" "if r < 0 then wf t else spos p = np" by blast
    define u where "u = t\<lparr>buf_end := 0, buf_ptr := 0, apos := np, eof_reached := False\<rparr>"
    have unf: "seek_to (Suc (Suc f)) sf src s off = (if r < 0 then Some (r, t)
        else case fill_buffer src u of None \<Rightarrow> None | Some v \<Rightarrow> seek_to (Suc f) sf src v off)"
      using True before c g by (simp add: Let_def pos_def [symmetric] np_def [symmetric] u_def del: seek_to.simps add: seek_to.simps(2) [of "Suc f"])
    show ?thesis
    proof (cases "r < 0")
      case True
      with p show ?thesis unfolding unf by simp
    next
      case False
      then have "wf u" unfolding u_def using p wf_restart(2) [OF assms(1) p(2), where off = np and b = False] by simp
      from fill_buffer_ok [OF this] obtain v where v: "fill_buffer src u = Some v" "wf v"
        and res: "if eof_reached v then apos v = apos u \<and> (buf_ptr v = buf_end v \<or> buf_ptr v = buf_ptr u \<and> buf_end v = buf_end u)
          else apos u < apos v \<and> avio_tell v = apos u \<and> buf_ptr v < buf_end v \<and> aerror v = aerror u" by blast
      have "apos v - buf_end v \<le> np"
        using res wf_bounds [OF v(2)] by (auto simp: u_def avio_tell_def split: if_splits)
      with np have "apos v - buf_end v \<le> off" by simp
      from seek_to_forward [OF v(2) this assms(3), of f] show ?thesis using False v(1) unfolding unf by simp
    qed
  next
    case False
    obtain r t where c: "call_seek src s off SEEK_SET = (r, t)" by (metis surj_pair)
    from call_seek_set [OF assms(1,2) c] obtain p where
      p: "t = s\<lparr>opaque := p\<rparr>" "good p" "if r < 0 then wf t else spos p = off" by blast
    have unf: "seek_to (Suc (Suc f)) sf src s off = (if r < 0 then Some (r, t)
      else Some (off, t\<lparr>seek_count := seek_count t + 1, buf_end := 0, buf_ptr := 0, apos := off, eof_reached := False\<rparr>))"
      using False before c g
      by (simp add: Let_def pos_def [symmetric] del: seek_to.simps add: seek_to.simps(2) [of "Suc f"]) (auto simp: pos_def)
    show ?thesis
    proof (cases "r < 0")
      case True
      with p show ?thesis unfolding unf by simp
    next
      case False
      with p wf_restart(1) [OF assms(1) p(2), where off = off and b = False and k = "seek_count t + 1"] show ?thesis
        unfolding unf by (simp add: avio_tell_def)
    qed
  qed
qed

lemma avio_seek_ok:
  assumes "wf s" "nat (\<bar>offset\<bar> + \<bar>avio_tell s\<bar>) < sf"
  shows "\<exists>r t. avio_seek 2 sf src s offset whence = Some (r, t) \<and> wf t \<and>
    (whence = SEEK_SET \<longrightarrow> r = offset \<and> avio_tell t = offset \<or> r < 0) \<and>
    (whence = SEEK_CUR \<longrightarrow> r = avio_tell s + offset \<and> avio_tell t = r \<or> r < 0)"
proof -
  note b = wf_bounds [OF assms(1)]
  have tell: "0 \<le> avio_tell s" using b by (simp add: avio_tell_def)
  obtain g where g: "seek_cb src = Some g" using has_seek by blast
  have cf: "clear_force SEEK_SET = SEEK_SET" "clear_force SEEK_CUR = SEEK_CUR"
    by (simp_all add: clear_force_def io_consts)
  define w where "w = clear_force whence"
  define off where "off = (if w = SEEK_CUR then offset + avio_tell s else offset)"
  have ww: "whence = SEEK_SET \<Longrightarrow> w = SEEK_SET" "whence = SEEK_CUR \<Longrightarrow> w = SEEK_CUR"
    using cf by (simp_all add: w_def)
  consider (sz) "(w div AVSEEK_SIZE) mod 2 = 1"
    | (bad) "(w div AVSEEK_SIZE) mod 2 \<noteq> 1" "w \<noteq> SEEK_CUR" "w \<noteq> SEEK_SET"
    | (tell) "w = SEEK_CUR" "offset = 0" | (big) "w = SEEK_CUR" "offset \<noteq> 0" "offset > INT64_MAX - avio_tell s"
    | (neg) "w = SEEK_SET \<or> w = SEEK_CUR \<and> offset \<noteq> 0 \<and> \<not> offset > INT64_MAX - avio_tell s" "off < 0"
    | (go) "w = SEEK_SET \<or> w = SEEK_CUR \<and> offset \<noteq> 0 \<and> \<not> offset > INT64_MAX - avio_tell s" "0 \<le> off"
    by linarith
  then show ?thesis
  proof cases
    case sz
    obtain r t where c: "call_seek src s offset AVSEEK_SIZE = (r, t)" by (metis surj_pair)
    obtain r' p where p: "g (opaque s) offset AVSEEK_SIZE = (r', p)" by (metis surj_pair)
    have good: "good (opaque s)" "spos (opaque s) = apos s" using assms(1) by (simp_all add: wf_def)
    from seek_size [OF g good(1) p] have "wf (s\<lparr>opaque := p\<rparr>)" using assms(1) good by (auto simp: wf_def)
    moreover have "avio_seek 2 sf src s offset whence = Some (r', s\<lparr>opaque := p\<rparr>)"
      using sz g p by (simp add: avio_seek_def w_def call_seek_def)
    moreover have "whence \<noteq> SEEK_SET" "whence \<noteq> SEEK_CUR" using sz ww by (auto simp: io_consts)
    ultimately show ?thesis by blast
  next
    case bad
    then have "avio_seek 2 sf src s offset whence = Some (AVERROR_EINVAL, s)" by (simp add: avio_seek_def w_def)
    with assms(1) show ?thesis by simp
  next
    case tell
    then have "avio_seek 2 sf src s offset whence = Some (avio_tell s, s)"
      by (simp add: avio_seek_def w_def io_consts)
    moreover have "whence \<noteq> SEEK_SET" using tell ww by (auto simp: io_consts)
    ultimately show ?thesis using assms(1) tell by simp
  next
    case big
    then have "avio_seek 2 sf src s offset whence = Some (AVERROR_EINVAL, s)"
      by (simp add: avio_seek_def w_def io_consts)
    with assms(1) show ?thesis by simp
  next
    case neg
    then have "avio_seek 2 sf src s offset whence = Some (AVERROR_EINVAL, s)"
      by (auto simp: avio_seek_def w_def io_consts off_def)
    with assms(1) show ?thesis by simp
  next
    case go
    have "nat off < sf" using assms(2) tell by (auto simp: off_def split: if_splits)
    from seek_to_ok [OF assms(1) go(2) this, of 0] obtain r t where
      t: "seek_to 2 sf src s off = Some (r, t)" "wf t" "r = off \<and> avio_tell t = off \<or> r < 0"
      by (auto simp: numeral_2_eq_2)
    have "avio_seek 2 sf src s offset whence = Some (r, t)"
    proof -
      have "(w div AVSEEK_SIZE) mod 2 \<noteq> 1" "w = SEEK_CUR \<or> w = SEEK_SET" "\<not> off < 0"
        "\<not> (w = SEEK_CUR \<and> offset = 0)" "\<not> (w = SEEK_CUR \<and> offset > INT64_MAX - avio_tell s)"
        using go by (auto simp: io_consts)
      then show ?thesis unfolding avio_seek_def Let_def w_def [symmetric] off_def [symmetric] t(1) by argo
    qed
    moreover have "whence = SEEK_SET \<Longrightarrow> off = offset" "whence = SEEK_CUR \<Longrightarrow> off = avio_tell s + offset"
      using ww by (auto simp: off_def io_consts)
    ultimately show ?thesis using t(2,3) by auto
  qed
qed

lemma avio_size_ok:
  assumes "wf s" "avio_size src s = (r, t)"
  shows "wf t" "avio_tell t = avio_tell s"
proof -
  obtain g where g: "seek_cb src = Some g" using has_seek by blast
  obtain r1 p where p: "g (opaque s) 0 AVSEEK_SIZE = (r1, p)" by (metis surj_pair)
  obtain r2 q where q: "g p (- 1) SEEK_END = (r2, q)" by (metis surj_pair)
  have good: "good (opaque s)" "spos (opaque s) = apos s" using assms(1) by (simp_all add: wf_def)
  from seek_size [OF g good(1) p] have s1: "good p" "spos p = apos s"
    and s2: "r1 < 0 \<Longrightarrow> r2 < 0 \<and> good q \<and> spos q = apos s"
    using good by (auto dest: spec [of _ "- 1"] simp: q)
  have "t = s\<lparr>opaque := p\<rparr> \<or> r1 < 0 \<and> t = s\<lparr>opaque := q\<rparr>"
    using assms(2) g p q s2 by (auto simp: avio_size_def call_seek_def split: if_splits)
  moreover have "wf (s\<lparr>opaque := p\<rparr>)" using assms(1) s1 by (simp add: wf_def)
  moreover have "r1 < 0 \<Longrightarrow> wf (s\<lparr>opaque := q\<rparr>)" using assms(1) s2 by (simp add: wf_def)
  ultimately show "wf t" "avio_tell t = avio_tell s" by (auto simp: avio_tell_def)
qed

text \<open>Every operation of a client returns, and keeps the invariant.\<close>

lemma avio_apply_ok:
  assumes "wf s" "op_ok oper"
  shows "\<exists>r bs t. avio_apply src s oper = Some (r, bs, t) \<and> wf t"
proof (cases oper)
  case (Op_Read n)
  with avio_read_ok [OF assms(1), of n "2 * nat n + 2"] assms(2) show ?thesis by auto
next
  case (Op_Partial n)
  with avio_read_partial_ok [OF assms(1), of n] show ?thesis by auto
next
  case Op_R8
  with avio_r8_ok [OF assms(1)] show ?thesis by auto
next
  case (Op_Seek off whence)
  with avio_seek_ok [OF assms(1), of off "nat (\<bar>off\<bar> + \<bar>avio_tell s\<bar>) + 1" whence] show ?thesis by auto
next
  case Op_Feof
  with avio_feof_ok [OF assms(1)] show ?thesis by fastforce
next
  case Op_Size
  with avio_size_ok(1) [OF assms(1)] show ?thesis by (cases "avio_size src s") auto
qed

lemma reach_wf: "avio_reach src s t \<Longrightarrow> wf s \<Longrightarrow> wf t"
proof (induction rule: avio_reach.induct)
  case start
  then show ?case .
next
  case (step t oper r bs u)
  with avio_apply_ok [of t oper] show ?case by auto
qed

lemma wf_initial:
  assumes "good p" "spos p = 0" "buffer \<noteq> []" "int (length buffer) \<le> INT_MAX"
  shows "wf (ffio_init_context src buffer p)"
  using assms has_read by (auto simp: wf_def ffio_init_context_def SHORT_SEEK_THRESHOLD_def)

text \<open>What a client of a fresh context can rely on, whatever it did before.\<close>

lemma fresh_read:
  assumes "good p" "spos p = 0" "buffer \<noteq> []" "int (length buffer) \<le> INT_MAX"
    and "avio_reach src (ffio_init_context src buffer p) s" "0 \<le> n" "n \<le> INT_MAX"
  shows "\<exists>r bs t. avio_read (2 * nat n + 2) src s n = Some (r, bs, t) \<and> int (length bs) \<le> n \<and>
    bs = slice (nat (avio_tell s)) (length bs) contents \<and>
    (0 < n \<longrightarrow> avio_tell t = avio_tell s + int (length bs)) \<and> (bs \<noteq> [] \<longrightarrow> r = int (length bs))"
  using avio_read_ok [OF reach_wf [OF assms(5) wf_initial [OF assms(1-4)]] assms(6,7), of "2 * nat n + 2"] by auto

lemma fresh_seek:
  assumes "good p" "spos p = 0" "buffer \<noteq> []" "int (length buffer) \<le> INT_MAX"
    and "avio_reach src (ffio_init_context src buffer p) s"
  shows "\<exists>r t. avio_seek 2 (nat (\<bar>offset\<bar> + \<bar>avio_tell s\<bar>) + 1) src s offset whence = Some (r, t) \<and>
    (whence = SEEK_SET \<longrightarrow> r = offset \<and> avio_tell t = offset \<or> r < 0) \<and>
    (whence = SEEK_CUR \<longrightarrow> r = avio_tell s + offset \<and> avio_tell t = r \<or> r < 0)"
  using avio_seek_ok [OF reach_wf [OF assms(5) wf_initial [OF assms(1-4)]],
    of offset "nat (\<bar>offset\<bar> + \<bar>avio_tell s\<bar>) + 1" whence] by auto

lemma fresh_apply:
  assumes "good p" "spos p = 0" "buffer \<noteq> []" "int (length buffer) \<le> INT_MAX"
    and "avio_reach src (ffio_init_context src buffer p) s" "op_ok oper"
  shows "avio_apply src s oper \<noteq> None"
  using avio_apply_ok [OF reach_wf [OF assms(5) wf_initial [OF assms(1-4)]] assms(6)] by auto

end

section \<open>The Java callbacks as a packet source\<close>

text \<open>
  The \<open>opaque\<close> pointer of the extractor: the context of \<open>JavaIO\<close>, and what the outside answers
  at each call, counted by \<open>tick\<close>.
\<close>

record java_client =
  envs :: "nat \<Rightarrow> jni_env"
  tick :: nat
  ctx :: "java_avio option"

definition java_rd :: "java_client \<Rightarrow> int \<Rightarrow> int \<times> byte list \<times> java_client" where
  "java_rd p n =
     (case java_read_packet (envs p (tick p)) (ctx p) n of
        (r, bs, c) \<Rightarrow> (r, bs, p\<lparr>tick := tick p + 1, ctx := c\<rparr>))"

definition java_sk :: "java_client \<Rightarrow> int \<Rightarrow> int \<Rightarrow> int \<times> java_client" where
  "java_sk p offset whence =
     (case java_seek (envs p (tick p)) (ctx p) offset whence of
        (r, c) \<Rightarrow> (r, p\<lparr>tick := tick p + 1, ctx := c\<rparr>))"

text \<open>The context of \<open>avio_alloc_context\<close> in \<open>nativeExtractFrame\<close>; a new buffer has the size asked for.\<close>

definition java_source :: "(int \<Rightarrow> byte list option) \<Rightarrow> java_client source" where
  "java_source al = \<lparr>read_cb = Some java_rd, seek_cb = Some java_sk,
     buf_alloc = (\<lambda>n. case al n of None \<Rightarrow> None | Some b \<Rightarrow> if int (length b) = n then Some b else None)\<rparr>"

definition java_good :: "byte list \<Rightarrow> java_client \<Rightarrow> bool" where
  "java_good media p \<longleftrightarrow> (\<exists>c. ctx p = Some c \<and> avio_ok c) \<and>
     (\<forall>i. env_ok (envs p i) \<and> reads_file media (envs p i))"

definition java_pos :: "java_client \<Rightarrow> int" where
  "java_pos p = (case ctx p of None \<Rightarrow> 0 | Some c \<Rightarrow> position c)"

lemma java_fetch_not_zero: "java_fetch env c q = (k, bs, d) \<Longrightarrow> k \<noteq> 0"
  by (auto simp: java_fetch_def averror_values Let_def split: if_splits option.splits prod.splits)

lemma java_read_not_zero:
  assumes "java_read_packet env (Some c) n = (r, bs, d)" "0 < n"
  shows "r \<noteq> 0"
proof
  assume "r = 0"
  with assms have rd: "java_read_packet env (Some c) n = (0, bs, d)" by simp
  have ready: "read_ready env c n"
    using rd assms(2) by (auto simp: java_read_packet.simps(2) read_ready_def averror_values split: if_splits)
  show False
  proof (cases "read_request c n")
    case (Inl a)
    then show ?thesis using ready_no_request [OF ready, of "fst a" "snd a"] rd by (cases a) auto
  next
    case (Inr q)
    obtain e c1 where es: "ensure_scratch env c q = (e, c1)" by (metis surj_pair)
    obtain k ys c2 where jf: "java_fetch env c1 q = (k, ys, c2)" by (metis prod_cases3)
    show ?thesis using ready_read [OF ready Inr es] rd jf java_fetch_not_zero [OF jf] by (auto split: if_splits)
  qed
qed

lemma java_read_law:
  assumes "java_good media p" "0 < n" "n \<le> INT_MAX" "java_rd p n = (r, bs, p')"
  shows "java_good media p' \<and> read_law media (java_pos p) n r bs (java_pos p')"
proof -
  let ?e = "envs p (tick p)"
  from assms(1) obtain c where c: "ctx p = Some c" "avio_ok c"
    and env: "env_ok ?e" "reads_file media ?e" "\<forall>i. env_ok (envs p i) \<and> reads_file media (envs p i)"
    by (auto simp: java_good_def)
  obtain r' bs' d where rd: "java_read_packet ?e (Some c) n = (r', bs', Some d)"
    using read_returns_context by blast
  with assms(4) c(1) have p': "p' = p\<lparr>tick := tick p + 1, ctx := Some d\<rparr>" "r' = r" "bs' = bs"
    by (simp_all add: java_rd_def)
  note rd = rd [unfolded p'(2,3)]
  have ok: "avio_ok d" by (rule avio_ok_read [OF c(2) env(1) assms(3) rd])
  have good: "java_good media p'" using ok env(3) by (simp add: java_good_def p')
  have pos: "java_pos p = position c" "java_pos p' = position d" by (simp_all add: java_pos_def c p')
  show ?thesis
  proof (cases "r < 0")
    case True
    then have "bs = [] \<and> same_stream c d" using read_failure_frame [OF rd] by auto
    with True good show ?thesis by (simp add: read_law_def pos same_stream_def)
  next
    case False
    with java_read_not_zero [OF rd assms(2)] have r: "0 < r" by simp
    from read_successE [OF rd r] obtain q c1 arr arr' where
      q: "read_ready ?e c n" "read_request c n = Inr q" "r \<le> q" "same_stream c c1"
      and d: "d = c1\<lparr>scratch := Some arr', position := i64 (position c + r), total_read := i64 (total_read c + r)\<rparr>"
      by metis
    have "total_read c < MAX_NATIVE_IO_BYTES" using q(1) by (simp add: read_ready_def)
    then have "q \<le> n" using read_request_Inr(2) [OF q(2) _ _ assms(3)] c(2) by (simp add: avio_ok_def)
    note sl = read_file_slice [OF c(2) env(1,2) assms(3) rd r]
    have "position c + r \<le> INT64_MAX"
    proof -
      from read_successE [OF rd r] obtain arr q arr' where "read_at ?e (position c) arr 0 q = (r, False, arr')" by metis
      with env(1) r show ?thesis unfolding env_ok_def by (metis fst_conv)
    qed
    then have "i64 (position c + r) = position c + r"
      using c(2) r by (intro i64_id) (auto simp: avio_ok_def in_i64_def)
    then have "position d = position c + r" by (simp add: d)
    with False r q(3) \<open>q \<le> n\<close> sl good show ?thesis by (simp add: read_law_def pos)
  qed
qed

lemma java_seek_set_law:
  assumes "java_good media p" "0 \<le> off" "java_sk p off SEEK_SET = (r, p')"
  shows "java_good media p' \<and> (if r < 0 then java_pos p' = java_pos p else java_pos p' = off)"
proof -
  let ?e = "envs p (tick p)"
  from assms(1) obtain c where c: "ctx p = Some c" "avio_ok c" by (auto simp: java_good_def)
  obtain r' d where sk: "java_seek ?e (Some c) off SEEK_SET = (r', Some d)"
    using seek_returns_context by blast
  with assms(3) c(1) have p': "p' = p\<lparr>tick := tick p + 1, ctx := Some d\<rparr>" "r' = r"
    by (simp_all add: java_sk_def)
  have "avio_ok d \<and> (if r < 0 then position d = position c else position d = off)"
    using sk c(2) assms(2) unfolding p'(2)
    by (auto simp: java_seek.simps(2) io_consts clear_force_def seek_base_def checked_add_def avio_ok_def
        split: if_splits option.splits)
  with assms(1) c(1) show ?thesis by (auto simp: java_good_def java_pos_def p')
qed

lemma java_seek_size_law:
  assumes "java_good media p" "java_sk p off AVSEEK_SIZE = (r, p')"
  shows "java_good media p' \<and> java_pos p' = java_pos p \<and> (r < 0 \<longrightarrow> (\<forall>o2. fst (java_sk p' o2 SEEK_END) < 0 \<and>
      java_good media (snd (java_sk p' o2 SEEK_END)) \<and> java_pos (snd (java_sk p' o2 SEEK_END)) = java_pos p))"
proof -
  let ?e = "envs p (tick p)" and ?e2 = "envs p (tick p + 1)"
  from assms(1) obtain c where c: "ctx p = Some c" "avio_ok c"
    and env: "\<forall>i. env_ok (envs p i) \<and> reads_file media (envs p i)" by (auto simp: java_good_def)
  obtain r' d where sk: "java_seek ?e (Some c) off AVSEEK_SIZE = (r', Some d)"
    using seek_returns_context by blast
  with assms(2) c(1) have p': "p' = p\<lparr>tick := tick p + 1, ctx := Some d\<rparr>" "r' = r"
    by (simp_all add: java_sk_def)
  have "fst (get_size ?e) \<le> INT64_MAX" using env by (auto simp: env_ok_def)
  then have d: "avio_ok d \<and> position d = position c \<and> (r < 0 \<longrightarrow> failed d \<or> total_size d < 0)"
    using sk c(2) unfolding p'(2) by (auto simp: java_seek.simps(2) avio_ok_def split: if_splits prod.splits option.splits)
  have neg: "\<exists>r2 d2. java_seek ?e2 (Some d) o2 SEEK_END = (r2, Some d2) \<and> r2 < 0 \<and> avio_ok d2 \<and> position d2 = position d"
    if "r < 0" for o2
    using d that by (auto simp: java_seek.simps(2) io_consts clear_force_def seek_base_def)
  have "fst (java_sk p' o2 SEEK_END) < 0 \<and> java_good media (snd (java_sk p' o2 SEEK_END)) \<and>
      java_pos (snd (java_sk p' o2 SEEK_END)) = java_pos p" if "r < 0" for o2
  proof -
    from neg [OF that, of o2] obtain r2 d2 where
      "java_seek ?e2 (Some d) o2 SEEK_END = (r2, Some d2)" "r2 < 0" "avio_ok d2" "position d2 = position c"
      using d by auto
    with env c(1) show ?thesis by (simp add: java_sk_def p' java_good_def java_pos_def)
  qed
  with d env c(1) show ?thesis by (simp add: p' java_good_def java_pos_def)
qed

interpretation java: packet_source "java_source al" "java_good media" java_pos media for al media
proof unfold_locales
  fix f g p p' n r bs off b
  show "\<exists>f. read_cb (java_source al) = Some f" "\<exists>f. seek_cb (java_source al) = Some f"
    by (simp_all add: java_source_def)
  show "java_good media p' \<and> read_law media (java_pos p) n r bs (java_pos p')"
    if "read_cb (java_source al) = Some f" "java_good media p" "0 < n" "n \<le> INT_MAX" "f p n = (r, bs, p')"
    using java_read_law that by (auto simp: java_source_def)
  show "java_good media p' \<and> (if r < 0 then java_pos p' = java_pos p else java_pos p' = off)"
    if "seek_cb (java_source al) = Some g" "java_good media p" "0 \<le> off" "g p off SEEK_SET = (r, p')"
    using java_seek_set_law that by (auto simp: java_source_def)
  show "java_good media p' \<and> java_pos p' = java_pos p \<and> (r < 0 \<longrightarrow> (\<forall>o2. fst (g p' o2 SEEK_END) < 0 \<and>
      java_good media (snd (g p' o2 SEEK_END)) \<and> java_pos (snd (g p' o2 SEEK_END)) = java_pos p))"
    if "seek_cb (java_source al) = Some g" "java_good media p" "g p off AVSEEK_SIZE = (r, p')"
    using java_seek_size_law [OF that(2), of off r p'] that by (simp add: java_source_def)
  show "0 \<le> java_pos p" if "java_good media p"
    using that by (auto simp: java_good_def java_pos_def avio_ok_def)
  show "int (length b) = n" if "buf_alloc (java_source al) n = Some b"
    using that by (auto simp: java_source_def split: option.splits if_splits)
qed

section \<open>Properties\<close>

text \<open>Witness data: the five-byte source of \<open>JavaIO\<close> behind a two-byte buffer.\<close>

definition demo_client :: java_client where
  "demo_client = \<lparr>envs = (\<lambda>i. demo_env), tick = 0, ctx = Some demo_ctx\<rparr>"

definition demo_source :: "java_client source" where
  "demo_source = java_source (\<lambda>n. None)"

definition demo_io :: "java_client avio" where
  "demo_io = ffio_init_context demo_source [0, 0] demo_client"

lemma demo_client_ok: "java_good demo_file demo_client" "java_pos demo_client = 0"
  using demo_ok by (auto simp: java_good_def java_pos_def demo_client_def demo_ctx_def initial_avio_def)

lemma demo_seek_applies:
  "\<exists>r bs t. avio_apply demo_source demo_io (Op_Seek 3 SEEK_SET) = Some (r, bs, t) \<and> avio_tell t = 3"
proof -
  have "map_option (\<lambda>(r, bs, t). avio_tell t) (avio_apply demo_source demo_io (Op_Seek 3 SEEK_SET)) = Some 3"
    by code_simp
  then show ?thesis by auto
qed

lemma demo_reach: "\<exists>t. avio_reach demo_source demo_io t \<and> avio_tell t = 3"
  using demo_seek_applies by (metis avio_reach.start avio_reach.step op_ok.simps(4))

text \<open>
  Property C17: the buffered reader is transparent. Through a context over the Java callbacks,
  after any sequence of reads, seeks, size and end-of-file queries by the demuxer, and whatever
  the clock, the allocators and Java's short reads do, \<open>avio_read\<close> returns, never leaves its
  buffer, and stores exactly the bytes of the media at \<open>avio_tell\<close>, at most as many as asked
  for; \<open>avio_tell\<close> advances by their number, which is the return value unless it is 0.
\<close>

theorem avio_read_transparent:
  assumes "java_good media p" "java_pos p = 0" "buffer \<noteq> []" "int (length buffer) \<le> INT_MAX"
    and "avio_reach (java_source al) (ffio_init_context (java_source al) buffer p) s" "0 \<le> n" "n \<le> INT_MAX"
  shows "\<exists>r bs t. avio_read (2 * nat n + 2) (java_source al) s n = Some (r, bs, t) \<and> int (length bs) \<le> n \<and>
    bs = slice (nat (avio_tell s)) (length bs) media \<and>
    (0 < n \<longrightarrow> avio_tell t = avio_tell s + int (length bs)) \<and> (bs \<noteq> [] \<longrightarrow> r = int (length bs))"
  using assms by (rule java.fresh_read)

theorem avio_read_transparent_witness:
  "\<exists>s r bs t. avio_tell s = 3 \<and> avio_read 8 demo_source s 3 = Some (r, bs, t) \<and>
     bs = slice 3 (length bs) demo_file"
proof -
  obtain s where s: "avio_reach demo_source demo_io s" "avio_tell s = 3" using demo_reach by blast
  from avio_read_transparent [OF demo_client_ok, of "[0, 0]" "\<lambda>n. None" s 3] s
  show ?thesis by (auto simp: demo_io_def demo_source_def)
qed

text \<open>
  Property C18: after any sequence of operations a seek returns, with the fuel of the model, and
  either fails with a negative code or leaves \<open>avio_tell\<close> exactly at the target it returns: the
  offset itself from \<open>SEEK_SET\<close>, the position plus the offset from \<open>SEEK_CUR\<close>.
\<close>

theorem avio_seek_reaches_target:
  assumes "java_good media p" "java_pos p = 0" "buffer \<noteq> []" "int (length buffer) \<le> INT_MAX"
    and "avio_reach (java_source al) (ffio_init_context (java_source al) buffer p) s"
  shows "\<exists>r t. avio_seek 2 (nat (\<bar>offset\<bar> + \<bar>avio_tell s\<bar>) + 1) (java_source al) s offset whence = Some (r, t) \<and>
    (whence = SEEK_SET \<longrightarrow> r = offset \<and> avio_tell t = offset \<or> r < 0) \<and>
    (whence = SEEK_CUR \<longrightarrow> r = avio_tell s + offset \<and> avio_tell t = r \<or> r < 0)"
  using assms by (rule java.fresh_seek)

theorem avio_seek_reaches_target_witness:
  "\<exists>s r t. avio_tell s = 3 \<and> avio_seek 2 6 demo_source s (- 2) SEEK_CUR = Some (r, t) \<and>
     (r = 1 \<and> avio_tell t = 1 \<or> r < 0)"
proof -
  obtain s where s: "avio_reach demo_source demo_io s" "avio_tell s = 3" using demo_reach by blast
  from avio_seek_reaches_target [OF demo_client_ok, of "[0, 0]" "\<lambda>n. None" s "- 2" SEEK_CUR] s
  show ?thesis by (auto simp: demo_io_def demo_source_def)
qed

text \<open>
  Property C19: every operation of a demuxer on the context returns without leaving the buffer,
  whatever happened before it: the loops of \<open>avio_read\<close> and \<open>avio_seek\<close> end, also on a source
  that fails, that has expired or that delivers a byte at a time.
\<close>

theorem avio_operations_return:
  assumes "java_good media p" "java_pos p = 0" "buffer \<noteq> []" "int (length buffer) \<le> INT_MAX"
    and "avio_reach (java_source al) (ffio_init_context (java_source al) buffer p) s" "op_ok oper"
  shows "avio_apply (java_source al) s oper \<noteq> None"
  using assms by (rule java.fresh_apply)

theorem avio_operations_return_witness:
  "avio_apply demo_source demo_io (Op_Read 4) \<noteq> None"
  using avio_operations_return [OF demo_client_ok, of "[0, 0]" "\<lambda>n. None" demo_io "Op_Read 4"]
  by (simp add: demo_io_def demo_source_def avio_reach.start)

end
