(* ===== verification/Index.thy ===== *)
theory Index
  imports Prelude
begin

text \<open>
  The seek index of a stream, \<open>libavformat/seek.c\<close>: the array of \<open>AVIndexEntry\<close> ordered by time
  stamp that \<open>av_seek_frame\<close> searches. An array is the list of its entries, so its length is
  \<open>nb_index_entries\<close>; a read outside it, and a failing \<open>av_assert0\<close>, is \<open>None\<close>.
\<close>

section \<open>Entries\<close>

definition AVINDEX_KEYFRAME :: int where "AVINDEX_KEYFRAME = 1"
definition AVINDEX_DISCARD_FRAME :: int where "AVINDEX_DISCARD_FRAME = 2"
definition AVSEEK_FLAG_BACKWARD :: int where "AVSEEK_FLAG_BACKWARD = 1"
definition AVSEEK_FLAG_BYTE :: int where "AVSEEK_FLAG_BYTE = 2"
definition AVSEEK_FLAG_ANY :: int where "AVSEEK_FLAG_ANY = 4"
definition RELATIVE_TS_BASE :: int where "RELATIVE_TS_BASE = INT64_MAX - 281474976710656"

text \<open>The bit-fields \<open>flags:2\<close> and \<open>size:30\<close> hold what fits: the two flag bits, a signed 30-bit size.\<close>

record index_entry =
  ie_pos :: int
  ie_timestamp :: int
  ie_flags :: int
  ie_size :: int
  ie_min_distance :: int

definition s30 :: "int \<Rightarrow> int" where
  "s30 x = (x + 536870912) mod 1073741824 - 536870912"

definition is_relative :: "int \<Rightarrow> bool" where
  "is_relative ts \<longleftrightarrow> ts > RELATIVE_TS_BASE - 281474976710656"

section \<open>Search\<close>

text \<open>Line 149: the next entry from \<open>m\<close> that is not discarded, below \<open>b\<close>.\<close>

function skip_discard :: "index_entry list \<Rightarrow> int \<Rightarrow> int \<Rightarrow> int \<Rightarrow> int option" where
  "skip_discard es b wanted m =
     (case peek es m of
        None \<Rightarrow> None
      | Some e \<Rightarrow>
          if has_flag (ie_flags e) AVINDEX_DISCARD_FRAME \<and> m < b \<and> m < int (length es) - 1 then
            (if m + 1 = b then
               (case peek es (m + 1) of
                  None \<Rightarrow> None
                | Some e \<Rightarrow> if ie_timestamp e \<ge> wanted then Some (b - 1) else skip_discard es b wanted (m + 1))
             else skip_discard es b wanted (m + 1))
          else Some m)"
  by pat_completeness auto
termination by (relation "measure (\<lambda>(es, b, wanted, m). nat (b - m))") auto

declare skip_discard.simps [simp del]

text \<open>The bisection stays inside its interval whatever the array holds, which is why it ends.\<close>

lemma skip_discard_bounds:
  "skip_discard es b wanted m = Some k \<Longrightarrow> m < b \<Longrightarrow>
     m \<le> k \<and> k \<le> b \<and> (k = b \<longrightarrow> (\<exists>e. peek es k = Some e \<and> \<not> wanted \<le> ie_timestamp e))"
proof (induction es b wanted m rule: skip_discard.induct)
  case (1 es b wanted m)
  obtain e where e: "peek es m = Some e" using "1.prems"(1)
    by (subst (asm) skip_discard.simps) (auto split: option.splits)
  show ?case
  proof (cases "has_flag (ie_flags e) AVINDEX_DISCARD_FRAME \<and> m < b \<and> m < int (length es) - 1")
    case c: True
    show ?thesis
    proof (cases "m + 1 = b")
      case True
      obtain e2 where e2: "peek es (m + 1) = Some e2" using "1.prems"(1) e c True
        by (subst (asm) skip_discard.simps) (auto split: option.splits)
      show ?thesis
      proof (cases "wanted \<le> ie_timestamp e2")
        case le: True
        with "1.prems"(1) e e2 c True show ?thesis by (subst (asm) skip_discard.simps) auto
      next
        case False
        have "skip_discard es b wanted (m + 1) = Some (m + 1)"
          using e2 True by (subst skip_discard.simps) simp
        then have "k = m + 1" using "1.prems"(1) e e2 c True False by (subst (asm) skip_discard.simps) auto
        with e2 True False show ?thesis by auto
      qed
    next
      case False
      then have "skip_discard es b wanted (m + 1) = Some k"
        using "1.prems"(1) e c by (subst (asm) skip_discard.simps) auto
      from "1.IH"(2) [OF e c False this] False c show ?thesis by auto
    qed
  next
    case False
    then have "k = m" using "1.prems"(1) e by (subst (asm) skip_discard.simps) auto
    with "1.prems"(2) show ?thesis by simp
  qed
qed

text \<open>Line 145: the bisection, for the final \<open>a\<close> and \<open>b\<close>.\<close>

function bisect :: "index_entry list \<Rightarrow> int \<Rightarrow> int \<Rightarrow> int \<Rightarrow> (int \<times> int) option" where
  "bisect es wanted a b =
     (if b - a > 1 then
        (case skip_discard es b wanted ((a + b) div 2) of
           None \<Rightarrow> None
         | Some m \<Rightarrow>
             (case peek es m of
                None \<Rightarrow> None
              | Some e \<Rightarrow>
                  bisect es wanted (if ie_timestamp e \<le> wanted then m else a)
                    (if ie_timestamp e \<ge> wanted then m else b)))
      else Some (a, b))"
  by pat_completeness auto
termination
proof (relation "measure (\<lambda>(es, wanted, a, b). nat (b - a))")
  fix es :: "index_entry list" and wanted a b m :: int and e
  assume ab: "1 < b - a" and m: "skip_discard es b wanted ((a + b) div 2) = Some m" and e: "peek es m = Some e"
  have "(a + b) div 2 < b" "a < (a + b) div 2" using ab by linarith+
  with skip_discard_bounds [OF m] have "(a + b) div 2 \<le> m" "m \<le> b" "m = b \<longrightarrow> \<not> wanted \<le> ie_timestamp e"
    using e by auto
  with ab \<open>a < (a + b) div 2\<close> show "((es, wanted, if ie_timestamp e \<le> wanted then m else a, if wanted \<le> ie_timestamp e then m else b),
      es, wanted, a, b) \<in> measure (\<lambda>(es, wanted, a, b). nat (b - a))"
    by auto
qed simp

declare bisect.simps [simp del]

text \<open>Line 165: the next keyframe in the direction of the search.\<close>

function key_scan :: "index_entry list \<Rightarrow> bool \<Rightarrow> int \<Rightarrow> int" where
  "key_scan es backward m =
     (if m \<ge> 0 \<and> m < int (length es) \<and> \<not> has_flag (ie_flags (es ! nat m)) AVINDEX_KEYFRAME
      then key_scan es backward (if backward then m - 1 else m + 1) else m)"
  by pat_completeness auto
termination
  by (relation "measure (\<lambda>(es, backward, m). nat (if backward then m + 1 else int (length es) - m))") auto

declare key_scan.simps [simp del]

definition ff_index_search_timestamp :: "index_entry list \<Rightarrow> int \<Rightarrow> int \<Rightarrow> int option" where
  "ff_index_search_timestamp es wanted flags =
     (let nb = int (length es) in
      case (if nb = 0 then Some (- 1)
            else map_option (\<lambda>e. if ie_timestamp e < wanted then nb - 1 else - 1) (peek es (nb - 1))) of
        None \<Rightarrow> None
      | Some a \<Rightarrow>
          (case bisect es wanted a nb of
             None \<Rightarrow> None
           | Some (a, b) \<Rightarrow>
               let m = (if has_flag flags AVSEEK_FLAG_BACKWARD then a else b);
                   m = (if has_flag flags AVSEEK_FLAG_ANY then m
                        else key_scan es (has_flag flags AVSEEK_FLAG_BACKWARD) m)
               in Some (if m = nb then - 1 else m)))"

section \<open>Insertion and reduction\<close>

text \<open>
  \<open>sizeof(AVIndexEntry)\<close> is 24. \<open>memory\<close> says whether \<open>av_fast_realloc\<close> succeeds.
\<close>

definition ff_add_index_entry :: "bool \<Rightarrow> index_entry list \<Rightarrow> int \<Rightarrow> int \<Rightarrow> int \<Rightarrow> int \<Rightarrow> int \<Rightarrow>
    (int \<times> index_entry list) option" where
  "ff_add_index_entry memory es pos timestamp sz distance flags =
     (let entry = (\<lambda>ts d. \<lparr>ie_pos = pos, ie_timestamp = ts, ie_flags = flags mod 4, ie_size = s30 sz,
                           ie_min_distance = d\<rparr>)
      in
      if int (length es) + 1 \<ge> 4294967295 div 24 then Some (- 1, es)
      else if timestamp = AV_NOPTS_VALUE then Some (AVERROR_EINVAL, es)
      else if sz < 0 \<or> sz > 1073741823 then Some (AVERROR_EINVAL, es)
      else
        let timestamp = (if is_relative timestamp then timestamp - RELATIVE_TS_BASE else timestamp) in
        if \<not> memory then Some (- 1, es)
        else
          (case ff_index_search_timestamp es timestamp AVSEEK_FLAG_ANY of
             None \<Rightarrow> None
           | Some index \<Rightarrow>
               if index < 0 then
                 (if es = [] \<or> ie_timestamp (es ! (length es - 1)) < timestamp
                  then Some (int (length es), es @ [entry timestamp distance]) else None)
               else
                 (case peek es index of
                    None \<Rightarrow> None
                  | Some ie \<Rightarrow>
                      if ie_timestamp ie \<noteq> timestamp then
                        (if ie_timestamp ie \<le> timestamp then Some (- 1, es)
                         else Some (index, take (nat index) es @ entry timestamp distance # drop (nat index) es))
                      else
                        let distance = (if ie_pos ie = pos \<and> distance < ie_min_distance ie
                                        then ie_min_distance ie else distance)
                        in Some (index, es[nat index := entry timestamp distance]))))"

text \<open>The loop of \<open>ff_reduce_index\<close> copies the even entries to the front, in place.\<close>

function reduce_loop :: "nat \<Rightarrow> index_entry list \<Rightarrow> nat \<times> index_entry list" where
  "reduce_loop i es =
     (if 2 * i < length es then reduce_loop (i + 1) (es[i := es ! (2 * i)]) else (i, es))"
  by pat_completeness auto
termination by (relation "measure (\<lambda>(i, es). length es - 2 * i)") auto

declare reduce_loop.simps [simp del]

definition ff_reduce_index :: "int \<Rightarrow> index_entry list \<Rightarrow> index_entry list" where
  "ff_reduce_index max_index_size es =
     (if int (length es) \<ge> max_index_size div 24
      then (case reduce_loop 0 es of (i, es) \<Rightarrow> take i es) else es)"

definition avformat_index_get_entry :: "index_entry list \<Rightarrow> int \<Rightarrow> index_entry option" where
  "avformat_index_get_entry es idx =
     (if idx < 0 \<or> idx \<ge> int (length es) then None else Some (es ! nat idx))"

definition avformat_index_get_entry_from_timestamp :: "index_entry list \<Rightarrow> int \<Rightarrow> int \<Rightarrow> index_entry option option" where
  "avformat_index_get_entry_from_timestamp es wanted flags =
     (case ff_index_search_timestamp es wanted flags of
        None \<Rightarrow> None
      | Some idx \<Rightarrow> if idx < 0 then Some None else map_option Some (peek es idx))"

section \<open>Correctness of the search\<close>

text \<open>The invariant of an index: time stamps strictly increase.\<close>

definition index_ok :: "index_entry list \<Rightarrow> bool" where
  "index_ok es \<longleftrightarrow> sorted_wrt (<) (map ie_timestamp es)"

abbreviation ts_at :: "index_entry list \<Rightarrow> int \<Rightarrow> int" where
  "ts_at es i \<equiv> ie_timestamp (es ! nat i)"

lemma index_ok_less: "index_ok es \<Longrightarrow> 0 \<le> i \<Longrightarrow> i < j \<Longrightarrow> j < int (length es) \<Longrightarrow> ts_at es i < ts_at es j"
  unfolding index_ok_def using sorted_wrt_nth_less [of "(<)" "map ie_timestamp es" "nat i" "nat j"] by simp

lemma skip_discard_ok:
  "0 \<le> m \<Longrightarrow> m < b \<Longrightarrow> b \<le> int (length es) \<Longrightarrow> b < int (length es) \<longrightarrow> wanted \<le> ts_at es b \<Longrightarrow>
     \<exists>k. skip_discard es b wanted m = Some k \<and> m \<le> k \<and> k < b"
proof (induction es b wanted m rule: skip_discard.induct)
  case (1 es b wanted m)
  have e: "peek es m = Some (es ! nat m)" using "1.prems" by simp
  show ?case
  proof (cases "has_flag (ie_flags (es ! nat m)) AVINDEX_DISCARD_FRAME \<and> m < b \<and> m < int (length es) - 1")
    case c: True
    show ?thesis
    proof (cases "m + 1 = b")
      case True
      then have "peek es (m + 1) = Some (es ! nat b)" "wanted \<le> ts_at es b" using "1.prems" c by simp_all
      with e c True show ?thesis by (subst skip_discard.simps) simp
    next
      case False
      with "1.IH"(2) [OF e c False] "1.prems" obtain k where
        "skip_discard es b wanted (m + 1) = Some k" "m + 1 \<le> k" "k < b" by auto
      with e c False show ?thesis by (subst skip_discard.simps) simp
    qed
  next
    case False
    with e "1.prems"(2) show ?thesis by (subst skip_discard.simps) auto
  qed
qed

text \<open>
  The bisection ends with the neighbours of the wanted time stamp, or twice with its entry,
  whichever frames are discarded.
\<close>

definition brackets :: "index_entry list \<Rightarrow> int \<Rightarrow> int \<Rightarrow> int \<Rightarrow> bool" where
  "brackets es w a b \<longleftrightarrow> - 1 \<le> a \<and> b \<le> int (length es) \<and>
     (a = b \<and> 0 \<le> a \<and> a < int (length es) \<and> ts_at es a = w \<or>
      a < b \<and> (0 \<le> a \<longrightarrow> ts_at es a < w) \<and> (b < int (length es) \<longrightarrow> w < ts_at es b))"

lemma bisect_ok:
  "brackets es w a b \<Longrightarrow> \<exists>c d. bisect es w a b = Some (c, d) \<and> brackets es w c d \<and> d \<le> c + 1"
proof (induction es w a b rule: bisect.induct)
  case (1 es w a b)
  show ?case
  proof (cases "b - a > 1")
    case True
    define m0 where "m0 = (a + b) div 2"
    have lt: "a < b" using True by simp
    have b: "- 1 \<le> a" "b \<le> int (length es)" "0 \<le> a \<longrightarrow> ts_at es a < w" "b < int (length es) \<longrightarrow> w < ts_at es b"
      using "1.prems" lt by (auto simp: brackets_def)
    have mid: "m0 < b" "a < m0" using True unfolding m0_def by linarith+
    have "0 \<le> m0" "b < int (length es) \<longrightarrow> w \<le> ts_at es b" using mid(2) b by auto
    from skip_discard_ok [OF this(1) mid(1) b(2) this(2)] obtain m where
      m: "skip_discard es b w m0 = Some m" "m0 \<le> m" "m < b" by blast
    have e: "peek es m = Some (es ! nat m)" using m mid b by simp
    define c where "c = (if ts_at es m \<le> w then m else a)"
    define d where "d = (if w \<le> ts_at es m then m else b)"
    have "brackets es w c d"
      unfolding brackets_def c_def d_def using m mid b lt by (cases "ts_at es m" w rule: linorder_cases) auto
    then have "\<exists>c' d'. bisect es w c d = Some (c', d') \<and> brackets es w c' d' \<and> d' \<le> c' + 1"
      using "1.IH" [OF True m(1) [unfolded m0_def] e] unfolding c_def d_def by blast
    moreover have "bisect es w a b = bisect es w c d"
      using True m(1) e by (subst bisect.simps) (simp add: m0_def c_def d_def)
    ultimately show ?thesis by simp
  next
    case False
    then have "bisect es w a b = Some (a, b)" by (subst bisect.simps) simp
    with False "1.prems" show ?thesis by simp
  qed
qed

lemma key_scan_forward:
  "0 \<le> m \<Longrightarrow> m \<le> int (length es) \<Longrightarrow>
     m \<le> key_scan es False m \<and> key_scan es False m \<le> int (length es) \<and>
     (key_scan es False m < int (length es) \<longrightarrow> has_flag (ie_flags (es ! nat (key_scan es False m))) AVINDEX_KEYFRAME) \<and>
     (\<forall>i. m \<le> i \<and> i < key_scan es False m \<longrightarrow> \<not> has_flag (ie_flags (es ! nat i)) AVINDEX_KEYFRAME)"
proof (induction es "False" m rule: key_scan.induct)
  case (1 es m)
  show ?case
  proof (cases "m < int (length es) \<and> \<not> has_flag (ie_flags (es ! nat m)) AVINDEX_KEYFRAME")
    case True
    with "1.prems" "1.hyps" have
      IH: "m + 1 \<le> key_scan es False (m + 1) \<and> key_scan es False (m + 1) \<le> int (length es) \<and>
       (key_scan es False (m + 1) < int (length es) \<longrightarrow> has_flag (ie_flags (es ! nat (key_scan es False (m + 1)))) AVINDEX_KEYFRAME) \<and>
       (\<forall>i. m + 1 \<le> i \<and> i < key_scan es False (m + 1) \<longrightarrow> \<not> has_flag (ie_flags (es ! nat i)) AVINDEX_KEYFRAME)"
      by simp
    have eq: "key_scan es False m = key_scan es False (m + 1)"
      using True "1.prems" by (subst key_scan.simps) simp
    have "\<not> has_flag (ie_flags (es ! nat i)) AVINDEX_KEYFRAME" if "m \<le> i" "i < key_scan es False (m + 1)" for i
      using that IH True by (cases "i = m") auto
    with IH show ?thesis unfolding eq by auto
  next
    case False
    then have "key_scan es False m = m" by (subst key_scan.simps) auto
    with "1.prems" False show ?thesis by auto
  qed
qed

lemma key_scan_backward:
  "- 1 \<le> m \<Longrightarrow> m < int (length es) \<Longrightarrow>
     key_scan es True m \<le> m \<and> - 1 \<le> key_scan es True m \<and>
     (0 \<le> key_scan es True m \<longrightarrow> has_flag (ie_flags (es ! nat (key_scan es True m))) AVINDEX_KEYFRAME) \<and>
     (\<forall>i. key_scan es True m < i \<and> i \<le> m \<longrightarrow> \<not> has_flag (ie_flags (es ! nat i)) AVINDEX_KEYFRAME)"
proof (induction es "True" m rule: key_scan.induct)
  case (1 es m)
  show ?case
  proof (cases "0 \<le> m \<and> \<not> has_flag (ie_flags (es ! nat m)) AVINDEX_KEYFRAME")
    case True
    with "1.prems" "1.hyps" have
      IH: "key_scan es True (m - 1) \<le> m - 1 \<and> - 1 \<le> key_scan es True (m - 1) \<and>
       (0 \<le> key_scan es True (m - 1) \<longrightarrow> has_flag (ie_flags (es ! nat (key_scan es True (m - 1)))) AVINDEX_KEYFRAME) \<and>
       (\<forall>i. key_scan es True (m - 1) < i \<and> i \<le> m - 1 \<longrightarrow> \<not> has_flag (ie_flags (es ! nat i)) AVINDEX_KEYFRAME)"
      by simp
    have eq: "key_scan es True m = key_scan es True (m - 1)"
      using True "1.prems" by (subst key_scan.simps) simp
    have "\<not> has_flag (ie_flags (es ! nat i)) AVINDEX_KEYFRAME" if "key_scan es True (m - 1) < i" "i \<le> m" for i
      using that IH True by (cases "i = m") auto
    with IH show ?thesis unfolding eq by auto
  next
    case False
    then have "key_scan es True m = m" by (subst key_scan.simps) auto
    with "1.prems" False show ?thesis by auto
  qed
qed

text \<open>
  The reference: the first entry at or after the wanted time, or the last at or before it, among
  the keyframes or among all entries.
\<close>

definition usable :: "index_entry list \<Rightarrow> int \<Rightarrow> nat \<Rightarrow> bool" where
  "usable es flags i \<longleftrightarrow> has_flag flags AVSEEK_FLAG_ANY \<or> has_flag (ie_flags (es ! i)) AVINDEX_KEYFRAME"

definition index_search_spec :: "index_entry list \<Rightarrow> int \<Rightarrow> int \<Rightarrow> int" where
  "index_search_spec es wanted flags =
     (case (if has_flag flags AVSEEK_FLAG_BACKWARD
            then List.find (\<lambda>i. ie_timestamp (es ! i) \<le> wanted \<and> usable es flags i) (rev [0..<length es])
            else List.find (\<lambda>i. wanted \<le> ie_timestamp (es ! i) \<and> usable es flags i) [0..<length es]) of
        None \<Rightarrow> - 1 | Some i \<Rightarrow> int i)"

lemma find_upt_first:
  assumes "0 \<le> m" "m \<le> int n" "m < int n \<longrightarrow> P (nat m)" "\<And>i. 0 \<le> i \<Longrightarrow> i < m \<Longrightarrow> \<not> P (nat i)"
  shows "(case List.find P [0..<n] of None \<Rightarrow> - 1 | Some i \<Rightarrow> int i) = (if m = int n then - 1 else m)"
proof (cases "m = int n")
  case True
  have "\<forall>i < n. \<not> P i" using assms(4) True by (metis nat_int of_nat_0_le_iff of_nat_less_iff)
  then have "List.find P [0..<n] = None" by (simp add: find_None_iff)
  with True show ?thesis by simp
next
  case False
  have "\<forall>j < nat m. \<not> P j" using assms(4) by (metis nat_int of_nat_0_le_iff zless_nat_eq_int_zless)
  with False assms(1-3) have "List.find P [0..<n] = Some (nat m)"
    by (subst find_Some_iff) (auto intro!: exI [of _ "nat m"])
  with False assms(1) show ?thesis by simp
qed

lemma find_upt_last:
  assumes "- 1 \<le> m" "m < int n" "0 \<le> m \<longrightarrow> P (nat m)" "\<And>i. m < i \<Longrightarrow> i < int n \<Longrightarrow> \<not> P (nat i)"
  shows "(case List.find P (rev [0..<n]) of None \<Rightarrow> - 1 | Some i \<Rightarrow> int i) = m"
proof (cases "m = - 1")
  case True
  have "\<forall>i < n. \<not> P i"
  proof (intro allI impI)
    fix i assume "i < n"
    with assms(4) [of "int i"] True show "\<not> P i" by simp
  qed
  then have "List.find P (rev [0..<n]) = None" by (simp add: find_None_iff)
  with True show ?thesis by simp
next
  case False
  with assms(1) have m: "0 \<le> m" by simp
  have "\<forall>j. nat m < j \<and> j < n \<longrightarrow> \<not> P j" using assms(4) m by (metis nat_int nat_less_iff of_nat_less_iff)
  with m assms(2,3) have "List.find P (rev [0..<n]) = Some (nat m)"
    by (subst find_Some_iff) (auto simp: rev_nth intro!: exI [of _ "n - Suc (nat m)"])
  with m show ?thesis by simp
qed

lemma index_search_ok:
  assumes "index_ok es"
  shows "ff_index_search_timestamp es w flags = Some (index_search_spec es w flags)"
proof -
  let ?n = "int (length es)"
  define a0 where "a0 = (if es \<noteq> [] \<and> ts_at es (?n - 1) < w then ?n - 1 else - 1)"
  have start: "(if ?n = 0 then Some (- 1) else map_option (\<lambda>e. if ie_timestamp e < w then ?n - 1 else - 1) (peek es (?n - 1))) = Some a0"
    by (auto simp: a0_def)
  have "brackets es w a0 ?n" by (auto simp: brackets_def a0_def)
  from bisect_ok [OF this] obtain a b where ab: "bisect es w a0 ?n = Some (a, b)" "brackets es w a b" "b \<le> a + 1" by blast
  have below: "ts_at es i < w" if "0 \<le> i" "i < b" for i
  proof -
    from that ab(3) have "i \<le> a" by simp
    with ab(2) that index_ok_less [OF assms, of i a] show ?thesis
      unfolding brackets_def by (cases "i = a") auto
  qed
  have above: "w < ts_at es i" if "a < i" "i < ?n" for i
  proof -
    from that ab(3) have "b \<le> i" by simp
    with ab(2) that index_ok_less [OF assms, of b i] show ?thesis
      unfolding brackets_def by (cases "i = b") auto
  qed
  have at_a: "0 \<le> i \<Longrightarrow> i \<le> a \<Longrightarrow> ts_at es i \<le> w" for i
    using below [of i] ab(2) unfolding brackets_def by (cases "i = a") auto
  have at_b: "b \<le> i \<Longrightarrow> i < ?n \<Longrightarrow> w \<le> ts_at es i" for i
    using above [of i] ab(2) unfolding brackets_def by (cases "i = b") auto
  have range: "- 1 \<le> a" "a < ?n" "0 \<le> b" "b \<le> ?n" using ab(2,3) unfolding brackets_def by auto
  have unf: "ff_index_search_timestamp es w flags =
     (let m = (if has_flag flags AVSEEK_FLAG_BACKWARD then a else b);
          m = (if has_flag flags AVSEEK_FLAG_ANY then m else key_scan es (has_flag flags AVSEEK_FLAG_BACKWARD) m)
      in Some (if m = ?n then - 1 else m))"
    unfolding ff_index_search_timestamp_def Let_def start option.case ab(1) prod.case ..
  show ?thesis
  proof (cases "has_flag flags AVSEEK_FLAG_BACKWARD")
    case True
    define m where "m = (if has_flag flags AVSEEK_FLAG_ANY then a else key_scan es True a)"
    note ks = key_scan_backward [OF range(1,2)]
    have "index_search_spec es w flags = m"
      unfolding index_search_spec_def if_P [OF True]
    proof (rule find_upt_last)
      show "- 1 \<le> m" "m < ?n" using ks range by (auto simp: m_def)
      show "0 \<le> m \<longrightarrow> ts_at es m \<le> w \<and> usable es flags (nat m)"
        using ks at_a [of m] by (auto simp: m_def usable_def)
      show "\<not> (ts_at es i \<le> w \<and> usable es flags (nat i))" if "m < i" "i < ?n" for i
        using that ks above [of i] by (cases "i \<le> a") (auto simp: m_def usable_def split: if_splits)
    qed
    moreover have "m \<noteq> ?n" using ks range by (auto simp: m_def)
    ultimately show ?thesis unfolding unf using True unfolding m_def by (auto simp: Let_def split: if_splits)
  next
    case False
    define m where "m = (if has_flag flags AVSEEK_FLAG_ANY then b else key_scan es False b)"
    note ks = key_scan_forward [OF range(3,4)]
    have "index_search_spec es w flags = (if m = ?n then - 1 else m)"
      unfolding index_search_spec_def if_not_P [OF False]
    proof (rule find_upt_first)
      show "0 \<le> m" "m \<le> ?n" using ks range by (auto simp: m_def)
      show "m < ?n \<longrightarrow> w \<le> ts_at es m \<and> usable es flags (nat m)"
        using ks at_b [of m] by (auto simp: m_def usable_def)
      show "\<not> (w \<le> ts_at es i \<and> usable es flags (nat i))" if "0 \<le> i" "i < m" for i
        using that ks below [of i] by (cases "b \<le> i") (auto simp: m_def usable_def split: if_splits)
    qed
    then show ?thesis unfolding unf using False by (simp add: m_def Let_def)
  qed
qed

section \<open>Insertion refines a map update\<close>

text \<open>The abstract index: the entry stored for a time stamp.\<close>

definition index_map :: "index_entry list \<Rightarrow> int \<Rightarrow> index_entry option" where
  "index_map es = map_of (map (\<lambda>e. (ie_timestamp e, e)) es)"

lemma index_map_none: "(\<And>e. e \<in> set es \<Longrightarrow> ie_timestamp e \<noteq> t) \<Longrightarrow> index_map es t = None"
  by (induction es) (auto simp: index_map_def)

lemma index_map_append: "index_map (xs @ ys) t = (case index_map xs t of None \<Rightarrow> index_map ys t | Some e \<Rightarrow> Some e)"
  unfolding index_map_def map_append map_of_append map_add_def ..

lemma index_put:
  assumes "index_ok (xs @ mid @ ys)" "\<forall>e\<in>set xs. ie_timestamp e < t" "\<forall>e\<in>set ys. t < ie_timestamp e"
    and "\<forall>e\<in>set mid. ie_timestamp e = t" "ie_timestamp new = t"
  shows "index_ok (xs @ new # ys)" "index_map (xs @ new # ys) = (index_map (xs @ mid @ ys))(t \<mapsto> new)"
proof -
  show "index_ok (xs @ new # ys)"
    using assms by (fastforce simp: index_ok_def sorted_wrt_append)
  show "index_map (xs @ new # ys) = (index_map (xs @ mid @ ys))(t \<mapsto> new)"
  proof
    fix k
    have "index_map (new # ys) = (index_map ys)(t \<mapsto> new)" using assms(5) by (simp add: index_map_def)
    moreover have "index_map xs t = None" using assms(2) by (intro index_map_none) auto
    moreover have "k \<noteq> t \<Longrightarrow> index_map mid k = None" using assms(4) by (intro index_map_none) auto
    ultimately show "index_map (xs @ new # ys) k = ((index_map (xs @ mid @ ys))(t \<mapsto> new)) k"
      by (cases "k = t") (simp_all add: index_map_append split: option.split)
  qed
qed

lemma search_any:
  assumes "index_ok es"
  shows "ff_index_search_timestamp es w AVSEEK_FLAG_ANY =
    Some (case List.find (\<lambda>i. w \<le> ie_timestamp (es ! i)) [0..<length es] of None \<Rightarrow> - 1 | Some i \<Rightarrow> int i)"
proof -
  have "\<not> has_flag AVSEEK_FLAG_ANY AVSEEK_FLAG_BACKWARD" "has_flag AVSEEK_FLAG_ANY AVSEEK_FLAG_ANY"
    by (simp_all add: has_flag_def AVSEEK_FLAG_ANY_def AVSEEK_FLAG_BACKWARD_def)
  then show ?thesis by (simp add: index_search_ok [OF assms] index_search_spec_def usable_def)
qed

text \<open>The time stamp and the entry that a successful insertion stores.\<close>

definition stored_ts :: "int \<Rightarrow> int" where
  "stored_ts ts = (if is_relative ts then ts - RELATIVE_TS_BASE else ts)"

definition stored_entry :: "index_entry list \<Rightarrow> int \<Rightarrow> int \<Rightarrow> int \<Rightarrow> int \<Rightarrow> int \<Rightarrow> index_entry" where
  "stored_entry es pos ts sz distance flags =
     \<lparr>ie_pos = pos, ie_timestamp = stored_ts ts, ie_flags = flags mod 4, ie_size = s30 sz,
      ie_min_distance = (case index_map es (stored_ts ts) of
          None \<Rightarrow> distance | Some e \<Rightarrow> if ie_pos e = pos then max distance (ie_min_distance e) else distance)\<rparr>"

lemma add_index_entry_ok:
  assumes "index_ok es" "int (length es) + 1 < 178956970" "ts \<noteq> AV_NOPTS_VALUE" "0 \<le> sz" "sz \<le> 1073741823"
  shows "\<exists>i es'. ff_add_index_entry True es pos ts sz distance flags = Some (int i, es') \<and> index_ok es' \<and>
    i < length es' \<and> es' ! i = stored_entry es pos ts sz distance flags \<and>
    index_map es' = (index_map es)(stored_ts ts \<mapsto> stored_entry es pos ts sz distance flags)"
proof -
  define t where "t = stored_ts ts"
  define new where "new = stored_entry es pos ts sz distance flags"
  define entry where "entry = (\<lambda>d. \<lparr>ie_pos = pos, ie_timestamp = t, ie_flags = flags mod 4, ie_size = s30 sz,
                           ie_min_distance = d\<rparr>)"
  have new_t: "ie_timestamp new = t" by (simp add: new_def stored_entry_def t_def)
  have guards: "\<not> int (length es) + 1 \<ge> 4294967295 div 24" "\<not> (sz < 0 \<or> sz > 1073741823)"
    using assms(2,4,5) by simp_all
  show ?thesis
  proof (cases "List.find (\<lambda>i. t \<le> ie_timestamp (es ! i)) [0..<length es]")
    case None
    then have all: "\<forall>i<length es. ie_timestamp (es ! i) < t" by (auto simp: find_None_iff not_le)
    then have xs: "\<forall>e\<in>set es. ie_timestamp e < t" by (auto simp: in_set_conv_nth)
    have "index_map es t = None" using xs by (intro index_map_none) auto
    then have new: "entry distance = new" by (simp add: new_def stored_entry_def entry_def t_def)
    have "ff_index_search_timestamp es t AVSEEK_FLAG_ANY = Some (- 1)" using search_any [OF assms(1), of t] None by simp
    moreover have "es = [] \<or> ie_timestamp (es ! (length es - 1)) < t" using all by (cases es) auto
    ultimately have "ff_add_index_entry True es pos ts sz distance flags = Some (int (length es), es @ [new])"
      using guards assms(3) unfolding ff_add_index_entry_def
      by (simp add: Let_def new [symmetric] entry_def t_def stored_ts_def)
    moreover note index_put [of es "[]" "[]" t new]
    ultimately show ?thesis using assms(1) xs new_t unfolding new_def [symmetric] t_def [symmetric] by auto
  next
    case (Some i)
    then have i: "i < length es" "t \<le> ie_timestamp (es ! i)" "\<forall>j<i. ie_timestamp (es ! j) < t"
      by (auto simp: find_Some_iff not_le)
    define e where "e = es ! i"
    have split: "es = take i es @ e # drop (Suc i) es" using i(1) by (simp add: e_def Cons_nth_drop_Suc)
    have before: "\<forall>e\<in>set (take i es). ie_timestamp e < t" using i(1,3) by (auto simp: in_set_conv_nth)
    have "sorted_wrt (<) (map ie_timestamp (take i es @ e # drop (Suc i) es))"
      using assms(1) split by (simp add: index_ok_def)
    then have after: "\<forall>f\<in>set (drop (Suc i) es). ie_timestamp e < ie_timestamp f"
      by (auto simp: sorted_wrt_append)
    have srch: "ff_index_search_timestamp es t AVSEEK_FLAG_ANY = Some (int i)"
      using search_any [OF assms(1), of t] Some by simp
    have pk: "peek es (int i) = Some e" using i(1) by (simp add: e_def)
    show ?thesis
    proof (cases "ie_timestamp e = t")
      case True
      have "index_map es t = Some e"
      proof -
        have "index_map (take i es) t = None" using before by (intro index_map_none) auto
        moreover have "index_map (e # drop (Suc i) es) t = Some e" using True by (simp add: index_map_def)
        ultimately show ?thesis using index_map_append [of "take i es" "e # drop (Suc i) es" t] split by simp
      qed
      then have new: "entry (if ie_pos e = pos \<and> distance < ie_min_distance e then ie_min_distance e else distance) = new"
        by (auto simp: new_def stored_entry_def entry_def t_def)
      have "ff_add_index_entry True es pos ts sz distance flags = Some (int i, es[i := new])"
        using guards assms(3) srch pk True unfolding ff_add_index_entry_def
        by (simp add: Let_def new [symmetric] entry_def t_def stored_ts_def)
      moreover have "es[i := new] = take i es @ new # drop (Suc i) es" using i(1) by (simp add: upd_conv_take_nth_drop)
      moreover have "index_ok (take i es @ new # drop (Suc i) es)"
        "index_map (take i es @ new # drop (Suc i) es) = (index_map es)(t \<mapsto> new)"
        using index_put [of "take i es" "[e]" "drop (Suc i) es" t new] split before after True new_t assms(1) by auto
      ultimately show ?thesis using i(1) unfolding new_def [symmetric] t_def [symmetric]
        by (intro exI [of _ i] exI [of _ "es[i := new]"]) (simp add: nth_append)
    next
      case False
      with i(2) have gt: "t < ie_timestamp e" by (simp add: e_def)
      then have rest: "\<forall>f\<in>set (drop i es). t < ie_timestamp f"
        using after i(1) by (auto simp: e_def Cons_nth_drop_Suc [symmetric])
      have "index_map es t = None"
      proof (rule index_map_none)
        fix f assume "f \<in> set es"
        then have "f \<in> set (take i es) \<or> f \<in> set (drop i es)"
          by (metis Un_iff append_take_drop_id set_append)
        with before rest show "ie_timestamp f \<noteq> t" by auto
      qed
      then have new: "entry distance = new" by (simp add: new_def stored_entry_def entry_def t_def)
      have "ff_add_index_entry True es pos ts sz distance flags = Some (int i, take i es @ new # drop i es)"
        using guards assms(3) srch pk False gt unfolding ff_add_index_entry_def
        by (simp add: Let_def new [symmetric] entry_def t_def stored_ts_def)
      moreover have "index_ok (take i es @ new # drop i es)"
        "index_map (take i es @ new # drop i es) = (index_map es)(t \<mapsto> new)"
        using index_put [of "take i es" "[]" "drop i es" t new] before rest new_t assms(1) by auto
      ultimately show ?thesis using i(1) unfolding new_def [symmetric] t_def [symmetric]
        by (intro exI [of _ i] exI [of _ "take i es @ new # drop i es"]) (simp add: nth_append)
    qed
  qed
qed

text \<open>The check of the size lets through sizes that do not fit the bit-field: they become negative.\<close>

lemma large_sizes_wrap:
  "536870912 \<le> sz \<Longrightarrow> sz \<le> 1073741823 \<Longrightarrow> ie_size (stored_entry es pos ts sz distance flags) = sz - 1073741824"
proof -
  assume sz: "536870912 \<le> sz" "sz \<le> 1073741823"
  have "(sz + 536870912) mod 1073741824 = (sz - 536870912 + 1073741824) mod 1073741824" by (simp add: add.commute)
  also have "\<dots> = (sz - 536870912) mod 1073741824" by (rule mod_add_self2)
  also have "\<dots> = sz - 536870912" using sz by (intro mod_pos_pos_trivial) auto
  finally show ?thesis by (simp add: stored_entry_def s30_def)
qed

text \<open>On every failing path the index is unchanged.\<close>

lemma add_index_entry_failure:
  "ff_add_index_entry memory es pos ts sz distance flags = Some (r, es') \<Longrightarrow> r < 0 \<Longrightarrow> es' = es"
  by (auto simp: ff_add_index_entry_def Let_def split: if_splits option.splits)

section \<open>Reduction keeps every second entry\<close>

lemma reduce_loop_ok:
  "reduce_loop i xs = (k, ys) \<Longrightarrow> length xs = length es \<Longrightarrow> i \<le> (length es + 1) div 2 \<Longrightarrow>
     (\<forall>j<i. xs ! j = es ! (2 * j)) \<Longrightarrow> (\<forall>j. i \<le> j \<longrightarrow> j < length es \<longrightarrow> xs ! j = es ! j) \<Longrightarrow>
     k = (length es + 1) div 2 \<and> length ys = length es \<and> (\<forall>j<k. ys ! j = es ! (2 * j))"
proof (induction i xs arbitrary: k ys rule: reduce_loop.induct)
  case (1 i xs)
  show ?case
  proof (cases "2 * i < length xs")
    case True
    have "reduce_loop (i + 1) (xs[i := xs ! (2 * i)]) = (k, ys)"
      using "1.prems"(1) True by (subst (asm) reduce_loop.simps) simp
    moreover have "i + 1 \<le> (length es + 1) div 2" using True "1.prems"(2) by linarith
    moreover have "\<forall>j<i + 1. xs[i := xs ! (2 * i)] ! j = es ! (2 * j)"
      using "1.prems"(2,4,5) True by (auto simp: less_Suc_eq)
    moreover have "\<forall>j. i + 1 \<le> j \<longrightarrow> j < length es \<longrightarrow> xs[i := xs ! (2 * i)] ! j = es ! j"
      using "1.prems"(5) by auto
    ultimately show ?thesis using "1.IH" [OF True] "1.prems"(2) by simp
  next
    case False
    then have "(k, ys) = (i, xs)" using "1.prems"(1) by (subst (asm) reduce_loop.simps) simp
    moreover have "i = (length es + 1) div 2" using False "1.prems"(2,3) by linarith
    ultimately show ?thesis using "1.prems" by simp
  qed
qed

lemma reduce_index_ok:
  "ff_reduce_index mx es = (if int (length es) \<ge> mx div 24
     then map (\<lambda>i. es ! (2 * i)) [0..<(length es + 1) div 2] else es)"
proof (cases "int (length es) \<ge> mx div 24")
  case True
  obtain k ys where l: "reduce_loop 0 es = (k, ys)" by (metis surj_pair)
  from reduce_loop_ok [OF l, of es] have k: "k = (length es + 1) div 2" "length ys = length es"
    "\<forall>j<k. ys ! j = es ! (2 * j)" by auto
  have "take k ys = map (\<lambda>i. es ! (2 * i)) [0..<(length es + 1) div 2]"
    using k by (intro nth_equalityI) auto
  with True l show ?thesis by (simp add: ff_reduce_index_def)
next
  case False
  then show ?thesis by (simp add: ff_reduce_index_def)
qed

lemma reduce_index_sorted: "index_ok es \<Longrightarrow> index_ok (ff_reduce_index mx es)"
  unfolding reduce_index_ok index_ok_def
  by (auto simp: sorted_wrt_iff_nth_less)

section \<open>Properties\<close>

definition demo_index :: "index_entry list" where
  "demo_index = [\<lparr>ie_pos = 0, ie_timestamp = 0, ie_flags = 1, ie_size = 10, ie_min_distance = 0\<rparr>,
                 \<lparr>ie_pos = 10, ie_timestamp = 40, ie_flags = 2, ie_size = 10, ie_min_distance = 0\<rparr>,
                 \<lparr>ie_pos = 20, ie_timestamp = 80, ie_flags = 1, ie_size = 10, ie_min_distance = 0\<rparr>]"

lemma demo_index_ok: "index_ok demo_index"
  by (simp add: index_ok_def demo_index_def)

text \<open>
  Property C20: on a sorted index the bisection with its skipping of discarded frames returns, for
  every time stamp and all flags, exactly what a linear search finds: the first entry at or
  after the time stamp, or with \<open>AVSEEK_FLAG_BACKWARD\<close> the last entry at or before it, among the
  keyframes unless \<open>AVSEEK_FLAG_ANY\<close> is set, and -1 when there is none. It never reads
  outside the array and the discard flags have no influence on the result.
\<close>

theorem index_search_exact:
  assumes "index_ok es"
  shows "ff_index_search_timestamp es wanted flags = Some (index_search_spec es wanted flags)"
  using assms by (rule index_search_ok)

theorem index_search_exact_witness:
  "ff_index_search_timestamp demo_index 50 1 = Some 0 \<and> index_search_spec demo_index 50 1 = 0"
  using index_search_exact [OF demo_index_ok, of 50 1]
  by (simp add: index_search_spec_def demo_index_def has_flag_def usable_def AVSEEK_FLAG_BACKWARD_def
      AVSEEK_FLAG_ANY_def AVINDEX_KEYFRAME_def upt_rec)

text \<open>
  Property C21: inserting into a sorted index keeps it strictly sorted and refines the update of a
  map from time stamps to entries: the new entry replaces the one with its time stamp, all
  others stay, the returned position is the place of the new entry, and the minimum distance
  of an entry at the same file position is never reduced.
\<close>

theorem index_insert_refines_update:
  assumes "index_ok es" "int (length es) + 1 < 178956970" "ts \<noteq> AV_NOPTS_VALUE" "0 \<le> sz" "sz \<le> 1073741823"
  shows "\<exists>i es'. ff_add_index_entry True es pos ts sz distance flags = Some (int i, es') \<and> index_ok es' \<and>
    i < length es' \<and> es' ! i = stored_entry es pos ts sz distance flags \<and>
    index_map es' = (index_map es)(stored_ts ts \<mapsto> stored_entry es pos ts sz distance flags)"
  using assms by (rule add_index_entry_ok)

theorem index_insert_refines_update_witness:
  "\<exists>i es'. ff_add_index_entry True demo_index 15 60 5 0 1 = Some (int i, es') \<and> index_ok es' \<and>
    ie_pos (es' ! i) = 15"
  using index_insert_refines_update [OF demo_index_ok, of 60 5 15 0 1]
  by (auto simp: stored_entry_def demo_index_def)

end
