(* ===== verification/Streams.thy ===== *)
theory Streams
  imports Index Rescale "HOL-Library.Product_Lexorder"
begin

text \<open>
  The streams of a container, \<open>libavformat/avformat.c\<close>: which stream the extractor decodes
  (\<open>av_find_best_stream\<close>), which one a seek without a stream uses
  (\<open>av_find_default_stream_index\<close>), and the unwrapping of time stamps. Decoders are known only
  by \<open>ff_find_decoder\<close>, a parameter. A read outside the array of streams is \<open>None\<close>.
\<close>

section \<open>State of a stream\<close>

datatype AVMediaType = AVMEDIA_TYPE_UNKNOWN | AVMEDIA_TYPE_VIDEO | AVMEDIA_TYPE_AUDIO | AVMEDIA_TYPE_DATA
  | AVMEDIA_TYPE_SUBTITLE | AVMEDIA_TYPE_ATTACHMENT

definition AV_DISPOSITION_DEFAULT :: int where "AV_DISPOSITION_DEFAULT = 1"
definition AV_DISPOSITION_HEARING_IMPAIRED :: int where "AV_DISPOSITION_HEARING_IMPAIRED = 128"
definition AV_DISPOSITION_VISUAL_IMPAIRED :: int where "AV_DISPOSITION_VISUAL_IMPAIRED = 256"
definition AV_DISPOSITION_ATTACHED_PIC :: int where "AV_DISPOSITION_ATTACHED_PIC = 1024"
definition AVDISCARD_ALL :: int where "AVDISCARD_ALL = 48"
definition AV_PTS_WRAP_ADD_OFFSET :: int where "AV_PTS_WRAP_ADD_OFFSET = 1"
definition AV_PTS_WRAP_SUB_OFFSET :: int where "AV_PTS_WRAP_SUB_OFFSET = - 1"

definition AVERROR_DECODER_NOT_FOUND :: int where
  "AVERROR_DECODER_NOT_FOUND = - MKTAG 248 68 69 67"

definition AVERROR_STREAM_NOT_FOUND :: int where
  "AVERROR_STREAM_NOT_FOUND = - MKTAG 248 83 84 82"

text \<open>The fields of \<open>AVStream\<close>, \<open>FFStream\<close> and \<open>AVCodecParameters\<close> the modelled code uses.\<close>

record stream =
  codec_type :: AVMediaType
  codec_id :: int
  pic_width :: int
  pic_height :: int
  sample_rate :: int
  nb_channels :: int
  bit_rate :: int
  disposition :: int
  discard :: int
  time_base :: AVRational
  codec_info_nb_frames :: int
  index_entries :: "index_entry list option"
  cur_dts :: int
  first_dts :: int
  last_IP_pts :: int
  last_dts_for_order_check :: int
  probe_packets :: int
  pts_buffer :: "int list"
  skip_samples :: int
  parser_open :: bool
  pts_wrap_bits :: int
  pts_wrap_behavior :: int
  pts_wrap_reference :: int
  attached_pic_size :: int

definition ff_wrap_timestamp :: "stream \<Rightarrow> int \<Rightarrow> int" where
  "ff_wrap_timestamp st timestamp =
     (if pts_wrap_behavior st \<noteq> 0 \<and> pts_wrap_bits st < 64 \<and>
         pts_wrap_reference st \<noteq> AV_NOPTS_VALUE \<and> timestamp \<noteq> AV_NOPTS_VALUE
      then (if pts_wrap_behavior st = AV_PTS_WRAP_ADD_OFFSET \<and> timestamp < pts_wrap_reference st
            then i64 (timestamp + 2 ^ nat (pts_wrap_bits st))
            else if pts_wrap_behavior st = AV_PTS_WRAP_SUB_OFFSET \<and> timestamp \<ge> pts_wrap_reference st
            then i64 (timestamp - 2 ^ nat (pts_wrap_bits st))
            else timestamp)
      else timestamp)"

section \<open>Choosing a stream\<close>

text \<open>
  The programs are lists of stream indices; a pointer to a program is its place in the array.
\<close>

fun find_program :: "nat \<Rightarrow> int list list \<Rightarrow> nat option \<Rightarrow> int \<Rightarrow> nat option" where
  "find_program i [] skip_to s = None"
| "find_program i (p # ps) skip_to s =
     (if skip_to = Some i then find_program (Suc i) ps None s
      else if skip_to = None \<and> s \<in> set p then Some i
      else find_program (Suc i) ps skip_to s)"

definition av_find_program_from_stream :: "int list list \<Rightarrow> nat option \<Rightarrow> int \<Rightarrow> nat option" where
  "av_find_program_from_stream programs prev s = find_program 0 programs prev s"

record 'd best =
  b_ret :: int
  b_count :: int
  b_multiframe :: int
  b_disposition :: int
  b_bitrate :: int
  b_decoder :: "'d option"

text \<open>One round of the loop, from line 404 to line 433: whether the stream was taken, and the new best.\<close>

definition consider_stream :: "(stream \<Rightarrow> 'd option) \<Rightarrow> bool \<Rightarrow> AVMediaType \<Rightarrow> int \<Rightarrow> int \<Rightarrow> stream \<Rightarrow> 'd best \<Rightarrow>
    bool \<times> 'd best" where
  "consider_stream find_decoder decoder_ret type wanted rindex st b =
     (if codec_type st \<noteq> type then (False, b)
      else if wanted \<ge> 0 \<and> rindex \<noteq> wanted then (False, b)
      else if type = AVMEDIA_TYPE_AUDIO \<and> \<not> (nb_channels st \<noteq> 0 \<and> sample_rate st \<noteq> 0) then (False, b)
      else if decoder_ret \<and> find_decoder st = None then
        (False, if b_ret b < 0 then b\<lparr>b_ret := AVERROR_DECODER_NOT_FOUND\<rparr> else b)
      else
        let decoder = (if decoder_ret then find_decoder st else None);
            dispo = (if has_flag (disposition st) AV_DISPOSITION_HEARING_IMPAIRED \<or>
                        has_flag (disposition st) AV_DISPOSITION_VISUAL_IMPAIRED then 0 else 1)
                  + (if has_flag (disposition st) AV_DISPOSITION_DEFAULT then 1 else 0);
            count = codec_info_nb_frames st;
            bitrate = bit_rate st;
            multiframe = min 5 count
        in if b_disposition b > dispo \<or>
              (b_disposition b = dispo \<and> b_multiframe b > multiframe) \<or>
              (b_disposition b = dispo \<and> b_multiframe b = multiframe \<and> b_bitrate b > bitrate) \<or>
              (b_disposition b = dispo \<and> b_multiframe b = multiframe \<and> b_bitrate b = bitrate \<and> b_count b \<ge> count)
           then (False, b)
           else (True, b\<lparr>b_disposition := dispo, b_count := count, b_bitrate := bitrate,
                        b_multiframe := multiframe, b_ret := rindex, b_decoder := decoder\<rparr>))"

text \<open>The loop, with the restart of line 434 over all streams; its counter continues at 1.\<close>

function best_loop :: "(stream \<Rightarrow> 'd option) \<Rightarrow> bool \<Rightarrow> AVMediaType \<Rightarrow> int \<Rightarrow> stream list \<Rightarrow> int list option \<Rightarrow>
    int \<Rightarrow> int \<Rightarrow> 'd best \<Rightarrow> 'd best option" where
  "best_loop find_decoder decoder_ret type wanted streams program nb i b =
     (if i < nb then
        (case (case program of None \<Rightarrow> Some i | Some p \<Rightarrow> peek p i) of
           None \<Rightarrow> None
         | Some rindex \<Rightarrow>
             (case peek streams rindex of
                None \<Rightarrow> None
              | Some st \<Rightarrow>
                  let (taken, b') = consider_stream find_decoder decoder_ret type wanted rindex st b in
                  if taken \<and> program \<noteq> None \<and> i = nb - 1 \<and> b_ret b' < 0
                  then best_loop find_decoder decoder_ret type wanted streams None (int (length streams)) 1 b'
                  else best_loop find_decoder decoder_ret type wanted streams program nb (i + 1) b'))
      else Some b)"
  by pat_completeness auto
termination
  by (relation "measures [\<lambda>(f, d, t, w, ss, program, nb, i, b). if program = None then 0 else 1,
                          \<lambda>(f, d, t, w, ss, program, nb, i, b). nat (nb - i)]") auto

declare best_loop.simps [simp del]

definition no_best :: "'d best" where
  "no_best = \<lparr>b_ret = AVERROR_STREAM_NOT_FOUND, b_count = - 1, b_multiframe = - 1, b_disposition = - 1,
              b_bitrate = - 1, b_decoder = None\<rparr>"

definition av_find_best_stream :: "(stream \<Rightarrow> 'd option) \<Rightarrow> stream list \<Rightarrow> int list list \<Rightarrow> AVMediaType \<Rightarrow>
    int \<Rightarrow> int \<Rightarrow> bool \<Rightarrow> (int \<times> 'd option) option" where
  "av_find_best_stream find_decoder streams programs type wanted related decoder_ret =
     (let program = (if related \<ge> 0 \<and> wanted < 0
                     then map_option (\<lambda>k. programs ! k) (av_find_program_from_stream programs None related)
                     else None);
          nb = (case program of None \<Rightarrow> int (length streams) | Some p \<Rightarrow> int (length p))
      in case best_loop find_decoder decoder_ret type wanted streams program nb 0 no_best of
           None \<Rightarrow> None
         | Some b \<Rightarrow> Some (b_ret b, if decoder_ret then b_decoder b else None))"

definition stream_score :: "stream \<Rightarrow> int" where
  "stream_score st =
     (if codec_type st = AVMEDIA_TYPE_VIDEO
      then (if has_flag (disposition st) AV_DISPOSITION_ATTACHED_PIC then - 400 else 0)
         + (if pic_width st \<noteq> 0 \<and> pic_height st \<noteq> 0 then 50 else 0) + 25 else 0)
   + (if codec_type st = AVMEDIA_TYPE_AUDIO then (if sample_rate st \<noteq> 0 then 50 else 0) else 0)
   + (if codec_info_nb_frames st \<noteq> 0 then 12 else 0)
   + (if discard st \<noteq> AVDISCARD_ALL then 200 else 0)"

fun default_loop :: "nat \<Rightarrow> stream list \<Rightarrow> int \<Rightarrow> nat \<Rightarrow> nat" where
  "default_loop i [] best_score best_stream = best_stream"
| "default_loop i (st # sts) best_score best_stream =
     (if stream_score st > best_score then default_loop (Suc i) sts (stream_score st) i
      else default_loop (Suc i) sts best_score best_stream)"

definition av_find_default_stream_index :: "stream list \<Rightarrow> int" where
  "av_find_default_stream_index streams =
     (if streams = [] then - 1 else int (default_loop 0 streams INT_MIN 0))"

section \<open>The best stream\<close>

text \<open>The order of the heuristics, and the streams that take part.\<close>

definition stream_key :: "stream \<Rightarrow> int \<times> int \<times> int \<times> int" where
  "stream_key st =
     ((if has_flag (disposition st) AV_DISPOSITION_HEARING_IMPAIRED \<or>
          has_flag (disposition st) AV_DISPOSITION_VISUAL_IMPAIRED then 0 else 1)
      + (if has_flag (disposition st) AV_DISPOSITION_DEFAULT then 1 else 0),
      min 5 (codec_info_nb_frames st), bit_rate st, codec_info_nb_frames st)"

definition of_type :: "AVMediaType \<Rightarrow> int \<Rightarrow> stream list \<Rightarrow> nat \<Rightarrow> bool" where
  "of_type type wanted ss i \<longleftrightarrow> codec_type (ss ! i) = type \<and> (wanted < 0 \<or> int i = wanted) \<and>
     (type = AVMEDIA_TYPE_AUDIO \<longrightarrow> nb_channels (ss ! i) \<noteq> 0 \<and> sample_rate (ss ! i) \<noteq> 0)"

definition candidate :: "(stream \<Rightarrow> 'd option) \<Rightarrow> AVMediaType \<Rightarrow> int \<Rightarrow> stream list \<Rightarrow> nat \<Rightarrow> bool" where
  "candidate find_decoder type wanted ss i \<longleftrightarrow> of_type type wanted ss i \<and> find_decoder (ss ! i) \<noteq> None"

text \<open>What the best of the first \<open>k\<close> streams is.\<close>

definition best_of :: "(stream \<Rightarrow> 'd option) \<Rightarrow> AVMediaType \<Rightarrow> int \<Rightarrow> stream list \<Rightarrow> nat \<Rightarrow> int \<Rightarrow> 'd option \<Rightarrow> bool" where
  "best_of find_decoder type wanted ss k r decoder \<longleftrightarrow>
     (if \<exists>i<k. candidate find_decoder type wanted ss i
      then \<exists>i<k. r = int i \<and> candidate find_decoder type wanted ss i \<and> decoder = find_decoder (ss ! i) \<and>
           (\<forall>j<k. candidate find_decoder type wanted ss j \<longrightarrow>
              stream_key (ss ! j) \<le> stream_key (ss ! i) \<and> (j < i \<longrightarrow> stream_key (ss ! j) < stream_key (ss ! i)))
      else decoder = None \<and>
           r = (if \<exists>i<k. of_type type wanted ss i then AVERROR_DECODER_NOT_FOUND else AVERROR_STREAM_NOT_FOUND))"

definition best_key :: "'d best \<Rightarrow> int \<times> int \<times> int \<times> int" where
  "best_key b = (b_disposition b, b_multiframe b, b_bitrate b, b_count b)"

lemma lexicographic4:
  "(a > d \<or> (a = d \<and> b > e) \<or> (a = d \<and> b = e \<and> c > f) \<or> (a = d \<and> b = e \<and> c = f \<and> g \<ge> h)) \<longleftrightarrow>
     (d, e, f, h) \<le> (a, b, c, g)" for a b c d e f g h :: int
  by auto

lemma consider_stream_out:
  "\<not> of_type type wanted ss i \<Longrightarrow> snd (consider_stream f True type wanted (int i) (ss ! i) b) = b"
  by (auto simp: consider_stream_def of_type_def)

lemma consider_stream_no_decoder:
  "of_type type wanted ss i \<Longrightarrow> f (ss ! i) = None \<Longrightarrow>
     snd (consider_stream f True type wanted (int i) (ss ! i) b) =
       (if b_ret b < 0 then b\<lparr>b_ret := AVERROR_DECODER_NOT_FOUND\<rparr> else b)"
  by (auto simp: consider_stream_def of_type_def)

lemma consider_stream_candidate:
  assumes "candidate f type wanted ss i"
  shows "snd (consider_stream f True type wanted (int i) (ss ! i) b) =
     (if stream_key (ss ! i) \<le> best_key b then b
      else \<lparr>b_ret = int i, b_count = codec_info_nb_frames (ss ! i), b_multiframe = min 5 (codec_info_nb_frames (ss ! i)),
            b_disposition = fst (stream_key (ss ! i)), b_bitrate = bit_rate (ss ! i), b_decoder = f (ss ! i)\<rparr>)"
proof -
  have g: "(codec_type (ss ! i) \<noteq> type) = False" "(wanted \<ge> 0 \<and> int i \<noteq> wanted) = False"
    "(type = AVMEDIA_TYPE_AUDIO \<and> \<not> (nb_channels (ss ! i) \<noteq> 0 \<and> sample_rate (ss ! i) \<noteq> 0)) = False"
    "(True \<and> f (ss ! i) = None) = False"
    using assms by (auto simp: candidate_def of_type_def)
  show ?thesis
    unfolding consider_stream_def g if_False if_True Let_def lexicographic4
    unfolding stream_key_def best_key_def fst_conv by (cases b) (simp del: less_eq_prod_simp)
qed

lemma consider_stream_taken:
  assumes "candidate f type wanted ss i" "\<not> stream_key (ss ! i) \<le> best_key b"
    and "c = snd (consider_stream f True type wanted (int i) (ss ! i) b)"
  shows "b_ret c = int i" "b_decoder c = f (ss ! i)" "best_key c = stream_key (ss ! i)"
  unfolding assms(3) consider_stream_candidate [OF assms(1)] if_not_P [OF assms(2)]
  by (simp_all add: best_key_def stream_key_def)

text \<open>The state of the loop after \<open>k\<close> streams.\<close>

definition best_inv :: "(stream \<Rightarrow> 'd option) \<Rightarrow> AVMediaType \<Rightarrow> int \<Rightarrow> stream list \<Rightarrow> nat \<Rightarrow> 'd best \<Rightarrow> bool" where
  "best_inv f type wanted ss k b \<longleftrightarrow> best_of f type wanted ss k (b_ret b) (b_decoder b) \<and>
     best_key b = (if b_ret b < 0 then (- 1, - 1, - 1, - 1) else stream_key (ss ! nat (b_ret b)))"

lemma not_found_values: "AVERROR_DECODER_NOT_FOUND < 0" "AVERROR_STREAM_NOT_FOUND < 0"
  by (simp_all add: AVERROR_DECODER_NOT_FOUND_def AVERROR_STREAM_NOT_FOUND_def MKTAG_def)

lemma best_inv_step:
  assumes "best_inv f type wanted ss k b"
  shows "best_inv f type wanted ss (Suc k) (snd (consider_stream f True type wanted (int k) (ss ! k) b))"
proof (cases "candidate f type wanted ss k")
  case False
  then have same: "(\<exists>i<Suc k. candidate f type wanted ss i) \<longleftrightarrow> (\<exists>i<k. candidate f type wanted ss i)"
    "\<And>P. (\<forall>j<Suc k. candidate f type wanted ss j \<longrightarrow> P j) \<longleftrightarrow> (\<forall>j<k. candidate f type wanted ss j \<longrightarrow> P j)"
    by (auto simp: less_Suc_eq)
  have neg: "(\<exists>i<k. candidate f type wanted ss i) \<longleftrightarrow> \<not> b_ret b < 0"
    using assms not_found_values by (auto simp: best_inv_def best_of_def split: if_splits)
  consider (out) "\<not> of_type type wanted ss k" | (no) "of_type type wanted ss k" "f (ss ! k) = None"
    using False by (auto simp: candidate_def)
  then show ?thesis
  proof cases
    case out
    then have typed: "(\<exists>i<Suc k. of_type type wanted ss i) \<longleftrightarrow> (\<exists>i<k. of_type type wanted ss i)" by (auto simp: less_Suc_eq)
    have "best_of f type wanted ss (Suc k) r d \<longleftrightarrow> best_of f type wanted ss k r d" for r d
      unfolding best_of_def same typed using False by (auto simp: less_Suc_eq)
    with assms show ?thesis by (simp only: best_inv_def consider_stream_out [OF out])
  next
    case no
    then have typed: "(\<exists>i<Suc k. of_type type wanted ss i) \<longleftrightarrow> True" by blast
    note cs = consider_stream_no_decoder [where f = f and b = b, OF no]
    show ?thesis
    proof (cases "b_ret b < 0")
      case True
      have "best_of f type wanted ss (Suc k) AVERROR_DECODER_NOT_FOUND None"
      proof -
        have none: "\<not> (\<exists>i<k. candidate f type wanted ss i)" using True neg by simp
        show ?thesis unfolding best_of_def same if_not_P [OF none] typed by simp
      qed
      moreover have "b_decoder b = None" "best_key b = (- 1, - 1, - 1, - 1)"
        using True neg assms by (auto simp: best_inv_def best_of_def)
      ultimately show ?thesis unfolding cs if_P [OF True]
        using not_found_values by (simp add: best_inv_def best_key_def)
    next
      case f: False
      have "best_of f type wanted ss (Suc k) r d" if "best_of f type wanted ss k r d" for r d
        using that f neg False unfolding best_of_def same by (auto simp: less_Suc_eq)
      with assms show ?thesis unfolding cs if_not_P [OF f] by (simp add: best_inv_def)
    qed
  qed
next
  case True
  note cand = this
  have ex: "\<exists>i<Suc k. candidate f type wanted ss i" using True by blast
  show ?thesis
  proof (cases "b_ret b < 0")
    case neg: True
    then have none: "\<not> (\<exists>i<k. candidate f type wanted ss i)"
      using assms by (auto simp: best_inv_def best_of_def split: if_splits)
    have "best_key b = (- 1, - 1, - 1, - 1)" using assms neg by (simp add: best_inv_def)
    moreover have "0 \<le> fst (stream_key (ss ! k))" by (simp add: stream_key_def)
    ultimately have gt: "\<not> stream_key (ss ! k) \<le> best_key b" by (cases "stream_key (ss ! k)") auto
    define c where "c = snd (consider_stream f True type wanted (int k) (ss ! k) b)"
    note c = consider_stream_taken [OF cand gt c_def]
    have "best_of f type wanted ss (Suc k) (int k) (f (ss ! k))"
      unfolding best_of_def using ex True none by (auto simp: less_Suc_eq)
    with c show ?thesis unfolding c_def [symmetric] by (simp add: best_inv_def)
  next
    case pos: False
    then have "\<exists>i<k. candidate f type wanted ss i"
      using assms not_found_values by (auto simp: best_inv_def best_of_def split: if_splits)
    with assms obtain i where i: "i < k" "b_ret b = int i" "candidate f type wanted ss i" "b_decoder b = f (ss ! i)"
      "\<forall>j<k. candidate f type wanted ss j \<longrightarrow>
              stream_key (ss ! j) \<le> stream_key (ss ! i) \<and> (j < i \<longrightarrow> stream_key (ss ! j) < stream_key (ss ! i))"
      "best_key b = stream_key (ss ! i)"
      by (auto simp: best_inv_def best_of_def)
    show ?thesis
    proof (cases "stream_key (ss ! k) \<le> stream_key (ss ! i)")
      case True
      then have "snd (consider_stream f True type wanted (int k) (ss ! k) b) = b"
        using i(6) by (simp add: consider_stream_candidate [OF cand])
      moreover have "best_of f type wanted ss (Suc k) (int i) (f (ss ! i))"
        unfolding best_of_def using ex i(1,3,5) True by (auto simp: less_Suc_eq)
      ultimately show ?thesis using i by (simp add: best_inv_def)
    next
      case False
      define c where "c = snd (consider_stream f True type wanted (int k) (ss ! k) b)"
      have "\<not> stream_key (ss ! k) \<le> best_key b" using i(6) False by simp
      note c = consider_stream_taken [OF cand this c_def]
      have "stream_key (ss ! j) < stream_key (ss ! k)" if "j < k" "candidate f type wanted ss j" for j
        using i(5) that False by (meson le_less_trans not_le)
      then have "best_of f type wanted ss (Suc k) (int k) (f (ss ! k))"
        unfolding best_of_def using ex True by (auto simp: less_Suc_eq intro: less_imp_le)
      with c show ?thesis unfolding c_def [symmetric] by (simp add: best_inv_def)
    qed
  qed
qed

lemma best_loop_inv:
  assumes "best_inv f type wanted ss k b" "k \<le> length ss"
  shows "\<exists>c. best_loop f True type wanted ss None (int (length ss)) (int k) b = Some c \<and>
    best_inv f type wanted ss (length ss) c"
  using assms
proof (induction "length ss - k" arbitrary: k b)
  case 0
  then have "k = length ss" by simp
  with 0 show ?case by (subst best_loop.simps) simp
next
  case (Suc n)
  then have k: "k < length ss" "n = length ss - Suc k" by simp_all
  obtain t c where c: "consider_stream f True type wanted (int k) (ss ! k) b = (t, c)" by (metis surj_pair)
  have "best_inv f type wanted ss (Suc k) c" using best_inv_step [OF Suc.prems(1)] c by simp
  from Suc.hyps(1) [OF k(2) this] k have "\<exists>d. best_loop f True type wanted ss None (int (length ss)) (int (Suc k)) c = Some d \<and>
    best_inv f type wanted ss (length ss) d" by simp
  with k c show ?case by (subst best_loop.simps) (simp add: add.commute)
qed

lemma best_stream_ok:
  assumes "related < 0 \<or> wanted \<ge> 0"
  shows "\<exists>r decoder. av_find_best_stream f ss programs type wanted related True = Some (r, decoder) \<and>
    best_of f type wanted ss (length ss) r decoder"
proof -
  have "best_inv f type wanted ss 0 no_best"
    using not_found_values by (simp add: best_inv_def best_of_def no_best_def best_key_def)
  from best_loop_inv [OF this] obtain c where
    "best_loop f True type wanted ss None (int (length ss)) 0 no_best = Some c" "best_inv f type wanted ss (length ss) c"
    by auto
  moreover have "\<not> (related \<ge> 0 \<and> wanted < 0)" using assms by auto
  ultimately show ?thesis unfolding av_find_best_stream_def if_not_P [OF \<open>\<not> (related \<ge> 0 \<and> wanted < 0)\<close>]
    by (simp add: best_inv_def)
qed

section \<open>Properties\<close>

text \<open>Witness data: an audio stream, a cover picture and two videos, of which the last has more frames.\<close>

definition demo_stream :: stream where
  "demo_stream =
     \<lparr>codec_type = AVMEDIA_TYPE_VIDEO, codec_id = 1, pic_width = 320, pic_height = 240, sample_rate = 0,
      nb_channels = 0, bit_rate = 1000, disposition = 0, discard = 0, time_base = \<lparr>num = 1, den = 1000\<rparr>,
      codec_info_nb_frames = 1, index_entries = None, cur_dts = 0, first_dts = 0, last_IP_pts = 0,
      last_dts_for_order_check = 0, probe_packets = 0, pts_buffer = replicate 17 0, skip_samples = 0,
      parser_open = False, pts_wrap_bits = 33, pts_wrap_behavior = 0, pts_wrap_reference = 0, attached_pic_size = 0\<rparr>"

definition demo_audio :: stream where
  "demo_audio = demo_stream\<lparr>codec_type := AVMEDIA_TYPE_AUDIO, sample_rate := 44100, nb_channels := 2\<rparr>"

definition demo_streams :: "stream list" where
  "demo_streams = [demo_audio, demo_stream\<lparr>codec_id := 7\<rparr>, demo_stream, demo_stream\<lparr>codec_info_nb_frames := 9\<rparr>]"

lemma demo_length: "length demo_streams = 4"
  by (simp add: demo_streams_def)

text \<open>Witness decoders: one for each codec but number 7.\<close>

definition demo_decoder :: "stream \<Rightarrow> int option" where
  "demo_decoder st = (if codec_id st = 7 then None else Some (codec_id st))"

text \<open>
  Property C22: without a related stream \<open>av_find_best_stream\<close> returns the first of the best streams
  of the wanted type that have a decoder, together with this decoder: no other is greater in
  the lexicographic order of accessibility and default disposition, frames seen up to five, bit
  rate and frames seen, and no earlier one is equal. Without such a stream it returns
  \<open>AVERROR_DECODER_NOT_FOUND\<close> when there is one of the type, else \<open>AVERROR_STREAM_NOT_FOUND\<close>.
  It never reads outside the array of streams.
\<close>

theorem best_stream_is_best:
  assumes "related < 0 \<or> wanted \<ge> 0"
  shows "\<exists>r decoder. av_find_best_stream find_decoder ss programs type wanted related True = Some (r, decoder) \<and>
    best_of find_decoder type wanted ss (length ss) r decoder"
  using assms by (rule best_stream_ok)

theorem best_stream_is_best_witness:
  "\<exists>r decoder. av_find_best_stream demo_decoder demo_streams [] AVMEDIA_TYPE_VIDEO (- 1) (- 1) True = Some (r, decoder) \<and>
     best_of demo_decoder AVMEDIA_TYPE_VIDEO (- 1) demo_streams 4 r decoder"
  using best_stream_is_best [of "- 1" "- 1" demo_decoder demo_streams "[]" AVMEDIA_TYPE_VIDEO]
  unfolding demo_length by simp

text \<open>
  The restart over all streams after an unsuccessful search in the program of the related stream
  is never taken: it is tested only after \<open>ret\<close> has become the index of a stream. So a search
  related to a stream whose program has no video fails although the container has one.
\<close>

lemma related_search_never_falls_back:
  "av_find_best_stream demo_decoder demo_streams [[0]] AVMEDIA_TYPE_VIDEO (- 1) 0 True =
     Some (AVERROR_STREAM_NOT_FOUND, None)"
proof -
  have "best_loop demo_decoder True AVMEDIA_TYPE_VIDEO (- 1) demo_streams (Some [0]) 1 0 no_best =
      best_loop demo_decoder True AVMEDIA_TYPE_VIDEO (- 1) demo_streams (Some [0]) 1 1 no_best"
  proof -
    have "codec_type demo_audio \<noteq> AVMEDIA_TYPE_VIDEO" by (simp add: demo_audio_def)
    then have "consider_stream demo_decoder True AVMEDIA_TYPE_VIDEO (- 1) 0 demo_audio no_best = (False, no_best)"
      by (simp add: consider_stream_def)
    moreover have "peek demo_streams 0 = Some demo_audio" by (simp add: demo_streams_def)
    ultimately show ?thesis by (subst best_loop.simps) simp
  qed
  also have "\<dots> = Some no_best" by (subst best_loop.simps) simp
  finally show ?thesis
    by (simp add: av_find_best_stream_def av_find_program_from_stream_def no_best_def)
qed

end
