(* ===== verification/Seek.thy ===== *)
theory Seek
  imports Streams Avio
begin

text \<open>
  Seeking, \<open>libavformat/seek.c\<close>: from \<open>av_seek_frame\<close>, which the extractor calls, down to the
  search for a file position by time stamps and the seek of the buffered reader. The demuxer is
  known by its callbacks, the record \<open>iformat\<close>; the I/O context is that of \<open>Avio\<close>. Functions
  with loops over callbacks take fuel; \<open>None\<close> is a failed assertion, a read outside an array, or
  missing fuel.
\<close>

section \<open>State\<close>

record packet =
  pkt_stream :: int
  pkt_dts :: int
  pkt_key :: bool

record 'p fmt =
  streams :: "stream list"
  pb :: "'p avio"
  data_offset :: int
  io_repositioned :: bool
  max_probe_packets :: int
  seek2any :: int
  parse_queue :: "packet list"
  packet_buffer :: "packet list"
  raw_packet_buffer :: "packet list"

text \<open>
  The callbacks of \<open>FFInputFormat\<close>, \<open>None\<close> for \<open>NULL\<close>, the flags that restrict seeking, and
  \<open>av_read_frame\<close>. \<open>rd_timestamp\<close> gets the stream, the position and its limit and returns the
  time stamp and the new position.
\<close>

record 'p iformat =
  no_byte_seek :: bool
  no_binsearch :: bool
  no_gensearch :: bool
  rd_seek :: "('p fmt \<Rightarrow> int \<Rightarrow> int \<Rightarrow> int \<Rightarrow> int \<times> 'p fmt) option"
  rd_seek2 :: "('p fmt \<Rightarrow> int \<Rightarrow> int \<Rightarrow> int \<Rightarrow> int \<Rightarrow> int \<Rightarrow> int \<times> 'p fmt) option"
  rd_timestamp :: "('p fmt \<Rightarrow> int \<Rightarrow> int \<Rightarrow> int \<Rightarrow> int \<times> int \<times> 'p fmt) option"
  rd_frame :: "'p fmt \<Rightarrow> int \<times> packet \<times> 'p fmt"

definition AV_TIME_BASE :: int where "AV_TIME_BASE = 1000000"
definition MAX_REORDER_DELAY :: nat where "MAX_REORDER_DELAY = 16"
definition AV_CODEC_ID_CDGRAPHICS :: int where "AV_CODEC_ID_CDGRAPHICS = 132"

definition pb_seek :: "'p source \<Rightarrow> 'p fmt \<Rightarrow> int \<Rightarrow> (int \<times> 'p fmt) option" where
  "pb_seek src s offset =
     map_option (\<lambda>(r, io). (r, s\<lparr>pb := io\<rparr>))
       (avio_seek 2 (nat (\<bar>offset\<bar> + \<bar>avio_tell (pb s)\<bar>) + 1) src (pb s) offset SEEK_SET)"

section \<open>Bookkeeping of the streams\<close>

definition avpriv_update_cur_dts :: "'p fmt \<Rightarrow> stream \<Rightarrow> int \<Rightarrow> 'p fmt" where
  "avpriv_update_cur_dts s ref timestamp =
     s\<lparr>streams := List.map (\<lambda>st. st\<lparr>cur_dts :=
         av_rescale timestamp (den (time_base st) * num (time_base ref))
           (num (time_base st) * den (time_base ref))\<rparr>) (streams s)\<rparr>"

definition ff_flush_packet_queue :: "'p fmt \<Rightarrow> 'p fmt" where
  "ff_flush_packet_queue s = s\<lparr>parse_queue := [], packet_buffer := [], raw_packet_buffer := []\<rparr>"

definition flush_stream :: "int \<Rightarrow> stream \<Rightarrow> stream" where
  "flush_stream probe st = st\<lparr>parser_open := False, last_IP_pts := AV_NOPTS_VALUE,
     last_dts_for_order_check := AV_NOPTS_VALUE,
     cur_dts := (if first_dts st = AV_NOPTS_VALUE then RELATIVE_TS_BASE else AV_NOPTS_VALUE),
     probe_packets := probe, pts_buffer := replicate (MAX_REORDER_DELAY + 1) AV_NOPTS_VALUE, skip_samples := 0\<rparr>"

definition ff_read_frame_flush :: "'p fmt \<Rightarrow> 'p fmt" where
  "ff_read_frame_flush s =
     (let s = ff_flush_packet_queue s in s\<lparr>streams := List.map (flush_stream (max_probe_packets s)) (streams s)\<rparr>)"

text \<open>\<open>memory i\<close> says whether the packet of stream \<open>i\<close> can be queued.\<close>

fun queue_pictures :: "(nat \<Rightarrow> bool) \<Rightarrow> nat \<Rightarrow> stream list \<Rightarrow> 'p fmt \<Rightarrow> int \<times> 'p fmt" where
  "queue_pictures memory i [] s = (0, s)"
| "queue_pictures memory i (st # sts) s =
     (if has_flag (disposition st) AV_DISPOSITION_ATTACHED_PIC \<and> discard st < AVDISCARD_ALL then
        (if attached_pic_size st \<le> 0 then queue_pictures memory (Suc i) sts s
         else if \<not> memory i then (AVERROR_ENOMEM, s)
         else queue_pictures memory (Suc i) sts
                (s\<lparr>raw_packet_buffer := raw_packet_buffer s @ [\<lparr>pkt_stream = int i, pkt_dts = AV_NOPTS_VALUE, pkt_key = True\<rparr>]\<rparr>))
      else queue_pictures memory (Suc i) sts s)"

definition avformat_queue_attached_pictures :: "(nat \<Rightarrow> bool) \<Rightarrow> 'p fmt \<Rightarrow> int \<times> 'p fmt" where
  "avformat_queue_attached_pictures memory s = queue_pictures memory 0 (streams s) s"

definition av_add_index_entry :: "bool \<Rightarrow> stream \<Rightarrow> int \<Rightarrow> int \<Rightarrow> int \<Rightarrow> int \<Rightarrow> int \<Rightarrow> (int \<times> stream) option" where
  "av_add_index_entry memory st pos timestamp sz distance flags =
     (case ff_add_index_entry memory (case index_entries st of None \<Rightarrow> [] | Some es \<Rightarrow> es) pos
             (ff_wrap_timestamp st timestamp) sz distance flags of
        None \<Rightarrow> None
      | Some (r, es) \<Rightarrow> Some (r, if r < 0 \<and> index_entries st = None then st else st\<lparr>index_entries := Some es\<rparr>))"

definition entries_of :: "stream \<Rightarrow> index_entry list" where
  "entries_of st = (case index_entries st of None \<Rightarrow> [] | Some es \<Rightarrow> es)"

definition av_index_search_timestamp :: "stream \<Rightarrow> int \<Rightarrow> int \<Rightarrow> int option" where
  "av_index_search_timestamp st wanted flags = ff_index_search_timestamp (entries_of st) wanted flags"

section \<open>Searching by time stamps\<close>

type_synonym 'p ts_reader = "'p fmt \<Rightarrow> int \<Rightarrow> int \<Rightarrow> int \<Rightarrow> int \<times> int \<times> 'p fmt"

definition read_timestamp :: "'p ts_reader \<Rightarrow> 'p fmt \<Rightarrow> int \<Rightarrow> int \<Rightarrow> int \<Rightarrow> (int \<times> int \<times> 'p fmt) option" where
  "read_timestamp rd s stream_index pos pos_limit =
     (case rd s stream_index pos pos_limit of
        (ts, pos, s) \<Rightarrow>
          if stream_index \<ge> 0
          then map_option (\<lambda>st. (ff_wrap_timestamp st ts, pos, s)) (peek (streams s) stream_index)
          else Some (ts, pos, s))"

text \<open>Lines 367 to 373: steps backwards from the end of the file, each twice as long.\<close>

fun last_ts_back :: "nat \<Rightarrow> 'p ts_reader \<Rightarrow> 'p fmt \<Rightarrow> int \<Rightarrow> int \<Rightarrow> int \<Rightarrow> (int \<times> int \<times> 'p fmt) option" where
  "last_ts_back 0 rd s stream_index pos_max step = None"
| "last_ts_back (Suc fuel) rd s stream_index pos_max step =
     (let limit = pos_max; pos_max = max 0 (pos_max - step) in
      case read_timestamp rd s stream_index pos_max limit of
        None \<Rightarrow> None
      | Some (ts_max, pos_max, s) \<Rightarrow>
          let step = step + step in
          if ts_max = AV_NOPTS_VALUE \<and> 2 * limit > step
          then last_ts_back fuel rd s stream_index pos_max step
          else Some (ts_max, pos_max, s))"

text \<open>Lines 377 to 388: from packet to packet to the end.\<close>

fun last_ts_forward :: "nat \<Rightarrow> 'p ts_reader \<Rightarrow> 'p fmt \<Rightarrow> int \<Rightarrow> int \<Rightarrow> int \<Rightarrow> int \<Rightarrow> (int \<times> int \<times> 'p fmt) option" where
  "last_ts_forward 0 rd s stream_index filesize ts_max pos_max = None"
| "last_ts_forward (Suc fuel) rd s stream_index filesize ts_max pos_max =
     (case read_timestamp rd s stream_index (pos_max + 1) INT64_MAX of
        None \<Rightarrow> None
      | Some (tmp_ts, tmp_pos, s) \<Rightarrow>
          if tmp_ts = AV_NOPTS_VALUE then Some (ts_max, pos_max, s)
          else if \<not> tmp_pos > pos_max then None
          else if tmp_pos \<ge> filesize then Some (tmp_ts, tmp_pos, s)
          else last_ts_forward fuel rd s stream_index filesize tmp_ts tmp_pos)"

text \<open>The return value, the time stamp and the position.\<close>

definition ff_find_last_ts :: "nat \<Rightarrow> 'p source \<Rightarrow> 'p ts_reader \<Rightarrow> 'p fmt \<Rightarrow> int \<Rightarrow> (int \<times> int \<times> int \<times> 'p fmt) option" where
  "ff_find_last_ts fuel src rd s stream_index =
     (case avio_size src (pb s) of
        (filesize, io) \<Rightarrow>
          (case last_ts_back fuel rd (s\<lparr>pb := io\<rparr>) stream_index (filesize - 1) 1024 of
             None \<Rightarrow> None
           | Some (ts_max, pos_max, s) \<Rightarrow>
               if ts_max = AV_NOPTS_VALUE then Some (- 1, ts_max, pos_max, s)
               else
                 (case last_ts_forward fuel rd s stream_index filesize ts_max pos_max of
                    None \<Rightarrow> None
                  | Some (ts_max, pos_max, s) \<Rightarrow> Some (0, ts_max, pos_max, s))))"

text \<open>The next position to try, lines 445 to 463.\<close>

definition guess_pos :: "int \<Rightarrow> int \<Rightarrow> int \<Rightarrow> int \<Rightarrow> int \<Rightarrow> int \<Rightarrow> int \<Rightarrow> int" where
  "guess_pos target_ts pos_min pos_max pos_limit ts_min ts_max no_change =
     (let pos = (if no_change = 0 then
                   av_rescale (target_ts - ts_min) (pos_max - pos_min) (ts_max - ts_min)
                     + pos_min - (pos_max - pos_limit)
                 else if no_change = 1 then (pos_min + pos_limit) div 2
                 else pos_min)
      in if pos \<le> pos_min then pos_min + 1 else if pos > pos_limit then pos_limit else pos)"

text \<open>The loop ends with the four bounds, or with \<open>None\<close> for the error return of line 478.\<close>

fun gen_loop :: "nat \<Rightarrow> 'p ts_reader \<Rightarrow> 'p fmt \<Rightarrow> int \<Rightarrow> int \<Rightarrow> int \<Rightarrow> int \<Rightarrow> int \<Rightarrow> int \<Rightarrow> int \<Rightarrow> int \<Rightarrow>
    ((int \<times> int \<times> int \<times> int) option \<times> 'p fmt) option" where
  "gen_loop 0 rd s stream_index target_ts pos_min pos_max pos_limit ts_min ts_max no_change = None"
| "gen_loop (Suc fuel) rd s stream_index target_ts pos_min pos_max pos_limit ts_min ts_max no_change =
     (if pos_min < pos_limit then
        (if \<not> pos_limit \<le> pos_max then None
         else
           let start_pos = guess_pos target_ts pos_min pos_max pos_limit ts_min ts_max no_change in
           case read_timestamp rd s stream_index start_pos INT64_MAX of
             None \<Rightarrow> None
           | Some (ts, pos, s) \<Rightarrow>
               let no_change = (if pos = pos_max then no_change + 1 else 0) in
               if ts = AV_NOPTS_VALUE then Some (None, s)
               else gen_loop fuel rd s stream_index target_ts
                      (if target_ts \<ge> ts then pos else pos_min)
                      (if target_ts \<le> ts then pos else pos_max)
                      (if target_ts \<le> ts then start_pos - 1 else pos_limit)
                      (if target_ts \<ge> ts then ts else ts_min)
                      (if target_ts \<le> ts then ts else ts_max) no_change)
      else Some (Some (pos_min, pos_max, ts_min, ts_max), s))"

text \<open>The return value and \<open>*ts_ret\<close>, which stays as it is (\<open>ts0\<close>) when the search fails.\<close>

definition ff_gen_search :: "nat \<Rightarrow> 'p source \<Rightarrow> 'p ts_reader \<Rightarrow> 'p fmt \<Rightarrow> int \<Rightarrow> int \<Rightarrow> int \<Rightarrow> int \<Rightarrow> int \<Rightarrow> int \<Rightarrow> int \<Rightarrow>
    int \<Rightarrow> int \<Rightarrow> (int \<times> int \<times> 'p fmt) option" where
  "ff_gen_search fuel src rd s stream_index target_ts pos_min pos_max pos_limit ts_min ts_max flags ts0 =
     (case (if ts_min = AV_NOPTS_VALUE then read_timestamp rd s stream_index (data_offset s) INT64_MAX
            else Some (ts_min, pos_min, s)) of
        None \<Rightarrow> None
      | Some (ts_min, pos_min, s) \<Rightarrow>
          if ts_min = AV_NOPTS_VALUE then Some (- 1, ts0, s)
          else if ts_min \<ge> target_ts then Some (pos_min, ts_min, s)
          else
            (case (if ts_max = AV_NOPTS_VALUE
                   then map_option (\<lambda>(ret, ts, pos, s). (ret, ts, pos, pos, s)) (ff_find_last_ts fuel src rd s stream_index)
                   else Some (0, ts_max, pos_max, pos_limit, s)) of
               None \<Rightarrow> None
             | Some (ret, ts_max, pos_max, pos_limit, s) \<Rightarrow>
                 if ret < 0 then Some (ret, ts0, s)
                 else if ts_max \<le> target_ts then Some (pos_max, ts_max, s)
                 else if \<not> ts_min < ts_max then None
                 else
                   (case gen_loop fuel rd s stream_index target_ts pos_min pos_max pos_limit ts_min ts_max 0 of
                      None \<Rightarrow> None
                    | Some (None, s) \<Rightarrow> Some (- 1, ts0, s)
                    | Some (Some (pos_min, pos_max, ts_min, ts_max), s) \<Rightarrow>
                        if has_flag flags AVSEEK_FLAG_BACKWARD then Some (pos_min, ts_min, s)
                        else Some (pos_max, ts_max, s))))"

section \<open>Seeking\<close>

text \<open>The bounds that the index gives, lines 312 to 343: \<open>pos_min\<close>, \<open>ts_min\<close>, \<open>pos_max\<close>, \<open>ts_max\<close>, \<open>pos_limit\<close>.\<close>

definition cached_bounds :: "stream \<Rightarrow> int \<Rightarrow> int \<Rightarrow> (int \<times> int \<times> int \<times> int \<times> int) option" where
  "cached_bounds st target_ts flags =
     (case index_entries st of
        None \<Rightarrow> Some (0, AV_NOPTS_VALUE, 0, AV_NOPTS_VALUE, - 1)
      | Some es \<Rightarrow>
          (case av_index_search_timestamp st target_ts (set_flag flags AVSEEK_FLAG_BACKWARD) of
             None \<Rightarrow> None
           | Some index \<Rightarrow>
               (case peek es (max index 0) of
                  None \<Rightarrow> None
                | Some e \<Rightarrow>
                    let (pos_min, ts_min) =
                      (if ie_timestamp e \<le> target_ts \<or> ie_pos e = ie_min_distance e
                       then (ie_pos e, ie_timestamp e) else (0, AV_NOPTS_VALUE))
                    in
                    (case av_index_search_timestamp st target_ts (clear_flag flags AVSEEK_FLAG_BACKWARD) of
                       None \<Rightarrow> None
                     | Some index \<Rightarrow>
                         if \<not> index < int (length es) then None
                         else if index \<ge> 0 then
                           map_option (\<lambda>e. (pos_min, ts_min, ie_pos e, ie_timestamp e, ie_pos e - ie_min_distance e))
                             (peek es index)
                         else Some (pos_min, ts_min, 0, AV_NOPTS_VALUE, - 1)))))"

definition ff_seek_frame_binary :: "nat \<Rightarrow> 'p source \<Rightarrow> 'p iformat \<Rightarrow> 'p fmt \<Rightarrow> int \<Rightarrow> int \<Rightarrow> int \<Rightarrow> (int \<times> 'p fmt) option" where
  "ff_seek_frame_binary fuel src fm s stream_index target_ts flags =
     (if stream_index < 0 then Some (- 1, s)
      else
        case peek (streams s) stream_index of
          None \<Rightarrow> None
        | Some st \<Rightarrow>
            (case cached_bounds st target_ts flags of
               None \<Rightarrow> None
             | Some (pos_min, ts_min, pos_max, ts_max, pos_limit) \<Rightarrow>
                 (case rd_timestamp fm of
                    None \<Rightarrow> None
                  | Some rd \<Rightarrow>
                      (case ff_gen_search fuel src rd s stream_index target_ts pos_min pos_max pos_limit
                              ts_min ts_max flags 0 of
                         None \<Rightarrow> None
                       | Some (pos, ts, s) \<Rightarrow>
                           if pos < 0 then Some (- 1, s)
                           else
                             (case pb_seek src s pos of
                                None \<Rightarrow> None
                              | Some (ret, s) \<Rightarrow>
                                  if ret < 0 then Some (ret, s)
                                  else
                                    let s = ff_read_frame_flush s in
                                    map_option (\<lambda>st. (0, avpriv_update_cur_dts s st ts))
                                      (peek (streams s) stream_index))))))"

definition seek_frame_byte :: "'p source \<Rightarrow> 'p fmt \<Rightarrow> int \<Rightarrow> (int \<times> 'p fmt) option" where
  "seek_frame_byte src s pos =
     (case avio_size src (pb s) of
        (filesize, io) \<Rightarrow>
          let s = s\<lparr>pb := io\<rparr>; pos_min = data_offset s; pos_max = filesize - 1;
              pos = (if pos < pos_min then pos_min else if pos > pos_max then pos_max else pos)
          in map_option (\<lambda>(_, s). (0, s\<lparr>io_repositioned := True\<rparr>)) (pb_seek src s pos))"

text \<open>Lines 559 to 578: packets are read, and so indexed, up to a keyframe after the target.\<close>

fun scan_packets :: "nat \<Rightarrow> 'p iformat \<Rightarrow> 'p fmt \<Rightarrow> int \<Rightarrow> int \<Rightarrow> bool \<Rightarrow> int \<Rightarrow> 'p fmt option" where
  "scan_packets 0 fm s stream_index timestamp cdgraphics nonkey = None"
| "scan_packets (Suc fuel) fm s stream_index timestamp cdgraphics nonkey =
     (case rd_frame fm s of
        (read_status, pkt, s) \<Rightarrow>
          if read_status = AVERROR_EAGAIN then scan_packets fuel fm s stream_index timestamp cdgraphics nonkey
          else if read_status < 0 then Some s
          else if stream_index = pkt_stream pkt \<and> pkt_dts pkt > timestamp then
            (if pkt_key pkt then Some s
             else if nonkey > 1000 \<and> \<not> cdgraphics then Some s
             else scan_packets fuel fm s stream_index timestamp cdgraphics (nonkey + 1))
          else scan_packets fuel fm s stream_index timestamp cdgraphics nonkey)"

text \<open>Lines 546 to 557: where the scan starts, the last entry of the index or the data.\<close>

definition start_scan :: "'p source \<Rightarrow> 'p fmt \<Rightarrow> stream \<Rightarrow> (int \<times> 'p fmt) option" where
  "start_scan src s st =
     (case entries_of st of
        [] \<Rightarrow> (case pb_seek src s (data_offset s) of
                 None \<Rightarrow> None
               | Some (ret, s) \<Rightarrow> Some (ret, if ret < 0 then s else s\<lparr>io_repositioned := True\<rparr>))
      | e # es \<Rightarrow>
          (let ie = List.last (e # es) in
           case pb_seek src s (ie_pos ie) of
             None \<Rightarrow> None
           | Some (ret, s) \<Rightarrow>
               Some (ret, if ret < 0 then s
                          else avpriv_update_cur_dts (s\<lparr>io_repositioned := True\<rparr>) st (ie_timestamp ie))))"

text \<open>Lines 581 to 594: the seek to an entry of the index.\<close>

definition seek_to_entry :: "'p source \<Rightarrow> 'p iformat \<Rightarrow> 'p fmt \<Rightarrow> int \<Rightarrow> int \<Rightarrow> int \<Rightarrow> int \<Rightarrow> (int \<times> 'p fmt) option" where
  "seek_to_entry src fm s stream_index timestamp flags index =
     (if index < 0 then Some (- 1, s)
      else
        let s = ff_read_frame_flush s;
            (handled, s) = (case rd_seek fm of
                           None \<Rightarrow> (False, s)
                         | Some f \<Rightarrow> (case f s stream_index timestamp flags of (r, s) \<Rightarrow> (r \<ge> 0, s)))
        in
        if handled then Some (0, s)
        else
          (case peek (streams s) stream_index of
             None \<Rightarrow> None
           | Some st \<Rightarrow>
               (case peek (entries_of st) index of
                  None \<Rightarrow> None
                | Some ie \<Rightarrow>
                    (case pb_seek src s (ie_pos ie) of
                       None \<Rightarrow> None
                     | Some (ret, s) \<Rightarrow>
                         if ret < 0 then Some (ret, s)
                         else Some (0, avpriv_update_cur_dts (s\<lparr>io_repositioned := True\<rparr>) st (ie_timestamp ie))))))"

definition seek_frame_generic :: "nat \<Rightarrow> 'p source \<Rightarrow> 'p iformat \<Rightarrow> 'p fmt \<Rightarrow> int \<Rightarrow> int \<Rightarrow> int \<Rightarrow> (int \<times> 'p fmt) option" where
  "seek_frame_generic fuel src fm s stream_index timestamp flags =
     (case peek (streams s) stream_index of
        None \<Rightarrow> None
      | Some st \<Rightarrow>
          (case av_index_search_timestamp st timestamp flags of
             None \<Rightarrow> None
           | Some index \<Rightarrow>
               let es = entries_of st in
               if index < 0 \<and> es \<noteq> [] \<and> timestamp < ie_timestamp (hd es) then Some (- 1, s)
               else if index < 0 \<or> index = int (length es) - 1 then
                 (case start_scan src s st of
                    None \<Rightarrow> None
                  | Some (ret, s) \<Rightarrow>
                      if ret < 0 then Some (ret, s)
                      else
                        (case scan_packets fuel fm s stream_index timestamp
                                (codec_id st = AV_CODEC_ID_CDGRAPHICS) 0 of
                           None \<Rightarrow> None
                         | Some s \<Rightarrow>
                             (case peek (streams s) stream_index of
                                None \<Rightarrow> None
                              | Some st \<Rightarrow>
                                  (case av_index_search_timestamp st timestamp flags of
                                     None \<Rightarrow> None
                                   | Some index \<Rightarrow> seek_to_entry src fm s stream_index timestamp flags index))))
               else seek_to_entry src fm s stream_index timestamp flags index))"

definition seek_frame_internal :: "nat \<Rightarrow> 'p source \<Rightarrow> 'p iformat \<Rightarrow> 'p fmt \<Rightarrow> int \<Rightarrow> int \<Rightarrow> int \<Rightarrow> (int \<times> 'p fmt) option" where
  "seek_frame_internal fuel src fm s stream_index timestamp flags =
     (if has_flag flags AVSEEK_FLAG_BYTE then
        (if no_byte_seek fm then Some (- 1, s)
         else seek_frame_byte src (ff_read_frame_flush s) timestamp)
      else
        case (if stream_index < 0 then
                (let i = av_find_default_stream_index (streams s) in
                 if i < 0 then Some (i, timestamp)
                 else map_option (\<lambda>st. (i, av_rescale timestamp (den (time_base st)) (AV_TIME_BASE * num (time_base st))))
                        (peek (streams s) i))
              else Some (stream_index, timestamp)) of
          None \<Rightarrow> None
        | Some (stream_index, timestamp) \<Rightarrow>
            if stream_index < 0 then Some (- 1, s)
            else
              (case (case rd_seek fm of
                       None \<Rightarrow> (- 1, s)
                     | Some f \<Rightarrow> f (ff_read_frame_flush s) stream_index timestamp flags) of
                 (ret, s) \<Rightarrow>
                   if ret \<ge> 0 then Some (0, s)
                   else if rd_timestamp fm \<noteq> None \<and> \<not> no_binsearch fm then
                     ff_seek_frame_binary fuel src fm (ff_read_frame_flush s) stream_index timestamp flags
                   else if \<not> no_gensearch fm then
                     seek_frame_generic fuel src fm (ff_read_frame_flush s) stream_index timestamp flags
                   else Some (- 1, s)))"

text \<open>\<open>avformat_seek_file\<close> for a demuxer with \<open>read_seek2\<close>, lines 665 to 701; \<open>av_seek_frame\<close> calls it.\<close>

definition seek_file_new :: "(nat \<Rightarrow> bool) \<Rightarrow> ('p fmt \<Rightarrow> int \<Rightarrow> int \<Rightarrow> int \<Rightarrow> int \<Rightarrow> int \<Rightarrow> int \<times> 'p fmt) \<Rightarrow> 'p fmt \<Rightarrow>
    int \<Rightarrow> int \<Rightarrow> int \<Rightarrow> int \<Rightarrow> int \<Rightarrow> int \<times> 'p fmt" where
  "seek_file_new memory f s stream_index min_ts ts max_ts flags =
     (if min_ts > ts \<or> max_ts < ts then (- 1, s)
      else if stream_index < - 1 \<or> stream_index \<ge> int (length (streams s)) then (AVERROR_EINVAL, s)
      else
        let flags = (if seek2any s > 0 then set_flag flags AVSEEK_FLAG_ANY else flags);
            flags = clear_flag flags AVSEEK_FLAG_BACKWARD;
            s = ff_read_frame_flush s;
            (stream_index, min_ts, ts, max_ts) =
              (if stream_index = - 1 \<and> length (streams s) = 1 then
                 (let tb = time_base (streams s ! 0) in
                  (0, av_rescale_rnd min_ts (den tb) (num tb * AV_TIME_BASE) (AV_ROUND_UP + AV_ROUND_PASS_MINMAX),
                   av_rescale_q ts \<lparr>num = 1, den = AV_TIME_BASE\<rparr> tb,
                   av_rescale_rnd max_ts (den tb) (num tb * AV_TIME_BASE) (AV_ROUND_DOWN + AV_ROUND_PASS_MINMAX)))
               else (stream_index, min_ts, ts, max_ts))
        in case f s stream_index min_ts ts max_ts flags of
             (ret, s) \<Rightarrow> if ret \<ge> 0 then avformat_queue_attached_pictures memory s else (ret, s))"

definition av_seek_frame :: "nat \<Rightarrow> (nat \<Rightarrow> bool) \<Rightarrow> 'p source \<Rightarrow> 'p iformat \<Rightarrow> 'p fmt \<Rightarrow> int \<Rightarrow> int \<Rightarrow> int \<Rightarrow> (int \<times> 'p fmt) option" where
  "av_seek_frame fuel memory src fm s stream_index timestamp flags =
     (case (rd_seek2 fm, rd_seek fm) of
        (Some f, None) \<Rightarrow>
          Some (seek_file_new memory f s stream_index
                  (if has_flag flags AVSEEK_FLAG_BACKWARD then INT64_MIN else timestamp) timestamp
                  (if has_flag flags AVSEEK_FLAG_BACKWARD then timestamp else INT64_MAX)
                  (clear_flag flags AVSEEK_FLAG_BACKWARD))
      | _ \<Rightarrow>
          (case seek_frame_internal fuel src fm s stream_index timestamp flags of
             None \<Rightarrow> None
           | Some (ret, s) \<Rightarrow> Some (if ret \<ge> 0 then avformat_queue_attached_pictures memory s else (ret, s))))"

definition avformat_seek_file :: "nat \<Rightarrow> (nat \<Rightarrow> bool) \<Rightarrow> 'p source \<Rightarrow> 'p iformat \<Rightarrow> 'p fmt \<Rightarrow>
    int \<Rightarrow> int \<Rightarrow> int \<Rightarrow> int \<Rightarrow> int \<Rightarrow> (int \<times> 'p fmt) option" where
  "avformat_seek_file fuel memory src fm s stream_index min_ts ts max_ts flags =
     (case rd_seek2 fm of
        Some f \<Rightarrow> Some (seek_file_new memory f s stream_index min_ts ts max_ts flags)
      | None \<Rightarrow>
          if min_ts > ts \<or> max_ts < ts then Some (- 1, s)
          else if stream_index < - 1 \<or> stream_index \<ge> int (length (streams s)) then Some (AVERROR_EINVAL, s)
          else
            let flags = (if seek2any s > 0 then set_flag flags AVSEEK_FLAG_ANY else flags);
                flags = clear_flag flags AVSEEK_FLAG_BACKWARD;
                dir = (u64i (ts - min_ts) > u64i (max_ts - ts));
                directed = (\<lambda>b. if b then set_flag flags AVSEEK_FLAG_BACKWARD else flags)
            in
            case av_seek_frame fuel memory src fm s stream_index ts (directed dir) of
              None \<Rightarrow> None
            | Some (ret, s) \<Rightarrow>
                if ret < 0 \<and> ts \<noteq> min_ts \<and> max_ts \<noteq> ts then
                  (case av_seek_frame fuel memory src fm s stream_index (if dir then max_ts else min_ts) (directed dir) of
                     None \<Rightarrow> None
                   | Some (ret, s) \<Rightarrow>
                       if ret \<ge> 0 then av_seek_frame fuel memory src fm s stream_index ts (directed (\<not> dir))
                       else Some (ret, s))
                else Some (ret, s))"

definition ff_rescale_interval :: "AVRational \<Rightarrow> AVRational \<Rightarrow> int \<Rightarrow> int \<Rightarrow> int \<Rightarrow> int \<times> int \<times> int" where
  "ff_rescale_interval tb_in tb_out min_ts ts max_ts =
     (av_rescale_q_rnd min_ts tb_in tb_out (AV_ROUND_UP + AV_ROUND_PASS_MINMAX),
      av_rescale_q ts tb_in tb_out,
      av_rescale_q_rnd max_ts tb_in tb_out (AV_ROUND_DOWN + AV_ROUND_PASS_MINMAX))"

section \<open>The search is exact\<close>

text \<open>
  What a demuxer promises to the search: the file holds packets, positions with time stamps, both
  increasing; its reader finds the first packet at or after a position, and may give up when it
  starts after the limit; the file size and the data offset do not change.
\<close>

type_synonym packets = "(int \<times> int) list"

definition next_packet :: "packets \<Rightarrow> int \<Rightarrow> (int \<times> int) option" where
  "next_packet pk p = List.find (\<lambda>q. p \<le> fst q) pk"

definition packets_ok :: "packets \<Rightarrow> int \<Rightarrow> int \<Rightarrow> bool" where
  "packets_ok pk offset filesize \<longleftrightarrow> pk \<noteq> [] \<and> 0 \<le> offset \<and> filesize \<le> INT64_MAX \<and>
     sorted_wrt (\<lambda>a b. fst a < fst b \<and> snd a < snd b) pk \<and>
     (\<forall>(q, t) \<in> set pk. offset \<le> q \<and> q < filesize \<and> AV_NOPTS_VALUE < t)"

definition reads_packets :: "'p source \<Rightarrow> 'p ts_reader \<Rightarrow> int \<Rightarrow> packets \<Rightarrow> int \<Rightarrow> int \<Rightarrow> ('p fmt \<Rightarrow> bool) \<Rightarrow> bool" where
  "reads_packets src rd stream_index pk offset filesize good \<longleftrightarrow>
     (\<forall>s. good s \<longrightarrow> data_offset s = offset \<and>
        (\<exists>io. avio_size src (pb s) = (filesize, io) \<and> good (s\<lparr>pb := io\<rparr>)) \<and>
        (\<forall>p lmt. \<exists>ts p' s'. read_timestamp rd s stream_index p lmt = Some (ts, p', s') \<and> good s' \<and>
           (case next_packet pk p of
              None \<Rightarrow> ts = AV_NOPTS_VALUE \<and> p' = p
            | Some (q, t) \<Rightarrow> ts = t \<and> p' = q \<or> lmt < q \<and> ts = AV_NOPTS_VALUE \<and> p' = p)))"

text \<open>The packet a search is to find: the last at or before the target, or the first at or after it.\<close>

definition seek_target :: "packets \<Rightarrow> int \<Rightarrow> int \<Rightarrow> int \<times> int" where
  "seek_target pk flags target =
     (if has_flag flags AVSEEK_FLAG_BACKWARD
      then (case List.find (\<lambda>q. snd q \<le> target) (rev pk) of None \<Rightarrow> hd pk | Some q \<Rightarrow> q)
      else (case List.find (\<lambda>q. target \<le> snd q) pk of None \<Rightarrow> List.last pk | Some q \<Rightarrow> q))"

lemma sorted_packets:
  assumes "packets_ok pk offset filesize" "a \<in> set pk" "b \<in> set pk"
  shows "fst a < fst b \<longleftrightarrow> snd a < snd b" "fst a = fst b \<Longrightarrow> a = b"
proof -
  have s: "sorted_wrt (\<lambda>a b. fst a < fst b \<and> snd a < snd b) pk" using assms(1) by (simp add: packets_ok_def)
  obtain i j where ij: "i < length pk" "a = pk ! i" "j < length pk" "b = pk ! j"
    using assms(2,3) by (auto simp: in_set_conv_nth)
  show "fst a < fst b \<longleftrightarrow> snd a < snd b" "fst a = fst b \<Longrightarrow> a = b"
    using sorted_wrt_nth_less [OF s, of i j] sorted_wrt_nth_less [OF s, of j i] ij
    by (cases i j rule: linorder_cases; auto)+
qed

lemma packet_bounds:
  assumes "packets_ok pk offset filesize" "(q, t) \<in> set pk"
  shows "0 \<le> q" "offset \<le> q" "q < filesize" "t \<noteq> AV_NOPTS_VALUE" "q < INT64_MAX"
  using assms by (auto simp: packets_ok_def)

lemma next_packet_None: "next_packet pk p = None \<longleftrightarrow> (\<forall>x\<in>set pk. fst x < p)"
  by (auto simp: next_packet_def find_None_iff not_le)

lemma next_packet_Some:
  assumes "packets_ok pk offset filesize" "next_packet pk p = Some x"
  shows "x \<in> set pk" "p \<le> fst x" "\<forall>y\<in>set pk. p \<le> fst y \<longrightarrow> fst x \<le> fst y"
proof -
  from assms(2) obtain i where i: "i < length pk" "p \<le> fst (pk ! i)" "x = pk ! i" "\<forall>j<i. \<not> p \<le> fst (pk ! j)"
    by (auto simp: next_packet_def find_Some_iff)
  have s: "sorted_wrt (\<lambda>a b. fst a < fst b \<and> snd a < snd b) pk" using assms(1) by (simp add: packets_ok_def)
  show "x \<in> set pk" "p \<le> fst x" using i by auto
  show "\<forall>y\<in>set pk. p \<le> fst y \<longrightarrow> fst x \<le> fst y"
  proof (intro ballI impI)
    fix y
    assume "y \<in> set pk" "p \<le> fst y"
    then obtain j where j: "j < length pk" "y = pk ! j" "\<not> j < i" using i(4) by (auto simp: in_set_conv_nth)
    with sorted_wrt_nth_less [OF s, of i j] i(3) show "fst x \<le> fst y"
      by (cases "i = j") auto
  qed
qed

lemma find_skip: "List.find P us = None \<Longrightarrow> List.find P (us @ vs) = List.find P vs"
  by (induction us) (auto split: if_splits)

lemma find_rev_last:
  assumes "packets_ok pk offset filesize" "x \<in> set pk" "P x" "\<And>y. y \<in> set pk \<Longrightarrow> fst x < fst y \<Longrightarrow> \<not> P y"
  shows "List.find P (rev pk) = Some x"
proof -
  from assms(2) obtain us vs where pk: "pk = us @ x # vs" by (meson split_list)
  have "sorted_wrt (\<lambda>a b. fst a < fst b \<and> snd a < snd b) (us @ x # vs)" using assms(1) pk by (simp add: packets_ok_def)
  then have "\<forall>y\<in>set vs. fst x < fst y" by (auto simp: sorted_wrt_append)
  with assms(4) pk have "List.find P (rev vs) = None" by (auto simp: find_None_iff)
  with assms(3) show ?thesis unfolding pk by (simp add: find_skip)
qed

lemma find_first:
  assumes "packets_ok pk offset filesize" "x \<in> set pk" "P x" "\<And>y. y \<in> set pk \<Longrightarrow> fst y < fst x \<Longrightarrow> \<not> P y"
  shows "List.find P pk = Some x"
proof -
  from assms(2) obtain us vs where pk: "pk = us @ x # vs" by (meson split_list)
  have "sorted_wrt (\<lambda>a b. fst a < fst b \<and> snd a < snd b) (us @ x # vs)" using assms(1) pk by (simp add: packets_ok_def)
  then have "\<forall>y\<in>set us. fst y < fst x" by (auto simp: sorted_wrt_append)
  with assms(4) pk have "List.find P us = None" by (auto simp: find_None_iff)
  with assms(3) show ?thesis unfolding pk by (simp add: find_skip)
qed

lemma reads_packets_offset:
  "reads_packets src rd i pk offset filesize good \<Longrightarrow> good s \<Longrightarrow> data_offset s = offset"
  unfolding reads_packets_def by blast

lemma reads_packets_found:
  assumes "reads_packets src rd i pk offset filesize good" "good s" "next_packet pk p = Some (q, t)" "q \<le> lmt"
  shows "\<exists>s'. read_timestamp rd s i p lmt = Some (t, q, s') \<and> good s'"
proof -
  have "\<exists>ts p' s'. read_timestamp rd s i p lmt = Some (ts, p', s') \<and> good s' \<and>
           (case next_packet pk p of
              None \<Rightarrow> ts = AV_NOPTS_VALUE \<and> p' = p
            | Some (q, t) \<Rightarrow> ts = t \<and> p' = q \<or> lmt < q \<and> ts = AV_NOPTS_VALUE \<and> p' = p)"
    using assms(1,2) unfolding reads_packets_def by blast
  with assms(3,4) show ?thesis by auto
qed

lemma guess_pos_bounds:
  "pos_min < pos_limit \<Longrightarrow> pos_min < guess_pos t pos_min pos_max pos_limit a b c \<and>
     guess_pos t pos_min pos_max pos_limit a b c \<le> pos_limit"
  by (auto simp: guess_pos_def Let_def)

text \<open>The two packets around the target, or twice the packet at the target.\<close>

definition encloses :: "packets \<Rightarrow> int \<Rightarrow> int \<Rightarrow> int \<Rightarrow> int \<Rightarrow> int \<Rightarrow> int \<Rightarrow> bool" where
  "encloses pk target pos_min pos_max pos_limit ts_min ts_max \<longleftrightarrow>
     (pos_min, ts_min) \<in> set pk \<and> (pos_max, ts_max) \<in> set pk \<and> pos_limit \<le> pos_max \<and>
     (\<forall>x\<in>set pk. \<not> (pos_limit < fst x \<and> fst x < pos_max)) \<and>
     (ts_min < target \<and> target < ts_max \<or> pos_min = pos_max \<and> ts_min = target \<and> ts_max = target)"

lemma gen_loop_ok:
  assumes "packets_ok pk offset filesize" "reads_packets src rd i pk offset filesize good"
    and "good s" "encloses pk target pos_min pos_max pos_limit ts_min ts_max" "nat (pos_limit - pos_min) < fuel"
  shows "\<exists>a b l c d s'. gen_loop fuel rd s i target pos_min pos_max pos_limit ts_min ts_max no_change =
      Some (Some (a, b, c, d), s') \<and> encloses pk target a b l c d \<and> l \<le> a"
  using assms(3-5)
proof (induction fuel arbitrary: s pos_min pos_max pos_limit ts_min ts_max no_change)
  case 0
  then show ?case by simp
next
  case (Suc fuel)
  show ?case
  proof (cases "pos_min < pos_limit")
    case False
    with Suc.prems(2) show ?thesis by auto
  next
    case True
    define g where "g = guess_pos target pos_min pos_max pos_limit ts_min ts_max no_change"
    have g: "pos_min < g" "g \<le> pos_limit" using guess_pos_bounds [OF True] by (simp_all add: g_def)
    note enc = Suc.prems(2) [unfolded encloses_def]
    have "fst (pos_max, ts_max) \<ge> g" using enc g by simp
    then obtain q t where nx: "next_packet pk g = Some (q, t)"
      using enc next_packet_None [of pk g] by (cases "next_packet pk g") fastforce+
    note nxt = next_packet_Some [OF assms(1) nx]
    have "q \<le> pos_max" using nxt(3) enc \<open>fst (pos_max, ts_max) \<ge> g\<close> by fastforce
    have nts: "t \<noteq> AV_NOPTS_VALUE" "q \<le> INT64_MAX" using packet_bounds [OF assms(1) nxt(1)] by auto
    obtain s' where rd: "read_timestamp rd s i g INT64_MAX = Some (t, q, s')" "good s'"
      using reads_packets_found [OF assms(2) Suc.prems(1) nx nts(2)] by blast
    define nc where "nc = (if q = pos_max then no_change + 1 else 0)"
    have unf: "gen_loop (Suc fuel) rd s i target pos_min pos_max pos_limit ts_min ts_max no_change =
      gen_loop fuel rd s' i target (if target \<ge> t then q else pos_min) (if target \<le> t then q else pos_max)
        (if target \<le> t then g - 1 else pos_limit) (if target \<ge> t then t else ts_min) (if target \<le> t then t else ts_max) nc"
      using True enc rd nts by (simp add: g_def [symmetric] nc_def)
    have tmin: "pos_min < pos_max" using True enc by auto
    with enc have tm: "ts_min < target" "target < ts_max" by auto
    have "encloses pk target (if target \<ge> t then q else pos_min) (if target \<le> t then q else pos_max)
        (if target \<le> t then g - 1 else pos_limit) (if target \<ge> t then t else ts_min) (if target \<le> t then t else ts_max)"
    proof (cases t target rule: linorder_cases)
      case less
      then show ?thesis using enc nxt(1) tm by (simp add: encloses_def)
    next
      case equal
      then show ?thesis using nxt g by (force simp: encloses_def)
    next
      case greater
      then show ?thesis using enc nxt g tm by (force simp: encloses_def)
    qed
    moreover have "nat ((if target \<le> t then g - 1 else pos_limit) - (if target \<ge> t then q else pos_min)) < fuel"
      using Suc.prems(3) True g nxt(2) by (auto split: if_splits)
    ultimately show ?thesis unfolding unf using Suc.IH [OF rd(2)] by blast
  qed
qed

text \<open>The backward steps find the first packet of a window at the end of the file.\<close>

lemma last_ts_back_ok:
  assumes "packets_ok pk offset filesize" "reads_packets src rd i pk offset filesize good"
    and "good s" "0 < step" "0 \<le> limit" "\<forall>x\<in>set pk. fst x \<le> limit" "nat limit < fuel"
  shows "\<exists>ts pos s'. last_ts_back fuel rd s i limit step = Some (ts, pos, s') \<and> good s' \<and> (pos, ts) \<in> set pk"
  using assms(3-7)
proof (induction fuel arbitrary: s limit step)
  case 0
  then show ?case by simp
next
  case (Suc fuel)
  define p where "p = max 0 (limit - step)"
  obtain ts p' s' where rd: "read_timestamp rd s i p limit = Some (ts, p', s')" "good s'"
    and law: "case next_packet pk p of None \<Rightarrow> ts = AV_NOPTS_VALUE \<and> p' = p
            | Some (q, t) \<Rightarrow> ts = t \<and> p' = q \<or> limit < q \<and> ts = AV_NOPTS_VALUE \<and> p' = p"
    using assms(2) Suc.prems(1) unfolding reads_packets_def by blast
  show ?case
  proof (cases "next_packet pk p")
    case None
    then have below: "\<forall>x\<in>set pk. fst x < p" by (simp add: next_packet_None)
    obtain x where x: "x \<in> set pk" using assms(1) by (cases pk) (auto simp: packets_ok_def)
    with below packet_bounds(1) [OF assms(1), of "fst x" "snd x"] have "0 < p" by fastforce
    then have p: "p = limit - step" "step < limit" by (auto simp: p_def)
    have "last_ts_back (Suc fuel) rd s i limit step = last_ts_back fuel rd s' i p (step + step)"
      using rd law None p by (simp add: p_def [symmetric] Let_def)
    moreover have "\<exists>ts pos s''. last_ts_back fuel rd s' i p (step + step) = Some (ts, pos, s'') \<and> good s'' \<and> (pos, ts) \<in> set pk"
      using below p Suc.prems(2,5) by (intro Suc.IH [OF rd(2)]) auto
    ultimately show ?thesis by simp
  next
    case (Some x)
    obtain q t where x: "x = (q, t)" by (metis surj_pair)
    note nxt = next_packet_Some [OF assms(1) Some [unfolded x]]
    have "q \<le> limit" using Suc.prems(4) nxt(1) by fastforce
    then have "ts = t" "p' = q" using law Some x by auto
    moreover have "t \<noteq> AV_NOPTS_VALUE" using packet_bounds [OF assms(1) nxt(1)] by simp
    ultimately show ?thesis using rd nxt(1) by (simp add: p_def [symmetric] Let_def)
  qed
qed

lemma last_ts_forward_ok:
  assumes "packets_ok pk offset filesize" "reads_packets src rd i pk offset filesize good"
    and "good s" "(pos, ts) \<in> set pk" "nat (filesize - pos) < fuel"
  shows "\<exists>ts' pos' s'. last_ts_forward fuel rd s i filesize ts pos = Some (ts', pos', s') \<and> good s' \<and>
    (pos', ts') \<in> set pk \<and> (\<forall>x\<in>set pk. fst x \<le> pos')"
  using assms(3-5)
proof (induction fuel arbitrary: s pos ts)
  case 0
  then show ?case by simp
next
  case (Suc fuel)
  obtain ts1 p1 s' where rd: "read_timestamp rd s i (pos + 1) INT64_MAX = Some (ts1, p1, s')" "good s'"
    and law: "case next_packet pk (pos + 1) of None \<Rightarrow> ts1 = AV_NOPTS_VALUE \<and> p1 = pos + 1
            | Some (q, t) \<Rightarrow> ts1 = t \<and> p1 = q \<or> INT64_MAX < q \<and> ts1 = AV_NOPTS_VALUE \<and> p1 = pos + 1"
    using assms(2) Suc.prems(1) unfolding reads_packets_def by blast
  show ?case
  proof (cases "next_packet pk (pos + 1)")
    case None
    then have "\<forall>x\<in>set pk. fst x \<le> pos" by (auto simp: next_packet_None)
    with None law rd Suc.prems(2) show ?thesis by simp
  next
    case (Some x)
    obtain q t where x: "x = (q, t)" by (metis surj_pair)
    note nxt = next_packet_Some [OF assms(1) Some [unfolded x]]
    note b = packet_bounds [OF assms(1) nxt(1)]
    have "ts1 = t" "p1 = q" using law Some x b by auto
    with rd b nxt(2) have "last_ts_forward (Suc fuel) rd s i filesize ts pos = last_ts_forward fuel rd s' i filesize t q"
      by simp
    moreover have "nat (filesize - q) < fuel" using Suc.prems(3) nxt(2) b by simp
    ultimately show ?thesis using Suc.IH [OF rd(2) nxt(1)] by simp
  qed
qed

lemma find_last_ts_ok:
  assumes "packets_ok pk offset filesize" "reads_packets src rd i pk offset filesize good" "good s" "nat filesize < fuel"
  shows "\<exists>ts pos s'. ff_find_last_ts fuel src rd s i = Some (0, ts, pos, s') \<and> good s' \<and>
    (pos, ts) \<in> set pk \<and> (\<forall>x\<in>set pk. fst x \<le> pos)"
proof -
  obtain io where io: "avio_size src (pb s) = (filesize, io)" "good (s\<lparr>pb := io\<rparr>)"
    using assms(2,3) unfolding reads_packets_def by blast
  obtain x where x: "x \<in> set pk" using assms(1) by (cases pk) (auto simp: packets_ok_def)
  with packet_bounds [OF assms(1), of "fst x" "snd x"] have pos: "0 \<le> filesize - 1" by simp
  have "\<forall>x\<in>set pk. fst x \<le> filesize - 1" using packet_bounds(3) [OF assms(1)] by force
  moreover have "nat (filesize - 1) < fuel" "(0 :: int) < 1024" using assms(4) pos by simp_all
  ultimately obtain ts p s' where
    b: "last_ts_back fuel rd (s\<lparr>pb := io\<rparr>) i (filesize - 1) 1024 = Some (ts, p, s')" "good s'" "(p, ts) \<in> set pk"
    using last_ts_back_ok [OF assms(1,2) io(2) _ pos] by blast
  note pb = packet_bounds [OF assms(1) b(3)]
  have "nat (filesize - p) < fuel" using assms(4) pb(1) by simp
  from last_ts_forward_ok [OF assms(1,2) b(2,3) this] b pb io(1) show ?thesis
    by (auto simp: ff_find_last_ts_def)
qed

text \<open>The bounds a search may start from: none, or packets around the target.\<close>

definition bounds_ok :: "packets \<Rightarrow> int \<Rightarrow> int \<Rightarrow> int \<Rightarrow> int \<Rightarrow> int \<Rightarrow> int \<Rightarrow> bool" where
  "bounds_ok pk target pos_min pos_max pos_limit ts_min ts_max \<longleftrightarrow>
     (ts_min = AV_NOPTS_VALUE \<or> (pos_min, ts_min) \<in> set pk \<and> ts_min \<le> target) \<and>
     (ts_max = AV_NOPTS_VALUE \<or> (pos_max, ts_max) \<in> set pk \<and> target \<le> ts_max \<and> pos_limit \<le> pos_max \<and>
        (\<forall>x\<in>set pk. \<not> (pos_limit < fst x \<and> fst x < pos_max)))"

text \<open>Where the search has to end.\<close>

lemma target_enclosed:
  assumes "packets_ok pk offset filesize" "encloses pk target a b l c d" "l \<le> a"
  shows "seek_target pk flags target = (if has_flag flags AVSEEK_FLAG_BACKWARD then (a, c) else (b, d))"
proof -
  have in_pk: "(a, c) \<in> set pk" "(b, d) \<in> set pk" and le: "c \<le> target" "target \<le> d"
    and gap: "\<And>x. x \<in> set pk \<Longrightarrow> \<not> (l < fst x \<and> fst x < b)"
    and two: "c < target \<and> target < d \<or> a = b \<and> c = target \<and> d = target"
    using assms(2) by (auto simp: encloses_def)
  note ord = sorted_packets [OF assms(1)]
  have ab: "a \<le> b" using two ord(1) [OF in_pk] by auto
  have after: "target < snd y" if "y \<in> set pk" "a < fst y" for y
  proof -
    have "b \<le> fst y" using gap [OF that(1)] that(2) assms(3) by linarith
    then have "snd y \<ge> d" using ord(1) [OF that(1) in_pk(2)] by auto
    moreover have "snd y > c" using ord(1) [OF in_pk(1) that(1)] that(2) by simp
    ultimately show ?thesis using two by auto
  qed
  have before: "snd y < target" if "y \<in> set pk" "fst y < b" for y
  proof -
    have "fst y \<le> a" using gap [OF that(1)] that(2) assms(3) by linarith
    then have "snd y \<le> c" using ord(1) [OF in_pk(1) that(1)] by auto
    moreover have "snd y < d" using ord(1) [OF that(1) in_pk(2)] that(2) by simp
    ultimately show ?thesis using two by auto
  qed
  have "List.find (\<lambda>q. snd q \<le> target) (rev pk) = Some (a, c)"
    using after le by (intro find_rev_last [OF assms(1) in_pk(1)]) (auto simp: not_le)
  moreover have "List.find (\<lambda>q. target \<le> snd q) pk = Some (b, d)"
    using before le by (intro find_first [OF assms(1) in_pk(2)]) (auto simp: not_le)
  ultimately show ?thesis by (simp add: seek_target_def)
qed

lemma target_exact:
  assumes "packets_ok pk offset filesize" "(p, target) \<in> set pk"
  shows "seek_target pk flags target = (p, target)"
  using target_enclosed [OF assms(1), of target p p p target target flags] assms(2) by (simp add: encloses_def)

lemma target_before_first:
  assumes "packets_ok pk offset filesize" "(p, t) \<in> set pk" "\<forall>x\<in>set pk. p \<le> fst x" "target < t"
  shows "seek_target pk flags target = (p, t)"
proof -
  have ge: "t \<le> snd x" if "x \<in> set pk" for x
    using sorted_packets(1) [OF assms(1) that assms(2)] assms(3) that by fastforce
  have "hd pk \<in> set pk" using assms(1) by (simp add: packets_ok_def)
  moreover have "fst (hd pk) \<le> p"
  proof (rule ccontr)
    assume "\<not> fst (hd pk) \<le> p"
    moreover have "sorted_wrt (\<lambda>a b. fst a < fst b \<and> snd a < snd b) pk" using assms(1) by (simp add: packets_ok_def)
    ultimately show False using assms(2) by (cases pk) auto
  qed
  ultimately have "hd pk = (p, t)" using assms(2,3) sorted_packets(2) [OF assms(1), of "hd pk" "(p, t)"] by fastforce
  moreover have "List.find (\<lambda>q. snd q \<le> target) (rev pk) = None"
    using ge assms(4) by (fastforce simp: find_None_iff)
  moreover have "List.find (\<lambda>q. target \<le> snd q) pk = Some (p, t)"
    using assms(3,4) by (intro find_first [OF assms(1,2)]) auto
  ultimately show ?thesis by (simp add: seek_target_def)
qed

lemma target_after_last:
  assumes "packets_ok pk offset filesize" "(p, t) \<in> set pk" "\<forall>x\<in>set pk. fst x \<le> p" "t < target"
  shows "seek_target pk flags target = (p, t)"
proof -
  have le: "snd x \<le> t" if "x \<in> set pk" for x
    using sorted_packets(1) [OF assms(1,2) that] assms(3) that by fastforce
  have ne: "pk \<noteq> []" using assms(2) by auto
  then have pk: "pk = butlast pk @ [List.last pk]" by simp
  have "p \<le> fst (List.last pk)"
  proof (rule ccontr)
    assume c: "\<not> p \<le> fst (List.last pk)"
    have "sorted_wrt (\<lambda>a b. fst a < fst b \<and> snd a < snd b) (butlast pk @ [List.last pk])"
      using assms(1) pk by (simp add: packets_ok_def)
    then have before: "\<forall>x\<in>set (butlast pk). fst x < fst (List.last pk)" by (simp add: sorted_wrt_append)
    have "(p, t) \<in> set (butlast pk @ [List.last pk])" using assms(2) pk by simp
    then have "(p, t) \<in> set (butlast pk) \<or> fst (List.last pk) = p" by (metis Un_iff fst_conv list.set(1) set_append set_ConsD empty_iff)
    with before c show False by force
  qed
  then have "List.last pk = (p, t)"
    using assms(3) ne last_in_set sorted_packets(2) [OF assms(1) last_in_set [OF ne] assms(2)] by fastforce
  moreover have "List.find (\<lambda>q. target \<le> snd q) pk = None"
    using le assms(4) by (fastforce simp: find_None_iff)
  moreover have "List.find (\<lambda>q. snd q \<le> target) (rev pk) = Some (p, t)"
    using assms(3,4) by (intro find_rev_last [OF assms(1,2)]) auto
  ultimately show ?thesis by (simp add: seek_target_def)
qed

lemma gen_search_ok:
  assumes pk: "packets_ok pk offset filesize" and rp: "reads_packets src rd i pk offset filesize good" and gs: "good s"
    and bounds: "bounds_ok pk target pos_min pos_max pos_limit ts_min ts_max" and fuel: "nat filesize < fuel"
  shows "\<exists>s'. ff_gen_search fuel src rd s i target pos_min pos_max pos_limit ts_min ts_max flags ts0 =
    Some (fst (seek_target pk flags target), snd (seek_target pk flags target), s')"
proof -
  obtain tmin pmin s1 where first: "(if ts_min = AV_NOPTS_VALUE then read_timestamp rd s i (data_offset s) INT64_MAX
            else Some (ts_min, pos_min, s)) = Some (tmin, pmin, s1)" "good s1" "(pmin, tmin) \<in> set pk"
    "target < tmin \<longrightarrow> (\<forall>x\<in>set pk. pmin \<le> fst x)"
  proof (cases "ts_min = AV_NOPTS_VALUE")
    case True
    have all: "\<forall>x\<in>set pk. offset \<le> fst x" using packet_bounds(2) [OF pk] by force
    then obtain x where x: "next_packet pk offset = Some x"
      using pk next_packet_None [of pk offset] by (cases "next_packet pk offset"; cases pk) (auto simp: packets_ok_def)
    obtain q t where q: "x = (q, t)" by (metis surj_pair)
    note nxt = next_packet_Some [OF pk x [unfolded q]]
    have "q \<le> INT64_MAX" using packet_bounds [OF pk nxt(1)] by simp
    with reads_packets_found [OF rp gs] x q obtain s' where
      "read_timestamp rd s i offset INT64_MAX = Some (t, q, s')" "good s'" by blast
    with True reads_packets_offset [OF rp gs] nxt all that show ?thesis by auto
  next
    case False
    with bounds gs that show ?thesis by (auto simp: bounds_ok_def)
  qed
  have nts: "tmin \<noteq> AV_NOPTS_VALUE" using packet_bounds(4) [OF pk first(3)] .
  show ?thesis
  proof (cases "tmin \<ge> target")
    case True
    have "seek_target pk flags target = (pmin, tmin)"
    proof (cases "tmin = target")
      case True
      with target_exact [OF pk] first(3) show ?thesis by simp
    next
      case False
      with True first(3,4) show ?thesis by (intro target_before_first [OF pk]) auto
    qed
    with True nts show ?thesis unfolding ff_gen_search_def first(1) by simp
  next
    case below: False
    obtain tmax pmax l s2 where second: "(if ts_max = AV_NOPTS_VALUE
        then map_option (\<lambda>(ret, ts, pos, s). (ret, ts, pos, pos, s)) (ff_find_last_ts fuel src rd s1 i)
        else Some (0, ts_max, pos_max, pos_limit, s1)) = Some (0, tmax, pmax, l, s2)" "good s2" "(pmax, tmax) \<in> set pk"
      "tmax < target \<longrightarrow> (\<forall>x\<in>set pk. fst x \<le> pmax)" "l \<le> pmax" "\<forall>x\<in>set pk. \<not> (l < fst x \<and> fst x < pmax)"
    proof (cases "ts_max = AV_NOPTS_VALUE")
      case True
      from find_last_ts_ok [OF pk rp first(2) fuel] obtain ts p s' where
        "ff_find_last_ts fuel src rd s1 i = Some (0, ts, p, s')" "good s'" "(p, ts) \<in> set pk" "\<forall>x\<in>set pk. fst x \<le> p"
        by blast
      with True that show ?thesis by simp
    next
      case False
      with bounds first(2) that show ?thesis by (auto simp: bounds_ok_def)
    qed
    show ?thesis
    proof (cases "tmax \<le> target")
      case True
      have "seek_target pk flags target = (pmax, tmax)"
      proof (cases "tmax = target")
        case True
        with target_exact [OF pk] second(3) show ?thesis by simp
      next
        case False
        with True second(3,4) show ?thesis by (intro target_after_last [OF pk]) auto
      qed
      with True below nts show ?thesis unfolding ff_gen_search_def first(1) option.case prod.case second(1) by simp
    next
      case above: False
      have enc: "encloses pk target pmin pmax l tmin tmax"
        using below above first(3) second(3,5,6) by (simp add: encloses_def)
      have "nat (l - pmin) < fuel"
        using fuel second(5) packet_bounds [OF pk first(3)] packet_bounds [OF pk second(3)] by linarith
      from gen_loop_ok [OF pk rp second(2) enc this, of 0] obtain a b l' c d s3 where
        g: "gen_loop fuel rd s2 i target pmin pmax l tmin tmax 0 = Some (Some (a, b, c, d), s3)"
        and e: "encloses pk target a b l' c d" "l' \<le> a" by blast
      have lt: "tmin < tmax" using below above by simp
      show ?thesis unfolding target_enclosed [OF pk e]
        unfolding ff_gen_search_def first(1) option.case prod.case second(1)
        using below above nts lt g by simp
    qed
  qed
qed

section \<open>Seeking with an index\<close>

lemma flush_simps [simp]:
  "pb (ff_read_frame_flush s) = pb s"
  "streams (ff_read_frame_flush s) = List.map (flush_stream (max_probe_packets s)) (streams s)"
  "entries_of (flush_stream m st) = entries_of st" "time_base (flush_stream m st) = time_base st"
  "codec_id (flush_stream m st) = codec_id st"
  by (simp_all add: ff_read_frame_flush_def ff_flush_packet_queue_def flush_stream_def entries_of_def Let_def)

lemma update_cur_dts_simps [simp]:
  "pb (avpriv_update_cur_dts s st ts) = pb s" "io_repositioned (avpriv_update_cur_dts s st ts) = io_repositioned s"
  "length (streams (avpriv_update_cur_dts s st ts)) = length (streams s)"
  by (simp_all add: avpriv_update_cur_dts_def)

lemma update_cur_dts_nth:
  "j < length (streams s) \<Longrightarrow> cur_dts (streams (avpriv_update_cur_dts s st ts) ! j) =
     av_rescale ts (den (time_base (streams s ! j)) * num (time_base st)) (num (time_base (streams s ! j)) * den (time_base st))"
  by (simp add: avpriv_update_cur_dts_def)

lemma queue_pictures_frame:
  "queue_pictures memory i sts s = (r, t) \<Longrightarrow> pb t = pb s \<and> streams t = streams s \<and>
     io_repositioned t = io_repositioned s \<and> r \<le> 0"
proof (induction sts arbitrary: i s)
  case Nil
  then show ?case by auto
next
  case (Cons st sts)
  then show ?case by (force split: if_splits)
qed

lemma peek_map: "peek (List.map f xs) i = map_option f (peek xs i)"
  by (auto simp: peek_def)

text \<open>What the client of a seek observes when the index holds the entry \<open>e\<close> for its target.\<close>

definition positioned_at :: "'p fmt \<Rightarrow> 'p fmt \<Rightarrow> stream \<Rightarrow> index_entry \<Rightarrow> bool" where
  "positioned_at s t st e \<longleftrightarrow> avio_tell (pb t) = ie_pos e \<and> io_repositioned t \<and>
     length (streams t) = length (streams s) \<and>
     (\<forall>j<length (streams s). cur_dts (streams t ! j) =
        av_rescale (ie_timestamp e) (den (time_base (streams s ! j)) * num (time_base st))
          (num (time_base (streams s ! j)) * den (time_base st)))"

lemma seek_to_entry_ok:
  assumes "java_good media p" "java_pos p = 0" "buffer \<noteq> []" "int (length buffer) \<le> INT_MAX"
    and "avio_reach (java_source al) (ffio_init_context (java_source al) buffer p) (pb s)"
    and "rd_seek fm = None" "peek (streams s) i = Some st" "entries_of st = es" "0 \<le> k" "k < int (length es)"
  shows "\<exists>r t. seek_to_entry (java_source al) fm s i target flags k = Some (r, t) \<and>
    (r < 0 \<or> r = 0 \<and> positioned_at s t st (es ! nat k))"
proof -
  define e where "e = es ! nat k"
  define u where "u = ff_read_frame_flush s"
  from java.fresh_seek [OF assms(1-5), of "ie_pos e" SEEK_SET] obtain r io where
    io: "avio_seek 2 (nat (\<bar>ie_pos e\<bar> + \<bar>avio_tell (pb s)\<bar>) + 1) (java_source al) (pb s) (ie_pos e) SEEK_SET = Some (r, io)"
      "r = ie_pos e \<and> avio_tell io = ie_pos e \<or> r < 0" by blast
  have sk: "pb_seek (java_source al) u (ie_pos e) = Some (r, u\<lparr>pb := io\<rparr>)"
    using io(1) by (simp add: pb_seek_def u_def)
  have st: "peek (streams u) i = Some (flush_stream (max_probe_packets s) st)"
    using assms(7) by (simp add: u_def peek_map)
  have "\<not> k < 0" using assms(9) by simp
  moreover have "peek (entries_of (flush_stream (max_probe_packets s) st)) k = Some e"
    using assms(8-10) by (simp add: e_def)
  ultimately have unf: "seek_to_entry (java_source al) fm s i target flags k =
      (if r < 0 then Some (r, u\<lparr>pb := io\<rparr>)
       else Some (0, avpriv_update_cur_dts (u\<lparr>pb := io, io_repositioned := True\<rparr>) (flush_stream (max_probe_packets s) st) (ie_timestamp e)))"
    unfolding seek_to_entry_def u_def [symmetric] Let_def assms(6) using st sk by simp
  show ?thesis
  proof (cases "r < 0")
    case True
    then show ?thesis unfolding unf by simp
  next
    case False
    then have "positioned_at s (avpriv_update_cur_dts (u\<lparr>pb := io, io_repositioned := True\<rparr>)
        (flush_stream (max_probe_packets s) st) (ie_timestamp e)) st e"
      using io(2) unfolding positioned_at_def by (auto simp: update_cur_dts_nth u_def)
    with False show ?thesis unfolding unf e_def by simp
  qed
qed

lemma indexed_seek_ok:
  assumes io: "java_good media p" "java_pos p = 0" "buffer \<noteq> []" "int (length buffer) \<le> INT_MAX"
      "avio_reach (java_source al) (ffio_init_context (java_source al) buffer p) (pb s)"
    and fm: "rd_seek fm = None" "rd_seek2 fm = None" "rd_timestamp fm = None \<or> no_binsearch fm" "\<not> no_gensearch fm"
    and st: "peek (streams s) i = Some st" "index_ok (entries_of st)"
    and k: "index_search_spec (entries_of st) target flags = k" "0 \<le> k" "k < int (length (entries_of st)) - 1"
    and flags: "\<not> has_flag flags AVSEEK_FLAG_BYTE"
  shows "\<exists>r t. av_seek_frame fuel memory (java_source al) fm s i target flags = Some (r, t) \<and>
    (r < 0 \<or> r = 0 \<and> positioned_at s t st (entries_of st ! nat k))"
proof -
  define u where "u = ff_read_frame_flush s"
  have pi: "0 \<le> i" using st(1) by (auto simp: peek_def split: if_splits)
  have stu: "peek (streams u) i = Some (flush_stream (max_probe_packets s) st)"
    using st(1) by (simp add: u_def peek_map)
  have "avio_reach (java_source al) (ffio_init_context (java_source al) buffer p) (pb u)" using io(5) by (simp add: u_def)
  from seek_to_entry_ok [OF io(1-4) this fm(1) stu refl k(2)] k(3) obtain r t where
    r: "seek_to_entry (java_source al) fm u i target flags k = Some (r, t)"
      "r < 0 \<or> r = 0 \<and> positioned_at u t (flush_stream (max_probe_packets s) st) (entries_of st ! nat k)"
    by fastforce
  have pos: "positioned_at u t (flush_stream (max_probe_packets s) st) e = positioned_at s t st e" for e
    by (simp add: positioned_at_def u_def)
  have srch: "av_index_search_timestamp (flush_stream (max_probe_packets s) st) target flags = Some k"
    using index_search_ok [OF st(2)] k(1) by (simp add: av_index_search_timestamp_def)
  have "seek_frame_generic fuel (java_source al) fm u i target flags = Some (r, t)"
    unfolding seek_frame_generic_def stu option.case srch Let_def using k(2,3) r(1) by simp
  then have int: "seek_frame_internal fuel (java_source al) fm s i target flags = Some (r, t)"
    using flags pi fm unfolding seek_frame_internal_def by (auto simp: u_def [symmetric] Let_def)
  show ?thesis
  proof (cases "r < 0")
    case True
    with int fm(1,2) show ?thesis by (simp add: av_seek_frame_def)
  next
    case False
    obtain r' t' where q: "avformat_queue_attached_pictures memory t = (r', t')" by (metis surj_pair)
    with queue_pictures_frame [of memory 0 "streams t" t r' t']
    have fr: "pb t' = pb t" "streams t' = streams t" "io_repositioned t' = io_repositioned t" "r' \<le> 0"
      by (simp_all add: avformat_queue_attached_pictures_def)
    have "positioned_at s t' st (entries_of st ! nat k)"
    proof -
      have "positioned_at s t st (entries_of st ! nat k)" using r(2) False pos by blast
      then show ?thesis unfolding positioned_at_def fr(1-3) .
    qed
    with False int fm(1,2) q fr(4) show ?thesis by (auto simp: av_seek_frame_def)
  qed
qed

section \<open>Properties\<close>

text \<open>Witness data: the five-byte media of \<open>JavaIO\<close> with packets at 0, 2 and 4, and the index of \<open>Index\<close>.\<close>

definition demo_packets :: packets where
  "demo_packets = [(0, 0), (2, 40), (4, 80)]"

definition demo_reader :: "java_client ts_reader" where
  "demo_reader s i p lmt = (case next_packet demo_packets p of None \<Rightarrow> (AV_NOPTS_VALUE, p, s) | Some (q, t) \<Rightarrow> (t, q, s))"

definition demo_fmt :: "java_client fmt" where
  "demo_fmt = \<lparr>streams = [demo_stream\<lparr>index_entries := Some demo_index\<rparr>], pb = demo_io, data_offset = 0,
     io_repositioned = False, max_probe_packets = 2500, seek2any = 0, parse_queue = [], packet_buffer = [],
     raw_packet_buffer = []\<rparr>"

definition demo_good :: "java_client fmt \<Rightarrow> bool" where
  "demo_good s \<longleftrightarrow> data_offset s = 0 \<and> streams s = streams demo_fmt \<and>
     (\<exists>n. pb s = demo_io\<lparr>opaque := demo_client\<lparr>tick := n\<rparr>\<rparr>)"

definition demo_format :: "java_client iformat" where
  "demo_format = \<lparr>no_byte_seek = False, no_binsearch = False, no_gensearch = False, rd_seek = None, rd_seek2 = None,
     rd_timestamp = None, rd_frame = (\<lambda>s. (AVERROR_EOF, \<lparr>pkt_stream = 0, pkt_dts = 0, pkt_key = False\<rparr>, s))\<rparr>"

lemma demo_packets_ok: "packets_ok demo_packets 0 5"
  by (simp add: packets_ok_def demo_packets_def)

lemma demo_size: "avio_size demo_source (demo_io\<lparr>opaque := demo_client\<lparr>tick := n\<rparr>\<rparr>) =
    (5, demo_io\<lparr>opaque := demo_client\<lparr>tick := n + 1\<rparr>\<rparr>)"
  by (simp add: avio_size_def call_seek_def demo_source_def java_source_def java_sk_def demo_client_def
      demo_defs initial_avio_def java_seek.simps(2) deadline_expired_def file_env_def EXTRACTION_DEADLINE_US_def)

lemma demo_reads: "reads_packets demo_source demo_reader 0 demo_packets 0 5 demo_good"
  unfolding reads_packets_def
proof (intro allI impI conjI)
  fix s p lmt
  assume good: "demo_good s"
  then obtain n where s: "pb s = demo_io\<lparr>opaque := demo_client\<lparr>tick := n\<rparr>\<rparr>" by (auto simp: demo_good_def)
  show "data_offset s = 0" using good by (simp add: demo_good_def)
  show "\<exists>io. avio_size demo_source (pb s) = (5, io) \<and> demo_good (s\<lparr>pb := io\<rparr>)"
    using good s demo_size [of n] by (auto simp: demo_good_def)
  show "\<exists>ts p' s'. read_timestamp demo_reader s 0 p lmt = Some (ts, p', s') \<and> demo_good s' \<and>
      (case next_packet demo_packets p of None \<Rightarrow> ts = AV_NOPTS_VALUE \<and> p' = p
       | Some (q, t) \<Rightarrow> ts = t \<and> p' = q \<or> lmt < q \<and> ts = AV_NOPTS_VALUE \<and> p' = p)"
    using good by (auto simp: read_timestamp_def demo_reader_def demo_good_def demo_fmt_def ff_wrap_timestamp_def
        demo_stream_def split: option.splits)
qed

text \<open>
  Property C23: the search for a time stamp is exact. When the demuxer's reader finds the first
  packet at or after each position and time stamps increase with positions, \<open>ff_gen_search\<close>
  returns, from any valid cached bounds and whatever the interpolation guesses, the last packet
  at or before the target with \<open>AVSEEK_FLAG_BACKWARD\<close> and the first packet at or after it
  without (the first or last packet of the file when there is none). Its loops end, with fuel
  for the size of the file, and its assertions hold.
\<close>

theorem gen_search_exact:
  assumes "packets_ok pk offset filesize" "reads_packets src rd i pk offset filesize good" "good s"
    and "bounds_ok pk target pos_min pos_max pos_limit ts_min ts_max" "nat filesize < fuel"
  shows "\<exists>s'. ff_gen_search fuel src rd s i target pos_min pos_max pos_limit ts_min ts_max flags ts0 =
    Some (fst (seek_target pk flags target), snd (seek_target pk flags target), s')"
  using assms by (rule gen_search_ok)

theorem gen_search_exact_witness:
  "\<exists>s'. ff_gen_search 6 demo_source demo_reader demo_fmt 0 50 0 0 (- 1) AV_NOPTS_VALUE AV_NOPTS_VALUE 1 0 =
     Some (2, 40, s')"
proof -
  have good: "demo_good demo_fmt"
    unfolding demo_good_def by (auto simp: demo_fmt_def demo_io_def ffio_init_context_def demo_client_def intro!: exI [of _ 0])
  have "bounds_ok demo_packets 50 0 0 (- 1) AV_NOPTS_VALUE AV_NOPTS_VALUE" by (simp add: bounds_ok_def)
  moreover have "seek_target demo_packets 1 50 = (2, 40)"
    by (simp add: seek_target_def demo_packets_def has_flag_def AVSEEK_FLAG_BACKWARD_def)
  ultimately show ?thesis
    using gen_search_exact [OF demo_packets_ok demo_reads good, of 50 0 0 "- 1" AV_NOPTS_VALUE AV_NOPTS_VALUE 6 1 0] by simp
qed

text \<open>
  Property C24: \<open>av_seek_frame\<close> on a container with an index, through the I/O context over the Java
  callbacks after any use of it: when the index has an entry for the target (the last keyframe
  at or before it with \<open>AVSEEK_FLAG_BACKWARD\<close>) and it is not the last entry, the seek either
  fails or leaves the reader exactly at the position of that entry, with the current time
  stamp of every stream set to the entry's, converted to the stream's time base.
\<close>

theorem indexed_seek_lands_on_entry:
  assumes "java_good media p" "java_pos p = 0" "buffer \<noteq> []" "int (length buffer) \<le> INT_MAX"
      "avio_reach (java_source al) (ffio_init_context (java_source al) buffer p) (pb s)"
    and "rd_seek fm = None" "rd_seek2 fm = None" "rd_timestamp fm = None \<or> no_binsearch fm" "\<not> no_gensearch fm"
    and "peek (streams s) i = Some st" "index_ok (entries_of st)"
    and "index_search_spec (entries_of st) target flags = k" "0 \<le> k" "k < int (length (entries_of st)) - 1"
    and "\<not> has_flag flags AVSEEK_FLAG_BYTE"
  shows "\<exists>r t. av_seek_frame fuel memory (java_source al) fm s i target flags = Some (r, t) \<and>
    (r < 0 \<or> r = 0 \<and> positioned_at s t st (entries_of st ! nat k))"
  using assms by (rule indexed_seek_ok)

theorem indexed_seek_lands_on_entry_witness:
  "\<exists>r t. av_seek_frame 1 (\<lambda>i. True) demo_source demo_format demo_fmt 0 50 1 = Some (r, t) \<and>
     (r < 0 \<or> r = 0 \<and> avio_tell (pb t) = 0)"
proof -
  have st: "peek (streams demo_fmt) 0 = Some (demo_stream\<lparr>index_entries := Some demo_index\<rparr>)" by (simp add: demo_fmt_def)
  have es: "entries_of (demo_stream\<lparr>index_entries := Some demo_index\<rparr>) = demo_index" by (simp add: entries_of_def)
  have k: "index_search_spec demo_index 50 1 = 0"
    by (simp add: index_search_spec_def demo_index_def has_flag_def usable_def AVSEEK_FLAG_BACKWARD_def
      AVSEEK_FLAG_ANY_def AVINDEX_KEYFRAME_def upt_rec)
  have "avio_reach (java_source (\<lambda>n. None)) (ffio_init_context (java_source (\<lambda>n. None)) [0, 0] demo_client) (pb demo_fmt)"
    by (simp add: demo_fmt_def demo_io_def demo_source_def avio_reach.start)
  from indexed_seek_lands_on_entry [OF demo_client_ok _ _ this, of demo_format 0 _ 50 1 0 1 "\<lambda>i. True"] st es k
  have "\<exists>r t. av_seek_frame 1 (\<lambda>i. True) (java_source (\<lambda>n. None)) demo_format demo_fmt 0 50 1 = Some (r, t) \<and>
    (r < 0 \<or> r = 0 \<and> positioned_at demo_fmt t (demo_stream\<lparr>index_entries := Some demo_index\<rparr>) (demo_index ! 0))"
    using demo_index_ok by (simp add: demo_format_def has_flag_def AVSEEK_FLAG_BYTE_def demo_index_def)
  then show ?thesis by (auto simp: demo_source_def positioned_at_def demo_index_def)
qed

end
