(* ===== verification/Bytestream.thy ===== *)
theory Bytestream
  imports Prelude
begin

text \<open>
  The reader of \<open>libavcodec/bytestream.h\<close> through which the decoders read a packet, and the writes
  they make into the planes of a frame. A reader is the packet and an offset into it. The
  checked functions deliver zero when the packet is too short; the unchecked ones, like every
  write outside a plane, are \<open>None\<close> then. The target is little-endian, as Android is.
\<close>

lemma ex_bool [simp]: "\<exists>b. b" "\<exists>b. \<not> b"
  by auto

section \<open>Reading a packet\<close>

record get_byte_context =
  g_data :: "byte list"
  g_pos :: int

definition be_value :: "byte list \<Rightarrow> int" where
  "be_value bs = foldl (\<lambda>a b. a * 256 + uint b) 0 bs"

definition le_value :: "byte list \<Rightarrow> int" where
  "le_value bs = foldr (\<lambda>b a. uint b + 256 * a) bs 0"

text \<open>The bytes of a number as a little-endian machine stores it.\<close>

fun le_bytes :: "nat \<Rightarrow> int \<Rightarrow> byte list" where
  "le_bytes 0 v = []"
| "le_bytes (Suc n) v = word_of_int v # le_bytes n (v div 256)"

definition bytestream2_init :: "byte list \<Rightarrow> get_byte_context" where
  "bytestream2_init buf = \<lparr>g_data = buf, g_pos = 0\<rparr>"

definition bytestream2_get_bytes_left :: "get_byte_context \<Rightarrow> int" where
  "bytestream2_get_bytes_left g = int (length (g_data g)) - g_pos g"

text \<open>The three readers of the macro \<open>DEF\<close>, for \<open>n\<close> bytes and the byte order \<open>read\<close>.\<close>

definition bytestream2_get_u :: "nat \<Rightarrow> (byte list \<Rightarrow> int) \<Rightarrow> get_byte_context \<Rightarrow> (int \<times> get_byte_context) option" where
  "bytestream2_get_u n read g =
     (case load (g_data g) (g_pos g) n of
        None \<Rightarrow> None | Some bs \<Rightarrow> Some (read bs, g\<lparr>g_pos := g_pos g + int n\<rparr>))"

definition bytestream2_get :: "nat \<Rightarrow> (byte list \<Rightarrow> int) \<Rightarrow> get_byte_context \<Rightarrow> (int \<times> get_byte_context) option" where
  "bytestream2_get n read g =
     (if bytestream2_get_bytes_left g < int n then Some (0, g\<lparr>g_pos := int (length (g_data g))\<rparr>)
      else bytestream2_get_u n read g)"

definition bytestream2_peek :: "nat \<Rightarrow> (byte list \<Rightarrow> int) \<Rightarrow> get_byte_context \<Rightarrow> int option" where
  "bytestream2_peek n read g =
     (if bytestream2_get_bytes_left g < int n then Some 0
      else map_option read (load (g_data g) (g_pos g) n))"

abbreviation bytestream2_get_byte :: "get_byte_context \<Rightarrow> (int \<times> get_byte_context) option" where
  "bytestream2_get_byte \<equiv> bytestream2_get 1 be_value"
abbreviation bytestream2_get_be16 :: "get_byte_context \<Rightarrow> (int \<times> get_byte_context) option" where
  "bytestream2_get_be16 \<equiv> bytestream2_get 2 be_value"
abbreviation bytestream2_get_be32 :: "get_byte_context \<Rightarrow> (int \<times> get_byte_context) option" where
  "bytestream2_get_be32 \<equiv> bytestream2_get 4 be_value"
abbreviation bytestream2_get_ne16 :: "get_byte_context \<Rightarrow> (int \<times> get_byte_context) option" where
  "bytestream2_get_ne16 \<equiv> bytestream2_get 2 le_value"
abbreviation bytestream2_get_ne32 :: "get_byte_context \<Rightarrow> (int \<times> get_byte_context) option" where
  "bytestream2_get_ne32 \<equiv> bytestream2_get 4 le_value"
abbreviation bytestream2_get_ne64 :: "get_byte_context \<Rightarrow> (int \<times> get_byte_context) option" where
  "bytestream2_get_ne64 \<equiv> bytestream2_get 8 le_value"
abbreviation bytestream2_peek_byte :: "get_byte_context \<Rightarrow> int option" where
  "bytestream2_peek_byte \<equiv> bytestream2_peek 1 be_value"

definition bytestream2_skip :: "get_byte_context \<Rightarrow> int \<Rightarrow> get_byte_context" where
  "bytestream2_skip g n = g\<lparr>g_pos := g_pos g + min (bytestream2_get_bytes_left g) n\<rparr>"

text \<open>\<open>bytestream2_get_buffer\<close> into the array \<open>dst\<close> from offset \<open>at\<close>.\<close>

definition bytestream2_get_buffer :: "get_byte_context \<Rightarrow> byte list \<Rightarrow> int \<Rightarrow> int \<Rightarrow> (get_byte_context \<times> byte list) option" where
  "bytestream2_get_buffer g dst off n =
     (let size2 = min (bytestream2_get_bytes_left g) n in
      case load (g_data g) (g_pos g) (nat size2) of
        None \<Rightarrow> None
      | Some bs \<Rightarrow>
          (case store dst off bs of
             None \<Rightarrow> None | Some dst \<Rightarrow> Some (g\<lparr>g_pos := g_pos g + size2\<rparr>, dst)))"

text \<open>\<open>(int8_t)\<close> of a byte.\<close>

definition int8 :: "int \<Rightarrow> int" where
  "int8 b = (if b \<ge> 128 then b - 256 else b)"

section \<open>The reader stays in the packet\<close>

definition gb_ok :: "get_byte_context \<Rightarrow> bool" where
  "gb_ok g \<longleftrightarrow> 0 \<le> g_pos g \<and> g_pos g \<le> int (length (g_data g))"

text \<open>\<open>advances g h\<close>: \<open>h\<close> is the reader \<open>g\<close> moved forward.\<close>

definition advances :: "get_byte_context \<Rightarrow> get_byte_context \<Rightarrow> bool" where
  "advances g h \<longleftrightarrow> gb_ok h \<and> g_data h = g_data g \<and> g_pos g \<le> g_pos h"

lemma advances_refl: "gb_ok g \<Longrightarrow> advances g g"
  by (simp add: advances_def)

lemma advances_trans [trans]: "advances g h \<Longrightarrow> advances h k \<Longrightarrow> advances g k"
  by (auto simp: advances_def)

lemma advances_ok: "advances g h \<Longrightarrow> gb_ok h"
  by (simp add: advances_def)

lemma advances_left: "advances g h \<Longrightarrow> bytestream2_get_bytes_left h \<le> bytestream2_get_bytes_left g"
  by (simp add: advances_def bytestream2_get_bytes_left_def)

lemma gb_ok_init [simp]: "gb_ok (bytestream2_init buf)"
  by (simp add: gb_ok_def bytestream2_init_def)

lemma left_nonneg: "gb_ok g \<Longrightarrow> 0 \<le> bytestream2_get_bytes_left g"
  by (simp add: gb_ok_def bytestream2_get_bytes_left_def)

lemma get_u_ok:
  assumes "gb_ok g" "int n \<le> bytestream2_get_bytes_left g"
  shows "\<exists>v h. bytestream2_get_u n read g = Some (v, h) \<and> advances g h \<and>
    bytestream2_get_bytes_left h = bytestream2_get_bytes_left g - int n"
  using assms by (simp add: bytestream2_get_u_def bytestream2_get_bytes_left_def gb_ok_def advances_def)

lemma get_ok:
  assumes "gb_ok g"
  shows "\<exists>v h. bytestream2_get n read g = Some (v, h) \<and> advances g h \<and>
    bytestream2_get_bytes_left h = max 0 (bytestream2_get_bytes_left g - int n) \<and>
    (bytestream2_get_bytes_left g < int n \<longrightarrow> v = 0)"
proof (cases "bytestream2_get_bytes_left g < int n")
  case True
  with assms show ?thesis
    by (simp add: bytestream2_get_def bytestream2_get_bytes_left_def gb_ok_def advances_def)
next
  case False
  then show ?thesis using get_u_ok [OF assms, of n read] by (auto simp: bytestream2_get_def)
qed

lemma getE:
  assumes "gb_ok g"
  obtains v h where "bytestream2_get n read g = Some (v, h)" "advances g h"
    "bytestream2_get_bytes_left h = max 0 (bytestream2_get_bytes_left g - int n)"
    "bytestream2_get_bytes_left g < int n \<longrightarrow> v = 0"
  using get_ok [OF assms] by blast

lemma peek_ok: "gb_ok g \<Longrightarrow> \<exists>v. bytestream2_peek n read g = Some v"
  by (simp add: bytestream2_peek_def bytestream2_get_bytes_left_def gb_ok_def)

lemma skip_ok: "gb_ok g \<Longrightarrow> 0 \<le> n \<Longrightarrow> advances g (bytestream2_skip g n)"
  by (auto simp: bytestream2_skip_def advances_def gb_ok_def bytestream2_get_bytes_left_def)

lemma length_le_bytes [simp]: "length (le_bytes n v) = n"
  by (induction n arbitrary: v) auto

text \<open>A little-endian number read from a packet is stored as the bytes it was read from.\<close>

lemma le_bytes_value: "le_bytes (length bs) (le_value bs) = bs"
proof (induction bs)
  case Nil
  then show ?case by simp
next
  case (Cons b bs)
  have "word_of_int (uint b + 256 * le_value bs) = (word_of_int (uint b) :: byte)"
    by (simp only: word_of_int_eq_iff take_bit_eq_mod) simp
  then have "word_of_int (uint b + 256 * le_value bs) = b" by simp
  moreover have "(uint b + 256 * le_value bs) div 256 = le_value bs"
    using uint_lt2p [of b] by simp
  ultimately show ?case using Cons by (simp add: le_value_def)
qed

section \<open>Writing into a plane\<close>

text \<open>
  \<open>agree keep bs cs\<close>: \<open>cs\<close> is \<open>bs\<close> after writes that do not touch the offsets in \<open>keep\<close>.
\<close>

definition agree :: "(nat \<Rightarrow> bool) \<Rightarrow> byte list \<Rightarrow> byte list \<Rightarrow> bool" where
  "agree keep bs cs \<longleftrightarrow> length cs = length bs \<and> (\<forall>k<length bs. keep k \<longrightarrow> cs ! k = bs ! k)"

lemma agree_refl [simp]: "agree keep bs bs"
  by (simp add: agree_def)

lemma agree_trans [trans]: "agree keep bs cs \<Longrightarrow> agree keep cs ds \<Longrightarrow> agree keep bs ds"
  by (simp add: agree_def)

lemma agree_length: "agree keep bs cs \<Longrightarrow> length cs = length bs"
  by (simp add: agree_def)

lemma store_agree:
  assumes "0 \<le> i" "i + int (length ys) \<le> int (length xs)"
    and "\<forall>k. nat i \<le> k \<longrightarrow> k < nat i + length ys \<longrightarrow> \<not> keep k"
  shows "\<exists>zs. store xs i ys = Some zs \<and> agree keep xs zs"
proof -
  have "nat i + length ys \<le> length xs" using assms(1,2) by linarith
  then show ?thesis using assms by (auto simp: agree_def nth_splice)
qed

text \<open>\<open>*p++ = b\<close> for each byte of a list.\<close>

fun put_bytes :: "byte list \<Rightarrow> byte list \<Rightarrow> int \<Rightarrow> (byte list \<times> int) option" where
  "put_bytes [] dst ptr = Some (dst, ptr)"
| "put_bytes (b # bs) dst ptr =
     (case poke dst ptr b of None \<Rightarrow> None | Some dst \<Rightarrow> put_bytes bs dst (ptr + 1))"

lemma put_bytes_agree:
  assumes "0 \<le> ptr" "ptr + int (length bs) \<le> int (length dst)"
    and "\<forall>k. nat ptr \<le> k \<longrightarrow> k < nat ptr + length bs \<longrightarrow> \<not> keep k"
  shows "\<exists>dst'. put_bytes bs dst ptr = Some (dst', ptr + int (length bs)) \<and> agree keep dst dst'"
  using assms
proof (induction bs arbitrary: dst ptr)
  case Nil
  then show ?case by simp
next
  case (Cons b bs)
  let ?d = "dst[nat ptr := b]"
  have "\<not> keep (nat ptr)" using Cons.prems(3) by simp
  then have a: "agree keep dst ?d" by (auto simp: agree_def) (metis nth_list_update_neq)
  have "\<forall>k. nat (ptr + 1) \<le> k \<longrightarrow> k < nat (ptr + 1) + length bs \<longrightarrow> \<not> keep k"
    using Cons.prems(1,3) by auto
  from Cons.IH [where dst = ?d, OF _ _ this] obtain d where
    "put_bytes bs ?d (ptr + 1) = Some (d, ptr + 1 + int (length bs))" "agree keep ?d d"
    using Cons.prems(1,2) by auto
  with a agree_trans show ?case using Cons.prems(1,2) by (auto simp: algebra_simps)
qed

text \<open>The same bytes \<open>n\<close> times, and \<open>n\<close> times what a reader delivers.\<close>

fun repeat_put :: "nat \<Rightarrow> byte list \<Rightarrow> byte list \<Rightarrow> int \<Rightarrow> (byte list \<times> int) option" where
  "repeat_put 0 bs dst ptr = Some (dst, ptr)"
| "repeat_put (Suc n) bs dst ptr =
     (case put_bytes bs dst ptr of None \<Rightarrow> None | Some (dst, ptr) \<Rightarrow> repeat_put n bs dst ptr)"

fun copy_put :: "nat \<Rightarrow> (get_byte_context \<Rightarrow> (byte list \<times> get_byte_context) option) \<Rightarrow> get_byte_context \<Rightarrow>
    byte list \<Rightarrow> int \<Rightarrow> (get_byte_context \<times> byte list \<times> int) option" where
  "copy_put 0 rd g dst ptr = Some (g, dst, ptr)"
| "copy_put (Suc n) rd g dst ptr =
     (case rd g of
        None \<Rightarrow> None
      | Some (bs, g) \<Rightarrow>
          (case put_bytes bs dst ptr of None \<Rightarrow> None | Some (dst, ptr) \<Rightarrow> copy_put n rd g dst ptr))"

lemma below_limit:
  assumes "\<forall>k. int k < limit \<longrightarrow> \<not> keep k" "0 \<le> ptr" "ptr + int m \<le> limit" "nat ptr \<le> k" "k < nat ptr + m"
  shows "\<not> keep k"
proof -
  have "int k < limit" using assms(2-5) by linarith
  then show ?thesis using assms(1) by blast
qed

lemma repeat_put_agree:
  assumes "0 \<le> ptr" "ptr + int n * int (length bs) \<le> limit" "limit \<le> int (length dst)"
    and "\<forall>k. int k < limit \<longrightarrow> \<not> keep k"
  shows "\<exists>dst'. repeat_put n bs dst ptr = Some (dst', ptr + int n * int (length bs)) \<and> agree keep dst dst'"
  using assms(1-3)
proof (induction n arbitrary: dst ptr)
  case 0
  then show ?case by simp
next
  case (Suc n)
  have le: "ptr + int (length bs) \<le> limit"
  proof -
    have "0 \<le> int n * int (length bs)" by simp
    moreover have "ptr + int (length bs) + int n * int (length bs) \<le> limit" using Suc.prems(2) by (simp add: algebra_simps)
    ultimately show ?thesis by linarith
  qed
  have "\<forall>k. nat ptr \<le> k \<longrightarrow> k < nat ptr + length bs \<longrightarrow> \<not> keep k"
    using below_limit [OF assms(4) Suc.prems(1) le] by blast
  moreover have "ptr + int (length bs) \<le> int (length dst)" using le Suc.prems(3) by linarith
  ultimately obtain d where d: "put_bytes bs dst ptr = Some (d, ptr + int (length bs))" "agree keep dst d"
    using put_bytes_agree [OF Suc.prems(1)] by blast
  have "ptr + int (length bs) + int n * int (length bs) \<le> limit" using Suc.prems(2) by (simp add: algebra_simps)
  from Suc.IH [where dst = d, OF _ this] obtain e where
    "repeat_put n bs d (ptr + int (length bs)) = Some (e, ptr + int (length bs) + int n * int (length bs))" "agree keep d e"
    using Suc.prems(1,3) agree_length [OF d(2)] by auto
  moreover have "agree keep dst e" using d(2) calculation(2) by (rule agree_trans)
  ultimately show ?case using d(1) by (simp add: algebra_simps)
qed

text \<open>A reader that delivers \<open>w\<close> bytes.\<close>

definition delivers :: "nat \<Rightarrow> (get_byte_context \<Rightarrow> (byte list \<times> get_byte_context) option) \<Rightarrow> bool" where
  "delivers w rd \<longleftrightarrow> (\<forall>g. gb_ok g \<longrightarrow> (\<exists>bs h. rd g = Some (bs, h) \<and> length bs = w \<and> advances g h))"

lemma copy_put_agree:
  assumes "delivers w rd" "0 \<le> ptr" "ptr + int n * int w \<le> limit" "limit \<le> int (length dst)"
    and "\<forall>k. int k < limit \<longrightarrow> \<not> keep k" "gb_ok g"
  shows "\<exists>h dst'. copy_put n rd g dst ptr = Some (h, dst', ptr + int n * int w) \<and> agree keep dst dst' \<and> advances g h"
  using assms(2-4,6)
proof (induction n arbitrary: dst ptr g)
  case 0
  then show ?case by (simp add: advances_refl)
next
  case (Suc n)
  obtain bs h where r: "rd g = Some (bs, h)" "length bs = w" "advances g h"
    using assms(1) Suc.prems(4) unfolding delivers_def by blast
  have le: "ptr + int (length bs) \<le> limit"
  proof -
    have "0 \<le> int n * int (w)" by simp
    moreover have "ptr + int (w) + int n * int (w) \<le> limit" using Suc.prems(2) by (simp add: algebra_simps)
    ultimately show ?thesis using r(2) by linarith
  qed
  have "\<forall>k. nat ptr \<le> k \<longrightarrow> k < nat ptr + length bs \<longrightarrow> \<not> keep k"
    using below_limit [OF assms(5) Suc.prems(1) le] by blast
  moreover have "ptr + int (length bs) \<le> int (length dst)" using le Suc.prems(3) by linarith
  ultimately obtain d where d: "put_bytes bs dst ptr = Some (d, ptr + int (length bs))" "agree keep dst d"
    using put_bytes_agree [OF Suc.prems(1)] by blast
  have "ptr + int w + int n * int w \<le> limit" using Suc.prems(2) by (simp add: algebra_simps)
  from Suc.IH [OF _ this _ advances_ok [OF r(3)], of d] obtain h' e where
    "copy_put n rd h d (ptr + int w) = Some (h', e, ptr + int w + int n * int w)" "agree keep d e" "advances h h'"
    using Suc.prems(1,3) agree_length [OF d(2)] by auto
  moreover have "agree keep dst e" using d(2) calculation(2) by (rule agree_trans)
  moreover have "advances g h'" using r(3) calculation(3) by (rule advances_trans)
  ultimately show ?case using d(1) r(1,2) by (simp add: algebra_simps)
qed

section \<open>Frames\<close>

text \<open>
  The parts of \<open>AVFrame\<close> and \<open>AVCodecContext\<close> a decoder uses: the first plane (\<open>None\<close> for
  \<open>NULL\<close>), its line size, the palette in the second plane. The functions of \<open>decode.c\<close> are known
  by their results: \<open>reget\<close> is \<open>ff_reget_buffer\<close>, \<open>new_palette\<close> the palette that
  \<open>ff_copy_palette\<close> finds in the packet, \<open>props_ret\<close> and \<open>ref_ret\<close> the results of
  \<open>ff_decode_frame_props\<close> and \<open>av_frame_ref\<close>.
\<close>

text \<open>The pixel formats of the decoders modelled here.\<close>

datatype pix_fmt = AV_PIX_FMT_PAL8 | AV_PIX_FMT_RGB555 | AV_PIX_FMT_RGB24 | AV_PIX_FMT_ARGB

record video_frame =
  plane :: "byte list option"
  linesize :: int
  frame_palette :: "int list"

record codec_context =
  av_width :: int
  av_height :: int
  bits_per_coded_sample :: int
  discard_damaged_percentage :: int

record codec_env =
  reget :: "video_frame \<Rightarrow> int \<times> video_frame"
  new_palette :: "int list option"
  props_ret :: int
  ref_ret :: int

text \<open>What \<open>ff_reget_buffer\<close> promises when it succeeds: a plane of \<open>rows\<close> lines of at least \<open>bytes\<close> bytes.\<close>

definition frame_holds :: "int \<Rightarrow> int \<Rightarrow> video_frame \<Rightarrow> bool" where
  "frame_holds rows bytes f \<longleftrightarrow> 0 \<le> bytes \<and> bytes \<le> linesize f \<and>
     (\<exists>d. plane f = Some d \<and> linesize f * rows \<le> int (length d))"

definition reget_ok :: "int \<Rightarrow> int \<Rightarrow> codec_env \<Rightarrow> bool" where
  "reget_ok rows bytes env \<longleftrightarrow> (\<forall>f. fst (reget env f) \<ge> 0 \<longrightarrow> frame_holds rows bytes (snd (reget env f)))"

end
