(* ===== verification/Qtrle.thy ===== *)
theory Qtrle
  imports Bytestream
begin

text \<open>
  The decoder of QuickTime Animation, \<open>libavcodec/qtrle.c\<close>, for all its pixel formats. The state is
  the packet reader and the plane; \<open>pixel_ptr\<close> is an offset into the plane. A decoding function
  stops (the first component of a result is true) where the C function returns early.
\<close>

section \<open>Runs and copies\<close>

text \<open>\<open>CHECK_PIXEL_PTR(n)\<close> returns when this holds.\<close>

definition bad_ptr :: "int \<Rightarrow> int \<Rightarrow> int \<Rightarrow> bool" where
  "bad_ptr limit ptr n \<longleftrightarrow> ptr + n > limit \<or> ptr + n < 0"

type_synonym rle_step = "int \<Rightarrow> int \<Rightarrow> get_byte_context \<Rightarrow> byte list \<Rightarrow> int \<Rightarrow>
  (bool \<times> get_byte_context \<times> byte list \<times> int) option"

type_synonym pattern = "get_byte_context \<Rightarrow> (byte list \<times> get_byte_context) option"

text \<open>A run: \<open>rd\<close> reads the pattern of \<open>w\<close> bytes that is stored \<open>rle\<close> times.\<close>

definition rle_run :: "nat \<Rightarrow> pattern \<Rightarrow> rle_step" where
  "rle_run w rd limit rle g rgb ptr =
     (case rd g of
        None \<Rightarrow> None
      | Some (pat, g) \<Rightarrow>
          if bad_ptr limit ptr (rle * int w) then Some (True, g, rgb, ptr)
          else (case repeat_put (nat rle) pat rgb ptr of
                  None \<Rightarrow> None | Some (rgb, ptr) \<Rightarrow> Some (False, g, rgb, ptr)))"

text \<open>A copy: what \<open>rd\<close> reads, \<open>w\<close> bytes each time, is stored \<open>k * rle\<close> times.\<close>

definition rle_copy :: "nat \<Rightarrow> int \<Rightarrow> pattern \<Rightarrow> rle_step" where
  "rle_copy w k rd limit rle g rgb ptr =
     (if bad_ptr limit ptr (k * rle * int w) then Some (True, g, rgb, ptr)
      else (case copy_put (nat (k * rle)) rd g rgb ptr of
              None \<Rightarrow> None | Some (g, rgb, ptr) \<Rightarrow> Some (False, g, rgb, ptr)))"

section \<open>One line after the other\<close>

text \<open>
  The inner loop over the codes of a line, shared by the formats of at least two bits per pixel:
  \<open>unit\<close> is the number of bytes a skip advances, \<open>run\<close> and \<open>copy\<close> are the two kinds of code.
\<close>

fun rle_line :: "nat \<Rightarrow> int \<Rightarrow> rle_step \<Rightarrow> rle_step \<Rightarrow> int \<Rightarrow> get_byte_context \<Rightarrow> byte list \<Rightarrow> int \<Rightarrow>
    (bool \<times> get_byte_context \<times> byte list) option" where
  "rle_line 0 unit run copy limit g rgb ptr = None"
| "rle_line (Suc fuel) unit run copy limit g rgb ptr =
     (case bytestream2_get_byte g of
        None \<Rightarrow> None
      | Some (b, g) \<Rightarrow>
          let rle_code = int8 b in
          if rle_code = - 1 then Some (False, g, rgb)
          else if bytestream2_get_bytes_left g < 1 then Some (True, g, rgb)
          else if rle_code = 0 then
            (case bytestream2_get_byte g of
               None \<Rightarrow> None
             | Some (b, g) \<Rightarrow>
                 let ptr = ptr + unit * (b - 1) in
                 if bad_ptr limit ptr 0 then Some (True, g, rgb)
                 else rle_line fuel unit run copy limit g rgb ptr)
          else
            (case (if rle_code < 0 then run limit (- rle_code) g rgb ptr else copy limit rle_code g rgb ptr) of
               None \<Rightarrow> None
             | Some (stop, g, rgb, ptr) \<Rightarrow>
                 if stop then Some (True, g, rgb) else rle_line fuel unit run copy limit g rgb ptr))"

text \<open>The loop over the lines; the fuel of each line is the number of bytes left in the packet.\<close>

fun rle_lines :: "nat \<Rightarrow> int \<Rightarrow> rle_step \<Rightarrow> rle_step \<Rightarrow> int \<Rightarrow> int \<Rightarrow> int \<Rightarrow> get_byte_context \<Rightarrow> byte list \<Rightarrow>
    (get_byte_context \<times> byte list) option" where
  "rle_lines 0 unit run copy limit row_inc row_ptr g rgb = Some (g, rgb)"
| "rle_lines (Suc lines_to_change) unit run copy limit row_inc row_ptr g rgb =
     (case bytestream2_get_byte g of
        None \<Rightarrow> None
      | Some (b, g) \<Rightarrow>
          let ptr = row_ptr + unit * (b - 1) in
          if bad_ptr limit ptr 0 then Some (g, rgb)
          else
            (case rle_line (nat (bytestream2_get_bytes_left g) + 1) unit run copy limit g rgb ptr of
               None \<Rightarrow> None
             | Some (stop, g, rgb) \<Rightarrow>
                 if stop then Some (g, rgb)
                 else rle_lines lines_to_change unit run copy limit row_inc (row_ptr + row_inc) g rgb))"

section \<open>The formats\<close>

text \<open>Readers of patterns: \<open>n\<close> bytes in the order of the packet, a 16-bit pixel, the bits of bytes.\<close>

fun read_bytes :: "nat \<Rightarrow> pattern" where
  "read_bytes 0 g = Some ([], g)"
| "read_bytes (Suc n) g =
     (case bytestream2_get_byte g of
        None \<Rightarrow> None
      | Some (b, g) \<Rightarrow> (case read_bytes n g of None \<Rightarrow> None | Some (bs, g) \<Rightarrow> Some (word_of_int b # bs, g)))"

definition read_be16 :: pattern where
  "read_be16 g = map_option (\<lambda>(v, g). (le_bytes 2 v, g)) (bytestream2_get_be16 g)"

definition read_rgb :: pattern where
  "read_rgb g =
     (case bytestream2_get_ne16 g of
        None \<Rightarrow> None
      | Some (rg, g) \<Rightarrow> map_option (\<lambda>(b, g). (le_bytes 2 rg @ [word_of_int b], g)) (bytestream2_get_byte g))"

definition read_rgb_rgb :: pattern where
  "read_rgb_rgb g =
     (case bytestream2_get_ne32 g of
        None \<Rightarrow> None
      | Some (u, g) \<Rightarrow> map_option (\<lambda>(v, g). (le_bytes 4 u @ le_bytes 2 v, g)) (bytestream2_get_ne16 g))"

definition read_argb :: pattern where
  "read_argb g = map_option (\<lambda>(v, g). (le_bytes 4 v, g)) (bytestream2_get_ne32 g)"

definition read_argb_argb :: pattern where
  "read_argb_argb g = map_option (\<lambda>(v, g). (le_bytes 8 v, g)) (bytestream2_get_ne64 g)"

definition bits_of :: "nat \<Rightarrow> int \<Rightarrow> byte list" where
  "bits_of bpp x = List.map (\<lambda>i. word_of_int (x div 2 ^ (i * bpp) mod 2 ^ bpp)) (rev [0..<8 div bpp])"

definition read_bits :: "nat \<Rightarrow> pattern" where
  "read_bits bpp g = map_option (\<lambda>(x, g). (bits_of bpp x, g)) (bytestream2_get_byte g)"

definition read_16bits :: pattern where
  "read_16bits g =
     (case read_bits 1 g of
        None \<Rightarrow> None | Some (a, g) \<Rightarrow> map_option (\<lambda>(b, g). (a @ b, g)) (read_bits 1 g))"

text \<open>
  The loop of line 170 over the palette indices of a run, \<open>i\<close> counting down from
  \<open>num_pixels - 1\<close>: each peeks at the current byte, which is skipped after its last index.
\<close>

fun peek_indices :: "nat \<Rightarrow> nat \<Rightarrow> nat \<Rightarrow> pattern" where
  "peek_indices bpp num_pixels 0 g = Some ([], g)"
| "peek_indices bpp num_pixels (Suc i) g =
     (case bytestream2_peek_byte g of
        None \<Rightarrow> None
      | Some v \<Rightarrow>
          let pi = word_of_int (v div 2 ^ ((i * bpp) mod 8) mod 2 ^ bpp);
              g = bytestream2_skip g (if i mod (num_pixels div 4) = 0 then 1 else 0)
          in (case peek_indices bpp num_pixels i g of None \<Rightarrow> None | Some (ps, g) \<Rightarrow> Some (pi # ps, g)))"

definition copy_8bpp :: rle_step where
  "copy_8bpp limit rle g rgb ptr =
     (let rle_code = rle * 4 in
      if bad_ptr limit ptr rle_code then Some (True, g, rgb, ptr)
      else (case bytestream2_get_buffer g rgb ptr rle_code of
              None \<Rightarrow> None | Some (g, rgb) \<Rightarrow> Some (False, g, rgb, ptr + rle_code)))"

definition copy_24bpp :: rle_step where
  "copy_24bpp limit rle g rgb ptr =
     (if bad_ptr limit ptr (rle * 3) then Some (True, g, rgb, ptr)
      else
        (case copy_put (nat (rle div 2)) read_rgb_rgb g rgb ptr of
           None \<Rightarrow> None
         | Some (g, rgb, ptr) \<Rightarrow>
             (case copy_put (nat (rle mod 2)) read_rgb g rgb ptr of
                None \<Rightarrow> None | Some (g, rgb, ptr) \<Rightarrow> Some (False, g, rgb, ptr))))"

definition copy_32bpp :: rle_step where
  "copy_32bpp limit rle g rgb ptr =
     (if bad_ptr limit ptr (rle * 4) then Some (True, g, rgb, ptr)
      else
        (case copy_put (nat (rle div 2)) read_argb_argb g rgb ptr of
           None \<Rightarrow> None
         | Some (g, rgb, ptr) \<Rightarrow>
             (case copy_put (nat (rle mod 2)) read_argb g rgb ptr of
                None \<Rightarrow> None | Some (g, rgb, ptr) \<Rightarrow> Some (False, g, rgb, ptr))))"

text \<open>The decoding functions: line size, limit, first line and number of lines, reader and plane.\<close>

type_synonym line_decoder = "int \<Rightarrow> int \<Rightarrow> int \<Rightarrow> nat \<Rightarrow> get_byte_context \<Rightarrow> byte list \<Rightarrow> (get_byte_context \<times> byte list) option"

definition qtrle_decode_2n4bpp :: "nat \<Rightarrow> line_decoder" where
  "qtrle_decode_2n4bpp bpp row_inc limit row_ptr lines_to_change g rgb =
     (let num_pixels = (if bpp = 4 then 8 else 16) in
      rle_lines lines_to_change (int num_pixels)
        (rle_run num_pixels (peek_indices bpp num_pixels num_pixels))
        (rle_copy (num_pixels div 4) 4 (read_bits bpp)) limit row_inc row_ptr g rgb)"

definition qtrle_decode_8bpp :: line_decoder where
  "qtrle_decode_8bpp row_inc limit row_ptr lines_to_change g rgb =
     rle_lines lines_to_change 4 (rle_run 4 (read_bytes 4)) copy_8bpp limit row_inc row_ptr g rgb"

definition qtrle_decode_16bpp :: line_decoder where
  "qtrle_decode_16bpp row_inc limit row_ptr lines_to_change g rgb =
     rle_lines lines_to_change 2 (rle_run 2 read_be16) (rle_copy 2 1 read_be16) limit row_inc row_ptr g rgb"

definition qtrle_decode_24bpp :: line_decoder where
  "qtrle_decode_24bpp row_inc limit row_ptr lines_to_change g rgb =
     rle_lines lines_to_change 3 (rle_run 3 read_rgb) copy_24bpp limit row_inc row_ptr g rgb"

definition qtrle_decode_32bpp :: line_decoder where
  "qtrle_decode_32bpp row_inc limit row_ptr lines_to_change g rgb =
     rle_lines lines_to_change 4 (rle_run 4 read_argb) copy_32bpp limit row_inc row_ptr g rgb"

text \<open>One bit per pixel: the skip byte says whether a new line starts.\<close>

fun loop_1bpp :: "nat \<Rightarrow> int \<Rightarrow> int \<Rightarrow> int \<Rightarrow> int \<Rightarrow> int \<Rightarrow> get_byte_context \<Rightarrow> byte list \<Rightarrow>
    (get_byte_context \<times> byte list) option" where
  "loop_1bpp 0 row_inc limit row_ptr ptr lines_to_change g rgb = None"
| "loop_1bpp (Suc fuel) row_inc limit row_ptr ptr lines_to_change g rgb =
     (if lines_to_change = 0 then Some (g, rgb)
      else
        case bytestream2_get_byte g of
          None \<Rightarrow> None
        | Some (skip, g) \<Rightarrow>
            (case bytestream2_get_byte g of
               None \<Rightarrow> None
             | Some (b, g) \<Rightarrow>
                 let rle_code = int8 b in
                 if rle_code = 0 then Some (g, rgb)
                 else
                   let new_line = (skip \<ge> 128);
                       lines_to_change = (if new_line then lines_to_change - 1 else lines_to_change);
                       row_ptr = (if new_line then row_ptr + row_inc else row_ptr);
                       ptr = (if new_line then row_ptr + 2 * 8 * (skip mod 128) else ptr + 2 * 8 * skip)
                   in
                   if bad_ptr limit ptr 0 then Some (g, rgb)
                   else if rle_code = - 1 then loop_1bpp fuel row_inc limit row_ptr ptr lines_to_change g rgb
                   else
                     (case (if rle_code < 0 then rle_run 16 read_16bits limit (- rle_code) g rgb ptr
                            else rle_copy 8 2 (read_bits 1) limit rle_code g rgb ptr) of
                        None \<Rightarrow> None
                      | Some (stop, g, rgb, ptr) \<Rightarrow>
                          if stop then Some (g, rgb)
                          else loop_1bpp fuel row_inc limit row_ptr ptr lines_to_change g rgb)))"

definition qtrle_decode_1bpp :: line_decoder where
  "qtrle_decode_1bpp row_inc limit row_ptr lines_to_change g rgb =
     loop_1bpp (nat (bytestream2_get_bytes_left g) + 2) row_inc limit (row_ptr - row_inc) (row_ptr - row_inc)
       (int lines_to_change + 1) g rgb"

section \<open>A frame\<close>

record qtrle_context =
  q_frame :: video_frame
  q_pal :: "int list"

text \<open>\<open>memory\<close> says whether the frame can be allocated; the result is the code and the pixel format.\<close>

definition qtrle_decode_init :: "bool \<Rightarrow> int \<Rightarrow> int \<times> pix_fmt option" where
  "qtrle_decode_init memory bits =
     (let fmt = (if bits \<in> {1, 2, 4, 8, 33, 34, 36, 40} then Some AV_PIX_FMT_PAL8
                 else if bits = 16 then Some AV_PIX_FMT_RGB555
                 else if bits = 24 then Some AV_PIX_FMT_RGB24
                 else if bits = 32 then Some AV_PIX_FMT_ARGB else None)
      in if fmt = None then (AVERROR_INVALIDDATA, None)
         else if \<not> memory then (AVERROR_ENOMEM, fmt) else (0, fmt))"

text \<open>Line 498: the formats that \<open>qtrle_decode_init\<close> accepts, and whether they have a palette.\<close>

definition qtrle_depth :: "int \<Rightarrow> (line_decoder \<times> bool) option" where
  "qtrle_depth bits =
     (if bits = 1 \<or> bits = 33 then Some (qtrle_decode_1bpp, True)
      else if bits = 2 \<or> bits = 34 then Some (qtrle_decode_2n4bpp 2, True)
      else if bits = 4 \<or> bits = 36 then Some (qtrle_decode_2n4bpp 4, True)
      else if bits = 8 \<or> bits = 40 then Some (qtrle_decode_8bpp, True)
      else if bits = 16 then Some (qtrle_decode_16bpp, False)
      else if bits = 24 then Some (qtrle_decode_24bpp, False)
      else if bits = 32 then Some (qtrle_decode_32bpp, False)
      else None)"

text \<open>The end of \<open>qtrle_decode_frame\<close> from the label \<open>done\<close>: return value, \<open>*got_frame\<close>, context.\<close>

definition qtrle_finish :: "codec_env \<Rightarrow> int \<Rightarrow> bool \<Rightarrow> qtrle_context \<Rightarrow> int \<times> bool \<times> qtrle_context" where
  "qtrle_finish env pkt_size duplicate s =
     (if plane (q_frame s) = None then (AVERROR_INVALIDDATA, False, s)
      else if duplicate \<and> props_ret env < 0 then (props_ret env, False, s)
      else if ref_ret env < 0 then (ref_ret env, False, s)
      else (pkt_size, True, s))"

definition qtrle_paint :: "codec_env \<Rightarrow> codec_context \<Rightarrow> qtrle_context \<Rightarrow> get_byte_context \<Rightarrow> int \<Rightarrow> nat \<Rightarrow>
    (int + qtrle_context) option" where
  "qtrle_paint env av s g start_line height =
     (case reget env (q_frame s) of
        (ret, f) \<Rightarrow>
          if ret < 0 then Some (Inl ret)
          else
            (case (qtrle_depth (bits_per_coded_sample av), plane f) of
               (None, _) \<Rightarrow> Some (Inr (s\<lparr>q_frame := f\<rparr>))
             | (Some (decode, has_palette), None) \<Rightarrow> None
             | (Some (decode, has_palette), Some rgb) \<Rightarrow>
                 (case decode (linesize f) (linesize f * av_height av) (linesize f * start_line) height g rgb of
                    None \<Rightarrow> None
                  | Some (g, rgb) \<Rightarrow>
                      let pal = (if has_palette then (case new_palette env of None \<Rightarrow> q_pal s | Some p \<Rightarrow> p) else q_pal s);
                          f = f\<lparr>plane := Some rgb, frame_palette := if has_palette then pal else frame_palette f\<rparr>
                      in Some (Inr (s\<lparr>q_frame := f, q_pal := pal\<rparr>)))))"

definition qtrle_decode_frame :: "codec_env \<Rightarrow> codec_context \<Rightarrow> qtrle_context \<Rightarrow> byte list \<Rightarrow>
    (int \<times> bool \<times> qtrle_context) option" where
  "qtrle_decode_frame env av s pkt =
     (let pkt_size = int (length pkt); g = bytestream2_init pkt in
      if pkt_size < 8 then Some (qtrle_finish env pkt_size True s)
      else
        case bytestream2_get_be32 g of
          None \<Rightarrow> None
        | Some (v, g) \<Rightarrow>
            let chunk_size = v mod 1073741824 in
            if chunk_size - pkt_size > c_div (chunk_size * discard_damaged_percentage av) 100
            then Some (AVERROR_INVALIDDATA, False, s)
            else
              (case bytestream2_get_be16 g of
                 None \<Rightarrow> None
               | Some (header, g) \<Rightarrow>
                   (case (if has_flag header 8 then
                            (if pkt_size < 14 then Some None
                             else case bytestream2_get_be16 g of
                                    None \<Rightarrow> None
                                  | Some (start_line, g) \<Rightarrow>
                                      (case bytestream2_get_be16 (bytestream2_skip g 2) of
                                         None \<Rightarrow> None
                                       | Some (height, g) \<Rightarrow>
                                           let g = bytestream2_skip g 2 in
                                           if height > av_height av - start_line then Some None
                                           else Some (Some (start_line, height, g))))
                          else Some (Some (0, av_height av, g))) of
                      None \<Rightarrow> None
                    | Some None \<Rightarrow> Some (qtrle_finish env pkt_size True s)
                    | Some (Some (start_line, height, g)) \<Rightarrow>
                        (case qtrle_paint env av s g start_line (nat height) of
                           None \<Rightarrow> None
                         | Some (Inl ret) \<Rightarrow> Some (ret, False, s)
                         | Some (Inr s) \<Rightarrow> Some (qtrle_finish env pkt_size False s)))))"

section \<open>The decoder stays in the packet and in the plane\<close>

text \<open>
  The contract of a step: it ends with the pointer in the plane, moves the reader forward, and
  writes only below the limit.
\<close>

definition step_ok :: "rle_step \<Rightarrow> bool" where
  "step_ok step \<longleftrightarrow> (\<forall>limit rle g rgb ptr keep.
     gb_ok g \<longrightarrow> 0 < rle \<longrightarrow> 0 \<le> ptr \<longrightarrow> ptr \<le> limit \<longrightarrow> limit \<le> int (length rgb) \<longrightarrow>
     (\<forall>k. int k < limit \<longrightarrow> \<not> keep k) \<longrightarrow>
     (\<exists>stop h d p. step limit rle g rgb ptr = Some (stop, h, d, p) \<and> advances g h \<and> agree keep rgb d \<and>
        0 \<le> p \<and> p \<le> limit))"

lemma step_okI:
  assumes "\<And>limit rle g rgb ptr keep. \<lbrakk>gb_ok g; 0 < rle; 0 \<le> ptr; ptr \<le> limit; limit \<le> int (length rgb);
     \<forall>k. int k < limit \<longrightarrow> \<not> keep k\<rbrakk> \<Longrightarrow>
     \<exists>stop h d p. step limit rle g rgb ptr = Some (stop, h, d, p) \<and> advances g h \<and> agree keep rgb d \<and>
        0 \<le> p \<and> p \<le> limit"
  shows "step_ok step"
  using assms unfolding step_ok_def by blast

lemma rle_run_ok:
  assumes "delivers w rd"
  shows "step_ok (rle_run w rd)"
proof (rule step_okI)
  fix limit rle ptr :: int and g and rgb :: "byte list" and keep :: "nat \<Rightarrow> bool"
  assume a: "gb_ok g" "0 < rle" "0 \<le> ptr" "ptr \<le> limit" "limit \<le> int (length rgb)" "\<forall>k. int k < limit \<longrightarrow> \<not> keep k"
  obtain bs h where r: "rd g = Some (bs, h)" "length bs = w" "advances g h"
    using assms a(1) unfolding delivers_def by blast
  show "\<exists>stop h d p. rle_run w rd limit rle g rgb ptr = Some (stop, h, d, p) \<and> advances g h \<and> agree keep rgb d \<and>
        0 \<le> p \<and> p \<le> limit"
  proof (cases "bad_ptr limit ptr (rle * int w)")
    case True
    with r a(3,4) show ?thesis by (auto simp: rle_run_def)
  next
    case False
    then have "ptr + int (nat rle) * int (length bs) \<le> limit" using a(2) r(2) by (simp add: bad_ptr_def)
    from repeat_put_agree [OF a(3) this a(5,6)] obtain d where
      "repeat_put (nat rle) bs rgb ptr = Some (d, ptr + int (nat rle) * int (length bs))" "agree keep rgb d" by blast
    with False r a(2,3) show ?thesis by (auto simp: rle_run_def bad_ptr_def)
  qed
qed

lemma rle_copy_ok:
  assumes "delivers w rd" "0 \<le> k"
  shows "step_ok (rle_copy w k rd)"
proof (rule step_okI)
  fix limit rle ptr :: int and g and rgb :: "byte list" and keep :: "nat \<Rightarrow> bool"
  assume a: "gb_ok g" "0 < rle" "0 \<le> ptr" "ptr \<le> limit" "limit \<le> int (length rgb)" "\<forall>k. int k < limit \<longrightarrow> \<not> keep k"
  have nn: "0 \<le> k * rle" using assms(2) a(2) by simp
  show "\<exists>stop h d p. rle_copy w k rd limit rle g rgb ptr = Some (stop, h, d, p) \<and> advances g h \<and> agree keep rgb d \<and>
        0 \<le> p \<and> p \<le> limit"
  proof (cases "bad_ptr limit ptr (k * rle * int w)")
    case True
    with a advances_refl show ?thesis by (auto simp: rle_copy_def)
  next
    case False
    then have le: "ptr + int (nat (k * rle)) * int w \<le> limit" using nn by (simp add: bad_ptr_def)
    from copy_put_agree [OF assms(1) a(3) le a(5,6,1)] obtain h d where
      "copy_put (nat (k * rle)) rd g rgb ptr = Some (h, d, ptr + int (nat (k * rle)) * int w)" "agree keep rgb d" "advances g h"
      by blast
    with False nn a(3) show ?thesis by (auto simp: rle_copy_def bad_ptr_def)
  qed
qed

text \<open>Two copies after each other: the pairs of pixels, and the last pixel of an odd number.\<close>

lemma two_copies:
  assumes "delivers (2 * w) rd2" "delivers w rd" "gb_ok g" "0 < rle" "0 \<le> ptr" "ptr + rle * int w \<le> limit"
    and "limit \<le> int (length rgb)" "\<forall>k. int k < limit \<longrightarrow> \<not> keep k"
  shows "\<exists>h1 d1 p1 h d. copy_put (nat (rle div 2)) rd2 g rgb ptr = Some (h1, d1, p1) \<and>
    copy_put (nat (rle mod 2)) rd h1 d1 p1 = Some (h, d, ptr + rle * int w) \<and> advances g h \<and> agree keep rgb d"
proof -
  have split: "rle = 2 * (rle div 2) + rle mod 2" by simp
  have q: "0 \<le> rle div 2" "0 \<le> rle mod 2" using assms(4) by simp_all
  have total: "rle * int w = rle div 2 * int (2 * w) + rle mod 2 * int w"
  proof -
    have "rle * int w = (2 * (rle div 2) + rle mod 2) * int w" using split by simp
    also have "\<dots> = rle div 2 * int (2 * w) + rle mod 2 * int w"
      unfolding distrib_right by (simp add: mult.assoc mult.left_commute)
    finally show ?thesis .
  qed
  have z: "0 \<le> rle mod 2 * int w" using q(2) by simp
  have "int (nat (rle div 2)) * int (2 * w) = rle div 2 * int (2 * w)" using q(1) by simp
  then have le1: "ptr + int (nat (rle div 2)) * int (2 * w) \<le> limit" using assms(6) total z by linarith
  from copy_put_agree [OF assms(1,5) le1 assms(7,8,3)] obtain h1 d1 where
    c1: "copy_put (nat (rle div 2)) rd2 g rgb ptr = Some (h1, d1, ptr + int (nat (rle div 2)) * int (2 * w))"
      "agree keep rgb d1" "advances g h1" by blast
  define p1 where "p1 = ptr + int (nat (rle div 2)) * int (2 * w)"
  have "0 \<le> p1" using assms(5) by (simp add: p1_def)
  moreover have le2: "p1 + int (nat (rle mod 2)) * int w \<le> limit" using assms(6) total q by (simp add: p1_def)
  moreover have "limit \<le> int (length d1)" using assms(7) agree_length [OF c1(2)] by simp
  ultimately obtain h d where
    c2: "copy_put (nat (rle mod 2)) rd h1 d1 p1 = Some (h, d, p1 + int (nat (rle mod 2)) * int w)"
      "agree keep d1 d" "advances h1 h"
    using copy_put_agree [OF assms(2) _ _ _ assms(8) advances_ok [OF c1(3)]] by blast
  have "p1 + int (nat (rle mod 2)) * int w = ptr + rle * int w" using total q by (simp add: p1_def)
  with c1 c2 show ?thesis using agree_trans [OF c1(2) c2(2)] advances_trans [OF c1(3) c2(3)]
    unfolding p1_def [symmetric] by auto
qed

text \<open>The readers deliver what the steps store.\<close>

lemma deliversI:
  assumes "\<And>g. gb_ok g \<Longrightarrow> \<exists>bs h. rd g = Some (bs, h) \<and> length bs = w \<and> advances g h"
  shows "delivers w rd"
  using assms by (simp add: delivers_def)

lemma delivers_get: "delivers w (\<lambda>g. map_option (\<lambda>(v, g). (f v, g)) (bytestream2_get n read g))"
  if "\<And>v. length (f v) = w"
  using that by (intro deliversI) (auto elim: getE [of _ n read])

lemma delivers_read_bytes: "delivers n (read_bytes n)"
proof (rule deliversI)
  fix g
  assume "gb_ok g"
  then show "\<exists>bs h. read_bytes n g = Some (bs, h) \<and> length bs = n \<and> advances g h"
  proof (induction n arbitrary: g)
    case 0
    then show ?case by (simp add: advances_refl)
  next
    case (Suc n)
    obtain v h where v: "bytestream2_get_byte g = Some (v, h)" "advances g h" by (rule getE [OF Suc.prems])
    from Suc.IH [OF advances_ok [OF v(2)]] obtain bs k where
      "read_bytes n h = Some (bs, k)" "length bs = n" "advances h k" by blast
    with v show ?case using advances_trans by auto
  qed
qed

lemma delivers_be16: "delivers 2 read_be16"
  using delivers_get [of "le_bytes 2" 2 2 be_value] by (simp add: read_be16_def [abs_def])

lemma delivers_argb: "delivers 4 read_argb" "delivers 8 read_argb_argb"
  using delivers_get [of "le_bytes 4" 4 4 le_value] delivers_get [of "le_bytes 8" 8 8 le_value]
  by (simp_all add: read_argb_def [abs_def] read_argb_argb_def [abs_def])

lemma delivers_bits: "delivers (8 div bpp) (read_bits bpp)"
  using delivers_get [of "bits_of bpp" "8 div bpp" 1 be_value] by (simp add: read_bits_def [abs_def] bits_of_def)

lemma delivers_two:
  assumes "delivers a ra" "delivers b rb"
    and "\<And>g. rd g = (case ra g of None \<Rightarrow> None | Some (x, g) \<Rightarrow> map_option (\<lambda>(y, g). (x @ y, g)) (rb g))"
  shows "delivers (a + b) rd"
proof (rule deliversI)
  fix g
  assume "gb_ok g"
  with assms(1) obtain x h where x: "ra g = Some (x, h)" "length x = a" "advances g h" unfolding delivers_def by blast
  with assms(2) advances_ok obtain y k where "rb h = Some (y, k)" "length y = b" "advances h k"
    unfolding delivers_def by blast
  with x show "\<exists>bs h. rd g = Some (bs, h) \<and> length bs = a + b \<and> advances g h"
    using advances_trans by (auto simp: assms(3))
qed

lemma delivers_16bits: "delivers 16 read_16bits"
  using delivers_two [OF delivers_bits [of 1] delivers_bits [of 1], of read_16bits] by (simp add: read_16bits_def)

lemma delivers_rgb: "delivers 3 read_rgb"
proof -
  have "delivers (2 + 1) read_rgb"
  proof (rule delivers_two)
    show "delivers 2 (\<lambda>g. map_option (\<lambda>(v, g). (le_bytes 2 v, g)) (bytestream2_get_ne16 g))"
      by (rule delivers_get) simp
    show "delivers 1 (\<lambda>g. map_option (\<lambda>(v, g). ([word_of_int v :: byte], g)) (bytestream2_get_byte g))"
      by (rule delivers_get) simp
    show "read_rgb g = (case map_option (\<lambda>(v, g). (le_bytes 2 v, g)) (bytestream2_get_ne16 g) of None \<Rightarrow> None
        | Some (x, g) \<Rightarrow> map_option (\<lambda>(y, g). (x @ y, g)) (map_option (\<lambda>(v, g). ([word_of_int v], g)) (bytestream2_get_byte g)))" for g
      by (auto simp: read_rgb_def option.map_comp comp_def split_def split: option.splits)
  qed
  then show ?thesis by simp
qed

lemma delivers_rgb_rgb: "delivers 6 read_rgb_rgb"
proof -
  have "delivers (4 + 2) read_rgb_rgb"
  proof (rule delivers_two)
    show "delivers 4 (\<lambda>g. map_option (\<lambda>(v, g). (le_bytes 4 v, g)) (bytestream2_get_ne32 g))"
      by (rule delivers_get) simp
    show "delivers 2 (\<lambda>g. map_option (\<lambda>(v, g). (le_bytes 2 v, g)) (bytestream2_get_ne16 g))"
      by (rule delivers_get) simp
    show "read_rgb_rgb g = (case map_option (\<lambda>(v, g). (le_bytes 4 v, g)) (bytestream2_get_ne32 g) of None \<Rightarrow> None
        | Some (x, g) \<Rightarrow> map_option (\<lambda>(y, g). (x @ y, g)) (map_option (\<lambda>(v, g). (le_bytes 2 v, g)) (bytestream2_get_ne16 g)))" for g
      by (auto simp: read_rgb_rgb_def option.map_comp comp_def split_def split: option.splits)
  qed
  then show ?thesis by simp
qed

lemma delivers_indices: "delivers n (peek_indices bpp m n)"
proof (rule deliversI)
  fix g
  assume "gb_ok g"
  then show "\<exists>bs h. peek_indices bpp m n g = Some (bs, h) \<and> length bs = n \<and> advances g h"
  proof (induction n arbitrary: g)
    case 0
    then show ?case by (simp add: advances_refl)
  next
    case (Suc n)
    obtain v where v: "bytestream2_peek_byte g = Some v" using peek_ok [OF Suc.prems] by blast
    define h where "h = bytestream2_skip g (if n mod (m div 4) = 0 then 1 else 0)"
    have h: "advances g h" unfolding h_def by (rule skip_ok [OF Suc.prems]) simp
    from Suc.IH [OF advances_ok [OF h]] obtain bs k where
      "peek_indices bpp m n h = Some (bs, k)" "length bs = n" "advances h k" by blast
    with v h show ?case using advances_trans by (auto simp: h_def [symmetric] Let_def)
  qed
qed

lemma copy_8bpp_ok: "step_ok copy_8bpp"
proof (rule step_okI)
  fix limit rle ptr :: int and g and rgb :: "byte list" and keep :: "nat \<Rightarrow> bool"
  assume a: "gb_ok g" "0 < rle" "0 \<le> ptr" "ptr \<le> limit" "limit \<le> int (length rgb)" "\<forall>k. int k < limit \<longrightarrow> \<not> keep k"
  show "\<exists>stop h d p. copy_8bpp limit rle g rgb ptr = Some (stop, h, d, p) \<and> advances g h \<and> agree keep rgb d \<and>
        0 \<le> p \<and> p \<le> limit"
  proof (cases "bad_ptr limit ptr (rle * 4)")
    case True
    with a advances_refl show ?thesis by (auto simp: copy_8bpp_def)
  next
    case False
    define m where "m = min (bytestream2_get_bytes_left g) (rle * 4)"
    have m: "0 \<le> m" "m \<le> rle * 4" "g_pos g + m \<le> int (length (g_data g))" "0 \<le> g_pos g"
      using a(1,2) by (auto simp: m_def gb_ok_def bytestream2_get_bytes_left_def)
    have fit: "ptr + rle * 4 \<le> limit" using False by (simp add: bad_ptr_def)
    define bs where "bs = slice (nat (g_pos g)) (nat m) (g_data g)"
    have lb: "length bs = nat m" using m by (simp add: bs_def)
    have ld: "load (g_data g) (g_pos g) (nat m) = Some bs" using m by (simp add: bs_def)
    have "\<forall>k. nat ptr \<le> k \<longrightarrow> k < nat ptr + length bs \<longrightarrow> \<not> keep k"
      using below_limit [OF a(6,3), of "length bs"] lb m fit by simp
    moreover have "ptr + int (length bs) \<le> int (length rgb)" using lb m fit a(5) by simp
    ultimately obtain d where d: "store rgb ptr bs = Some d" "agree keep rgb d"
      using store_agree [OF a(3)] by blast
    have "copy_8bpp limit rle g rgb ptr = Some (False, g\<lparr>g_pos := g_pos g + m\<rparr>, d, ptr + rle * 4)"
      using False ld d(1) by (simp add: copy_8bpp_def bytestream2_get_buffer_def m_def [symmetric] Let_def)
    moreover have "advances g (g\<lparr>g_pos := g_pos g + m\<rparr>)" using a(1) m by (simp add: advances_def gb_ok_def)
    ultimately show ?thesis using d(2) fit a(2,3) by auto
  qed
qed

lemma copy_24bpp_ok: "step_ok copy_24bpp"
proof (rule step_okI)
  fix limit rle ptr :: int and g and rgb :: "byte list" and keep :: "nat \<Rightarrow> bool"
  assume a: "gb_ok g" "0 < rle" "0 \<le> ptr" "ptr \<le> limit" "limit \<le> int (length rgb)" "\<forall>k. int k < limit \<longrightarrow> \<not> keep k"
  show "\<exists>stop h d p. copy_24bpp limit rle g rgb ptr = Some (stop, h, d, p) \<and> advances g h \<and> agree keep rgb d \<and>
        0 \<le> p \<and> p \<le> limit"
  proof (cases "bad_ptr limit ptr (rle * 3)")
    case True
    with a advances_refl show ?thesis by (auto simp: copy_24bpp_def)
  next
    case False
    then have "ptr + rle * int 3 \<le> limit" by (simp add: bad_ptr_def)
    from two_copies [of 3, OF _ delivers_rgb a(1,2,3) this a(5,6), of read_rgb_rgb] delivers_rgb_rgb
    obtain h1 d1 p1 h d where "copy_put (nat (rle div 2)) read_rgb_rgb g rgb ptr = Some (h1, d1, p1)"
      "copy_put (nat (rle mod 2)) read_rgb h1 d1 p1 = Some (h, d, ptr + rle * int 3)" "advances g h" "agree keep rgb d"
      by auto
    with False a(2,3) show ?thesis by (auto simp: copy_24bpp_def bad_ptr_def)
  qed
qed

lemma copy_32bpp_ok: "step_ok copy_32bpp"
proof (rule step_okI)
  fix limit rle ptr :: int and g and rgb :: "byte list" and keep :: "nat \<Rightarrow> bool"
  assume a: "gb_ok g" "0 < rle" "0 \<le> ptr" "ptr \<le> limit" "limit \<le> int (length rgb)" "\<forall>k. int k < limit \<longrightarrow> \<not> keep k"
  show "\<exists>stop h d p. copy_32bpp limit rle g rgb ptr = Some (stop, h, d, p) \<and> advances g h \<and> agree keep rgb d \<and>
        0 \<le> p \<and> p \<le> limit"
  proof (cases "bad_ptr limit ptr (rle * 4)")
    case True
    with a advances_refl show ?thesis by (auto simp: copy_32bpp_def)
  next
    case False
    then have "ptr + rle * int 4 \<le> limit" by (simp add: bad_ptr_def)
    from two_copies [of 4, OF _ delivers_argb(1) a(1,2,3) this a(5,6), of read_argb_argb] delivers_argb(2)
    obtain h1 d1 p1 h d where "copy_put (nat (rle div 2)) read_argb_argb g rgb ptr = Some (h1, d1, p1)"
      "copy_put (nat (rle mod 2)) read_argb h1 d1 p1 = Some (h, d, ptr + rle * int 4)" "advances g h" "agree keep rgb d"
      by auto
    with False a(2,3) show ?thesis by (auto simp: copy_32bpp_def bad_ptr_def)
  qed
qed

text \<open>
  The interface of the two kinds of codes, and what the loops over it guarantee: they end, the
  reader moves forward, and only offsets below the limit are written.
\<close>

locale rle_coder =
  fixes run copy :: rle_step
  assumes run: "step_ok run" and copy: "step_ok copy"
begin

lemma line_ok:
  assumes "\<forall>k. int k < limit \<longrightarrow> \<not> keep k"
    and "gb_ok g" "0 \<le> ptr" "ptr \<le> limit" "limit \<le> int (length rgb)" "nat (bytestream2_get_bytes_left g) < fuel"
  shows "\<exists>stop h d. rle_line fuel unit run copy limit g rgb ptr = Some (stop, h, d) \<and> advances g h \<and> agree keep rgb d"
  using assms(2-6)
proof (induction fuel arbitrary: g rgb ptr)
  case 0
  then show ?case by simp
next
  case (Suc fuel)
  obtain b h where b: "bytestream2_get_byte g = Some (b, h)" "advances g h"
    "bytestream2_get_bytes_left h = max 0 (bytestream2_get_bytes_left g - int 1)"
    by (rule getE [OF Suc.prems(1)])
  note okh = advances_ok [OF b(2)]
  show ?case
  proof (cases "int8 b = - 1 \<or> bytestream2_get_bytes_left h < 1")
    case True
    with b show ?thesis by (auto simp: Let_def)
  next
    case more: False
    then have left: "nat (bytestream2_get_bytes_left h) < fuel" using b(3) Suc.prems(5) by linarith
    have IH: "\<exists>stop k e. rle_line fuel unit run copy limit h' d p = Some (stop, k, e) \<and> advances g k \<and> agree keep rgb e"
      if h': "advances h h'" and d: "agree keep rgb d" and p: "0 \<le> p" "p \<le> limit" for h' d p
    proof -
      have "nat (bytestream2_get_bytes_left h') < fuel" using left advances_left [OF h'] by linarith
      moreover have "limit \<le> int (length d)" using Suc.prems(4) agree_length [OF d] by simp
      ultimately obtain stop k e where
        "rle_line fuel unit run copy limit h' d p = Some (stop, k, e)" "advances h' k" "agree keep d e"
        using Suc.IH [OF advances_ok [OF h'] p] by blast
      with h' d b(2) show ?thesis by (meson advances_trans agree_trans)
    qed
    show ?thesis
    proof (cases "int8 b = 0")
      case True
      obtain c h' where c: "bytestream2_get_byte h = Some (c, h')" "advances h h'" by (rule getE [OF okh])
      define p where "p = ptr + unit * (c - 1)"
      show ?thesis
      proof (cases "bad_ptr limit p 0")
        case bad: True
        then have "rle_line (Suc fuel) unit run copy limit g rgb ptr = Some (True, h', rgb)"
          using b(1) c(1) more True by (simp add: p_def Let_def)
        with advances_trans [OF b(2) c(2)] agree_refl show ?thesis by blast
      next
        case False
        then have "rle_line (Suc fuel) unit run copy limit g rgb ptr = rle_line fuel unit run copy limit h' rgb p"
          using b(1) c(1) more True by (simp add: p_def Let_def)
        moreover have "0 \<le> p" "p \<le> limit" using False by (simp_all add: bad_ptr_def)
        ultimately show ?thesis using IH [OF c(2) agree_refl] by simp
      qed
    next
      case nz: False
      define step where "step = (if int8 b < 0 then run else copy)"
      have "step_ok step" using run copy by (simp add: step_def)
      then obtain stop h' d p where st: "step limit \<bar>int8 b\<bar> h rgb ptr = Some (stop, h', d, p)"
        "advances h h'" "agree keep rgb d" "0 \<le> p" "p \<le> limit"
        using okh nz Suc.prems(2-4) assms(1) unfolding step_ok_def by (metis zero_less_abs_iff)
      have unf: "rle_line (Suc fuel) unit run copy limit g rgb ptr =
          (if stop then Some (True, h', d) else rle_line fuel unit run copy limit h' d p)"
        using b(1) more nz st(1) by (auto simp: step_def Let_def split: if_splits)
      show ?thesis
      proof (cases stop)
        case True
        with st advances_trans [OF b(2) st(2)] show ?thesis unfolding unf by auto
      next
        case False
        with IH [OF st(2-5)] show ?thesis unfolding unf by simp
      qed
    qed
  qed
qed

lemma lines_ok:
  assumes "\<forall>k. int k < limit \<longrightarrow> \<not> keep k" "gb_ok g" "limit \<le> int (length rgb)"
  shows "\<exists>h d. rle_lines n unit run copy limit row_inc row_ptr g rgb = Some (h, d) \<and> advances g h \<and> agree keep rgb d"
  using assms(2,3)
proof (induction n arbitrary: g rgb row_ptr)
  case 0
  then show ?case by (simp add: advances_refl)
next
  case (Suc n)
  obtain b h where b: "bytestream2_get_byte g = Some (b, h)" "advances g h" by (rule getE [OF Suc.prems(1)])
  define p where "p = row_ptr + unit * (b - 1)"
  show ?case
  proof (cases "bad_ptr limit p 0")
    case True
    with b show ?thesis by (simp add: p_def)
  next
    case False
    then have "0 \<le> p" "p \<le> limit" by (simp_all add: bad_ptr_def)
    from line_ok [OF assms(1) advances_ok [OF b(2)] this Suc.prems(2), of "nat (bytestream2_get_bytes_left h) + 1" unit]
    obtain stop h' d where l: "rle_line (nat (bytestream2_get_bytes_left h) + 1) unit run copy limit h rgb p = Some (stop, h', d)"
      "advances h h'" "agree keep rgb d" by auto
    have unf: "rle_lines (Suc n) unit run copy limit row_inc row_ptr g rgb =
        (if stop then Some (h', d) else rle_lines n unit run copy limit row_inc (row_ptr + row_inc) h' d)"
      using b(1) False l(1) by (simp add: p_def Let_def)
    have "limit \<le> int (length d)" using Suc.prems(2) agree_length [OF l(3)] by simp
    from Suc.IH [OF advances_ok [OF l(2)] this, of "row_ptr + row_inc"] obtain k e where
      "rle_lines n unit run copy limit row_inc (row_ptr + row_inc) h' d = Some (k, e)" "advances h' k" "agree keep d e" by blast
    with l(3) advances_trans [OF b(2) l(2)] show ?thesis
      unfolding unf by (cases stop) (auto intro: agree_trans advances_trans)
  qed
qed

end

interpretation qtrle2n4: rle_coder "rle_run num_pixels (peek_indices bpp num_pixels num_pixels)"
    "rle_copy (8 div bpp) 4 (read_bits bpp)" for bpp num_pixels
  by unfold_locales (simp_all add: rle_run_ok delivers_indices rle_copy_ok delivers_bits)

interpretation qtrle8: rle_coder "rle_run 4 (read_bytes 4)" copy_8bpp
  by unfold_locales (simp_all add: rle_run_ok delivers_read_bytes copy_8bpp_ok)

interpretation qtrle16: rle_coder "rle_run 2 read_be16" "rle_copy 2 1 read_be16"
  by unfold_locales (simp_all add: rle_run_ok rle_copy_ok delivers_be16)

interpretation qtrle24: rle_coder "rle_run 3 read_rgb" copy_24bpp
  by unfold_locales (simp_all add: rle_run_ok delivers_rgb copy_24bpp_ok)

interpretation qtrle32: rle_coder "rle_run 4 read_argb" copy_32bpp
  by unfold_locales (simp_all add: rle_run_ok delivers_argb copy_32bpp_ok)

interpretation qtrle1: rle_coder "rle_run 16 read_16bits" "rle_copy 8 2 (read_bits 1)"
  using delivers_bits [of 1] by unfold_locales (simp_all add: rle_run_ok delivers_16bits rle_copy_ok)

lemma loop_1bpp_ok:
  assumes "\<forall>k. int k < limit \<longrightarrow> \<not> keep k" "gb_ok g" "limit \<le> int (length rgb)"
    and "nat (bytestream2_get_bytes_left g) < fuel"
  shows "\<exists>h d. loop_1bpp fuel row_inc limit row_ptr ptr n g rgb = Some (h, d) \<and> advances g h \<and> agree keep rgb d"
  using assms(2-4)
proof (induction fuel arbitrary: g rgb row_ptr ptr n)
  case 0
  then show ?case by simp
next
  case (Suc fuel)
  show ?case
  proof (cases "n = 0")
    case True
    with Suc.prems show ?thesis by (simp add: advances_refl)
  next
    case n: False
    obtain skip h1 where b1: "bytestream2_get_byte g = Some (skip, h1)" "advances g h1" by (rule getE [OF Suc.prems(1)])
    obtain b h where b: "bytestream2_get_byte h1 = Some (b, h)" "advances h1 h"
      "bytestream2_get_bytes_left h = max 0 (bytestream2_get_bytes_left h1 - int 1)"
      "bytestream2_get_bytes_left h1 < int 1 \<longrightarrow> b = 0" by (rule getE [OF advances_ok [OF b1(2)]])
    note adv = advances_trans [OF b1(2) b(2)]
    show ?thesis
    proof (cases "int8 b = 0")
      case True
      with b1(1) b(1) n adv show ?thesis by simp
    next
      case nz: False
      then have "1 \<le> bytestream2_get_bytes_left h1" using b(4) by (cases "bytestream2_get_bytes_left h1 < 1") (auto simp: int8_def)
      then have left: "nat (bytestream2_get_bytes_left h) < fuel"
        using b(3) Suc.prems(3) advances_left [OF b1(2)] by linarith
      define n' where "n' = (if skip \<ge> 128 then n - 1 else n)"
      define row where "row = (if skip \<ge> 128 then row_ptr + row_inc else row_ptr)"
      define p where "p = (if skip \<ge> 128 then row + 2 * 8 * (skip mod 128) else ptr + 2 * 8 * skip)"
      have IH: "\<exists>k e. loop_1bpp fuel row_inc limit row q n' h' d = Some (k, e) \<and> advances g k \<and> agree keep rgb e"
        if h': "advances h h'" and d: "agree keep rgb d" for h' d q
      proof -
        have "nat (bytestream2_get_bytes_left h') < fuel" using left advances_left [OF h'] by linarith
        moreover have "limit \<le> int (length d)" using Suc.prems(2) agree_length [OF d] by simp
        ultimately obtain k e where
          "loop_1bpp fuel row_inc limit row q n' h' d = Some (k, e)" "advances h' k" "agree keep d e"
          using Suc.IH [OF advances_ok [OF h']] by blast
        with h' d adv show ?thesis by (meson advances_trans agree_trans)
      qed
      have unf: "loop_1bpp (Suc fuel) row_inc limit row_ptr ptr n g rgb =
        (if bad_ptr limit p 0 then Some (h, rgb)
         else if int8 b = - 1 then loop_1bpp fuel row_inc limit row p n' h rgb
         else case (if int8 b < 0 then rle_run 16 read_16bits limit (- int8 b) h rgb p
                    else rle_copy 8 2 (read_bits 1) limit (int8 b) h rgb p) of
            None \<Rightarrow> None
          | Some (stop, g, rgb, ptr) \<Rightarrow> if stop then Some (g, rgb) else loop_1bpp fuel row_inc limit row ptr n' g rgb)"
        unfolding loop_1bpp.simps if_not_P [OF n] b1(1) b(1) option.case prod.case Let_def if_not_P [OF nz]
          p_def row_def n'_def ..
      show ?thesis
      proof (cases "bad_ptr limit p 0 \<or> int8 b = - 1")
        case True
        with adv IH [OF advances_refl [OF advances_ok [OF b(2)]] agree_refl, of p] show ?thesis unfolding unf by auto
      next
        case False
        then have p: "0 \<le> p" "p \<le> limit" by (simp_all add: bad_ptr_def)
        define step where "step = (if int8 b < 0 then rle_run 16 read_16bits else rle_copy 8 2 (read_bits 1))"
        have "step_ok step" using qtrle1.run qtrle1.copy by (simp add: step_def)
        then obtain stop h' d q where st: "step limit \<bar>int8 b\<bar> h rgb p = Some (stop, h', d, q)"
          "advances h h'" "agree keep rgb d"
          using advances_ok [OF b(2)] nz p Suc.prems(2) assms(1) unfolding step_ok_def by (metis zero_less_abs_iff)
        have "loop_1bpp (Suc fuel) row_inc limit row_ptr ptr n g rgb =
            (if stop then Some (h', d) else loop_1bpp fuel row_inc limit row q n' h' d)"
          unfolding unf using False st(1) by (auto simp: step_def split: if_splits)
        with st IH [OF st(2,3), of q] advances_trans [OF adv st(2)] show ?thesis by (cases stop) auto
      qed
    qed
  qed
qed

text \<open>Every decoding function, for every packet.\<close>

lemma line_decoder_ok:
  assumes "qtrle_depth bits = Some (decode, has_palette)" "gb_ok g" "limit \<le> int (length rgb)"
    and "\<forall>k. int k < limit \<longrightarrow> \<not> keep k"
  shows "\<exists>h d. decode row_inc limit row_ptr n g rgb = Some (h, d) \<and> agree keep rgb d"
proof -
  have one: "\<exists>h d. qtrle_decode_1bpp row_inc limit row_ptr n g rgb = Some (h, d) \<and> agree keep rgb d"
    unfolding qtrle_decode_1bpp_def
    using loop_1bpp_ok [OF assms(4,2,3), of "nat (bytestream2_get_bytes_left g) + 2"] by fastforce
  have two: "\<exists>h d. qtrle_decode_2n4bpp 2 row_inc limit row_ptr n g rgb = Some (h, d) \<and> agree keep rgb d"
    using qtrle2n4.lines_ok [where bpp = 2 and num_pixels = 16, OF assms(4,2,3)]
    by (fastforce simp: qtrle_decode_2n4bpp_def)
  have four: "\<exists>h d. qtrle_decode_2n4bpp 4 row_inc limit row_ptr n g rgb = Some (h, d) \<and> agree keep rgb d"
    using qtrle2n4.lines_ok [where bpp = 4 and num_pixels = 8, OF assms(4,2,3)]
    by (fastforce simp: qtrle_decode_2n4bpp_def)
  have eight: "\<exists>h d. qtrle_decode_8bpp row_inc limit row_ptr n g rgb = Some (h, d) \<and> agree keep rgb d"
    using qtrle8.lines_ok [OF assms(4,2,3)] by (fastforce simp: qtrle_decode_8bpp_def)
  have rgb555: "\<exists>h d. qtrle_decode_16bpp row_inc limit row_ptr n g rgb = Some (h, d) \<and> agree keep rgb d"
    using qtrle16.lines_ok [OF assms(4,2,3)] by (fastforce simp: qtrle_decode_16bpp_def)
  have rgb24: "\<exists>h d. qtrle_decode_24bpp row_inc limit row_ptr n g rgb = Some (h, d) \<and> agree keep rgb d"
    using qtrle24.lines_ok [OF assms(4,2,3)] by (fastforce simp: qtrle_decode_24bpp_def)
  have argb: "\<exists>h d. qtrle_decode_32bpp row_inc limit row_ptr n g rgb = Some (h, d) \<and> agree keep rgb d"
    using qtrle32.lines_ok [OF assms(4,2,3)] by (fastforce simp: qtrle_decode_32bpp_def)
  from one two four eight rgb555 rgb24 argb assms(1) show ?thesis
    by (auto simp: qtrle_depth_def split: if_splits)
qed

section \<open>Properties\<close>

text \<open>What decoding may change of a frame: the lines of the picture, nothing behind them.\<close>

definition painted :: "codec_context \<Rightarrow> video_frame \<Rightarrow> video_frame \<Rightarrow> bool" where
  "painted av f t \<longleftrightarrow> linesize t = linesize f \<and>
     (plane t = plane f \<or>
      (\<exists>d e. plane f = Some d \<and> plane t = Some e \<and> agree (\<lambda>k. linesize f * av_height av \<le> int k) d e))"

lemma qtrle_paint_ok:
  assumes "reget_ok (av_height av) 0 env" "gb_ok g"
  shows "\<exists>r. qtrle_paint env av s g start_line n = Some r \<and>
    (case r of Inl e \<Rightarrow> e < 0 | Inr t \<Rightarrow> painted av (snd (reget env (q_frame s))) (q_frame t))"
proof -
  obtain ret f where f: "reget env (q_frame s) = (ret, f)" by (metis surj_pair)
  show ?thesis
  proof (cases "ret < 0")
    case True
    with f show ?thesis by (simp add: qtrle_paint_def)
  next
    case False
    with assms(1) f obtain d where d: "plane f = Some d" "linesize f * av_height av \<le> int (length d)"
      unfolding reget_ok_def frame_holds_def by (metis fst_conv not_less snd_conv)
    show ?thesis
    proof (cases "qtrle_depth (bits_per_coded_sample av)")
      case None
      with f False show ?thesis by (simp add: qtrle_paint_def painted_def)
    next
      case (Some a)
      obtain decode pal where a: "a = (decode, pal)" by (metis surj_pair)
      have "\<forall>k. int k < linesize f * av_height av \<longrightarrow> \<not> linesize f * av_height av \<le> int k" by simp
      from line_decoder_ok [OF Some [unfolded a] assms(2) d(2) this, of "linesize f" "linesize f * start_line" n]
      obtain h e where "decode (linesize f) (linesize f * av_height av) (linesize f * start_line) n g d = Some (h, e)"
        "agree (\<lambda>k. linesize f * av_height av \<le> int k) d e" by blast
      with f False Some a d show ?thesis by (simp add: qtrle_paint_def painted_def Let_def)
    qed
  qed
qed

lemma qtrle_finish_cases:
  "\<exists>ret got. qtrle_finish env n duplicate s = (ret, got, s) \<and> (got \<longrightarrow> ret = n)"
  by (auto simp: qtrle_finish_def)

text \<open>
  Property C25: the QuickTime Animation decoder is memory-safe and total: for every packet, every pixel
  format and every state, \<open>qtrle_decode_frame\<close> returns, reads only the packet, and writes only
  inside the lines of the frame that \<open>ff_reget_buffer\<close> returned (\<open>linesize * height\<close> bytes), so
  that a malicious packet cannot reach memory behind the picture.
\<close>

theorem qtrle_decoder_safe:
  assumes "reget_ok (av_height av) 0 env"
  shows "\<exists>ret got t. qtrle_decode_frame env av s pkt = Some (ret, got, t) \<and> (got \<longrightarrow> ret = int (length pkt)) \<and>
    (q_frame t = q_frame s \<or> painted av (snd (reget env (q_frame s))) (q_frame t))"
proof -
  note fin = qtrle_finish_cases [of env "int (length pkt)"]
  show ?thesis
  proof (cases "int (length pkt) < 8")
    case True
    with fin [of True s] show ?thesis by (auto simp: qtrle_decode_frame_def)
  next
    case False
    obtain v g where v: "bytestream2_get_be32 (bytestream2_init pkt) = Some (v, g)" "advances (bytestream2_init pkt) g"
      by (rule getE [OF gb_ok_init])
    obtain header g1 where h: "bytestream2_get_be16 g = Some (header, g1)" "advances g g1"
      by (rule getE [OF advances_ok [OF v(2)]])
    obtain y g2 where y: "bytestream2_get_be16 g1 = Some (y, g2)" "advances g1 g2"
      by (rule getE [OF advances_ok [OF h(2)]])
    have sk: "gb_ok (bytestream2_skip k 2)" if "gb_ok k" for k
      using skip_ok [OF that, of 2] by (simp add: advances_ok)
    obtain lines g3 where l: "bytestream2_get_be16 (bytestream2_skip g2 2) = Some (lines, g3)" "advances (bytestream2_skip g2 2) g3"
      by (rule getE [OF sk [OF advances_ok [OF y(2)]]])
    have paint: "\<exists>ret got t. (case qtrle_paint env av s k st n of None \<Rightarrow> None
            | Some (Inl ret) \<Rightarrow> Some (ret, False, s)
            | Some (Inr s) \<Rightarrow> Some (qtrle_finish env (int (length pkt)) False s)) = Some (ret, got, t) \<and>
        (got \<longrightarrow> ret = int (length pkt)) \<and>
        (q_frame t = q_frame s \<or> painted av (snd (reget env (q_frame s))) (q_frame t))" if "gb_ok k" for k st n
    proof -
      from qtrle_paint_ok [OF assms that] obtain r where r: "qtrle_paint env av s k st n = Some r"
        "case r of Inl e \<Rightarrow> e < 0 | Inr t \<Rightarrow> painted av (snd (reget env (q_frame s))) (q_frame t)" by blast
      show ?thesis
      proof (cases r)
        case (Inl e)
        with r show ?thesis by auto
      next
        case (Inr t)
        with r fin [of False t] show ?thesis by auto
      qed
    qed
    have ok1: "gb_ok g1" and ok3: "gb_ok (bytestream2_skip g3 2)"
      using advances_ok [OF h(2)] sk [OF advances_ok [OF l(2)]] .
    show ?thesis
      using False v(1) h(1) y(1) l(1) paint [OF ok1] paint [OF ok3] fin [of True s]
      unfolding qtrle_decode_frame_def Let_def by (auto simp del: One_nat_def)
  qed
qed

text \<open>Witness data: a packet that paints one line of four pixels, and a frame of that size.\<close>

definition demo_env8 :: codec_env where
  "demo_env8 = \<lparr>reget = (\<lambda>f. (0, f\<lparr>plane := Some (replicate 6 0), linesize := 4\<rparr>)), new_palette = None,
     props_ret = 0, ref_ret = 0\<rparr>"

definition demo_av8 :: codec_context where
  "demo_av8 = \<lparr>av_width = 4, av_height = 1, bits_per_coded_sample = 8, discard_damaged_percentage = 95\<rparr>"

definition demo_qtrle :: qtrle_context where
  "demo_qtrle = \<lparr>q_frame = \<lparr>plane = None, linesize = 0, frame_palette = []\<rparr>, q_pal = replicate 256 0\<rparr>"

definition demo_qtrle_packet :: "byte list" where
  "demo_qtrle_packet = [0, 0, 0, 13, 0, 0, 1, 1, 9, 8, 7, 6, 255]"

lemma demo_qtrle_decodes:
  "map_option (\<lambda>(ret, got, t). (ret, plane (q_frame t)))
     (qtrle_decode_frame demo_env8 demo_av8 demo_qtrle demo_qtrle_packet) = Some (13, Some [9, 8, 7, 6, 0, 0])"
  by code_simp

theorem qtrle_decoder_safe_witness:
  "\<exists>ret got t. qtrle_decode_frame demo_env8 demo_av8 demo_qtrle demo_qtrle_packet = Some (ret, got, t) \<and>
     (q_frame t = q_frame demo_qtrle \<or> linesize (q_frame t) = 4)"
proof -
  have "reget_ok (av_height demo_av8) 0 demo_env8"
    by (simp add: reget_ok_def frame_holds_def demo_av8_def demo_env8_def)
  from qtrle_decoder_safe [OF this, of demo_qtrle demo_qtrle_packet] show ?thesis
    by (auto simp: painted_def demo_env8_def)
qed

end
