(* ===== verification/Blocks.thy ===== *)
theory Blocks
  imports Bytestream
begin

text \<open>
  Painting a block of four by four pixels, the inner loops that \<open>msvideo1.c\<close> and \<open>rpza.c\<close> share, and
  the part of a plane that a picture made of such blocks covers. A pixel is \<open>w\<close> bytes.
\<close>

text \<open>
  \<open>for (pixel_y ...) { for (pixel_x ...) pixels[ptr++] = color; ptr += row_step; }\<close>: \<open>row\<close> and
  \<open>color\<close> compute the pixels from a state \<open>c\<close> of their own, a set of flags or a reader.
\<close>

definition paint_pixel :: "nat \<Rightarrow> (nat \<Rightarrow> nat \<Rightarrow> 'c \<Rightarrow> (byte list \<times> 'c) option) \<Rightarrow> nat \<Rightarrow> nat \<Rightarrow>
    byte list \<times> int \<times> 'c \<Rightarrow> (byte list \<times> int \<times> 'c) option" where
  "paint_pixel w color y x = (\<lambda>(dst, ptr, c).
     (case color y x c of
        None \<Rightarrow> None
      | Some (bs, c) \<Rightarrow>
          (case store dst (int w * ptr) bs of None \<Rightarrow> None | Some dst \<Rightarrow> Some (dst, ptr + 1, c))))"

definition paint_row :: "nat \<Rightarrow> (nat \<Rightarrow> 'c \<Rightarrow> 'c option) \<Rightarrow> (nat \<Rightarrow> nat \<Rightarrow> 'c \<Rightarrow> (byte list \<times> 'c) option) \<Rightarrow> int \<Rightarrow> nat \<Rightarrow>
    byte list \<times> int \<times> 'c \<Rightarrow> (byte list \<times> int \<times> 'c) option" where
  "paint_row w row color row_step y = (\<lambda>(dst, ptr, c).
     (case row y c of
        None \<Rightarrow> None
      | Some c \<Rightarrow>
          (case for_upto 4 (paint_pixel w color y) (dst, ptr, c) of
             None \<Rightarrow> None | Some (dst, ptr, c) \<Rightarrow> Some (dst, ptr + row_step, c))))"

definition paint_block :: "nat \<Rightarrow> (nat \<Rightarrow> 'c \<Rightarrow> 'c option) \<Rightarrow> (nat \<Rightarrow> nat \<Rightarrow> 'c \<Rightarrow> (byte list \<times> 'c) option) \<Rightarrow> int \<Rightarrow>
    int \<Rightarrow> 'c \<Rightarrow> byte list \<Rightarrow> (byte list \<times> 'c) option" where
  "paint_block w row color row_step ptr c dst =
     (case for_upto 4 (paint_row w row color row_step) (dst, ptr, c) of
        None \<Rightarrow> None | Some (dst, ptr, c) \<Rightarrow> Some (dst, c))"

section \<open>A block stays in its place\<close>

text \<open>The place of a pixel is free: it lies in the plane and none of its bytes is to be kept.\<close>

definition free_pixel :: "nat \<Rightarrow> (nat \<Rightarrow> bool) \<Rightarrow> nat \<Rightarrow> int \<Rightarrow> bool" where
  "free_pixel w keep n ptr \<longleftrightarrow> 0 \<le> ptr \<and> int w * ptr + int w \<le> int n \<and>
     (\<forall>k. int w * ptr \<le> int k \<longrightarrow> int k < int w * ptr + int w \<longrightarrow> \<not> keep k)"

lemma paint_pixel_ok:
  assumes "free_pixel w keep (length dst) ptr" "color y x c = Some (bs, c')" "length bs = w"
  shows "\<exists>dst'. paint_pixel w color y x (dst, ptr, c) = Some (dst', ptr + 1, c') \<and> agree keep dst dst'"
proof -
  have nn: "0 \<le> int w * ptr" using assms(1) by (simp add: free_pixel_def)
  have "\<forall>k. nat (int w * ptr) \<le> k \<longrightarrow> k < nat (int w * ptr) + length bs \<longrightarrow> \<not> keep k"
  proof (intro allI impI)
    fix k
    assume "nat (int w * ptr) \<le> k" "k < nat (int w * ptr) + length bs"
    then have "int w * ptr \<le> int k" "int k < int w * ptr + int w" using nn assms(3) by linarith+
    with assms(1) show "\<not> keep k" by (simp add: free_pixel_def)
  qed
  moreover have "int w * ptr + int (length bs) \<le> int (length dst)" using assms(1,3) by (simp add: free_pixel_def)
  ultimately obtain d where "store dst (int w * ptr) bs = Some d" "agree keep dst d"
    using store_agree [OF nn] by blast
  with assms(2) show ?thesis by (simp add: paint_pixel_def)
qed

lemma paint_block_ok:
  assumes free: "\<And>y x. y < 4 \<Longrightarrow> x < 4 \<Longrightarrow> free_pixel w keep (length dst) (ptr + int y * (4 + row_step) + int x)"
    and start: "P 0 c"
    and row: "\<And>y c. y < 4 \<Longrightarrow> P y c \<Longrightarrow> \<exists>c'. row y c = Some c' \<and> Q y 0 c'"
    and color: "\<And>y x c. y < 4 \<Longrightarrow> x < 4 \<Longrightarrow> Q y x c \<Longrightarrow> \<exists>bs c'. color y x c = Some (bs, c') \<and> length bs = w \<and> Q y (Suc x) c'"
    and next_row: "\<And>y c. y < 4 \<Longrightarrow> Q y 4 c \<Longrightarrow> P (Suc y) c"
  shows "\<exists>dst' c'. paint_block w row color row_step ptr c dst = Some (dst', c') \<and> agree keep dst dst' \<and> P 4 c'"
proof -
  let ?at = "\<lambda>y. ptr + int y * (4 + row_step)"
  let ?R = "\<lambda>y (d, p, c). agree keep dst d \<and> p = ?at y \<and> P y c"
  have "\<exists>t. for_upto 4 (paint_row w row color row_step) (dst, ptr, c) = Some t \<and> ?R 4 t"
  proof (rule for_upto_rule [where P = ?R])
    show "?R 0 (dst, ptr, c)" using start by simp
    fix y t
    assume y: "y < 4" and "?R y t"
    then obtain d c1 where t: "t = (d, ?at y, c1)" "agree keep dst d" "P y c1" by (cases t) auto
    obtain c2 where c2: "row y c1 = Some c2" "Q y 0 c2" using row [OF y t(3)] by blast
    let ?X = "\<lambda>x (d, p, c). agree keep dst d \<and> p = ?at y + int x \<and> Q y x c"
    have "\<exists>u. for_upto 4 (paint_pixel w color y) (d, ?at y, c2) = Some u \<and> ?X 4 u"
    proof (rule for_upto_rule [where P = ?X])
      show "?X 0 (d, ?at y, c2)" using t c2 by simp
      fix x u
      assume x: "x < 4" and "?X x u"
      then obtain e c3 where u: "u = (e, ?at y + int x, c3)" "agree keep dst e" "Q y x c3" by (cases u) auto
      obtain bs c4 where c4: "color y x c3 = Some (bs, c4)" "length bs = w" "Q y (Suc x) c4"
        using color [OF y x u(3)] by blast
      have "free_pixel w keep (length e) (?at y + int x)" using free [OF y x] agree_length [OF u(2)] by simp
      from paint_pixel_ok [where color = color and y = y and x = x and c = c3, OF this c4(1,2)] obtain e' where
        "paint_pixel w color y x u = Some (e', ?at y + int x + 1, c4)" "agree keep e e'" unfolding u(1) by blast
      with c4(3) agree_trans [OF u(2)] show "\<exists>v. paint_pixel w color y x u = Some v \<and> ?X (Suc x) v"
        by (auto simp: algebra_simps)
    qed
    then obtain e c5 where e: "for_upto 4 (paint_pixel w color y) (d, ?at y, c2) = Some (e, ?at y + 4, c5)"
      "agree keep dst e" "Q y 4 c5" by auto
    have "paint_row w row color row_step y t = Some (e, ?at (Suc y), c5)"
      using t(1) c2(1) e(1) by (simp add: paint_row_def algebra_simps)
    with e next_row [OF y e(3)] show "\<exists>u. paint_row w row color row_step y t = Some u \<and> ?R (Suc y) u" by simp
  qed
  then show ?thesis by (auto simp: paint_block_def)
qed

section \<open>The picture in the plane\<close>

text \<open>The offsets of a plane outside the first \<open>cols\<close> pixels of the first \<open>rows\<close> lines of \<open>stride\<close> pixels.\<close>

definition outside :: "nat \<Rightarrow> int \<Rightarrow> int \<Rightarrow> int \<Rightarrow> nat \<Rightarrow> bool" where
  "outside w stride rows cols k \<longleftrightarrow>
     \<not> (int k < int w * stride * rows \<and> int k mod (int w * stride) < int w * cols)"

lemma picture_pixel_free:
  assumes "0 < w" "0 \<le> r" "r < rows" "0 \<le> c" "c < cols" "cols \<le> stride" "int w * stride * rows \<le> int n"
  shows "free_pixel w (outside w stride rows cols) n (r * stride + c)"
  unfolding free_pixel_def
proof (intro conjI allI impI)
  have s: "0 < stride" using assms(4-6) by linarith
  show "0 \<le> r * stride + c" using s assms(2,4) by simp
  have rs: "r * stride + stride \<le> stride * rows"
    using mult_left_mono [of "r + 1" rows stride] assms(3) s by (simp add: algebra_simps)
  have end_: "int w * (r * stride + c) + int w \<le> int w * stride * rows"
  proof -
    have "r * stride + c + 1 \<le> stride * rows" using rs assms(5,6) by linarith
    then have "int w * (r * stride + c + 1) \<le> int w * (stride * rows)" by (intro mult_left_mono) auto
    then show ?thesis by (simp add: algebra_simps)
  qed
  then show "int w * (r * stride + c) + int w \<le> int n" using assms(7) by linarith
  fix k
  assume k: "int w * (r * stride + c) \<le> int k" "int k < int w * (r * stride + c) + int w"
  define j where "j = int k - int w * (r * stride + c)"
  have j: "0 \<le> j" "j < int w" using k by (simp_all add: j_def)
  have wc: "int w * c + int w \<le> int w * cols" "int w * cols \<le> int w * stride"
    using mult_left_mono [of "c + 1" cols "int w"] mult_left_mono [of cols stride "int w"] assms(5,6)
    by (simp_all add: algebra_simps)
  have "0 \<le> int w * c" using assms(4) by simp
  then have m: "(int w * c + j) mod (int w * stride) = int w * c + j"
    using j wc by (intro mod_pos_pos_trivial) linarith+
  have "int k = (int w * c + j) + int w * stride * r" by (simp add: j_def algebra_simps)
  then have "int k mod (int w * stride) = (int w * c + j) mod (int w * stride)" by simp
  with m j wc(1) have "int k mod (int w * stride) < int w * cols" by linarith
  with k(2) end_ show "\<not> outside w stride rows cols k" by (simp add: outside_def)
qed

end
