(* ===== verification/Msvideo1.thy ===== *)
theory Msvideo1
  imports Blocks
begin

text \<open>
  The decoder of Microsoft Video 1, \<open>libavcodec/msvideo1.c\<close>. A picture is a grid of blocks, coded
  from the bottom row to the top one; the lines of a block are painted upwards, too. The state
  of the loops is the plane, \<open>stream_ptr\<close>, \<open>skip_blocks\<close> and \<open>total_blocks\<close>; the colors are numbers,
  stored as \<open>w\<close> bytes. A result of true means that the C function returned from inside the loops.
\<close>

section \<open>Blocks\<close>

type_synonym ms_state = "byte list \<times> int \<times> int \<times> int"

text \<open>\<open>CHECK_STREAM_PTR(n)\<close> returns when this holds.\<close>

definition stream_short :: "byte list \<Rightarrow> int \<Rightarrow> int \<Rightarrow> bool" where
  "stream_short buf stream_ptr n \<longleftrightarrow> stream_ptr + n > int (length buf)"

text \<open>\<open>n\<close> colors of \<open>w\<close> bytes from the packet.\<close>

fun read_colors :: "nat \<Rightarrow> nat \<Rightarrow> byte list \<Rightarrow> int \<Rightarrow> int list option" where
  "read_colors w 0 buf ptr = Some []"
| "read_colors w (Suc n) buf ptr =
     (case load buf ptr w of
        None \<Rightarrow> None
      | Some bs \<Rightarrow> map_option (Cons (le_value bs)) (read_colors w n buf (ptr + int w)))"

text \<open>The pixels of the three kinds of block; each pixel of the last two consumes a bit of \<open>flags\<close>.\<close>

definition one_color :: "nat \<Rightarrow> int \<Rightarrow> nat \<Rightarrow> nat \<Rightarrow> int \<Rightarrow> (byte list \<times> int) option" where
  "one_color w color y x flags = Some (le_bytes w color, flags)"

definition two_colors :: "nat \<Rightarrow> int list \<Rightarrow> nat \<Rightarrow> nat \<Rightarrow> int \<Rightarrow> (byte list \<times> int) option" where
  "two_colors w colors y x flags = map_option (\<lambda>v. (le_bytes w v, flags div 2)) (peek colors (1 - flags mod 2))"

definition eight_colors :: "nat \<Rightarrow> int list \<Rightarrow> nat \<Rightarrow> nat \<Rightarrow> int \<Rightarrow> (byte list \<times> int) option" where
  "eight_colors w colors y x flags =
     map_option (\<lambda>v. (le_bytes w v, flags div 2))
       (peek colors (int (y div 2 mod 2) * 4 + int (x div 2 mod 2) * 2 + (1 - flags mod 2)))"

text \<open>The loops over the pixels of a block, which go up by \<open>row_dec = stride + 4\<close> after each line.\<close>

definition ms_paint :: "nat \<Rightarrow> (nat \<Rightarrow> nat \<Rightarrow> int \<Rightarrow> (byte list \<times> int) option) \<Rightarrow> int \<Rightarrow> int \<Rightarrow> int \<Rightarrow> ms_state \<Rightarrow>
    (bool \<times> ms_state) option" where
  "ms_paint w color flags stride block_ptr = (\<lambda>(dst, stream_ptr, skip_blocks, total_blocks).
     (case paint_block w (\<lambda>y c. Some c) color (- (stride + 4)) block_ptr flags dst of
        None \<Rightarrow> None
      | Some (dst, _) \<Rightarrow> Some (False, dst, stream_ptr, skip_blocks, total_blocks - 1)))"

text \<open>The bodies of the inner loops, for 8 and for 16 bits per pixel.\<close>

definition ms_block_8bit :: "byte list \<Rightarrow> int \<Rightarrow> int \<Rightarrow> ms_state \<Rightarrow> (bool \<times> ms_state) option" where
  "ms_block_8bit buf stride block_ptr = (\<lambda>(dst, stream_ptr, skip_blocks, total_blocks).
     (if skip_blocks \<noteq> 0 then Some (False, dst, stream_ptr, skip_blocks - 1, total_blocks - 1)
      else if stream_short buf stream_ptr 2 then Some (True, dst, stream_ptr, skip_blocks, total_blocks)
      else
        (case (peek buf stream_ptr, peek buf (stream_ptr + 1)) of
           (Some byte_a, Some byte_b) \<Rightarrow>
             let a = uint byte_a; b = uint byte_b; stream_ptr = stream_ptr + 2; flags = b * 256 + a in
             if a = 0 \<and> b = 0 \<and> total_blocks = 0 then Some (True, dst, stream_ptr, skip_blocks, total_blocks)
             else if b div 4 = 33 then
               Some (False, dst, stream_ptr, (b - 132) * 256 + a - 1, total_blocks - 1)
             else if b < 128 then
               (if stream_short buf stream_ptr 2 then Some (True, dst, stream_ptr, skip_blocks, total_blocks)
                else
                  (case read_colors 1 2 buf stream_ptr of
                     None \<Rightarrow> None
                   | Some colors \<Rightarrow>
                       ms_paint 1 (two_colors 1 colors) flags stride block_ptr
                         (dst, stream_ptr + 2, skip_blocks, total_blocks)))
             else if b \<ge> 144 then
               (if stream_short buf stream_ptr 8 then Some (True, dst, stream_ptr, skip_blocks, total_blocks)
                else
                  (case read_colors 1 8 buf stream_ptr of
                     None \<Rightarrow> None
                   | Some colors \<Rightarrow>
                       ms_paint 1 (eight_colors 1 colors) flags stride block_ptr
                         (dst, stream_ptr + 8, skip_blocks, total_blocks)))
             else ms_paint 1 (one_color 1 a) flags stride block_ptr (dst, stream_ptr, skip_blocks, total_blocks)
         | _ \<Rightarrow> None)))"

definition ms_block_16bit :: "byte list \<Rightarrow> int \<Rightarrow> int \<Rightarrow> ms_state \<Rightarrow> (bool \<times> ms_state) option" where
  "ms_block_16bit buf stride block_ptr = (\<lambda>(dst, stream_ptr, skip_blocks, total_blocks).
     (if skip_blocks \<noteq> 0 then Some (False, dst, stream_ptr, skip_blocks - 1, total_blocks - 1)
      else if stream_short buf stream_ptr 2 then Some (True, dst, stream_ptr, skip_blocks, total_blocks)
      else
        (case (peek buf stream_ptr, peek buf (stream_ptr + 1)) of
           (Some byte_a, Some byte_b) \<Rightarrow>
             let a = uint byte_a; b = uint byte_b; stream_ptr = stream_ptr + 2; flags = b * 256 + a in
             if a = 0 \<and> b = 0 \<and> total_blocks = 0 then Some (True, dst, stream_ptr, skip_blocks, total_blocks)
             else if b div 4 = 33 then
               Some (False, dst, stream_ptr, (b - 132) * 256 + a - 1, total_blocks - 1)
             else if b < 128 then
               (if stream_short buf stream_ptr 4 then Some (True, dst, stream_ptr, skip_blocks, total_blocks)
                else
                  (case read_colors 2 2 buf stream_ptr of
                     None \<Rightarrow> None
                   | Some colors \<Rightarrow>
                       let stream_ptr = stream_ptr + 4 in
                       if has_flag (hd colors) 32768 then
                         (if stream_short buf stream_ptr 12
                          then Some (True, dst, stream_ptr, skip_blocks, total_blocks)
                          else
                            (case read_colors 2 6 buf stream_ptr of
                               None \<Rightarrow> None
                             | Some six \<Rightarrow>
                                 ms_paint 2 (eight_colors 2 (colors @ six)) flags stride block_ptr
                                   (dst, stream_ptr + 12, skip_blocks, total_blocks)))
                       else
                         ms_paint 2 (two_colors 2 colors) flags stride block_ptr
                           (dst, stream_ptr, skip_blocks, total_blocks)))
             else ms_paint 2 (one_color 2 flags) flags stride block_ptr (dst, stream_ptr, skip_blocks, total_blocks)
         | _ \<Rightarrow> None)))"

section \<open>A picture\<close>

text \<open>The two loops over the blocks, from left to right and from the bottom to the top.\<close>

fun ms_row :: "nat \<Rightarrow> (int \<Rightarrow> ms_state \<Rightarrow> (bool \<times> ms_state) option) \<Rightarrow> int \<Rightarrow> ms_state \<Rightarrow> (bool \<times> ms_state) option" where
  "ms_row 0 block block_ptr s = Some (False, s)"
| "ms_row (Suc block_x) block block_ptr s =
     (case block block_ptr s of
        None \<Rightarrow> None
      | Some (stop, s) \<Rightarrow> if stop then Some (True, s) else ms_row block_x block (block_ptr + 4) s)"

fun ms_rows :: "nat \<Rightarrow> nat \<Rightarrow> (int \<Rightarrow> ms_state \<Rightarrow> (bool \<times> ms_state) option) \<Rightarrow> int \<Rightarrow> ms_state \<Rightarrow>
    (bool \<times> ms_state) option" where
  "ms_rows 0 blocks_wide block stride s = Some (False, s)"
| "ms_rows (Suc y) blocks_wide block stride s =
     (case ms_row blocks_wide block ((int (Suc y) * 4 - 1) * stride) s of
        None \<Rightarrow> None
      | Some (stop, s) \<Rightarrow> if stop then Some (True, s) else ms_rows y blocks_wide block stride s)"

text \<open>Both decoding functions; the palette is in \<open>s->pal\<close>, the pixel format in \<open>avctx->pix_fmt\<close>.\<close>

record msvideo1_context =
  mv_frame :: video_frame
  mode_8bit :: bool
  mv_pix_fmt :: "pix_fmt option"
  mv_pal :: "int list"

definition msvideo1_decode_8bit :: "codec_context \<Rightarrow> byte list \<Rightarrow> msvideo1_context \<Rightarrow> msvideo1_context option" where
  "msvideo1_decode_8bit av buf s =
     (let f = mv_frame s; stride = linesize f;
          blocks_wide = c_div (av_width av) 4; blocks_high = c_div (av_height av) 4
      in case plane f of
           None \<Rightarrow> None
         | Some pixels \<Rightarrow>
             (case ms_rows (nat blocks_high) (nat blocks_wide) (ms_block_8bit buf stride) stride
                (pixels, 0, 0, blocks_wide * blocks_high) of
                None \<Rightarrow> None
              | Some (stop, pixels, _) \<Rightarrow>
                  let f = f\<lparr>plane := Some pixels\<rparr>;
                      f = (if \<not> stop \<and> mv_pix_fmt s = Some AV_PIX_FMT_PAL8 then f\<lparr>frame_palette := mv_pal s\<rparr> else f)
                  in Some (s\<lparr>mv_frame := f\<rparr>)))"

definition msvideo1_decode_16bit :: "codec_context \<Rightarrow> byte list \<Rightarrow> msvideo1_context \<Rightarrow> msvideo1_context option" where
  "msvideo1_decode_16bit av buf s =
     (let f = mv_frame s; stride = c_div (linesize f) 2;
          blocks_wide = c_div (av_width av) 4; blocks_high = c_div (av_height av) 4
      in case plane f of
           None \<Rightarrow> None
         | Some pixels \<Rightarrow>
             (case ms_rows (nat blocks_high) (nat blocks_wide) (ms_block_16bit buf stride) stride
                (pixels, 0, 0, blocks_wide * blocks_high) of
                None \<Rightarrow> None
              | Some (_, pixels, _) \<Rightarrow> Some (s\<lparr>mv_frame := f\<lparr>plane := Some pixels\<rparr>\<rparr>)))"

text \<open>\<open>memory\<close> says whether the frame can be allocated; \<open>AVPALETTE_SIZE\<close> is 1024.\<close>

definition msvideo1_decode_init :: "bool \<Rightarrow> codec_context \<Rightarrow> byte list \<Rightarrow> msvideo1_context \<Rightarrow> int \<times> msvideo1_context" where
  "msvideo1_decode_init memory av extradata s =
     (if av_width av < 4 \<or> av_height av < 4 then (AVERROR_INVALIDDATA, s)
      else
        let s = (if bits_per_coded_sample av = 8 then
                   s\<lparr>mode_8bit := True, mv_pix_fmt := Some AV_PIX_FMT_PAL8,
                     mv_pal := (if length extradata \<ge> 1024
                                then (case read_colors 4 256 extradata 0 of None \<Rightarrow> mv_pal s | Some pal \<Rightarrow> pal)
                                else mv_pal s)\<rparr>
                 else s\<lparr>mode_8bit := False, mv_pix_fmt := Some AV_PIX_FMT_RGB555\<rparr>)
        in if \<not> memory then (AVERROR_ENOMEM, s) else (0, s))"

text \<open>A frame: return value, \<open>*got_frame\<close> and context.\<close>

definition msvideo1_decode_frame :: "codec_env \<Rightarrow> codec_context \<Rightarrow> msvideo1_context \<Rightarrow> byte list \<Rightarrow>
    (int \<times> bool \<times> msvideo1_context) option" where
  "msvideo1_decode_frame env av s buf =
     (if int (length buf) < c_div (c_div (av_width av) 4 * c_div (av_height av) 4) 512
      then Some (AVERROR_INVALIDDATA, False, s)
      else
        (case reget env (mv_frame s) of
           (ret, f) \<Rightarrow>
             if ret < 0 then Some (ret, False, s)
             else
               let s = s\<lparr>mv_frame := f\<rparr>;
                   s = (if mode_8bit s
                        then (case new_palette env of None \<Rightarrow> s | Some pal \<Rightarrow> s\<lparr>mv_pal := pal\<rparr>) else s)
               in (case (if mode_8bit s then msvideo1_decode_8bit av buf s else msvideo1_decode_16bit av buf s) of
                     None \<Rightarrow> None
                   | Some s \<Rightarrow>
                       if ref_ret env < 0 then Some (ref_ret env, False, s)
                       else Some (int (length buf), True, s))))"

section \<open>A block is decoded in its place\<close>

lemma read_colors_ok:
  assumes "0 \<le> ptr" "ptr + int w * int n \<le> int (length buf)"
  shows "\<exists>cs. read_colors w n buf ptr = Some cs \<and> length cs = n"
  using assms
proof (induction n arbitrary: ptr)
  case 0
  then show ?case by simp
next
  case (Suc n)
  have nn: "0 \<le> int w * int n" by simp
  have "ptr + int w + int w * int n \<le> int (length buf)" using Suc.prems(2) by (simp add: algebra_simps)
  moreover from this nn have "ptr + int w \<le> int (length buf)" by linarith
  moreover obtain cs where "read_colors w n buf (ptr + int w) = Some cs" "length cs = n"
    using Suc.IH [of "ptr + int w"] Suc.prems(1) calculation(1) by auto
  ultimately show ?case using Suc.prems(1) by simp
qed

text \<open>A color function is total if it delivers pixels of \<open>w\<close> bytes for all flags.\<close>

definition color_ok :: "nat \<Rightarrow> (nat \<Rightarrow> nat \<Rightarrow> int \<Rightarrow> (byte list \<times> int) option) \<Rightarrow> bool" where
  "color_ok w color \<longleftrightarrow> (\<forall>y x fl. \<exists>bs fl'. color y x fl = Some (bs, fl') \<and> length bs = w)"

lemma one_color_ok: "color_ok w (one_color w v)"
  by (simp add: color_ok_def one_color_def)

lemma flag_index: "0 \<le> 1 - (fl::int) mod 2" "1 - (fl::int) mod 2 \<le> 1"
  by presburger+

lemma two_colors_ok:
  assumes "length cs = 2"
  shows "color_ok w (two_colors w cs)"
  using assms flag_index by (auto simp: color_ok_def two_colors_def peek_def)

lemma eight_colors_ok:
  assumes "length cs = 8"
  shows "color_ok w (eight_colors w cs)"
proof -
  have "\<exists>v. peek cs (int (y div 2 mod 2) * 4 + int (x div 2 mod 2) * 2 + (1 - fl mod 2)) = Some v" for x y :: nat and fl :: int
  proof -
    have "int (y div 2 mod 2) \<le> 1" "int (x div 2 mod 2) \<le> 1" by simp_all
    then have "int (y div 2 mod 2) * 4 + int (x div 2 mod 2) * 2 + (1 - fl mod 2) < int (length cs)"
      using flag_index(2) [of fl] assms by linarith
    moreover have "0 \<le> int (y div 2 mod 2) * 4 + int (x div 2 mod 2) * 2 + (1 - fl mod 2)"
      using flag_index(1) [of fl] by linarith
    ultimately show ?thesis by (simp only: peek_in) simp
  qed
  then show ?thesis unfolding color_ok_def eight_colors_def by fastforce
qed

text \<open>The place of the block whose lower left pixel is at \<open>block_ptr\<close> is free.\<close>

definition free_block :: "nat \<Rightarrow> (nat \<Rightarrow> bool) \<Rightarrow> nat \<Rightarrow> int \<Rightarrow> int \<Rightarrow> bool" where
  "free_block w keep n stride block_ptr \<longleftrightarrow>
     (\<forall>y<4. \<forall>x<4. free_pixel w keep n (block_ptr - int y * stride + int x))"

text \<open>What one step of the inner loop guarantees.\<close>

definition ms_step_ok :: "(nat \<Rightarrow> bool) \<Rightarrow> byte list \<Rightarrow> (bool \<times> ms_state) option \<Rightarrow> bool" where
  "ms_step_ok keep dst r \<longleftrightarrow>
     (\<exists>stop dst' sp skip tot. r = Some (stop, dst', sp, skip, tot) \<and> agree keep dst dst' \<and> 0 \<le> sp)"

lemma ms_step_okI: "agree keep dst dst' \<Longrightarrow> 0 \<le> sp \<Longrightarrow> ms_step_ok keep dst (Some (stop, dst', sp, skip, tot))"
  by (simp add: ms_step_ok_def)

lemma ms_paint_ok:
  assumes "free_block w keep (length dst) stride block_ptr" "color_ok w color" "0 \<le> sp"
  shows "ms_step_ok keep dst (ms_paint w color flags stride block_ptr (dst, sp, skip, tot))"
proof -
  have "\<exists>dst' c'. paint_block w (\<lambda>y c. Some c) color (- (stride + 4)) block_ptr flags dst = Some (dst', c') \<and>
    agree keep dst dst' \<and> True"
  proof (rule paint_block_ok [where P = "\<lambda>_ _. True" and Q = "\<lambda>_ _ _. True"])
    fix y x :: nat
    assume "y < 4" "x < 4"
    with assms(1) have "free_pixel w keep (length dst) (block_ptr - int y * stride + int x)"
      by (simp add: free_block_def)
    then show "free_pixel w keep (length dst) (block_ptr + int y * (4 + - (stride + 4)) + int x)" by simp
  next
    fix y x fl
    show "\<exists>bs c'. color y x fl = Some (bs, c') \<and> length bs = w \<and> True" using assms(2) by (simp add: color_ok_def)
  qed simp_all
  then show ?thesis using assms(3) by (auto simp: ms_paint_def ms_step_ok_def)
qed

lemma ms_block_8bit_ok:
  assumes free: "free_block 1 keep (length dst) stride block_ptr" and sp: "0 \<le> sp"
  shows "ms_step_ok keep dst (ms_block_8bit buf stride block_ptr (dst, sp, skip, tot))"
proof (cases "skip \<noteq> 0 \<or> stream_short buf sp 2")
  case True
  with sp show ?thesis by (auto simp: ms_block_8bit_def intro!: ms_step_okI)
next
  case False
  then have len: "sp + 2 \<le> int (length buf)" by (simp add: stream_short_def)
  have two: "\<exists>cs. read_colors 1 2 buf (sp + 2) = Some cs \<and> length cs = 2" if "\<not> stream_short buf (sp + 2) 2"
    using that sp by (intro read_colors_ok) (simp_all add: stream_short_def)
  have eight: "\<exists>cs. read_colors 1 8 buf (sp + 2) = Some cs \<and> length cs = 8" if "\<not> stream_short buf (sp + 2) 8"
    using that sp by (intro read_colors_ok) (simp_all add: stream_short_def)
  from False sp len two eight show ?thesis
    unfolding ms_block_8bit_def Let_def
    by (auto simp del: One_nat_def intro!: ms_step_okI ms_paint_ok [OF free] one_color_ok two_colors_ok eight_colors_ok)
qed

lemma ms_block_16bit_ok:
  assumes free: "free_block 2 keep (length dst) stride block_ptr" and sp: "0 \<le> sp"
  shows "ms_step_ok keep dst (ms_block_16bit buf stride block_ptr (dst, sp, skip, tot))"
proof (cases "skip \<noteq> 0 \<or> stream_short buf sp 2")
  case True
  with sp show ?thesis by (auto simp: ms_block_16bit_def intro!: ms_step_okI)
next
  case False
  then have len: "sp + 2 \<le> int (length buf)" by (simp add: stream_short_def)
  have two: "\<exists>cs. read_colors 2 2 buf (sp + 2) = Some cs \<and> length cs = 2" if "\<not> stream_short buf (sp + 2) 4"
    using that sp by (intro read_colors_ok) (simp_all add: stream_short_def)
  have eight: "\<exists>cs. read_colors 2 6 buf (sp + 6) = Some cs \<and> length cs = 6" if "\<not> stream_short buf (sp + 6) 12"
    using that sp by (intro read_colors_ok) (simp_all add: stream_short_def)
  from False sp len two eight show ?thesis
    unfolding ms_block_16bit_def Let_def
    by (auto simp del: One_nat_def simp: add.assoc
          intro!: ms_step_okI ms_paint_ok [OF free] one_color_ok two_colors_ok eight_colors_ok)
qed

section \<open>The grid of blocks\<close>

text \<open>
  The interface between the loops over the blocks and the code of a block, which promises to stay
  in the place of the block, whatever the packet holds. Both pixel formats provide it.
\<close>

locale block_coder =
  fixes w :: nat
    and block :: "byte list \<Rightarrow> int \<Rightarrow> int \<Rightarrow> ms_state \<Rightarrow> (bool \<times> ms_state) option"
  assumes pixel_bytes: "0 < w"
    and block_ok: "free_block w keep (length dst) stride block_ptr \<Longrightarrow> 0 \<le> sp \<Longrightarrow>
      ms_step_ok keep dst (block buf stride block_ptr (dst, sp, skip, tot))"
begin

lemma blockE:
  assumes "free_block w keep (length dst) stride block_ptr" "0 \<le> sp"
  obtains stop dst' sp' skip' tot' where
    "block buf stride block_ptr (dst, sp, skip, tot) = Some (stop, dst', sp', skip', tot')"
    "agree keep dst dst'" "0 \<le> sp'"
  using block_ok [OF assms, of buf skip tot] unfolding ms_step_ok_def by blast

lemma row_ok:
  assumes "\<forall>x<n. free_block w keep (length dst) stride (block_ptr + 4 * int x)" "0 \<le> sp"
  shows "ms_step_ok keep dst (ms_row n (block buf stride) block_ptr (dst, sp, skip, tot))"
  using assms
proof (induction n arbitrary: dst block_ptr sp skip tot)
  case 0
  then show ?case by (simp add: ms_step_okI)
next
  case (Suc n)
  have "free_block w keep (length dst) stride block_ptr" using Suc.prems(1) by (auto dest: spec [of _ 0])
  then obtain stop d sp' skip' tot' where
    b: "block buf stride block_ptr (dst, sp, skip, tot) = Some (stop, d, sp', skip', tot')" "agree keep dst d" "0 \<le> sp'"
    using Suc.prems(2) by (rule blockE)
  show ?case
  proof (cases stop)
    case True
    with b show ?thesis by (simp add: ms_step_okI)
  next
    case False
    have "\<forall>x<n. free_block w keep (length d) stride (block_ptr + 4 + 4 * int x)"
    proof (intro allI impI)
      fix x
      assume "x < n"
      with Suc.prems(1) have "free_block w keep (length dst) stride (block_ptr + 4 * int (Suc x))" by blast
      then show "free_block w keep (length d) stride (block_ptr + 4 + 4 * int x)"
        using agree_length [OF b(2)] by (simp add: algebra_simps)
    qed
    from Suc.IH [OF this b(3), of skip' tot'] have
      "ms_step_ok keep d (ms_row n (block buf stride) (block_ptr + 4) (d, sp', skip', tot'))" .
    with b False agree_trans [OF b(2)] show ?thesis by (auto simp: ms_step_ok_def)
  qed
qed

lemma rows_ok:
  assumes "\<forall>y<n. \<forall>x<wide. free_block w keep (length dst) stride ((int (Suc y) * 4 - 1) * stride + 4 * int x)" "0 \<le> sp"
  shows "ms_step_ok keep dst (ms_rows n wide (block buf stride) stride (dst, sp, skip, tot))"
  using assms
proof (induction n arbitrary: dst sp skip tot)
  case 0
  then show ?case by (simp add: ms_step_okI)
next
  case (Suc n)
  have "\<forall>x<wide. free_block w keep (length dst) stride ((int (Suc n) * 4 - 1) * stride + 4 * int x)"
    using Suc.prems(1) by blast
  from row_ok [OF this Suc.prems(2), of buf skip tot] obtain stop d sp' skip' tot' where
    b: "ms_row wide (block buf stride) ((int (Suc n) * 4 - 1) * stride) (dst, sp, skip, tot) = Some (stop, d, sp', skip', tot')"
      "agree keep dst d" "0 \<le> sp'"
    unfolding ms_step_ok_def by blast
  show ?case
  proof (cases stop)
    case True
    with b show ?thesis by (simp add: ms_step_okI)
  next
    case False
    have "\<forall>y<n. \<forall>x<wide. free_block w keep (length d) stride ((int (Suc y) * 4 - 1) * stride + 4 * int x)"
      using Suc.prems(1) agree_length [OF b(2)] by simp
    from Suc.IH [OF this b(3), of skip' tot'] have
      "ms_step_ok keep d (ms_rows n wide (block buf stride) stride (d, sp', skip', tot'))" .
    with b False agree_trans [OF b(2)] show ?thesis by (auto simp: ms_step_ok_def)
  qed
qed

text \<open>The blocks of a picture are free in a plane that holds it.\<close>

lemma picture_ok:
  assumes "4 * int wide \<le> stride" "int w * stride * (4 * int high) \<le> int (length dst)"
  shows "ms_step_ok (outside w stride (4 * int high) (4 * int wide)) dst
    (ms_rows high wide (block buf stride) stride (dst, 0, 0, tot))"
proof (rule rows_ok)
  show "\<forall>y<high. \<forall>x<wide. free_block w (outside w stride (4 * int high) (4 * int wide)) (length dst) stride
      ((int (Suc y) * 4 - 1) * stride + 4 * int x)"
    unfolding free_block_def
  proof (intro allI impI)
    fix y x j i :: nat
    assume b: "y < high" "x < wide" "j < 4" "i < 4"
    let ?r = "4 * int y + 3 - int j" and ?c = "4 * int x + int i"
    have "free_pixel w (outside w stride (4 * int high) (4 * int wide)) (length dst) (?r * stride + ?c)"
      using b assms pixel_bytes by (intro picture_pixel_free) linarith+
    then show "free_pixel w (outside w stride (4 * int high) (4 * int wide)) (length dst)
        ((int (Suc y) * 4 - 1) * stride + 4 * int x - int j * stride + int i)"
      by (simp add: algebra_simps)
  qed
qed simp

end

interpretation ms8: block_coder 1 ms_block_8bit
  by unfold_locales (simp_all add: ms_block_8bit_ok [simplified])

interpretation ms16: block_coder 2 ms_block_16bit
  by unfold_locales (simp_all add: ms_block_16bit_ok)

section \<open>Properties\<close>

definition pixel_width :: "msvideo1_context \<Rightarrow> int" where
  "pixel_width s = (if mode_8bit s then 1 else 2)"

text \<open>What decoding may change of a frame: the whole blocks of the picture.\<close>

definition ms_painted :: "codec_context \<Rightarrow> int \<Rightarrow> video_frame \<Rightarrow> video_frame \<Rightarrow> bool" where
  "ms_painted av w f t \<longleftrightarrow> linesize t = linesize f \<and>
     (\<exists>d e. plane f = Some d \<and> plane t = Some e \<and>
        agree (outside (nat w) (linesize f div w) (4 * (av_height av div 4)) (4 * (av_width av div 4))) d e)"

text \<open>A plane that holds the picture holds its grid of blocks.\<close>

lemma grid_fits:
  assumes "frame_holds (av_height av) (w * av_width av) f" "4 \<le> av_width av" "4 \<le> av_height av" "0 < w" "plane f = Some d"
  shows "4 * int (nat (av_width av div 4)) \<le> linesize f div w"
    "w * (linesize f div w) * (4 * int (nat (av_height av div 4))) \<le> int (length d)" "0 \<le> linesize f"
proof -
  have f: "w * av_width av \<le> linesize f" "linesize f * av_height av \<le> int (length d)"
    using assms(1,5) by (auto simp: frame_holds_def)
  have "av_width av \<le> linesize f div w" using zdiv_mono1 [OF f(1) assms(4)] assms(4) by simp
  then show "4 * int (nat (av_width av div 4)) \<le> linesize f div w" using assms(2) by linarith
  have "0 \<le> w * av_width av" using assms(2,4) by simp
  with f show ls: "0 \<le> linesize f" by linarith
  have "w * (linesize f div w) \<le> linesize f"
    by (simp add: minus_mod_eq_mult_div [symmetric] assms(4))
  moreover have "4 * int (nat (av_height av div 4)) \<le> av_height av" using assms(3) by linarith
  ultimately have "w * (linesize f div w) * (4 * int (nat (av_height av div 4))) \<le> linesize f * av_height av"
    using ls by (intro mult_mono) auto
  with f(2) show "w * (linesize f div w) * (4 * int (nat (av_height av div 4))) \<le> int (length d)" by linarith
qed

lemma decode_8bit_ok:
  assumes "frame_holds (av_height av) (1 * av_width av) (mv_frame s)" "4 \<le> av_width av" "4 \<le> av_height av"
  shows "\<exists>t. msvideo1_decode_8bit av buf s = Some t \<and> ms_painted av 1 (mv_frame s) (mv_frame t) \<and> mode_8bit t = mode_8bit s"
proof -
  obtain d where d: "plane (mv_frame s) = Some d" using assms(1) by (auto simp: frame_holds_def)
  have n: "int (nat (av_width av div 4)) = av_width av div 4" "int (nat (av_height av div 4)) = av_height av div 4"
    using assms(2,3) by simp_all
  note fits = grid_fits [OF assms _ d]
  have b: "c_div (av_width av) 4 = av_width av div 4" "c_div (av_height av) 4 = av_height av div 4"
    using assms(2,3) by (simp_all add: c_div_nonneg)
  from ms8.picture_ok [of "nat (av_width av div 4)" "linesize (mv_frame s)" "nat (av_height av div 4)" d buf
      "av_width av div 4 * (av_height av div 4)", simplified n] fits [simplified n]
  show ?thesis by (auto simp: msvideo1_decode_8bit_def ms_painted_def ms_step_ok_def d b Let_def)
qed

lemma decode_16bit_ok:
  assumes "frame_holds (av_height av) (2 * av_width av) (mv_frame s)" "4 \<le> av_width av" "4 \<le> av_height av"
  shows "\<exists>t. msvideo1_decode_16bit av buf s = Some t \<and> ms_painted av 2 (mv_frame s) (mv_frame t) \<and> mode_8bit t = mode_8bit s"
proof -
  obtain d where d: "plane (mv_frame s) = Some d" using assms(1) by (auto simp: frame_holds_def)
  have n: "int (nat (av_width av div 4)) = av_width av div 4" "int (nat (av_height av div 4)) = av_height av div 4"
    using assms(2,3) by simp_all
  note fits = grid_fits [OF assms _ d]
  have b: "c_div (av_width av) 4 = av_width av div 4" "c_div (av_height av) 4 = av_height av div 4"
    "c_div (linesize (mv_frame s)) 2 = linesize (mv_frame s) div 2"
    using assms(2,3) fits(3) by (simp_all add: c_div_nonneg)
  from ms16.picture_ok [of "nat (av_width av div 4)" "linesize (mv_frame s) div 2" "nat (av_height av div 4)" d buf
      "av_width av div 4 * (av_height av div 4)", simplified n] fits [simplified n]
  show ?thesis by (auto simp: msvideo1_decode_16bit_def ms_painted_def ms_step_ok_def d b Let_def)
qed

text \<open>
  Property C26: the Microsoft Video 1 decoder is memory-safe and total: for every packet, in both
  pixel formats, \<open>msvideo1_decode_frame\<close> returns, reads only the packet, and writes only pixels
  of the whole blocks of the picture: not the padding of the lines, not the lines below the last
  row of blocks, and nothing outside the frame \<open>ff_reget_buffer\<close> returned. The size of the picture
  is at least four by four, which \<open>msvideo1_decode_init\<close> checks.
\<close>

theorem msvideo1_decoder_safe:
  assumes "msvideo1_decode_init memory av extradata s0 = (0, s1)" and "mode_8bit s = mode_8bit s1"
    and "reget_ok (av_height av) (pixel_width s * av_width av) env"
  shows "\<exists>ret got t. msvideo1_decode_frame env av s buf = Some (ret, got, t) \<and> (got \<longrightarrow> ret = int (length buf)) \<and>
    mode_8bit t = mode_8bit s1 \<and>
    (mv_frame t = mv_frame s \<or> ms_painted av (pixel_width s) (snd (reget env (mv_frame s))) (mv_frame t))"
proof -
  have dims: "4 \<le> av_width av" "4 \<le> av_height av"
    using assms(1) by (auto simp: msvideo1_decode_init_def AVERROR_INVALIDDATA_value split: if_splits)
  obtain ret f where f: "reget env (mv_frame s) = (ret, f)" by (metis surj_pair)
  show ?thesis
  proof (cases "int (length buf) < c_div (c_div (av_width av) 4 * c_div (av_height av) 4) 512 \<or> ret < 0")
    case True
    with f assms(2) show ?thesis by (auto simp: msvideo1_decode_frame_def)
  next
    case False
    with assms(3) f have h: "frame_holds (av_height av) (pixel_width s * av_width av) f"
      unfolding reget_ok_def by (metis fst_conv not_less snd_conv)
    define s2 where "s2 = (if mode_8bit s then (case new_palette env of None \<Rightarrow> s\<lparr>mv_frame := f\<rparr>
      | Some pal \<Rightarrow> s\<lparr>mv_frame := f, mv_pal := pal\<rparr>) else s\<lparr>mv_frame := f\<rparr>)"
    have s2: "mv_frame s2 = f" "mode_8bit s2 = mode_8bit s" by (simp_all add: s2_def split: option.split)
    obtain t where t: "(if mode_8bit s then msvideo1_decode_8bit av buf s2 else msvideo1_decode_16bit av buf s2) = Some t"
      "ms_painted av (pixel_width s) f (mv_frame t)" "mode_8bit t = mode_8bit s"
      using decode_8bit_ok [of av s2 buf] decode_16bit_ok [of av s2 buf] h dims s2
      by (cases "mode_8bit s") (auto simp: pixel_width_def)
    have "msvideo1_decode_frame env av s buf =
        (if ref_ret env < 0 then Some (ref_ret env, False, t) else Some (int (length buf), True, t))"
      using False f t(1) s2_def
      by (cases "mode_8bit s"; cases "new_palette env") (auto simp: msvideo1_decode_frame_def Let_def)
    with t f assms(2) show ?thesis by auto
  qed
qed

text \<open>Witness data: a packet with one block of two colors, and a frame with a byte of padding per line.\<close>

definition demo_ms_env :: codec_env where
  "demo_ms_env = \<lparr>reget = (\<lambda>f. (0, f\<lparr>plane := Some (replicate 21 0), linesize := 5\<rparr>)), new_palette = None,
     props_ret = 0, ref_ret = 0\<rparr>"

definition demo_ms_av :: codec_context where
  "demo_ms_av = \<lparr>av_width = 4, av_height = 4, bits_per_coded_sample = 8, discard_damaged_percentage = 95\<rparr>"

definition demo_ms :: msvideo1_context where
  "demo_ms = \<lparr>mv_frame = \<lparr>plane = None, linesize = 0, frame_palette = []\<rparr>, mode_8bit = True,
     mv_pix_fmt = Some AV_PIX_FMT_PAL8, mv_pal = []\<rparr>"

lemma demo_ms_decodes:
  "map_option (\<lambda>(ret, got, t). (ret, plane (mv_frame t)))
     (msvideo1_decode_frame demo_ms_env demo_ms_av demo_ms [15, 0, 7, 9]) =
   Some (4, Some [9, 9, 9, 9, 0, 9, 9, 9, 9, 0, 9, 9, 9, 9, 0, 7, 7, 7, 7, 0, 0])"
  by code_simp

theorem msvideo1_decoder_safe_witness:
  "\<exists>ret got t. msvideo1_decode_frame demo_ms_env demo_ms_av demo_ms [15, 0, 7, 9] = Some (ret, got, t) \<and>
     (mv_frame t = mv_frame demo_ms \<or> linesize (mv_frame t) = 5)"
proof -
  have "msvideo1_decode_init True demo_ms_av [] demo_ms = (0, demo_ms)"
    by (simp add: msvideo1_decode_init_def demo_ms_av_def demo_ms_def)
  moreover have "reget_ok (av_height demo_ms_av) (pixel_width demo_ms * av_width demo_ms_av) demo_ms_env"
    by (simp add: reget_ok_def frame_holds_def demo_ms_av_def demo_ms_env_def demo_ms_def pixel_width_def)
  ultimately show ?thesis
    using msvideo1_decoder_safe [of True demo_ms_av "[]" demo_ms demo_ms demo_ms demo_ms_env "[15, 0, 7, 9]"]
    by (auto simp: ms_painted_def demo_ms_env_def)
qed

end
