(* ===== verification/Rpza.thy ===== *)
theory Rpza
  imports Blocks
begin

text \<open>
  The decoder of QuickTime video, \<open>libavcodec/rpza.c\<close>. The picture is filled with blocks from left
  to right and from top to bottom; its plane has whole blocks also at the right and lower borders,
  since \<open>avcodec_align_dimensions2\<close> of \<open>libavcodec/utils.c\<close> aligns both sizes to four for this
  codec. Pixels are 16-bit numbers; \<open>row_ptr\<close>, \<open>pixel_ptr\<close> and \<open>stride\<close> count pixels.
\<close>

section \<open>Blocks\<close>

text \<open>The local variables of \<open>rpza_decode_stream\<close>, with the packet reader and the plane.\<close>

record rpza_state =
  r_gb :: get_byte_context
  r_pixels :: "byte list"
  row_ptr :: int
  pixel_ptr :: int
  total_blocks :: int
  colorA :: int

text \<open>\<open>ADVANCE_BLOCK()\<close>.\<close>

definition advance_block :: "int \<Rightarrow> int \<Rightarrow> rpza_state \<Rightarrow> rpza_state" where
  "advance_block width stride s =
     (let p = pixel_ptr s + 4 in
      if p \<ge> width then s\<lparr>pixel_ptr := 0, row_ptr := row_ptr s + stride * 4, total_blocks := total_blocks s - 1\<rparr>
      else s\<lparr>pixel_ptr := p, total_blocks := total_blocks s - 1\<rparr>)"

text \<open>
  \<open>while (n_blocks--) { CHECK_BLOCK(); paint; ADVANCE_BLOCK(); }\<close>: the code is 0, or that of
  \<open>CHECK_BLOCK\<close>.
\<close>

fun block_loop :: "nat \<Rightarrow> (rpza_state \<Rightarrow> rpza_state option) \<Rightarrow> int \<Rightarrow> int \<Rightarrow> rpza_state \<Rightarrow> (int \<times> rpza_state) option" where
  "block_loop 0 paint width stride s = Some (0, s)"
| "block_loop (Suc n) paint width stride s =
     (if total_blocks s < 1 then Some (AVERROR_INVALIDDATA, s)
      else
        (case paint s of
           None \<Rightarrow> None | Some s \<Rightarrow> block_loop n paint width stride (advance_block width stride s)))"

text \<open>A negative counter would run away: it counts as undefined behaviour.\<close>

definition while_blocks :: "int \<Rightarrow> (rpza_state \<Rightarrow> rpza_state option) \<Rightarrow> int \<Rightarrow> int \<Rightarrow> rpza_state \<Rightarrow>
    (int \<times> rpza_state) option" where
  "while_blocks n_blocks paint width stride s =
     (if n_blocks < 0 then None else block_loop (nat n_blocks) paint width stride s)"

text \<open>One color.\<close>

definition fill_block :: "int \<Rightarrow> rpza_state \<Rightarrow> rpza_state option" where
  "fill_block stride s =
     (case paint_block 2 (\<lambda>y c. Some c) (\<lambda>y x c. Some (le_bytes 2 (colorA s), c)) (stride - 4)
        (row_ptr s + pixel_ptr s) () (r_pixels s) of
        None \<Rightarrow> None | Some (pixels, _) \<Rightarrow> Some (s\<lparr>r_pixels := pixels\<rparr>))"

text \<open>Four colors: two of them are mixed from \<open>colorA\<close> and \<open>colorB\<close>, component by component.\<close>

definition mix :: "nat \<Rightarrow> int \<Rightarrow> int \<Rightarrow> int \<Rightarrow> int \<Rightarrow> int" where
  "mix shift wa wb a b =
     (let ta = a div 2 ^ shift mod 32; tb = b div 2 ^ shift mod 32 in (wa * ta + wb * tb) div 32 * 2 ^ shift)"

definition color4 :: "int \<Rightarrow> int \<Rightarrow> int list" where
  "color4 a b =
     [b,
      or (or (mix 10 11 21 a b) (mix 5 11 21 a b)) (mix 0 11 21 a b),
      or (or (mix 10 21 11 a b) (mix 5 21 11 a b)) (mix 0 21 11 a b),
      a]"

text \<open>The painting state is \<open>index\<close>, read anew for each line of the block, and the reader.\<close>

definition index_row :: "nat \<Rightarrow> int \<times> get_byte_context \<Rightarrow> (int \<times> get_byte_context) option" where
  "index_row y = (\<lambda>(_, g). bytestream2_get_u 1 be_value g)"

definition index_color :: "int list \<Rightarrow> nat \<Rightarrow> nat \<Rightarrow> int \<times> get_byte_context \<Rightarrow>
    (byte list \<times> int \<times> get_byte_context) option" where
  "index_color colors y x = (\<lambda>(index, g).
     map_option (\<lambda>v. (le_bytes 2 v, index, g)) (peek colors (index div 2 ^ (2 * (3 - x)) mod 4)))"

definition indexed_block :: "int list \<Rightarrow> int \<Rightarrow> rpza_state \<Rightarrow> rpza_state option" where
  "indexed_block colors stride s =
     (case paint_block 2 index_row (index_color colors) (stride - 4) (row_ptr s + pixel_ptr s) (0, r_gb s) (r_pixels s) of
        None \<Rightarrow> None | Some (pixels, _, g) \<Rightarrow> Some (s\<lparr>r_pixels := pixels, r_gb := g\<rparr>))"

text \<open>Sixteen colors, of which the first is \<open>colorA\<close>; the others are read unchecked.\<close>

definition next_color :: "nat \<Rightarrow> nat \<Rightarrow> int \<times> get_byte_context \<Rightarrow> (byte list \<times> int \<times> get_byte_context) option" where
  "next_color y x = (\<lambda>(a, g).
     map_option (\<lambda>(v, g). (le_bytes 2 v, v, g))
       (if y \<noteq> 0 \<or> x \<noteq> 0 then bytestream2_get_u 2 be_value g else Some (a, g)))"

definition raw_block :: "int \<Rightarrow> rpza_state \<Rightarrow> rpza_state option" where
  "raw_block stride s =
     (case paint_block 2 (\<lambda>y c. Some c) next_color (stride - 4) (row_ptr s + pixel_ptr s) (colorA s, r_gb s) (r_pixels s) of
        None \<Rightarrow> None | Some (pixels, a, g) \<Rightarrow> Some (s\<lparr>r_pixels := pixels, colorA := a, r_gb := g\<rparr>))"

section \<open>Opcodes\<close>

text \<open>The case of four colors, from the label of the fake opcode on.\<close>

definition four_colors :: "int \<Rightarrow> int \<Rightarrow> int \<Rightarrow> rpza_state \<Rightarrow> (int \<times> rpza_state) option" where
  "four_colors width stride n_blocks s =
     (case bytestream2_get_be16 (r_gb s) of
        None \<Rightarrow> None
      | Some (colorB, g) \<Rightarrow>
          let s = s\<lparr>r_gb := g\<rparr> in
          if bytestream2_get_bytes_left g < n_blocks * 4 then Some (AVERROR_INVALIDDATA, s)
          else while_blocks n_blocks (indexed_block (color4 (colorA s) colorB) stride) width stride s)"

text \<open>The \<open>switch\<close>; \<open>op\<close> is \<open>opcode & 0xe0\<close>.\<close>

definition rpza_switch :: "int \<Rightarrow> int \<Rightarrow> int \<Rightarrow> int \<Rightarrow> rpza_state \<Rightarrow> (int \<times> rpza_state) option" where
  "rpza_switch width stride op n_blocks s =
     (if op = 0x80 then while_blocks n_blocks Some width stride s
      else if op = 0xa0 then
        (case bytestream2_get_be16 (r_gb s) of
           None \<Rightarrow> None
         | Some (a, g) \<Rightarrow> while_blocks n_blocks (fill_block stride) width stride (s\<lparr>colorA := a, r_gb := g\<rparr>))
      else if op = 0xc0 then
        (case bytestream2_get_be16 (r_gb s) of
           None \<Rightarrow> None
         | Some (a, g) \<Rightarrow> four_colors width stride n_blocks (s\<lparr>colorA := a, r_gb := g\<rparr>))
      else if op = 0x20 then four_colors width stride n_blocks s
      else if op = 0 then
        (if bytestream2_get_bytes_left (r_gb s) < 30 then Some (AVERROR_INVALIDDATA, s)
         else while_blocks 1 (raw_block stride) width stride s)
      else Some (AVERROR_INVALIDDATA, s))"

text \<open>The opcode, the number of blocks and \<open>colorA\<close>: a byte below 128 starts a color.\<close>

definition read_opcode :: "rpza_state \<Rightarrow> (int \<times> int \<times> rpza_state) option" where
  "read_opcode s =
     (case bytestream2_get_byte (r_gb s) of
        None \<Rightarrow> None
      | Some (opcode, g) \<Rightarrow>
          let n_blocks = opcode mod 32 + 1; s = s\<lparr>r_gb := g\<rparr> in
          if opcode \<ge> 128 then Some (opcode, n_blocks, s)
          else
            (case bytestream2_get_byte g of
               None \<Rightarrow> None
             | Some (b, g) \<Rightarrow>
                 let s = s\<lparr>colorA := opcode * 256 + b, r_gb := g\<rparr> in
                 (case bytestream2_peek_byte g of
                    None \<Rightarrow> None
                  | Some p \<Rightarrow> if p \<ge> 128 then Some (0x20, 1, s) else Some (0, n_blocks, s))))"

text \<open>The main loop; its fuel is one more than the number of bytes left.\<close>

fun rpza_loop :: "nat \<Rightarrow> int \<Rightarrow> int \<Rightarrow> rpza_state \<Rightarrow> (int \<times> rpza_state) option" where
  "rpza_loop 0 width stride s = None"
| "rpza_loop (Suc fuel) width stride s =
     (if bytestream2_get_bytes_left (r_gb s) = 0 then Some (0, s)
      else
        (case read_opcode s of
           None \<Rightarrow> None
         | Some (opcode, n_blocks, s) \<Rightarrow>
             (case rpza_switch width stride (opcode div 32 * 32) (min n_blocks (total_blocks s)) s of
                None \<Rightarrow> None
              | Some (ret, s) \<Rightarrow> if ret < 0 then Some (ret, s) else rpza_loop fuel width stride s)))"

section \<open>A frame\<close>

record rpza_context =
  rz_frame :: video_frame
  rz_pix_fmt :: "pix_fmt option"
  rz_gb :: get_byte_context

definition rpza_decode_stream :: "codec_env \<Rightarrow> codec_context \<Rightarrow> rpza_context \<Rightarrow> (int \<times> rpza_context) option" where
  "rpza_decode_stream env av s =
     (case bytestream2_get_be32 (rz_gb s) of
        None \<Rightarrow> None
      | Some (_, g) \<Rightarrow>
          let s = s\<lparr>rz_gb := g\<rparr>; blocks = c_div (av_width av + 3) 4 * c_div (av_height av + 3) 4 in
          if c_div blocks 32 > bytestream2_get_bytes_left g then Some (AVERROR_INVALIDDATA, s)
          else
            (case reget env (rz_frame s) of
               (ret, f) \<Rightarrow>
                 if ret < 0 then Some (ret, s)
                 else
                   (case plane f of
                      None \<Rightarrow> None
                    | Some pixels \<Rightarrow>
                        (case rpza_loop (nat (bytestream2_get_bytes_left g) + 1) (av_width av) (c_div (linesize f) 2)
                           \<lparr>r_gb = g, r_pixels = pixels, row_ptr = 0, pixel_ptr = 0, total_blocks = blocks, colorA = 0\<rparr> of
                           None \<Rightarrow> None
                         | Some (ret, r) \<Rightarrow>
                             Some (ret, s\<lparr>rz_frame := f\<lparr>plane := Some (r_pixels r)\<rparr>, rz_gb := r_gb r\<rparr>)))))"

definition rpza_decode_init :: "bool \<Rightarrow> rpza_context \<Rightarrow> int \<times> rpza_context" where
  "rpza_decode_init memory s =
     (let s = s\<lparr>rz_pix_fmt := Some AV_PIX_FMT_RGB555\<rparr> in if \<not> memory then (AVERROR_ENOMEM, s) else (0, s))"

definition rpza_decode_frame :: "codec_env \<Rightarrow> codec_context \<Rightarrow> rpza_context \<Rightarrow> byte list \<Rightarrow>
    (int \<times> bool \<times> rpza_context) option" where
  "rpza_decode_frame env av s pkt =
     (case rpza_decode_stream env av (s\<lparr>rz_gb := bytestream2_init pkt\<rparr>) of
        None \<Rightarrow> None
      | Some (ret, s) \<Rightarrow>
          if ret < 0 then Some (ret, False, s)
          else if ref_ret env < 0 then Some (ref_ret env, False, s)
          else Some (int (length pkt), True, s))"

section \<open>A block is painted in its place\<close>

definition block_free :: "(nat \<Rightarrow> bool) \<Rightarrow> int \<Rightarrow> rpza_state \<Rightarrow> bool" where
  "block_free keep stride s \<longleftrightarrow>
     (\<forall>y<4. \<forall>x<4. free_pixel 2 keep (length (r_pixels s)) (row_ptr s + pixel_ptr s + int y * stride + int x))"

lemma block_freeD:
  assumes "block_free keep stride s" "y < 4" "x < 4"
  shows "free_pixel 2 keep (length (r_pixels s)) (row_ptr s + pixel_ptr s + int y * (4 + (stride - 4)) + int x)"
  using assms by (simp add: block_free_def)

text \<open>
  The interface between the loops over the blocks and the painting of a block: it stays in its
  place, consumes \<open>cost\<close> bytes of the packet, and leaves the position of the block alone.
\<close>

definition stays :: "(nat \<Rightarrow> bool) \<Rightarrow> rpza_state \<Rightarrow> rpza_state \<Rightarrow> bool" where
  "stays keep s t \<longleftrightarrow> agree keep (r_pixels s) (r_pixels t) \<and> advances (r_gb s) (r_gb t)"

lemma stays_trans [trans]: "stays keep s t \<Longrightarrow> stays keep t u \<Longrightarrow> stays keep s u"
  unfolding stays_def by (blast intro: agree_trans advances_trans)

locale block_painter =
  fixes cost :: int and paint :: "int \<Rightarrow> rpza_state \<Rightarrow> rpza_state option"
  assumes cost_nonneg: "0 \<le> cost"
    and paint_ok: "\<lbrakk>block_free keep stride s; gb_ok (r_gb s); cost \<le> bytestream2_get_bytes_left (r_gb s)\<rbrakk> \<Longrightarrow>
      \<exists>t. paint stride s = Some t \<and> stays keep s t \<and>
        bytestream2_get_bytes_left (r_gb t) = bytestream2_get_bytes_left (r_gb s) - cost \<and>
        row_ptr t = row_ptr s \<and> pixel_ptr t = pixel_ptr s \<and> total_blocks t = total_blocks s"

begin

lemma paintE:
  assumes "block_free keep stride s" "gb_ok (r_gb s)" "cost \<le> bytestream2_get_bytes_left (r_gb s)"
  obtains t where "paint stride s = Some t" "stays keep s t"
    "bytestream2_get_bytes_left (r_gb t) = bytestream2_get_bytes_left (r_gb s) - cost"
    "row_ptr t = row_ptr s" "pixel_ptr t = pixel_ptr s" "total_blocks t = total_blocks s"
  using paint_ok [OF assms] by blast

end

lemma skip_painter: "block_painter 0 (\<lambda>stride. Some)"
  by unfold_locales (simp_all add: stays_def advances_refl)

lemma fill_painter: "block_painter 0 fill_block"
proof
  fix keep stride and s :: rpza_state
  assume a: "block_free keep stride s" "gb_ok (r_gb s)" "0 \<le> bytestream2_get_bytes_left (r_gb s)"
  have "\<exists>d c. paint_block 2 (\<lambda>y c. Some c) (\<lambda>y x c. Some (le_bytes 2 (colorA s), c)) (stride - 4)
      (row_ptr s + pixel_ptr s) () (r_pixels s) = Some (d, c) \<and> agree keep (r_pixels s) d \<and> True"
    by (rule paint_block_ok [where P = "\<lambda>_ _. True" and Q = "\<lambda>_ _ _. True"]) (auto intro: block_freeD [OF a(1), simplified])
  then obtain d where "paint_block 2 (\<lambda>y c. Some c) (\<lambda>y x c. Some (le_bytes 2 (colorA s), c)) (stride - 4)
      (row_ptr s + pixel_ptr s) () (r_pixels s) = Some (d, ())" "agree keep (r_pixels s) d" by auto
  with a show "\<exists>t. fill_block stride s = Some t \<and> stays keep s t \<and>
      bytestream2_get_bytes_left (r_gb t) = bytestream2_get_bytes_left (r_gb s) - 0 \<and>
      row_ptr t = row_ptr s \<and> pixel_ptr t = pixel_ptr s \<and> total_blocks t = total_blocks s"
    by (simp add: fill_block_def stays_def advances_refl)
qed simp

lemma length_color4 [simp]: "length (color4 a b) = 4"
  by (simp add: color4_def)

lemma index_color_ok:
  assumes "length colors = 4"
  shows "\<exists>bs. index_color colors y x (index, g) = Some (bs, index, g) \<and> length bs = 2"
proof -
  have "\<exists>v. peek colors (k mod 4) = Some v" for k :: int
    using assms by (simp add: peek_def)
  then show ?thesis unfolding index_color_def by fastforce
qed

text \<open>The reader after some unchecked reads: \<open>used\<close> bytes further.\<close>

definition used :: "get_byte_context \<Rightarrow> int \<Rightarrow> get_byte_context \<Rightarrow> bool" where
  "used g n h \<longleftrightarrow> advances g h \<and> bytestream2_get_bytes_left h = bytestream2_get_bytes_left g - n"

lemma used_get_u:
  assumes "used g m h" "m + int n \<le> bytestream2_get_bytes_left g"
  shows "\<exists>v k. bytestream2_get_u n read h = Some (v, k) \<and> used g (m + int n) k"
proof -
  have "gb_ok h" "int n \<le> bytestream2_get_bytes_left h" using assms by (auto simp: used_def advances_ok)
  from get_u_ok [OF this, of read] assms(1) show ?thesis unfolding used_def by (auto intro: advances_trans)
qed

lemma indexed_painter:
  assumes "length colors = 4"
  shows "block_painter 4 (indexed_block colors)"
proof
  fix keep stride and s :: rpza_state
  let ?g = "r_gb s"
  assume a: "block_free keep stride s" "gb_ok ?g" "4 \<le> bytestream2_get_bytes_left ?g"
  let ?P = "\<lambda>y (_ :: int, h). used ?g (int y) h" and ?Q = "\<lambda>y (x :: nat) (_ :: int, h). used ?g (int y + 1) h"
  have "\<exists>d c. paint_block 2 index_row (index_color colors) (stride - 4) (row_ptr s + pixel_ptr s) (0, ?g) (r_pixels s) =
      Some (d, c) \<and> agree keep (r_pixels s) d \<and> ?P 4 c"
  proof (rule paint_block_ok [where P = ?P and Q = ?Q])
    show "?P 0 (0, ?g)" using a(2) by (simp add: used_def advances_refl)
  next
    fix y c
    assume y: "y < (4 :: nat)" and P: "?P y c"
    obtain i h where c: "c = (i, h)" by (cases c)
    from used_get_u [of ?g "int y" h 1 be_value] y P a(3) c show "\<exists>c'. index_row y c = Some c' \<and> ?Q y 0 c'"
      by (auto simp: index_row_def)
  next
    fix y x c
    assume "?Q y x c"
    then show "\<exists>bs c'. index_color colors y x c = Some (bs, c') \<and> length bs = 2 \<and> ?Q y (Suc x) c'"
      using index_color_ok [OF assms, of y x "fst c" "snd c"] by (cases c) fastforce
  next
    fix y c
    assume "?Q y 4 c"
    then show "?P (Suc y) c" by (cases c) (simp add: algebra_simps)
  qed (rule block_freeD [OF a(1)])
  then obtain d i h where "paint_block 2 index_row (index_color colors) (stride - 4) (row_ptr s + pixel_ptr s) (0, ?g)
      (r_pixels s) = Some (d, i, h)" "agree keep (r_pixels s) d" "used ?g 4 h" by auto
  then show "\<exists>t. indexed_block colors stride s = Some t \<and> stays keep s t \<and>
      bytestream2_get_bytes_left (r_gb t) = bytestream2_get_bytes_left ?g - 4 \<and>
      row_ptr t = row_ptr s \<and> pixel_ptr t = pixel_ptr s \<and> total_blocks t = total_blocks s"
    by (simp add: indexed_block_def stays_def used_def)
qed simp

text \<open>The first pixel of the block of sixteen colors consumes nothing, the others two bytes each.\<close>

lemma raw_painter: "block_painter 30 raw_block"
proof
  fix keep stride and s :: rpza_state
  let ?g = "r_gb s"
  assume a: "block_free keep stride s" "gb_ok ?g" "30 \<le> bytestream2_get_bytes_left ?g"
  let ?R = "\<lambda>y x (_ :: int, h). used ?g (max 0 (int (8 * y + 2 * x) - 2)) h"
  have "\<exists>d c. paint_block 2 (\<lambda>y c. Some c) next_color (stride - 4) (row_ptr s + pixel_ptr s) (colorA s, ?g) (r_pixels s) =
      Some (d, c) \<and> agree keep (r_pixels s) d \<and> (\<lambda>y. ?R y 0) 4 c"
  proof (rule paint_block_ok [where P = "\<lambda>y. ?R y 0" and Q = ?R])
    show "?R 0 0 (colorA s, ?g)" using a(2) by (simp add: used_def advances_refl)
  next
    fix y x c
    assume yx: "y < (4 :: nat)" "x < (4 :: nat)" and R: "?R y x c"
    obtain v h where c: "c = (v, h)" by (cases c)
    show "\<exists>bs c'. next_color y x c = Some (bs, c') \<and> length bs = 2 \<and> ?R y (Suc x) c'"
    proof (cases "y = 0 \<and> x = 0")
      case True
      with R c show ?thesis by (simp add: next_color_def)
    next
      case False
      have at: "max 0 (int (8 * y + 2 * x) - 2) = int (8 * y + 2 * x) - 2"
        "max 0 (int (8 * y + 2 * Suc x) - 2) = int (8 * y + 2 * x) - 2 + int 2" using False by auto
      have "int (8 * y + 2 * x) - 2 + int 2 \<le> bytestream2_get_bytes_left ?g" using yx a(3) by linarith
      with R c at(1) obtain w k where "bytestream2_get_u 2 be_value h = Some (w, k)" "used ?g (int (8 * y + 2 * x) - 2 + int 2) k"
        using used_get_u [of ?g "int (8 * y + 2 * x) - 2" h 2 be_value] by auto
      with False c show ?thesis unfolding next_color_def at(2) [unfolded mult_Suc_right] by (auto simp: at(2))
    qed
  qed (auto intro: block_freeD [OF a(1), simplified])
  then obtain d v h where "paint_block 2 (\<lambda>y c. Some c) next_color (stride - 4) (row_ptr s + pixel_ptr s) (colorA s, ?g)
      (r_pixels s) = Some (d, v, h)" "agree keep (r_pixels s) d" "used ?g 30 h" by auto
  then show "\<exists>t. raw_block stride s = Some t \<and> stays keep s t \<and>
      bytestream2_get_bytes_left (r_gb t) = bytestream2_get_bytes_left ?g - 30 \<and>
      row_ptr t = row_ptr s \<and> pixel_ptr t = pixel_ptr s \<and> total_blocks t = total_blocks s"
    by (simp add: raw_block_def stays_def used_def)
qed simp

section \<open>The loops over the blocks\<close>

text \<open>
  A picture of \<open>W * H\<close> blocks in lines of \<open>stride\<close> pixels, and the invariant: the block at hand is
  the one the counter says, and its place is in the plane as long as the counter is positive.
\<close>

definition grid_ok :: "int \<Rightarrow> int \<Rightarrow> int \<Rightarrow> bool" where
  "grid_ok W width stride \<longleftrightarrow> 0 < W \<and> width \<le> 4 * W \<and> 4 * W < width + 4 \<and> 4 * W \<le> stride"

definition cursor :: "int \<Rightarrow> int \<Rightarrow> int \<Rightarrow> rpza_state \<Rightarrow> bool" where
  "cursor W H stride s \<longleftrightarrow> (\<exists>bx by. 0 \<le> bx \<and> bx < W \<and> 0 \<le> by \<and> pixel_ptr s = 4 * bx \<and>
     row_ptr s = 4 * by * stride \<and> total_blocks s = (H - by) * W - bx) \<and> 0 \<le> total_blocks s"

definition rpza_inv :: "int \<Rightarrow> int \<Rightarrow> int \<Rightarrow> rpza_state \<Rightarrow> bool" where
  "rpza_inv W H stride s \<longleftrightarrow> cursor W H stride s \<and> gb_ok (r_gb s) \<and> 8 * stride * H \<le> int (length (r_pixels s))"

abbreviation picture :: "int \<Rightarrow> int \<Rightarrow> int \<Rightarrow> nat \<Rightarrow> bool" where
  "picture W H stride \<equiv> outside 2 stride (4 * H) (4 * W)"

lemma cursor_block_free:
  assumes "grid_ok W width stride" "rpza_inv W H stride s" "1 \<le> total_blocks s"
  shows "block_free (picture W H stride) stride s"
proof -
  obtain bx "by" where b: "0 \<le> bx" "bx < W" "0 \<le> by" "pixel_ptr s = 4 * bx" "row_ptr s = 4 * by * stride"
      "total_blocks s = (H - by) * W - bx"
    using assms(2) by (auto simp: rpza_inv_def cursor_def)
  have "0 < (H - by) * W" using b assms(3) by linarith
  then have H: "by + 1 \<le> H" using assms(1) by (simp add: zero_less_mult_iff grid_ok_def)
  show ?thesis
    unfolding block_free_def
  proof (intro allI impI)
    fix y x :: nat
    assume yx: "y < 4" "x < 4"
    have plane: "int 2 * stride * (4 * H) \<le> int (length (r_pixels s))" using assms(2) by (simp add: rpza_inv_def mult.commute)
    have "free_pixel 2 (picture W H stride) (length (r_pixels s)) ((4 * by + int y) * stride + (4 * bx + int x))"
      using yx b H assms(1) plane by (intro picture_pixel_free) (auto simp: grid_ok_def)
    then show "free_pixel 2 (picture W H stride) (length (r_pixels s)) (row_ptr s + pixel_ptr s + int y * stride + int x)"
      by (simp add: b(4,5) algebra_simps)
  qed
qed

lemma advance_block_simps [simp]:
  "r_gb (advance_block width stride s) = r_gb s" "r_pixels (advance_block width stride s) = r_pixels s"
  "total_blocks (advance_block width stride s) = total_blocks s - 1"
  by (simp_all add: advance_block_def Let_def)

lemma advance_block_cursor:
  assumes "grid_ok W width stride" "cursor W H stride s" "1 \<le> total_blocks s"
  shows "cursor W H stride (advance_block width stride s)"
proof -
  obtain bx "by" where b: "0 \<le> bx" "bx < W" "0 \<le> by" "pixel_ptr s = 4 * bx" "row_ptr s = 4 * by * stride"
      "total_blocks s = (H - by) * W - bx"
    using assms(2) by (auto simp: cursor_def)
  show ?thesis
  proof (cases "pixel_ptr s + 4 \<ge> width")
    case True
    then have "bx + 1 = W" using assms(1) b by (simp add: grid_ok_def)
    then have "(0 :: int) \<le> 0 \<and> 0 < W \<and> 0 \<le> by + 1 \<and> pixel_ptr (advance_block width stride s) = 4 * 0 \<and>
        row_ptr (advance_block width stride s) = 4 * (by + 1) * stride \<and>
        total_blocks (advance_block width stride s) = (H - (by + 1)) * W - 0"
      using True b assms(1) by (auto simp: advance_block_def Let_def grid_ok_def algebra_simps)
    then show ?thesis using assms(3) unfolding cursor_def by fastforce
  next
    case False
    then have "0 \<le> bx + 1 \<and> bx + 1 < W \<and> 0 \<le> by \<and> pixel_ptr (advance_block width stride s) = 4 * (bx + 1) \<and>
        row_ptr (advance_block width stride s) = 4 * by * stride \<and>
        total_blocks (advance_block width stride s) = (H - by) * W - (bx + 1)"
      using b assms(1) by (auto simp: advance_block_def Let_def grid_ok_def)
    then show ?thesis using assms(3) unfolding cursor_def by fastforce
  qed
qed

lemma rpza_inv_stays:
  assumes "rpza_inv W H stride s" "stays keep s t" "row_ptr t = row_ptr s" "pixel_ptr t = pixel_ptr s"
    "total_blocks t = total_blocks s"
  shows "rpza_inv W H stride t"
  using assms by (auto simp: rpza_inv_def cursor_def stays_def advances_ok agree_length)

context block_painter
begin

lemma block_loop_ok:
  assumes "grid_ok W width stride" "rpza_inv W H stride s" "cost * int n \<le> bytestream2_get_bytes_left (r_gb s)"
  shows "\<exists>ret t. block_loop n (paint stride) width stride s = Some (ret, t) \<and>
    stays (picture W H stride) s t \<and> rpza_inv W H stride t"
  using assms(2,3)
proof (induction n arbitrary: s)
  case 0
  then show ?case by (simp add: stays_def rpza_inv_def advances_refl)
next
  case (Suc n)
  show ?case
  proof (cases "total_blocks s < 1")
    case True
    with Suc.prems show ?thesis by (simp add: stays_def rpza_inv_def advances_refl)
  next
    case False
    then have tot: "1 \<le> total_blocks s" by simp
    have gb: "gb_ok (r_gb s)" using Suc.prems(1) by (simp add: rpza_inv_def)
    have left: "cost + cost * int n \<le> bytestream2_get_bytes_left (r_gb s)" using Suc.prems(2) by (simp add: algebra_simps)
    have "0 \<le> cost * int n" using cost_nonneg by simp
    with left have c: "cost \<le> bytestream2_get_bytes_left (r_gb s)" by linarith
    obtain t where t: "paint stride s = Some t" "stays (picture W H stride) s t"
      "bytestream2_get_bytes_left (r_gb t) = bytestream2_get_bytes_left (r_gb s) - cost"
      "row_ptr t = row_ptr s" "pixel_ptr t = pixel_ptr s" "total_blocks t = total_blocks s"
      using cursor_block_free [OF assms(1) Suc.prems(1) tot] gb c by (rule paintE)
    let ?u = "advance_block width stride t"
    have inv: "rpza_inv W H stride t" using Suc.prems(1) t(2,4-6) by (rule rpza_inv_stays)
    then have "rpza_inv W H stride ?u"
      using advance_block_cursor [OF assms(1), of H t] tot t(6) by (simp add: rpza_inv_def)
    from Suc.IH [OF this] left t(3) obtain ret v where
      v: "block_loop n (paint stride) width stride ?u = Some (ret, v)" "stays (picture W H stride) ?u v" "rpza_inv W H stride v"
      by auto
    have "stays (picture W H stride) t v" using v(2) by (simp add: stays_def)
    with t v False show ?thesis by (auto intro: stays_trans)
  qed
qed

lemma while_blocks_ok:
  assumes "grid_ok W width stride" "rpza_inv W H stride s" "0 \<le> n" "n * cost \<le> bytestream2_get_bytes_left (r_gb s)"
  shows "\<exists>ret t. while_blocks n (paint stride) width stride s = Some (ret, t) \<and>
    stays (picture W H stride) s t \<and> rpza_inv W H stride t"
  using block_loop_ok [OF assms(1,2), of "nat n"] assms(3,4) by (simp add: while_blocks_def mult.commute)

end

interpretation skip: block_painter 0 "\<lambda>stride. Some"
  by (rule skip_painter)

interpretation fill: block_painter 0 fill_block
  by (rule fill_painter)

interpretation indexed: block_painter 4 "indexed_block (color4 a b)" for a b
  by (rule indexed_painter) simp

interpretation raw: block_painter 30 raw_block
  by (rule raw_painter)

section \<open>The loop over the opcodes\<close>

text \<open>What a part of the decoder guarantees: the invariant, and a result that is a C value.\<close>

definition goes_on :: "int \<Rightarrow> int \<Rightarrow> int \<Rightarrow> rpza_state \<Rightarrow> (int \<times> rpza_state) option \<Rightarrow> bool" where
  "goes_on W H stride s r \<longleftrightarrow> (\<exists>ret t. r = Some (ret, t) \<and> stays (picture W H stride) s t \<and> rpza_inv W H stride t)"

lemma goes_onE:
  assumes "goes_on W H stride s r"
  obtains ret t where "r = Some (ret, t)" "stays (picture W H stride) s t" "rpza_inv W H stride t"
  using assms unfolding goes_on_def by blast

lemma goes_on_stop: "rpza_inv W H stride s \<Longrightarrow> goes_on W H stride s (Some (ret, s))"
  by (simp add: goes_on_def stays_def rpza_inv_def advances_refl)

lemma goes_on_trans: "stays (picture W H stride) s t \<Longrightarrow> goes_on W H stride t r \<Longrightarrow> goes_on W H stride s r"
  unfolding goes_on_def by (blast intro: stays_trans)

lemma goes_on_read:
  assumes "rpza_inv W H stride s" "advances (r_gb s) g"
  shows "rpza_inv W H stride (s\<lparr>r_gb := g\<rparr>)" "stays (picture W H stride) s (s\<lparr>r_gb := g\<rparr>)"
    "rpza_inv W H stride (s\<lparr>colorA := a, r_gb := g\<rparr>)" "stays (picture W H stride) s (s\<lparr>colorA := a, r_gb := g\<rparr>)"
  using assms by (auto simp: rpza_inv_def cursor_def stays_def advances_ok)

lemma four_colors_ok:
  assumes "grid_ok W width stride" "rpza_inv W H stride s" "0 \<le> n"
  shows "goes_on W H stride s (four_colors width stride n s)"
proof -
  obtain b g where g: "bytestream2_get_be16 (r_gb s) = Some (b, g)" "advances (r_gb s) g"
    using assms(2) by (auto simp: rpza_inv_def elim: getE [of _ 2 be_value])
  note r = goes_on_read [OF assms(2) g(2)]
  have "goes_on W H stride (s\<lparr>r_gb := g\<rparr>) (four_colors width stride n s)"
    using g(1) goes_on_stop [OF r(1)] indexed.while_blocks_ok [OF assms(1) r(1) assms(3), of "colorA s" b]
    by (auto simp: four_colors_def Let_def goes_on_def)
  with r(2) show ?thesis by (rule goes_on_trans)
qed

lemma rpza_switch_ok:
  assumes "grid_ok W width stride" "rpza_inv W H stride s" "0 \<le> n"
  shows "goes_on W H stride s (rpza_switch width stride op n s)"
proof -
  obtain a g where g: "bytestream2_get_be16 (r_gb s) = Some (a, g)" "advances (r_gb s) g"
    using assms(2) by (auto simp: rpza_inv_def elim: getE [of _ 2 be_value])
  let ?s = "s\<lparr>colorA := a, r_gb := g\<rparr>"
  have left: "0 \<le> bytestream2_get_bytes_left (r_gb s)" "0 \<le> bytestream2_get_bytes_left g"
    using assms(2) g(2) by (auto simp: rpza_inv_def left_nonneg advances_ok)
  note r = goes_on_read(3,4) [OF assms(2) g(2), of a]
  have sk: "goes_on W H stride s (while_blocks n Some width stride s)"
    using skip.while_blocks_ok [OF assms] left by (simp add: goes_on_def)
  have fl: "goes_on W H stride s (while_blocks n (fill_block stride) width stride ?s)"
    using fill.while_blocks_ok [OF assms(1) r(1) assms(3)] left by (intro goes_on_trans [OF r(2)]) (simp add: goes_on_def)
  have fo: "goes_on W H stride s (four_colors width stride n ?s)"
    using goes_on_trans [OF r(2) four_colors_ok [OF assms(1) r(1) assms(3)]] .
  have rw: "goes_on W H stride s (while_blocks 1 (raw_block stride) width stride s)"
    if "30 \<le> bytestream2_get_bytes_left (r_gb s)"
    using raw.while_blocks_ok [OF assms(1,2), of 1] that by (simp add: goes_on_def)
  show ?thesis
    using sk fl fo rw four_colors_ok [OF assms] goes_on_stop [OF assms(2)] g(1)
    unfolding rpza_switch_def by auto
qed

lemma read_opcode_ok:
  assumes "rpza_inv W H stride s" "bytestream2_get_bytes_left (r_gb s) \<noteq> 0"
  shows "\<exists>op n t. read_opcode s = Some (op, n, t) \<and> stays (picture W H stride) s t \<and> rpza_inv W H stride t \<and>
    0 \<le> n \<and> bytestream2_get_bytes_left (r_gb t) < bytestream2_get_bytes_left (r_gb s)"
proof -
  have gb: "gb_ok (r_gb s)" using assms(1) by (simp add: rpza_inv_def)
  obtain op g where g: "bytestream2_get_byte (r_gb s) = Some (op, g)" "advances (r_gb s) g"
    "bytestream2_get_bytes_left g = max 0 (bytestream2_get_bytes_left (r_gb s) - int 1)"
    by (rule getE [OF gb])
  obtain b h where h: "bytestream2_get_byte g = Some (b, h)" "advances g h" by (rule getE [OF advances_ok [OF g(2)]])
  obtain p where p: "bytestream2_peek_byte h = Some p" using peek_ok [OF advances_ok [OF h(2)]] by blast
  have less: "bytestream2_get_bytes_left g < bytestream2_get_bytes_left (r_gb s)"
    using g(3) assms(2) left_nonneg [OF gb] by linarith
  then have less': "bytestream2_get_bytes_left h < bytestream2_get_bytes_left (r_gb s)"
    using advances_left [OF h(2)] by linarith
  note r = goes_on_read(1,2) [OF assms(1) g(2)]
  note q = goes_on_read(3,4) [OF assms(1) advances_trans [OF g(2) h(2)]]
  from g(1) h(1) p r q less less' show ?thesis by (simp add: read_opcode_def Let_def)
qed

lemma rpza_loop_ok:
  assumes "grid_ok W width stride" "rpza_inv W H stride s" "bytestream2_get_bytes_left (r_gb s) < int fuel"
  shows "goes_on W H stride s (rpza_loop fuel width stride s)"
  using assms(2,3)
proof (induction fuel arbitrary: s)
  case 0
  then show ?case using left_nonneg by (fastforce simp: rpza_inv_def)
next
  case (Suc fuel)
  show ?case
  proof (cases "bytestream2_get_bytes_left (r_gb s) = 0")
    case True
    then show ?thesis using goes_on_stop [OF Suc.prems(1)] by simp
  next
    case False
    from read_opcode_ok [OF Suc.prems(1) False] obtain opc n t where t: "read_opcode s = Some (opc, n, t)"
      "stays (picture W H stride) s t" "rpza_inv W H stride t" "0 \<le> n"
      "bytestream2_get_bytes_left (r_gb t) < bytestream2_get_bytes_left (r_gb s)" by auto
    have "0 \<le> min n (total_blocks t)" using t(3,4) by (simp add: rpza_inv_def cursor_def)
    from rpza_switch_ok [OF assms(1) t(3) this] obtain ret u where
      u: "rpza_switch width stride (opc div 32 * 32) (min n (total_blocks t)) t = Some (ret, u)"
        "stays (picture W H stride) t u" "rpza_inv W H stride u"
      by (rule goes_onE)
    note su = stays_trans [OF t(2) u(2)]
    have "bytestream2_get_bytes_left (r_gb u) < int fuel"
      using u(2) t(5) Suc.prems(2) advances_left [of "r_gb t" "r_gb u"] by (auto simp: stays_def)
    from goes_on_trans [OF su Suc.IH [OF u(3) this]] goes_on_trans [OF su goes_on_stop [OF u(3)]] t(1) u(1) False
    show ?thesis by auto
  qed
qed

section \<open>Properties\<close>

definition in_blocks :: "int \<Rightarrow> int" where
  "in_blocks pixels = (pixels + 3) div 4"

definition rpza_painted :: "codec_context \<Rightarrow> video_frame \<Rightarrow> video_frame \<Rightarrow> bool" where
  "rpza_painted av f t \<longleftrightarrow> linesize t = linesize f \<and>
     (\<exists>d e. plane f = Some d \<and> plane t = Some e \<and>
        agree (picture (in_blocks (av_width av)) (in_blocks (av_height av)) (linesize f div 2)) d e)"

lemma rpza_decode_stream_ok:
  assumes "0 < av_width av" "0 < av_height av"
    and "reget_ok (4 * in_blocks (av_height av)) (8 * in_blocks (av_width av)) env" "gb_ok (rz_gb s)"
  shows "\<exists>ret t. rpza_decode_stream env av s = Some (ret, t) \<and>
    (rz_frame t = rz_frame s \<or> rpza_painted av (snd (reget env (rz_frame s))) (rz_frame t))"
proof -
  let ?W = "in_blocks (av_width av)" and ?H = "in_blocks (av_height av)"
  obtain v g where g: "bytestream2_get_be32 (rz_gb s) = Some (v, g)" "advances (rz_gb s) g" by (rule getE [OF assms(4)])
  obtain ret f where f: "reget env (rz_frame s) = (ret, f)" by (metis surj_pair)
  have blocks: "c_div (av_width av + 3) 4 = ?W" "c_div (av_height av + 3) 4 = ?H"
    using assms(1,2) by (simp_all add: c_div_nonneg in_blocks_def)
  have pos: "0 < ?W" "0 < ?H" using assms(1,2) by (simp_all add: in_blocks_def)
  show ?thesis
  proof (cases "c_div (?W * ?H) 32 > bytestream2_get_bytes_left g \<or> ret < 0")
    case True
    with g(1) f blocks show ?thesis by (auto simp: rpza_decode_stream_def Let_def)
  next
    case False
    with assms(3) f have "frame_holds (4 * ?H) (8 * ?W) f" unfolding reget_ok_def by (metis fst_conv not_less snd_conv)
    then obtain d where d: "plane f = Some d" "8 * ?W \<le> linesize f" "linesize f * (4 * ?H) \<le> int (length d)"
      by (auto simp: frame_holds_def)
    let ?stride = "linesize f div 2"
    have stride: "c_div (linesize f) 2 = ?stride" using d(2) pos by (intro c_div_nonneg) linarith+
    have grid: "grid_ok ?W (av_width av) ?stride" using d(2) pos assms(1) by (auto simp: grid_ok_def in_blocks_def)
    let ?r = "\<lparr>r_gb = g, r_pixels = d, row_ptr = 0, pixel_ptr = 0, total_blocks = ?W * ?H, colorA = 0\<rparr>"
    have "cursor ?W ?H ?stride ?r"
      unfolding cursor_def using pos by (intro conjI exI [of _ 0]) (simp_all add: mult.commute)
    moreover have "8 * ?stride * ?H \<le> int (length d)"
    proof -
      have "?stride * 2 * (4 * ?H) \<le> linesize f * (4 * ?H)" using pos by (intro mult_right_mono) auto
      with d(3) show ?thesis by (simp add: algebra_simps)
    qed
    ultimately have inv: "rpza_inv ?W ?H ?stride ?r" using g(2) by (simp add: rpza_inv_def advances_ok)
    have "0 \<le> bytestream2_get_bytes_left g" using g(2) by (simp add: advances_ok left_nonneg)
    then have "bytestream2_get_bytes_left (r_gb ?r) < int (nat (bytestream2_get_bytes_left g) + 1)" by simp
    from rpza_loop_ok [OF grid inv this] obtain ret' t where
      t: "rpza_loop (nat (bytestream2_get_bytes_left g) + 1) (av_width av) ?stride ?r = Some (ret', t)"
        "stays (picture ?W ?H ?stride) ?r t"
      by (rule goes_onE)
    with g(1) f blocks stride d(1) False show ?thesis
      by (simp add: rpza_decode_stream_def Let_def rpza_painted_def stays_def)
  qed
qed

text \<open>
  Property C27: the QuickTime video decoder is memory-safe and total: for every packet
  \<open>rpza_decode_frame\<close> returns, its unchecked reads stay in the packet, and it writes only pixels of
  the blocks of the picture, in the plane that \<open>ff_reget_buffer\<close> returned for the size rounded up to
  whole blocks. In particular the block counter never becomes negative.
\<close>

theorem rpza_decoder_safe:
  assumes "0 < av_width av" and "0 < av_height av"
    and "reget_ok (4 * in_blocks (av_height av)) (8 * in_blocks (av_width av)) env"
  shows "\<exists>ret got t. rpza_decode_frame env av s pkt = Some (ret, got, t) \<and> (got \<longrightarrow> ret = int (length pkt)) \<and>
    (rz_frame t = rz_frame s \<or> rpza_painted av (snd (reget env (rz_frame s))) (rz_frame t))"
proof -
  from rpza_decode_stream_ok [OF assms, of "s\<lparr>rz_gb := bytestream2_init pkt\<rparr>"] obtain ret t where
    "rpza_decode_stream env av (s\<lparr>rz_gb := bytestream2_init pkt\<rparr>) = Some (ret, t)"
    "rz_frame t = rz_frame s \<or> rpza_painted av (snd (reget env (rz_frame s))) (rz_frame t)" by auto
  then show ?thesis by (auto simp: rpza_decode_frame_def)
qed

text \<open>Witness data: a picture of one block, of which the packet paints four colors.\<close>

definition demo_rz_env :: codec_env where
  "demo_rz_env = \<lparr>reget = (\<lambda>f. (0, f\<lparr>plane := Some (replicate 34 0), linesize := 8\<rparr>)), new_palette = None,
     props_ret = 0, ref_ret = 0\<rparr>"

definition demo_rz_av :: codec_context where
  "demo_rz_av = \<lparr>av_width = 3, av_height = 4, bits_per_coded_sample = 16, discard_damaged_percentage = 95\<rparr>"

definition demo_rz :: rpza_context where
  "demo_rz = \<lparr>rz_frame = \<lparr>plane = None, linesize = 0, frame_palette = []\<rparr>, rz_pix_fmt = None,
     rz_gb = bytestream2_init []\<rparr>"

definition demo_rz_packet :: "byte list" where
  "demo_rz_packet = [0xe1, 0, 0, 13, 0xc0, 0x7f, 0xff, 0, 0, 0x1b, 0xff, 0, 0xaa]"

lemma demo_rz_decodes:
  "map_option (\<lambda>(ret, got, t). (ret, plane (rz_frame t)))
     (rpza_decode_frame demo_rz_env demo_rz_av demo_rz demo_rz_packet) =
   Some (13, Some [0, 0, 0x4a, 0x29, 0x94, 0x52, 0xff, 0x7f, 0xff, 0x7f, 0xff, 0x7f, 0xff, 0x7f, 0xff, 0x7f,
     0, 0, 0, 0, 0, 0, 0, 0, 0x94, 0x52, 0x94, 0x52, 0x94, 0x52, 0x94, 0x52, 0, 0])"
  by code_simp

theorem rpza_decoder_safe_witness:
  "\<exists>ret got t. rpza_decode_frame demo_rz_env demo_rz_av demo_rz demo_rz_packet = Some (ret, got, t) \<and>
     (rz_frame t = rz_frame demo_rz \<or> linesize (rz_frame t) = 8)"
proof -
  have "reget_ok (4 * in_blocks (av_height demo_rz_av)) (8 * in_blocks (av_width demo_rz_av)) demo_rz_env"
    by (simp add: reget_ok_def frame_holds_def demo_rz_av_def demo_rz_env_def in_blocks_def)
  moreover have "0 < av_width demo_rz_av" "0 < av_height demo_rz_av" by (simp_all add: demo_rz_av_def)
  ultimately show ?thesis
    using rpza_decoder_safe [of demo_rz_av demo_rz_env demo_rz demo_rz_packet]
    by (auto simp: rpza_painted_def demo_rz_env_def)
qed

end
