(* ===== verification/Simulation.thy ===== *)
theory Simulation
  imports Main
begin

text \<open>
  Refinement of a component with many operations. A component is a step function: the result of an
  operation and the new state, \<open>None\<close> for undefined behaviour. The detailed component simulates the
  abstract one if a relation between their states is kept by every legal operation; then no client
  can tell them apart, which is the lemma \<open>same_results\<close>.
\<close>

fun run :: "('s \<Rightarrow> 'o \<Rightarrow> ('r \<times> 's) option) \<Rightarrow> 's \<Rightarrow> 'o list \<Rightarrow> ('r list \<times> 's) option" where
  "run step s [] = Some ([], s)"
| "run step s (x # xs) =
     (case step s x of
        None \<Rightarrow> None
      | Some (r, s) \<Rightarrow> (case run step s xs of None \<Rightarrow> None | Some (rs, s) \<Rightarrow> Some (r # rs, s)))"

locale simulation =
  fixes detailed :: "'c \<Rightarrow> 'o \<Rightarrow> ('r \<times> 'c) option"
    and abstract :: "'a \<Rightarrow> 'o \<Rightarrow> ('r \<times> 'a) option"
    and rel :: "'c \<Rightarrow> 'a \<Rightarrow> bool"
    and legal :: "'o \<Rightarrow> bool"
  assumes step: "rel c a \<Longrightarrow> legal x \<Longrightarrow>
    (case abstract a x of
       None \<Rightarrow> detailed c x = None
     | Some (r, a') \<Rightarrow> \<exists>c'. detailed c x = Some (r, c') \<and> rel c' a')"
begin

lemma related_runs:
  assumes "rel c a" "\<forall>x\<in>set xs. legal x"
  shows "case run abstract a xs of
     None \<Rightarrow> run detailed c xs = None
   | Some (rs, a') \<Rightarrow> \<exists>c'. run detailed c xs = Some (rs, c') \<and> rel c' a'"
  using assms
proof (induction xs arbitrary: c a)
  case Nil
  then show ?case by simp
next
  case (Cons x xs)
  show ?case
  proof (cases "abstract a x")
    case None
    with step [OF Cons.prems(1), of x] Cons.prems(2) show ?thesis by simp
  next
    case (Some p)
    obtain r a' where p: "p = (r, a')" by (cases p)
    with Some step [OF Cons.prems(1), of x] Cons.prems(2) obtain c' where
      c: "detailed c x = Some (r, c')" "rel c' a'" by auto
    from Cons.IH [OF c(2)] Cons.prems(2) Some p c(1) show ?thesis by (auto split: option.splits)
  qed
qed

lemma same_results:
  assumes "rel c a" "\<forall>x\<in>set xs. legal x"
  shows "map_option fst (run detailed c xs) = map_option fst (run abstract a xs)"
  using related_runs [OF assms] by (auto split: option.splits)

end

end
