(* ===== verification/Fifo.thy ===== *)
theory Fifo
  imports Prelude Simulation
begin

text \<open>
  The FIFO of \<open>libavutil/fifo.c\<close>, a ring buffer that can grow, and its refinement of a bounded
  queue. An element of \<open>elem_size\<close> bytes is one element of the list \<open>fb_data\<close>, so that offsets count
  elements as in the C struct. The numbers are \<open>size_t\<close>, of whatever width: \<open>size_max\<close>.
\<close>

section \<open>The ring buffer\<close>

definition AUTO_GROW_DEFAULT_BYTES :: int where
  "AUTO_GROW_DEFAULT_BYTES = 1024 * 1024"

definition AV_FIFO_FLAG_AUTO_GROW :: int where
  "AV_FIFO_FLAG_AUTO_GROW = 1"

record 'e fifo =
  fb_data :: "'e list"
  elem_size :: int
  nb_elems :: int
  offset_r :: int
  offset_w :: int
  fb_empty :: bool
  fb_flags :: int
  auto_grow_limit :: int

text \<open>
  The allocator: \<open>fill n\<close> is the contents of fresh memory for \<open>n\<close> elements, \<open>None\<close> when there is
  none; \<open>struct_ok\<close> says whether the struct can be allocated. \<open>realloc_array\<close> is \<open>av_realloc_array\<close>.
\<close>

record 'e fifo_mem =
  size_max :: int
  fill :: "int \<Rightarrow> (nat \<Rightarrow> 'e) option"
  struct_ok :: bool

definition realloc_array :: "'e fifo_mem \<Rightarrow> 'e list \<Rightarrow> int \<Rightarrow> int \<Rightarrow> 'e list option" where
  "realloc_array mem xs n esize =
     (if n * esize > size_max mem then None
      else map_option (\<lambda>junk. List.map (\<lambda>i. if i < length xs then xs ! i else junk i) [0..<nat n]) (fill mem n))"

definition av_fifo_alloc2 :: "'e fifo_mem \<Rightarrow> int \<Rightarrow> int \<Rightarrow> int \<Rightarrow> 'e fifo option" where
  "av_fifo_alloc2 mem n esize flags =
     (if esize = 0 then None
      else
        (case (if n \<noteq> 0 then realloc_array mem [] n esize else Some []) of
           None \<Rightarrow> None
         | Some data \<Rightarrow>
             if \<not> struct_ok mem then None
             else Some \<lparr>fb_data = data, elem_size = esize, nb_elems = n, offset_r = 0, offset_w = 0, fb_empty = True,
               fb_flags = flags, auto_grow_limit = max (AUTO_GROW_DEFAULT_BYTES div esize) 1\<rparr>))"

definition av_fifo_auto_grow_limit :: "'e fifo \<Rightarrow> int \<Rightarrow> 'e fifo" where
  "av_fifo_auto_grow_limit f max_elems = f\<lparr>auto_grow_limit := max_elems\<rparr>"

definition av_fifo_elem_size :: "'e fifo \<Rightarrow> int" where
  "av_fifo_elem_size f = elem_size f"

definition av_fifo_can_read :: "'e fifo \<Rightarrow> int" where
  "av_fifo_can_read f =
     (if offset_w f \<le> offset_r f \<and> \<not> fb_empty f then nb_elems f - offset_r f + offset_w f
      else offset_w f - offset_r f)"

definition av_fifo_can_write :: "'e fifo \<Rightarrow> int" where
  "av_fifo_can_write f = nb_elems f - av_fifo_can_read f"

text \<open>The copies of \<open>av_fifo_grow2\<close> are loads and stores, \<open>None\<close> outside the memory.\<close>

definition move :: "'e list \<Rightarrow> int \<Rightarrow> int \<Rightarrow> int \<Rightarrow> 'e list option" where
  "move xs dst src n = (case load xs src (nat n) of None \<Rightarrow> None | Some es \<Rightarrow> store xs dst es)"

definition av_fifo_grow2 :: "'e fifo_mem \<Rightarrow> 'e fifo \<Rightarrow> int \<Rightarrow> (int \<times> 'e fifo) option" where
  "av_fifo_grow2 mem f inc =
     (if inc > size_max mem - nb_elems f then Some (AVERROR_EINVAL, f)
      else
        (case realloc_array mem (fb_data f) (nb_elems f + inc) (elem_size f) of
           None \<Rightarrow> Some (AVERROR_ENOMEM, f)
         | Some tmp \<Rightarrow>
             (if offset_w f \<le> offset_r f \<and> \<not> fb_empty f then
                let copy = min inc (offset_w f) in
                (case move tmp (nb_elems f) 0 copy of
                   None \<Rightarrow> None
                 | Some tmp \<Rightarrow>
                     if copy < offset_w f then
                       (case move tmp 0 copy (offset_w f - copy) of
                          None \<Rightarrow> None
                        | Some tmp \<Rightarrow> Some (0, f\<lparr>fb_data := tmp, offset_w := offset_w f - copy, nb_elems := nb_elems f + inc\<rparr>))
                     else
                       Some (0, f\<lparr>fb_data := tmp, offset_w := if copy = inc then 0 else nb_elems f + copy,
                                  nb_elems := nb_elems f + inc\<rparr>))
              else Some (0, f\<lparr>fb_data := tmp, nb_elems := nb_elems f + inc\<rparr>))))"

definition fifo_check_space :: "'e fifo_mem \<Rightarrow> 'e fifo \<Rightarrow> int \<Rightarrow> (int \<times> 'e fifo) option" where
  "fifo_check_space mem f to_write =
     (let can_write = av_fifo_can_write f; need_grow = (if to_write > can_write then to_write - can_write else 0) in
      if need_grow = 0 then Some (0, f)
      else
        let can_grow = (if auto_grow_limit f > nb_elems f then auto_grow_limit f - nb_elems f else 0) in
        if has_flag (fb_flags f) AV_FIFO_FLAG_AUTO_GROW \<and> need_grow \<le> can_grow
        then av_fifo_grow2 mem f (if need_grow < can_grow div 2 then need_grow * 2 else can_grow)
        else Some (AVERROR_ENOSPC, f))"

text \<open>
  Where elements come from: a source delivers at most the number asked for. The source says whether
  the loop breaks and with which \<open>ret\<close>: never for \<open>memcpy\<close>, on an error or nothing for a callback.
\<close>

type_synonym ('p, 'e) feed = "'p \<Rightarrow> int \<Rightarrow> bool \<times> int \<times> 'e list \<times> 'p"

definition feed_copy :: "('e list, 'e) feed" where
  "feed_copy buf len = (False, 0, take (nat len) buf, drop (nat len) buf)"

definition feed_cb :: "('p \<Rightarrow> int \<Rightarrow> int \<times> 'e list \<times> 'p) \<Rightarrow> ('p, 'e) feed" where
  "feed_cb read_cb p len = (case read_cb p len of (ret, es, p) \<Rightarrow> (ret < 0 \<or> es = [], ret, es, p))"

fun write_loop :: "nat \<Rightarrow> ('p, 'e) feed \<Rightarrow> int \<Rightarrow> 'p \<Rightarrow> 'e list \<Rightarrow> int \<Rightarrow> int \<Rightarrow> int \<Rightarrow>
    (int \<times> 'p \<times> 'e list \<times> int \<times> int) option" where
  "write_loop 0 feed nb p data offw to_write ret = None"
| "write_loop (Suc fuel) feed nb p data offw to_write ret =
     (if to_write \<le> 0 then Some (ret, p, data, offw, to_write)
      else
        let len = min (nb - offw) to_write in
        (case feed p len of
           (stop, ret, es, p) \<Rightarrow>
             if int (length es) > len then None
             else
               (case store data offw es of
                  None \<Rightarrow> None
                | Some data \<Rightarrow>
                    if stop then Some (ret, p, data, offw, to_write)
                    else
                      let offw = offw + int (length es) in
                      write_loop fuel feed nb p data (if offw \<ge> nb then 0 else offw) (to_write - int (length es)) ret)))"

text \<open>The result is the return value, \<open>*nb_elems\<close>, the source and the FIFO.\<close>

definition fifo_write_common :: "'e fifo_mem \<Rightarrow> ('p, 'e) feed \<Rightarrow> 'e fifo \<Rightarrow> 'p \<Rightarrow> int \<Rightarrow>
    (int \<times> int \<times> 'p \<times> 'e fifo) option" where
  "fifo_write_common mem feed f p n =
     (case fifo_check_space mem f n of
        None \<Rightarrow> None
      | Some (ret, f) \<Rightarrow>
          if ret < 0 then Some (ret, n, p, f)
          else
            (case write_loop (nat n + 1) feed (nb_elems f) p (fb_data f) (offset_w f) n ret of
               None \<Rightarrow> None
             | Some (ret, p, data, offw, to_write) \<Rightarrow>
                 Some (ret, n - to_write, p,
                   f\<lparr>fb_data := data, offset_w := offw, fb_empty := (if n \<noteq> to_write then False else fb_empty f)\<rparr>)))"

definition av_fifo_write :: "'e fifo_mem \<Rightarrow> 'e fifo \<Rightarrow> 'e list \<Rightarrow> (int \<times> 'e fifo) option" where
  "av_fifo_write mem f buf =
     map_option (\<lambda>(ret, n, p, f). (ret, f)) (fifo_write_common mem feed_copy f buf (int (length buf)))"

definition av_fifo_write_from_cb :: "'e fifo_mem \<Rightarrow> 'e fifo \<Rightarrow> ('p \<Rightarrow> int \<Rightarrow> int \<times> 'e list \<times> 'p) \<Rightarrow> 'p \<Rightarrow> int \<Rightarrow>
    (int \<times> int \<times> 'p \<times> 'e fifo) option" where
  "av_fifo_write_from_cb mem f read_cb p n = fifo_write_common mem (feed_cb read_cb) f p n"

text \<open>Where elements go: a sink says whether the loop breaks, \<open>ret\<close>, and how many elements it took.\<close>

type_synonym ('p, 'e) sink = "'p \<Rightarrow> 'e list \<Rightarrow> bool \<times> int \<times> int \<times> 'p"

definition sink_copy :: "('e list, 'e) sink" where
  "sink_copy out es = (False, 0, int (length es), out @ es)"

definition sink_cb :: "('p \<Rightarrow> 'e list \<Rightarrow> int \<times> int \<times> 'p) \<Rightarrow> ('p, 'e) sink" where
  "sink_cb write_cb p es = (case write_cb p es of (ret, len, p) \<Rightarrow> (ret < 0 \<or> len = 0, ret, len, p))"

fun peek_loop :: "nat \<Rightarrow> ('p, 'e) sink \<Rightarrow> int \<Rightarrow> 'e list \<Rightarrow> 'p \<Rightarrow> int \<Rightarrow> int \<Rightarrow> int \<Rightarrow> (int \<times> 'p \<times> int) option" where
  "peek_loop 0 sink nb data p offr to_read ret = None"
| "peek_loop (Suc fuel) sink nb data p offr to_read ret =
     (if to_read \<le> 0 then Some (ret, p, to_read)
      else
        (case load data offr (nat (min (nb - offr) to_read)) of
           None \<Rightarrow> None
         | Some es \<Rightarrow>
             (case sink p es of
                (stop, ret, len, p) \<Rightarrow>
                  if len < 0 \<or> len > int (length es) then None
                  else if stop then Some (ret, p, to_read)
                  else
                    let offr = offr + len in
                    peek_loop fuel sink nb data p (if offr \<ge> nb then 0 else offr) (to_read - len) ret)))"

definition fifo_peek_common :: "('p, 'e) sink \<Rightarrow> 'e fifo \<Rightarrow> 'p \<Rightarrow> int \<Rightarrow> int \<Rightarrow> (int \<times> int \<times> 'p) option" where
  "fifo_peek_common sink f p n offset =
     (let can_read = av_fifo_can_read f in
      if offset > can_read \<or> n > can_read - offset then Some (AVERROR_EINVAL, 0, p)
      else
        let offr = (if offset_r f \<ge> nb_elems f - offset then offset_r f - (nb_elems f - offset) else offset_r f + offset) in
        map_option (\<lambda>(ret, p, to_read). (ret, n - to_read, p))
          (peek_loop (nat n + 1) sink (nb_elems f) (fb_data f) p offr n 0))"

text \<open>\<open>av_fifo_drain2\<close>; a failed assertion is \<open>None\<close>.\<close>

definition av_fifo_drain2 :: "'e fifo \<Rightarrow> int \<Rightarrow> 'e fifo option" where
  "av_fifo_drain2 f n =
     (let cur_size = av_fifo_can_read f in
      if cur_size < n then None
      else
        let f = (if cur_size = n then f\<lparr>fb_empty := True\<rparr> else f) in
        Some (f\<lparr>offset_r := if offset_r f \<ge> nb_elems f - n then offset_r f - (nb_elems f - n) else offset_r f + n\<rparr>))"

definition av_fifo_read :: "'e fifo \<Rightarrow> int \<Rightarrow> (int \<times> 'e list \<times> 'e fifo) option" where
  "av_fifo_read f n =
     (case fifo_peek_common sink_copy f [] n 0 of
        None \<Rightarrow> None
      | Some (ret, n, out) \<Rightarrow> map_option (\<lambda>f. (ret, out, f)) (av_fifo_drain2 f n))"

definition av_fifo_read_to_cb :: "'e fifo \<Rightarrow> ('p \<Rightarrow> 'e list \<Rightarrow> int \<times> int \<times> 'p) \<Rightarrow> 'p \<Rightarrow> int \<Rightarrow> (int \<times> int \<times> 'p \<times> 'e fifo) option" where
  "av_fifo_read_to_cb f write_cb p n =
     (case fifo_peek_common (sink_cb write_cb) f p n 0 of
        None \<Rightarrow> None
      | Some (ret, n, p) \<Rightarrow> map_option (\<lambda>f. (ret, n, p, f)) (av_fifo_drain2 f n))"

definition av_fifo_peek :: "'e fifo \<Rightarrow> int \<Rightarrow> int \<Rightarrow> (int \<times> 'e list) option" where
  "av_fifo_peek f n offset =
     map_option (\<lambda>(ret, n, out). (ret, out)) (fifo_peek_common sink_copy f [] n offset)"

definition av_fifo_peek_to_cb :: "'e fifo \<Rightarrow> ('p \<Rightarrow> 'e list \<Rightarrow> int \<times> int \<times> 'p) \<Rightarrow> 'p \<Rightarrow> int \<Rightarrow> int \<Rightarrow>
    (int \<times> int \<times> 'p) option" where
  "av_fifo_peek_to_cb f write_cb p n offset = fifo_peek_common (sink_cb write_cb) f p n offset"

definition av_fifo_reset2 :: "'e fifo \<Rightarrow> 'e fifo" where
  "av_fifo_reset2 f = f\<lparr>offset_r := 0, offset_w := 0, fb_empty := True\<rparr>"

section \<open>What the ring holds\<close>

definition ring :: "'e list \<Rightarrow> int \<Rightarrow> 'e list \<Rightarrow> bool" where
  "ring data r c \<longleftrightarrow> (\<forall>i<length c. data ! nat ((r + int i) mod int (length data)) = c ! i)"

text \<open>The refinement relation: the FIFO holds the elements \<open>c\<close>, the oldest first.\<close>

definition fifo_holds :: "'e fifo \<Rightarrow> 'e list \<Rightarrow> bool" where
  "fifo_holds f c \<longleftrightarrow> ring (fb_data f) (offset_r f) c \<and> nb_elems f = int (length (fb_data f)) \<and>
     0 \<le> offset_r f \<and> (offset_r f < nb_elems f \<or> nb_elems f = 0 \<and> offset_r f = 0) \<and> int (length c) \<le> nb_elems f \<and>
     offset_w f = (offset_r f + int (length c)) mod nb_elems f \<and> (fb_empty f \<longleftrightarrow> c = [])"

lemma wrap_mod:
  assumes "0 \<le> r" "r < (nb :: int)" "0 \<le> k" "k \<le> nb"
  shows "(r + k) mod nb = (if r + k < nb then r + k else r + k - nb)"
proof (cases "r + k < nb")
  case True
  with assms show ?thesis by simp
next
  case False
  then have "(r + k) mod nb = (r + k - nb) mod nb" by (simp add: mod_diff_right_eq [symmetric])
  also have "\<dots> = r + k - nb" using assms False by (intro mod_pos_pos_trivial) auto
  finally show ?thesis using False by simp
qed

lemma fifo_can_read:
  assumes "fifo_holds f c"
  shows "av_fifo_can_read f = int (length c)"
proof (cases "nb_elems f = 0")
  case True
  with assms show ?thesis by (auto simp: fifo_holds_def av_fifo_can_read_def)
next
  case False
  with assms have "0 \<le> offset_r f" "offset_r f < nb_elems f" "int (length c) \<le> nb_elems f" by (auto simp: fifo_holds_def)
  with assms have "offset_w f = (if offset_r f + int (length c) < nb_elems f then offset_r f + int (length c)
      else offset_r f + int (length c) - nb_elems f)"
    using wrap_mod [of "offset_r f" "nb_elems f" "int (length c)"] by (simp add: fifo_holds_def)
  with assms show ?thesis by (auto simp: fifo_holds_def av_fifo_can_read_def split: if_splits)
qed

text \<open>Storing behind the elements appends, and the offset after it is where the next one goes.\<close>

lemma ring_store:
  assumes "ring data r c" "0 \<le> r" "r < int (length data)" "int (length c) + int (length es) \<le> int (length data)"
    and "off = (r + int (length c)) mod int (length data)" "off + int (length es) \<le> int (length data)"
  obtains d where "store data off es = Some d" "length d = length data" "ring d r (c @ es)"
    "(if off + int (length es) \<ge> int (length data) then 0 else off + int (length es)) =
      (r + int (length (c @ es))) mod int (length data)"
proof -
  let ?nb = "int (length data)" and ?n = "int (length c)"
  have at: "(r + k) mod ?nb = (if r + k < ?nb then r + k else r + k - ?nb)" if "0 \<le> k" "k \<le> ?nb" for k
    using assms(2,3) that by (rule wrap_mod)
  have off: "off = (if r + ?n < ?nb then r + ?n else r + ?n - ?nb)" using assms(4,5) at by simp
  have nn: "0 \<le> off" using off assms(2) by auto
  let ?d = "splice (nat off) es data"
  have len: "nat off + length es \<le> length data" using nn assms(6) by linarith
  have "?d ! nat ((r + int i) mod ?nb) = (c @ es) ! i" if i: "i < length (c @ es)" for i
  proof (cases "i < length c")
    case True
    have p: "(r + int i) mod ?nb = (if r + int i < ?nb then r + int i else r + int i - ?nb)"
      using True assms(4) by (intro at) linarith+
    have "nat ((r + int i) mod ?nb) < nat off \<or> nat off + length es \<le> nat ((r + int i) mod ?nb)"
      using True assms(2-4,6) off nn unfolding p by (auto split: if_splits)
    moreover have "nat ((r + int i) mod ?nb) < length data"
      using True assms(2-4) unfolding p by (auto split: if_splits)
    ultimately have "?d ! nat ((r + int i) mod ?nb) = data ! nat ((r + int i) mod ?nb)" using len by (auto simp: nth_splice)
    with True assms(1) show ?thesis by (simp add: ring_def nth_append)
  next
    case False
    have p: "(r + int i) mod ?nb = off + (int i - ?n)"
    proof -
      have "(r + int i) mod ?nb = (if r + int i < ?nb then r + int i else r + int i - ?nb)"
        using i assms(4) by (intro at) auto
      with i False assms(6) off show ?thesis by (auto split: if_splits)
    qed
    obtain j where j: "i = length c + j" using False by (metis le_Suc_ex not_less)
    then have "nat ((r + int i) mod ?nb) = nat off + j" using nn unfolding p by simp
    with j i len show ?thesis by (simp add: nth_splice nth_append)
  qed
  then have "ring ?d r (c @ es)" using len by (simp add: ring_def)
  moreover have "(r + int (length (c @ es))) mod ?nb = (if off + int (length es) \<ge> ?nb then 0 else off + int (length es))"
  proof -
    have "(r + int (length (c @ es))) mod ?nb = (if r + int (length (c @ es)) < ?nb then r + int (length (c @ es))
      else r + int (length (c @ es)) - ?nb)" using assms(4) by (intro at) auto
    with assms(3,4,6) off show ?thesis by (auto split: if_splits)
  qed
  ultimately show thesis using that [of ?d] nn assms(6) len by simp
qed

lemma ring_load:
  assumes "ring data r c" "0 \<le> r" "r < int (length data)" "int (length c) \<le> int (length data)"
    and "i + n \<le> length c" "(r + int i) mod int (length data) + int n \<le> int (length data)"
  shows "load data ((r + int i) mod int (length data)) n = Some (take n (drop i c))"
proof -
  let ?nb = "int (length data)" and ?o = "(r + int i) mod int (length data)"
  have nn: "0 \<le> ?o" using assms(2,3) by (intro pos_mod_sign) linarith
  have len: "nat ?o + n \<le> length data" using nn assms(6) by linarith
  have o: "?o = (if r + int i < ?nb then r + int i else r + int i - ?nb)"
    using assms(2-5) by (intro wrap_mod) linarith+
  have "slice (nat ?o) n data = take n (drop i c)"
  proof (rule nth_equalityI)
    show "length (slice (nat ?o) n data) = length (take n (drop i c))" using len assms(5) by simp
    fix k
    assume "k < length (slice (nat ?o) n data)"
    then have k: "k < n" using len by simp
    have "(r + int (i + k)) mod ?nb = (if r + int (i + k) < ?nb then r + int (i + k) else r + int (i + k) - ?nb)"
      using assms(2-5) k by (intro wrap_mod) linarith+
    then have "(r + int (i + k)) mod ?nb = ?o + int k" using o k assms(6) by (auto split: if_splits)
    moreover have "data ! nat ((r + int (i + k)) mod ?nb) = c ! (i + k)"
      using assms(1,5) k unfolding ring_def by (meson add_less_le_mono nat_add_left_cancel_less order_less_le_trans)
    ultimately have "data ! (nat ?o + k) = c ! (i + k)" using nn by (simp add: nat_add_distrib)
    then show "slice (nat ?o) n data ! k = take n (drop i c) ! k" using k len assms(5) by (simp add: nth_slice)
  qed
  then show ?thesis using nn assms(6) by simp
qed

section \<open>The loops\<close>

text \<open>
  The contract of a source: in a state that can go on for \<open>n\<close> elements, and asked for some of
  them, it delivers at most as many, at least one unless it breaks, and can go on for the rest.
\<close>

definition feed_ok :: "('p \<Rightarrow> int \<Rightarrow> bool) \<Rightarrow> ('p, 'e) feed \<Rightarrow> bool" where
  "feed_ok good feed \<longleftrightarrow> (\<forall>p n len stop ret es p'. good p n \<longrightarrow> 0 < len \<longrightarrow> len \<le> n \<longrightarrow> feed p len = (stop, ret, es, p') \<longrightarrow>
     int (length es) \<le> len \<and> (stop \<or> es \<noteq> [] \<and> good p' (n - int (length es))))"

text \<open>
  The elements that a source delivers on its way from one state and \<open>ret\<close> to others, and whether the
  last call broke.
\<close>

inductive delivered :: "('p, 'e) feed \<Rightarrow> 'p \<Rightarrow> int \<Rightarrow> 'e list \<Rightarrow> 'p \<Rightarrow> int \<Rightarrow> bool \<Rightarrow> bool" for feed where
  nothing: "delivered feed p ret [] p ret False"
| broke: "feed p len = (True, ret', es, p') \<Longrightarrow> delivered feed p ret [] p' ret' True"
| some: "feed p len = (False, ret1, es, p1) \<Longrightarrow> delivered feed p1 ret1 fs p' ret' stop \<Longrightarrow>
    delivered feed p ret (es @ fs) p' ret' stop"

text \<open>The ring gets what the source delivers, all that was asked for unless the source breaks.\<close>

lemma write_loop_ok:
  assumes "feed_ok good feed" "nb = int (length data)" "ring data r c" "0 \<le> r" "r < nb \<or> to_write = 0"
    and "int (length c) + to_write \<le> nb" "0 \<le> to_write" "offw = (r + int (length c)) mod nb" "to_write < int fuel"
    and "good p to_write"
  shows "\<exists>ret' p' d offw' left es stop. write_loop fuel feed nb p data offw to_write ret = Some (ret', p', d, offw', left) \<and>
    length d = length data \<and> ring d r (c @ es) \<and> offw' = (r + int (length (c @ es))) mod nb \<and>
    0 \<le> left \<and> int (length es) = to_write - left \<and> delivered feed p ret es p' ret' stop \<and> (left = 0 \<or> stop)"
  using assms(2-10)
proof (induction fuel arbitrary: p data c offw to_write ret)
  case 0
  then show ?case by simp
next
  case (Suc fuel)
  show ?case
  proof (cases "to_write = 0")
    case True
    with Suc.prems show ?thesis by (auto intro!: exI [of _ "[]"] delivered.nothing)
  next
    case False
    obtain stop ret1 es p1 where f: "feed p (min (nb - offw) to_write) = (stop, ret1, es, p1)"
      by (metis prod_cases4)
    have r: "r < nb" "0 < nb" using Suc.prems(3,4) False by auto
    have "offw < nb" using Suc.prems(7) r by simp
    then have "0 < min (nb - offw) to_write" using False Suc.prems(6) by simp
    moreover have "min (nb - offw) to_write \<le> to_write" by simp
    ultimately have es: "int (length es) \<le> min (nb - offw) to_write"
      "stop \<or> es \<noteq> [] \<and> good p1 (to_write - int (length es))"
      using assms(1) f Suc.prems(9) unfolding feed_ok_def by blast+
    have b: "int (length c) + int (length es) \<le> int (length data)" "r < int (length data)"
      "off + int (length es) \<le> int (length data)" if "off = offw" for off
      using es(1) Suc.prems(1,5) r that by auto
    obtain d where d: "store data offw es = Some d" "length d = length data" "ring d r (c @ es)"
      "(if offw + int (length es) \<ge> int (length data) then 0 else offw + int (length es)) =
        (r + int (length (c @ es))) mod int (length data)"
      using ring_store [OF Suc.prems(2,3) b(2,1) Suc.prems(7) [unfolded Suc.prems(1)] b(3)] by blast
    show ?thesis
    proof (cases stop)
      case True
      have "write_loop (Suc fuel) feed nb p data offw to_write ret = Some (ret1, p1, d, offw, to_write)"
        using False Suc.prems(6) f d(1) es(1) True by (simp add: not_less)
      moreover have "ring d r c" using d(3) by (auto simp: ring_def nth_append split: if_splits)
      moreover have "delivered feed p ret [] p1 ret1 True" using f True by (auto intro: delivered.broke)
      ultimately show ?thesis using d(2) Suc.prems(6,7) by (fastforce intro!: exI [of _ "[]"])
    next
      case False2: False
      let ?offw = "if offw + int (length es) \<ge> nb then 0 else offw + int (length es)"
      have "1 \<le> length es" using es(2) False2 by (cases es) auto
      then have left: "to_write - int (length es) < int fuel" "0 \<le> to_write - int (length es)"
        "int (length (c @ es)) + (to_write - int (length es)) \<le> nb" using Suc.prems(5,8) es(1) by auto
      have good1: "good p1 (to_write - int (length es))" using es(2) False2 by simp
      have pre: "nb = int (length d)" "r < nb \<or> to_write - int (length es) = 0" using Suc.prems(1) d(2) r by simp_all
      have "?offw = (r + int (length (c @ es))) mod nb" using d(4) Suc.prems(1) by simp
      from Suc.IH [OF pre(1) d(3) Suc.prems(3) pre(2) left(3,2) this left(1) good1, of ret1] obtain ret' p' d' offw' left es' halt where
        IH: "write_loop fuel feed nb p1 d ?offw (to_write - int (length es)) ret1 = Some (ret', p', d', offw', left)"
          "length d' = length d" "ring d' r ((c @ es) @ es')" "offw' = (r + int (length ((c @ es) @ es'))) mod nb"
          "0 \<le> left" "int (length es') = to_write - int (length es) - left" "delivered feed p1 ret1 es' p' ret' halt"
          "left = 0 \<or> halt"
        by blast
      have "write_loop (Suc fuel) feed nb p data offw to_write ret = Some (ret', p', d', offw', left)"
        using False Suc.prems(6) f d(1) es(1) False2 IH(1) by (simp add: Let_def not_less)
      moreover have "ring d' r (c @ (es @ es'))" "offw' = (r + int (length (c @ (es @ es')))) mod nb"
        "int (length (es @ es')) = to_write - left" using IH by simp_all
      moreover have "delivered feed p ret (es @ es') p' ret' halt" using f False2 IH(7) by (auto intro: delivered.some)
      ultimately show ?thesis
        using d(2) IH(2,5,8)
        by (intro exI [of _ ret'] exI [of _ p'] exI [of _ d'] exI [of _ offw'] exI [of _ left] exI [of _ "es @ es'"]
            exI [of _ halt]) simp
    qed
  qed
qed

text \<open>The sink side: \<open>taken\<close> are the elements a sink accepts on its way from \<open>p\<close> to \<open>p'\<close>.\<close>

inductive taken :: "('p, 'e) sink \<Rightarrow> 'p \<Rightarrow> int \<Rightarrow> 'e list \<Rightarrow> 'p \<Rightarrow> int \<Rightarrow> bool \<Rightarrow> bool" for sink where
  nothing: "taken sink p ret [] p ret False"
| broke: "sink p es = (True, ret', n, p') \<Longrightarrow> taken sink p ret [] p' ret' True"
| some: "sink p es = (False, ret1, n, p1) \<Longrightarrow> taken sink p1 ret1 fs p' ret' stop \<Longrightarrow>
    taken sink p ret (take (nat n) es @ fs) p' ret' stop"

definition sink_ok :: "('p, 'e) sink \<Rightarrow> bool" where
  "sink_ok sink \<longleftrightarrow> (\<forall>p es stop ret n p'. es \<noteq> [] \<longrightarrow> sink p es = (stop, ret, n, p') \<longrightarrow>
     0 \<le> n \<and> n \<le> int (length es) \<and> (stop \<or> 0 < n))"

lemma peek_loop_ok:
  assumes "sink_ok sink" "nb = int (length data)" "ring data r c" "0 \<le> r" "r < nb \<or> to_read = 0" "int (length c) \<le> nb"
    and "int i + to_read \<le> int (length c)" "0 \<le> to_read" "offr = (r + int i) mod nb" "to_read < int fuel"
  shows "\<exists>ret' p' left stop. peek_loop fuel sink nb data p offr to_read ret = Some (ret', p', left) \<and>
    0 \<le> left \<and> left \<le> to_read \<and> taken sink p ret (take (nat (to_read - left)) (drop i c)) p' ret' stop \<and>
    (left = 0 \<or> stop)"
  using assms(5,7-10)
proof (induction fuel arbitrary: p i offr to_read ret)
  case 0
  then show ?case by simp
next
  case (Suc fuel)
  show ?case
  proof (cases "to_read = 0")
    case True
    then show ?thesis by (auto intro: taken.nothing)
  next
    case False
    have r: "r < nb" "0 < nb" using Suc.prems(1) assms(4) False by auto
    then have len: "r < int (length data)" "int (length c) \<le> int (length data)" using assms(2,6) by auto
    have off: "0 \<le> offr" "offr < nb" using Suc.prems(4) r by simp_all
    let ?m = "nat (min (nb - offr) to_read)"
    have m: "i + ?m \<le> length c" "(r + int i) mod int (length data) + int ?m \<le> int (length data)"
      using Suc.prems(2-4) off assms(2) by (auto simp: min_def)
    let ?es = "take ?m (drop i c)"
    have load: "load data offr ?m = Some ?es"
      using ring_load [OF assms(3,4) len m] Suc.prems(4) assms(2) by simp
    have pos: "0 < ?m" using off False Suc.prems(3) by simp
    have es: "?es \<noteq> []" "int (length ?es) = int ?m" using pos m(1) by auto
    obtain stop ret1 n p1 where s: "sink p ?es = (stop, ret1, n, p1)" by (metis prod_cases4)
    with assms(1) es have n: "0 \<le> n" "n \<le> int (length ?es)" "stop \<or> 0 < n" unfolding sink_ok_def by blast+
    show ?thesis
    proof (cases stop)
      case True
      have "peek_loop (Suc fuel) sink nb data p offr to_read ret = Some (ret1, p1, to_read)"
        using False Suc.prems(3) load s n True by (simp add: not_less)
      moreover have "taken sink p ret [] p1 ret1 True" using s True by (auto intro: taken.broke)
      ultimately show ?thesis using Suc.prems(3) by (intro exI [of _ ret1] exI [of _ p1] exI [of _ to_read] exI [of _ True]) auto
    next
      case False2: False
      let ?offr = "if offr + n \<ge> nb then 0 else offr + n"
      have nm: "n \<le> nb - offr" "n \<le> to_read" "0 < n" using n False2 es(2) pos by auto
      have "?offr = (r + int (i + nat n)) mod nb"
      proof -
        have "(r + int i) mod nb = (if r + int i < nb then r + int i else r + int i - nb)"
          using assms(4,6) r Suc.prems(2,3) by (intro wrap_mod) linarith+
        moreover have "(r + int (i + nat n)) mod nb = (if r + int (i + nat n) < nb then r + int (i + nat n)
            else r + int (i + nat n) - nb)"
          using assms(4,6) r Suc.prems(2) nm by (intro wrap_mod) linarith+
        moreover have "int i + n \<le> nb" using Suc.prems(2) nm(2) assms(6) by linarith
        ultimately show ?thesis using Suc.prems(4) nm r(1) by (auto split: if_splits)
      qed
      moreover have "int (i + nat n) + (to_read - n) \<le> int (length c)" "0 \<le> to_read - n" "to_read - n < int fuel"
        using Suc.prems(2,5) nm by linarith+
      ultimately obtain ret' p' left halt where
        IH: "peek_loop fuel sink nb data p1 ?offr (to_read - n) ret1 = Some (ret', p', left)" "0 \<le> left"
          "left \<le> to_read - n" "taken sink p1 ret1 (take (nat (to_read - n - left)) (drop (i + nat n) c)) p' ret' halt"
          "left = 0 \<or> halt"
        using Suc.IH [of "to_read - n" "i + nat n" ?offr p1 ret1] r(1) by blast
      have "peek_loop (Suc fuel) sink nb data p offr to_read ret = Some (ret', p', left)"
        using False Suc.prems(3) load s n False2 IH(1) by (simp add: Let_def not_less)
      moreover have "take (nat n) ?es @ take (nat (to_read - n - left)) (drop (i + nat n) c) = take (nat (to_read - left)) (drop i c)"
      proof -
        have "nat n \<le> ?m" using n(2) es(2) by linarith
        then have "take (nat n) ?es = take (nat n) (drop i c)" by (simp add: min_def)
        moreover have "nat (to_read - left) = nat n + nat (to_read - n - left)" using IH(2,3) nm by linarith
        ultimately show ?thesis by (simp add: take_add add.commute)
      qed
      moreover have "taken sink p ret (take (nat n) ?es @ take (nat (to_read - n - left)) (drop (i + nat n) c)) p' ret' halt"
        using s False2 IH(4) by (intro taken.some) simp_all
      ultimately show ?thesis
        using IH(2,3,5) nm(3) by (intro exI [of _ ret'] exI [of _ p'] exI [of _ left] exI [of _ halt]) auto
    qed
  qed
qed

section \<open>The operations on the elements\<close>

lemma fifo_holdsD:
  assumes "fifo_holds f c"
  shows "ring (fb_data f) (offset_r f) c" "nb_elems f = int (length (fb_data f))" "0 \<le> offset_r f"
    "offset_r f < nb_elems f \<or> nb_elems f = 0 \<and> offset_r f = 0" "int (length c) \<le> nb_elems f"
    "offset_w f = (offset_r f + int (length c)) mod nb_elems f" "fb_empty f \<longleftrightarrow> c = []"
  using assms unfolding fifo_holds_def by blast+

lemma peek_common_ok:
  assumes "sink_ok sink" "fifo_holds f c" "0 \<le> n" "0 \<le> offset"
  shows "if offset > int (length c) \<or> n > int (length c) - offset
     then fifo_peek_common sink f p n offset = Some (AVERROR_EINVAL, 0, p)
     else \<exists>ret p' left stop. fifo_peek_common sink f p n offset = Some (ret, n - left, p') \<and> 0 \<le> left \<and> left \<le> n \<and>
       taken sink p 0 (take (nat (n - left)) (drop (nat offset) c)) p' ret stop \<and> (left = 0 \<or> stop)"
proof (cases "offset > int (length c) \<or> n > int (length c) - offset")
  case True
  then show ?thesis by (simp add: fifo_peek_common_def fifo_can_read [OF assms(2)])
next
  case False
  note h = fifo_holdsD [OF assms(2)]
  let ?offr = "if offset_r f \<ge> nb_elems f - offset then offset_r f - (nb_elems f - offset) else offset_r f + offset"
  have room: "offset_r f < nb_elems f \<or> n = 0" using h(4,5) False assms(3,4) by auto
  have offr: "?offr = (offset_r f + int (nat offset)) mod nb_elems f"
  proof (cases "nb_elems f = 0")
    case True
    with h(4,5) False assms(3,4) show ?thesis by auto
  next
    case nz: False
    with h(3-5) False assms(3,4) have "(offset_r f + offset) mod nb_elems f =
        (if offset_r f + offset < nb_elems f then offset_r f + offset else offset_r f + offset - nb_elems f)"
      by (intro wrap_mod) auto
    with assms(4) show ?thesis by auto
  qed
  have "int (nat offset) + n \<le> int (length c)" "n < int (nat n + 1)" using False assms(3,4) by auto
  from peek_loop_ok [OF assms(1) h(2,1,3) room h(5) this(1) assms(3) offr this(2), of p 0] False
  show ?thesis by (fastforce simp: fifo_peek_common_def fifo_can_read [OF assms(2)] Let_def)
qed

lemma drain_ok:
  assumes "fifo_holds f c" "0 \<le> n" "n \<le> int (length c)"
  shows "\<exists>g. av_fifo_drain2 f n = Some g \<and> fifo_holds g (drop (nat n) c) \<and> nb_elems g = nb_elems f \<and>
    elem_size g = elem_size f \<and> fb_flags g = fb_flags f \<and> auto_grow_limit g = auto_grow_limit f"
proof -
  note h = fifo_holdsD [OF assms(1)]
  define r where "r = (if offset_r f \<ge> nb_elems f - n then offset_r f - (nb_elems f - n) else offset_r f + n)"
  have r: "0 \<le> r" "r < nb_elems f \<or> nb_elems f = 0 \<and> r = 0" using h(3-5) assms(2,3) by (auto simp: r_def)
  have mod: "r mod nb_elems f = (offset_r f + n) mod nb_elems f"
  proof (cases "offset_r f \<ge> nb_elems f - n")
    case True
    then have "r = offset_r f + n - nb_elems f" by (simp add: r_def)
    then show ?thesis by simp
  next
    case False
    then show ?thesis by (simp add: r_def)
  qed
  have shift: "(r + k) mod nb_elems f = (offset_r f + (n + k)) mod nb_elems f" for k
    using mod_add_cong [OF mod refl, of k] by (simp add: add.assoc)
  have "ring (fb_data f) r (drop (nat n) c)"
    unfolding ring_def
  proof (intro allI impI)
    fix i
    assume i: "i < length (drop (nat n) c)"
    have at: "(r + int i) mod int (length (fb_data f)) = (offset_r f + int (nat n + i)) mod int (length (fb_data f))"
      using shift [of "int i"] h(2) assms(2) by simp
    have "nat n + i < length c" using i by simp
    with h(1) have "fb_data f ! nat ((offset_r f + int (nat n + i)) mod int (length (fb_data f))) = c ! (nat n + i)"
      unfolding ring_def by blast
    then show "fb_data f ! nat ((r + int i) mod int (length (fb_data f))) = drop (nat n) c ! i"
      unfolding at using assms(2,3) by (simp del: of_nat_add)
  qed
  moreover have "offset_w f = (r + int (length (drop (nat n) c))) mod nb_elems f"
    using shift [of "int (length (drop (nat n) c))"] h(6) assms(2,3) by (simp add: of_nat_diff)
  moreover have "drop (nat n) c = [] \<longleftrightarrow> n = int (length c)" using assms(2,3) by auto
  moreover define g where "g = (if int (length c) = n then f\<lparr>fb_empty := True\<rparr> else f)\<lparr>offset_r := r\<rparr>"
  have g: "fb_data g = fb_data f" "nb_elems g = nb_elems f" "offset_w g = offset_w f" "offset_r g = r"
    "fb_empty g \<longleftrightarrow> int (length c) = n \<or> fb_empty f" "elem_size g = elem_size f" "fb_flags g = fb_flags f"
    "auto_grow_limit g = auto_grow_limit f"
    by (simp_all add: g_def)
  have "fb_empty g \<longleftrightarrow> n = int (length c)" using g(5) h(7) assms(2,3) by auto
  moreover have "int (length (drop (nat n) c)) \<le> nb_elems f" using h(5) by simp
  ultimately have "fifo_holds g (drop (nat n) c)" unfolding fifo_holds_def g(1-4) using h(2) r by blast
  moreover have "av_fifo_drain2 f n = Some g"
    using assms(3) by (simp add: av_fifo_drain2_def fifo_can_read [OF assms(1)] g_def r_def Let_def)
  ultimately show ?thesis using g by blast
qed

section \<open>Growing\<close>

lemma realloc_arrayD:
  assumes "realloc_array mem xs n esize = Some ys"
  shows "length ys = nat n" "\<forall>i<length xs. i < nat n \<longrightarrow> ys ! i = xs ! i"
  using assms by (auto simp: realloc_array_def split: if_splits)

lemma move_ok:
  assumes "0 \<le> src" "0 \<le> n" "src + n \<le> int (length xs)" "0 \<le> dst" "dst + n \<le> int (length xs)"
  shows "\<exists>ys. move xs dst src n = Some ys \<and> length ys = length xs \<and>
    (\<forall>j. 0 \<le> j \<longrightarrow> j < int (length xs) \<longrightarrow> ys ! nat j = (if dst \<le> j \<and> j < dst + n then xs ! nat (src + (j - dst)) else xs ! nat j))"
proof -
  have l: "nat src + nat n \<le> length xs" "nat dst + length (slice (nat src) (nat n) xs) \<le> length xs"
    using assms by auto
  have "move xs dst src n = Some (splice (nat dst) (slice (nat src) (nat n) xs) xs)"
    using assms by (simp add: move_def)
  moreover have "splice (nat dst) (slice (nat src) (nat n) xs) xs ! nat j =
      (if dst \<le> j \<and> j < dst + n then xs ! nat (src + (j - dst)) else xs ! nat j)"
    if "0 \<le> j" "j < int (length xs)" for j
  proof (cases "dst \<le> j \<and> j < dst + n")
    case True
    then have "nat src + (nat j - nat dst) = nat (src + (j - dst))" "nat j - nat dst < nat n" using assms(1,4) by linarith+
    moreover have "nat dst \<le> nat j" using True by (simp add: nat_mono)
    ultimately show ?thesis using True l that assms(4) by (simp add: nth_splice nth_slice nat_less_iff)
  next
    case False
    with l that assms(4) show ?thesis by (auto simp: nth_splice nat_less_iff)
  qed
  ultimately show ?thesis using l by auto
qed

text \<open>The part of \<open>av_fifo_grow2\<close> after the reallocation: the elements that had wrapped around move.\<close>

lemma unwrap_ok:
  assumes "fifo_holds f c" "0 \<le> inc" "length tmp = length (fb_data f) + nat inc"
    and "\<forall>i<length (fb_data f). tmp ! i = fb_data f ! i"
    and "offset_w f \<le> offset_r f" "\<not> fb_empty f" "copy = min inc (offset_w f)"
  shows "\<exists>d1. move tmp (nb_elems f) 0 copy = Some d1 \<and>
    (if copy < offset_w f
     then \<exists>d2. move d1 0 copy (offset_w f - copy) = Some d2 \<and>
       fifo_holds (f\<lparr>fb_data := d2, offset_w := offset_w f - copy, nb_elems := nb_elems f + inc\<rparr>) c
     else fifo_holds (f\<lparr>fb_data := d1, offset_w := if copy = inc then 0 else nb_elems f + copy,
       nb_elems := nb_elems f + inc\<rparr>) c)"
proof -
  note h = fifo_holdsD [OF assms(1)]
  let ?nb = "nb_elems f" and ?r = "offset_r f" and ?w = "offset_w f" and ?n = "int (length c)"
  have n1: "0 < ?n" using h(7) assms(6) by simp
  have n: "0 < ?n" "0 < ?nb" "?r < ?nb" using n1 h(4,5) by linarith+
  have at: "(?r + k) mod ?nb = (if ?r + k < ?nb then ?r + k else ?r + k - ?nb)" if "0 \<le> k" "k \<le> ?n" for k
    using h(3,5) n(3) that by (intro wrap_mod) auto
  have w: "?w = ?r + ?n - ?nb" "0 \<le> ?w" using at [of ?n] h(3,6) n assms(5) by (auto split: if_splits)
  have copy: "0 \<le> copy" "copy \<le> inc" "copy \<le> ?w" using assms(2,7) w(2) by auto
  have len: "int (length tmp) = ?nb + inc" using h(2) assms(2,3) by simp
  have wnb: "?w < ?nb" using assms(5) n(3) by linarith
  have old: "tmp ! nat j = fb_data f ! nat j" if "0 \<le> j" "j < ?nb" for j using assms(4) that h(2) by (simp add: nat_less_iff)
  have c: "fb_data f ! nat (if ?r + int i < ?nb then ?r + int i else ?r + int i - ?nb) = c ! i" if "i < length c" for i
  proof -
    have "fb_data f ! nat ((?r + int i) mod ?nb) = c ! i" using h(1) that unfolding ring_def h(2) [symmetric] by blast
    then show ?thesis using at [of "int i"] that by simp
  qed
  from move_ok [of 0 copy tmp ?nb] copy len wnb n(2) obtain d1 where
    d1: "move tmp ?nb 0 copy = Some d1" "length d1 = length tmp" "\<forall>j. 0 \<le> j \<longrightarrow> j < ?nb + inc \<longrightarrow>
      d1 ! nat j = (if ?nb \<le> j \<and> j < ?nb + copy then tmp ! nat (j - ?nb) else tmp ! nat j)" by auto
  have front: "d1 ! nat (?r + int i) = c ! i" if "i < length c" "?r + int i < ?nb + copy" for i
    using c [OF that(1)] d1(3) [rule_format, of "?r + int i"] that old [of "?r + int i"] old [of "?r + int i - ?nb"] h(3) copy w(1)
      h(5) n(3)
    by (auto split: if_splits)
  have mod: "(?r + int i) mod (?nb + inc) = (if ?r + int i < ?nb + inc then ?r + int i else ?r + int i - (?nb + inc))"
    if "i \<le> length c" for i
    using h(3,5) n assms(2) that by (intro wrap_mod) auto
  show ?thesis
  proof (cases "copy < ?w")
    case True
    then have ci: "copy = inc" using assms(7) by simp
    from move_ok [of copy "?w - copy" d1 0] copy d1(2) len wnb ci obtain d2 where
      d2: "move d1 0 copy (?w - copy) = Some d2" "length d2 = length d1" "\<forall>j. 0 \<le> j \<longrightarrow> j < ?nb + inc \<longrightarrow>
        d2 ! nat j = (if j < ?w - copy then d1 ! nat (copy + j) else d1 ! nat j)" by auto
    have "d2 ! nat ((?r + int i) mod (?nb + inc)) = c ! i" if i: "i < length c" for i
    proof (cases "?r + int i < ?nb + inc")
      case True
      then have "d2 ! nat (?r + int i) = d1 ! nat (?r + int i)" using d2(3) [rule_format, of "?r + int i"] h(3) copy assms(5) by auto
      with True front [OF i] mod [of i] i ci show ?thesis by simp
    next
      case False
      let ?j = "?r + int i - (?nb + inc)"
      have j: "0 \<le> ?j" "?j < ?w - copy" "?j < ?nb + inc" using False i w(1) ci wnb assms(2) by auto
      then have "d2 ! nat ?j = d1 ! nat (copy + ?j)" using d2(3) by simp
      also have "\<dots> = tmp ! nat (copy + ?j)" using d1(3) [rule_format, of "copy + ?j"] j ci wnb copy by auto
      also have "\<dots> = fb_data f ! nat (copy + ?j)" using j copy wnb by (intro old) auto
      also have "\<dots> = c ! i" using c [OF i] False ci assms(2) by (simp add: algebra_simps)
      finally show ?thesis using False mod [of i] i by simp
    qed
    then have "ring d2 ?r c" using d2(2) d1(2) len by (simp add: ring_def)
    moreover have "?w - copy = (?r + ?n) mod (?nb + inc)" using mod [of "length c"] True w(1) ci by simp
    ultimately have "fifo_holds (f\<lparr>fb_data := d2, offset_w := ?w - copy, nb_elems := ?nb + inc\<rparr>) c"
      using h n assms(2) d2(2) d1(2) len unfolding fifo_holds_def by simp
    with True d1(1) d2(1) show ?thesis by simp
  next
    case False
    then have cw: "copy = ?w" using copy by simp
    have "d1 ! nat ((?r + int i) mod (?nb + inc)) = c ! i" if i: "i < length c" for i
    proof -
      have "?r + int i < ?nb + copy" using i w(1) cw by simp
      with front [OF i this] mod [of i] i copy show ?thesis by simp
    qed
    then have "ring d1 ?r c" using d1(2) len by (simp add: ring_def)
    moreover have "(if copy = inc then 0 else ?nb + copy) = (?r + ?n) mod (?nb + inc)"
      using mod [of "length c"] w(1) cw copy by auto
    ultimately have "fifo_holds (f\<lparr>fb_data := d1, offset_w := if copy = inc then 0 else ?nb + copy, nb_elems := ?nb + inc\<rparr>) c"
      using h n assms(2) d1(2) len unfolding fifo_holds_def by simp
    with False d1(1) show ?thesis by simp
  qed
qed

text \<open>The operations leave \<open>elem_size\<close>, the flags and the limit alone.\<close>

definition same_setup :: "'e fifo \<Rightarrow> 'e fifo \<Rightarrow> bool" where
  "same_setup f g \<longleftrightarrow> elem_size g = elem_size f \<and> fb_flags g = fb_flags f \<and> auto_grow_limit g = auto_grow_limit f"

definition can_grow_to :: "'e fifo_mem \<Rightarrow> int \<Rightarrow> int \<Rightarrow> bool" where
  "can_grow_to mem esize n \<longleftrightarrow> n * esize \<le> size_max mem \<and> fill mem n \<noteq> None"

lemma realloc_array_cases:
  "realloc_array mem xs n esize = None \<longleftrightarrow> \<not> can_grow_to mem esize n"
  by (auto simp: realloc_array_def can_grow_to_def)

lemma grow_ok:
  assumes "fifo_holds f c" "0 \<le> inc"
  shows "if inc > size_max mem - nb_elems f then av_fifo_grow2 mem f inc = Some (AVERROR_EINVAL, f)
     else if \<not> can_grow_to mem (elem_size f) (nb_elems f + inc) then av_fifo_grow2 mem f inc = Some (AVERROR_ENOMEM, f)
     else \<exists>g. av_fifo_grow2 mem f inc = Some (0, g) \<and> fifo_holds g c \<and> nb_elems g = nb_elems f + inc \<and> same_setup f g"
proof (cases "inc > size_max mem - nb_elems f \<or> \<not> can_grow_to mem (elem_size f) (nb_elems f + inc)")
  case True
  then show ?thesis by (auto simp: av_fifo_grow2_def realloc_array_cases [THEN iffD2])
next
  case False
  then obtain tmp where tmp: "realloc_array mem (fb_data f) (nb_elems f + inc) (elem_size f) = Some tmp"
    using realloc_array_cases by (metis not_None_eq)
  note h = fifo_holdsD [OF assms(1)]
  have t: "length tmp = length (fb_data f) + nat inc" "\<forall>i<length (fb_data f). tmp ! i = fb_data f ! i"
    using realloc_arrayD [OF tmp] h(2) assms(2) by (simp_all add: nat_add_distrib)
  show ?thesis
  proof (cases "offset_w f \<le> offset_r f \<and> \<not> fb_empty f")
    case True
    from unwrap_ok [OF assms t _ _ refl] True have u: "\<exists>d1. move tmp (nb_elems f) 0 (min inc (offset_w f)) = Some d1 \<and>
      (if min inc (offset_w f) < offset_w f
       then \<exists>d2. move d1 0 (min inc (offset_w f)) (offset_w f - min inc (offset_w f)) = Some d2 \<and>
         fifo_holds (f\<lparr>fb_data := d2, offset_w := offset_w f - min inc (offset_w f), nb_elems := nb_elems f + inc\<rparr>) c
       else fifo_holds (f\<lparr>fb_data := d1, offset_w := if min inc (offset_w f) = inc then 0
         else nb_elems f + min inc (offset_w f), nb_elems := nb_elems f + inc\<rparr>) c)" by blast
    define copy where "copy = min inc (offset_w f)"
    from u have u: "\<exists>d1. move tmp (nb_elems f) 0 copy = Some d1 \<and>
      (if copy < offset_w f
       then \<exists>d2. move d1 0 copy (offset_w f - copy) = Some d2 \<and>
         fifo_holds (f\<lparr>fb_data := d2, offset_w := offset_w f - copy, nb_elems := nb_elems f + inc\<rparr>) c
       else fifo_holds (f\<lparr>fb_data := d1, offset_w := if copy = inc then 0
         else nb_elems f + copy, nb_elems := nb_elems f + inc\<rparr>) c)" by (simp only: copy_def)
    show ?thesis
      using False True tmp u unfolding av_fifo_grow2_def copy_def [symmetric] Let_def
      by (cases "copy < offset_w f") (auto simp: same_setup_def)
  next
    case no_wrap: False
    have "fifo_holds (f\<lparr>fb_data := tmp, nb_elems := nb_elems f + inc\<rparr>) c"
    proof (cases "c = []")
      case True
      with h assms(2) t(1) show ?thesis by (auto simp: fifo_holds_def ring_def)
    next
      case nonempty: False
      then have n1: "0 < int (length c)" by simp
      have n: "0 < int (length c)" "offset_r f < nb_elems f" "0 < nb_elems f" using n1 h(4,5) by linarith+
      have lt: "offset_r f + int (length c) < nb_elems f"
        using wrap_mod [OF h(3) n(2) _ h(5)] h(5,6,7) no_wrap nonempty by (auto split: if_splits)
      have "ring tmp (offset_r f) c"
        unfolding ring_def
      proof (intro allI impI)
        fix i
        assume i: "i < length c"
        have "fb_data f ! nat ((offset_r f + int i) mod int (length (fb_data f))) = c ! i" using h(1) i by (simp add: ring_def)
        then show "tmp ! nat ((offset_r f + int i) mod int (length tmp)) = c ! i"
          using t i lt h(2,3) assms(2) by (simp add: nat_less_iff)
      qed
      with h lt assms(2) t(1) n nonempty show ?thesis by (simp add: fifo_holds_def)
    qed
    with False no_wrap tmp show ?thesis by (auto simp: av_fifo_grow2_def same_setup_def)
  qed
qed

section \<open>A bounded queue\<close>

text \<open>
  The abstract component: the elements in order, the capacity, and the limit up to which writing may
  raise the capacity. It knows nothing of offsets and copies.
\<close>

record 'e queue =
  q_elems :: "'e list"
  q_cap :: int
  q_limit :: int

datatype 'e fifo_op =
  Write "'e list" | Read int | Peek int int | Drain int | Grow int | Set_Limit int | Reset | Can_Read | Can_Write

text \<open>The arguments are of type \<open>size_t\<close>.\<close>

fun legal :: "'e fifo_op \<Rightarrow> bool" where
  "legal (Read n) \<longleftrightarrow> 0 \<le> n"
| "legal (Peek n offset) \<longleftrightarrow> 0 \<le> n \<and> 0 \<le> offset"
| "legal (Drain n) \<longleftrightarrow> 0 \<le> n"
| "legal (Grow n) \<longleftrightarrow> 0 \<le> n"
| "legal _ \<longleftrightarrow> True"

definition queue_grow :: "'e fifo_mem \<Rightarrow> int \<Rightarrow> 'e queue \<Rightarrow> int \<Rightarrow> int \<times> 'e queue" where
  "queue_grow mem esize q inc =
     (if inc > size_max mem - q_cap q then (AVERROR_EINVAL, q)
      else if \<not> can_grow_to mem esize (q_cap q + inc) then (AVERROR_ENOMEM, q)
      else (0, q\<lparr>q_cap := q_cap q + inc\<rparr>))"

text \<open>Writing needs \<open>need\<close> more places than there are; it gets twice as many when the limit allows.\<close>

definition queue_room :: "'e fifo_mem \<Rightarrow> int \<Rightarrow> bool \<Rightarrow> 'e queue \<Rightarrow> int \<Rightarrow> int \<times> 'e queue" where
  "queue_room mem esize auto q n =
     (let need = n - (q_cap q - int (length (q_elems q))); spare = max 0 (q_limit q - q_cap q) in
      if need \<le> 0 then (0, q)
      else if auto \<and> need \<le> spare then queue_grow mem esize q (if need < spare div 2 then need * 2 else spare)
      else (AVERROR_ENOSPC, q))"

fun queue_step :: "'e fifo_mem \<Rightarrow> int \<Rightarrow> bool \<Rightarrow> 'e queue \<Rightarrow> 'e fifo_op \<Rightarrow> ((int \<times> 'e list) \<times> 'e queue) option" where
  "queue_step mem esize auto q (Write es) =
     (case queue_room mem esize auto q (int (length es)) of
        (ret, q) \<Rightarrow> Some ((ret, []), if ret < 0 then q else q\<lparr>q_elems := q_elems q @ es\<rparr>))"
| "queue_step mem esize auto q (Read n) =
     Some (if n > int (length (q_elems q)) then ((AVERROR_EINVAL, []), q)
           else ((0, take (nat n) (q_elems q)), q\<lparr>q_elems := drop (nat n) (q_elems q)\<rparr>))"
| "queue_step mem esize auto q (Peek n offset) =
     Some (if offset + n > int (length (q_elems q)) then ((AVERROR_EINVAL, []), q)
           else ((0, take (nat n) (drop (nat offset) (q_elems q))), q))"
| "queue_step mem esize auto q (Drain n) =
     (if n > int (length (q_elems q)) then None else Some ((0, []), q\<lparr>q_elems := drop (nat n) (q_elems q)\<rparr>))"
| "queue_step mem esize auto q (Grow inc) = (case queue_grow mem esize q inc of (ret, q) \<Rightarrow> Some ((ret, []), q))"
| "queue_step mem esize auto q (Set_Limit n) = Some ((0, []), q\<lparr>q_limit := n\<rparr>)"
| "queue_step mem esize auto q Reset = Some ((0, []), q\<lparr>q_elems := []\<rparr>)"
| "queue_step mem esize auto q Can_Read = Some ((int (length (q_elems q)), []), q)"
| "queue_step mem esize auto q Can_Write = Some ((q_cap q - int (length (q_elems q)), []), q)"

text \<open>The detailed component; the result of an operation is its return value and what it delivers.\<close>

fun fifo_step :: "'e fifo_mem \<Rightarrow> 'e fifo \<Rightarrow> 'e fifo_op \<Rightarrow> ((int \<times> 'e list) \<times> 'e fifo) option" where
  "fifo_step mem f (Write es) = map_option (\<lambda>(ret, f). ((ret, []), f)) (av_fifo_write mem f es)"
| "fifo_step mem f (Read n) = map_option (\<lambda>(ret, es, f). ((ret, es), f)) (av_fifo_read f n)"
| "fifo_step mem f (Peek n offset) = map_option (\<lambda>r. (r, f)) (av_fifo_peek f n offset)"
| "fifo_step mem f (Drain n) = map_option (\<lambda>f. ((0, []), f)) (av_fifo_drain2 f n)"
| "fifo_step mem f (Grow inc) = map_option (\<lambda>(ret, f). ((ret, []), f)) (av_fifo_grow2 mem f inc)"
| "fifo_step mem f (Set_Limit n) = Some ((0, []), av_fifo_auto_grow_limit f n)"
| "fifo_step mem f Reset = Some ((0, []), av_fifo_reset2 f)"
| "fifo_step mem f Can_Read = Some ((av_fifo_can_read f, []), f)"
| "fifo_step mem f Can_Write = Some ((av_fifo_can_write f, []), f)"

definition fifo_refines :: "int \<Rightarrow> bool \<Rightarrow> 'e fifo \<Rightarrow> 'e queue \<Rightarrow> bool" where
  "fifo_refines esize auto f q \<longleftrightarrow> fifo_holds f (q_elems q) \<and> nb_elems f = q_cap q \<and> auto_grow_limit f = q_limit q \<and>
     elem_size f = esize \<and> (has_flag (fb_flags f) AV_FIFO_FLAG_AUTO_GROW \<longleftrightarrow> auto)"

lemma grow_refines:
  assumes "fifo_refines esize auto f q" "0 \<le> inc"
  shows "\<exists>f'. av_fifo_grow2 mem f inc = Some (fst (queue_grow mem esize q inc), f') \<and>
    fifo_refines esize auto f' (snd (queue_grow mem esize q inc))"
proof -
  have f: "fifo_holds f (q_elems q)" "nb_elems f = q_cap q" "elem_size f = esize"
    using assms(1) by (simp_all add: fifo_refines_def)
  from grow_ok [OF f(1) assms(2), of mem] show ?thesis
    using assms(1) unfolding f(2,3) queue_grow_def by (auto simp: fifo_refines_def same_setup_def split: if_splits)
qed

lemma room_refines:
  assumes "fifo_refines esize auto f q" "0 \<le> n"
  shows "\<exists>f'. fifo_check_space mem f n = Some (fst (queue_room mem esize auto q n), f') \<and>
    fifo_refines esize auto f' (snd (queue_room mem esize auto q n)) \<and>
    (fst (queue_room mem esize auto q n) < 0 \<or>
     int (length (q_elems q)) + n \<le> q_cap (snd (queue_room mem esize auto q n))) \<and>
    q_elems (snd (queue_room mem esize auto q n)) = q_elems q"
proof -
  have f: "fifo_holds f (q_elems q)" "nb_elems f = q_cap q" "auto_grow_limit f = q_limit q"
    "has_flag (fb_flags f) AV_FIFO_FLAG_AUTO_GROW \<longleftrightarrow> auto"
    using assms(1) by (simp_all add: fifo_refines_def)
  define need where "need = n - (q_cap q - int (length (q_elems q)))"
  define spare where "spare = max 0 (q_limit q - q_cap q)"
  define inc where "inc = (if need < spare div 2 then need * 2 else spare)"
  have room: "queue_room mem esize auto q n = (if need \<le> 0 then (0, q)
      else if auto \<and> need \<le> spare then queue_grow mem esize q inc else (AVERROR_ENOSPC, q))"
    by (simp add: queue_room_def Let_def need_def spare_def inc_def)
  have space: "fifo_check_space mem f n = (if need \<le> 0 then Some (0, f)
      else if auto \<and> need \<le> spare then av_fifo_grow2 mem f inc else Some (AVERROR_ENOSPC, f))"
    unfolding fifo_check_space_def av_fifo_can_write_def fifo_can_read [OF f(1)] f(2-4) Let_def
    by (auto simp: need_def spare_def inc_def max_def)
  have inc: "need > 0 \<Longrightarrow> need \<le> spare \<Longrightarrow> need \<le> inc" by (auto simp: inc_def)
  show ?thesis
  proof (cases "0 < need \<and> auto \<and> need \<le> spare")
    case True
    then have "0 \<le> inc" using inc by simp
    from grow_refines [OF assms(1) this, of mem] True inc show ?thesis
      unfolding room space by (auto simp: queue_grow_def need_def)
  next
    case False
    then show ?thesis using assms(1) unfolding room space by (auto simp: need_def)
  qed
qed

section \<open>The FIFO simulates the queue\<close>

lemma feed_copy_ok: "feed_ok (\<lambda>buf n. n \<le> int (length buf)) feed_copy"
  by (auto simp: feed_ok_def feed_copy_def)

lemma delivered_copy:
  assumes "delivered feed_copy buf 0 es rest ret stop"
  shows "buf = es @ rest" "ret = 0" "\<not> stop"
proof -
  have "(r :: int) = 0 \<longrightarrow> buf = es @ rest \<and> ret = 0 \<and> \<not> stop" if "delivered feed_copy buf r es rest ret stop" for r
    using that by (induction rule: delivered.induct) (auto simp: feed_copy_def, metis append_assoc append_take_drop_id)
  with assms show "buf = es @ rest" "ret = 0" "\<not> stop" by blast+
qed

lemma taken_copy:
  assumes "taken sink_copy out 0 es out' ret stop"
  shows "out' = out @ es" "ret = 0" "\<not> stop"
proof -
  have "(r :: int) = 0 \<longrightarrow> out' = out @ es \<and> ret = 0 \<and> \<not> stop" if "taken sink_copy out r es out' ret stop" for r
    using that by (induction rule: taken.induct) (auto simp: sink_copy_def)
  with assms show "out' = out @ es" "ret = 0" "\<not> stop" by blast+
qed

lemma sink_copy_ok: "sink_ok sink_copy"
  by (auto simp: sink_ok_def sink_copy_def)

text \<open>Writing from any source into a FIFO with room.\<close>

lemma write_ok:
  assumes "feed_ok good feed" "fifo_refines esize auto f q" "0 \<le> n" "good p n"
  shows "case queue_room mem esize auto q n of (ret, q') \<Rightarrow>
    if ret < 0 then \<exists>f'. fifo_write_common mem feed f p n = Some (ret, n, p, f') \<and> fifo_refines esize auto f' q'
    else \<exists>ret' left p' es f' stop. fifo_write_common mem feed f p n = Some (ret', n - left, p', f') \<and> 0 \<le> left \<and>
      int (length es) = n - left \<and> delivered feed p ret es p' ret' stop \<and> (left = 0 \<or> stop) \<and>
      fifo_refines esize auto f' (q'\<lparr>q_elems := q_elems q @ es\<rparr>)"
proof -
  obtain ret q' where q': "queue_room mem esize auto q n = (ret, q')" by (cases "queue_room mem esize auto q n")
  from room_refines [OF assms(2,3), of mem] q' obtain f' where f': "fifo_check_space mem f n = Some (ret, f')"
    "fifo_refines esize auto f' q'" "ret < 0 \<or> int (length (q_elems q)) + n \<le> q_cap q'" "q_elems q' = q_elems q" by auto
  show ?thesis
  proof (cases "ret < 0")
    case True
    with q' f' show ?thesis by (simp add: fifo_write_common_def)
  next
    case False
    have h: "fifo_holds f' (q_elems q)" and cap: "nb_elems f' = q_cap q'" using f'(2,4) by (simp_all add: fifo_refines_def)
    note hd = fifo_holdsD [OF h]
    have room: "offset_r f' < nb_elems f' \<or> n = 0" using hd(4,5) f'(3) False cap assms(3) by auto
    have fits: "int (length (q_elems q)) + n \<le> nb_elems f'" using f'(3) False cap by simp
    have fuel: "n < int (nat n + 1)" by simp
    from write_loop_ok [OF assms(1) hd(2,1,3) room fits assms(3) hd(6) fuel assms(4), of ret] obtain ret' p' d w left es stop where
      w: "write_loop (nat n + 1) feed (nb_elems f') p (fb_data f') (offset_w f') n ret = Some (ret', p', d, w, left)"
        "length d = length (fb_data f')" "ring d (offset_r f') (q_elems q @ es)"
        "w = (offset_r f' + int (length (q_elems q @ es))) mod nb_elems f'" "0 \<le> left" "int (length es) = n - left"
        "delivered feed p ret es p' ret' stop" "left = 0 \<or> stop"
      by blast
    let ?g = "f'\<lparr>fb_data := d, offset_w := w, fb_empty := if n \<noteq> left then False else fb_empty f'\<rparr>"
    have "fifo_holds ?g (q_elems q @ es)"
      using w(2-6) hd(2-5,7) fits unfolding fifo_holds_def by auto
    then have "fifo_refines esize auto ?g (q'\<lparr>q_elems := q_elems q @ es\<rparr>)" using f'(2) by (simp add: fifo_refines_def)
    moreover have "fifo_write_common mem feed f p n = Some (ret', n - left, p', ?g)"
      using f'(1) False w(1) by (simp add: fifo_write_common_def)
    ultimately show ?thesis unfolding q' prod.case if_not_P [OF False] using w(5-8) by blast
  qed
qed

lemma queue_room_zero: "fst (queue_room mem esize auto q n) \<ge> 0 \<Longrightarrow> fst (queue_room mem esize auto q n) = 0"
  by (auto simp: queue_room_def queue_grow_def Let_def split: if_splits)

lemma queue_room_elems: "q_elems (snd (queue_room mem esize auto q n)) = q_elems q"
  by (auto simp: queue_room_def queue_grow_def Let_def)

lemma write_step:
  assumes "fifo_refines esize auto f q"
  shows "\<exists>f'. av_fifo_write mem f es = Some (fst (queue_room mem esize auto q (int (length es))), f') \<and>
    fifo_refines esize auto f' (let (ret, q') = queue_room mem esize auto q (int (length es)) in
      if ret < 0 then q' else q'\<lparr>q_elems := q_elems q' @ es\<rparr>)"
proof -
  obtain ret q' where q': "queue_room mem esize auto q (int (length es)) = (ret, q')"
    by (cases "queue_room mem esize auto q (int (length es))")
  note w = write_ok [OF feed_copy_ok assms, of "int (length es)" es mem, unfolded q' prod.case, simplified]
  show ?thesis
  proof (cases "ret < 0")
    case True
    with w q' show ?thesis by (auto simp: av_fifo_write_def)
  next
    case False
    then have r0: "ret = 0" using queue_room_zero [of mem esize auto q "int (length es)"] q' by simp
    from w False obtain ret' left rest xs f' stop where
      x: "fifo_write_common mem feed_copy f es (int (length es)) = Some (ret', int (length es) - left, rest, f')"
        "delivered feed_copy es ret xs rest ret' stop" "left = 0 \<or> stop" "int (length xs) = int (length es) - left"
        "fifo_refines esize auto f' (q'\<lparr>q_elems := q_elems q @ xs\<rparr>)" by auto
    from delivered_copy [OF x(2) [unfolded r0]] x(3,4) have "es = xs" "ret' = 0" by auto
    with x(1,5) False q' r0 queue_room_elems [of mem esize auto q "int (length es)"] show ?thesis by (simp add: av_fifo_write_def)
  qed
qed

lemma peek_step:
  assumes "fifo_holds f c" "0 \<le> n" "0 \<le> offset"
  shows "fifo_peek_common sink_copy f [] n offset = Some (if offset + n > int (length c) then (AVERROR_EINVAL, 0, [])
    else (0, n, take (nat n) (drop (nat offset) c)))"
proof (cases "offset > int (length c) \<or> n > int (length c) - offset")
  case True
  with peek_common_ok [OF sink_copy_ok assms(1-3), of "[]"] assms(2,3) show ?thesis by auto
next
  case False
  then obtain ret out left stop where x: "fifo_peek_common sink_copy f [] n offset = Some (ret, n - left, out)"
    "taken sink_copy [] 0 (take (nat (n - left)) (drop (nat offset) c)) out ret stop" "left = 0 \<or> stop"
    using peek_common_ok [OF sink_copy_ok assms(1-3), of "[]"] by auto
  from taken_copy [OF x(2)] x(1,3) False show ?thesis by auto
qed

lemma drain_step:
  assumes "fifo_refines esize auto f q" "0 \<le> n" "n \<le> int (length (q_elems q))"
  shows "\<exists>f'. av_fifo_drain2 f n = Some f' \<and> fifo_refines esize auto f' (q\<lparr>q_elems := drop (nat n) (q_elems q)\<rparr>)"
  using drain_ok [of f "q_elems q" n] assms by (auto simp: fifo_refines_def)

lemma drain_fails: "fifo_refines esize auto f q \<Longrightarrow> n > int (length (q_elems q)) \<Longrightarrow> av_fifo_drain2 f n = None"
  by (auto simp: fifo_refines_def av_fifo_drain2_def Let_def dest: fifo_can_read)

lemma fifo_simulation: "simulation (fifo_step mem) (queue_step mem esize auto) (fifo_refines esize auto) legal"
proof
  fix f :: "'a fifo" and q :: "'a queue" and x :: "'a fifo_op"
  assume rel: "fifo_refines esize auto f q" and legal: "legal x"
  then have holds: "fifo_holds f (q_elems q)" by (simp add: fifo_refines_def)
  show "case queue_step mem esize auto q x of None \<Rightarrow> fifo_step mem f x = None
    | Some (r, q') \<Rightarrow> \<exists>f'. fifo_step mem f x = Some (r, f') \<and> fifo_refines esize auto f' q'"
  proof (cases x)
    case (Write es)
    from write_step [OF rel, of mem es] Write show ?thesis by (auto split: prod.splits)
  next
    case (Read n)
    with legal have n: "0 \<le> n" by simp
    from peek_step [OF holds n, of 0] drain_step [OF rel n] drain_step [OF rel, of 0] Read show ?thesis
      by (auto simp: av_fifo_read_def)
  next
    case (Peek n offset)
    with legal peek_step [OF holds, of n offset] rel show ?thesis by (auto simp: av_fifo_peek_def)
  next
    case (Drain n)
    with legal drain_step [OF rel, of n] drain_fails [OF rel, of n] show ?thesis by (auto simp: not_less)
  next
    case (Grow inc)
    with legal grow_refines [OF rel, of inc mem] show ?thesis by (auto split: prod.splits)
  next
    case (Set_Limit n)
    with rel show ?thesis by (auto simp: av_fifo_auto_grow_limit_def fifo_refines_def fifo_holds_def)
  next
    case Reset
    with rel show ?thesis by (auto simp: av_fifo_reset2_def fifo_refines_def fifo_holds_def ring_def)
  next
    case Can_Read
    with rel holds show ?thesis by (simp add: fifo_can_read)
  next
    case Can_Write
    with rel holds show ?thesis by (simp add: fifo_can_read av_fifo_can_write_def fifo_refines_def)
  qed
qed

interpretation fifo: simulation "fifo_step mem" "queue_step mem esize auto" "fifo_refines esize auto" legal for mem esize auto
  by (rule fifo_simulation)

lemma alloc_ok:
  assumes "av_fifo_alloc2 mem n esize flags = Some f" "0 \<le> n"
  shows "fifo_refines esize (has_flag flags AV_FIFO_FLAG_AUTO_GROW) f
    \<lparr>q_elems = [], q_cap = n, q_limit = max (AUTO_GROW_DEFAULT_BYTES div esize) 1\<rparr>"
  using assms by (auto simp: av_fifo_alloc2_def fifo_refines_def fifo_holds_def ring_def dest: realloc_arrayD split: if_splits option.splits)

section \<open>Callbacks\<close>

text \<open>A callback delivers, or takes, at most the number of elements it is offered.\<close>

definition read_cb_ok :: "('p \<Rightarrow> int \<Rightarrow> int \<times> 'e list \<times> 'p) \<Rightarrow> bool" where
  "read_cb_ok read_cb \<longleftrightarrow> (\<forall>p len. int (length (fst (snd (read_cb p len)))) \<le> len)"

definition write_cb_ok :: "('p \<Rightarrow> 'e list \<Rightarrow> int \<times> int \<times> 'p) \<Rightarrow> bool" where
  "write_cb_ok write_cb \<longleftrightarrow> (\<forall>p es. 0 \<le> fst (snd (write_cb p es)) \<and> fst (snd (write_cb p es)) \<le> int (length es))"

lemma feed_cb_ok: "read_cb_ok read_cb \<Longrightarrow> feed_ok (\<lambda>p n. True) (feed_cb read_cb)"
  unfolding feed_ok_def feed_cb_def read_cb_ok_def by (auto split: prod.splits) (metis fst_conv snd_conv)+

lemma sink_cb_ok: "write_cb_ok write_cb \<Longrightarrow> sink_ok (sink_cb write_cb)"
  unfolding sink_ok_def sink_cb_def write_cb_ok_def by (auto split: prod.splits) (metis fst_conv snd_conv order_le_less)+

text \<open>What a callback delivers before it fails stays in the FIFO; what a callback takes is gone.\<close>

lemma write_from_cb_ok:
  assumes "read_cb_ok read_cb" "fifo_refines esize auto f q" "0 \<le> n"
  shows "\<exists>ret m p' f' q' es. av_fifo_write_from_cb mem f read_cb p n = Some (ret, m, p', f') \<and>
    fifo_refines esize auto f' q' \<and> q_elems q' = q_elems q @ es"
proof -
  obtain ret q' where q': "queue_room mem esize auto q n = (ret, q')" by (cases "queue_room mem esize auto q n")
  have "q_elems q' = q_elems q" using queue_room_elems [of mem esize auto q n] q' by simp
  with write_ok [OF feed_cb_ok [OF assms(1)] assms(2,3) TrueI, of mem p] q' show ?thesis
    by (cases "ret < 0") (force simp: av_fifo_write_from_cb_def)+
qed

lemma read_to_cb_ok:
  assumes "write_cb_ok write_cb" "fifo_refines esize auto f q" "0 \<le> n"
  shows "\<exists>ret m p' f'. av_fifo_read_to_cb f write_cb p n = Some (ret, m, p', f') \<and> 0 \<le> m \<and> m \<le> int (length (q_elems q)) \<and>
    fifo_refines esize auto f' (q\<lparr>q_elems := drop (nat m) (q_elems q)\<rparr>)"
proof -
  have h: "fifo_holds f (q_elems q)" using assms(2) by (simp add: fifo_refines_def)
  have "\<exists>ret m p'. fifo_peek_common (sink_cb write_cb) f p n 0 = Some (ret, m, p') \<and> 0 \<le> m \<and> m \<le> int (length (q_elems q))"
    using peek_common_ok [OF sink_cb_ok [OF assms(1)] h assms(3), of 0 p] by (fastforce split: if_splits)
  then obtain ret m p' where "fifo_peek_common (sink_cb write_cb) f p n 0 = Some (ret, m, p')" "0 \<le> m" "m \<le> int (length (q_elems q))"
    by blast
  with drain_step [OF assms(2), of m] show ?thesis by (auto simp: av_fifo_read_to_cb_def)
qed

section \<open>Properties\<close>

text \<open>
  Property C28: the ring buffer is a queue: for a FIFO from \<open>av_fifo_alloc2\<close> and every sequence of
  writes, reads, peeks, drains, resets and growths, automatic or not, each operation returns and
  delivers exactly what the bounded queue does. In particular no access leaves the buffer, an
  assertion fails only for a drain of more than there is, and growing while the elements wrap
  around the end of the buffer keeps them and their order.
\<close>

theorem fifo_refines_queue:
  assumes "av_fifo_alloc2 mem n esize flags = Some f" and "0 \<le> n" and "\<forall>x\<in>set ops. legal x"
  shows "map_option fst (run (fifo_step mem) f ops) =
    map_option fst (run (queue_step mem esize (has_flag flags AV_FIFO_FLAG_AUTO_GROW))
      \<lparr>q_elems = [], q_cap = n, q_limit = max (AUTO_GROW_DEFAULT_BYTES div esize) 1\<rparr> ops)"
  using alloc_ok [OF assms(1,2)] assms(3) by (rule fifo.same_results)

text \<open>Witness data: the third write finds the elements wrapped around and makes the buffer grow.\<close>

definition demo_mem :: "int fifo_mem" where
  "demo_mem = \<lparr>size_max = 4294967295, fill = (\<lambda>n. Some (\<lambda>i. 0)), struct_ok = True\<rparr>"

definition demo_fifo :: "int fifo" where
  "demo_fifo = \<lparr>fb_data = [0, 0], elem_size = 4, nb_elems = 2, offset_r = 0, offset_w = 0, fb_empty = True,
     fb_flags = 1, auto_grow_limit = 262144\<rparr>"

definition demo_ops :: "int fifo_op list" where
  "demo_ops = [Write [1, 2], Read 1, Write [3], Write [4, 5], Peek 1 1, Read 4, Read 1, Can_Write]"

theorem fifo_refines_queue_witness:
  "map_option fst (run (fifo_step demo_mem) demo_fifo demo_ops) =
     Some [(0, []), (0, [1]), (0, []), (0, []), (0, [3]), (0, [2, 3, 4, 5]), (AVERROR_EINVAL, []), (6, [])]"
proof -
  have alloc: "av_fifo_alloc2 demo_mem 2 4 1 = Some demo_fifo" by code_simp
  have legal: "\<forall>x\<in>set demo_ops. legal x" by (simp add: demo_ops_def)
  have "map_option fst (run (queue_step demo_mem 4 (has_flag 1 AV_FIFO_FLAG_AUTO_GROW))
      \<lparr>q_elems = [], q_cap = 2, q_limit = max (AUTO_GROW_DEFAULT_BYTES div 4) 1\<rparr> demo_ops) =
     Some [(0, []), (0, [1]), (0, []), (0, []), (0, [3]), (0, [2, 3, 4, 5]), (AVERROR_EINVAL, []), (6, [])]"
    by code_simp
  with fifo_refines_queue [OF alloc _ legal] show ?thesis by simp
qed

lemma demo_fifo_runs:
  "map_option fst (run (fifo_step demo_mem) demo_fifo demo_ops) =
     Some [(0, []), (0, [1]), (0, []), (0, []), (0, [3]), (0, [2, 3, 4, 5]), (AVERROR_EINVAL, []), (6, [])]"
  by code_simp

end
