(* ===== verification/Buffer.thy ===== *)
theory Buffer
  imports Prelude "HOL-Library.Monad_Syntax"
begin

text \<open>
  \<open>libavutil/buffer.c\<close> on an explicit heap: reference counted buffers, the callbacks that free their
  data, and pools that take buffers back. Packets and frames hold their data through references.

  The heap has a map for each type of object. An address is a number that is never used again, so
  that a dangling pointer stays dangling; an access through one is \<open>None\<close>, as is freeing something
  twice. The \<open>AVBuffer\<close> inside a pool entry is the object \<open>Embedded\<close>. The functions run one at a time:
  the counters are atomic and the list of a pool is locked, so that each object changes as here.
\<close>

section \<open>Objects\<close>

type_synonym data_ptr = "(nat \<times> nat) option"

datatype buffer_ptr = Own nat | Embedded nat

datatype opaque = No_Opaque | Entry nat | User nat

datatype free_fn = Default_Free | Custom nat | Pool_Release

definition AV_BUFFER_FLAG_READONLY :: int where "AV_BUFFER_FLAG_READONLY = 1"

definition BUFFER_FLAG_REALLOCATABLE :: int where "BUFFER_FLAG_REALLOCATABLE = 1"

definition BUFFER_FLAG_NO_FREE :: int where "BUFFER_FLAG_NO_FREE = 2"

record AVBuffer =
  buf_data :: data_ptr
  buf_size :: nat
  refcount :: nat
  buf_free :: free_fn
  buf_opaque :: opaque
  buf_flags :: int
  flags_internal :: int

record AVBufferRef =
  ref_buffer :: buffer_ptr
  ref_data :: data_ptr
  ref_size :: nat

record BufferPoolEntry =
  ent_data :: data_ptr
  ent_opaque :: opaque
  ent_free :: free_fn
  ent_pool :: nat
  ent_next :: "nat option"

text \<open>An allocation function of a pool is \<open>av_buffer_alloc\<close> or the user's.\<close>

record AVBufferPool =
  pool_head :: "nat option"
  pool_refcount :: nat
  pool_size :: nat
  pool_opaque :: opaque
  pool_alloc :: "nat option"
  pool_alloc2 :: "nat option"
  pool_free :: "nat option"

text \<open>Calls of the user's callbacks: a buffer or a pool is given back.\<close>

datatype event = Freed nat opaque data_ptr | Pool_Freed nat opaque

record heap =
  fresh :: nat
  blocks :: "nat \<rightharpoonup> byte list"
  buffers :: "buffer_ptr \<rightharpoonup> AVBuffer"
  refs :: "nat \<rightharpoonup> AVBufferRef"
  entries :: "nat \<rightharpoonup> BufferPoolEntry"
  pools :: "nat \<rightharpoonup> AVBufferPool"
  events :: "event list"

text \<open>
  The surroundings: which allocations fail, what fresh memory contains, whether a mutex can be
  initialised, the allocation functions that the user gave to pools, and how deep the callbacks
  that free data may nest.
\<close>

record env =
  oom :: "nat \<Rightarrow> bool"
  junk :: "nat \<Rightarrow> byte"
  mutex_ok :: bool
  nesting :: nat
  user_alloc :: "nat \<Rightarrow> opaque \<Rightarrow> nat \<Rightarrow> heap \<Rightarrow> (nat option \<times> heap) option"

section \<open>Memory\<close>

definition new_address :: "env \<Rightarrow> heap \<Rightarrow> nat option \<times> heap" where
  "new_address A h = (if oom A (fresh h) then None else Some (fresh h), h\<lparr>fresh := fresh h + 1\<rparr>)"

definition av_malloc :: "env \<Rightarrow> nat \<Rightarrow> heap \<Rightarrow> nat option \<times> heap" where
  "av_malloc A n h =
     (case new_address A h of
        (None, h) \<Rightarrow> (None, h)
      | (Some a, h) \<Rightarrow> (Some a, h\<lparr>blocks := (blocks h)(a \<mapsto> map (junk A) [0..<n])\<rparr>))"

fun mem_free :: "data_ptr \<Rightarrow> heap \<Rightarrow> heap option" where
  "mem_free None h = Some h"
| "mem_free (Some (a, i)) h =
     (if i = 0 \<and> blocks h a \<noteq> None then Some (h\<lparr>blocks := (blocks h)(a := None)\<rparr>) else None)"

fun mem_read :: "data_ptr \<Rightarrow> nat \<Rightarrow> heap \<Rightarrow> byte list option" where
  "mem_read None n h = None"
| "mem_read (Some (a, i)) n h =
     (case blocks h a of None \<Rightarrow> None | Some xs \<Rightarrow> if i + n \<le> length xs then Some (slice i n xs) else None)"

fun mem_write :: "data_ptr \<Rightarrow> byte list \<Rightarrow> heap \<Rightarrow> heap option" where
  "mem_write None ys h = None"
| "mem_write (Some (a, i)) ys h =
     (case blocks h a of
        None \<Rightarrow> None
      | Some xs \<Rightarrow> if i + length ys \<le> length xs then Some (h\<lparr>blocks := (blocks h)(a \<mapsto> splice i ys xs)\<rparr>) else None)"

definition memcpy :: "data_ptr \<Rightarrow> data_ptr \<Rightarrow> nat \<Rightarrow> heap \<Rightarrow> heap option" where
  "memcpy dst src n h = do { xs \<leftarrow> mem_read src n h; mem_write dst xs h }"

text \<open>The old block moves to a new address, whether or not it could stay.\<close>

definition av_realloc :: "env \<Rightarrow> data_ptr \<Rightarrow> nat \<Rightarrow> heap \<Rightarrow> (nat option \<times> heap) option" where
  "av_realloc A p n h =
     (case av_malloc A n h of
        (None, h) \<Rightarrow> Some (None, h)
      | (Some a, h) \<Rightarrow>
          (case p of
             None \<Rightarrow> Some (Some a, h)
           | Some (a0, i) \<Rightarrow> do {
               xs \<leftarrow> blocks h a0;
               h \<leftarrow> mem_write (Some (a, 0)) (take n xs) h;
               h \<leftarrow> mem_free p h;
               Some (Some a, h)
             }))"

section \<open>Creating buffers and references\<close>

definition zero_buffer :: AVBuffer where
  "zero_buffer = \<lparr>buf_data = None, buf_size = 0, refcount = 0, buf_free = Default_Free, buf_opaque = No_Opaque,
     buf_flags = 0, flags_internal = 0\<rparr>"

definition buffer_create :: "env \<Rightarrow> buffer_ptr \<Rightarrow> data_ptr \<Rightarrow> nat \<Rightarrow> free_fn option \<Rightarrow> opaque \<Rightarrow> int \<Rightarrow> heap \<Rightarrow>
    (nat option \<times> heap) option" where
  "buffer_create A buf data n free opaque flags h = do {
     B \<leftarrow> buffers h buf;
     let h = h\<lparr>buffers := (buffers h)(buf \<mapsto> B\<lparr>buf_data := data, buf_size := n,
       buf_free := (case free of None \<Rightarrow> Default_Free | Some f \<Rightarrow> f), buf_opaque := opaque, refcount := 1, buf_flags := flags\<rparr>)\<rparr>;
     case new_address A h of
       (None, h) \<Rightarrow> Some (None, h)
     | (Some r, h) \<Rightarrow> Some (Some r, h\<lparr>refs := (refs h)(r \<mapsto> \<lparr>ref_buffer = buf, ref_data = data, ref_size = n\<rparr>)\<rparr>)
   }"

definition av_buffer_create :: "env \<Rightarrow> data_ptr \<Rightarrow> nat \<Rightarrow> free_fn option \<Rightarrow> opaque \<Rightarrow> int \<Rightarrow> heap \<Rightarrow>
    (nat option \<times> heap) option" where
  "av_buffer_create A data n free opaque flags h =
     (case new_address A h of
        (None, h) \<Rightarrow> Some (None, h)
      | (Some b, h) \<Rightarrow> do {
          (ret, h) \<leftarrow> buffer_create A (Own b) data n free opaque flags
            (h\<lparr>buffers := (buffers h)(Own b \<mapsto> zero_buffer)\<rparr>);
          case ret of
            None \<Rightarrow> Some (None, h\<lparr>buffers := (buffers h)(Own b := None)\<rparr>)
          | Some r \<Rightarrow> Some (Some r, h)
        })"

definition av_buffer_alloc :: "env \<Rightarrow> nat \<Rightarrow> heap \<Rightarrow> (nat option \<times> heap) option" where
  "av_buffer_alloc A n h =
     (case av_malloc A n h of
        (None, h) \<Rightarrow> Some (None, h)
      | (Some a, h) \<Rightarrow> do {
          (ret, h) \<leftarrow> av_buffer_create A (Some (a, 0)) n (Some Default_Free) No_Opaque 0 h;
          case ret of
            None \<Rightarrow> do { h \<leftarrow> mem_free (Some (a, 0)) h; Some (None, h) }
          | Some r \<Rightarrow> Some (Some r, h)
        })"

definition av_buffer_allocz :: "env \<Rightarrow> nat \<Rightarrow> heap \<Rightarrow> (nat option \<times> heap) option" where
  "av_buffer_allocz A n h = do {
     (ret, h) \<leftarrow> av_buffer_alloc A n h;
     case ret of
       None \<Rightarrow> Some (None, h)
     | Some r \<Rightarrow> do {
         R \<leftarrow> refs h r;
         h \<leftarrow> mem_write (ref_data R) (replicate n 0) h;
         Some (Some r, h)
       }
   }"

text \<open>The counter is an \<open>unsigned int\<close>.\<close>

definition count_up :: "buffer_ptr \<Rightarrow> heap \<Rightarrow> heap option" where
  "count_up b h = do {
     B \<leftarrow> buffers h b;
     Some (h\<lparr>buffers := (buffers h)(b \<mapsto> B\<lparr>refcount := (refcount B + 1) mod 2 ^ 32\<rparr>)\<rparr>)
   }"

definition av_buffer_ref :: "env \<Rightarrow> nat \<Rightarrow> heap \<Rightarrow> (nat option \<times> heap) option" where
  "av_buffer_ref A buf h =
     (case new_address A h of
        (None, h) \<Rightarrow> Some (None, h)
      | (Some r, h) \<Rightarrow> do {
          R \<leftarrow> refs h buf;
          h \<leftarrow> count_up (ref_buffer R) (h\<lparr>refs := (refs h)(r \<mapsto> R)\<rparr>);
          Some (Some r, h)
        })"

section \<open>Freeing buffers and pools\<close>

text \<open>
  A callback of the user takes the data back. A pool takes the buffer back, and when that was the
  last one of a pool that nobody else holds, the pool is freed with all its buffers, which calls
  the callbacks they had before: the first argument is how deep the calls may nest. A list whose
  links never end does not return.
\<close>

partial_function (option) pool_flush :: "(free_fn \<Rightarrow> opaque \<Rightarrow> data_ptr \<Rightarrow> heap \<Rightarrow> heap option) \<Rightarrow> nat \<Rightarrow> heap \<Rightarrow> heap option" where
  "pool_flush call p h =
     (case pools h p of
        None \<Rightarrow> None
      | Some P \<Rightarrow>
          (case pool_head P of
             None \<Rightarrow> Some h
           | Some e \<Rightarrow>
               (case entries h e of
                  None \<Rightarrow> None
                | Some E \<Rightarrow>
                    (case call (ent_free E) (ent_opaque E) (ent_data E)
                        (h\<lparr>pools := (pools h)(p \<mapsto> P\<lparr>pool_head := ent_next E\<rparr>)\<rparr>) of
                       None \<Rightarrow> None
                     | Some h \<Rightarrow>
                         pool_flush call p (h\<lparr>entries := (entries h)(e := None),
                           buffers := (buffers h)(Embedded e := None)\<rparr>)))))"

definition buffer_pool_free :: "(free_fn \<Rightarrow> opaque \<Rightarrow> data_ptr \<Rightarrow> heap \<Rightarrow> heap option) \<Rightarrow> nat \<Rightarrow> heap \<Rightarrow> heap option" where
  "buffer_pool_free call p h = do {
     h \<leftarrow> pool_flush call p h;
     P \<leftarrow> pools h p;
     Some (h\<lparr>pools := (pools h)(p := None),
       events := events h @ (case pool_free P of None \<Rightarrow> [] | Some k \<Rightarrow> [Pool_Freed k (pool_opaque P)])\<rparr>)
   }"

definition pool_count_down :: "(free_fn \<Rightarrow> opaque \<Rightarrow> data_ptr \<Rightarrow> heap \<Rightarrow> heap option) \<Rightarrow> nat \<Rightarrow> heap \<Rightarrow> heap option" where
  "pool_count_down call p h = do {
     P \<leftarrow> pools h p;
     let h = h\<lparr>pools := (pools h)(p \<mapsto> P\<lparr>pool_refcount := (pool_refcount P + (2 ^ 32 - 1)) mod 2 ^ 32\<rparr>)\<rparr>;
     if pool_refcount P = 1 then buffer_pool_free call p h else Some h
   }"

definition pool_release_buffer :: "(free_fn \<Rightarrow> opaque \<Rightarrow> data_ptr \<Rightarrow> heap \<Rightarrow> heap option) \<Rightarrow> opaque \<Rightarrow> heap \<Rightarrow> heap option" where
  "pool_release_buffer call opaque h =
     (case opaque of
        Entry e \<Rightarrow> do {
          E \<leftarrow> entries h e;
          P \<leftarrow> pools h (ent_pool E);
          pool_count_down call (ent_pool E)
            (h\<lparr>entries := (entries h)(e \<mapsto> E\<lparr>ent_next := pool_head P\<rparr>),
               pools := (pools h)(ent_pool E \<mapsto> P\<lparr>pool_head := Some e\<rparr>)\<rparr>)
        }
      | _ \<Rightarrow> None)"

fun call_free :: "nat \<Rightarrow> free_fn \<Rightarrow> opaque \<Rightarrow> data_ptr \<Rightarrow> heap \<Rightarrow> heap option" where
  "call_free n Default_Free opaque data h = mem_free data h"
| "call_free n (Custom k) opaque data h = do {
     h \<leftarrow> mem_free (map_option (\<lambda>(a, i). (a, 0)) data) h;
     Some (h\<lparr>events := events h @ [Freed k opaque data]\<rparr>)
   }"
| "call_free 0 Pool_Release opaque data h = None"
| "call_free (Suc n) Pool_Release opaque data h = pool_release_buffer (call_free n) opaque h"

definition free_buffer :: "buffer_ptr \<Rightarrow> heap \<Rightarrow> heap option" where
  "free_buffer b h =
     (case b of
        Own a \<Rightarrow> if buffers h b \<noteq> None then Some (h\<lparr>buffers := (buffers h)(b := None)\<rparr>) else None
      | Embedded e \<Rightarrow> None)"

text \<open>The end of \<open>buffer_replace\<close>: a buffer has one reference less.\<close>

definition count_down :: "env \<Rightarrow> buffer_ptr \<Rightarrow> heap \<Rightarrow> heap option" where
  "count_down A b h = do {
     B \<leftarrow> buffers h b;
     let h = h\<lparr>buffers := (buffers h)(b \<mapsto> B\<lparr>refcount := (refcount B + (2 ^ 32 - 1)) mod 2 ^ 32\<rparr>)\<rparr>;
     if refcount B = 1 then
       let free_avbuffer = \<not> has_flag (flags_internal B) BUFFER_FLAG_NO_FREE in do {
         h \<leftarrow> call_free (nesting A) (buf_free B) (buf_opaque B) (buf_data B) h;
         if free_avbuffer then free_buffer b h else Some h
       }
     else Some h
   }"

definition free_ref :: "nat \<Rightarrow> heap \<Rightarrow> heap option" where
  "free_ref r h = (if refs h r = None then None else Some (h\<lparr>refs := (refs h)(r := None)\<rparr>))"

definition buffer_replace :: "env \<Rightarrow> nat \<Rightarrow> nat option \<Rightarrow> heap \<Rightarrow> heap option" where
  "buffer_replace A dst src h = do {
     D \<leftarrow> refs h dst;
     h \<leftarrow> (case src of
            Some src \<Rightarrow> do { S \<leftarrow> refs h src; free_ref src (h\<lparr>refs := (refs h)(dst \<mapsto> S)\<rparr>) }
          | None \<Rightarrow> free_ref dst h);
     count_down A (ref_buffer D) h
   }"

definition av_buffer_unref :: "env \<Rightarrow> nat option \<Rightarrow> heap \<Rightarrow> heap option" where
  "av_buffer_unref A buf h = (case buf of None \<Rightarrow> Some h | Some r \<Rightarrow> buffer_replace A r None h)"

section \<open>Using references\<close>

definition av_buffer_is_writable :: "nat \<Rightarrow> heap \<Rightarrow> bool option" where
  "av_buffer_is_writable buf h = do {
     R \<leftarrow> refs h buf;
     B \<leftarrow> buffers h (ref_buffer R);
     Some (\<not> has_flag (buf_flags B) AV_BUFFER_FLAG_READONLY \<and> refcount B = 1)
   }"

definition av_buffer_get_opaque :: "nat \<Rightarrow> heap \<Rightarrow> opaque option" where
  "av_buffer_get_opaque buf h = do { R \<leftarrow> refs h buf; B \<leftarrow> buffers h (ref_buffer R); Some (buf_opaque B) }"

definition av_buffer_get_ref_count :: "nat \<Rightarrow> heap \<Rightarrow> int option" where
  "av_buffer_get_ref_count buf h = do { R \<leftarrow> refs h buf; B \<leftarrow> buffers h (ref_buffer R); Some (i32 (int (refcount B))) }"

definition av_buffer_make_writable :: "env \<Rightarrow> nat \<Rightarrow> heap \<Rightarrow> (int \<times> heap) option" where
  "av_buffer_make_writable A buf h = do {
     w \<leftarrow> av_buffer_is_writable buf h;
     if w then Some (0, h)
     else do {
       R \<leftarrow> refs h buf;
       (newbuf, h) \<leftarrow> av_buffer_alloc A (ref_size R) h;
       case newbuf of
         None \<Rightarrow> Some (AVERROR_ENOMEM, h)
       | Some new \<Rightarrow> do {
           N \<leftarrow> refs h new;
           h \<leftarrow> memcpy (ref_data N) (ref_data R) (ref_size R) h;
           h \<leftarrow> buffer_replace A buf (Some new) h;
           Some (0, h)
         }
     }
   }"

text \<open>\<open>av_buffer_realloc\<close> of a null pointer: the result, the new reference and the heap.\<close>

definition buffer_realloc_new :: "env \<Rightarrow> nat \<Rightarrow> heap \<Rightarrow> (int \<times> nat option \<times> heap) option" where
  "buffer_realloc_new A n h = do {
     (data, h) \<leftarrow> av_realloc A None n h;
     case data of
       None \<Rightarrow> Some (AVERROR_ENOMEM, None, h)
     | Some a \<Rightarrow> do {
         (buf, h) \<leftarrow> av_buffer_create A (Some (a, 0)) n (Some Default_Free) No_Opaque 0 h;
         case buf of
           None \<Rightarrow> do { h \<leftarrow> mem_free (Some (a, 0)) h; Some (AVERROR_ENOMEM, None, h) }
         | Some r \<Rightarrow> do {
             R \<leftarrow> refs h r;
             B \<leftarrow> buffers h (ref_buffer R);
             Some (0, Some r, h\<lparr>buffers := (buffers h)(ref_buffer R \<mapsto>
               B\<lparr>flags_internal := set_flag (flags_internal B) BUFFER_FLAG_REALLOCATABLE\<rparr>)\<rparr>)
           }
       }
   }"

definition av_buffer_realloc :: "env \<Rightarrow> nat option \<Rightarrow> nat \<Rightarrow> heap \<Rightarrow> (int \<times> nat option \<times> heap) option" where
  "av_buffer_realloc A pbuf n h =
     (case pbuf of
        None \<Rightarrow> buffer_realloc_new A n h
      | Some buf \<Rightarrow> do {
          R \<leftarrow> refs h buf;
          if ref_size R = n then Some (0, pbuf, h)
          else do {
            B \<leftarrow> buffers h (ref_buffer R);
            w \<leftarrow> av_buffer_is_writable buf h;
            if \<not> has_flag (flags_internal B) BUFFER_FLAG_REALLOCATABLE \<or> \<not> w \<or> ref_data R \<noteq> buf_data B then do {
              (ret, new, h) \<leftarrow> buffer_realloc_new A n h;
              if ret < 0 then Some (ret, pbuf, h)
              else (case new of
                None \<Rightarrow> None
              | Some new \<Rightarrow> do {
                  N \<leftarrow> refs h new;
                  h \<leftarrow> memcpy (ref_data N) (ref_data R) (min n (ref_size R)) h;
                  h \<leftarrow> buffer_replace A buf (Some new) h;
                  Some (0, pbuf, h)
                })
            } else do {
              (tmp, h) \<leftarrow> av_realloc A (buf_data B) n h;
              case tmp of
                None \<Rightarrow> Some (AVERROR_ENOMEM, pbuf, h)
              | Some a \<Rightarrow>
                  Some (0, pbuf, h\<lparr>buffers := (buffers h)(ref_buffer R \<mapsto> B\<lparr>buf_data := Some (a, 0), buf_size := n\<rparr>),
                    refs := (refs h)(buf \<mapsto> R\<lparr>ref_data := Some (a, 0), ref_size := n\<rparr>)\<rparr>)
            }
          }
        })"

definition av_buffer_replace :: "env \<Rightarrow> nat option \<Rightarrow> nat option \<Rightarrow> heap \<Rightarrow> (int \<times> nat option \<times> heap) option" where
  "av_buffer_replace A dst src h =
     (case src of
        None \<Rightarrow> do { h \<leftarrow> av_buffer_unref A dst h; Some (0, None, h) }
      | Some s \<Rightarrow> do {
          S \<leftarrow> refs h s;
          same \<leftarrow> (case dst of
                   None \<Rightarrow> Some None
                 | Some d \<Rightarrow> do { D \<leftarrow> refs h d; Some (if ref_buffer D = ref_buffer S then Some (d, D) else None) });
          case same of
            Some (d, D) \<Rightarrow>
              Some (0, dst, h\<lparr>refs := (refs h)(d \<mapsto> D\<lparr>ref_data := ref_data S, ref_size := ref_size S\<rparr>)\<rparr>)
          | None \<Rightarrow> do {
              (tmp, h) \<leftarrow> av_buffer_ref A s h;
              case tmp of
                None \<Rightarrow> Some (AVERROR_ENOMEM, dst, h)
              | Some t \<Rightarrow> do { h \<leftarrow> av_buffer_unref A dst h; Some (0, Some t, h) }
            }
        })"

section \<open>Pools\<close>

definition pool_create :: "env \<Rightarrow> AVBufferPool \<Rightarrow> heap \<Rightarrow> nat option \<times> heap" where
  "pool_create A P h =
     (case new_address A h of
        (None, h) \<Rightarrow> (None, h)
      | (Some p, h) \<Rightarrow> if mutex_ok A then (Some p, h\<lparr>pools := (pools h)(p \<mapsto> P)\<rparr>) else (None, h))"

definition av_buffer_pool_init2 :: "env \<Rightarrow> nat \<Rightarrow> opaque \<Rightarrow> nat option \<Rightarrow> nat option \<Rightarrow> heap \<Rightarrow> nat option \<times> heap" where
  "av_buffer_pool_init2 A n opaque alloc pool_free_fn h =
     pool_create A \<lparr>pool_head = None, pool_refcount = 1, pool_size = n, pool_opaque = opaque, pool_alloc = None,
       pool_alloc2 = alloc, pool_free = pool_free_fn\<rparr> h"

definition av_buffer_pool_init :: "env \<Rightarrow> nat \<Rightarrow> nat option \<Rightarrow> heap \<Rightarrow> nat option \<times> heap" where
  "av_buffer_pool_init A n alloc h =
     pool_create A \<lparr>pool_head = None, pool_refcount = 1, pool_size = n, pool_opaque = No_Opaque, pool_alloc = alloc,
       pool_alloc2 = None, pool_free = None\<rparr> h"

definition av_buffer_pool_uninit :: "env \<Rightarrow> nat option \<Rightarrow> heap \<Rightarrow> heap option" where
  "av_buffer_pool_uninit A pool h =
     (case pool of
        None \<Rightarrow> Some h
      | Some p \<Rightarrow> do {
          h \<leftarrow> pool_flush (call_free (nesting A)) p h;
          pool_count_down (call_free (nesting A)) p h
        })"

definition pool_alloc_buffer :: "env \<Rightarrow> nat \<Rightarrow> heap \<Rightarrow> (nat option \<times> heap) option" where
  "pool_alloc_buffer A p h = do {
     P \<leftarrow> pools h p;
     (ret, h) \<leftarrow> (case pool_alloc2 P of
         Some k \<Rightarrow> user_alloc A k (pool_opaque P) (pool_size P) h
       | None \<Rightarrow> (case pool_alloc P of
           Some k \<Rightarrow> user_alloc A k No_Opaque (pool_size P) h
         | None \<Rightarrow> av_buffer_alloc A (pool_size P) h));
     case ret of
       None \<Rightarrow> Some (None, h)
     | Some r \<Rightarrow>
         (case new_address A h of
            (None, h) \<Rightarrow> do { h \<leftarrow> av_buffer_unref A (Some r) h; Some (None, h) }
          | (Some e, h) \<Rightarrow> do {
              R \<leftarrow> refs h r;
              B \<leftarrow> buffers h (ref_buffer R);
              Some (Some r, h\<lparr>
                buffers := (buffers h)(Embedded e \<mapsto> zero_buffer, ref_buffer R \<mapsto> B\<lparr>buf_free := Pool_Release, buf_opaque := Entry e\<rparr>),
                entries := (entries h)(e \<mapsto> \<lparr>ent_data = buf_data B, ent_opaque = buf_opaque B, ent_free = buf_free B,
                  ent_pool = p, ent_next = None\<rparr>)\<rparr>)
            })
   }"

definition pool_reuse_buffer :: "env \<Rightarrow> nat \<Rightarrow> nat \<Rightarrow> heap \<Rightarrow> (nat option \<times> heap) option" where
  "pool_reuse_buffer A p e h = do {
     P \<leftarrow> pools h p;
     E \<leftarrow> entries h e;
     (ret, h) \<leftarrow> buffer_create A (Embedded e) (ent_data E) (pool_size P) (Some Pool_Release) (Entry e) 0
       (h\<lparr>buffers := (buffers h)(Embedded e \<mapsto> zero_buffer)\<rparr>);
     case ret of
       None \<Rightarrow> Some (None, h)
     | Some r \<Rightarrow> do {
         B \<leftarrow> buffers h (Embedded e);
         Some (Some r, h\<lparr>
           buffers := (buffers h)(Embedded e \<mapsto> B\<lparr>flags_internal := set_flag (flags_internal B) BUFFER_FLAG_NO_FREE\<rparr>),
           entries := (entries h)(e \<mapsto> E\<lparr>ent_next := None\<rparr>),
           pools := (pools h)(p \<mapsto> P\<lparr>pool_head := ent_next E\<rparr>)\<rparr>)
       }
   }"

definition av_buffer_pool_get :: "env \<Rightarrow> nat \<Rightarrow> heap \<Rightarrow> (nat option \<times> heap) option" where
  "av_buffer_pool_get A p h = do {
     P \<leftarrow> pools h p;
     (ret, h) \<leftarrow> (case pool_head P of Some e \<Rightarrow> pool_reuse_buffer A p e h | None \<Rightarrow> pool_alloc_buffer A p h);
     case ret of
       None \<Rightarrow> Some (None, h)
     | Some r \<Rightarrow> do {
         P \<leftarrow> pools h p;
         Some (Some r, h\<lparr>pools := (pools h)(p \<mapsto> P\<lparr>pool_refcount := (pool_refcount P + 1) mod 2 ^ 32\<rparr>)\<rparr>)
       }
   }"

definition av_buffer_pool_buffer_get_opaque :: "nat \<Rightarrow> heap \<Rightarrow> opaque option" where
  "av_buffer_pool_buffer_get_opaque ref h = do {
     R \<leftarrow> refs h ref;
     B \<leftarrow> buffers h (ref_buffer R);
     case buf_opaque B of Entry e \<Rightarrow> map_option ent_opaque (entries h e) | _ \<Rightarrow> None
   }"

end
