(* ===== verification/Heap_Steps.thy ===== *)
theory Heap_Steps
  imports Buffer
begin

text \<open>
  Well-formed heaps of buffers and pools, and the steps from one to the next that the functions of
  \<open>Buffer\<close> are made of: a block is allocated or freed, a buffer is created, counted or dropped, an
  entry goes to a pool or is lent.
\<close>

section \<open>Well-formed heaps\<close>

text \<open>
  Who uses what: \<open>k b\<close> counts the references to \<open>b\<close> that are not in the heap but in the hands of a
  running function; \<open>uses\<close> adds those in the heap. A buffer is in use if that is not zero.
\<close>

definition holders :: "(nat \<rightharpoonup> AVBufferRef) \<Rightarrow> buffer_ptr \<Rightarrow> nat set" where
  "holders rs b = {r. \<exists>R. rs r = Some R \<and> ref_buffer R = b}"

definition uses :: "(nat \<rightharpoonup> AVBufferRef) \<Rightarrow> (buffer_ptr \<Rightarrow> nat) \<Rightarrow> buffer_ptr \<Rightarrow> nat" where
  "uses rs k b = card (holders rs b) + k b"

definition block_of :: "data_ptr \<Rightarrow> nat" where
  "block_of p = fst (the p)"

text \<open>Each block of memory is owned by a buffer, by a pool entry, or by nobody in the heap.\<close>

datatype claimant = By_Buffer nat | By_Entry nat

fun claim :: "(buffer_ptr \<Rightarrow> nat) \<Rightarrow> heap \<Rightarrow> claimant \<Rightarrow> nat option" where
  "claim u h (By_Buffer a) =
     (case buffers h (Own a) of
        None \<Rightarrow> None
      | Some B \<Rightarrow> if u (Own a) > 0 \<and> buf_free B \<noteq> Pool_Release then Some (block_of (buf_data B)) else None)"
| "claim u h (By_Entry e) = map_option (\<lambda>E. block_of (ent_data E)) (entries h e)"

definition memory_ok :: "nat set \<Rightarrow> (buffer_ptr \<Rightarrow> nat) \<Rightarrow> heap \<Rightarrow> bool" where
  "memory_ok U u h \<longleftrightarrow> inj_on (claim u h) (dom (claim u h)) \<and> ran (claim u h) \<union> U = dom (blocks h) \<and> ran (claim u h) \<inter> U = {}"

definition bounded :: "heap \<Rightarrow> bool" where
  "bounded h \<longleftrightarrow> (\<forall>a. blocks h a \<noteq> None \<longrightarrow> a < fresh h) \<and> (\<forall>a. buffers h (Own a) \<noteq> None \<longrightarrow> a < fresh h) \<and>
     (\<forall>e. entries h e \<noteq> None \<longrightarrow> e < fresh h) \<and> (\<forall>p. pools h p \<noteq> None \<longrightarrow> p < fresh h) \<and>
     (\<forall>e. buffers h (Embedded e) = None \<longleftrightarrow> entries h e = None)"

definition buffer_ok :: "(buffer_ptr \<Rightarrow> nat) \<Rightarrow> heap \<Rightarrow> buffer_ptr \<Rightarrow> AVBuffer \<Rightarrow> bool" where
  "buffer_ok u h b B \<longleftrightarrow> refcount B = u b \<and> u b < 2 ^ 32 \<and> buf_data B \<noteq> None \<and>
     (has_flag (flags_internal B) BUFFER_FLAG_NO_FREE \<longleftrightarrow> (\<exists>e. b = Embedded e)) \<and>
     (case buf_free B of
        Default_Free \<Rightarrow> (\<exists>a. b = Own a) \<and> snd (the (buf_data B)) = 0
      | Custom k \<Rightarrow> (\<exists>a. b = Own a) \<and> \<not> has_flag (flags_internal B) BUFFER_FLAG_REALLOCATABLE
      | Pool_Release \<Rightarrow> (\<exists>e E. buf_opaque B = Entry e \<and> (\<forall>e'. b = Embedded e' \<longrightarrow> e' = e) \<and> entries h e = Some E \<and>
          block_of (buf_data B) = block_of (ent_data E) \<and> \<not> has_flag (flags_internal B) BUFFER_FLAG_REALLOCATABLE))"

definition entry_ok :: "heap \<Rightarrow> BufferPoolEntry \<Rightarrow> bool" where
  "entry_ok h E \<longleftrightarrow> ent_free E \<noteq> Pool_Release \<and> (ent_free E = Default_Free \<longrightarrow> snd (the (ent_data E)) = 0) \<and>
     (\<exists>P. pools h (ent_pool E) = Some P \<and> mem_read (ent_data E) (pool_size P) h \<noteq> None)"

text \<open>The entry that a buffer in use is lent from, and the list of the entries that are not lent.\<close>

definition loan :: "(buffer_ptr \<Rightarrow> nat) \<Rightarrow> heap \<Rightarrow> buffer_ptr \<Rightarrow> nat option" where
  "loan u h b =
     (case buffers h b of
        None \<Rightarrow> None
      | Some B \<Rightarrow>
          if u b > 0 \<and> buf_free B = Pool_Release then (case buf_opaque B of Entry e \<Rightarrow> Some e | _ \<Rightarrow> None) else None)"

primrec chain :: "(nat \<rightharpoonup> BufferPoolEntry) \<Rightarrow> nat option \<Rightarrow> nat list \<Rightarrow> bool" where
  "chain en p [] \<longleftrightarrow> p = None"
| "chain en p (e # es) \<longleftrightarrow> p = Some e \<and> (\<exists>E. en e = Some E \<and> chain en (ent_next E) es)"

definition pool_entries :: "(nat \<rightharpoonup> BufferPoolEntry) \<Rightarrow> nat \<Rightarrow> nat set" where
  "pool_entries en p = {e. \<exists>E. en e = Some E \<and> ent_pool E = p}"

definition pool_ok :: "bool \<Rightarrow> nat set \<Rightarrow> (nat \<rightharpoonup> BufferPoolEntry) \<Rightarrow> nat \<Rightarrow> AVBufferPool \<Rightarrow> bool" where
  "pool_ok held L en p P \<longleftrightarrow>
     (\<exists>es. chain en (pool_head P) es \<and> distinct es \<and> set es = pool_entries en p - L) \<and>
     pool_refcount P = of_bool held + card (pool_entries en p \<inter> L) \<and> pool_refcount P < 2 ^ 32"

text \<open>
  The objects of a heap: \<open>H\<close> are the pools that the client holds, \<open>U\<close> the blocks that nobody in the
  heap owns, \<open>u\<close> the uses of the buffers.
\<close>

definition objects_ok :: "nat set \<Rightarrow> nat set \<Rightarrow> (buffer_ptr \<Rightarrow> nat) \<Rightarrow> heap \<Rightarrow> bool" where
  "objects_ok H U u h \<longleftrightarrow> bounded h \<and> memory_ok U u h \<and>
     (\<forall>b. u b > 0 \<longrightarrow> (\<exists>B. buffers h b = Some B \<and> buffer_ok u h b B)) \<and>
     (\<forall>e E. entries h e = Some E \<longrightarrow> entry_ok h E) \<and> inj_on (loan u h) (dom (loan u h)) \<and>
     H \<subseteq> dom (pools h) \<and> (\<forall>p P. pools h p = Some P \<longrightarrow> pool_ok (p \<in> H) (ran (loan u h)) (entries h) p P)"

definition refs_ok :: "heap \<Rightarrow> bool" where
  "refs_ok h \<longleftrightarrow> (\<forall>r R. refs h r = Some R \<longrightarrow> r < fresh h \<and> mem_read (ref_data R) (ref_size R) h \<noteq> None \<and>
     (\<exists>B. buffers h (ref_buffer R) = Some B \<and> block_of (ref_data R) = block_of (buf_data B)))"

definition heap_ok :: "nat set \<Rightarrow> nat set \<Rightarrow> (buffer_ptr \<Rightarrow> nat) \<Rightarrow> heap \<Rightarrow> bool" where
  "heap_ok H U k h \<longleftrightarrow> objects_ok H U (uses (refs h) k) h \<and> refs_ok h"

text \<open>Nothing is left over: a buffer of its own is in use, and a pool is held or has lent something.\<close>

definition tidy :: "(buffer_ptr \<Rightarrow> nat) \<Rightarrow> heap \<Rightarrow> bool" where
  "tidy u h \<longleftrightarrow> (\<forall>a. buffers h (Own a) \<noteq> None \<longrightarrow> u (Own a) > 0) \<and> (\<forall>p P. pools h p = Some P \<longrightarrow> pool_refcount P > 0)"

section \<open>Counting\<close>

lemma finite_holders: "refs_ok h \<Longrightarrow> finite (holders (refs h) b)"
  by (rule finite_subset [of _ "{..<fresh h}"]) (auto simp: refs_ok_def holders_def)

lemma holders_remove: "holders (rs(r := None)) b = holders rs b - {r}"
  by (auto simp: holders_def)

lemma holders_add: "rs r = None \<Longrightarrow> holders (rs(r \<mapsto> R)) b = (if b = ref_buffer R then insert r (holders rs b) else holders rs b)"
  by (auto simp: holders_def)

lemma holders_same: "rs r = Some R \<Longrightarrow> ref_buffer R' = ref_buffer R \<Longrightarrow> holders (rs(r \<mapsto> R')) b = holders rs b"
  by (auto simp: holders_def)

lemma uses_remove:
  assumes "rs r = Some R" "finite (holders rs (ref_buffer R))"
  shows "uses (rs(r := None)) (k(ref_buffer R := k (ref_buffer R) + 1)) = uses rs k"
proof
  fix b
  have "r \<in> holders rs (ref_buffer R)" using assms(1) by (simp add: holders_def)
  then have "0 < card (holders rs (ref_buffer R))" using assms(2) by (auto simp: card_gt_0_iff)
  moreover have "r \<notin> holders rs b" if "b \<noteq> ref_buffer R" using that assms(1) by (simp add: holders_def)
  ultimately show "uses (rs(r := None)) (k(ref_buffer R := k (ref_buffer R) + 1)) b = uses rs k b"
    using \<open>r \<in> holders rs (ref_buffer R)\<close> assms(2) by (simp add: uses_def holders_remove card_Diff_singleton)
qed

lemma uses_add:
  assumes "rs r = None" "finite (holders rs (ref_buffer R))" "k (ref_buffer R) > 0"
  shows "uses (rs(r \<mapsto> R)) (k(ref_buffer R := k (ref_buffer R) - 1)) = uses rs k"
proof
  fix b
  have "r \<notin> holders rs (ref_buffer R)" using assms(1) by (simp add: holders_def)
  then show "uses (rs(r \<mapsto> R)) (k(ref_buffer R := k (ref_buffer R) - 1)) b = uses rs k b"
    using assms by (simp add: uses_def holders_add)
qed

lemma uses_positive:
  assumes "rs r = Some R" "finite (holders rs (ref_buffer R))"
  shows "uses rs k (ref_buffer R) > 0"
proof -
  have "r \<in> holders rs (ref_buffer R)" using assms(1) by (simp add: holders_def)
  then show ?thesis using assms(2) by (auto simp: uses_def card_gt_0_iff)
qed

lemma chain_upd: "e \<notin> set es \<Longrightarrow> chain (en(e := x)) p es = chain en p es"
  by (induction es arbitrary: p) auto

lemma chain_Some: "chain en (Some e) es \<longleftrightarrow> (\<exists>E es'. es = e # es' \<and> en e = Some E \<and> chain en (ent_next E) es')"
  by (cases es) auto

section \<open>Injective maps\<close>

lemma inj_map_eq: "inj_on m (dom m) \<Longrightarrow> m x = Some a \<Longrightarrow> m y = Some a \<Longrightarrow> x = y"
  using inj_onD [of m "dom m" x y] by (simp add: domI)

lemma inj_map_upd: "inj_on m (dom m) \<Longrightarrow> a \<notin> ran m \<Longrightarrow> inj_on (m(c \<mapsto> a)) (dom (m(c \<mapsto> a)))"
  by (auto simp: inj_on_def ran_def dom_def)

lemma inj_map_del: "inj_on m (dom m) \<Longrightarrow> inj_on (m(c := None)) (dom (m(c := None)))"
  by (auto simp: inj_on_def)

lemma ran_inj_del: "inj_on m (dom m) \<Longrightarrow> m c = Some a \<Longrightarrow> ran (m(c := None)) = ran m - {a}"
  by (auto simp: ran_def dest: inj_map_eq)

section \<open>Memory\<close>

lemma mem_read_same: "(\<And>a i. p = Some (a, i) \<Longrightarrow> blocks h' a = blocks h a) \<Longrightarrow> mem_read p n h' = mem_read p n h"
  by (cases p) (auto simp: split: option.splits)

lemma mem_read_simps [simp]:
  "mem_read p n (h\<lparr>fresh := x1\<rparr>) = mem_read p n h" "mem_read p n (h\<lparr>buffers := x2\<rparr>) = mem_read p n h"
  "mem_read p n (h\<lparr>refs := x3\<rparr>) = mem_read p n h" "mem_read p n (h\<lparr>entries := x4\<rparr>) = mem_read p n h"
  "mem_read p n (h\<lparr>pools := x5\<rparr>) = mem_read p n h" "mem_read p n (h\<lparr>events := x6\<rparr>) = mem_read p n h"
  by (rule mem_read_same; simp)+

lemma mem_read_Some: "mem_read p n h = Some xs \<Longrightarrow> p \<noteq> None \<and> blocks h (block_of p) \<noteq> None"
  by (cases p) (auto simp: block_of_def split: option.splits)

lemma mem_read_length: "mem_read p n h = Some xs \<Longrightarrow> length xs = n"
  by (cases p) (auto split: option.splits if_splits simp: length_slice)

text \<open>A block with more bytes can still be read.\<close>

lemma entry_ok_blocks:
  assumes "entry_ok h E" "blocks h' (block_of (ent_data E)) = blocks h (block_of (ent_data E))"
    and "\<And>P. pools h (ent_pool E) = Some P \<Longrightarrow> \<exists>P'. pools h' (ent_pool E) = Some P' \<and> pool_size P' = pool_size P"
  shows "entry_ok h' E"
proof -
  have "mem_read (ent_data E) n h' = mem_read (ent_data E) n h" for n
    using assms(2) by (intro mem_read_same) (simp add: block_of_def)
  with assms(1,3) show ?thesis unfolding entry_ok_def by fastforce
qed

section \<open>Owners\<close>

text \<open>The owner of the data of a buffer in use.\<close>

definition owner :: "(buffer_ptr \<Rightarrow> nat) \<Rightarrow> heap \<Rightarrow> buffer_ptr \<Rightarrow> claimant" where
  "owner u h b = (case loan u h b of Some e \<Rightarrow> By_Entry e | None \<Rightarrow> (case b of Own a \<Rightarrow> By_Buffer a | Embedded e \<Rightarrow> By_Entry e))"

lemma objects_okD:
  assumes "objects_ok H U u h"
  shows "bounded h" "memory_ok U u h" "u b > 0 \<Longrightarrow> \<exists>B. buffers h b = Some B \<and> buffer_ok u h b B"
    "entries h e = Some E \<Longrightarrow> entry_ok h E" "inj_on (loan u h) (dom (loan u h))"
    "H \<subseteq> dom (pools h)" "pools h p = Some P \<Longrightarrow> pool_ok (p \<in> H) (ran (loan u h)) (entries h) p P"
  using assms by (simp_all add: objects_ok_def)

lemma objects_okI:
  assumes "bounded h" "memory_ok U u h" "\<And>b. u b > 0 \<Longrightarrow> \<exists>B. buffers h b = Some B \<and> buffer_ok u h b B"
    and "\<And>e E. entries h e = Some E \<Longrightarrow> entry_ok h E" "inj_on (loan u h) (dom (loan u h))"
    and "H \<subseteq> dom (pools h)" "\<And>p P. pools h p = Some P \<Longrightarrow> pool_ok (p \<in> H) (ran (loan u h)) (entries h) p P"
  shows "objects_ok H U u h"
  using assms by (simp add: objects_ok_def)

lemma owner_claims:
  assumes "objects_ok H U u h" "u b > 0" "buffers h b = Some B"
  shows "claim u h (owner u h b) = Some (block_of (buf_data B))"
proof -
  have b: "buffer_ok u h b B" using objects_okD(3) [OF assms(1,2)] assms(3) by auto
  show ?thesis
  proof (cases "buf_free B = Pool_Release")
    case True
    with b obtain e E where "buf_opaque B = Entry e" "entries h e = Some E" "block_of (buf_data B) = block_of (ent_data E)"
      by (auto simp: buffer_ok_def)
    then show ?thesis using assms(2,3) True by (simp add: owner_def loan_def)
  next
    case False
    with b obtain a where "b = Own a" by (auto simp: buffer_ok_def split: free_fn.splits)
    then show ?thesis using assms(2,3) False by (simp add: owner_def loan_def)
  qed
qed

lemma owner_inj:
  assumes "objects_ok H U u h" "u b > 0" "u b' > 0" "owner u h b = owner u h b'"
  shows "b = b'"
proof -
  have inj: "inj_on (loan u h) (dom (loan u h))" by (rule objects_okD(5) [OF assms(1)])
  have kind: "loan u h x \<noteq> None \<or> (\<exists>a. x = Own a \<and> loan u h x = None)" if "u x > 0" for x
  proof -
    have "\<exists>B. buffers h x = Some B \<and> buffer_ok u h x B" by (rule objects_okD(3) [OF assms(1) that])
    then obtain B where "buffers h x = Some B" "buffer_ok u h x B" by blast
    then show ?thesis using that by (auto simp: buffer_ok_def loan_def split: free_fn.splits)
  qed
  from kind [OF assms(2)] kind [OF assms(3)] assms(4) show ?thesis
    by (auto simp: owner_def dest: inj_map_eq [OF inj])
qed

lemma distinct_blocks:
  assumes "objects_ok H U u h" "u b > 0" "u b' > 0" "buffers h b = Some B" "buffers h b' = Some B'"
    and "block_of (buf_data B) = block_of (buf_data B')"
  shows "b = b'"
proof -
  have "inj_on (claim u h) (dom (claim u h))" using objects_okD(2) [OF assms(1)] by (simp add: memory_ok_def)
  from inj_map_eq [OF this] owner_claims [OF assms(1,2,4)] owner_claims [OF assms(1,3,5)] assms(6)
  have "owner u h b = owner u h b'" by simp
  then show ?thesis by (rule owner_inj [OF assms(1-3)])
qed

text \<open>What a step may not touch: the references, and the data of the buffers in use.\<close>

definition keeps :: "(buffer_ptr \<Rightarrow> nat) \<Rightarrow> nat set \<Rightarrow> heap \<Rightarrow> heap \<Rightarrow> bool" where
  "keeps u U h h' \<longleftrightarrow> refs h' = refs h \<and> fresh h \<le> fresh h' \<and> (\<forall>a\<in>U. blocks h' a = blocks h a) \<and>
     (\<forall>b B. u b > 0 \<longrightarrow> buffers h b = Some B \<longrightarrow>
        blocks h' (block_of (buf_data B)) = blocks h (block_of (buf_data B)) \<and>
        (\<exists>B'. buffers h' b = Some B' \<and> buf_data B' = buf_data B \<and> buf_flags B' = buf_flags B \<and> flags_internal B' = flags_internal B))"

text \<open>What a reference shows.\<close>

definition view :: "heap \<Rightarrow> nat \<rightharpoonup> byte list" where
  "view h r = (case refs h r of None \<Rightarrow> None | Some R \<Rightarrow> mem_read (ref_data R) (ref_size R) h)"

lemma keeps_refs:
  assumes "refs_ok h" "keeps (uses (refs h) k) U h h'"
  shows "refs_ok h'" "view h' = view h"
proof -
  have k: "refs h' = refs h" "fresh h \<le> fresh h'" using assms(2) by (simp_all add: keeps_def)
  have r: "mem_read (ref_data R) (ref_size R) h' = mem_read (ref_data R) (ref_size R) h \<and>
      (\<exists>B. buffers h' (ref_buffer R) = Some B \<and> block_of (ref_data R) = block_of (buf_data B))"
    if R: "refs h r = Some R" for r R
  proof -
    obtain B where B: "buffers h (ref_buffer R) = Some B" "block_of (ref_data R) = block_of (buf_data B)"
      using assms(1) R by (auto simp: refs_ok_def)
    have "uses (refs h) k (ref_buffer R) > 0" using uses_positive [OF R finite_holders [OF assms(1)]] .
    with assms(2) B(1) obtain B' where B': "blocks h' (block_of (buf_data B)) = blocks h (block_of (buf_data B))"
      "buffers h' (ref_buffer R) = Some B'" "buf_data B' = buf_data B" unfolding keeps_def by blast
    then show ?thesis using B by (auto simp: block_of_def intro!: mem_read_same)
  qed
  show "refs_ok h'"
    unfolding refs_ok_def k(1)
  proof (intro allI impI)
    fix r R assume "refs h r = Some R"
    with r [OF this] assms(1) k(2) show "r < fresh h' \<and> mem_read (ref_data R) (ref_size R) h' \<noteq> None \<and>
        (\<exists>B. buffers h' (ref_buffer R) = Some B \<and> block_of (ref_data R) = block_of (buf_data B))"
      unfolding refs_ok_def by fastforce
  qed
  show "view h' = view h" using r by (auto simp: view_def k(1) fun_eq_iff split: option.splits)
qed

section \<open>Steps on objects\<close>

lemma claim_cong:
  assumes "\<And>b. buffers h' b = buffers h b" "\<And>e. entries h' e = entries h e"
  shows "claim u h' = claim u h"
proof
  fix c show "claim u h' c = claim u h c" by (cases c) (simp_all add: assms)
qed

lemma loan_cong:
  assumes "\<And>b. buffers h' b = buffers h b"
  shows "loan u h' = loan u h"
  by (simp add: loan_def fun_eq_iff assms)

lemma buffer_ok_cong: "entries h' = entries h \<Longrightarrow> buffer_ok u h' b B = buffer_ok u h b B"
  by (simp add: buffer_ok_def cong: free_fn.case_cong)

lemma bounded_fresh: "bounded h \<Longrightarrow> fresh h \<le> n \<Longrightarrow> bounded (h\<lparr>fresh := n\<rparr>)"
  by (auto simp: bounded_def intro: less_le_trans)

lemma bounded_blocks: "bounded h \<Longrightarrow> (\<And>a. bl a \<noteq> None \<Longrightarrow> a < fresh h) \<Longrightarrow> bounded (h\<lparr>blocks := bl\<rparr>)"
  by (simp add: bounded_def)

lemma bounded_buffers:
  "bounded h \<Longrightarrow> (\<And>a. bs (Own a) \<noteq> None \<Longrightarrow> a < fresh h) \<Longrightarrow> (\<And>e. (bs (Embedded e) = None) = (buffers h (Embedded e) = None)) \<Longrightarrow>
    bounded (h\<lparr>buffers := bs\<rparr>)"
  by (simp add: bounded_def)

lemma bounded_update:
  assumes "bounded h" "buffers h b = Some B"
  shows "bounded (h\<lparr>buffers := (buffers h)(b \<mapsto> B')\<rparr>)"
proof (rule bounded_buffers [OF assms(1)])
  show "a < fresh h" if "((buffers h)(b \<mapsto> B')) (Own a) \<noteq> None" for a
    using that assms by (cases "b = Own a") (auto simp: bounded_def)
  show "(((buffers h)(b \<mapsto> B')) (Embedded e) = None) = (buffers h (Embedded e) = None)" for e
    using assms(2) by auto
qed

text \<open>Blocks come, go and change: those with an owner must stay as long as they are.\<close>

lemma objects_blocks:
  assumes "objects_ok H U u h" "ran (claim u h) \<union> U' = dom bl" "ran (claim u h) \<inter> U' = {}" "fresh h \<le> n"
    and "\<And>a. bl a \<noteq> None \<Longrightarrow> a < n"
    and "\<And>a xs ys. a \<in> ran (claim u h) \<Longrightarrow> blocks h a = Some xs \<Longrightarrow> bl a = Some ys \<Longrightarrow> length xs \<le> length ys"
  shows "objects_ok H U' u (h\<lparr>fresh := n, blocks := bl\<rparr>)"
proof -
  let ?h = "h\<lparr>fresh := n, blocks := bl\<rparr>"
  have same: "claim u ?h = claim u h" "loan u ?h = loan u h" by (rule claim_cong loan_cong; simp)+
  have "bounded ?h"
    using bounded_blocks [OF bounded_fresh [OF objects_okD(1) [OF assms(1)] assms(4)], of bl] assms(5) by simp
  moreover have "memory_ok U' u ?h" using objects_okD(2) [OF assms(1)] assms(2,3) by (simp add: memory_ok_def same)
  moreover have "entry_ok ?h E" if E: "entries h e = Some E" for e E
  proof -
    have ok: "entry_ok h E" by (rule objects_okD(4) [OF assms(1) E])
    have "claim u h (By_Entry e) = Some (block_of (ent_data E))" using E by simp
    then have r: "block_of (ent_data E) \<in> ran (claim u h)" by (rule ranI)
    from ok obtain P xs where P: "pools h (ent_pool E) = Some P" "mem_read (ent_data E) (pool_size P) h = Some xs"
      by (auto simp: entry_ok_def)
    then obtain a i where p: "ent_data E = Some (a, i)" using mem_read_Some by fastforce
    with P(2) obtain bs where bs: "blocks h a = Some bs" "i + pool_size P \<le> length bs"
      by (auto split: option.splits if_splits)
    obtain bs' where "bl a = Some bs'" using r p assms(2) by (auto simp: block_of_def)
    moreover have "length bs \<le> length bs'" using assms(6) [of a bs bs'] r p bs(1) calculation by (simp add: block_of_def)
    ultimately have "mem_read (ent_data E) (pool_size P) ?h \<noteq> None" using p bs(2) by simp
    with ok P(1) show ?thesis by (simp add: entry_ok_def)
  qed
  ultimately show ?thesis
    using assms(1) by (simp add: objects_ok_def same buffer_ok_cong [of ?h h])
qed

lemma objects_refs [simp]: "objects_ok H U u (h\<lparr>refs := rs\<rparr>) = objects_ok H U u h"
  by (simp add: objects_ok_def bounded_def memory_ok_def claim_cong [of "h\<lparr>refs := rs\<rparr>" h] loan_cong [of "h\<lparr>refs := rs\<rparr>" h]
    buffer_ok_cong [of "h\<lparr>refs := rs\<rparr>" h] entry_ok_def)

lemma objects_events [simp]: "objects_ok H U u (h\<lparr>events := ev\<rparr>) = objects_ok H U u h"
  by (simp add: objects_ok_def bounded_def memory_ok_def claim_cong [of "h\<lparr>events := ev\<rparr>" h] loan_cong [of "h\<lparr>events := ev\<rparr>" h]
    buffer_ok_cong [of "h\<lparr>events := ev\<rparr>" h] entry_ok_def)

lemma memory_okD:
  assumes "memory_ok U u h"
  shows "inj_on (claim u h) (dom (claim u h))" "ran (claim u h) \<union> U = dom (blocks h)" "ran (claim u h) \<inter> U = {}"
  using assms by (simp_all add: memory_ok_def)

lemma objects_fresh:
  assumes "objects_ok H U u h" "fresh h \<le> n"
  shows "objects_ok H U u (h\<lparr>fresh := n\<rparr>)"
proof -
  have "objects_ok H U u (h\<lparr>fresh := n, blocks := blocks h\<rparr>)"
  proof (rule objects_blocks [OF assms(1)])
    show "a < n" if "blocks h a \<noteq> None" for a
      using that objects_okD(1) [OF assms(1)] assms(2) by (fastforce simp: bounded_def)
  qed (use memory_okD [OF objects_okD(2) [OF assms(1)]] assms(2) in simp_all)
  then show ?thesis by simp
qed

lemma objects_malloc:
  assumes "objects_ok H U u h" "fresh h \<le> a" "a < n"
  shows "objects_ok H (insert a U) u (h\<lparr>fresh := n, blocks := (blocks h)(a \<mapsto> xs)\<rparr>)"
proof (rule objects_blocks [OF assms(1)])
  note b = objects_okD(1) [OF assms(1)] and m = memory_okD [OF objects_okD(2) [OF assms(1)]]
  have "blocks h a = None" using b assms(2) by (auto simp: bounded_def)
  then have a: "a \<notin> dom (blocks h)" by (simp add: domIff)
  then have new: "a \<notin> ran (claim u h)" using m(2) by blast
  show "ran (claim u h) \<union> insert a U = dom ((blocks h)(a \<mapsto> xs))" using m(2) by simp
  show "ran (claim u h) \<inter> insert a U = {}" using m(3) new by blast
  show "fresh h \<le> n" using assms(2,3) by simp
  show "a' < n" if "((blocks h)(a \<mapsto> xs)) a' \<noteq> None" for a'
    using that b assms(2,3) by (fastforce simp: bounded_def split: if_splits)
  show "length bs \<le> length cs" if "a' \<in> ran (claim u h)" "blocks h a' = Some bs" "((blocks h)(a \<mapsto> xs)) a' = Some cs" for a' bs cs
    using that new by (cases "a' = a") auto
qed

lemma objects_free:
  assumes "objects_ok H U u h" "a \<in> U"
  shows "objects_ok H (U - {a}) u (h\<lparr>blocks := (blocks h)(a := None)\<rparr>)"
proof -
  note b = objects_okD(1) [OF assms(1)] and m = memory_okD [OF objects_okD(2) [OF assms(1)]]
  have "objects_ok H (U - {a}) u (h\<lparr>fresh := fresh h, blocks := (blocks h)(a := None)\<rparr>)"
  proof (rule objects_blocks [OF assms(1)])
    show "ran (claim u h) \<union> (U - {a}) = dom ((blocks h)(a := None))" using m(2,3) assms(2) by auto
    show "ran (claim u h) \<inter> (U - {a}) = {}" using m(3) by blast
    show "a' < fresh h" if "((blocks h)(a := None)) a' \<noteq> None" for a'
      using that b by (simp add: bounded_def split: if_splits)
    show "length bs \<le> length cs" if "a' \<in> ran (claim u h)" "blocks h a' = Some bs" "((blocks h)(a := None)) a' = Some cs" for a' bs cs
      using that by (simp split: if_splits)
  qed simp
  then show ?thesis by simp
qed

lemma objects_write:
  assumes "objects_ok H U u h" "blocks h a = Some xs" "length ys = length xs"
  shows "objects_ok H U u (h\<lparr>blocks := (blocks h)(a \<mapsto> ys)\<rparr>)"
proof -
  note b = objects_okD(1) [OF assms(1)] and m = memory_okD [OF objects_okD(2) [OF assms(1)]]
  have "objects_ok H U u (h\<lparr>fresh := fresh h, blocks := (blocks h)(a \<mapsto> ys)\<rparr>)"
  proof (rule objects_blocks [OF assms(1)])
    show "ran (claim u h) \<union> U = dom ((blocks h)(a \<mapsto> ys))" using m(2) assms(2) by auto
    show "a' < fresh h" if "((blocks h)(a \<mapsto> ys)) a' \<noteq> None" for a'
      using that b assms(2) by (cases "a' = a") (simp_all add: bounded_def)
    show "length bs \<le> length cs" if "a' \<in> ran (claim u h)" "blocks h a' = Some bs" "((blocks h)(a \<mapsto> ys)) a' = Some cs" for a' bs cs
      using that assms(2,3) by (cases "a' = a") auto
  qed (use m in simp_all)
  then show ?thesis by simp
qed

text \<open>A buffer without users does not exist, or only as a part of an entry.\<close>

lemma uses_exist: "objects_ok H U u h \<Longrightarrow> buffers h b = None \<Longrightarrow> u b = 0"
  using objects_okD(3) [of H U u h b] by fastforce

lemma objects_create:
  assumes "objects_ok H U u h" "a \<in> U" "fresh h \<le> b" "b < n"
    and "buf_data B = Some (a, i)" "buf_free B \<noteq> Pool_Release" "buf_free B = Default_Free \<Longrightarrow> i = 0" "refcount B = 1"
    and "\<not> has_flag (flags_internal B) BUFFER_FLAG_NO_FREE"
    and "buf_free B \<noteq> Default_Free \<Longrightarrow> \<not> has_flag (flags_internal B) BUFFER_FLAG_REALLOCATABLE"
  shows "objects_ok H (U - {a}) (u(Own b := 1)) (h\<lparr>fresh := n, buffers := (buffers h)(Own b \<mapsto> B)\<rparr>)"
proof -
  let ?h = "h\<lparr>fresh := n, buffers := (buffers h)(Own b \<mapsto> B)\<rparr>" and ?u = "u(Own b := 1)"
  note bd = objects_okD(1) [OF assms(1)] and m = objects_okD(2) [OF assms(1)]
  have new: "buffers h (Own b) = None" using bd assms(3) by (auto simp: bounded_def)
  then have u0: "u (Own b) = 0" using uses_exist [OF assms(1)] by simp
  have none: "claim u h (By_Buffer b) = None" "loan u h (Own b) = None" by (simp_all add: new loan_def)
  have claim: "claim ?u ?h = (claim u h)(By_Buffer b \<mapsto> a)"
  proof
    fix c show "claim ?u ?h c = ((claim u h)(By_Buffer b \<mapsto> a)) c"
      using assms(5,6) by (cases c) (auto simp: block_of_def cong: option.case_cong)
  qed
  have loan: "loan ?u ?h = loan u h"
    using none(2) assms(6) by (auto simp: loan_def fun_eq_iff cong: option.case_cong)
  note mm = memory_okD [OF m]
  have na: "a \<notin> ran (claim u h)" using mm(3) assms(2) by blast
  have ran: "ran (claim ?u ?h) = insert a (ran (claim u h))" unfolding claim using none(1) by (rule ran_map_upd)
  have "inj_on (claim ?u ?h) (dom (claim ?u ?h))" unfolding claim by (rule inj_map_upd [OF mm(1) na])
  moreover have "insert a (ran (claim u h)) \<union> (U - {a}) = dom (blocks h)" using mm(2) assms(2) by blast
  moreover have "insert a (ran (claim u h)) \<inter> (U - {a}) = {}" using mm(3) by blast
  ultimately have m1: "memory_ok (U - {a}) ?u ?h" unfolding memory_ok_def ran by simp
  have b1: "bounded ?h"
  proof -
    have n: "fresh h \<le> n" using assms(3,4) by simp
    have "a < n" if "((buffers h)(Own b \<mapsto> B)) (Own a) \<noteq> None" for a
      using that bd n assms(4) by (cases "a = b") (auto simp: bounded_def intro: less_le_trans)
    then show ?thesis using bounded_buffers [OF bounded_fresh [OF bd n], of "(buffers h)(Own b \<mapsto> B)"] by simp
  qed
  have u1: "\<exists>B'. buffers ?h b' = Some B' \<and> buffer_ok ?u ?h b' B'" if "?u b' > 0" for b'
  proof (cases "b' = Own b")
    case True
    then show ?thesis using assms(5-10) by (auto simp: buffer_ok_def split: free_fn.splits)
  next
    case False
    with that objects_okD(3) [OF assms(1), of b'] show ?thesis by (auto simp: buffer_ok_def cong: free_fn.case_cong)
  qed
  have e1: "entry_ok ?h E" if "entries ?h e = Some E" for e E
    using that objects_okD(4) [OF assms(1), of e E] by (simp add: entry_ok_def)
  show ?thesis
    by (rule objects_okI [OF b1 m1 u1 e1]) (unfold loan, use objects_okD(5-7) [OF assms(1)] in simp_all)
qed

text \<open>A buffer in use changes, but not what owns its data.\<close>

lemma objects_update:
  assumes "objects_ok H U u h" "u b > 0" "n > 0" "buffers h b = Some B"
    and "buf_data B' = buf_data B" "buf_free B' = buf_free B" "buf_opaque B' = buf_opaque B" "refcount B' = n" "n < 2 ^ 32"
    and "has_flag (flags_internal B') BUFFER_FLAG_NO_FREE = has_flag (flags_internal B) BUFFER_FLAG_NO_FREE"
    and "buf_free B \<noteq> Default_Free \<Longrightarrow> flags_internal B' = flags_internal B"
  shows "objects_ok H U (u(b := n)) (h\<lparr>buffers := (buffers h)(b \<mapsto> B')\<rparr>)"
proof -
  let ?h = "h\<lparr>buffers := (buffers h)(b \<mapsto> B')\<rparr>" and ?u = "u(b := n)"
  note bd = objects_okD(1) [OF assms(1)]
  have claim: "claim ?u ?h = claim u h"
  proof
    fix c show "claim ?u ?h c = claim u h c" using assms(2-6) by (cases c) (auto cong: option.case_cong)
  qed
  have loan: "loan ?u ?h = loan u h" using assms(2-7) by (auto simp: loan_def fun_eq_iff cong: option.case_cong)
  have b1: "bounded ?h" by (rule bounded_update [OF bd assms(4)])
  have u1: "\<exists>B'. buffers ?h b' = Some B' \<and> buffer_ok ?u ?h b' B'" if "?u b' > 0" for b'
  proof (cases "b' = b")
    case True
    have "buffer_ok u h b B" using objects_okD(3) [OF assms(1,2)] assms(4) by auto
    then show ?thesis using True assms(5-11) by (auto simp: buffer_ok_def split: free_fn.splits)
  next
    case False
    with that objects_okD(3) [OF assms(1), of b'] show ?thesis by (auto simp: buffer_ok_def cong: free_fn.case_cong)
  qed
  have m1: "memory_ok U ?u ?h" using objects_okD(2) [OF assms(1)] unfolding memory_ok_def claim by simp
  have e1: "entry_ok ?h E" if "entries ?h e = Some E" for e E
    using that objects_okD(4) [OF assms(1), of e E] by (simp add: entry_ok_def)
  show ?thesis
    by (rule objects_okI [OF b1 m1 u1 e1]) (unfold loan, use objects_okD(5-7) [OF assms(1)] in simp_all)
qed

text \<open>The last reference to a buffer of its own is gone: its data is in nobody's hands.\<close>

lemma objects_drop:
  assumes "objects_ok H U u h" "u (Own a) > 0" "buffers h (Own a) = Some B" "buf_free B \<noteq> Pool_Release"
  shows "objects_ok H (insert (block_of (buf_data B)) U) (u(Own a := 0)) (h\<lparr>buffers := (buffers h)(Own a := None)\<rparr>)"
proof -
  let ?h = "h\<lparr>buffers := (buffers h)(Own a := None)\<rparr>" and ?u = "u(Own a := 0)" and ?x = "block_of (buf_data B)"
  note mm = memory_okD [OF objects_okD(2) [OF assms(1)]]
  have c: "claim u h (By_Buffer a) = Some ?x" using assms(2-4) by simp
  have claim: "claim ?u ?h = (claim u h)(By_Buffer a := None)"
  proof
    fix c show "claim ?u ?h c = ((claim u h)(By_Buffer a := None)) c" by (cases c) (auto cong: option.case_cong)
  qed
  have loan: "loan ?u ?h = loan u h" using assms(3,4) by (auto simp: loan_def fun_eq_iff cong: option.case_cong)
  have b1: "bounded ?h" by (rule bounded_buffers [OF objects_okD(1) [OF assms(1)]])
    (use objects_okD(1) [OF assms(1)] in \<open>auto simp: bounded_def split: if_splits\<close>)
  have ran: "ran (claim ?u ?h) = ran (claim u h) - {?x}" unfolding claim by (rule ran_inj_del [OF mm(1) c])
  have x: "?x \<in> ran (claim u h)" using c by (rule ranI)
  have "inj_on (claim ?u ?h) (dom (claim ?u ?h))" unfolding claim by (rule inj_map_del [OF mm(1)])
  moreover have "(ran (claim u h) - {?x}) \<union> insert ?x U = dom (blocks h)" using mm(2) x by blast
  moreover have "(ran (claim u h) - {?x}) \<inter> insert ?x U = {}" using mm(3) by blast
  ultimately have m1: "memory_ok (insert ?x U) ?u ?h" unfolding memory_ok_def ran by simp
  have u1: "\<exists>B'. buffers ?h b' = Some B' \<and> buffer_ok ?u ?h b' B'" if "?u b' > 0" for b'
    using that objects_okD(3) [OF assms(1), of b'] by (cases "b' = Own a") (auto simp: buffer_ok_def cong: free_fn.case_cong)
  have e1: "entry_ok ?h E" if "entries ?h e = Some E" for e E
    using that objects_okD(4) [OF assms(1), of e E] by (simp add: entry_ok_def)
  show ?thesis by (rule objects_okI [OF b1 m1 u1 e1]) (unfold loan, use objects_okD(5-7) [OF assms(1)] in simp_all)
qed

text \<open>A buffer of its own changes its block for one that was in nobody's hands.\<close>

lemma objects_swap:
  assumes "objects_ok H U u h" "u (Own b) > 0" "buffers h (Own b) = Some B" "buf_free B = Default_Free" "a \<in> U"
  shows "objects_ok H (insert (block_of (buf_data B)) (U - {a})) u
    (h\<lparr>buffers := (buffers h)(Own b \<mapsto> B\<lparr>buf_data := Some (a, 0), buf_size := n\<rparr>)\<rparr>)"
proof -
  let ?B = "B\<lparr>buf_data := Some (a, 0), buf_size := n\<rparr>" and ?x = "block_of (buf_data B)"
  let ?h = "h\<lparr>buffers := (buffers h)(Own b \<mapsto> ?B)\<rparr>"
  note mm = memory_okD [OF objects_okD(2) [OF assms(1)]]
  have c: "claim u h (By_Buffer b) = Some ?x" using assms(2-4) by simp
  have claim: "claim u ?h = (claim u h)(By_Buffer b := None, By_Buffer b \<mapsto> a)"
  proof
    fix c show "claim u ?h c = ((claim u h)(By_Buffer b := None, By_Buffer b \<mapsto> a)) c"
      using assms(2,4) by (cases c) (auto simp: block_of_def cong: option.case_cong)
  qed
  have loan: "loan u ?h = loan u h" using assms(3,4) by (auto simp: loan_def fun_eq_iff cong: option.case_cong)
  have b1: "bounded ?h" by (rule bounded_update [OF objects_okD(1) [OF assms(1)] assms(3)])
  have na: "a \<notin> ran (claim u h)" using mm(3) assms(5) by blast
  have x: "?x \<in> ran (claim u h)" using c by (rule ranI)
  have ran1: "ran ((claim u h)(By_Buffer b := None)) = ran (claim u h) - {?x}" by (rule ran_inj_del [OF mm(1) c])
  have "((claim u h)(By_Buffer b := None)) (By_Buffer b) = None" by simp
  then have ran: "ran (claim u ?h) = insert a (ran (claim u h) - {?x})" unfolding claim ran1 [symmetric] by (rule ran_map_upd)
  have "inj_on (claim u ?h) (dom (claim u ?h))"
    unfolding claim by (rule inj_map_upd [OF inj_map_del [OF mm(1)]]) (use na ran1 in blast)
  moreover have "insert a (ran (claim u h) - {?x}) \<union> insert ?x (U - {a}) = dom (blocks h)" using mm(2) x assms(5) by blast
  moreover have "insert a (ran (claim u h) - {?x}) \<inter> insert ?x (U - {a}) = {}" using mm(3) x na by blast
  ultimately have m1: "memory_ok (insert ?x (U - {a})) u ?h" unfolding memory_ok_def ran by simp
  have u1: "\<exists>B'. buffers ?h b' = Some B' \<and> buffer_ok u ?h b' B'" if "u b' > 0" for b'
    using objects_okD(3) [OF assms(1) that] assms(3,4)
    by (cases "b' = Own b") (auto simp: buffer_ok_def cong: free_fn.case_cong)
  have e1: "entry_ok ?h E" if "entries ?h e = Some E" for e E
    using that objects_okD(4) [OF assms(1), of e E] by (simp add: entry_ok_def)
  show ?thesis by (rule objects_okI [OF b1 m1 u1 e1]) (unfold loan, use objects_okD(5-7) [OF assms(1)] in simp_all)
qed

section \<open>Steps on pools\<close>

lemma finite_entries: "bounded h \<Longrightarrow> finite (pool_entries (entries h) p)"
  by (rule finite_subset [of _ "{..<fresh h}"]) (auto simp: bounded_def pool_entries_def)

lemma pool_okD:
  assumes "pool_ok held L en p P"
  obtains es where "chain en (pool_head P) es" "distinct es" "set es = pool_entries en p - L"
    "pool_refcount P = of_bool held + card (pool_entries en p \<inter> L)" "pool_refcount P < 2 ^ 32"
  using assms unfolding pool_ok_def by blast

lemma pool_okI:
  assumes "chain en (pool_head P) es" "distinct es" "set es = pool_entries en p - L"
    "pool_refcount P = of_bool held + card (pool_entries en p \<inter> L)" "pool_refcount P < 2 ^ 32"
  shows "pool_ok held L en p P"
  using assms unfolding pool_ok_def by blast

lemma entries_of_upd: "en e = Some E \<Longrightarrow> ent_pool E' = ent_pool E \<Longrightarrow> pool_entries (en(e \<mapsto> E')) p = pool_entries en p"
  by (auto simp: pool_entries_def)

lemma entries_of_pool: "en e = Some E \<Longrightarrow> e \<in> pool_entries en p \<longleftrightarrow> p = ent_pool E"
  by (auto simp: pool_entries_def)

text \<open>An entry that comes back or is lent does not matter to other pools.\<close>

lemma other_pool_ok:
  assumes "pool_ok held L en q Q" "en e = Some E" "ent_pool E \<noteq> q" "ent_pool E' = ent_pool E" "L' - {e} = L - {e}"
  shows "pool_ok held L' (en(e \<mapsto> E')) q Q"
proof -
  obtain es where es: "chain en (pool_head Q) es" "distinct es" "set es = pool_entries en q - L"
    "pool_refcount Q = of_bool held + card (pool_entries en q \<inter> L)" "pool_refcount Q < 2 ^ 32"
    using pool_okD [OF assms(1)] by blast
  have e: "e \<notin> pool_entries en q" using assms(2,3) by (simp add: entries_of_pool)
  then have "pool_entries en q - L' = pool_entries en q - L" "pool_entries en q \<inter> L' = pool_entries en q \<inter> L"
    using assms(5) by blast+
  moreover have "e \<notin> set es" using e es(3) by blast
  ultimately show ?thesis
    using es by (intro pool_okI [of _ _ es]) (simp_all add: chain_upd entries_of_upd [where E = E] assms(2,4))
qed

lemma loan_entry:
  assumes "objects_ok H U u h" "loan u h b = Some e"
  obtains B E where "u b > 0" "buffers h b = Some B" "buf_free B = Pool_Release" "buf_opaque B = Entry e" "entries h e = Some E"
    "block_of (buf_data B) = block_of (ent_data E)" "buffer_ok u h b B"
proof -
  obtain B where B: "u b > 0" "buffers h b = Some B" "buf_free B = Pool_Release" "buf_opaque B = Entry e"
    using assms(2) by (auto simp: loan_def split: option.splits if_splits opaque.splits)
  then have "buffer_ok u h b B" using objects_okD(3) [OF assms(1), of b] by auto
  with B that show ?thesis by (auto simp: buffer_ok_def)
qed

text \<open>A pool takes a buffer back. The buffer itself is left without users.\<close>

lemma objects_return:
  assumes "objects_ok H U u h" "u b = 1" "buffers h b = Some B" "buf_free B = Pool_Release" "buf_opaque B = Entry e"
    and "entries h e = Some E" "pools h (ent_pool E) = Some P"
  defines "h' \<equiv> h\<lparr>buffers := (buffers h)(b \<mapsto> B\<lparr>refcount := 0\<rparr>), entries := (entries h)(e \<mapsto> E\<lparr>ent_next := pool_head P\<rparr>),
     pools := (pools h)(ent_pool E \<mapsto> P\<lparr>pool_head := Some e, pool_refcount := pool_refcount P - 1\<rparr>)\<rparr>"
  shows "objects_ok H U (u(b := 0)) h'" "pool_refcount P > 0"
proof -
  let ?p = "ent_pool E" and ?u = "u(b := 0)"
  let ?E = "E\<lparr>ent_next := pool_head P\<rparr>" and ?P = "P\<lparr>pool_head := Some e, pool_refcount := pool_refcount P - 1\<rparr>"
  let ?L = "ran (loan u h)"
  note bd = objects_okD(1) [OF assms(1)] and inj = objects_okD(5) [OF assms(1)]
  have lent: "loan u h b = Some e" using assms(2-5) by (simp add: loan_def)
  then have e: "e \<in> ?L" by (rule ranI)
  have loan: "loan ?u h' = (loan u h)(b := None)" by (auto simp: loan_def fun_eq_iff h'_def cong: option.case_cong)
  then have L: "ran (loan ?u h') = ?L - {e}" using ran_inj_del [OF inj lent] by simp
  have claim: "claim ?u h' = claim u h"
  proof
    fix c show "claim ?u h' c = claim u h c" using assms(3,4,6) by (cases c) (auto simp: h'_def cong: option.case_cong)
  qed
  obtain es where es: "chain (entries h) (pool_head P) es" "distinct es" "set es = pool_entries (entries h) ?p - ?L"
    "pool_refcount P = of_bool (?p \<in> H) + card (pool_entries (entries h) ?p \<inter> ?L)" "pool_refcount P < 2 ^ 32"
    using pool_okD [OF objects_okD(7) [OF assms(1,7)]] by blast
  have ep: "e \<in> pool_entries (entries h) ?p" using assms(6) by (simp add: entries_of_pool)
  have fin: "finite (pool_entries (entries h) ?p \<inter> ?L)" using finite_entries [OF bd] by blast
  have "card (pool_entries (entries h) ?p \<inter> ?L) > 0" using ep e fin by (auto simp: card_gt_0_iff)
  moreover have "pool_entries (entries h) ?p \<inter> (?L - {e}) = (pool_entries (entries h) ?p \<inter> ?L) - {e}" by blast
  ultimately have count: "card (pool_entries (entries h) ?p \<inter> (?L - {e})) = card (pool_entries (entries h) ?p \<inter> ?L) - 1"
    "card (pool_entries (entries h) ?p \<inter> ?L) > 0" using ep e fin by (simp_all add: card_Diff_singleton)
  show "pool_refcount P > 0" using es(4) count(2) by simp
  have new: "pool_ok (?p \<in> H) (?L - {e}) ((entries h)(e \<mapsto> ?E)) ?p ?P"
  proof (rule pool_okI [of _ _ "e # es"])
    have "e \<notin> set es" using es(3) e by blast
    then show "chain ((entries h)(e \<mapsto> ?E)) (pool_head ?P) (e # es)" "distinct (e # es)"
      using es(1,2) by (simp_all add: chain_upd)
    show "set (e # es) = pool_entries ((entries h)(e \<mapsto> ?E)) ?p - (?L - {e})"
      using es(3) ep e by (auto simp: entries_of_upd [where E = E] assms(6))
    show "pool_refcount ?P = of_bool (?p \<in> H) + card (pool_entries ((entries h)(e \<mapsto> ?E)) ?p \<inter> (?L - {e}))"
      using es(4) count by (simp add: entries_of_upd [where E = E] assms(6))
    show "pool_refcount ?P < 2 ^ 32" using es(5) by simp
  qed
  have b1: "bounded h'"
  proof -
    have "bounded (h\<lparr>buffers := (buffers h)(b \<mapsto> B\<lparr>refcount := 0\<rparr>)\<rparr>)"
      by (rule bounded_update [OF bd assms(3)])
    then show ?thesis using assms(6,7) unfolding h'_def bounded_def by simp
  qed
  have m1: "memory_ok U ?u h'" using objects_okD(2) [OF assms(1)] unfolding memory_ok_def claim by (simp add: h'_def)
  have u1: "\<exists>B'. buffers h' b' = Some B' \<and> buffer_ok ?u h' b' B'" if "?u b' > 0" for b'
  proof -
    have ne: "b' \<noteq> b" "u b' > 0" using that by (auto split: if_splits)
    from objects_okD(3) [OF assms(1) ne(2)] obtain B' where B': "buffers h b' = Some B'" "buffer_ok u h b' B'" by blast
    then have "buffer_ok ?u h' b' B'" using ne(1) assms(6)
      by (auto simp: buffer_ok_def h'_def split: free_fn.splits)
    then show ?thesis using B'(1) ne(1) by (simp add: h'_def)
  qed
  have e1: "entry_ok h' E'" if "entries h' e' = Some E'" for e' E'
  proof -
    note entry = that
    obtain E0 where E0: "entries h e' = Some E0" "ent_data E' = ent_data E0" "ent_free E' = ent_free E0" "ent_pool E' = ent_pool E0"
      using entry assms(6) by (cases "e' = e") (auto simp: h'_def)
    have "blocks h' = blocks h" by (simp add: h'_def)
    then have "mem_read q n h' = mem_read q n h" for q n by (intro mem_read_same) simp
    then show ?thesis using objects_okD(4) [OF assms(1) E0(1)] assms(7) unfolding entry_ok_def E0(2-4)
      by (auto simp: h'_def)
  qed
  show "objects_ok H U ?u h'"
  proof (rule objects_okI [OF b1 m1 u1 e1])
    show "inj_on (loan ?u h') (dom (loan ?u h'))" unfolding loan by (rule inj_map_del [OF inj])
    show "H \<subseteq> dom (pools h')" using objects_okD(6) [OF assms(1)] by (auto simp: h'_def)
    show "pool_ok (p \<in> H) (ran (loan ?u h')) (entries h') p Q" if "pools h' p = Some Q" for p Q
    proof (cases "p = ?p")
      case True
      with that have "Q = ?P" by (simp add: h'_def)
      with True new show ?thesis unfolding L by (simp add: h'_def)
    next
      case False
      with that have "pools h p = Some Q" by (simp add: h'_def)
      from other_pool_ok [OF objects_okD(7) [OF assms(1) this] assms(6), of ?E "?L - {e}"] False
      show ?thesis unfolding L by (simp add: h'_def)
    qed
  qed
qed

text \<open>An entry at the head of the list leaves the pool, and its data with it.\<close>

lemma objects_pop:
  assumes "objects_ok H U u h" "pools h p = Some P" "pool_head P = Some e"
  obtains E where "entries h e = Some E" "ent_pool E = p" "ent_free E \<noteq> Pool_Release" "blocks h (block_of (ent_data E)) \<noteq> None"
    "ent_data E \<noteq> None" "ent_free E = Default_Free \<longrightarrow> snd (the (ent_data E)) = 0" "e \<notin> ran (loan u h)" "u (Embedded e) = 0"
    "block_of (ent_data E) \<notin> U" "\<And>b B. u b > 0 \<Longrightarrow> buffers h b = Some B \<Longrightarrow> block_of (buf_data B) \<noteq> block_of (ent_data E)"
    "objects_ok H U u (h\<lparr>pools := (pools h)(p \<mapsto> P\<lparr>pool_head := ent_next E\<rparr>), blocks := (blocks h)(block_of (ent_data E) := None),
       entries := (entries h)(e := None), buffers := (buffers h)(Embedded e := None)\<rparr>)"
proof -
  let ?L = "ran (loan u h)"
  note bd = objects_okD(1) [OF assms(1)] and mm = memory_okD [OF objects_okD(2) [OF assms(1)]] and inj = objects_okD(5) [OF assms(1)]
  obtain es where es: "chain (entries h) (pool_head P) es" "distinct es" "set es = pool_entries (entries h) p - ?L"
    "pool_refcount P = of_bool (p \<in> H) + card (pool_entries (entries h) p \<inter> ?L)" "pool_refcount P < 2 ^ 32"
    using pool_okD [OF objects_okD(7) [OF assms(1,2)]] by blast
  then obtain E es' where E: "es = e # es'" "entries h e = Some E" "chain (entries h) (ent_next E) es'"
    using assms(3) by (auto simp: chain_Some)
  then have ep: "e \<in> pool_entries (entries h) p" and idle: "e \<notin> ?L" using es(3) by auto
  then have pool: "ent_pool E = p" using E(2) by (simp add: entries_of_pool)
  have ok: "entry_ok h E" by (rule objects_okD(4) [OF assms(1) E(2)])
  then obtain n xs where "mem_read (ent_data E) n h = Some xs" by (auto simp: entry_ok_def)
  then have data: "ent_data E \<noteq> None" "blocks h (block_of (ent_data E)) \<noteq> None" using mem_read_Some by blast+
  let ?x = "block_of (ent_data E)"
  let ?P = "P\<lparr>pool_head := ent_next E\<rparr>"
  let ?h = "h\<lparr>pools := (pools h)(p \<mapsto> ?P), blocks := (blocks h)(?x := None),
       entries := (entries h)(e := None), buffers := (buffers h)(Embedded e := None)\<rparr>"
  have c: "claim u h (By_Entry e) = Some ?x" using E(2) by simp
  have u0: "u (Embedded e) = 0"
  proof (rule ccontr)
    assume "u (Embedded e) \<noteq> 0"
    then have pos: "u (Embedded e) > 0" by simp
    from objects_okD(3) [OF assms(1) pos] obtain B where B: "buffers h (Embedded e) = Some B" "buffer_ok u h (Embedded e) B" by blast
    then have "loan u h (Embedded e) = Some e" using pos by (auto simp: buffer_ok_def loan_def split: free_fn.splits)
    with idle show False by (auto simp: ran_def)
  qed
  have apart: "block_of (buf_data B) \<noteq> ?x" if "u b > 0" "buffers h b = Some B" for b B
  proof
    assume "block_of (buf_data B) = ?x"
    with owner_claims [OF assms(1) that] c have own: "owner u h b = By_Entry e" using inj_map_eq [OF mm(1)] by metis
    show False
    proof (cases "loan u h b")
      case None
      with own have "b = Embedded e" by (cases b) (simp_all add: owner_def)
      with u0 that(1) show False by simp
    next
      case (Some e')
      with own idle show False by (auto simp: owner_def ran_def)
    qed
  qed
  have claim: "claim u ?h = (claim u h)(By_Entry e := None)"
  proof
    fix c show "claim u ?h c = ((claim u h)(By_Entry e := None)) c" by (cases c) auto
  qed
  have loan: "loan u ?h = loan u h" using u0 by (auto simp: loan_def fun_eq_iff split: option.splits)
  have x: "?x \<in> ran (claim u h)" using c by (rule ranI)
  have ran: "ran (claim u ?h) = ran (claim u h) - {?x}" unfolding claim by (rule ran_inj_del [OF mm(1) c])
  have b1: "bounded ?h" using bd assms(2) by (auto simp: bounded_def)
  have "inj_on (claim u ?h) (dom (claim u ?h))" unfolding claim by (rule inj_map_del [OF mm(1)])
  moreover have "(ran (claim u h) - {?x}) \<union> U = dom ((blocks h)(?x := None))" using mm(2,3) x by auto
  moreover have "(ran (claim u h) - {?x}) \<inter> U = {}" using mm(3) by blast
  ultimately have m1: "memory_ok U u ?h" unfolding memory_ok_def ran by simp
  have u1: "\<exists>B'. buffers ?h b' = Some B' \<and> buffer_ok u ?h b' B'" if pos: "u b' > 0" for b'
  proof -
    obtain B' where B': "buffers h b' = Some B'" "buffer_ok u h b' B'" using objects_okD(3) [OF assms(1) pos] by blast
    have "buf_opaque B' \<noteq> Entry e" if "buf_free B' = Pool_Release"
    proof
      assume "buf_opaque B' = Entry e"
      with that pos B'(1) have "loan u h b' = Some e" by (simp add: loan_def)
      with idle show False by (auto simp: ran_def)
    qed
    then have "buffer_ok u ?h b' B'" using B'(2) by (auto simp: buffer_ok_def split: free_fn.splits)
    moreover have "b' \<noteq> Embedded e" using pos u0 by auto
    ultimately show ?thesis using B'(1) by simp
  qed
  have e1: "entry_ok ?h E'" if "entries ?h e' = Some E'" for e' E'
  proof (rule entry_ok_blocks [of h])
    have E': "entries h e' = Some E'" "e' \<noteq> e" using that by (auto split: if_splits)
    then show "entry_ok h E'" by (intro objects_okD(4) [OF assms(1)])
    have "claim u h (By_Entry e') = Some (block_of (ent_data E'))" using E'(1) by simp
    then have "block_of (ent_data E') \<noteq> ?x" using inj_map_eq [OF mm(1) c, of "By_Entry e'"] E'(2) by auto
    then show "blocks ?h (block_of (ent_data E')) = blocks h (block_of (ent_data E'))" by simp
    show "\<exists>P'. pools ?h (ent_pool E') = Some P' \<and> pool_size P' = pool_size Q" if "pools h (ent_pool E') = Some Q" for Q
      using that assms(2) by auto
  qed
  have new: "pool_ok (q \<in> H) ?L ((entries h)(e := None)) q Q'" if "pools ?h q = Some Q'" for q Q'
  proof (cases "q = p")
    case True
    have L: "pool_entries ((entries h)(e := None)) p = pool_entries (entries h) p - {e}" by (auto simp: pool_entries_def)
    then have "pool_entries ((entries h)(e := None)) p \<inter> ?L = pool_entries (entries h) p \<inter> ?L"
      "pool_entries ((entries h)(e := None)) p - ?L = set es'" using idle es(2,3) E(1) by auto
    with es E True that show ?thesis by (intro pool_okI [of _ _ es']) (auto simp: chain_upd)
  next
    case False
    with that have Q: "pools h q = Some Q'" by simp
    obtain qs where qs: "chain (entries h) (pool_head Q') qs" "distinct qs" "set qs = pool_entries (entries h) q - ?L"
      "pool_refcount Q' = of_bool (q \<in> H) + card (pool_entries (entries h) q \<inter> ?L)" "pool_refcount Q' < 2 ^ 32"
      using pool_okD [OF objects_okD(7) [OF assms(1) Q]] by blast
    have "e \<notin> pool_entries (entries h) q" using E(2) pool False by (simp add: entries_of_pool)
    moreover from this have "pool_entries ((entries h)(e := None)) q = pool_entries (entries h) q" by (auto simp: pool_entries_def)
    moreover have "e \<notin> set qs" using calculation(1) qs(3) by blast
    ultimately show ?thesis using qs by (intro pool_okI [of _ _ qs]) (simp_all add: chain_upd)
  qed
  have "objects_ok H U u ?h"
  proof (rule objects_okI [OF b1 m1 u1 e1])
    show "inj_on (loan u ?h) (dom (loan u ?h))" unfolding loan by (rule inj)
    show "H \<subseteq> dom (pools ?h)" using objects_okD(6) [OF assms(1)] by auto
    show "pool_ok (q \<in> H) (ran (loan u ?h)) (entries ?h) q Q" if "pools ?h q = Some Q" for q Q
      unfolding loan using new [OF that] by simp
  qed
  moreover have "?x \<notin> U" using x mm(3) by blast
  ultimately show ?thesis using that E(2) pool ok data idle u0 apart unfolding entry_ok_def by blast
qed

text \<open>A pool without entries can go, and a new one comes without entries.\<close>

lemma objects_pool_gone:
  assumes "objects_ok H U u h" "pool_entries (entries h) p = {}" "p \<notin> H"
  shows "objects_ok H U u (h\<lparr>pools := (pools h)(p := None)\<rparr>)"
proof -
  let ?h = "h\<lparr>pools := (pools h)(p := None)\<rparr>"
  have same: "claim u ?h = claim u h" "loan u ?h = loan u h" by (rule claim_cong loan_cong; simp)+
  have b1: "bounded ?h" using objects_okD(1) [OF assms(1)] by (auto simp: bounded_def)
  have m1: "memory_ok U u ?h" using objects_okD(2) [OF assms(1)] by (simp add: memory_ok_def same)
  have u1: "\<exists>B'. buffers ?h b' = Some B' \<and> buffer_ok u ?h b' B'" if "u b' > 0" for b'
    using objects_okD(3) [OF assms(1) that] by (simp add: buffer_ok_cong [of ?h h])
  have e1: "entry_ok ?h E'" if "entries ?h e' = Some E'" for e' E'
  proof -
    have E': "entries h e' = Some E'" using that by simp
    then have "ent_pool E' \<noteq> p" using assms(2) by (auto simp: pool_entries_def)
    then show ?thesis using objects_okD(4) [OF assms(1) E'] by (simp add: entry_ok_def)
  qed
  show ?thesis
  proof (rule objects_okI [OF b1 m1 u1 e1])
    show "H \<subseteq> dom (pools ?h)" using objects_okD(6) [OF assms(1)] assms(3) by auto
    show "pool_ok (q \<in> H) (ran (loan u ?h)) (entries ?h) q Q" if "pools ?h q = Some Q" for q Q
      unfolding same using that objects_okD(7) [OF assms(1), of q Q] by (simp split: if_splits)
    show "inj_on (loan u ?h) (dom (loan u ?h))" unfolding same by (rule objects_okD(5) [OF assms(1)])
  qed
qed

lemma objects_new_pool:
  assumes "objects_ok H U u h" "fresh h \<le> p" "p < n" "pool_head P = None" "pool_refcount P = 1"
  shows "objects_ok (insert p H) U u (h\<lparr>fresh := n, pools := (pools h)(p \<mapsto> P)\<rparr>)"
proof -
  let ?h = "h\<lparr>fresh := n, pools := (pools h)(p \<mapsto> P)\<rparr>"
  have same: "claim u ?h = claim u h" "loan u ?h = loan u h" by (rule claim_cong loan_cong; simp)+
  note bd = objects_okD(1) [OF assms(1)]
  have none: "pools h p = None" using bd assms(2) by (auto simp: bounded_def)
  have E: "pool_entries (entries h) p = {}"
    using objects_okD(4) [OF assms(1)] none by (fastforce simp: pool_entries_def entry_ok_def)
  have b1: "bounded ?h" using bounded_fresh [OF bd, of n] assms(2,3) by (auto simp: bounded_def)
  have m1: "memory_ok U u ?h" using objects_okD(2) [OF assms(1)] by (simp add: memory_ok_def same)
  have u1: "\<exists>B'. buffers ?h b' = Some B' \<and> buffer_ok u ?h b' B'" if "u b' > 0" for b'
    using objects_okD(3) [OF assms(1) that] by (simp add: buffer_ok_cong [of ?h h])
  have e1: "entry_ok ?h E'" if "entries ?h e' = Some E'" for e' E'
  proof -
    have E': "entries h e' = Some E'" using that by simp
    then have "ent_pool E' \<noteq> p" using E by (auto simp: pool_entries_def)
    then show ?thesis using objects_okD(4) [OF assms(1) E'] by (simp add: entry_ok_def)
  qed
  show ?thesis
  proof (rule objects_okI [OF b1 m1 u1 e1])
    show "insert p H \<subseteq> dom (pools ?h)" using objects_okD(6) [OF assms(1)] by auto
    show "pool_ok (q \<in> insert p H) (ran (loan u ?h)) (entries ?h) q Q" if "pools ?h q = Some Q" for q Q
    proof (cases "q = p")
      case True
      with that assms(4,5) E show ?thesis by (intro pool_okI [of _ _ "[]"]) auto
    next
      case False
      with that objects_okD(7) [OF assms(1), of q Q] show ?thesis unfolding same by simp
    qed
    show "inj_on (loan u ?h) (dom (loan u ?h))" unfolding same by (rule objects_okD(5) [OF assms(1)])
  qed
qed

text \<open>A pool lends the first entry of its list.\<close>

lemma objects_lend:
  assumes "objects_ok H U u h" "pools h p = Some P" "pool_head P = Some e" "entries h e = Some E" "pool_refcount P + 1 < 2 ^ 32"
    and "buf_data B = ent_data E" "buf_free B = Pool_Release" "buf_opaque B = Entry e" "refcount B = 1"
    and "has_flag (flags_internal B) BUFFER_FLAG_NO_FREE" "\<not> has_flag (flags_internal B) BUFFER_FLAG_REALLOCATABLE"
  defines "h' \<equiv> h\<lparr>buffers := (buffers h)(Embedded e \<mapsto> B), entries := (entries h)(e \<mapsto> E\<lparr>ent_next := None\<rparr>),
     pools := (pools h)(p \<mapsto> P\<lparr>pool_head := ent_next E, pool_refcount := pool_refcount P + 1\<rparr>)\<rparr>"
  shows "objects_ok H U (u(Embedded e := 1)) h'"
proof -
  let ?u = "u(Embedded e := 1)" and ?L = "ran (loan u h)" and ?E = "E\<lparr>ent_next := None\<rparr>"
  let ?P = "P\<lparr>pool_head := ent_next E, pool_refcount := pool_refcount P + 1\<rparr>"
  note bd = objects_okD(1) [OF assms(1)] and inj = objects_okD(5) [OF assms(1)]
  obtain E0 where E0: "entries h e = Some E0" "ent_pool E0 = p" "e \<notin> ?L" "u (Embedded e) = 0" "ent_data E0 \<noteq> None"
    by (rule objects_pop [OF assms(1-3)]) blast
  then have pool: "ent_pool E = p" and idle: "e \<notin> ?L" and u0: "u (Embedded e) = 0" and data: "ent_data E \<noteq> None"
    using assms(4) by auto
  obtain es where es: "chain (entries h) (pool_head P) es" "distinct es" "set es = pool_entries (entries h) p - ?L"
    "pool_refcount P = of_bool (p \<in> H) + card (pool_entries (entries h) p \<inter> ?L)"
    using pool_okD [OF objects_okD(7) [OF assms(1,2)]] by blast
  then obtain es' where E: "es = e # es'" "chain (entries h) (ent_next E) es'" using assms(3,4) by (auto simp: chain_Some)
  have old: "loan u h (Embedded e) = None" using u0 by (simp add: loan_def split: option.split)
  have loan: "loan ?u h' = (loan u h)(Embedded e \<mapsto> e)"
    using assms(7,8) by (auto simp: loan_def fun_eq_iff h'_def cong: option.case_cong)
  have L: "ran (loan ?u h') = insert e ?L" unfolding loan using old by (rule ran_map_upd)
  have claim: "claim ?u h' = claim u h"
  proof
    fix c show "claim ?u h' c = claim u h c" using assms(4) by (cases c) (auto simp: h'_def cong: option.case_cong)
  qed
  have "buffers h (Embedded e) \<noteq> None" using bd assms(4) by (auto simp: bounded_def)
  then obtain B0 where B0: "buffers h (Embedded e) = Some B0" by blast
  have b1: "bounded h'"
    using bounded_update [OF bd B0, of B] assms(2,4) unfolding h'_def bounded_def by simp
  have m1: "memory_ok U ?u h'" using objects_okD(2) [OF assms(1)] unfolding memory_ok_def claim by (simp add: h'_def)
  have u1: "\<exists>B'. buffers h' b' = Some B' \<and> buffer_ok ?u h' b' B'" if "?u b' > 0" for b'
  proof (cases "b' = Embedded e")
    case True
    then show ?thesis using assms(6-11) data by (auto simp: h'_def buffer_ok_def)
  next
    case False
    with that have "u b' > 0" by simp
    from objects_okD(3) [OF assms(1) this] obtain B' where B': "buffers h b' = Some B'" "buffer_ok u h b' B'" by blast
    then have "buffer_ok ?u h' b' B'" using False assms(4) by (auto simp: buffer_ok_def h'_def split: free_fn.splits)
    then show ?thesis using B'(1) False by (simp add: h'_def)
  qed
  have e1: "entry_ok h' E'" if entry: "entries h' e' = Some E'" for e' E'
  proof -
    obtain E1 where E1: "entries h e' = Some E1" "ent_data E' = ent_data E1" "ent_free E' = ent_free E1" "ent_pool E' = ent_pool E1"
      using entry assms(4) by (cases "e' = e") (auto simp: h'_def)
    have "blocks h' = blocks h" by (simp add: h'_def)
    then have "mem_read q n h' = mem_read q n h" for q n by (intro mem_read_same) simp
    then show ?thesis using objects_okD(4) [OF assms(1) E1(1)] assms(2) unfolding entry_ok_def E1(2-4)
      by (auto simp: h'_def)
  qed
  have ep: "e \<in> pool_entries (entries h) p" using assms(4) pool by (simp add: entries_of_pool)
  have up: "pool_entries ((entries h)(e \<mapsto> ?E)) p = pool_entries (entries h) p"
    using assms(4) by (intro entries_of_upd [where E = E]) simp_all
  have new: "pool_ok (p \<in> H) (insert e ?L) ((entries h)(e \<mapsto> ?E)) p ?P"
  proof (rule pool_okI [of _ _ es'])
    have e: "e \<notin> set es'" using es(2) E(1) by simp
    then show "chain ((entries h)(e \<mapsto> ?E)) (pool_head ?P) es'" "distinct es'" using es(2) E by (simp_all add: chain_upd)
    show "set es' = pool_entries ((entries h)(e \<mapsto> ?E)) p - insert e ?L"
      using es(3) e unfolding up E(1) by auto
    have "pool_entries (entries h) p \<inter> insert e ?L = insert e (pool_entries (entries h) p \<inter> ?L)" using ep by blast
    then show "pool_refcount ?P = of_bool (p \<in> H) + card (pool_entries ((entries h)(e \<mapsto> ?E)) p \<inter> insert e ?L)"
      using es(4) idle finite_entries [OF bd, of p] unfolding up by simp
    show "pool_refcount ?P < 2 ^ 32" using assms(5) by simp
  qed
  show ?thesis
  proof (rule objects_okI [OF b1 m1 u1 e1])
    show "inj_on (loan ?u h') (dom (loan ?u h'))" unfolding loan by (rule inj_map_upd [OF inj idle])
    show "H \<subseteq> dom (pools h')" using objects_okD(6) [OF assms(1)] by (auto simp: h'_def)
    show "pool_ok (q \<in> H) (ran (loan ?u h')) (entries h') q Q" if "pools h' q = Some Q" for q Q
    proof (cases "q = p")
      case True
      with that have "Q = ?P" by (simp add: h'_def)
      with True new show ?thesis unfolding L by (simp add: h'_def)
    next
      case False
      with that have "pools h q = Some Q" by (simp add: h'_def)
      from other_pool_ok [OF objects_okD(7) [OF assms(1) this] assms(4), of ?E "insert e ?L"] False pool
      show ?thesis unfolding L by (simp add: h'_def)
    qed
  qed
qed

text \<open>The buffer inside an entry that is not lent may be anything.\<close>

lemma objects_idle:
  assumes "objects_ok H U u h" "u (Embedded e) = 0" "buffers h (Embedded e) = Some B0"
  shows "objects_ok H U u (h\<lparr>buffers := (buffers h)(Embedded e \<mapsto> B)\<rparr>)"
proof -
  let ?h = "h\<lparr>buffers := (buffers h)(Embedded e \<mapsto> B)\<rparr>"
  have claim: "claim u ?h = claim u h"
  proof
    fix c show "claim u ?h c = claim u h c" by (cases c) auto
  qed
  have loan: "loan u ?h = loan u h" using assms(2) by (auto simp: loan_def fun_eq_iff split: option.splits)
  have b1: "bounded ?h" by (rule bounded_update [OF objects_okD(1) [OF assms(1)] assms(3)])
  have m1: "memory_ok U u ?h" using objects_okD(2) [OF assms(1)] unfolding memory_ok_def claim by simp
  have u1: "\<exists>B'. buffers ?h b' = Some B' \<and> buffer_ok u ?h b' B'" if "u b' > 0" for b'
    using objects_okD(3) [OF assms(1) that] that assms(2) by (cases "b' = Embedded e") (simp_all add: buffer_ok_cong [of ?h h])
  have e1: "entry_ok ?h E" if "entries ?h e' = Some E" for e' E
    using that objects_okD(4) [OF assms(1), of e' E] by (simp add: entry_ok_def)
  show ?thesis by (rule objects_okI [OF b1 m1 u1 e1]) (unfold loan, use objects_okD(5-7) [OF assms(1)] in simp_all)
qed

text \<open>A new buffer is made an entry of a pool, and is lent.\<close>

lemma objects_adopt:
  assumes "objects_ok H U u h" "u (Own a) > 0" "buffers h (Own a) = Some B" "buf_free B \<noteq> Pool_Release"
    and "\<not> has_flag (flags_internal B) BUFFER_FLAG_REALLOCATABLE" "fresh h \<le> e" "e < n"
    and "pools h p = Some P" "pool_refcount P + 1 < 2 ^ 32" "mem_read (buf_data B) (pool_size P) h \<noteq> None"
  defines "E \<equiv> \<lparr>ent_data = buf_data B, ent_opaque = buf_opaque B, ent_free = buf_free B, ent_pool = p, ent_next = None\<rparr>"
  defines "h' \<equiv> h\<lparr>fresh := n,
     buffers := (buffers h)(Embedded e \<mapsto> zero_buffer, Own a \<mapsto> B\<lparr>buf_free := Pool_Release, buf_opaque := Entry e\<rparr>),
     entries := (entries h)(e \<mapsto> E), pools := (pools h)(p \<mapsto> P\<lparr>pool_refcount := pool_refcount P + 1\<rparr>)\<rparr>"
  shows "objects_ok H U u h'"
proof -
  let ?L = "ran (loan u h)" and ?B = "B\<lparr>buf_free := Pool_Release, buf_opaque := Entry e\<rparr>" and ?x = "block_of (buf_data B)"
  let ?P = "P\<lparr>pool_refcount := pool_refcount P + 1\<rparr>"
  note bd = objects_okD(1) [OF assms(1)] and mm = memory_okD [OF objects_okD(2) [OF assms(1)]] and inj = objects_okD(5) [OF assms(1)]
  have none: "entries h e = None" using bd assms(6) by (auto simp: bounded_def)
  then have none': "buffers h (Embedded e) = None" using bd by (simp add: bounded_def)
  then have u0: "u (Embedded e) = 0" by (rule uses_exist [OF assms(1)])
  have idle: "e \<notin> ?L"
  proof
    assume "e \<in> ?L"
    then obtain b where "loan u h b = Some e" by (auto simp: ran_def)
    from loan_entry [OF assms(1) this] none show False by auto
  qed
  have okB: "buffer_ok u h (Own a) B" using objects_okD(3) [OF assms(1,2)] assms(3) by auto
  have old: "loan u h (Own a) = None" using assms(3,4) by (simp add: loan_def)
  have loan: "loan u h' = (loan u h)(Own a \<mapsto> e)"
    using assms(2,3) u0 by (auto simp: loan_def fun_eq_iff h'_def none' zero_buffer_def cong: option.case_cong)
  have L: "ran (loan u h') = insert e ?L" unfolding loan using old by (rule ran_map_upd)
  have c: "claim u h (By_Buffer a) = Some ?x" using assms(2-4) by simp
  have claim: "claim u h' = (claim u h)(By_Buffer a := None, By_Entry e \<mapsto> ?x)"
  proof
    fix c show "claim u h' c = ((claim u h)(By_Buffer a := None, By_Entry e \<mapsto> ?x)) c"
      by (cases c) (auto simp: h'_def E_def cong: option.case_cong)
  qed
  have ran1: "ran ((claim u h)(By_Buffer a := None)) = ran (claim u h) - {?x}" by (rule ran_inj_del [OF mm(1) c])
  have "((claim u h)(By_Buffer a := None)) (By_Entry e) = None" using none by simp
  then have ran: "ran (claim u h') = insert ?x (ran (claim u h) - {?x})" unfolding claim ran1 [symmetric] by (rule ran_map_upd)
  also have "\<dots> = ran (claim u h)" using ranI [of "claim u h", OF c] by (rule insert_Diff)
  finally have ran: "ran (claim u h') = ran (claim u h)" .
  have "inj_on (claim u h') (dom (claim u h'))"
    unfolding claim by (rule inj_map_upd [OF inj_map_del [OF mm(1)]]) (simp add: ran1)
  then have m1: "memory_ok U u h'" using mm(2,3) unfolding memory_ok_def ran by (simp add: h'_def)
  have b1: "bounded h'"
  proof -
    have n: "fresh h \<le> n" using assms(6,7) by simp
    have 1: "bounded ((h\<lparr>buffers := (buffers h)(Own a \<mapsto> ?B)\<rparr>)\<lparr>fresh := n\<rparr>)"
      using bounded_fresh [OF bounded_update [OF bd assms(3), of ?B], of n] n by simp
    have "p < n" using bd assms(8) n by (auto simp: bounded_def intro: less_le_trans)
    with 1 assms(7) show ?thesis unfolding h'_def bounded_def by simp
  qed
  have u1: "\<exists>B'. buffers h' b' = Some B' \<and> buffer_ok u h' b' B'" if pos: "u b' > 0" for b'
  proof (cases "b' = Own a")
    case True
    then show ?thesis using okB assms(5) by (auto simp: h'_def E_def buffer_ok_def split: free_fn.splits)
  next
    case False
    from objects_okD(3) [OF assms(1) pos] obtain B' where B': "buffers h b' = Some B'" "buffer_ok u h b' B'" by blast
    then have "buffer_ok u h' b' B'" using none by (auto simp: buffer_ok_def h'_def split: free_fn.splits)
    moreover have "b' \<noteq> Embedded e" using pos u0 by auto
    ultimately show ?thesis using B'(1) False by (simp add: h'_def)
  qed
  have e1: "entry_ok h' E'" if entry: "entries h' e' = Some E'" for e' E'
  proof -
    have "blocks h' = blocks h" by (simp add: h'_def)
    then have same: "mem_read q n h' = mem_read q n h" for q n by (intro mem_read_same) simp
    show ?thesis
    proof (cases "e' = e")
      case True
      with entry have "E' = E" by (simp add: h'_def)
      then show ?thesis using assms(4,8,10) okB by (auto simp: entry_ok_def E_def h'_def same buffer_ok_def)
    next
      case False
      with entry have "entries h e' = Some E'" by (simp add: h'_def)
      from objects_okD(4) [OF assms(1) this] show ?thesis using assms(8) by (auto simp: entry_ok_def h'_def same)
    qed
  qed
  have new: "pool_ok (q \<in> H) (insert e ?L) ((entries h)(e \<mapsto> E)) q Q'" if Q: "pools h q = Some Q" "Q' = (if q = p then ?P else Q)" for q Q Q'
  proof -
    obtain es where es: "chain (entries h) (pool_head Q) es" "distinct es" "set es = pool_entries (entries h) q - ?L"
      "pool_refcount Q = of_bool (q \<in> H) + card (pool_entries (entries h) q \<inter> ?L)" "pool_refcount Q < 2 ^ 32"
      using pool_okD [OF objects_okD(7) [OF assms(1) Q(1)]] by blast
    have e: "e \<notin> pool_entries (entries h) q" using none by (simp add: pool_entries_def)
    have eq: "pool_entries ((entries h)(e \<mapsto> E)) q = (if q = p then insert e (pool_entries (entries h) q) else pool_entries (entries h) q)"
      using none by (auto simp: pool_entries_def E_def)
    have "e \<notin> set es" using e es(3) by blast
    then have ch: "chain ((entries h)(e \<mapsto> E)) (pool_head Q') es" using es(1) Q assms(8) by (auto simp: chain_upd)
    have st: "set es = pool_entries ((entries h)(e \<mapsto> E)) q - insert e ?L" using es(3) e unfolding eq by auto
    have fin: "finite (pool_entries (entries h) q \<inter> ?L)" using finite_entries [OF bd] by blast
    have "pool_entries ((entries h)(e \<mapsto> E)) q \<inter> insert e ?L =
        (if q = p then insert e (pool_entries (entries h) q \<inter> ?L) else pool_entries (entries h) q \<inter> ?L)" using e unfolding eq by auto
    then have "pool_refcount Q' = of_bool (q \<in> H) + card (pool_entries ((entries h)(e \<mapsto> E)) q \<inter> insert e ?L)"
      using es(4) Q assms(8) idle fin by (cases "q = p") auto
    moreover have "pool_refcount Q' < 2 ^ 32" using es(5) Q assms(8,9) by auto
    ultimately show ?thesis using ch es(2) st by (intro pool_okI [of _ _ es])
  qed
  show ?thesis
  proof (rule objects_okI [OF b1 m1 u1 e1])
    show "inj_on (loan u h') (dom (loan u h'))" unfolding loan by (rule inj_map_upd [OF inj idle])
    show "H \<subseteq> dom (pools h')" using objects_okD(6) [OF assms(1)] by (auto simp: h'_def)
    show "pool_ok (q \<in> H) (ran (loan u h')) (entries h') q Q" if "pools h' q = Some Q" for q Q
      unfolding L using that new [of q "if q = p then P else Q" Q] assms(8) by (auto simp: h'_def split: if_splits)
  qed
qed

end
