(* ===== verification/Buffer_Ops.thy ===== *)
theory Buffer_Ops
  imports Heap_Steps
begin

text \<open>
  The functions of \<open>Buffer\<close> on well-formed heaps: they never access freed memory, never free anything
  twice, and lead to well-formed heaps; and what they do to the bytes that references show.
\<close>

section \<open>Freeing\<close>

lemma call_free_plain:
  assumes "f \<noteq> Pool_Release" "d \<noteq> None" "blocks h (block_of d) \<noteq> None" "f = Default_Free \<longrightarrow> snd (the d) = 0"
  shows "\<exists>ev. call_free n f op d h = Some (h\<lparr>blocks := (blocks h)(block_of d := None), events := ev\<rparr>)"
proof -
  obtain a i where d: "d = Some (a, i)" using assms(2) by auto
  show ?thesis
  proof (cases f)
    case Default_Free
    then show ?thesis using d assms(3,4) by (intro exI [of _ "events h"]) (auto simp: block_of_def)
  next
    case (Custom k)
    then show ?thesis using d assms(3) by (intro exI [of _ "events h @ [Freed k op d]"]) (auto simp: block_of_def)
  qed (use assms(1) in simp)
qed

lemma keeps_refl: "keeps u U h h"
  by (simp add: keeps_def)

lemma keeps_trans:
  assumes "keeps u U h1 h2" "keeps u U h2 h3"
  shows "keeps u U h1 h3"
  unfolding keeps_def
proof (intro conjI allI impI ballI)
  show "refs h3 = refs h1" "fresh h1 \<le> fresh h3" using assms by (simp_all add: keeps_def)
  show "blocks h3 a = blocks h1 a" if "a \<in> U" for a using assms that by (simp add: keeps_def)
  fix b B assume b: "u b > 0" "buffers h1 b = Some B"
  then obtain B2 where 2: "buffers h2 b = Some B2" "buf_data B2 = buf_data B" "buf_flags B2 = buf_flags B"
    "flags_internal B2 = flags_internal B" "blocks h2 (block_of (buf_data B)) = blocks h1 (block_of (buf_data B))"
    using assms(1) unfolding keeps_def by blast
  with b(1) assms(2) obtain B3 where "buffers h3 b = Some B3" "buf_data B3 = buf_data B2"
    "buf_flags B3 = buf_flags B2" "flags_internal B3 = flags_internal B2" "blocks h3 (block_of (buf_data B2)) = blocks h2 (block_of (buf_data B2))"
    unfolding keeps_def by blast
  with 2 show "blocks h3 (block_of (buf_data B)) = blocks h1 (block_of (buf_data B))"
    "\<exists>B'. buffers h3 b = Some B' \<and> buf_data B' = buf_data B \<and> buf_flags B' = buf_flags B \<and> flags_internal B' = flags_internal B"
    by simp_all
qed

lemma pool_flush_ok:
  assumes "objects_ok H U u h" "pools h p = Some P"
  shows "\<exists>h'. pool_flush (call_free n) p h = Some h' \<and> objects_ok H U u h' \<and> keeps u U h h' \<and>
    pools h' = (pools h)(p \<mapsto> P\<lparr>pool_head := None\<rparr>) \<and> (\<forall>a. buffers h' (Own a) = buffers h (Own a)) \<and>
    loan u h' = loan u h"
  using assms
proof (induction "card (pool_entries (entries h) p)" arbitrary: h P rule: less_induct)
  case less
  show ?case
  proof (cases "pool_head P")
    case None
    then have "P\<lparr>pool_head := None\<rparr> = P" by simp
    moreover have "pool_flush (call_free n) p h = Some h" using None less.prems(2) by (simp add: pool_flush.simps [of _ p h])
    ultimately show ?thesis using less.prems by (intro exI [of _ h]) (simp add: keeps_refl fun_upd_idem)
  next
    case (Some e)
    obtain E where E: "entries h e = Some E" "ent_pool E = p" "ent_free E \<noteq> Pool_Release" "blocks h (block_of (ent_data E)) \<noteq> None"
      "ent_data E \<noteq> None" "ent_free E = Default_Free \<longrightarrow> snd (the (ent_data E)) = 0" "e \<notin> ran (loan u h)" "u (Embedded e) = 0"
      "block_of (ent_data E) \<notin> U" "\<And>b B. u b > 0 \<Longrightarrow> buffers h b = Some B \<Longrightarrow> block_of (buf_data B) \<noteq> block_of (ent_data E)"
      "objects_ok H U u (h\<lparr>pools := (pools h)(p \<mapsto> P\<lparr>pool_head := ent_next E\<rparr>), blocks := (blocks h)(block_of (ent_data E) := None),
       entries := (entries h)(e := None), buffers := (buffers h)(Embedded e := None)\<rparr>)"
      using objects_pop [OF less.prems Some] by blast
    let ?h1 = "h\<lparr>pools := (pools h)(p \<mapsto> P\<lparr>pool_head := ent_next E\<rparr>)\<rparr>"
    obtain ev where ev: "call_free n (ent_free E) (ent_opaque E) (ent_data E) ?h1 =
        Some (?h1\<lparr>blocks := (blocks h)(block_of (ent_data E) := None), events := ev\<rparr>)"
      using call_free_plain [of "ent_free E" "ent_data E" ?h1 n "ent_opaque E"] E(3-6) by auto
    let ?h2 = "h\<lparr>pools := (pools h)(p \<mapsto> P\<lparr>pool_head := ent_next E\<rparr>), blocks := (blocks h)(block_of (ent_data E) := None), events := ev,
       entries := (entries h)(e := None), buffers := (buffers h)(Embedded e := None)\<rparr>"
    have step: "pool_flush (call_free n) p h = pool_flush (call_free n) p ?h2"
      using less.prems(2) Some E(1) ev by (simp add: pool_flush.simps [of _ p h])
    let ?h3 = "h\<lparr>pools := (pools h)(p \<mapsto> P\<lparr>pool_head := ent_next E\<rparr>), blocks := (blocks h)(block_of (ent_data E) := None),
       entries := (entries h)(e := None), buffers := (buffers h)(Embedded e := None)\<rparr>"
    have "?h2 = ?h3\<lparr>events := ev\<rparr>" by (rule heap.equality) simp_all
    with E(11) have ok: "objects_ok H U u ?h2" by (simp only: objects_events)
    have "pool_entries (entries ?h2) p = pool_entries (entries h) p - {e}" by (auto simp: pool_entries_def)
    moreover have "e \<in> pool_entries (entries h) p" using E(1,2) by (simp add: entries_of_pool)
    moreover have "finite (pool_entries (entries h) p)" by (rule finite_entries [OF objects_okD(1) [OF less.prems(1)]])
    ultimately have "card (pool_entries (entries ?h2) p) < card (pool_entries (entries h) p)" by (metis card_Diff1_less)
    from less.hyps [OF this ok, of "P\<lparr>pool_head := ent_next E\<rparr>"] obtain h' where
      h': "pool_flush (call_free n) p ?h2 = Some h'" "objects_ok H U u h'" "keeps u U ?h2 h'"
        "pools h' = (pools h)(p \<mapsto> P\<lparr>pool_head := None\<rparr>)" "\<forall>a. buffers h' (Own a) = buffers h (Own a)"
        "loan u h' = loan u ?h2" by auto
    have "loan u ?h2 = loan u h" using E(8) by (auto simp: loan_def fun_eq_iff split: option.splits)
    moreover have "keeps u U h ?h2" using E(8,9,10) unfolding keeps_def by auto
    ultimately have "keeps u U h h'" "loan u h' = loan u h" using keeps_trans h'(3,6) by (blast, simp)
    then show ?thesis using h'(1,2,4,5) step by (intro exI [of _ h']) simp
  qed
qed

text \<open>A pool whose counter is zero has no client, nothing is lent from it, and after a flush it is empty.\<close>

lemma buffer_pool_free_ok:
  assumes "objects_ok H U u h" "pools h p = Some P" "pool_refcount P = 0"
  shows "\<exists>h'. buffer_pool_free (call_free n) p h = Some h' \<and> objects_ok H U u h' \<and> keeps u U h h' \<and>
    pools h' = (pools h)(p := None) \<and> (\<forall>a. buffers h' (Own a) = buffers h (Own a))"
proof -
  obtain h1 where h1: "pool_flush (call_free n) p h = Some h1" "objects_ok H U u h1" "keeps u U h h1"
    "pools h1 = (pools h)(p \<mapsto> P\<lparr>pool_head := None\<rparr>)" "\<forall>a. buffers h1 (Own a) = buffers h (Own a)"
    using pool_flush_ok [OF assms(1,2)] by blast
  let ?P = "P\<lparr>pool_head := None\<rparr>"
  have P: "pools h1 p = Some ?P" using h1(4) by simp
  obtain es where es: "chain (entries h1) (pool_head ?P) es" "set es = pool_entries (entries h1) p - ran (loan u h1)"
    "pool_refcount ?P = of_bool (p \<in> H) + card (pool_entries (entries h1) p \<inter> ran (loan u h1))"
    by (rule pool_okD [OF objects_okD(7) [OF h1(2) P]])
  then have "es = []" by (cases es) auto
  moreover have "finite (pool_entries (entries h1) p \<inter> ran (loan u h1))"
    using finite_entries [OF objects_okD(1) [OF h1(2)]] by blast
  ultimately have "pool_entries (entries h1) p = {}" "p \<notin> H" using es(2,3) assms(3) by (auto split: if_splits)
  then have ok: "objects_ok H U u (h1\<lparr>pools := (pools h1)(p := None)\<rparr>)" by (rule objects_pool_gone [OF h1(2)])
  let ?h = "h1\<lparr>pools := (pools h1)(p := None),
    events := events h1 @ (case pool_free ?P of None \<Rightarrow> [] | Some k \<Rightarrow> [Pool_Freed k (pool_opaque ?P)])\<rparr>"
  have "buffer_pool_free (call_free n) p h = Some ?h" using h1(1) P by (simp add: buffer_pool_free_def)
  moreover have "objects_ok H U u ?h" using ok by simp
  moreover have "keeps u U h ?h" using h1(3) by (simp add: keeps_def)
  moreover have "pools ?h = (pools h)(p := None)" using h1(4) by simp
  moreover have "\<forall>a. buffers ?h (Own a) = buffers h (Own a)" using h1(5) by simp
  ultimately show ?thesis by blast
qed

lemma minus_one_mod: "0 < (n :: nat) \<Longrightarrow> n < 2 ^ 32 \<Longrightarrow> (n + (2 ^ 32 - 1)) mod 2 ^ 32 = n - 1"
proof -
  assume n: "0 < n" "n < 2 ^ 32"
  then have "n + (2 ^ 32 - 1) = (n - 1) + 2 ^ 32" by simp
  then have "(n + (2 ^ 32 - 1)) mod 2 ^ 32 = (n - 1) mod 2 ^ 32" by (simp only: mod_add_self2)
  with n show ?thesis by simp
qed

text \<open>The pools of \<open>h\<close> that are left are as alive as before.\<close>

definition live_pools :: "heap \<Rightarrow> bool" where
  "live_pools h \<longleftrightarrow> (\<forall>p P. pools h p = Some P \<longrightarrow> pool_refcount P > 0)"

lemma pool_release_ok:
  assumes "objects_ok H U u h" "u b = 1" "buffers h b = Some B" "buf_free B = Pool_Release"
  shows "\<exists>h'. pool_release_buffer (call_free n) (buf_opaque B) (h\<lparr>buffers := (buffers h)(b \<mapsto> B\<lparr>refcount := 0\<rparr>)\<rparr>) = Some h' \<and>
    objects_ok H U (u(b := 0)) h' \<and> keeps (u(b := 0)) U h h' \<and>
    (\<forall>a. buffers h' (Own a) = (if b = Own a then Some (B\<lparr>refcount := 0\<rparr>) else buffers h (Own a))) \<and>
    (live_pools h \<longrightarrow> live_pools h')"
proof -
  let ?u = "u(b := 0)"
  have pos: "u b > 0" using assms(2) by simp
  obtain e E where e: "buf_opaque B = Entry e" "entries h e = Some E"
    using objects_okD(3) [OF assms(1) pos] assms(3,4) by (auto simp: buffer_ok_def)
  obtain P where P: "pools h (ent_pool E) = Some P" using objects_okD(4) [OF assms(1) e(2)] by (auto simp: entry_ok_def)
  let ?p = "ent_pool E" and ?P = "P\<lparr>pool_head := Some e, pool_refcount := pool_refcount P - 1\<rparr>"
  let ?h1 = "h\<lparr>buffers := (buffers h)(b \<mapsto> B\<lparr>refcount := 0\<rparr>), entries := (entries h)(e \<mapsto> E\<lparr>ent_next := pool_head P\<rparr>),
     pools := (pools h)(?p \<mapsto> ?P)\<rparr>"
  note ret = objects_return [OF assms e P]
  have bound: "pool_refcount P < 2 ^ 32" using pool_okD [OF objects_okD(7) [OF assms(1) P]] by blast
  have keep: "keeps ?u U h ?h1" unfolding keeps_def by auto
  have own: "\<forall>a. buffers ?h1 (Own a) = (if b = Own a then Some (B\<lparr>refcount := 0\<rparr>) else buffers h (Own a))" by auto
  have dec: "(pool_refcount P + (2 ^ 32 - 1)) mod 2 ^ 32 = pool_refcount P - 1" by (rule minus_one_mod [OF ret(2) bound])
  have run: "pool_release_buffer (call_free n) (buf_opaque B) (h\<lparr>buffers := (buffers h)(b \<mapsto> B\<lparr>refcount := 0\<rparr>)\<rparr>) =
    (if pool_refcount P = 1 then buffer_pool_free (call_free n) ?p ?h1 else Some ?h1)"
    using e P dec by (simp add: pool_release_buffer_def pool_count_down_def)
  show ?thesis
  proof (cases "pool_refcount P = 1")
    case True
    have "pools ?h1 ?p = Some ?P" "pool_refcount ?P = 0" using True by simp_all
    from buffer_pool_free_ok [OF ret(1) this, of n] obtain h' where
      h': "buffer_pool_free (call_free n) ?p ?h1 = Some h'" "objects_ok H U ?u h'" "keeps ?u U ?h1 h'"
        "pools h' = (pools ?h1)(?p := None)" "\<forall>a. buffers h' (Own a) = buffers ?h1 (Own a)" by blast
    have "live_pools h'" if "live_pools h" using that h'(4) by (auto simp: live_pools_def split: if_splits)
    then show ?thesis using h' run True own keeps_trans [OF keep h'(3)] by auto
  next
    case False
    have "live_pools ?h1" if "live_pools h" using that False ret(2) by (auto simp: live_pools_def)
    then show ?thesis using run False ret(1) keep own by auto
  qed
qed

lemma objects_remove_unused:
  assumes "objects_ok H U u h" "u (Own a) = 0"
  shows "objects_ok H U u (h\<lparr>buffers := (buffers h)(Own a := None)\<rparr>)"
proof -
  let ?h = "h\<lparr>buffers := (buffers h)(Own a := None)\<rparr>"
  have claim: "claim u ?h = claim u h"
  proof
    fix c show "claim u ?h c = claim u h c" using assms(2) by (cases c) (auto split: option.splits)
  qed
  have loan: "loan u ?h = loan u h" using assms(2) by (auto simp: loan_def fun_eq_iff split: option.splits)
  have b1: "bounded ?h" using objects_okD(1) [OF assms(1)] by (auto simp: bounded_def)
  have m1: "memory_ok U u ?h" using objects_okD(2) [OF assms(1)] unfolding memory_ok_def claim by simp
  have u1: "\<exists>B'. buffers ?h b' = Some B' \<and> buffer_ok u ?h b' B'" if "u b' > 0" for b'
    using objects_okD(3) [OF assms(1) that] that assms(2) by (cases "b' = Own a") (simp_all add: buffer_ok_cong [of ?h h])
  have e1: "entry_ok ?h E" if "entries ?h e' = Some E" for e' E
    using that objects_okD(4) [OF assms(1), of e' E] by (simp add: entry_ok_def)
  show ?thesis by (rule objects_okI [OF b1 m1 u1 e1]) (unfold loan, use objects_okD(5-7) [OF assms(1)] in simp_all)
qed

lemma tidyD: "tidy u h \<Longrightarrow> buffers h (Own a) \<noteq> None \<Longrightarrow> u (Own a) > 0" "tidy u h \<Longrightarrow> live_pools h"
  by (simp_all add: tidy_def live_pools_def)

lemma count_down_ok:
  assumes "objects_ok H U u h" "u b > 0" "nesting A > 0"
  shows "\<exists>h'. count_down A b h = Some h' \<and> objects_ok H U (u(b := u b - 1)) h' \<and> keeps (u(b := u b - 1)) U h h' \<and>
    (tidy u h \<longrightarrow> tidy (u(b := u b - 1)) h')"
proof -
  obtain n where n: "nesting A = Suc n" using assms(3) by (cases "nesting A") auto
  obtain B where B: "buffers h b = Some B" "buffer_ok u h b B" using objects_okD(3) [OF assms(1,2)] by blast
  then have count: "refcount B = u b" "u b < 2 ^ 32" by (simp_all add: buffer_ok_def)
  have dec: "(refcount B + (2 ^ 32 - 1)) mod 2 ^ 32 = u b - 1" using minus_one_mod [of "u b"] assms(2) count by simp
  let ?B = "B\<lparr>refcount := u b - 1\<rparr>"
  let ?h = "h\<lparr>buffers := (buffers h)(b \<mapsto> ?B)\<rparr>"
  show ?thesis
  proof (cases "u b = 1")
    case False
    have run: "count_down A b h = Some ?h" using B(1) dec False count(1) by (simp add: count_down_def)
    have "objects_ok H U (u(b := u b - 1)) ?h"
      using assms(2) False count(2) B(1) by (intro objects_update [OF assms(1,2)]) auto
    moreover have "keeps (u(b := u b - 1)) U h ?h" unfolding keeps_def using B(1) by auto
    moreover have "tidy (u(b := u b - 1)) ?h" if "tidy u h" using that assms(2) False B(1) by (auto simp: tidy_def)
    ultimately show ?thesis using run by blast
  next
    case True
    show ?thesis
    proof (cases "buf_free B = Pool_Release")
      case pool: True
      obtain h1 where h1: "pool_release_buffer (call_free n) (buf_opaque B) (h\<lparr>buffers := (buffers h)(b \<mapsto> B\<lparr>refcount := 0\<rparr>)\<rparr>) = Some h1"
        "objects_ok H U (u(b := 0)) h1" "keeps (u(b := 0)) U h h1"
        "\<forall>a. buffers h1 (Own a) = (if b = Own a then Some (B\<lparr>refcount := 0\<rparr>) else buffers h (Own a))"
        "live_pools h \<longrightarrow> live_pools h1" using pool_release_ok [OF assms(1) True B(1) pool, of n] by blast
      show ?thesis
      proof (cases b)
        case (Own a)
        then have "\<not> has_flag (flags_internal B) BUFFER_FLAG_NO_FREE" using B(2) by (simp add: buffer_ok_def)
        then have run: "count_down A b h = Some (h1\<lparr>buffers := (buffers h1)(Own a := None)\<rparr>)"
          using B(1) dec True count(1) n pool h1(1,4) Own by (simp add: count_down_def free_buffer_def)
        have "objects_ok H U (u(b := 0)) (h1\<lparr>buffers := (buffers h1)(Own a := None)\<rparr>)"
          using objects_remove_unused [OF h1(2), of a] Own by simp
        moreover have "keeps (u(b := 0)) U h (h1\<lparr>buffers := (buffers h1)(Own a := None)\<rparr>)"
          using h1(3) Own by (auto simp: keeps_def)
        moreover have "tidy (u(b := 0)) (h1\<lparr>buffers := (buffers h1)(Own a := None)\<rparr>)" if "tidy u h"
          using tidyD [OF that] h1(4,5) Own unfolding tidy_def live_pools_def by (auto split: if_splits)
        ultimately show ?thesis using run True by auto
      next
        case (Embedded e)
        then have "has_flag (flags_internal B) BUFFER_FLAG_NO_FREE" using B(2) by (simp add: buffer_ok_def)
        then have run: "count_down A b h = Some h1"
          using B(1) dec True count(1) n pool h1(1) by (simp add: count_down_def)
        moreover have "tidy (u(b := 0)) h1" if "tidy u h"
          using tidyD [OF that] h1(4,5) Embedded unfolding tidy_def live_pools_def by (auto split: if_splits)
        ultimately show ?thesis using h1(2,3) True by auto
      qed
    next
      case plain: False
      then obtain a where a: "b = Own a" using B(2) by (auto simp: buffer_ok_def split: free_fn.splits)
      let ?x = "block_of (buf_data B)"
      let ?h1 = "h\<lparr>buffers := (buffers h)(Own a := None)\<rparr>"
      have ok1: "objects_ok H (insert ?x U) (u(b := 0)) ?h1"
        using objects_drop [OF assms(1), of a B] assms(2) B(1) plain a by simp
      have c: "claim u h (owner u h b) = Some ?x" by (rule owner_claims [OF assms(1,2) B(1)])
      have mm: "ran (claim u h) \<union> U = dom (blocks h)" "ran (claim u h) \<inter> U = {}"
        by (rule memory_okD [OF objects_okD(2) [OF assms(1)]])+
      have x: "?x \<notin> U" "blocks h ?x \<noteq> None" using mm ranI [of "claim u h", OF c] by blast+
      have ok2: "objects_ok H U (u(b := 0)) (?h1\<lparr>blocks := (blocks h)(?x := None)\<rparr>)"
        using objects_free [OF ok1, of ?x] x(1) by simp
      have "buf_data ?B \<noteq> None" "buf_free ?B = Default_Free \<longrightarrow> snd (the (buf_data B)) = 0" using B(2) by (auto simp: buffer_ok_def)
      with x(2) plain obtain ev where ev: "call_free (nesting A) (buf_free B) (buf_opaque B) (buf_data B) ?h =
          Some (?h\<lparr>blocks := (blocks h)(?x := None), events := ev\<rparr>)"
        using call_free_plain [of "buf_free B" "buf_data B" ?h "nesting A" "buf_opaque B"] by auto
      let ?h2 = "h\<lparr>buffers := (buffers h)(Own a := None), blocks := (blocks h)(?x := None), events := ev\<rparr>"
      have "\<not> has_flag (flags_internal B) BUFFER_FLAG_NO_FREE" using B(2) a by (simp add: buffer_ok_def)
      then have "count_down A b h = Some (?h\<lparr>blocks := (blocks h)(?x := None), events := ev, buffers := (buffers h)(Own a := None)\<rparr>)"
        using B(1) dec True count(1) ev a by (simp add: count_down_def free_buffer_def)
      moreover have "?h\<lparr>blocks := (blocks h)(?x := None), events := ev, buffers := (buffers h)(Own a := None)\<rparr> = ?h2"
        by (rule heap.equality) simp_all
      ultimately have run: "count_down A b h = Some ?h2" by simp
      have ok: "objects_ok H U (u(b := 0)) ?h2" using ok2 by simp
      have "keeps (u(b := 0)) U h ?h2"
        unfolding keeps_def
      proof (intro conjI allI impI ballI)
        fix b' B' assume b': "(u(b := 0)) b' > 0" "buffers h b' = Some B'"
        then have ne: "b' \<noteq> b" "u b' > 0" by (auto split: if_splits)
        then have "block_of (buf_data B') \<noteq> ?x" using distinct_blocks [OF assms(1) ne(2) assms(2) b'(2) B(1)] by blast
        then show "blocks ?h2 (block_of (buf_data B')) = blocks h (block_of (buf_data B'))" by simp
        show "\<exists>B2. buffers ?h2 b' = Some B2 \<and> buf_data B2 = buf_data B' \<and> buf_flags B2 = buf_flags B' \<and> flags_internal B2 = flags_internal B'" using b'(2) ne(1) a by simp
      next
        fix a' assume "a' \<in> U"
        then show "blocks ?h2 a' = blocks h a'" using x(1) by auto
      qed simp_all
      moreover have "tidy (u(b := 0)) ?h2" if "tidy u h" using that a by (auto simp: tidy_def)
      ultimately show ?thesis using run ok True by auto
    qed
  qed
qed

section \<open>References\<close>

lemma heap_okD:
  assumes "heap_ok H U k h"
  shows "objects_ok H U (uses (refs h) k) h" "refs_ok h"
  using assms by (simp_all add: heap_ok_def)

lemma uses_minus: "k b > 0 \<Longrightarrow> (uses rs k)(b := uses rs k b - 1) = uses rs (k(b := k b - 1))"
  by (auto simp: uses_def)

text \<open>\<open>neat\<close> is \<open>tidy\<close> for what the heap and the running function use.\<close>

definition neat :: "(buffer_ptr \<Rightarrow> nat) \<Rightarrow> heap \<Rightarrow> bool" where
  "neat k h \<longleftrightarrow> tidy (uses (refs h) k) h"

lemma count_down_heap:
  assumes "heap_ok H U k h" "k b > 0" "nesting A > 0"
  shows "\<exists>h'. count_down A b h = Some h' \<and> heap_ok H U (k(b := k b - 1)) h' \<and> refs h' = refs h \<and> view h' = view h \<and>
    (neat k h \<longrightarrow> neat (k(b := k b - 1)) h') \<and> (\<forall>a\<in>U. blocks h' a = blocks h a)"
proof -
  have "uses (refs h) k b > 0" using assms(2) by (simp add: uses_def)
  from count_down_ok [OF heap_okD(1) [OF assms(1)] this assms(3)] obtain h' where
    h': "count_down A b h = Some h'" "objects_ok H U (uses (refs h) (k(b := k b - 1))) h'"
      "keeps (uses (refs h) (k(b := k b - 1))) U h h'" "tidy (uses (refs h) k) h \<longrightarrow> tidy (uses (refs h) (k(b := k b - 1))) h'"
    unfolding uses_minus [where k = k and rs = "refs h", OF assms(2)] by blast
  have rs: "refs h' = refs h" "\<forall>a\<in>U. blocks h' a = blocks h a" using h'(3) by (simp_all add: keeps_def)
  note r = keeps_refs [OF heap_okD(2) [OF assms(1)] h'(3)]
  show ?thesis using h' r rs by (simp add: heap_ok_def neat_def)
qed

text \<open>A reference leaves the heap, and is in the hands of the function that takes it.\<close>

lemma refs_ok_remove: "refs_ok h \<Longrightarrow> refs_ok (h\<lparr>refs := (refs h)(r := None)\<rparr>)"
  by (simp add: refs_ok_def)

lemma free_ref_heap:
  assumes "heap_ok H U k h" "refs h r = Some R"
  defines "h' \<equiv> h\<lparr>refs := (refs h)(r := None)\<rparr>" and "k' \<equiv> k(ref_buffer R := k (ref_buffer R) + 1)"
  shows "free_ref r h = Some h'" "heap_ok H U k' h'" "view h' = (view h)(r := None)" "neat k h \<longrightarrow> neat k' h'"
proof -
  have u: "uses (refs h') k' = uses (refs h) k"
    unfolding h'_def k'_def using uses_remove [OF assms(2) finite_holders [OF heap_okD(2) [OF assms(1)]]] by simp
  show "free_ref r h = Some h'" using assms(2) by (simp add: free_ref_def h'_def)
  show "heap_ok H U k' h'"
    using heap_okD [OF assms(1)] refs_ok_remove unfolding heap_ok_def u by (simp add: h'_def)
  show "view h' = (view h)(r := None)" by (auto simp: view_def h'_def fun_eq_iff split: option.split)
  show "neat k h \<longrightarrow> neat k' h'" unfolding neat_def u by (simp add: h'_def tidy_def)
qed

lemma unref_ok:
  assumes "heap_ok H U k h" "refs h r = Some R" "nesting A > 0"
  shows "\<exists>h'. buffer_replace A r None h = Some h' \<and> heap_ok H U k h' \<and> refs h' = (refs h)(r := None) \<and>
    view h' = (view h)(r := None) \<and> (neat k h \<longrightarrow> neat k h') \<and> (\<forall>a\<in>U. blocks h' a = blocks h a)"
proof -
  let ?b = "ref_buffer R"
  let ?h = "h\<lparr>refs := (refs h)(r := None)\<rparr>" and ?k = "k(?b := k ?b + 1)"
  note f = free_ref_heap [OF assms(1,2)]
  have "?k ?b > 0" "?k(?b := ?k ?b - 1) = k" by simp_all
  with count_down_heap [OF f(2) _ assms(3), of ?b] obtain h' where
    h': "count_down A ?b ?h = Some h'" "heap_ok H U k h'" "refs h' = refs ?h" "view h' = view ?h"
      "neat ?k ?h \<longrightarrow> neat k h'" "\<forall>a\<in>U. blocks h' a = blocks ?h a" by auto
  have "buffer_replace A r None h = Some h'" using f(1) h'(1) assms(2) by (simp add: buffer_replace_def)
  with h' f(3,4) show ?thesis by auto
qed

lemma finite_holders_remove: "finite (holders rs b) \<Longrightarrow> finite (holders (rs(r := None)) b)"
  by (simp add: holders_remove)

text \<open>One reference takes the place of another.\<close>

lemma replace_ok:
  assumes "heap_ok H U k h" "refs h d = Some D" "refs h s = Some S" "d \<noteq> s" "nesting A > 0"
  shows "\<exists>h'. buffer_replace A d (Some s) h = Some h' \<and> heap_ok H U k h' \<and> refs h' = (refs h)(d \<mapsto> S, s := None) \<and>
    view h' = (view h)(d := view h s, s := None) \<and> (neat k h \<longrightarrow> neat k h') \<and> (\<forall>a\<in>U. blocks h' a = blocks h a)"
proof -
  let ?b = "ref_buffer D" and ?c = "ref_buffer S"
  let ?rs = "(refs h)(d \<mapsto> S, s := None)" and ?k = "k(?b := k ?b + 1)"
  let ?h = "h\<lparr>refs := ?rs\<rparr>"
  note ok = heap_okD [OF assms(1)]
  have fin: "finite (holders (refs h) b)" for b by (rule finite_holders [OF ok(2)])
  let ?rs1 = "(refs h)(d := None)"
  let ?k2 = "?k(?c := ?k ?c + 1)"
  have 1: "uses ?rs1 ?k = uses (refs h) k" by (rule uses_remove [OF assms(2) fin])
  have 2: "uses (?rs1(s := None)) ?k2 = uses ?rs1 ?k"
    using assms(3,4) fin by (intro uses_remove) (simp_all add: finite_holders_remove)
  have "uses ((?rs1(s := None))(d \<mapsto> S)) (?k2(?c := ?k2 ?c - 1)) = uses (?rs1(s := None)) ?k2"
    using assms(4) fin by (intro uses_add) (simp_all add: finite_holders_remove)
  moreover have "(?rs1(s := None))(d \<mapsto> S) = ?rs" using assms(4) by (auto simp: fun_eq_iff)
  moreover have "?k2(?c := ?k2 ?c - 1) = ?k" by (auto simp: fun_eq_iff)
  ultimately have u: "uses ?rs ?k = uses (refs h) k" using 1 2 by simp
  have r: "refs_ok ?h" using ok(2) assms(2,3) by (auto simp: refs_ok_def)
  have hk: "heap_ok H U ?k ?h" using ok(1) r u by (simp add: heap_ok_def)
  have "?k ?b > 0" "?k(?b := ?k ?b - 1) = k" by simp_all
  with count_down_heap [OF hk _ assms(5), of ?b] obtain h' where
    h': "count_down A ?b ?h = Some h'" "heap_ok H U k h'" "refs h' = refs ?h" "view h' = view ?h"
      "neat ?k ?h \<longrightarrow> neat k h'" "\<forall>a\<in>U. blocks h' a = blocks ?h a" by auto
  have "view ?h = (view h)(d := view h s, s := None)"
    using assms(3) by (auto simp: view_def fun_eq_iff split: option.split)
  moreover have "neat ?k ?h" if "neat k h" using that u by (simp add: neat_def tidy_def)
  moreover have "buffer_replace A d (Some s) h = Some h'"
    using h'(1) assms(2-4) by (simp add: buffer_replace_def free_ref_def)
  ultimately show ?thesis using h' by auto
qed

text \<open>The reference takes its place in the heap.\<close>

lemma add_ref_heap:
  assumes "objects_ok H U u h" "refs_ok h" "refs h r = None" "r < fresh h" "u = uses (refs h) (k(ref_buffer R := k (ref_buffer R) + 1))"
    and "mem_read (ref_data R) (ref_size R) h = Some xs" "buffers h (ref_buffer R) = Some B" "block_of (ref_data R) = block_of (buf_data B)"
  shows "heap_ok H U k (h\<lparr>refs := (refs h)(r \<mapsto> R)\<rparr>)" "view (h\<lparr>refs := (refs h)(r \<mapsto> R)\<rparr>) = (view h)(r \<mapsto> xs)"
    "uses ((refs h)(r \<mapsto> R)) k = u"
proof -
  let ?b = "ref_buffer R" and ?k = "k(ref_buffer R := k (ref_buffer R) + 1)"
  have "uses ((refs h)(r \<mapsto> R)) (?k(?b := ?k ?b - 1)) = uses (refs h) ?k"
    by (rule uses_add [OF assms(3) finite_holders [OF assms(2)]]) simp
  then show u: "uses ((refs h)(r \<mapsto> R)) k = u" using assms(5) by simp
  have "refs_ok (h\<lparr>refs := (refs h)(r \<mapsto> R)\<rparr>)" using assms(2,4,6-8) by (auto simp: refs_ok_def)
  then show "heap_ok H U k (h\<lparr>refs := (refs h)(r \<mapsto> R)\<rparr>)" using assms(1) u by (simp add: heap_ok_def)
  show "view (h\<lparr>refs := (refs h)(r \<mapsto> R)\<rparr>) = (view h)(r \<mapsto> xs)"
    using assms(6) by (auto simp: view_def fun_eq_iff split: option.split)
qed

section \<open>New buffers\<close>

lemma new_address_cases:
  obtains "new_address A h = (None, h\<lparr>fresh := fresh h + 1\<rparr>)" | "new_address A h = (Some (fresh h), h\<lparr>fresh := fresh h + 1\<rparr>)"
  by (cases "oom A (fresh h)") (auto simp: new_address_def)

text \<open>
  What it means that a function returns a new reference of \<open>n\<close> bytes: a new block, a new buffer that
  owns it, and the first reference to it. \<open>plain\<close> buffers cannot be reallocated.
\<close>

definition new_buffer :: "nat \<Rightarrow> data_ptr \<Rightarrow> free_fn \<Rightarrow> opaque \<Rightarrow> int \<Rightarrow> int \<Rightarrow> AVBuffer" where
  "new_buffer n d f op fl fi = \<lparr>buf_data = d, buf_size = n, refcount = 1, buf_free = f, buf_opaque = op, buf_flags = fl, flags_internal = fi\<rparr>"

definition created :: "nat \<Rightarrow> data_ptr \<Rightarrow> AVBuffer \<Rightarrow> heap \<Rightarrow> nat option \<Rightarrow> heap \<Rightarrow> bool" where
  "created n d B h res h' \<longleftrightarrow>
     (case res of
        None \<Rightarrow> \<exists>m\<ge>fresh h. h' = h\<lparr>fresh := m\<rparr>
      | Some r \<Rightarrow> \<exists>m b. fresh h \<le> b \<and> b < r \<and> r < m \<and>
          h' = h\<lparr>fresh := m, buffers := (buffers h)(Own b \<mapsto> B), refs := (refs h)(r \<mapsto> \<lparr>ref_buffer = Own b, ref_data = d, ref_size = n\<rparr>)\<rparr>)"

lemma created_None: "fresh h \<le> m \<Longrightarrow> created n d B h None (h\<lparr>fresh := m\<rparr>)"
  unfolding created_def option.case by (intro exI [of _ m]) simp

lemma av_buffer_create_ok:
  assumes "bounded h"
  shows "\<exists>res h'. av_buffer_create A d n f op fl h = Some (res, h') \<and>
    created n d (new_buffer n d (case f of None \<Rightarrow> Default_Free | Some f \<Rightarrow> f) op fl 0) h res h'"
proof -
  have none: "buffers h (Own (fresh h)) = None" using assms by (auto simp: bounded_def)
  show ?thesis
  proof (cases rule: new_address_cases [of A h])
    case 1
    then show ?thesis
      by (intro exI [of _ None] exI [of _ "h\<lparr>fresh := fresh h + 1\<rparr>"]) (simp add: av_buffer_create_def created_None)
  next
    case 2
    let ?B = "new_buffer n d (case f of None \<Rightarrow> Default_Free | Some f \<Rightarrow> f) op fl 0"
    let ?h = "h\<lparr>fresh := fresh h + 1, buffers := (buffers h)(Own (fresh h) \<mapsto> ?B)\<rparr>"
    let ?R = "\<lparr>ref_buffer = Own (fresh h), ref_data = d, ref_size = n\<rparr>"
    show ?thesis
    proof (cases rule: new_address_cases [of A ?h])
      case 1
      have "av_buffer_create A d n f op fl h = Some (None, h\<lparr>fresh := fresh h + 2\<rparr>)"
        using 1 2 none by (simp add: av_buffer_create_def buffer_create_def zero_buffer_def new_buffer_def fun_upd_idem)
      then show ?thesis by (intro exI [of _ None] exI [of _ "h\<lparr>fresh := fresh h + 2\<rparr>"]) (simp add: created_None)
    next
      case 3: 2
      let ?h' = "h\<lparr>fresh := fresh h + 2, buffers := (buffers h)(Own (fresh h) \<mapsto> ?B), refs := (refs h)(fresh h + 1 \<mapsto> ?R)\<rparr>"
      have "av_buffer_create A d n f op fl h = Some (Some (fresh h + 1), ?h')"
        using 3 2 none by (simp add: av_buffer_create_def buffer_create_def zero_buffer_def new_buffer_def)
      moreover have "created n d ?B h (Some (fresh h + 1)) ?h'" unfolding created_def
        by (simp, rule exI [of _ "fresh h + 2"], rule exI [of _ "fresh h"], simp)
      ultimately show ?thesis by blast
    qed
  qed
qed

lemma heap_step:
  assumes "heap_ok H U k h" "objects_ok H' U' (uses (refs h) k) h'" "keeps (uses (refs h) k) V h h'"
  shows "heap_ok H' U' k h'" "view h' = view h"
proof -
  have rs: "refs h' = refs h" using assms(3) by (simp add: keeps_def)
  note r = keeps_refs [OF heap_okD(2) [OF assms(1)] assms(3)]
  show "heap_ok H' U' k h'" using assms(2) r(1) rs by (simp add: heap_ok_def)
  show "view h' = view h" by (rule r(2))
qed

lemma heap_fresh:
  assumes "heap_ok H U k h" "fresh h \<le> m"
  shows "heap_ok H U k (h\<lparr>fresh := m\<rparr>)" "view (h\<lparr>fresh := m\<rparr>) = view h" "neat k h \<longrightarrow> neat k (h\<lparr>fresh := m\<rparr>)"
proof -
  have k: "keeps (uses (refs h) k) {} h (h\<lparr>fresh := m\<rparr>)" using assms(2) by (simp add: keeps_def)
  show "heap_ok H U k (h\<lparr>fresh := m\<rparr>)" "view (h\<lparr>fresh := m\<rparr>) = view h"
    by (rule heap_step [OF assms(1) objects_fresh [OF heap_okD(1) [OF assms(1)] assms(2)] k])+
qed (simp add: neat_def tidy_def)

lemma claimed_block:
  assumes "objects_ok H U u h" "u b > 0" "buffers h b = Some B"
  shows "blocks h (block_of (buf_data B)) \<noteq> None"
  using memory_okD(2) [OF objects_okD(2) [OF assms(1)]] ranI [of "claim u h", OF owner_claims [OF assms]] by blast

lemma heap_malloc:
  fixes xs :: "byte list"
  assumes "heap_ok H U k h" "fresh h \<le> a" "a < m"
  defines "h' \<equiv> h\<lparr>fresh := m, blocks := (blocks h)(a \<mapsto> xs)\<rparr>"
  shows "heap_ok H (insert a U) k h'" "view h' = view h" "neat k h \<longrightarrow> neat k h'"
proof -
  note ok = heap_okD(1) [OF assms(1)]
  have none: "blocks h a = None" using objects_okD(1) [OF ok] assms(2) by (auto simp: bounded_def)
  have "keeps (uses (refs h) k) {} h h'"
    unfolding keeps_def
  proof (intro conjI allI impI ballI)
    fix b B assume b: "uses (refs h) k b > 0" "buffers h b = Some B"
    then have "block_of (buf_data B) \<noteq> a" using claimed_block [OF ok b] none by auto
    then show "blocks h' (block_of (buf_data B)) = blocks h (block_of (buf_data B))" by (simp add: h'_def)
    show "\<exists>B'. buffers h' b = Some B' \<and> buf_data B' = buf_data B \<and> buf_flags B' = buf_flags B \<and> flags_internal B' = flags_internal B" using b by (simp add: h'_def)
  qed (use assms(2,3) in \<open>simp_all add: h'_def\<close>)
  moreover have "objects_ok H (insert a U) (uses (refs h) k) h'" unfolding h'_def by (rule objects_malloc [OF ok assms(2,3)])
  ultimately show "heap_ok H (insert a U) k h'" "view h' = view h" by (blast intro: heap_step [OF assms(1)])+
qed (simp add: neat_def tidy_def h'_def)

definition same_but_new :: "nat \<Rightarrow> heap \<Rightarrow> nat \<Rightarrow> heap \<Rightarrow> bool" where
  "same_but_new n h r h' \<longleftrightarrow> refs h r = None \<and> pools h' = pools h \<and> entries h' = entries h \<and> fresh h \<le> fresh h' \<and>
     (\<forall>a. blocks h a \<noteq> None \<longrightarrow> blocks h' a = blocks h a) \<and>
     (\<forall>b. buffers h b \<noteq> None \<longrightarrow> buffers h' b = buffers h b) \<and>
     (\<exists>b R. refs h' = (refs h)(r \<mapsto> R) \<and> ref_buffer R = Own b \<and> ref_size R = n \<and> buffers h (Own b) = None)"

lemma refs_okD:
  assumes "refs_ok h" "refs h r = Some R"
  shows "r < fresh h" "\<exists>xs. mem_read (ref_data R) (ref_size R) h = Some xs"
    "\<exists>B. buffers h (ref_buffer R) = Some B \<and> block_of (ref_data R) = block_of (buf_data B)"
proof -
  have "r < fresh h \<and> mem_read (ref_data R) (ref_size R) h \<noteq> None \<and>
      (\<exists>B. buffers h (ref_buffer R) = Some B \<and> block_of (ref_data R) = block_of (buf_data B))"
    using assms unfolding refs_ok_def by blast
  then show "r < fresh h" "\<exists>xs. mem_read (ref_data R) (ref_size R) h = Some xs"
    "\<exists>B. buffers h (ref_buffer R) = Some B \<and> block_of (ref_data R) = block_of (buf_data B)" by auto
qed

lemma refs_fresh: "refs_ok h \<Longrightarrow> fresh h \<le> r \<Longrightarrow> refs h r = None"
  using refs_okD(1) [of h r] by (cases "refs h r") auto

lemma create_heap:
  fixes op :: opaque and fl :: int
  assumes "heap_ok H U k h" "a \<in> U" "fresh h \<le> b" "b < m" "fresh h \<le> r" "r < m" "mem_read (Some (a, i)) n h = Some xs"
    and "f \<noteq> Pool_Release" "f = Default_Free \<Longrightarrow> i = 0" "\<not> has_flag fi BUFFER_FLAG_NO_FREE"
    and "f \<noteq> Default_Free \<Longrightarrow> \<not> has_flag fi BUFFER_FLAG_REALLOCATABLE"
  defines "h' \<equiv> h\<lparr>fresh := m, buffers := (buffers h)(Own b \<mapsto> new_buffer n (Some (a, i)) f op fl fi),
    refs := (refs h)(r \<mapsto> \<lparr>ref_buffer = Own b, ref_data = Some (a, i), ref_size = n\<rparr>)\<rparr>"
  shows "heap_ok H (U - {a}) k h'" "view h' = (view h)(r \<mapsto> xs)" "neat k h \<longrightarrow> neat k h'" "same_but_new n h r h'"
proof -
  let ?B = "new_buffer n (Some (a, i)) f op fl fi" and ?R = "\<lparr>ref_buffer = Own b, ref_data = Some (a, i), ref_size = n\<rparr>"
  let ?u = "uses (refs h) k"
  let ?h1 = "h\<lparr>fresh := m, buffers := (buffers h)(Own b \<mapsto> ?B)\<rparr>"
  note ok = heap_okD [OF assms(1)]
  have none: "buffers h (Own b) = None" using objects_okD(1) [OF ok(1)] assms(3) by (auto simp: bounded_def)
  have u0: "?u (Own b) = 0" by (rule uses_exist [OF ok(1) none])
  have o1: "objects_ok H (U - {a}) (?u(Own b := 1)) ?h1"
    by (rule objects_create [OF ok(1) assms(2-4), where i = i]) (use assms(8-11) in \<open>auto simp: new_buffer_def\<close>)
  have u1: "?u(Own b := 1) = uses (refs h) (k(Own b := k (Own b) + 1))" using u0 by (auto simp: uses_def)
  have keep: "keeps ?u {} h ?h1" unfolding keeps_def using assms(3,4) none by auto
  note r = keeps_refs [OF ok(2) keep]
  have rnone: "refs h r = None" using ok(2) assms(5) by (rule refs_fresh)
  have add: "heap_ok H (U - {a}) k (?h1\<lparr>refs := (refs ?h1)(r \<mapsto> ?R)\<rparr>) \<and>
      view (?h1\<lparr>refs := (refs ?h1)(r \<mapsto> ?R)\<rparr>) = (view ?h1)(r \<mapsto> xs) \<and> uses ((refs ?h1)(r \<mapsto> ?R)) k = ?u(Own b := 1)"
    by (intro conjI; rule add_ref_heap [OF o1 r(1), where B = ?B])
      (use rnone assms(6,7) u1 in \<open>simp_all add: new_buffer_def\<close>)
  then show "heap_ok H (U - {a}) k h'" "view h' = (view h)(r \<mapsto> xs)" using r(2) by (simp_all add: h'_def)
  have "uses (refs h') k = ?u(Own b := 1)" using add by (simp add: h'_def)
  then show "neat k h \<longrightarrow> neat k h'" using none unfolding neat_def tidy_def by (auto simp: h'_def)
  have "\<exists>b' R. refs h' = (refs h)(r \<mapsto> R) \<and> ref_buffer R = Own b' \<and> ref_size R = n \<and> buffers h (Own b') = None"
    by (rule exI [of _ b], rule exI [of _ ?R]) (simp add: none h'_def)
  then show "same_but_new n h r h'" using rnone none assms(3,4) unfolding same_but_new_def by (auto simp: h'_def)
qed

text \<open>What allocating a reference to \<open>n\<close> bytes means: nothing, or a new block, its buffer and a reference.\<close>

definition allocated :: "int \<Rightarrow> nat \<Rightarrow> heap \<Rightarrow> nat option \<Rightarrow> heap \<Rightarrow> bool" where
  "allocated fi n h res h' \<longleftrightarrow>
     (case res of
        None \<Rightarrow> \<exists>m\<ge>fresh h. h' = h\<lparr>fresh := m\<rparr>
      | Some r \<Rightarrow> \<exists>m a i xs b f op fl. fresh h \<le> a \<and> a < b \<and> b < r \<and> r < m \<and>
          i + n \<le> length xs \<and> f \<noteq> Pool_Release \<and> (f = Default_Free \<longrightarrow> i = 0) \<and> (f \<noteq> Default_Free \<longrightarrow> \<not> has_flag fi BUFFER_FLAG_REALLOCATABLE) \<and>
          h' = h\<lparr>fresh := m, blocks := (blocks h)(a \<mapsto> xs), buffers := (buffers h)(Own b \<mapsto> new_buffer n (Some (a, i)) f op fl fi),
            refs := (refs h)(r \<mapsto> \<lparr>ref_buffer = Own b, ref_data = Some (a, i), ref_size = n\<rparr>)\<rparr>)"

lemma allocated_ok:
  assumes "heap_ok H U k h" "allocated fi n h (Some r) h'" "\<not> has_flag fi BUFFER_FLAG_NO_FREE"
  shows "heap_ok H U k h'" "\<exists>ys. length ys = n \<and> view h' = (view h)(r \<mapsto> ys)" "neat k h \<longrightarrow> neat k h'" "same_but_new n h r h'"
proof -
  obtain m a i xs b f op fl where p: "fresh h \<le> a" "a < b" "b < r" "r < m" "i + n \<le> length xs"
    "f \<noteq> Pool_Release" "f = Default_Free \<longrightarrow> i = 0" "f \<noteq> Default_Free \<longrightarrow> \<not> has_flag fi BUFFER_FLAG_REALLOCATABLE"
    "h' = h\<lparr>fresh := m, blocks := (blocks h)(a \<mapsto> xs), buffers := (buffers h)(Own b \<mapsto> new_buffer n (Some (a, i)) f op fl fi),
       refs := (refs h)(r \<mapsto> \<lparr>ref_buffer = Own b, ref_data = Some (a, i), ref_size = n\<rparr>)\<rparr>"
    using assms(2) unfolding allocated_def option.case by blast
  let ?h1 = "h\<lparr>fresh := b, blocks := (blocks h)(a \<mapsto> xs)\<rparr>"
  note ok = heap_okD [OF assms(1)]
  have none: "blocks h a = None" using objects_okD(1) [OF ok(1)] p(1) by (auto simp: bounded_def)
  then have "a \<notin> U" using memory_okD(2) [OF objects_okD(2) [OF ok(1)]] by blast
  then have U: "insert a U - {a} = U" by blast
  note m = heap_malloc [OF assms(1) p(1,2), of xs]
  have read: "mem_read (Some (a, i)) n ?h1 = Some (slice i n xs)" using p(5) by simp
  have bounds: "fresh ?h1 \<le> b" "b < m" "fresh ?h1 \<le> r" "r < m" using p(3,4) by simp_all
  note c = create_heap [OF m(1) insertI1 bounds read p(6) p(7) [rule_format] assms(3) p(8) [rule_format]]
  have h': "h' = ?h1\<lparr>fresh := m, buffers := (buffers ?h1)(Own b \<mapsto> new_buffer n (Some (a, i)) f op fl fi),
       refs := (refs ?h1)(r \<mapsto> \<lparr>ref_buffer = Own b, ref_data = Some (a, i), ref_size = n\<rparr>)\<rparr>"
    unfolding p(9) by simp
  show "heap_ok H U k h'" unfolding h' using c(1) [where op = op and fl = fl] unfolding U .
  show "\<exists>ys. length ys = n \<and> view h' = (view h)(r \<mapsto> ys)"
    unfolding h' using c(2) [where op = op and fl = fl] m(2) p(5) by (intro exI [of _ "slice i n xs"]) (simp add: length_slice)
  show "neat k h \<longrightarrow> neat k h'" unfolding h' using c(3) [where op = op and fl = fl] m(3) by blast
  show "same_but_new n h r h'" unfolding h' using c(4) [where op = op and fl = fl] p(1,2) none
    unfolding same_but_new_def by auto
qed

lemma av_malloc_cases:
  obtains "av_malloc A n h = (None, h\<lparr>fresh := fresh h + 1\<rparr>)"
  | "av_malloc A n h = (Some (fresh h), h\<lparr>fresh := fresh h + 1, blocks := (blocks h)(fresh h \<mapsto> map (junk A) [0..<n])\<rparr>)"
  by (cases rule: new_address_cases [of A h]) (auto simp: av_malloc_def)

text \<open>A block of \<open>av_malloc\<close> with its buffer and a reference; all three are new.\<close>

definition malloced :: "int \<Rightarrow> byte list \<Rightarrow> heap \<Rightarrow> nat \<Rightarrow> heap \<Rightarrow> bool" where
  "malloced fi xs h r h' \<longleftrightarrow> (\<exists>m b. fresh h < b \<and> b < r \<and> r < m \<and>
     h' = h\<lparr>fresh := m, blocks := (blocks h)(fresh h \<mapsto> xs),
       buffers := (buffers h)(Own b \<mapsto> new_buffer (length xs) (Some (fresh h, 0)) Default_Free No_Opaque 0 fi),
       refs := (refs h)(r \<mapsto> \<lparr>ref_buffer = Own b, ref_data = Some (fresh h, 0), ref_size = length xs\<rparr>)\<rparr>)"

lemma malloced_allocated: "malloced fi xs h r h' \<Longrightarrow> length xs = n \<Longrightarrow> allocated fi n h (Some r) h'"
  unfolding malloced_def allocated_def option.case
  by (elim exE, rule exI, rule exI [of _ "fresh h"], rule exI [of _ 0], rule exI [of _ xs], rule exI,
    rule exI [of _ Default_Free], rule exI [of _ No_Opaque], rule exI [of _ 0]) auto

text \<open>Data from \<open>av_malloc\<close> becomes a buffer, or is freed.\<close>

lemma allocate_create:
  assumes "bounded h" "length xs = n"
  shows "\<exists>res h1. av_buffer_create A (Some (fresh h, 0)) n (Some Default_Free) No_Opaque 0
      (h\<lparr>fresh := fresh h + 1, blocks := (blocks h)(fresh h \<mapsto> xs)\<rparr>) = Some (res, h1) \<and>
    (case res of
       None \<Rightarrow> \<exists>h2. mem_free (Some (fresh h, 0)) h1 = Some h2 \<and> allocated 0 n h None h2
     | Some r \<Rightarrow> malloced 0 xs h r h1)"
proof -
  let ?h = "h\<lparr>fresh := fresh h + 1, blocks := (blocks h)(fresh h \<mapsto> xs)\<rparr>" and ?d = "Some (fresh h, 0)"
  have "bounded (h\<lparr>fresh := fresh h + 1\<rparr>)" by (rule bounded_fresh [OF assms(1)]) simp
  then have "bounded ((h\<lparr>fresh := fresh h + 1\<rparr>)\<lparr>blocks := (blocks h)(fresh h \<mapsto> xs)\<rparr>)"
  proof (rule bounded_blocks)
    show "a < fresh (h\<lparr>fresh := fresh h + 1\<rparr>)" if "((blocks h)(fresh h \<mapsto> xs)) a \<noteq> None" for a
      using that assms(1) by (cases "a = fresh h") (simp_all add: bounded_def less_SucI)
  qed
  then have "bounded ?h" by simp
  from av_buffer_create_ok [OF this, of A ?d n "Some Default_Free" No_Opaque 0] obtain res h1 where
    c: "av_buffer_create A ?d n (Some Default_Free) No_Opaque 0 ?h = Some (res, h1)"
      "created n ?d (new_buffer n ?d Default_Free No_Opaque 0 0) ?h res h1" by auto
  have none: "blocks h (fresh h) = None" using assms(1) by (auto simp: bounded_def)
  have "case res of
       None \<Rightarrow> \<exists>h2. mem_free ?d h1 = Some h2 \<and> allocated 0 n h None h2
     | Some r \<Rightarrow> malloced 0 xs h r h1"
  proof (cases res)
    case None
    with c(2) obtain m where m: "fresh h + 1 \<le> m" "h1 = ?h\<lparr>fresh := m\<rparr>" by (auto simp: created_def)
    have "mem_free ?d h1 = Some (h\<lparr>fresh := m\<rparr>)"
      unfolding m(2) using none by (simp add: fun_upd_idem)
    then show ?thesis using None m(1) by (auto simp: allocated_def intro: exI [of _ m])
  next
    case (Some r)
    with c(2) obtain m b where m: "fresh h + 1 \<le> b" "b < r" "r < m"
      "h1 = ?h\<lparr>fresh := m, buffers := (buffers ?h)(Own b \<mapsto> new_buffer n ?d Default_Free No_Opaque 0 0),
        refs := (refs ?h)(r \<mapsto> \<lparr>ref_buffer = Own b, ref_data = ?d, ref_size = n\<rparr>)\<rparr>" by (auto simp: created_def)
    have "malloced 0 xs h r h1"
      unfolding malloced_def m(4) by (rule exI [of _ m], rule exI [of _ b]) (use m(1-3) assms(2) in simp)
    then show ?thesis using Some by simp
  qed
  with c(1) show ?thesis by blast
qed

end
