(* ===== verification/Buffer_Refs.thy ===== *)
theory Buffer_Refs
  imports Buffer_Ops
begin

text \<open>
  What the functions of \<open>buffer.c\<close> do to the bytes that references show: each reference behaves like
  a byte string of its own, although references to one buffer share their memory.
\<close>

section \<open>Exclusive references\<close>

definition exclusive :: "heap \<Rightarrow> nat \<Rightarrow> bool" where
  "exclusive h r \<longleftrightarrow> (\<forall>R r' R'. refs h r = Some R \<longrightarrow> refs h r' = Some R' \<longrightarrow> r' \<noteq> r \<longrightarrow> ref_buffer R' \<noteq> ref_buffer R)"

lemma heap_refs:
  assumes "heap_ok H U k h" "refs h r = Some R"
  obtains xs B a i where "mem_read (ref_data R) (ref_size R) h = Some xs" "length xs = ref_size R" "view h r = Some xs"
    "buffers h (ref_buffer R) = Some B" "block_of (ref_data R) = block_of (buf_data B)" "uses (refs h) k (ref_buffer R) > 0"
    "buffer_ok (uses (refs h) k) h (ref_buffer R) B" "ref_data R = Some (a, i)" "buf_data B \<noteq> None"
proof -
  note ok = heap_okD [OF assms(1)]
  obtain xs where xs: "mem_read (ref_data R) (ref_size R) h = Some xs" using refs_okD(2) [OF ok(2) assms(2)] by blast
  obtain B where B: "buffers h (ref_buffer R) = Some B" "block_of (ref_data R) = block_of (buf_data B)"
    using refs_okD(3) [OF ok(2) assms(2)] by blast
  have u: "uses (refs h) k (ref_buffer R) > 0" by (rule uses_positive [OF assms(2) finite_holders [OF ok(2)]])
  have b: "buffer_ok (uses (refs h) k) h (ref_buffer R) B" using objects_okD(3) [OF ok(1) u] B(1) by auto
  obtain a i where p: "ref_data R = Some (a, i)" using mem_read_Some [OF xs] by auto
  have "view h r = Some xs" using assms(2) xs by (simp add: view_def)
  moreover have "buf_data B \<noteq> None" using b by (simp add: buffer_ok_def)
  ultimately show ?thesis using that xs mem_read_length [OF xs] B u b p by blast
qed

lemma other_block:
  assumes "heap_ok H U k h" "refs h r = Some R" "refs h r' = Some R'" "ref_buffer R' \<noteq> ref_buffer R"
  shows "block_of (ref_data R') \<noteq> block_of (ref_data R)"
proof -
  obtain B where B: "buffers h (ref_buffer R) = Some B" "block_of (ref_data R) = block_of (buf_data B)"
    "uses (refs h) k (ref_buffer R) > 0" by (rule heap_refs [OF assms(1,2)])
  obtain B' where B': "buffers h (ref_buffer R') = Some B'" "block_of (ref_data R') = block_of (buf_data B')"
    "uses (refs h) k (ref_buffer R') > 0" by (rule heap_refs [OF assms(1,3)])
  show ?thesis using distinct_blocks [OF heap_okD(1) [OF assms(1)] B'(3) B(3) B'(1) B(1)] B(2) B'(2) assms(4) by auto
qed

lemma is_writable_ok:
  assumes "heap_ok H U k h" "refs h r = Some R" "buffers h (ref_buffer R) = Some B"
  shows "\<exists>w. av_buffer_is_writable r h = Some w \<and>
    (w \<longleftrightarrow> \<not> has_flag (buf_flags B) AV_BUFFER_FLAG_READONLY \<and> exclusive h r \<and> k (ref_buffer R) = 0)"
proof -
  let ?b = "ref_buffer R"
  obtain B' where B': "buffers h ?b = Some B'" "buffer_ok (uses (refs h) k) h ?b B'" by (rule heap_refs [OF assms(1,2)])
  then have c: "refcount B = card (holders (refs h) ?b) + k ?b" using assms(3) by (simp add: buffer_ok_def uses_def)
  have r: "r \<in> holders (refs h) ?b" using assms(2) by (simp add: holders_def)
  have fin: "finite (holders (refs h) ?b)" by (rule finite_holders [OF heap_okD(2) [OF assms(1)]])
  have "card (holders (refs h) ?b) = 1 \<longleftrightarrow> exclusive h r"
  proof
    assume "card (holders (refs h) ?b) = 1"
    then have "holders (refs h) ?b = {r}" using r by (auto simp: card_1_singleton_iff)
    then show "exclusive h r" using assms(2) by (auto simp: exclusive_def holders_def)
  next
    assume "exclusive h r"
    then have "holders (refs h) ?b = {r}" using assms(2) r by (auto simp: exclusive_def holders_def)
    then show "card (holders (refs h) ?b) = 1" by simp
  qed
  moreover have "card (holders (refs h) ?b) > 0" using r fin by (auto simp: card_gt_0_iff)
  ultimately have "refcount B = 1 \<longleftrightarrow> exclusive h r \<and> k ?b = 0" using c by auto
  then show ?thesis using assms(2,3) by (auto simp: av_buffer_is_writable_def)
qed

text \<open>Writing through a reference to a buffer that no other reference shows.\<close>

lemma write_heap:
  assumes "heap_ok H U k h" "refs h r = Some R" "exclusive h r" "ref_data R = Some (a, i)" "length ys \<le> ref_size R" "view h r = Some old"
  shows "\<exists>h'. mem_write (ref_data R) ys h = Some h' \<and> heap_ok H U k h' \<and> refs h' = refs h \<and>
    view h' = (view h)(r \<mapsto> ys @ drop (length ys) old) \<and> (neat k h \<longrightarrow> neat k h') \<and> buffers h' = buffers h \<and>
    (\<forall>x. x \<noteq> a \<longrightarrow> blocks h' x = blocks h x) \<and> pools h' = pools h \<and> entries h' = entries h"
proof -
  note ok = heap_okD [OF assms(1)]
  have read: "mem_read (ref_data R) (ref_size R) h = Some old" using assms(2,6) by (simp add: view_def)
  then obtain xs where xs: "blocks h a = Some xs" "i + ref_size R \<le> length xs" "old = slice i (ref_size R) xs"
    using assms(4) by (auto split: option.splits if_splits)
  let ?h = "h\<lparr>blocks := (blocks h)(a \<mapsto> splice i ys xs)\<rparr>"
  have fit: "i + length ys \<le> length xs" using xs(2) assms(5) by simp
  then have len: "length (splice i ys xs) = length xs" by (simp add: length_splice)
  have run: "mem_write (ref_data R) ys h = Some ?h" using assms(4) xs(1) fit by simp
  have o: "objects_ok H U (uses (refs h) k) ?h" by (rule objects_write [OF ok(1) xs(1) len])
  have reads: "mem_read (ref_data R') (ref_size R') ?h =
      (if r' = r then Some (ys @ drop (length ys) old) else mem_read (ref_data R') (ref_size R') h)"
    if R': "refs h r' = Some R'" for r' R'
  proof (cases "r' = r")
    case True
    then have "R' = R" using R' assms(2) by simp
    then show ?thesis using True assms(4,5) xs len fit
      by (auto simp: slice_def splice_def min_def drop_take add.commute)
  next
    case False
    then have "ref_buffer R' \<noteq> ref_buffer R" using assms(2,3) R' by (auto simp: exclusive_def)
    from other_block [OF assms(1,2) R' this] assms(4) have "block_of (ref_data R') \<noteq> a" by (simp add: block_of_def)
    then show ?thesis using False by (auto simp: block_of_def intro!: mem_read_same)
  qed
  have "refs_ok ?h"
    unfolding refs_ok_def
  proof (intro allI impI conjI)
    fix r' R' assume "refs ?h r' = Some R'"
    then have R': "refs h r' = Some R'" by simp
    show "r' < fresh ?h" using refs_okD(1) [OF ok(2) R'] by simp
    show "mem_read (ref_data R') (ref_size R') ?h \<noteq> None" using reads [OF R'] refs_okD(2) [OF ok(2) R'] by auto
    show "\<exists>B. buffers ?h (ref_buffer R') = Some B \<and> block_of (ref_data R') = block_of (buf_data B)"
      using refs_okD(3) [OF ok(2) R'] by simp
  qed
  then have "heap_ok H U k ?h" using o by (simp add: heap_ok_def)
  moreover have "view ?h = (view h)(r \<mapsto> ys @ drop (length ys) old)"
    using reads assms(2) by (auto simp: view_def fun_eq_iff split: option.split)
  ultimately show ?thesis using run by (auto simp: neat_def tidy_def)
qed

section \<open>Allocating\<close>

lemma av_buffer_alloc_shape:
  assumes "bounded h"
  shows "\<exists>res h'. av_buffer_alloc A n h = Some (res, h') \<and> allocated 0 n h res h'"
proof (cases rule: av_malloc_cases [of A n h])
  case 1
  have "allocated 0 n h None (h\<lparr>fresh := fresh h + 1\<rparr>)" unfolding allocated_def option.case by (intro exI [of _ "fresh h + 1"]) simp
  with 1 show ?thesis by (simp add: av_buffer_alloc_def)
next
  case 2
  have "length (map (junk A) [0..<n]) = n" by simp
  from allocate_create [OF assms this, of A] obtain res h1 where c:
    "av_buffer_create A (Some (fresh h, 0)) n (Some Default_Free) No_Opaque 0
      (h\<lparr>fresh := fresh h + 1, blocks := (blocks h)(fresh h \<mapsto> map (junk A) [0..<n])\<rparr>) = Some (res, h1)"
    "case res of
       None \<Rightarrow> \<exists>h2. mem_free (Some (fresh h, 0)) h1 = Some h2 \<and> allocated 0 n h None h2
     | Some r \<Rightarrow> malloced 0 (map (junk A) [0..<n]) h r h1" by blast
  show ?thesis
  proof (cases res)
    case None
    with c(2) obtain h2 where h2: "mem_free (Some (fresh h, 0)) h1 = Some h2" "allocated 0 n h None h2" by auto
    have "av_buffer_alloc A n h = Some (None, h2)" using 2 c(1) None h2(1) unfolding av_buffer_alloc_def by simp
    with h2(2) show ?thesis by blast
  next
    case (Some r)
    have "av_buffer_alloc A n h = Some (Some r, h1)" using 2 c(1) Some unfolding av_buffer_alloc_def by simp
    moreover have "allocated 0 n h (Some r) h1" 
      using malloced_allocated [of 0 "map (junk A) [0..<n]" h r h1 n] c(2) Some by simp
    ultimately show ?thesis by blast
  qed
qed

text \<open>
  The result of a function that returns a reference: the heap is as before, or there is a new
  reference, alone with its buffer.
\<close>

definition fresh_ref :: "nat \<Rightarrow> heap \<Rightarrow> nat option \<Rightarrow> heap \<Rightarrow> bool" where
  "fresh_ref n h res h' \<longleftrightarrow>
     (case res of
        None \<Rightarrow> refs h' = refs h \<and> view h' = view h
      | Some r \<Rightarrow> same_but_new n h r h' \<and> (\<exists>ys. length ys = n \<and> view h' = (view h)(r \<mapsto> ys)))"

lemma allocated_fresh:
  assumes "heap_ok H U k h" "allocated fi n h res h'" "\<not> has_flag fi BUFFER_FLAG_NO_FREE"
  shows "heap_ok H U k h'" "fresh_ref n h res h'" "neat k h \<longrightarrow> neat k h'"
proof -
  have "heap_ok H U k h' \<and> fresh_ref n h res h' \<and> (neat k h \<longrightarrow> neat k h')"
  proof (cases res)
    case None
    with assms(2) obtain m where "m \<ge> fresh h" "h' = h\<lparr>fresh := m\<rparr>" by (auto simp: allocated_def)
    then show ?thesis using heap_fresh [OF assms(1), of m] None by (simp add: fresh_ref_def)
  next
    case (Some r)
    with assms(2) have "allocated fi n h (Some r) h'" by simp
    from allocated_ok [OF assms(1) this assms(3)] show ?thesis using Some by (simp add: fresh_ref_def)
  qed
  then show "heap_ok H U k h'" "fresh_ref n h res h'" "neat k h \<longrightarrow> neat k h'" by blast+
qed

lemma no_flags: "\<not> has_flag 0 BUFFER_FLAG_NO_FREE" "\<not> has_flag (set_flag 0 BUFFER_FLAG_REALLOCATABLE) BUFFER_FLAG_NO_FREE"
  by (simp_all add: has_flag_def set_flag_def BUFFER_FLAG_NO_FREE_def BUFFER_FLAG_REALLOCATABLE_def)

lemma av_buffer_alloc_ok:
  assumes "heap_ok H U k h"
  shows "\<exists>res h'. av_buffer_alloc A n h = Some (res, h') \<and> heap_ok H U k h' \<and> fresh_ref n h res h' \<and> (neat k h \<longrightarrow> neat k h')"
proof -
  obtain res h' where a: "av_buffer_alloc A n h = Some (res, h')" "allocated 0 n h res h'"
    using av_buffer_alloc_shape [OF objects_okD(1) [OF heap_okD(1) [OF assms]]] by blast
  from a(1) allocated_fresh [OF assms a(2) no_flags(1)] show ?thesis by blast
qed

lemma new_refD:
  assumes "same_but_new n h r h'" "refs_ok h"
  obtains R where "refs h' r = Some R" "ref_size R = n" "exclusive h' r" "\<forall>r'. r' \<noteq> r \<longrightarrow> refs h' r' = refs h r'" "refs h r = None"
    "buffers h (ref_buffer R) = None"
proof -
  obtain b R where R: "refs h' = (refs h)(r \<mapsto> R)" "ref_buffer R = Own b" "ref_size R = n" "buffers h (Own b) = None" "refs h r = None"
    using assms(1) unfolding same_but_new_def by blast
  have "exclusive h' r"
    unfolding exclusive_def
  proof (intro allI impI)
    fix R0 r' R' assume a: "refs h' r = Some R0" "refs h' r' = Some R'" "r' \<noteq> r"
    then have "R0 = R" "refs h r' = Some R'" using R(1) by simp_all
    with refs_okD(3) [OF assms(2), of r' R'] R(2,4) show "ref_buffer R' \<noteq> ref_buffer R0" by auto
  qed
  with R that show ?thesis by simp
qed

lemma allocz_ok:
  assumes "heap_ok H U k h"
  shows "\<exists>res h'. av_buffer_allocz A n h = Some (res, h') \<and> heap_ok H U k h' \<and> (neat k h \<longrightarrow> neat k h') \<and>
    (case res of None \<Rightarrow> refs h' = refs h \<and> view h' = view h
     | Some r \<Rightarrow> refs h r = None \<and> view h' = (view h)(r \<mapsto> replicate n 0))"
proof -
  obtain res h1 where a: "av_buffer_alloc A n h = Some (res, h1)" "heap_ok H U k h1" "fresh_ref n h res h1" "neat k h \<longrightarrow> neat k h1"
    using av_buffer_alloc_ok [OF assms] by blast
  show ?thesis
  proof (cases res)
    case None
    then show ?thesis using a by (intro exI [of _ None] exI [of _ h1]) (simp add: av_buffer_allocz_def fresh_ref_def)
  next
    case (Some r)
    with a(3) obtain ys where n: "same_but_new n h r h1" "length ys = n" "view h1 = (view h)(r \<mapsto> ys)" by (auto simp: fresh_ref_def)
    obtain R where R: "refs h1 r = Some R" "ref_size R = n" "exclusive h1 r" "refs h r = None"
      by (rule new_refD [OF n(1) heap_okD(2) [OF assms]])
    obtain b i where p: "ref_data R = Some (b, i)" by (rule heap_refs [OF a(2) R(1)])
    have "view h1 r = Some ys" using n(3) by simp
    from write_heap [OF a(2) R(1,3) p, of "replicate n 0", OF _ this] R(2) n obtain h2 where
      w: "mem_write (ref_data R) (replicate n 0) h1 = Some h2" "heap_ok H U k h2"
        "view h2 = (view h1)(r \<mapsto> replicate n 0 @ drop n ys)" "neat k h1 \<longrightarrow> neat k h2" by auto
    have "av_buffer_allocz A n h = Some (Some r, h2)" using a(1) Some R(1) w(1) by (simp add: av_buffer_allocz_def)
    moreover have "view h2 = (view h)(r \<mapsto> replicate n 0)" using w(3) n(2,3) by simp
    ultimately show ?thesis using w(2,4) a(4) R(4) by (intro exI [of _ "Some r"] exI [of _ h2]) simp
  qed
qed

section \<open>Another reference\<close>

lemma keepsD:
  assumes "keeps u U h h'" "u b > 0" "buffers h b = Some B"
  shows "\<exists>B'. buffers h' b = Some B' \<and> buf_data B' = buf_data B \<and> buf_flags B' = buf_flags B \<and> flags_internal B' = flags_internal B"
  using assms unfolding keeps_def by blast

lemma count_up_ok:
  assumes "objects_ok H U u h" "u b > 0" "u b + 1 < 2 ^ 32"
  shows "\<exists>h'. count_up b h = Some h' \<and> objects_ok H U (u(b := u b + 1)) h' \<and> keeps u U h h' \<and> blocks h' = blocks h \<and>
    (tidy u h \<longrightarrow> tidy (u(b := u b + 1)) h')"
proof -
  obtain B where B: "buffers h b = Some B" "buffer_ok u h b B" using objects_okD(3) [OF assms(1,2)] by blast
  let ?h = "h\<lparr>buffers := (buffers h)(b \<mapsto> B\<lparr>refcount := u b + 1\<rparr>)\<rparr>"
  have "refcount B = u b" using B(2) by (simp add: buffer_ok_def)
  then have "count_up b h = Some ?h" using B(1) assms(3) by (simp add: count_up_def)
  moreover have "objects_ok H U (u(b := u b + 1)) ?h"
    using assms(3) B(1) by (intro objects_update [OF assms(1,2)]) auto
  moreover have "keeps u U h ?h" using B(1) by (auto simp: keeps_def)
  moreover have "tidy u h \<longrightarrow> tidy (u(b := u b + 1)) ?h" by (auto simp: tidy_def)
  ultimately show ?thesis by auto
qed

lemma ref_ok:
  assumes "heap_ok H U k h" "refs h s = Some R" "uses (refs h) k (ref_buffer R) + 1 < 2 ^ 32"
  shows "\<exists>res h'. av_buffer_ref A s h = Some (res, h') \<and> heap_ok H U k h' \<and> (neat k h \<longrightarrow> neat k h') \<and>
    (\<forall>a\<in>U. blocks h' a = blocks h a) \<and>
    (case res of None \<Rightarrow> refs h' = refs h \<and> view h' = view h
     | Some r \<Rightarrow> refs h r = None \<and> refs h' = (refs h)(r \<mapsto> R) \<and> view h' = (view h)(r := view h s))"
proof (cases rule: new_address_cases [of A h])
  case 1
  then show ?thesis using heap_fresh [OF assms(1), of "fresh h + 1"]
    by (intro exI [of _ None] exI [of _ "h\<lparr>fresh := fresh h + 1\<rparr>"]) (simp add: av_buffer_ref_def)
next
  case 2
  let ?r = "fresh h" and ?b = "ref_buffer R" and ?u = "uses (refs h) k"
  let ?h1 = "h\<lparr>fresh := fresh h + 1\<rparr>"
  have ok1: "heap_ok H U k ?h1" "view ?h1 = view h" "neat k h \<longrightarrow> neat k ?h1" by (rule heap_fresh [OF assms(1)], simp)+
  have none: "refs h ?r = None" using heap_okD(2) [OF assms(1)] by (rule refs_fresh) simp
  have s1: "refs ?h1 s = Some R" using assms(2) by simp
  obtain xs B where B: "mem_read (ref_data R) (ref_size R) ?h1 = Some xs" "view ?h1 s = Some xs" "buffers ?h1 ?b = Some B"
    "block_of (ref_data R) = block_of (buf_data B)" "uses (refs ?h1) k ?b > 0" by (rule heap_refs [OF ok1(1) s1])
  have pos: "?u ?b > 0" using B(5) by simp
  have o1: "objects_ok H U ?u ?h1" using heap_okD(1) [OF ok1(1)] by simp
  from count_up_ok [OF o1 pos assms(3)] obtain h2 where
    h2: "count_up ?b ?h1 = Some h2" "objects_ok H U (?u(?b := ?u ?b + 1)) h2" "keeps ?u U ?h1 h2" "blocks h2 = blocks ?h1"
      "tidy ?u ?h1 \<longrightarrow> tidy (?u(?b := ?u ?b + 1)) h2" by blast
  have k1: "keeps (uses (refs ?h1) k) U ?h1 h2" using h2(3) by simp
  note r = keeps_refs [OF heap_okD(2) [OF ok1(1)] k1]
  have rs: "refs h2 = refs h" "fresh h2 \<ge> fresh h + 1" using h2(3) by (simp_all add: keeps_def)
  have u: "?u(?b := ?u ?b + 1) = uses (refs h2) (k(?b := k ?b + 1))" using rs(1) by (auto simp: uses_def)
  have read: "mem_read (ref_data R) (ref_size R) h2 = Some xs"
    using B(1) mem_read_same [of "ref_data R" h2 ?h1 "ref_size R"] h2(4) by simp
  obtain B2 where B2: "buffers h2 ?b = Some B2" "buf_data B2 = buf_data B" using keepsD [OF h2(3) pos B(3)] by blast
  let ?h3 = "h2\<lparr>refs := (refs h2)(?r \<mapsto> R)\<rparr>"
  have add: "heap_ok H U k ?h3 \<and> view ?h3 = (view h2)(?r \<mapsto> xs) \<and> uses ((refs h2)(?r \<mapsto> R)) k = ?u(?b := ?u ?b + 1)"
    by (intro conjI; rule add_ref_heap [OF h2(2) r(1), where B = B2])
      (use rs none u read B2 B(4) in simp_all)
  have "count_up ?b (?h1\<lparr>refs := (refs ?h1)(?r \<mapsto> R)\<rparr>) = Some ?h3"
  proof -
    have "h2 = ?h1\<lparr>buffers := (buffers h)(?b \<mapsto> B\<lparr>refcount := (refcount B + 1) mod 2 ^ 32\<rparr>)\<rparr>"
      using h2(1) B(3) by (simp add: count_up_def)
    then show ?thesis using B(3) rs(1) by (simp add: count_up_def)
  qed
  moreover have "refs (?h1\<lparr>refs := (refs ?h1)(?r \<mapsto> R)\<rparr>) s = Some R" using assms(2) by simp
  ultimately have run: "av_buffer_ref A s h = Some (Some ?r, ?h3)"
    using 2 assms(2) none unfolding av_buffer_ref_def by (auto simp: fun_upd_apply)
  have "neat k ?h3" if "neat k h"
  proof -
    have "tidy ?u ?h1" using that ok1(3) by (simp add: neat_def)
    then show ?thesis using h2(5) add by (simp add: neat_def tidy_def)
  qed
  moreover have "view ?h3 = (view h)(?r := view h s)" using add r(2) ok1(2) B(2) by simp
  moreover have "\<forall>a\<in>U. blocks ?h3 a = blocks h a" using h2(4) by simp
  ultimately show ?thesis using run add none rs(1) by (intro exI [of _ "Some ?r"] exI [of _ ?h3]) simp
qed

section \<open>Copies\<close>

text \<open>The memory that a reference shows belongs to its buffer.\<close>

lemma ref_block_owned:
  assumes "heap_ok H U k h" "refs h r = Some R"
  shows "block_of (ref_data R) \<notin> U"
proof -
  obtain B where B: "buffers h (ref_buffer R) = Some B" "block_of (ref_data R) = block_of (buf_data B)"
    "uses (refs h) k (ref_buffer R) > 0" by (rule heap_refs [OF assms])
  have "block_of (buf_data B) \<in> ran (claim (uses (refs h) k) h)"
    using owner_claims [OF heap_okD(1) [OF assms(1)] B(3,1)] by (rule ranI)
  then show ?thesis using memory_okD(3) [OF objects_okD(2) [OF heap_okD(1) [OF assms(1)]]] B(2) by auto
qed

lemma heap_blocks: "heap_ok H U k h \<Longrightarrow> a \<in> U \<Longrightarrow> \<exists>xs. blocks h a = Some xs"
  using memory_okD(2) [OF objects_okD(2) [OF heap_okD(1)]] by blast

text \<open>A new buffer of \<open>n\<close> bytes gets the first \<open>m\<close> bytes of the reference, and takes its place.\<close>

lemma copy_and_replace:
  assumes "heap_ok H U k h" "refs h r = Some R" "view h r = Some xs" "allocated fi n h (Some new) h1" "\<not> has_flag fi BUFFER_FLAG_NO_FREE"
    and "m \<le> n" "m \<le> ref_size R" "nesting A > 0"
  shows "\<exists>N h2 h3 ys. refs h1 new = Some N \<and> memcpy (ref_data N) (ref_data R) m h1 = Some h2 \<and>
    buffer_replace A r (Some new) h2 = Some h3 \<and> heap_ok H U k h3 \<and> (neat k h \<longrightarrow> neat k h3) \<and> length ys = n \<and>
    take m ys = take m xs \<and> view h3 = (view h)(r \<mapsto> ys) \<and> refs h3 = (refs h)(r \<mapsto> N) \<and> ref_size N = n \<and> exclusive h3 r \<and>
    (\<forall>a\<in>U. blocks h3 a = blocks h a)"
proof -
  note a = allocated_fresh [OF assms(1,4,5)]
  obtain zs where n: "same_but_new n h new h1" "length zs = n" "view h1 = (view h)(new \<mapsto> zs)" using a(2) by (auto simp: fresh_ref_def)
  obtain N where N: "refs h1 new = Some N" "ref_size N = n" "exclusive h1 new" "\<forall>r'. r' \<noteq> new \<longrightarrow> refs h1 r' = refs h r'"
    "refs h new = None" "buffers h (ref_buffer N) = None" by (rule new_refD [OF n(1) heap_okD(2) [OF assms(1)]])
  have ne: "r \<noteq> new" using assms(2) N(5) by auto
  then have R1: "refs h1 r = Some R" using N(4) assms(2) by simp
  have v1: "view h1 r = Some xs" using n(3) ne assms(3) by simp
  then have "mem_read (ref_data R) (ref_size R) h1 = Some xs" using R1 by (simp add: view_def)
  then have read: "mem_read (ref_data R) m h1 = Some (take m xs)"
    using assms(7) by (cases "ref_data R") (auto simp: slice_def min_def split: option.splits if_splits)
  obtain b i where p: "ref_data N = Some (b, i)" by (rule heap_refs [OF a(1) N(1)])
  have len: "length (take m xs) = m" using mem_read_length [OF read] .
  have "view h1 new = Some zs" using n(3) by simp
  from write_heap [OF a(1) N(1,3) p, of "take m xs", OF _ this] len assms(6) N(2) obtain h2 where
    w: "mem_write (ref_data N) (take m xs) h1 = Some h2" "heap_ok H U k h2" "refs h2 = refs h1"
      "view h2 = (view h1)(new \<mapsto> take m xs @ drop m zs)" "neat k h1 \<longrightarrow> neat k h2" "\<forall>x. x \<noteq> b \<longrightarrow> blocks h2 x = blocks h1 x" by auto
  let ?ys = "take m xs @ drop m zs"
  have R2: "refs h2 r = Some R" "refs h2 new = Some N" using w(3) R1 N(1) by simp_all
  from replace_ok [OF w(2) R2 ne assms(8)] obtain h3 where
    h3: "buffer_replace A r (Some new) h2 = Some h3" "heap_ok H U k h3" "refs h3 = (refs h2)(r \<mapsto> N, new := None)"
      "view h3 = (view h2)(r := view h2 new, new := None)" "neat k h2 \<longrightarrow> neat k h3" "\<forall>a\<in>U. blocks h3 a = blocks h2 a" by blast
  have "b \<notin> U" using ref_block_owned [OF a(1) N(1)] p by (simp add: block_of_def)
  then have others: "\<forall>a\<in>U. blocks h3 a = blocks h a"
    using h3(6) w(6) n(1) heap_blocks [OF assms(1)] by (fastforce simp: same_but_new_def)
  have rs: "refs h3 = (refs h)(r \<mapsto> N)" using h3(3) w(3) N(4,5) ne by (auto simp: fun_eq_iff)
  have none: "view h new = None" using N(5) by (simp add: view_def)
  have vs: "view h3 = (view h)(r \<mapsto> ?ys)" using h3(4) w(4) n(3) ne none by (auto simp: fun_eq_iff)
  have "exclusive h3 r"
    unfolding exclusive_def rs
  proof (intro allI impI)
    fix R0 r' R' assume "((refs h)(r \<mapsto> N)) r = Some R0" "((refs h)(r \<mapsto> N)) r' = Some R'" "r' \<noteq> r"
    then have "R0 = N" "refs h r' = Some R'" by simp_all
    with refs_okD(3) [OF heap_okD(2) [OF assms(1)], of r' R'] N(6) show "ref_buffer R' \<noteq> ref_buffer R0" by auto
  qed
  moreover have "memcpy (ref_data N) (ref_data R) m h1 = Some h2" using read w(1) by (simp add: memcpy_def)
  moreover have "length ?ys = n" "take m ?ys = take m xs" using len n(2) assms(6) by simp_all
  ultimately show ?thesis using N(1,2) h3(1,2,5) w(5) a(3) rs vs others by blast
qed

lemma make_writable_ok:
  assumes "heap_ok H U k h" "refs h r = Some R" "nesting A > 0"
  shows "\<exists>ret h'. av_buffer_make_writable A r h = Some (ret, h') \<and> heap_ok H U k h' \<and> (neat k h \<longrightarrow> neat k h') \<and>
    view h' = view h \<and> (\<forall>r'. r' \<noteq> r \<longrightarrow> refs h' r' = refs h r') \<and> (ret = 0 \<and> exclusive h' r \<or> ret = AVERROR_ENOMEM \<and> refs h' = refs h)"
proof -
  obtain xs B where B: "view h r = Some xs" "length xs = ref_size R" "buffers h (ref_buffer R) = Some B" by (rule heap_refs [OF assms(1,2)])
  obtain w where w: "av_buffer_is_writable r h = Some w" "w \<longrightarrow> exclusive h r" using is_writable_ok [OF assms(1,2) B(3)] by blast
  show ?thesis
  proof (cases w)
    case True
    then show ?thesis using w assms(1) by (intro exI [of _ 0] exI [of _ h]) (simp add: av_buffer_make_writable_def)
  next
    case False
    obtain res h1 where a: "av_buffer_alloc A (ref_size R) h = Some (res, h1)" "allocated 0 (ref_size R) h res h1"
      using av_buffer_alloc_shape [OF objects_okD(1) [OF heap_okD(1) [OF assms(1)]]] by blast
    show ?thesis
    proof (cases res)
      case None
      with allocated_fresh [OF assms(1) a(2) no_flags(1)] a(1) w(1) False assms(2) show ?thesis
        by (intro exI [of _ AVERROR_ENOMEM] exI [of _ h1]) (simp add: av_buffer_make_writable_def fresh_ref_def)
    next
      case (Some new)
      with a(2) have "allocated 0 (ref_size R) h (Some new) h1" by simp
      from copy_and_replace [OF assms(1,2) B(1) this no_flags(1) _ _ assms(3), of "ref_size R"] obtain N h2 h3 ys where
        c: "refs h1 new = Some N" "memcpy (ref_data N) (ref_data R) (ref_size R) h1 = Some h2"
          "buffer_replace A r (Some new) h2 = Some h3" "heap_ok H U k h3" "neat k h \<longrightarrow> neat k h3" "length ys = ref_size R"
          "take (ref_size R) ys = take (ref_size R) xs" "view h3 = (view h)(r \<mapsto> ys)" "refs h3 = (refs h)(r \<mapsto> N)" "exclusive h3 r"
        by auto
      have "ys = xs" using c(6,7) B(2) by simp
      then have "view h3 = view h" using c(8) B(1) by (simp add: fun_upd_idem)
      moreover have "av_buffer_make_writable A r h = Some (0, h3)"
        using w(1) False assms(2) a(1) Some c(1-3) by (simp add: av_buffer_make_writable_def)
      ultimately show ?thesis using c(4,5,9,10) by (intro exI [of _ 0] exI [of _ h3]) simp
    qed
  qed
qed

section \<open>Reallocation\<close>

lemma realloc_new_shape:
  assumes "bounded h"
  shows "\<exists>ret res h'. buffer_realloc_new A n h = Some (ret, res, h') \<and>
    allocated (set_flag 0 BUFFER_FLAG_REALLOCATABLE) n h res h' \<and> (ret = 0 \<and> res \<noteq> None \<or> ret = AVERROR_ENOMEM \<and> res = None)"
proof (cases rule: av_malloc_cases [of A n h])
  case 1
  have "allocated (set_flag 0 BUFFER_FLAG_REALLOCATABLE) n h None (h\<lparr>fresh := fresh h + 1\<rparr>)"
    unfolding allocated_def option.case by (intro exI [of _ "fresh h + 1"]) simp
  with 1 show ?thesis by (simp add: buffer_realloc_new_def av_realloc_def)
next
  case 2
  have "length (map (junk A) [0..<n]) = n" by simp
  from allocate_create [OF assms this, of A] obtain res h1 where c:
    "av_buffer_create A (Some (fresh h, 0)) n (Some Default_Free) No_Opaque 0
      (h\<lparr>fresh := fresh h + 1, blocks := (blocks h)(fresh h \<mapsto> map (junk A) [0..<n])\<rparr>) = Some (res, h1)"
    "case res of
       None \<Rightarrow> \<exists>h2. mem_free (Some (fresh h, 0)) h1 = Some h2 \<and> allocated 0 n h None h2
     | Some r \<Rightarrow> malloced 0 (map (junk A) [0..<n]) h r h1" by blast
  show ?thesis
  proof (cases res)
    case None
    with c(2) obtain h2 where h2: "mem_free (Some (fresh h, 0)) h1 = Some h2" "allocated 0 n h None h2" by auto
    have "buffer_realloc_new A n h = Some (AVERROR_ENOMEM, None, h2)"
      using 2 c(1) None h2(1) unfolding buffer_realloc_new_def av_realloc_def by simp
    with h2(2) show ?thesis by (simp add: allocated_def)
  next
    case (Some r)
    with c(2) have "malloced 0 (map (junk A) [0..<n]) h r h1" by simp
    then obtain m b where p: "fresh h < b" "b < r" "r < m"
      "h1 = h\<lparr>fresh := m, blocks := (blocks h)(fresh h \<mapsto> map (junk A) [0..<n]),
        buffers := (buffers h)(Own b \<mapsto> new_buffer n (Some (fresh h, 0)) Default_Free No_Opaque 0 0),
        refs := (refs h)(r \<mapsto> \<lparr>ref_buffer = Own b, ref_data = Some (fresh h, 0), ref_size = n\<rparr>)\<rparr>"
      unfolding malloced_def by auto
    let ?fi = "set_flag 0 BUFFER_FLAG_REALLOCATABLE"
    let ?h = "h\<lparr>fresh := m, blocks := (blocks h)(fresh h \<mapsto> map (junk A) [0..<n]),
        buffers := (buffers h)(Own b \<mapsto> new_buffer n (Some (fresh h, 0)) Default_Free No_Opaque 0 ?fi),
        refs := (refs h)(r \<mapsto> \<lparr>ref_buffer = Own b, ref_data = Some (fresh h, 0), ref_size = n\<rparr>)\<rparr>"
    have "buffer_realloc_new A n h = Some (0, Some r, ?h)"
      using 2 c(1) Some unfolding buffer_realloc_new_def av_realloc_def by (simp add: p(4) new_buffer_def)
    moreover have "malloced ?fi (map (junk A) [0..<n]) h r ?h"
      unfolding malloced_def by (rule exI [of _ m], rule exI [of _ b]) (use p(1-3) in simp)
    then have "allocated ?fi n h (Some r) ?h" by (rule malloced_allocated) simp
    ultimately show ?thesis by blast
  qed
qed

text \<open>A heap after the block of an exclusive reference has moved.\<close>

lemma realloc_in_place:
  assumes "heap_ok H U k h" "refs h r = Some R" "view h r = Some old" "buffers h (ref_buffer R) = Some B" "exclusive h r"
    and "has_flag (flags_internal B) BUFFER_FLAG_REALLOCATABLE" "ref_data R = buf_data B" "blocks h (block_of (buf_data B)) = Some xs"
    and "length ys = n" "a = fresh h"
  defines "h' \<equiv> h\<lparr>fresh := a + 1, blocks := (blocks h)(a \<mapsto> ys, block_of (buf_data B) := None),
    buffers := (buffers h)(ref_buffer R \<mapsto> B\<lparr>buf_data := Some (a, 0), buf_size := n\<rparr>),
    refs := (refs h)(r \<mapsto> R\<lparr>ref_data := Some (a, 0), ref_size := n\<rparr>)\<rparr>"
  shows "heap_ok H U k h'" "view h' = (view h)(r \<mapsto> ys)" "neat k h \<longrightarrow> neat k h'" "buf_data B = Some (block_of (buf_data B), 0)"
proof -
  let ?u = "uses (refs h) k" and ?b = "ref_buffer R" and ?x = "block_of (buf_data B)"
  let ?B = "B\<lparr>buf_data := Some (a, 0), buf_size := n\<rparr>" and ?R = "R\<lparr>ref_data := Some (a, 0), ref_size := n\<rparr>"
  note ok = heap_okD [OF assms(1)]
  obtain B' where B': "buffers h ?b = Some B'" "?u ?b > 0" "buffer_ok ?u h ?b B'" by (rule heap_refs [OF assms(1,2)])
  then have bok: "buffer_ok ?u h ?b B" "?u ?b > 0" using assms(4) by simp_all
  have def: "buf_free B = Default_Free" using bok(1) assms(6) by (auto simp: buffer_ok_def split: free_fn.splits)
  then obtain b where b: "?b = Own b" using bok(1) by (auto simp: buffer_ok_def)
  show data: "buf_data B = Some (?x, 0)" using bok(1) def by (auto simp: buffer_ok_def block_of_def)
  have none: "blocks h a = None" using objects_okD(1) [OF ok(1)] assms(10) by (auto simp: bounded_def)
  have xU: "?x \<notin> U"
  proof -
    have "claim ?u h (owner ?u h ?b) = Some ?x" by (rule owner_claims [OF ok(1) bok(2) assms(4)])
    then show ?thesis using memory_okD(3) [OF objects_okD(2) [OF ok(1)]] ranI by fastforce
  qed
  have aU: "a \<notin> U" using memory_okD(2) [OF objects_okD(2) [OF ok(1)]] none by blast
  have xa: "?x \<noteq> a" using none assms(8) by auto
  let ?h1 = "h\<lparr>fresh := a + 1, blocks := (blocks h)(a \<mapsto> ys)\<rparr>"
  have o1: "objects_ok H (insert a U) ?u ?h1" using assms(10) by (intro objects_malloc [OF ok(1)]) auto
  let ?h2 = "?h1\<lparr>buffers := (buffers ?h1)(Own b \<mapsto> ?B)\<rparr>"
  have o2: "objects_ok H (insert ?x (insert a U - {a})) ?u ?h2"
    by (rule objects_swap [OF o1]) (use bok(2) b assms(4) def in simp_all)
  have "insert ?x (insert a U - {a}) - {?x} = U" using aU xU by blast
  with objects_free [OF o2, of ?x] have o3: "objects_ok H U ?u (?h2\<lparr>blocks := (blocks ?h2)(?x := None)\<rparr>)" by simp
  have "h' = ?h2\<lparr>blocks := (blocks ?h2)(?x := None), refs := (refs h)(r \<mapsto> ?R)\<rparr>"
    using b by (intro heap.equality) (simp_all add: h'_def)
  then have o4: "objects_ok H U ?u h'" using o3 by (simp only: objects_refs)
  have u: "uses (refs h') k = ?u" using holders_same [where rs = "refs h" and r = r and R = R and R' = ?R] assms(2) by (auto simp: uses_def h'_def)
  have reads: "mem_read (ref_data R') (ref_size R') h' = mem_read (ref_data R') (ref_size R') h"
    "buffers h' (ref_buffer R') = buffers h (ref_buffer R')" if R': "refs h r' = Some R'" "r' \<noteq> r" for r' R'
  proof -
    have ne: "ref_buffer R' \<noteq> ?b" using assms(2,5) R' by (auto simp: exclusive_def)
    then show "buffers h' (ref_buffer R') = buffers h (ref_buffer R')" by (simp add: h'_def)
    have "block_of (ref_data R') \<noteq> ?x" using other_block [OF assms(1,2) R'(1) ne] assms(7) by simp
    moreover obtain zs where "mem_read (ref_data R') (ref_size R') h = Some zs" using refs_okD(2) [OF ok(2) R'(1)] by blast
    then have "block_of (ref_data R') \<noteq> a" using none mem_read_Some by fastforce
    ultimately show "mem_read (ref_data R') (ref_size R') h' = mem_read (ref_data R') (ref_size R') h"
      by (intro mem_read_same) (auto simp: h'_def block_of_def)
  qed
  have read: "mem_read (ref_data ?R) (ref_size ?R) h' = Some ys" using assms(9) xa by (simp add: h'_def slice_def)
  have "refs_ok h'"
    unfolding refs_ok_def
  proof (intro allI impI)
    fix r' R' assume R': "refs h' r' = Some R'"
    show "r' < fresh h' \<and> mem_read (ref_data R') (ref_size R') h' \<noteq> None \<and>
        (\<exists>B. buffers h' (ref_buffer R') = Some B \<and> block_of (ref_data R') = block_of (buf_data B))"
    proof (cases "r' = r")
      case True
      then have "R' = ?R" using R' by (simp add: h'_def)
      then show ?thesis using True read refs_okD(1) [OF ok(2) assms(2)] assms(10) by (auto simp: h'_def)
    next
      case False
      then have R0: "refs h r' = Some R'" using R' by (simp add: h'_def)
      show ?thesis
        using reads [OF R0 False] refs_okD [OF ok(2) R0] assms(10) by (auto simp: h'_def)
    qed
  qed
  then show "heap_ok H U k h'" using o4 u by (simp add: heap_ok_def)
  show "view h' = (view h)(r \<mapsto> ys)"
  proof
    fix r' show "view h' r' = ((view h)(r \<mapsto> ys)) r'"
    proof (cases "r' = r")
      case True
      then show ?thesis using read by (simp add: view_def h'_def)
    next
      case False
      moreover have "refs h' r' = refs h r'" using False by (simp add: h'_def)
      ultimately show ?thesis using reads(1) [OF _ False] by (auto simp: view_def split: option.split)
    qed
  qed
  show "neat k h \<longrightarrow> neat k h'" using assms(4) b unfolding neat_def u by (auto simp: tidy_def h'_def)
qed

text \<open>A change of the size leaves the reference with a buffer of its own, also when it was shared.\<close>

lemma realloc_ok:
  assumes "heap_ok H U k h" "refs h r = Some R" "view h r = Some old" "nesting A > 0"
  shows "\<exists>ret h'. av_buffer_realloc A (Some r) n h = Some (ret, Some r, h') \<and> heap_ok H U k h' \<and> (neat k h \<longrightarrow> neat k h') \<and>
    (\<forall>r'. r' \<noteq> r \<longrightarrow> refs h' r' = refs h r') \<and>
    (\<forall>a\<in>U. blocks h' a = blocks h a) \<and> (exclusive h r \<or> ret = 0 \<and> ref_size R \<noteq> n \<longrightarrow> exclusive h' r) \<and>
    (ret = 0 \<and> (\<exists>ys. length ys = n \<and> take (min n (length old)) ys = take (min n (length old)) old \<and> view h' = (view h)(r \<mapsto> ys)) \<and> refs h' r \<noteq> None \<or>
     ret = AVERROR_ENOMEM \<and> view h' = view h \<and> refs h' = refs h)"
proof (cases "ref_size R = n")
  case True
  obtain xs where "length xs = ref_size R" "view h r = Some xs" by (rule heap_refs [OF assms(1,2)])
  then have "length old = n" using True assms(3) by simp
  moreover have "av_buffer_realloc A (Some r) n h = Some (0, Some r, h)" using True assms(2) by (simp add: av_buffer_realloc_def)
  ultimately show ?thesis using assms(1-3) True by (intro exI [of _ 0] exI [of _ h]) (auto simp: fun_upd_idem)
next
  case size: False
  note ok = heap_okD [OF assms(1)]
  obtain xs B where B: "buffers h (ref_buffer R) = Some B" "length xs = ref_size R" "view h r = Some xs"
    "uses (refs h) k (ref_buffer R) > 0" by (rule heap_refs [OF assms(1,2)])
  then have len: "length old = ref_size R" using assms(3) by simp
  obtain w where w: "av_buffer_is_writable r h = Some w" "w \<longrightarrow> exclusive h r" using is_writable_ok [OF assms(1,2) B(1)] by blast
  show ?thesis
  proof (cases "\<not> has_flag (flags_internal B) BUFFER_FLAG_REALLOCATABLE \<or> \<not> w \<or> ref_data R \<noteq> buf_data B")
    case True
    obtain ret res h1 where a: "buffer_realloc_new A n h = Some (ret, res, h1)"
      "allocated (set_flag 0 BUFFER_FLAG_REALLOCATABLE) n h res h1" "ret = 0 \<and> res \<noteq> None \<or> ret = AVERROR_ENOMEM \<and> res = None"
      using realloc_new_shape [OF objects_okD(1) [OF ok(1)]] by blast
    show ?thesis
    proof (cases res)
      case None
      then have "ret = AVERROR_ENOMEM" using a(3) by simp
      moreover have "av_buffer_realloc A (Some r) n h = Some (ret, Some r, h1)"
        using assms(2) size B(1) w(1) True a(1) None calculation by (simp add: av_buffer_realloc_def)
      moreover note allocated_fresh [OF assms(1) a(2) no_flags(2)]
      moreover have "blocks h1 = blocks h" using a(2) None by (auto simp: allocated_def)
      moreover have "exclusive h r \<longrightarrow> exclusive h1 r" using calculation(4) None by (simp add: fresh_ref_def exclusive_def)
      ultimately show ?thesis using None by (intro exI [of _ AVERROR_ENOMEM] exI [of _ h1]) (simp add: fresh_ref_def)
    next
      case (Some new)
      with a(2,3) have "allocated (set_flag 0 BUFFER_FLAG_REALLOCATABLE) n h (Some new) h1" "ret = 0" by simp_all
      from copy_and_replace [OF assms(1-3) this(1) no_flags(2) _ _ assms(4), of "min n (ref_size R)"] this(2) obtain N h2 h3 ys where
        c: "refs h1 new = Some N" "memcpy (ref_data N) (ref_data R) (min n (ref_size R)) h1 = Some h2"
          "buffer_replace A r (Some new) h2 = Some h3" "heap_ok H U k h3" "neat k h \<longrightarrow> neat k h3" "length ys = n"
          "take (min n (ref_size R)) ys = take (min n (ref_size R)) old" "view h3 = (view h)(r \<mapsto> ys)" "refs h3 = (refs h)(r \<mapsto> N)"
          "ret = 0" "\<forall>a\<in>U. blocks h3 a = blocks h a" "exclusive h3 r"
        by auto
      have "av_buffer_realloc A (Some r) n h = Some (0, Some r, h3)"
        using assms(2) size B(1) w(1) True a(1) Some c(1-3,10) by (simp add: av_buffer_realloc_def)
      moreover have "\<exists>ys. length ys = n \<and> take (min n (length old)) ys = take (min n (length old)) old \<and> view h3 = (view h)(r \<mapsto> ys)"
        using c(6-8) len by auto
      ultimately show ?thesis using c(4,5,9,11,12) by (intro exI [of _ 0] exI [of _ h3]) simp
    qed
  next
    case False
    then have f: "has_flag (flags_internal B) BUFFER_FLAG_REALLOCATABLE" "w" "ref_data R = buf_data B" by simp_all
    have ex: "exclusive h r" using w(2) f(2) by simp
    obtain bs where bs: "blocks h (block_of (buf_data B)) = Some bs" using claimed_block [OF ok(1) B(4,1)] by blast
    note place = realloc_in_place [OF assms(1-3) B(1) ex f(1,3) bs _ refl]
    have d: "buf_data B = Some (block_of (buf_data B), 0)" by (rule place(4) [of "replicate n 0" n]) simp
    have old: "old = take (ref_size R) bs" "ref_size R \<le> length bs"
    proof -
      have "mem_read (ref_data R) (ref_size R) h = Some old" using assms(2,3) by (simp add: view_def)
      then show "old = take (ref_size R) bs" "ref_size R \<le> length bs"
        unfolding f(3) by (subst (asm) d, simp add: bs slice_def split: if_splits)+
    qed
    show ?thesis
    proof (cases rule: av_malloc_cases [of A n h])
      case 1
      have "av_buffer_realloc A (Some r) n h = Some (AVERROR_ENOMEM, Some r, h\<lparr>fresh := fresh h + 1\<rparr>)"
        using assms(2) size B(1) w(1) f 1 by (simp add: av_buffer_realloc_def av_realloc_def)
      with heap_fresh [OF assms(1), of "fresh h + 1"] show ?thesis
        by (intro exI [of _ AVERROR_ENOMEM] exI [of _ "h\<lparr>fresh := fresh h + 1\<rparr>"]) (simp add: exclusive_def)
    next
      case 2
      let ?x = "block_of (buf_data B)" and ?a = "fresh h"
      define junks where "junks = map (junk A) [0..<n]"
      have jl: "length junks = n" by (simp add: junks_def)
      let ?ys = "splice 0 (take n bs) junks"
      have ys: "length ?ys = n" "take (min n (length old)) ?ys = take (min n (length old)) old"
        using jl old by (auto simp: splice_def min_def)
      have xa: "?x \<noteq> ?a" using bs objects_okD(1) [OF ok(1)] by (auto simp: bounded_def)
      let ?h = "h\<lparr>fresh := ?a + 1, blocks := (blocks h)(?a \<mapsto> ?ys, ?x := None)\<rparr>"
      have "av_realloc A (buf_data B) n h = Some (Some ?a, ?h)"
        unfolding av_realloc_def 2 junks_def [symmetric]
        by (subst d, simp add: bs xa jl, subst d, simp add: bs xa)
      then have "av_buffer_realloc A (Some r) n h = Some (0, Some r, ?h\<lparr>
          buffers := (buffers h)(ref_buffer R \<mapsto> B\<lparr>buf_data := Some (?a, 0), buf_size := n\<rparr>),
          refs := (refs h)(r \<mapsto> R\<lparr>ref_data := Some (?a, 0), ref_size := n\<rparr>)\<rparr>)"
        using assms(2) size B(1) w(1) f by (simp add: av_buffer_realloc_def)
      moreover have "blocks ?h b = blocks h b" if "b \<in> U" for b
        using that heap_blocks [OF assms(1) that] ref_block_owned [OF assms(1,2)] f(3) objects_okD(1) [OF ok(1)] by (auto simp: bounded_def)
      moreover have "exclusive (h\<lparr>refs := (refs h)(r \<mapsto> R\<lparr>ref_data := Some (?a, 0), ref_size := n\<rparr>)\<rparr>) r"
        using ex assms(2) by (auto simp: exclusive_def)
      ultimately show ?thesis using place(1-3) [of ?ys n] ys by (auto simp: exclusive_def)
    qed
  qed
qed

end
