(* ===== verification/Buffer_Pools.thy ===== *)
theory Buffer_Pools
  imports Buffer_Refs
begin

text \<open>\<open>av_buffer_replace\<close> and the pools of \<open>buffer.c\<close> on well-formed heaps.\<close>

section \<open>Replacing a reference\<close>

lemma retarget_ok:
  assumes "heap_ok H U k h" "refs h d = Some D" "refs h s = Some S" "ref_buffer D = ref_buffer S"
  defines "h' \<equiv> h\<lparr>refs := (refs h)(d \<mapsto> D\<lparr>ref_data := ref_data S, ref_size := ref_size S\<rparr>)\<rparr>"
  shows "heap_ok H U k h'" "view h' = (view h)(d := view h s)" "neat k h \<longrightarrow> neat k h'"
proof -
  let ?D = "D\<lparr>ref_data := ref_data S, ref_size := ref_size S\<rparr>"
  note ok = heap_okD [OF assms(1)]
  have u: "uses (refs h') k = uses (refs h) k"
    using holders_same [where rs = "refs h" and r = d and R = D and R' = ?D] assms(2) by (auto simp: uses_def h'_def)
  have "refs_ok h'" using ok(2) assms(2-4) by (auto simp: refs_ok_def h'_def)
  then show "heap_ok H U k h'" using ok(1) u by (simp add: heap_ok_def h'_def)
  show "view h' = (view h)(d := view h s)" using assms(3) by (auto simp: view_def h'_def fun_eq_iff split: option.split)
  show "neat k h \<longrightarrow> neat k h'" unfolding neat_def u by (simp add: tidy_def h'_def)
qed

text \<open>Of a null pointer nothing is dropped.\<close>

definition cleared :: "'a option \<Rightarrow> ('a \<rightharpoonup> 'b) \<Rightarrow> ('a \<rightharpoonup> 'b)" where
  "cleared d m = (case d of None \<Rightarrow> m | Some d \<Rightarrow> m(d := None))"

lemma unref_opt_ok:
  assumes "heap_ok H U k h" "\<forall>r. d = Some r \<longrightarrow> refs h r \<noteq> None" "nesting A > 0"
  shows "\<exists>h'. av_buffer_unref A d h = Some h' \<and> heap_ok H U k h' \<and> refs h' = cleared d (refs h) \<and>
    view h' = cleared d (view h) \<and> (neat k h \<longrightarrow> neat k h') \<and> (\<forall>a\<in>U. blocks h' a = blocks h a)"
proof (cases d)
  case None
  then show ?thesis using assms(1) by (simp add: av_buffer_unref_def cleared_def)
next
  case (Some r)
  with assms(2) obtain R where R: "refs h r = Some R" by auto
  from unref_ok [OF assms(1) R assms(3)] Some show ?thesis by (simp add: av_buffer_unref_def cleared_def)
qed

lemma replace_fn_ok:
  assumes "heap_ok H U k h" "\<forall>r. d = Some r \<longrightarrow> refs h r \<noteq> None" "\<forall>r. s = Some r \<longrightarrow> refs h r \<noteq> None" "nesting A > 0"
    and "\<And>b. uses (refs h) k b + 1 < 2 ^ 32"
  shows "\<exists>ret t h'. av_buffer_replace A d s h = Some (ret, t, h') \<and> heap_ok H U k h' \<and> (neat k h \<longrightarrow> neat k h') \<and>
    (case s of
       None \<Rightarrow> ret = 0 \<and> t = None \<and> view h' = cleared d (view h)
     | Some s \<Rightarrow> ret = 0 \<and> (\<exists>r. t = Some r \<and> (d = Some r \<or> view h r = None) \<and> view h' = (cleared d (view h))(r := view h s)) \<or>
         ret = AVERROR_ENOMEM \<and> t = d \<and> view h' = view h)"
proof (cases s)
  case None
  obtain h' where "av_buffer_unref A d h = Some h'" "heap_ok H U k h'" "view h' = cleared d (view h)" "neat k h \<longrightarrow> neat k h'"
    using unref_opt_ok [OF assms(1,2,4)] by blast
  then show ?thesis using None by (simp add: av_buffer_replace_def)
next
  case (Some src)
  with assms(3) obtain S where S: "refs h src = Some S" by auto
  show ?thesis
  proof (cases "\<exists>d' D. d = Some d' \<and> refs h d' = Some D \<and> ref_buffer D = ref_buffer S")
    case True
    then obtain d' D where D: "d = Some d'" "refs h d' = Some D" "ref_buffer D = ref_buffer S" by blast
    let ?h = "h\<lparr>refs := (refs h)(d' \<mapsto> D\<lparr>ref_data := ref_data S, ref_size := ref_size S\<rparr>)\<rparr>"
    note r = retarget_ok [OF assms(1) D(2) S D(3)]
    have "av_buffer_replace A d s h = Some (0, d, ?h)" using Some S D by (simp add: av_buffer_replace_def)
    then show ?thesis using r D(1) Some by (auto simp: cleared_def)
  next
    case False
    have same: "(case d of None \<Rightarrow> Some None
        | Some d \<Rightarrow> do { D \<leftarrow> refs h d; Some (if ref_buffer D = ref_buffer S then Some (d, D) else None) }) = Some None"
      using False assms(2) by (cases d) auto
    obtain res h1 where h1: "av_buffer_ref A src h = Some (res, h1)" "heap_ok H U k h1" "neat k h \<longrightarrow> neat k h1"
      "case res of None \<Rightarrow> refs h1 = refs h \<and> view h1 = view h
       | Some r \<Rightarrow> refs h r = None \<and> refs h1 = (refs h)(r \<mapsto> S) \<and> view h1 = (view h)(r := view h src)"
      using ref_ok [OF assms(1) S assms(5)] by blast
    show ?thesis
    proof (cases res)
      case None
      have "av_buffer_replace A d s h = Some (AVERROR_ENOMEM, d, h1)"
        using Some S same h1(1) None by (simp add: av_buffer_replace_def)
      then show ?thesis using h1 None Some by simp
    next
      case r: (Some r)
      have rs: "refs h r = None" "refs h1 = (refs h)(r \<mapsto> S)" "view h1 = (view h)(r := view h src)" using h1(4) r by simp_all
      have "\<forall>r. d = Some r \<longrightarrow> refs h1 r \<noteq> None" using assms(2) rs(2) by auto
      from unref_opt_ok [OF h1(2) this assms(4)] obtain h2 where
        h2: "av_buffer_unref A d h1 = Some h2" "heap_ok H U k h2" "view h2 = cleared d (view h1)" "neat k h1 \<longrightarrow> neat k h2" by blast
      have run: "av_buffer_replace A d s h = Some (0, Some r, h2)"
        using Some S same h1(1) r h2(1) by (simp add: av_buffer_replace_def)
      have "d \<noteq> Some r" using assms(2) rs(1) by auto
      then have v: "view h2 = (cleared d (view h))(r := view h src)"
        unfolding h2(3) rs(3) by (cases d) (auto simp: cleared_def fun_eq_iff)
      have "view h r = None" using rs(1) by (simp add: view_def)
      with run v h1(3) h2(2,4) Some show ?thesis by auto
    qed
  qed
qed

section \<open>Creating and giving up pools\<close>

lemma pool_create_ok:
  assumes "heap_ok H U k h" "pool_head P = None" "pool_refcount P = 1"
  shows "\<exists>res h'. pool_create A P h = (res, h') \<and> view h' = view h \<and> refs h' = refs h \<and> (neat k h \<longrightarrow> neat k h') \<and>
    (case res of None \<Rightarrow> heap_ok H U k h' | Some p \<Rightarrow> p \<notin> H \<and> heap_ok (insert p H) U k h')"
proof (cases "pool_create A P h = (None, h\<lparr>fresh := fresh h + 1\<rparr>)")
  case True
  then show ?thesis using heap_fresh [OF assms(1), of "fresh h + 1"] by simp
next
  case False
  let ?h = "h\<lparr>fresh := fresh h + 1, pools := (pools h)(fresh h \<mapsto> P)\<rparr>"
  have run: "pool_create A P h = (Some (fresh h), ?h)"
    using False by (cases rule: new_address_cases [of A h]) (auto simp: pool_create_def split: if_splits)
  note ok = heap_okD [OF assms(1)]
  have "pools h (fresh h) = None" using objects_okD(1) [OF ok(1)] by (auto simp: bounded_def)
  then have "fresh h \<notin> H" using objects_okD(6) [OF ok(1)] by auto
  moreover have o: "objects_ok (insert (fresh h) H) U (uses (refs h) k) ?h" by (rule objects_new_pool [OF ok(1)]) (use assms(2,3) in simp_all)
  have "keeps (uses (refs h) k) {} h ?h" by (simp add: keeps_def)
  then have "heap_ok (insert (fresh h) H) U k ?h" "view ?h = view h" using heap_step [OF assms(1) o] by blast+
  moreover have "neat k h \<longrightarrow> neat k ?h" using assms(3) by (auto simp: neat_def tidy_def)
  ultimately show ?thesis using run by simp
qed

text \<open>The client gives up a pool.\<close>

lemma objects_unhold:
  assumes "objects_ok H U u h" "p \<in> H" "pools h p = Some P"
  shows "pool_refcount P > 0"
    "objects_ok (H - {p}) U u (h\<lparr>pools := (pools h)(p \<mapsto> P\<lparr>pool_refcount := pool_refcount P - 1\<rparr>)\<rparr>)"
proof -
  let ?P = "P\<lparr>pool_refcount := pool_refcount P - 1\<rparr>"
  let ?h = "h\<lparr>pools := (pools h)(p \<mapsto> ?P)\<rparr>"
  obtain es where es: "chain (entries h) (pool_head P) es" "distinct es" "set es = pool_entries (entries h) p - ran (loan u h)"
    "pool_refcount P = of_bool (p \<in> H) + card (pool_entries (entries h) p \<inter> ran (loan u h))" "pool_refcount P < 2 ^ 32"
    by (rule pool_okD [OF objects_okD(7) [OF assms(1,3)]])
  then show "pool_refcount P > 0" using assms(2) by simp
  have new: "pool_ok (p \<in> H - {p}) (ran (loan u h)) (entries h) p ?P"
    by (rule pool_okI [of _ _ es]) (use es assms(2) in simp_all)
  have same: "claim u ?h = claim u h" "loan u ?h = loan u h" by (rule claim_cong loan_cong; simp)+
  have bo: "buffer_ok u ?h b B = buffer_ok u h b B" for b B by (rule buffer_ok_cong) simp
  have b1: "bounded ?h" using objects_okD(1) [OF assms(1)] assms(3) by (auto simp: bounded_def)
  have m1: "memory_ok U u ?h" using objects_okD(2) [OF assms(1)] unfolding memory_ok_def same by simp
  have u1: "\<exists>B'. buffers ?h b' = Some B' \<and> buffer_ok u ?h b' B'" if "u b' > 0" for b'
    using objects_okD(3) [OF assms(1) that] unfolding bo by simp
  have e1: "entry_ok ?h E" if "entries ?h e = Some E" for e E
    using that objects_okD(4) [OF assms(1), of e E] assms(3) by (auto simp: entry_ok_def)
  show "objects_ok (H - {p}) U u ?h"
  proof (rule objects_okI [OF b1 m1 u1 e1])
    show "inj_on (loan u ?h) (dom (loan u ?h))" unfolding same by (rule objects_okD(5) [OF assms(1)])
    show "H - {p} \<subseteq> dom (pools ?h)" using objects_okD(6) [OF assms(1)] by auto
    show "pool_ok (q \<in> H - {p}) (ran (loan u ?h)) (entries ?h) q Q" if "pools ?h q = Some Q" for q Q
      unfolding same using that new objects_okD(7) [OF assms(1), of q Q] by (cases "q = p") simp_all
  qed
qed

lemma pool_uninit_ok:
  assumes "heap_ok H U k h" "p \<in> H"
  shows "\<exists>h'. av_buffer_pool_uninit A (Some p) h = Some h' \<and> heap_ok (H - {p}) U k h' \<and> (neat k h \<longrightarrow> neat k h') \<and>
    view h' = view h \<and> refs h' = refs h"
proof -
  let ?u = "uses (refs h) k" and ?call = "call_free (nesting A)"
  note ok = heap_okD [OF assms(1)]
  obtain P where P: "pools h p = Some P" using objects_okD(6) [OF ok(1)] assms(2) by auto
  let ?P = "P\<lparr>pool_head := None\<rparr>"
  obtain h1 where h1: "pool_flush ?call p h = Some h1" "objects_ok H U ?u h1" "keeps ?u U h h1"
    "pools h1 = (pools h)(p \<mapsto> ?P)" "\<forall>a. buffers h1 (Own a) = buffers h (Own a)"
    using pool_flush_ok [OF ok(1) P] by blast
  have P1: "pools h1 p = Some ?P" using h1(4) by simp
  note un = objects_unhold [OF h1(2) assms(2) P1]
  have lt: "pool_refcount ?P < 2 ^ 32" by (rule pool_okD [OF objects_okD(7) [OF h1(2) P1]])
  have dec: "(pool_refcount P + (2 ^ 32 - 1)) mod 2 ^ 32 = pool_refcount P - 1"
    using minus_one_mod [of "pool_refcount P"] un(1) lt by simp
  let ?h2 = "h1\<lparr>pools := (pools h1)(p \<mapsto> ?P\<lparr>pool_refcount := pool_refcount ?P - 1\<rparr>)\<rparr>"
  have k2: "keeps ?u U h ?h2" using h1(3) by (simp add: keeps_def)
  have run: "av_buffer_pool_uninit A (Some p) h = (if pool_refcount P = 1 then buffer_pool_free ?call p ?h2 else Some ?h2)"
    using h1(1) P1 dec by (simp add: av_buffer_pool_uninit_def pool_count_down_def)
  have tidy1: "tidy ?u h1" if "neat k h" using that h1(4,5) un(1) by (auto simp: neat_def tidy_def)
  show ?thesis
  proof (cases "pool_refcount P = 1")
    case True
    have "pools ?h2 p = Some (?P\<lparr>pool_refcount := pool_refcount ?P - 1\<rparr>)" "pool_refcount (?P\<lparr>pool_refcount := pool_refcount ?P - 1\<rparr>) = 0"
      using True by simp_all
    from buffer_pool_free_ok [OF un(2) this] obtain h3 where
      h3: "buffer_pool_free ?call p ?h2 = Some h3" "objects_ok (H - {p}) U ?u h3" "keeps ?u U ?h2 h3" "pools h3 = (pools ?h2)(p := None)"
        "\<forall>a. buffers h3 (Own a) = buffers ?h2 (Own a)" by blast
    have k3: "keeps ?u U h h3" by (rule keeps_trans [OF k2 h3(3)])
    have "refs h3 = refs h" using k3 by (simp add: keeps_def)
    moreover have "tidy ?u h3" if "neat k h" using tidy1 [OF that] h3(4,5) by (auto simp: tidy_def split: if_splits)
    ultimately show ?thesis using run True h3(1) heap_step [OF assms(1) h3(2) k3] by (simp add: neat_def)
  next
    case False
    have "refs ?h2 = refs h" using k2 by (simp add: keeps_def)
    moreover have "tidy ?u ?h2" if "neat k h" using tidy1 [OF that] False un(1) by (auto simp: tidy_def)
    ultimately show ?thesis using run False heap_step [OF assms(1) un(2) k2] by (simp add: neat_def)
  qed
qed

section \<open>Getting a buffer from a pool\<close>

text \<open>What is assumed of an allocation function of the user: it returns a new buffer, or nothing.\<close>

definition user_alloc_ok :: "env \<Rightarrow> bool" where
  "user_alloc_ok A \<longleftrightarrow> (\<forall>k op n h. bounded h \<longrightarrow>
     (\<exists>res h'. user_alloc A k op n h = Some (res, h') \<and> allocated 0 n h res h'))"

lemma pool_count_bound:
  assumes "objects_ok H U u h" "pools h p = Some P"
  shows "pool_refcount P \<le> 1 + card (ran (loan u h))"
proof -
  have fin: "finite (ran (loan u h))"
  proof (rule finite_subset)
    show "ran (loan u h) \<subseteq> {..<fresh h}"
    proof
      fix e assume "e \<in> ran (loan u h)"
      then obtain b where "loan u h b = Some e" by (auto simp: ran_def)
      then obtain E where "entries h e = Some E" by (rule loan_entry [OF assms(1)])
      then show "e \<in> {..<fresh h}" using objects_okD(1) [OF assms(1)] by (simp add: bounded_def)
    qed
  qed simp
  have "pool_refcount P = of_bool (p \<in> H) + card (pool_entries (entries h) p \<inter> ran (loan u h))"
    by (rule pool_okD [OF objects_okD(7) [OF assms]])
  moreover have "card (pool_entries (entries h) p \<inter> ran (loan u h)) \<le> card (ran (loan u h))" by (rule card_mono [OF fin]) blast
  ultimately show ?thesis by simp
qed

lemma loans_bound:
  assumes "heap_ok H U (\<lambda>_. 0) h"
  shows "card (ran (loan (uses (refs h) (\<lambda>_. 0)) h)) \<le> card (dom (refs h))"
proof -
  let ?u = "uses (refs h) (\<lambda>_. 0)"
  have fin: "finite (dom (refs h))"
    by (rule finite_subset [of _ "{..<fresh h}"]) (use refs_okD(1) [OF heap_okD(2) [OF assms]] in auto)
  have "ran (loan ?u h) \<subseteq> (\<lambda>r. the (loan ?u h (ref_buffer (the (refs h r))))) ` dom (refs h)"
  proof
    fix e assume "e \<in> ran (loan ?u h)"
    then obtain b where b: "loan ?u h b = Some e" by (auto simp: ran_def)
    then have "?u b > 0" by (auto simp: loan_def split: option.splits if_splits)
    then have "holders (refs h) b \<noteq> {}" by (auto simp: uses_def)
    then obtain r R where "refs h r = Some R" "ref_buffer R = b" by (auto simp: holders_def)
    with b show "e \<in> (\<lambda>r. the (loan ?u h (ref_buffer (the (refs h r))))) ` dom (refs h)" by (intro image_eqI [of _ _ r]) auto
  qed
  then show ?thesis by (rule surj_card_le [OF fin])
qed

text \<open>The outcome of getting a buffer of \<open>n\<close> bytes: nothing, or a new reference to bytes of some former use.\<close>

definition obtained :: "nat \<Rightarrow> heap \<Rightarrow> nat option \<Rightarrow> heap \<Rightarrow> bool" where
  "obtained n h res h' \<longleftrightarrow>
     (case res of
        None \<Rightarrow> refs h' = refs h \<and> view h' = view h
      | Some r \<Rightarrow> refs h r = None \<and> (\<exists>ys. length ys = n \<and> view h' = (view h)(r \<mapsto> ys)))"

lemma pool_reuse_ok:
  assumes "heap_ok H U k h" "pools h p = Some P" "pool_head P = Some e" "pool_refcount P + 1 < 2 ^ 32"
  shows "\<exists>res h1. pool_reuse_buffer A p e h = Some (res, h1) \<and>
    (case res of
       None \<Rightarrow> heap_ok H U k h1 \<and> obtained (pool_size P) h None h1 \<and> (neat k h \<longrightarrow> neat k h1)
     | Some r \<Rightarrow> \<exists>P1. pools h1 p = Some P1 \<and> pool_refcount P1 = pool_refcount P \<and>
         (let h2 = h1\<lparr>pools := (pools h1)(p \<mapsto> P1\<lparr>pool_refcount := pool_refcount P + 1\<rparr>)\<rparr> in
          heap_ok H U k h2 \<and> obtained (pool_size P) h (Some r) h2 \<and> (neat k h \<longrightarrow> neat k h2)))"
proof -
  let ?u = "uses (refs h) k" and ?b = "Embedded e"
  note ok = heap_okD [OF assms(1)]
  obtain E where E: "entries h e = Some E" "ent_pool E = p" "ent_data E \<noteq> None" "u e = u e" "?u ?b = 0"
    by (rule objects_pop [OF ok(1) assms(2,3)]) blast
  have eok: "entry_ok h E" by (rule objects_okD(4) [OF ok(1) E(1)])
  then obtain ys where ys: "mem_read (ent_data E) (pool_size P) h = Some ys" using E(2) assms(2) by (auto simp: entry_ok_def)
  have "buffers h ?b \<noteq> None" using objects_okD(1) [OF ok(1)] E(1) by (simp add: bounded_def)
  then obtain B0 where B0: "buffers h ?b = Some B0" by blast
  define B where "B = \<lparr>buf_data = ent_data E, buf_size = pool_size P, refcount = 1, buf_free = Pool_Release, buf_opaque = Entry e,
    buf_flags = 0, flags_internal = 0\<rparr>"
  let ?h1 = "h\<lparr>buffers := (buffers h)(?b \<mapsto> B)\<rparr>"
  have o1: "objects_ok H U ?u ?h1" by (rule objects_idle [OF ok(1) E(5) B0])
  have k1: "keeps ?u {} h ?h1" unfolding keeps_def using E(5) by auto
  have hk1: "heap_ok H U k ?h1" "view ?h1 = view h" by (rule heap_step [OF assms(1) o1 k1])+
  have neat1: "neat k h \<longrightarrow> neat k ?h1" by (auto simp: neat_def tidy_def)
  show ?thesis
  proof (cases rule: new_address_cases [of A ?h1])
    case 1
    have "pool_reuse_buffer A p e h = Some (None, ?h1\<lparr>fresh := fresh h + 1\<rparr>)"
      using assms(2) E(1) 1 by (simp add: pool_reuse_buffer_def buffer_create_def zero_buffer_def B_def)
    moreover note heap_fresh [OF hk1(1), of "fresh h + 1"]
    ultimately show ?thesis using hk1(2) neat1 by (intro exI [of _ None]) (simp add: obtained_def)
  next
    case 2
    let ?r = "fresh h" and ?R = "\<lparr>ref_buffer = ?b, ref_data = ent_data E, ref_size = pool_size P\<rparr>"
    let ?B = "B\<lparr>flags_internal := set_flag 0 BUFFER_FLAG_NO_FREE\<rparr>" and ?E = "E\<lparr>ent_next := None\<rparr>"
    let ?P1 = "P\<lparr>pool_head := ent_next E\<rparr>"
    let ?h0 = "h\<lparr>fresh := fresh h + 1\<rparr>"
    let ?g = "?h0\<lparr>buffers := (buffers ?h0)(?b \<mapsto> ?B), entries := (entries ?h0)(e \<mapsto> ?E),
      pools := (pools ?h0)(p \<mapsto> P\<lparr>pool_head := ent_next E, pool_refcount := pool_refcount P + 1\<rparr>)\<rparr>"
    let ?h2 = "h\<lparr>fresh := fresh h + 1, refs := (refs h)(?r \<mapsto> ?R), buffers := (buffers h)(?b \<mapsto> ?B),
      entries := (entries h)(e \<mapsto> ?E), pools := (pools h)(p \<mapsto> ?P1)\<rparr>"
    have run: "pool_reuse_buffer A p e h = Some (Some ?r, ?h2)"
    proof -
      have "pool_reuse_buffer A p e h = Some (Some ?r, h\<lparr>buffers := (buffers h)(?b \<mapsto> B), fresh := fresh h + 1,
          refs := (refs h)(?r \<mapsto> ?R), buffers := (buffers h)(?b \<mapsto> ?B), entries := (entries h)(e \<mapsto> ?E), pools := (pools h)(p \<mapsto> ?P1)\<rparr>)"
        using assms(2) E(1) 2 by (simp add: pool_reuse_buffer_def buffer_create_def zero_buffer_def B_def)
      moreover have "h\<lparr>buffers := (buffers h)(?b \<mapsto> B), fresh := fresh h + 1,
          refs := (refs h)(?r \<mapsto> ?R), buffers := (buffers h)(?b \<mapsto> ?B), entries := (entries h)(e \<mapsto> ?E), pools := (pools h)(p \<mapsto> ?P1)\<rparr> = ?h2"
        by (rule heap.equality) simp_all
      ultimately show ?thesis by simp
    qed
    have flags: "has_flag (set_flag 0 BUFFER_FLAG_NO_FREE) BUFFER_FLAG_NO_FREE" "\<not> has_flag (set_flag 0 BUFFER_FLAG_NO_FREE) BUFFER_FLAG_REALLOCATABLE"
      by (simp_all add: has_flag_def set_flag_def BUFFER_FLAG_NO_FREE_def BUFFER_FLAG_REALLOCATABLE_def)
    have hk0: "heap_ok H U k ?h0" "view ?h0 = view h" "neat k h \<longrightarrow> neat k ?h0" by (rule heap_fresh [OF assms(1)], simp)+
    have og: "objects_ok H U (?u(?b := 1)) ?g"
      by (rule objects_lend [where P = P]) (use heap_okD(1) [OF hk0(1)] assms(2-4) E(1) flags in \<open>simp_all add: B_def\<close>)
    have kg: "keeps ?u {} ?h0 ?g" unfolding keeps_def using E(5) by auto
    have kg': "keeps (uses (refs ?h0) k) {} ?h0 ?g" using kg by simp
    note rg = keeps_refs [OF heap_okD(2) [OF hk0(1)] kg']
    have ug: "?u(?b := 1) = uses (refs ?g) (k(?b := k ?b + 1))" using E(5) by (auto simp: uses_def)
    have none: "refs h ?r = None" using ok(2) by (rule refs_fresh) simp
    have read: "mem_read (ent_data E) (pool_size P) ?g = Some ys" using ys mem_read_same [of "ent_data E" ?g h] by simp
    have add: "heap_ok H U k (?g\<lparr>refs := (refs ?g)(?r \<mapsto> ?R)\<rparr>) \<and> view (?g\<lparr>refs := (refs ?g)(?r \<mapsto> ?R)\<rparr>) = (view ?g)(?r \<mapsto> ys) \<and>
        uses ((refs ?g)(?r \<mapsto> ?R)) k = ?u(?b := 1)"
      by (intro conjI; rule add_ref_heap [OF og rg(1), where B = ?B]) (use none ug read in \<open>simp_all add: B_def\<close>)
    let ?h3 = "?h2\<lparr>pools := (pools ?h2)(p \<mapsto> ?P1\<lparr>pool_refcount := pool_refcount P + 1\<rparr>)\<rparr>"
    have eq: "?h3 = ?g\<lparr>refs := (refs ?g)(?r \<mapsto> ?R)\<rparr>" by (rule heap.equality) simp_all
    have "heap_ok H U k ?h3" "view ?h3 = (view h)(?r \<mapsto> ys)" using add rg(2) hk0(2) unfolding eq by simp_all
    moreover have "neat k ?h3" if "neat k h"
      using that add unfolding eq neat_def by (auto simp: tidy_def)
    ultimately have "heap_ok H U k ?h3 \<and> obtained (pool_size P) h (Some ?r) ?h3 \<and> (neat k h \<longrightarrow> neat k ?h3)"
      using none mem_read_length [OF ys] unfolding obtained_def option.case by blast
    moreover have "pools ?h2 p = Some ?P1" "pool_refcount ?P1 = pool_refcount P" by simp_all
    ultimately show ?thesis using run unfolding Let_def by (intro exI [of _ "Some ?r"] exI [of _ ?h2]) auto
  qed
qed

lemma allocated_refD:
  assumes "allocated 0 n h (Some r) h1"
  obtains b B R where "refs h1 r = Some R" "ref_buffer R = Own b" "buffers h1 (Own b) = Some B" "buf_free B \<noteq> Pool_Release"
    "flags_internal B = 0" "mem_read (buf_data B) n h1 \<noteq> None" "pools h1 = pools h"
proof -
  obtain m a i xs b f op fl where p: "i + n \<le> length xs" "f \<noteq> Pool_Release"
    "h1 = h\<lparr>fresh := m, blocks := (blocks h)(a \<mapsto> xs), buffers := (buffers h)(Own b \<mapsto> new_buffer n (Some (a, i)) f op fl 0),
       refs := (refs h)(r \<mapsto> \<lparr>ref_buffer = Own b, ref_data = Some (a, i), ref_size = n\<rparr>)\<rparr>"
    using assms unfolding allocated_def option.case by blast
  show ?thesis
    by (rule that [of "\<lparr>ref_buffer = Own b, ref_data = Some (a, i), ref_size = n\<rparr>" b "new_buffer n (Some (a, i)) f op fl 0"])
      (use p(1,2) in \<open>simp_all add: p(3) new_buffer_def\<close>)
qed

lemma pool_alloc_ok:
  assumes "heap_ok H U k h" "pools h p = Some P" "pool_refcount P + 1 < 2 ^ 32" "user_alloc_ok A" "nesting A > 0"
  shows "\<exists>res h1. pool_alloc_buffer A p h = Some (res, h1) \<and>
    (case res of
       None \<Rightarrow> heap_ok H U k h1 \<and> obtained (pool_size P) h None h1 \<and> (neat k h \<longrightarrow> neat k h1)
     | Some r \<Rightarrow> \<exists>P1. pools h1 p = Some P1 \<and> pool_refcount P1 = pool_refcount P \<and>
         (let h2 = h1\<lparr>pools := (pools h1)(p \<mapsto> P1\<lparr>pool_refcount := pool_refcount P + 1\<rparr>)\<rparr> in
          heap_ok H U k h2 \<and> obtained (pool_size P) h (Some r) h2 \<and> (neat k h \<longrightarrow> neat k h2)))"
proof -
  let ?n = "pool_size P"
  let ?alloc = "case pool_alloc2 P of
      Some i \<Rightarrow> user_alloc A i (pool_opaque P) ?n h
    | None \<Rightarrow> (case pool_alloc P of Some i \<Rightarrow> user_alloc A i No_Opaque ?n h | None \<Rightarrow> av_buffer_alloc A ?n h)"
  have bd: "bounded h" by (rule objects_okD(1) [OF heap_okD(1) [OF assms(1)]])
  have "\<exists>res h1. ?alloc = Some (res, h1) \<and> allocated 0 ?n h res h1"
    using assms(4) bd av_buffer_alloc_shape [OF bd, of A ?n] unfolding user_alloc_ok_def
    by (cases "pool_alloc2 P"; cases "pool_alloc P") simp_all
  then obtain res h1 where a: "?alloc = Some (res, h1)" "allocated 0 ?n h res h1" by blast
  note f = allocated_fresh [OF assms(1) a(2) no_flags(1)]
  show ?thesis
  proof (cases res)
    case None
    then have "pool_alloc_buffer A p h = Some (None, h1)" using assms(2) a(1) by (simp add: pool_alloc_buffer_def)
    then show ?thesis using f None by (intro exI [of _ None] exI [of _ h1]) (simp add: fresh_ref_def obtained_def)
  next
    case (Some r)
    obtain ys where n: "same_but_new ?n h r h1" "length ys = ?n" "view h1 = (view h)(r \<mapsto> ys)" using f(2) Some by (auto simp: fresh_ref_def)
    have none: "refs h r = None" using n(1) by (simp add: same_but_new_def)
    have "allocated 0 ?n h (Some r) h1" using a(2) Some by simp
    then obtain b B R where R: "refs h1 r = Some R" "ref_buffer R = Own b" "buffers h1 (Own b) = Some B" "buf_free B \<noteq> Pool_Release"
      "flags_internal B = 0" "mem_read (buf_data B) ?n h1 \<noteq> None" "pools h1 = pools h" by (rule allocated_refD)
    show ?thesis
    proof (cases rule: new_address_cases [of A h1])
      case 1
      let ?h = "h1\<lparr>fresh := fresh h1 + 1\<rparr>"
      have hk: "heap_ok H U k ?h" "view ?h = view h1" "neat k h1 \<longrightarrow> neat k ?h" by (rule heap_fresh [OF f(1)], simp)+
      have "refs ?h r = Some R" using R(1) by simp
      from unref_ok [OF hk(1) this assms(5)] obtain h2 where
        h2: "buffer_replace A r None ?h = Some h2" "heap_ok H U k h2" "refs h2 = (refs ?h)(r := None)" "view h2 = (view ?h)(r := None)"
          "neat k ?h \<longrightarrow> neat k h2" by blast
      have "pool_alloc_buffer A p h = Some (None, h2)"
        using assms(2) a(1) Some 1 h2(1) by (simp add: pool_alloc_buffer_def av_buffer_unref_def)
      moreover have "view h2 = view h" using h2(4) hk(2) n(3) none by (simp add: view_def fun_upd_idem)
      moreover have "refs h2 = refs h" using h2(3) n(1) by (auto simp: same_but_new_def fun_upd_idem)
      ultimately show ?thesis using h2(2,5) hk(3) f(3) by (intro exI [of _ None] exI [of _ h2]) (simp add: obtained_def)
    next
      case 2
      let ?e = "fresh h1"
      let ?E = "\<lparr>ent_data = buf_data B, ent_opaque = buf_opaque B, ent_free = buf_free B, ent_pool = p, ent_next = None\<rparr>"
      let ?B = "B\<lparr>buf_free := Pool_Release, buf_opaque := Entry ?e\<rparr>"
      let ?h1 = "h1\<lparr>fresh := ?e + 1, buffers := (buffers h1)(Embedded ?e \<mapsto> zero_buffer, Own b \<mapsto> ?B), entries := (entries h1)(?e \<mapsto> ?E)\<rparr>"
      let ?h2 = "?h1\<lparr>pools := (pools ?h1)(p \<mapsto> P\<lparr>pool_refcount := pool_refcount P + 1\<rparr>)\<rparr>"
      note ok1 = heap_okD [OF f(1)]
      have run: "pool_alloc_buffer A p h = Some (Some r, ?h1)"
        using assms(2) a(1) Some 2 R(1-3) by (simp add: pool_alloc_buffer_def)
      have pos: "uses (refs h1) k (Own b) > 0" using uses_positive [OF R(1) finite_holders [OF ok1(2)]] R(2) by simp
      have P1: "pools h1 p = Some P" using R(7) assms(2) by simp
      have fl: "\<not> has_flag (flags_internal B) BUFFER_FLAG_REALLOCATABLE" using R(5) by (simp add: has_flag_def)
      have "objects_ok H U (uses (refs h1) k) (h1\<lparr>fresh := ?e + 1, buffers := (buffers h1)(Embedded ?e \<mapsto> zero_buffer, Own b \<mapsto> ?B),
          entries := (entries h1)(?e \<mapsto> ?E), pools := (pools h1)(p \<mapsto> P\<lparr>pool_refcount := pool_refcount P + 1\<rparr>)\<rparr>)"
        by (rule objects_adopt [OF ok1(1) pos R(3,4) fl _ _ P1 assms(3) R(6)]) simp_all
      then have o2: "objects_ok H U (uses (refs h1) k) ?h2" by simp
      have none1: "buffers h1 (Embedded ?e) = None" using objects_okD(1) [OF ok1(1)] by (auto simp: bounded_def)
      have k2: "keeps (uses (refs h1) k) {} h1 ?h2" unfolding keeps_def using none1 R(3) by auto
      note s2 = heap_step [OF f(1) o2 k2]
      have "neat k ?h2" if "neat k h"
        using that f(3) R(3) by (auto simp: neat_def tidy_def)
      moreover have "obtained ?n h (Some r) ?h2" using none n(2,3) s2(2) unfolding obtained_def option.case by auto
      moreover have "pools ?h1 p = Some P" using P1 by simp
      ultimately show ?thesis using run s2(1) unfolding Let_def by (intro exI [of _ "Some r"] exI [of _ ?h1]) auto
    qed
  qed
qed

lemma pool_get_ok:
  assumes "heap_ok H U k h" "pools h p = Some P" "pool_refcount P + 1 < 2 ^ 32" "user_alloc_ok A" "nesting A > 0"
  shows "\<exists>res h'. av_buffer_pool_get A p h = Some (res, h') \<and> heap_ok H U k h' \<and> obtained (pool_size P) h res h' \<and>
    (neat k h \<longrightarrow> neat k h')"
proof -
  let ?get = "case pool_head P of Some e \<Rightarrow> pool_reuse_buffer A p e h | None \<Rightarrow> pool_alloc_buffer A p h"
  have "\<exists>res h1. ?get = Some (res, h1) \<and>
    (case res of
       None \<Rightarrow> heap_ok H U k h1 \<and> obtained (pool_size P) h None h1 \<and> (neat k h \<longrightarrow> neat k h1)
     | Some r \<Rightarrow> \<exists>P1. pools h1 p = Some P1 \<and> pool_refcount P1 = pool_refcount P \<and>
         (let h2 = h1\<lparr>pools := (pools h1)(p \<mapsto> P1\<lparr>pool_refcount := pool_refcount P + 1\<rparr>)\<rparr> in
          heap_ok H U k h2 \<and> obtained (pool_size P) h (Some r) h2 \<and> (neat k h \<longrightarrow> neat k h2)))"
    using pool_alloc_ok [OF assms] pool_reuse_ok [OF assms(1,2) _ assms(3)] by (cases "pool_head P") simp_all
  then obtain res h1 where g: "?get = Some (res, h1)" "case res of
       None \<Rightarrow> heap_ok H U k h1 \<and> obtained (pool_size P) h None h1 \<and> (neat k h \<longrightarrow> neat k h1)
     | Some r \<Rightarrow> \<exists>P1. pools h1 p = Some P1 \<and> pool_refcount P1 = pool_refcount P \<and>
         (let h2 = h1\<lparr>pools := (pools h1)(p \<mapsto> P1\<lparr>pool_refcount := pool_refcount P + 1\<rparr>)\<rparr> in
          heap_ok H U k h2 \<and> obtained (pool_size P) h (Some r) h2 \<and> (neat k h \<longrightarrow> neat k h2))" by blast
  show ?thesis
  proof (cases res)
    case None
    then show ?thesis using g assms(2) by (intro exI [of _ None] exI [of _ h1]) (simp add: av_buffer_pool_get_def)
  next
    case (Some r)
    with g(2) obtain P1 where P1: "pools h1 p = Some P1" "pool_refcount P1 = pool_refcount P"
      "let h2 = h1\<lparr>pools := (pools h1)(p \<mapsto> P1\<lparr>pool_refcount := pool_refcount P + 1\<rparr>)\<rparr> in
          heap_ok H U k h2 \<and> obtained (pool_size P) h (Some r) h2 \<and> (neat k h \<longrightarrow> neat k h2)" by auto
    have "av_buffer_pool_get A p h = Some (Some r, h1\<lparr>pools := (pools h1)(p \<mapsto> P1\<lparr>pool_refcount := pool_refcount P + 1\<rparr>)\<rparr>)"
      using g(1) Some P1(1,2) assms(2,3) by (simp add: av_buffer_pool_get_def)
    with P1(3) show ?thesis unfolding Let_def by blast
  qed
qed

end
