(* ===== verification/Buffer_Client.thy ===== *)
theory Buffer_Client
  imports Buffer_Pools Simulation
begin

text \<open>
  A client of \<open>buffer.c\<close>: any sequence of calls on references and pools that it holds. The theorems
  say what such a client can rely on.
\<close>

section \<open>Clients\<close>

text \<open>
  The calls. \<open>Wrap\<close> is \<open>av_buffer_create\<close> on data of the client, whose callback gives the data back;
  \<open>Store\<close> is the client writing to the start of the data.
\<close>

datatype buffer_op =
    Alloc nat | Allocz nat | Wrap "byte list" nat opaque int | Share nat | Drop nat | Unshare nat
  | Resize "nat option" nat | Assign "nat option" "nat option" | Store nat "byte list"
  | Pool_Init2 nat opaque "nat option" "nat option" | Pool_Init nat "nat option" | Pool_Get nat | Pool_Uninit nat

definition client_wrap :: "env \<Rightarrow> byte list \<Rightarrow> nat \<Rightarrow> opaque \<Rightarrow> int \<Rightarrow> heap \<Rightarrow> (nat option \<times> heap) option" where
  "client_wrap A xs k op fl h = do {
     let a = fresh h;
     (res, h) \<leftarrow> av_buffer_create A (Some (a, 0)) (length xs) (Some (Custom k)) op fl
       (h\<lparr>fresh := a + 1, blocks := (blocks h)(a \<mapsto> xs)\<rparr>);
     case res of
       None \<Rightarrow> do { h \<leftarrow> mem_free (Some (a, 0)) h; Some (None, h) }
     | Some r \<Rightarrow> Some (Some r, h)
   }"

text \<open>The state of a client is the pools it holds, and the heap; all references are its own.\<close>

type_synonym client = "nat set \<times> heap"

fun buffer_step :: "env \<Rightarrow> client \<Rightarrow> buffer_op \<Rightarrow> ((int \<times> nat option) \<times> client) option" where
  "buffer_step A (H, h) (Alloc n) = map_option (\<lambda>(res, h). ((0, res), (H, h))) (av_buffer_alloc A n h)"
| "buffer_step A (H, h) (Allocz n) = map_option (\<lambda>(res, h). ((0, res), (H, h))) (av_buffer_allocz A n h)"
| "buffer_step A (H, h) (Wrap xs k op fl) = map_option (\<lambda>(res, h). ((0, res), (H, h))) (client_wrap A xs k op fl h)"
| "buffer_step A (H, h) (Share r) = map_option (\<lambda>(res, h). ((0, res), (H, h))) (av_buffer_ref A r h)"
| "buffer_step A (H, h) (Drop r) = map_option (\<lambda>h. ((0, None), (H, h))) (av_buffer_unref A (Some r) h)"
| "buffer_step A (H, h) (Unshare r) = map_option (\<lambda>(ret, h). ((ret, Some r), (H, h))) (av_buffer_make_writable A r h)"
| "buffer_step A (H, h) (Resize r n) = map_option (\<lambda>(ret, res, h). ((ret, res), (H, h))) (av_buffer_realloc A r n h)"
| "buffer_step A (H, h) (Assign d s) = map_option (\<lambda>(ret, res, h). ((ret, res), (H, h))) (av_buffer_replace A d s h)"
| "buffer_step A (H, h) (Store r xs) =
     (case refs h r of None \<Rightarrow> None | Some R \<Rightarrow> map_option (\<lambda>h. ((0, Some r), (H, h))) (mem_write (ref_data R) xs h))"
| "buffer_step A (H, h) (Pool_Init2 n op alloc f) =
     (case av_buffer_pool_init2 A n op alloc f h of (res, h) \<Rightarrow> Some ((0, res), (H \<union> set_option res, h)))"
| "buffer_step A (H, h) (Pool_Init n alloc) =
     (case av_buffer_pool_init A n alloc h of (res, h) \<Rightarrow> Some ((0, res), (H \<union> set_option res, h)))"
| "buffer_step A (H, h) (Pool_Get p) = map_option (\<lambda>(res, h). ((0, res), (H, h))) (av_buffer_pool_get A p h)"
| "buffer_step A (H, h) (Pool_Uninit p) = map_option (\<lambda>h. ((0, None), (H - {p}, h))) (av_buffer_pool_uninit A (Some p) h)"

text \<open>
  What a client may call: functions on references and pools it has, and it writes only to buffers
  that are writable. The counters have 32 bits, so that there must be less references than that.
\<close>

fun may_call :: "client \<Rightarrow> buffer_op \<Rightarrow> bool" where
  "may_call (H, h) (Share r) \<longleftrightarrow> refs h r \<noteq> None"
| "may_call (H, h) (Drop r) \<longleftrightarrow> refs h r \<noteq> None"
| "may_call (H, h) (Unshare r) \<longleftrightarrow> refs h r \<noteq> None"
| "may_call (H, h) (Resize r n) \<longleftrightarrow> (case r of None \<Rightarrow> True | Some r \<Rightarrow> refs h r \<noteq> None)"
| "may_call (H, h) (Assign d s) \<longleftrightarrow> (case d of None \<Rightarrow> True | Some d \<Rightarrow> refs h d \<noteq> None) \<and> (case s of None \<Rightarrow> True | Some s \<Rightarrow> refs h s \<noteq> None)"
| "may_call (H, h) (Store r xs) \<longleftrightarrow>
     (case refs h r of None \<Rightarrow> False | Some R \<Rightarrow> av_buffer_is_writable r h = Some True \<and> length xs \<le> ref_size R)"
| "may_call (H, h) (Pool_Get p) \<longleftrightarrow> p \<in> H"
| "may_call (H, h) (Pool_Uninit p) \<longleftrightarrow> p \<in> H"
| "may_call (H, h) _ \<longleftrightarrow> True"

definition empty_heap :: heap where
  "empty_heap = \<lparr>fresh = 0, blocks = Map.empty, buffers = Map.empty, refs = Map.empty, entries = Map.empty, pools = Map.empty, events = []\<rparr>"

inductive buffer_reach :: "env \<Rightarrow> client \<Rightarrow> bool" for A :: env where
  start: "buffer_reach A ({}, empty_heap)"
| step: "buffer_reach A (H, h) \<Longrightarrow> card (dom (refs h)) + 2 < 2 ^ 32 \<Longrightarrow> may_call (H, h) x \<Longrightarrow>
    buffer_step A (H, h) x = Some (res, s) \<Longrightarrow> buffer_reach A s"

definition surroundings_ok :: "env \<Rightarrow> bool" where
  "surroundings_ok A \<longleftrightarrow> user_alloc_ok A \<and> nesting A > 0"

section \<open>References as values\<close>

text \<open>
  The same calls on independent byte strings, one for each reference: \<open>v\<close> before the call, \<open>v'\<close>
  after it. Sharing copies, and nothing but the named reference changes.
\<close>

definition new_value :: "nat option \<Rightarrow> (byte list \<Rightarrow> bool) \<Rightarrow> (nat \<rightharpoonup> byte list) \<Rightarrow> (nat \<rightharpoonup> byte list) \<Rightarrow> bool" where
  "new_value res ok v v' \<longleftrightarrow> (case res of None \<Rightarrow> v' = v | Some r \<Rightarrow> v r = None \<and> (\<exists>ys. ok ys \<and> v' = v(r \<mapsto> ys)))"

fun value_spec :: "buffer_op \<Rightarrow> int \<Rightarrow> nat option \<Rightarrow> (nat \<rightharpoonup> byte list) \<Rightarrow> (nat \<rightharpoonup> byte list) \<Rightarrow> bool" where
  "value_spec (Alloc n) ret res v v' \<longleftrightarrow> new_value res (\<lambda>ys. length ys = n) v v'"
| "value_spec (Allocz n) ret res v v' \<longleftrightarrow> new_value res (\<lambda>ys. ys = replicate n 0) v v'"
| "value_spec (Wrap xs k op fl) ret res v v' \<longleftrightarrow> new_value res (\<lambda>ys. ys = xs) v v'"
| "value_spec (Share r) ret res v v' \<longleftrightarrow> new_value res (\<lambda>ys. v r = Some ys) v v'"
| "value_spec (Drop r) ret res v v' \<longleftrightarrow> v' = v(r := None)"
| "value_spec (Unshare r) ret res v v' \<longleftrightarrow> v' = v"
| "value_spec (Resize None n) ret res v v' \<longleftrightarrow> new_value res (\<lambda>ys. length ys = n) v v'"
| "value_spec (Resize (Some r) n) ret res v v' \<longleftrightarrow> res = Some r \<and>
     (if ret < 0 then v' = v
      else \<exists>xs ys. v r = Some xs \<and> length ys = n \<and> take (min n (length xs)) ys = take (min n (length xs)) xs \<and> v' = v(r \<mapsto> ys))"
| "value_spec (Assign d None) ret res v v' \<longleftrightarrow> res = None \<and> v' = cleared d v"
| "value_spec (Assign d (Some s)) ret res v v' \<longleftrightarrow>
     (if ret < 0 then res = d \<and> v' = v
      else \<exists>r. res = Some r \<and> (d = Some r \<or> v r = None) \<and> v' = (cleared d v)(r := v s))"
| "value_spec (Store r xs) ret res v v' \<longleftrightarrow> (\<exists>old. v r = Some old \<and> v' = v(r \<mapsto> xs @ drop (length xs) old))"
| "value_spec (Pool_Get p) ret res v v' \<longleftrightarrow> new_value res (\<lambda>ys. True) v v'"
| "value_spec (Pool_Uninit p) ret res v v' \<longleftrightarrow> v' = v"
| "value_spec (Pool_Init2 n op alloc f) ret res v v' \<longleftrightarrow> v' = v"
| "value_spec (Pool_Init n alloc) ret res v v' \<longleftrightarrow> v' = v"

section \<open>Steps\<close>

definition client_ok :: "client \<Rightarrow> bool" where
  "client_ok s \<longleftrightarrow> heap_ok (fst s) {} (\<lambda>_. 0) (snd s) \<and> neat (\<lambda>_. 0) (snd s)"

lemma view_none: "refs h r = None \<Longrightarrow> view h r = None"
  by (simp add: view_def)

lemma uses_bound:
  assumes "refs_ok h"
  shows "uses (refs h) (\<lambda>_. 0) b \<le> card (dom (refs h))"
proof -
  have "finite (dom (refs h))" by (rule finite_subset [of _ "{..<fresh h}"]) (use refs_okD(1) [OF assms] in auto)
  moreover have "holders (refs h) b \<subseteq> dom (refs h)" by (auto simp: holders_def)
  ultimately show ?thesis by (simp add: uses_def card_mono)
qed

lemma wrap_ok:
  assumes "heap_ok H U k h"
  shows "\<exists>res h'. client_wrap A xs i op fl h = Some (res, h') \<and> heap_ok H U k h' \<and> (neat k h \<longrightarrow> neat k h') \<and>
    new_value res (\<lambda>ys. ys = xs) (view h) (view h')"
proof -
  let ?a = "fresh h"
  let ?h = "h\<lparr>fresh := ?a + 1, blocks := (blocks h)(?a \<mapsto> xs)\<rparr>"
  note ok = heap_okD [OF assms]
  have m: "heap_ok H (insert ?a U) k ?h" "view ?h = view h" "neat k h \<longrightarrow> neat k ?h" by (rule heap_malloc [OF assms], simp, simp)+
  have none: "blocks h ?a = None" using objects_okD(1) [OF ok(1)] by (auto simp: bounded_def)
  then have aU: "?a \<notin> U" using memory_okD(2) [OF objects_okD(2) [OF ok(1)]] by blast
  obtain res h1 where c: "av_buffer_create A (Some (?a, 0)) (length xs) (Some (Custom i)) op fl ?h = Some (res, h1)"
    "created (length xs) (Some (?a, 0)) (new_buffer (length xs) (Some (?a, 0)) (Custom i) op fl 0) ?h res h1"
    using av_buffer_create_ok [OF objects_okD(1) [OF heap_okD(1) [OF m(1)]], of A "Some (?a, 0)" "length xs" "Some (Custom i)" op fl] by auto
  show ?thesis
  proof (cases res)
    case None
    with c(2) obtain n where n: "?a + 1 \<le> n" "h1 = ?h\<lparr>fresh := n\<rparr>" by (auto simp: created_def)
    have "client_wrap A xs i op fl h = Some (None, h\<lparr>fresh := n\<rparr>)"
      using c(1) None n(2) none by (simp add: client_wrap_def fun_upd_idem)
    with heap_fresh [OF assms, of n] n(1) show ?thesis by (simp add: new_value_def)
  next
    case (Some r)
    with c(2) obtain n b where n: "?a + 1 \<le> b" "b < r" "r < n" "h1 = ?h\<lparr>fresh := n,
        buffers := (buffers ?h)(Own b \<mapsto> new_buffer (length xs) (Some (?a, 0)) (Custom i) op fl 0),
        refs := (refs ?h)(r \<mapsto> \<lparr>ref_buffer = Own b, ref_data = Some (?a, 0), ref_size = length xs\<rparr>)\<rparr>" by (auto simp: created_def)
    have bounds: "fresh ?h \<le> b" "b < n" "fresh ?h \<le> r" "r < n" using n(1-3) by simp_all
    have read: "mem_read (Some (?a, 0)) (length xs) ?h = Some xs" by (simp add: slice_def)
    have fl0: "\<not> has_flag 0 BUFFER_FLAG_NO_FREE" "\<not> has_flag 0 BUFFER_FLAG_REALLOCATABLE" by (simp_all add: has_flag_def)
    have "heap_ok H (insert ?a U - {?a}) k h1 \<and> view h1 = (view ?h)(r \<mapsto> xs) \<and> (neat k ?h \<longrightarrow> neat k h1) \<and> same_but_new (length xs) ?h r h1"
      unfolding n(4) by (intro conjI; rule create_heap [OF m(1) insertI1 bounds read]) (use fl0 in simp_all)
    moreover have "insert ?a U - {?a} = U" using aU by blast
    moreover have "client_wrap A xs i op fl h = Some (Some r, h1)" using c(1) Some by (simp add: client_wrap_def)
    ultimately show ?thesis using m(2,3) view_none [of h r] by (auto simp: new_value_def same_but_new_def)
  qed
qed

lemma fresh_ref_value: "fresh_ref n h res h' \<Longrightarrow> new_value res (\<lambda>ys. length ys = n) (view h) (view h')"
  by (auto simp: fresh_ref_def new_value_def same_but_new_def view_none split: option.splits)

lemma obtained_value: "obtained n h res h' \<Longrightarrow> new_value res (\<lambda>ys. True) (view h) (view h')"
  by (auto simp: obtained_def new_value_def view_none split: option.splits)

definition step_fine :: "env \<Rightarrow> client \<Rightarrow> buffer_op \<Rightarrow> bool" where
  "step_fine A s x \<longleftrightarrow> (\<exists>ret res s'. buffer_step A s x = Some ((ret, res), s') \<and> client_ok s' \<and>
     value_spec x ret res (view (snd s)) (view (snd s')))"

lemma step_fineI:
  assumes "buffer_step A (H, h) x = Some ((ret, res), (H', h'))" "heap_ok H' {} (\<lambda>_. 0) h'" "neat (\<lambda>_. 0) h'"
    and "value_spec x ret res (view h) (view h')"
  shows "step_fine A (H, h) x"
  unfolding step_fine_def
  by (rule exI [of _ ret], rule exI [of _ res], rule exI [of _ "(H', h')"]) (use assms in \<open>simp add: client_ok_def\<close>)

lemma alloc_steps:
  assumes "heap_ok H {} (\<lambda>_. 0) h" "neat (\<lambda>_. 0) h"
  shows "step_fine A (H, h) (Alloc n)" "step_fine A (H, h) (Allocz n)" "step_fine A (H, h) (Wrap xs i op fl)"
    "step_fine A (H, h) (Resize None n)"
proof -
  obtain res h' where "av_buffer_alloc A n h = Some (res, h')" "heap_ok H {} (\<lambda>_. 0) h'" "fresh_ref n h res h'" "neat (\<lambda>_. 0) h'"
    using av_buffer_alloc_ok [OF assms(1), of A n] assms(2) by blast
  then show "step_fine A (H, h) (Alloc n)" using fresh_ref_value [of n h res h']
    by (intro step_fineI [where ret = 0 and res = res and H' = H and h' = h']) simp_all
  obtain res h' where z: "av_buffer_allocz A n h = Some (res, h')" "heap_ok H {} (\<lambda>_. 0) h'" "neat (\<lambda>_. 0) h'"
    "case res of None \<Rightarrow> refs h' = refs h \<and> view h' = view h
     | Some r \<Rightarrow> refs h r = None \<and> view h' = (view h)(r \<mapsto> replicate n 0)" using allocz_ok [OF assms(1), of A n] assms(2) by blast
  then have "new_value res (\<lambda>ys. ys = replicate n 0) (view h) (view h')"
    by (cases res) (simp_all add: new_value_def view_none)
  with z show "step_fine A (H, h) (Allocz n)" by (intro step_fineI [where ret = 0 and res = res and H' = H and h' = h']) simp_all
  obtain res h' where "client_wrap A xs i op fl h = Some (res, h')" "heap_ok H {} (\<lambda>_. 0) h'" "neat (\<lambda>_. 0) h'"
    "new_value res (\<lambda>ys. ys = xs) (view h) (view h')" using wrap_ok [OF assms(1), of A xs i op fl] assms(2) by blast
  then show "step_fine A (H, h) (Wrap xs i op fl)" by (intro step_fineI [where ret = 0 and res = res and H' = H and h' = h']) simp_all
  obtain ret res h' where r: "buffer_realloc_new A n h = Some (ret, res, h')"
    "allocated (set_flag 0 BUFFER_FLAG_REALLOCATABLE) n h res h'"
    using realloc_new_shape [OF objects_okD(1) [OF heap_okD(1) [OF assms(1)]], of A n] by blast
  note f = allocated_fresh [OF assms(1) r(2) no_flags(2)]
  have "av_buffer_realloc A None n h = Some (ret, res, h')" using r(1) by (simp add: av_buffer_realloc_def)
  then show "step_fine A (H, h) (Resize None n)"
    using f assms(2) fresh_ref_value [of n h res h']
    by (intro step_fineI [where ret = ret and res = res and H' = H and h' = h']) simp_all
qed

lemma share_steps:
  assumes "heap_ok H {} (\<lambda>_. 0) h" "neat (\<lambda>_. 0) h" "card (dom (refs h)) + 2 < 2 ^ 32" "refs h r = Some R" "surroundings_ok A"
  shows "step_fine A (H, h) (Share r)" "step_fine A (H, h) (Drop r)" "step_fine A (H, h) (Unshare r)" "step_fine A (H, h) (Resize (Some r) n)"
proof -
  have nest: "nesting A > 0" using assms(5) by (simp add: surroundings_ok_def)
  have "uses (refs h) (\<lambda>_. 0) (ref_buffer R) + 1 < 2 ^ 32"
    using uses_bound [OF heap_okD(2) [OF assms(1)], of "ref_buffer R"] assms(3) by simp
  from ref_ok [OF assms(1,4) this, of A] assms(2) obtain res h' where s: "av_buffer_ref A r h = Some (res, h')" "heap_ok H {} (\<lambda>_. 0) h'"
    "neat (\<lambda>_. 0) h'" "case res of None \<Rightarrow> refs h' = refs h \<and> view h' = view h
     | Some t \<Rightarrow> refs h t = None \<and> refs h' = (refs h)(t \<mapsto> R) \<and> view h' = (view h)(t := view h r)" by blast
  obtain xs where xs: "view h r = Some xs" "length xs = ref_size R" by (rule heap_refs [OF assms(1,4)])
  have "new_value res (\<lambda>ys. view h r = Some ys) (view h) (view h')"
    using s(4) xs by (cases res) (auto simp: new_value_def view_none)
  with s show "step_fine A (H, h) (Share r)" by (intro step_fineI [where ret = 0 and res = res and H' = H and h' = h']) simp_all
  obtain h' where "buffer_replace A r None h = Some h'" "heap_ok H {} (\<lambda>_. 0) h'" "view h' = (view h)(r := None)" "neat (\<lambda>_. 0) h'"
    using unref_ok [OF assms(1,4) nest] assms(2) by blast
  then show "step_fine A (H, h) (Drop r)"
    by (intro step_fineI [where ret = 0 and res = None and H' = H and h' = h']) (simp_all add: av_buffer_unref_def)
  obtain ret h' where "av_buffer_make_writable A r h = Some (ret, h')" "heap_ok H {} (\<lambda>_. 0) h'" "view h' = view h" "neat (\<lambda>_. 0) h'"
    using make_writable_ok [OF assms(1,4) nest] assms(2) by blast
  then show "step_fine A (H, h) (Unshare r)" by (intro step_fineI [where ret = ret and res = "Some r" and H' = H and h' = h']) simp_all
  obtain ret h' where "av_buffer_realloc A (Some r) n h = Some (ret, Some r, h')" "heap_ok H {} (\<lambda>_. 0) h'" "neat (\<lambda>_. 0) h'"
    "ret = 0 \<and> (\<exists>ys. length ys = n \<and> take (min n (length xs)) ys = take (min n (length xs)) xs \<and> view h' = (view h)(r \<mapsto> ys)) \<or>
     ret = AVERROR_ENOMEM \<and> view h' = view h"
    using realloc_ok [OF assms(1,4) xs(1) nest, of n] assms(2) by blast
  then show "step_fine A (H, h) (Resize (Some r) n)"
    by (intro step_fineI [where ret = ret and res = "Some r" and H' = H and h' = h']) (use xs in auto)
qed

lemma assign_step:
  assumes "heap_ok H {} (\<lambda>_. 0) h" "neat (\<lambda>_. 0) h" "card (dom (refs h)) + 2 < 2 ^ 32" "may_call (H, h) (Assign d s)" "surroundings_ok A"
  shows "step_fine A (H, h) (Assign d s)"
proof -
  have nest: "nesting A > 0" using assms(5) by (simp add: surroundings_ok_def)
  have d: "\<forall>r. d = Some r \<longrightarrow> refs h r \<noteq> None" and s: "\<forall>r. s = Some r \<longrightarrow> refs h r \<noteq> None"
    using assms(4) by (auto split: option.splits)
  have "uses (refs h) (\<lambda>_. 0) b + 1 < 2 ^ 32" for b
    using uses_bound [OF heap_okD(2) [OF assms(1)], of b] assms(3) by simp
  from replace_fn_ok [OF assms(1) d s nest this] assms(2) obtain ret t h' where
    r: "av_buffer_replace A d s h = Some (ret, t, h')" "heap_ok H {} (\<lambda>_. 0) h'" "neat (\<lambda>_. 0) h'"
      "case s of
         None \<Rightarrow> ret = 0 \<and> t = None \<and> view h' = cleared d (view h)
       | Some s \<Rightarrow> ret = 0 \<and> (\<exists>r. t = Some r \<and> (d = Some r \<or> view h r = None) \<and> view h' = (cleared d (view h))(r := view h s)) \<or>
           ret = AVERROR_ENOMEM \<and> t = d \<and> view h' = view h" by blast
  have "value_spec (Assign d s) ret t (view h) (view h')" using r(4) by (cases s) auto
  with r show ?thesis by (intro step_fineI [where ret = ret and res = t and H' = H and h' = h']) simp_all
qed

lemma store_step:
  assumes "heap_ok H {} (\<lambda>_. 0) h" "neat (\<lambda>_. 0) h" "may_call (H, h) (Store r xs)"
  shows "step_fine A (H, h) (Store r xs)"
proof -
  obtain R where R: "refs h r = Some R" "av_buffer_is_writable r h = Some True" "length xs \<le> ref_size R"
    using assms(3) by (auto split: option.splits)
  obtain old B a i where B: "view h r = Some old" "buffers h (ref_buffer R) = Some B" "ref_data R = Some (a, i)"
    by (rule heap_refs [OF assms(1) R(1)])
  have ex: "exclusive h r" using is_writable_ok [OF assms(1) R(1) B(2)] R(2) by simp
  from write_heap [OF assms(1) R(1) ex B(3) R(3) B(1)] assms(2) obtain h' where
    "mem_write (ref_data R) xs h = Some h'" "heap_ok H {} (\<lambda>_. 0) h'" "view h' = (view h)(r \<mapsto> xs @ drop (length xs) old)" "neat (\<lambda>_. 0) h'"
    by blast
  then show ?thesis using R(1) B(1) by (intro step_fineI [where ret = 0 and res = "Some r" and H' = H and h' = h']) simp_all
qed

lemma pool_steps:
  assumes "heap_ok H {} (\<lambda>_. 0) h" "neat (\<lambda>_. 0) h" "card (dom (refs h)) + 2 < 2 ^ 32" "surroundings_ok A"
  shows "step_fine A (H, h) (Pool_Init2 n op alloc f)" "step_fine A (H, h) (Pool_Init n alloc)"
    "p \<in> H \<Longrightarrow> step_fine A (H, h) (Pool_Get p)" "p \<in> H \<Longrightarrow> step_fine A (H, h) (Pool_Uninit p)"
proof -
  have init: "\<exists>res h'. pool_create A P h = (res, h') \<and> view h' = view h \<and> neat (\<lambda>_. 0) h' \<and> heap_ok (H \<union> set_option res) {} (\<lambda>_. 0) h'"
    if "pool_head P = None" "pool_refcount P = 1" for P
  proof -
    obtain res h' where r: "pool_create A P h = (res, h')" by (cases "pool_create A P h")
    show ?thesis using pool_create_ok [OF assms(1) that, of A] assms(2) r by (cases res) auto
  qed
  obtain res h' where "av_buffer_pool_init2 A n op alloc f h = (res, h')" "view h' = view h" "neat (\<lambda>_. 0) h'"
    "heap_ok (H \<union> set_option res) {} (\<lambda>_. 0) h'"
    using init [of "\<lparr>pool_head = None, pool_refcount = 1, pool_size = n, pool_opaque = op, pool_alloc = None, pool_alloc2 = alloc, pool_free = f\<rparr>"]
    by (auto simp: av_buffer_pool_init2_def)
  then show "step_fine A (H, h) (Pool_Init2 n op alloc f)"
    by (intro step_fineI [where ret = 0 and res = res and H' = "H \<union> set_option res" and h' = h']) simp_all
  obtain res h' where "av_buffer_pool_init A n alloc h = (res, h')" "view h' = view h" "neat (\<lambda>_. 0) h'"
    "heap_ok (H \<union> set_option res) {} (\<lambda>_. 0) h'"
    using init [of "\<lparr>pool_head = None, pool_refcount = 1, pool_size = n, pool_opaque = No_Opaque, pool_alloc = alloc, pool_alloc2 = None, pool_free = None\<rparr>"]
    by (auto simp: av_buffer_pool_init_def)
  then show "step_fine A (H, h) (Pool_Init n alloc)"
    by (intro step_fineI [where ret = 0 and res = res and H' = "H \<union> set_option res" and h' = h']) simp_all
  show "step_fine A (H, h) (Pool_Uninit p)" if "p \<in> H"
  proof -
    note pin = that
    obtain h' where "av_buffer_pool_uninit A (Some p) h = Some h'" "heap_ok (H - {p}) {} (\<lambda>_. 0) h'" "neat (\<lambda>_. 0) h'" "view h' = view h"
      using pool_uninit_ok [OF assms(1) pin, of A] assms(2) by blast
    then show ?thesis by (intro step_fineI [where ret = 0 and res = None and H' = "H - {p}" and h' = h']) simp_all
  qed
  show "step_fine A (H, h) (Pool_Get p)" if "p \<in> H"
  proof -
    note pin = that
    have env: "user_alloc_ok A" "nesting A > 0" using assms(4) by (simp_all add: surroundings_ok_def)
    obtain P where P: "pools h p = Some P" using objects_okD(6) [OF heap_okD(1) [OF assms(1)]] pin by auto
    have "pool_refcount P + 1 < 2 ^ 32"
      using pool_count_bound [OF heap_okD(1) [OF assms(1)] P] loans_bound [OF assms(1)] assms(3) by simp
    from pool_get_ok [OF assms(1) P this env] assms(2) obtain res h' where
      "av_buffer_pool_get A p h = Some (res, h')" "heap_ok H {} (\<lambda>_. 0) h'" "obtained (pool_size P) h res h'" "neat (\<lambda>_. 0) h'" by blast
    then show ?thesis by (intro step_fineI [where ret = 0 and res = res and H' = H and h' = h']) (simp_all add: obtained_value)
  qed
qed

lemma client_step_ok:
  assumes "client_ok (H, h)" "card (dom (refs h)) + 2 < 2 ^ 32" "may_call (H, h) x" "surroundings_ok A"
  shows "step_fine A (H, h) x"
proof -
  have ok: "heap_ok H {} (\<lambda>_. 0) h" "neat (\<lambda>_. 0) h" using assms(1) by (simp_all add: client_ok_def)
  note shared = share_steps [OF ok assms(2) _ assms(4)] and pool = pool_steps [OF ok assms(2,4)]
  show ?thesis
  proof (cases x)
    case (Resize r n)
    then show ?thesis using assms(3) shared(4) alloc_steps(4) [OF ok] by (cases r) auto
  next
    case (Assign d s)
    then show ?thesis using assign_step [OF ok assms(2) _ assms(4)] assms(3) by simp
  next
    case (Store r xs)
    then show ?thesis using store_step [OF ok] assms(3) by simp
  qed (use assms(3) shared(1-3) alloc_steps(1-3) [OF ok] pool in auto)
qed

lemma empty_heap_ok: "client_ok ({}, empty_heap)"
proof -
  have loan: "loan u empty_heap = Map.empty" for u by (simp add: loan_def empty_heap_def fun_eq_iff)
  have claim: "claim u empty_heap = Map.empty" for u
  proof
    fix c show "claim u empty_heap c = None" by (cases c) (simp_all add: empty_heap_def)
  qed
  have u0: "uses Map.empty (\<lambda>_. 0) b = 0" for b by (simp add: uses_def holders_def)
  have "objects_ok {} {} (uses (refs empty_heap) (\<lambda>_. 0)) empty_heap"
    by (rule objects_okI) (simp_all add: bounded_def memory_ok_def loan claim, simp_all add: empty_heap_def u0)
  then show ?thesis by (simp add: client_ok_def heap_ok_def refs_ok_def neat_def tidy_def empty_heap_def)
qed

lemma reach_ok:
  assumes "surroundings_ok A" "buffer_reach A s"
  shows "client_ok s"
  using assms(2)
proof (induction rule: buffer_reach.induct)
  case start
  show ?case by (rule empty_heap_ok)
next
  case (step H h x res s)
  obtain ret t s' where "buffer_step A (H, h) x = Some ((ret, t), s')" "client_ok s'"
    using client_step_ok [OF step.IH step.hyps(2,3) assms(1)] unfolding step_fine_def by blast
  then show ?case using step.hyps(4) by simp
qed


section \<open>What clients can rely on\<close>

text \<open>A small run for the witnesses: a pool of buffers of two bytes, one buffer of it, shared once.\<close>

definition buffer_demo_env :: env where
  "buffer_demo_env = \<lparr>oom = (\<lambda>_. False), junk = (\<lambda>_. 7), mutex_ok = True, nesting = 1, user_alloc = (\<lambda>k op n h. Some (None, h))\<rparr>"

fun buffer_run :: "env \<Rightarrow> buffer_op list \<Rightarrow> client \<Rightarrow> client option" where
  "buffer_run A [] s = Some s"
| "buffer_run A (x # xs) s =
     (if card (dom (refs (snd s))) + 2 < 2 ^ 32 \<and> may_call s x
      then (case buffer_step A s x of None \<Rightarrow> None | Some (res, s) \<Rightarrow> buffer_run A xs s) else None)"

lemma run_reach: "buffer_run A xs s = Some s' \<Longrightarrow> buffer_reach A s \<Longrightarrow> buffer_reach A s'"
proof (induction xs arbitrary: s)
  case (Cons x xs)
  obtain H h where s: "s = (H, h)" by (cases s)
  from Cons.prems(1) obtain res t where "card (dom (refs h)) + 2 < 2 ^ 32" "may_call (H, h) x" "buffer_step A (H, h) x = Some (res, t)"
    "buffer_run A xs t = Some s'" by (auto simp: s split: if_splits option.splits)
  then show ?case using Cons.IH Cons.prems(2) buffer_reach.step unfolding s by blast
qed simp

lemma buffer_demo_env_ok: "surroundings_ok buffer_demo_env"
  by (auto simp: surroundings_ok_def buffer_demo_env_def user_alloc_ok_def allocated_def intro: exI [of _ "fresh _"])

definition buffer_demo_ops :: "buffer_op list" where
  "buffer_demo_ops = [Pool_Init 2 None, Pool_Get 0, Share 3]"

definition buffer_demo_heap :: heap where
  "buffer_demo_heap = snd (the (buffer_run buffer_demo_env buffer_demo_ops ({}, empty_heap)))"

lemmas buffer_evals = empty_heap_def buffer_demo_env_def new_address_def av_malloc_def zero_buffer_def buffer_create_def av_buffer_create_def
  av_buffer_alloc_def count_up_def av_buffer_ref_def buffer_pool_free_def pool_count_down_def pool_release_buffer_def free_buffer_def
  count_down_def free_ref_def buffer_replace_def av_buffer_unref_def av_buffer_is_writable_def av_buffer_make_writable_def
  pool_create_def av_buffer_pool_init_def av_buffer_pool_uninit_def pool_alloc_buffer_def pool_reuse_buffer_def av_buffer_pool_get_def
  memcpy_def has_flag_def BUFFER_FLAG_NO_FREE_def AV_BUFFER_FLAG_READONLY_def

lemma buffer_demo_run: "buffer_run buffer_demo_env buffer_demo_ops ({}, empty_heap) = Some ({0}, buffer_demo_heap)"
  by (simp add: buffer_demo_heap_def buffer_demo_ops_def buffer_evals upt_rec slice_def splice_def)

lemma buffer_demo_reach: "buffer_reach buffer_demo_env ({0}, buffer_demo_heap)"
  by (rule run_reach [OF buffer_demo_run buffer_reach.start])

lemma buffer_demo_refs: "refs buffer_demo_heap = [3 \<mapsto> \<lparr>ref_buffer = Own 2, ref_data = Some (1, 0), ref_size = 2\<rparr>,
    5 \<mapsto> \<lparr>ref_buffer = Own 2, ref_data = Some (1, 0), ref_size = 2\<rparr>]" "blocks buffer_demo_heap = [1 \<mapsto> [7, 7]]"
  by (simp_all add: buffer_demo_heap_def buffer_demo_ops_def buffer_evals upt_rec slice_def splice_def, simp_all add: eval_nat_numeral)

text \<open>
  Property C29: whatever sequence of calls a client has made, and whichever allocations failed, the next
  call on references and pools that it holds returns: no function follows a dangling pointer, frees
  something twice, accesses memory outside a block or nests callbacks deeper than once.
\<close>

theorem buffers_never_stuck:
  assumes "surroundings_ok A" "buffer_reach A (H, h)" "card (dom (refs h)) + 2 < 2 ^ 32" "may_call (H, h) x"
  shows "\<exists>res s'. buffer_step A (H, h) x = Some (res, s')"
  using client_step_ok [OF reach_ok [OF assms(1,2)] assms(3,4,1)] unfolding step_fine_def by blast

theorem buffers_never_stuck_witness: "\<exists>res s'. buffer_step buffer_demo_env ({0}, buffer_demo_heap) (Unshare 5) = Some (res, s')"
  by (rule buffers_never_stuck [OF buffer_demo_env_ok buffer_demo_reach]) (simp_all add: buffer_demo_refs)

text \<open>
  Property C30: in every state that a client can reach, each reference points to a live buffer whose
  counter is the number of references to it, and all its bytes lie in live memory; each buffer of its
  own is shown by some reference.
\<close>

theorem references_are_counted:
  assumes "surroundings_ok A" "buffer_reach A (H, h)"
  shows "(\<forall>r R. refs h r = Some R \<longrightarrow> (\<exists>B. buffers h (ref_buffer R) = Some B \<and>
       refcount B = card {r'. \<exists>R'. refs h r' = Some R' \<and> ref_buffer R' = ref_buffer R} \<and>
       mem_read (ref_data R) (ref_size R) h \<noteq> None)) \<and>
     (\<forall>a. buffers h (Own a) \<noteq> None \<longrightarrow> (\<exists>r R. refs h r = Some R \<and> ref_buffer R = Own a))"
proof (intro conjI allI impI)
  have ok: "heap_ok H {} (\<lambda>_. 0) h" "neat (\<lambda>_. 0) h" using reach_ok [OF assms] by (simp_all add: client_ok_def)
  show "\<exists>B. buffers h (ref_buffer R) = Some B \<and> refcount B = card {r'. \<exists>R'. refs h r' = Some R' \<and> ref_buffer R' = ref_buffer R} \<and>
      mem_read (ref_data R) (ref_size R) h \<noteq> None" if "refs h r = Some R" for r R
  proof -
    note r = that
    obtain xs B where "mem_read (ref_data R) (ref_size R) h = Some xs" "buffers h (ref_buffer R) = Some B"
      "buffer_ok (uses (refs h) (\<lambda>_. 0)) h (ref_buffer R) B" by (rule heap_refs [OF ok(1) r])
    then show ?thesis by (simp add: buffer_ok_def uses_def holders_def)
  qed
  show "\<exists>r R. refs h r = Some R \<and> ref_buffer R = Own a" if "buffers h (Own a) \<noteq> None" for a
  proof -
    have "uses (refs h) (\<lambda>_. 0) (Own a) > 0" using ok(2) that by (simp add: neat_def tidy_def)
    then have "holders (refs h) (Own a) \<noteq> {}" by (auto simp: uses_def)
    then show ?thesis by (auto simp: holders_def)
  qed
qed

theorem references_are_counted_witness: "\<exists>B. buffers buffer_demo_heap (Own 2) = Some B \<and> refcount B = 2"
proof -
  have "\<exists>B. buffers buffer_demo_heap (Own 2) = Some B \<and>
      refcount B = card {r'. \<exists>R'. refs buffer_demo_heap r' = Some R' \<and> ref_buffer R' = Own 2}"
    using conjunct1 [OF references_are_counted [OF buffer_demo_env_ok buffer_demo_reach], rule_format, of 3] by (auto simp: buffer_demo_refs)
  moreover have "{r'. \<exists>R'. refs buffer_demo_heap r' = Some R' \<and> ref_buffer R' = Own 2} = {3, 5}" by (auto simp: buffer_demo_refs)
  ultimately show ?thesis by auto
qed

text \<open>
  Property C31: although references share memory, each behaves like a byte string of its own: a call
  changes what the references show exactly as the specification on independent strings says. Sharing
  copies the value, a new buffer from a pool overwrites nobody's bytes, making writable changes no
  value, reallocation keeps the common prefix, a write is seen through its reference only.
\<close>

theorem references_are_values:
  assumes "surroundings_ok A" "buffer_reach A (H, h)" "card (dom (refs h)) + 2 < 2 ^ 32" "may_call (H, h) x"
    and "buffer_step A (H, h) x = Some ((ret, res), (H', h'))"
  shows "value_spec x ret res (view h) (view h')"
  using client_step_ok [OF reach_ok [OF assms(1,2)] assms(3,4,1)] assms(5) unfolding step_fine_def by auto

theorem references_are_values_witness:
  "\<exists>h'. buffer_step buffer_demo_env ({0}, buffer_demo_heap) (Unshare 5) = Some ((0, Some 5), ({0}, h')) \<and> view h' = view buffer_demo_heap"
proof -
  have "\<exists>h'. buffer_step buffer_demo_env ({0}, buffer_demo_heap) (Unshare 5) = Some ((0, Some 5), ({0}, h'))"
    by (simp add: buffer_demo_heap_def buffer_demo_ops_def buffer_evals upt_rec slice_def splice_def)
  then obtain h' where h': "buffer_step buffer_demo_env ({0}, buffer_demo_heap) (Unshare 5) = Some ((0, Some 5), ({0}, h'))" by blast
  moreover have "value_spec (Unshare 5) 0 (Some 5) (view buffer_demo_heap) (view h')"
    by (rule references_are_values [OF buffer_demo_env_ok buffer_demo_reach _ _ h']) (simp_all add: buffer_demo_refs)
  ultimately show ?thesis by simp
qed

text \<open>Without references and pools, only the blocks of others are left.\<close>

lemma heap_empty:
  assumes "heap_ok {} U (\<lambda>_. 0) h" "neat (\<lambda>_. 0) h" "refs h = Map.empty"
  shows "dom (blocks h) = U" "buffers h = Map.empty" "entries h = Map.empty" "pools h = Map.empty"
proof -
  have u: "uses (refs h) (\<lambda>_. 0) = (\<lambda>_. 0)" using assms(3) by (simp add: uses_def holders_def fun_eq_iff)
  note o = objects_okD [OF heap_okD(1) [OF assms(1), unfolded u]] and t = assms(2) [unfolded neat_def u]
  have l: "loan (\<lambda>_. 0) h = Map.empty" by (auto simp: loan_def fun_eq_iff split: option.splits)
  have p: "pools h p = None" for p
  proof (rule ccontr)
    assume "pools h p \<noteq> None"
    then obtain P where P: "pools h p = Some P" by blast
    from o(7) [OF P] l have "pool_refcount P = 0" by (simp add: pool_ok_def)
    moreover have "pool_refcount P > 0" using t P unfolding tidy_def by blast
    ultimately show False by simp
  qed
  have e: "entries h e = None" for e
  proof (rule ccontr)
    assume "entries h e \<noteq> None"
    then obtain E where "entries h e = Some E" by blast
    from o(4) [OF this] p show False by (simp add: entry_ok_def)
  qed
  have b: "buffers h b = None" for b
    using t e o(1) by (cases b) (auto simp: tidy_def bounded_def)
  have "claim (\<lambda>_. 0) h c = None" for c by (cases c) (simp_all add: b e)
  then show "dom (blocks h) = U" using o(2) by (auto simp: memory_ok_def ran_def)
  show "buffers h = Map.empty" "entries h = Map.empty" "pools h = Map.empty" using p e b by (simp_all add: fun_eq_iff)
qed

lemma client_empty:
  assumes "client_ok ({}, h)" "refs h = Map.empty"
  shows "blocks h = Map.empty \<and> buffers h = Map.empty \<and> entries h = Map.empty \<and> pools h = Map.empty"
proof -
  have "heap_ok {} {} (\<lambda>_. 0) h" "neat (\<lambda>_. 0) h" using assms(1) by (simp_all add: client_ok_def)
  from heap_empty [OF this assms(2)] show ?thesis by (simp add: dom_eq_empty_conv)
qed

text \<open>
  Property C32: nothing leaks: in every state that a client can reach, once it has given up all
  references and all pools, no memory block, buffer, pool entry or pool is left.
\<close>

theorem nothing_leaks:
  assumes "surroundings_ok A" "buffer_reach A ({}, h)" "refs h = Map.empty"
  shows "blocks h = Map.empty \<and> buffers h = Map.empty \<and> entries h = Map.empty \<and> pools h = Map.empty"
  by (rule client_empty [OF reach_ok [OF assms(1,2)] assms(3)])

theorem nothing_leaks_witness:
  "\<exists>h. buffer_run buffer_demo_env (buffer_demo_ops @ [Drop 3, Pool_Uninit 0, Drop 5]) ({}, empty_heap) = Some ({}, h) \<and> blocks h = Map.empty"
proof -
  have run: "\<exists>h. buffer_run buffer_demo_env (buffer_demo_ops @ [Drop 3, Pool_Uninit 0, Drop 5]) ({}, empty_heap) = Some ({}, h) \<and> refs h = Map.empty"
    by (simp add: buffer_demo_ops_def buffer_evals upt_rec slice_def splice_def pool_flush.simps, simp add: eval_nat_numeral)
  then obtain h where h: "buffer_run buffer_demo_env (buffer_demo_ops @ [Drop 3, Pool_Uninit 0, Drop 5]) ({}, empty_heap) = Some ({}, h)"
    "refs h = Map.empty" by blast
  from nothing_leaks [OF buffer_demo_env_ok run_reach [OF h(1) buffer_reach.start] h(2)] h(1) show ?thesis by blast
qed

lemma alloc_fails: "av_buffer_alloc A n h = Some (None, h') \<Longrightarrow> \<exists>a. oom A a"
  by (rule ccontr) (auto simp: av_buffer_alloc_def av_malloc_def av_buffer_create_def buffer_create_def new_address_def)

text \<open>
  A reference that \<open>av_buffer_make_writable\<close> returns 0 for is the only one to its buffer
  and shows the same bytes as before, and the other references are as they were; if it fails, that was
  for want of memory and no reference has changed.
\<close>

theorem make_writable_unshares:
  assumes "surroundings_ok A" "buffer_reach A (H, h)" "refs h r = Some R" "av_buffer_make_writable A r h = Some (ret, h')"
  shows "view h' = view h \<and> (\<forall>r'. r' \<noteq> r \<longrightarrow> refs h' r' = refs h r') \<and>
    (ret = 0 \<and> (\<exists>R'. refs h' r = Some R' \<and> (\<forall>q Q. refs h' q = Some Q \<longrightarrow> q \<noteq> r \<longrightarrow> ref_buffer Q \<noteq> ref_buffer R')) \<or>
     ret = AVERROR_ENOMEM \<and> (\<exists>a. oom A a) \<and> refs h' = refs h)"
proof -
  have ok: "heap_ok H {} (\<lambda>_. 0) h" using reach_ok [OF assms(1,2)] by (simp add: client_ok_def)
  have "nesting A > 0" using assms(1) by (simp add: surroundings_ok_def)
  from make_writable_ok [OF ok assms(3) this] assms(4) have m: "view h' = view h" "\<forall>r'. r' \<noteq> r \<longrightarrow> refs h' r' = refs h r'"
    "ret = 0 \<and> exclusive h' r \<or> ret = AVERROR_ENOMEM \<and> refs h' = refs h" by auto
  have "refs h' r \<noteq> None"
  proof
    assume "refs h' r = None"
    then have "view h r = None" using m(1) view_none by metis
    then show False using heap_refs [OF ok assms(3)] by (metis option.distinct(1))
  qed
  moreover have "\<exists>a. oom A a" if "ret \<noteq> 0"
    using that assms(4) by (auto simp: av_buffer_make_writable_def split: bind_splits if_splits option.splits prod.splits dest: alloc_fails)
  moreover have "ret = 0 \<Longrightarrow> exclusive h' r" using m(3) by auto
  ultimately show ?thesis using m unfolding exclusive_def by blast
qed

theorem make_writable_unshares_witness:
  "\<exists>h'. av_buffer_make_writable buffer_demo_env 5 buffer_demo_heap = Some (0, h') \<and> view h' = view buffer_demo_heap"
proof -
  have "\<exists>h'. av_buffer_make_writable buffer_demo_env 5 buffer_demo_heap = Some (0, h')"
    by (simp add: buffer_demo_heap_def buffer_demo_ops_def buffer_evals upt_rec slice_def splice_def)
  then obtain h' where h': "av_buffer_make_writable buffer_demo_env 5 buffer_demo_heap = Some (0, h')" by blast
  from make_writable_unshares [OF buffer_demo_env_ok buffer_demo_reach _ h'] show ?thesis using h' by (simp add: buffer_demo_refs)
qed

end
