(* ===== verification/Pack_Dict.thy ===== *)
theory Pack_Dict
  imports Dict
begin

text \<open>
  The packed form of a dictionary in the side data of a packet: \<open>av_packet_pack_dictionary\<close> and
  \<open>av_packet_unpack_dictionary\<close> of \<open>libavcodec/packet.c\<close>. All keys and values are put one after the
  other, each with its terminating zero. Unpacking gets its bytes from a demuxer, that is from the
  file, and must not read past their end.
\<close>

section \<open>Packing\<close>

text \<open>The strings in the order of the loops, the key of an entry before its value.\<close>

definition dict_strings :: "dict \<Rightarrow> string list" where
  "dict_strings m = concat (map (\<lambda>e. [fst e, snd e]) (entries m))"

text \<open>The first pass adds up the lengths, with the largest \<open>size_t\<close>; the second writes the strings.\<close>

fun pack_length :: "nat \<Rightarrow> string list \<Rightarrow> nat \<Rightarrow> nat option" where
  "pack_length size_max [] n = Some n"
| "pack_length size_max (s # ss) n =
     (let len = length s + 1 in if len > size_max - n then None else pack_length size_max ss (n + len))"

fun pack_strings :: "string list \<Rightarrow> int \<Rightarrow> string \<Rightarrow> string option" where
  "pack_strings [] at data = Some data"
| "pack_strings (s # ss) at data = do {
     data \<leftarrow> store data at (s @ [CHR 0x00]);
     pack_strings ss (at + int (length s) + 1) data
   }"

text \<open>
  The result is the data, \<open>None\<close> for \<open>NULL\<close>, and its size. \<open>junk\<close> is what the memory that \<open>av_malloc\<close>
  returns contains.
\<close>

definition av_packet_pack_dictionary :: "(alloc_site \<Rightarrow> bool) \<Rightarrow> (nat \<Rightarrow> char) \<Rightarrow> nat \<Rightarrow> dict \<Rightarrow> (string option \<times> nat) option" where
  "av_packet_pack_dictionary alloc junk size_max m =
     (if m = None then Some (None, 0)
      else case pack_length size_max (dict_strings m) 0 of
        None \<Rightarrow> Some (None, 0)
      | Some n \<Rightarrow>
          if \<not> alloc Print then Some (None, 0)
          else do { data \<leftarrow> pack_strings (dict_strings m) 0 (map junk [0..<n]); Some (Some data, n) })"

section \<open>Unpacking\<close>

text \<open>\<open>strlen\<close> of the string that starts at \<open>i\<close>; there may be none that ends in the data.\<close>

function strlen_at :: "string \<Rightarrow> int \<Rightarrow> int option" where
  "strlen_at data i =
     (case peek data i of
        None \<Rightarrow> None
      | Some c \<Rightarrow> if c = CHR 0x00 then Some 0 else map_option ((+) 1) (strlen_at data (i + 1)))"
  by pat_completeness auto
termination
  by (relation "measure (\<lambda>(data, i). nat (int (length data) - i))") (auto simp: peek_def split: if_splits)

declare strlen_at.simps [simp del]

definition string_at :: "string \<Rightarrow> int \<Rightarrow> int \<Rightarrow> string" where
  "string_at data i n = slice (nat i) (nat n) data"

lemma strlen_at_Some:
  "strlen_at data i = Some n \<Longrightarrow> 0 \<le> n \<and> 0 \<le> i \<and> i + n < int (length data) \<and> data ! nat (i + n) = CHR 0x00"
proof (induction data i arbitrary: n rule: strlen_at.induct)
  case (1 data i)
  from "1.prems" obtain c where c: "peek data i = Some c" by (auto simp: strlen_at.simps [of data i] split: option.splits)
  then have i: "0 \<le> i" "i < int (length data)" "c = data ! nat i" by (auto simp: peek_def split: if_splits)
  show ?case
  proof (cases "c = CHR 0x00")
    case True
    then show ?thesis using "1.prems" c i by (simp add: strlen_at.simps [of data i])
  next
    case False
    then obtain k where k: "strlen_at data (i + 1) = Some k" "n = 1 + k"
      using "1.prems" c by (auto simp: strlen_at.simps [of data i])
    from "1.IH" [OF c False k(1)] k(2) i show ?thesis by (simp add: algebra_simps)
  qed
qed

function unpack_loop :: "(alloc_site \<Rightarrow> bool) \<Rightarrow> string \<Rightarrow> int \<Rightarrow> dict \<Rightarrow> (int \<times> dict) option" where
  "unpack_loop alloc data i m =
     (if i < int (length data)
      then case strlen_at data i of
        None \<Rightarrow> None
      | Some klen \<Rightarrow>
          let val = i + klen + 1 in
          if val \<ge> int (length data) \<or> klen = 0 then Some (AVERROR_INVALIDDATA, m)
          else case strlen_at data val of
            None \<Rightarrow> None
          | Some vlen \<Rightarrow>
              (case av_dict_set alloc m (Some (string_at data i klen)) (Some (string_at data val vlen)) 0 of
                 (ret, m) \<Rightarrow> if ret < 0 then Some (ret, m) else unpack_loop alloc data (val + vlen + 1) m)
      else Some (0, m))"
  by pat_completeness auto
termination
  by (relation "measure (\<lambda>(alloc, data, i, m). nat (int (length data) - i))") (auto dest!: strlen_at_Some)

declare unpack_loop.simps [simp del]

definition av_packet_unpack_dictionary :: "(alloc_site \<Rightarrow> bool) \<Rightarrow> string option \<Rightarrow> dict option \<Rightarrow> (int \<times> dict option) option" where
  "av_packet_unpack_dictionary alloc data m =
     (case (m, data) of
        (Some d, Some bytes) \<Rightarrow>
          if bytes = [] then Some (0, m)
          else if last bytes \<noteq> CHR 0x00 then Some (AVERROR_INVALIDDATA, m)
          else map_option (\<lambda>(ret, d). (ret, Some d)) (unpack_loop alloc bytes 0 d)
      | _ \<Rightarrow> Some (0, m))"

section \<open>Properties\<close>

text \<open>Bytes that end with a zero: every string in them ends.\<close>

lemma strlen_at_total: "data \<noteq> [] \<Longrightarrow> last data = CHR 0x00 \<Longrightarrow> 0 \<le> i \<Longrightarrow> i < int (length data) \<Longrightarrow> strlen_at data i \<noteq> None"
proof (induction data i rule: strlen_at.induct)
  case (1 data i)
  have c: "peek data i = Some (data ! nat i)" using "1.prems"(3,4) by simp
  show ?case
  proof (cases "data ! nat i = CHR 0x00")
    case True
    then show ?thesis using c by (simp add: strlen_at.simps [of data i])
  next
    case False
    then have "nat i \<noteq> length data - 1" using "1.prems"(1,2) by (auto simp: last_conv_nth)
    then have "i + 1 < int (length data)" using "1.prems"(3,4) by linarith
    with "1.IH" [OF c False "1.prems"(1,2)] "1.prems"(3) show ?thesis using c False by (simp add: strlen_at.simps [of data i])
  qed
qed

lemma unpack_loop_returns:
  "data \<noteq> [] \<Longrightarrow> last data = CHR 0x00 \<Longrightarrow> 0 \<le> i \<Longrightarrow> unpack_loop alloc data i m \<noteq> None"
proof (induction alloc data i m rule: unpack_loop.induct)
  case (1 alloc data i m)
  show ?case
  proof (cases "i < int (length data)")
    case i: True
    obtain klen where k: "strlen_at data i = Some klen" using strlen_at_total [OF "1.prems" i] by blast
    let ?val = "i + klen + 1"
    show ?thesis
    proof (cases "?val \<ge> int (length data) \<or> klen = 0")
      case True
      then show ?thesis using i k by (simp add: unpack_loop.simps [of alloc data i])
    next
      case False
      have pos: "0 \<le> ?val" using strlen_at_Some [OF k] by simp
      obtain vlen where v: "strlen_at data ?val = Some vlen" using strlen_at_total [OF "1.prems"(1,2) pos] False by auto
      obtain ret d where d: "av_dict_set alloc m (Some (string_at data i klen)) (Some (string_at data ?val vlen)) 0 = (ret, d)"
        by (metis surj_pair)
      have next_pos: "0 \<le> ?val + vlen + 1" using strlen_at_Some [OF v] by simp
      show ?thesis
      proof (cases "ret < 0")
        case True
        then show ?thesis using i k False v d by (simp add: unpack_loop.simps [of alloc data i])
      next
        case ret: False
        from "1.IH" [OF i k refl False v d [symmetric] ret "1.prems"(1,2) next_pos] show ?thesis
          using i k False v d ret by (simp add: unpack_loop.simps [of alloc data i])
      qed
    qed
  qed (simp add: unpack_loop.simps)
qed

text \<open>
  Property C40: whatever bytes a file gives and whichever allocation fails, unpacking a dictionary
  returns and reads nothing outside the bytes.
\<close>

theorem unpack_dictionary_safe: "\<exists>ret d. av_packet_unpack_dictionary alloc data m = Some (ret, d)"
proof (cases m; cases data)
  fix d bytes assume m: "m = Some d" "data = Some bytes"
  show ?thesis
  proof (cases "bytes = [] \<or> last bytes \<noteq> CHR 0x00")
    case False
    then have "unpack_loop alloc bytes 0 d \<noteq> None" using unpack_loop_returns by simp
    then show ?thesis using False m by (auto simp: av_packet_unpack_dictionary_def)
  qed (auto simp: av_packet_unpack_dictionary_def m)
qed (simp_all add: av_packet_unpack_dictionary_def)

text \<open>What packing writes: the strings with their terminators.\<close>

definition packed :: "string list \<Rightarrow> string" where
  "packed ss = concat (map (\<lambda>s. s @ [CHR 0x00]) ss)"

lemma packed_simps [simp]: "packed [] = []" "packed (s # ss) = s @ CHR 0x00 # packed ss"
  by (simp_all add: packed_def)

lemma pack_length_eq: "pack_length size_max ss n = Some k \<Longrightarrow> k = n + length (packed ss)"
  by (induction ss arbitrary: n) (fastforce simp: Let_def split: if_splits)+

lemma pack_strings_eq:
  "length rest = length (packed ss) \<Longrightarrow> pack_strings ss (int (length pre)) (pre @ rest) = Some (pre @ packed ss)"
proof (induction ss arbitrary: pre rest)
  case (Cons s ss)
  let ?s = "s @ [CHR 0x00]"
  have split: "splice (length pre) ?s (pre @ rest) = (pre @ ?s) @ drop (length ?s) rest" by (simp add: splice_def)
  have "pack_strings ss (int (length (pre @ ?s))) ((pre @ ?s) @ drop (length ?s) rest) = Some ((pre @ ?s) @ packed ss)"
    by (rule Cons.IH) (use Cons.prems in simp)
  moreover have "store (pre @ rest) (int (length pre)) ?s = Some ((pre @ ?s) @ drop (length ?s) rest)"
    using Cons.prems split by simp
  ultimately show ?case by (simp add: algebra_simps)
qed simp

lemma strlen_at_string:
  assumes "CHR 0x00 \<notin> set s"
  shows "strlen_at (pre @ s @ CHR 0x00 # rest) (int (length pre)) = Some (int (length s))"
  using assms
proof (induction s arbitrary: pre)
  case Nil
  then show ?case by (simp add: strlen_at.simps [of _ "int (length pre)"])
next
  case (Cons c s)
  have "strlen_at ((pre @ [c]) @ s @ CHR 0x00 # rest) (int (length (pre @ [c]))) = Some (int (length s))"
    by (rule Cons.IH) (use Cons.prems in simp)
  moreover have "c \<noteq> CHR 0x00" using Cons.prems by auto
  ultimately show ?case by (simp add: strlen_at.simps [of _ "int (length pre)"] nth_append add.commute)
qed

lemma string_at_string: "string_at (pre @ s @ rest) (int (length pre)) (int (length s)) = s"
  by (simp add: string_at_def slice_def)

lemma unpack_packed:
  assumes "\<forall>(k, v) \<in> set fs. k \<noteq> [] \<and> CHR 0x00 \<notin> set k \<and> CHR 0x00 \<notin> set v"
    and "distinct (map (\<lambda>e. canon 0 (fst e)) (es @ fs))"
  shows "unpack_loop (\<lambda>s. True) (pre @ packed (dict_strings (Some fs))) (int (length pre)) (normalised es) = Some (0, normalised (es @ fs))"
  using assms
proof (induction fs arbitrary: es pre)
  case Nil
  then show ?case by (simp add: unpack_loop.simps dict_strings_def)
next
  case (Cons f fs)
  obtain k v where f: "f = (k, v)" by (metis surj_pair)
  let ?rest = "packed (dict_strings (Some fs))"
  let ?data = "pre @ k @ CHR 0x00 # v @ CHR 0x00 # ?rest" and ?val = "int (length pre) + int (length k) + 1"
  have data: "pre @ packed (dict_strings (Some (f # fs))) = ?data" by (simp add: f dict_strings_def)
  have kv: "k \<noteq> []" "CHR 0x00 \<notin> set k" "CHR 0x00 \<notin> set v" using Cons.prems(1) f by auto
  have fresh: "\<forall>e \<in> set es. canon 0 (fst e) \<noteq> canon 0 k" using Cons.prems(2) f by force
  have k: "strlen_at ?data (int (length pre)) = Some (int (length k))" by (rule strlen_at_string [OF kv(2)])
  have v: "strlen_at ?data ?val = Some (int (length v))"
    using strlen_at_string [OF kv(3), of "pre @ k @ [CHR 0x00]" ?rest] by (simp add: add.assoc add.commute)
  have strings: "string_at ?data (int (length pre)) (int (length k)) = k" "string_at ?data ?val (int (length v)) = v"
    using string_at_string [of pre k] string_at_string [of "pre @ k @ [CHR 0x00]" v "CHR 0x00 # ?rest"]
    by (simp_all add: add.assoc add.commute)
  let ?pre = "pre @ k @ CHR 0x00 # v @ [CHR 0x00]"
  have "unpack_loop (\<lambda>s. True) (?pre @ ?rest) (int (length ?pre)) (normalised (es @ [(k, v)])) = Some (0, normalised ((es @ [(k, v)]) @ fs))"
    by (rule Cons.IH) (use Cons.prems f in auto)
  then have ih: "unpack_loop (\<lambda>s. True) ?data (?val + int (length v) + 1) (normalised (es @ [(k, v)])) = Some (0, normalised (es @ f # fs))"
    by (simp add: f algebra_simps)
  have bounds: "int (length pre) < int (length ?data)" "?val < int (length ?data)" by simp_all
  show ?case
    unfolding data unpack_loop.simps [of _ ?data "int (length pre)"]
    using bounds k v strings kv(1) set_new_key [OF fresh refl] ih by (simp add: Let_def del: length_append length_Cons)
qed

text \<open>
  Property C39: a dictionary that was packed into side data is unpacked to the same dictionary, entry
  for entry and in order, if its keys are not empty and differ in more than case.
\<close>

theorem pack_dictionary_roundtrip:
  assumes "av_packet_pack_dictionary (\<lambda>s. True) junk size_max m = Some (Some data, n)" "keys_distinct 0 m"
    and "\<forall>(k, v) \<in> set (entries m). k \<noteq> [] \<and> CHR 0x00 \<notin> set k \<and> CHR 0x00 \<notin> set v"
  shows "length data = n \<and> av_packet_unpack_dictionary (\<lambda>s. True) (Some data) (Some None) = Some (0, Some (normalised (entries m)))"
proof -
  have l: "pack_length size_max (dict_strings m) 0 = Some n" and s: "pack_strings (dict_strings m) 0 (map junk [0..<n]) = Some data"
    using assms(1) by (auto simp: av_packet_pack_dictionary_def split: if_splits option.splits bind_splits)
  have n: "n = length (packed (dict_strings m))" using pack_length_eq [OF l] by simp
  have data: "data = packed (dict_strings m)" using pack_strings_eq [of "map junk [0..<n]" "dict_strings m" "[]"] n s by simp
  have "unpack_loop (\<lambda>s. True) ([] @ packed (dict_strings (Some (entries m)))) (int (length ([] :: string))) (normalised [])
      = Some (0, normalised ([] @ entries m))"
    by (rule unpack_packed [OF assms(3)]) (use assms(2) in \<open>simp add: keys_distinct_def\<close>)
  moreover have "dict_strings (Some (entries m)) = dict_strings m" by (simp add: dict_strings_def)
  ultimately have loop: "unpack_loop (\<lambda>s. True) data 0 None = Some (0, normalised (entries m))"
    using data by (simp add: normalised_def)
  show ?thesis
  proof (cases "entries m = []")
    case True
    then show ?thesis using data n by (simp add: dict_strings_def av_packet_unpack_dictionary_def normalised_def)
  next
    case False
    then have "dict_strings m \<noteq> []" by (cases "entries m") (simp_all add: dict_strings_def)
    then obtain ss t where "dict_strings m = ss @ [t]" by (metis rev_exhaust)
    then have "data \<noteq> []" "last data = CHR 0x00" using data by (simp_all add: packed_def)
    then show ?thesis using loop data n by (simp add: av_packet_unpack_dictionary_def)
  qed
qed

theorem pack_dictionary_roundtrip_witness:
  "av_packet_pack_dictionary (\<lambda>s. True) (\<lambda>i. CHR ''?'') 1000 (Some [(''a'', ''12''), (''b'', '''')]) =
     Some (Some [CHR ''a'', CHR 0x00, CHR ''1'', CHR ''2'', CHR 0x00, CHR ''b'', CHR 0x00, CHR 0x00], 8) \<and>
   av_packet_unpack_dictionary (\<lambda>s. True)
     (Some [CHR ''a'', CHR 0x00, CHR ''1'', CHR ''2'', CHR 0x00, CHR ''b'', CHR 0x00, CHR 0x00]) (Some None) =
     Some (0, Some (Some [(''a'', ''12''), (''b'', '''')]))"
proof -
  have p: "av_packet_pack_dictionary (\<lambda>s. True) (\<lambda>i. CHR ''?'') 1000 (Some [(''a'', ''12''), (''b'', '''')]) =
     Some (Some [CHR ''a'', CHR 0x00, CHR ''1'', CHR ''2'', CHR 0x00, CHR ''b'', CHR 0x00, CHR 0x00], 8)"
    by (simp add: av_packet_pack_dictionary_def dict_strings_def upt_rec splice_def)
  from pack_dictionary_roundtrip [OF p] p show ?thesis
    by (simp add: keys_distinct_def canon_def toupper_samples normalised_def)
qed

end
