(* ===== verification/Packet.thy ===== *)
theory Packet
  imports Buffer_Client Rescale
begin

text \<open>
  \<open>libavcodec/packet.c\<close>: packets, which hold their data through a reference to a buffer and own side
  data, on the heap of \<open>Buffer\<close>; and the lists of packets of \<open>packet_internal.h\<close>.

  A packet is a value, since each one belongs to one variable of its user. Its side data is the array
  of its elements, whose data are blocks of the heap. The memory of that array and of the packet
  itself holds nothing else, so that only its allocation can be seen.
\<close>

section \<open>Packets\<close>

definition AV_INPUT_BUFFER_PADDING_SIZE :: int where "AV_INPUT_BUFFER_PADDING_SIZE = 64"

definition AV_PKT_DATA_NB :: nat where "AV_PKT_DATA_NB = 41"

definition FF_PACKETLIST_FLAG_PREPEND :: int where "FF_PACKETLIST_FLAG_PREPEND = 1"

abbreviation AVERROR_ENOENT :: int where "AVERROR_ENOENT \<equiv> -2"

record AVPacketSideData =
  sd_data :: data_ptr
  sd_size :: nat
  sd_type :: int

record AVPacket =
  pkt_buf :: "nat option"
  pts :: int
  dts :: int
  pkt_data :: data_ptr
  pkt_size :: int
  stream_index :: int
  pkt_flags :: int
  side_data :: "AVPacketSideData list"
  pkt_duration :: int
  pkt_pos :: int
  pkt_opaque :: nat
  opaque_ref :: "nat option"
  pkt_time_base :: AVRational

definition get_packet_defaults :: AVPacket where
  "get_packet_defaults = \<lparr>pkt_buf = None, pts = AV_NOPTS_VALUE, dts = AV_NOPTS_VALUE, pkt_data = None, pkt_size = 0,
     stream_index = 0, pkt_flags = 0, side_data = [], pkt_duration = 0, pkt_pos = - 1, pkt_opaque = 0, opaque_ref = None,
     pkt_time_base = \<lparr>num = 0, den = 1\<rparr>\<rparr>"

definition av_init_packet :: "AVPacket \<Rightarrow> AVPacket" where
  "av_init_packet pkt = pkt\<lparr>pts := AV_NOPTS_VALUE, dts := AV_NOPTS_VALUE, pkt_pos := - 1, pkt_duration := 0, pkt_flags := 0,
     stream_index := 0, pkt_buf := None, side_data := [], pkt_opaque := 0, opaque_ref := None, pkt_time_base := \<lparr>num = 0, den = 1\<rparr>\<rparr>"

definition av_packet_alloc :: "env \<Rightarrow> heap \<Rightarrow> AVPacket option \<times> heap" where
  "av_packet_alloc A h = (case new_address A h of (None, h) \<Rightarrow> (None, h) | (Some p, h) \<Rightarrow> (Some get_packet_defaults, h))"

text \<open>A pointer \<open>p + n\<close>, which must not point before its block.\<close>

definition ptr_add :: "data_ptr \<Rightarrow> int \<Rightarrow> data_ptr option" where
  "ptr_add p n = (case p of None \<Rightarrow> None | Some (a, i) \<Rightarrow> if 0 \<le> int i + n then Some (Some (a, nat (int i + n))) else None)"

text \<open>\<open>memset(data + n, 0, AV_INPUT_BUFFER_PADDING_SIZE)\<close>\<close>

definition zero_padding :: "data_ptr \<Rightarrow> int \<Rightarrow> heap \<Rightarrow> heap option" where
  "zero_padding data n h = do { p \<leftarrow> ptr_add data n; mem_write p (replicate (nat AV_INPUT_BUFFER_PADDING_SIZE) 0) h }"

definition packet_alloc :: "env \<Rightarrow> nat option \<Rightarrow> int \<Rightarrow> heap \<Rightarrow> (int \<times> nat option \<times> heap) option" where
  "packet_alloc A buf n h =
     (if n < 0 \<or> n \<ge> INT_MAX - AV_INPUT_BUFFER_PADDING_SIZE then Some (AVERROR_EINVAL, buf, h)
      else do {
        (ret, buf, h) \<leftarrow> av_buffer_realloc A buf (nat (n + AV_INPUT_BUFFER_PADDING_SIZE)) h;
        if ret < 0 then Some (ret, buf, h)
        else do {
          r \<leftarrow> buf;
          R \<leftarrow> refs h r;
          h \<leftarrow> zero_padding (ref_data R) n h;
          Some (0, Some r, h)
        }
      })"

definition av_new_packet :: "env \<Rightarrow> AVPacket \<Rightarrow> int \<Rightarrow> heap \<Rightarrow> (int \<times> AVPacket \<times> heap) option" where
  "av_new_packet A pkt n h = do {
     (ret, buf, h) \<leftarrow> packet_alloc A None n h;
     if ret < 0 then Some (ret, pkt, h)
     else do {
       r \<leftarrow> buf;
       R \<leftarrow> refs h r;
       Some (0, get_packet_defaults\<lparr>pkt_buf := buf, pkt_data := ref_data R, pkt_size := n\<rparr>, h)
     }
   }"

definition av_shrink_packet :: "AVPacket \<Rightarrow> int \<Rightarrow> heap \<Rightarrow> (AVPacket \<times> heap) option" where
  "av_shrink_packet pkt n h =
     (if pkt_size pkt \<le> n then Some (pkt, h)
      else do { h \<leftarrow> zero_padding (pkt_data pkt) n h; Some (pkt\<lparr>pkt_size := n\<rparr>, h) })"

text \<open>The difference of two pointers into one block, as a \<open>size_t\<close>.\<close>

definition ptr_diff :: "data_ptr \<Rightarrow> data_ptr \<Rightarrow> int option" where
  "ptr_diff p q = (case (p, q) of (Some (a, i), Some (b, j)) \<Rightarrow> if a = b then Some (u64i (int i - int j)) else None | _ \<Rightarrow> None)"

text \<open>Lines 131 to 157, for a packet with a buffer \<open>buf\<close>: the result, the packet and the heap.\<close>

definition grow_buffer :: "env \<Rightarrow> AVPacket \<Rightarrow> nat \<Rightarrow> int \<Rightarrow> heap \<Rightarrow> (int \<times> AVPacket \<times> heap) option" where
  "grow_buffer A pkt buf new_size h = do {
     R \<leftarrow> refs h buf;
     (data, data_offset) \<leftarrow> (if pkt_data pkt = None then Some (ref_data R, 0)
       else map_option (\<lambda>d. (pkt_data pkt, d)) (ptr_diff (pkt_data pkt) (ref_data R)));
     if data_offset > INT_MAX - new_size then Some (AVERROR_ENOMEM, pkt, h)
     else do {
       w \<leftarrow> av_buffer_is_writable buf h;
       if new_size + data_offset > int (ref_size R) \<or> \<not> w then
         let new_size = (if new_size + data_offset < INT_MAX - c_div new_size 16 then new_size + c_div new_size 16 else new_size) in do {
           (ret, buf, h) \<leftarrow> av_buffer_realloc A (Some buf) (nat (new_size + data_offset)) h;
           if ret < 0 then Some (ret, pkt\<lparr>pkt_buf := buf\<rparr>, h)
           else do {
             r \<leftarrow> buf;
             R \<leftarrow> refs h r;
             data \<leftarrow> ptr_add (ref_data R) data_offset;
             Some (0, pkt\<lparr>pkt_buf := buf, pkt_data := data\<rparr>, h)
           }
         }
       else Some (0, pkt\<lparr>pkt_data := data\<rparr>, h)
     }
   }"

text \<open>Lines 159 to 164, for a packet without a buffer.\<close>

definition grow_unreferenced :: "env \<Rightarrow> AVPacket \<Rightarrow> int \<Rightarrow> heap \<Rightarrow> (int \<times> AVPacket \<times> heap) option" where
  "grow_unreferenced A pkt new_size h = do {
     (buf, h) \<leftarrow> av_buffer_alloc A (nat new_size) h;
     case buf of
       None \<Rightarrow> Some (AVERROR_ENOMEM, pkt, h)
     | Some r \<Rightarrow> do {
         R \<leftarrow> refs h r;
         h \<leftarrow> (if pkt_size pkt > 0 then memcpy (ref_data R) (pkt_data pkt) (nat (pkt_size pkt)) h else Some h);
         Some (0, pkt\<lparr>pkt_buf := Some r, pkt_data := ref_data R\<rparr>, h)
       }
   }"

text \<open>The assertion and the comparison are on \<open>unsigned int\<close>.\<close>

definition av_grow_packet :: "env \<Rightarrow> AVPacket \<Rightarrow> int \<Rightarrow> heap \<Rightarrow> (int \<times> AVPacket \<times> heap) option" where
  "av_grow_packet A pkt grow_by h =
     (if pkt_size pkt mod 2 ^ 32 > INT_MAX - AV_INPUT_BUFFER_PADDING_SIZE then None
      else if grow_by mod 2 ^ 32 > INT_MAX - (pkt_size pkt + AV_INPUT_BUFFER_PADDING_SIZE) then Some (AVERROR_ENOMEM, pkt, h)
      else
        let new_size = pkt_size pkt + grow_by + AV_INPUT_BUFFER_PADDING_SIZE in do {
          (ret, pkt, h) \<leftarrow> (case pkt_buf pkt of Some buf \<Rightarrow> grow_buffer A pkt buf new_size h | None \<Rightarrow> grow_unreferenced A pkt new_size h);
          if ret < 0 then Some (ret, pkt, h)
          else do {
            h \<leftarrow> zero_padding (pkt_data pkt) (pkt_size pkt + grow_by) h;
            Some (0, pkt\<lparr>pkt_size := pkt_size pkt + grow_by\<rparr>, h)
          }
        })"

definition av_packet_from_data :: "env \<Rightarrow> AVPacket \<Rightarrow> data_ptr \<Rightarrow> int \<Rightarrow> heap \<Rightarrow> (int \<times> AVPacket \<times> heap) option" where
  "av_packet_from_data A pkt data n h =
     (if n \<ge> INT_MAX - AV_INPUT_BUFFER_PADDING_SIZE then Some (AVERROR_EINVAL, pkt, h)
      else do {
        (buf, h) \<leftarrow> av_buffer_create A data (nat (u64i (n + AV_INPUT_BUFFER_PADDING_SIZE))) (Some Default_Free) No_Opaque 0 h;
        case buf of
          None \<Rightarrow> Some (AVERROR_ENOMEM, pkt\<lparr>pkt_buf := None\<rparr>, h)
        | Some r \<Rightarrow> Some (0, pkt\<lparr>pkt_buf := Some r, pkt_data := data, pkt_size := n\<rparr>, h)
      })"

section \<open>Side data\<close>

fun free_side_data :: "AVPacketSideData list \<Rightarrow> heap \<Rightarrow> heap option" where
  "free_side_data [] h = Some h"
| "free_side_data (s # ss) h = do { h \<leftarrow> mem_free (sd_data s) h; free_side_data ss h }"

definition av_packet_free_side_data :: "AVPacket \<Rightarrow> heap \<Rightarrow> (AVPacket \<times> heap) option" where
  "av_packet_free_side_data pkt h = do { h \<leftarrow> free_side_data (side_data pkt) h; Some (pkt\<lparr>side_data := []\<rparr>, h) }"

text \<open>The index of the first element of a type.\<close>

fun find_side_data :: "int \<Rightarrow> AVPacketSideData list \<Rightarrow> nat option" where
  "find_side_data t [] = None"
| "find_side_data t (s # ss) = (if sd_type s = t then Some 0 else map_option Suc (find_side_data t ss))"

definition av_packet_add_side_data :: "env \<Rightarrow> AVPacket \<Rightarrow> int \<Rightarrow> data_ptr \<Rightarrow> nat \<Rightarrow> heap \<Rightarrow> (int \<times> AVPacket \<times> heap) option" where
  "av_packet_add_side_data A pkt t data n h =
     (case find_side_data t (side_data pkt) of
        Some i \<Rightarrow> do {
          h \<leftarrow> mem_free (sd_data (side_data pkt ! i)) h;
          Some (0, pkt\<lparr>side_data := (side_data pkt)[i := (side_data pkt ! i)\<lparr>sd_data := data, sd_size := n\<rparr>]\<rparr>, h)
        }
      | None \<Rightarrow>
          if length (side_data pkt) + 1 > AV_PKT_DATA_NB then Some (AVERROR_ERANGE, pkt, h)
          else (case new_address A h of
            (None, h) \<Rightarrow> Some (AVERROR_ENOMEM, pkt, h)
          | (Some a, h) \<Rightarrow> Some (0, pkt\<lparr>side_data := side_data pkt @ [\<lparr>sd_data = data, sd_size = n, sd_type = t\<rparr>]\<rparr>, h)))"

definition av_mallocz :: "env \<Rightarrow> nat \<Rightarrow> heap \<Rightarrow> nat option \<times> heap" where
  "av_mallocz A n h =
     (case new_address A h of
        (None, h) \<Rightarrow> (None, h)
      | (Some a, h) \<Rightarrow> (Some a, h\<lparr>blocks := (blocks h)(a \<mapsto> replicate n 0)\<rparr>))"

text \<open>\<open>SIZE_MAX\<close> of 64 bits. The result is the new data and the packet.\<close>

definition SIZE_MAX :: int where "SIZE_MAX = 18446744073709551615"

definition av_packet_new_side_data :: "env \<Rightarrow> AVPacket \<Rightarrow> int \<Rightarrow> nat \<Rightarrow> heap \<Rightarrow> (data_ptr \<times> AVPacket \<times> heap) option" where
  "av_packet_new_side_data A pkt t n h =
     (if int n > SIZE_MAX - AV_INPUT_BUFFER_PADDING_SIZE then Some (None, pkt, h)
      else case av_mallocz A (n + nat AV_INPUT_BUFFER_PADDING_SIZE) h of
        (None, h) \<Rightarrow> Some (None, pkt, h)
      | (Some a, h) \<Rightarrow> do {
          (ret, pkt, h) \<leftarrow> av_packet_add_side_data A pkt t (Some (a, 0)) n h;
          if ret < 0 then do { h \<leftarrow> mem_free (Some (a, 0)) h; Some (None, pkt, h) }
          else Some (Some (a, 0), pkt, h)
        })"

definition av_packet_get_side_data :: "AVPacket \<Rightarrow> int \<Rightarrow> data_ptr \<times> nat" where
  "av_packet_get_side_data pkt t =
     (case find_side_data t (side_data pkt) of
        Some i \<Rightarrow> (sd_data (side_data pkt ! i), sd_size (side_data pkt ! i))
      | None \<Rightarrow> (None, 0))"

definition av_packet_shrink_side_data :: "AVPacket \<Rightarrow> int \<Rightarrow> nat \<Rightarrow> int \<times> AVPacket" where
  "av_packet_shrink_side_data pkt t n =
     (case find_side_data t (side_data pkt) of
        Some i \<Rightarrow>
          if n > sd_size (side_data pkt ! i) then (AVERROR_ENOMEM, pkt)
          else (0, pkt\<lparr>side_data := (side_data pkt)[i := (side_data pkt ! i)\<lparr>sd_size := n\<rparr>]\<rparr>)
      | None \<Rightarrow> (AVERROR_ENOENT, pkt))"

section \<open>References\<close>

fun copy_side_data :: "env \<Rightarrow> AVPacket \<Rightarrow> AVPacketSideData list \<Rightarrow> heap \<Rightarrow> (int \<times> AVPacket \<times> heap) option" where
  "copy_side_data A dst [] h = Some (0, dst, h)"
| "copy_side_data A dst (s # ss) h = do {
     (data, dst, h) \<leftarrow> av_packet_new_side_data A dst (sd_type s) (sd_size s) h;
     if data = None then do {
       h \<leftarrow> av_buffer_unref A (opaque_ref dst) h;
       (dst, h) \<leftarrow> av_packet_free_side_data (dst\<lparr>opaque_ref := None\<rparr>) h;
       Some (AVERROR_ENOMEM, dst, h)
     } else do {
       h \<leftarrow> memcpy data (sd_data s) (sd_size s) h;
       copy_side_data A dst ss h
     }
   }"

definition av_packet_copy_props :: "env \<Rightarrow> AVPacket \<Rightarrow> AVPacket \<Rightarrow> heap \<Rightarrow> (int \<times> AVPacket \<times> heap) option" where
  "av_packet_copy_props A dst src h =
     (let dst = dst\<lparr>pts := pts src, dts := dts src, pkt_pos := pkt_pos src, pkt_duration := pkt_duration src,
        pkt_flags := pkt_flags src, stream_index := stream_index src, pkt_opaque := pkt_opaque src,
        pkt_time_base := pkt_time_base src, opaque_ref := None, side_data := []\<rparr> in do {
        (ret, r, h) \<leftarrow> av_buffer_replace A None (opaque_ref src) h;
        if ret < 0 then Some (ret, dst\<lparr>opaque_ref := r\<rparr>, h)
        else copy_side_data A (dst\<lparr>opaque_ref := r\<rparr>) (side_data src) h
      })"

definition av_packet_unref :: "env \<Rightarrow> AVPacket \<Rightarrow> heap \<Rightarrow> (AVPacket \<times> heap) option" where
  "av_packet_unref A pkt h = do {
     (pkt, h) \<leftarrow> av_packet_free_side_data pkt h;
     h \<leftarrow> av_buffer_unref A (opaque_ref pkt) h;
     h \<leftarrow> av_buffer_unref A (pkt_buf pkt) h;
     Some (get_packet_defaults, h)
   }"

text \<open>Copying the data of a packet into a buffer of its own; the label \<open>fail\<close>.\<close>

definition copy_to_buffer :: "env \<Rightarrow> AVPacket \<Rightarrow> heap \<Rightarrow> (int \<times> nat option \<times> data_ptr \<times> heap) option" where
  "copy_to_buffer A src h = do {
     (ret, buf, h) \<leftarrow> packet_alloc A None (pkt_size src) h;
     if ret < 0 then Some (ret, buf, None, h)
     else do {
       r \<leftarrow> buf;
       R \<leftarrow> refs h r;
       h \<leftarrow> (if pkt_size src \<noteq> 0 then memcpy (ref_data R) (pkt_data src) (nat (pkt_size src)) h else Some h);
       Some (0, Some r, ref_data R, h)
     }
   }"

definition ref_fail :: "env \<Rightarrow> int \<Rightarrow> AVPacket \<Rightarrow> heap \<Rightarrow> (int \<times> AVPacket \<times> heap) option" where
  "ref_fail A ret dst h = do { (dst, h) \<leftarrow> av_packet_unref A dst h; Some (ret, dst, h) }"

definition av_packet_ref :: "env \<Rightarrow> AVPacket \<Rightarrow> AVPacket \<Rightarrow> heap \<Rightarrow> (int \<times> AVPacket \<times> heap) option" where
  "av_packet_ref A dst src h = do {
     (ret, dst, h) \<leftarrow> av_packet_copy_props A (dst\<lparr>pkt_buf := None\<rparr>) src h;
     if ret < 0 then ref_fail A ret dst h
     else (case pkt_buf src of
       None \<Rightarrow> do {
         (ret, buf, data, h) \<leftarrow> copy_to_buffer A src h;
         if ret < 0 then ref_fail A ret (dst\<lparr>pkt_buf := buf\<rparr>) h
         else Some (0, dst\<lparr>pkt_buf := buf, pkt_data := data, pkt_size := pkt_size src\<rparr>, h)
       }
     | Some s \<Rightarrow> do {
         (buf, h) \<leftarrow> av_buffer_ref A s h;
         case buf of
           None \<Rightarrow> ref_fail A AVERROR_ENOMEM (dst\<lparr>pkt_buf := None\<rparr>) h
         | Some r \<Rightarrow> Some (0, dst\<lparr>pkt_buf := Some r, pkt_data := pkt_data src, pkt_size := pkt_size src\<rparr>, h)
       })
   }"

definition av_packet_free :: "env \<Rightarrow> AVPacket option \<Rightarrow> heap \<Rightarrow> heap option" where
  "av_packet_free A pkt h = (case pkt of None \<Rightarrow> Some h | Some p \<Rightarrow> map_option snd (av_packet_unref A p h))"

definition av_packet_clone :: "env \<Rightarrow> AVPacket \<Rightarrow> heap \<Rightarrow> (AVPacket option \<times> heap) option" where
  "av_packet_clone A src h =
     (case av_packet_alloc A h of
        (None, h) \<Rightarrow> Some (None, h)
      | (Some pkt, h) \<Rightarrow> do {
          (ret, pkt, h) \<leftarrow> av_packet_ref A pkt src h;
          if ret \<noteq> 0 then do { h \<leftarrow> av_packet_free A (Some pkt) h; Some (None, h) } else Some (Some pkt, h)
        })"

text \<open>The two packets after the move, the destination first.\<close>

definition av_packet_move_ref :: "AVPacket \<Rightarrow> AVPacket \<times> AVPacket" where
  "av_packet_move_ref src = (src, get_packet_defaults)"

definition av_packet_make_refcounted :: "env \<Rightarrow> AVPacket \<Rightarrow> heap \<Rightarrow> (int \<times> AVPacket \<times> heap) option" where
  "av_packet_make_refcounted A pkt h =
     (if pkt_buf pkt \<noteq> None then Some (0, pkt, h)
      else do {
        (ret, buf, data, h) \<leftarrow> copy_to_buffer A pkt h;
        if ret < 0 then Some (ret, pkt\<lparr>pkt_buf := buf\<rparr>, h)
        else Some (0, pkt\<lparr>pkt_buf := buf, pkt_data := data\<rparr>, h)
      })"

definition av_packet_make_writable :: "env \<Rightarrow> AVPacket \<Rightarrow> heap \<Rightarrow> (int \<times> AVPacket \<times> heap) option" where
  "av_packet_make_writable A pkt h = do {
     w \<leftarrow> (case pkt_buf pkt of None \<Rightarrow> Some False | Some r \<Rightarrow> av_buffer_is_writable r h);
     if w then Some (0, pkt, h)
     else do {
       (ret, buf, data, h) \<leftarrow> copy_to_buffer A pkt h;
       if ret < 0 then Some (ret, pkt, h)
       else do {
         h \<leftarrow> av_buffer_unref A (pkt_buf pkt) h;
         Some (0, pkt\<lparr>pkt_buf := buf, pkt_data := data\<rparr>, h)
       }
     }
   }"

definition av_packet_rescale_ts :: "AVPacket \<Rightarrow> AVRational \<Rightarrow> AVRational \<Rightarrow> AVPacket" where
  "av_packet_rescale_ts pkt src_tb dst_tb =
     pkt\<lparr>pts := (if pts pkt \<noteq> AV_NOPTS_VALUE then av_rescale_q (pts pkt) src_tb dst_tb else pts pkt),
       dts := (if dts pkt \<noteq> AV_NOPTS_VALUE then av_rescale_q (dts pkt) src_tb dst_tb else dts pkt),
       pkt_duration := (if pkt_duration pkt > 0 then av_rescale_q (pkt_duration pkt) src_tb dst_tb else pkt_duration pkt)\<rparr>"

section \<open>Lists of packets\<close>

record PacketListEntry =
  entry_next :: "nat option"
  entry_pkt :: AVPacket

text \<open>The list and the entries it is made of, by their address.\<close>

record PacketList =
  list_head :: "nat option"
  list_tail :: "nat option"
  list_entries :: "nat \<rightharpoonup> PacketListEntry"

text \<open>The entry \<open>e\<close> with the packet \<open>P\<close> becomes the first or the last one.\<close>

definition link_entry :: "PacketList \<Rightarrow> nat \<Rightarrow> AVPacket \<Rightarrow> int \<Rightarrow> PacketList option" where
  "link_entry L e P flags =
     (case list_head L of
        Some first \<Rightarrow>
          if has_flag flags FF_PACKETLIST_FLAG_PREPEND then
            Some (L\<lparr>list_head := Some e, list_entries := (list_entries L)(e \<mapsto> \<lparr>entry_next = Some first, entry_pkt = P\<rparr>)\<rparr>)
          else do {
            t \<leftarrow> list_tail L;
            T \<leftarrow> list_entries L t;
            Some (L\<lparr>list_tail := Some e, list_entries := (list_entries L)(e \<mapsto> \<lparr>entry_next = None, entry_pkt = P\<rparr>,
              t \<mapsto> T\<lparr>entry_next := Some e\<rparr>)\<rparr>)
          }
      | None \<Rightarrow>
          Some (L\<lparr>list_head := Some e, list_tail := Some e, list_entries := (list_entries L)(e \<mapsto> \<lparr>entry_next = None, entry_pkt = P\<rparr>)\<rparr>))"

text \<open>The result, the list, the packet of the caller and the heap.\<close>

definition avpriv_packet_list_put :: "env \<Rightarrow> PacketList \<Rightarrow> AVPacket \<Rightarrow>
    (AVPacket \<Rightarrow> AVPacket \<Rightarrow> heap \<Rightarrow> (int \<times> AVPacket \<times> heap) option) option \<Rightarrow> int \<Rightarrow> heap \<Rightarrow>
    (int \<times> PacketList \<times> AVPacket \<times> heap) option" where
  "avpriv_packet_list_put A L pkt copy flags h =
     (case new_address A h of
        (None, h) \<Rightarrow> Some (AVERROR_ENOMEM, L, pkt, h)
      | (Some e, h) \<Rightarrow>
          (case copy of
             Some f \<Rightarrow> do {
               (ret, new, h) \<leftarrow> f get_packet_defaults pkt h;
               if ret < 0 then Some (ret, L, pkt, h)
               else do { L \<leftarrow> link_entry L e new flags; Some (0, L, pkt, h) }
             }
           | None \<Rightarrow> do {
               (ret, pkt, h) \<leftarrow> av_packet_make_refcounted A pkt h;
               if ret < 0 then Some (ret, L, pkt, h)
               else (case av_packet_move_ref pkt of
                 (new, pkt) \<Rightarrow> do { L \<leftarrow> link_entry L e new flags; Some (0, L, pkt, h) })
             }))"

definition avpriv_packet_list_get :: "PacketList \<Rightarrow> AVPacket \<Rightarrow> (int \<times> PacketList \<times> AVPacket) option" where
  "avpriv_packet_list_get L pkt =
     (case list_head L of
        None \<Rightarrow> Some (AVERROR_EAGAIN, L, pkt)
      | Some e \<Rightarrow> do {
          E \<leftarrow> list_entries L e;
          Some (0, L\<lparr>list_head := entry_next E, list_tail := (if entry_next E = None then None else list_tail L),
            list_entries := (list_entries L)(e := None)\<rparr>, entry_pkt E)
        })"

partial_function (option) packet_list_free_loop :: "env \<Rightarrow> nat option \<Rightarrow> (nat \<rightharpoonup> PacketListEntry) \<Rightarrow> heap \<Rightarrow>
    ((nat \<rightharpoonup> PacketListEntry) \<times> heap) option" where
  "packet_list_free_loop A tmp en h =
     (case tmp of
        None \<Rightarrow> Some (en, h)
      | Some e \<Rightarrow>
          (case en e of
             None \<Rightarrow> None
           | Some E \<Rightarrow>
               (case av_packet_unref A (entry_pkt E) h of
                  None \<Rightarrow> None
                | Some (pkt, h) \<Rightarrow> packet_list_free_loop A (entry_next E) (en(e := None)) h)))"

definition avpriv_packet_list_free :: "env \<Rightarrow> PacketList \<Rightarrow> heap \<Rightarrow> (PacketList \<times> heap) option" where
  "avpriv_packet_list_free A L h = do {
     (en, h) \<leftarrow> packet_list_free_loop A (list_head L) (list_entries L) h;
     Some (L\<lparr>list_head := None, list_tail := None, list_entries := en\<rparr>, h)
   }"

section \<open>Arrays of side data\<close>

text \<open>The array, and for \<open>NULL\<close> or a pointer into it an index.\<close>

definition av_packet_side_data_get :: "AVPacketSideData list \<Rightarrow> int \<Rightarrow> nat option" where
  "av_packet_side_data_get sd t = find_side_data t sd"

definition packet_side_data_add :: "env \<Rightarrow> AVPacketSideData list \<Rightarrow> int \<Rightarrow> data_ptr \<Rightarrow> nat \<Rightarrow> heap \<Rightarrow>
    (nat option \<times> AVPacketSideData list \<times> heap) option" where
  "packet_side_data_add A sd t data n h =
     (case find_side_data t sd of
        Some i \<Rightarrow> do {
          h \<leftarrow> mem_free (sd_data (sd ! i)) h;
          Some (Some i, sd[i := (sd ! i)\<lparr>sd_data := data, sd_size := n\<rparr>], h)
        }
      | None \<Rightarrow>
          if int (length sd) = INT_MAX then Some (None, sd, h)
          else (case new_address A h of
            (None, h) \<Rightarrow> Some (None, sd, h)
          | (Some a, h) \<Rightarrow> Some (Some (length sd), sd @ [\<lparr>sd_data = data, sd_size = n, sd_type = t\<rparr>], h)))"

definition av_packet_side_data_new :: "env \<Rightarrow> AVPacketSideData list \<Rightarrow> int \<Rightarrow> nat \<Rightarrow> heap \<Rightarrow>
    (nat option \<times> AVPacketSideData list \<times> heap) option" where
  "av_packet_side_data_new A sd t n h =
     (if int n > SIZE_MAX - AV_INPUT_BUFFER_PADDING_SIZE then Some (None, sd, h)
      else case av_malloc A (n + nat AV_INPUT_BUFFER_PADDING_SIZE) h of
        (None, h) \<Rightarrow> Some (None, sd, h)
      | (Some a, h) \<Rightarrow> do {
          h \<leftarrow> zero_padding (Some (a, 0)) (int n) h;
          (res, sd, h) \<leftarrow> packet_side_data_add A sd t (Some (a, 0)) n h;
          if res = None then do { h \<leftarrow> mem_free (Some (a, 0)) h; Some (None, sd, h) } else Some (res, sd, h)
        })"

text \<open>The last element of the type goes, and the last one of all takes its place.\<close>

definition av_packet_side_data_remove :: "AVPacketSideData list \<Rightarrow> int \<Rightarrow> heap \<Rightarrow> (AVPacketSideData list \<times> heap) option" where
  "av_packet_side_data_remove sd t h =
     (case find_side_data t (rev sd) of
        None \<Rightarrow> Some (sd, h)
      | Some j \<Rightarrow>
          let i = length sd - 1 - j in do {
            h \<leftarrow> mem_free (sd_data (sd ! i)) h;
            Some (butlast (sd[i := last sd]), h)
          })"

definition av_packet_side_data_free :: "AVPacketSideData list \<Rightarrow> heap \<Rightarrow> (AVPacketSideData list \<times> heap) option" where
  "av_packet_side_data_free sd h = do { h \<leftarrow> free_side_data sd h; Some ([], h) }"

end
