(* ===== verification/Packet_Ops.thy ===== *)
theory Packet_Ops
  imports Packet
begin

text \<open>
  The functions of \<open>Packet\<close> on one packet: they return, free what they replace, keep the packet
  well-formed and touch nothing that belongs to another packet.
\<close>

section \<open>Blocks that packets own\<close>

lemma free_block_keeps:
  assumes "heap_ok H U k h" "\<And>x. x \<notin> U \<Longrightarrow> bl x = blocks h x"
  shows "keeps (uses (refs h) k) (- U) h (h\<lparr>blocks := bl\<rparr>)"
  unfolding keeps_def
proof (intro conjI allI impI)
  note ok = heap_okD [OF assms(1)]
  fix b B assume b: "uses (refs h) k b > 0" "buffers h b = Some B"
  have "block_of (buf_data B) \<in> ran (claim (uses (refs h) k) h)" using owner_claims [OF ok(1) b] by (rule ranI)
  then have "block_of (buf_data B) \<notin> U" using memory_okD(3) [OF objects_okD(2) [OF ok(1)]] by blast
  then show "blocks (h\<lparr>blocks := bl\<rparr>) (block_of (buf_data B)) = blocks h (block_of (buf_data B))" using assms(2) by simp
qed (use assms(2) in auto)

lemma heap_free_block:
  assumes "heap_ok H U k h" "a \<in> U"
  defines "h' \<equiv> h\<lparr>blocks := (blocks h)(a := None)\<rparr>"
  shows "heap_ok H (U - {a}) k h'" "view h' = view h" "neat k h \<longrightarrow> neat k h'" "mem_free (Some (a, 0)) h = Some h'"
proof -
  note ok = heap_okD [OF assms(1)]
  have "keeps (uses (refs h) k) (- U) h h'" unfolding h'_def by (rule free_block_keeps [OF assms(1)]) (use assms(2) in auto)
  moreover have "objects_ok H (U - {a}) (uses (refs h) k) h'" unfolding h'_def by (rule objects_free [OF ok(1) assms(2)])
  ultimately show "heap_ok H (U - {a}) k h'" "view h' = view h" by (blast intro: heap_step [OF assms(1)])+
  have "a \<in> dom (blocks h)" using memory_okD(2) [OF objects_okD(2) [OF ok(1)]] assms(2) by blast
  then show "mem_free (Some (a, 0)) h = Some h'" by (auto simp: h'_def)
qed (simp add: neat_def tidy_def h'_def)

lemma heap_write_block:
  assumes "heap_ok H U k h" "a \<in> U" "blocks h a = Some xs" "length ys = length xs"
  defines "h' \<equiv> h\<lparr>blocks := (blocks h)(a \<mapsto> ys)\<rparr>"
  shows "heap_ok H U k h'" "view h' = view h" "neat k h \<longrightarrow> neat k h'"
proof -
  note ok = heap_okD [OF assms(1)]
  have "keeps (uses (refs h) k) (- U) h h'" unfolding h'_def by (rule free_block_keeps [OF assms(1)]) (use assms(2) in auto)
  moreover have "objects_ok H U (uses (refs h) k) h'" unfolding h'_def by (rule objects_write [OF ok(1) assms(3,4)])
  ultimately show "heap_ok H U k h'" "view h' = view h" by (blast intro: heap_step [OF assms(1)])+
qed (simp add: neat_def tidy_def h'_def)

lemma fresh_block:
  assumes "heap_ok H U k h" "fresh h \<le> a"
  shows "blocks h a = None \<and> a \<notin> U"
proof -
  have "blocks h a = None" using objects_okD(1) [OF heap_okD(1) [OF assms(1)]] assms(2) unfolding bounded_def by (metis not_le)
  then show ?thesis using heap_blocks [OF assms(1), of a] by auto
qed

text \<open>Reading and writing inside the bytes that a reference shows.\<close>

lemma sub_read:
  assumes "mem_read (Some (a, i)) n h = Some xs" "j + m \<le> n"
  shows "mem_read (Some (a, i + j)) m h = Some (slice j m xs)"
proof -
  obtain ys where ys: "blocks h a = Some ys" "i + n \<le> length ys" "xs = slice i n ys"
    using assms(1) by (auto split: option.splits if_splits)
  have "slice j m (slice i n ys) = slice (i + j) m ys"
    using assms(2) by (simp add: slice_def drop_take min_def add.commute)
  with ys assms(2) show ?thesis by simp
qed

lemma write_inside:
  assumes "heap_ok H U k h" "refs h r = Some R" "exclusive h r" "ref_data R = Some (a, i)" "j + length ys \<le> ref_size R" "view h r = Some old"
  shows "\<exists>h'. mem_write (Some (a, i + j)) ys h = Some h' \<and> heap_ok H U k h' \<and> refs h' = refs h \<and> view h' = (view h)(r \<mapsto> splice j ys old) \<and>
    (neat k h \<longrightarrow> neat k h') \<and> (\<forall>x\<in>U. blocks h' x = blocks h x)"
proof -
  have read: "mem_read (Some (a, i)) (ref_size R) h = Some old" using assms(2,4,6) by (simp add: view_def)
  then obtain xs where xs: "blocks h a = Some xs" "i + ref_size R \<le> length xs" "old = slice i (ref_size R) xs"
    by (auto split: option.splits if_splits)
  let ?ys = "take j old @ ys"
  have len: "length old = ref_size R" "length ?ys = j + length ys" using xs assms(5) by auto
  obtain h' where h': "mem_write (ref_data R) ?ys h = Some h'" "heap_ok H U k h'" "refs h' = refs h"
    "view h' = (view h)(r \<mapsto> ?ys @ drop (length ?ys) old)" "neat k h \<longrightarrow> neat k h'" "\<forall>x. x \<noteq> a \<longrightarrow> blocks h' x = blocks h x"
    using write_heap [OF assms(1-4), of ?ys old] len assms(5,6) by auto
  have "splice i ?ys xs = splice (i + j) ys xs"
    using xs(2,3) assms(5) len(2) by (simp add: splice_def slice_def take_drop [symmetric] take_add min_def add.assoc)
  then have "mem_write (Some (a, i + j)) ys h = mem_write (ref_data R) ?ys h"
    using xs(1,2) assms(4,5) len by simp
  moreover have "?ys @ drop (length ?ys) old = splice j ys old" using len by (simp add: splice_def)
  moreover have "a \<notin> U" using ref_block_owned [OF assms(1,2)] assms(4) by (simp add: block_of_def)
  ultimately show ?thesis using h' by auto
qed


section \<open>Ownership\<close>

text \<open>
  \<open>owns H V X rs bs h\<close>: in the heap, \<open>rs\<close> and \<open>bs\<close> are the references and blocks of what an operation
  works on, \<open>X\<close> and \<open>V\<close> those of all others. \<open>kept\<close> says that these stay as they are.
\<close>

definition owns :: "nat set \<Rightarrow> nat set \<Rightarrow> nat set \<Rightarrow> nat set \<Rightarrow> nat set \<Rightarrow> heap \<Rightarrow> bool" where
  "owns H V X rs bs h \<longleftrightarrow> heap_ok H (V \<union> bs) (\<lambda>_. 0) h \<and> neat (\<lambda>_. 0) h \<and> V \<inter> bs = {} \<and> dom (refs h) = X \<union> rs \<and> X \<inter> rs = {}"

definition kept :: "nat set \<Rightarrow> nat set \<Rightarrow> heap \<Rightarrow> heap \<Rightarrow> bool" where
  "kept V X h h' \<longleftrightarrow> (\<forall>r\<in>X. refs h' r = refs h r \<and> view h' r = view h r) \<and> (\<forall>a\<in>V. blocks h' a = blocks h a)"

lemma kept_refl [simp]: "kept V X h h"
  by (simp add: kept_def)

lemma kept_trans: "kept V X h1 h2 \<Longrightarrow> kept V X h2 h3 \<Longrightarrow> kept V X h1 h3"
  by (simp add: kept_def)

lemma kept_mono: "kept V X h h' \<Longrightarrow> V' \<subseteq> V \<Longrightarrow> X' \<subseteq> X \<Longrightarrow> kept V' X' h h'"
  by (auto simp: kept_def)

lemma owns_okD:
  assumes "owns H V X rs bs h"
  shows "heap_ok H (V \<union> bs) (\<lambda>_. 0) h" "neat (\<lambda>_. 0) h" "V \<inter> bs = {}" "dom (refs h) = X \<union> rs" "X \<inter> rs = {}"
  using assms by (simp_all add: owns_def)

text \<open>The frame: a part of what is owned is put aside, and taken back.\<close>

lemma owns_focus:
  assumes "owns H V X (rs \<union> rs') (bs \<union> bs') h" "rs \<inter> rs' = {}" "bs \<inter> bs' = {}"
  shows "owns H (V \<union> bs') (X \<union> rs') rs bs h"
  using assms by (auto simp: owns_def Un_ac)

lemma owns_unfocus:
  assumes "owns H (V \<union> bs') (X \<union> rs') rs bs h" "V \<inter> bs' = {}" "X \<inter> rs' = {}"
  shows "owns H V X (rs \<union> rs') (bs \<union> bs') h" "rs \<inter> rs' = {}" "bs \<inter> bs' = {}"
  using assms by (auto simp: owns_def Un_ac)

lemma refs_domain: "dom (refs h) = X \<union> rs \<Longrightarrow> r \<in> X \<union> rs \<Longrightarrow> \<exists>R. refs h r = Some R"
  by auto

lemma owns_free:
  assumes "owns H V X rs (insert a bs) h" "a \<notin> bs"
  shows "\<exists>h'. mem_free (Some (a, 0)) h = Some h' \<and> owns H V X rs bs h' \<and> kept (V \<union> bs) (X \<union> rs) h h'"
proof -
  note o = owns_okD [OF assms(1)]
  note f = heap_free_block [OF o(1), of a]
  have "V \<union> insert a bs - {a} = V \<union> bs" using o(3) assms(2) by auto
  then show ?thesis using f o assms(2) by (auto simp: owns_def kept_def)
qed

lemma owns_malloc:
  fixes xs :: "byte list"
  assumes "owns H V X rs bs h"
  defines "h' \<equiv> h\<lparr>fresh := fresh h + 1, blocks := (blocks h)(fresh h \<mapsto> xs)\<rparr>"
  shows "owns H V X rs (insert (fresh h) bs) h'" "kept (V \<union> bs) (X \<union> rs) h h'" "fresh h \<notin> V \<union> bs"
proof -
  note o = owns_okD [OF assms(1)]
  note m = heap_malloc [OF o(1), of "fresh h" "fresh h + 1" xs, folded h'_def]
  have new: "fresh h \<notin> V \<union> bs" using fresh_block [OF o(1), of "fresh h"] by simp
  show "owns H V X rs (insert (fresh h) bs) h'" using m o new by (simp add: owns_def) (simp add: h'_def)
  show "kept (V \<union> bs) (X \<union> rs) h h'" using m(2) new by (auto simp: kept_def h'_def)
  show "fresh h \<notin> V \<union> bs" by (rule new)
qed

lemma owns_fresh:
  assumes "owns H V X rs bs h" "fresh h \<le> n"
  shows "owns H V X rs bs (h\<lparr>fresh := n\<rparr>)" "kept Y Z h (h\<lparr>fresh := n\<rparr>)"
  using assms(1) heap_fresh [OF owns_okD(1) [OF assms(1)] assms(2)] by (simp_all add: owns_def kept_def)

lemma owns_write:
  assumes "owns H V X rs bs h" "a \<in> bs" "blocks h a = Some xs" "length ys = length xs"
  defines "h' \<equiv> h\<lparr>blocks := (blocks h)(a \<mapsto> ys)\<rparr>"
  shows "owns H V X rs bs h'" "kept (V \<union> (bs - {a})) (X \<union> rs) h h'"
proof -
  note o = owns_okD [OF assms(1)]
  have "a \<in> V \<union> bs" using assms(2) by blast
  note w = heap_write_block [OF o(1) this assms(3,4), folded h'_def]
  show "owns H V X rs bs h'" using w o by (simp add: owns_def) (simp add: h'_def)
  show "kept (V \<union> (bs - {a})) (X \<union> rs) h h'" using w(2) o(3) assms(2) by (auto simp: kept_def h'_def)
qed

lemma owns_unref:
  assumes "owns H V X (insert r rs) bs h" "r \<notin> rs" "nesting A > 0"
  shows "\<exists>h'. av_buffer_unref A (Some r) h = Some h' \<and> owns H V X rs bs h' \<and> kept (V \<union> bs) (X \<union> rs) h h'"
proof -
  note o = owns_okD [OF assms(1)]
  obtain R where R: "refs h r = Some R" using o(4) by blast
  obtain h' where h': "buffer_replace A r None h = Some h'" "heap_ok H (V \<union> bs) (\<lambda>_. 0) h'" "refs h' = (refs h)(r := None)"
    "view h' = (view h)(r := None)" "neat (\<lambda>_. 0) h'" "\<forall>a\<in>V \<union> bs. blocks h' a = blocks h a"
    using unref_ok [OF o(1) R assms(3)] o(2) by blast
  have "r \<notin> X" using o(5) by blast
  with h' o assms(2) show ?thesis by (intro exI [of _ h']) (auto simp: owns_def kept_def av_buffer_unref_def)
qed

lemma owns_unref_opt:
  assumes "owns H V X (set_option d \<union> rs) bs h" "set_option d \<inter> rs = {}" "nesting A > 0"
  shows "\<exists>h'. av_buffer_unref A d h = Some h' \<and> owns H V X rs bs h' \<and> kept (V \<union> bs) (X \<union> rs) h h'"
proof (cases d)
  case None
  then show ?thesis using assms(1) by (simp add: av_buffer_unref_def)
next
  case (Some r)
  then show ?thesis using owns_unref [of H V X r rs bs h A] assms by simp
qed

lemma owns_uses:
  assumes "owns H V X rs bs h" "card (dom (refs h)) + 1 < 2 ^ 32"
  shows "uses (refs h) (\<lambda>_. 0) b + 1 < 2 ^ 32"
  using uses_bound [OF heap_okD(2) [OF owns_okD(1) [OF assms(1)]], of b] assms(2) by simp

lemma owns_ref:
  assumes "owns H V X rs bs h" "refs h s = Some R" "card (dom (refs h)) + 1 < 2 ^ 32"
  shows "\<exists>res h'. av_buffer_ref A s h = Some (res, h') \<and> kept (V \<union> bs) (X \<union> rs) h h' \<and>
    owns H V X (set_option res \<union> rs) bs h' \<and> set_option res \<inter> (X \<union> rs) = {} \<and>
    (\<forall>t. res = Some t \<longrightarrow> refs h' t = Some R \<and> view h' t = view h s)"
proof -
  note o = owns_okD [OF assms(1)]
  obtain res h' where r: "av_buffer_ref A s h = Some (res, h')" "heap_ok H (V \<union> bs) (\<lambda>_. 0) h'" "neat (\<lambda>_. 0) h'"
    "\<forall>a\<in>V \<union> bs. blocks h' a = blocks h a"
    "case res of None \<Rightarrow> refs h' = refs h \<and> view h' = view h
     | Some t \<Rightarrow> refs h t = None \<and> refs h' = (refs h)(t \<mapsto> R) \<and> view h' = (view h)(t := view h s)"
    using ref_ok [OF o(1) assms(2) owns_uses [OF assms(1,3)], of A] o(2) by blast
  show ?thesis
  proof (cases res)
    case None
    with r o show ?thesis by (intro exI [of _ None] exI [of _ h']) (auto simp: owns_def kept_def)
  next
    case (Some t)
    with r have t: "refs h t = None" "refs h' = (refs h)(t \<mapsto> R)" "view h' = (view h)(t := view h s)" by simp_all
    then have "t \<notin> X \<union> rs" using o(4) by auto
    with t r Some o show ?thesis by (intro exI [of _ "Some t"] exI [of _ h']) (auto simp: owns_def kept_def)
  qed
qed


section \<open>New buffers\<close>

lemma exclusive_refs: "refs h' = refs h \<Longrightarrow> exclusive h' r = exclusive h r"
  by (simp add: exclusive_def)

lemma owns_store:
  assumes "owns H V X (insert r rs) bs h" "r \<notin> rs" "refs h r = Some R" "exclusive h r" "ref_data R = Some (a, i)"
    and "j + length ys \<le> ref_size R" "view h r = Some old"
  shows "\<exists>h'. mem_write (Some (a, i + j)) ys h = Some h' \<and> owns H V X (insert r rs) bs h' \<and> kept (V \<union> bs) (X \<union> rs) h h' \<and>
    refs h' = refs h \<and> view h' r = Some (splice j ys old)"
proof -
  note o = owns_okD [OF assms(1)]
  obtain h' where h': "mem_write (Some (a, i + j)) ys h = Some h'" "heap_ok H (V \<union> bs) (\<lambda>_. 0) h'" "refs h' = refs h"
    "view h' = (view h)(r \<mapsto> splice j ys old)" "neat (\<lambda>_. 0) h'" "\<forall>x\<in>V \<union> bs. blocks h' x = blocks h x"
    using write_inside [OF o(1) assms(3-7)] o(2) by blast
  have "r \<notin> X" using o(5) by blast
  with h' o assms(2) show ?thesis by (intro exI [of _ h']) (auto simp: owns_def kept_def)
qed

lemma owns_new_ref:
  assumes "owns H V X rs bs h" "heap_ok H (V \<union> bs) (\<lambda>_. 0) h'" "neat (\<lambda>_. 0) h'" "fresh_ref n h res h'"
    and "res = None \<Longrightarrow> blocks h' = blocks h"
  shows "kept (V \<union> bs) (X \<union> rs) h h'" "owns H V X (set_option res \<union> rs) bs h'" "set_option res \<inter> (X \<union> rs) = {}"
    and "res = Some r \<Longrightarrow> \<exists>R a i ys. refs h' r = Some R \<and> ref_data R = Some (a, i) \<and> ref_size R = n \<and> exclusive h' r \<and>
      view h' r = Some ys \<and> length ys = n"
proof -
  note o = owns_okD [OF assms(1)]
  have "kept (V \<union> bs) (X \<union> rs) h h' \<and> owns H V X (set_option res \<union> rs) bs h' \<and> set_option res \<inter> (X \<union> rs) = {} \<and>
    (\<forall>r. res = Some r \<longrightarrow> (\<exists>R a i ys. refs h' r = Some R \<and> ref_data R = Some (a, i) \<and> ref_size R = n \<and> exclusive h' r \<and>
      view h' r = Some ys \<and> length ys = n))"
  proof (cases res)
    case None
    then show ?thesis using assms(2-5) o by (auto simp: owns_def kept_def fresh_ref_def)
  next
    case (Some t)
    then obtain ys where t: "same_but_new n h t h'" "length ys = n" "view h' = (view h)(t \<mapsto> ys)" using assms(4) by (auto simp: fresh_ref_def)
    obtain R where R: "refs h' t = Some R" "ref_size R = n" "exclusive h' t" "\<forall>r'. r' \<noteq> t \<longrightarrow> refs h' r' = refs h r'" "refs h t = None"
      by (rule new_refD [OF t(1) heap_okD(2) [OF o(1)]])
    obtain a i where "ref_data R = Some (a, i)" by (rule heap_refs [OF assms(2) R(1)])
    moreover have new: "t \<notin> X \<union> rs" using R(5) o(4) by auto
    moreover have "dom (refs h') = insert t (dom (refs h))"
    proof (rule set_eqI)
      fix x show "x \<in> dom (refs h') \<longleftrightarrow> x \<in> insert t (dom (refs h))" using R(1,4) by (cases "x = t") (auto simp: domIff)
    qed
    moreover have "blocks h' x = blocks h x" if "x \<in> V \<union> bs" for x
      using t(1) heap_blocks [OF o(1) that] by (auto simp: same_but_new_def)
    moreover have "view h' r = view h r \<and> refs h' r = refs h r" if "r \<in> X \<union> rs" for r using that new R(4) t(3) by auto
    ultimately show ?thesis using assms(2,3) o R t Some by (auto simp: owns_def kept_def)
  qed
  then show "kept (V \<union> bs) (X \<union> rs) h h'" "owns H V X (set_option res \<union> rs) bs h'" "set_option res \<inter> (X \<union> rs) = {}"
    "res = Some r \<Longrightarrow> \<exists>R a i ys. refs h' r = Some R \<and> ref_data R = Some (a, i) \<and> ref_size R = n \<and> exclusive h' r \<and>
      view h' r = Some ys \<and> length ys = n" by blast+
qed

lemma allocated_None: "allocated fi n h None h' \<Longrightarrow> blocks h' = blocks h"
  by (auto simp: allocated_def)

lemma owns_alloc:
  assumes "owns H V X rs bs h" "allocated fi n h res h'" "\<not> has_flag fi BUFFER_FLAG_NO_FREE"
  shows "kept (V \<union> bs) (X \<union> rs) h h'" "owns H V X (set_option res \<union> rs) bs h'" "set_option res \<inter> (X \<union> rs) = {}"
    and "res = Some r \<Longrightarrow> \<exists>R a i ys. refs h' r = Some R \<and> ref_data R = Some (a, i) \<and> ref_size R = n \<and> exclusive h' r \<and>
      view h' r = Some ys \<and> length ys = n"
proof -
  note o = owns_okD [OF assms(1)]
  note a = allocated_fresh [OF o(1) assms(2,3)]
  have "res = None \<Longrightarrow> blocks h' = blocks h" using assms(2) allocated_None by auto
  from owns_new_ref [OF assms(1) a(1) mp [OF a(3) o(2)] a(2) this]
  show "kept (V \<union> bs) (X \<union> rs) h h'" "owns H V X (set_option res \<union> rs) bs h'" "set_option res \<inter> (X \<union> rs) = {}"
    "res = Some r \<Longrightarrow> \<exists>R a i ys. refs h' r = Some R \<and> ref_data R = Some (a, i) \<and> ref_size R = n \<and> exclusive h' r \<and>
      view h' r = Some ys \<and> length ys = n" by blast+
qed

text \<open>A buffer for the data of a packet: \<open>n\<close> bytes and zeros after them.\<close>

definition data_buffer :: "heap \<Rightarrow> nat \<Rightarrow> int \<Rightarrow> byte list \<Rightarrow> bool" where
  "data_buffer h r n xs \<longleftrightarrow> 0 \<le> n \<and> n + 64 \<le> INT_MAX \<and> length xs = nat n \<and> exclusive h r \<and> view h r = Some (xs @ replicate 64 0) \<and>
     (\<exists>R a i. refs h r = Some R \<and> ref_data R = Some (a, i) \<and> ref_size R = nat n + 64)"

lemma splice_end: "length ys = n + m \<Longrightarrow> length zs = m \<Longrightarrow> splice n zs ys = take n ys @ zs"
  by (simp add: splice_def)

lemma owns_packet_alloc:
  assumes "owns H V X rs bs h"
  shows "\<exists>ret res h'. packet_alloc A None n h = Some (ret, res, h') \<and> kept (V \<union> bs) (X \<union> rs) h h' \<and>
    owns H V X (set_option res \<union> rs) bs h' \<and> set_option res \<inter> (X \<union> rs) = {} \<and>
    (res = None \<and> ret < 0 \<or> ret = 0 \<and> (\<exists>r xs. res = Some r \<and> data_buffer h' r n xs))"
proof (cases "n < 0 \<or> n \<ge> INT_MAX - AV_INPUT_BUFFER_PADDING_SIZE")
  case True
  then show ?thesis using assms by (intro exI [of _ AVERROR_EINVAL] exI [of _ None] exI [of _ h]) (simp add: packet_alloc_def)
next
  case False
  note o = owns_okD [OF assms]
  let ?n = "nat (n + AV_INPUT_BUFFER_PADDING_SIZE)"
  have n: "0 \<le> n" "?n = nat n + 64" "n + 64 \<le> INT_MAX" using False by (auto simp: AV_INPUT_BUFFER_PADDING_SIZE_def nat_add_distrib)
  obtain ret res h1 where r: "buffer_realloc_new A ?n h = Some (ret, res, h1)"
    "allocated (set_flag 0 BUFFER_FLAG_REALLOCATABLE) ?n h res h1" "ret = 0 \<and> res \<noteq> None \<or> ret = AVERROR_ENOMEM \<and> res = None"
    using realloc_new_shape [OF objects_okD(1) [OF heap_okD(1) [OF o(1)]], of A ?n] by blast
  note a = owns_alloc [OF assms r(2) no_flags(2)]
  have run: "av_buffer_realloc A None ?n h = Some (ret, res, h1)" using r(1) by (simp add: av_buffer_realloc_def)
  show ?thesis
  proof (cases res)
    case None
    with r(3) run False a show ?thesis by (intro exI [of _ ret] exI [of _ None] exI [of _ h1]) (auto simp: packet_alloc_def)
  next
    case (Some t)
    obtain R b i ys where R: "refs h1 t = Some R" "ref_data R = Some (b, i)" "ref_size R = ?n" "exclusive h1 t" "view h1 t = Some ys" "length ys = ?n"
      using a(4) [OF Some] by blast
    have own: "owns H V X (insert t rs) bs h1" and new: "t \<notin> rs" using a(2,3) Some by auto
    have "nat n + length (replicate 64 (0 :: byte)) \<le> ref_size R" using n R(3) by simp
    from owns_store [OF own new R(1,4,2) this R(5)] obtain h2 where h2: "mem_write (Some (b, i + nat n)) (replicate 64 0) h1 = Some h2"
      "owns H V X (insert t rs) bs h2" "kept (V \<union> bs) (X \<union> rs) h1 h2" "refs h2 = refs h1"
      "view h2 t = Some (splice (nat n) (replicate 64 0) ys)" by blast
    have "zero_padding (ref_data R) n h1 = Some h2"
      using h2(1) R(2) n(1) by (simp add: zero_padding_def ptr_add_def AV_INPUT_BUFFER_PADDING_SIZE_def nat_add_distrib)
    then have "packet_alloc A None n h = Some (0, Some t, h2)" using run False r(3) Some R(1) by (simp add: packet_alloc_def)
    moreover have "splice (nat n) (replicate 64 0) ys = take (nat n) ys @ replicate 64 0" by (rule splice_end) (use R(6) n in simp_all)
    moreover have "data_buffer h2 t n (take (nat n) ys)"
      unfolding data_buffer_def using h2 R n calculation(2) exclusive_refs [OF h2(4)] by auto
    moreover have "kept (V \<union> bs) (X \<union> rs) h h2" by (rule kept_trans [OF a(1) h2(3)])
    ultimately show ?thesis using h2(2) a(3) Some by (intro exI [of _ 0] exI [of _ "Some t"] exI [of _ h2]) auto
  qed
qed


section \<open>Packets and their values\<close>

definition packet_refs :: "AVPacket \<Rightarrow> nat set" where
  "packet_refs P = set_option (pkt_buf P) \<union> set_option (opaque_ref P)"

definition side_block :: "AVPacketSideData \<Rightarrow> nat" where
  "side_block s = block_of (sd_data s)"

definition packet_blocks :: "AVPacket \<Rightarrow> nat set" where
  "packet_blocks P = side_block ` set (side_data P)"

text \<open>
  The data lie in the buffer, with their padding; without a buffer they are none, or in memory \<open>W\<close>
  of the user, with their padding too. The sizes are those of an \<open>int\<close>.
\<close>

definition data_ok :: "nat set \<Rightarrow> heap \<Rightarrow> AVPacket \<Rightarrow> bool" where
  "data_ok W h P \<longleftrightarrow> 0 \<le> pkt_size P \<and>
     (case pkt_buf P of
        Some r \<Rightarrow> \<exists>R a i j. refs h r = Some R \<and> ref_data R = Some (a, i) \<and> pkt_data P = Some (a, i + j) \<and>
          j + nat (pkt_size P) + 64 \<le> ref_size R \<and> int (ref_size R) \<le> INT_MAX
      | None \<Rightarrow> pkt_size P = 0 \<or> pkt_size P \<le> INT_MAX - 64 \<and>
          (\<exists>a i xs. pkt_data P = Some (a, i) \<and> a \<in> W \<and> mem_read (Some (a, i)) (nat (pkt_size P) + 64) h = Some xs))"

definition side_ok :: "heap \<Rightarrow> AVPacketSideData \<Rightarrow> bool" where
  "side_ok h s \<longleftrightarrow> (\<exists>a xs. sd_data s = Some (a, 0) \<and> blocks h a = Some xs \<and> sd_size s \<le> length xs)"

definition sides_ok :: "heap \<Rightarrow> AVPacketSideData list \<Rightarrow> bool" where
  "sides_ok h ss \<longleftrightarrow> (\<forall>s\<in>set ss. side_ok h s) \<and> distinct (map side_block ss) \<and> distinct (map sd_type ss)"

definition packet_ok :: "nat set \<Rightarrow> heap \<Rightarrow> AVPacket \<Rightarrow> bool" where
  "packet_ok W h P \<longleftrightarrow> data_ok W h P \<and> sides_ok h (side_data P) \<and> set_option (pkt_buf P) \<inter> set_option (opaque_ref P) = {}"

definition packet_bytes :: "heap \<Rightarrow> AVPacket \<Rightarrow> byte list" where
  "packet_bytes h P = (if pkt_size P = 0 then [] else the (mem_read (pkt_data P) (nat (pkt_size P)) h))"

definition side_values :: "heap \<Rightarrow> AVPacketSideData list \<Rightarrow> (int \<times> byte list) list" where
  "side_values h ss = map (\<lambda>s. (sd_type s, the (mem_read (sd_data s) (sd_size s) h))) ss"

text \<open>The plain fields of a packet, without its pointers.\<close>

definition packet_fields :: "AVPacket \<Rightarrow> AVPacket" where
  "packet_fields P = P\<lparr>pkt_buf := None, pkt_data := None, side_data := [], opaque_ref := None\<rparr>"

record packet_value =
  value_bytes :: "byte list"
  value_side :: "(int \<times> byte list) list"
  value_opaque :: "byte list option"
  value_fields :: AVPacket

definition packet_value :: "heap \<Rightarrow> AVPacket \<Rightarrow> packet_value" where
  "packet_value h P = \<lparr>value_bytes = packet_bytes h P, value_side = side_values h (side_data P),
     value_opaque = (case opaque_ref P of None \<Rightarrow> None | Some r \<Rightarrow> view h r), value_fields = packet_fields P\<rparr>"

lemma view_read: "refs h r = Some R \<Longrightarrow> view h r = mem_read (ref_data R) (ref_size R) h"
  by (simp add: view_def)

text \<open>The bytes of a packet with a buffer are a part of what its reference shows.\<close>

lemma buffer_bytes:
  assumes "refs h r = Some R" "ref_data R = Some (a, i)" "view h r = Some xs" "j + n \<le> ref_size R"
  shows "mem_read (Some (a, i + j)) n h = Some (slice j n xs)"
proof -
  have "mem_read (Some (a, i)) (ref_size R) h = Some xs" using assms(1-3) by (simp add: view_read)
  then show ?thesis by (rule sub_read [OF _ assms(4)])
qed

lemma data_kept:
  assumes "data_ok W h P" "kept V X h h'" "W \<subseteq> V" "set_option (pkt_buf P) \<subseteq> X" "refs_ok h"
  shows "data_ok W h' P" "packet_bytes h' P = packet_bytes h P" "pkt_size P = 0 \<or> mem_read (pkt_data P) (nat (pkt_size P)) h = Some (packet_bytes h P)"
    "length (packet_bytes h P) = nat (pkt_size P)"
proof -
  have "data_ok W h' P \<and> packet_bytes h' P = packet_bytes h P \<and>
      (pkt_size P = 0 \<or> mem_read (pkt_data P) (nat (pkt_size P)) h = Some (packet_bytes h P)) \<and> length (packet_bytes h P) = nat (pkt_size P)"
  proof (cases "pkt_buf P")
    case None
    show ?thesis
    proof (cases "pkt_size P = 0")
      case True
      then show ?thesis using assms(1) None by (simp add: data_ok_def packet_bytes_def)
    next
      case False
      with assms(1) None obtain a i xs where d: "pkt_data P = Some (a, i)" "a \<in> W" "mem_read (Some (a, i)) (nat (pkt_size P) + 64) h = Some xs"
        by (auto simp: data_ok_def)
      let ?ys = "slice 0 (nat (pkt_size P)) xs"
      have "blocks h' a = blocks h a" using assms(2,3) d(2) by (auto simp: kept_def)
      then have d': "mem_read (Some (a, i)) (nat (pkt_size P) + 64) h' = Some xs" using d(3) by simp
      have b: "mem_read (Some (a, i + 0)) (nat (pkt_size P)) h = Some ?ys" "mem_read (Some (a, i + 0)) (nat (pkt_size P)) h' = Some ?ys"
        by (rule sub_read [OF d(3)] sub_read [OF d'], simp)+
      have "data_ok W h' P" using assms(1) None False d(1,2) d' by (simp add: data_ok_def del: mem_read.simps)
      then show ?thesis using False d(1) b mem_read_length [OF b(1)] by (simp add: packet_bytes_def del: mem_read.simps)
    qed
  next
    case (Some r)
    with assms(1) obtain R a i j where R: "refs h r = Some R" "ref_data R = Some (a, i)" "pkt_data P = Some (a, i + j)"
      "j + nat (pkt_size P) + 64 \<le> ref_size R" "int (ref_size R) \<le> INT_MAX" by (auto simp: data_ok_def)
    obtain xs where xs: "view h r = Some xs" using refs_okD(2) [OF assms(5) R(1)] R(1) by (auto simp: view_def)
    have k: "refs h' r = Some R" "view h' r = Some xs" using assms(2,4) Some R(1) xs by (auto simp: kept_def)
    have le: "j + nat (pkt_size P) \<le> ref_size R" using R(4) by simp
    note b = buffer_bytes [OF R(1,2) xs le] and b' = buffer_bytes [OF k(1) R(2) k(2) le]
    have "data_ok W h' P" using assms(1) Some R k by (auto simp: data_ok_def)
    moreover have "pkt_size P = 0 \<Longrightarrow> length (packet_bytes h P) = nat (pkt_size P)" by (simp add: packet_bytes_def)
    ultimately show ?thesis using b b' mem_read_length [OF b] R(3) by (auto simp del: mem_read.simps simp add: packet_bytes_def)
  qed
  then show "data_ok W h' P" "packet_bytes h' P = packet_bytes h P"
    "pkt_size P = 0 \<or> mem_read (pkt_data P) (nat (pkt_size P)) h = Some (packet_bytes h P)" "length (packet_bytes h P) = nat (pkt_size P)" by blast+
qed

lemma side_kept: "side_ok h s \<Longrightarrow> blocks h' (side_block s) = blocks h (side_block s) \<Longrightarrow>
    side_ok h' s \<and> mem_read (sd_data s) (sd_size s) h' = mem_read (sd_data s) (sd_size s) h"
  by (auto simp: side_ok_def side_block_def block_of_def)

lemma sides_kept:
  assumes "sides_ok h ss" "kept V X h h'" "side_block ` set ss \<subseteq> V"
  shows "sides_ok h' ss" "side_values h' ss = side_values h ss"
proof -
  have "side_ok h' s \<and> mem_read (sd_data s) (sd_size s) h' = mem_read (sd_data s) (sd_size s) h" if "s \<in> set ss" for s
    by (rule side_kept) (use that assms in \<open>auto simp: kept_def sides_ok_def\<close>)
  then show "sides_ok h' ss" "side_values h' ss = side_values h ss" using assms(1) by (simp_all add: side_values_def sides_ok_def)
qed

lemma packet_kept:
  assumes "packet_ok W h P" "kept V X h h'" "W \<subseteq> V" "packet_refs P \<subseteq> X" "packet_blocks P \<subseteq> V" "refs_ok h"
  shows "packet_ok W h' P" "packet_value h' P = packet_value h P"
proof -
  have d: "data_ok W h P" "sides_ok h (side_data P)" "set_option (pkt_buf P) \<subseteq> X" "side_block ` set (side_data P) \<subseteq> V"
    using assms by (auto simp: packet_ok_def packet_refs_def packet_blocks_def)
  note k = data_kept [OF d(1) assms(2,3) d(3) assms(6)] and ss = sides_kept [OF d(2) assms(2) d(4)]
  show "packet_ok W h' P" using assms(1) k(1) ss(1) by (simp add: packet_ok_def)
  have "view h' r = view h r" if "opaque_ref P = Some r" for r using that assms(2,4) by (auto simp: kept_def packet_refs_def)
  then show "packet_value h' P = packet_value h P" using k(2) ss(2) by (simp add: packet_value_def split: option.splits)
qed

text \<open>A packet \<open>P\<close> whose references and blocks are those that are worked on.\<close>

definition held :: "nat set \<Rightarrow> nat set \<Rightarrow> nat set \<Rightarrow> nat set \<Rightarrow> AVPacket \<Rightarrow> heap \<Rightarrow> bool" where
  "held W H V X P h \<longleftrightarrow> owns H V X (packet_refs P) (packet_blocks P) h \<and> packet_ok W h P \<and> W \<subseteq> V"

lemma held_blank: "held W H V X get_packet_defaults h \<longleftrightarrow> owns H V X {} {} h \<and> W \<subseteq> V"
  by (auto simp: held_def packet_ok_def sides_ok_def data_ok_def get_packet_defaults_def packet_refs_def packet_blocks_def)

section \<open>Copying the data\<close>

lemma owns_copy_to_buffer:
  assumes "owns H V X rs bs h" "data_ok W h src" "W \<subseteq> V \<union> bs" "set_option (pkt_buf src) \<subseteq> X \<union> rs"
  shows "\<exists>ret res data h'. copy_to_buffer A src h = Some (ret, res, data, h') \<and> kept (V \<union> bs) (X \<union> rs) h h' \<and>
    owns H V X (set_option res \<union> rs) bs h' \<and> set_option res \<inter> (X \<union> rs) = {} \<and>
    (res = None \<and> ret < 0 \<or> ret = 0 \<and> (\<exists>r R. res = Some r \<and> data_buffer h' r (pkt_size src) (packet_bytes h src) \<and>
       refs h' r = Some R \<and> ref_data R = data))"
proof -
  obtain ret res h1 where a: "packet_alloc A None (pkt_size src) h = Some (ret, res, h1)" "kept (V \<union> bs) (X \<union> rs) h h1"
    "owns H V X (set_option res \<union> rs) bs h1" "set_option res \<inter> (X \<union> rs) = {}"
    "res = None \<and> ret < 0 \<or> ret = 0 \<and> (\<exists>r xs. res = Some r \<and> data_buffer h1 r (pkt_size src) xs)"
    using owns_packet_alloc [OF assms(1), of A "pkt_size src"] by (elim exE conjE) simp
  show ?thesis
  proof (cases res)
    case None
    with a show ?thesis by (intro exI [of _ ret] exI [of _ None] exI [of _ None] exI [of _ h1]) (auto simp: copy_to_buffer_def)
  next
    case (Some r)
    with a(5) obtain xs R b i where R: "ret = 0" "0 \<le> pkt_size src" "length xs = nat (pkt_size src)" "exclusive h1 r"
      "view h1 r = Some (xs @ replicate 64 0)" "refs h1 r = Some R" "ref_data R = Some (b, i)" "ref_size R = nat (pkt_size src) + 64"
      "pkt_size src + 64 \<le> INT_MAX"
      by (auto simp: data_buffer_def)
    have own: "owns H V X (insert r rs) bs h1" and new: "r \<notin> rs" using a(3,4) Some by auto
    note k = data_kept [OF assms(2) a(2) assms(3,4) heap_okD(2) [OF owns_okD(1) [OF assms(1)]]]
    note k1 = data_kept [OF k(1) kept_refl assms(3,4) heap_okD(2) [OF owns_okD(1) [OF own]]]
    let ?ys = "packet_bytes h src"
    show ?thesis
    proof (cases "pkt_size src = 0")
      case True
      then have "copy_to_buffer A src h = Some (0, Some r, Some (b, i), h1)" using a(1) Some R by (simp add: copy_to_buffer_def)
      moreover have "data_buffer h1 r (pkt_size src) ?ys" using R True by (auto simp: data_buffer_def packet_bytes_def)
      ultimately show ?thesis using a Some R by (intro exI [of _ 0] exI [of _ "Some r"] exI [of _ "Some (b, i)"] exI [of _ h1]) auto
    next
      case False
      have read: "mem_read (pkt_data src) (nat (pkt_size src)) h1 = Some ?ys" using k1(3) k(2) False by simp
      have len: "length ?ys = nat (pkt_size src)" by (rule k(4))
      have "0 + length ?ys \<le> ref_size R" using len R(8) by simp
      from owns_store [OF own new R(6,4,7) this R(5)] obtain h2 where h2: "mem_write (Some (b, i + 0)) ?ys h1 = Some h2"
        "owns H V X (insert r rs) bs h2" "kept (V \<union> bs) (X \<union> rs) h1 h2" "refs h2 = refs h1"
        "view h2 r = Some (splice 0 ?ys (xs @ replicate 64 0))" by blast
      have "copy_to_buffer A src h = Some (0, Some r, Some (b, i), h2)"
        using a(1) Some R False read h2(1) by (simp add: copy_to_buffer_def memcpy_def)
      moreover have "splice 0 ?ys (xs @ replicate 64 0) = ?ys @ replicate 64 0" using len R(3) by (simp add: splice_def)
      then have "data_buffer h2 r (pkt_size src) ?ys" using h2(4,5) R len exclusive_refs [OF h2(4)] by (auto simp: data_buffer_def)
      moreover have "kept (V \<union> bs) (X \<union> rs) h h2" by (rule kept_trans [OF a(2) h2(3)])
      ultimately show ?thesis using h2 a(4) Some R
        by (intro exI [of _ 0] exI [of _ "Some r"] exI [of _ "Some (b, i)"] exI [of _ h2]) auto
    qed
  qed
qed

text \<open>A packet that shows such a buffer.\<close>

lemma data_buffer_packet:
  assumes "data_buffer h r n xs" "refs h r = Some R" "pkt_buf P = Some r" "pkt_data P = ref_data R" "pkt_size P = n"
  shows "data_ok W h P" "packet_bytes h P = xs"
proof -
  obtain a i where R: "0 \<le> n" "length xs = nat n" "view h r = Some (xs @ replicate 64 0)" "ref_data R = Some (a, i)" "ref_size R = nat n + 64"
    "n + 64 \<le> INT_MAX" using assms(1,2) by (auto simp: data_buffer_def)
  show "data_ok W h P" using R assms by (auto simp: data_ok_def intro!: exI [of _ 0])
  have "mem_read (Some (a, i + 0)) (nat n) h = Some (slice 0 (nat n) (xs @ replicate 64 0))"
    by (rule buffer_bytes [OF assms(2) R(4,3)]) (use R in simp)
  then show "packet_bytes h P = xs" using R assms(4,5) by (auto simp: packet_bytes_def slice_def simp del: mem_read.simps)
qed


section \<open>Side data\<close>

lemma sides_okD:
  assumes "sides_ok h ss" "i < length ss"
  obtains a xs where "sd_data (ss ! i) = Some (a, 0)" "side_block (ss ! i) = a" "blocks h a = Some xs" "sd_size (ss ! i) \<le> length xs"
proof -
  have "side_ok h (ss ! i)" using assms by (simp add: sides_ok_def)
  then show ?thesis using that by (auto simp: side_ok_def side_block_def block_of_def)
qed

lemma sides_ok_Cons: "sides_ok h (s # ss) \<longleftrightarrow> side_ok h s \<and> side_block s \<notin> side_block ` set ss \<and> sd_type s \<notin> sd_type ` set ss \<and> sides_ok h ss"
  by (auto simp: sides_ok_def)

lemma sides_ok_append: "sides_ok h (ss @ [s]) \<longleftrightarrow> sides_ok h ss \<and> side_ok h s \<and> side_block s \<notin> side_block ` set ss \<and> sd_type s \<notin> sd_type ` set ss"
  by (auto simp: sides_ok_def)

lemma owns_free_side_data:
  assumes "owns H V X rs (side_block ` set ss \<union> bs) h" "sides_ok h ss" "side_block ` set ss \<inter> bs = {}"
  shows "\<exists>h'. free_side_data ss h = Some h' \<and> owns H V X rs bs h' \<and> kept (V \<union> bs) (X \<union> rs) h h'"
  using assms
proof (induction ss arbitrary: h)
  case (Cons s ss)
  obtain a where a: "sd_data s = Some (a, 0)" "side_block s = a" using Cons.prems(2) by (auto simp: sides_ok_def side_ok_def side_block_def block_of_def)
  let ?bs = "side_block ` set ss \<union> bs"
  have "a \<notin> ?bs" using Cons.prems(2,3) a(2) by (auto simp: sides_ok_Cons)
  moreover have "owns H V X rs (insert a ?bs) h" using Cons.prems(1) a(2) by simp
  ultimately obtain h1 where h1: "mem_free (Some (a, 0)) h = Some h1" "owns H V X rs ?bs h1" "kept (V \<union> ?bs) (X \<union> rs) h h1"
    using owns_free by blast
  have "sides_ok h1 ss" by (rule sides_kept [OF _ h1(3)]) (use Cons.prems(2) in \<open>auto simp: sides_ok_Cons\<close>)
  from Cons.IH [OF h1(2) this] Cons.prems(3) obtain h2 where h2: "free_side_data ss h1 = Some h2" "owns H V X rs bs h2" "kept (V \<union> bs) (X \<union> rs) h1 h2"
    by auto
  have "kept (V \<union> bs) (X \<union> rs) h h1" by (rule kept_mono [OF h1(3)]) auto
  then have "kept (V \<union> bs) (X \<union> rs) h h2" using h2(3) kept_trans by blast
  then show ?case using a h1(1) h2(1,2) by (intro exI [of _ h2]) simp
qed simp

lemma find_side_data_Some: "find_side_data t ss = Some i \<Longrightarrow> i < length ss \<and> sd_type (ss ! i) = t"
  by (induction ss arbitrary: i) (auto split: if_splits)

lemma find_side_data_None: "find_side_data t ss = None \<longleftrightarrow> t \<notin> sd_type ` set ss"
  by (induction ss) auto

text \<open>An element takes the place of the one of its type, or comes last.\<close>

definition with_side :: "AVPacketSideData list \<Rightarrow> AVPacketSideData \<Rightarrow> AVPacketSideData list" where
  "with_side ss s = (case find_side_data (sd_type s) ss of Some i \<Rightarrow> ss[i := s] | None \<Rightarrow> ss @ [s])"

definition put_side :: "int \<Rightarrow> 'a \<Rightarrow> (int \<times> 'a) list \<Rightarrow> (int \<times> 'a) list" where
  "put_side t x ss = (if t \<in> fst ` set ss then map (\<lambda>s. if fst s = t then (t, x) else s) ss else ss @ [(t, x)])"

lemma no_type: "t \<notin> sd_type ` set ss \<Longrightarrow> x \<in> set ss \<Longrightarrow> sd_type x \<noteq> t"
  by auto

lemma type_index: "distinct (map sd_type ss) \<Longrightarrow> i < length ss \<Longrightarrow> j < length ss \<Longrightarrow> sd_type (ss ! i) = sd_type (ss ! j) \<Longrightarrow> i = j"
  by (metis length_map nth_eq_iff_index_eq nth_map)

lemma other_types:
  assumes "distinct (map sd_type ss)" "i < length ss"
  shows "{x \<in> set ss. sd_type x \<noteq> sd_type (ss ! i)} = set ss - {ss ! i}"
  using assms by (auto simp: distinct_map dest: inj_onD)

lemma set_with_side:
  assumes "distinct (map sd_type ss)"
  shows "set (with_side ss s) = insert s {x \<in> set ss. sd_type x \<noteq> sd_type s}"
proof (cases "find_side_data (sd_type s) ss")
  case None
  then have "with_side ss s = ss @ [s]" "sd_type s \<notin> sd_type ` set ss" by (simp_all add: with_side_def find_side_data_None [symmetric])
  then show ?thesis using no_type [of "sd_type s" ss] by auto
next
  case (Some i)
  note i = find_side_data_Some [OF Some]
  have d: "distinct ss" using assms by (simp add: distinct_map)
  have "{x \<in> set ss. sd_type x \<noteq> sd_type s} = set ss - {ss ! i}" using other_types [OF assms] i by metis
  then show ?thesis using set_update_distinct [OF d conjunct1 [OF i]] Some by (simp add: with_side_def)
qed

lemma distinct_with_side:
  assumes "distinct (map f ss)" "distinct (map sd_type ss)" "\<And>x. x \<in> set ss \<Longrightarrow> sd_type x \<noteq> sd_type s \<Longrightarrow> f x \<noteq> f s"
  shows "distinct (map f (with_side ss s))"
proof (cases "find_side_data (sd_type s) ss")
  case None
  then have "with_side ss s = ss @ [s]" "sd_type s \<notin> sd_type ` set ss" by (simp_all add: with_side_def find_side_data_None [symmetric])
  moreover have "f s \<notin> f ` set ss" using assms(3) no_type [OF calculation(2)] by (metis imageE)
  ultimately show ?thesis using assms(1) by simp
next
  case (Some i)
  note i = find_side_data_Some [OF Some]
  have "f s \<notin> set (map f ss) - {map f ss ! i}"
  proof
    assume "f s \<in> set (map f ss) - {map f ss ! i}"
    then obtain j where j: "j < length ss" "f (ss ! j) = f s" "f (ss ! j) \<noteq> f (ss ! i)" using i by (auto simp: in_set_conv_nth)
    then have "sd_type (ss ! j) \<noteq> sd_type s" using type_index [OF assms(2), of j i] i by auto
    then show False using assms(3) [of "ss ! j"] j by simp
  qed
  then show ?thesis using distinct_list_update [OF assms(1), of "f s" i] Some by (simp add: with_side_def map_update)
qed

lemma map_with_side:
  assumes "distinct (map sd_type ss)" "\<And>x. x \<in> set ss \<Longrightarrow> sd_type x \<noteq> sd_type s \<Longrightarrow> g x = f x"
  shows "map (\<lambda>x. (sd_type x, g x)) (with_side ss s) = put_side (sd_type s) (g s) (map (\<lambda>x. (sd_type x, f x)) ss)"
proof (cases "find_side_data (sd_type s) ss")
  case None
  then have n: "with_side ss s = ss @ [s]" "sd_type s \<notin> sd_type ` set ss" by (simp_all add: with_side_def find_side_data_None [symmetric])
  have "map (\<lambda>x. (sd_type x, g x)) ss = map (\<lambda>x. (sd_type x, f x)) ss" using assms(2) no_type [OF n(2)] by simp
  moreover have "sd_type s \<notin> fst ` set (map (\<lambda>x. (sd_type x, f x)) ss)" using n(2) by force
  ultimately show ?thesis using n(1) by (simp add: put_side_def)
next
  case (Some i)
  note i = find_side_data_Some [OF Some]
  have "sd_type s \<in> fst ` set (map (\<lambda>x. (sd_type x, f x)) ss)" using i by (auto simp: image_image intro: image_eqI [of _ _ "ss ! i"])
  moreover have "map (\<lambda>x. (sd_type x, g x)) (ss[i := s]) =
      map (\<lambda>x. if fst x = sd_type s then (sd_type s, g s) else x) (map (\<lambda>x. (sd_type x, f x)) ss)"
  proof (rule nth_equalityI)
    fix j assume j: "j < length (map (\<lambda>x. (sd_type x, g x)) (ss[i := s]))"
    then have "j \<noteq> i \<Longrightarrow> sd_type (ss ! j) \<noteq> sd_type s" using type_index [OF assms(1), of j i] i by auto
    then show "map (\<lambda>x. (sd_type x, g x)) (ss[i := s]) ! j =
        map (\<lambda>x. if fst x = sd_type s then (sd_type s, g s) else x) (map (\<lambda>x. (sd_type x, f x)) ss) ! j"
      using i j assms(2) [of "ss ! j"] by (cases "j = i") auto
  qed simp
  ultimately show ?thesis using Some by (simp add: with_side_def put_side_def)
qed

lemma sides_with_side:
  assumes "sides_ok h ss" "side_ok h' s" "side_block s \<notin> side_block ` set ss"
    and "\<And>x. x \<in> set ss \<Longrightarrow> sd_type x \<noteq> sd_type s \<Longrightarrow> blocks h' (side_block x) = blocks h (side_block x)"
  shows "sides_ok h' (with_side ss s)"
    "side_values h' (with_side ss s) = put_side (sd_type s) (the (mem_read (sd_data s) (sd_size s) h')) (side_values h ss)"
proof -
  have d: "distinct (map side_block ss)" "distinct (map sd_type ss)" using assms(1) by (simp_all add: sides_ok_def)
  have k: "side_ok h' x \<and> mem_read (sd_data x) (sd_size x) h' = mem_read (sd_data x) (sd_size x) h"
    if "x \<in> set ss" "sd_type x \<noteq> sd_type s" for x
    using side_kept [OF _ assms(4) [OF that]] that(1) assms(1) by (simp add: sides_ok_def)
  show "sides_ok h' (with_side ss s)"
    unfolding sides_ok_def
  proof (intro conjI)
    show "\<forall>x\<in>set (with_side ss s). side_ok h' x" using set_with_side [OF d(2), of s] k assms(2) by auto
    show "distinct (map side_block (with_side ss s))" using assms(3) by (intro distinct_with_side [OF d]) (metis imageI)
    show "distinct (map sd_type (with_side ss s))" by (rule distinct_with_side [OF d(2,2)])
  qed
  show "side_values h' (with_side ss s) = put_side (sd_type s) (the (mem_read (sd_data s) (sd_size s) h')) (side_values h ss)"
    unfolding side_values_def by (rule map_with_side [OF d(2)]) (simp add: k)
qed

text \<open>The blocks: that of the new element, and those of the elements of other types.\<close>

lemma blocks_with_side:
  assumes "sides_ok h ss" "find_side_data (sd_type s) ss = Some i"
  shows "side_block ` set (with_side ss s) = insert (side_block s) (side_block ` set ss - {side_block (ss ! i)})"
proof -
  have d: "distinct (map side_block ss)" "distinct (map sd_type ss)" using assms(1) by (simp_all add: sides_ok_def)
  note i = find_side_data_Some [OF assms(2)]
  have "{x \<in> set ss. sd_type x \<noteq> sd_type s} = set ss - {ss ! i}" using other_types [OF d(2)] i by metis
  moreover have "side_block ` (set ss - {ss ! i}) = side_block ` set ss - side_block ` {ss ! i}"
    by (rule inj_on_image_set_diff [of _ "set ss"]) (use d(1) i in \<open>auto simp: distinct_map\<close>)
  ultimately have "side_block ` {x \<in> set ss. sd_type x \<noteq> sd_type s} = side_block ` set ss - {side_block (ss ! i)}" by simp
  then show ?thesis using set_with_side [OF d(2), of s] by simp
qed

lemma owns_add_side:
  fixes n :: nat and t :: int
  assumes "owns H V X rs (insert a (packet_blocks P)) h" "a \<notin> packet_blocks P" "sides_ok h (side_data P)"
  defines "s \<equiv> \<lparr>sd_data = Some (a, 0), sd_size = n, sd_type = t\<rparr>"
  shows "\<exists>ret P' h'. av_packet_add_side_data A P t (Some (a, 0)) n h = Some (ret, P', h') \<and> kept V (X \<union> rs) h h' \<and>
    blocks h' a = blocks h a \<and> (\<forall>x\<in>set (side_data P). sd_type x \<noteq> t \<longrightarrow> blocks h' (side_block x) = blocks h (side_block x)) \<and>
    (ret < 0 \<and> P' = P \<and> owns H V X rs (insert a (packet_blocks P)) h' \<and> blocks h' = blocks h \<or>
     ret = 0 \<and> P' = P\<lparr>side_data := with_side (side_data P) s\<rparr> \<and> owns H V X rs (packet_blocks P') h')"
proof (cases "find_side_data t (side_data P)")
  case (Some i)
  let ?old = "side_data P ! i"
  note i = find_side_data_Some [OF Some]
  obtain b where b: "sd_data ?old = Some (b, 0)" "side_block ?old = b" by (rule sides_okD [OF assms(3) conjunct1 [OF i]])
  have bin: "b \<in> packet_blocks P" using b(2) i by (auto simp: packet_blocks_def)
  let ?bs = "insert a (packet_blocks P - {b})"
  have "insert b ?bs = insert a (packet_blocks P)" using bin by auto
  then have own: "owns H V X rs (insert b ?bs) h" using assms(1) by simp
  have "b \<notin> ?bs" using bin assms(2) by auto
  from owns_free [OF own this] obtain h' where h': "mem_free (Some (b, 0)) h = Some h'" "owns H V X rs ?bs h'" "kept (V \<union> ?bs) (X \<union> rs) h h'"
    by blast
  have "?old\<lparr>sd_data := Some (a, 0), sd_size := n\<rparr> = s" using i by (simp add: s_def)
  then have run: "av_packet_add_side_data A P t (Some (a, 0)) n h = Some (0, P\<lparr>side_data := with_side (side_data P) s\<rparr>, h')"
    using Some b h'(1) by (simp add: av_packet_add_side_data_def with_side_def s_def)
  have "packet_blocks (P\<lparr>side_data := with_side (side_data P) s\<rparr>) = ?bs"
  proof -
    have "side_block s = a" "sd_type s = t" by (simp_all add: s_def side_block_def block_of_def)
    with blocks_with_side [OF assms(3), of s i] Some b(2) have "side_block ` set (with_side (side_data P) s) = ?bs"
      by (simp add: packet_blocks_def)
    then show ?thesis by (simp add: packet_blocks_def)
  qed
  moreover have "blocks h' (side_block x) = blocks h (side_block x)" if x: "x \<in> set (side_data P)" "sd_type x \<noteq> t" for x
  proof -
    have "distinct (map side_block (side_data P))" using assms(3) by (simp add: sides_ok_def)
    then have "inj_on side_block (set (side_data P))" by (simp add: distinct_map)
    moreover have "x \<noteq> ?old" using x(2) i by auto
    ultimately have "side_block x \<noteq> b" using x(1) i b(2) inj_onD by fastforce
    then show ?thesis using h'(3) x by (auto simp: kept_def packet_blocks_def)
  qed
  moreover have "kept V (X \<union> rs) h h'" by (rule kept_mono [OF h'(3)]) auto
  ultimately show ?thesis using run h'(2,3) by (intro exI [of _ 0] exI [of _ "P\<lparr>side_data := with_side (side_data P) s\<rparr>"] exI [of _ h']) (auto simp: kept_def)
next
  case None
  consider (bad) ret n where "av_packet_add_side_data A P t (Some (a, 0)) (sd_size s) h = Some (ret, P, h\<lparr>fresh := n\<rparr>)" "ret < 0" "fresh h \<le> n"
    | (good) "av_packet_add_side_data A P t (Some (a, 0)) (sd_size s) h = Some (0, P\<lparr>side_data := with_side (side_data P) s\<rparr>, h\<lparr>fresh := fresh h + 1\<rparr>)"
  proof (cases "length (side_data P) + 1 > AV_PKT_DATA_NB")
    case True
    then show ?thesis using bad [of AVERROR_ERANGE "fresh h"] None by (simp add: av_packet_add_side_data_def)
  next
    case False
    then show ?thesis using bad [of AVERROR_ENOMEM "fresh h + 1"] good None
      by (cases rule: new_address_cases [of A h]) (simp_all add: av_packet_add_side_data_def with_side_def s_def)
  qed
  then show ?thesis
  proof cases
    case bad
    then show ?thesis using owns_fresh [OF assms(1) bad(3)] by (auto simp: s_def kept_def)
  next
    case good
    have "packet_blocks (P\<lparr>side_data := with_side (side_data P) s\<rparr>) = insert a (packet_blocks P)"
      using None by (simp add: packet_blocks_def with_side_def s_def side_block_def block_of_def)
    then show ?thesis using good owns_fresh [OF assms(1), of "fresh h + 1"]
      by (intro exI [of _ 0] exI [of _ "P\<lparr>side_data := with_side (side_data P) s\<rparr>"] exI [of _ "h\<lparr>fresh := fresh h + 1\<rparr>"]) (auto simp: s_def kept_def)
  qed
qed

end
