(* ===== verification/Packet_Refs.thy ===== *)
theory Packet_Refs
  imports Packet_Ops
begin

text \<open>
  The functions that refer to the data of a packet: each leads from a packet that is held to one that
  is held, with the value its caller expects, or fails and changes nothing.
\<close>

section \<open>Allocating side data\<close>

lemma owns_new_side:
  fixes n :: nat and t :: int
  assumes "owns H V X rs (packet_blocks P) h" "sides_ok h (side_data P)"
  shows "\<exists>res P' h'. av_packet_new_side_data A P t n h = Some (res, P', h') \<and> kept V (X \<union> rs) h h' \<and> owns H V X rs (packet_blocks P') h' \<and>
    (res = None \<and> P' = P \<and> kept (V \<union> packet_blocks P) (X \<union> rs) h h' \<or>
     (\<exists>a. res = Some (a, 0) \<and> P' = P\<lparr>side_data := with_side (side_data P) \<lparr>sd_data = Some (a, 0), sd_size = n, sd_type = t\<rparr>\<rparr> \<and>
       a \<notin> packet_blocks P \<and> blocks h' a = Some (replicate (n + 64) 0) \<and>
       (\<forall>x\<in>set (side_data P). sd_type x \<noteq> t \<longrightarrow> blocks h' (side_block x) = blocks h (side_block x))))"
proof (cases "int n > SIZE_MAX - AV_INPUT_BUFFER_PADDING_SIZE")
  case True
  then show ?thesis using assms(1) by (intro exI [of _ None] exI [of _ P] exI [of _ h]) (simp add: av_packet_new_side_data_def)
next
  case fits: False
  note mz = av_packet_new_side_data_def av_mallocz_def AV_INPUT_BUFFER_PADDING_SIZE_def
  show ?thesis
  proof (cases rule: new_address_cases [of A h])
    case 1
    then show ?thesis using fits owns_fresh [OF assms(1), of "fresh h + 1"]
      by (intro exI [of _ None] exI [of _ P] exI [of _ "h\<lparr>fresh := fresh h + 1\<rparr>"]) (simp add: mz)
  next
    case 2
    let ?a = "fresh h" and ?xs = "replicate (n + 64) (0 :: byte)"
    let ?h = "h\<lparr>fresh := ?a + 1, blocks := (blocks h)(?a \<mapsto> ?xs)\<rparr>"
    note m = owns_malloc(1,2) [OF assms(1), where xs = ?xs] owns_malloc(3) [OF assms(1)]
    have new: "?a \<notin> packet_blocks P" using m(3) by blast
    have "sides_ok ?h (side_data P)" by (rule sides_kept [OF assms(2) m(2)]) (simp add: packet_blocks_def)
    from owns_add_side [OF m(1) new this, of A t n] obtain ret P' h' where
      r: "av_packet_add_side_data A P t (Some (?a, 0)) n ?h = Some (ret, P', h')" "kept V (X \<union> rs) ?h h'" "blocks h' ?a = blocks ?h ?a"
        "\<forall>x\<in>set (side_data P). sd_type x \<noteq> t \<longrightarrow> blocks h' (side_block x) = blocks ?h (side_block x)"
        "ret < 0 \<and> P' = P \<and> owns H V X rs (insert ?a (packet_blocks P)) h' \<and> blocks h' = blocks ?h \<or>
         ret = 0 \<and> P' = P\<lparr>side_data := with_side (side_data P) \<lparr>sd_data = Some (?a, 0), sd_size = n, sd_type = t\<rparr>\<rparr> \<and>
           owns H V X rs (packet_blocks P') h'" by (elim exE conjE) (rule that)
    have k: "kept V (X \<union> rs) h h'" by (rule kept_trans [OF kept_mono [OF m(2)] r(2)]) auto
    have same: "\<forall>x\<in>set (side_data P). sd_type x \<noteq> t \<longrightarrow> blocks h' (side_block x) = blocks h (side_block x)"
    proof (intro ballI impI)
      fix x assume x: "x \<in> set (side_data P)" "sd_type x \<noteq> t"
      then have "side_block x \<noteq> ?a" using new unfolding packet_blocks_def by (metis imageI)
      then show "blocks h' (side_block x) = blocks h (side_block x)" using r(4) x by simp
    qed
    show ?thesis
    proof (cases "ret < 0")
      case True
      then have f: "owns H V X rs (insert ?a (packet_blocks P)) h'" "P' = P" "blocks h' = blocks ?h" using r(5) by auto
      from owns_free [OF f(1) new] obtain h2 where h2: "mem_free (Some (?a, 0)) h' = Some h2" "owns H V X rs (packet_blocks P) h2"
        "kept (V \<union> packet_blocks P) (X \<union> rs) h' h2" by (elim exE conjE) (rule that)
      have "av_packet_new_side_data A P t n h = Some (None, P, h2)"
        using fits 2 r(1) f(2) h2(1) True by (simp add: mz nat_add_distrib)
      moreover have "kept (V \<union> packet_blocks P) (X \<union> rs) h h'" using k f(3) m(3) by (auto simp: kept_def)
      then have "kept (V \<union> packet_blocks P) (X \<union> rs) h h2" by (rule kept_trans [OF _ h2(3)])
      moreover have "kept V (X \<union> rs) h h2" by (rule kept_mono [OF calculation(2)]) auto
      ultimately show ?thesis using h2(2)
        by (intro exI [of _ None] exI [of _ P] exI [of _ h2]) simp
    next
      case False
      then have f: "ret = 0" "P' = P\<lparr>side_data := with_side (side_data P) \<lparr>sd_data = Some (?a, 0), sd_size = n, sd_type = t\<rparr>\<rparr>"
        "owns H V X rs (packet_blocks P') h'" using r(5) by auto
      have "av_packet_new_side_data A P t n h = Some (Some (?a, 0), P', h')"
        using fits 2 r(1) f(1) by (simp add: mz nat_add_distrib)
      then show ?thesis using f(2,3) k same new r(3) by (intro exI [of _ "Some (?a, 0)"] exI [of _ P'] exI [of _ h']) simp
    qed
  qed
qed

text \<open>Side data and its contents, written after the allocation.\<close>

lemma write_new_side:
  fixes t :: int
  assumes "owns H V X rs (packet_blocks P) h" "sides_ok h (side_data P)"
  shows "\<exists>res P' h'. av_packet_new_side_data A P t (length ys) h = Some (res, P', h') \<and> kept V (X \<union> rs) h h' \<and>
    (res = None \<and> P' = P \<and> owns H V X rs (packet_blocks P) h' \<and> sides_ok h' (side_data P) \<and> side_values h' (side_data P) = side_values h (side_data P) \<or>
     (\<exists>h2 ss. res \<noteq> None \<and> mem_write res ys h' = Some h2 \<and> P' = P\<lparr>side_data := ss\<rparr> \<and> kept V (X \<union> rs) h h2 \<and>
       owns H V X rs (packet_blocks P') h2 \<and> sides_ok h2 ss \<and> side_values h2 ss = put_side t ys (side_values h (side_data P))))"
proof -
  let ?n = "length ys"
  obtain res P' h' where r: "av_packet_new_side_data A P t ?n h = Some (res, P', h')" "kept V (X \<union> rs) h h'" "owns H V X rs (packet_blocks P') h'"
    "res = None \<and> P' = P \<and> kept (V \<union> packet_blocks P) (X \<union> rs) h h' \<or>
     (\<exists>a. res = Some (a, 0) \<and> P' = P\<lparr>side_data := with_side (side_data P) \<lparr>sd_data = Some (a, 0), sd_size = ?n, sd_type = t\<rparr>\<rparr> \<and>
       a \<notin> packet_blocks P \<and> blocks h' a = Some (replicate (?n + 64) 0) \<and>
       (\<forall>x\<in>set (side_data P). sd_type x \<noteq> t \<longrightarrow> blocks h' (side_block x) = blocks h (side_block x)))"
    using owns_new_side [OF assms, of A t ?n] by (elim exE conjE) (rule that)
  from r(4) show ?thesis
  proof (elim disjE exE conjE)
    assume n: "res = None" "P' = P" "kept (V \<union> packet_blocks P) (X \<union> rs) h h'"
    have "side_block ` set (side_data P) \<subseteq> V \<union> packet_blocks P" by (auto simp: packet_blocks_def)
    note sides_kept [OF assms(2) n(3) this]
    then show ?thesis using r(1-3) n by (intro exI [of _ None] exI [of _ P] exI [of _ h']) simp
  next
    fix a assume a: "res = Some (a, 0)" "P' = P\<lparr>side_data := with_side (side_data P) \<lparr>sd_data = Some (a, 0), sd_size = ?n, sd_type = t\<rparr>\<rparr>"
      "a \<notin> packet_blocks P" "blocks h' a = Some (replicate (?n + 64) 0)"
      "\<forall>x\<in>set (side_data P). sd_type x \<noteq> t \<longrightarrow> blocks h' (side_block x) = blocks h (side_block x)"
    let ?s = "\<lparr>sd_data = Some (a, 0), sd_size = ?n, sd_type = t\<rparr>" and ?xs = "ys @ replicate 64 0"
    let ?ss = "with_side (side_data P) ?s" and ?h = "h'\<lparr>blocks := (blocks h')(a \<mapsto> ?xs)\<rparr>"
    have sb: "side_block ?s = a" by (simp add: side_block_def block_of_def)
    have "a \<in> packet_blocks P'"
      using set_with_side [of "side_data P" ?s] assms(2) a(2) sb by (auto simp: packet_blocks_def sides_ok_def)
    moreover have "length ?xs = length (replicate (?n + 64) (0 :: byte))" by simp
    ultimately have w: "owns H V X rs (packet_blocks P') ?h" "kept (V \<union> (packet_blocks P' - {a})) (X \<union> rs) h' ?h"
      using owns_write [OF r(3) _ a(4)] by blast+
    have run: "mem_write res ys h' = Some ?h" using a(1,4) by (simp add: splice_def)
    have s: "side_ok ?h ?s" by (simp add: side_ok_def)
    have other: "blocks ?h (side_block x) = blocks h (side_block x)" if "x \<in> set (side_data P)" "sd_type x \<noteq> sd_type ?s" for x
      using that a(3,5) by (auto simp: packet_blocks_def)
    have "side_block ?s \<notin> side_block ` set (side_data P)" using a(3) sb by (simp add: packet_blocks_def)
    note v = sides_with_side [OF assms(2) s this other]
    have "kept V (X \<union> rs) h ?h" by (rule kept_trans [OF r(2) kept_mono [OF w(2)]]) auto
    then show ?thesis using r(1,2) w(1) run v a(1,2) by (intro exI [of _ res] exI [of _ P'] exI [of _ h']) (auto simp: slice_def)
  qed
qed

section \<open>Copying the side data\<close>

lemma put_side_new: "t \<notin> fst ` set ss \<Longrightarrow> put_side t x ss = ss @ [(t, x)]"
  by (simp add: put_side_def)

lemma side_types: "fst ` set (side_values h ss) = sd_type ` set ss"
  by (simp add: side_values_def image_image)

lemma put_side_types: "fst ` set (put_side t x vs) = insert t (fst ` set vs)"
proof (cases "t \<in> fst ` set vs")
  case True
  then have "put_side t x vs = map (\<lambda>s. if fst s = t then (t, x) else s) vs" by (simp add: put_side_def)
  then have "map fst (put_side t x vs) = map fst vs" by auto
  then have "fst ` set (put_side t x vs) = fst ` set vs" by (metis list.set_map)
  then show ?thesis using True by (simp add: insert_absorb)
qed (simp add: put_side_def)

text \<open>The failure frees what has been copied, and the reference to the opaque data.\<close>

lemma owns_copy_side_data:
  assumes "owns H V X (set_option (opaque_ref dst) \<union> rs) (packet_blocks dst) h" "set_option (opaque_ref dst) \<inter> rs = {}" "nesting A > 0"
    and "sides_ok h (side_data dst)" "sides_ok h ss" "side_block ` set ss \<subseteq> V" "sd_type ` set ss \<inter> sd_type ` set (side_data dst) = {}"
  shows "\<exists>ret dst' h'. copy_side_data A dst ss h = Some (ret, dst', h') \<and> kept V (X \<union> rs) h h' \<and>
    (ret = 0 \<and> kept V (X \<union> (set_option (opaque_ref dst) \<union> rs)) h h' \<and>
       owns H V X (set_option (opaque_ref dst) \<union> rs) (packet_blocks dst') h' \<and>
       (\<exists>new. dst' = dst\<lparr>side_data := new\<rparr> \<and> sides_ok h' new \<and> side_values h' new = side_values h (side_data dst) @ side_values h ss) \<or>
     ret = AVERROR_ENOMEM \<and> dst' = dst\<lparr>opaque_ref := None, side_data := []\<rparr> \<and> owns H V X rs {} h')"
  using assms
proof (induction ss arbitrary: dst h)
  case Nil
  have "dst = dst\<lparr>side_data := side_data dst\<rparr>" by simp
  moreover have "side_values h (side_data dst) = side_values h (side_data dst) @ side_values h []" by (simp add: side_values_def)
  ultimately have "\<exists>new. dst = dst\<lparr>side_data := new\<rparr> \<and> sides_ok h new \<and> side_values h new = side_values h (side_data dst) @ side_values h []"
    using Nil.prems(4) by blast
  then show ?case using Nil.prems(1) by (intro exI [of _ 0] exI [of _ dst] exI [of _ h]) simp
next
  case (Cons s ss)
  let ?rs = "set_option (opaque_ref dst) \<union> rs"
  obtain a xs where a: "sd_data s = Some (a, 0)" "side_block s = a" "blocks h a = Some xs" "sd_size s \<le> length xs"
    by (rule sides_okD [OF Cons.prems(5), of 0]) auto
  let ?ys = "take (sd_size s) xs"
  have read: "mem_read (sd_data s) (sd_size s) h = Some ?ys" using a by (simp add: slice_def)
  have len: "length ?ys = sd_size s" using a(4) by simp
  obtain res P' h1 where r: "av_packet_new_side_data A dst (sd_type s) (sd_size s) h = Some (res, P', h1)" "kept V (X \<union> ?rs) h h1"
    "res = None \<and> P' = dst \<and> owns H V X ?rs (packet_blocks dst) h1 \<and> sides_ok h1 (side_data dst) \<and>
       side_values h1 (side_data dst) = side_values h (side_data dst) \<or>
     (\<exists>h2 new. res \<noteq> None \<and> mem_write res ?ys h1 = Some h2 \<and> P' = dst\<lparr>side_data := new\<rparr> \<and> kept V (X \<union> ?rs) h h2 \<and>
       owns H V X ?rs (packet_blocks P') h2 \<and> sides_ok h2 new \<and> side_values h2 new = put_side (sd_type s) ?ys (side_values h (side_data dst)))"
    using write_new_side [OF Cons.prems(1,4), of A "sd_type s" ?ys] unfolding len by (elim exE conjE) (rule that)
  from r(3) show ?case
  proof (elim disjE exE conjE)
    assume n: "res = None" "P' = dst" "owns H V X ?rs (packet_blocks dst) h1" "sides_ok h1 (side_data dst)"
    from owns_unref_opt [OF n(3) Cons.prems(2,3)] obtain h2 where h2: "av_buffer_unref A (opaque_ref dst) h1 = Some h2"
      "owns H V X rs (packet_blocks dst) h2" "kept (V \<union> packet_blocks dst) (X \<union> rs) h1 h2" by (elim exE conjE) (rule that)
    have s2: "sides_ok h2 (side_data dst)" by (rule sides_kept [OF n(4) h2(3)]) (auto simp: packet_blocks_def)
    have "owns H V X rs (side_block ` set (side_data dst) \<union> {}) h2" using h2(2) by (simp add: packet_blocks_def)
    from owns_free_side_data [OF this s2] obtain h3 where h3: "free_side_data (side_data dst) h2 = Some h3" "owns H V X rs {} h3"
      "kept V (X \<union> rs) h2 h3" by auto
    have "copy_side_data A dst (s # ss) h = Some (AVERROR_ENOMEM, dst\<lparr>opaque_ref := None, side_data := []\<rparr>, h3)"
      using r(1) n(1,2) h2(1) h3(1) by (simp add: av_packet_free_side_data_def)
    moreover have "kept V (X \<union> rs) h h1" "kept V (X \<union> rs) h1 h2"
      by (rule kept_mono [OF r(2)], auto) (rule kept_mono [OF h2(3)], auto)
    then have "kept V (X \<union> rs) h h3" using h3(3) kept_trans by blast
    ultimately show ?case using h3(2) by (intro exI [of _ AVERROR_ENOMEM] exI [of _ "dst\<lparr>opaque_ref := None, side_data := []\<rparr>"] exI [of _ h3]) simp
  next
    fix h2 new assume p: "res \<noteq> None" "mem_write res ?ys h1 = Some h2" "P' = dst\<lparr>side_data := new\<rparr>" "kept V (X \<union> ?rs) h h2"
      "owns H V X ?rs (packet_blocks P') h2" "sides_ok h2 new" "side_values h2 new = put_side (sd_type s) ?ys (side_values h (side_data dst))"
    have "blocks h1 a = blocks h a" using r(2) Cons.prems(6) a(2) by (auto simp: kept_def)
    then have "memcpy res (sd_data s) (sd_size s) h1 = Some h2" using a p(2) by (simp add: memcpy_def slice_def)
    then have run: "copy_side_data A dst (s # ss) h = copy_side_data A P' ss h2" using r(1) p(1) by (cases res) simp_all
    have types: "sd_type ` set new = insert (sd_type s) (sd_type ` set (side_data dst))"
      using arg_cong [OF p(7), of "\<lambda>v. fst ` set v"] by (simp add: side_types put_side_types)
    have sub: "side_block ` set (s # ss) \<subseteq> V" by (rule Cons.prems(6))
    have ss: "sides_ok h2 ss" "side_values h2 ss = side_values h ss"
      by (rule sides_kept [OF _ p(4)]; use Cons.prems(5) sub in \<open>auto simp: sides_ok_Cons\<close>)+
    have "sd_type ` set ss \<inter> sd_type ` set (side_data P') = {}" using types Cons.prems(5,7) p(3) by (auto simp: sides_ok_Cons)
    moreover have "opaque_ref P' = opaque_ref dst" "side_data P' = new" using p(3) by simp_all
    ultimately obtain ret dst' h' where c: "copy_side_data A P' ss h2 = Some (ret, dst', h')" "kept V (X \<union> rs) h2 h'"
      "ret = 0 \<and> kept V (X \<union> ?rs) h2 h' \<and> owns H V X ?rs (packet_blocks dst') h' \<and>
         (\<exists>new'. dst' = P'\<lparr>side_data := new'\<rparr> \<and> sides_ok h' new' \<and> side_values h' new' = side_values h2 new @ side_values h2 ss) \<or>
       ret = AVERROR_ENOMEM \<and> dst' = P'\<lparr>opaque_ref := None, side_data := []\<rparr> \<and> owns H V X rs {} h'"
      using Cons.IH [of P' h2] Cons.prems(2,3) p(5,6) ss(1) sub by auto
    have "sd_type s \<notin> fst ` set (side_values h (side_data dst))" using Cons.prems(7) by (auto simp: side_types)
    then have vals: "side_values h2 new @ side_values h2 ss = side_values h (side_data dst) @ side_values h (s # ss)"
      using p(7) ss(2) read by (simp add: put_side_new) (simp add: side_values_def)
    have "kept V (X \<union> rs) h h2" by (rule kept_mono [OF p(4)]) auto
    then have k: "kept V (X \<union> rs) h h'" using c(2) kept_trans by blast
    from c(3) show ?case
    proof (elim disjE exE conjE)
      fix new' assume d: "ret = 0" "kept V (X \<union> ?rs) h2 h'" "owns H V X ?rs (packet_blocks dst') h'" "dst' = P'\<lparr>side_data := new'\<rparr>" "sides_ok h' new'"
        "side_values h' new' = side_values h2 new @ side_values h2 ss"
      have "kept V (X \<union> ?rs) h h'" by (rule kept_trans [OF p(4) d(2)])
      moreover have "\<exists>new. dst' = dst\<lparr>side_data := new\<rparr> \<and> sides_ok h' new \<and>
          side_values h' new = side_values h (side_data dst) @ side_values h (s # ss)"
        by (rule exI [of _ new']) (simp add: d(4,5) d(6) [unfolded vals] p(3))
      ultimately show ?case using run c(1) d(1,3) k by (intro exI [of _ ret] exI [of _ dst'] exI [of _ h']) simp
    next
      assume f: "ret = AVERROR_ENOMEM" "dst' = P'\<lparr>opaque_ref := None, side_data := []\<rparr>" "owns H V X rs {} h'"
      then have "dst' = dst\<lparr>opaque_ref := None, side_data := []\<rparr>" using p(3) by simp
      then show ?case using run c(1) k f(1,3) by (intro exI [of _ ret] exI [of _ dst'] exI [of _ h']) simp
    qed
  qed
qed

end
