(* ===== verification/Packet_Calls.thy ===== *)
theory Packet_Calls
  imports Packet_Refs
begin

text \<open>
  Each function of \<open>packet.c\<close> takes a packet that is held to one that is held: what it does to the
  value of the packet, or that it fails and changes nothing.
\<close>

section \<open>Giving up a packet\<close>

lemma packet_unref_owns:
  assumes "owns H V X (packet_refs P) (packet_blocks P) h" "sides_ok h (side_data P)"
    and "set_option (pkt_buf P) \<inter> set_option (opaque_ref P) = {}" "nesting A > 0"
  shows "\<exists>h'. av_packet_unref A P h = Some (get_packet_defaults, h') \<and> owns H V X {} {} h' \<and> kept V X h h'"
proof -
  have "owns H V X (packet_refs P) (side_block ` set (side_data P) \<union> {}) h" using assms(1) by (simp add: packet_blocks_def)
  from owns_free_side_data [OF this assms(2)] obtain h1 where h1: "free_side_data (side_data P) h = Some h1"
    "owns H V X (packet_refs P) {} h1" "kept V (X \<union> packet_refs P) h h1" by auto
  have "owns H V X (set_option (opaque_ref P) \<union> set_option (pkt_buf P)) {} h1" using h1(2) by (simp add: packet_refs_def Un_commute)
  moreover have "set_option (opaque_ref P) \<inter> set_option (pkt_buf P) = {}" using assms(3) by blast
  ultimately obtain h2 where h2: "av_buffer_unref A (opaque_ref P) h1 = Some h2" "owns H V X (set_option (pkt_buf P)) {} h2"
    "kept V (X \<union> set_option (pkt_buf P)) h1 h2" using owns_unref_opt [OF _ _ assms(4)] by force
  have "owns H V X (set_option (pkt_buf P) \<union> {}) {} h2" using h2(2) by simp
  from owns_unref_opt [OF this _ assms(4)] obtain h3 where h3: "av_buffer_unref A (pkt_buf P) h2 = Some h3" "owns H V X {} {} h3" "kept V X h2 h3"
    by auto
  have "kept V X h h1" by (rule kept_mono [OF h1(3)]) auto
  moreover have "kept V X h1 h2" by (rule kept_mono [OF h2(3)]) auto
  ultimately have "kept V X h h3" using h3(3) kept_trans by blast
  then show ?thesis using h1(1) h2(1) h3(1,2) by (intro exI [of _ h3]) (simp add: av_packet_unref_def av_packet_free_side_data_def)
qed

lemma heldD:
  assumes "held W H V X P h"
  shows "owns H V X (packet_refs P) (packet_blocks P) h" "data_ok W h P" "sides_ok h (side_data P)"
    "set_option (pkt_buf P) \<inter> set_option (opaque_ref P) = {}" "W \<subseteq> V" "packet_ok W h P" "refs_ok h"
  using assms heap_okD(2) [OF owns_okD(1)] by (auto simp: held_def packet_ok_def)

lemma heldI:
  assumes "owns H V X (packet_refs P) (packet_blocks P) h" "data_ok W h P" "sides_ok h (side_data P)"
    and "set_option (pkt_buf P) \<inter> set_option (opaque_ref P) = {}" "W \<subseteq> V"
  shows "held W H V X P h"
  using assms by (simp add: held_def packet_ok_def)

lemma unref_held:
  assumes "held W H V X P h" "nesting A > 0"
  shows "\<exists>h'. av_packet_unref A P h = Some (get_packet_defaults, h') \<and> held W H V X get_packet_defaults h' \<and> kept V X h h'"
  using packet_unref_owns [OF heldD(1,3,4) [OF assms(1)] assms(2)] heldD(5) [OF assms(1)] by (simp add: held_blank)

section \<open>Copying the properties\<close>

lemma owns_replace_none:
  assumes "owns H V X rs bs h" "set_option s \<subseteq> X \<union> rs" "card (dom (refs h)) + 1 < 2 ^ 32"
  shows "\<exists>ret t h'. av_buffer_replace A None s h = Some (ret, t, h') \<and> kept (V \<union> bs) (X \<union> rs) h h' \<and>
    owns H V X (set_option t \<union> rs) bs h' \<and> set_option t \<inter> (X \<union> rs) = {} \<and>
    (ret = 0 \<and> (case t of None \<Rightarrow> None | Some r \<Rightarrow> view h' r) = (case s of None \<Rightarrow> None | Some r \<Rightarrow> view h r) \<or> ret = AVERROR_ENOMEM \<and> t = None)"
proof (cases s)
  case None
  then show ?thesis using assms(1) by (intro exI [of _ 0] exI [of _ None] exI [of _ h]) (simp add: av_buffer_replace_def av_buffer_unref_def)
next
  case (Some r)
  obtain R where R: "refs h r = Some R" using refs_domain [OF owns_okD(4) [OF assms(1)]] assms(2) Some by auto
  obtain res h' where f: "av_buffer_ref A r h = Some (res, h')" "kept (V \<union> bs) (X \<union> rs) h h'"
    "owns H V X (set_option res \<union> rs) bs h'" "set_option res \<inter> (X \<union> rs) = {}" "\<forall>t. res = Some t \<longrightarrow> refs h' t = Some R \<and> view h' t = view h r"
    using owns_ref [OF assms(1) R assms(3), of A] by (elim exE conjE) (rule that)
  have "av_buffer_replace A None s h = Some (if res = None then AVERROR_ENOMEM else 0, res, h')"
    using Some R f(1) by (cases res) (simp_all add: av_buffer_replace_def av_buffer_unref_def)
  then show ?thesis using f Some by (intro exI [of _ "if res = None then AVERROR_ENOMEM else 0"] exI [of _ res] exI [of _ h']) (cases res; simp)
qed

text \<open>The destination with the plain fields of the source.\<close>

definition with_fields :: "AVPacket \<Rightarrow> AVPacket \<Rightarrow> AVPacket" where
  "with_fields dst src = dst\<lparr>pts := pts src, dts := dts src, pkt_pos := pkt_pos src, pkt_duration := pkt_duration src,
     pkt_flags := pkt_flags src, stream_index := stream_index src, pkt_opaque := pkt_opaque src,
     pkt_time_base := pkt_time_base src, opaque_ref := None, side_data := []\<rparr>"

lemma with_fields_simps [simp]:
  "pkt_buf (with_fields dst src) = pkt_buf dst" "pkt_data (with_fields dst src) = pkt_data dst" "pkt_size (with_fields dst src) = pkt_size dst"
  "opaque_ref (with_fields dst src) = None" "side_data (with_fields dst src) = []"
  by (simp_all add: with_fields_def)

lemma fields_copied:
  "packet_fields ((with_fields dst src)\<lparr>opaque_ref := r, side_data := ss, pkt_buf := b, pkt_data := d, pkt_size := pkt_size src\<rparr>) = packet_fields src"
  by (simp add: with_fields_def packet_fields_def)

lemma copy_props_owns:
  assumes "owns H V X {} {} h" "packet_ok W h src" "packet_refs src \<subseteq> X" "packet_blocks src \<subseteq> V"
    and "card (dom (refs h)) + 1 < 2 ^ 32" "nesting A > 0"
  shows "\<exists>ret r ss h'. av_packet_copy_props A dst src h = Some (ret, (with_fields dst src)\<lparr>opaque_ref := r, side_data := ss\<rparr>, h') \<and> kept V X h h' \<and>
    owns H V X (set_option r) (side_block ` set ss) h' \<and> set_option r \<inter> X = {} \<and>
    (ret = 0 \<and> sides_ok h' ss \<and> side_values h' ss = side_values h (side_data src) \<and>
       (case r of None \<Rightarrow> None | Some r \<Rightarrow> view h' r) = (case opaque_ref src of None \<Rightarrow> None | Some r \<Rightarrow> view h r) \<or>
     ret = AVERROR_ENOMEM \<and> r = None \<and> ss = [])"
proof -
  have "set_option (opaque_ref src) \<subseteq> X \<union> {}" using assms(3) by (auto simp: packet_refs_def)
  from owns_replace_none [OF assms(1) this assms(5), of A] obtain ret r h1 where
    f: "av_buffer_replace A None (opaque_ref src) h = Some (ret, r, h1)" "kept V X h h1" "owns H V X (set_option r) {} h1" "set_option r \<inter> X = {}"
      "ret = 0 \<and> (case r of None \<Rightarrow> None | Some r \<Rightarrow> view h1 r) = (case opaque_ref src of None \<Rightarrow> None | Some r \<Rightarrow> view h r) \<or>
       ret = AVERROR_ENOMEM \<and> r = None" by (simp only: Un_empty_right) (elim exE conjE, rule that)
  let ?dst = "with_fields dst src"
  have set0: "?dst = ?dst\<lparr>opaque_ref := None, side_data := []\<rparr>" by (simp add: with_fields_def)
  show ?thesis
  proof (cases "ret < 0")
    case True
    then have "ret = AVERROR_ENOMEM" "r = None" using f(5) by auto
    moreover have "av_packet_copy_props A dst src h = Some (ret, ?dst\<lparr>opaque_ref := r\<rparr>, h1)"
      using f(1) True by (simp add: av_packet_copy_props_def Let_def with_fields_def [symmetric])
    ultimately show ?thesis using f(2-4) set0 by (intro exI [of _ ret] exI [of _ None] exI [of _ "[]"] exI [of _ h1]) simp
  next
    case False
    then have op: "ret = 0" "(case r of None \<Rightarrow> None | Some r \<Rightarrow> view h1 r) = (case opaque_ref src of None \<Rightarrow> None | Some r \<Rightarrow> view h r)"
      using f(5) by auto
    let ?d = "?dst\<lparr>opaque_ref := r\<rparr>"
    have sd: "sides_ok h (side_data src)" "side_block ` set (side_data src) \<subseteq> V" using assms(2,4) by (simp_all add: packet_ok_def packet_blocks_def)
    note s1 = sides_kept [OF sd(1) f(2) sd(2)]
    have own: "owns H V X (set_option (opaque_ref ?d) \<union> {}) (packet_blocks ?d) h1" using f(3) by (simp add: packet_blocks_def)
    have empty: "sides_ok h1 (side_data ?d)" "sd_type ` set (side_data src) \<inter> sd_type ` set (side_data ?d) = {}" by (simp_all add: sides_ok_def)
    from owns_copy_side_data [OF own _ assms(6) empty(1) s1(1) sd(2) empty(2)] obtain ret' dst' h' where
      c: "copy_side_data A ?d (side_data src) h1 = Some (ret', dst', h')" "kept V X h1 h'"
        "ret' = 0 \<and> kept V (X \<union> set_option r) h1 h' \<and> owns H V X (set_option r) (packet_blocks dst') h' \<and>
           (\<exists>new. dst' = ?d\<lparr>side_data := new\<rparr> \<and> sides_ok h' new \<and> side_values h' new = side_values h1 (side_data ?d) @ side_values h1 (side_data src)) \<or>
         ret' = AVERROR_ENOMEM \<and> dst' = ?d\<lparr>opaque_ref := None, side_data := []\<rparr> \<and> owns H V X {} {} h'"
      by (simp only: Un_empty_right, simp) blast
    have run: "av_packet_copy_props A dst src h = Some (ret', dst', h')"
      using f(1) op(1) c(1) by (simp add: av_packet_copy_props_def Let_def with_fields_def [symmetric])
    have k: "kept V X h h'" by (rule kept_trans [OF f(2) c(2)])
    from c(3) show ?thesis
    proof (elim disjE exE conjE)
      fix new assume n: "ret' = 0" "kept V (X \<union> set_option r) h1 h'" "owns H V X (set_option r) (packet_blocks dst') h'" "dst' = ?d\<lparr>side_data := new\<rparr>"
        "sides_ok h' new" "side_values h' new = side_values h1 (side_data ?d) @ side_values h1 (side_data src)"
      have "(case r of None \<Rightarrow> None | Some r \<Rightarrow> view h' r) = (case r of None \<Rightarrow> None | Some r \<Rightarrow> view h1 r)"
        using n(2) by (auto simp: kept_def split: option.splits)
      moreover have "owns H V X (set_option r) (side_block ` set new) h'" using n(3,4) by (simp add: packet_blocks_def)
      moreover have "side_values h' new = side_values h (side_data src)" using n(6) s1(2) by (simp add: side_values_def)
      ultimately show ?thesis using run k n(1,4,5) f(4) op(2) by (intro exI [of _ 0] exI [of _ r] exI [of _ new] exI [of _ h']) simp
    next
      assume e: "ret' = AVERROR_ENOMEM" "dst' = ?d\<lparr>opaque_ref := None, side_data := []\<rparr>" "owns H V X {} {} h'"
      then show ?thesis using run k by (intro exI [of _ ret'] exI [of _ None] exI [of _ "[]"] exI [of _ h']) simp
    qed
  qed
qed


section \<open>References to packets\<close>

lemma ref_fail_owns:
  assumes "owns H V X (packet_refs P) (packet_blocks P) h" "sides_ok h (side_data P)" "pkt_buf P = None" "nesting A > 0"
  shows "\<exists>h'. ref_fail A ret P h = Some (ret, get_packet_defaults, h') \<and> owns H V X {} {} h' \<and> kept V X h h'"
  using packet_unref_owns [OF assms(1,2) _ assms(4)] assms(3) by (auto simp: ref_fail_def)

text \<open>The card of the references grows by those that an operation has made.\<close>

lemma owns_card:
  assumes "owns H V X {} {} h" "owns H V X rs bs h'" "finite rs"
  shows "card (dom (refs h')) \<le> card (dom (refs h)) + card rs"
  using owns_okD(4) [OF assms(1)] owns_okD(4) [OF assms(2)] card_Un_le [of X rs] by simp

lemma value_of_copy:
  assumes "packet_bytes h' P = packet_bytes h src" "side_values h' (side_data P) = side_values h (side_data src)" "packet_fields P = packet_fields src"
    and "(case opaque_ref P of None \<Rightarrow> None | Some r \<Rightarrow> view h' r) = (case opaque_ref src of None \<Rightarrow> None | Some r \<Rightarrow> view h r)"
  shows "packet_value h' P = packet_value h src"
  using assms by (simp add: packet_value_def)

text \<open>The destination \<open>half\<close> way, with the properties of the source and no data yet.\<close>

definition half :: "AVPacket \<Rightarrow> nat option \<Rightarrow> AVPacketSideData list \<Rightarrow> AVPacket" where
  "half src r ss = (with_fields (get_packet_defaults\<lparr>pkt_buf := None\<rparr>) src)\<lparr>opaque_ref := r, side_data := ss\<rparr>"

definition half_ok :: "nat set \<Rightarrow> nat set \<Rightarrow> nat set \<Rightarrow> nat set \<Rightarrow> AVPacket \<Rightarrow> heap \<Rightarrow> nat option \<Rightarrow> AVPacketSideData list \<Rightarrow> heap \<Rightarrow> bool" where
  "half_ok W H V X src h r ss h1 \<longleftrightarrow> W \<subseteq> V \<and> kept V X h h1 \<and> owns H V X (set_option r) (side_block ` set ss) h1 \<and>
     sides_ok h1 ss \<and> side_values h1 ss = side_values h (side_data src) \<and>
     (case r of None \<Rightarrow> None | Some r \<Rightarrow> view h1 r) = (case opaque_ref src of None \<Rightarrow> None | Some r \<Rightarrow> view h r)"

lemma half_simps [simp]:
  "pkt_buf (half src r ss) = None" "pkt_size (half src r ss) = 0" "opaque_ref (half src r ss) = r" "side_data (half src r ss) = ss"
  by (simp_all add: half_def) (simp_all add: get_packet_defaults_def)

lemma half_fields: "packet_fields ((half src r ss)\<lparr>pkt_buf := b, pkt_data := d, pkt_size := pkt_size src\<rparr>) = packet_fields src"
  by (simp add: half_def with_fields_def packet_fields_def)

text \<open>From there on, a later step fails and all is given back, or it provides the data.\<close>

lemma ref_fail_held:
  assumes "half_ok W H V X src h r ss h1" "nesting A > 0" "P = half src r ss \<or> P = (half src r ss)\<lparr>pkt_buf := None\<rparr>"
    and "kept (V \<union> side_block ` set ss) (X \<union> set_option r) h1 h2" "owns H V X (set_option r) (side_block ` set ss) h2"
  shows "\<exists>h3. ref_fail A ret P h2 = Some (ret, get_packet_defaults, h3) \<and> held W H V X get_packet_defaults h3 \<and> kept V X h h3"
proof -
  have P: "packet_refs P = set_option r" "packet_blocks P = side_block ` set ss" "pkt_buf P = None" "side_data P = ss"
    using assms(3) by (auto simp: packet_refs_def packet_blocks_def)
  have "sides_ok h1 ss" using assms(1) by (simp add: half_ok_def)
  then have "sides_ok h2 ss" by (rule sides_kept(1) [OF _ assms(4)]) blast
  with ref_fail_owns [of H V X P h2 A ret] P assms(2,5) obtain h3 where h3: "ref_fail A ret P h2 = Some (ret, get_packet_defaults, h3)"
    "owns H V X {} {} h3" "kept V X h2 h3" by auto
  have "kept V X h1 h2" by (rule kept_mono [OF assms(4)]) auto
  moreover have "kept V X h h1" "W \<subseteq> V" using assms(1) by (simp_all add: half_ok_def)
  ultimately have "kept V X h h3" "W \<subseteq> V" using h3(3) kept_trans by blast+
  then show ?thesis using h3(1,2) by (simp add: held_blank)
qed

lemma ref_success:
  assumes "Q = (half src r ss)\<lparr>pkt_buf := Some t, pkt_data := data, pkt_size := pkt_size src\<rparr>"
    and "half_ok W H V X src h r ss h1" "kept (V \<union> side_block ` set ss) (X \<union> set_option r) h1 h2"
    and "owns H V X (insert t (set_option r)) (side_block ` set ss) h2" "t \<notin> X \<union> set_option r"
    and "data_ok W h2 Q" "packet_bytes h2 Q = packet_bytes h src"
  shows "held W H V X Q h2 \<and> kept V X h h2 \<and> packet_value h2 Q = packet_value h src"
proof -
  have o: "W \<subseteq> V" "kept V X h h1" "sides_ok h1 ss" "side_values h1 ss = side_values h (side_data src)"
    "(case r of None \<Rightarrow> None | Some r \<Rightarrow> view h1 r) = (case opaque_ref src of None \<Rightarrow> None | Some r \<Rightarrow> view h r)"
    using assms(2) by (simp_all add: half_ok_def)
  have Q: "packet_refs Q = insert t (set_option r)" "packet_blocks Q = side_block ` set ss" "side_data Q = ss" "pkt_buf Q = Some t" "opaque_ref Q = r"
    by (simp_all add: assms(1) packet_refs_def packet_blocks_def)
  have sv: "sides_ok h2 ss" "side_values h2 ss = side_values h1 ss" by (rule sides_kept [OF o(3) assms(3)]; blast)+
  have "held W H V X Q h2" by (rule heldI) (use assms(4-6) Q sv(1) o(1) in simp_all)
  moreover have "kept V X h h2" by (rule kept_trans [OF o(2) kept_mono [OF assms(3)]]) auto
  moreover have "(case r of None \<Rightarrow> None | Some r \<Rightarrow> view h2 r) = (case r of None \<Rightarrow> None | Some r \<Rightarrow> view h1 r)"
    using assms(3) by (auto simp: kept_def split: option.splits)
  then have "packet_value h2 Q = packet_value h src"
    by (intro value_of_copy) (use assms(7) Q sv(2) o(4,5) half_fields in \<open>simp_all add: assms(1)\<close>)
  ultimately show ?thesis by blast
qed

text \<open>The source has no buffer: its data are copied.\<close>

lemma ref_copies:
  assumes "half_ok W H V X src h r ss h1" "packet_ok W h1 src" "packet_refs src \<subseteq> X" "packet_bytes h1 src = packet_bytes h src"
    and "nesting A > 0" "av_packet_copy_props A (get_packet_defaults\<lparr>pkt_buf := None\<rparr>) src h = Some (0, half src r ss, h1)" "pkt_buf src = None"
  shows "\<exists>ret P h'. av_packet_ref A get_packet_defaults src h = Some (ret, P, h') \<and> held W H V X P h' \<and> kept V X h h' \<and>
    (ret = 0 \<and> packet_value h' P = packet_value h src \<and> pkt_buf P \<noteq> None \<or> ret < 0 \<and> P = get_packet_defaults)"
proof -
  have own: "owns H V X (set_option r) (side_block ` set ss) h1" and W: "W \<subseteq> V" using assms(1) by (simp_all add: half_ok_def)
  have d: "data_ok W h1 src" "W \<subseteq> V \<union> side_block ` set ss" "set_option (pkt_buf src) \<subseteq> X \<union> set_option r"
    using assms(2,7) W by (auto simp: packet_ok_def)
  obtain ret2 res data h2 where b: "copy_to_buffer A src h1 = Some (ret2, res, data, h2)"
    "kept (V \<union> side_block ` set ss) (X \<union> set_option r) h1 h2" "owns H V X (set_option res \<union> set_option r) (side_block ` set ss) h2"
    "set_option res \<inter> (X \<union> set_option r) = {}"
    "res = None \<and> ret2 < 0 \<or> ret2 = 0 \<and> (\<exists>t R. res = Some t \<and> data_buffer h2 t (pkt_size src) (packet_bytes h1 src) \<and> refs h2 t = Some R \<and> ref_data R = data)"
    using owns_copy_to_buffer [OF own d, of A] by (elim exE conjE) (rule that)
  show ?thesis
  proof (cases res)
    case None
    then have "owns H V X (set_option r) (side_block ` set ss) h2" "ret2 < 0" using b(3,5) by auto
    from ref_fail_held [OF assms(1,5) disjI2 [OF refl] b(2) this(1), of ret2] this(2) obtain h3 where h3:
      "ref_fail A ret2 ((half src r ss)\<lparr>pkt_buf := None\<rparr>) h2 = Some (ret2, get_packet_defaults, h3)"
      "held W H V X get_packet_defaults h3" "kept V X h h3" "ret2 < 0" by blast
    then have "av_packet_ref A get_packet_defaults src h = Some (ret2, get_packet_defaults, h3)"
      using assms(6,7) b(1) None by (simp add: av_packet_ref_def)
    then show ?thesis using h3 by (intro exI [of _ ret2] exI [of _ get_packet_defaults] exI [of _ h3]) simp
  next
    case (Some t)
    with b(5) obtain R where t: "ret2 = 0" "data_buffer h2 t (pkt_size src) (packet_bytes h1 src)" "refs h2 t = Some R" "ref_data R = data" by auto
    let ?Q = "(half src r ss)\<lparr>pkt_buf := Some t, pkt_data := data, pkt_size := pkt_size src\<rparr>"
    have "av_packet_ref A get_packet_defaults src h = Some (0, ?Q, h2)"
      using assms(6,7) b(1) Some t(1) by (simp add: av_packet_ref_def)
    moreover have "data_ok W h2 ?Q" "packet_bytes h2 ?Q = packet_bytes h src"
      using data_buffer_packet(1) [OF t(2,3), of ?Q W] data_buffer_packet(2) [OF t(2,3), of ?Q] t(4) assms(4) by simp_all
    moreover have "owns H V X (insert t (set_option r)) (side_block ` set ss) h2" "t \<notin> X \<union> set_option r" using b(3,4) Some by auto
    note ref_success [OF refl assms(1) b(2) this calculation(2,3)]
    ultimately show ?thesis by (intro exI [of _ 0] exI [of _ ?Q] exI [of _ h2]) simp
  qed
qed

text \<open>The source has a buffer: it gets one more reference.\<close>

lemma ref_shares:
  assumes "half_ok W H V X src h r ss h1" "packet_ok W h1 src" "packet_refs src \<subseteq> X" "packet_bytes h1 src = packet_bytes h src"
    and "nesting A > 0" "av_packet_copy_props A (get_packet_defaults\<lparr>pkt_buf := None\<rparr>) src h = Some (0, half src r ss, h1)" "pkt_buf src = Some s"
    and "card (dom (refs h1)) + 1 < 2 ^ 32"
  shows "\<exists>ret P h'. av_packet_ref A get_packet_defaults src h = Some (ret, P, h') \<and> held W H V X P h' \<and> kept V X h h' \<and>
    (ret = 0 \<and> packet_value h' P = packet_value h src \<and> pkt_buf P \<noteq> None \<or> ret < 0 \<and> P = get_packet_defaults)"
proof -
  have own: "owns H V X (set_option r) (side_block ` set ss) h1" and W: "W \<subseteq> V" using assms(1) by (simp_all add: half_ok_def)
  have d: "data_ok W h1 src" "W \<subseteq> V \<union> side_block ` set ss" "set_option (pkt_buf src) \<subseteq> X \<union> set_option r"
    using assms(2,3) W by (auto simp: packet_ok_def packet_refs_def)
  obtain R where R: "refs h1 s = Some R" using refs_domain [OF owns_okD(4) [OF own], of s] d(3) assms(7) by auto
  obtain res h2 where b: "av_buffer_ref A s h1 = Some (res, h2)"
    "kept (V \<union> side_block ` set ss) (X \<union> set_option r) h1 h2" "owns H V X (set_option res \<union> set_option r) (side_block ` set ss) h2"
    "set_option res \<inter> (X \<union> set_option r) = {}" "\<forall>t. res = Some t \<longrightarrow> refs h2 t = Some R \<and> view h2 t = view h1 s"
    using owns_ref [OF own R assms(8), of A] by (elim exE conjE) (rule that)
  show ?thesis
  proof (cases res)
    case None
    then have "owns H V X (set_option r) (side_block ` set ss) h2" using b(3) by simp
    from ref_fail_held [OF assms(1,5) disjI2 [OF refl] b(2) this, of AVERROR_ENOMEM] obtain h3 where h3:
      "ref_fail A AVERROR_ENOMEM ((half src r ss)\<lparr>pkt_buf := None\<rparr>) h2 = Some (AVERROR_ENOMEM, get_packet_defaults, h3)"
      "held W H V X get_packet_defaults h3" "kept V X h h3" by blast
    then have "av_packet_ref A get_packet_defaults src h = Some (AVERROR_ENOMEM, get_packet_defaults, h3)"
      using assms(6,7) b(1) None by (simp add: av_packet_ref_def)
    then show ?thesis using h3 by (intro exI [of _ AVERROR_ENOMEM] exI [of _ get_packet_defaults] exI [of _ h3]) simp
  next
    case (Some t)
    let ?Q = "(half src r ss)\<lparr>pkt_buf := Some t, pkt_data := pkt_data src, pkt_size := pkt_size src\<rparr>"
    have t: "refs h2 t = Some R" using b(5) Some by auto
    have "av_packet_ref A get_packet_defaults src h = Some (0, ?Q, h2)"
      using assms(6,7) b(1) Some by (simp add: av_packet_ref_def)
    moreover have "data_ok W h2 ?Q" using d(1) assms(7) R t by (auto simp: data_ok_def)
    moreover have "packet_bytes h2 src = packet_bytes h1 src"
      by (rule data_kept(2) [OF d(1) b(2) d(2,3) heap_okD(2) [OF owns_okD(1) [OF own]]])
    moreover have "packet_bytes h2 ?Q = packet_bytes h2 src" by (simp add: packet_bytes_def)
    ultimately have data: "data_ok W h2 ?Q" "packet_bytes h2 ?Q = packet_bytes h src" "av_packet_ref A get_packet_defaults src h = Some (0, ?Q, h2)"
      using assms(4) by simp_all
    moreover have "owns H V X (insert t (set_option r)) (side_block ` set ss) h2" "t \<notin> X \<union> set_option r" using b(3,4) Some by auto
    note ref_success [OF refl assms(1) b(2) this data(1,2)]
    ultimately show ?thesis by (intro exI [of _ 0] exI [of _ ?Q] exI [of _ h2]) simp
  qed
qed

lemma packet_ref_held:
  assumes "held W H V X get_packet_defaults h" "packet_ok W h src" "packet_refs src \<subseteq> X" "packet_blocks src \<subseteq> V"
    and "card (dom (refs h)) + 2 < 2 ^ 32" "nesting A > 0"
  shows "\<exists>ret P h'. av_packet_ref A get_packet_defaults src h = Some (ret, P, h') \<and> held W H V X P h' \<and> kept V X h h' \<and>
    (ret = 0 \<and> packet_value h' P = packet_value h src \<and> pkt_buf P \<noteq> None \<or> ret < 0 \<and> P = get_packet_defaults)"
proof -
  have W: "W \<subseteq> V" and own: "owns H V X {} {} h" using assms(1) by (simp_all add: held_blank)
  have card: "card (dom (refs h)) + 1 < 2 ^ 32" using assms(5) by simp
  let ?d = "get_packet_defaults\<lparr>pkt_buf := None\<rparr>"
  obtain ret r ss h1 where c: "av_packet_copy_props A ?d src h = Some (ret, half src r ss, h1)"
    "kept V X h h1" "owns H V X (set_option r) (side_block ` set ss) h1" "set_option r \<inter> X = {}"
    "ret = 0 \<and> sides_ok h1 ss \<and> side_values h1 ss = side_values h (side_data src) \<and>
       (case r of None \<Rightarrow> None | Some r \<Rightarrow> view h1 r) = (case opaque_ref src of None \<Rightarrow> None | Some r \<Rightarrow> view h r) \<or>
     ret = AVERROR_ENOMEM \<and> r = None \<and> ss = []"
    using copy_props_owns [OF own assms(2-4) card assms(6), of ?d, folded half_def] by (elim exE conjE) (rule that)
  show ?thesis
  proof (cases "ret < 0")
    case True
    with c(5) have e: "r = None" "ss = []" by auto
    have "sides_ok h1 ss" using e(2) by (simp add: sides_ok_def)
    then obtain h3 where h3: "ref_fail A ret (half src r ss) h1 = Some (ret, get_packet_defaults, h3)" "owns H V X {} {} h3" "kept V X h1 h3"
      using ref_fail_owns [of H V X "half src r ss" h1 A ret] c(3) assms(6) by (auto simp: packet_refs_def packet_blocks_def)
    have "av_packet_ref A get_packet_defaults src h = Some (ret, get_packet_defaults, h3)"
      using c(1) True h3(1) by (simp add: av_packet_ref_def)
    then show ?thesis using h3(2) W kept_trans [OF c(2) h3(3)] True
      by (intro exI [of _ ret] exI [of _ get_packet_defaults] exI [of _ h3]) (simp add: held_blank)
  next
    case False
    then have z: "ret = 0" and ok: "half_ok W H V X src h r ss h1" using c(2,3,5) W by (auto simp: half_ok_def)
    note src1 = packet_kept [OF assms(2) c(2) W assms(3,4) heap_okD(2) [OF owns_okD(1) [OF own]]]
    have bytes1: "packet_bytes h1 src = packet_bytes h src" using src1(2) by (simp add: packet_value_def)
    have "card (set_option r) \<le> 1" by (cases r) simp_all
    then have "card (dom (refs h1)) + 1 < 2 ^ 32" using owns_card [OF own c(3)] assms(5) by simp
    then show ?thesis
      using ref_copies [OF ok src1(1) assms(3) bytes1 assms(6) c(1) [unfolded z]] ref_shares [OF ok src1(1) assms(3) bytes1 assms(6) c(1) [unfolded z]]
      by (cases "pkt_buf src") blast+
  qed
qed

end
