(* ===== verification/Packet_Data.thy ===== *)
theory Packet_Data
  imports Packet_Calls
begin

text \<open>
  The functions that create, copy and resize the data of a packet.
\<close>

section \<open>Ensuring a buffer\<close>

lemma exclusive_kept:
  assumes "kept V X h h'" "dom (refs h') \<subseteq> X" "t \<in> X" "exclusive h t"
  shows "exclusive h' t"
  unfolding exclusive_def
proof (intro allI impI)
  fix R r' R' assume a: "refs h' t = Some R" "refs h' r' = Some R'" "r' \<noteq> t"
  then have "r' \<in> X" using assms(2) by auto
  with a assms(1,3) have "refs h t = Some R" "refs h r' = Some R'" by (auto simp: kept_def)
  then show "ref_buffer R' \<noteq> ref_buffer R" using assms(4) a(3) by (auto simp: exclusive_def)
qed

text \<open>The packet with its data in a new buffer \<open>t\<close> in place of \<open>old\<close> ones.\<close>

lemma moved_data:
  assumes "data_ok W h P" "sides_ok h (side_data P)" "refs_ok h" "W \<subseteq> V"
    and "kept (V \<union> packet_blocks P) (X \<union> set_option (opaque_ref P)) h h2"
    and "owns H V X (insert t (set_option (opaque_ref P))) (packet_blocks P) h2" "t \<notin> X \<union> set_option (opaque_ref P)"
    and "data_buffer h2 t (pkt_size P) (packet_bytes h P)" "refs h2 t = Some R"
  defines "Q \<equiv> P\<lparr>pkt_buf := Some t, pkt_data := ref_data R\<rparr>"
  shows "held W H V X Q h2" "packet_value h2 Q = packet_value h P"
proof -
  have Q: "packet_refs Q = insert t (set_option (opaque_ref P))" "packet_blocks Q = packet_blocks P" "side_data Q = side_data P"
    "pkt_buf Q = Some t" "opaque_ref Q = opaque_ref P" "pkt_data Q = ref_data R" "pkt_size Q = pkt_size P"
    by (simp_all add: Q_def packet_refs_def packet_blocks_def)
  have b: "data_ok W h2 Q" "packet_bytes h2 Q = packet_bytes h P"
    by (rule data_buffer_packet [OF assms(8,9)]; simp add: Q)+
  have s: "sides_ok h2 (side_data P)" "side_values h2 (side_data P) = side_values h (side_data P)"
    by (rule sides_kept [OF assms(2,5)]; auto simp: packet_blocks_def)+
  show "held W H V X Q h2" by (rule heldI) (use assms(4,6,7) Q b(1) s(1) in simp_all)
  have "(case opaque_ref P of None \<Rightarrow> None | Some r \<Rightarrow> view h2 r) = (case opaque_ref P of None \<Rightarrow> None | Some r \<Rightarrow> view h r)"
    using assms(5) by (auto simp: kept_def split: option.splits)
  then show "packet_value h2 Q = packet_value h P"
    by (intro value_of_copy) (use b(2) s(2) Q in \<open>simp_all add: Q_def packet_fields_def\<close>)
qed

lemma make_refcounted_held:
  assumes "held W H V X P h"
  shows "\<exists>ret P' h'. av_packet_make_refcounted A P h = Some (ret, P', h') \<and> held W H V X P' h' \<and> kept V X h h' \<and>
    packet_value h' P' = packet_value h P \<and> (ret = 0 \<and> pkt_buf P' \<noteq> None \<or> ret < 0 \<and> P' = P)"
proof (cases "pkt_buf P")
  case (Some r)
  then show ?thesis using assms by (intro exI [of _ 0] exI [of _ P] exI [of _ h]) (simp add: av_packet_make_refcounted_def)
next
  case None
  note d = heldD [OF assms]
  have r: "packet_refs P = set_option (opaque_ref P)" using None by (simp add: packet_refs_def)
  have own: "owns H V X (set_option (opaque_ref P)) (packet_blocks P) h" using d(1) r by simp
  have W: "W \<subseteq> V \<union> packet_blocks P" "set_option (pkt_buf P) \<subseteq> X \<union> set_option (opaque_ref P)" using d(5) None by auto
  obtain ret res data h2 where b: "copy_to_buffer A P h = Some (ret, res, data, h2)"
    "kept (V \<union> packet_blocks P) (X \<union> set_option (opaque_ref P)) h h2" "owns H V X (set_option res \<union> set_option (opaque_ref P)) (packet_blocks P) h2"
    "set_option res \<inter> (X \<union> set_option (opaque_ref P)) = {}"
    "res = None \<and> ret < 0 \<or> ret = 0 \<and> (\<exists>t R. res = Some t \<and> data_buffer h2 t (pkt_size P) (packet_bytes h P) \<and> refs h2 t = Some R \<and> ref_data R = data)"
    using owns_copy_to_buffer [OF own d(2) W, of A] by (elim exE conjE) (rule that)
  have k: "kept V X h h2" by (rule kept_mono [OF b(2)]) auto
  show ?thesis
  proof (cases res)
    case n: None
    have P: "P\<lparr>pkt_buf := None\<rparr> = P" using None by simp
    have "packet_ok W h2 P" "packet_value h2 P = packet_value h P"
      by (rule packet_kept [OF d(6) b(2) W(1) _ _ d(7)]; use r in auto)+
    then show ?thesis using b(1,3,5) k n None P r d(5)
      by (intro exI [of _ ret] exI [of _ P] exI [of _ h2]) (auto simp: av_packet_make_refcounted_def held_def)
  next
    case (Some t)
    with b(5) obtain R where t: "ret = 0" "data_buffer h2 t (pkt_size P) (packet_bytes h P)" "refs h2 t = Some R" "ref_data R = data" by auto
    have o2: "owns H V X (insert t (set_option (opaque_ref P))) (packet_blocks P) h2" "t \<notin> X \<union> set_option (opaque_ref P)" using b(3,4) Some by auto
    note m = moved_data [OF d(2,3,7,5) b(2) o2 t(2,3)]
    show ?thesis using b(1) k Some None t(1,4) m
      by (intro exI [of _ 0] exI [of _ "P\<lparr>pkt_buf := Some t, pkt_data := data\<rparr>"] exI [of _ h2]) (simp add: av_packet_make_refcounted_def)
  qed
qed

lemma make_writable_held:
  assumes "held W H V X P h" "nesting A > 0"
  shows "\<exists>ret P' h'. av_packet_make_writable A P h = Some (ret, P', h') \<and> held W H V X P' h' \<and> kept V X h h' \<and>
    packet_value h' P' = packet_value h P \<and> (ret = 0 \<and> (\<exists>r. pkt_buf P' = Some r \<and> exclusive h' r) \<or> ret < 0 \<and> P' = P)"
proof -
  note d = heldD [OF assms(1)]
  have "\<exists>w. (case pkt_buf P of None \<Rightarrow> Some False | Some r \<Rightarrow> av_buffer_is_writable r h) = Some w \<and>
      (w \<longrightarrow> (\<exists>r. pkt_buf P = Some r \<and> exclusive h r))"
  proof (cases "pkt_buf P")
    case (Some r)
    with d(2) obtain R where R: "refs h r = Some R" by (auto simp: data_ok_def)
    obtain B where B: "buffers h (ref_buffer R) = Some B" by (rule heap_refs [OF owns_okD(1) [OF d(1)] R])
    show ?thesis using is_writable_ok [OF owns_okD(1) [OF d(1)] R B] Some by auto
  qed (intro exI [of _ False], simp)
  then obtain w where w: "(case pkt_buf P of None \<Rightarrow> Some False | Some r \<Rightarrow> av_buffer_is_writable r h) = Some w"
    "w \<longrightarrow> (\<exists>r. pkt_buf P = Some r \<and> exclusive h r)" by blast
  show ?thesis
  proof (cases w)
    case True
    then show ?thesis using w assms(1) by (intro exI [of _ 0] exI [of _ P] exI [of _ h]) (simp add: av_packet_make_writable_def)
  next
    case False
    have W: "W \<subseteq> V \<union> packet_blocks P" "set_option (pkt_buf P) \<subseteq> X \<union> packet_refs P" using d(5) by (auto simp: packet_refs_def)
    obtain ret res data h2 where b: "copy_to_buffer A P h = Some (ret, res, data, h2)"
      "kept (V \<union> packet_blocks P) (X \<union> packet_refs P) h h2" "owns H V X (set_option res \<union> packet_refs P) (packet_blocks P) h2"
      "set_option res \<inter> (X \<union> packet_refs P) = {}"
      "res = None \<and> ret < 0 \<or> ret = 0 \<and> (\<exists>t R. res = Some t \<and> data_buffer h2 t (pkt_size P) (packet_bytes h P) \<and> refs h2 t = Some R \<and> ref_data R = data)"
      using owns_copy_to_buffer [OF d(1,2) W, of A] by (elim exE conjE) (rule that)
    have k: "kept V X h h2" by (rule kept_mono [OF b(2)]) auto
    show ?thesis
    proof (cases res)
      case None
      have "packet_ok W h2 P" "packet_value h2 P = packet_value h P"
        by (rule packet_kept [OF d(6) b(2) W(1) _ _ d(7)]; auto)+
      then show ?thesis using b(1,3,5) k None w(1) False d(5)
        by (intro exI [of _ ret] exI [of _ P] exI [of _ h2]) (auto simp: av_packet_make_writable_def held_def)
    next
      case (Some t)
      with b(5) obtain R where t: "ret = 0" "data_buffer h2 t (pkt_size P) (packet_bytes h P)" "refs h2 t = Some R" "ref_data R = data" by auto
      let ?rs = "insert t (set_option (opaque_ref P))"
      have new: "t \<notin> X \<union> packet_refs P" using b(4) Some by simp
      have "set_option res \<union> packet_refs P = set_option (pkt_buf P) \<union> ?rs" using Some by (auto simp: packet_refs_def)
      then have own: "owns H V X (set_option (pkt_buf P) \<union> ?rs) (packet_blocks P) h2" using b(3) by simp
      have "set_option (pkt_buf P) \<inter> ?rs = {}" using new d(4) by (auto simp: packet_refs_def)
      from owns_unref_opt [OF own this assms(2)] obtain h3 where h3: "av_buffer_unref A (pkt_buf P) h2 = Some h3"
        "owns H V X ?rs (packet_blocks P) h3" "kept (V \<union> packet_blocks P) (X \<union> ?rs) h2 h3" by (elim exE conjE) (rule that)
      have k3: "kept (V \<union> packet_blocks P) (X \<union> set_option (opaque_ref P)) h h3"
        by (rule kept_trans [OF kept_mono [OF b(2)] kept_mono [OF h3(3)]]) (auto simp: packet_refs_def)
      have t3: "refs h3 t = Some R" "view h3 t = view h2 t" using h3(3) t(3) by (auto simp: kept_def)
      have ex: "exclusive h3 t"
        by (rule exclusive_kept [OF h3(3)]) (use owns_okD(4) [OF h3(2)] t(2) in \<open>auto simp: data_buffer_def\<close>)
      then have db: "data_buffer h3 t (pkt_size P) (packet_bytes h P)" using t(2,3) t3 by (simp add: data_buffer_def)
      have "t \<notin> X \<union> set_option (opaque_ref P)" using new by (auto simp: packet_refs_def)
      note m = moved_data [OF d(2,3,7,5) k3 h3(2) this db t3(1)]
      have "kept V X h h3" by (rule kept_mono [OF k3]) auto
      then show ?thesis using b(1) Some w(1) False t(1,4) h3(1) m ex
        by (intro exI [of _ 0] exI [of _ "P\<lparr>pkt_buf := Some t, pkt_data := data\<rparr>"] exI [of _ h3]) (simp add: av_packet_make_writable_def)
    qed
  qed
qed

section \<open>New packets\<close>

lemma new_packet_held:
  assumes "held W H V X get_packet_defaults h"
  shows "\<exists>ret P h'. av_new_packet A get_packet_defaults n h = Some (ret, P, h') \<and> held W H V X P h' \<and> kept V X h h' \<and>
    (ret = 0 \<and> (\<exists>xs. length xs = nat n \<and> packet_value h' P = \<lparr>value_bytes = xs, value_side = [], value_opaque = None,
       value_fields = get_packet_defaults\<lparr>pkt_size := n\<rparr>\<rparr>) \<or> ret < 0 \<and> P = get_packet_defaults)"
proof -
  have W: "W \<subseteq> V" and own: "owns H V X {} {} h" using assms by (simp_all add: held_blank)
  obtain ret res h1 where a: "packet_alloc A None n h = Some (ret, res, h1)" "kept V X h h1" "owns H V X (set_option res) {} h1"
    "set_option res \<inter> X = {}" "res = None \<and> ret < 0 \<or> ret = 0 \<and> (\<exists>r xs. res = Some r \<and> data_buffer h1 r n xs)"
    using owns_packet_alloc [OF own, of A n] by (simp only: Un_empty_right) (elim exE conjE, rule that)
  show ?thesis
  proof (cases res)
    case None
    then show ?thesis using a W by (intro exI [of _ ret] exI [of _ get_packet_defaults] exI [of _ h1]) (auto simp: av_new_packet_def held_blank)
  next
    case (Some r)
    with a(5) obtain xs R where r: "ret = 0" "data_buffer h1 r n xs" "refs h1 r = Some R" by (auto simp: data_buffer_def)
    let ?P = "get_packet_defaults\<lparr>pkt_buf := Some r, pkt_data := ref_data R, pkt_size := n\<rparr>"
    have P: "side_data ?P = []" "opaque_ref ?P = None" by (simp_all add: get_packet_defaults_def)
    have b: "data_ok W h1 ?P" "packet_bytes h1 ?P = xs" by (rule data_buffer_packet [OF r(2,3)]; simp)+
    have "held W H V X ?P h1"
      by (rule heldI) (use a(3,4) Some b(1) P W in \<open>simp_all add: packet_refs_def packet_blocks_def sides_ok_def\<close>)
    moreover have "packet_fields ?P = get_packet_defaults\<lparr>pkt_size := n\<rparr>" by (simp add: packet_fields_def get_packet_defaults_def)
    then have "packet_value h1 ?P = \<lparr>value_bytes = xs, value_side = [], value_opaque = None, value_fields = get_packet_defaults\<lparr>pkt_size := n\<rparr>\<rparr>"
      using b(2) P by (simp add: packet_value_def side_values_def)
    moreover have "length xs = nat n" using r(2) by (simp add: data_buffer_def)
    ultimately show ?thesis using a(1,2) Some r(1,3) by (intro exI [of _ 0] exI [of _ ?P] exI [of _ h1]) (simp add: av_new_packet_def)
  qed
qed

text \<open>
  A packet around data of the client: the bytes and the padding in a block \<open>a\<close> of its own. Data that
  do not fit an \<open>int\<close> with the padding are refused.
\<close>

lemma from_data_held:
  assumes "owns H V X {} {a} h" "W \<subseteq> V" "blocks h a = Some (xs @ pad)" "length pad = 64"
  shows "\<exists>ret P h'. av_packet_from_data A get_packet_defaults (Some (a, 0)) (int (length xs)) h = Some (ret, P, h') \<and> kept V X h h' \<and>
    (ret = 0 \<and> held W H V X P h' \<and> packet_value h' P = \<lparr>value_bytes = xs, value_side = [], value_opaque = None,
       value_fields = get_packet_defaults\<lparr>pkt_size := int (length xs)\<rparr>\<rparr> \<or>
     ret < 0 \<and> P = get_packet_defaults \<and> owns H V X {} {a} h' \<and> blocks h' a = blocks h a)"
proof (cases "int (length xs) \<ge> INT_MAX - AV_INPUT_BUFFER_PADDING_SIZE")
  case True
  then show ?thesis using assms(1) by (intro exI [of _ AVERROR_EINVAL] exI [of _ get_packet_defaults] exI [of _ h]) (simp add: av_packet_from_data_def)
next
  case False
  note o = owns_okD [OF assms(1)]
  let ?n = "length xs + 64"
  have n: "nat (u64i (int (length xs) + AV_INPUT_BUFFER_PADDING_SIZE)) = ?n" "\<not> int (length xs) \<ge> INT_MAX - AV_INPUT_BUFFER_PADDING_SIZE"
    using False by (simp_all add: AV_INPUT_BUFFER_PADDING_SIZE_def u64i_def)
  obtain res h1 where c: "av_buffer_create A (Some (a, 0)) ?n (Some Default_Free) No_Opaque 0 h = Some (res, h1)"
    "created ?n (Some (a, 0)) (new_buffer ?n (Some (a, 0)) Default_Free No_Opaque 0 0) h res h1"
    using av_buffer_create_ok [OF objects_okD(1) [OF heap_okD(1) [OF o(1)]], of A "Some (a, 0)" ?n "Some Default_Free" No_Opaque 0] by auto
  show ?thesis
  proof (cases res)
    case None
    with c(2) obtain m where m: "fresh h \<le> m" "h1 = h\<lparr>fresh := m\<rparr>" by (auto simp: created_def)
    have "get_packet_defaults\<lparr>pkt_buf := None\<rparr> = get_packet_defaults" by (simp add: get_packet_defaults_def)
    then show ?thesis using c(1) None n m owns_fresh [OF assms(1) m(1)]
      by (intro exI [of _ AVERROR_ENOMEM] exI [of _ get_packet_defaults] exI [of _ h1]) (simp add: av_packet_from_data_def)
  next
    case (Some r)
    let ?R = "\<lambda>b. \<lparr>ref_buffer = Own b, ref_data = Some (a, 0), ref_size = ?n\<rparr>"
    from c(2) Some obtain m b where m: "fresh h \<le> b" "b < r" "r < m" "h1 = h\<lparr>fresh := m,
        buffers := (buffers h)(Own b \<mapsto> new_buffer ?n (Some (a, 0)) Default_Free No_Opaque 0 0), refs := (refs h)(r \<mapsto> ?R b)\<rparr>"
      by (auto simp: created_def)
    have bounds: "b < m" "fresh h \<le> r" "a \<in> V \<union> {a}" using m(1-3) by simp_all
    have read: "mem_read (Some (a, 0)) ?n h = Some (xs @ pad)" using assms(3,4) by (simp add: slice_def)
    have fl: "\<not> has_flag 0 BUFFER_FLAG_NO_FREE" by (simp add: has_flag_def)
    have cr: "heap_ok H (V \<union> {a} - {a}) (\<lambda>_. 0) h1 \<and> view h1 = (view h)(r \<mapsto> xs @ pad) \<and> (neat (\<lambda>_. 0) h \<longrightarrow> neat (\<lambda>_. 0) h1)"
      unfolding m(4) by (intro conjI; rule create_heap [OF o(1) bounds(3) m(1) bounds(1,2) m(3) read]) (use fl in simp_all)
    have V: "V \<union> {a} - {a} = V" using o(3) by auto
    have none: "refs h r = None" by (rule refs_fresh [OF heap_okD(2) [OF o(1)] bounds(2)])
    then have new: "r \<notin> X" using o(4) by auto
    have own: "owns H V X {r} {} h1" using cr V o new by (simp add: owns_def) (simp add: m(4))
    have k: "kept V X h h1" using cr new by (auto simp: kept_def m(4))
    let ?P = "get_packet_defaults\<lparr>pkt_buf := Some r, pkt_data := Some (a, 0), pkt_size := int (length xs)\<rparr>"
    have P: "side_data ?P = []" "opaque_ref ?P = None" by (simp_all add: get_packet_defaults_def)
    have r1: "refs h1 r = Some (?R b)" by (simp add: m(4))
    have ok: "data_ok W h1 ?P" using r1 n(2) by (simp add: data_ok_def AV_INPUT_BUFFER_PADDING_SIZE_def)
    have "mem_read (Some (a, 0 + 0)) (length xs) h1 = Some (slice 0 (length xs) (xs @ pad))"
      by (rule buffer_bytes [OF r1]) (use cr in simp_all)
    then have "packet_bytes h1 ?P = xs" by (auto simp: packet_bytes_def slice_def simp del: mem_read.simps)
    moreover have "packet_fields ?P = get_packet_defaults\<lparr>pkt_size := int (length xs)\<rparr>" by (simp add: packet_fields_def get_packet_defaults_def)
    ultimately have "packet_value h1 ?P = \<lparr>value_bytes = xs, value_side = [], value_opaque = None, value_fields = get_packet_defaults\<lparr>pkt_size := int (length xs)\<rparr>\<rparr>"
      using P by (simp add: packet_value_def side_values_def)
    moreover have "held W H V X ?P h1"
      by (rule heldI) (use own ok P assms(2) in \<open>simp_all add: packet_refs_def packet_blocks_def sides_ok_def\<close>)
    ultimately show ?thesis using c(1) Some n k by (intro exI [of _ 0] exI [of _ ?P] exI [of _ h1]) (simp add: av_packet_from_data_def)
  qed
qed

end
