(* ===== verification/Packet_Resize.thy ===== *)
theory Packet_Resize
  imports Packet_Data
begin

text \<open>
  Shrinking and growing a packet, with a buffer that nobody else shows, with one that is shared, or
  without one, and giving it side data and opaque data.
\<close>

section \<open>The buffer of a packet\<close>

text \<open>The data of a packet in the bytes \<open>ys\<close> that the reference \<open>r\<close> to its buffer shows.\<close>

definition window :: "heap \<Rightarrow> nat \<Rightarrow> AVBufferRef \<Rightarrow> nat \<Rightarrow> nat \<Rightarrow> nat \<Rightarrow> byte list \<Rightarrow> bool" where
  "window h r R a i j ys \<longleftrightarrow> refs h r = Some R \<and> ref_data R = Some (a, i) \<and> view h r = Some ys \<and> length ys = ref_size R"

lemma data_window:
  assumes "data_ok W h P" "pkt_buf P = Some r" "refs_ok h"
  obtains R a i j ys where "window h r R a i j ys" "pkt_data P = Some (a, i + j)" "0 \<le> pkt_size P" "j + nat (pkt_size P) + 64 \<le> ref_size R"
    "packet_bytes h P = slice j (nat (pkt_size P)) ys" "int (ref_size R) \<le> INT_MAX"
proof -
  from assms(1,2) obtain R a i j where R: "refs h r = Some R" "ref_data R = Some (a, i)" "pkt_data P = Some (a, i + j)" "0 \<le> pkt_size P"
    "j + nat (pkt_size P) + 64 \<le> ref_size R" "int (ref_size R) \<le> INT_MAX" by (auto simp: data_ok_def)
  obtain ys where ys: "mem_read (ref_data R) (ref_size R) h = Some ys" using refs_okD(2) [OF assms(3) R(1)] by blast
  then have v: "view h r = Some ys" "length ys = ref_size R" using R(1) mem_read_length [OF ys] by (simp_all add: view_def)
  have "j + nat (pkt_size P) \<le> ref_size R" using R(5) by simp
  from buffer_bytes [OF R(1,2) v(1) this] have "packet_bytes h P = slice j (nat (pkt_size P)) ys"
    using R(3) by (auto simp: packet_bytes_def simp del: mem_read.simps)
  then show ?thesis using that [of R a i j ys] R v by (simp add: window_def)
qed

lemma window_data:
  assumes "window h r R a i j ys" "pkt_buf P = Some r" "pkt_data P = Some (a, i + j)" "0 \<le> pkt_size P" "j + nat (pkt_size P) + 64 \<le> ref_size R"
    and "int (ref_size R) \<le> INT_MAX"
  shows "data_ok W h P" "packet_bytes h P = slice j (nat (pkt_size P)) ys"
proof -
  show "data_ok W h P" using assms by (auto simp: data_ok_def window_def)
  have "j + nat (pkt_size P) \<le> ref_size R" using assms(5) by simp
  from buffer_bytes [OF _ _ _ this] assms(1,3) show "packet_bytes h P = slice j (nat (pkt_size P)) ys"
    by (auto simp: packet_bytes_def window_def simp del: mem_read.simps)
qed

text \<open>The rest of the packet, when only its buffer has changed.\<close>

lemma resized:
  assumes "held W H V X P h" "pkt_buf P = Some r" "kept (V \<union> packet_blocks P) (X \<union> set_option (opaque_ref P)) h h2"
    and "owns H V X (packet_refs P) (packet_blocks P) h2" "data_ok W h2 Q" "Q = P\<lparr>pkt_data := d, pkt_size := n\<rparr>"
  shows "held W H V X Q h2 \<and> kept V X h h2 \<and>
    packet_value h2 Q = (packet_value h P)\<lparr>value_bytes := packet_bytes h2 Q, value_fields := (packet_fields P)\<lparr>pkt_size := n\<rparr>\<rparr>"
proof -
  note d = heldD [OF assms(1)]
  have Q: "packet_refs Q = packet_refs P" "packet_blocks Q = packet_blocks P" "side_data Q = side_data P" "pkt_buf Q = pkt_buf P" "opaque_ref Q = opaque_ref P"
    by (simp_all add: assms(6) packet_refs_def packet_blocks_def)
  have s: "sides_ok h2 (side_data P)" "side_values h2 (side_data P) = side_values h (side_data P)"
    by (rule sides_kept [OF d(3) assms(3)]; auto simp: packet_blocks_def)+
  have "held W H V X Q h2" by (rule heldI) (use assms(4,5) Q d(4,5) s(1) in simp_all)
  moreover have "kept V X h h2" by (rule kept_mono [OF assms(3)]) auto
  moreover have "(case opaque_ref P of None \<Rightarrow> None | Some r \<Rightarrow> view h2 r) = (case opaque_ref P of None \<Rightarrow> None | Some r \<Rightarrow> view h r)"
    using assms(3) by (auto simp: kept_def split: option.splits)
  then have "packet_value h2 Q = (packet_value h P)\<lparr>value_bytes := packet_bytes h2 Q, value_fields := (packet_fields P)\<lparr>pkt_size := n\<rparr>\<rparr>"
    using s(2) Q by (simp add: packet_value_def packet_fields_def assms(6))
  ultimately show ?thesis by blast
qed

lemma packet_refs_buf: "pkt_buf P = Some r \<Longrightarrow> packet_refs P = insert r (set_option (opaque_ref P))"
  by (simp add: packet_refs_def)

text \<open>The padding is cleared in the buffer.\<close>

lemma zero_padding_owns:
  assumes "owns H V X (insert r rs) bs h" "r \<notin> rs" "exclusive h r" "window h r R a i j ys" "0 \<le> n" "j + nat n + 64 \<le> ref_size R"
  shows "\<exists>h'. zero_padding (Some (a, i + j)) n h = Some h' \<and> owns H V X (insert r rs) bs h' \<and> kept (V \<union> bs) (X \<union> rs) h h' \<and>
    exclusive h' r \<and> window h' r R a i j (splice (j + nat n) (replicate 64 0) ys)"
proof -
  have w: "refs h r = Some R" "ref_data R = Some (a, i)" "view h r = Some ys" "length ys = ref_size R" using assms(4) by (simp_all add: window_def)
  have "(j + nat n) + length (replicate 64 (0 :: byte)) \<le> ref_size R" using assms(6) by simp
  from owns_store [OF assms(1,2) w(1) assms(3) w(2) this w(3)] obtain h' where
    h': "mem_write (Some (a, i + (j + nat n))) (replicate 64 0) h = Some h'" "owns H V X (insert r rs) bs h'" "kept (V \<union> bs) (X \<union> rs) h h'"
      "refs h' = refs h" "view h' r = Some (splice (j + nat n) (replicate 64 0) ys)" by blast
  have "ptr_add (Some (a, i + j)) n = Some (Some (a, i + (j + nat n)))" using assms(5) by (simp add: ptr_add_def nat_add_distrib)
  moreover have "nat AV_INPUT_BUFFER_PADDING_SIZE = 64" by (simp add: AV_INPUT_BUFFER_PADDING_SIZE_def)
  ultimately have "zero_padding (Some (a, i + j)) n h = Some h'" by (simp only: zero_padding_def h'(1) Option.bind.simps)
  moreover have "length (splice (j + nat n) (replicate 64 (0 :: byte)) ys) = ref_size R"
    using w(4) assms(6) by simp
  then have "window h' r R a i j (splice (j + nat n) (replicate 64 0) ys)"
    unfolding window_def by (intro conjI) (simp_all only: h'(4,5) w(1,2))
  moreover have "exclusive h' r" using assms(3) exclusive_refs [OF h'(4)] by simp
  ultimately show ?thesis using h'(2,3) by blast
qed

section \<open>Overwriting memory that others show\<close>

text \<open>A block has new bytes, as many as before; nothing else has changed.\<close>

definition overwrites :: "nat \<Rightarrow> heap \<Rightarrow> heap \<Rightarrow> bool" where
  "overwrites a h h' \<longleftrightarrow> refs h' = refs h \<and> (\<forall>x. x \<noteq> a \<longrightarrow> blocks h' x = blocks h x) \<and>
     (\<forall>x. map_option length (blocks h' x) = map_option length (blocks h x))"

lemma readable_overwrites:
  assumes "overwrites a h h'"
  shows "(\<exists>xs. mem_read p n h' = Some xs) \<longleftrightarrow> (\<exists>xs. mem_read p n h = Some xs)"
proof (cases p)
  case (Some q)
  obtain b i where q: "q = (b, i)" by (cases q)
  have "map_option length (blocks h' b) = map_option length (blocks h b)" using assms by (simp add: overwrites_def)
  then show ?thesis using Some q by (cases "blocks h' b"; cases "blocks h b") auto
qed simp

lemma heap_overwrites:
  assumes "heap_ok H U k h" "blocks h a = Some xs" "length ys = length xs"
  defines "h' \<equiv> h\<lparr>blocks := (blocks h)(a \<mapsto> ys)\<rparr>"
  shows "heap_ok H U k h'" "neat k h \<longrightarrow> neat k h'" "overwrites a h h'"
proof -
  note ok = heap_okD [OF assms(1)]
  show over: "overwrites a h h'" using assms(2,3) by (simp add: overwrites_def h'_def)
  have "mem_read p n h' \<noteq> None \<longleftrightarrow> mem_read p n h \<noteq> None" for p n using readable_overwrites [OF over, of p n] by simp
  then have "refs_ok h'" using ok(2) unfolding refs_ok_def by (simp add: h'_def)
  then show "heap_ok H U k h'" using objects_write [OF ok(1) assms(2,3)] by (simp add: heap_ok_def h'_def)
  show "neat k h \<longrightarrow> neat k h'" by (simp add: neat_def tidy_def h'_def)
qed

lemma packet_ok_overwrites:
  assumes "overwrites a h h'"
  shows "data_ok W h' P = data_ok W h P" "packet_ok W h' P = packet_ok W h P"
proof -
  have refs: "refs h' = refs h" using assms by (simp add: overwrites_def)
  show d: "data_ok W h' P = data_ok W h P"
    unfolding data_ok_def refs using readable_overwrites [OF assms] by (simp del: mem_read.simps cong: option.case_cong)
  have "side_ok h' s = side_ok h s" for s
  proof -
    have l: "map_option length (blocks h' b) = map_option length (blocks h b)" for b using assms by (simp add: overwrites_def)
    have "(\<exists>xs. blocks h' b = Some xs \<and> sd_size s \<le> length xs) \<longleftrightarrow> (\<exists>xs. blocks h b = Some xs \<and> sd_size s \<le> length xs)" for b
      using l [of b] by (cases "blocks h' b"; cases "blocks h b") auto
    then show ?thesis unfolding side_ok_def by blast
  qed
  then show "packet_ok W h' P = packet_ok W h P" using d by (simp add: packet_ok_def sides_ok_def)
qed

lemma padding_overwrites:
  assumes "heap_ok H U k h" "blocks h a = Some xs" "off + nat n + 64 \<le> length xs" "0 \<le> n"
  shows "\<exists>h'. zero_padding (Some (a, off)) n h = Some h' \<and> heap_ok H U k h' \<and> (neat k h \<longrightarrow> neat k h') \<and> overwrites a h h' \<and>
    mem_read (Some (a, off)) (nat n) h' = Some (slice off (nat n) xs)"
proof -
  let ?ys = "splice (off + nat n) (replicate 64 0) xs"
  let ?h = "h\<lparr>blocks := (blocks h)(a \<mapsto> ?ys)\<rparr>"
  have len: "length ?ys = length xs" using assms(3) by simp
  have "ptr_add (Some (a, off)) n = Some (Some (a, off + nat n))" using assms(4) by (simp add: ptr_add_def nat_add_distrib)
  then have "zero_padding (Some (a, off)) n h = Some ?h"
    using assms(2,3) by (simp add: zero_padding_def AV_INPUT_BUFFER_PADDING_SIZE_def)
  moreover have "slice off (nat n) ?ys = slice off (nat n) xs"
    using assms(3) by (intro slice_splice_other) simp_all
  then have "mem_read (Some (a, off)) (nat n) ?h = Some (slice off (nat n) xs)" using assms(3) len by simp
  ultimately show ?thesis using heap_overwrites [OF assms(1,2) len] by blast
qed

text \<open>The memory in which the data of a packet lie: of its buffer, or of the user.\<close>

lemma data_block:
  assumes "held W H V X P h" "pkt_buf P \<noteq> None \<or> 0 < pkt_size P"
  obtains a off xs where "pkt_data P = Some (a, off)" "blocks h a = Some xs" "off + nat (pkt_size P) + 64 \<le> length xs"
    "a \<in> W \<or> a \<notin> V \<union> packet_blocks P" "packet_bytes h P = slice off (nat (pkt_size P)) xs"
proof -
  note d = heldD [OF assms(1)]
  have "\<exists>a off xs. pkt_data P = Some (a, off) \<and> mem_read (Some (a, off)) (nat (pkt_size P) + 64) h = Some xs \<and> (a \<in> W \<or> a \<notin> V \<union> packet_blocks P)"
  proof (cases "pkt_buf P")
    case None
    then show ?thesis using d(2) assms(2) by (auto simp: data_ok_def simp del: mem_read.simps)
  next
    case (Some r)
    obtain R a i j ys where w: "window h r R a i j ys" "pkt_data P = Some (a, i + j)" "j + nat (pkt_size P) + 64 \<le> ref_size R"
      by (rule data_window [OF d(2) Some d(7)])
    then have R: "refs h r = Some R" "ref_data R = Some (a, i)" "view h r = Some ys" by (simp_all add: window_def)
    have "a \<notin> V \<union> packet_blocks P" using ref_block_owned [OF owns_okD(1) [OF d(1)] R(1)] R(2) by (simp add: block_of_def)
    moreover have "j + (nat (pkt_size P) + 64) \<le> ref_size R" using w(3) by simp
    note buffer_bytes [OF R this]
    ultimately show ?thesis using w(2) by blast
  qed
  then obtain a off zs where z: "pkt_data P = Some (a, off)" "mem_read (Some (a, off)) (nat (pkt_size P) + 64) h = Some zs"
    "a \<in> W \<or> a \<notin> V \<union> packet_blocks P" by blast
  then obtain xs where xs: "blocks h a = Some xs" "off + (nat (pkt_size P) + 64) \<le> length xs" by (auto split: option.splits if_splits)
  then have "packet_bytes h P = slice off (nat (pkt_size P)) xs" using z(1) by (auto simp: packet_bytes_def slice_def)
  then show ?thesis using that [of a off xs] z(1,3) xs by simp
qed

text \<open>The data end at \<open>n\<close>, and padding is written after them.\<close>

definition overwritten :: "nat set \<Rightarrow> nat set \<Rightarrow> nat set \<Rightarrow> AVPacket \<Rightarrow> AVPacket \<Rightarrow> heap \<Rightarrow> heap \<Rightarrow> bool" where
  "overwritten W H V P Q h h' \<longleftrightarrow> (\<exists>a. overwrites a h h' \<and> (a \<in> W \<or> a \<notin> V \<union> packet_blocks P)) \<and>
     heap_ok H (V \<union> packet_blocks P) (\<lambda>_. 0) h' \<and> neat (\<lambda>_. 0) h' \<and> (\<exists>n. Q = P\<lparr>pkt_size := n\<rparr>) \<and> data_ok W h' Q"

lemma resize_overwrites:
  assumes "held W H V X P h" "pkt_data P = Some (a, off)" "blocks h a = Some xs" "a \<in> W \<or> a \<notin> V \<union> packet_blocks P"
    and "0 \<le> n" "off + nat n + 64 \<le> length xs" "data_ok W h (P\<lparr>pkt_size := n\<rparr>)"
  shows "\<exists>h'. zero_padding (pkt_data P) n h = Some h' \<and> overwritten W H V P (P\<lparr>pkt_size := n\<rparr>) h h' \<and>
    packet_bytes h' (P\<lparr>pkt_size := n\<rparr>) = slice off (nat n) xs"
proof -
  note o = owns_okD [OF heldD(1) [OF assms(1)]]
  obtain h' where h': "zero_padding (pkt_data P) n h = Some h'" "heap_ok H (V \<union> packet_blocks P) (\<lambda>_. 0) h'" "neat (\<lambda>_. 0) h'" "overwrites a h h'"
    "mem_read (Some (a, off)) (nat n) h' = Some (slice off (nat n) xs)"
    using padding_overwrites [OF o(1) assms(3,6,5)] o(2) assms(2) by auto
  have "packet_bytes h' (P\<lparr>pkt_size := n\<rparr>) = slice off (nat n) xs"
    using h'(5) assms(2) by (simp add: packet_bytes_def slice_def del: mem_read.simps)
  moreover have "overwritten W H V P (P\<lparr>pkt_size := n\<rparr>) h h'"
    unfolding overwritten_def packet_ok_overwrites(1) [OF h'(4)] using h'(2-4) assms(4,7) by blast
  ultimately show ?thesis using h'(1) by blast
qed

lemma shrink_overwrites:
  assumes "held W H V X P h" "0 \<le> n" "n < pkt_size P"
  shows "\<exists>h'. av_shrink_packet P n h = Some (P\<lparr>pkt_size := n\<rparr>, h') \<and> overwritten W H V P (P\<lparr>pkt_size := n\<rparr>) h h' \<and>
    packet_bytes h' (P\<lparr>pkt_size := n\<rparr>) = take (nat n) (packet_bytes h P)"
proof -
  note d = heldD [OF assms(1)]
  have "0 < pkt_size P" using assms(2,3) by simp
  then obtain a off xs where x: "pkt_data P = Some (a, off)" "blocks h a = Some xs" "off + nat (pkt_size P) + 64 \<le> length xs"
    "a \<in> W \<or> a \<notin> V \<union> packet_blocks P" "packet_bytes h P = slice off (nat (pkt_size P)) xs" using data_block [OF assms(1)] by metis
  have n: "nat n \<le> nat (pkt_size P)" using assms(3) by simp
  have "data_ok W h (P\<lparr>pkt_size := n\<rparr>)"
  proof (cases "pkt_buf P")
    case None
    then show ?thesis using d(2) assms(2,3) x(1-3) n by (auto simp: data_ok_def)
  next
    case (Some r)
    with d(2) show ?thesis using assms(2) n by (fastforce simp: data_ok_def)
  qed
  from resize_overwrites [OF assms(1) x(1,2,4) assms(2) _ this] x(3) n obtain h' where h': "zero_padding (pkt_data P) n h = Some h'"
    "overwritten W H V P (P\<lparr>pkt_size := n\<rparr>) h h'" "packet_bytes h' (P\<lparr>pkt_size := n\<rparr>) = slice off (nat n) xs" by auto
  have "slice off (nat n) xs = take (nat n) (packet_bytes h P)" using x(5) n by (simp add: slice_def min_def)
  then show ?thesis using h' assms(3) by (simp add: av_shrink_packet_def)
qed

section \<open>Shrinking\<close>

lemma slice_take: "slice j m xs = drop j (take (j + m) xs)"
  by (simp add: slice_def take_drop add.commute)

lemma shrink_held:
  assumes "held W H V X P h" "pkt_buf P = Some r" "exclusive h r" "0 \<le> n"
  shows "\<exists>P' h'. av_shrink_packet P n h = Some (P', h') \<and> held W H V X P' h' \<and> kept V X h h' \<and>
    packet_value h' P' = (packet_value h P)\<lparr>value_bytes := take (nat n) (packet_bytes h P),
      value_fields := (packet_fields P)\<lparr>pkt_size := min n (pkt_size P)\<rparr>\<rparr>"
proof (cases "pkt_size P \<le> n")
  case True
  note d = heldD [OF assms(1)]
  obtain R a i j ys where w: "window h r R a i j ys" "0 \<le> pkt_size P" "j + nat (pkt_size P) + 64 \<le> ref_size R"
    "packet_bytes h P = slice j (nat (pkt_size P)) ys" by (rule data_window [OF d(2) assms(2) d(7)])
  have "length (packet_bytes h P) \<le> nat n" using w True by (simp add: slice_def)
  then have "packet_value h P = (packet_value h P)\<lparr>value_bytes := take (nat n) (packet_bytes h P),
      value_fields := (packet_fields P)\<lparr>pkt_size := min n (pkt_size P)\<rparr>\<rparr>"
    using True by (simp add: packet_value_def packet_fields_def min_def)
  then show ?thesis using True assms(1) by (intro exI [of _ P] exI [of _ h]) (simp add: av_shrink_packet_def)
next
  case False
  note d = heldD [OF assms(1)]
  obtain R a i j ys where w: "window h r R a i j ys" "pkt_data P = Some (a, i + j)" "0 \<le> pkt_size P" "j + nat (pkt_size P) + 64 \<le> ref_size R"
    "packet_bytes h P = slice j (nat (pkt_size P)) ys" "int (ref_size R) \<le> INT_MAX" by (rule data_window [OF d(2) assms(2) d(7)])
  let ?rs = "set_option (opaque_ref P)"
  have own: "owns H V X (insert r ?rs) (packet_blocks P) h" "r \<notin> ?rs" using d(1,4) assms(2) packet_refs_buf by (auto)
  have n: "nat n \<le> nat (pkt_size P)" "j + nat n + 64 \<le> ref_size R" using False assms(4) w(4) by linarith+
  from zero_padding_owns [OF own assms(3) w(1) assms(4) n(2)] obtain h2 where
    h2: "zero_padding (Some (a, i + j)) n h = Some h2" "owns H V X (insert r ?rs) (packet_blocks P) h2"
      "kept (V \<union> packet_blocks P) (X \<union> ?rs) h h2" "window h2 r R a i j (splice (j + nat n) (replicate 64 0) ys)" by blast
  let ?Q = "P\<lparr>pkt_data := pkt_data P, pkt_size := n\<rparr>"
  have q: "data_ok W h2 ?Q" "packet_bytes h2 ?Q = slice j (nat n) (splice (j + nat n) (replicate 64 0) ys)"
    using window_data(1) [OF h2(4), of ?Q W] window_data(2) [OF h2(4), of ?Q] assms(2,4) w(2,6) n(2) by simp_all
  have len: "j + nat n + length (replicate 64 (0 :: byte)) \<le> length ys" "j + nat n \<le> length ys" using w(1) n(2) by (simp_all add: window_def)
  have "packet_bytes h2 ?Q = slice j (nat n) ys"
    using q(2) by (simp only: slice_splice_other [OF len(1) disjI1 [OF le_refl] len(2)])
  also have "\<dots> = take (nat n) (packet_bytes h P)" using w(5) n(1) by (simp add: slice_def min_def)
  finally have bytes: "packet_bytes h2 ?Q = take (nat n) (packet_bytes h P)" .
  have "owns H V X (packet_refs P) (packet_blocks P) h2" using h2(2) packet_refs_buf [of P r] assms(2) by simp
  from resized [OF assms(1,2) h2(3) this q(1) refl] bytes have "held W H V X ?Q h2 \<and> kept V X h h2 \<and>
      packet_value h2 ?Q = (packet_value h P)\<lparr>value_bytes := take (nat n) (packet_bytes h P), value_fields := (packet_fields P)\<lparr>pkt_size := n\<rparr>\<rparr>" by simp
  moreover have "av_shrink_packet P n h = Some (?Q, h2)" using False w(2) h2(1) by (simp add: av_shrink_packet_def)
  moreover have "min n (pkt_size P) = n" using False by simp
  ultimately show ?thesis by (intro exI [of _ ?Q] exI [of _ h2]) simp
qed

section \<open>Growing\<close>

text \<open>The reference has a buffer of its own afterwards, or nothing at all has happened.\<close>

lemma owns_realloc:
  assumes "owns H V X (insert r rs) bs h" "r \<notin> rs" "window h r R a i j old" "nesting A > 0"
  shows "\<exists>ret h'. av_buffer_realloc A (Some r) n h = Some (ret, Some r, h') \<and> owns H V X (insert r rs) bs h' \<and> kept (V \<union> bs) (X \<union> rs) h h' \<and>
    (ret = 0 \<and> (exclusive h' r \<or> h' = h) \<and> (\<exists>R' a' i' ys. window h' r R' a' i' j ys \<and> ref_size R' = n \<and> take (min n (length old)) ys = take (min n (length old)) old) \<or>
     ret < 0 \<and> refs h' = refs h \<and> view h' = view h)"
proof (cases "ref_size R = n")
  case True
  have "av_buffer_realloc A (Some r) n h = Some (0, Some r, h)" using assms(3) True by (simp add: window_def av_buffer_realloc_def)
  then show ?thesis using assms(1,3) True by (intro exI [of _ 0] exI [of _ h]) auto
next
  case size: False
  note o = owns_okD [OF assms(1)]
  have w: "refs h r = Some R" "view h r = Some old" using assms(3) by (simp_all add: window_def)
  obtain ret h' where f: "av_buffer_realloc A (Some r) n h = Some (ret, Some r, h')" "heap_ok H (V \<union> bs) (\<lambda>_. 0) h'" "neat (\<lambda>_. 0) h'"
    "\<forall>r'. r' \<noteq> r \<longrightarrow> refs h' r' = refs h r'" "\<forall>a\<in>V \<union> bs. blocks h' a = blocks h a" "ret = 0 \<longrightarrow> exclusive h' r"
    "ret = 0 \<and> (\<exists>ys. length ys = n \<and> take (min n (length old)) ys = take (min n (length old)) old \<and> view h' = (view h)(r \<mapsto> ys)) \<and> refs h' r \<noteq> None \<or>
     ret = AVERROR_ENOMEM \<and> view h' = view h \<and> refs h' = refs h"
    using realloc_ok [OF o(1) w assms(4), of n] o(2) size by blast
  have live: "refs h' r \<noteq> None" using f(7) w(1) by auto
  have "dom (refs h') = dom (refs h)"
  proof (rule set_eqI)
    fix x show "x \<in> dom (refs h') \<longleftrightarrow> x \<in> dom (refs h)" using f(4) live w(1) by (cases "x = r") (auto simp: domIff)
  qed
  then have own: "owns H V X (insert r rs) bs h'" using f(2,3) o by (simp add: owns_def)
  have "r \<notin> X \<union> rs" using o(5) assms(2) by blast
  then have "view h' x = view h x \<and> refs h' x = refs h x" if "x \<in> X \<union> rs" for x using that f(4,7) by auto
  then have k: "kept (V \<union> bs) (X \<union> rs) h h'" using f(5) by (simp add: kept_def)
  show ?thesis
  proof (cases "ret = 0")
    case True
    then obtain ys where ys: "length ys = n" "take (min n (length old)) ys = take (min n (length old)) old" "view h' r = Some ys" using f(7) by auto
    obtain R' where R': "refs h' r = Some R'" using live by blast
    obtain xs a' i' where x: "view h' r = Some xs" "length xs = ref_size R'" "ref_data R' = Some (a', i')" by (rule heap_refs [OF f(2) R'])
    then have "window h' r R' a' i' j ys" "ref_size R' = n" using ys R' by (simp_all add: window_def)
    then show ?thesis using f(1,6) own k True ys(2) by blast
  next
    case False
    then show ?thesis using f(1,7) own k by auto
  qed
qed

text \<open>Up to the point where the padding is cleared.\<close>

lemma grow_buffer_owns:
  assumes "held W H V X P h" "pkt_buf P = Some r" "nesting A > 0" "int (ref_size R) \<le> INT_MAX"
    and "window h r R a i j old" "pkt_data P = Some (a, i + j)" "0 \<le> n" "n \<le> INT_MAX" "pkt_size P \<le> n" "j + nat (pkt_size P) \<le> ref_size R"
  shows "\<exists>ret P' h'. grow_buffer A P r n h = Some (ret, P', h') \<and> owns H V X (packet_refs P) (packet_blocks P) h' \<and>
    kept (V \<union> packet_blocks P) (X \<union> set_option (opaque_ref P)) h h' \<and>
    (ret = 0 \<and> (exclusive h' r \<or> h' = h) \<and> (\<exists>R' a' i' ys. window h' r R' a' i' j ys \<and> j + nat n \<le> ref_size R' \<and> int (ref_size R') \<le> INT_MAX \<and> P' = P\<lparr>pkt_data := Some (a', i' + j)\<rparr> \<and>
       slice j (nat (pkt_size P)) ys = slice j (nat (pkt_size P)) old) \<or>
     ret < 0 \<and> P' = P \<and> refs h' = refs h \<and> view h' = view h)"
proof -
  note d = heldD [OF assms(1)]
  let ?rs = "set_option (opaque_ref P)"
  have refs: "packet_refs P = insert r ?rs" by (rule packet_refs_buf [OF assms(2)])
  have own: "owns H V X (insert r ?rs) (packet_blocks P) h" "r \<notin> ?rs" using d(1,4) assms(2) refs by auto
  have w: "refs h r = Some R" "ref_data R = Some (a, i)" "length old = ref_size R" using assms(5) by (simp_all add: window_def)
  have diff: "ptr_diff (pkt_data P) (ref_data R) = Some (int j)" using w(2) assms(4,6,10) by (simp add: ptr_diff_def u64i_def)
  obtain B where B: "buffers h (ref_buffer R) = Some B" by (rule heap_refs [OF owns_okD(1) [OF d(1)] w(1)])
  obtain wr where wr: "av_buffer_is_writable r h = Some wr" using is_writable_ok [OF owns_okD(1) [OF d(1)] w(1) B] by blast
  show ?thesis
  proof (cases "int j > INT_MAX - n")
    case True
    then have "grow_buffer A P r n h = Some (AVERROR_ENOMEM, P, h)" using w(1) diff assms(6) by (simp add: grow_buffer_def)
    then show ?thesis using own refs by (intro exI [of _ AVERROR_ENOMEM] exI [of _ P] exI [of _ h]) simp
  next
    case small: False
    show ?thesis
    proof (cases "n + int j > int (ref_size R) \<or> \<not> wr")
      case False
      have "P\<lparr>pkt_data := pkt_data P\<rparr> = P" by simp
      then have "grow_buffer A P r n h = Some (0, P, h)" using w(1) diff assms(6) wr small False by (simp add: grow_buffer_def)
      moreover have "j + nat n \<le> ref_size R" using False assms(7) by linarith
      moreover have "P = P\<lparr>pkt_data := Some (a, i + j)\<rparr>" using assms(6) by simp
      moreover have "owns H V X (packet_refs P) (packet_blocks P) h" by (rule d(1))
      ultimately show ?thesis using assms(4,5) by (metis kept_refl)
    next
      case big: True
      define n' where "n' = (if n + int j < INT_MAX - c_div n 16 then n + c_div n 16 else n)"
      have n': "n \<le> n'" "0 \<le> n'" "n' + int j \<le> INT_MAX"
        using assms(7) small by (auto simp: n'_def c_div_nonneg pos_imp_zdiv_nonneg_iff)
      let ?m = "nat (n' + int j)"
      from owns_realloc [OF own assms(5,3), of ?m] obtain ret h' where f: "av_buffer_realloc A (Some r) ?m h = Some (ret, Some r, h')"
        "owns H V X (insert r ?rs) (packet_blocks P) h'" "kept (V \<union> packet_blocks P) (X \<union> ?rs) h h'"
        "ret = 0 \<and> (exclusive h' r \<or> h' = h) \<and> (\<exists>R' a' i' ys. window h' r R' a' i' j ys \<and> ref_size R' = ?m \<and> take (min ?m (length old)) ys = take (min ?m (length old)) old) \<or>
         ret < 0 \<and> refs h' = refs h \<and> view h' = view h" by (elim exE conjE) (rule that)
      show ?thesis
      proof (cases "ret < 0")
        case True
        have "P\<lparr>pkt_buf := Some r\<rparr> = P" using assms(2) by simp
        then have "grow_buffer A P r n h = Some (ret, P, h')"
          using w(1) diff assms(6) wr small big f(1) True by (simp add: grow_buffer_def Let_def n'_def [symmetric])
        then show ?thesis using f(2-4) refs True by (intro exI [of _ ret] exI [of _ P] exI [of _ h']) auto
      next
        case False
        with f(4) obtain R' a' i' ys where x: "ret = 0" "exclusive h' r \<or> h' = h" "window h' r R' a' i' j ys" "ref_size R' = ?m"
          "take (min ?m (length old)) ys = take (min ?m (length old)) old" by auto
        have R': "refs h' r = Some R'" "ref_data R' = Some (a', i')" using x(3) by (simp_all add: window_def)
        have "P\<lparr>pkt_buf := Some r, pkt_data := Some (a', i' + j)\<rparr> = P\<lparr>pkt_data := Some (a', i' + j)\<rparr>" using assms(2) by simp
        moreover have "ptr_add (ref_data R') (int j) = Some (Some (a', i' + j))" using R'(2) by (simp add: ptr_add_def nat_add_distrib)
        ultimately have "grow_buffer A P r n h = Some (0, P\<lparr>pkt_data := Some (a', i' + j)\<rparr>, h')"
          using w(1) diff assms(6) wr small big f(1) x(1) R'(1) by (simp add: grow_buffer_def Let_def n'_def [symmetric])
        moreover have "j + nat n \<le> ref_size R'" "int (ref_size R') \<le> INT_MAX" using x(4) n' assms(7) by simp_all
        moreover have "slice j (nat (pkt_size P)) ys = slice j (nat (pkt_size P)) old"
        proof -
          have "j + nat (pkt_size P) \<le> min ?m (length old)" using assms(7,9,10) n' w(3) by simp
          then have t: "take (j + nat (pkt_size P)) (take (min ?m (length old)) zs) = take (j + nat (pkt_size P)) zs" for zs :: "byte list"
            by (simp only: take_take min.absorb1)
          have "take (j + nat (pkt_size P)) ys = take (j + nat (pkt_size P)) old"
            by (rule trans [OF t [of ys, symmetric] trans [OF arg_cong [OF x(5), of "take (j + nat (pkt_size P))"] t]])
          then show ?thesis by (simp only: slice_take)
        qed
        ultimately have "grow_buffer A P r n h = Some (0, P\<lparr>pkt_data := Some (a', i' + j)\<rparr>, h') \<and> owns H V X (packet_refs P) (packet_blocks P) h' \<and>
          kept (V \<union> packet_blocks P) (X \<union> set_option (opaque_ref P)) h h' \<and> (exclusive h' r \<or> h' = h) \<and> window h' r R' a' i' j ys \<and> j + nat n \<le> ref_size R' \<and>
          int (ref_size R') \<le> INT_MAX \<and> slice j (nat (pkt_size P)) ys = slice j (nat (pkt_size P)) old" using f(2,3) refs x(2,3) by (simp only: simp_thms)
        then show ?thesis by blast
      qed
    qed
  qed
qed

text \<open>
  What growing by \<open>k\<close> leads to: the bytes are followed by \<open>k\<close> others, in memory of the packet's own, or,
  when the padding has been written into memory that others show, \<open>overwritten\<close>; or it fails.
\<close>

definition grown :: "nat set \<Rightarrow> nat set \<Rightarrow> nat set \<Rightarrow> nat set \<Rightarrow> AVPacket \<Rightarrow> int \<Rightarrow> heap \<Rightarrow> int \<Rightarrow> AVPacket \<Rightarrow> heap \<Rightarrow> bool" where
  "grown W H V X P k h ret P' h' \<longleftrightarrow>
     ret = 0 \<and> held W H V X P' h' \<and> kept V X h h' \<and> (\<exists>xs. length xs = nat k \<and> packet_value h' P' = (packet_value h P)\<lparr>value_bytes := packet_bytes h P @ xs,
       value_fields := (packet_fields P)\<lparr>pkt_size := pkt_size P + k\<rparr>\<rparr>) \<or>
     ret = 0 \<and> P' = P\<lparr>pkt_size := pkt_size P + k\<rparr> \<and> overwritten W H V P P' h h' \<and> (\<exists>r. pkt_buf P = Some r \<and> \<not> exclusive h r) \<and>
       (\<exists>xs. length xs = nat k \<and> packet_bytes h' P' = packet_bytes h P @ xs) \<or>
     ret < 0 \<and> P' = P \<and> held W H V X P h' \<and> kept V X h h' \<and> packet_value h' P = packet_value h P"

lemma grown_same: "ret < 0 \<Longrightarrow> held W H V X P h \<Longrightarrow> grown W H V X P k h ret P h"
  by (simp add: grown_def)

lemma grow_failed:
  assumes "held W H V X P h" "owns H V X (packet_refs P) (packet_blocks P) h1" "kept (V \<union> packet_blocks P) (X \<union> packet_refs P) h h1" "ret < 0"
  shows "grown W H V X P k h ret P h1"
proof -
  note d = heldD [OF assms(1)]
  have "packet_ok W h1 P" "packet_value h1 P = packet_value h P" using packet_kept [OF d(6) assms(3) _ _ _ d(7)] d(5) by auto
  moreover have "kept V X h h1" by (rule kept_mono [OF assms(3)]) auto
  ultimately show ?thesis using assms(2,4) d(5) by (simp add: grown_def held_def)
qed

text \<open>A buffer that is the packet's own, and one that is still shared.\<close>

lemma grow_padded:
  assumes "held W H V X P h" "pkt_buf P = Some r" "0 \<le> pkt_size P" "0 \<le> k"
    and "owns H V X (packet_refs P) (packet_blocks P) h1" "kept (V \<union> packet_blocks P) (X \<union> set_option (opaque_ref P)) h h1"
    and "exclusive h1 r" "window h1 r R a i j ys" "j + nat (pkt_size P + k + 64) \<le> ref_size R" "int (ref_size R) \<le> INT_MAX"
    and "packet_bytes h P = slice j (nat (pkt_size P)) ys"
  defines "Q \<equiv> P\<lparr>pkt_data := Some (a, i + j), pkt_size := pkt_size P + k\<rparr>"
  shows "\<exists>h2. zero_padding (Some (a, i + j)) (pkt_size P + k) h1 = Some h2 \<and> grown W H V X P k h 0 Q h2"
proof -
  note d = heldD [OF assms(1)]
  let ?rs = "set_option (opaque_ref P)"
  have refs: "packet_refs P = insert r ?rs" by (rule packet_refs_buf [OF assms(2)])
  have own: "owns H V X (insert r ?rs) (packet_blocks P) h1" "r \<notin> ?rs" using assms(2,5) d(4) refs by auto
  have z: "0 \<le> pkt_size P + k" "j + nat (pkt_size P + k) + 64 \<le> ref_size R" using assms(3,4,9) by (simp_all add: nat_add_distrib)
  let ?zs = "splice (j + nat (pkt_size P + k)) (replicate 64 0) ys"
  from zero_padding_owns [OF own assms(7,8) z] obtain h2 where h2: "zero_padding (Some (a, i + j)) (pkt_size P + k) h1 = Some h2"
    "owns H V X (insert r ?rs) (packet_blocks P) h2" "kept (V \<union> packet_blocks P) (X \<union> ?rs) h1 h2" "window h2 r R a i j ?zs" by (elim exE conjE) (rule that)
  have q: "data_ok W h2 Q" "packet_bytes h2 Q = slice j (nat (pkt_size P + k)) ?zs"
    using window_data(1) [OF h2(4), of Q W] window_data(2) [OF h2(4), of Q] assms(2,10) z by (simp_all add: Q_def)
  have "length ys = ref_size R" using assms(8) by (simp add: window_def)
  then have len: "j + nat (pkt_size P + k) + length (replicate 64 (0 :: byte)) \<le> length ys" "j + nat (pkt_size P + k) \<le> length ys" using z(2) by simp_all
  have split: "nat (pkt_size P + k) = nat (pkt_size P) + nat k" using assms(3,4) by (simp add: nat_add_distrib)
  let ?xs = "slice (j + nat (pkt_size P)) (nat k) ys"
  have "packet_bytes h2 Q = slice j (nat (pkt_size P + k)) ys"
    using q(2) by (simp only: slice_splice_other [OF len(1) disjI1 [OF le_refl] len(2)])
  also have "\<dots> = slice j (nat (pkt_size P)) ys @ ?xs"
    by (simp only: split slice_def take_add drop_drop add.commute [of j])
  finally have bytes: "packet_bytes h2 Q = packet_bytes h P @ ?xs" by (simp only: assms(11))
  have lx: "length ?xs = nat k" using len(2) split by simp
  have o2: "owns H V X (packet_refs P) (packet_blocks P) h2" using h2(2) refs by simp
  note rs = resized [OF assms(1,2) kept_trans [OF assms(6) h2(3)] o2 q(1) meta_eq_to_obj_eq [OF Q_def]]
  then show ?thesis using h2(1) bytes lx unfolding grown_def by (intro exI [of _ h2]) auto
qed

lemma grow_shared:
  assumes "held W H V X P h" "pkt_buf P = Some r" "0 \<le> pkt_size P" "0 \<le> k" "\<not> exclusive h r"
    and "window h r R a i j ys" "j + nat (pkt_size P + k + 64) \<le> ref_size R" "pkt_data P = Some (a, i + j)"
    and "packet_bytes h P = slice j (nat (pkt_size P)) ys" "int (ref_size R) \<le> INT_MAX"
  shows "\<exists>h2. zero_padding (pkt_data P) (pkt_size P + k) h = Some h2 \<and> grown W H V X P k h 0 (P\<lparr>pkt_size := pkt_size P + k\<rparr>) h2"
proof -
  note d = heldD [OF assms(1)]
  have R: "refs h r = Some R" "ref_data R = Some (a, i)" "view h r = Some ys" "length ys = ref_size R" using assms(6) by (simp_all add: window_def)
  have "a \<notin> V \<union> packet_blocks P" using ref_block_owned [OF owns_okD(1) [OF d(1)] R(1)] R(2) by (simp add: block_of_def)
  moreover have "mem_read (Some (a, i)) (ref_size R) h = Some ys" using R by (simp add: view_def)
  then obtain xs where xs: "blocks h a = Some xs" "i + ref_size R \<le> length xs" "ys = slice i (ref_size R) xs"
    by (auto split: option.splits if_splits)
  have z: "0 \<le> pkt_size P + k" "j + nat (pkt_size P + k) + 64 \<le> ref_size R" using assms(3,4,7) by (simp_all add: nat_add_distrib)
  moreover have "data_ok W h (P\<lparr>pkt_size := pkt_size P + k\<rparr>)"
    using R assms(2,8,10) z unfolding data_ok_def by auto
  ultimately obtain h2 where h2: "zero_padding (pkt_data P) (pkt_size P + k) h = Some h2" "overwritten W H V P (P\<lparr>pkt_size := pkt_size P + k\<rparr>) h h2"
    "packet_bytes h2 (P\<lparr>pkt_size := pkt_size P + k\<rparr>) = slice (i + j) (nat (pkt_size P + k)) xs"
    using resize_overwrites [OF assms(1,8) xs(1), of "pkt_size P + k"] xs(2) by auto
  have part: "slice (i + j) m xs = slice j m ys" if "j + m \<le> ref_size R" for m
    using that xs(2,3) by (simp add: slice_def drop_take min_def add.commute)
  have split: "nat (pkt_size P + k) = nat (pkt_size P) + nat k" using assms(3,4) by (simp add: nat_add_distrib)
  let ?xs = "slice (j + nat (pkt_size P)) (nat k) ys"
  have "slice (i + j) (nat (pkt_size P + k)) xs = slice j (nat (pkt_size P + k)) ys" using z(2) by (intro part) simp
  also have "\<dots> = packet_bytes h P @ ?xs" unfolding assms(9) by (simp only: split slice_def take_add drop_drop add.commute [of j])
  finally have "packet_bytes h2 (P\<lparr>pkt_size := pkt_size P + k\<rparr>) = packet_bytes h P @ ?xs" using h2(3) by simp
  moreover have "length ?xs = nat k" using z(2) split R(4) by simp
  ultimately show ?thesis using h2(1,2) assms(2,5) unfolding grown_def by blast
qed

text \<open>Without a buffer, the data are copied into a new one.\<close>

lemma grow_unreferenced_padded:
  assumes "held W H V X P h" "pkt_buf P = None" "0 \<le> k" "pkt_size P + k + 64 \<le> INT_MAX"
  shows "\<exists>ret P1 h1. grow_unreferenced A P (pkt_size P + k + 64) h = Some (ret, P1, h1) \<and>
    (ret < 0 \<and> grown W H V X P k h ret P1 h1 \<or>
     ret = 0 \<and> (\<exists>r p h2. P1 = P\<lparr>pkt_buf := Some r, pkt_data := p\<rparr> \<and> zero_padding p (pkt_size P + k) h1 = Some h2 \<and>
       grown W H V X P k h 0 (P1\<lparr>pkt_size := pkt_size P + k\<rparr>) h2))"
proof -
  note d = heldD [OF assms(1)]
  let ?rs = "set_option (opaque_ref P)" and ?n = "nat (pkt_size P + k + 64)" and ?m = "nat (pkt_size P)"
  have size: "0 \<le> pkt_size P" using d(2) by (simp add: data_ok_def)
  have refs: "packet_refs P = ?rs" using assms(2) by (simp add: packet_refs_def)
  have own: "owns H V X ?rs (packet_blocks P) h" using d(1) refs by simp
  obtain res h1 where b: "av_buffer_alloc A ?n h = Some (res, h1)" "allocated 0 ?n h res h1"
    using av_buffer_alloc_shape [OF objects_okD(1) [OF heap_okD(1) [OF owns_okD(1) [OF d(1)]]], of A ?n] by blast
  note al = owns_alloc [OF own b(2) no_flags(1)]
  show ?thesis
  proof (cases res)
    case None
    then have "grow_unreferenced A P (pkt_size P + k + 64) h = Some (AVERROR_ENOMEM, P, h1)" using b(1) by (simp add: grow_unreferenced_def)
    moreover have "grown W H V X P k h AVERROR_ENOMEM P h1"
      by (rule grow_failed [OF assms(1)]) (use al(1,2) None refs in simp_all)
    ultimately show ?thesis by (intro exI [of _ AVERROR_ENOMEM] exI [of _ P] exI [of _ h1]) simp
  next
    case (Some r)
    obtain R a i ys where R: "refs h1 r = Some R" "ref_data R = Some (a, i)" "ref_size R = ?n" "exclusive h1 r" "view h1 r = Some ys" "length ys = ?n"
      using al(4) [OF Some] by blast
    have new: "r \<notin> X \<union> ?rs" and own1: "owns H V X (insert r ?rs) (packet_blocks P) h1" using al(2,3) Some by auto
    have sub: "W \<subseteq> V \<union> packet_blocks P" "set_option (pkt_buf P) \<subseteq> X \<union> ?rs" using d(5) assms(2) by auto
    note dk = data_kept [OF d(2) al(1) sub d(7)]
    note dk1 = data_kept [OF dk(1) kept_refl sub heap_okD(2) [OF owns_okD(1) [OF own1]]]
    let ?xs = "packet_bytes h P"
    have len: "length ?xs = ?m" "0 + ?m \<le> ref_size R" "0 + length ?xs \<le> ref_size R" using dk(4) R(3) size assms(3) by simp_all
    have rnew: "r \<notin> ?rs" using new by blast
    obtain h2 zs where h2: "(if pkt_size P > 0 then memcpy (ref_data R) (pkt_data P) ?m h1 else Some h1) = Some h2"
      "owns H V X (insert r ?rs) (packet_blocks P) h2" "kept (V \<union> packet_blocks P) (X \<union> ?rs) h1 h2" "refs h2 = refs h1"
      "view h2 r = Some zs" "length zs = ?n" "slice 0 ?m zs = ?xs"
    proof (cases "pkt_size P > 0")
      case True
      then have read: "mem_read (pkt_data P) ?m h1 = Some ?xs" using dk1(3) dk(2) by simp
      from owns_store [OF own1 rnew R(1,4,2) len(3) R(5)] obtain h2 where h2: "mem_write (Some (a, i + 0)) ?xs h1 = Some h2"
        "owns H V X (insert r ?rs) (packet_blocks P) h2" "kept (V \<union> packet_blocks P) (X \<union> ?rs) h1 h2" "refs h2 = refs h1"
        "view h2 r = Some (splice 0 ?xs ys)" by (elim exE conjE) (rule that)
      have "memcpy (ref_data R) (pkt_data P) ?m h1 = Some h2" using read h2(1) R(2) by (simp add: memcpy_def del: mem_read.simps mem_write.simps)
      moreover have "length (splice 0 ?xs ys) = ?n" "slice 0 ?m (splice 0 ?xs ys) = ?xs" using len R(3,6) by (simp_all add: slice_def splice_def)
      ultimately show ?thesis using that [of h2 "splice 0 ?xs ys"] h2(2-5) True by simp
    next
      case False
      then have "pkt_size P = 0" using size by simp
      then show ?thesis using that [of h1 ys] own1 R by (simp add: packet_bytes_def slice_def)
    qed
    have w: "window h2 r R a i 0 zs" using h2 R by (simp add: window_def)
    have ex: "exclusive h2 r" using R(4) exclusive_refs [OF h2(4)] by simp
    let ?Q = "P\<lparr>pkt_buf := Some r, pkt_data := Some (a, i)\<rparr>"
    have run: "grow_unreferenced A P (pkt_size P + k + 64) h = Some (0, ?Q, h2)"
      using b(1) Some R(1,2) h2(1) by (simp add: grow_unreferenced_def)
    have k2: "kept (V \<union> packet_blocks P) (X \<union> ?rs) h h2" by (rule kept_trans [OF al(1) h2(3)])
    have Q: "packet_refs ?Q = insert r ?rs" "packet_blocks ?Q = packet_blocks P" by (simp_all add: packet_refs_def packet_blocks_def)
    have INT: "int (ref_size R) \<le> INT_MAX" "0 + ?m + 64 \<le> ref_size R" using R(3) size assms(3,4) by (simp_all add: nat_add_distrib)
    have qd: "data_ok W h2 ?Q" "packet_bytes h2 ?Q = ?xs"
      using window_data(1) [OF w, of ?Q W] window_data(2) [OF w, of ?Q] size INT h2(7) by simp_all
    have sd: "sides_ok h2 (side_data P)" "side_values h2 (side_data P) = side_values h (side_data P)"
      by (rule sides_kept [OF d(3) k2]; auto simp: packet_blocks_def)+
    have hq: "held W H V X ?Q h2" by (rule heldI) (use h2(2) Q qd(1) sd(1) d(5) rnew in auto)
    have "(case opaque_ref P of None \<Rightarrow> None | Some r \<Rightarrow> view h2 r) = (case opaque_ref P of None \<Rightarrow> None | Some r \<Rightarrow> view h r)"
      using k2 by (auto simp: kept_def split: option.splits)
    then have v: "packet_value h2 ?Q = packet_value h P" using qd(2) sd(2) by (simp add: packet_value_def packet_fields_def)
    have kk: "kept V X h h2" by (rule kept_mono [OF k2]) auto
    have "0 + nat (pkt_size ?Q + k + 64) \<le> ref_size R" "packet_bytes h2 ?Q = slice 0 (nat (pkt_size ?Q)) zs" "0 \<le> pkt_size ?Q"
      "owns H V X (packet_refs ?Q) (packet_blocks ?Q) h2" using R(3) qd(2) h2(2,7) size Q by simp_all
    from grow_padded [OF hq _ this(3) assms(3) this(4) kept_refl ex w this(1) INT(1) this(2)] obtain h3 where
      h3: "zero_padding (Some (a, i + 0)) (pkt_size ?Q + k) h2 = Some h3"
        "grown W H V X ?Q k h2 0 (?Q\<lparr>pkt_data := Some (a, i + 0), pkt_size := pkt_size ?Q + k\<rparr>) h3" by auto
    have "grown W H V X P k h 0 (?Q\<lparr>pkt_size := pkt_size P + k\<rparr>) h3"
    proof -
      have "\<not> (\<exists>t. pkt_buf ?Q = Some t \<and> \<not> exclusive h2 t)" using ex by simp
      then have g: "held W H V X (?Q\<lparr>pkt_size := pkt_size P + k\<rparr>) h3" "kept V X h2 h3"
        "\<exists>xs. length xs = nat k \<and> packet_value h3 (?Q\<lparr>pkt_size := pkt_size P + k\<rparr>) = (packet_value h2 ?Q)\<lparr>value_bytes := packet_bytes h2 ?Q @ xs,
          value_fields := (packet_fields ?Q)\<lparr>pkt_size := pkt_size P + k\<rparr>\<rparr>"
        using h3(2) unfolding grown_def by auto
      have "packet_fields ?Q = packet_fields P" by (simp add: packet_fields_def)
      then show ?thesis using g kept_trans [OF kk g(2)] unfolding grown_def v qd(2) by auto
    qed
    then show ?thesis using run h3(1)
      by (intro exI [of _ 0] exI [of _ ?Q] exI [of _ h2]) auto
  qed
qed

text \<open>The sizes meet the assertion of the function; a negative \<open>k\<close> is too large as an \<open>unsigned int\<close>.\<close>

lemma grow_held:
  assumes "held W H V X P h" "nesting A > 0" "INT_MIN \<le> k" "k \<le> INT_MAX"
  shows "\<exists>ret P' h'. av_grow_packet A P k h = Some (ret, P', h') \<and> grown W H V X P k h ret P' h' \<and> (0 \<le> k \<or> ret < 0)"
proof -
  note d = heldD [OF assms(1)]
  let ?n = "pkt_size P + k + 64"
  have size: "0 \<le> pkt_size P" "pkt_size P \<le> INT_MAX - 64" using d(2) by (auto simp: data_ok_def split: option.splits)
  have pad: "AV_INPUT_BUFFER_PADDING_SIZE = 64" by (rule AV_INPUT_BUFFER_PADDING_SIZE_def)
  have m: "pkt_size P mod 2 ^ 32 = pkt_size P" using size by simp
  have nohalt: "\<not> pkt_size P > INT_MAX - 64" using size(2) by simp
  show ?thesis
  proof (cases "k mod 2 ^ 32 > INT_MAX - (pkt_size P + 64)")
    case True
    then have "av_grow_packet A P k h = Some (AVERROR_ENOMEM, P, h)" using nohalt by (simp only: av_grow_packet_def m pad if_True if_False)
    then show ?thesis using grown_same [OF _ assms(1), of AVERROR_ENOMEM k] by (intro exI [of _ AVERROR_ENOMEM] exI [of _ P] exI [of _ h]) simp
  next
    case False
    have k: "0 \<le> k"
    proof (rule ccontr)
      assume "\<not> 0 \<le> k"
      then have "(k + 2 ^ 32) mod 2 ^ 32 = k + 2 ^ 32" using assms(3) by (intro mod_pos_pos_trivial) simp_all
      moreover have "(k + 2 ^ 32) mod 2 ^ 32 = k mod 2 ^ 32" by simp
      ultimately have "k mod 2 ^ 32 = k + 2 ^ 32" by simp
      then show False using False assms(3) size(1) by simp
    qed
    then have km: "k mod 2 ^ 32 = k" using assms(4) by simp
    have n: "0 \<le> ?n" "?n \<le> INT_MAX" "pkt_size P \<le> ?n" using False size(1) k unfolding km by simp_all
    have call: "av_grow_packet A P k h = (case pkt_buf P of Some buf \<Rightarrow> grow_buffer A P buf ?n h | None \<Rightarrow> grow_unreferenced A P ?n h) \<bind>
        (\<lambda>(ret, P1, h1). if ret < 0 then Some (ret, P1, h1)
          else zero_padding (pkt_data P1) (pkt_size P1 + k) h1 \<bind> (\<lambda>h. Some (0, P1\<lparr>pkt_size := pkt_size P1 + k\<rparr>, h)))"
      using nohalt False by (simp only: av_grow_packet_def m pad if_False Let_def)
    show ?thesis
    proof (cases "pkt_buf P")
      case None
      obtain ret P1 h1 where g: "grow_unreferenced A P ?n h = Some (ret, P1, h1)"
        "ret < 0 \<and> grown W H V X P k h ret P1 h1 \<or>
         ret = 0 \<and> (\<exists>r p h2. P1 = P\<lparr>pkt_buf := Some r, pkt_data := p\<rparr> \<and> zero_padding p (pkt_size P + k) h1 = Some h2 \<and>
           grown W H V X P k h 0 (P1\<lparr>pkt_size := pkt_size P + k\<rparr>) h2)"
        using grow_unreferenced_padded [OF assms(1) None k n(2), of A] by (elim exE conjE) (rule that)
      then show ?thesis using call None k by auto
    next
      case (Some r)
      obtain R a i j old where w: "window h r R a i j old" "pkt_data P = Some (a, i + j)" "j + nat (pkt_size P) + 64 \<le> ref_size R"
        "packet_bytes h P = slice j (nat (pkt_size P)) old" "int (ref_size R) \<le> INT_MAX" by (rule data_window [OF d(2) Some d(7)])
      have le: "j + nat (pkt_size P) \<le> ref_size R" using w(3) by simp
      obtain ret P1 h1 where g: "grow_buffer A P r ?n h = Some (ret, P1, h1)" "owns H V X (packet_refs P) (packet_blocks P) h1"
        "kept (V \<union> packet_blocks P) (X \<union> set_option (opaque_ref P)) h h1"
        "ret = 0 \<and> (exclusive h1 r \<or> h1 = h) \<and> (\<exists>R' a' i' ys. window h1 r R' a' i' j ys \<and> j + nat ?n \<le> ref_size R' \<and> int (ref_size R') \<le> INT_MAX \<and>
           P1 = P\<lparr>pkt_data := Some (a', i' + j)\<rparr> \<and> slice j (nat (pkt_size P)) ys = slice j (nat (pkt_size P)) old) \<or>
         ret < 0 \<and> P1 = P \<and> refs h1 = refs h \<and> view h1 = view h"
        using grow_buffer_owns [OF assms(1) Some assms(2) w(5,1,2) n le] by (elim exE conjE) (rule that)
      have step: "av_grow_packet A P k h = (if ret < 0 then Some (ret, P1, h1)
          else zero_padding (pkt_data P1) (pkt_size P1 + k) h1 \<bind> (\<lambda>h. Some (0, P1\<lparr>pkt_size := pkt_size P1 + k\<rparr>, h)))"
        using call Some g(1) by simp
      from g(4) show ?thesis
      proof (elim disjE exE conjE)
        assume f: "ret < 0" "P1 = P" "refs h1 = refs h" "view h1 = view h"
        have "kept (V \<union> packet_blocks P) (X \<union> packet_refs P) h h1" using g(3) f(3,4) by (simp add: kept_def)
        from grow_failed [OF assms(1) g(2) this f(1)] step f(1,2) show ?thesis by auto
      next
        fix R' a' i' ys assume s: "ret = 0" "exclusive h1 r" "window h1 r R' a' i' j ys" "j + nat ?n \<le> ref_size R'" "int (ref_size R') \<le> INT_MAX"
          "P1 = P\<lparr>pkt_data := Some (a', i' + j)\<rparr>" "slice j (nat (pkt_size P)) ys = slice j (nat (pkt_size P)) old"
        from grow_padded [OF assms(1) Some size(1) k g(2,3) s(2-5)] s(7) w(4) step s(1,6) k show ?thesis by auto
      next
        fix R' a' i' ys assume s: "ret = 0" "h1 = h" "window h1 r R' a' i' j ys" "j + nat ?n \<le> ref_size R'" "int (ref_size R') \<le> INT_MAX"
          "P1 = P\<lparr>pkt_data := Some (a', i' + j)\<rparr>" "slice j (nat (pkt_size P)) ys = slice j (nat (pkt_size P)) old"
        have same: "R' = R" "a' = a" "i' = i" "ys = old" using s(2,3) w(1) by (simp_all add: window_def)
        then have P1: "P1 = P" using s(6) w(2) by simp
        show ?thesis
        proof (cases "exclusive h r")
          case True
          have "P\<lparr>pkt_data := Some (a, i + j), pkt_size := pkt_size P + k\<rparr> = P\<lparr>pkt_size := pkt_size P + k\<rparr>" using w(2) by simp
          with grow_padded [OF assms(1) Some size(1) k d(1) kept_refl True w(1) s(4) [unfolded same] w(5,4)] w(2) step s(1,2) P1 k
          show ?thesis by auto
        next
          case False
          from grow_shared [OF assms(1) Some size(1) k False w(1) s(4) [unfolded same] w(2,4,5)] step s(1,2) P1 k show ?thesis by auto
        qed
      qed
    qed
  qed
qed

section \<open>Side data\<close>

lemma with_side_block: "packet_blocks (P\<lparr>side_data := ss\<rparr>) = side_block ` set ss"
  by (simp add: packet_blocks_def)

lemma with_side_data: "data_ok W h (P\<lparr>side_data := ss\<rparr>) = data_ok W h P" "packet_bytes h (P\<lparr>side_data := ss\<rparr>) = packet_bytes h P"
  by (simp_all add: data_ok_def packet_bytes_def cong: option.case_cong)

text \<open>New side data, with its contents written into it at once.\<close>

definition put_side_data :: "env \<Rightarrow> AVPacket \<Rightarrow> int \<Rightarrow> byte list \<Rightarrow> heap \<Rightarrow> (int \<times> AVPacket \<times> heap) option" where
  "put_side_data A P t ys h = do {
     (p, P, h) \<leftarrow> av_packet_new_side_data A P t (length ys) h;
     if p = None then Some (AVERROR_ENOMEM, P, h) else do { h \<leftarrow> mem_write p ys h; Some (0, P, h) }
   }"

lemma put_side_held:
  assumes "held W H V X P h"
  shows "\<exists>ret P' h'. put_side_data A P t ys h = Some (ret, P', h') \<and> held W H V X P' h' \<and> kept V X h h' \<and>
    (ret = 0 \<and> packet_value h' P' = (packet_value h P)\<lparr>value_side := put_side t ys (value_side (packet_value h P))\<rparr> \<or>
     ret < 0 \<and> P' = P \<and> packet_value h' P = packet_value h P)"
proof -
  note d = heldD [OF assms]
  obtain res P1 h1 where r: "av_packet_new_side_data A P t (length ys) h = Some (res, P1, h1)" "kept V (X \<union> packet_refs P) h h1"
    "res = None \<and> P1 = P \<and> owns H V X (packet_refs P) (packet_blocks P) h1 \<and> sides_ok h1 (side_data P) \<and> side_values h1 (side_data P) = side_values h (side_data P) \<or>
     (\<exists>h2 ss. res \<noteq> None \<and> mem_write res ys h1 = Some h2 \<and> P1 = P\<lparr>side_data := ss\<rparr> \<and> kept V (X \<union> packet_refs P) h h2 \<and>
       owns H V X (packet_refs P) (packet_blocks P1) h2 \<and> sides_ok h2 ss \<and> side_values h2 ss = put_side t ys (side_values h (side_data P)))"
    using write_new_side [OF d(1,3), of A t ys] by (elim exE conjE) (rule that)
  have frame: "held W H V X (P\<lparr>side_data := ss\<rparr>) h2 \<and> kept V X h h2 \<and> packet_value h2 (P\<lparr>side_data := ss\<rparr>) = (packet_value h P)\<lparr>value_side := side_values h2 ss\<rparr>"
    if f: "kept V (X \<union> packet_refs P) h h2" "owns H V X (packet_refs P) (side_block ` set ss) h2" "sides_ok h2 ss" for h2 ss
  proof -
    have "set_option (pkt_buf P) \<subseteq> X \<union> packet_refs P" by (auto simp: packet_refs_def)
    note k = data_kept [OF d(2) f(1) d(5) this d(7)]
    have "data_ok W h2 (P\<lparr>side_data := ss\<rparr>)" "packet_bytes h2 (P\<lparr>side_data := ss\<rparr>) = packet_bytes h P" "packet_refs (P\<lparr>side_data := ss\<rparr>) = packet_refs P"
      using k(1,2) by (simp_all add: with_side_data packet_refs_def)
    moreover have "(case opaque_ref P of None \<Rightarrow> None | Some r \<Rightarrow> view h2 r) = (case opaque_ref P of None \<Rightarrow> None | Some r \<Rightarrow> view h r)"
      using f(1) by (auto simp: kept_def packet_refs_def split: option.splits)
    moreover have "packet_fields (P\<lparr>side_data := ss\<rparr>) = packet_fields P" by (simp add: packet_fields_def)
    moreover have "kept V X h h2" by (rule kept_mono [OF f(1)]) auto
    moreover have "held W H V X (P\<lparr>side_data := ss\<rparr>) h2"
      by (rule heldI) (use calculation(1,3) f(2,3) d(4,5) in \<open>simp_all add: with_side_block\<close>)
    ultimately show ?thesis by (simp add: packet_value_def)
  qed
  have P: "P\<lparr>side_data := side_data P\<rparr> = P" by simp
  from r(3) show ?thesis
  proof (elim disjE exE conjE)
    assume n: "res = None" "P1 = P" "owns H V X (packet_refs P) (packet_blocks P) h1" "sides_ok h1 (side_data P)" "side_values h1 (side_data P) = side_values h (side_data P)"
    have "owns H V X (packet_refs P) (side_block ` set (side_data P)) h1" using n(3) by (simp add: packet_blocks_def)
    note v = frame [OF r(2) this n(4), unfolded P n(5)]
    have "put_side_data A P t ys h = Some (AVERROR_ENOMEM, P, h1)" using r(1) n(1,2) by (simp add: put_side_data_def)
    then show ?thesis using v by (intro exI [of _ AVERROR_ENOMEM] exI [of _ P] exI [of _ h1]) (simp add: packet_value_def)
  next
    fix h2 ss assume s: "res \<noteq> None" "mem_write res ys h1 = Some h2" "P1 = P\<lparr>side_data := ss\<rparr>" "kept V (X \<union> packet_refs P) h h2"
      "owns H V X (packet_refs P) (packet_blocks P1) h2" "sides_ok h2 ss" "side_values h2 ss = put_side t ys (side_values h (side_data P))"
    have "owns H V X (packet_refs P) (side_block ` set ss) h2" using s(3,5) by (simp add: with_side_block)
    note v = frame [OF s(4) this s(6)]
    have "put_side_data A P t ys h = Some (0, P1, h2)" using r(1) s(1,2) by (simp add: put_side_data_def)
    then show ?thesis using v s(3,7) by (intro exI [of _ 0] exI [of _ P1] exI [of _ h2]) (simp add: packet_value_def)
  qed
qed

section \<open>Opaque data\<close>

text \<open>
  What a user who has opaque data does: it gives the packet a reference to a buffer with them, which
  \<open>av_packet_copy_props\<close> shares and \<open>av_packet_unref\<close> gives up.
\<close>

definition attach_opaque :: "env \<Rightarrow> AVPacket \<Rightarrow> byte list \<Rightarrow> heap \<Rightarrow> (int \<times> AVPacket \<times> heap) option" where
  "attach_opaque A P xs h = do {
     (buf, h) \<leftarrow> av_buffer_alloc A (length xs) h;
     case buf of
       None \<Rightarrow> Some (AVERROR_ENOMEM, P, h)
     | Some r \<Rightarrow> do { R \<leftarrow> refs h r; h \<leftarrow> mem_write (ref_data R) xs h; Some (0, P\<lparr>opaque_ref := Some r\<rparr>, h) }
   }"

lemma attach_held:
  assumes "held W H V X P h" "opaque_ref P = None"
  shows "\<exists>ret P' h'. attach_opaque A P xs h = Some (ret, P', h') \<and> held W H V X P' h' \<and> kept V X h h' \<and>
    (ret = 0 \<and> packet_value h' P' = (packet_value h P)\<lparr>value_opaque := Some xs\<rparr> \<or>
     ret < 0 \<and> P' = P \<and> packet_value h' P = packet_value h P)"
proof -
  note d = heldD [OF assms(1)]
  let ?n = "length xs"
  obtain res h1 where b: "av_buffer_alloc A ?n h = Some (res, h1)" "allocated 0 ?n h res h1"
    using av_buffer_alloc_shape [OF objects_okD(1) [OF heap_okD(1) [OF owns_okD(1) [OF d(1)]]], of A ?n] by blast
  note al = owns_alloc [OF d(1) b(2) no_flags(1)]
  have same: "packet_ok W h' P \<and> packet_value h' P = packet_value h P \<and> kept V X h h'" if k: "kept (V \<union> packet_blocks P) (X \<union> packet_refs P) h h'" for h'
    using packet_kept [OF d(6) k _ _ _ d(7)] d(5) kept_mono [OF k, of V X] by auto
  show ?thesis
  proof (cases res)
    case None
    then have "attach_opaque A P xs h = Some (AVERROR_ENOMEM, P, h1)" using b(1) by (simp add: attach_opaque_def)
    moreover have "held W H V X P h1" using al(2) None same [OF al(1)] d(5) by (simp add: held_def)
    ultimately show ?thesis using same [OF al(1)] by (intro exI [of _ AVERROR_ENOMEM] exI [of _ P] exI [of _ h1]) simp
  next
    case (Some r)
    obtain R a i ys where R: "refs h1 r = Some R" "ref_data R = Some (a, i)" "ref_size R = ?n" "exclusive h1 r" "view h1 r = Some ys" "length ys = ?n"
      using al(4) [OF Some] by blast
    have own: "owns H V X (insert r (packet_refs P)) (packet_blocks P) h1" "r \<notin> packet_refs P" using al(2,3) Some by auto
    have fit: "0 + ?n \<le> ref_size R" using R(3) by simp
    from owns_store [OF own R(1,4,2) fit R(5)] obtain h2 where h2: "mem_write (Some (a, i + 0)) xs h1 = Some h2"
      "owns H V X (insert r (packet_refs P)) (packet_blocks P) h2" "kept (V \<union> packet_blocks P) (X \<union> packet_refs P) h1 h2" "refs h2 = refs h1"
      "view h2 r = Some (splice 0 xs ys)" by (elim exE conjE) (rule that)
    let ?Q = "P\<lparr>opaque_ref := Some r\<rparr>"
    have run: "attach_opaque A P xs h = Some (0, ?Q, h2)" using b(1) Some R(1,2) h2(1) by (simp add: attach_opaque_def del: mem_write.simps)
    note k = same [OF kept_trans [OF al(1) h2(3)]]
    have Q: "packet_refs ?Q = insert r (packet_refs P)" "packet_blocks ?Q = packet_blocks P"
      using assms(2) by (simp_all add: packet_refs_def packet_blocks_def)
    have "data_ok W h2 ?Q = data_ok W h2 P" "packet_bytes h2 ?Q = packet_bytes h2 P"
      by (simp_all add: data_ok_def packet_bytes_def cong: option.case_cong)
    then have "held W H V X ?Q h2" using h2(2) Q k own(2) d(5) by (auto simp: held_def packet_ok_def packet_refs_def)
    moreover have "splice 0 xs ys = xs" using R(6) by (simp add: splice_def)
    then have "packet_value h2 ?Q = (packet_value h2 P)\<lparr>value_opaque := Some xs\<rparr>"
      using h2(5) by (simp add: packet_value_def packet_bytes_def packet_fields_def)
    ultimately show ?thesis using run k by (intro exI [of _ 0] exI [of _ ?Q] exI [of _ h2]) simp
  qed
qed

end
