(* ===== verification/Packet_Client.thy ===== *)
theory Packet_Client
  imports Packet_Resize
begin

text \<open>
  Clients of packets: what any sequence of the calls of \<open>packet.c\<close> on any number of packets does. The
  packets share buffers, yet each behaves like a value of its own.
\<close>

section \<open>Writing into a packet\<close>

lemma write_held:
  assumes "held W H V X P h" "pkt_buf P = Some r" "exclusive h r" "length ys \<le> nat (pkt_size P)"
  shows "\<exists>h'. mem_write (pkt_data P) ys h = Some h' \<and> held W H V X P h' \<and> kept V X h h' \<and>
    packet_value h' P = (packet_value h P)\<lparr>value_bytes := ys @ drop (length ys) (packet_bytes h P)\<rparr>"
proof -
  note d = heldD [OF assms(1)]
  obtain R a i j old where w: "window h r R a i j old" "pkt_data P = Some (a, i + j)" "0 \<le> pkt_size P" "j + nat (pkt_size P) + 64 \<le> ref_size R"
    "packet_bytes h P = slice j (nat (pkt_size P)) old" "int (ref_size R) \<le> INT_MAX" by (rule data_window [OF d(2) assms(2) d(7)])
  let ?rs = "set_option (opaque_ref P)" and ?n = "nat (pkt_size P)"
  have refs: "packet_refs P = insert r ?rs" by (rule packet_refs_buf [OF assms(2)])
  have own: "owns H V X (insert r ?rs) (packet_blocks P) h" "r \<notin> ?rs" using d(1,4) assms(2) refs by auto
  have R: "refs h r = Some R" "ref_data R = Some (a, i)" "view h r = Some old" "length old = ref_size R" using w(1) by (simp_all add: window_def)
  have fit: "j + length ys \<le> ref_size R" using assms(4) w(4) by simp
  from owns_store [OF own R(1) assms(3) R(2) fit R(3)] obtain h' where h': "mem_write (Some (a, i + j)) ys h = Some h'"
    "owns H V X (insert r ?rs) (packet_blocks P) h'" "kept (V \<union> packet_blocks P) (X \<union> ?rs) h h'" "refs h' = refs h" "view h' r = Some (splice j ys old)"
    by (elim exE conjE) (rule that)
  have len: "length (splice j ys old) = ref_size R" using fit R(4) by simp
  have w': "window h' r R a i j (splice j ys old)" unfolding window_def by (intro conjI) (simp_all only: h'(4,5) R(1,2) len)
  note q = window_data [OF w' assms(2) w(2-4,6)]
  have "slice j ?n (splice j ys old) = ys @ drop (length ys) (slice j ?n old)"
    using assms(4) w(4) R(4) by (simp add: slice_def splice_def drop_take add.commute)
  then have bytes: "packet_bytes h' P = ys @ drop (length ys) (packet_bytes h P)" using q(2) w(5) by simp
  have "P = P\<lparr>pkt_data := pkt_data P, pkt_size := pkt_size P\<rparr>" by simp
  note v = resized [OF assms(1,2) h'(3) h'(2) [folded refs] q(1) this]
  have "packet_value h P\<lparr>value_fields := (packet_fields P)\<lparr>pkt_size := pkt_size P\<rparr>\<rparr> = packet_value h P"
    by (simp add: packet_value_def packet_fields_def)
  then have "(packet_value h P)\<lparr>value_bytes := packet_bytes h' P, value_fields := (packet_fields P)\<lparr>pkt_size := pkt_size P\<rparr>\<rparr> =
      (packet_value h P)\<lparr>value_bytes := packet_bytes h' P\<rparr>" by (simp add: packet_value_def packet_fields_def)
  with v bytes h'(1) w(2) show ?thesis by (intro exI [of _ h']) simp
qed

section \<open>The calls of a client\<close>

text \<open>
  A client has numbered packets, and memory of its own: \<open>User_Memory\<close> allocates a block, \<open>Wrap\<close> lets a
  packet point into one without a buffer. \<open>Write\<close>, \<open>Set_Fields\<close>, \<open>Attach\<close> and \<open>Put_Side\<close> are what a
  client does with a packet of its own: it writes into the data, assigns all plain fields, gives it
  opaque data or side data. All others are the functions of \<open>packet.c\<close>.
\<close>

datatype packet_call =
    User_Memory "byte list"
  | Wrap nat nat nat int
  | New nat int
  | From_Data nat "byte list"
  | Unref nat
  | Ref nat nat
  | Move nat nat
  | Make_Refcounted nat
  | Make_Writable nat
  | Put_Side nat int "byte list"
  | Shrink nat int
  | Grow nat int
  | Write nat "byte list"
  | Set_Fields nat AVPacket
  | Attach nat "byte list"
  | Rescale nat AVRational AVRational

type_synonym packets = "nat set \<times> (nat \<Rightarrow> AVPacket) \<times> heap"

definition packet_writable :: "AVPacket \<Rightarrow> heap \<Rightarrow> bool" where
  "packet_writable P h = (case pkt_buf P of None \<Rightarrow> False | Some r \<Rightarrow> av_buffer_is_writable r h = Some True)"

text \<open>
  What a client keeps to. The functions that fill a packet (\<open>packet.h\<close>: \<open>pkt\<close> is unreferenced, or
  blank) get a blank one; data of the client's own have the padding that \<open>AVPacket.data\<close> asks for, and
  an \<open>int\<close> can count both; only a packet that is writable is written into; a packet is not cut to a
  negative size. A packet may be shrunk or grown, by any \<open>int\<close>, also when it shares its buffer or has none.
\<close>

fun packet_may :: "packets \<Rightarrow> packet_call \<Rightarrow> bool" where
  "packet_may (W, ps, h) (User_Memory xs) = True"
| "packet_may (W, ps, h) (Wrap i a off n) = (ps i = get_packet_defaults \<and> a \<in> W \<and> 0 \<le> n \<and> n \<le> INT_MAX - 64 \<and>
     off + nat n + 64 \<le> length (the (blocks h a)))"
| "packet_may (W, ps, h) (New i n) = (ps i = get_packet_defaults)"
| "packet_may (W, ps, h) (From_Data i xs) = (ps i = get_packet_defaults \<and> int (length xs) \<le> INT_MAX)"
| "packet_may (W, ps, h) (Unref i) = True"
| "packet_may (W, ps, h) (Ref d s) = (d \<noteq> s \<and> ps d = get_packet_defaults)"
| "packet_may (W, ps, h) (Move d s) = (d \<noteq> s \<and> ps d = get_packet_defaults)"
| "packet_may (W, ps, h) (Make_Refcounted i) = True"
| "packet_may (W, ps, h) (Make_Writable i) = True"
| "packet_may (W, ps, h) (Put_Side i t ys) = True"
| "packet_may (W, ps, h) (Shrink i n) = (0 \<le> n)"
| "packet_may (W, ps, h) (Grow i k) = (INT_MIN \<le> k \<and> k \<le> INT_MAX)"
| "packet_may (W, ps, h) (Write i ys) = (packet_writable (ps i) h \<and> length ys \<le> nat (pkt_size (ps i)))"
| "packet_may (W, ps, h) (Set_Fields i F) = True"
| "packet_may (W, ps, h) (Attach i xs) = (opaque_ref (ps i) = None)"
| "packet_may (W, ps, h) (Rescale i s t) = True"

text \<open>The plain fields of \<open>F\<close>: all but the data, the side data and the opaque data.\<close>

definition set_fields :: "AVPacket \<Rightarrow> AVPacket \<Rightarrow> AVPacket" where
  "set_fields P F = P\<lparr>pts := pts F, dts := dts F, stream_index := stream_index F, pkt_flags := pkt_flags F,
     pkt_duration := pkt_duration F, pkt_pos := pkt_pos F, pkt_opaque := pkt_opaque F, pkt_time_base := pkt_time_base F\<rparr>"

definition put_packet :: "nat set \<Rightarrow> (nat \<Rightarrow> AVPacket) \<Rightarrow> nat \<Rightarrow> (int \<times> AVPacket \<times> heap) option \<Rightarrow> (int \<times> packets) option" where
  "put_packet W ps i res = map_option (\<lambda>(ret, P, h). (ret, W, ps(i := P), h)) res"

text \<open>The client allocates its data, with the padding, and frees them when the packet cannot be made.\<close>

definition packet_of_data :: "env \<Rightarrow> byte list \<Rightarrow> heap \<Rightarrow> (int \<times> AVPacket \<times> heap) option" where
  "packet_of_data A xs h =
     (case new_address A h of
        (None, h) \<Rightarrow> Some (AVERROR_ENOMEM, get_packet_defaults, h)
      | (Some a, h) \<Rightarrow> do {
          (ret, P, h) \<leftarrow> av_packet_from_data A get_packet_defaults (Some (a, 0)) (int (length xs)) (h\<lparr>blocks := (blocks h)(a \<mapsto> xs @ replicate 64 0)\<rparr>);
          if ret < 0 then do { h \<leftarrow> mem_free (Some (a, 0)) h; Some (ret, P, h) } else Some (ret, P, h)
        })"

fun packet_step :: "env \<Rightarrow> packets \<Rightarrow> packet_call \<Rightarrow> (int \<times> packets) option" where
  "packet_step A (W, ps, h) (User_Memory xs) =
     (case new_address A h of
        (None, h) \<Rightarrow> Some (AVERROR_ENOMEM, W, ps, h)
      | (Some a, h) \<Rightarrow> Some (0, insert a W, ps, h\<lparr>blocks := (blocks h)(a \<mapsto> xs)\<rparr>))"
| "packet_step A (W, ps, h) (Wrap i a off n) = Some (0, W, ps(i := (ps i)\<lparr>pkt_data := Some (a, off), pkt_size := n\<rparr>), h)"
| "packet_step A (W, ps, h) (New i n) = put_packet W ps i (av_new_packet A (ps i) n h)"
| "packet_step A (W, ps, h) (From_Data i xs) = put_packet W ps i (packet_of_data A xs h)"
| "packet_step A (W, ps, h) (Unref i) = put_packet W ps i (map_option (\<lambda>(P, h). (0, P, h)) (av_packet_unref A (ps i) h))"
| "packet_step A (W, ps, h) (Ref d s) = put_packet W ps d (av_packet_ref A (ps d) (ps s) h)"
| "packet_step A (W, ps, h) (Move d s) = (case av_packet_move_ref (ps s) of (P, Q) \<Rightarrow> Some (0, W, ps(d := P, s := Q), h))"
| "packet_step A (W, ps, h) (Make_Refcounted i) = put_packet W ps i (av_packet_make_refcounted A (ps i) h)"
| "packet_step A (W, ps, h) (Make_Writable i) = put_packet W ps i (av_packet_make_writable A (ps i) h)"
| "packet_step A (W, ps, h) (Put_Side i t ys) = put_packet W ps i (put_side_data A (ps i) t ys h)"
| "packet_step A (W, ps, h) (Shrink i n) = put_packet W ps i (map_option (\<lambda>(P, h). (0, P, h)) (av_shrink_packet (ps i) n h))"
| "packet_step A (W, ps, h) (Grow i k) = put_packet W ps i (av_grow_packet A (ps i) k h)"
| "packet_step A (W, ps, h) (Write i ys) = put_packet W ps i (map_option (\<lambda>h. (0, ps i, h)) (mem_write (pkt_data (ps i)) ys h))"
| "packet_step A (W, ps, h) (Set_Fields i F) = Some (0, W, ps(i := set_fields (ps i) F), h)"
| "packet_step A (W, ps, h) (Attach i xs) = put_packet W ps i (attach_opaque A (ps i) xs h)"
| "packet_step A (W, ps, h) (Rescale i s t) = Some (0, W, ps(i := av_packet_rescale_ts (ps i) s t), h)"

text \<open>Fewer than \<open>2 ^ 32 - 2\<close> references, so that no counter wraps.\<close>

inductive packet_reach :: "env \<Rightarrow> packets \<Rightarrow> bool" for A where
  start: "packet_reach A ({}, \<lambda>_. get_packet_defaults, empty_heap)"
| step: "packet_reach A (W, ps, h) \<Longrightarrow> card (dom (refs h)) + 2 < 2 ^ 32 \<Longrightarrow> packet_may (W, ps, h) x \<Longrightarrow>
    packet_step A (W, ps, h) x = Some (ret, s) \<Longrightarrow> packet_reach A s"

section \<open>Packets as values\<close>

text \<open>The client's view: the contents of its own memory, and a value for each packet.\<close>

type_synonym packet_values = "(nat \<rightharpoonup> byte list) \<times> (nat \<Rightarrow> packet_value)"

definition memory_view :: "nat set \<Rightarrow> heap \<Rightarrow> nat \<rightharpoonup> byte list" where
  "memory_view W h = (\<lambda>a. if a \<in> W then blocks h a else None)"

definition value_view :: "(nat \<Rightarrow> AVPacket) \<Rightarrow> heap \<Rightarrow> nat \<Rightarrow> packet_value" where
  "value_view ps h = (\<lambda>i. packet_value h (ps i))"

fun packets_view :: "packets \<Rightarrow> packet_values" where
  "packets_view (W, ps, h) = (memory_view W h, value_view ps h)"

definition value_of_data :: "byte list \<Rightarrow> int \<Rightarrow> packet_value" where
  "value_of_data xs n = \<lparr>value_bytes = xs, value_side = [], value_opaque = None, value_fields = get_packet_defaults\<lparr>pkt_size := n\<rparr>\<rparr>"

definition no_value :: packet_value where
  "no_value = value_of_data [] 0"

text \<open>The specification: each call on independent values.\<close>

fun packet_spec :: "packet_call \<Rightarrow> int \<Rightarrow> packet_values \<Rightarrow> packet_values \<Rightarrow> bool" where
  "packet_spec (User_Memory xs) ret (m, v) s = (ret = 0 \<and> (\<exists>a. m a = None \<and> s = (m(a \<mapsto> xs), v)) \<or> ret < 0 \<and> s = (m, v))"
| "packet_spec (Wrap i a off n) ret (m, v) s = (ret = 0 \<and> s = (m, v(i := value_of_data (slice off (nat n) (the (m a))) n)))"
| "packet_spec (New i n) ret (m, v) s = (ret = 0 \<and> (\<exists>xs. length xs = nat n \<and> s = (m, v(i := value_of_data xs n))) \<or> ret < 0 \<and> s = (m, v))"
| "packet_spec (From_Data i xs) ret (m, v) s = (ret = 0 \<and> s = (m, v(i := value_of_data xs (int (length xs)))) \<or> ret < 0 \<and> s = (m, v))"
| "packet_spec (Unref i) ret (m, v) s = (ret = 0 \<and> s = (m, v(i := no_value)))"
| "packet_spec (Ref d s') ret (m, v) s = (ret = 0 \<and> s = (m, v(d := v s')) \<or> ret < 0 \<and> s = (m, v))"
| "packet_spec (Move d s') ret (m, v) s = (ret = 0 \<and> s = (m, v(d := v s', s' := no_value)))"
| "packet_spec (Make_Refcounted i) ret (m, v) s = (ret \<le> 0 \<and> s = (m, v))"
| "packet_spec (Make_Writable i) ret (m, v) s = (ret \<le> 0 \<and> s = (m, v))"
| "packet_spec (Put_Side i t ys) ret (m, v) s =
     (ret = 0 \<and> s = (m, v(i := (v i)\<lparr>value_side := put_side t ys (value_side (v i))\<rparr>)) \<or> ret < 0 \<and> s = (m, v))"
| "packet_spec (Shrink i n) ret (m, v) s = (ret = 0 \<and> s = (m, v(i := (v i)\<lparr>value_bytes := take (nat n) (value_bytes (v i)),
     value_fields := (value_fields (v i))\<lparr>pkt_size := min n (pkt_size (value_fields (v i)))\<rparr>\<rparr>)))"
| "packet_spec (Grow i k) ret (m, v) s = (ret = 0 \<and> (\<exists>xs. length xs = nat k \<and> s = (m, v(i := (v i)\<lparr>value_bytes := value_bytes (v i) @ xs,
     value_fields := (value_fields (v i))\<lparr>pkt_size := pkt_size (value_fields (v i)) + k\<rparr>\<rparr>))) \<or> ret < 0 \<and> s = (m, v))"
| "packet_spec (Write i ys) ret (m, v) s = (ret = 0 \<and> s = (m, v(i := (v i)\<lparr>value_bytes := ys @ drop (length ys) (value_bytes (v i))\<rparr>)))"
| "packet_spec (Set_Fields i F) ret (m, v) s = (ret = 0 \<and> s = (m, v(i := (v i)\<lparr>value_fields := set_fields (value_fields (v i)) F\<rparr>)))"
| "packet_spec (Attach i xs) ret (m, v) s = (ret = 0 \<and> s = (m, v(i := (v i)\<lparr>value_opaque := Some xs\<rparr>)) \<or> ret < 0 \<and> s = (m, v))"
| "packet_spec (Rescale i t t') ret (m, v) s =
     (ret = 0 \<and> s = (m, v(i := (v i)\<lparr>value_fields := av_packet_rescale_ts (value_fields (v i)) t t'\<rparr>)))"

text \<open>
  Shrinking and growing write the padding behind the new end. Where the packet still shares that
  memory after the call, or it is the client's own, others may show it: \<open>exposed\<close> is then the packet,
  and \<open>spoilt\<close> what is left of the values, all but the bytes of the other packets and of the memory.
\<close>

fun exposed :: "packet_call \<Rightarrow> int \<Rightarrow> packets \<Rightarrow> packets \<Rightarrow> nat option" where
  "exposed (Shrink i n) ret (W, ps, h) (W', ps', h') = (if n < pkt_size (ps i) \<and> \<not> packet_writable (ps' i) h' then Some i else None)"
| "exposed (Grow i k) ret (W, ps, h) (W', ps', h') = (if ret = 0 \<and> pkt_buf (ps i) \<noteq> None \<and> \<not> packet_writable (ps' i) h' then Some i else None)"
| "exposed x ret s s' = None"

definition spoilt :: "nat \<Rightarrow> packet_values \<Rightarrow> packet_values \<Rightarrow> bool" where
  "spoilt i s t \<longleftrightarrow> (\<forall>a. map_option length (fst t a) = map_option length (fst s a)) \<and> value_bytes (snd t i) = value_bytes (snd s i) \<and>
     (\<forall>j. value_side (snd t j) = value_side (snd s j) \<and> value_fields (snd t j) = value_fields (snd s j) \<and>
        length (value_bytes (snd t j)) = length (value_bytes (snd s j)))"

definition meets :: "packet_call \<Rightarrow> int \<Rightarrow> packets \<Rightarrow> packets \<Rightarrow> bool" where
  "meets x ret s s' \<longleftrightarrow> (\<exists>t. packet_spec x ret (packets_view s) t \<and>
     (case exposed x ret s s' of None \<Rightarrow> packets_view s' = t | Some i \<Rightarrow> spoilt i t (packets_view s')))"

section \<open>The invariant of the client\<close>

definition other_blocks :: "nat set \<Rightarrow> (nat \<Rightarrow> AVPacket) \<Rightarrow> nat \<Rightarrow> nat set" where
  "other_blocks W ps i = W \<union> (\<Union>j\<in>- {i}. packet_blocks (ps j))"

definition other_refs :: "(nat \<Rightarrow> AVPacket) \<Rightarrow> nat \<Rightarrow> nat set" where
  "other_refs ps i = (\<Union>j\<in>- {i}. packet_refs (ps j))"

fun packets_ok :: "packets \<Rightarrow> bool" where
  "packets_ok (W, ps, h) \<longleftrightarrow> heap_ok {} (W \<union> (\<Union>i. packet_blocks (ps i))) (\<lambda>_. 0) h \<and> neat (\<lambda>_. 0) h \<and> dom (refs h) = (\<Union>i. packet_refs (ps i)) \<and>
     (\<forall>i j. i \<noteq> j \<longrightarrow> packet_refs (ps i) \<inter> packet_refs (ps j) = {} \<and> packet_blocks (ps i) \<inter> packet_blocks (ps j) = {}) \<and>
     (\<forall>i. W \<inter> packet_blocks (ps i) = {} \<and> packet_ok W h (ps i))"

declare packets_ok.simps [simp del]

lemma union_split: "(\<Union>j. f j) = (\<Union>j\<in>- {i}. f j) \<union> f i"
  by auto

lemma packets_focus:
  assumes "packets_ok (W, ps, h)"
  shows "held W {} (other_blocks W ps i) (other_refs ps i) (ps i) h"
proof -
  have "W \<union> (\<Union>j. packet_blocks (ps j)) = other_blocks W ps i \<union> packet_blocks (ps i)"
    unfolding other_blocks_def using union_split [of "\<lambda>j. packet_blocks (ps j)" i] by blast
  moreover have "dom (refs h) = other_refs ps i \<union> packet_refs (ps i)"
    unfolding other_refs_def using union_split [of "\<lambda>j. packet_refs (ps j)" i] assms by (simp add: packets_ok.simps)
  moreover have "other_blocks W ps i \<inter> packet_blocks (ps i) = {}" "other_refs ps i \<inter> packet_refs (ps i) = {}"
    using assms unfolding packets_ok.simps other_blocks_def other_refs_def by blast+
  moreover have "W \<subseteq> other_blocks W ps i" by (simp add: other_blocks_def)
  ultimately show ?thesis using assms by (simp add: held_def owns_def packets_ok.simps)
qed

lemma packets_other:
  assumes "packets_ok (W, ps, h)" "kept (other_blocks W ps i) (other_refs ps i) h h'" "j \<noteq> i"
  shows "packet_ok W h' (ps j)" "packet_value h' (ps j) = packet_value h (ps j)"
proof -
  have "heap_ok {} (W \<union> (\<Union>i. packet_blocks (ps i))) (\<lambda>_. 0) h" using assms(1) by (simp add: packets_ok.simps)
  then have "refs_ok h" by (rule heap_okD(2))
  moreover have "packet_ok W h (ps j)" using assms(1) by (simp add: packets_ok.simps)
  moreover have "W \<subseteq> other_blocks W ps i" "packet_refs (ps j) \<subseteq> other_refs ps i" "packet_blocks (ps j) \<subseteq> other_blocks W ps i"
    using assms(3) by (auto simp: other_blocks_def other_refs_def)
  ultimately show "packet_ok W h' (ps j)" "packet_value h' (ps j) = packet_value h (ps j)" using packet_kept [OF _ assms(2), of W "ps j"] by simp_all
qed

lemma packets_unfocus:
  assumes "packets_ok (W, ps, h)" "held W {} (other_blocks W ps i) (other_refs ps i) P h'" "kept (other_blocks W ps i) (other_refs ps i) h h'"
  shows "packets_ok (W, ps(i := P), h')"
    "memory_view W h' = memory_view W h" "value_view (ps(i := P)) h' = (value_view ps h)(i := packet_value h' P)"
proof -
  let ?ps = "ps(i := P)"
  have o: "owns {} (other_blocks W ps i) (other_refs ps i) (packet_refs P) (packet_blocks P) h'" "packet_ok W h' P" using assms(2) by (simp_all add: held_def)
  have "(\<Union>j\<in>- {i}. packet_blocks (?ps j)) = (\<Union>j\<in>- {i}. packet_blocks (ps j))" "(\<Union>j\<in>- {i}. packet_refs (?ps j)) = (\<Union>j\<in>- {i}. packet_refs (ps j))" by auto
  then have u: "W \<union> (\<Union>j. packet_blocks (?ps j)) = other_blocks W ps i \<union> packet_blocks P" "(\<Union>j. packet_refs (?ps j)) = other_refs ps i \<union> packet_refs P"
    using union_split [of "\<lambda>j. packet_blocks (?ps j)" i] union_split [of "\<lambda>j. packet_refs (?ps j)" i]
    by (simp_all add: other_blocks_def other_refs_def Un_ac)
  have new: "packet_blocks (ps j) \<inter> packet_blocks P = {}" "packet_refs (ps j) \<inter> packet_refs P = {}" if "j \<noteq> i" for j
    using that owns_okD(3,5) [OF o(1)] unfolding other_blocks_def other_refs_def by blast+
  have "packet_refs (?ps j) \<inter> packet_refs (?ps k) = {} \<and> packet_blocks (?ps j) \<inter> packet_blocks (?ps k) = {}" if "j \<noteq> k" for j k
    using that new [of j] new [of k] assms(1) unfolding packets_ok.simps by (cases "j = i"; cases "k = i") (auto simp: Int_commute)
  moreover have "W \<inter> packet_blocks (?ps j) = {} \<and> packet_ok W h' (?ps j)" for j
  proof (cases "j = i")
    case True
    then show ?thesis using o(2) owns_okD(3) [OF o(1)] by (auto simp: other_blocks_def)
  next
    case False
    then show ?thesis using packets_other(1) [OF assms(1,3)] assms(1) by (simp add: packets_ok.simps)
  qed
  ultimately show "packets_ok (W, ?ps, h')" using owns_okD [OF o(1)] u by (simp only: packets_ok.simps) blast
  have "blocks h' a = blocks h a" if "a \<in> W" for a using assms(3) that by (simp add: kept_def other_blocks_def)
  then show "memory_view W h' = memory_view W h" by (auto simp: memory_view_def)
  show "value_view ?ps h' = (value_view ps h)(i := packet_value h' P)"
    using packets_other(2) [OF assms(1,3)] by (auto simp: fun_eq_iff value_view_def)
qed

section \<open>Each call keeps the invariant and meets its specification\<close>

definition packets_fine :: "env \<Rightarrow> packets \<Rightarrow> packet_call \<Rightarrow> bool" where
  "packets_fine A s x \<longleftrightarrow> (\<exists>ret s'. packet_step A s x = Some (ret, s') \<and> packets_ok s' \<and> meets x ret s s')"

lemma meetsI: "packet_spec x ret (packets_view s) (packets_view s') \<Longrightarrow> meets x ret s s'"
  unfolding meets_def by (rule exI [of _ "packets_view s'"]) (simp add: spoilt_def split: option.split)

lemma slot_fine:
  assumes "packets_ok (W, ps, h)" "packet_step A (W, ps, h) x = Some (ret, W, ps(i := P), h')"
    and "held W {} (other_blocks W ps i) (other_refs ps i) P h'" "kept (other_blocks W ps i) (other_refs ps i) h h'"
    and "packet_spec x ret (memory_view W h, value_view ps h) (memory_view W h, (value_view ps h)(i := packet_value h' P))"
  shows "packets_fine A (W, ps, h) x"
  using packets_unfocus [OF assms(1,3,4)] assms(2,5) unfolding packets_fine_def
  by (intro exI [of _ ret] exI [of _ "(W, ps(i := P), h')"]) (simp add: meetsI)

lemma same_value: "packet_value h' P = packet_value h (ps i) \<Longrightarrow> (value_view ps h)(i := packet_value h' P) = value_view ps h"
  by (simp add: value_view_def fun_eq_iff)

lemma blank_packet [simp]: "pkt_buf get_packet_defaults = None" "pkt_data get_packet_defaults = None" "pkt_size get_packet_defaults = 0"
  "side_data get_packet_defaults = []" "opaque_ref get_packet_defaults = None" "packet_fields get_packet_defaults = get_packet_defaults"
  "packet_refs get_packet_defaults = {}" "packet_blocks get_packet_defaults = {}"
  by (simp_all add: get_packet_defaults_def packet_fields_def packet_refs_def packet_blocks_def)

lemma blank_value [simp]: "packet_value h get_packet_defaults = no_value"
proof -
  have "get_packet_defaults = get_packet_defaults\<lparr>pkt_size := 0\<rparr>" by (simp add: get_packet_defaults_def)
  then show ?thesis by (simp add: packet_value_def no_value_def value_of_data_def packet_bytes_def side_values_def)
qed

lemma value_parts [simp]: "value_bytes (packet_value h P) = packet_bytes h P" "value_fields (packet_value h P) = packet_fields P"
  "pkt_size (packet_fields P) = pkt_size P"
  by (simp_all add: packet_value_def packet_fields_def)

text \<open>The plain fields.\<close>

lemma fields_held:
  assumes "held W H V X P h"
  shows "held W H V X (set_fields P F) h" "packet_value h (set_fields P F) = (packet_value h P)\<lparr>value_fields := set_fields (packet_fields P) F\<rparr>"
proof -
  note x = heldD [OF assms(1)]
  let ?Q = "set_fields P F"
  have Q: "packet_refs ?Q = packet_refs P" "packet_blocks ?Q = packet_blocks P" "data_ok W h ?Q = data_ok W h P" "packet_bytes h ?Q = packet_bytes h P"
    by (simp_all add: set_fields_def packet_refs_def packet_blocks_def data_ok_def packet_bytes_def cong: option.case_cong)
  show "held W H V X ?Q h" by (rule heldI) (use x(1-5) Q in \<open>simp_all add: set_fields_def\<close>)
  show "packet_value h ?Q = (packet_value h P)\<lparr>value_fields := set_fields (packet_fields P) F\<rparr>"
    using Q(4) by (simp add: packet_value_def packet_fields_def set_fields_def)
qed

lemma field_steps:
  assumes "packets_ok (W, ps, h)"
  shows "packets_fine A (W, ps, h) (Set_Fields i F)" "packets_fine A (W, ps, h) (Rescale i s t)"
proof -
  note f = fields_held [OF packets_focus [OF assms, of i]]
  show "packets_fine A (W, ps, h) (Set_Fields i F)"
    by (rule slot_fine [OF assms packet_step.simps(14) f(1) kept_refl]) (simp add: f(2), simp add: value_view_def)
  let ?Q = "av_packet_rescale_ts (ps i) s t"
  have Q: "set_fields (ps i) ?Q = ?Q" "set_fields (packet_fields (ps i)) ?Q = av_packet_rescale_ts (packet_fields (ps i)) s t"
    by (simp_all add: set_fields_def av_packet_rescale_ts_def packet_fields_def)
  note q = f(1) [of ?Q, unfolded Q(1)] f(2) [of ?Q, unfolded Q]
  show "packets_fine A (W, ps, h) (Rescale i s t)"
    by (rule slot_fine [OF assms packet_step.simps(16) q(1) kept_refl]) (simp add: q(2), simp add: value_view_def)
qed

lemma attach_step:
  assumes "packets_ok (W, ps, h)" "opaque_ref (ps i) = None"
  shows "packets_fine A (W, ps, h) (Attach i xs)"
proof -
  note f = packets_focus [OF assms(1), of i]
  let ?V = "other_blocks W ps i" and ?X = "other_refs ps i"
  obtain ret P h' where x: "attach_opaque A (ps i) xs h = Some (ret, P, h')" "held W {} ?V ?X P h'" "kept ?V ?X h h'"
    "ret = 0 \<and> packet_value h' P = (packet_value h (ps i))\<lparr>value_opaque := Some xs\<rparr> \<or> ret < 0 \<and> P = ps i \<and> packet_value h' (ps i) = packet_value h (ps i)"
    using attach_held [OF f assms(2), of A xs] by (elim exE conjE) (rule that)
  show ?thesis
  proof (rule slot_fine [OF assms(1) _ x(2,3), of A _ ret])
    show "packet_step A (W, ps, h) (Attach i xs) = Some (ret, W, ps(i := P), h')" by (simp add: put_packet_def x(1))
    show "packet_spec (Attach i xs) ret (memory_view W h, value_view ps h) (memory_view W h, (value_view ps h)(i := packet_value h' P))"
      using x(4) same_value [of h' P h ps i] by (auto simp: value_view_def)
  qed
qed

lemma release_steps:
  assumes "packets_ok (W, ps, h)" "nesting A > 0"
  shows "packets_fine A (W, ps, h) (Unref i)" "packets_fine A (W, ps, h) (Make_Refcounted i)" "packets_fine A (W, ps, h) (Make_Writable i)"
    "packets_fine A (W, ps, h) (Put_Side i t ys)"
proof -
  note f = packets_focus [OF assms(1), of i]
  let ?V = "other_blocks W ps i" and ?X = "other_refs ps i"
  obtain h1 where 1: "av_packet_unref A (ps i) h = Some (get_packet_defaults, h1)" "held W {} ?V ?X get_packet_defaults h1" "kept ?V ?X h h1"
    using unref_held [OF f assms(2)] by (elim exE conjE) (rule that)
  show "packets_fine A (W, ps, h) (Unref i)"
    by (rule slot_fine [OF assms(1) _ 1(2,3), of A _ 0]) (simp_all add: put_packet_def 1(1))
  obtain r2 P2 h2 where 2: "av_packet_make_refcounted A (ps i) h = Some (r2, P2, h2)" "held W {} ?V ?X P2 h2" "kept ?V ?X h h2"
    "packet_value h2 P2 = packet_value h (ps i)" "r2 \<le> 0"
  proof -
    from make_refcounted_held [OF f, of A] obtain r P h' where x: "av_packet_make_refcounted A (ps i) h = Some (r, P, h')" "held W {} ?V ?X P h'" "kept ?V ?X h h'"
      "packet_value h' P = packet_value h (ps i)" "r = 0 \<and> pkt_buf P \<noteq> None \<or> r < 0 \<and> P = ps i" by (elim exE conjE) (rule that)
    then have "r \<le> 0" by auto
    with x show ?thesis using that by blast
  qed
  show "packets_fine A (W, ps, h) (Make_Refcounted i)"
    by (rule slot_fine [OF assms(1) _ 2(2,3), of A _ r2]) (simp_all add: put_packet_def 2(1,5) same_value [of h2 P2 h ps i, OF 2(4)])
  obtain r3 P3 h3 where 3: "av_packet_make_writable A (ps i) h = Some (r3, P3, h3)" "held W {} ?V ?X P3 h3" "kept ?V ?X h h3"
    "packet_value h3 P3 = packet_value h (ps i)" "r3 \<le> 0"
  proof -
    from make_writable_held [OF f assms(2)] obtain r P h' where x: "av_packet_make_writable A (ps i) h = Some (r, P, h')" "held W {} ?V ?X P h'" "kept ?V ?X h h'"
      "packet_value h' P = packet_value h (ps i)" "r = 0 \<and> (\<exists>t. pkt_buf P = Some t \<and> exclusive h' t) \<or> r < 0 \<and> P = ps i" by (elim exE conjE) (rule that)
    then have "r \<le> 0" by auto
    with x show ?thesis using that by blast
  qed
  show "packets_fine A (W, ps, h) (Make_Writable i)"
    by (rule slot_fine [OF assms(1) _ 3(2,3), of A _ r3]) (simp_all add: put_packet_def 3(1,5) same_value [of h3 P3 h ps i, OF 3(4)])
  obtain r4 P4 h4 where 4: "put_side_data A (ps i) t ys h = Some (r4, P4, h4)" "held W {} ?V ?X P4 h4" "kept ?V ?X h h4"
    "r4 = 0 \<and> packet_value h4 P4 = (packet_value h (ps i))\<lparr>value_side := put_side t ys (value_side (packet_value h (ps i)))\<rparr> \<or>
     r4 < 0 \<and> P4 = ps i \<and> packet_value h4 (ps i) = packet_value h (ps i)" using put_side_held [OF f, of A t ys] by (elim exE conjE) (rule that)
  have run: "packet_step A (W, ps, h) (Put_Side i t ys) = Some (r4, W, ps(i := P4), h4)" by (simp add: put_packet_def 4(1))
  show "packets_fine A (W, ps, h) (Put_Side i t ys)"
  proof (rule slot_fine [OF assms(1) run 4(2,3)])
    show "packet_spec (Put_Side i t ys) r4 (memory_view W h, value_view ps h) (memory_view W h, (value_view ps h)(i := packet_value h4 P4))"
      using 4(4)
    proof (elim disjE conjE)
      assume "r4 = 0" "packet_value h4 P4 = (packet_value h (ps i))\<lparr>value_side := put_side t ys (value_side (packet_value h (ps i)))\<rparr>"
      then show ?thesis by (simp add: value_view_def)
    next
      assume "r4 < 0" "P4 = ps i" "packet_value h4 (ps i) = packet_value h (ps i)"
      then show ?thesis using same_value [of h4 "ps i" h ps i] by simp
    qed
  qed
qed

lemma writable_exclusive:
  assumes "held W H V X P h" "packet_writable P h"
  obtains r where "pkt_buf P = Some r" "av_buffer_is_writable r h = Some True" "exclusive h r"
proof -
  note d = heldD [OF assms(1)]
  obtain r where r: "pkt_buf P = Some r" "av_buffer_is_writable r h = Some True" using assms(2) by (auto simp: packet_writable_def split: option.splits)
  then obtain R where R: "refs h r = Some R" using d(2) by (auto simp: data_ok_def)
  obtain B where B: "buffers h (ref_buffer R) = Some B" by (rule heap_refs [OF owns_okD(1) [OF d(1)] R])
  show ?thesis using that r is_writable_ok [OF owns_okD(1) [OF d(1)] R B] by simp
qed

lemma packet_write_step:
  assumes "packets_ok (W, ps, h)" "packet_writable (ps i) h" "length ys \<le> nat (pkt_size (ps i))"
  shows "packets_fine A (W, ps, h) (Write i ys)"
proof -
  note f = packets_focus [OF assms(1), of i]
  let ?V = "other_blocks W ps i" and ?X = "other_refs ps i"
  obtain r where r: "pkt_buf (ps i) = Some r" "av_buffer_is_writable r h = Some True" "exclusive h r" by (rule writable_exclusive [OF f assms(2)])
  obtain h' where x: "mem_write (pkt_data (ps i)) ys h = Some h'" "held W {} ?V ?X (ps i) h'" "kept ?V ?X h h'"
    "packet_value h' (ps i) = (packet_value h (ps i))\<lparr>value_bytes := ys @ drop (length ys) (packet_bytes h (ps i))\<rparr>"
    using write_held [OF f r(1,3) assms(3)] by (elim exE conjE) (rule that)
  show ?thesis by (rule slot_fine [OF assms(1) _ x(2,3), of A _ 0]) (simp add: put_packet_def x(1) del: mem_write.simps, simp add: x(4) value_view_def)
qed

text \<open>A packet that is resized in memory that others show.\<close>

lemma packet_length: "data_ok W h P \<Longrightarrow> refs_ok h \<Longrightarrow> length (packet_bytes h P) = nat (pkt_size P)"
  by (rule data_kept(4) [OF _ kept_refl subset_refl subset_refl])

lemma packets_overwritten:
  assumes "packets_ok (W, ps, h)" "overwritten W {} (other_blocks W ps i) (ps i) Q h h'"
    and "v = (packet_value h (ps i))\<lparr>value_bytes := packet_bytes h' Q, value_fields := (packet_fields (ps i))\<lparr>pkt_size := pkt_size Q\<rparr>\<rparr>"
  shows "packets_ok (W, ps(i := Q), h')"
    "spoilt i (memory_view W h, (value_view ps h)(i := v)) (packets_view (W, ps(i := Q), h'))" "refs h' = refs h"
proof -
  let ?ps = "ps(i := Q)"
  obtain a n where o: "overwrites a h h'" "a \<in> W \<or> a \<notin> other_blocks W ps i \<union> packet_blocks (ps i)" "Q = (ps i)\<lparr>pkt_size := n\<rparr>" "data_ok W h' Q"
    "heap_ok {} (other_blocks W ps i \<union> packet_blocks (ps i)) (\<lambda>_. 0) h'" "neat (\<lambda>_. 0) h'" using assms(2) by (auto simp: overwritten_def)
  have ok: "\<And>j. packet_ok W h (ps j)" "\<And>j. W \<inter> packet_blocks (ps j) = {}" using assms(1) by (simp_all add: packets_ok.simps)
  show refs: "refs h' = refs h" using o(1) by (simp add: overwrites_def)
  have Q: "packet_refs Q = packet_refs (ps i)" "packet_blocks Q = packet_blocks (ps i)" "side_data Q = side_data (ps i)" "packet_fields Q = (packet_fields (ps i))\<lparr>pkt_size := n\<rparr>"
    by (simp_all add: o(3) packet_refs_def packet_blocks_def packet_fields_def)
  have u: "packet_refs (?ps j) = packet_refs (ps j)" "packet_blocks (?ps j) = packet_blocks (ps j)" for j using Q by simp_all
  have un: "W \<union> (\<Union>j. packet_blocks (ps j)) = other_blocks W ps i \<union> packet_blocks (ps i)"
    unfolding other_blocks_def using union_split [of "\<lambda>j. packet_blocks (ps j)" i] by blast
  have ok': "packet_ok W h' (?ps j)" for j
  proof (cases "j = i")
    case True
    have "packet_ok W h' (ps i)" using packet_ok_overwrites(2) [OF o(1)] ok(1) by simp
    then show ?thesis using True o(3,4) by (simp add: packet_ok_def)
  next
    case False
    then show ?thesis using packet_ok_overwrites(2) [OF o(1)] ok(1) by simp
  qed
  show "packets_ok (W, ?ps, h')"
    using o(5,6) ok' assms(1) unfolding packets_ok.simps u un refs by blast
  have "packet_blocks (ps j) \<subseteq> other_blocks W ps i \<union> packet_blocks (ps i)" for j by (cases "j = i") (auto simp: other_blocks_def)
  then have "a \<notin> packet_blocks (ps j)" for j using o(2) ok(2) by blast
  then have "blocks h' b = blocks h b" if "b \<in> packet_blocks (ps j)" for b j using that o(1) by (metis overwrites_def)
  then have sv: "side_values h' (side_data (ps j)) = side_values h (side_data (ps j))" for j
    using sides_kept(2) [of h "side_data (ps j)" "packet_blocks (ps j)" "{}" h'] ok(1) by (simp add: packet_ok_def kept_def packet_blocks_def)
  have ro: "refs_ok h" "refs_ok h'" using assms(1) heap_okD(2) [OF o(5)] heap_okD(2) by (auto simp: packets_ok.simps)
  have len: "length (packet_bytes h' (ps j)) = length (packet_bytes h (ps j))" if "j \<noteq> i" for j
    using packet_length [of W h' "ps j"] packet_length [of W h "ps j"] ok' [of j] ok(1) [of j] that ro by (simp add: packet_ok_def)
  have "map_option length (memory_view W h' b) = map_option length (memory_view W h b)" for b
    using o(1) by (simp add: memory_view_def overwrites_def)
  then show "spoilt i (memory_view W h, (value_view ps h)(i := v)) (packets_view (W, ?ps, h'))"
    using sv len Q(3,4) o(3) by (simp add: spoilt_def value_view_def assms(3) packet_value_def)
qed

lemma writable_after:
  assumes "overwritten W {} (other_blocks W ps i) (ps i) Q h h'" "packet_writable Q h'"
  obtains r where "pkt_buf (ps i) = Some r" "exclusive h r"
proof -
  have o: "refs h' = refs h" "heap_ok {} (other_blocks W ps i \<union> packet_blocks (ps i)) (\<lambda>_. 0) h'" "pkt_buf Q = pkt_buf (ps i)" "data_ok W h' Q"
    using assms(1) by (auto simp: overwritten_def overwrites_def)
  obtain r where r: "pkt_buf (ps i) = Some r" "av_buffer_is_writable r h' = Some True" using assms(2) o(3) by (auto simp: packet_writable_def split: option.splits)
  then obtain R where R: "refs h' r = Some R" using o(3,4) by (auto simp: data_ok_def)
  obtain B where B: "buffers h' (ref_buffer R) = Some B" by (rule heap_refs [OF o(2) R])
  have "exclusive h' r" using is_writable_ok [OF o(2) R B] r(2) by simp
  then show ?thesis using that r(1) exclusive_refs [OF o(1)] by simp
qed

lemma shrink_step:
  assumes "packets_ok (W, ps, h)" "0 \<le> n"
  shows "packets_fine A (W, ps, h) (Shrink i n)"
proof (cases "pkt_size (ps i) \<le> n")
  case True
  note f = packets_focus [OF assms(1), of i]
  note d = heldD [OF f]
  have "length (packet_bytes h (ps i)) \<le> nat n" using packet_length [OF d(2,7)] True by simp
  then have v: "packet_value h (ps i) = (packet_value h (ps i))\<lparr>value_bytes := take (nat n) (packet_bytes h (ps i)),
      value_fields := (packet_fields (ps i))\<lparr>pkt_size := min n (pkt_size (ps i))\<rparr>\<rparr>"
    using True by (simp add: packet_value_def packet_fields_def min_def)
  show ?thesis
  proof (rule slot_fine [OF assms(1) _ f kept_refl, of A _ 0])
    show "packet_step A (W, ps, h) (Shrink i n) = Some (0, W, ps(i := ps i), h)" using True by (simp add: put_packet_def av_shrink_packet_def)
    show "packet_spec (Shrink i n) 0 (memory_view W h, value_view ps h) (memory_view W h, (value_view ps h)(i := packet_value h (ps i)))"
      using v by (simp add: value_view_def)
  qed
next
  case False
  note f = packets_focus [OF assms(1), of i]
  let ?V = "other_blocks W ps i" and ?X = "other_refs ps i" and ?Q = "(ps i)\<lparr>pkt_size := n\<rparr>"
  obtain h' where x: "av_shrink_packet (ps i) n h = Some (?Q, h')" "overwritten W {} ?V (ps i) ?Q h h'"
    "packet_bytes h' ?Q = take (nat n) (packet_bytes h (ps i))" using shrink_overwrites [OF f assms(2)] False by (meson not_le)
  have run: "packet_step A (W, ps, h) (Shrink i n) = Some (0, W, ps(i := ?Q), h')" by (simp add: put_packet_def x(1))
  show ?thesis
  proof (cases "packet_writable ?Q h'")
    case True
    obtain r where r: "pkt_buf (ps i) = Some r" "exclusive h r" by (rule writable_after [OF x(2) True])
    obtain P h2 where y: "av_shrink_packet (ps i) n h = Some (P, h2)" "held W {} ?V ?X P h2" "kept ?V ?X h h2"
      "packet_value h2 P = (packet_value h (ps i))\<lparr>value_bytes := take (nat n) (packet_bytes h (ps i)),
         value_fields := (packet_fields (ps i))\<lparr>pkt_size := min n (pkt_size (ps i))\<rparr>\<rparr>"
      using shrink_held [OF f r assms(2)] by (elim exE conjE) (rule that)
    have same: "P = ?Q" "h2 = h'" using x(1) y(1) by simp_all
    show ?thesis by (rule slot_fine [OF assms(1) run y(2,3) [unfolded same]]) (simp add: y(4) [unfolded same], simp add: value_view_def)
  next
    case nw: False
    let ?v = "(packet_value h (ps i))\<lparr>value_bytes := packet_bytes h' ?Q, value_fields := (packet_fields (ps i))\<lparr>pkt_size := pkt_size ?Q\<rparr>\<rparr>"
    note o = packets_overwritten [OF assms(1) x(2) refl]
    have "packet_spec (Shrink i n) 0 (packets_view (W, ps, h)) (memory_view W h, (value_view ps h)(i := ?v))"
      using False x(3) by (simp add: value_view_def min_def)
    moreover have "exposed (Shrink i n) 0 (W, ps, h) (W, ps(i := ?Q), h') = Some i" using False nw by simp
    ultimately have "meets (Shrink i n) 0 (W, ps, h) (W, ps(i := ?Q), h')" using o(2) unfolding meets_def by fastforce
    then show ?thesis using run o(1) unfolding packets_fine_def by blast
  qed
qed

lemma grow_step:
  assumes "packets_ok (W, ps, h)" "nesting A > 0" "INT_MIN \<le> k" "k \<le> INT_MAX"
  shows "packets_fine A (W, ps, h) (Grow i k)"
proof -
  note f = packets_focus [OF assms(1), of i]
  let ?V = "other_blocks W ps i" and ?X = "other_refs ps i"
  obtain ret P h' where x: "av_grow_packet A (ps i) k h = Some (ret, P, h')" "grown W {} ?V ?X (ps i) k h ret P h'" "0 \<le> k \<or> ret < 0"
    using grow_held [OF f assms(2-4)] by (elim exE conjE) (rule that)
  have run: "packet_step A (W, ps, h) (Grow i k) = Some (ret, W, ps(i := P), h')" by (simp add: put_packet_def x(1))
  from x(2) show ?thesis
    unfolding grown_def
  proof (elim disjE exE conjE)
    fix xs assume g: "ret = 0" "held W {} ?V ?X P h'" "kept ?V ?X h h'" "length xs = nat k"
      "packet_value h' P = (packet_value h (ps i))\<lparr>value_bytes := packet_bytes h (ps i) @ xs, value_fields := (packet_fields (ps i))\<lparr>pkt_size := pkt_size (ps i) + k\<rparr>\<rparr>"
    show ?thesis by (rule slot_fine [OF assms(1) run g(2,3)]) (use g(1,4,5) in \<open>auto simp: value_view_def\<close>)
  next
    assume g: "ret < 0" "P = ps i" "held W {} ?V ?X (ps i) h'" "kept ?V ?X h h'" "packet_value h' (ps i) = packet_value h (ps i)"
    show ?thesis by (rule slot_fine [OF assms(1) run g(3,4) [folded g(2)]]) (use g(1,2,5) same_value [of h' "ps i" h ps i] in simp)
  next
    fix xs r assume g: "ret = 0" "P = (ps i)\<lparr>pkt_size := pkt_size (ps i) + k\<rparr>" "overwritten W {} ?V (ps i) P h h'" "length xs = nat k"
      "packet_bytes h' P = packet_bytes h (ps i) @ xs" "pkt_buf (ps i) = Some r" "\<not> exclusive h r"
    let ?v = "(packet_value h (ps i))\<lparr>value_bytes := packet_bytes h' P, value_fields := (packet_fields (ps i))\<lparr>pkt_size := pkt_size P\<rparr>\<rparr>"
    note o = packets_overwritten [OF assms(1) g(3) refl]
    have "\<not> packet_writable P h'" using writable_after [OF g(3)] g(6,7) by force
    then have "exposed (Grow i k) ret (W, ps, h) (W, ps(i := P), h') = Some i" using g(1,6) by simp
    moreover have "packet_spec (Grow i k) ret (packets_view (W, ps, h)) (memory_view W h, (value_view ps h)(i := ?v))"
      using g(1,2,4,5) by (auto simp: value_view_def)
    ultimately have "meets (Grow i k) ret (W, ps, h) (W, ps(i := P), h')" using o(2) unfolding meets_def by fastforce
    then show ?thesis using run o(1) unfolding packets_fine_def by blast
  qed
qed

text \<open>A blank packet gets its contents.\<close>

lemma blank_slot: "ps i = get_packet_defaults \<Longrightarrow> (value_view ps h)(i := no_value) = value_view ps h"
  by (simp add: value_view_def fun_eq_iff)

lemma fill_steps:
  assumes "packets_ok (W, ps, h)" "ps i = get_packet_defaults"
  shows "packets_fine A (W, ps, h) (New i n)"
    "a \<in> W \<Longrightarrow> 0 \<le> n \<Longrightarrow> n \<le> INT_MAX - 64 \<Longrightarrow> off + nat n + 64 \<le> length (the (blocks h a)) \<Longrightarrow> packets_fine A (W, ps, h) (Wrap i a off n)"
    "i \<noteq> s \<Longrightarrow> nesting A > 0 \<Longrightarrow> card (dom (refs h)) + 2 < 2 ^ 32 \<Longrightarrow> packets_fine A (W, ps, h) (Ref i s)"
proof -
  let ?V = "other_blocks W ps i" and ?X = "other_refs ps i"
  have f: "held W {} ?V ?X get_packet_defaults h" using packets_focus [OF assms(1), of i] assms(2) by simp
  show "packets_fine A (W, ps, h) (New i n)"
  proof -
    obtain ret P h' where x: "av_new_packet A get_packet_defaults n h = Some (ret, P, h')" "held W {} ?V ?X P h'" "kept ?V ?X h h'"
      "ret = 0 \<and> (\<exists>xs. length xs = nat n \<and> packet_value h' P = \<lparr>value_bytes = xs, value_side = [], value_opaque = None,
         value_fields = get_packet_defaults\<lparr>pkt_size := n\<rparr>\<rparr>) \<or> ret < 0 \<and> P = get_packet_defaults"
      using new_packet_held [OF f, of A n] by (elim exE conjE) (rule that)
    show ?thesis
    proof (rule slot_fine [OF assms(1) _ x(2,3), of A _ ret])
      show "packet_step A (W, ps, h) (New i n) = Some (ret, W, ps(i := P), h')" by (simp add: put_packet_def x(1) assms(2))
      show "packet_spec (New i n) ret (memory_view W h, value_view ps h) (memory_view W h, (value_view ps h)(i := packet_value h' P))"
        using x(4) blank_slot [of ps i h] assms(2) by (auto simp: value_of_data_def)
    qed
  qed
  show "packets_fine A (W, ps, h) (Wrap i a off n)" if m: "a \<in> W" "0 \<le> n" "n \<le> INT_MAX - 64" "off + nat n + 64 \<le> length (the (blocks h a))"
  proof -
    have "heap_ok {} (W \<union> (\<Union>i. packet_blocks (ps i))) (\<lambda>_. 0) h" using assms(1) by (simp add: packets_ok.simps)
    from heap_blocks [OF this, of a] m(1) obtain xs where xs: "blocks h a = Some xs" by auto
    let ?P = "get_packet_defaults\<lparr>pkt_data := Some (a, off), pkt_size := n\<rparr>"
    have read: "mem_read (Some (a, off)) (nat n) h = Some (slice off (nat n) xs)"
      "mem_read (Some (a, off)) (nat n + 64) h = Some (slice off (nat n + 64) xs)" using xs m(4) by simp_all
    have P: "packet_refs ?P = {}" "packet_blocks ?P = {}" "packet_fields ?P = get_packet_defaults\<lparr>pkt_size := n\<rparr>"
      by (simp_all add: packet_refs_def packet_blocks_def get_packet_defaults_def packet_fields_def)
    have ok: "data_ok W h ?P" using read m(1-3) by (simp add: data_ok_def del: mem_read.simps)
    have "held W {} ?V ?X ?P h" by (rule heldI) (use heldD [OF f] ok P in simp_all)
    moreover have "packet_value h ?P = value_of_data (slice off (nat n) xs) n"
      using read P by (simp add: packet_value_def value_of_data_def packet_bytes_def side_values_def del: mem_read.simps)
    ultimately show ?thesis
      by (intro slot_fine [OF assms(1) packet_step.simps(2)]) (simp_all add: assms(2) memory_view_def m(1) xs)
  qed
  show "packets_fine A (W, ps, h) (Ref i s)" if m: "i \<noteq> s" "nesting A > 0" "card (dom (refs h)) + 2 < 2 ^ 32"
  proof -
    have s: "packet_ok W h (ps s)" "packet_refs (ps s) \<subseteq> ?X" "packet_blocks (ps s) \<subseteq> ?V"
      using packets_other(1) [OF assms(1) kept_refl, of s i] m(1) by (auto simp: other_refs_def other_blocks_def)
    obtain ret P h' where x: "av_packet_ref A get_packet_defaults (ps s) h = Some (ret, P, h')" "held W {} ?V ?X P h'" "kept ?V ?X h h'"
      "ret = 0 \<and> packet_value h' P = packet_value h (ps s) \<and> pkt_buf P \<noteq> None \<or> ret < 0 \<and> P = get_packet_defaults"
      using packet_ref_held [OF f s m(3,2)] by (elim exE conjE) (rule that)
    show ?thesis
    proof (rule slot_fine [OF assms(1) _ x(2,3), of A _ ret])
      show "packet_step A (W, ps, h) (Ref i s) = Some (ret, W, ps(i := P), h')" by (simp add: put_packet_def x(1) assms(2))
      show "packet_spec (Ref i s) ret (memory_view W h, value_view ps h) (memory_view W h, (value_view ps h)(i := packet_value h' P))"
        using x(4) blank_slot [of ps i h] assms(2) by (auto simp: value_view_def)
    qed
  qed
qed

text \<open>Data of the client become those of a packet.\<close>

lemma from_data_step:
  assumes "packets_ok (W, ps, h)" "ps i = get_packet_defaults"
  shows "packets_fine A (W, ps, h) (From_Data i xs)"
proof -
  let ?V = "other_blocks W ps i" and ?X = "other_refs ps i"
  have f: "owns {} ?V ?X {} {} h" "W \<subseteq> ?V" using packets_focus [OF assms(1), of i] assms(2) by (simp_all add: held_blank)
  have "\<exists>ret P h'. packet_of_data A xs h = Some (ret, P, h') \<and> held W {} ?V ?X P h' \<and> kept ?V ?X h h' \<and>
      (ret = 0 \<and> packet_value h' P = value_of_data xs (int (length xs)) \<or> ret < 0 \<and> P = get_packet_defaults)"
  proof (cases rule: new_address_cases [of A h])
    case 1
    then have "packet_of_data A xs h = Some (AVERROR_ENOMEM, get_packet_defaults, h\<lparr>fresh := fresh h + 1\<rparr>)" by (simp add: packet_of_data_def)
    moreover have "held W {} ?V ?X get_packet_defaults (h\<lparr>fresh := fresh h + 1\<rparr>)" "kept ?V ?X h (h\<lparr>fresh := fresh h + 1\<rparr>)"
      using owns_fresh [OF f(1), of "fresh h + 1"] f(2) by (simp_all add: held_blank)
    ultimately show ?thesis by (intro exI conjI) (assumption | simp)+
  next
    case 2
    let ?a = "fresh h" and ?xs = "xs @ replicate 64 (0 :: byte)"
    let ?h = "h\<lparr>fresh := ?a + 1, blocks := (blocks h)(?a \<mapsto> ?xs)\<rparr>"
    have m: "owns {} ?V ?X {} {?a} ?h" "kept ?V ?X h ?h" using owns_malloc(1,2) [OF f(1), where xs = ?xs] by simp_all
    have b: "blocks ?h ?a = Some (xs @ replicate 64 0)" "length (replicate 64 (0 :: byte)) = 64" by simp_all
    obtain ret P h1 where r: "av_packet_from_data A get_packet_defaults (Some (?a, 0)) (int (length xs)) ?h = Some (ret, P, h1)" "kept ?V ?X ?h h1"
      "ret = 0 \<and> held W {} ?V ?X P h1 \<and> packet_value h1 P = \<lparr>value_bytes = xs, value_side = [], value_opaque = None,
         value_fields = get_packet_defaults\<lparr>pkt_size := int (length xs)\<rparr>\<rparr> \<or>
       ret < 0 \<and> P = get_packet_defaults \<and> owns {} ?V ?X {} {?a} h1 \<and> blocks h1 ?a = blocks ?h ?a"
      using from_data_held [OF m(1) f(2) b, of A] by (elim exE conjE) (rule that)
    have k: "kept ?V ?X h h1" by (rule kept_trans [OF m(2) r(2)])
    show ?thesis
    proof (cases "ret < 0")
      case True
      with r(3) have n: "P = get_packet_defaults" "owns {} ?V ?X {} (insert ?a {}) h1" by auto
      obtain h2 where h2: "mem_free (Some (?a, 0)) h1 = Some h2" "owns {} ?V ?X {} {} h2" "kept (?V \<union> {}) (?X \<union> {}) h1 h2"
        using owns_free [OF n(2)] by blast
      have k2: "kept ?V ?X h h2" by (rule kept_trans [OF k]) (use h2(3) in simp)
      have "packet_of_data A xs h = Some (ret, get_packet_defaults, h2)"
        using 2 r(1) n(1) h2(1) True by (simp add: packet_of_data_def del: mem_free.simps)
      moreover have "held W {} ?V ?X get_packet_defaults h2" using h2(2) f(2) by (simp add: held_blank)
      ultimately show ?thesis using k2 True by blast
    next
      case False
      then have "packet_of_data A xs h = Some (ret, P, h1)" using 2 r(1) by (simp add: packet_of_data_def)
      then show ?thesis using r(3) k False unfolding value_of_data_def by blast
    qed
  qed
  then obtain ret P h' where x: "packet_of_data A xs h = Some (ret, P, h')" "held W {} ?V ?X P h'" "kept ?V ?X h h'"
    "ret = 0 \<and> packet_value h' P = value_of_data xs (int (length xs)) \<or> ret < 0 \<and> P = get_packet_defaults" by (elim exE conjE) (rule that)
  show ?thesis
  proof (rule slot_fine [OF assms(1) _ x(2,3), of A _ ret])
    show "packet_step A (W, ps, h) (From_Data i xs) = Some (ret, W, ps(i := P), h')" by (simp add: put_packet_def x(1))
    show "packet_spec (From_Data i xs) ret (memory_view W h, value_view ps h) (memory_view W h, (value_view ps h)(i := packet_value h' P))"
      using x(4) blank_slot [of ps i h] assms(2) by auto
  qed
qed

text \<open>A move exchanges a packet with a blank one.\<close>

lemma swap_union:
  assumes "ps' = (\<lambda>i. ps (if i = d then s else if i = s then d else i))" "d \<noteq> s"
  shows "(\<Union>i. f (ps' i)) = (\<Union>i. f (ps i))"
proof
  show "(\<Union>i. f (ps i)) \<subseteq> (\<Union>i. f (ps' i))"
  proof
    fix x assume "x \<in> (\<Union>i. f (ps i))"
    then obtain i where i: "x \<in> f (ps i)" by blast
    have "ps i = ps' (if i = d then s else if i = s then d else i)" using assms by simp
    with i show "x \<in> (\<Union>i. f (ps' i))" by (metis UN_I UNIV_I)
  qed
qed (auto simp: assms(1))

lemma move_step:
  assumes "packets_ok (W, ps, h)" "ps d = get_packet_defaults" "d \<noteq> s"
  shows "packets_fine A (W, ps, h) (Move d s)"
proof -
  let ?ps = "ps(d := ps s, s := get_packet_defaults)" and ?t = "\<lambda>i. if i = d then s else if i = s then d else i"
  have ps: "?ps = (\<lambda>i. ps (?t i))" using assms(2,3) by (auto simp: fun_eq_iff)
  have inj: "?t i \<noteq> ?t j" if "i \<noteq> j" for i j using that assms(3) by auto
  have "packets_ok (W, ?ps, h)"
    unfolding packets_ok.simps swap_union [OF ps assms(3)] using assms(1) inj unfolding packets_ok.simps ps by (intro conjI allI impI) blast+
  moreover have "value_view ?ps h = (value_view ps h)(d := value_view ps h s, s := no_value)" by (auto simp: value_view_def fun_eq_iff)
  ultimately show ?thesis unfolding packets_fine_def
    by (intro exI [of _ 0] exI [of _ "(W, ?ps, h)"]) (simp add: av_packet_move_ref_def meetsI)
qed

lemma packet_ok_mono:
  assumes "packet_ok W h P" "W \<subseteq> W'"
  shows "packet_ok W' h P"
proof -
  have "data_ok W' h P" using assms by (cases "pkt_buf P") (auto simp: packet_ok_def data_ok_def simp del: mem_read.simps)
  then show ?thesis using assms(1) by (simp add: packet_ok_def)
qed

lemma memory_step:
  assumes "packets_ok (W, ps, h)"
  shows "packets_fine A (W, ps, h) (User_Memory xs)"
proof -
  let ?U = "W \<union> (\<Union>i. packet_blocks (ps i))"
  have ok: "heap_ok {} ?U (\<lambda>_. 0) h" "neat (\<lambda>_. 0) h" "dom (refs h) = (\<Union>i. packet_refs (ps i))" using assms by (simp_all add: packets_ok.simps)
  have other: "packet_ok W h' (ps i)" "packet_value h' (ps i) = packet_value h (ps i)" if "kept ?U (\<Union>i. packet_refs (ps i)) h h'" for h' i
  proof -
    have p: "packet_ok W h (ps i)" using assms by (simp add: packets_ok.simps)
    have "W \<subseteq> ?U" "packet_refs (ps i) \<subseteq> (\<Union>i. packet_refs (ps i))" "packet_blocks (ps i) \<subseteq> ?U" by auto
    from packet_kept [OF p that this heap_okD(2) [OF ok(1)]]
    show "packet_ok W h' (ps i)" "packet_value h' (ps i) = packet_value h (ps i)" by simp_all
  qed
  show ?thesis
  proof (cases rule: new_address_cases [of A h])
    case 1
    let ?h = "h\<lparr>fresh := fresh h + 1\<rparr>"
    note f = heap_fresh [OF ok(1), of "fresh h + 1"]
    have "kept ?U (\<Union>i. packet_refs (ps i)) h ?h" using f(2) by (simp add: kept_def)
    note o = other [OF this]
    have "packets_ok (W, ps, ?h)" using f(1,3) ok(2) o(1) assms unfolding packets_ok.simps by simp
    moreover have "value_view ps ?h = value_view ps h" "memory_view W ?h = memory_view W h" using o(2) by (simp_all add: value_view_def memory_view_def fun_eq_iff)
    ultimately show ?thesis unfolding packets_fine_def
      by (intro exI [of _ AVERROR_ENOMEM] exI [of _ "(W, ps, ?h)"]) (simp add: 1 meetsI)
  next
    case 2
    let ?a = "fresh h"
    let ?h = "h\<lparr>fresh := ?a + 1, blocks := (blocks h)(?a \<mapsto> xs)\<rparr>"
    note f = heap_malloc [OF ok(1), of ?a "?a + 1" xs]
    have new: "?a \<notin> ?U" using fresh_block [OF ok(1), of ?a] by simp
    have "kept ?U (\<Union>i. packet_refs (ps i)) h ?h" using f(2) new by (auto simp: kept_def)
    note o = other [OF this]
    have "packet_ok (insert ?a W) ?h (ps i)" for i by (rule packet_ok_mono [OF o(1)]) auto
    then have "packets_ok (insert ?a W, ps, ?h)" using f(1,3) ok(2) new assms unfolding packets_ok.simps by simp
    moreover have "value_view ps ?h = value_view ps h" using o(2) by (simp add: value_view_def)
    moreover have "memory_view (insert ?a W) ?h = (memory_view W h)(?a \<mapsto> xs)" "memory_view W h ?a = None" using new by (auto simp: memory_view_def fun_eq_iff)
    ultimately show ?thesis unfolding packets_fine_def
      by (intro exI [of _ 0] exI [of _ "(insert ?a W, ps, ?h)"]) (auto simp: 2 intro!: meetsI)
  qed
qed

lemma packet_step_ok:
  assumes "packets_ok (W, ps, h)" "card (dom (refs h)) + 2 < 2 ^ 32" "packet_may (W, ps, h) x" "nesting A > 0"
  shows "packets_fine A (W, ps, h) x"
proof -
  note release = release_steps [OF assms(1,4)] and fields = field_steps [OF assms(1)] and fill = fill_steps [OF assms(1)]
  show ?thesis
  proof (cases x)
    case (Ref d s)
    then show ?thesis using fill(3) [of d s] assms(2-4) by simp
  next
    case (Wrap i a off n)
    then show ?thesis using fill(2) [of i] assms(3) by simp
  next
    case (Shrink i n)
    then show ?thesis using shrink_step [OF assms(1)] assms(3) by simp
  next
    case (Grow i k)
    then show ?thesis using grow_step [OF assms(1,4)] assms(3) by simp
  next
    case (Write i ys)
    then show ?thesis using packet_write_step [OF assms(1)] assms(3) by simp
  qed (use assms(3) release fields fill(1) from_data_step [OF assms(1)] move_step [OF assms(1)] memory_step [OF assms(1)] attach_step [OF assms(1)] in simp_all)
qed

lemma packets_start: "packets_ok ({}, \<lambda>_. get_packet_defaults, empty_heap)"
proof -
  have "heap_ok {} {} (\<lambda>_. 0) empty_heap" "neat (\<lambda>_. 0) empty_heap" using empty_heap_ok by (simp_all add: client_ok_def)
  moreover have "refs empty_heap = Map.empty" by (simp add: empty_heap_def)
  moreover have "packet_ok {} empty_heap get_packet_defaults" by (simp add: packet_ok_def data_ok_def sides_ok_def)
  ultimately show ?thesis by (simp add: packets_ok.simps)
qed

lemma packet_reach_ok:
  assumes "nesting A > 0" "packet_reach A s"
  shows "packets_ok s"
  using assms(2)
proof (induction rule: packet_reach.induct)
  case start
  show ?case by (rule packets_start)
next
  case (step W ps h x ret s)
  obtain t s' where "packet_step A (W, ps, h) x = Some (t, s')" "packets_ok s'"
    using packet_step_ok [OF step.IH step.hyps(2,3) assms(1)] unfolding packets_fine_def by blast
  then show ?case using step.hyps(4) by simp
qed

end
