(* ===== verification/Packet_Values.thy ===== *)
theory Packet_Values
  imports Packet_Client
begin

text \<open>
  What clients of packets can rely on, and what they cannot: shrinking, and growing to the size that a
  shared buffer has already, writes the padding into bytes that other packets show.
\<close>

section \<open>A small run\<close>

fun packet_run :: "env \<Rightarrow> packet_call list \<Rightarrow> packets \<Rightarrow> packets option" where
  "packet_run A [] s = Some s"
| "packet_run A (x # xs) s =
     (if card (dom (refs (snd (snd s)))) + 2 < 2 ^ 32 \<and> packet_may s x
      then (case packet_step A s x of None \<Rightarrow> None | Some (ret, s) \<Rightarrow> packet_run A xs s) else None)"

lemma packet_run_reach: "packet_run A xs s = Some s' \<Longrightarrow> packet_reach A s \<Longrightarrow> packet_reach A s'"
proof (induction xs arbitrary: s)
  case (Cons x xs)
  obtain W ps h where s: "s = (W, ps, h)" by (cases s)
  from Cons.prems(1) obtain ret t where "card (dom (refs h)) + 2 < 2 ^ 32" "packet_may (W, ps, h) x" "packet_step A (W, ps, h) x = Some (ret, t)"
    "packet_run A xs t = Some s'" by (auto simp: s split: if_splits option.splits)
  then show ?case using Cons.IH Cons.prems(2) packet_reach.step unfolding s by blast
qed simp

definition packet_demo_fields :: AVPacket where
  "packet_demo_fields = get_packet_defaults\<lparr>pts := 90, stream_index := 3, pkt_flags := 1, pkt_pos := 12, pkt_opaque := 8,
     pkt_time_base := \<lparr>num = 1, den = 25\<rparr>\<rparr>"

lemmas packet_evals = buffer_evals Let_def av_realloc_def av_buffer_replace_def av_new_packet_def packet_alloc_def zero_padding_def ptr_add_def av_buffer_realloc_def buffer_realloc_new_def
  av_packet_ref_def set_fields_def packet_demo_fields_def attach_opaque_def av_packet_copy_props_def av_packet_unref_def av_packet_free_side_data_def get_packet_defaults_def
  put_packet_def packet_writable_def AV_INPUT_BUFFER_PADDING_SIZE_def set_flag_def BUFFER_FLAG_REALLOCATABLE_def

definition packet_demo_calls :: "packet_call list" where
  "packet_demo_calls = [New 0 2, Write 0 [5, 6], Set_Fields 0 packet_demo_fields, Attach 0 [7], Ref 1 0]"

definition packet_demo :: packets where
  "packet_demo = the (packet_run buffer_demo_env packet_demo_calls ({}, \<lambda>_. get_packet_defaults, empty_heap))"

lemma packet_demo_run: "packet_run buffer_demo_env packet_demo_calls ({}, \<lambda>_. get_packet_defaults, empty_heap) = Some packet_demo"
  by (simp add: packet_demo_def packet_demo_calls_def packet_evals slice_def splice_def)

lemma packet_demo_reach: "packet_reach buffer_demo_env packet_demo"
  by (rule packet_run_reach [OF packet_demo_run packet_reach.start])

lemma packet_demo_heap: "refs (snd (snd packet_demo)) = [2 \<mapsto> \<lparr>ref_buffer = Own 1, ref_data = Some (0, 0), ref_size = 66\<rparr>,
    5 \<mapsto> \<lparr>ref_buffer = Own 4, ref_data = Some (3, 0), ref_size = 1\<rparr>, 6 \<mapsto> \<lparr>ref_buffer = Own 4, ref_data = Some (3, 0), ref_size = 1\<rparr>,
    7 \<mapsto> \<lparr>ref_buffer = Own 1, ref_data = Some (0, 0), ref_size = 66\<rparr>]" "blocks (snd (snd packet_demo)) = [0 \<mapsto> 5 # 6 # replicate 64 0, 3 \<mapsto> [7]]"
  by (simp_all add: packet_demo_def packet_demo_calls_def packet_evals slice_def splice_def, simp_all add: eval_nat_numeral)

lemma packet_demo_card: "card (dom (refs (snd (snd packet_demo)))) + 2 < 2 ^ 32"
  by (simp add: packet_demo_heap)

lemma packet_demo_packets: "fst packet_demo = {}" "pkt_buf (fst (snd packet_demo) 0) = Some 2" "pkt_buf (fst (snd packet_demo) 1) = Some 7"
  "pkt_data (fst (snd packet_demo) 1) = Some (0, 0)" "pkt_size (fst (snd packet_demo) 1) = 2" "side_data (fst (snd packet_demo) 1) = []"
  by (simp_all add: packet_demo_def packet_demo_calls_def packet_evals slice_def splice_def)

lemma packet_demo_state: obtains ps h where "packet_demo = ({}, ps, h)" "packet_reach buffer_demo_env ({}, ps, h)"
proof -
  obtain W ps h where s: "packet_demo = (W, ps, h)" by (cases packet_demo)
  have "W = {}" using packet_demo_packets(1) unfolding s by simp
  then show ?thesis using that packet_demo_reach unfolding s by blast
qed

lemma packet_demo_few: "packet_demo = (W, ps, h) \<Longrightarrow> card (dom (refs h)) + 2 < 2 ^ 32"
  using packet_demo_card by (metis snd_conv)

section \<open>What clients can rely on\<close>





text \<open>
  Property C36: in every state that a client can reach, the data of a packet with a buffer are followed
  by 64 bytes of padding that may be read, as the optimised readers of the decoders do, and the types
  of its side data are distinct.
\<close>

theorem packet_data_padded:
  assumes "nesting A > 0" "packet_reach A (W, ps, h)" "pkt_buf (ps i) \<noteq> None"
  shows "0 \<le> pkt_size (ps i) \<and> (\<exists>xs. mem_read (pkt_data (ps i)) (nat (pkt_size (ps i)) + 64) h = Some xs) \<and> distinct (map sd_type (side_data (ps i)))"
proof -
  note d = heldD [OF packets_focus [OF packet_reach_ok [OF assms(1,2)], of i]]
  obtain r where r: "pkt_buf (ps i) = Some r" using assms(3) by blast
  obtain R a j k ys where w: "window h r R a j k ys" "pkt_data (ps i) = Some (a, j + k)" "0 \<le> pkt_size (ps i)" "k + nat (pkt_size (ps i)) + 64 \<le> ref_size R"
    by (rule data_window [OF d(2) r d(7)])
  have "mem_read (Some (a, j + k)) (nat (pkt_size (ps i)) + 64) h = Some (slice k (nat (pkt_size (ps i)) + 64) ys)"
    using w(1,4) by (intro buffer_bytes [of h r R]) (simp_all add: window_def)
  then show ?thesis using w(2,3) d(3) unfolding sides_ok_def by metis
qed

theorem packet_data_padded_witness: "\<exists>xs. mem_read (Some (0, 0)) 66 (snd (snd packet_demo)) = Some xs"
proof -
  obtain ps h where s: "packet_demo = ({}, ps, h)" "packet_reach buffer_demo_env ({}, ps, h)" by (rule packet_demo_state)
  have "nesting buffer_demo_env > 0" by (simp add: buffer_demo_env_def)
  from packet_data_padded [OF this s(2), of 1] show ?thesis using packet_demo_packets unfolding s(1) by (simp del: mem_read.simps)
qed

text \<open>
  Property C35: nothing leaks: in every state that a client can reach, once all its packets are blank no
  reference and no buffer is left, and no memory but its own.
\<close>

theorem packets_leave_nothing:
  assumes "nesting A > 0" "packet_reach A (W, ps, h)" "\<And>i. ps i = get_packet_defaults"
  shows "refs h = Map.empty \<and> buffers h = Map.empty \<and> dom (blocks h) = W"
proof -
  have ok: "packets_ok (W, ps, h)" by (rule packet_reach_ok [OF assms(1,2)])
  have "heap_ok {} W (\<lambda>_. 0) h" "neat (\<lambda>_. 0) h" "dom (refs h) = {}" using ok assms(3) by (simp_all add: packets_ok.simps)
  moreover from this(3) have "refs h = Map.empty" by (simp add: dom_eq_empty_conv)
  ultimately show ?thesis using heap_empty by blast
qed

theorem packets_leave_nothing_witness:
  "\<exists>ps h. packet_reach buffer_demo_env ({}, ps, h) \<and> packet_run buffer_demo_env [New 0 2, Attach 0 [7], Ref 1 0, Unref 1, Unref 0]
       ({}, \<lambda>_. get_packet_defaults, empty_heap) = Some ({}, ps, h) \<and> refs h = Map.empty \<and> dom (blocks h) = {}"
proof -
  let ?run = "packet_run buffer_demo_env [New 0 2, Attach 0 [7], Ref 1 0, Unref 1, Unref 0] ({}, \<lambda>_. get_packet_defaults, empty_heap)"
  have "\<exists>ps h. ?run = Some ({}, ps, h) \<and> (\<forall>i. ps i = get_packet_defaults)"
    by (simp add: packet_evals slice_def splice_def)
  then obtain ps h where r: "?run = Some ({}, ps, h)" "\<And>i. ps i = get_packet_defaults" by blast
  have n: "nesting buffer_demo_env > 0" by (simp add: buffer_demo_env_def)
  have "packet_reach buffer_demo_env ({}, ps, h)" by (rule packet_run_reach [OF r(1) packet_reach.start])
  from this packets_leave_nothing [OF n this r(2)] r(1) show ?thesis by blast
qed

section \<open>Padding in a buffer that is shared\<close>

text \<open>
  \<open>av_shrink_packet\<close> writes the padding behind the new end into the buffer, whoever else shows it. Here
  two packets share three bytes; one of them is cut to one byte.
\<close>

lemma shrink_overwrites_shared_bytes:
  "\<exists>ps h P h'. packet_run buffer_demo_env [New 0 3, Write 0 [1, 2, 3], Ref 1 0] ({}, \<lambda>_. get_packet_defaults, empty_heap) = Some ({}, ps, h) \<and>
     av_shrink_packet (ps 1) 1 h = Some (P, h') \<and> packet_bytes h (ps 0) = [1, 2, 3] \<and> packet_bytes h' (ps 0) = [1, 0, 0]"
  by (simp add: packet_evals av_shrink_packet_def packet_bytes_def slice_def splice_def, simp add: eval_nat_numeral)

text \<open>
  When the size asked for, with the reserve that \<open>av_grow_packet\<close> adds, is that of the buffer, then
  \<open>av_buffer_realloc\<close> returns at once (buffer.c, line 206), also for a buffer that is shared. The
  padding then overwrites what the other reference shows. Here two packets share 21 bytes; one of
  them is cut to 10 bytes and grown by 6.
\<close>

lemma grow_overwrites_shared_bytes:
  "\<exists>ps h P h'. packet_run buffer_demo_env [New 0 21, Write 0 (replicate 21 1), Ref 1 0] ({}, \<lambda>_. get_packet_defaults, empty_heap) = Some ({}, ps, h) \<and>
     av_grow_packet buffer_demo_env ((ps 1)\<lparr>pkt_size := 10\<rparr>) 6 h = Some (0, P, h') \<and>
     packet_bytes h (ps 0) = replicate 21 1 \<and> packet_bytes h' (ps 0) = replicate 16 1 @ replicate 5 0"
  by (simp add: packet_evals av_grow_packet_def grow_buffer_def ptr_diff_def u64i_def c_div_def packet_bytes_def slice_def splice_def)

end
