(* ===== verification/Packet_List.thy ===== *)
theory Packet_List
  imports Packet_Values
begin

text \<open>
  The linked lists of packets of \<open>packet.c\<close> are queues: putting appends a packet, or prepends it, getting
  takes the first one, and freeing releases all of them.
\<close>

section \<open>Linked lists and sequences\<close>

fun links :: "(nat \<rightharpoonup> PacketListEntry) \<Rightarrow> nat option \<Rightarrow> nat list \<Rightarrow> bool" where
  "links en p [] = (p = None)"
| "links en p (e # es) = (p = Some e \<and> (\<exists>E. en e = Some E \<and> links en (entry_next E) es))"

definition last_entry :: "nat list \<Rightarrow> nat option" where
  "last_entry es = (if es = [] then None else Some (last es))"

definition linked :: "PacketList \<Rightarrow> nat list \<Rightarrow> bool" where
  "linked L es \<longleftrightarrow> links (list_entries L) (list_head L) es \<and> list_tail L = last_entry es \<and> distinct es \<and> dom (list_entries L) = set es"

definition list_slots :: "(nat \<rightharpoonup> PacketListEntry) \<Rightarrow> nat \<Rightarrow> AVPacket" where
  "list_slots en e = (case en e of None \<Rightarrow> get_packet_defaults | Some E \<Rightarrow> entry_pkt E)"

lemma links_upd: "e \<notin> set es \<Longrightarrow> links (en(e := x)) p es = links en p es"
  by (induction es arbitrary: p) auto

lemma links_in: "links en p es \<Longrightarrow> e \<in> set es \<Longrightarrow> \<exists>E. en e = Some E"
  by (induction es arbitrary: p) auto

text \<open>The last entry gets a successor.\<close>

lemma links_snoc:
  assumes "links en p es" "es \<noteq> []" "distinct es" "en (last es) = Some T" "e \<notin> set es" "en' = en(e \<mapsto> E, last es \<mapsto> T\<lparr>entry_next := Some e\<rparr>)" "entry_next E = None"
  shows "links en' p (es @ [e])"
  using assms
proof (induction es arbitrary: p)
  case (Cons a es)
  show ?case
  proof (cases es)
    case Nil
    then show ?thesis using Cons.prems by auto
  next
    case (Cons b bs)
    then have "a \<noteq> last es" "a \<noteq> e" using Cons.prems(3,5) by auto
    moreover obtain A where A: "en a = Some A" "links en (entry_next A) es" using Cons.prems(1) by auto
    moreover have "links en' (entry_next A) (es @ [e])" using Cons.IH [OF A(2)] Cons.prems Cons by simp
    ultimately show ?thesis using Cons.prems(1,6) Cons by auto
  qed
qed simp

lemma link_entry_linked:
  assumes "linked L es" "list_entries L e = None"
  shows "\<exists>L'. link_entry L e P flags = Some L' \<and> linked L' (if has_flag flags FF_PACKETLIST_FLAG_PREPEND then e # es else es @ [e]) \<and>
    list_slots (list_entries L') = (list_slots (list_entries L))(e := P)"
proof -
  have L: "links (list_entries L) (list_head L) es" "list_tail L = last_entry es" "distinct es" "dom (list_entries L) = set es"
    using assms(1) by (simp_all add: linked_def)
  have new: "e \<notin> set es" using assms(2) L(4) by auto
  show ?thesis
  proof (cases es)
    case Nil
    then have n: "list_head L = None" "list_entries L = Map.empty" using L(1,4) dom_eq_empty_conv by auto
    then show ?thesis using Nil by (simp add: link_entry_def linked_def last_entry_def list_slots_def fun_eq_iff n(2))
  next
    case (Cons a as)
    then have head: "list_head L = Some a" using L(1) by simp
    show ?thesis
    proof (cases "has_flag flags FF_PACKETLIST_FLAG_PREPEND")
      case True
      let ?L = "L\<lparr>list_head := Some e, list_entries := (list_entries L)(e \<mapsto> \<lparr>entry_next = Some a, entry_pkt = P\<rparr>)\<rparr>"
      have "link_entry L e P flags = Some ?L" using head True by (simp add: link_entry_def)
      moreover have "links (list_entries ?L) (Some e) (e # es)" using links_upd [OF new] L(1) head by simp
      then have "linked ?L (e # es)" using L(2-4) new Cons by (simp add: linked_def last_entry_def)
      moreover have "list_slots (list_entries ?L) = (list_slots (list_entries L))(e := P)" by (simp add: list_slots_def fun_eq_iff)
      ultimately show ?thesis using True by auto
    next
      case False
      have "last es \<in> set es" using Cons by simp
      then obtain T where T: "list_entries L (last es) = Some T" using links_in [OF L(1)] by blast
      have ne: "last es \<noteq> e" using new \<open>last es \<in> set es\<close> by auto
      let ?en = "(list_entries L)(e \<mapsto> \<lparr>entry_next = None, entry_pkt = P\<rparr>, last es \<mapsto> T\<lparr>entry_next := Some e\<rparr>)"
      let ?L = "L\<lparr>list_tail := Some e, list_entries := ?en\<rparr>"
      have "list_tail L = Some (last es)" using L(2) Cons by (simp add: last_entry_def)
      then have "link_entry L e P flags = Some ?L" using head False T by (simp add: link_entry_def)
      moreover have "links ?en (list_head L) (es @ [e])"
        by (rule links_snoc [OF L(1) _ L(3) T new refl]) (use Cons in simp_all)
      then have "linked ?L (es @ [e])" using L(3,4) new \<open>last es \<in> set es\<close> by (auto simp: linked_def last_entry_def)
      moreover have "list_slots ?en = (list_slots (list_entries L))(e := P)" using T ne by (simp add: list_slots_def fun_eq_iff)
      ultimately show ?thesis using False by auto
    qed
  qed
qed

lemma list_get_linked:
  assumes "linked L (e # es)"
  shows "\<exists>L'. avpriv_packet_list_get L pkt = Some (0, L', list_slots (list_entries L) e) \<and> linked L' es \<and>
    list_slots (list_entries L') = (list_slots (list_entries L))(e := get_packet_defaults)"
proof -
  obtain E where E: "list_head L = Some e" "list_entries L e = Some E" "links (list_entries L) (entry_next E) es" using assms by (auto simp: linked_def)
  have o: "distinct (e # es)" "list_tail L = Some (if es = [] then e else last es)" "dom (list_entries L) = insert e (set es)"
    using assms by (simp_all add: linked_def last_entry_def)
  let ?L = "L\<lparr>list_head := entry_next E, list_tail := (if entry_next E = None then None else list_tail L), list_entries := (list_entries L)(e := None)\<rparr>"
  have "avpriv_packet_list_get L pkt = Some (0, ?L, list_slots (list_entries L) e)" using E by (simp add: avpriv_packet_list_get_def list_slots_def)
  moreover have "links (list_entries ?L) (entry_next E) es" using E(3) o(1) by (simp add: links_upd)
  moreover have "entry_next E = None \<longleftrightarrow> es = []" using E(3) by (cases es) auto
  ultimately show ?thesis using o by (intro exI [of _ ?L]) (auto simp: linked_def last_entry_def list_slots_def fun_eq_iff)
qed

section \<open>Lists in the heap\<close>

text \<open>The packet of the caller and those of the list are the packets of one client.\<close>

definition queue_slots :: "(nat \<rightharpoonup> PacketListEntry) \<Rightarrow> AVPacket \<Rightarrow> nat \<Rightarrow> AVPacket" where
  "queue_slots en pkt n = (case n of 0 \<Rightarrow> pkt | Suc e \<Rightarrow> list_slots en e)"

lemma queue_slots_simps [simp]: "queue_slots en pkt 0 = pkt" "queue_slots en pkt (Suc e) = list_slots en e"
  "(queue_slots en pkt)(0 := P) = queue_slots en P"
  by (auto simp: queue_slots_def fun_eq_iff split: nat.split)

lemma queue_slots_upd: "list_slots en' = (list_slots en)(e := P) \<Longrightarrow> (queue_slots en pkt)(Suc e := P) = queue_slots en' pkt"
  by (auto simp: queue_slots_def fun_eq_iff split: nat.split)

text \<open>The list holds packets with the values \<open>vs\<close>, in this order; \<open>pkt\<close> is the packet of the caller.\<close>

definition list_ok :: "nat set \<Rightarrow> PacketList \<Rightarrow> AVPacket \<Rightarrow> packet_value list \<Rightarrow> heap \<Rightarrow> bool" where
  "list_ok W L pkt vs h \<longleftrightarrow> (\<exists>es. linked L es \<and> (\<forall>e\<in>set es. e < fresh h) \<and> packets_ok (W, queue_slots (list_entries L) pkt, h) \<and>
     vs = map (\<lambda>e. packet_value h (list_slots (list_entries L) e)) es)"

lemma packets_fresh:
  assumes "packets_ok (W, ps, h)" "fresh h \<le> m"
  shows "packets_ok (W, ps, h\<lparr>fresh := m\<rparr>)" "packet_value (h\<lparr>fresh := m\<rparr>) (ps i) = packet_value h (ps i)"
proof -
  note f = packets_focus [OF assms(1), of i] and d = heldD [OF packets_focus [OF assms(1), of i]]
  let ?h = "h\<lparr>fresh := m\<rparr>"
  have k: "kept Y Z h ?h" for Y Z by (rule owns_fresh(2) [OF d(1) assms(2)])
  note p = packet_kept [OF d(6) k [of UNIV UNIV] subset_UNIV subset_UNIV subset_UNIV d(7)]
  have "held W {} (other_blocks W ps i) (other_refs ps i) (ps i) ?h"
    using owns_fresh(1) [OF d(1) assms(2)] p(1) d(5) by (simp add: held_def)
  from packets_unfocus(1) [OF assms(1) this k] show "packets_ok (W, ps, ?h)" by simp
  show "packet_value ?h (ps i) = packet_value h (ps i)" by (rule p(2))
qed

lemma packets_move:
  assumes "packets_ok (W, ps, h)" "ps d = get_packet_defaults" "d \<noteq> s"
  shows "packets_ok (W, ps(d := ps s, s := get_packet_defaults), h)"
  using move_step [OF assms, of undefined] by (simp add: packets_fine_def av_packet_move_ref_def)

text \<open>Addresses are given out once.\<close>

lemma memcpy_fresh: "memcpy dst src n h = Some h' \<Longrightarrow> fresh h' = fresh h"
  by (cases dst) (auto simp: memcpy_def split: bind_splits option.splits if_splits)

lemma allocated_le: "allocated fi n h res h' \<Longrightarrow> fresh h \<le> fresh h'"
  by (auto simp: allocated_def split: option.splits)

lemma make_refcounted_le:
  assumes "av_packet_make_refcounted A P h = Some (ret, P', h')" "bounded h"
  shows "fresh h \<le> fresh h'"
proof (cases "pkt_buf P")
  case (Some r)
  then show ?thesis using assms(1) by (simp add: av_packet_make_refcounted_def)
next
  case None
  have pa: "fresh h \<le> fresh h1" if x: "packet_alloc A None n h = Some (r, b, h1)" for n r b h1
  proof (cases "n < 0 \<or> n \<ge> INT_MAX - AV_INPUT_BUFFER_PADDING_SIZE")
    case True
    then show ?thesis using x by (simp add: packet_alloc_def)
  next
    case False
    obtain r2 b2 h2 where s: "buffer_realloc_new A (nat (n + AV_INPUT_BUFFER_PADDING_SIZE)) h = Some (r2, b2, h2)"
      "allocated (set_flag 0 BUFFER_FLAG_REALLOCATABLE) (nat (n + AV_INPUT_BUFFER_PADDING_SIZE)) h b2 h2"
      using realloc_new_shape [OF assms(2), of A "nat (n + AV_INPUT_BUFFER_PADDING_SIZE)"] by blast
    have "fresh h1 = fresh h2"
      using x False s(1) by (auto simp: packet_alloc_def av_buffer_realloc_def zero_padding_def ptr_add_def split: bind_splits option.splits if_splits)
    then show ?thesis using allocated_le [OF s(2)] by simp
  qed
  have "\<exists>r b d. copy_to_buffer A P h = Some (r, b, d, h')"
    using assms(1) None by (auto simp: av_packet_make_refcounted_def split: bind_splits if_splits)
  then obtain r b d where c: "copy_to_buffer A P h = Some (r, b, d, h')" by blast
  obtain r1 b1 h1 where a: "packet_alloc A None (pkt_size P) h = Some (r1, b1, h1)"
    using c by (auto simp: copy_to_buffer_def split: bind_splits)
  have "fresh h' = fresh h1" using c a memcpy_fresh by (auto simp: copy_to_buffer_def split: bind_splits if_splits)
  then show ?thesis using pa [OF a] by simp
qed

lemma packets_bounded: "packets_ok (W, ps, h) \<Longrightarrow> bounded h"
  by (simp add: packets_ok.simps) (metis heap_okD(1) objects_okD(1))

lemma list_put_ok:
  assumes "list_ok W L pkt vs h"
  shows "\<exists>ret L' pkt' h'. avpriv_packet_list_put A L pkt None flags h = Some (ret, L', pkt', h') \<and>
    (ret = 0 \<and> pkt' = get_packet_defaults \<and>
       list_ok W L' pkt' (if has_flag flags FF_PACKETLIST_FLAG_PREPEND then packet_value h pkt # vs else vs @ [packet_value h pkt]) h' \<or>
     ret < 0 \<and> list_ok W L' pkt' vs h' \<and> packet_value h' pkt' = packet_value h pkt)"
proof -
  obtain es where es: "linked L es" "\<forall>e\<in>set es. e < fresh h" "packets_ok (W, queue_slots (list_entries L) pkt, h)"
    "vs = map (\<lambda>e. packet_value h (list_slots (list_entries L) e)) es" using assms by (auto simp: list_ok_def)
  let ?e = "fresh h" and ?h = "h\<lparr>fresh := fresh h + 1\<rparr>" and ?qs = "queue_slots (list_entries L) pkt"
  note f = packets_fresh [OF es(3), of "fresh h + 1"]
  have ok1: "packets_ok (W, ?qs, ?h)" using f(1) by simp
  have val1: "packet_value ?h pkt = packet_value h pkt" "packet_value ?h (list_slots (list_entries L) e) = packet_value h (list_slots (list_entries L) e)" for e
    using f(2) [of 0] f(2) [of "Suc e"] by simp_all
  have list1: "list_ok W L pkt vs ?h" using es ok1 val1 unfolding list_ok_def by (intro exI [of _ es]) auto
  show ?thesis
  proof (cases rule: new_address_cases [of A h])
    case 1
    then have "avpriv_packet_list_put A L pkt None flags h = Some (AVERROR_ENOMEM, L, pkt, ?h)" by (simp add: avpriv_packet_list_put_def)
    then show ?thesis using list1 val1 by (intro exI [of _ AVERROR_ENOMEM] exI [of _ L] exI [of _ pkt] exI [of _ ?h]) simp
  next
    case 2
    have held: "held W {} (other_blocks W ?qs 0) (other_refs ?qs 0) pkt ?h" using packets_focus [OF ok1, of 0] by simp
    obtain ret P h' where r: "av_packet_make_refcounted A pkt ?h = Some (ret, P, h')" "held W {} (other_blocks W ?qs 0) (other_refs ?qs 0) P h'"
      "kept (other_blocks W ?qs 0) (other_refs ?qs 0) ?h h'" "packet_value h' P = packet_value ?h pkt" "ret = 0 \<and> pkt_buf P \<noteq> None \<or> ret < 0 \<and> P = pkt"
      using make_refcounted_held [OF held, of A] by (elim exE conjE) (rule that)
    note u = packets_unfocus [OF ok1 r(2,3)]
    have ok2: "packets_ok (W, queue_slots (list_entries L) P, h')" using u(1) by simp
    have val2: "packet_value h' (list_slots (list_entries L) e) = packet_value h (list_slots (list_entries L) e)" for e
      using fun_cong [OF u(3), of "Suc e"] val1(2) by (simp add: value_view_def)
    have le: "fresh h < fresh h'" using make_refcounted_le [OF r(1) packets_bounded [OF ok1]] by simp
    then have b: "\<forall>e\<in>set es. e < fresh h'" using es(2) by auto
    have vs: "vs = map (\<lambda>e. packet_value h' (list_slots (list_entries L) e)) es" using es(4) val2 by simp
    show ?thesis
    proof (cases "ret < 0")
      case True
      have "avpriv_packet_list_put A L pkt None flags h = Some (ret, L, P, h')" using 2 r(1) True by (simp add: avpriv_packet_list_put_def)
      moreover have "list_ok W L P vs h'" unfolding list_ok_def using es(1) b ok2 vs by blast
      ultimately show ?thesis using True r(4) val1(1) by simp
    next
      case False
      have new: "list_entries L ?e = None" "?e \<notin> set es" using es(1,2) by (auto simp: linked_def)
      obtain L' where L': "link_entry L ?e P flags = Some L'" "linked L' (if has_flag flags FF_PACKETLIST_FLAG_PREPEND then ?e # es else es @ [?e])"
        "list_slots (list_entries L') = (list_slots (list_entries L))(?e := P)" using link_entry_linked [OF es(1) new(1), of P flags] by blast
      have put: "avpriv_packet_list_put A L pkt None flags h = Some (ret, L', get_packet_defaults, h')"
        using 2 r(1,5) False L'(1) by (simp add: avpriv_packet_list_put_def av_packet_move_ref_def)
      have "queue_slots (list_entries L) P (Suc ?e) = get_packet_defaults" using new(1) by (simp add: list_slots_def)
      from packets_move [OF ok2 this, of 0] have "packets_ok (W, queue_slots (list_entries L') get_packet_defaults, h')"
        using queue_slots_upd [OF L'(3), of P] by simp
      moreover have "\<forall>e\<in>set (if has_flag flags FF_PACKETLIST_FLAG_PREPEND then ?e # es else es @ [?e]). e < fresh h'" using b le by simp
      moreover have "map (\<lambda>e. packet_value h' (list_slots (list_entries L') e)) es = vs" using vs new(2) L'(3) by (auto intro: map_cong)
      moreover have "packet_value h' (list_slots (list_entries L') ?e) = packet_value h pkt" using r(4) val1(1) L'(3) by simp
      ultimately have "list_ok W L' get_packet_defaults
          (if has_flag flags FF_PACKETLIST_FLAG_PREPEND then packet_value h pkt # vs else vs @ [packet_value h pkt]) h'"
        unfolding list_ok_def using L'(2)
        by (intro exI [of _ "if has_flag flags FF_PACKETLIST_FLAG_PREPEND then ?e # es else es @ [?e]"] conjI) (assumption, assumption, assumption, simp)
      then show ?thesis using put r(5) False by blast
    qed
  qed
qed

lemma list_get_ok:
  assumes "list_ok W L get_packet_defaults (v # vs) h"
  shows "\<exists>L' P. avpriv_packet_list_get L get_packet_defaults = Some (0, L', P) \<and> list_ok W L' P vs h \<and> packet_value h P = v"
proof -
  obtain es0 where es0: "linked L es0" "\<forall>e\<in>set es0. e < fresh h" "packets_ok (W, queue_slots (list_entries L) get_packet_defaults, h)"
    "v # vs = map (\<lambda>e. packet_value h (list_slots (list_entries L) e)) es0" using assms unfolding list_ok_def by (elim exE conjE) (rule that)
  obtain e es where es: "es0 = e # es" "v = packet_value h (list_slots (list_entries L) e)" "vs = map (\<lambda>e. packet_value h (list_slots (list_entries L) e)) es"
    using es0(4) by (cases es0) auto
  let ?P = "list_slots (list_entries L) e"
  obtain L' where L': "avpriv_packet_list_get L get_packet_defaults = Some (0, L', ?P)" "linked L' es"
    "list_slots (list_entries L') = (list_slots (list_entries L))(e := get_packet_defaults)"
    using list_get_linked [OF es0(1) [unfolded es(1)], of get_packet_defaults] by blast
  have "packets_ok (W, queue_slots (list_entries L') ?P, h)"
    using packets_move [OF es0(3), of 0 "Suc e"] queue_slots_upd [OF L'(3), of ?P] by simp
  moreover have "e \<notin> set es" using es0(1) es(1) by (simp add: linked_def)
  then have "map (\<lambda>e. packet_value h (list_slots (list_entries L') e)) es = vs" using es(3) L'(3) by (auto intro: map_cong)
  ultimately have "list_ok W L' ?P vs h" unfolding list_ok_def using L'(2) es0(2) es(1) by auto
  then show ?thesis using L'(1) es(2) by blast
qed

lemma list_free_loop:
  assumes "links en p es" "distinct es" "dom en = set es" "packets_ok (W, queue_slots en pkt, h)" "nesting A > 0"
  shows "\<exists>h'. packet_list_free_loop A p en h = Some (Map.empty, h') \<and> packets_ok (W, queue_slots Map.empty pkt, h') \<and> packet_value h' pkt = packet_value h pkt"
  using assms
proof (induction es arbitrary: en p h)
  case Nil
  then have "p = None" "en = Map.empty" using dom_eq_empty_conv by auto
  then show ?case using Nil.prems(4) by (simp add: packet_list_free_loop.simps)
next
  case (Cons e es)
  obtain E where E: "p = Some e" "en e = Some E" "links en (entry_next E) es" using Cons.prems(1) by auto
  let ?qs = "queue_slots en pkt" and ?en = "en(e := None)"
  have slot: "?qs (Suc e) = entry_pkt E" using E(2) by (simp add: list_slots_def)
  note held = packets_focus [OF Cons.prems(4), of "Suc e", unfolded slot]
  obtain h1 where h1: "av_packet_unref A (entry_pkt E) h = Some (get_packet_defaults, h1)"
    "held W {} (other_blocks W ?qs (Suc e)) (other_refs ?qs (Suc e)) get_packet_defaults h1"
    "kept (other_blocks W ?qs (Suc e)) (other_refs ?qs (Suc e)) h h1" using unref_held [OF held Cons.prems(5)] by (elim exE conjE) (rule that)
  note u = packets_unfocus [OF Cons.prems(4) h1(2,3)]
  have "list_slots ?en = (list_slots en)(e := get_packet_defaults)" by (simp add: list_slots_def fun_eq_iff)
  from queue_slots_upd [OF this, of pkt] have ok: "packets_ok (W, queue_slots ?en pkt, h1)" using u(1) by simp
  have val: "packet_value h1 pkt = packet_value h pkt" using fun_cong [OF u(3), of 0] by (simp add: value_view_def)
  have "links ?en (entry_next E) es" "dom ?en = set es" using E(3) Cons.prems(2,3) by (auto simp: links_upd)
  moreover have "distinct es" using Cons.prems(2) by simp
  ultimately obtain h' where
    h': "packet_list_free_loop A (entry_next E) ?en h1 = Some (Map.empty, h')" "packets_ok (W, queue_slots Map.empty pkt, h')" "packet_value h' pkt = packet_value h1 pkt"
    using Cons.IH [OF _ _ _ ok Cons.prems(5)] by blast
  moreover have "packet_list_free_loop A p en h = packet_list_free_loop A (entry_next E) ?en h1"
    using E(1,2) h1(1) by (subst packet_list_free_loop.simps) simp
  ultimately show ?case using val by (intro exI [of _ h']) simp
qed

lemma list_free_ok:
  assumes "list_ok W L pkt vs h" "nesting A > 0"
  shows "\<exists>L' h'. avpriv_packet_list_free A L h = Some (L', h') \<and> list_ok W L' pkt [] h' \<and> packet_value h' pkt = packet_value h pkt"
proof -
  obtain es where es: "linked L es" "packets_ok (W, queue_slots (list_entries L) pkt, h)" using assms(1) unfolding list_ok_def by blast
  have L: "links (list_entries L) (list_head L) es" "distinct es" "dom (list_entries L) = set es" using es(1) by (simp_all add: linked_def)
  obtain h' where h': "packet_list_free_loop A (list_head L) (list_entries L) h = Some (Map.empty, h')" "packets_ok (W, queue_slots Map.empty pkt, h')"
    "packet_value h' pkt = packet_value h pkt" using list_free_loop [OF L es(2) assms(2)] by blast
  let ?L = "L\<lparr>list_head := None, list_tail := None, list_entries := Map.empty\<rparr>"
  have "list_ok W ?L pkt [] h'" using h'(2) by (simp add: list_ok_def linked_def last_entry_def)
  then show ?thesis using h'(1,3) by (intro exI [of _ ?L] exI [of _ h']) (simp add: avpriv_packet_list_free_def)
qed

lemma list_get_empty: "list_ok W L pkt [] h \<Longrightarrow> avpriv_packet_list_get L pkt = Some (AVERROR_EAGAIN, L, pkt)"
  by (auto simp: list_ok_def linked_def avpriv_packet_list_get_def)

section \<open>Queues of packets\<close>

text \<open>An empty list, and a packet for the witnesses.\<close>

definition empty_list :: PacketList where
  "empty_list = \<lparr>list_head = None, list_tail = None, list_entries = Map.empty\<rparr>"

lemma queue_slots_empty: "queue_slots Map.empty P = (\<lambda>_. get_packet_defaults)(0 := P)"
  by (auto simp: queue_slots_def list_slots_def fun_eq_iff split: nat.split)

lemma empty_list_ok: "packets_ok (W, (\<lambda>_. get_packet_defaults)(0 := P), h) \<Longrightarrow> list_ok W empty_list P [] h"
  by (simp add: list_ok_def linked_def empty_list_def last_entry_def queue_slots_empty)

lemma queue_demo: obtains P h where "list_ok {} empty_list P [] h" "packet_bytes h P = [5, 6]" "pkt_buf P \<noteq> None"
proof -
  have "\<exists>P h. packet_run buffer_demo_env [New 0 2, Write 0 [5, 6]] ({}, \<lambda>_. get_packet_defaults, empty_heap) = Some ({}, (\<lambda>_. get_packet_defaults)(0 := P), h) \<and>
      packet_bytes h P = [5, 6] \<and> pkt_buf P \<noteq> None"
    by (rule exI [of _ "get_packet_defaults\<lparr>pkt_buf := Some (Suc (Suc 0)), pkt_data := Some (0, 0), pkt_size := 2\<rparr>"])
      (simp add: packet_evals packet_bytes_def slice_def splice_def)
  then obtain P h where r: "packet_run buffer_demo_env [New 0 2, Write 0 [5, 6]] ({}, \<lambda>_. get_packet_defaults, empty_heap) = Some ({}, (\<lambda>_. get_packet_defaults)(0 := P), h)"
    "packet_bytes h P = [5, 6]" "pkt_buf P \<noteq> None" by blast
  have "nesting buffer_demo_env > 0" by (simp add: buffer_demo_env_def)
  from packet_reach_ok [OF this packet_run_reach [OF r(1) packet_reach.start]] show ?thesis using that [OF empty_list_ok] r(2,3) by blast
qed

lemma filled_demo: obtains L h v where "list_ok {} L get_packet_defaults [v] h" "value_bytes v = [5, 6]" "list_entries L \<noteq> Map.empty"
proof -
  obtain P h where P: "list_ok {} empty_list P [] h" "packet_bytes h P = [5, 6]" "pkt_buf P \<noteq> None" by (rule queue_demo)
  obtain ret L pkt h' where r: "avpriv_packet_list_put buffer_demo_env empty_list P None 0 h = Some (ret, L, pkt, h')"
    "ret = 0 \<and> pkt = get_packet_defaults \<and> list_ok {} L pkt (if has_flag 0 FF_PACKETLIST_FLAG_PREPEND then packet_value h P # [] else [] @ [packet_value h P]) h' \<or>
     ret < 0 \<and> list_ok {} L pkt [] h' \<and> packet_value h' pkt = packet_value h P"
    using list_put_ok [OF P(1), of buffer_demo_env 0] by (elim exE conjE) (rule that)
  have z: "ret = 0 \<and> list_entries L \<noteq> Map.empty" using r(1) P(3)
    by (auto simp: avpriv_packet_list_put_def new_address_def buffer_demo_env_def av_packet_make_refcounted_def link_entry_def empty_list_def av_packet_move_ref_def)
  have "\<not> has_flag 0 FF_PACKETLIST_FLAG_PREPEND" by (simp add: has_flag_def)
  then have "list_ok {} L get_packet_defaults [packet_value h P] h'" using r(2) z by auto
  then show ?thesis using that [of L "packet_value h P" h'] P(2) z by simp
qed

text \<open>
  Property C37: a list of packets is a queue of their values: putting a packet, when there is memory,
  appends its value, or prepends it where the flag asks for that, and leaves the caller a blank packet;
  otherwise nothing changes. Getting takes the first value, and says when there is none. The packets
  keep their values, wherever their buffers lie.
\<close>

theorem packet_list_is_queue:
  assumes "list_ok W L pkt vs h"
  shows "(\<exists>ret L' pkt' h'. avpriv_packet_list_put A L pkt None flags h = Some (ret, L', pkt', h') \<and>
      (ret = 0 \<and> pkt' = get_packet_defaults \<and>
         list_ok W L' pkt' (if has_flag flags FF_PACKETLIST_FLAG_PREPEND then packet_value h pkt # vs else vs @ [packet_value h pkt]) h' \<or>
       ret < 0 \<and> list_ok W L' pkt' vs h' \<and> packet_value h' pkt' = packet_value h pkt)) \<and>
    (pkt = get_packet_defaults \<longrightarrow> (case vs of
        [] \<Rightarrow> avpriv_packet_list_get L pkt = Some (AVERROR_EAGAIN, L, pkt)
      | v # ws \<Rightarrow> \<exists>L' P. avpriv_packet_list_get L pkt = Some (0, L', P) \<and> list_ok W L' P ws h \<and> packet_value h P = v))"
  using list_put_ok [OF assms] list_get_ok [of W L _ _ h] list_get_empty [of W L pkt h] assms by (auto split: list.split)

theorem packet_list_is_queue_witness:
  "\<exists>P h L' h' v. packet_bytes h P = [5, 6] \<and> avpriv_packet_list_put buffer_demo_env empty_list P None 0 h = Some (0, L', get_packet_defaults, h') \<and>
     list_ok {} L' get_packet_defaults [v] h' \<and> value_bytes v = [5, 6]"
proof -
  obtain P h where P: "list_ok {} empty_list P [] h" "packet_bytes h P = [5, 6]" "pkt_buf P \<noteq> None" by (rule queue_demo)
  obtain ret L' pkt' h' where r: "avpriv_packet_list_put buffer_demo_env empty_list P None 0 h = Some (ret, L', pkt', h')"
    "ret = 0 \<and> pkt' = get_packet_defaults \<and> list_ok {} L' pkt' (if has_flag 0 FF_PACKETLIST_FLAG_PREPEND then packet_value h P # [] else [] @ [packet_value h P]) h' \<or>
     ret < 0 \<and> list_ok {} L' pkt' [] h' \<and> packet_value h' pkt' = packet_value h P"
    using conjunct1 [OF packet_list_is_queue [OF P(1), of buffer_demo_env 0]] by (elim exE conjE) (rule that)
  have "ret = 0" using r(1) P(3)
    by (auto simp: avpriv_packet_list_put_def new_address_def buffer_demo_env_def av_packet_make_refcounted_def link_entry_def empty_list_def av_packet_move_ref_def)
  moreover have "\<not> has_flag 0 FF_PACKETLIST_FLAG_PREPEND" by (simp add: has_flag_def)
  ultimately have "avpriv_packet_list_put buffer_demo_env empty_list P None 0 h = Some (0, L', get_packet_defaults, h')"
    "list_ok {} L' get_packet_defaults [packet_value h P] h'" "value_bytes (packet_value h P) = [5, 6]" using r P(2) by auto
  with P(2) show ?thesis by blast
qed

text \<open>
  Property C38: freeing a list ends, unlinks every entry and releases every packet of it: the list is
  empty, the packet of the caller has kept its value, and no reference is left but those of that packet.
\<close>

theorem packet_list_free_releases:
  assumes "list_ok W L pkt vs h" "nesting A > 0"
  shows "\<exists>L' h'. avpriv_packet_list_free A L h = Some (L', h') \<and> list_ok W L' pkt [] h' \<and> packet_value h' pkt = packet_value h pkt \<and>
    list_entries L' = Map.empty \<and> dom (refs h') = packet_refs pkt"
proof -
  obtain L' h' where r: "avpriv_packet_list_free A L h = Some (L', h')" "list_ok W L' pkt [] h'" "packet_value h' pkt = packet_value h pkt"
    using list_free_ok [OF assms] by blast
  then have L': "list_entries L' = Map.empty" "packets_ok (W, queue_slots (list_entries L') pkt, h')"
    by (auto simp: list_ok_def linked_def)
  then have "dom (refs h') = (\<Union>i :: nat. packet_refs (((\<lambda>_. get_packet_defaults)(0 := pkt)) i))" by (simp add: packets_ok.simps queue_slots_empty)
  also have "\<dots> = packet_refs pkt" by (auto split: if_splits)
  finally show ?thesis using r L'(1) by blast
qed

theorem packet_list_free_releases_witness:
  "\<exists>L h v L' h'. list_ok {} L get_packet_defaults [v] h \<and> value_bytes v = [5, 6] \<and> list_entries L \<noteq> Map.empty \<and>
     avpriv_packet_list_free buffer_demo_env L h = Some (L', h') \<and> list_entries L' = Map.empty \<and> refs h' = Map.empty"
proof -
  obtain L h v where L: "list_ok {} L get_packet_defaults [v] h" "value_bytes v = [5, 6]" "list_entries L \<noteq> Map.empty" by (rule filled_demo)
  have "nesting buffer_demo_env > 0" by (simp add: buffer_demo_env_def)
  from packet_list_free_releases [OF L(1) this] obtain L' h' where "avpriv_packet_list_free buffer_demo_env L h = Some (L', h')"
    "list_entries L' = Map.empty" "dom (refs h') = {}" by auto
  moreover from this(3) have "refs h' = Map.empty" by (simp add: dom_eq_empty_conv)
  ultimately show ?thesis using L by blast
qed

end
