(* ===== verification/Spec2Isabelle.thy ===== *)
theory Spec2Isabelle
  imports JavaIO Geometry Rescale Rational Target Decode Strings Dict Extract Avio Index Streams Seek Qtrle Msvideo1 Rpza Fifo Buffer_Client Pack_Dict Packet_List
begin

text \<open>
  Verification of the native thumbnail extractor of Round Sync and of the FFmpeg code below it.

  The program. \<open>ffmpeg/jni/ffmpeg_thumbnail_jni.c\<close> takes one picture out of a video file that only
  Java can read. \<open>nativeExtractFrame\<close> wraps a Java \<open>RandomAccessSource\<close> into a buffered
  \<open>AVIOContext\<close>, opens the container on it, selects the video stream, seeks to a fraction of its
  duration, decodes until a usable frame at or after the target arrives, scales it, copies it
  rotated into an Android bitmap, and closes everything. Media files are untrusted input, so each
  layer has limits: a byte budget and a deadline for reading, numbers of packets and frames for
  decoding, a size for the picture, the ends of buffers for the decoders.

  Layers, from the bottom.

  \<^item> \<open>Prelude\<close>: C integers as \<open>int\<close> with the wrap-around written out, the division of C, error
    codes, flags, arrays with checked access (\<open>peek\<close>, \<open>poke\<close>, \<open>load\<close>, \<open>store\<close>, all \<open>None\<close> outside the
    array) and counted loops. A result \<open>None\<close> of a function that is an option of a C result stands
    for undefined behaviour or a loop out of fuel; the theorems prove that it does not occur.
  \<^item> \<open>JavaIO\<close>: \<open>java_read_packet\<close>, \<open>java_seek\<close>, \<open>ffmpeg_interrupt\<close> over the struct \<open>JavaAvioContext\<close>.
    The JNI environment is a record of functions. Lemmas: the invariant \<open>avio_ok\<close>, the budget over
    any sequence of calls, what is delivered, the finality of failure and of the deadline.
  \<^item> \<open>Avio\<close>: the read side of \<open>libavformat/aviobuf.c\<close> (\<open>avio_alloc_context\<close>, \<open>fill_buffer\<close>,
    \<open>avio_read\<close>, \<open>avio_read_partial\<close>, \<open>avio_seek\<close>, \<open>avio_skip\<close>, \<open>avio_size\<close>, \<open>avio_feof\<close>, \<open>avio_r8\<close>) over any
    callbacks. The locale \<open>packet_source\<close> is the contract of the callbacks; its interpretation
    \<open>java\<close> is \<open>JavaIO\<close>. The abstract view is a media file and a position: every operation delivers
    the bytes at the position, and returns.
  \<^item> \<open>Strings\<close>, \<open>Dict\<close>: \<open>libavutil/avstring.c\<close>, the escaping of \<open>bprint.c\<close>, and \<open>libavutil/dict.c\<close>, in
    which every allocation may fail. A dictionary refines a finite map; printing and parsing are
    inverse.
  \<^item> \<open>Rescale\<close>, \<open>Binary64\<close>: the 128-bit rescaling and the comparisons of time stamps in
    \<open>libavutil/mathematics.c\<close>, against exact rounding; the double arithmetic the extractor uses.
  \<^item> \<open>Rational\<close>: \<open>libavutil/rational.c\<close> and \<open>av_add_stable\<close>. \<open>av_reduce\<close> finds the best approximation
    (the loop keeps two neighbouring convergents), the arithmetic rounds correctly, and the bits of
    a float are half a unit in the last place away at most; just below a power of two they are not
    always those of the nearest number (\<open>av_q2intfloat_not_nearest\<close>).
  \<^item> \<open>Index\<close>, \<open>Streams\<close>, \<open>Seek\<close>: the index of a stream, the choice of a stream, and all seek paths of
    \<open>libavformat/seek.c\<close> and \<open>avformat.c\<close> over the callbacks of the demuxer. The bisection equals a
    linear search and refines a map, the choice is a lexicographic maximum, the interpolating
    search finds the packet of a target, a seek lands on its index entry.
  \<^item> \<open>Bytestream\<close>, \<open>Qtrle\<close>, \<open>Blocks\<close>, \<open>Msvideo1\<close>, \<open>Rpza\<close>: the reader of a packet
    (\<open>libavcodec/bytestream.h\<close>) and three of the decoders that \<open>ffmpeg/build.gradle\<close> enables, each
    from packet to frame. A plane is a list of bytes; \<open>agree\<close> says which of them a write may touch.
    The locales \<open>rle_coder\<close>, \<open>block_coder\<close> and \<open>block_painter\<close> are the contracts between the loops
    over a picture and the code of a line or a block; they are interpreted for each pixel format
    and kind of block. The decoders read only the packet and write only the picture.
  \<^item> \<open>Simulation\<close>, \<open>Fifo\<close>: the growing ring buffer of \<open>libavutil/fifo.c\<close>. The locale \<open>simulation\<close> is
    refinement of a component with many operations; \<open>fifo\<close> interprets it on the ring buffer and a
    bounded queue.
  \<^item> \<open>Buffer\<close>, \<open>Heap_Steps\<close>, \<open>Buffer_Ops\<close>, \<open>Buffer_Refs\<close>, \<open>Buffer_Pools\<close>, \<open>Buffer_Client\<close>: the reference
    counted buffers of \<open>libavutil/buffer.c\<close> that packets and frames hold their data through, and
    the pools that take buffers back. \<open>Buffer\<close> has the functions on a heap with a map for each type
    of object, in which an access through a dangling pointer is \<open>None\<close>. \<open>Heap_Steps\<close> has the
    invariant \<open>heap_ok\<close> (each counter is the number of references, each block of memory has one
    owner, each pool entry is lent or in the list of its pool) and the steps that keep it; the next
    three lead it through the functions. \<open>Buffer_Client\<close> lets a client make any sequence of calls: no
    call gets stuck, nothing leaks, and each reference behaves like a byte string of its own
    (\<open>value_spec\<close>), although references share memory.
  \<^item> \<open>Packet\<close>, \<open>Packet_Ops\<close>, \<open>Packet_Refs\<close>, \<open>Packet_Calls\<close>, \<open>Packet_Data\<close>, \<open>Packet_Resize\<close>,
    \<open>Packet_Client\<close>, \<open>Packet_Values\<close>, \<open>Packet_List\<close>, \<open>Pack_Dict\<close>: the packets of \<open>libavcodec/packet.c\<close> on the heap
    of \<open>Buffer\<close>, their side data, and the lists of \<open>packet_internal.h\<close>. \<open>held\<close> says that a heap
    contains a well-formed packet and what belongs to others, \<open>kept\<close> that the latter stays as it is;
    each function leads from \<open>held\<close> to \<open>held\<close>. \<open>Packet_Client\<close> lets a client make any sequence of
    calls on any number of packets, and \<open>Packet_Values\<close> concludes that they refine independent
    values (\<open>packet_spec\<close>), that no call gets stuck, that the padding is there and that nothing
    leaks. Its contract (\<open>packet_may\<close>) is that blank packets are filled, that the client's own data are
    padded and that a packet is writable before it is written. A packet may be shrunk and grown when
    it shares its buffer, or has none; the padding may then end up in bytes that others show, and
    \<open>exposed\<close> and \<open>spoilt\<close> say when and what is left (examples are \<open>shrink_overwrites_shared_bytes\<close> and
    \<open>grow_overwrites_shared_bytes\<close>). A list of packets is a queue of their values (\<open>list_ok\<close>).
    \<open>Pack_Dict\<close> is the packed form of a dictionary, which comes from the file.
  \<^item> \<open>Target\<close>, \<open>Geometry\<close>, \<open>Decode\<close>, \<open>Extract\<close>: the extractor itself: the target time stamp, rotation
    and scaling, the decode loop, and \<open>nativeExtractFrame\<close> with its resources. The decode loop takes
    the first frame at the target, or the last one when the input is over or it is interrupted, and
    returns a bounded number of calls after the deadline (\<open>timely\<close>, \<open>supplied\<close>). The field \<open>cut_off\<close>
    of its state, like \<open>received\<close>, only records what has happened.

  Fuel and bounds. A loop whose progress is in its arguments is total in HOL (\<open>function\<close> with a
  measure). A loop over callbacks takes fuel, \<open>None\<close> is missing fuel, and a theorem says what is
  enough: the decoders run with a little more than the bytes left in the packet, since each round
  reads one; \<open>read_loop\<close> of \<open>Avio\<close> with twice the bytes asked for and two more; the searches of
  \<open>Seek\<close> with the size of the file; the loops of \<open>Decode\<close> with the packets left in the file and the microseconds to the
  deadline.
  The callbacks that free a buffer nest no deeper than once, the release of a pool inside the
  release of its last buffer.
  The limits of the extractor (256 MiB, 90 s, 12000 packets, 1200 frames) are the constants of
  the C file.

  Parameters. Java, the JNI and Android bitmap functions, the clock and the allocator, the
  demuxer, the decoder as the extractor sees it, the scaler, \<open>av_display_rotation_get\<close>, and
  \<open>ff_reget_buffer\<close> with its contract \<open>reget_ok\<close> are arguments of the definitions that use them. So
  are the allocation functions that a user gives to a pool, with the contract \<open>user_alloc_ok\<close>; the
  user's callbacks that free data take it back and are recorded as events.

  Not modelled. The other demuxers and decoders, the scaler and the assembly code of the FFmpeg
  tree: they are parameters above. In the modelled files: writing, checksums, protocols and dynamic
  buffers of \<open>aviobuf.c\<close>; formatted printing and paths of \<open>avstring.c\<close>; \<open>av_bessel_i0\<close> of
  \<open>mathematics.c\<close>; stream specifiers and stream creation of \<open>avformat.c\<close>;
  \<open>ff_configure_buffers_for_index\<close> of \<open>seek.c\<close>; the writer of \<open>bytestream.h\<close>; the names
  of side data, \<open>ff_side_data_set_prft\<close> and the container fifo of \<open>packet.c\<close>; threads, so that the
  functions of \<open>buffer.c\<close> run one after the other. Logging has no effect on
  a result and is left out. The Android application and rclone are programs of other languages.
\<close>

end
